(* ===== verification/Prelude.thy ===== *)
theory Prelude
  imports Main "HOL-Library.Word" "HOL-Library.Finite_Map"
begin

text \<open>
  Shared vocabulary of the development. It holds the names of the machine types, the result
  type of code that can fault, the finite heaps on which the linked structures of the program
  live, list segments in such heaps, little-endian byte encodings, and the generic lemmas the
  component theories use. Nothing here models a particular function of the program.
\<close>

unbundle bit_operations_syntax

section \<open>Machine types\<close>

type_synonym byte = "8 word"
type_synonym u16 = "16 word"
type_synonym u32 = "32 word"
type_synonym u64 = "64 word"

text \<open>
  A pointer is an address or NULL (\<open>None\<close>). Addresses are abstract: the code only compares them
  and follows them.
\<close>

type_synonym addr = nat
type_synonym ptr = "nat option"

abbreviation NULL :: ptr where "NULL \<equiv> None"

named_theorems res_simps \<open>evaluation of results that can fault\<close>
named_theorems seg_simps \<open>list segments in heaps\<close>

section \<open>Results of code that can fault\<close>

text \<open>
  What C leaves undefined or what stops the process is a value: a dereference of NULL, an access
  to a block that is not allocated, a second \<open>free\<close>, an access outside a block, a failed
  \<open>assert\<close>, \<open>exit\<close>, a division by zero, and a loop that does not end within its fuel.
\<close>

datatype fault = NullDeref | UseAfterFree | DoubleFree | OutOfBounds | AssertFail | ExitFailure | DivByZero | Diverges

datatype 'a res = Fault fault | Ok 'a

fun res_bind :: "'a res \<Rightarrow> ('a \<Rightarrow> 'b res) \<Rightarrow> 'b res" where
  "res_bind (Fault f) k = Fault f"
| "res_bind (Ok x) k = k x"

fun is_ok :: "'a res \<Rightarrow> bool" where
  "is_ok (Ok x) = True"
| "is_ok (Fault f) = False"

definition c_assert :: "bool \<Rightarrow> unit res" where
  "c_assert b = (if b then Ok () else Fault AssertFail)"

lemma c_assert_simps [simp]:
  "c_assert True = Ok ()"
  "c_assert False = Fault AssertFail"
  by (simp_all add: c_assert_def)

lemma res_bind_cong [fundef_cong]:
  assumes "m = m'" and "\<And>x. m' = Ok x \<Longrightarrow> k x = k' x"
  shows "res_bind m k = res_bind m' k'"
  using assms by (cases m') auto

lemma res_bind_Ok_iff [res_simps]:
  "res_bind m k = Ok y \<longleftrightarrow> (\<exists>x. m = Ok x \<and> k x = Ok y)"
  by (cases m) auto

lemma res_bind_OkE:
  assumes "res_bind m k = Ok y"
  obtains x where "m = Ok x" and "k x = Ok y"
  using assms by (cases m) auto

lemma is_ok_iff: "is_ok m \<longleftrightarrow> (\<exists>x. m = Ok x)"
  by (cases m) auto

section \<open>Heaps\<close>

type_synonym 'n heap = "(addr, 'n) fmap"

definition deref :: "'n heap \<Rightarrow> ptr \<Rightarrow> 'n res" where
  "deref h p = (case p of None \<Rightarrow> Fault NullDeref
     | Some a \<Rightarrow> (case fmlookup h a of None \<Rightarrow> Fault UseAfterFree | Some n \<Rightarrow> Ok n))"

definition heap_write :: "'n heap \<Rightarrow> ptr \<Rightarrow> ('n \<Rightarrow> 'n) \<Rightarrow> 'n heap res" where
  "heap_write h p f = (case p of None \<Rightarrow> Fault NullDeref
     | Some a \<Rightarrow> (case fmlookup h a of None \<Rightarrow> Fault UseAfterFree
                 | Some n \<Rightarrow> Ok (fmupd a (f n) h)))"

text \<open>\<open>free(NULL)\<close> is a no-op, \<open>free\<close> of a block that is not allocated is an error.\<close>

definition heap_free :: "'n heap \<Rightarrow> ptr \<Rightarrow> 'n heap res" where
  "heap_free h p = (case p of None \<Rightarrow> Ok h
     | Some a \<Rightarrow> (if a |\<in>| fmdom h then Ok (fmdrop a h) else Fault DoubleFree))"

text \<open>
  \<open>malloc\<close> chooses the address: it is an argument of the operations that allocate, \<open>None\<close> when the
  allocation fails. What the C library promises of it is \<open>fresh_in\<close>.
\<close>

definition fresh_in :: "'n heap \<Rightarrow> ptr \<Rightarrow> bool" where
  "fresh_in h p = (case p of None \<Rightarrow> False | Some a \<Rightarrow> a |\<notin>| fmdom h)"

definition heap_alloc :: "'n heap \<Rightarrow> ptr \<Rightarrow> 'n \<Rightarrow> 'n heap res" where
  "heap_alloc h p n = (case p of None \<Rightarrow> Fault NullDeref | Some a \<Rightarrow> Ok (fmupd a n h))"

text \<open>
  Where the code does not look at the address it gets, and does not check it either, the
  allocation is taken to succeed with an address that is not in use.
\<close>

definition fresh_addr :: "'n heap \<Rightarrow> addr" where
  "fresh_addr h = Suc (Max (insert 0 (fset (fmdom h))))"

text \<open>Several blocks freed one after the other.\<close>

primrec free_all :: "'n heap \<Rightarrow> addr list \<Rightarrow> 'n heap res" where
  "free_all h [] = Ok h"
| "free_all h (a # as) = res_bind (heap_free h (Some a)) (\<lambda>h1. free_all h1 as)"

lemma fresh_addr_notin [simp]: "fresh_addr h |\<notin>| fmdom h"
proof
  assume "fresh_addr h |\<in>| fmdom h"
  then have "fresh_addr h \<le> Max (insert 0 (fset (fmdom h)))" by (intro Max_ge) auto
  then show False by (simp add: fresh_addr_def)
qed

lemma fresh_addr_lookup [simp]: "fmlookup h (fresh_addr h) = None"
  by (rule fmdom_notD) simp

lemma fresh_addr_simps:
  "fresh_addr fmempty = 1"
  "fresh_addr (fmupd a x h) = max (Suc a) (fresh_addr h)"
proof -
  have "insert 0 (fset (fmdom (fmupd a x h))) = insert a (insert 0 (fset (fmdom h)))" by auto
  then have "Max (insert 0 (fset (fmdom (fmupd a x h)))) = max a (Max (insert 0 (fset (fmdom h))))"
    by (simp only:) (rule Max_insert, auto)
  then show "fresh_addr (fmupd a x h) = max (Suc a) (fresh_addr h)"
    by (simp only: fresh_addr_def max_Suc_Suc)
qed (simp add: fresh_addr_def)

lemma fresh_in_fresh_addr [simp]: "fresh_in h (Some (fresh_addr h))"
  by (simp add: fresh_in_def)

lemma deref_simps [simp]:
  "deref h None = Fault NullDeref"
  "fmlookup h a = Some n \<Longrightarrow> deref h (Some a) = Ok n"
  "fmlookup h a = None \<Longrightarrow> deref h (Some a) = Fault UseAfterFree"
  by (simp_all add: deref_def)

lemma deref_Ok_iff [res_simps]:
  "deref h p = Ok n \<longleftrightarrow> (\<exists>a. p = Some a \<and> fmlookup h a = Some n)"
  by (auto simp: deref_def split: option.splits)

lemma heap_write_simps [simp]:
  "heap_write h None f = Fault NullDeref"
  "fmlookup h a = Some n \<Longrightarrow> heap_write h (Some a) f = Ok (fmupd a (f n) h)"
  "fmlookup h a = None \<Longrightarrow> heap_write h (Some a) f = Fault UseAfterFree"
  by (simp_all add: heap_write_def)

lemma heap_free_simps [simp]:
  "heap_free h None = Ok h"
  "fmlookup h a = Some n \<Longrightarrow> heap_free h (Some a) = Ok (fmdrop a h)"
  "fmlookup h a = None \<Longrightarrow> heap_free h (Some a) = Fault DoubleFree"
  by (simp_all add: heap_free_def fmdomI fmdom_notI)

lemma heap_free_Ok_iff [res_simps]:
  "heap_free h (Some a) = Ok h' \<longleftrightarrow> a |\<in>| fmdom h \<and> h' = fmdrop a h"
  by (auto simp: heap_free_def)

lemma heap_alloc_simps [simp]:
  "heap_alloc h None n = Fault NullDeref"
  "heap_alloc h (Some a) n = Ok (fmupd a n h)"
  by (simp_all add: heap_alloc_def)

lemma fresh_in_simps [simp]:
  "\<not> fresh_in h None"
  "fresh_in h (Some a) \<longleftrightarrow> a |\<notin>| fmdom h"
  by (simp_all add: fresh_in_def)

lemma fmdrop_card_less: "a |\<in>| fmdom h \<Longrightarrow> fcard (fmdom (fmdrop a h)) < fcard (fmdom h)"
  by (simp only: fmdom_drop fcard_fminus1_less)

lemma fmdrop_lookup_card_less [intro]:
  "fmlookup h a = Some n \<Longrightarrow> fcard (fmdom (fmdrop a h)) < fcard (fmdom h)"
  by (rule fmdrop_card_less) (rule fmdomI)

lemma fmdom_fmupd_present:
  "fmlookup h a = Some m \<Longrightarrow> fset (fmdom (fmupd a n h)) = fset (fmdom h)"
  by (simp add: insert_absorb fmdomI)

lemma fmdrop_fmupd_same [simp]: "fmdrop a (fmupd a x h) = fmdrop a h"
  by (rule fmap_ext) simp

lemma fmdom_empty_conv: "fset (fmdom h) = {} \<Longrightarrow> h = fmempty"
  by (intro fmap_ext) (metis empty_iff fmdom_notD fmempty_lookup)

lemma fmdom_fmdrop_set [simp]: "x |\<in>| fmdom (fmdrop_set A h) \<longleftrightarrow> x |\<in>| fmdom h \<and> x \<notin> A"
  by (auto simp: fmlookup_dom_iff)

lemma free_all_Ok:
  "distinct as \<Longrightarrow> set as \<subseteq> fset (fmdom h) \<Longrightarrow> free_all h as = Ok (fmdrop_set (set as) h)"
proof (induction as arbitrary: h)
  case Nil
  then show ?case by simp
next
  case (Cons a as)
  have "fmdrop_set (set as) (fmdrop a h) = fmdrop_set (set (a # as)) h"
    by (intro fmap_ext) simp
  moreover have "heap_free h (Some a) = Ok (fmdrop a h)"
    using Cons.prems by (simp add: heap_free_def)
  moreover have "free_all (fmdrop a h) as = Ok (fmdrop_set (set as) (fmdrop a h))"
    using Cons.prems by (intro Cons.IH) auto
  ultimately show ?case by simp
qed

text \<open>A sum in which one summand changes.\<close>

lemma sum_one_more:
  fixes f g :: "nat \<Rightarrow> nat"
  assumes "x < n" and "\<And>y. y \<noteq> x \<Longrightarrow> g y = f y" and "g x = f x + k"
  shows "sum g {..<n} = sum f {..<n} + k"
proof -
  have "sum g {..<n} = g x + sum g ({..<n} - {x})" using assms(1) by (intro sum.remove) auto
  also have "sum g ({..<n} - {x}) = sum f ({..<n} - {x})" using assms(2) by (intro sum.cong) auto
  also have "sum f {..<n} = f x + sum f ({..<n} - {x})" using assms(1) by (intro sum.remove) auto
  ultimately show ?thesis using assms(3) by simp
qed

lemma sum_one_pos:
  fixes f :: "nat \<Rightarrow> nat"
  shows "x < n \<Longrightarrow> f x \<le> sum f {..<n}"
  by (intro member_le_sum) auto

section \<open>List segments\<close>

text \<open>
  \<open>lseg nx h p as q\<close>: following the \<open>nx\<close> field from \<open>p\<close> visits exactly the blocks \<open>as\<close> and then
  arrives at \<open>q\<close>.
\<close>

primrec lseg :: "('n \<Rightarrow> ptr) \<Rightarrow> 'n heap \<Rightarrow> ptr \<Rightarrow> addr list \<Rightarrow> ptr \<Rightarrow> bool" where
  "lseg nx h p [] q \<longleftrightarrow> p = q"
| "lseg nx h p (a # as) q \<longleftrightarrow>
     p = Some a \<and> (\<exists>n. fmlookup h a = Some n \<and> lseg nx h (nx n) as q)"

text \<open>The values a list of blocks holds.\<close>

definition seg_vals :: "('n \<Rightarrow> 'v) \<Rightarrow> 'n heap \<Rightarrow> addr list \<Rightarrow> 'v list" where
  "seg_vals vl h as = map (\<lambda>a. vl (the (fmlookup h a))) as"

lemma seg_vals_simps [simp]:
  "seg_vals vl h [] = []"
  "seg_vals vl h (a # as) = vl (the (fmlookup h a)) # seg_vals vl h as"
  "seg_vals vl h (as @ bs) = seg_vals vl h as @ seg_vals vl h bs"
  "length (seg_vals vl h as) = length as"
  by (simp_all add: seg_vals_def)

lemma lseg_append [seg_simps]:
  "lseg nx h p (as @ bs) r \<longleftrightarrow> (\<exists>q. lseg nx h p as q \<and> lseg nx h q bs r)"
  by (induction as arbitrary: p) auto

lemma lseg_NULL_start [simp]: "lseg nx h None as q \<longleftrightarrow> as = [] \<and> q = None"
  by (cases as) auto

lemma lseg_fmupd_other [simp]:
  "a \<notin> set as \<Longrightarrow> lseg nx (fmupd a n h) p as q \<longleftrightarrow> lseg nx h p as q"
  by (induction as arbitrary: p) auto

lemma lseg_fmdrop_other [simp]:
  "a \<notin> set as \<Longrightarrow> lseg nx (fmdrop a h) p as q \<longleftrightarrow> lseg nx h p as q"
  by (induction as arbitrary: p) auto

lemma seg_vals_fmupd_other [simp]:
  "a \<notin> set as \<Longrightarrow> seg_vals vl (fmupd a n h) as = seg_vals vl h as"
  by (simp add: seg_vals_def)

lemma seg_vals_fmdrop_other [simp]:
  "a \<notin> set as \<Longrightarrow> seg_vals vl (fmdrop a h) as = seg_vals vl h as"
  by (simp add: seg_vals_def)

lemma lseg_dom: "lseg nx h p as q \<Longrightarrow> set as \<subseteq> fset (fmdom h)"
  by (induction as arbitrary: p) (auto intro: fmdomI)

lemma lseg_hd: "lseg nx h (Some a) as q \<Longrightarrow> as \<noteq> [] \<Longrightarrow> hd as = a"
  by (cases as) auto

section \<open>Blocks of bytes\<close>

text \<open>
  A block of memory is the list of its bytes. Reads and writes outside of it are faults.
\<close>

type_synonym block = "byte list"

definition put_at :: "'a list \<Rightarrow> nat \<Rightarrow> 'a list \<Rightarrow> 'a list" where
  "put_at b off xs = take off b @ xs @ drop (off + length xs) b"

definition blk_write :: "block \<Rightarrow> nat \<Rightarrow> byte list \<Rightarrow> block res" where
  "blk_write b off xs =
     (if off + length xs \<le> length b then Ok (put_at b off xs) else Fault OutOfBounds)"

definition blk_read :: "block \<Rightarrow> nat \<Rightarrow> nat \<Rightarrow> byte list res" where
  "blk_read b off n = (if off + n \<le> length b then Ok (take n (drop off b)) else Fault OutOfBounds)"

lemma length_put_at [simp]: "off + length xs \<le> length b \<Longrightarrow> length (put_at b off xs) = length b"
  by (simp add: put_at_def)

lemma take_put_at [simp]:
  "off + length xs \<le> length b \<Longrightarrow> take (off + length xs) (put_at b off xs) = take off b @ xs"
  by (simp add: put_at_def)

lemma take_put_at_before:
  "n \<le> off \<Longrightarrow> off \<le> length b \<Longrightarrow> take n (put_at b off xs) = take n b"
  by (simp add: put_at_def min_def)

lemma drop_put_at_after:
  "off + length xs \<le> length b \<Longrightarrow> off + length xs \<le> n \<Longrightarrow> drop n (put_at b off xs) = drop n b"
  by (simp add: put_at_def)

lemma blk_write_Ok [simp]: "off + length xs \<le> length b \<Longrightarrow> blk_write b off xs = Ok (put_at b off xs)"
  by (simp add: blk_write_def)

lemma blk_write_Fault [simp]: "\<not> off + length xs \<le> length b \<Longrightarrow> blk_write b off xs = Fault OutOfBounds"
  by (simp add: blk_write_def)

section \<open>C strings and formatted output\<close>

text \<open>The bytes of a string literal, without and with its terminating NUL.\<close>

definition bytes_of :: "string \<Rightarrow> byte list" where
  "bytes_of s = map of_char s"

definition cstr :: "string \<Rightarrow> byte list" where
  "cstr s = bytes_of s @ [0]"

text \<open>
  \<open>snprintf(b + off, sz, fmt, ...)\<close> where the formatted text is \<open>s\<close>: at most \<open>sz - 1\<close> of its
  bytes and a NUL are stored, nothing at all when \<open>sz\<close> is 0, and the length of the whole
  text is returned. \<open>sprintf\<close> stores everything.
\<close>

definition c_snprintf :: "block \<Rightarrow> nat \<Rightarrow> nat \<Rightarrow> byte list \<Rightarrow> (nat \<times> block) res" where
  "c_snprintf b off sz s =
     (if sz = 0 then Ok (length s, b)
      else res_bind (blk_write b off (take (sz - 1) s @ [0])) (\<lambda>b'. Ok (length s, b')))"

definition c_sprintf :: "block \<Rightarrow> nat \<Rightarrow> byte list \<Rightarrow> (nat \<times> block) res" where
  "c_sprintf b off s = res_bind (blk_write b off (s @ [0])) (\<lambda>b'. Ok (length s, b'))"

text \<open>A 64-bit unsigned subtraction, as \<open>size_t\<close> performs it.\<close>

definition size_sub :: "nat \<Rightarrow> nat \<Rightarrow> nat" where
  "size_sub a b = unat (of_nat a - of_nat b :: u64)"

lemma size_sub_le: "b \<le> a \<Longrightarrow> a < 2 ^ 64 \<Longrightarrow> size_sub a b = a - b"
proof -
  assume a: "b \<le> a" "a < 2 ^ 64"
  then have "(of_nat a - of_nat b :: u64) = of_nat (a - b)" by (simp add: of_nat_diff)
  moreover have "unat (of_nat (a - b) :: u64) = a - b"
    using a by (simp add: unat_of_nat del: of_nat_diff)
  ultimately show ?thesis by (simp add: size_sub_def)
qed

lemma length_bytes_of [simp]: "length (bytes_of s) = length s"
  by (simp add: bytes_of_def)

lemma length_cstr [simp]: "length (cstr s) = Suc (length s)"
  by (simp add: cstr_def)

lemma byte_of_char_inject: "(of_char c :: byte) = of_char d \<longleftrightarrow> c = d"
proof
  assume a: "(of_char c :: byte) = of_char d"
  have "of_char e mod 256 = (of_char e :: nat)" for e
    using of_char_of [where 'a = nat] by simp
  then have "take_bit 8 (of_char e) = (of_char e :: nat)" for e by (simp add: take_bit_eq_mod)
  moreover have "(of_nat (of_char c) :: byte) = of_nat (of_char d)"
    using a by (simp only: of_nat_of_char)
  ultimately have "of_char c = (of_char d :: nat)"
    by (simp add: word_of_nat_eq_iff del: of_nat_of_char)
  then show "c = d" by simp
qed simp

lemma bytes_of_inject [simp]: "bytes_of s = bytes_of t \<longleftrightarrow> s = t"
  unfolding bytes_of_def by (rule inj_map_eq_map) (simp add: inj_def byte_of_char_inject)

lemma cstr_inject [simp]: "cstr s = cstr t \<longleftrightarrow> s = t"
  by (simp add: cstr_def)

end
