(* ===== verification/Fifo.thy ===== *)
theory Fifo
  imports Prelude
begin

text \<open>
  The contract of a first-in first-out queue whose nodes the caller's allocator provides, and
  what a client may conclude from it. Two components provide it: the queue of \<open>src/lfq.c\<close>
  (theory Lfq) and the divider queue of the \<open>stailq_*_lf_spsc\<close> macros in \<open>src/main.h\<close>
  (theory Stailq). The second one has no answer on an empty queue, which is why the law for
  the empty queue is a separate locale.
\<close>

text \<open>The abstract queue a client sees: a list, the next element to leave first.\<close>

datatype 'v fifo_op = Enq ptr 'v | Deq

fun fifo_spec :: "'v list \<Rightarrow> 'v fifo_op list \<Rightarrow> 'v list \<times> 'v list" where
  "fifo_spec vs [] = ([], vs)"
| "fifo_spec vs (Enq a v # ops) = fifo_spec (vs @ [v]) ops"
| "fifo_spec vs (Deq # ops) =
     (case vs of [] \<Rightarrow> fifo_spec [] ops
      | v # vs' \<Rightarrow> (let (outs, fin) = fifo_spec vs' ops in (v # outs, fin)))"

text \<open>The values put in are exactly the values taken out followed by those still waiting.\<close>

fun enq_vals :: "'v fifo_op list \<Rightarrow> 'v list" where
  "enq_vals [] = []"
| "enq_vals (Enq a v # ops) = v # enq_vals ops"
| "enq_vals (Deq # ops) = enq_vals ops"

lemma fifo_spec_conserves:
  "fst (fifo_spec vs ops) @ snd (fifo_spec vs ops) = vs @ enq_vals ops"
  by (induction vs ops rule: fifo_spec.induct) (auto split: list.splits prod.splits)

text \<open>
  Running a sequence of operations on an implementation, given by its enqueue and its dequeue.
  \<open>fifo_run\<close> collects the values that were really taken out; \<open>fifo_allocs_ok\<close> says that the
  allocator behaves: the block it hands out is not in use (\<open>fresh\<close>).
\<close>

fun fifo_run :: "(ptr \<Rightarrow> 'v \<Rightarrow> 'q \<Rightarrow> 'q res) \<Rightarrow> ('q \<Rightarrow> ('v option \<times> 'q) res) \<Rightarrow>
    'q \<Rightarrow> 'v fifo_op list \<Rightarrow> ('v list \<times> 'q) res" where
  "fifo_run enq deq q [] = Ok ([], q)"
| "fifo_run enq deq q (Enq a v # ops) = res_bind (enq a v q) (\<lambda>q1. fifo_run enq deq q1 ops)"
| "fifo_run enq deq q (Deq # ops) =
     res_bind (deq q) (\<lambda>(r, q1). res_bind (fifo_run enq deq q1 ops) (\<lambda>(rs, q2).
       Ok (case r of None \<Rightarrow> (rs, q2) | Some v \<Rightarrow> (v # rs, q2))))"

fun fifo_allocs_ok :: "('q \<Rightarrow> ptr \<Rightarrow> bool) \<Rightarrow> (ptr \<Rightarrow> 'v \<Rightarrow> 'q \<Rightarrow> 'q res) \<Rightarrow>
    ('q \<Rightarrow> ('v option \<times> 'q) res) \<Rightarrow> 'q \<Rightarrow> 'v fifo_op list \<Rightarrow> bool" where
  "fifo_allocs_ok fresh enq deq q [] = True"
| "fifo_allocs_ok fresh enq deq q (Enq a v # ops) =
     (fresh q a \<and>
      (case enq a v q of Ok q1 \<Rightarrow> fifo_allocs_ok fresh enq deq q1 ops | Fault _ \<Rightarrow> True))"
| "fifo_allocs_ok fresh enq deq q (Deq # ops) =
     (case deq q of Ok (r, q1) \<Rightarrow> fifo_allocs_ok fresh enq deq q1 ops | Fault _ \<Rightarrow> True)"

primrec fifo_deq_n :: "('q \<Rightarrow> ('v option \<times> 'q) res) \<Rightarrow> nat \<Rightarrow> 'q \<Rightarrow>
    ('v option list \<times> 'q) res" where
  "fifo_deq_n deq 0 q = Ok ([], q)"
| "fifo_deq_n deq (Suc n) q =
     res_bind (deq q) (\<lambda>(r, q1).
       res_bind (fifo_deq_n deq n q1) (\<lambda>(rs, q2). Ok (r # rs, q2)))"

locale fifo =
  fixes rep :: "'q \<Rightarrow> 'v list \<Rightarrow> bool"
    and fresh :: "'q \<Rightarrow> ptr \<Rightarrow> bool"
    and enq :: "ptr \<Rightarrow> 'v \<Rightarrow> 'q \<Rightarrow> 'q res"
    and deq :: "'q \<Rightarrow> ('v option \<times> 'q) res"
  assumes enq_rep: "rep q vs \<Longrightarrow> fresh q a \<Longrightarrow> \<exists>q'. enq a v q = Ok q' \<and> rep q' (vs @ [v])"
    and deq_rep: "rep q (v # vs) \<Longrightarrow> \<exists>q'. deq q = Ok (Some v, q') \<and> rep q' vs"
begin

lemma deq_n_all:
  "rep q (vs @ ws) \<Longrightarrow> \<exists>q'. fifo_deq_n deq (length vs) q = Ok (map Some vs, q') \<and> rep q' ws"
proof (induction vs arbitrary: q)
  case Nil
  then show ?case by simp
next
  case (Cons v vs)
  then obtain q1 where q1: "deq q = Ok (Some v, q1)" "rep q1 (vs @ ws)"
    using deq_rep by fastforce
  with Cons.IH [OF q1(2)] show ?case by auto
qed

lemma enq_then_deq:
  assumes "rep q []" and "fresh q a"
  shows "\<exists>q1 q2. enq a v q = Ok q1 \<and> deq q1 = Ok (Some v, q2) \<and> rep q2 []"
proof -
  from enq_rep [OF assms] obtain q1 where "enq a v q = Ok q1" "rep q1 [v]" by auto
  with deq_rep show ?thesis by fastforce
qed

end

text \<open>
  A queue that also answers on empty: any sequence of operations whose allocations succeed gives
  what the list gives.
\<close>

locale fifo_total = fifo rep fresh enq deq
  for rep :: "'q \<Rightarrow> 'v list \<Rightarrow> bool" and fresh and enq and deq +
  assumes deq_empty: "rep q [] \<Longrightarrow> deq q = Ok (None, q)"
begin

lemma run_refines_spec:
  "rep q vs \<Longrightarrow> fifo_allocs_ok fresh enq deq q ops \<Longrightarrow>
     \<exists>q'. fifo_run enq deq q ops = Ok (fst (fifo_spec vs ops), q') \<and> rep q' (snd (fifo_spec vs ops))"
proof (induction ops arbitrary: q vs)
  case Nil
  then show ?case by simp
next
  case (Cons op ops)
  show ?case
  proof (cases op)
    case (Enq a v)
    with Cons.prems enq_rep obtain q1 where "enq a v q = Ok q1" "rep q1 (vs @ [v])"
      by fastforce
    with Cons Enq show ?thesis by simp
  next
    case Deq
    show ?thesis
    proof (cases vs)
      case Nil
      with Cons.prems Deq have "deq q = Ok (None, q)" "fifo_allocs_ok fresh enq deq q ops"
        by (simp_all add: deq_empty)
      with Cons.IH [of q "[]"] Cons.prems(1) Nil Deq show ?thesis by auto
    next
      case (Cons v ws)
      with Cons.prems(1) deq_rep obtain q1 where q1: "deq q = Ok (Some v, q1)" "rep q1 ws"
        by metis
      with \<open>fifo_allocs_ok fresh enq deq q (op # ops)\<close> Deq have "fifo_allocs_ok fresh enq deq q1 ops" by simp
      with Cons.IH [OF q1(2)] obtain q2 where
        "fifo_run enq deq q1 ops = Ok (fst (fifo_spec ws ops), q2)" "rep q2 (snd (fifo_spec ws ops))" by blast
      with q1 Deq Cons show ?thesis by (auto split: prod.splits)
    qed
  qed
qed

end

end
