(* ===== verification/Stailq.thy ===== *)
theory Stailq
  imports Fifo
begin

text \<open>
  The singly linked tail queues of \<open>src/main.h\<close>: the plain macros \<open>stailq_new\<close>, \<open>stailq_in\<close>,
  \<open>stailq_out\<close> and \<open>stailq_free\<close>, and the divider variant \<open>stailq_*_lf_spsc\<close> through which the main
  thread hands hooks to a worker. Both are written over the \<open>STAILQ\<close> macros of
  \<open>sys/queue.h\<close>, whose behaviour queue(3) documents: \<open>stqh_last\<close> holds the address of the
  pointer field that ends the list, which is the head's \<open>stqh_first\<close> when the list is empty and
  the \<open>stqe_next\<close> field of the last node otherwise.
\<close>

section \<open>Data: the head, the nodes, the tail reference\<close>

record 'v stailq_node =
  val :: "'v option"
  stqe_next :: ptr

datatype tail_ref = HeadFirst | NodeNext addr

record 'v stailq =
  stqh_first :: ptr
  stqh_last :: tail_ref
  snodes :: "'v stailq_node heap"

section \<open>The macros of sys/queue.h the code uses\<close>

definition STAILQ_INIT :: "'v stailq \<Rightarrow> 'v stailq" where
  "STAILQ_INIT q = q\<lparr>stqh_first := NULL, stqh_last := HeadFirst\<rparr>"

definition STAILQ_FIRST :: "'v stailq \<Rightarrow> ptr" where
  "STAILQ_FIRST q = stqh_first q"

definition STAILQ_NEXT :: "'v stailq \<Rightarrow> ptr \<Rightarrow> ptr res" where
  "STAILQ_NEXT q p = res_bind (deref (snodes q) p) (\<lambda>n. Ok (stqe_next n))"

text \<open>\<open>*(head)->stqh_last\<close>, read and written.\<close>

fun load_tail :: "'v stailq \<Rightarrow> ptr res" where
  "load_tail q = (case stqh_last q of HeadFirst \<Rightarrow> Ok (stqh_first q)
     | NodeNext a \<Rightarrow> STAILQ_NEXT q (Some a))"

fun store_tail :: "'v stailq \<Rightarrow> ptr \<Rightarrow> 'v stailq res" where
  "store_tail q p = (case stqh_last q of HeadFirst \<Rightarrow> Ok (q\<lparr>stqh_first := p\<rparr>)
     | NodeNext a \<Rightarrow> res_bind (heap_write (snodes q) (Some a) (\<lambda>n. n\<lparr>stqe_next := p\<rparr>))
         (\<lambda>h. Ok (q\<lparr>snodes := h\<rparr>)))"

definition STAILQ_INSERT_TAIL :: "'v stailq \<Rightarrow> addr \<Rightarrow> 'v stailq res" where
  "STAILQ_INSERT_TAIL q elm =
     res_bind (heap_write (snodes q) (Some elm) (\<lambda>n. n\<lparr>stqe_next := NULL\<rparr>)) (\<lambda>h.
     res_bind (store_tail (q\<lparr>snodes := h\<rparr>) (Some elm)) (\<lambda>q1.
       Ok (q1\<lparr>stqh_last := NodeNext elm\<rparr>)))"

definition STAILQ_REMOVE_HEAD :: "'v stailq \<Rightarrow> 'v stailq res" where
  "STAILQ_REMOVE_HEAD q =
     res_bind (STAILQ_NEXT q (stqh_first q)) (\<lambda>nx.
       Ok (if nx = NULL then q\<lparr>stqh_first := nx, stqh_last := HeadFirst\<rparr>
           else q\<lparr>stqh_first := nx\<rparr>))"

section \<open>The plain queue macros of main.h\<close>

text \<open>A new head; the memory \<open>malloc\<close> returns holds nothing of its own.\<close>

definition stailq_new :: "'v stailq" where
  "stailq_new = STAILQ_INIT \<lparr>stqh_first = NULL, stqh_last = HeadFirst, snodes = fmempty\<rparr>"

definition stailq_alloc_node :: "ptr \<Rightarrow> 'v option \<Rightarrow> 'v stailq \<Rightarrow> 'v stailq res" where
  "stailq_alloc_node np v q =
     res_bind (heap_alloc (snodes q) np \<lparr>val = v, stqe_next = NULL\<rparr>) (\<lambda>h. Ok (q\<lparr>snodes := h\<rparr>))"

definition stailq_in :: "ptr \<Rightarrow> 'v option \<Rightarrow> 'v stailq \<Rightarrow> 'v stailq res" where
  "stailq_in np v q =
     res_bind (stailq_alloc_node np v q) (\<lambda>q1. STAILQ_INSERT_TAIL q1 (the np))"

definition stailq_out :: "'v stailq \<Rightarrow> ('v option \<times> 'v stailq) res" where
  "stailq_out q =
     (let np = STAILQ_FIRST q in
      if np = NULL then Ok (None, q)
      else res_bind (deref (snodes q) np) (\<lambda>n.
           res_bind (STAILQ_REMOVE_HEAD q) (\<lambda>q1.
           res_bind (heap_free (snodes q1) np) (\<lambda>h. Ok (val n, q1\<lparr>snodes := h\<rparr>)))))"

lemma STAILQ_REMOVE_HEAD_OkD:
  assumes "STAILQ_REMOVE_HEAD q = Ok q1"
  shows "\<exists>a n. stqh_first q = Some a \<and> fmlookup (snodes q) a = Some n \<and> snodes q1 = snodes q"
proof -
  from assms obtain n where "deref (snodes q) (stqh_first q) = Ok n" "snodes q1 = snodes q"
    by (auto simp: STAILQ_REMOVE_HEAD_def STAILQ_NEXT_def res_bind_Ok_iff)
  then show ?thesis by (auto simp: deref_Ok_iff)
qed

text \<open>
  \<open>stailq_free(p, vfree)\<close>: every node is unlinked and freed. The values handed to \<open>DO_FREE\<close> are
  returned; \<open>vfree\<close> decides whether they are freed at all.
\<close>

function stailq_free :: "bool \<Rightarrow> 'v stailq \<Rightarrow> ('v list \<times> 'v stailq) res" where
  "stailq_free vfree q =
     (let np = STAILQ_FIRST q in
      if np = NULL then Ok ([], q)
      else res_bind (STAILQ_REMOVE_HEAD q) (\<lambda>q1.
           res_bind (deref (snodes q1) np) (\<lambda>n.
           res_bind (heap_free (snodes q1) np) (\<lambda>h.
           res_bind (stailq_free vfree (q1\<lparr>snodes := h\<rparr>)) (\<lambda>(vs, q2).
             Ok (case val n of Some v \<Rightarrow> if vfree then (v # vs, q2) else (vs, q2)
                 | None \<Rightarrow> (vs, q2)))))))"
  by pat_completeness auto
termination
  by (relation "measure (\<lambda>(b, q). fcard (fmdom (snodes q)))")
    (auto simp: res_simps STAILQ_FIRST_def simp del: fmdom_drop dest!: STAILQ_REMOVE_HEAD_OkD)

declare stailq_free.simps [simp del]

section \<open>The divider queue for one producer and one consumer\<close>

record 'v spscq =
  sq :: "'v stailq"
  qdiv :: ptr

text \<open>The dummy node is \<open>malloc\<close>ed, so its \<open>val\<close> is indeterminate: it is the argument \<open>junk\<close>.\<close>

definition stailq_new_lf_spsc :: "ptr \<Rightarrow> 'v option \<Rightarrow> 'v spscq res" where
  "stailq_new_lf_spsc d junk =
     res_bind (stailq_alloc_node d junk stailq_new) (\<lambda>q1.
     res_bind (STAILQ_INSERT_TAIL q1 (the d)) (\<lambda>q2. Ok \<lparr>sq = q2, qdiv = d\<rparr>))"

function stailq_trim_lf_spsc :: "'v spscq \<Rightarrow> 'v spscq res" where
  "stailq_trim_lf_spsc s =
     (let tnp = STAILQ_FIRST (sq s) in
      if tnp = qdiv s then Ok s
      else res_bind (STAILQ_REMOVE_HEAD (sq s)) (\<lambda>q1.
           res_bind (heap_free (snodes q1) tnp) (\<lambda>h.
             stailq_trim_lf_spsc (s\<lparr>sq := q1\<lparr>snodes := h\<rparr>\<rparr>))))"
  by pat_completeness auto
termination
  by (relation "measure (\<lambda>s. fcard (fmdom (snodes (sq s))))")
    (auto simp: res_simps STAILQ_FIRST_def simp del: fmdom_drop dest!: STAILQ_REMOVE_HEAD_OkD)

declare stailq_trim_lf_spsc.simps [simp del]

definition stailq_in_lf_spsc :: "ptr \<Rightarrow> 'v option \<Rightarrow> 'v spscq \<Rightarrow> 'v spscq res" where
  "stailq_in_lf_spsc np v s =
     res_bind (stailq_alloc_node np v (sq s)) (\<lambda>q1.
     res_bind (STAILQ_INSERT_TAIL q1 (the np)) (\<lambda>q2.
       stailq_trim_lf_spsc (s\<lparr>sq := q2\<rparr>)))"

text \<open>\<open>(d) == STAILQ_TAIL_REF(p)\<close>, where \<open>STAILQ_TAIL_REF(p)\<close> is \<open>*(p)->stqh_last\<close>.\<close>

definition stailq_empty_lf_spsc :: "'v spscq \<Rightarrow> bool res" where
  "stailq_empty_lf_spsc s = res_bind (load_tail (sq s)) (\<lambda>t. Ok (qdiv s = t))"

definition stailq_out_lf_spsc :: "'v spscq \<Rightarrow> ('v option \<times> 'v spscq) res" where
  "stailq_out_lf_spsc s =
     res_bind (stailq_empty_lf_spsc s) (\<lambda>e.
       if \<not> e
       then res_bind (STAILQ_NEXT (sq s) (qdiv s)) (\<lambda>d.
            res_bind (deref (snodes (sq s)) d) (\<lambda>n. Ok (val n, s\<lparr>qdiv := d\<rparr>)))
       else Ok (None, s))"

definition stailq_free_lf_spsc :: "bool \<Rightarrow> 'v spscq \<Rightarrow> ('v list \<times> 'v spscq) res" where
  "stailq_free_lf_spsc vfree s =
     res_bind (stailq_free vfree (sq s)) (\<lambda>(vs, q). Ok (vs, s\<lparr>sq := q\<rparr>))"

section \<open>Representation\<close>

definition stailq_chain :: "'v stailq \<Rightarrow> addr list \<Rightarrow> bool" where
  "stailq_chain q as \<longleftrightarrow>
     lseg stqe_next (snodes q) (stqh_first q) as NULL \<and> distinct as \<and>
     stqh_last q = (if as = [] then HeadFirst else NodeNext (last as)) \<and>
     fset (fmdom (snodes q)) = set as"

definition stailq_rep :: "'v stailq \<Rightarrow> 'v list \<Rightarrow> bool" where
  "stailq_rep q vs \<longleftrightarrow>
     (\<exists>as. stailq_chain q as \<and> seg_vals val (snodes q) as = map Some vs)"

definition spsc_chain :: "'v spscq \<Rightarrow> addr list \<Rightarrow> addr \<Rightarrow> addr list \<Rightarrow> bool" where
  "spsc_chain s xs d ys \<longleftrightarrow> stailq_chain (sq s) (xs @ d # ys) \<and> qdiv s = Some d"

definition spsc_rep :: "'v spscq \<Rightarrow> 'v list \<Rightarrow> bool" where
  "spsc_rep s vs \<longleftrightarrow>
     (\<exists>xs d ys. spsc_chain s xs d ys \<and> seg_vals val (snodes (sq s)) ys = map Some vs)"

definition spsc_fresh :: "'v spscq \<Rightarrow> ptr \<Rightarrow> bool" where
  "spsc_fresh s np = fresh_in (snodes (sq s)) np"


section \<open>The plain queue is a queue\<close>

lemma lseg_last_next:
  "lseg nx h p as NULL \<Longrightarrow> as \<noteq> [] \<Longrightarrow> \<exists>n. fmlookup h (last as) = Some n \<and> nx n = NULL"
  by (induction as arbitrary: p) auto

lemma lseg_link_tail:
  assumes "lseg stqe_next h p as NULL" and "as \<noteq> []" and "distinct as" and "a \<notin> set as"
    and "fmlookup h (last as) = Some l"
  shows "lseg stqe_next (fmupd (last as) (l\<lparr>stqe_next := Some a\<rparr>)
           (fmupd a \<lparr>val = v, stqe_next = NULL\<rparr> h)) p (as @ [a]) NULL"
  using assms
proof (induction as arbitrary: p)
  case Nil
  then show ?case by simp
next
  case (Cons b bs)
  then show ?case by (cases "bs = []") auto
qed

lemma seg_vals_relink_tail [simp]:
  "fmlookup h b = Some l \<Longrightarrow>
     seg_vals val (fmupd b (l\<lparr>stqe_next := p\<rparr>) h) as = seg_vals val h as"
  by (simp add: seg_vals_def)

lemma stailq_chain_new: "stailq_chain stailq_new []"
  by (simp add: stailq_chain_def stailq_new_def STAILQ_INIT_def)

text \<open>Allocating a node and inserting it at the tail, the common part of both enqueues.\<close>

lemma stailq_insert_chain:
  assumes ch: "stailq_chain q as" and fr: "a |\<notin>| fmdom (snodes q)"
  shows "\<exists>q2. res_bind (stailq_alloc_node (Some a) v q) (\<lambda>q1. STAILQ_INSERT_TAIL q1 a) = Ok q2 \<and>
     stailq_chain q2 (as @ [a]) \<and>
     seg_vals val (snodes q2) (as @ [a]) = seg_vals val (snodes q) as @ [v]"
proof (cases "as = []")
  case True
  with ch fr show ?thesis
    by (simp add: stailq_chain_def stailq_alloc_node_def STAILQ_INSERT_TAIL_def)
next
  case False
  let ?l = "last as" and ?h1 = "fmupd a \<lparr>val = v, stqe_next = NULL\<rparr> (snodes q)"
  have a_new: "a \<notin> set as" using ch fr by (auto simp: stailq_chain_def)
  then have "?l \<noteq> a" using False last_in_set by metis
  obtain l where l: "fmlookup (snodes q) ?l = Some l"
    using lseg_last_next ch False unfolding stailq_chain_def by metis
  then have l1: "fmlookup ?h1 ?l = Some l" using \<open>?l \<noteq> a\<close> by simp
  define h2 where "h2 = fmupd ?l (l\<lparr>stqe_next := Some a\<rparr>) ?h1"
  have run: "res_bind (stailq_alloc_node (Some a) v q) (\<lambda>q1. STAILQ_INSERT_TAIL q1 a) =
      Ok (q\<lparr>snodes := h2, stqh_last := NodeNext a\<rparr>)"
    using ch False l1
    by (simp add: stailq_chain_def stailq_alloc_node_def STAILQ_INSERT_TAIL_def h2_def
        del: fmupd_lookup) (simp add: heap_write_def)
  have "lseg stqe_next h2 (stqh_first q) (as @ [a]) NULL"
    unfolding h2_def using ch False a_new l by (auto simp: stailq_chain_def intro!: lseg_link_tail)
  moreover have "fset (fmdom h2) = set (as @ [a])"
    using ch last_in_set [OF False] by (simp add: stailq_chain_def h2_def insert_absorb)
  moreover have "seg_vals val h2 (as @ [a]) = seg_vals val (snodes q) as @ [v]"
    unfolding h2_def seg_vals_relink_tail [OF l1] using a_new by simp
  ultimately show ?thesis
    using run ch a_new by (simp add: stailq_chain_def)
qed

lemma stailq_remove_head_chain:
  assumes "stailq_chain q (a # as)"
  shows "\<exists>q1 n. STAILQ_REMOVE_HEAD q = Ok q1 \<and> fmlookup (snodes q) a = Some n \<and>
     snodes q1 = snodes q \<and> stqh_first q = Some a \<and>
     stailq_chain (q1\<lparr>snodes := fmdrop a (snodes q)\<rparr>) as"
proof -
  from assms obtain n where n: "stqh_first q = Some a" "fmlookup (snodes q) a = Some n"
    "lseg stqe_next (snodes q) (stqe_next n) as NULL" "a \<notin> set as"
    by (auto simp: stailq_chain_def)
  then have "stqe_next n = NULL \<longleftrightarrow> as = []" by (cases as) auto
  with n assms show ?thesis
    by (auto simp: stailq_chain_def STAILQ_REMOVE_HEAD_def STAILQ_NEXT_def)
qed

lemma stailq_out_chain:
  assumes "stailq_chain q (a # as)"
  shows "\<exists>q'. stailq_out q = Ok (val (the (fmlookup (snodes q) a)), q') \<and> stailq_chain q' as \<and>
     seg_vals val (snodes q') as = seg_vals val (snodes q) as"
proof -
  have "a \<notin> set as" using assms by (simp add: stailq_chain_def)
  with stailq_remove_head_chain [OF assms] show ?thesis
    by (fastforce simp: stailq_out_def STAILQ_FIRST_def)
qed

definition stailq_enqueue :: "ptr \<Rightarrow> 'v \<Rightarrow> 'v stailq \<Rightarrow> 'v stailq res" where
  "stailq_enqueue np v q = stailq_in np (Some v) q"

definition stailq_fresh :: "'v stailq \<Rightarrow> ptr \<Rightarrow> bool" where
  "stailq_fresh q np = fresh_in (snodes q) np"

interpretation stq: fifo_total stailq_rep stailq_fresh stailq_enqueue stailq_out
proof unfold_locales
  fix q :: "'a stailq" and vs a v
  assume "stailq_rep q vs" and "stailq_fresh q a"
  then obtain as b where "stailq_chain q as" "seg_vals val (snodes q) as = map Some vs"
    "a = Some b" "b |\<notin>| fmdom (snodes q)"
    unfolding stailq_rep_def stailq_fresh_def by (cases a) auto
  with stailq_insert_chain [of q as b "Some v"]
  show "\<exists>q'. stailq_enqueue a v q = Ok q' \<and> stailq_rep q' (vs @ [v])"
    unfolding stailq_rep_def stailq_enqueue_def stailq_in_def by fastforce
next
  fix q :: "'a stailq" and v vs
  assume "stailq_rep q (v # vs)"
  then obtain a as where "stailq_chain q (a # as)"
    "seg_vals val (snodes q) (a # as) = map Some (v # vs)"
    unfolding stailq_rep_def by (metis length_0_conv list.exhaust list.map(2) list.simps(3) seg_vals_simps(4))
  with stailq_out_chain show "\<exists>q'. stailq_out q = Ok (Some v, q') \<and> stailq_rep q' vs"
    unfolding stailq_rep_def by fastforce
next
  fix q :: "'a stailq"
  assume "stailq_rep q []"
  then show "stailq_out q = Ok (None, q)"
    by (auto simp: stailq_rep_def stailq_chain_def stailq_out_def STAILQ_FIRST_def
        dest: arg_cong [where f = length])
qed

section \<open>The divider queue is a queue while it is not empty\<close>

lemma stailq_trim_chain:
  "spsc_chain s xs d ys \<Longrightarrow>
     \<exists>s'. stailq_trim_lf_spsc s = Ok s' \<and> spsc_chain s' [] d ys \<and>
          seg_vals val (snodes (sq s')) ys = seg_vals val (snodes (sq s)) ys"
proof (induction xs arbitrary: s)
  case Nil
  then have "STAILQ_FIRST (sq s) = qdiv s"
    by (auto simp: spsc_chain_def stailq_chain_def STAILQ_FIRST_def)
  with Nil show ?case by (auto simp: stailq_trim_lf_spsc.simps [of s])
next
  case (Cons x xs)
  then have "stailq_chain (sq s) (x # (xs @ d # ys))" "qdiv s = Some d" "x \<noteq> d" "x \<notin> set ys"
    by (auto simp: spsc_chain_def stailq_chain_def)
  from stailq_remove_head_chain [OF this(1)] obtain q1 n where
    q1: "STAILQ_REMOVE_HEAD (sq s) = Ok q1" "fmlookup (snodes (sq s)) x = Some n"
      "snodes q1 = snodes (sq s)" "stqh_first (sq s) = Some x"
      "stailq_chain (q1\<lparr>snodes := fmdrop x (snodes (sq s))\<rparr>) (xs @ d # ys)"
    by auto
  let ?s = "s\<lparr>sq := q1\<lparr>snodes := fmdrop x (snodes (sq s))\<rparr>\<rparr>"
  have "spsc_chain ?s xs d ys" using q1 \<open>qdiv s = Some d\<close> by (simp add: spsc_chain_def)
  from Cons.IH [OF this] q1 \<open>qdiv s = Some d\<close> \<open>x \<noteq> d\<close> \<open>x \<notin> set ys\<close> show ?case
    by (simp add: stailq_trim_lf_spsc.simps [of s] STAILQ_FIRST_def)
qed

lemma spsc_in_chain:
  assumes "spsc_chain s xs d ys" and "a |\<notin>| fmdom (snodes (sq s))"
  shows "\<exists>s'. stailq_in_lf_spsc (Some a) v s = Ok s' \<and> spsc_chain s' [] d (ys @ [a]) \<and>
     seg_vals val (snodes (sq s')) (ys @ [a]) = seg_vals val (snodes (sq s)) ys @ [v]"
proof -
  from assms stailq_insert_chain [of "sq s" "xs @ d # ys" a v] obtain q1 q2 where
    q: "stailq_alloc_node (Some a) v (sq s) = Ok q1" "STAILQ_INSERT_TAIL q1 a = Ok q2"
      "stailq_chain q2 (xs @ d # (ys @ [a]))"
      "seg_vals val (snodes q2) (xs @ d # ys @ [a]) = seg_vals val (snodes (sq s)) (xs @ d # ys) @ [v]"
    by (auto simp: spsc_chain_def res_simps)
  then have "spsc_chain (s\<lparr>sq := q2\<rparr>) xs d (ys @ [a])"
    using assms by (simp add: spsc_chain_def)
  from stailq_trim_chain [OF this] q show ?thesis
    by (auto simp: stailq_in_lf_spsc_def)
qed

text \<open>The pointer the tail reference leads to is NULL whenever no insertion is under way.\<close>

lemma load_tail_chain:
  assumes "stailq_chain q as"
  shows "load_tail q = Ok NULL"
proof (cases "as = []")
  case True
  with assms show ?thesis by (simp add: stailq_chain_def)
next
  case False
  with assms lseg_last_next show ?thesis
    by (fastforce simp: stailq_chain_def STAILQ_NEXT_def)
qed

lemma spsc_empty_chain: "spsc_chain s xs d ys \<Longrightarrow> stailq_empty_lf_spsc s = Ok False"
  using load_tail_chain [of "sq s" "xs @ d # ys"]
  by (simp add: spsc_chain_def stailq_empty_lf_spsc_def del: load_tail.simps)

lemma spsc_out_chain:
  assumes "spsc_chain s xs d (y # ys)"
  shows "stailq_out_lf_spsc s = Ok (val (the (fmlookup (snodes (sq s)) y)), s\<lparr>qdiv := Some y\<rparr>)"
    and "spsc_chain (s\<lparr>qdiv := Some y\<rparr>) (xs @ [d]) y ys"
  using assms spsc_empty_chain [OF assms]
  by (auto simp: spsc_chain_def stailq_chain_def seg_simps stailq_out_lf_spsc_def STAILQ_NEXT_def)

lemma spsc_out_empty:
  assumes "spsc_chain s xs d []"
  shows "stailq_out_lf_spsc s = Fault NullDeref"
  using assms spsc_empty_chain [OF assms]
  by (auto simp: spsc_chain_def stailq_chain_def seg_simps stailq_out_lf_spsc_def STAILQ_NEXT_def)

definition spsc_enqueue :: "ptr \<Rightarrow> 'v \<Rightarrow> 'v spscq \<Rightarrow> 'v spscq res" where
  "spsc_enqueue np v s = stailq_in_lf_spsc np (Some v) s"

interpretation spsc: fifo spsc_rep spsc_fresh spsc_enqueue stailq_out_lf_spsc
proof unfold_locales
  fix s :: "'a spscq" and vs a v
  assume "spsc_rep s vs" and "spsc_fresh s a"
  then obtain xs d ys b where "spsc_chain s xs d ys" "seg_vals val (snodes (sq s)) ys = map Some vs"
    "a = Some b" "b |\<notin>| fmdom (snodes (sq s))"
    unfolding spsc_rep_def spsc_fresh_def by (cases a) auto
  with spsc_in_chain [of s xs d ys b "Some v"]
  show "\<exists>q'. spsc_enqueue a v s = Ok q' \<and> spsc_rep q' (vs @ [v])"
    unfolding spsc_rep_def spsc_enqueue_def by fastforce
next
  fix s :: "'a spscq" and v vs
  assume "spsc_rep s (v # vs)"
  then obtain xs d y ys where "spsc_chain s xs d (y # ys)"
    "seg_vals val (snodes (sq s)) (y # ys) = map Some (v # vs)"
    unfolding spsc_rep_def by (metis length_0_conv list.exhaust list.map(2) list.simps(3) seg_vals_simps(4))
  with spsc_out_chain show "\<exists>q'. stailq_out_lf_spsc s = Ok (Some v, q') \<and> spsc_rep q' vs"
    unfolding spsc_rep_def by fastforce
qed

section \<open>Properties\<close>

lemma stailq_new_rep: "stailq_rep stailq_new []"
  unfolding stailq_rep_def using stailq_chain_new by (intro exI [of _ "[]"]) simp

text \<open>
  C10. The plain \<open>stailq_in\<close>/\<open>stailq_out\<close> macros implement a first-in first-out queue: any
  sequence of them on a new queue gives the values of the abstract one.
\<close>

theorem stailq_refines_fifo:
  assumes "fifo_allocs_ok stailq_fresh stailq_enqueue stailq_out stailq_new ops"
  shows "\<exists>q'. fifo_run stailq_enqueue stailq_out stailq_new ops = Ok (fst (fifo_spec [] ops), q') \<and>
     stailq_rep q' (snd (fifo_spec [] ops))"
  using stq.run_refines_spec [OF stailq_new_rep assms] .

theorem stailq_refines_fifo_witness:
  "\<exists>q'. fifo_run stailq_enqueue stailq_out (stailq_new :: nat stailq) [Deq, Enq (Some 1) 4, Deq] =
     Ok (fst (fifo_spec [] [Deq, Enq (Some 1) 4, Deq]), q') \<and>
     stailq_rep q' (snd (fifo_spec [] [Deq, Enq (Some 1) 4, Deq]))"
  by (rule stailq_refines_fifo)
    (simp add: stailq_out_def stailq_new_def STAILQ_INIT_def STAILQ_FIRST_def stailq_fresh_def
      stailq_enqueue_def stailq_in_def stailq_alloc_node_def STAILQ_INSERT_TAIL_def
      STAILQ_REMOVE_HEAD_def STAILQ_NEXT_def)

text \<open>
  On a divider queue at rest \<open>stailq_empty_lf_spsc\<close> never answers true, since it compares
  the divider with \<open>*stqh_last\<close>, which is NULL; \<open>stailq_out_lf_spsc\<close> on an empty queue then
  dereferences NULL. Only the semaphore keeps the worker from doing so.
\<close>

theorem spsc_empty_check_never_true:
  assumes "spsc_chain s xs d ys"
  shows "stailq_empty_lf_spsc s = Ok False \<and> (ys = [] \<longrightarrow> stailq_out_lf_spsc s = Fault NullDeref)"
  using spsc_empty_chain [OF assms] spsc_out_empty assms by blast

theorem spsc_empty_check_never_true_witness:
  "\<exists>s. stailq_new_lf_spsc (Some 1) (None :: nat option) = Ok s \<and>
     stailq_empty_lf_spsc s = Ok False \<and> (([] :: nat list) = [] \<longrightarrow> stailq_out_lf_spsc s = Fault NullDeref)"
proof -
  define s where "s = \<lparr>sq = \<lparr>stqh_first = Some 1, stqh_last = NodeNext 1,
    snodes = fmap_of_list [(1, \<lparr>val = (None :: nat option), stqe_next = NULL\<rparr>)]\<rparr>, qdiv = Some 1\<rparr>"
  have "stailq_new_lf_spsc (Some 1) (None :: nat option) = Ok s"
    by (simp add: stailq_new_lf_spsc_def stailq_alloc_node_def stailq_new_def STAILQ_INIT_def
        STAILQ_INSERT_TAIL_def s_def fmap_of_list_simps)
  moreover have "spsc_chain s [] 1 []"
    by (simp add: s_def spsc_chain_def stailq_chain_def fmap_of_list_simps)
  ultimately show ?thesis using spsc_empty_check_never_true by blast
qed

end
