(* ===== verification/Spsc.thy ===== *)
theory Spsc
  imports Stailq
begin

text \<open>
  The divider queue and its semaphore under concurrency. The main thread executes
  \<open>stailq_in_lf_spsc(q, d, hp); sem_post(sem);\<close> (\<open>ayubd_run\<close>) while a worker executes
  \<open>sem_wait(sem); stailq_out_lf_spsc(q, d, s);\<close> (\<open>ayubd_worker\<close>), and no lock is held. Each
  thread is a program counter over the accesses the macros make to shared memory, in their
  order; a step of the system is one such access of either thread, together with the accesses
  around it to what only that thread uses (the node being filled, \<open>stqh_first\<close> and the nodes
  before the divider on the producer's side). Memory is sequentially consistent.
\<close>

section \<open>Threads, state and steps\<close>

text \<open>Where the producer is inside \<open>stailq_in_lf_spsc\<close>, and the consumer inside \<open>stailq_out_lf_spsc\<close>.\<close>

datatype 'v producer_pc =
    P_Idle
  | P_Link addr "'v option"  \<comment> \<open>node filled, about to write \<open>*stqh_last\<close>\<close>
  | P_Tail addr              \<comment> \<open>linked, about to write \<open>stqh_last\<close>\<close>
  | P_Trim                   \<comment> \<open>about to compare \<open>stqh_first\<close> with the divider\<close>
  | P_Free                   \<comment> \<open>they differed: unlink and free the first node\<close>
  | P_Post                   \<comment> \<open>queue done, about to call \<open>sem_post\<close>\<close>

datatype consumer_pc =
    C_Idle                   \<comment> \<open>in \<open>sem_wait\<close>\<close>
  | C_Tail                   \<comment> \<open>about to read \<open>stqh_last\<close>\<close>
  | C_Test tail_ref          \<comment> \<open>about to read through it and compare with the divider\<close>
  | C_Next                   \<comment> \<open>about to advance the divider\<close>
  | C_Val                    \<comment> \<open>about to read the value of the divider node\<close>

record 'v spsc_state =
  shared :: "'v spscq"
  sem :: nat
  ppc :: "'v producer_pc"
  cpc :: consumer_pc
  sent :: "'v option list"       \<comment> \<open>values published, in order\<close>
  recvd :: "'v option list"      \<comment> \<open>values the worker got, in order\<close>
  spurious :: nat                \<comment> \<open>times the worker was told the queue is empty\<close>

fun load_ref :: "'v stailq \<Rightarrow> tail_ref \<Rightarrow> ptr res" where
  "load_ref q HeadFirst = Ok (stqh_first q)"
| "load_ref q (NodeNext a) = STAILQ_NEXT q (Some a)"

definition producer_step :: "ptr \<Rightarrow> 'v option \<Rightarrow> 'v spsc_state \<Rightarrow> 'v spsc_state res" where
  "producer_step np v s =
     (let q = sq (shared s); put = (\<lambda>q'. s\<lparr>shared := (shared s)\<lparr>sq := q'\<rparr>\<rparr>) in
      case ppc s of
        P_Idle \<Rightarrow> res_bind (stailq_alloc_node np v q) (\<lambda>q1. Ok ((put q1)\<lparr>ppc := P_Link (the np) v\<rparr>))
      | P_Link a w \<Rightarrow> res_bind (store_tail q (Some a)) (\<lambda>q1.
          Ok ((put q1)\<lparr>ppc := P_Tail a, sent := sent s @ [w]\<rparr>))
      | P_Tail a \<Rightarrow> Ok ((put (q\<lparr>stqh_last := NodeNext a\<rparr>))\<lparr>ppc := P_Trim\<rparr>)
      | P_Trim \<Rightarrow> Ok (s\<lparr>ppc := (if STAILQ_FIRST q = qdiv (shared s) then P_Post else P_Free)\<rparr>)
      | P_Free \<Rightarrow> res_bind (STAILQ_REMOVE_HEAD q) (\<lambda>q1.
          res_bind (heap_free (snodes q1) (STAILQ_FIRST q)) (\<lambda>h.
          Ok ((put (q1\<lparr>snodes := h\<rparr>))\<lparr>ppc := P_Trim\<rparr>)))
      | P_Post \<Rightarrow> Ok (s\<lparr>sem := Suc (sem s), ppc := P_Idle\<rparr>))"

definition consumer_step :: "'v spsc_state \<Rightarrow> 'v spsc_state res" where
  "consumer_step s =
     (let q = sq (shared s) in
      case cpc s of
        C_Idle \<Rightarrow> Ok (if sem s = 0 then s else s\<lparr>sem := sem s - 1, cpc := C_Tail\<rparr>)
      | C_Tail \<Rightarrow> Ok (s\<lparr>cpc := C_Test (stqh_last q)\<rparr>)
      | C_Test r \<Rightarrow> res_bind (load_ref q r) (\<lambda>t.
          Ok (if qdiv (shared s) = t then s\<lparr>cpc := C_Idle, spurious := Suc (spurious s)\<rparr>
              else s\<lparr>cpc := C_Next\<rparr>))
      | C_Next \<Rightarrow> res_bind (STAILQ_NEXT q (qdiv (shared s))) (\<lambda>d.
          Ok (s\<lparr>shared := (shared s)\<lparr>qdiv := d\<rparr>, cpc := C_Val\<rparr>))
      | C_Val \<Rightarrow> res_bind (deref (snodes q) (qdiv (shared s))) (\<lambda>n.
          Ok (s\<lparr>recvd := recvd s @ [val n], cpc := C_Idle\<rparr>)))"

definition spsc_init :: "'v spscq \<Rightarrow> 'v spsc_state" where
  "spsc_init q = \<lparr>shared = q, sem = 0, ppc = P_Idle, cpc = C_Idle, sent = [], recvd = [],
     spurious = 0\<rparr>"

text \<open>
  One step of either thread; the allocator hands the producer an unused block. \<open>spsc_reach\<close> are
  the states any interleaving can reach from a new queue.
\<close>

inductive spsc_step :: "'v spsc_state \<Rightarrow> 'v spsc_state \<Rightarrow> bool" where
  produce: "fresh_in (snodes (sq (shared s))) np \<Longrightarrow> producer_step np v s = Ok t \<Longrightarrow> spsc_step s t"
| consume: "consumer_step s = Ok t \<Longrightarrow> spsc_step s t"

inductive spsc_reach :: "'v spsc_state \<Rightarrow> bool" where
  start: "stailq_new_lf_spsc (Some a) junk = Ok q \<Longrightarrow> spsc_reach (spsc_init q)"
| more: "spsc_reach s \<Longrightarrow> spsc_step s t \<Longrightarrow> spsc_reach t"

section \<open>The invariant\<close>

definition published :: "'v producer_pc \<Rightarrow> nat" where
  "published p = (case p of P_Idle \<Rightarrow> 0 | P_Link _ _ \<Rightarrow> 0 | _ \<Rightarrow> 1)"

definition holds_token :: "consumer_pc \<Rightarrow> nat" where
  "holds_token c = (case c of C_Tail \<Rightarrow> 1 | C_Test _ \<Rightarrow> 1 | C_Next \<Rightarrow> 1 | _ \<Rightarrow> 0)"

text \<open>
  The list structure as the producer's position determines it: the tail reference lags one node
  behind between the two writes of an insertion, and a node that is not linked yet is private.
\<close>

definition shape_ok :: "'v stailq \<Rightarrow> 'v producer_pc \<Rightarrow> addr list \<Rightarrow> addr \<Rightarrow> addr list \<Rightarrow> bool" where
  "shape_ok q p xs d ys \<longleftrightarrow>
     lseg stqe_next (snodes q) (stqh_first q) (xs @ d # ys) NULL \<and> distinct (xs @ d # ys) \<and>
     (case p of
        P_Link a v \<Rightarrow> a \<notin> set (xs @ d # ys) \<and> stqh_last q = NodeNext (last (d # ys)) \<and>
          fmlookup (snodes q) a = Some \<lparr>val = v, stqe_next = NULL\<rparr> \<and>
          fset (fmdom (snodes q)) = insert a (set (xs @ d # ys))
      | P_Tail a \<Rightarrow> ys \<noteq> [] \<and> last ys = a \<and> stqh_last q = NodeNext (last (d # butlast ys)) \<and>
          fset (fmdom (snodes q)) = set (xs @ d # ys)
      | _ \<Rightarrow> stqh_last q = NodeNext (last (d # ys)) \<and>
          fset (fmdom (snodes q)) = set (xs @ d # ys) \<and> (p = P_Free \<longrightarrow> xs \<noteq> []))"

definition tail_seen_ok :: "consumer_pc \<Rightarrow> addr \<Rightarrow> addr list \<Rightarrow> bool" where
  "tail_seen_ok c d ys = (case c of C_Test r \<Rightarrow> (\<exists>b. r = NodeNext b \<and> b \<in> set (d # ys)) | _ \<Rightarrow> True)"

text \<open>The value the worker is about to read: advanced to, not read yet.\<close>

definition in_hand :: "consumer_pc \<Rightarrow> 'v stailq \<Rightarrow> addr \<Rightarrow> 'v option list" where
  "in_hand c q d = (if c = C_Val then [val (the (fmlookup (snodes q) d))] else [])"

definition spsc_inv_at :: "'v spsc_state \<Rightarrow> addr list \<Rightarrow> addr \<Rightarrow> addr list \<Rightarrow> bool" where
  "spsc_inv_at s xs d ys \<longleftrightarrow>
     (let q = sq (shared s) in
      qdiv (shared s) = Some d \<and> shape_ok q (ppc s) xs d ys \<and> tail_seen_ok (cpc s) d ys \<and>
      length ys = sem s + holds_token (cpc s) + published (ppc s) \<and>
      sent s = recvd s @ in_hand (cpc s) q d @ seg_vals val (snodes q) ys \<and>
      spurious s = 0)"

definition spsc_inv :: "'v spsc_state \<Rightarrow> bool" where
  "spsc_inv s \<longleftrightarrow> (\<exists>xs d ys. spsc_inv_at s xs d ys)"

lemma spsc_invI: "spsc_inv_at s xs d ys \<Longrightarrow> spsc_inv s"
  by (auto simp: spsc_inv_def)

lemmas inv_defs = spsc_inv_at_def shape_ok_def tail_seen_ok_def in_hand_def Let_def

lemma producer_idle_inv:
  assumes "spsc_inv_at s xs d ys" and "ppc s = P_Idle" and "fresh_in (snodes (sq (shared s))) np"
  shows "\<exists>t. producer_step np v s = Ok t \<and> spsc_inv_at t xs d ys"
proof -
  from assms(3) obtain a where a: "np = Some a" "a |\<notin>| fmdom (snodes (sq (shared s)))"
    by (cases np) auto
  then have "a \<notin> set (xs @ d # ys)"
    using assms(1,2) by (auto simp: inv_defs)
  with a assms show ?thesis
    by (simp add: producer_step_def stailq_alloc_node_def inv_defs published_def
        cong: option.case_cong)
qed

lemma producer_link_inv:
  assumes inv: "spsc_inv_at s xs d ys" and pc: "ppc s = P_Link a w"
  shows "\<exists>t. producer_step np v s = Ok t \<and> spsc_inv_at t xs d (ys @ [a])"
proof -
  let ?q = "sq (shared s)" and ?l = "last (d # ys)"
  let ?n = "\<lparr>val = w, stqe_next = NULL\<rparr>"
  from inv pc have sh: "lseg stqe_next (snodes ?q) (stqh_first ?q) (xs @ d # ys) NULL"
    "distinct (xs @ d # ys)" "a \<notin> set (xs @ d # ys)" "stqh_last ?q = NodeNext ?l"
    "fmlookup (snodes ?q) a = Some ?n" "fset (fmdom (snodes ?q)) = insert a (set (xs @ d # ys))"
    by (simp_all add: inv_defs)
  obtain l where l: "fmlookup (snodes ?q) ?l = Some l"
    using lseg_last_next [OF sh(1)] by auto
  define h where "h = fmupd ?l (l\<lparr>stqe_next := Some a\<rparr>) (snodes ?q)"
  have same: "fmupd a ?n (snodes ?q) = snodes ?q"
    using sh(5) by (intro fmap_ext) auto
  have "lseg stqe_next (fmupd (last (xs @ d # ys)) (l\<lparr>stqe_next := Some a\<rparr>)
          (fmupd a ?n (snodes ?q))) (stqh_first ?q) ((xs @ d # ys) @ [a]) NULL"
    using sh(1-3) l by (intro lseg_link_tail) auto
  then have seg: "lseg stqe_next h (stqh_first ?q) (xs @ d # ys @ [a]) NULL"
    by (simp add: same h_def)
  have dom: "fset (fmdom h) = set (xs @ d # ys @ [a])"
    using sh(6) by (simp add: h_def fmdom_fmupd_present [OF l] insert_commute
        del: fmdom_fmupd last.simps)
  have vals: "seg_vals val h (ys @ [a]) = seg_vals val (snodes ?q) ys @ [w]"
    unfolding h_def seg_vals_relink_tail [OF l] using sh(5) by simp
  have vald: "val (the (fmlookup h d)) = val (the (fmlookup (snodes ?q) d))"
    using l by (simp add: h_def del: last.simps) auto
  have "producer_step np v s = Ok (s\<lparr>shared := (shared s)\<lparr>sq := ?q\<lparr>snodes := h\<rparr>\<rparr>,
      ppc := P_Tail a, sent := sent s @ [w]\<rparr>)"
    using pc sh(4) l by (simp add: producer_step_def h_def Let_def del: last.simps)
  moreover have "tail_seen_ok (cpc s) d ys \<Longrightarrow> tail_seen_ok (cpc s) d (ys @ [a])"
    by (auto simp: tail_seen_ok_def split: consumer_pc.splits)
  ultimately show ?thesis
    using inv pc seg dom vals vald sh(2-4)
    by (auto simp: spsc_inv_at_def shape_ok_def in_hand_def Let_def published_def)
qed

lemma producer_tail_inv:
  assumes "spsc_inv_at s xs d ys" and "ppc s = P_Tail a"
  shows "\<exists>t. producer_step np v s = Ok t \<and> spsc_inv_at t xs d ys"
  using assms by (auto simp: producer_step_def inv_defs published_def)

lemma producer_trim_inv:
  assumes "spsc_inv_at s xs d ys" and "ppc s = P_Trim"
  shows "\<exists>t. producer_step np v s = Ok t \<and> spsc_inv_at t xs d ys"
  using assms
  by (cases xs) (auto simp: producer_step_def inv_defs published_def STAILQ_FIRST_def)

lemma producer_post_inv:
  assumes "spsc_inv_at s xs d ys" and "ppc s = P_Post"
  shows "\<exists>t. producer_step np v s = Ok t \<and> spsc_inv_at t xs d ys"
  using assms by (auto simp: producer_step_def inv_defs published_def)

lemma producer_free_inv:
  assumes inv: "spsc_inv_at s (x # xs) d ys" and pc: "ppc s = P_Free"
  shows "\<exists>t. producer_step np v s = Ok t \<and> spsc_inv_at t xs d ys"
proof -
  let ?q = "sq (shared s)"
  from inv pc obtain n where n: "stqh_first ?q = Some x" "fmlookup (snodes ?q) x = Some n"
    "lseg stqe_next (snodes ?q) (stqe_next n) (xs @ d # ys) NULL"
    by (auto simp: inv_defs)
  moreover have "x \<notin> set (xs @ d # ys)" using inv by (auto simp: inv_defs)
  moreover have "stqe_next n \<noteq> NULL" using n(3) by (cases xs) auto
  ultimately show ?thesis
    using inv pc
    by (auto simp: producer_step_def inv_defs published_def STAILQ_FIRST_def
        STAILQ_REMOVE_HEAD_def STAILQ_NEXT_def)
qed

lemma producer_inv:
  assumes "spsc_inv s" and "fresh_in (snodes (sq (shared s))) np"
  shows "\<exists>t. producer_step np v s = Ok t \<and> spsc_inv t"
proof -
  from assms(1) obtain xs d ys where inv: "spsc_inv_at s xs d ys" by (auto simp: spsc_inv_def)
  show ?thesis
  proof (cases "ppc s")
    case P_Idle
    with producer_idle_inv [OF inv _ assms(2)] spsc_invI show ?thesis by blast
  next
    case (P_Link a w)
    with producer_link_inv [OF inv] spsc_invI show ?thesis by blast
  next
    case (P_Tail a)
    with producer_tail_inv [OF inv] spsc_invI show ?thesis by blast
  next
    case P_Trim
    with producer_trim_inv [OF inv] spsc_invI show ?thesis by blast
  next
    case P_Free
    with inv obtain x xs' where "xs = x # xs'" by (cases xs) (auto simp: inv_defs)
    with inv P_Free producer_free_inv spsc_invI show ?thesis by blast
  next
    case P_Post
    with producer_post_inv [OF inv] spsc_invI show ?thesis by blast
  qed
qed

section \<open>The worker's steps keep it\<close>

lemma last_butlast_in: "last (d # butlast ys) \<in> set (d # ys)"
  by (cases "butlast ys = []") (auto intro: in_set_butlastD last_in_set)

lemma consumer_idle_inv:
  assumes "spsc_inv_at s xs d ys" and "cpc s = C_Idle"
  shows "\<exists>t. consumer_step s = Ok t \<and> spsc_inv_at t xs d ys"
  using assms by (auto simp: consumer_step_def spsc_inv_at_def tail_seen_ok_def in_hand_def
      holds_token_def Let_def)

lemma consumer_tail_inv:
  assumes "spsc_inv_at s xs d ys" and "cpc s = C_Tail"
  shows "\<exists>t. consumer_step s = Ok t \<and> spsc_inv_at t xs d ys"
proof -
  have "\<exists>b. stqh_last (sq (shared s)) = NodeNext b \<and> b \<in> set (d # ys)"
    using assms(1) last_butlast_in [of d ys] last_in_set [of "d # ys"]
    by (cases "ppc s") (auto simp: spsc_inv_at_def shape_ok_def Let_def simp del: last.simps)
  with assms show ?thesis
    by (auto simp: consumer_step_def spsc_inv_at_def tail_seen_ok_def in_hand_def
      holds_token_def Let_def)
qed

text \<open>Reading through a tail reference of the waiting part never gives the divider node.\<close>

lemma load_ref_not_divider:
  assumes "lseg stqe_next (snodes q) p (d # ys) NULL" and "distinct (d # ys)" and "b \<in> set (d # ys)"
  shows "\<exists>t. load_ref q (NodeNext b) = Ok t \<and> t \<noteq> Some d"
proof -
  obtain us vs where us: "d # ys = us @ b # vs" using assms(3) by (meson split_list)
  with assms(1) obtain n where n: "fmlookup (snodes q) b = Some n"
    "lseg stqe_next (snodes q) (stqe_next n) vs NULL"
    by (auto simp: seg_simps)
  have "d \<notin> set vs" using us assms(2) by (cases us) auto
  with n have "stqe_next n \<noteq> Some d" by (cases vs) auto
  with n show ?thesis by (simp add: STAILQ_NEXT_def)
qed

lemma consumer_test_inv:
  assumes "spsc_inv_at s xs d ys" and "cpc s = C_Test r"
  shows "\<exists>t. consumer_step s = Ok t \<and> spsc_inv_at t xs d ys"
proof -
  from assms obtain b where b: "r = NodeNext b" "b \<in> set (d # ys)"
    by (auto simp: spsc_inv_at_def tail_seen_ok_def Let_def)
  from assms(1) obtain p where "lseg stqe_next (snodes (sq (shared s))) p (d # ys) NULL"
    "distinct (d # ys)"
    by (auto simp: inv_defs seg_simps)
  from load_ref_not_divider [OF this b(2)] assms b(1) show ?thesis
    by (auto simp: consumer_step_def spsc_inv_at_def tail_seen_ok_def in_hand_def
      holds_token_def Let_def)
qed

lemma shape_ok_advance:
  assumes "shape_ok q p xs d (y # ys)" and "\<And>b. p = P_Tail b \<Longrightarrow> ys \<noteq> []"
  shows "shape_ok q p (xs @ [d]) y ys"
proof -
  have "set ((xs @ [d]) @ y # ys) = set (xs @ d # y # ys)" by auto
  with assms show ?thesis
    by (cases p) (simp_all add: shape_ok_def del: lseg.simps)
qed

lemma consumer_next_inv:
  assumes inv: "spsc_inv_at s xs d ys" and pc: "cpc s = C_Next"
  shows "\<exists>t y zs. consumer_step s = Ok t \<and> spsc_inv_at t (xs @ [d]) y zs"
proof -
  from assms obtain y zs where ys: "ys = y # zs"
    by (cases ys) (auto simp: spsc_inv_at_def holds_token_def Let_def)
  let ?q = "sq (shared s)"
  from inv ys obtain n where n: "fmlookup (snodes ?q) d = Some n" "stqe_next n = Some y"
    by (auto simp: inv_defs seg_simps)
  have "zs \<noteq> []" if "ppc s = P_Tail b" for b
    using inv pc ys that by (auto simp: spsc_inv_at_def holds_token_def published_def Let_def)
  then have "shape_ok ?q (ppc s) (xs @ [d]) y zs"
    using inv ys by (intro shape_ok_advance) (auto simp: spsc_inv_at_def Let_def)
  with inv pc n ys show ?thesis
    by (auto simp: consumer_step_def spsc_inv_at_def tail_seen_ok_def in_hand_def
      holds_token_def Let_def STAILQ_NEXT_def)
qed

lemma consumer_val_inv:
  assumes "spsc_inv_at s xs d ys" and "cpc s = C_Val"
  shows "\<exists>t. consumer_step s = Ok t \<and> spsc_inv_at t xs d ys"
proof -
  from assms(1) obtain n where "fmlookup (snodes (sq (shared s))) d = Some n"
    by (auto simp: inv_defs seg_simps)
  with assms show ?thesis
    by (auto simp: consumer_step_def spsc_inv_at_def tail_seen_ok_def in_hand_def
      holds_token_def Let_def)
qed

lemma consumer_inv:
  assumes "spsc_inv s"
  shows "\<exists>t. consumer_step s = Ok t \<and> spsc_inv t"
  using assms unfolding spsc_inv_def
  by (cases "cpc s") (metis consumer_idle_inv consumer_tail_inv consumer_test_inv
      consumer_next_inv consumer_val_inv)+

lemma spsc_init_inv:
  assumes "stailq_new_lf_spsc (Some a) junk = Ok q"
  shows "spsc_inv (spsc_init q)"
proof -
  have "spsc_inv_at (spsc_init q) [] a []"
    using assms
    by (auto simp: stailq_new_lf_spsc_def stailq_alloc_node_def stailq_new_def STAILQ_INIT_def
        STAILQ_INSERT_TAIL_def spsc_init_def inv_defs holds_token_def published_def)
  then show ?thesis by (auto simp: spsc_inv_def)
qed

lemma spsc_reach_inv: "spsc_reach s \<Longrightarrow> spsc_inv s"
proof (induction rule: spsc_reach.induct)
  case (start a junk q)
  then show ?case by (rule spsc_init_inv)
next
  case (more s t)
  from more(2) show ?case
  proof cases
    case (produce np v)
    with producer_inv [OF more.IH produce(1), of v] show ?thesis by simp
  next
    case consume
    with consumer_inv [OF more.IH] show ?thesis by simp
  qed
qed

section \<open>The worker empties the queue\<close>

primrec consumer_run :: "nat \<Rightarrow> 'v spsc_state \<Rightarrow> 'v spsc_state res" where
  "consumer_run 0 s = Ok s"
| "consumer_run (Suc n) s = res_bind (consumer_step s) (consumer_run n)"

text \<open>Steps left until every posted token is used up.\<close>

definition consumer_left :: "'v spsc_state \<Rightarrow> nat" where
  "consumer_left s = 5 * sem s +
     (case cpc s of C_Idle \<Rightarrow> 0 | C_Tail \<Rightarrow> 4 | C_Test _ \<Rightarrow> 3 | C_Next \<Rightarrow> 2 | C_Val \<Rightarrow> 1)"

lemma consumer_step_left:
  assumes "consumer_step s = Ok t" and "spurious s = 0" and "spurious t = 0" and "consumer_left s \<noteq> 0"
  shows "consumer_left t < consumer_left s \<and> sent t = sent s \<and> ppc t = ppc s"
  using assms
  by (cases "cpc s") (auto simp: consumer_step_def consumer_left_def Let_def res_simps split: if_splits)

lemma spsc_inv_spurious: "spsc_inv s \<Longrightarrow> spurious s = 0"
  by (auto simp: spsc_inv_def spsc_inv_at_def Let_def)

lemma spsc_inv_done:
  "spsc_inv s \<Longrightarrow> consumer_left s = 0 \<Longrightarrow> published (ppc s) = 0 \<Longrightarrow> recvd s = sent s"
  by (cases "cpc s")
    (auto simp: spsc_inv_def spsc_inv_at_def Let_def consumer_left_def in_hand_def holds_token_def)

lemma consumer_drains:
  "spsc_inv s \<Longrightarrow> published (ppc s) = 0 \<Longrightarrow>
     \<exists>n t. n \<le> consumer_left s \<and> consumer_run n s = Ok t \<and> recvd t = sent s"
proof (induction "consumer_left s" arbitrary: s rule: less_induct)
  case less
  show ?case
  proof (cases "consumer_left s = 0")
    case True
    with less.prems spsc_inv_done show ?thesis by (intro exI [of _ 0]) auto
  next
    case False
    obtain s' where s': "consumer_step s = Ok s'" "spsc_inv s'" using consumer_inv less.prems by blast
    then have lt: "consumer_left s' < consumer_left s" and eq: "sent s' = sent s" "ppc s' = ppc s"
      using consumer_step_left less.prems spsc_inv_spurious False by metis+
    from less.hyps [OF lt s'(2)] less.prems eq obtain n t where
      "n \<le> consumer_left s'" "consumer_run n s' = Ok t" "recvd t = sent s" by auto
    with s'(1) lt show ?thesis by (intro exI [of _ "Suc n"]) auto
  qed
qed

section \<open>Properties\<close>

text \<open>
  Two states the witnesses use: a new queue, and the one after the main thread has linked a
  first node but not yet moved the tail reference.
\<close>

definition demo_queue :: "nat spscq" where
  "demo_queue = \<lparr>sq = \<lparr>stqh_first = Some 1, stqh_last = NodeNext 1,
     snodes = fmap_of_list [(1, \<lparr>val = None, stqe_next = NULL\<rparr>)]\<rparr>, qdiv = Some 1\<rparr>"

definition demo_linked :: "nat spsc_state" where
  "demo_linked = \<lparr>shared = \<lparr>sq = \<lparr>stqh_first = Some 1, stqh_last = NodeNext 1,
       snodes = fmap_of_list [(1, \<lparr>val = None, stqe_next = Some 2\<rparr>),
                              (2, \<lparr>val = Some 7, stqe_next = NULL\<rparr>)]\<rparr>, qdiv = Some 1\<rparr>,
     sem = 0, ppc = P_Tail 2, cpc = C_Idle, sent = [Some 7], recvd = [], spurious = 0\<rparr>"

lemma demo_queue_new: "stailq_new_lf_spsc (Some 1) None = Ok demo_queue"
  by (simp add: stailq_new_lf_spsc_def stailq_alloc_node_def stailq_new_def STAILQ_INIT_def
      STAILQ_INSERT_TAIL_def demo_queue_def fmap_of_list_simps)

lemma demo_init_reach: "spsc_reach (spsc_init demo_queue)"
  by (rule spsc_reach.start [OF demo_queue_new])

lemma demo_linked_reach: "spsc_reach demo_linked"
proof -
  let ?n = "\<lparr>val = Some 7, stqe_next = NULL\<rparr> :: nat stailq_node"
  define s1 where "s1 = (spsc_init demo_queue)\<lparr>shared := demo_queue\<lparr>sq := (sq demo_queue)\<lparr>snodes :=
    fmupd 2 ?n (snodes (sq demo_queue))\<rparr>\<rparr>, ppc := P_Link 2 (Some 7)\<rparr>"
  have "producer_step (Some 2) (Some 7) (spsc_init demo_queue) = Ok s1"
    by (simp add: producer_step_def spsc_init_def s1_def stailq_alloc_node_def Let_def)
  then have "spsc_step (spsc_init demo_queue) s1"
    by (rule produce [rotated]) (simp add: spsc_init_def demo_queue_def fmap_of_list_simps)
  moreover have "producer_step (Some 3) None s1 = Ok demo_linked"
    by (simp add: producer_step_def s1_def demo_linked_def spsc_init_def demo_queue_def
        fmap_of_list_simps fmupd_reorder_neq)
  then have "spsc_step s1 demo_linked"
    by (rule produce [rotated]) (simp add: s1_def spsc_init_def demo_queue_def fmap_of_list_simps)
  ultimately show ?thesis using demo_init_reach more by blast
qed

definition demo_posted :: "nat spsc_state" where
  "demo_posted = demo_linked\<lparr>shared := (shared demo_linked)\<lparr>sq := (sq (shared demo_linked))
     \<lparr>stqh_last := NodeNext 2\<rparr>\<rparr>, sem := 1, ppc := P_Idle\<rparr>"

lemma demo_posted_reach: "spsc_reach demo_posted"
proof -
  define s1 where "s1 = demo_posted\<lparr>sem := 0, ppc := P_Trim\<rparr>"
  have "producer_step (Some 3) None demo_linked = Ok s1"
    by (simp add: producer_step_def s1_def demo_posted_def demo_linked_def Let_def)
  then have 1: "spsc_step demo_linked s1"
    by (rule produce [rotated]) (simp add: demo_linked_def fmap_of_list_simps)
  have "producer_step (Some 3) None s1 = Ok (s1\<lparr>ppc := P_Post\<rparr>)"
    by (simp add: producer_step_def s1_def demo_posted_def demo_linked_def STAILQ_FIRST_def Let_def)
  then have 2: "spsc_step s1 (s1\<lparr>ppc := P_Post\<rparr>)"
    by (rule produce [rotated]) (simp add: s1_def demo_posted_def demo_linked_def fmap_of_list_simps)
  have "producer_step (Some 3) None (s1\<lparr>ppc := P_Post\<rparr>) = Ok demo_posted"
    by (simp add: producer_step_def s1_def demo_posted_def demo_linked_def Let_def)
  then have 3: "spsc_step (s1\<lparr>ppc := P_Post\<rparr>) demo_posted"
    by (rule produce [rotated]) (simp add: s1_def demo_posted_def demo_linked_def fmap_of_list_simps)
  from demo_linked_reach 1 2 3 show ?thesis by (blast intro: more)
qed

text \<open>
  C3. In every state that any interleaving of the main thread and a worker can reach on a new
  divider queue, neither thread's next access dereferences NULL or a freed node or frees
  twice, although no lock is held (given that \<open>malloc\<close> returns an unused block).
\<close>

theorem spsc_no_fault:
  assumes "spsc_reach s" and "fresh_in (snodes (sq (shared s))) np"
  shows "is_ok (producer_step np v s) \<and> is_ok (consumer_step s)"
  using producer_inv [OF spsc_reach_inv [OF assms(1)] assms(2)]
    consumer_inv [OF spsc_reach_inv [OF assms(1)]]
  by (auto simp: is_ok_iff)

theorem spsc_no_fault_witness:
  "is_ok (producer_step (Some 3) (Some 8) demo_linked) \<and> is_ok (consumer_step demo_linked)"
proof -
  have f: "fresh_in (snodes (sq (shared demo_linked))) (Some 3)"
    by (simp add: demo_linked_def fmap_of_list_simps)
  show ?thesis using spsc_no_fault [OF demo_linked_reach f] by blast
qed

text \<open>
  C4. What the worker has received is at every moment a prefix of what the main thread has
  published, in the same order and with nothing lost or doubled, and the worker is never
  told that the queue is empty.
\<close>

theorem spsc_fifo_order:
  assumes "spsc_reach s"
  shows "\<exists>rest. sent s = recvd s @ rest \<and> spurious s = 0"
  using spsc_reach_inv [OF assms] by (auto simp: spsc_inv_def spsc_inv_at_def Let_def)

theorem spsc_fifo_order_witness:
  "\<exists>rest. sent demo_linked = recvd demo_linked @ rest \<and> spurious demo_linked = 0"
  using spsc_fifo_order [OF demo_linked_reach] by blast

text \<open>
  C8. When the main thread is between insertions, a worker that keeps running receives
  everything that was published, within five steps for every waiting token.
\<close>

theorem spsc_delivers:
  assumes "spsc_reach s" and "ppc s = P_Idle"
  shows "\<exists>n t. n \<le> 5 * sem s + 4 \<and> consumer_run n s = Ok t \<and> recvd t = sent s"
proof -
  have le: "consumer_left s \<le> 5 * sem s + 4"
    by (simp add: consumer_left_def split: consumer_pc.splits)
  have "published (ppc s) = 0" using assms(2) by (simp add: published_def)
  from consumer_drains [OF spsc_reach_inv [OF assms(1)] this] le show ?thesis
    by (meson le_trans)
qed

theorem spsc_delivers_witness:
  "\<exists>n t. n \<le> 5 * sem demo_posted + 4 \<and> consumer_run n demo_posted = Ok t \<and>
     recvd t = sent demo_posted"
  by (rule spsc_delivers [OF demo_posted_reach]) (simp add: demo_posted_def)

end
