(* ===== verification/Lfq.thy ===== *)
theory Lfq
  imports Fifo
begin

text \<open>
  The queue of \<open>src/lfq.c\<close> and \<open>src/lfq.h\<close>: a singly linked list with three pointers. The
  producer owns \<open>first\<close>, the consumer advances \<open>divider\<close>, the producer publishes at \<open>last\<close>; the
  nodes between \<open>first\<close> and \<open>divider\<close> are consumed and wait for the producer to free them. A
  stored value is a \<open>void *\<close>, so it may be NULL.
\<close>

section \<open>Data and operations\<close>

record 'v lfq_node =
  lvalue :: "'v option"
  link :: ptr

record 'v lfq =
  first :: ptr
  divider :: ptr
  last_node :: ptr
  lnodes :: "'v lfq_node heap"

definition lfq_node_new :: "'v lfq_node heap \<Rightarrow> ptr \<Rightarrow> 'v option \<Rightarrow> 'v lfq_node heap res" where
  "lfq_node_new h np v = heap_alloc h np \<lparr>lvalue = v, link = NULL\<rparr>"

definition lfq_node_delete :: "'v lfq_node heap \<Rightarrow> ptr \<Rightarrow> 'v lfq_node heap res" where
  "lfq_node_delete h p = heap_free h p"

definition lfq_new :: "ptr \<Rightarrow> 'v lfq res" where
  "lfq_new np = res_bind (lfq_node_new fmempty np None) (\<lambda>h.
     Ok \<lparr>first = np, divider = np, last_node = np, lnodes = h\<rparr>)"

text \<open>\<open>while (q->first != NULL)\<close> of \<open>lfq_delete\<close>; the caller then frees the queue head itself.\<close>

function lfq_delete :: "'v lfq \<Rightarrow> 'v lfq res" where
  "lfq_delete q =
     (if first q = NULL then Ok q
      else res_bind (deref (lnodes q) (first q)) (\<lambda>n.
             res_bind (heap_free (lnodes q) (first q)) (\<lambda>h.
               lfq_delete (q\<lparr>first := link n, lnodes := h\<rparr>))))"
  by pat_completeness auto
termination
  by (relation "measure (\<lambda>q. fcard (fmdom (lnodes q)))")
    (auto simp: res_simps simp del: fmdom_drop)

text \<open>The trim loop of \<open>lfq_in\<close>: \<open>while (q->first != q->divider)\<close>.\<close>

function lfq_trim :: "'v lfq \<Rightarrow> 'v lfq res" where
  "lfq_trim q =
     (if first q = divider q then Ok q
      else res_bind (deref (lnodes q) (first q)) (\<lambda>n.
             res_bind (heap_free (lnodes q) (first q)) (\<lambda>h.
               lfq_trim (q\<lparr>first := link n, lnodes := h\<rparr>))))"
  by pat_completeness auto
termination
  by (relation "measure (\<lambda>q. fcard (fmdom (lnodes q)))")
    (auto simp: res_simps simp del: fmdom_drop)

declare lfq_delete.simps [simp del] lfq_trim.simps [simp del]

definition lfq_in :: "ptr \<Rightarrow> 'v option \<Rightarrow> 'v lfq \<Rightarrow> 'v lfq res" where
  "lfq_in np v q =
     res_bind (lfq_node_new (lnodes q) np v) (\<lambda>h1.
     res_bind (heap_write h1 (last_node q) (\<lambda>n. n\<lparr>link := np\<rparr>)) (\<lambda>h2.
     res_bind (deref h2 (last_node q)) (\<lambda>l.
       lfq_trim (q\<lparr>last_node := link l, lnodes := h2\<rparr>))))"

definition lfq_is_empty :: "'v lfq \<Rightarrow> bool" where
  "lfq_is_empty q = (divider q = last_node q)"

definition lfq_out :: "'v lfq \<Rightarrow> ('v option \<times> 'v lfq) res" where
  "lfq_out q =
     (if divider q \<noteq> last_node q
      then res_bind (deref (lnodes q) (divider q)) (\<lambda>d.
           res_bind (deref (lnodes q) (link d)) (\<lambda>n.
             Ok (lvalue n, q\<lparr>divider := link d\<rparr>)))
      else Ok (None, q))"

section \<open>Representation\<close>

text \<open>
  \<open>lfq_chain q xs d ys\<close>: the nodes from \<open>first\<close> on are the consumed \<open>xs\<close>, the divider node \<open>d\<close> and
  the waiting nodes \<open>ys\<close>; \<open>last_node\<close> is the end of the list and the heap holds nothing else, so
  no node is leaked.
\<close>

definition lfq_chain :: "'v lfq \<Rightarrow> addr list \<Rightarrow> addr \<Rightarrow> addr list \<Rightarrow> bool" where
  "lfq_chain q xs d ys \<longleftrightarrow>
     lseg link (lnodes q) (first q) (xs @ d # ys) NULL \<and> divider q = Some d \<and>
     last_node q = Some (last (d # ys)) \<and> distinct (xs @ d # ys) \<and>
     fset (fmdom (lnodes q)) = set (xs @ d # ys)"

definition lfq_rep :: "'v lfq \<Rightarrow> 'v list \<Rightarrow> bool" where
  "lfq_rep q vs \<longleftrightarrow>
     (\<exists>xs d ys. lfq_chain q xs d ys \<and> seg_vals lvalue (lnodes q) ys = map Some vs)"

definition lfq_fresh :: "'v lfq \<Rightarrow> ptr \<Rightarrow> bool" where
  "lfq_fresh q np = fresh_in (lnodes q) np"

text \<open>The enqueue a client uses: the value stored is not NULL.\<close>

definition lfq_enqueue :: "ptr \<Rightarrow> 'v \<Rightarrow> 'v lfq \<Rightarrow> 'v lfq res" where
  "lfq_enqueue np v q = lfq_in np (Some v) q"

lemma lfq_trim_chain:
  "lfq_chain q xs d ys \<Longrightarrow>
     \<exists>q'. lfq_trim q = Ok q' \<and> lfq_chain q' [] d ys \<and>
          seg_vals lvalue (lnodes q') ys = seg_vals lvalue (lnodes q) ys"
proof (induction xs arbitrary: q)
  case Nil
  then have "first q = divider q" by (auto simp: lfq_chain_def)
  with Nil show ?case by (auto simp: lfq_trim.simps [of q])
next
  case (Cons x xs)
  then obtain n where x: "first q = Some x" "fmlookup (lnodes q) x = Some n" "x \<noteq> d" "x \<notin> set ys"
    and "divider q = Some d"
    by (auto simp: lfq_chain_def)
  let ?q = "q\<lparr>first := link n, lnodes := fmdrop x (lnodes q)\<rparr>"
  have "lfq_chain ?q xs d ys"
    using Cons.prems x by (auto simp: lfq_chain_def)
  from Cons.IH [OF this] x \<open>divider q = Some d\<close> show ?case
    by (simp add: lfq_trim.simps [of q])
qed

lemma lseg_last_link:
  "lseg nx h p as NULL \<Longrightarrow> as \<noteq> [] \<Longrightarrow> \<exists>n. fmlookup h (last as) = Some n \<and> nx n = NULL"
  by (induction as arbitrary: p) auto

text \<open>Linking a fresh block behind the last one extends the list.\<close>

lemma lseg_link_last:
  assumes "lseg link h p as NULL" and "as \<noteq> []" and "distinct as" and "a \<notin> set as"
    and "fmlookup h (last as) = Some l"
  shows "lseg link (fmupd (last as) (l\<lparr>link := Some a\<rparr>) (fmupd a \<lparr>lvalue = v, link = NULL\<rparr> h))
           p (as @ [a]) NULL"
  using assms
proof (induction as arbitrary: p)
  case Nil
  then show ?case by simp
next
  case (Cons b bs)
  then show ?case by (cases "bs = []") auto
qed

lemma seg_vals_relink [simp]:
  "fmlookup h b = Some l \<Longrightarrow> seg_vals lvalue (fmupd b (l\<lparr>link := p\<rparr>) h) as = seg_vals lvalue h as"
  by (simp add: seg_vals_def)

lemma lfq_in_rep:
  assumes "lfq_chain q xs d ys" and "fresh_in (lnodes q) np"
  shows "\<exists>q' a. np = Some a \<and> lfq_in np v q = Ok q' \<and> lfq_chain q' [] d (ys @ [a]) \<and>
           seg_vals lvalue (lnodes q') (ys @ [a]) = seg_vals lvalue (lnodes q) ys @ [v]"
proof -
  from assms(2) obtain a where a: "np = Some a" "a |\<notin>| fmdom (lnodes q)"
    by (cases np) auto
  define h1 where "h1 = fmupd a \<lparr>lvalue = v, link = NULL\<rparr> (lnodes q)"
  let ?l = "last (d # ys)"
  have all: "lseg link (lnodes q) (first q) (xs @ d # ys) NULL" "distinct (xs @ d # ys)"
    and a_new: "a \<notin> set (xs @ d # ys)" and l: "last_node q = Some ?l"
    using assms(1) a by (auto simp: lfq_chain_def)
  have lst: "last (xs @ d # ys) = ?l" by simp
  obtain l where l': "fmlookup (lnodes q) ?l = Some l"
    using lseg_last_link [OF all(1)] lst by auto
  have "?l \<noteq> a" using a_new by (metis last_in_set list.discI UnCI set_append)
  then have h1l: "fmlookup h1 ?l = Some l" using l' by (simp add: h1_def)
  define h2 where "h2 = fmupd ?l (l\<lparr>link := Some a\<rparr>) h1"
  let ?q = "q\<lparr>last_node := Some a, lnodes := h2\<rparr>"
  have "lseg link h2 (first q) ((xs @ d # ys) @ [a]) NULL"
    unfolding h2_def h1_def
    using lseg_link_last [OF all(1) _ all(2) a_new] l' lst by fastforce
  moreover have "fset (fmdom h2) = set (xs @ d # ys @ [a])"
    using assms(1) l' by (auto simp: lfq_chain_def h2_def h1_def fmdomI)
  ultimately have chain: "lfq_chain ?q xs d (ys @ [a])"
    using assms(1) a_new by (auto simp: lfq_chain_def)
  have vals: "seg_vals lvalue h2 (ys @ [a]) = seg_vals lvalue (lnodes q) ys @ [v]"
    using a_new seg_vals_relink [OF h1l, of "Some a" "ys @ [a]", folded h2_def]
    by (simp only:) (simp add: h1_def)
  have "lfq_in np v q = lfq_trim ?q"
    using a l h1l by (simp add: lfq_in_def lfq_node_new_def h1_def [symmetric] h2_def [symmetric])
      (simp add: h2_def)
  with lfq_trim_chain [OF chain] vals a show ?thesis by auto
qed

lemma lfq_out_rep:
  assumes "lfq_chain q xs d (y # ys)"
  shows "lfq_out q = Ok (lvalue (the (fmlookup (lnodes q) y)), q\<lparr>divider := Some y\<rparr>)"
    and "lfq_chain (q\<lparr>divider := Some y\<rparr>) (xs @ [d]) y ys"
proof -
  from assms obtain n m where "fmlookup (lnodes q) d = Some n" "link n = Some y"
    "fmlookup (lnodes q) y = Some m" "divider q = Some d" "last_node q = Some (last (y # ys))"
    "distinct (d # y # ys)"
    by (auto simp: lfq_chain_def seg_simps)
  moreover from this have "d \<noteq> last (y # ys)"
    by (metis distinct.simps(2) last_in_set list.discI)
  ultimately show "lfq_out q = Ok (lvalue (the (fmlookup (lnodes q) y)), q\<lparr>divider := Some y\<rparr>)"
    by (simp add: lfq_out_def)
  show "lfq_chain (q\<lparr>divider := Some y\<rparr>) (xs @ [d]) y ys"
    using assms by (auto simp: lfq_chain_def)
qed

lemma lfq_out_empty: "lfq_chain q xs d [] \<Longrightarrow> lfq_out q = Ok (None, q)"
  by (simp add: lfq_out_def lfq_chain_def)

interpretation lfq: fifo_total lfq_rep lfq_fresh lfq_enqueue lfq_out
proof unfold_locales
  fix q :: "'a lfq" and vs a v
  assume "lfq_rep q vs" and "lfq_fresh q a"
  then show "\<exists>q'. lfq_enqueue a v q = Ok q' \<and> lfq_rep q' (vs @ [v])"
    unfolding lfq_rep_def lfq_fresh_def lfq_enqueue_def
    using lfq_in_rep [of q _ _ _ a "Some v"] by fastforce
next
  fix q :: "'a lfq" and v vs
  assume "lfq_rep q (v # vs)"
  then obtain xs d y ys where "lfq_chain q xs d (y # ys)"
    "seg_vals lvalue (lnodes q) (y # ys) = map Some (v # vs)"
    unfolding lfq_rep_def by (metis length_0_conv list.exhaust list.map(2) list.simps(3) seg_vals_simps(4))
  with lfq_out_rep show "\<exists>q'. lfq_out q = Ok (Some v, q') \<and> lfq_rep q' vs"
    unfolding lfq_rep_def by fastforce
next
  fix q :: "'a lfq"
  assume "lfq_rep q []"
  then obtain xs d where "lfq_chain q xs d []"
    unfolding lfq_rep_def by (metis length_0_conv list.map(1) seg_vals_simps(4))
  then show "lfq_out q = Ok (None, q)" by (rule lfq_out_empty)
qed

text \<open>\<open>lfq_delete\<close> frees every node once.\<close>

lemma lfq_delete_seg:
  "lseg link (lnodes q) (first q) as NULL \<Longrightarrow> distinct as \<Longrightarrow> fset (fmdom (lnodes q)) = set as \<Longrightarrow>
     \<exists>q'. lfq_delete q = Ok q' \<and> lnodes q' = fmempty"
proof (induction as arbitrary: q)
  case Nil
  then show ?case by (simp add: lfq_delete.simps [of q] fmdom_empty_conv)
next
  case (Cons a as)
  then obtain n where n: "first q = Some a" "fmlookup (lnodes q) a = Some n" by auto
  have "\<exists>q'. lfq_delete (q\<lparr>first := link n, lnodes := fmdrop a (lnodes q)\<rparr>) = Ok q' \<and> lnodes q' = fmempty"
    using Cons.prems n by (intro Cons.IH) auto
  with n show ?case by (simp add: lfq_delete.simps [of q])
qed

section \<open>Properties\<close>

definition demo_lfq :: "nat lfq" where
  "demo_lfq = \<lparr>first = Some 1, divider = Some 1, last_node = Some 1,
     lnodes = fmap_of_list [(1, \<lparr>lvalue = None, link = NULL\<rparr>)]\<rparr>"

lemma demo_lfq_new: "lfq_new (Some 1) = Ok demo_lfq"
  by (simp add: lfq_new_def lfq_node_new_def demo_lfq_def fmap_of_list_simps)

lemma demo_lfq_chain: "lfq_chain demo_lfq [] 1 []"
  by (simp add: lfq_chain_def demo_lfq_def fmap_of_list_simps)

lemma lfq_new_rep: "lfq_new (Some a) = Ok q \<Longrightarrow> lfq_rep q []"
  unfolding lfq_rep_def
  by (rule exI [of _ "[]"], rule exI [of _ a], rule exI [of _ "[]"])
    (auto simp: lfq_new_def lfq_node_new_def lfq_chain_def)

text \<open>
  C9. Any sequence of \<open>lfq_in\<close> and \<open>lfq_out\<close> calls on a queue made by \<open>lfq_new\<close>, with nodes from
  a working allocator, runs without a fault and takes out exactly the values the abstract
  first-in first-out queue gives, in that order.
\<close>

theorem lfq_refines_fifo:
  assumes "lfq_new (Some a) = Ok q" and "fifo_allocs_ok lfq_fresh lfq_enqueue lfq_out q ops"
  shows "\<exists>q'. fifo_run lfq_enqueue lfq_out q ops = Ok (fst (fifo_spec [] ops), q') \<and>
     lfq_rep q' (snd (fifo_spec [] ops))"
  using lfq.run_refines_spec [OF lfq_new_rep [OF assms(1)] assms(2)] .

theorem lfq_refines_fifo_witness:
  "\<exists>q'. fifo_run lfq_enqueue lfq_out demo_lfq [Enq (Some 2) 5, Deq, Deq] =
     Ok (fst (fifo_spec [] [Enq (Some 2) 5, Deq, Deq]), q') \<and>
     lfq_rep q' (snd (fifo_spec [] [Enq (Some 2) 5, Deq, Deq]))"
proof (rule lfq_refines_fifo [OF demo_lfq_new])
  have "lfq_enqueue (Some 2) 5 demo_lfq = Ok (demo_lfq\<lparr>last_node := Some 2, lnodes :=
      fmap_of_list [(1, \<lparr>lvalue = None, link = Some 2\<rparr>), (2, \<lparr>lvalue = Some 5, link = NULL\<rparr>)]\<rparr>)"
    by (simp add: lfq_enqueue_def lfq_in_def lfq_node_new_def demo_lfq_def fmap_of_list_simps
        lfq_trim.simps fmupd_reorder_neq)
  then show "fifo_allocs_ok lfq_fresh lfq_enqueue lfq_out demo_lfq [Enq (Some 2) 5, Deq, Deq]"
    by (simp add: lfq_fresh_def lfq_out_def demo_lfq_def fmap_of_list_simps)
qed

text \<open>
  After \<open>lfq_in\<close> the only allocated nodes are the divider and the waiting ones: the
  producer has freed every consumed node, and one more value waits.
\<close>

theorem lfq_in_reclaims:
  assumes "lfq_chain q xs d ys" and "fresh_in (lnodes q) (Some a)"
  shows "\<exists>q'. lfq_in (Some a) v q = Ok q' \<and> fset (fmdom (lnodes q')) = set (d # ys @ [a]) \<and>
     first q' = divider q' \<and> seg_vals lvalue (lnodes q') (ys @ [a]) = seg_vals lvalue (lnodes q) ys @ [v]"
  using lfq_in_rep [OF assms, of v] by (auto simp: lfq_chain_def)

theorem lfq_in_reclaims_witness:
  "\<exists>q'. lfq_in (Some 2) (Some 9) demo_lfq = Ok q' \<and> fset (fmdom (lnodes q')) = set (1 # [] @ [2]) \<and>
     first q' = divider q' \<and>
     seg_vals lvalue (lnodes q') ([] @ [2]) = seg_vals lvalue (lnodes demo_lfq) [] @ [Some 9]"
  by (rule lfq_in_reclaims [OF demo_lfq_chain]) (simp add: demo_lfq_def fmap_of_list_simps)

text \<open>
  C37. \<open>lfq_delete\<close> terminates without a fault on every well-formed queue and leaves no node
  allocated, whatever was consumed and whatever still waits.
\<close>

theorem lfq_delete_frees_all:
  assumes "lfq_chain q xs d ys"
  shows "\<exists>q'. lfq_delete q = Ok q' \<and> lnodes q' = fmempty"
  using assms by (intro lfq_delete_seg [of q "xs @ d # ys"]) (simp_all add: lfq_chain_def)

theorem lfq_delete_frees_all_witness: "\<exists>q'. lfq_delete demo_lfq = Ok q' \<and> lnodes q' = fmempty"
  by (rule lfq_delete_frees_all [OF demo_lfq_chain])

end
