(* ===== verification/Stacks.thy ===== *)
theory Stacks
  imports Prelude
begin

text \<open>
  The two linked stacks of the program: \<open>src/stack.c\<close> and the \<open>slist_*\<close> macros of \<open>src/main.h\<close>,
  which the hooks use as their memory pool. Both provide the same last-in first-out contract
  (locale \<open>lifo\<close>).
\<close>

section \<open>The contract\<close>

locale lifo =
  fixes rep :: "'s \<Rightarrow> 'v list \<Rightarrow> bool"
    and fresh :: "'s \<Rightarrow> ptr \<Rightarrow> bool"
    and push :: "ptr \<Rightarrow> 'v \<Rightarrow> 's \<Rightarrow> 's res"
    and pop :: "'s \<Rightarrow> ('v option \<times> 's) res"
  assumes push_rep: "rep s vs \<Longrightarrow> fresh s a \<Longrightarrow> \<exists>s'. push a v s = Ok s' \<and> rep s' (v # vs)"
    and pop_rep: "rep s (v # vs) \<Longrightarrow> \<exists>s'. pop s = Ok (Some v, s') \<and> rep s' vs"
    and pop_empty: "rep s [] \<Longrightarrow> pop s = Ok (None, s)"
begin

lemma push_pop:
  assumes "rep s vs" and "fresh s a"
  shows "\<exists>s1 s2. push a v s = Ok s1 \<and> pop s1 = Ok (Some v, s2) \<and> rep s2 vs"
proof -
  from push_rep [OF assms] obtain s1 where "push a v s = Ok s1" "rep s1 (v # vs)" by blast
  with pop_rep show ?thesis by blast
qed

end

section \<open>stack.c\<close>

record 'v node =
  nvalue :: "'v option"
  nlink :: ptr

record 'v stack =
  top :: ptr
  stnodes :: "'v node heap"

text \<open>\<open>stack_new\<close> asserts that the head was allocated.\<close>

definition stack_new :: "ptr \<Rightarrow> 'v stack res" where
  "stack_new ret = res_bind (c_assert (ret \<noteq> NULL)) (\<lambda>_. Ok \<lparr>top = NULL, stnodes = fmempty\<rparr>)"

definition stack_in :: "ptr \<Rightarrow> 'v option \<Rightarrow> 'v stack \<Rightarrow> 'v stack res" where
  "stack_in tmp v st =
     res_bind (heap_alloc (stnodes st) tmp \<lparr>nvalue = v, nlink = top st\<rparr>) (\<lambda>h.
       Ok (st\<lparr>top := tmp, stnodes := h\<rparr>))"

definition stack_out :: "'v stack \<Rightarrow> ('v option \<times> 'v stack) res" where
  "stack_out st =
     (if top st = NULL then Ok (None, st)
      else res_bind (deref (stnodes st) (top st)) (\<lambda>tmp.
           res_bind (heap_free (stnodes st) (top st)) (\<lambda>h.
             Ok (nvalue tmp, st\<lparr>top := nlink tmp, stnodes := h\<rparr>))))"

function stack_delete :: "'v stack \<Rightarrow> 'v stack res" where
  "stack_delete st =
     (if top st = NULL then Ok st
      else res_bind (deref (stnodes st) (top st)) (\<lambda>tmp.
           res_bind (heap_free (stnodes st) (top st)) (\<lambda>h.
             stack_delete (st\<lparr>top := nlink tmp, stnodes := h\<rparr>))))"
  by pat_completeness auto
termination
  by (relation "measure (\<lambda>st. fcard (fmdom (stnodes st)))")
    (auto simp: res_simps simp del: fmdom_drop)

declare stack_delete.simps [simp del]

definition stack_chain :: "'v stack \<Rightarrow> addr list \<Rightarrow> bool" where
  "stack_chain st as \<longleftrightarrow>
     lseg nlink (stnodes st) (top st) as NULL \<and> distinct as \<and> fset (fmdom (stnodes st)) = set as"

definition stack_rep :: "'v stack \<Rightarrow> 'v list \<Rightarrow> bool" where
  "stack_rep st vs \<longleftrightarrow> (\<exists>as. stack_chain st as \<and> seg_vals nvalue (stnodes st) as = map Some vs)"

definition stack_fresh :: "'v stack \<Rightarrow> ptr \<Rightarrow> bool" where
  "stack_fresh st p = fresh_in (stnodes st) p"

definition stack_push :: "ptr \<Rightarrow> 'v \<Rightarrow> 'v stack \<Rightarrow> 'v stack res" where
  "stack_push tmp v st = stack_in tmp (Some v) st"

lemma stack_in_chain:
  assumes "stack_chain st as" and "a |\<notin>| fmdom (stnodes st)"
  shows "\<exists>st'. stack_in (Some a) v st = Ok st' \<and> stack_chain st' (a # as) \<and>
     seg_vals nvalue (stnodes st') (a # as) = v # seg_vals nvalue (stnodes st) as"
proof -
  from assms have "a \<notin> set as" by (auto simp: stack_chain_def)
  with assms show ?thesis by (simp add: stack_chain_def stack_in_def)
qed

lemma stack_out_chain:
  assumes "stack_chain st (a # as)"
  shows "\<exists>st'. stack_out st = Ok (nvalue (the (fmlookup (stnodes st) a)), st') \<and>
     stack_chain st' as \<and> seg_vals nvalue (stnodes st') as = seg_vals nvalue (stnodes st) as"
  using assms by (auto simp: stack_chain_def stack_out_def)

lemma stack_delete_chain:
  "stack_chain st as \<Longrightarrow> \<exists>st'. stack_delete st = Ok st' \<and> stack_chain st' []"
proof (induction as arbitrary: st)
  case Nil
  then show ?case by (auto simp: stack_chain_def stack_delete.simps [of st])
next
  case (Cons a as)
  then obtain n where n: "top st = Some a" "fmlookup (stnodes st) a = Some n"
    by (auto simp: stack_chain_def)
  have "stack_chain (st\<lparr>top := nlink n, stnodes := fmdrop a (stnodes st)\<rparr>) as"
    using Cons.prems n by (auto simp: stack_chain_def)
  from Cons.IH [OF this] n show ?case by (simp add: stack_delete.simps [of st])
qed

interpretation stk: lifo stack_rep stack_fresh stack_push stack_out
proof unfold_locales
  fix st :: "'a stack" and vs a v
  assume "stack_rep st vs" and "stack_fresh st a"
  then obtain as b where "stack_chain st as" "seg_vals nvalue (stnodes st) as = map Some vs"
    "a = Some b" "b |\<notin>| fmdom (stnodes st)"
    unfolding stack_rep_def stack_fresh_def by (cases a) auto
  with stack_in_chain [of st as b "Some v"]
  show "\<exists>st'. stack_push a v st = Ok st' \<and> stack_rep st' (v # vs)"
    unfolding stack_rep_def stack_push_def by fastforce
next
  fix st :: "'a stack" and v vs
  assume "stack_rep st (v # vs)"
  then obtain a as where "stack_chain st (a # as)"
    "seg_vals nvalue (stnodes st) (a # as) = map Some (v # vs)"
    unfolding stack_rep_def by (metis length_0_conv list.exhaust list.map(2) list.simps(3) seg_vals_simps(4))
  with stack_out_chain show "\<exists>st'. stack_out st = Ok (Some v, st') \<and> stack_rep st' vs"
    unfolding stack_rep_def by fastforce
next
  fix st :: "'a stack"
  assume "stack_rep st []"
  then show "stack_out st = Ok (None, st)"
    by (auto simp: stack_rep_def stack_chain_def stack_out_def dest: arg_cong [where f = length])
qed

section \<open>The slist macros\<close>

record 'v slist_node =
  slval :: "'v option"
  slist_link :: ptr

record 'v slist =
  slh_first :: ptr
  slnodes :: "'v slist_node heap"

definition slist_new :: "'v slist" where
  "slist_new = \<lparr>slh_first = NULL, slnodes = fmempty\<rparr>"

definition slist_in :: "ptr \<Rightarrow> 'v option \<Rightarrow> 'v slist \<Rightarrow> 'v slist res" where
  "slist_in np v p =
     res_bind (heap_alloc (slnodes p) np \<lparr>slval = v, slist_link = slh_first p\<rparr>) (\<lambda>h.
       Ok (p\<lparr>slh_first := np, slnodes := h\<rparr>))"

definition slist_out :: "'v slist \<Rightarrow> ('v option \<times> 'v slist) res" where
  "slist_out p =
     (if slh_first p = NULL then Ok (None, p)
      else res_bind (deref (slnodes p) (slh_first p)) (\<lambda>np.
           res_bind (heap_free (slnodes p) (slh_first p)) (\<lambda>h.
             Ok (slval np, p\<lparr>slh_first := slist_link np, slnodes := h\<rparr>))))"

text \<open>\<open>slist_free(p, vfree)\<close>; the values passed to \<open>DO_FREE\<close> are returned in order.\<close>

function slist_free :: "bool \<Rightarrow> 'v slist \<Rightarrow> ('v list \<times> 'v slist) res" where
  "slist_free vfree p =
     (if slh_first p = NULL then Ok ([], p)
      else res_bind (deref (slnodes p) (slh_first p)) (\<lambda>np.
           res_bind (heap_free (slnodes p) (slh_first p)) (\<lambda>h.
           res_bind (slist_free vfree (p\<lparr>slh_first := slist_link np, slnodes := h\<rparr>)) (\<lambda>(vs, p').
             Ok (case slval np of Some v \<Rightarrow> if vfree then (v # vs, p') else (vs, p')
                 | None \<Rightarrow> (vs, p'))))))"
  by pat_completeness auto
termination
  by (relation "measure (\<lambda>(b, p). fcard (fmdom (slnodes p)))")
    (auto simp: res_simps simp del: fmdom_drop)

declare slist_free.simps [simp del]

text \<open>
  \<open>slist_remove_val(p, v, vfree)\<close>: the first node holding \<open>v\<close> is unlinked (\<open>SLIST_REMOVE\<close> walks
  from the head to its predecessor) and freed. \<open>slist_find\<close> is the \<open>SLIST_FOREACH\<close>; the fuel is
  the number of nodes, which no acyclic list exceeds.
\<close>

fun slist_find :: "nat \<Rightarrow> 'v slist_node heap \<Rightarrow> ptr \<Rightarrow> ptr \<Rightarrow> 'v option \<Rightarrow>
    (ptr \<times> addr \<times> 'v slist_node) option res" where
  "slist_find 0 h prev p v = Ok None"
| "slist_find (Suc fuel) h prev p v =
     (case p of None \<Rightarrow> Ok None
      | Some a \<Rightarrow> res_bind (deref h (Some a)) (\<lambda>n.
          if slval n = v then Ok (Some (prev, a, n))
          else slist_find fuel h (Some a) (slist_link n) v))"

definition slist_remove_val :: "'v slist \<Rightarrow> 'v option \<Rightarrow> bool \<Rightarrow> ('v list \<times> 'v slist) res" where
  "slist_remove_val p v vfree =
     res_bind (slist_find (fcard (fmdom (slnodes p))) (slnodes p) NULL (slh_first p) v) (\<lambda>r.
       case r of None \<Rightarrow> Ok ([], p)
       | Some (prev, a, n) \<Rightarrow>
           res_bind (if prev = NULL then Ok (p\<lparr>slh_first := slist_link n\<rparr>)
                     else res_bind (heap_write (slnodes p) prev (\<lambda>m. m\<lparr>slist_link := slist_link n\<rparr>))
                            (\<lambda>h. Ok (p\<lparr>slnodes := h\<rparr>))) (\<lambda>p1.
           res_bind (heap_free (slnodes p1) (Some a)) (\<lambda>h.
             Ok (case slval n of Some w \<Rightarrow> if vfree then [w] else [] | None \<Rightarrow> [],
                 p1\<lparr>slnodes := h\<rparr>))))"

definition slist_chain :: "'v slist \<Rightarrow> addr list \<Rightarrow> bool" where
  "slist_chain p as \<longleftrightarrow>
     lseg slist_link (slnodes p) (slh_first p) as NULL \<and> distinct as \<and>
     fset (fmdom (slnodes p)) = set as"

definition slist_rep :: "'v slist \<Rightarrow> 'v list \<Rightarrow> bool" where
  "slist_rep p vs \<longleftrightarrow> (\<exists>as. slist_chain p as \<and> seg_vals slval (slnodes p) as = map Some vs)"

definition slist_fresh :: "'v slist \<Rightarrow> ptr \<Rightarrow> bool" where
  "slist_fresh p np = fresh_in (slnodes p) np"

definition slist_push :: "ptr \<Rightarrow> 'v \<Rightarrow> 'v slist \<Rightarrow> 'v slist res" where
  "slist_push np v p = slist_in np (Some v) p"

lemma slist_in_chain:
  assumes "slist_chain p as" and "a |\<notin>| fmdom (slnodes p)"
  shows "\<exists>p'. slist_in (Some a) v p = Ok p' \<and> slist_chain p' (a # as) \<and>
     seg_vals slval (slnodes p') (a # as) = v # seg_vals slval (slnodes p) as"
proof -
  from assms have "a \<notin> set as" by (auto simp: slist_chain_def)
  with assms show ?thesis by (simp add: slist_chain_def slist_in_def)
qed

lemma slist_out_chain:
  assumes "slist_chain p (a # as)"
  shows "\<exists>p'. slist_out p = Ok (slval (the (fmlookup (slnodes p) a)), p') \<and>
     slist_chain p' as \<and> seg_vals slval (slnodes p') as = seg_vals slval (slnodes p) as"
  using assms by (auto simp: slist_chain_def slist_out_def)

lemma slist_rep_Cons:
  assumes "slist_rep p (v # vs)"
  obtains a as where "slist_chain p (a # as)"
    "seg_vals slval (slnodes p) (a # as) = Some v # map Some vs"
  using assms unfolding slist_rep_def
  by (metis length_0_conv list.exhaust list.map(2) list.simps(3) seg_vals_simps(4))

interpretation sl: lifo slist_rep slist_fresh slist_push slist_out
proof unfold_locales
  fix p :: "'a slist" and vs a v
  assume "slist_rep p vs" and "slist_fresh p a"
  then obtain as b where "slist_chain p as" "seg_vals slval (slnodes p) as = map Some vs"
    "a = Some b" "b |\<notin>| fmdom (slnodes p)"
    unfolding slist_rep_def slist_fresh_def by (cases a) auto
  with slist_in_chain [of p as b "Some v"]
  show "\<exists>p'. slist_push a v p = Ok p' \<and> slist_rep p' (v # vs)"
    unfolding slist_rep_def slist_push_def by fastforce
next
  fix p :: "'a slist" and v vs
  assume "slist_rep p (v # vs)"
  then show "\<exists>p'. slist_out p = Ok (Some v, p') \<and> slist_rep p' vs"
    by (rule slist_rep_Cons) (use slist_out_chain in \<open>unfold slist_rep_def, fastforce\<close>)
next
  fix p :: "'a slist"
  assume "slist_rep p []"
  then show "slist_out p = Ok (None, p)"
    by (auto simp: slist_rep_def slist_chain_def slist_out_def dest: arg_cong [where f = length])
qed

text \<open>Freeing the list hands every stored value to \<open>free\<close> once, newest first, and leaks no node.\<close>

lemma slist_free_rep:
  "slist_rep p vs \<Longrightarrow> \<exists>p'. slist_free vfree p = Ok (if vfree then vs else [], p') \<and> slist_rep p' [] \<and>
     slnodes p' = fmempty"
proof (induction vs arbitrary: p)
  case Nil
  then have "slh_first p = NULL" "fmdom (slnodes p) = {||}"
    by (auto simp: slist_rep_def slist_chain_def dest: arg_cong [where f = length])
  with Nil show ?case by (simp add: slist_free.simps [of vfree p]) (metis fmrestrict_fset_dom fmrestrict_fset_null)
next
  case (Cons v vs)
  then obtain a as where as: "slist_chain p (a # as)"
    "seg_vals slval (slnodes p) (a # as) = Some v # map Some vs"
    by (auto elim: slist_rep_Cons)
  then obtain n where n: "slh_first p = Some a" "fmlookup (slnodes p) a = Some n" "slval n = Some v"
    by (auto simp: slist_chain_def)
  have "slist_rep (p\<lparr>slh_first := slist_link n, slnodes := fmdrop a (slnodes p)\<rparr>) vs"
    unfolding slist_rep_def
    by (rule exI [of _ as]) (use as n in \<open>auto simp: slist_chain_def\<close>)
  from Cons.IH [OF this] n show ?case
    by (auto simp: slist_free.simps [of vfree p])
qed

text \<open>The search of \<open>slist_remove_val\<close> stops at the first node that holds the value.\<close>

lemma slist_find_chain:
  "lseg slist_link h p as NULL \<Longrightarrow> length as \<le> fuel \<Longrightarrow>
     (v \<notin> set (seg_vals slval h as) \<and> slist_find fuel h prev p v = Ok None) \<or>
     (\<exists>us a ws n. as = us @ a # ws \<and> v \<notin> set (seg_vals slval h us) \<and>
        fmlookup h a = Some n \<and> slval n = v \<and>
        slist_find fuel h prev p v = Ok (Some (if us = [] then prev else Some (last us), a, n)))"
proof (induction as arbitrary: p prev fuel)
  case Nil
  then show ?case by (cases fuel) auto
next
  case (Cons b bs)
  then obtain m f where m: "p = Some b" "fmlookup h b = Some m"
    "lseg slist_link h (slist_link m) bs NULL" "fuel = Suc f" "length bs \<le> f"
    by (cases fuel) auto
  show ?case
  proof (cases "slval m = v")
    case True
    with m show ?thesis by (intro disjI2 exI [of _ "[]"]) auto
  next
    case False
    from Cons.IH [OF m(3,5), of "Some b"] show ?thesis
    proof (elim disjE exE conjE)
      assume "v \<notin> set (seg_vals slval h bs)" "slist_find f h (Some b) (slist_link m) v = Ok None"
      with False m show ?thesis by (intro disjI1) auto
    next
      fix us a ws n
      assume "bs = us @ a # ws" "v \<notin> set (seg_vals slval h us)" "fmlookup h a = Some n" "slval n = v"
        "slist_find f h (Some b) (slist_link m) v =
           Ok (Some (if us = [] then Some b else Some (last us), a, n))"
      with False m show ?thesis
        by (intro disjI2 exI [of _ "b # us"] exI [of _ a] exI [of _ ws] exI [of _ n]) auto
    qed
  qed
qed

text \<open>Unlinking a block behind a non-empty prefix leaves the rest of the list in place.\<close>

lemma lseg_unlink:
  assumes "lseg slist_link h p (us @ a # ws) NULL" and "us \<noteq> []" and "distinct (us @ a # ws)"
    and "fmlookup h a = Some n" and "fmlookup h (last us) = Some m"
  shows "lseg slist_link (fmdrop a (fmupd (last us) (m\<lparr>slist_link := slist_link n\<rparr>) h)) p (us @ ws) NULL"
  using assms
proof (induction us arbitrary: p)
  case Nil
  then show ?case by simp
next
  case (Cons b us)
  then show ?case by (cases "us = []") auto
qed

lemma slist_chain_nodes: "slist_chain p as \<Longrightarrow> fcard (fmdom (slnodes p)) = length as"
  by (simp add: slist_chain_def fcard.rep_eq distinct_card)

lemma slist_unlink_rep:
  assumes ch: "slist_chain p (us @ a # ws)" and n: "fmlookup (slnodes p) a = Some n" "slval n = Some v"
    and vals: "seg_vals slval (slnodes p) (us @ a # ws) = map Some vs"
    and us: "Some v \<notin> set (seg_vals slval (slnodes p) us)"
  shows "\<exists>p1. (if us = [] then Ok (p\<lparr>slh_first := slist_link n\<rparr>)
      else res_bind (heap_write (slnodes p) (Some (last us)) (\<lambda>m. m\<lparr>slist_link := slist_link n\<rparr>))
             (\<lambda>h. Ok (p\<lparr>slnodes := h\<rparr>))) = Ok p1 \<and>
    (\<exists>m. fmlookup (slnodes p1) a = Some m) \<and>
    slist_rep (p1\<lparr>slnodes := fmdrop a (slnodes p1)\<rparr>) (remove1 v vs)"
proof -
  have dist: "distinct (us @ a # ws)" and a_us: "a \<notin> set us" and a_ws: "a \<notin> set ws"
    using ch by (auto simp: slist_chain_def)
  obtain xs ys where vs: "vs = xs @ v # ys" "map Some xs = seg_vals slval (slnodes p) us"
    "map Some ys = seg_vals slval (slnodes p) ws"
    using vals n by (auto simp: append_eq_map_conv Cons_eq_map_conv)
  have "v \<notin> set xs" using us vs(2) by (metis image_eqI list.set_map)
  then have rem: "map Some (remove1 v vs) = seg_vals slval (slnodes p) (us @ ws)"
    using vs by (simp add: remove1_append)
  show ?thesis
  proof (cases "us = []")
    case True
    with ch n a_ws rem show ?thesis
      by (auto simp: slist_rep_def slist_chain_def intro!: exI [of _ ws])
  next
    case False
    have "last us \<in> fset (fmdom (slnodes p))"
      using ch last_in_set [OF False] by (simp add: slist_chain_def)
    then obtain m where m: "fmlookup (slnodes p) (last us) = Some m"
      by (auto simp: fmlookup_dom_iff)
    let ?h = "fmupd (last us) (m\<lparr>slist_link := slist_link n\<rparr>) (slnodes p)"
    have "last us \<noteq> a" using False a_us last_in_set by metis
    have "lseg slist_link (fmdrop a ?h) (slh_first p) (us @ ws) NULL"
      using ch False n m dist by (intro lseg_unlink) (auto simp: slist_chain_def)
    moreover have "fset (fmdom (fmdrop a ?h)) = set (us @ ws)"
      using ch a_us a_ws fmdom_fmupd_present [OF m]
      by (simp add: slist_chain_def del: fmdom_fmupd)
    moreover have "seg_vals slval (fmdrop a ?h) (us @ ws) = seg_vals slval (slnodes p) (us @ ws)"
      using a_us a_ws m by (auto simp: seg_vals_def)
    ultimately have "slist_rep (p\<lparr>slnodes := fmdrop a ?h\<rparr>) (remove1 v vs)"
      unfolding slist_rep_def slist_chain_def
      using rem dist by (intro exI [of _ "us @ ws"]) (simp del: fmdom_drop)
    with False m n \<open>last us \<noteq> a\<close> show ?thesis by simp
  qed
qed

lemma slist_remove_val_rep:
  assumes "slist_rep p vs"
  shows "\<exists>p'. slist_remove_val p (Some v) vfree =
       Ok (if v \<in> set vs \<and> vfree then [v] else [], p') \<and> slist_rep p' (remove1 v vs)"
proof -
  from assms obtain as where as: "slist_chain p as" "seg_vals slval (slnodes p) as = map Some vs"
    by (auto simp: slist_rep_def)
  have mem: "v \<in> set vs \<longleftrightarrow> Some v \<in> set (seg_vals slval (slnodes p) as)" using as(2) by auto
  have len: "length as \<le> fcard (fmdom (slnodes p))" using slist_chain_nodes [OF as(1)] by simp
  have seg: "lseg slist_link (slnodes p) (slh_first p) as NULL" using as by (simp add: slist_chain_def)
  from slist_find_chain [OF seg len, of "Some v" NULL] show ?thesis
  proof (elim disjE exE conjE)
    assume "Some v \<notin> set (seg_vals slval (slnodes p) as)"
      "slist_find (fcard (fmdom (slnodes p))) (slnodes p) NULL (slh_first p) (Some v) = Ok None"
    with assms mem show ?thesis by (simp add: slist_remove_val_def remove1_idem)
  next
    fix us a ws n
    assume f: "as = us @ a # ws" "Some v \<notin> set (seg_vals slval (slnodes p) us)"
      "fmlookup (slnodes p) a = Some n" "slval n = Some v"
      "slist_find (fcard (fmdom (slnodes p))) (slnodes p) NULL (slh_first p) (Some v) =
         Ok (Some (if us = [] then NULL else Some (last us), a, n))"
    have "v \<in> set vs" using mem f by simp
    with slist_unlink_rep [OF as(1) [unfolded f(1)] f(3,4) as(2) [unfolded f(1)] f(2)] f(4,5)
    show ?thesis by (cases "us = []") (auto simp: slist_remove_val_def)
  qed
qed

section \<open>Properties\<close>

definition demo_slist :: "nat slist" where
  "demo_slist = \<lparr>slh_first = Some 2, slnodes = fmap_of_list
     [(1, \<lparr>slval = Some 5, slist_link = NULL\<rparr>), (2, \<lparr>slval = Some 6, slist_link = Some 1\<rparr>)]\<rparr>"

lemma demo_slist_rep: "slist_rep demo_slist [6, 5]"
  unfolding slist_rep_def
  by (rule exI [of _ "[2, 1]"]) (auto simp: slist_chain_def demo_slist_def fmap_of_list_simps)

text \<open>
  \<open>slist_remove_val\<close> removes the first occurrence of a value and nothing else: the node is
  freed, the rest keeps its order, and the value goes to \<open>free\<close> exactly when it was present
  and \<open>vfree\<close> is set.
\<close>

theorem slist_remove_val_first:
  assumes "slist_rep p vs"
  shows "\<exists>p'. slist_remove_val p (Some v) vfree =
       Ok (if v \<in> set vs \<and> vfree then [v] else [], p') \<and> slist_rep p' (remove1 v vs)"
  by (rule slist_remove_val_rep [OF assms])

theorem slist_remove_val_first_witness:
  "\<exists>p'. slist_remove_val demo_slist (Some 5) True =
       Ok (if 5 \<in> set [6, 5 :: nat] \<and> True then [5] else [], p') \<and> slist_rep p' (remove1 5 [6, 5])"
  by (rule slist_remove_val_first [OF demo_slist_rep])

text \<open>
  \<open>slist_free\<close> hands every stored pointer to \<open>free\<close> exactly once when \<open>vfree\<close> is set, none
  otherwise, and leaves no node allocated; this is how a hook's memory pool is released.
\<close>

theorem slist_free_releases:
  assumes "slist_rep p vs"
  shows "\<exists>p'. slist_free vfree p = Ok (if vfree then vs else [], p') \<and> slnodes p' = fmempty"
  using slist_free_rep [OF assms, of vfree] by blast

theorem slist_free_releases_witness:
  "\<exists>p'. slist_free True demo_slist = Ok (if True then [6, 5] else [], p') \<and> slnodes p' = fmempty"
  by (rule slist_free_releases [OF demo_slist_rep])

text \<open>\<open>stack_out\<close> undoes \<open>stack_in\<close>: the pushed value comes back and the stack is as before.\<close>

theorem stack_push_pop:
  assumes "stack_rep st vs" and "stack_fresh st a"
  shows "\<exists>st1 st2. stack_in a (Some v) st = Ok st1 \<and> stack_out st1 = Ok (Some v, st2) \<and> stack_rep st2 vs"
  using stk.push_pop [OF assms, of v] by (simp add: stack_push_def)

theorem stack_push_pop_witness:
  "\<exists>st1 st2. stack_in (Some 3) (Some (8 :: nat)) \<lparr>top = NULL, stnodes = fmempty\<rparr> = Ok st1 \<and>
     stack_out st1 = Ok (Some 8, st2) \<and> stack_rep st2 []"
  by (rule stack_push_pop)
    (auto simp: stack_rep_def stack_chain_def stack_fresh_def intro!: exI [of _ "[]"])

end
