(* ===== verification/Arrays.thy ===== *)
theory Arrays
  imports Prelude
begin

text \<open>
  Associative arrays as the server uses them (\<open>src/assoc_array.h\<close>, \<open>src/assoc_array_impl.c\<close>,
  \<open>src/assoc_array_impl_hattrie.h\<close>): maps from byte strings to pointer-sized integers with
  AWK-style reads, which create a blank entry. Here an array is the finite map it stands
  for; the hash tables and the trie underneath have theories of their own. The last part is
  \<open>array_key_make\<close>, which joins subscripts into one key.
\<close>

type_synonym value_t = u64
type_synonym array_t = "(byte list, value_t) fmap"

section \<open>The array macros\<close>

definition array_new :: "array_t" where
  "array_new = fmempty"

definition array_clear :: "array_t \<Rightarrow> array_t" where
  "array_clear a = fmempty"

definition array_size :: "array_t \<Rightarrow> nat" where
  "array_size a = fcard (fmdom a)"

text \<open>\<open>*hattrie_get(a, k, klen)\<close> creates the entry with value 0 when the key is missing.\<close>

definition array_get :: "array_t \<Rightarrow> byte list \<Rightarrow> value_t \<times> array_t" where
  "array_get a k = (case fmlookup a k of Some v \<Rightarrow> (v, a) | None \<Rightarrow> (0, fmupd k 0 a))"

definition array_set :: "array_t \<Rightarrow> byte list \<Rightarrow> value_t \<Rightarrow> array_t" where
  "array_set a k v = fmupd k v a"

definition array_key_exists :: "array_t \<Rightarrow> byte list \<Rightarrow> bool" where
  "array_key_exists a k = (fmlookup a k \<noteq> None)"

definition array_del :: "array_t \<Rightarrow> byte list \<Rightarrow> int \<times> array_t" where
  "array_del a k = (if fmlookup a k = None then (-1, a) else (0, fmdrop k a))"

text \<open>The string macros count the terminating NUL into the key: \<open>strlen(k)+1\<close>.\<close>

definition aget :: "array_t \<Rightarrow> string \<Rightarrow> value_t \<times> array_t" where
  "aget a k = array_get a (cstr k)"

definition aset :: "array_t \<Rightarrow> string \<Rightarrow> value_t \<Rightarrow> array_t" where
  "aset a k v = array_set a (cstr k) v"

definition ahaskey :: "array_t \<Rightarrow> string \<Rightarrow> bool" where
  "ahaskey a k = array_key_exists a (cstr k)"

text \<open>
  \<open>array_dup\<close> walks an iterator, here the list of entries the iterator visits, and stores
  each one into a new array.
\<close>

definition array_dup :: "(byte list \<times> value_t) list \<Rightarrow> array_t" where
  "array_dup entries = fold (\<lambda>(k, v) b. array_set b k v) entries array_new"

lemma aget_value: "fst (aget a k) = (case fmlookup a (cstr k) of Some v \<Rightarrow> v | None \<Rightarrow> 0)"
  by (simp add: aget_def array_get_def split: option.splits)

lemma aget_keeps:
  "ahaskey a k \<Longrightarrow> snd (aget a k) = a"
  by (auto simp: aget_def array_get_def ahaskey_def array_key_exists_def)

lemma array_dup_lookup:
  assumes "distinct (map fst es)"
  shows "fmlookup (array_dup es) k = map_of es k"
proof -
  have "distinct (map fst es) \<Longrightarrow>
      fmlookup (fold (\<lambda>(k, v) b. array_set b k v) es a) k =
        (case map_of es k of Some v \<Rightarrow> Some v | None \<Rightarrow> fmlookup a k)" for a
  proof (induction es arbitrary: a)
    case Nil
    then show ?case by simp
  next
    case (Cons e es)
    moreover have "map_of es (fst e) = None" using Cons.prems by (simp add: map_of_eq_None_iff)
    ultimately show ?case
      by (auto simp: array_set_def split: prod.splits option.splits)
  qed
  with assms show ?thesis by (simp add: array_dup_def array_new_def split: option.splits)
qed

text \<open>Whatever order the iterator uses, the copy is the original.\<close>

lemma array_dup_same:
  assumes "distinct (map fst es)" and "map_of es = fmlookup a"
  shows "array_dup es = a"
  using assms by (intro fmap_ext) (simp add: array_dup_lookup)

section \<open>array_key_make\<close>

definition SUBSEP :: byte where
  "SUBSEP = 0x1c"

text \<open>
  The loop appends one subscript after the other; \<open>keylen\<close> counts what \<open>snprintf\<close> would have
  written and \<open>len-keylen\<close> is a \<open>size_t\<close>.
\<close>

fun key_make_loop :: "block \<Rightarrow> nat \<Rightarrow> nat \<Rightarrow> byte list list \<Rightarrow> (nat \<times> block) res" where
  "key_make_loop key len keylen [] = Ok (keylen, key)"
| "key_make_loop key len keylen (val # vals) =
     res_bind (c_snprintf key keylen (size_sub len keylen) (SUBSEP # val)) (\<lambda>(n, key').
       key_make_loop key' len (keylen + n) vals)"

definition array_key_make :: "block \<Rightarrow> nat \<Rightarrow> byte list \<Rightarrow> byte list list \<Rightarrow> (nat \<times> block) res" where
  "array_key_make key len arg1 vals =
     res_bind (c_snprintf key 0 len arg1) (\<lambda>(n, key1).
     res_bind (key_make_loop key1 len n vals) (\<lambda>(keylen, key2).
     res_bind (blk_write key2 keylen [0]) (\<lambda>key3. Ok (keylen, key3))))"

text \<open>The key the call is meant to build.\<close>

definition joined_key :: "byte list \<Rightarrow> byte list list \<Rightarrow> byte list" where
  "joined_key arg1 vals = arg1 @ concat (map (\<lambda>v. SUBSEP # v) vals)"

lemma key_make_loop_fits:
  assumes "length key = len" and "len < 2 ^ 64" and "take (Suc (length pre)) key = pre @ [0]"
    and "length (pre @ concat (map (\<lambda>v. SUBSEP # v) vals)) < len"
  shows "\<exists>key'. key_make_loop key len (length pre) vals =
      Ok (length (pre @ concat (map (\<lambda>v. SUBSEP # v) vals)), key') \<and> length key' = len \<and>
      take (length (pre @ concat (map (\<lambda>v. SUBSEP # v) vals))) key' =
        pre @ concat (map (\<lambda>v. SUBSEP # v) vals)"
  using assms
proof (induction vals arbitrary: key pre)
  case Nil
  then show ?case
    by (auto dest: arg_cong [where f = "take (length pre)"])
next
  case (Cons v vals)
  let ?d = "pre @ SUBSEP # v"
  let ?w = "SUBSEP # v @ [0]"
  have fits: "length pre + length ?w \<le> len" using Cons.prems(4) by simp
  have sz: "size_sub len (length pre) = len - length pre"
    using Cons.prems by (simp add: size_sub_le)
  have tk: "take (len - length pre - 1) (SUBSEP # v) = SUBSEP # v"
    using fits by (simp add: take_Cons')
  define key1 where "key1 = put_at key (length pre) ?w"
  have step: "c_snprintf key (length pre) (size_sub len (length pre)) (SUBSEP # v) =
      Ok (Suc (length v), key1)"
    using fits Cons.prems(1) tk by (simp add: c_snprintf_def sz key1_def)
  have "take (length pre) key = pre"
    using Cons.prems(3) by (auto dest: arg_cong [where f = "take (length pre)"])
  then have "take (Suc (length ?d)) key1 = ?d @ [0]"
    using take_put_at [of "length pre" ?w key] fits Cons.prems(1) by (simp add: key1_def)
  moreover have "length key1 = len" using fits Cons.prems(1) by (simp add: key1_def)
  ultimately have "\<exists>key'. key_make_loop key1 len (length ?d) vals =
      Ok (length (?d @ concat (map (\<lambda>v. SUBSEP # v) vals)), key') \<and> length key' = len \<and>
      take (length (?d @ concat (map (\<lambda>v. SUBSEP # v) vals))) key' =
        ?d @ concat (map (\<lambda>v. SUBSEP # v) vals)"
    using Cons.prems by (intro Cons.IH) auto
  with step show ?case by (auto simp: algebra_simps)
qed

lemma c_snprintf_len: "c_snprintf b off sz s = Ok (n, b') \<Longrightarrow> n = length s \<and> length b' = length b"
  by (auto simp: c_snprintf_def res_simps blk_write_def split: if_splits)

lemma key_make_loop_length:
  "key_make_loop key len keylen vals = Ok (n, key') \<Longrightarrow>
     n = keylen + length (concat (map (\<lambda>v. SUBSEP # v) vals)) \<and> length key' = length key"
proof (induction vals arbitrary: key keylen)
  case Nil
  then show ?case by simp
next
  case (Cons v vals)
  then obtain m key1 where m: "c_snprintf key keylen (size_sub len keylen) (SUBSEP # v) = Ok (m, key1)"
    "key_make_loop key1 len (keylen + m) vals = Ok (n, key')"
    by (auto simp: res_simps)
  from Cons.IH [OF m(2)] c_snprintf_len [OF m(1)] show ?case by simp
qed

text \<open>A buffer of \<open>len\<close> bytes takes the key and its NUL, or the last store is outside of it.\<close>

lemma array_key_make_fits:
  assumes "length key = len" and "len < 2 ^ 64" and "length (joined_key arg1 vals) < len"
  shows "\<exists>key'. array_key_make key len arg1 vals = Ok (length (joined_key arg1 vals), key') \<and>
     length key' = len \<and>
     take (Suc (length (joined_key arg1 vals))) key' = joined_key arg1 vals @ [0]"
proof -
  let ?k = "joined_key arg1 vals"
  have la: "length arg1 < len" using assms(3) by (simp add: joined_key_def)
  define key1 where "key1 = put_at key 0 (arg1 @ [0])"
  have first: "c_snprintf key 0 len arg1 = Ok (length arg1, key1)"
    using la assms(1) by (simp add: c_snprintf_def key1_def)
  have "take (Suc (length arg1)) key1 = arg1 @ [0]" and k1: "length key1 = len"
    using la assms(1) by (simp_all add: key1_def put_at_def)
  from key_make_loop_fits [OF k1 assms(2) this(1), of vals] assms(3) obtain key2 where
    key2: "key_make_loop key1 len (length arg1) vals = Ok (length ?k, key2)"
      "length key2 = len" "take (length ?k) key2 = ?k"
    unfolding joined_key_def by metis
  with assms(3) take_put_at [of "length ?k" "[0]" key2] have
    "take (Suc (length ?k)) (put_at key2 (length ?k) [0]) = ?k @ [0]" by simp
  with first key2 assms(3) show ?thesis by (simp add: array_key_make_def)
qed

lemma array_key_make_OkD:
  assumes "array_key_make key len arg1 vals = Ok (n, key')"
  shows "n = length (joined_key arg1 vals) \<and> n < length key"
proof -
  from assms obtain n1 key1 n2 key2 where
    "c_snprintf key 0 len arg1 = Ok (n1, key1)"
    "key_make_loop key1 len n1 vals = Ok (n2, key2)" "blk_write key2 n2 [0] = Ok key'" "n = n2"
    by (auto simp: array_key_make_def res_simps)
  with c_snprintf_len key_make_loop_length show ?thesis
    by (fastforce simp: joined_key_def blk_write_def split: if_splits)
qed

section \<open>Properties\<close>

text \<open>
  C31. \<open>array_key_make\<close> with a buffer of \<open>len\<close> bytes builds the subscripts joined by \<open>SUBSEP\<close> and
  a NUL exactly when they fit; otherwise it stores outside the buffer, because \<open>keylen\<close>
  counts what \<open>snprintf\<close> would have written.
\<close>

theorem array_key_make_exact:
  assumes "length key = len" and "len < 2 ^ 64"
  shows "if length (joined_key arg1 vals) < len
     then \<exists>key'. array_key_make key len arg1 vals = Ok (length (joined_key arg1 vals), key') \<and>
        take (Suc (length (joined_key arg1 vals))) key' = joined_key arg1 vals @ [0]
     else \<not> is_ok (array_key_make key len arg1 vals)"
  using array_key_make_fits [OF assms] array_key_make_OkD assms
  by (fastforce simp: is_ok_iff)

theorem array_key_make_exact_witness:
  "if length (joined_key (bytes_of ''list'') [bytes_of ''0'']) < 8
     then \<exists>key'. array_key_make (replicate 8 0) 8 (bytes_of ''list'') [bytes_of ''0''] =
          Ok (length (joined_key (bytes_of ''list'') [bytes_of ''0'']), key') \<and>
        take (Suc (length (joined_key (bytes_of ''list'') [bytes_of ''0'']))) key' =
          joined_key (bytes_of ''list'') [bytes_of ''0''] @ [0]
     else \<not> is_ok (array_key_make (replicate 8 0) 8 (bytes_of ''list'') [bytes_of ''0''])"
  by (rule array_key_make_exact) simp_all

text \<open>
  \<open>array_dup\<close> gives an equal array whatever order the iterator visits the entries in.
\<close>

theorem array_dup_is_copy:
  assumes "distinct (map fst es)" and "map_of es = fmlookup a"
  shows "array_dup es = a"
  using assms by (rule array_dup_same)

theorem array_dup_is_copy_witness:
  "array_dup [(cstr ''b'', 2), (cstr ''a'', 1)] = fmap_of_list [(cstr ''a'', 1), (cstr ''b'', 2)]"
  by (rule array_dup_is_copy) (auto simp: fmap_of_list_simps fun_eq_iff)

end
