(* ===== verification/Utils.thy ===== *)
theory Utils
  imports Prelude
begin

text \<open>
  The string classifiers of \<open>src/utils.c\<close> and the character macros of \<open>src/defines.h\<close>. A \<open>char *\<close>
  is \<open>None\<close> for NULL and otherwise the bytes from the pointer on, up to the terminating NUL.
\<close>

definition isdigit :: "byte \<Rightarrow> bool" where
  "isdigit c \<longleftrightarrow> 0x30 \<le> c \<and> c \<le> 0x39"

definition isxdigit :: "byte \<Rightarrow> bool" where
  "isxdigit c \<longleftrightarrow> isdigit c \<or> (0x41 \<le> c \<and> c \<le> 0x46) \<or> (0x61 \<le> c \<and> c \<le> 0x66)"

text \<open>\<open>while (str && *str && P(*str)) str++; return (str && *str == 0) ? 1 : 0;\<close>\<close>

fun skip_chars :: "(byte \<Rightarrow> bool) \<Rightarrow> byte list \<Rightarrow> byte list" where
  "skip_chars P [] = []"
| "skip_chars P (c # cs) = (if c \<noteq> 0 \<and> P c then skip_chars P cs else c # cs)"

definition at_end :: "byte list \<Rightarrow> bool" where
  "at_end str = (case str of [] \<Rightarrow> True | c # _ \<Rightarrow> c = 0)"

definition ctype_digit :: "byte list option \<Rightarrow> int" where
  "ctype_digit str = (case str of None \<Rightarrow> 0
     | Some s \<Rightarrow> if at_end (skip_chars isdigit s) then 1 else 0)"

definition seems_ip4 :: "byte list option \<Rightarrow> int" where
  "seems_ip4 str = (case str of None \<Rightarrow> 0
     | Some s \<Rightarrow> if at_end (skip_chars (\<lambda>c. isdigit c \<or> c = 0x2e) s) then 1 else 0)"

definition seems_ip6 :: "byte list option \<Rightarrow> int" where
  "seems_ip6 str = (case str of None \<Rightarrow> 0
     | Some s \<Rightarrow> if at_end (skip_chars (\<lambda>c. isxdigit c \<or> c = 0x3a) s) then 1 else 0)"

text \<open>\<open>inet_pton\<close> belongs to the C library and is a parameter.\<close>

definition is_valid_ip4 :: "(int \<Rightarrow> byte list option \<Rightarrow> int) \<Rightarrow> int \<Rightarrow> byte list option \<Rightarrow> int" where
  "is_valid_ip4 inet_pton family str = (if inet_pton family str = 1 then 1 else 0)"

section \<open>Character macros of defines.h\<close>

definition K_OK :: int where "K_OK = 0"
definition ERROR :: int where "ERROR = 1"

definition CHECKDIGIT :: "byte \<Rightarrow> int" where
  "CHECKDIGIT x = (if x \<ge> 0x30 \<and> x \<le> 0x39 then K_OK else ERROR)"

definition CHECKXCHAR :: "byte \<Rightarrow> int" where
  "CHECKXCHAR x = (if (x \<ge> 0x41 \<and> x \<le> 0x46) \<or> (x \<ge> 0x61 \<and> x \<le> 0x66) then K_OK else ERROR)"

definition HEXCHARVAL :: "byte \<Rightarrow> byte" where
  "HEXCHARVAL x =
     (if x \<ge> 0x30 \<and> x \<le> 0x39 then x - 0x30
      else if x \<ge> 0x41 \<and> x \<le> 0x46 then x - 0x41 + 10
      else if x \<ge> 0x61 \<and> x \<le> 0x66 then x - 0x61 + 10 else x)"

definition TOUPPER :: "byte \<Rightarrow> byte" where
  "TOUPPER c = (if c \<ge> 0x61 \<and> c \<le> 0x7a then c - 0x20 else c)"

definition TOLOWER :: "byte \<Rightarrow> byte" where
  "TOLOWER c = (if c \<ge> 0x41 \<and> c \<le> 0x5a then c + 0x20 else c)"

text \<open>The string macros, on a buffer of at least \<open>len\<close> bytes.\<close>

fun STRTOUPPER :: "byte list \<Rightarrow> nat \<Rightarrow> byte list" where
  "STRTOUPPER str 0 = str"
| "STRTOUPPER [] (Suc len) = []"
| "STRTOUPPER (c # str) (Suc len) = TOUPPER c # STRTOUPPER str len"

fun STRTOLOWER :: "byte list \<Rightarrow> nat \<Rightarrow> byte list" where
  "STRTOLOWER str 0 = str"
| "STRTOLOWER [] (Suc len) = []"
| "STRTOLOWER (c # str) (Suc len) = TOLOWER c # STRTOLOWER str len"

lemma at_end_skip_chars: "0 \<notin> set s \<Longrightarrow> at_end (skip_chars P s) \<longleftrightarrow> (\<forall>c\<in>set s. P c)"
  by (induction P s rule: skip_chars.induct) (auto simp: at_end_def)

section \<open>Properties\<close>

text \<open>
  The three classifiers accept exactly the NUL-free strings all of whose characters belong
  to their class (so the empty string is accepted), and reject NULL.
\<close>

theorem classifiers_exact:
  assumes "0 \<notin> set s"
  shows "(ctype_digit (Some s) = 1 \<longleftrightarrow> (\<forall>c\<in>set s. isdigit c)) \<and>
    (seems_ip4 (Some s) = 1 \<longleftrightarrow> (\<forall>c\<in>set s. isdigit c \<or> c = 0x2e)) \<and>
    (seems_ip6 (Some s) = 1 \<longleftrightarrow> (\<forall>c\<in>set s. isxdigit c \<or> c = 0x3a)) \<and>
    ctype_digit None = 0 \<and> seems_ip4 None = 0 \<and> seems_ip6 None = 0"
  using assms by (simp add: ctype_digit_def seems_ip4_def seems_ip6_def at_end_skip_chars)

theorem classifiers_exact_witness:
  "(ctype_digit (Some [0x39, 0x39]) = 1 \<longleftrightarrow> (\<forall>c\<in>set [0x39, 0x39]. isdigit c)) \<and>
    (seems_ip4 (Some [0x39, 0x39]) = 1 \<longleftrightarrow> (\<forall>c\<in>set [0x39, 0x39]. isdigit c \<or> c = 0x2e)) \<and>
    (seems_ip6 (Some [0x39, 0x39]) = 1 \<longleftrightarrow> (\<forall>c\<in>set [0x39, 0x39]. isxdigit c \<or> c = 0x3a)) \<and>
    ctype_digit None = 0 \<and> seems_ip4 None = 0 \<and> seems_ip6 None = 0"
  by (rule classifiers_exact) simp

text \<open>
  The case macros are inverse on letters and change nothing else, and \<open>STRTOUPPER\<close>,
  \<open>STRTOLOWER\<close> keep the length and touch only the first \<open>len\<close> bytes.
\<close>

theorem case_macros:
  "length (STRTOUPPER str len) = length str \<and> drop len (STRTOUPPER str len) = drop len str \<and>
   take len (STRTOUPPER str len) = map TOUPPER (take len str) \<and>
   take len (STRTOLOWER (STRTOUPPER str len) len) = map TOLOWER (take len str)"
proof -
  have idem: "TOLOWER (TOUPPER c) = TOLOWER c" for c
    unfolding TOLOWER_def TOUPPER_def by (auto simp: word_le_nat_alt unat_sub_if' unat_plus_if')
  have "length (STRTOUPPER str len) = length str \<and> drop len (STRTOUPPER str len) = drop len str \<and>
     take len (STRTOUPPER str len) = map TOUPPER (take len str)"
    by (induction str len rule: STRTOUPPER.induct) auto
  moreover have "take len (STRTOLOWER s len) = map TOLOWER (take len s)" for s
    by (induction s len rule: STRTOLOWER.induct) auto
  ultimately show ?thesis by (simp add: idem)
qed

end
