(* ===== verification/Hooks.thy ===== *)
theory Hooks
  imports Stacks Arrays
begin

text \<open>
  Hooks, the objects the server attaches to descriptors (\<open>hook_t\<close> and the \<open>hook_*\<close> macros of
  \<open>src/main.h\<close>), on an explicit store: the hooks, the blocks their memory pools own, their data
  arrays, the open descriptors and what is registered with epoll. A hook's memory pool is the
  linked list of theory Stacks. Reference counts decide when all of this is freed.
\<close>

section \<open>The store\<close>

record iovec =
  iov_base :: ptr
  iov_len :: nat

record msghdr =
  msg_name :: ptr
  msg_namelen :: nat
  msg_iov :: ptr
  msg_iovlen :: nat

text \<open>
  The blocks of memory pools by what they hold: bytes, I/O vectors, a message header, an array of
  \<open>value_t\<close>, or a structure of a library the code does not look into.
\<close>

datatype mblock = Bytes block | Iovs "iovec list" | Msg msghdr | Vals "nat list" | Opaque

text \<open>The values the function pointers \<open>ready\<close> and \<open>process\<close> of a hook take in the program.\<close>

datatype ready_fn = Ioqueue_socket_on_connect | Ioqueue_socket_on_data
datatype process_fn = Ioqueue_socket_process_data

record hook =
  mp :: "addr slist"
  fd :: int
  ready :: "ready_fn option"
  process :: "process_fn option"
  data :: ptr
  ev_events :: u32
  refcnt :: int
  udata :: "nat list"

record world =
  hooks :: "hook heap"
  mem :: "mblock heap"
  arrays :: "array_t heap"
  fds :: "int fset"
  epoll :: "(int, addr) fmap"

definition UD_CORE_SYSPTR :: nat where "UD_CORE_SYSPTR = 1"
definition UD_CORE_NUM :: nat where "UD_CORE_NUM = 3"
definition UD_CORE_MSGHDR :: nat where "UD_CORE_MSGHDR = 4"
definition UD_MOD_HTTP_ROUTE :: nat where "UD_MOD_HTTP_ROUTE = 5"
definition UDATASZ :: nat where "UDATASZ = 16"
definition IOV_CHUNK :: nat where "IOV_CHUNK = 4096"

section \<open>The hook macros\<close>

definition hook_write :: "addr \<Rightarrow> (hook \<Rightarrow> hook) \<Rightarrow> world \<Rightarrow> world res" where
  "hook_write p f w = res_bind (heap_write (hooks w) (Some p) f) (\<lambda>h. Ok (w\<lparr>hooks := h\<rparr>))"

text \<open>\<open>calloc\<close> of a hook may fail; the macro then leaves the hook NULL.\<close>

definition hook_new :: "bool \<Rightarrow> world \<Rightarrow> ptr \<times> world" where
  "hook_new got w =
     (if got
      then (let a = fresh_addr (hooks w) in
            (Some a, w\<lparr>hooks := fmupd a \<lparr>mp = slist_new, fd = 0, ready = None, process = None,
               data = NULL, ev_events = 0, refcnt = 1, udata = replicate UDATASZ 0\<rparr> (hooks w)\<rparr>))
      else (NULL, w))"

definition hook_add :: "addr \<Rightarrow> ptr \<Rightarrow> world \<Rightarrow> world res" where
  "hook_add p v w =
     res_bind (deref (hooks w) (Some p)) (\<lambda>h.
     res_bind (slist_in (Some (fresh_addr (slnodes (mp h)))) v (mp h)) (\<lambda>l.
       hook_write p (\<lambda>h. h\<lparr>mp := l\<rparr>) w))"

text \<open>\<open>hook_zalloc(h, p, sz)\<close>: the new block, zeroed, is \<open>blk\<close>.\<close>

definition hook_zalloc :: "addr \<Rightarrow> mblock \<Rightarrow> world \<Rightarrow> (addr \<times> world) res" where
  "hook_zalloc p blk w =
     (let b = fresh_addr (mem w) in
      res_bind (hook_add p (Some b) (w\<lparr>mem := fmupd b blk (mem w)\<rparr>)) (\<lambda>w1. Ok (b, w1)))"

definition hook_zalloc_iov :: "addr \<Rightarrow> world \<Rightarrow> (iovec \<times> world) res" where
  "hook_zalloc_iov p w =
     res_bind (hook_zalloc p (Bytes (replicate IOV_CHUNK 0)) w) (\<lambda>(b, w1).
       Ok (\<lparr>iov_base = Some b, iov_len = IOV_CHUNK\<rparr>, w1))"

definition hook_free_real :: "addr \<Rightarrow> world \<Rightarrow> world res" where
  "hook_free_real p w =
     res_bind (deref (hooks w) (Some p)) (\<lambda>h.
     res_bind (slist_free True (mp h)) (\<lambda>(vs, _).
     res_bind (free_all (mem w) vs) (\<lambda>m.
     res_bind (heap_free (arrays w) (data h)) (\<lambda>as.
     res_bind (heap_free (hooks w) (Some p)) (\<lambda>hs.
       Ok (w\<lparr>hooks := hs, mem := m, arrays := as\<rparr>))))))"

definition hook_ref :: "addr \<Rightarrow> world \<Rightarrow> world res" where
  "hook_ref p w = hook_write p (\<lambda>h. h\<lparr>refcnt := refcnt h + 1\<rparr>) w"

definition hook_free :: "addr \<Rightarrow> world \<Rightarrow> world res" where
  "hook_free p w =
     res_bind (hook_write p (\<lambda>h. h\<lparr>refcnt := refcnt h - 1\<rparr>) w) (\<lambda>w1.
     res_bind (deref (hooks w1) (Some p)) (\<lambda>h.
       if refcnt h = 0 then hook_free_real p w1 else Ok w1))"

definition hook_unref :: "addr \<Rightarrow> world \<Rightarrow> world res" where
  "hook_unref p w = hook_free p w"

text \<open>\<open>close(fd)\<close> also removes the descriptor from the epoll set; \<open>EVQ_ADD\<close> registers an
  open descriptor that is not registered yet; the code does not look at its result.\<close>

definition do_close :: "int \<Rightarrow> world \<Rightarrow> world" where
  "do_close f w = w\<lparr>fds := fds w |-| {|f|}, epoll := fmdrop f (epoll w)\<rparr>"

definition EVQ_ADD :: "int \<Rightarrow> addr \<Rightarrow> world \<Rightarrow> world" where
  "EVQ_ADD f p w = (if f |\<in>| fds w \<and> f |\<notin>| fmdom (epoll w) then w\<lparr>epoll := fmupd f p (epoll w)\<rparr> else w)"

definition hook_close :: "addr \<Rightarrow> world \<Rightarrow> world res" where
  "hook_close p w =
     res_bind (deref (hooks w) (Some p)) (\<lambda>h. hook_free p (do_close (fd h) w))"

section \<open>The store invariant\<close>

text \<open>
  \<open>world_ok w pool\<close>: the memory pool of every hook \<open>p\<close> is a well-formed list holding the blocks
  \<open>pool p\<close>, all of them allocated, no block is in two pools, data arrays are allocated, and the
  array of a hook that can be freed is its own (listening sockets share theirs).
\<close>

definition own_ok :: "(addr \<Rightarrow> addr list) \<Rightarrow> world \<Rightarrow> addr \<Rightarrow> hook \<Rightarrow> bool" where
  "own_ok pool w p h \<longleftrightarrow>
     slist_rep (mp h) (pool p) \<and> distinct (pool p) \<and> set (pool p) \<subseteq> fset (fmdom (mem w)) \<and>
     (\<forall>a. data h = Some a \<longrightarrow> a |\<in>| fmdom (arrays w))"

definition apart :: "(addr \<Rightarrow> addr list) \<Rightarrow> addr \<Rightarrow> hook \<Rightarrow> addr \<Rightarrow> hook \<Rightarrow> bool" where
  "apart pool p h q k \<longleftrightarrow>
     set (pool p) \<inter> set (pool q) = {} \<and>
     (ready h \<noteq> Some Ioqueue_socket_on_connect \<longrightarrow> data h \<noteq> NULL \<longrightarrow> data h \<noteq> data k)"

definition world_ok :: "world \<Rightarrow> (addr \<Rightarrow> addr list) \<Rightarrow> bool" where
  "world_ok w pool \<longleftrightarrow>
     (\<forall>p h. fmlookup (hooks w) p = Some h \<longrightarrow> own_ok pool w p h) \<and>
     (\<forall>p h q k. fmlookup (hooks w) p = Some h \<longrightarrow> fmlookup (hooks w) q = Some k \<longrightarrow> p \<noteq> q \<longrightarrow>
        apart pool p h q k)"

lemma world_ok_own: "world_ok w pool \<Longrightarrow> fmlookup (hooks w) p = Some h \<Longrightarrow> own_ok pool w p h"
  unfolding world_ok_def by blast

lemma world_ok_apart:
  "world_ok w pool \<Longrightarrow> fmlookup (hooks w) p = Some h \<Longrightarrow> fmlookup (hooks w) q = Some k \<Longrightarrow> p \<noteq> q \<Longrightarrow>
     apart pool p h q k"
  unfolding world_ok_def by blast

text \<open>Descriptors and epoll play no part in it.\<close>

lemma own_ok_fds [simp]:
  "own_ok pool (w\<lparr>fds := F\<rparr>) = own_ok pool w"
  "own_ok pool (w\<lparr>epoll := E\<rparr>) = own_ok pool w"
  "own_ok pool (w\<lparr>hooks := H\<rparr>) = own_ok pool w"
  by (simp_all add: own_ok_def fun_eq_iff)

lemma world_ok_fds [simp]:
  "world_ok (w\<lparr>fds := F\<rparr>) pool = world_ok w pool"
  "world_ok (w\<lparr>epoll := E\<rparr>) pool = world_ok w pool"
  by (simp_all add: world_ok_def)

text \<open>Writing one hook: what has to be shown about it and about the others.\<close>

lemma world_ok_fmupd:
  assumes ok: "world_ok w pool" and hs: "hooks w' = fmupd p h' (hooks w)"
    and own: "own_ok pool' w' p h'"
    and others: "\<And>q k. q \<noteq> p \<Longrightarrow> fmlookup (hooks w) q = Some k \<Longrightarrow>
      pool' q = pool q \<and> own_ok pool' w' q k \<and> apart pool' q k p h' \<and> apart pool' p h' q k"
  shows "world_ok w' pool'"
proof -
  have "own_ok pool' w' q k" if "fmlookup (hooks w') q = Some k" for q k
    using that own others hs by (cases "q = p") auto
  moreover have "apart pool' q k r l"
    if "fmlookup (hooks w') q = Some k" "fmlookup (hooks w') r = Some l" "q \<noteq> r" for q k r l
  proof (cases "q = p \<or> r = p")
    case True
    with that others hs show ?thesis by auto
  next
    case False
    with that hs have "fmlookup (hooks w) q = Some k" "fmlookup (hooks w) r = Some l" by auto
    with world_ok_apart [OF ok this that(3)] others False show ?thesis by (simp add: apart_def)
  qed
  ultimately show ?thesis unfolding world_ok_def by blast
qed

lemma world_ok_upd:
  assumes ok: "world_ok w pool" and h: "fmlookup (hooks w) p = Some h"
    and "mp h' = mp h" and "ready h' = ready h" and "data h' = data h"
  shows "world_ok (w\<lparr>hooks := fmupd p h' (hooks w)\<rparr>) pool"
proof (rule world_ok_fmupd [OF ok])
  show "own_ok pool (w\<lparr>hooks := fmupd p h' (hooks w)\<rparr>) p h'"
    using world_ok_own [OF ok h] assms(3-5) by (simp add: own_ok_def)
next
  fix q k
  assume q: "q \<noteq> p" "fmlookup (hooks w) q = Some k"
  have "apart pool q k p h'" "apart pool p h' q k"
    using world_ok_apart [OF ok q(2) h q(1)] world_ok_apart [OF ok h q(2)] q(1) assms(3-5)
    by (simp_all add: apart_def)
  with world_ok_own [OF ok q(2)]
  show "pool q = pool q \<and> own_ok pool (w\<lparr>hooks := fmupd p h' (hooks w)\<rparr>) q k \<and>
      apart pool q k p h' \<and> apart pool p h' q k" by simp
qed simp

lemma world_ok_upd_no_data:
  assumes ok: "world_ok w pool" and h: "fmlookup (hooks w) p = Some h"
    and "mp h' = mp h" and "data h' = NULL"
  shows "world_ok (w\<lparr>hooks := fmupd p h' (hooks w)\<rparr>) pool"
proof (rule world_ok_fmupd [OF ok])
  show "own_ok pool (w\<lparr>hooks := fmupd p h' (hooks w)\<rparr>) p h'"
    using world_ok_own [OF ok h] assms(3,4) by (simp add: own_ok_def)
next
  fix q k
  assume q: "q \<noteq> p" "fmlookup (hooks w) q = Some k"
  have "apart pool q k p h'" "apart pool p h' q k"
    using world_ok_apart [OF ok q(2) h q(1)] assms(3,4) by (auto simp: apart_def)
  with world_ok_own [OF ok q(2)]
  show "pool q = pool q \<and> own_ok pool (w\<lparr>hooks := fmupd p h' (hooks w)\<rparr>) q k \<and>
      apart pool q k p h' \<and> apart pool p h' q k" by simp
qed simp

text \<open>A hook that gets an array of its own.\<close>

lemma world_ok_new_array:
  assumes ok: "world_ok w pool" and h: "fmlookup (hooks w) p = Some h"
    and "mp h' = mp h" and d: "data h' = Some d" "d = fresh_addr (arrays w)"
  shows "world_ok (w\<lparr>arrays := fmupd d ar (arrays w), hooks := fmupd p h' (hooks w)\<rparr>) pool"
    (is "world_ok ?w pool")
proof (rule world_ok_fmupd [OF ok])
  show "own_ok pool ?w p h'"
    using world_ok_own [OF ok h] assms(3) d by (auto simp: own_ok_def)
next
  fix q k
  assume q: "q \<noteq> p" "fmlookup (hooks w) q = Some k"
  have "data k \<noteq> Some d" using world_ok_own [OF ok q(2)] d(2) by (auto simp: own_ok_def)
  then have "apart pool q k p h'" "apart pool p h' q k"
    using world_ok_apart [OF ok q(2) h q(1)] assms(3) d by (auto simp: apart_def)
  moreover have "own_ok pool ?w q k" using world_ok_own [OF ok q(2)] by (auto simp: own_ok_def)
  ultimately show "pool q = pool q \<and> own_ok pool ?w q k \<and> apart pool q k p h' \<and> apart pool p h' q k"
    by simp
qed simp

text \<open>A listener's hook: it shares an array that no hook which can be freed owns.\<close>

lemma world_ok_shared_array:
  assumes ok: "world_ok w pool" and h: "fmlookup (hooks w) p = Some h"
    and "mp h' = mp h" and d: "data h' = Some d" "d |\<in>| fmdom (arrays w)"
    and r: "ready h' = Some Ioqueue_socket_on_connect"
    and free: "\<And>q k. fmlookup (hooks w) q = Some k \<Longrightarrow> q \<noteq> p \<Longrightarrow> data k = Some d \<Longrightarrow>
      ready k = Some Ioqueue_socket_on_connect"
  shows "world_ok (w\<lparr>hooks := fmupd p h' (hooks w)\<rparr>) pool" (is "world_ok ?w pool")
proof (rule world_ok_fmupd [OF ok])
  show "own_ok pool ?w p h'"
    using world_ok_own [OF ok h] assms(3) d by (auto simp: own_ok_def)
next
  fix q k
  assume q: "q \<noteq> p" "fmlookup (hooks w) q = Some k"
  have "apart pool q k p h'" "apart pool p h' q k"
    using world_ok_apart [OF ok q(2) h q(1)] free [OF q(2,1)] assms(3) d r by (auto simp: apart_def)
  with world_ok_own [OF ok q(2)]
  show "pool q = pool q \<and> own_ok pool ?w q k \<and> apart pool q k p h' \<and> apart pool p h' q k" by simp
qed simp

lemma do_close_simps [simp]:
  "hooks (do_close f w) = hooks w"
  "mem (do_close f w) = mem w"
  "arrays (do_close f w) = arrays w"
  "fds (do_close f w) = fds w |-| {|f|}"
  "epoll (do_close f w) = fmdrop f (epoll w)"
  "world_ok (do_close f w) pool = world_ok w pool"
  by (simp_all add: do_close_def)

lemma hook_write_Ok [simp]:
  "fmlookup (hooks w) p = Some h \<Longrightarrow> hook_write p f w = Ok (w\<lparr>hooks := fmupd p (f h) (hooks w)\<rparr>)"
  by (simp add: hook_write_def)

lemma slist_new_rep: "slist_rep slist_new []"
  by (auto simp: slist_rep_def slist_chain_def slist_new_def intro!: exI [of _ "[]"])

lemma hook_new_ok:
  assumes ok: "world_ok w pool" and a: "a = fresh_addr (hooks w)"
  shows "\<exists>h. hook_new True w = (Some a, w\<lparr>hooks := fmupd a h (hooks w)\<rparr>) \<and> mp h = slist_new \<and>
     data h = NULL \<and> refcnt h = 1 \<and> ready h = None \<and> process h = None \<and> length (udata h) = UDATASZ \<and>
     world_ok (w\<lparr>hooks := fmupd a h (hooks w)\<rparr>) (pool(a := []))"
proof -
  define h where "h = \<lparr>mp = slist_new :: addr slist, fd = 0, ready = None, process = None,
    data = NULL, ev_events = 0, refcnt = 1, udata = replicate UDATASZ 0\<rparr>"
  have "world_ok (w\<lparr>hooks := fmupd a h (hooks w)\<rparr>) (pool(a := []))"
  proof (rule world_ok_fmupd [OF ok])
    show "own_ok (pool(a := [])) (w\<lparr>hooks := fmupd a h (hooks w)\<rparr>) a h"
      using slist_new_rep by (simp add: own_ok_def h_def)
  next
    fix q k
    assume "q \<noteq> a" "fmlookup (hooks w) q = Some k"
    with world_ok_own [OF ok this(2)]
    show "(pool(a := [])) q = pool q \<and>
        own_ok (pool(a := [])) (w\<lparr>hooks := fmupd a h (hooks w)\<rparr>) q k \<and>
        apart (pool(a := [])) q k a h \<and> apart (pool(a := [])) a h q k"
      by (simp add: apart_def own_ok_def h_def)
  qed simp
  with a show ?thesis by (auto simp: hook_new_def Let_def h_def intro!: exI [of _ h])
qed

lemma hook_zalloc_ok:
  assumes ok: "world_ok w pool" and h: "fmlookup (hooks w) p = Some h" and b: "b = fresh_addr (mem w)"
  shows "\<exists>l w'. hook_zalloc p blk w = Ok (b, w') \<and>
     w' = w\<lparr>mem := fmupd b blk (mem w), hooks := fmupd p (h\<lparr>mp := l\<rparr>) (hooks w)\<rparr> \<and>
     world_ok w' (pool(p := b # pool p))"
proof -
  have own: "slist_rep (mp h) (pool p)" "distinct (pool p)" "set (pool p) \<subseteq> fset (fmdom (mem w))"
    "\<And>a. data h = Some a \<Longrightarrow> a |\<in>| fmdom (arrays w)"
    using world_ok_own [OF ok h] by (auto simp: own_ok_def)
  have bnew: "b |\<notin>| fmdom (mem w)" using b by simp
  from sl.push_rep [OF own(1), of "Some (fresh_addr (slnodes (mp h)))" b] obtain l where
    l: "slist_in (Some (fresh_addr (slnodes (mp h)))) (Some b) (mp h) = Ok l" "slist_rep l (b # pool p)"
    by (auto simp: slist_push_def slist_fresh_def)
  let ?w = "w\<lparr>mem := fmupd b blk (mem w), hooks := fmupd p (h\<lparr>mp := l\<rparr>) (hooks w)\<rparr>"
  have "hook_zalloc p blk w = Ok (b, ?w)"
    using h l(1) b by (simp add: hook_zalloc_def hook_add_def Let_def)
  moreover have "world_ok ?w (pool(p := b # pool p))"
  proof (rule world_ok_fmupd [OF ok])
    show "own_ok (pool(p := b # pool p)) ?w p (h\<lparr>mp := l\<rparr>)"
      using own l(2) bnew by (auto simp: own_ok_def)
  next
    fix q k
    assume q: "q \<noteq> p" "fmlookup (hooks w) q = Some k"
    have "apart pool q k p h" "apart pool p h q k" "own_ok pool w q k"
      using world_ok_apart [OF ok q(2) h q(1)] world_ok_apart [OF ok h q(2)] q world_ok_own [OF ok]
      by simp_all
    with q(1) bnew show "(pool(p := b # pool p)) q = pool q \<and> own_ok (pool(p := b # pool p)) ?w q k \<and>
        apart (pool(p := b # pool p)) q k p (h\<lparr>mp := l\<rparr>) \<and> apart (pool(p := b # pool p)) p (h\<lparr>mp := l\<rparr>) q k"
      by (auto simp: apart_def own_ok_def)
  qed simp
  ultimately show ?thesis by blast
qed

lemma hook_free_real_ok:
  assumes ok: "world_ok w pool" and h: "fmlookup (hooks w) p = Some h"
    and r: "ready h \<noteq> Some Ioqueue_socket_on_connect"
  shows "\<exists>m as. hook_free_real p w = Ok (w\<lparr>hooks := fmdrop p (hooks w), mem := m, arrays := as\<rparr>) \<and>
     world_ok (w\<lparr>hooks := fmdrop p (hooks w), mem := m, arrays := as\<rparr>) pool \<and>
     m = fmdrop_set (set (pool p)) (mem w) \<and>
     (\<forall>q k a. q \<noteq> p \<longrightarrow> fmlookup (hooks w) q = Some k \<longrightarrow> data k = Some a \<longrightarrow> fmlookup as a = fmlookup (arrays w) a)"
proof -
  have own: "slist_rep (mp h) (pool p)" "distinct (pool p)" "set (pool p) \<subseteq> fset (fmdom (mem w))"
    "\<And>a. data h = Some a \<Longrightarrow> a |\<in>| fmdom (arrays w)"
    using world_ok_own [OF ok h] by (auto simp: own_ok_def)
  from slist_free_rep [OF own(1), of True] obtain l where
    l: "slist_free True (mp h) = Ok (pool p, l)" by auto
  let ?m = "fmdrop_set (set (pool p)) (mem w)"
  let ?as = "case data h of None \<Rightarrow> arrays w | Some a \<Rightarrow> fmdrop a (arrays w)"
  let ?w = "w\<lparr>hooks := fmdrop p (hooks w), mem := ?m, arrays := ?as\<rparr>"
  have "heap_free (arrays w) (data h) = Ok ?as"
    using own(4) by (cases "data h") (auto simp: heap_free_def)
  with h l own(2,3) have run: "hook_free_real p w = Ok ?w"
    by (simp add: hook_free_real_def free_all_Ok)
  have keep: "own_ok pool ?w q k \<and> (\<forall>a. data k = Some a \<longrightarrow> fmlookup ?as a = fmlookup (arrays w) a)"
    if "q \<noteq> p" "fmlookup (hooks w) q = Some k" for q k
    using world_ok_own [OF ok that(2)] world_ok_apart [OF ok h that(2)] that(1) r
    by (cases "data h") (auto simp: own_ok_def apart_def disjoint_iff)
  then have "world_ok ?w pool"
    using ok by (auto simp: world_ok_def split: if_splits)
  with run keep show ?thesis by blast
qed

section \<open>Code that works on one hook\<close>

text \<open>
  Code that a hook's handlers run threads the store through many calls: it is an action. The
  combinators are the sequencing of C statements, reading and assigning.
\<close>

type_synonym 'a act = "world \<Rightarrow> ('a \<times> world) res"

definition return :: "'a \<Rightarrow> 'a act" where
  "return x w = Ok (x, w)"

definition andthen :: "'a act \<Rightarrow> ('a \<Rightarrow> 'b act) \<Rightarrow> 'b act" where
  "andthen m k w = res_bind (m w) (\<lambda>(x, w1). k x w1)"

definition reading :: "(world \<Rightarrow> 'a res) \<Rightarrow> 'a act" where
  "reading f w = res_bind (f w) (\<lambda>x. Ok (x, w))"

definition assert_that :: "bool \<Rightarrow> unit act" where
  "assert_that b = reading (\<lambda>_. c_assert b)"

definition hook_get :: "addr \<Rightarrow> hook act" where
  "hook_get p = reading (\<lambda>w. deref (hooks w) (Some p))"

text \<open>\<open>hp->udata[i]\<close>, read and assigned.\<close>

definition ptr_of :: "nat \<Rightarrow> ptr" where
  "ptr_of n = (if n = 0 then NULL else Some n)"

definition udata_get :: "addr \<Rightarrow> nat \<Rightarrow> nat act" where
  "udata_get p i = andthen (hook_get p) (\<lambda>h. return (udata h ! i))"

definition udata_set :: "addr \<Rightarrow> nat \<Rightarrow> nat \<Rightarrow> unit act" where
  "udata_set p i v w = res_bind (hook_write p (\<lambda>h. h\<lparr>udata := (udata h)[i := v]\<rparr>) w) (\<lambda>w1. Ok ((), w1))"

definition mem_get :: "nat \<Rightarrow> mblock act" where
  "mem_get b = reading (\<lambda>w. deref (mem w) (ptr_of b))"

definition mem_set :: "nat \<Rightarrow> mblock \<Rightarrow> unit act" where
  "mem_set b blk w =
     res_bind (heap_write (mem w) (ptr_of b) (\<lambda>_. blk)) (\<lambda>m. Ok ((), w\<lparr>mem := m\<rparr>))"

text \<open>\<open>_aget(a, k)\<close> on the array at an address; it may add a blank entry.\<close>

definition array_aget :: "ptr \<Rightarrow> byte list \<Rightarrow> value_t act" where
  "array_aget a k w =
     res_bind (deref (arrays w) a) (\<lambda>ar.
       (let (v, ar') = array_get ar k in
        res_bind (heap_write (arrays w) a (\<lambda>_. ar')) (\<lambda>as. Ok (v, w\<lparr>arrays := as\<rparr>))))"

text \<open>
  \<open>keeps p w w'\<close>: between \<open>w\<close> and \<open>w'\<close> only the hook \<open>p\<close> was written, and of it only its memory
  pool, its event flags and its user data; the store invariant is kept.
\<close>

definition same_hook :: "hook \<Rightarrow> hook \<Rightarrow> bool" where
  "same_hook h h' \<longleftrightarrow> fd h' = fd h \<and> ready h' = ready h \<and> process h' = process h \<and> data h' = data h \<and>
     refcnt h' = refcnt h"

definition keeps :: "addr \<Rightarrow> world \<Rightarrow> world \<Rightarrow> bool" where
  "keeps p w w' \<longleftrightarrow>
     fds w' = fds w \<and> epoll w' = epoll w \<and> fmdom (arrays w') = fmdom (arrays w) \<and>
     (\<forall>q. q \<noteq> p \<longrightarrow> fmlookup (hooks w') q = fmlookup (hooks w) q) \<and>
     rel_option same_hook (fmlookup (hooks w) p) (fmlookup (hooks w') p) \<and>
     (Ex (world_ok w) \<longrightarrow> Ex (world_ok w'))"

definition frames :: "addr \<Rightarrow> 'a act \<Rightarrow> bool" where
  "frames p m \<longleftrightarrow> (\<forall>w x w'. m w = Ok (x, w') \<longrightarrow> p |\<in>| fmdom (hooks w) \<longrightarrow> keeps p w w')"

named_theorems frame_intros \<open>actions that touch one hook only\<close>

lemma same_hook_refl [simp]: "same_hook h h"
  by (simp add: same_hook_def)

lemma keeps_refl [simp]: "keeps p w w"
  by (simp add: keeps_def option.rel_refl)

lemma keeps_dom: "keeps p w w' \<Longrightarrow> p |\<in>| fmdom (hooks w) \<Longrightarrow> p |\<in>| fmdom (hooks w')"
  by (auto simp: keeps_def fmlookup_dom_iff option_rel_Some1)

lemma keeps_trans: "keeps p w w1 \<Longrightarrow> keeps p w1 w2 \<Longrightarrow> keeps p w w2"
  by (cases "fmlookup (hooks w) p"; cases "fmlookup (hooks w1) p"; cases "fmlookup (hooks w2) p")
    (simp_all add: keeps_def same_hook_def)

lemma frames_return [frame_intros]: "frames p (return x)"
  by (auto simp: frames_def return_def)

lemma frames_reading [frame_intros]: "frames p (reading f)"
  by (auto simp: frames_def reading_def res_simps)

lemma frames_assert [frame_intros]: "frames p (assert_that b)"
  unfolding assert_that_def by (rule frames_reading)

lemma frames_hook_get [frame_intros]: "frames p (hook_get q)"
  unfolding hook_get_def by (rule frames_reading)

lemma frames_mem_get [frame_intros]: "frames p (mem_get b)"
  unfolding mem_get_def by (rule frames_reading)

lemma frames_andthen [frame_intros]:
  assumes "frames p m" and "\<And>x. frames p (k x)"
  shows "frames p (andthen m k)"
  unfolding frames_def
proof (intro allI impI)
  fix w y w2
  assume r: "andthen m k w = Ok (y, w2)" and d: "p |\<in>| fmdom (hooks w)"
  then obtain x w1 where "m w = Ok (x, w1)" "k x w1 = Ok (y, w2)"
    by (auto simp: andthen_def res_simps)
  with assms d show "keeps p w w2"
    unfolding frames_def by (meson keeps_dom keeps_trans)
qed

lemma frames_if [frame_intros]: "frames p m \<Longrightarrow> frames p k \<Longrightarrow> frames p (if b then m else k)"
  by simp

lemma frames_udata_get [frame_intros]: "frames p (udata_get q i)"
  unfolding udata_get_def by (intro frame_intros)

lemma frames_udata_set [frame_intros]: "frames p (udata_set p i v)"
  unfolding frames_def
proof (intro allI impI)
  fix w x w'
  assume r: "udata_set p i v w = Ok (x, w')" and "p |\<in>| fmdom (hooks w)"
  then obtain h where h: "fmlookup (hooks w) p = Some h" by (auto simp: fmlookup_dom_iff)
  with r have "w' = w\<lparr>hooks := fmupd p (h\<lparr>udata := (udata h)[i := v]\<rparr>) (hooks w)\<rparr>"
    by (simp add: udata_set_def)
  with h show "keeps p w w'"
    using world_ok_upd [OF _ h, of _ "h\<lparr>udata := (udata h)[i := v]\<rparr>"]
    by (auto simp: keeps_def same_hook_def)
qed

lemma world_ok_mem_write:
  "world_ok w pool \<Longrightarrow> b |\<in>| fmdom (mem w) \<Longrightarrow> world_ok (w\<lparr>mem := fmupd b blk (mem w)\<rparr>) pool"
  by (auto simp: world_ok_def own_ok_def)

lemma frames_mem_set [frame_intros]: "frames p (mem_set b blk)"
  unfolding frames_def
proof (intro allI impI)
  fix w x w'
  assume r: "mem_set b blk w = Ok (x, w')"
  then have "b |\<in>| fmdom (mem w) \<and> w' = w\<lparr>mem := fmupd b blk (mem w)\<rparr>"
    by (auto simp: mem_set_def heap_write_def ptr_of_def split: if_splits option.splits intro: fmdomI)
  then show "keeps p w w'" by (auto simp: keeps_def option.rel_refl dest: world_ok_mem_write)
qed

lemma array_aget_Ok:
  assumes "a |\<in>| fmdom (arrays w)"
  shows "\<exists>v ar. array_aget (Some a) k w = Ok (v, w\<lparr>arrays := fmupd a ar (arrays w)\<rparr>)"
proof -
  from assms obtain ar where ar: "fmlookup (arrays w) a = Some ar" by (auto simp: fmlookup_dom_iff)
  then show ?thesis
    by (cases "array_get ar k") (auto simp: array_aget_def)
qed

lemma frames_array_aget [frame_intros]: "frames p (array_aget a k)"
  unfolding frames_def
proof (intro allI impI)
  fix w x w'
  assume r: "array_aget a k w = Ok (x, w')"
  then obtain b where b: "a = Some b" "b |\<in>| fmdom (arrays w)"
    by (auto simp: array_aget_def res_simps intro: fmdomI)
  with r array_aget_Ok [OF b(2), of k] obtain ar where ar: "w' = w\<lparr>arrays := fmupd b ar (arrays w)\<rparr>" by auto
  from b have "fmdom (fmupd b ar (arrays w)) = fmdom (arrays w)" by auto
  moreover from this have "world_ok w' pool" if "world_ok w pool" for pool
    using that ar by (simp add: world_ok_def own_ok_def del: fmdom_fmupd)
  ultimately show "keeps p w w'"
    using ar by (auto simp: keeps_def option.rel_refl)
qed

lemma frames_hook_zalloc [frame_intros]: "frames p (hook_zalloc p blk)"
  unfolding frames_def
proof (intro allI impI)
  fix w x w'
  assume r: "hook_zalloc p blk w = Ok (x, w')" and "p |\<in>| fmdom (hooks w)"
  then obtain h where h: "fmlookup (hooks w) p = Some h" by (auto simp: fmlookup_dom_iff)
  obtain l where w': "w' = w\<lparr>mem := fmupd x blk (mem w), hooks := fmupd p (h\<lparr>mp := l\<rparr>) (hooks w)\<rparr>"
    using r h by (auto simp: hook_zalloc_def hook_add_def Let_def res_simps)
  have "Ex (world_ok w')" if "world_ok w pool" for pool
    using hook_zalloc_ok [OF that h refl, of blk] r by auto
  with w' h show "keeps p w w'" by (auto simp: keeps_def same_hook_def)
qed

lemma frames_hook_zalloc_iov [frame_intros]: "frames p (hook_zalloc_iov p)"
proof -
  have "hook_zalloc_iov p = andthen (hook_zalloc p (Bytes (replicate IOV_CHUNK 0)))
      (\<lambda>b. return \<lparr>iov_base = Some b, iov_len = IOV_CHUNK\<rparr>)"
    by (simp add: fun_eq_iff hook_zalloc_iov_def andthen_def return_def)
  then show ?thesis by (simp only:) (intro frame_intros)
qed

end
