(* ===== verification/Sockets.thy ===== *)
theory Sockets
  imports Hooks Utils
begin

text \<open>
  The socket layer: \<open>src/ioqueue.c\<close> and \<open>src/ioqueue_socket.c\<close>. What the kernel and the resolver
  answer (results of \<open>accept\<close>, \<open>recvmsg\<close>, \<open>socket\<close>, \<open>bind\<close>, \<open>listen\<close>, \<open>getaddrinfo\<close>) is an argument of
  the operations.
\<close>

section \<open>Interrupted calls\<close>

text \<open>One answer of a system call: interrupted, failed with another error, or done.\<close>

datatype 'a io_ans = Ans_EINTR | Ans_Error | Ans_Done 'a

text \<open>
  \<open>DO_IOCALL\<close> repeats a call that was interrupted. The argument lists what the kernel answers to
  the successive calls; \<open>None\<close> is the result -1.
\<close>

fun DO_IOCALL :: "'a io_ans list \<Rightarrow> 'a option" where
  "DO_IOCALL [] = None"
| "DO_IOCALL (Ans_EINTR # as) = DO_IOCALL as"
| "DO_IOCALL (Ans_Error # as) = None"
| "DO_IOCALL (Ans_Done x # as) = Some x"

section \<open>ioqueue.c\<close>

text \<open>
  \<open>iq->fd\<close> is a block of \<open>fdroom\<close> usable bytes holding the 4-byte descriptors \<open>iqfd\<close>; their number
  is \<open>fdlen\<close>.
\<close>

record ioqueue =
  flags :: u32
  fdroom :: nat
  iqfd :: "int list"

definition ioqueue_new :: "u32 \<Rightarrow> ioqueue" where
  "ioqueue_new fl = \<lparr>flags = fl, fdroom = 0, iqfd = []\<rparr>"

definition ioqueue_set_flags :: "u32 \<Rightarrow> ioqueue \<Rightarrow> ioqueue" where
  "ioqueue_set_flags fl iq = iq\<lparr>flags := flags iq OR fl\<rparr>"

definition IOQUEUE_SOCKET_TCP :: u32 where "IOQUEUE_SOCKET_TCP = push_bit 0 1"
definition IOQUEUE_SOCKET_UDP :: u32 where "IOQUEUE_SOCKET_UDP = push_bit 1 1"
definition IOQUEUE_SOCKET_IP4 :: u32 where "IOQUEUE_SOCKET_IP4 = push_bit 2 1"
definition IOQUEUE_SOCKET_IP6 :: u32 where "IOQUEUE_SOCKET_IP6 = push_bit 3 1"
definition IOQUEUE_SOCKET_IP46 :: u32 where "IOQUEUE_SOCKET_IP46 = push_bit 4 1"
definition IOQUEUE_SOCKET_UNIX :: u32 where "IOQUEUE_SOCKET_UNIX = push_bit 5 1"
definition IOQUEUE_SOCKET_ACTIVE :: u32 where "IOQUEUE_SOCKET_ACTIVE = push_bit 6 1"
definition IOQUEUE_SOCKET_PASSIVE :: u32 where "IOQUEUE_SOCKET_PASSIVE = push_bit 7 1"

lemmas ioqueue_flags = IOQUEUE_SOCKET_TCP_def IOQUEUE_SOCKET_UDP_def IOQUEUE_SOCKET_IP4_def
  IOQUEUE_SOCKET_IP6_def IOQUEUE_SOCKET_IP46_def IOQUEUE_SOCKET_UNIX_def
  IOQUEUE_SOCKET_ACTIVE_def IOQUEUE_SOCKET_PASSIVE_def

definition CHECKFLAG :: "u32 \<Rightarrow> u32 \<Rightarrow> bool" where
  "CHECKFLAG x y \<longleftrightarrow> x AND y \<noteq> 0"

section \<open>Receiving and sending\<close>

definition SOCKADDR_STORAGE_SZ :: nat where "SOCKADDR_STORAGE_SZ = 128"

text \<open>Memory blocks by their type; the wrong type is a wild access.\<close>

definition msg_get :: "nat \<Rightarrow> msghdr act" where
  "msg_get m = andthen (mem_get m) (\<lambda>b. reading (\<lambda>_. case b of Msg x \<Rightarrow> Ok x | _ \<Rightarrow> Fault UseAfterFree))"

definition iovs_get :: "ptr \<Rightarrow> iovec list act" where
  "iovs_get v = andthen (mem_get (case v of None \<Rightarrow> 0 | Some a \<Rightarrow> a))
     (\<lambda>b. reading (\<lambda>_. case b of Iovs x \<Rightarrow> Ok x | _ \<Rightarrow> Fault UseAfterFree))"

definition bytes_get :: "ptr \<Rightarrow> block act" where
  "bytes_get v = andthen (mem_get (case v of None \<Rightarrow> 0 | Some a \<Rightarrow> a))
     (\<lambda>b. reading (\<lambda>_. case b of Bytes x \<Rightarrow> Ok x | _ \<Rightarrow> Fault UseAfterFree))"

text \<open>The loop that gives every element of \<open>msg_iov\<close> a zeroed buffer, from index \<open>i\<close> on.\<close>

primrec iov_alloc_loop :: "nat \<Rightarrow> addr \<Rightarrow> nat \<Rightarrow> nat \<Rightarrow> unit act" where
  "iov_alloc_loop 0 p v i = return ()"
| "iov_alloc_loop (Suc n) p v i =
     andthen (hook_zalloc_iov p) (\<lambda>io.
     andthen (iovs_get (Some v)) (\<lambda>iov.
     andthen (mem_set v (Iovs (iov[i := io]))) (\<lambda>_. iov_alloc_loop n p v (Suc i))))"

text \<open>What the kernel does with the received bytes: fill the buffers in turn.\<close>

primrec scatter :: "iovec list \<Rightarrow> byte list \<Rightarrow> unit act" where
  "scatter [] bs = return ()"
| "scatter (io # iov) bs =
     (if bs = [] then return ()
      else andthen (bytes_get (iov_base io)) (\<lambda>b.
           andthen (reading (\<lambda>_. blk_write b 0 (take (iov_len io) bs))) (\<lambda>b'.
           andthen (mem_set (case iov_base io of None \<Rightarrow> 0 | Some a \<Rightarrow> a) (Bytes b')) (\<lambda>_.
             scatter iov (drop (iov_len io) bs)))))"

definition ioqueue_socket_recvmsg :: "byte list io_ans list \<Rightarrow> addr \<Rightarrow> int act" where
  "ioqueue_socket_recvmsg ans p =
     andthen (hook_get p) (\<lambda>h.
     andthen (assert_that (data h \<noteq> NULL)) (\<lambda>_.
     andthen (udata_get p UD_CORE_MSGHDR) (\<lambda>m0.
     andthen (if m0 \<noteq> 0 then return m0
              else andthen (hook_zalloc p (Msg \<lparr>msg_name = NULL, msg_namelen = 0, msg_iov = NULL,
                              msg_iovlen = 0\<rparr>)) (\<lambda>m.
                   andthen (hook_zalloc p (Bytes (replicate SOCKADDR_STORAGE_SZ 0))) (\<lambda>nm.
                   andthen (mem_set m (Msg \<lparr>msg_name = Some nm, msg_namelen = SOCKADDR_STORAGE_SZ,
                              msg_iov = NULL, msg_iovlen = 0\<rparr>)) (\<lambda>_.
                   andthen (udata_set p UD_CORE_MSGHDR m) (\<lambda>_. return m))))) (\<lambda>m.
     andthen (msg_get m) (\<lambda>imsg.
     andthen (if msg_iov imsg = NULL \<or> msg_iovlen imsg = 0
              then andthen (hook_zalloc p (Iovs (replicate 2 \<lparr>iov_base = NULL, iov_len = 0\<rparr>))) (\<lambda>v.
                   andthen (mem_set m (Msg (imsg\<lparr>msg_iovlen := 2, msg_iov := Some v\<rparr>))) (\<lambda>_.
                     iov_alloc_loop 2 p v 0))
              else andthen (iovs_get (msg_iov imsg)) (\<lambda>iov.
                   mem_set (the (msg_iov imsg)) (Iovs (map (\<lambda>io. io\<lparr>iov_len := IOV_CHUNK\<rparr>) iov)))) (\<lambda>_.
     andthen (msg_get m) (\<lambda>imsg.
     andthen (iovs_get (msg_iov imsg)) (\<lambda>iov.
       case DO_IOCALL ans of
         None \<Rightarrow> return (-1)
       | Some bs \<Rightarrow>
           (let got = take (sum_list (map iov_len iov)) bs in
            andthen (scatter iov got) (\<lambda>_. return (int (length got))))))))))))"

text \<open>
  \<open>sendmsg\<close> hands the buffers to the kernel, which takes some of their bytes: the answer is their
  number. The bytes offered are part of the result.
\<close>

primrec gather :: "iovec list \<Rightarrow> byte list act" where
  "gather [] = return []"
| "gather (io # iov) =
     andthen (bytes_get (iov_base io)) (\<lambda>b.
     andthen (reading (\<lambda>_. blk_read b 0 (iov_len io))) (\<lambda>x.
     andthen (gather iov) (\<lambda>xs. return (x @ xs))))"

definition ioqueue_socket_sendmsg :: "nat io_ans list \<Rightarrow> addr \<Rightarrow> (int \<times> byte list) act" where
  "ioqueue_socket_sendmsg ans p =
     andthen (udata_get p UD_CORE_MSGHDR) (\<lambda>m.
     andthen (assert_that (m \<noteq> 0)) (\<lambda>_.
     andthen (msg_get m) (\<lambda>imsg.
     andthen (iovs_get (msg_iov imsg)) (\<lambda>iov.
     andthen (gather iov) (\<lambda>out.
       return (case DO_IOCALL ans of None \<Rightarrow> (-1, [])
               | Some n \<Rightarrow> (int (min n (length out)), take n out)))))))"

lemma frames_msg_get [frame_intros]: "frames p (msg_get m)"
  unfolding msg_get_def by (intro frame_intros)

lemma frames_iovs_get [frame_intros]: "frames p (iovs_get v)"
  unfolding iovs_get_def by (intro frame_intros)

lemma frames_bytes_get [frame_intros]: "frames p (bytes_get v)"
  unfolding bytes_get_def by (intro frame_intros)

lemma frames_iov_alloc_loop [frame_intros]: "frames p (iov_alloc_loop n p v i)"
  by (induction n arbitrary: i) (auto intro!: frame_intros)

lemma frames_scatter [frame_intros]: "frames p (scatter iov bs)"
  by (induction iov arbitrary: bs) (auto intro!: frame_intros)

lemma frames_recvmsg [frame_intros]: "frames p (ioqueue_socket_recvmsg ans p)"
  unfolding ioqueue_socket_recvmsg_def
  by (cases "DO_IOCALL ans") (auto intro!: frame_intros simp: Let_def)

lemma frames_gather [frame_intros]: "frames p (gather iov)"
  by (induction iov) (auto intro!: frame_intros)

lemma frames_sendmsg [frame_intros]: "frames p (ioqueue_socket_sendmsg ans p)"
  unfolding ioqueue_socket_sendmsg_def by (intro frame_intros)

section \<open>Events on connections and on listening sockets\<close>

definition EPOLLIN :: u32 where "EPOLLIN = 0x001"
definition EPOLLPRI :: u32 where "EPOLLPRI = 0x002"
definition EPOLLOUT :: u32 where "EPOLLOUT = 0x004"
definition EPOLLERR :: u32 where "EPOLLERR = 0x008"
definition EPOLLHUP :: u32 where "EPOLLHUP = 0x010"
definition EPOLLRDHUP :: u32 where "EPOLLRDHUP = 0x2000"
definition EPOLLET :: u32 where "EPOLLET = push_bit 31 1"

text \<open>
  The worker's side: the data handler the module stored under \<open>hoda\<close> is called through its
  function pointer, which \<open>code\<close> resolves.
\<close>

definition ioqueue_socket_process_data :: "(value_t \<Rightarrow> addr \<Rightarrow> int act) \<Rightarrow> addr \<Rightarrow> int act" where
  "ioqueue_socket_process_data code p =
     andthen (hook_get p) (\<lambda>h.
     andthen (assert_that (data h \<noteq> NULL)) (\<lambda>_.
     andthen (array_aget (data h) (cstr ''hoda'')) (\<lambda>hfunc.
       if hfunc \<noteq> 0 then code hfunc p else return 0)))"

definition ioqueue_socket_on_data :: "addr \<Rightarrow> world \<Rightarrow> (int \<times> world) res" where
  "ioqueue_socket_on_data p w =
     res_bind (deref (hooks w) (Some p)) (\<lambda>h.
     res_bind (c_assert (data h \<noteq> NULL)) (\<lambda>_.
     res_bind (deref (arrays w) (data h)) (\<lambda>args.
     res_bind (if CHECKFLAG (ev_events h) EPOLLRDHUP \<or> CHECKFLAG (ev_events h) EPOLLHUP \<or>
                  CHECKFLAG (ev_events h) EPOLLERR
               then Ok (0, w)
               else if process h = None
               then if ahaskey args ''hoda''
                    then res_bind (hook_write p (\<lambda>h. h\<lparr>process := Some Ioqueue_socket_process_data\<rparr>) w)
                           (\<lambda>w1. Ok (1, w1))
                    else Ok (0, w)
               else Ok (1, w)) (\<lambda>(ret, w1).
     res_bind (if ret = 0 then hook_close p w1 else Ok w1) (\<lambda>w2. Ok (ret, w2))))))"

text \<open>
  One answer of \<open>accept4\<close>: the descriptor or -1, whether \<open>errno\<close> is then \<open>EINTR\<close>, the peer's
  address; and whether the \<open>calloc\<close> of \<open>hook_new\<close> that follows succeeds.
\<close>

record accept_ans =
  a_fd :: int
  a_intr :: bool
  a_addr :: "byte list"
  a_mem :: bool

text \<open>
  The body of the accept loop for a connection \<open>hs\<close> accepted on the hook \<open>hp\<close>: a message header,
  a copy of the listener's data (\<open>array_dup\<close>, which gives an equal array) and of its user data,
  then the peer's address, then the registration.
\<close>

definition connection_create :: "addr \<Rightarrow> addr \<Rightarrow> int \<Rightarrow> addr act" where
  "connection_create hp hs connfd w =
     res_bind (hook_zalloc hs (Msg \<lparr>msg_name = NULL, msg_namelen = 0, msg_iov = NULL, msg_iovlen = 0\<rparr>) w)
       (\<lambda>(imsg, w1).
     res_bind (hook_write hs (\<lambda>h. h\<lparr>fd := connfd, ready := Some Ioqueue_socket_on_data\<rparr>) w1) (\<lambda>w2.
     res_bind (deref (hooks w2) (Some hp)) (\<lambda>lh.
     res_bind (deref (arrays w2) (data lh)) (\<lambda>args.
     (let d = fresh_addr (arrays w2); w3 = w2\<lparr>arrays := fmupd d args (arrays w2)\<rparr> in
     res_bind (hook_write hs (\<lambda>h. h\<lparr>data := Some d, udata := udata lh\<rparr>) w3) (\<lambda>w4.
       Ok (imsg, w4)))))))"

definition connection_address :: "addr \<Rightarrow> addr \<Rightarrow> block \<Rightarrow> nat \<Rightarrow> unit act" where
  "connection_address hs imsg remote_addr addrlen =
     andthen (hook_zalloc hs (Bytes (replicate SOCKADDR_STORAGE_SZ 0))) (\<lambda>nm.
     andthen (reading (\<lambda>_. blk_read remote_addr 0 addrlen)) (\<lambda>src.
     andthen (reading (\<lambda>_. blk_write (replicate SOCKADDR_STORAGE_SZ 0) 0 src)) (\<lambda>name.
     andthen (mem_set nm (Bytes name)) (\<lambda>_.
     andthen (mem_set imsg (Msg \<lparr>msg_name = Some nm, msg_namelen = SOCKADDR_STORAGE_SZ,
                msg_iov = NULL, msg_iovlen = 0\<rparr>)) (\<lambda>_.
       udata_set hs UD_CORE_MSGHDR imsg)))))"

definition connection_setup :: "addr \<Rightarrow> addr \<Rightarrow> int \<Rightarrow> block \<Rightarrow> nat \<Rightarrow> world \<Rightarrow> world res" where
  "connection_setup hp hs connfd remote_addr addrlen w =
     res_bind (connection_create hp hs connfd w) (\<lambda>(imsg, w1).
     res_bind (connection_address hs imsg remote_addr addrlen w1) (\<lambda>(_, w2).
     res_bind (hook_write hs (\<lambda>h. h\<lparr>ev_events := EPOLLIN OR EPOLLRDHUP OR EPOLLPRI OR EPOLLET\<rparr>) w2) (\<lambda>w3.
       Ok (EVQ_ADD connfd hs w3))))"

fun accept_loop :: "accept_ans list \<Rightarrow> addr \<Rightarrow> block \<Rightarrow> nat \<Rightarrow> world \<Rightarrow> world res" where
  "accept_loop [] hp remote_addr addrlen w = Ok w"
| "accept_loop (a # as) hp remote_addr addrlen w =
     (if a_fd a > 0 \<or> a_intr a
      then if a_fd a = -1 then accept_loop as hp remote_addr addrlen w
           else (let w1 = w\<lparr>fds := finsert (a_fd a) (fds w)\<rparr>;
                     remote = put_at remote_addr 0 (take addrlen (a_addr a));
                     len = length (a_addr a);
                     (hs, w2) = hook_new (a_mem a) w1 in
                 case hs of
                   None \<Rightarrow> accept_loop as hp remote len (do_close (a_fd a) w2)
                 | Some s \<Rightarrow> res_bind (connection_setup hp s (a_fd a) remote len w2)
                     (accept_loop as hp remote len))
      else Ok w)"

definition ioqueue_socket_on_connect :: "accept_ans list \<Rightarrow> addr \<Rightarrow> world \<Rightarrow> (int \<times> world) res" where
  "ioqueue_socket_on_connect ans p w =
     res_bind (deref (hooks w) (Some p)) (\<lambda>h.
     res_bind (c_assert (data h \<noteq> NULL)) (\<lambda>_.
     res_bind (c_assert (udata h ! UD_CORE_SYSPTR \<noteq> 0)) (\<lambda>_.
     res_bind (accept_loop ans p (replicate SOCKADDR_STORAGE_SZ 0) SOCKADDR_STORAGE_SZ w) (\<lambda>w1.
       Ok (0, w1)))))"

section \<open>References to hooks\<close>

text \<open>
  \<open>ext p\<close> counts the references to hook \<open>p\<close> that threads hold: in a worker's queue, in a worker's
  hand, or as the worker's own argument. The other reference is the registration with epoll.
\<close>

definition registered :: "world \<Rightarrow> addr \<Rightarrow> hook \<Rightarrow> nat" where
  "registered w p h = (if fmlookup (epoll w) (fd h) = Some p then 1 else 0)"

definition refs_ok :: "world \<Rightarrow> (addr \<Rightarrow> nat) \<Rightarrow> bool" where
  "refs_ok w ext \<longleftrightarrow>
     (\<forall>p h. fmlookup (hooks w) p = Some h \<longrightarrow>
        refcnt h = int (registered w p h + ext p) \<and> 0 < registered w p h + ext p) \<and>
     (\<forall>p. 0 < ext p \<longrightarrow> (\<exists>h. fmlookup (hooks w) p = Some h \<and>
        ready h \<noteq> Some Ioqueue_socket_on_connect \<and> data h \<noteq> NULL))"

text \<open>Every registration is of an open descriptor and of a live hook that has it.\<close>

definition epoll_ok :: "world \<Rightarrow> bool" where
  "epoll_ok w \<longleftrightarrow>
     (\<forall>f p. fmlookup (epoll w) f = Some p \<longrightarrow> f |\<in>| fds w \<and> 0 \<le> f \<and>
        (\<exists>h. fmlookup (hooks w) p = Some h \<and> fd h = f \<and> ready h \<noteq> None \<and> data h \<noteq> NULL \<and>
           (ready h = Some Ioqueue_socket_on_connect \<longrightarrow> udata h ! UD_CORE_SYSPTR \<noteq> 0)))"

definition sys_ok :: "world \<Rightarrow> (addr \<Rightarrow> nat) \<Rightarrow> bool" where
  "sys_ok w ext \<longleftrightarrow> Ex (world_ok w) \<and> refs_ok w ext \<and> epoll_ok w"

lemma registered_upd [simp]:
  "registered w p (h\<lparr>refcnt := n\<rparr>) = registered w p h"
  "registered w p (h\<lparr>process := f\<rparr>) = registered w p h"
  by (simp_all add: registered_def)

lemma sys_okI: "world_ok w pool \<Longrightarrow> refs_ok w ext \<Longrightarrow> epoll_ok w \<Longrightarrow> sys_ok w ext"
  by (auto simp: sys_ok_def)

lemma refs_ok_count:
  "refs_ok w ext \<Longrightarrow> fmlookup (hooks w) p = Some h \<Longrightarrow>
     refcnt h = int (registered w p h + ext p) \<and> 0 < registered w p h + ext p"
  by (simp add: refs_ok_def)

lemma refs_ok_held:
  "refs_ok w ext \<Longrightarrow> 0 < ext p \<Longrightarrow> \<exists>h. fmlookup (hooks w) p = Some h \<and>
     ready h \<noteq> Some Ioqueue_socket_on_connect \<and> data h \<noteq> NULL"
  unfolding refs_ok_def by blast

lemma epoll_okD:
  "epoll_ok w \<Longrightarrow> fmlookup (epoll w) f = Some p \<Longrightarrow> f |\<in>| fds w \<and> 0 \<le> f \<and>
     (\<exists>h. fmlookup (hooks w) p = Some h \<and> fd h = f \<and> ready h \<noteq> None \<and> data h \<noteq> NULL \<and>
        (ready h = Some Ioqueue_socket_on_connect \<longrightarrow> udata h ! UD_CORE_SYSPTR \<noteq> 0))"
  unfolding epoll_ok_def by blast

text \<open>What \<open>hook_free\<close> does to the table of hooks.\<close>

lemma hook_free_ok:
  assumes ok: "world_ok w pool" and h: "fmlookup (hooks w) p = Some h"
    and r: "ready h \<noteq> Some Ioqueue_socket_on_connect"
  shows "\<exists>w'. hook_free p w = Ok w' \<and> Ex (world_ok w') \<and> fds w' = fds w \<and> epoll w' = epoll w \<and>
     hooks w' = (if refcnt h = 1 then fmdrop p (hooks w)
                 else fmupd p (h\<lparr>refcnt := refcnt h - 1\<rparr>) (hooks w))"
proof -
  let ?h = "h\<lparr>refcnt := refcnt h - 1\<rparr>"
  let ?w = "w\<lparr>hooks := fmupd p ?h (hooks w)\<rparr>"
  have ok1: "world_ok ?w pool" using world_ok_upd [OF ok h] by simp
  have l: "fmlookup (hooks ?w) p = Some ?h" by simp
  show ?thesis
  proof (cases "refcnt h = 1")
    case True
    from hook_free_real_ok [OF ok1 l] r obtain m as where
      "hook_free_real p ?w = Ok (?w\<lparr>hooks := fmdrop p (hooks ?w), mem := m, arrays := as\<rparr>)"
      "world_ok (?w\<lparr>hooks := fmdrop p (hooks ?w), mem := m, arrays := as\<rparr>) pool"
      by auto
    with h True show ?thesis by (auto simp: hook_free_def)
  next
    case False
    with h ok1 show ?thesis by (auto simp: hook_free_def)
  qed
qed

text \<open>Dropping the registration of \<open>p\<close>, or a reference a thread holds on it.\<close>

lemma hook_close_sys:
  assumes ok: "sys_ok w ext" and h: "fmlookup (hooks w) p = Some h"
    and reg: "fmlookup (epoll w) (fd h) = Some p" and r: "ready h \<noteq> Some Ioqueue_socket_on_connect"
  shows "\<exists>w'. hook_close p w = Ok w' \<and> sys_ok w' ext \<and> epoll w' = fmdrop (fd h) (epoll w) \<and>
     (\<forall>q. q \<noteq> p \<longrightarrow> fmlookup (hooks w') q = fmlookup (hooks w) q) \<and>
     (0 < ext p \<longrightarrow> fmlookup (hooks w') p = Some (h\<lparr>refcnt := refcnt h - 1\<rparr>))"
proof -
  from ok obtain pool where pool: "world_ok w pool" and refs: "refs_ok w ext" and ep: "epoll_ok w"
    by (auto simp: sys_ok_def)
  let ?w = "do_close (fd h) w"
  have "world_ok ?w pool" "fmlookup (hooks ?w) p = Some h" using pool h by simp_all
  from hook_free_ok [OF this r, unfolded do_close_simps] obtain w' where
    w': "hook_free p ?w = Ok w'" "Ex (world_ok w')"
    "fds w' = fds w |-| {|fd h|}" "epoll w' = fmdrop (fd h) (epoll w)"
    "hooks w' = (if refcnt h = 1 then fmdrop p (hooks w)
                 else fmupd p (h\<lparr>refcnt := refcnt h - 1\<rparr>) (hooks w))"
    by blast
  have cnt: "refcnt h = 1 + int (ext p)" using refs_ok_count [OF refs h] reg by (simp add: registered_def)
  have other: "fmlookup (hooks w') q = fmlookup (hooks w) q" if "q \<noteq> p" for q using that w'(5) by simp
  have regq: "registered w' q k = registered w q k" if "q \<noteq> p" for q k
    using that w'(4) reg by (auto simp: registered_def)
  have "refs_ok w' ext"
    unfolding refs_ok_def
  proof (intro conjI allI impI)
    fix q k assume k: "fmlookup (hooks w') q = Some k"
    show "refcnt k = int (registered w' q k + ext q)" "0 < registered w' q k + ext q"
      using refs_ok_count [OF refs, of q k] k other [of q] regq [of q k] cnt w'(4,5)
      by (cases "q = p"; auto simp: registered_def split: if_splits)+
  next
    fix q assume q: "0 < ext q"
    from refs_ok_held [OF refs q] q cnt w'(5) h show "\<exists>k. fmlookup (hooks w') q = Some k \<and>
       ready k \<noteq> Some Ioqueue_socket_on_connect \<and> data k \<noteq> NULL"
      by (cases "q = p") auto
  qed
  moreover have "epoll_ok w'"
    unfolding epoll_ok_def
  proof (intro allI impI)
    fix f q assume f: "fmlookup (epoll w') f = Some q"
    then have fq: "fmlookup (epoll w) f = Some q" "f \<noteq> fd h" using w'(4) by (auto split: if_splits)
    with epoll_okD [OF ep fq(1)] h have "q \<noteq> p" by auto
    with epoll_okD [OF ep fq(1)] fq(2) other w'(3)
    show "f |\<in>| fds w' \<and> 0 \<le> f \<and> (\<exists>h. fmlookup (hooks w') q = Some h \<and> fd h = f \<and> ready h \<noteq> None \<and>
       data h \<noteq> NULL \<and> (ready h = Some Ioqueue_socket_on_connect \<longrightarrow> udata h ! UD_CORE_SYSPTR \<noteq> 0))"
      by simp
  qed
  ultimately have "sys_ok w' ext" using w'(2) by (auto simp: sys_ok_def)
  with w' h other cnt show ?thesis by (auto simp: hook_close_def)
qed

definition dropped :: "addr \<Rightarrow> hook \<Rightarrow> world \<Rightarrow> world \<Rightarrow> bool" where
  "dropped p h w w' \<longleftrightarrow> fds w' = fds w \<and> epoll w' = epoll w \<and>
     hooks w' = (if refcnt h = 1 then fmdrop p (hooks w) else fmupd p (h\<lparr>refcnt := refcnt h - 1\<rparr>) (hooks w))"

lemma dropped_refs:
  assumes refs: "refs_ok w ext" and held: "0 < ext p" and h: "fmlookup (hooks w) p = Some h" and d: "dropped p h w w'"
  shows "refs_ok w' (ext(p := ext p - 1))"
proof -
  from refs_ok_held [OF refs held] h have r: "ready h \<noteq> Some Ioqueue_socket_on_connect" "data h \<noteq> NULL" by auto
  have cnt: "refcnt h = int (registered w p h + ext p)" using refs_ok_count [OF refs h] by simp
  have one: "refcnt h = 1 \<longleftrightarrow> registered w p h + ext p = 1" using cnt by linarith
  have w': "hooks w' = (if refcnt h = 1 then fmdrop p (hooks w) else fmupd p (h\<lparr>refcnt := refcnt h - 1\<rparr>) (hooks w))"
    using d by (simp add: dropped_def)
  have other: "fmlookup (hooks w') q = fmlookup (hooks w) q" if "q \<noteq> p" for q using that w' by simp
  have reg: "registered w' q k = registered w q k" for q k using d by (simp add: registered_def dropped_def)
  let ?ext = "ext(p := ext p - 1)"
  show ?thesis
    unfolding refs_ok_def
  proof (intro conjI allI impI)
    fix q k assume k: "fmlookup (hooks w') q = Some k"
    show "refcnt k = int (registered w' q k + ?ext q)" "0 < registered w' q k + ?ext q"
      using refs_ok_count [OF refs, of q k] refs_ok_count [OF refs h] k other [of q] cnt w' held reg one
      by (cases "q = p"; auto split: if_splits)+
  next
    fix q assume q: "0 < ?ext q"
    show "\<exists>k. fmlookup (hooks w') q = Some k \<and>
       ready k \<noteq> Some Ioqueue_socket_on_connect \<and> data k \<noteq> NULL"
    proof (cases "q = p")
      case True
      with q one r w' show ?thesis by auto
    next
      case False
      with q refs_ok_held [OF refs, of q] other [of q] show ?thesis by auto
    qed
  qed
qed

lemma dropped_epoll:
  assumes ep: "epoll_ok w" and h: "fmlookup (hooks w) p = Some h" and d: "dropped p h w w'"
    and one: "refcnt h = 1 \<Longrightarrow> registered w p h = 0"
  shows "epoll_ok w'"
  unfolding epoll_ok_def
proof (intro allI impI)
  fix f q assume f: "fmlookup (epoll w') f = Some q"
  then have fq: "fmlookup (epoll w) f = Some q" using d by (simp add: dropped_def)
  have "refcnt h \<noteq> 1" if "q = p"
    using epoll_okD [OF ep fq] h that fq one by (auto simp: registered_def)
  with epoll_okD [OF ep fq] d h
  show "f |\<in>| fds w' \<and> 0 \<le> f \<and> (\<exists>h. fmlookup (hooks w') q = Some h \<and> fd h = f \<and> ready h \<noteq> None \<and>
     data h \<noteq> NULL \<and> (ready h = Some Ioqueue_socket_on_connect \<longrightarrow> udata h ! UD_CORE_SYSPTR \<noteq> 0))"
    by (cases "q = p") (auto simp: dropped_def)
qed

lemma hook_unref_sys:
  assumes ok: "sys_ok w ext" and held: "0 < ext p"
  shows "\<exists>w'. hook_unref p w = Ok w' \<and> sys_ok w' (ext(p := ext p - 1)) \<and> epoll w' = epoll w \<and>
     (\<forall>q. q \<noteq> p \<longrightarrow> fmlookup (hooks w') q = fmlookup (hooks w) q) \<and>
     (\<forall>h. fmlookup (hooks w) p = Some h \<longrightarrow> registered w p h + ext p \<noteq> 1 \<longrightarrow>
        fmlookup (hooks w') p = Some (h\<lparr>refcnt := refcnt h - 1\<rparr>))"
proof -
  from ok obtain pool where pool: "world_ok w pool" and refs: "refs_ok w ext" and ep: "epoll_ok w"
    by (auto simp: sys_ok_def)
  from refs_ok_held [OF refs held] obtain h where h: "fmlookup (hooks w) p = Some h"
    and r: "ready h \<noteq> Some Ioqueue_socket_on_connect" by blast
  from hook_free_ok [OF pool h r] obtain w' where
    w': "hook_free p w = Ok w'" "Ex (world_ok w')" "fds w' = fds w" "epoll w' = epoll w"
    "hooks w' = (if refcnt h = 1 then fmdrop p (hooks w)
                 else fmupd p (h\<lparr>refcnt := refcnt h - 1\<rparr>) (hooks w))" by blast
  then have d: "dropped p h w w'" by (simp add: dropped_def)
  have cnt: "refcnt h = int (registered w p h + ext p)" using refs_ok_count [OF refs h] by simp
  have one: "refcnt h = 1 \<longleftrightarrow> registered w p h + ext p = 1" using cnt by linarith
  have "epoll_ok w'" by (rule dropped_epoll [OF ep h d]) (use one held in simp)
  with dropped_refs [OF refs held h d] w'(2) have "sys_ok w' (ext(p := ext p - 1))" by (auto simp: sys_ok_def)
  with w' h one show ?thesis by (auto simp: hook_unref_def)
qed

text \<open>Writing one hook: what the reference counts and the registrations need.\<close>

lemma refs_ok_one:
  assumes refs: "refs_ok w ext" and p: "fmlookup (hooks w') p = Some h'" and ep: "epoll w' = epoll w"
    and other: "\<And>q. q \<noteq> p \<Longrightarrow> fmlookup (hooks w') q = fmlookup (hooks w) q \<and> ext' q = ext q"
    and cnt: "refcnt h' = int (registered w p h' + ext' p)" "0 < registered w p h' + ext' p"
    and held: "0 < ext' p \<Longrightarrow> ready h' \<noteq> Some Ioqueue_socket_on_connect \<and> data h' \<noteq> NULL"
  shows "refs_ok w' ext'"
proof -
  have reg: "registered w' q k = registered w q k" for q k by (simp add: registered_def ep)
  have "refcnt k = int (registered w' q k + ext' q) \<and> 0 < registered w' q k + ext' q"
    if "fmlookup (hooks w') q = Some k" for q k
    using that refs_ok_count [OF refs, of q k] other [of q] cnt p by (cases "q = p") (auto simp: reg)
  moreover have "\<exists>k. fmlookup (hooks w') q = Some k \<and> ready k \<noteq> Some Ioqueue_socket_on_connect \<and>
      data k \<noteq> NULL" if "0 < ext' q" for q
    using that refs_ok_held [OF refs, of q] other [of q] held p by (cases "q = p") auto
  ultimately show ?thesis unfolding refs_ok_def by simp
qed

lemma epoll_ok_one:
  assumes ok: "epoll_ok w" and h: "fmlookup (hooks w) p = Some h"
    and p: "fmlookup (hooks w') p = Some h'" and eq: "epoll w' = epoll w" "fds w' = fds w"
    and other: "\<And>q. q \<noteq> p \<Longrightarrow> fmlookup (hooks w') q = fmlookup (hooks w) q"
    and same: "fd h' = fd h" "ready h' = ready h" "data h' = data h"
    and ud: "ready h \<noteq> Some Ioqueue_socket_on_connect \<or> udata h' = udata h"
  shows "epoll_ok w'"
  unfolding epoll_ok_def
proof (intro allI impI)
  fix f q assume "fmlookup (epoll w') f = Some q"
  then have "fmlookup (epoll w) f = Some q" using eq by simp
  from epoll_okD [OF ok this] other [of q] h p same ud eq
  show "f |\<in>| fds w' \<and> 0 \<le> f \<and> (\<exists>h. fmlookup (hooks w') q = Some h \<and> fd h = f \<and> ready h \<noteq> None \<and>
     data h \<noteq> NULL \<and> (ready h = Some Ioqueue_socket_on_connect \<longrightarrow> udata h ! UD_CORE_SYSPTR \<noteq> 0))"
    by (cases "q = p") auto
qed

text \<open>Writing fields of a hook that the invariant does not look at.\<close>

lemma sys_ok_upd:
  assumes ok: "sys_ok w ext" and h: "fmlookup (hooks w) p = Some h"
    and same: "mp h' = mp h" "ready h' = ready h" "data h' = data h" "fd h' = fd h" "refcnt h' = refcnt h"
      "udata h' = udata h"
  shows "sys_ok (w\<lparr>hooks := fmupd p h' (hooks w)\<rparr>) ext"
proof -
  let ?w = "w\<lparr>hooks := fmupd p h' (hooks w)\<rparr>"
  from ok obtain pool where pool: "world_ok w pool" and refs: "refs_ok w ext" and ep: "epoll_ok w"
    by (auto simp: sys_ok_def)
  have reg: "registered w p h' = registered w p h" using same by (simp add: registered_def)
  have "refs_ok ?w ext"
    using refs_ok_count [OF refs h] refs_ok_held [OF refs, of p] h same
    by (intro refs_ok_one [OF refs, where p = p and h' = h']) (auto simp: reg)
  moreover have "epoll_ok ?w" using same by (intro epoll_ok_one [OF ep h, where h' = h']) auto
  ultimately show ?thesis using world_ok_upd [OF pool h same(1-3)] by (auto simp: sys_ok_def)
qed

lemma hook_ref_sys:
  assumes ok: "sys_ok w ext" and h: "fmlookup (hooks w) p = Some h"
    and r: "ready h \<noteq> Some Ioqueue_socket_on_connect" "data h \<noteq> NULL"
  shows "\<exists>w'. hook_ref p w = Ok w' \<and> sys_ok w' (ext(p := ext p + 1)) \<and> epoll w' = epoll w \<and>
     (\<forall>q. q \<noteq> p \<longrightarrow> fmlookup (hooks w') q = fmlookup (hooks w) q) \<and>
     fmlookup (hooks w') p = Some (h\<lparr>refcnt := refcnt h + 1\<rparr>)"
proof -
  from ok obtain pool where pool: "world_ok w pool" and refs: "refs_ok w ext" and ep: "epoll_ok w"
    by (auto simp: sys_ok_def)
  let ?h = "h\<lparr>refcnt := refcnt h + 1\<rparr>"
  let ?w = "w\<lparr>hooks := fmupd p ?h (hooks w)\<rparr>"
  have "refs_ok ?w (ext(p := ext p + 1))"
    using refs_ok_count [OF refs h] r by (intro refs_ok_one [OF refs, where p = p and h' = ?h]) auto
  moreover have "epoll_ok ?w" by (intro epoll_ok_one [OF ep h, where h' = ?h]) auto
  moreover have "world_ok ?w pool" using world_ok_upd [OF pool h] by simp
  ultimately have "sys_ok ?w (ext(p := ext p + 1))" by (auto simp: sys_ok_def)
  with h show ?thesis by (simp add: hook_ref_def)
qed

text \<open>A handler that works on a hook a thread holds keeps the invariant.\<close>

lemma keeps_sys:
  assumes k: "keeps p w w'" and ok: "sys_ok w ext" and held: "0 < ext p"
  shows "sys_ok w' ext"
proof -
  from ok obtain pool where pool: "world_ok w pool" and refs: "refs_ok w ext" and ep: "epoll_ok w"
    by (auto simp: sys_ok_def)
  from refs_ok_held [OF refs held] obtain h where h: "fmlookup (hooks w) p = Some h"
    "ready h \<noteq> Some Ioqueue_socket_on_connect" "data h \<noteq> NULL" by blast
  with k obtain h' where h': "fmlookup (hooks w') p = Some h'" and same: "same_hook h h'"
    by (auto simp: keeps_def option_rel_Some1)
  have other: "fmlookup (hooks w') q = fmlookup (hooks w) q" if "q \<noteq> p" for q
    using k that by (simp add: keeps_def)
  have eq: "epoll w' = epoll w" "fds w' = fds w" and w: "Ex (world_ok w')"
    using k pool by (auto simp: keeps_def)
  have reg: "registered w p h' = registered w p h" using same by (simp add: registered_def same_hook_def)
  have "refs_ok w' ext"
    using refs_ok_count [OF refs h(1)] h(2,3) same other
    by (intro refs_ok_one [OF refs h' eq(1)]) (auto simp: reg same_hook_def)
  moreover have "epoll_ok w'"
    using same h(2) other by (intro epoll_ok_one [OF ep h(1) h' eq]) (auto simp: same_hook_def)
  ultimately show ?thesis using w by (simp add: sys_ok_def)
qed

text \<open>An event on a connection: the hook stays registered and gets a process function, or it is closed.\<close>

lemma on_data_sys:
  assumes ok: "sys_ok w ext" and h: "fmlookup (hooks w) p = Some h"
    and reg: "fmlookup (epoll w) (fd h) = Some p" and r: "ready h = Some Ioqueue_socket_on_data"
  shows "\<exists>ret w'. ioqueue_socket_on_data p w = Ok (ret, w') \<and> sys_ok w' ext \<and>
     (\<forall>q. q \<noteq> p \<longrightarrow> fmlookup (hooks w') q = fmlookup (hooks w) q) \<and>
     (\<forall>f. f \<noteq> fd h \<longrightarrow> fmlookup (epoll w') f = fmlookup (epoll w) f) \<and>
     (0 < ext p \<longrightarrow> (\<exists>h'. fmlookup (hooks w') p = Some h' \<and> fd h' = fd h \<and>
        (process h \<noteq> None \<longrightarrow> process h' = process h))) \<and>
     (0 < ret \<longrightarrow> epoll w' = epoll w \<and> fmlookup (hooks w') p =
        Some (h\<lparr>process := Some Ioqueue_socket_process_data\<rparr>))"
proof -
  from ok obtain pool where pool: "world_ok w pool" and ep: "epoll_ok w" by (auto simp: sys_ok_def)
  from epoll_okD [OF ep reg] h obtain a where a: "data h = Some a" by auto
  moreover from world_ok_own [OF pool h] a have "a |\<in>| fmdom (arrays w)" by (simp add: own_ok_def)
  ultimately obtain args where args: "fmlookup (arrays w) a = Some args" by (auto simp: fmlookup_dom_iff)
  have close: "\<exists>w'. hook_close p w = Ok w' \<and> sys_ok w' ext \<and> epoll w' = fmdrop (fd h) (epoll w) \<and>
     (\<forall>q. q \<noteq> p \<longrightarrow> fmlookup (hooks w') q = fmlookup (hooks w) q) \<and>
     (0 < ext p \<longrightarrow> fmlookup (hooks w') p = Some (h\<lparr>refcnt := refcnt h - 1\<rparr>))"
    using hook_close_sys [OF ok h reg] r by simp
  have proc: "process h = Some Ioqueue_socket_process_data" if "process h \<noteq> None"
    using that by (cases "process h") (metis (full_types) process_fn.exhaust)+
  let ?up = "CHECKFLAG (ev_events h) EPOLLRDHUP \<or> CHECKFLAG (ev_events h) EPOLLHUP \<or>
    CHECKFLAG (ev_events h) EPOLLERR"
  consider "?up \<or> (process h = None \<and> \<not> ahaskey args ''hoda'')"
    | "\<not> ?up" "process h = None" "ahaskey args ''hoda''" | "\<not> ?up" "process h \<noteq> None"
    by blast
  then show ?thesis
  proof cases
    case 1
    then have "ioqueue_socket_on_data p w = res_bind (hook_close p w) (\<lambda>w2. Ok (0, w2))"
      using h a args by (auto simp: ioqueue_socket_on_data_def)
    with close show ?thesis by auto
  next
    case 2
    let ?h = "h\<lparr>process := Some Ioqueue_socket_process_data\<rparr>"
    have "ioqueue_socket_on_data p w = Ok (1, w\<lparr>hooks := fmupd p ?h (hooks w)\<rparr>)"
      using 2 h a args by (simp add: ioqueue_socket_on_data_def)
    moreover have "sys_ok (w\<lparr>hooks := fmupd p ?h (hooks w)\<rparr>) ext" using sys_ok_upd [OF ok h] by simp
    ultimately show ?thesis using 2(2) by auto
  next
    case 3
    then have "ioqueue_socket_on_data p w = Ok (1, w)"
      using h a args by (auto simp: ioqueue_socket_on_data_def)
    moreover have "h\<lparr>process := Some Ioqueue_socket_process_data\<rparr> = h" using proc [OF 3(2)] by simp
    ultimately show ?thesis using ok h by auto
  qed
qed

section \<open>Accepting connections\<close>

text \<open>
  Setting up an accepted connection touches nothing but the new hook, which ends up
  registered, with a data array of its own.
\<close>

lemma connection_create_ok:
  assumes ok: "world_ok w pool" and hs: "fmlookup (hooks w) hs = Some h" "data h = NULL"
    and hp: "fmlookup (hooks w) hp = Some lh" "data lh \<noteq> NULL" "hp \<noteq> hs"
  shows "\<exists>imsg w' h'. connection_create hp hs connfd w = Ok (imsg, w') \<and> Ex (world_ok w') \<and>
     0 < imsg \<and> imsg |\<in>| fmdom (mem w') \<and> fds w' = fds w \<and> epoll w' = epoll w \<and>
     (\<forall>q. q \<noteq> hs \<longrightarrow> fmlookup (hooks w') q = fmlookup (hooks w) q) \<and> fmlookup (hooks w') hs = Some h' \<and>
     fd h' = connfd \<and> ready h' = Some Ioqueue_socket_on_data \<and> data h' \<noteq> NULL \<and> refcnt h' = refcnt h"
proof -
  let ?m0 = "Msg \<lparr>msg_name = NULL, msg_namelen = 0, msg_iov = NULL, msg_iovlen = 0\<rparr>"
  define imsg where "imsg = fresh_addr (mem w)"
  obtain l w1 where w1: "hook_zalloc hs ?m0 w = Ok (imsg, w1)"
    "w1 = w\<lparr>mem := fmupd imsg ?m0 (mem w), hooks := fmupd hs (h\<lparr>mp := l\<rparr>) (hooks w)\<rparr>"
    "world_ok w1 (pool(hs := imsg # pool hs))"
    using hook_zalloc_ok [OF ok hs(1) imsg_def, of ?m0] by blast
  define h2 where "h2 = h\<lparr>mp := l, fd := connfd, ready := Some Ioqueue_socket_on_data\<rparr>"
  define w2 where "w2 = w1\<lparr>hooks := fmupd hs h2 (hooks w1)\<rparr>"
  have r2: "hook_write hs (\<lambda>h. h\<lparr>fd := connfd, ready := Some Ioqueue_socket_on_data\<rparr>) w1 = Ok w2"
    using w1(2) by (simp add: w2_def h2_def)
  have ok2: "world_ok w2 (pool(hs := imsg # pool hs))"
    unfolding w2_def using w1(2) hs(2)
    by (intro world_ok_upd_no_data [OF w1(3), where h = "h\<lparr>mp := l\<rparr>"]) (auto simp: h2_def)
  have lh: "fmlookup (hooks w2) hp = Some lh" using hp w1(2) by (simp add: w2_def)
  obtain a where a: "data lh = Some a" using hp(2) by auto
  have "a |\<in>| fmdom (arrays w2)" using world_ok_own [OF ok2 lh] a by (simp add: own_ok_def)
  then obtain args where args: "deref (arrays w2) (data lh) = Ok args"
    using a by (auto simp: fmlookup_dom_iff)
  define d where "d = fresh_addr (arrays w2)"
  define h4 where "h4 = h2\<lparr>data := Some d, udata := udata lh\<rparr>"
  define w4 where "w4 = w2\<lparr>arrays := fmupd d args (arrays w2), hooks := fmupd hs h4 (hooks w2)\<rparr>"
  have "hook_write hs (\<lambda>h. h\<lparr>data := Some d, udata := udata lh\<rparr>)
      (w2\<lparr>arrays := fmupd d args (arrays w2)\<rparr>) = Ok w4"
    by (simp add: w4_def h4_def w2_def)
  with w1(1) r2 lh args have "connection_create hp hs connfd w = Ok (imsg, w4)"
    by (simp add: connection_create_def d_def [symmetric] Let_def)
  moreover have "world_ok w4 (pool(hs := imsg # pool hs))"
    unfolding w4_def by (rule world_ok_new_array [OF ok2, where h = h2]) (auto simp: h4_def w2_def d_def)
  moreover have "0 < imsg" by (simp add: imsg_def fresh_addr_def)
  ultimately show ?thesis
    using w1(2) by (auto simp: w4_def w2_def h4_def h2_def)
qed

lemma frames_connection_address: "frames hs (connection_address hs imsg remote len)"
  unfolding connection_address_def by (intro frame_intros)

lemma connection_address_ok:
  assumes ok: "world_ok w pool" and hs: "fmlookup (hooks w) hs = Some h"
    and imsg: "0 < imsg" "imsg |\<in>| fmdom (mem w)"
    and len: "length remote = SOCKADDR_STORAGE_SZ" "len \<le> SOCKADDR_STORAGE_SZ"
  shows "\<exists>w'. connection_address hs imsg remote len w = Ok ((), w') \<and> keeps hs w w'"
proof -
  let ?n0 = "Bytes (replicate SOCKADDR_STORAGE_SZ 0)"
  define nm where "nm = fresh_addr (mem w)"
  have nm: "0 < nm" by (simp add: nm_def fresh_addr_def)
  obtain l w1 where w1: "hook_zalloc hs ?n0 w = Ok (nm, w1)"
    "w1 = w\<lparr>mem := fmupd nm ?n0 (mem w), hooks := fmupd hs (h\<lparr>mp := l\<rparr>) (hooks w)\<rparr>"
    using hook_zalloc_ok [OF ok hs nm_def, of ?n0] by blast
  obtain src name where name: "blk_read remote 0 len = Ok src"
    "blk_write (replicate SOCKADDR_STORAGE_SZ 0) 0 src = Ok name"
    using len by (auto simp: blk_read_def blk_write_def)
  obtain m0 where "fmlookup (mem w) imsg = Some m0" using imsg(2) by (auto simp: fmlookup_dom_iff)
  then have "\<exists>w'. connection_address hs imsg remote len w = Ok ((), w')"
    using w1 name nm imsg(1)
    by (cases "imsg = nm")
      (simp_all add: connection_address_def andthen_def reading_def mem_set_def udata_set_def ptr_of_def)
  then show ?thesis
    using frames_connection_address hs by (auto simp: frames_def fmdomI)
qed

lemma connection_setup_ok:
  assumes ok: "world_ok w pool" and hs: "fmlookup (hooks w) hs = Some h" "data h = NULL"
    and hp: "fmlookup (hooks w) hp = Some lh" "data lh \<noteq> NULL" "hp \<noteq> hs"
    and fd: "connfd |\<in>| fds w" "connfd |\<notin>| fmdom (epoll w)"
    and len: "length remote = SOCKADDR_STORAGE_SZ" "len \<le> SOCKADDR_STORAGE_SZ"
  shows "\<exists>w' h'. connection_setup hp hs connfd remote len w = Ok w' \<and> Ex (world_ok w') \<and>
     fds w' = fds w \<and> epoll w' = fmupd connfd hs (epoll w) \<and> fmlookup (hooks w') hs = Some h' \<and>
     (\<forall>q. q \<noteq> hs \<longrightarrow> fmlookup (hooks w') q = fmlookup (hooks w) q) \<and>
     fd h' = connfd \<and> ready h' = Some Ioqueue_socket_on_data \<and> data h' \<noteq> NULL \<and> refcnt h' = refcnt h"
proof -
  from connection_create_ok [OF ok hs hp, of connfd] obtain imsg w1 h1 pool1 where
    c: "connection_create hp hs connfd w = Ok (imsg, w1)" "world_ok w1 pool1" "0 < imsg"
      "imsg |\<in>| fmdom (mem w1)" "fds w1 = fds w" "epoll w1 = epoll w"
      "\<forall>q. q \<noteq> hs \<longrightarrow> fmlookup (hooks w1) q = fmlookup (hooks w) q" "fmlookup (hooks w1) hs = Some h1"
      "fd h1 = connfd" "ready h1 = Some Ioqueue_socket_on_data" "data h1 \<noteq> NULL" "refcnt h1 = refcnt h"
    by blast
  from connection_address_ok [OF c(2,8,3,4) len] obtain w2 where
    w2: "connection_address hs imsg remote len w1 = Ok ((), w2)" "keeps hs w1 w2" by blast
  from w2(2) c(8) obtain h2 where h2: "fmlookup (hooks w2) hs = Some h2" "same_hook h1 h2"
    by (auto simp: keeps_def option_rel_Some1)
  from w2(2) c(2) obtain pool2 where pool2: "world_ok w2 pool2" by (auto simp: keeps_def)
  let ?h = "h2\<lparr>ev_events := EPOLLIN OR EPOLLRDHUP OR EPOLLPRI OR EPOLLET\<rparr>"
  let ?w = "w2\<lparr>hooks := fmupd hs ?h (hooks w2)\<rparr>"
  have "world_ok ?w pool2" using world_ok_upd [OF pool2 h2(1)] by simp
  moreover have "connection_setup hp hs connfd remote len w = Ok (EVQ_ADD connfd hs ?w)"
    using c(1) w2(1) h2(1) by (simp add: connection_setup_def)
  ultimately show ?thesis
    using w2(2) c h2(2) fd by (auto simp: EVQ_ADD_def keeps_def same_hook_def)
qed

text \<open>Nothing that was there is changed.\<close>

definition grows :: "world \<Rightarrow> world \<Rightarrow> bool" where
  "grows w w' \<longleftrightarrow>
     (\<forall>q h. fmlookup (hooks w) q = Some h \<longrightarrow> fmlookup (hooks w') q = Some h) \<and>
     (\<forall>f q. fmlookup (epoll w) f = Some q \<longrightarrow> fmlookup (epoll w') f = Some q)"

lemma grows_refl [simp]: "grows w w"
  by (simp add: grows_def)

lemma grows_trans: "grows w w1 \<Longrightarrow> grows w1 w2 \<Longrightarrow> grows w w2"
  by (simp add: grows_def)

lemma sys_ok_new_hook:
  assumes refs: "refs_ok w ext" and ep: "epoll_ok w" and s: "fmlookup (hooks w) s = None"
    and f: "f |\<notin>| fmdom (epoll w)" "0 \<le> f"
    and w': "Ex (world_ok w')" "fds w' = finsert f (fds w)" "epoll w' = fmupd f s (epoll w)"
      "fmlookup (hooks w') s = Some h" "\<And>q. q \<noteq> s \<Longrightarrow> fmlookup (hooks w') q = fmlookup (hooks w) q"
    and h: "fd h = f" "ready h \<noteq> None" "data h \<noteq> NULL" "refcnt h = 1"
      "ready h = Some Ioqueue_socket_on_connect \<Longrightarrow> udata h ! UD_CORE_SYSPTR \<noteq> 0"
  shows "sys_ok w' ext \<and> grows w w'"
proof -
  have nof: "fmlookup (epoll w) f = None" using f(1) by (rule fmdom_notD)
  have exts: "ext s = 0" using refs_ok_held [OF refs, of s] s by fastforce
  have nos: "fmlookup (epoll w) g \<noteq> Some s" for g using epoll_okD [OF ep, of g s] s by auto
  have reg: "registered w' q k = registered w q k" if "q \<noteq> s" for q k
    using that w'(3) nof by (auto simp: registered_def)
  have "refcnt k = int (registered w' q k + ext q) \<and> 0 < registered w' q k + ext q"
    if "fmlookup (hooks w') q = Some k" for q k
    using that refs_ok_count [OF refs, of q k] w'(3-5) h exts reg [of q k]
    by (cases "q = s") (auto simp: registered_def)
  moreover have "\<exists>k. fmlookup (hooks w') q = Some k \<and> ready k \<noteq> Some Ioqueue_socket_on_connect \<and>
      data k \<noteq> NULL" if "0 < ext q" for q
    using that refs_ok_held [OF refs, of q] exts w'(5) by (cases "q = s") auto
  ultimately have "refs_ok w' ext" unfolding refs_ok_def by simp
  moreover have "epoll_ok w'"
    unfolding epoll_ok_def
  proof (intro allI impI)
    fix g q assume g: "fmlookup (epoll w') g = Some q"
    show "g |\<in>| fds w' \<and> 0 \<le> g \<and> (\<exists>h. fmlookup (hooks w') q = Some h \<and> fd h = g \<and> ready h \<noteq> None \<and>
       data h \<noteq> NULL \<and> (ready h = Some Ioqueue_socket_on_connect \<longrightarrow> udata h ! UD_CORE_SYSPTR \<noteq> 0))"
    proof (cases "g = f")
      case True
      with g w' h f show ?thesis by auto
    next
      case False
      with g w'(3) have gq: "fmlookup (epoll w) g = Some q" by simp
      with epoll_okD [OF ep gq] nos w' show ?thesis by (cases "q = s") auto
    qed
  qed
  ultimately have "sys_ok w' ext" using w'(1) by (simp add: sys_ok_def)
  moreover have "fmlookup (hooks w') q = Some k" if "fmlookup (hooks w) q = Some k" for q k
    using that s w'(5) [of q] by (cases "q = s") auto
  then have "grows w w'" using w'(3) nof by (auto simp: grows_def)
  ultimately show ?thesis by simp
qed

text \<open>
  What the kernel promises of \<open>accept4\<close>: a descriptor that is not open, positive since 0 is the
  standard input, and an address that fits \<open>sockaddr_storage\<close>; -1 otherwise.
\<close>

fun accepts_ok :: "int fset \<Rightarrow> accept_ans list \<Rightarrow> bool" where
  "accepts_ok F [] = True"
| "accepts_ok F (a # as) =
     (if a_fd a = -1 then accepts_ok F as
      else 0 < a_fd a \<and> a_fd a |\<notin>| F \<and> length (a_addr a) \<le> SOCKADDR_STORAGE_SZ \<and>
           accepts_ok (if a_mem a then finsert (a_fd a) F else F) as)"

lemma accept_one_sys:
  assumes ok: "sys_ok w ext" and f: "f |\<notin>| fds w" "0 < f"
    and hp: "fmlookup (hooks w) hp = Some lh" "data lh \<noteq> NULL"
    and len: "length remote = SOCKADDR_STORAGE_SZ" "len \<le> SOCKADDR_STORAGE_SZ"
  shows "\<exists>s w2 w'. hook_new True (w\<lparr>fds := finsert f (fds w)\<rparr>) = (Some s, w2) \<and>
     connection_setup hp s f remote len w2 = Ok w' \<and> sys_ok w' ext \<and> grows w w' \<and>
     fds w' = finsert f (fds w)"
proof -
  from ok obtain pool where pool: "world_ok w pool" and refs: "refs_ok w ext" and ep: "epoll_ok w"
    by (auto simp: sys_ok_def)
  let ?w = "w\<lparr>fds := finsert f (fds w)\<rparr>"
  define s where "s = fresh_addr (hooks ?w)"
  have s: "fmlookup (hooks w) s = None" by (simp add: s_def)
  from hook_new_ok [OF _ s_def, of pool] pool obtain h where
    n: "hook_new True ?w = (Some s, ?w\<lparr>hooks := fmupd s h (hooks ?w)\<rparr>)" "data h = NULL" "refcnt h = 1"
      "world_ok (?w\<lparr>hooks := fmupd s h (hooks ?w)\<rparr>) (pool(s := []))"
    by auto
  have nof: "f |\<notin>| fmdom (epoll w)"
    using epoll_okD [OF ep, of f] f(1) by (cases "fmlookup (epoll w) f") (auto intro: fmdom_notI)
  have "hp \<noteq> s" using hp s by auto
  with connection_setup_ok [OF n(4), of s h hp lh f remote len] n(2,3) hp nof len obtain w' h' where
    w': "connection_setup hp s f remote len (?w\<lparr>hooks := fmupd s h (hooks ?w)\<rparr>) = Ok w'"
      "Ex (world_ok w')" "fds w' = finsert f (fds w)" "epoll w' = fmupd f s (epoll w)"
      "fmlookup (hooks w') s = Some h'" "\<forall>q. q \<noteq> s \<longrightarrow> fmlookup (hooks w') q = fmlookup (hooks w) q"
      "fd h' = f" "ready h' = Some Ioqueue_socket_on_data" "data h' \<noteq> NULL" "refcnt h' = 1"
    by auto
  have "sys_ok w' ext \<and> grows w w'"
    using w' f s by (intro sys_ok_new_hook [OF refs ep s nof, of w' h']) auto
  with n(1) w'(1,3) show ?thesis by auto
qed

lemma accept_loop_sys:
  assumes "sys_ok w ext" and "fmlookup (hooks w) hp = Some lh" and "data lh \<noteq> NULL"
    and "length remote = SOCKADDR_STORAGE_SZ" and "len \<le> SOCKADDR_STORAGE_SZ"
    and "accepts_ok (fds w) as"
  shows "\<exists>w'. accept_loop as hp remote len w = Ok w' \<and> sys_ok w' ext \<and> grows w w'"
  using assms
proof (induction as arbitrary: w remote len)
  case Nil
  then show ?case by simp
next
  case (Cons a as)
  consider "a_fd a = -1" "a_intr a" | "\<not> (a_fd a > 0 \<or> a_intr a)" | "a_fd a > 0"
    using Cons.prems(6) by (auto split: if_splits)
  then show ?case
  proof cases
    case 3
    let ?remote = "put_at remote 0 (take len (a_addr a))"
    have a: "a_fd a |\<notin>| fds w" "length (a_addr a) \<le> SOCKADDR_STORAGE_SZ"
      "accepts_ok (if a_mem a then finsert (a_fd a) (fds w) else fds w) as"
      using Cons.prems(6) 3 by (auto split: if_splits)
    have r: "length ?remote = SOCKADDR_STORAGE_SZ" using Cons.prems(4,5) by (simp add: min_def)
    show ?thesis
    proof (cases "a_mem a")
      case True
      from accept_one_sys [OF Cons.prems(1) a(1) 3 Cons.prems(2,3) r a(2)] obtain s w2 w1 where
        w1: "hook_new True (w\<lparr>fds := finsert (a_fd a) (fds w)\<rparr>) = (Some s, w2)"
          "connection_setup hp s (a_fd a) ?remote (length (a_addr a)) w2 = Ok w1"
          "sys_ok w1 ext" "grows w w1" "fds w1 = finsert (a_fd a) (fds w)" by blast
      have "fmlookup (hooks w1) hp = Some lh" using w1(4) Cons.prems(2) by (simp add: grows_def)
      from Cons.IH [OF w1(3) this Cons.prems(3) r a(2)] a(3) True w1(5) obtain w' where
        "accept_loop as hp ?remote (length (a_addr a)) w1 = Ok w'" "sys_ok w' ext" "grows w1 w'" by auto
      with 3 True w1 show ?thesis by (auto simp: Let_def intro: grows_trans)
    next
      case False
      have nof: "fmdrop (a_fd a) (epoll w) = epoll w"
        using Cons.prems(1) epoll_okD [of w "a_fd a"] a(1)
        by (intro fmap_ext) (auto simp: sys_ok_def, metis option.exhaust)
      have "do_close (a_fd a) (w\<lparr>fds := finsert (a_fd a) (fds w)\<rparr>) = w"
        using a(1) nof by (simp add: do_close_def)
      with 3 False Cons.IH [OF Cons.prems(1-3) r a(2)] a(3) show ?thesis
        by (simp add: hook_new_def)
    qed
  qed (use Cons in auto)
qed

lemma on_connect_sys:
  assumes ok: "sys_ok w ext" and h: "fmlookup (hooks w) p = Some h"
    and reg: "fmlookup (epoll w) (fd h) = Some p" and r: "ready h = Some Ioqueue_socket_on_connect"
    and acc: "accepts_ok (fds w) ans"
  shows "\<exists>w'. ioqueue_socket_on_connect ans p w = Ok (0, w') \<and> sys_ok w' ext \<and> grows w w'"
proof -
  from ok have ep: "epoll_ok w" by (simp add: sys_ok_def)
  from epoll_okD [OF ep reg] h r have d: "data h \<noteq> NULL" "udata h ! UD_CORE_SYSPTR \<noteq> 0" by auto
  from accept_loop_sys [OF ok h d(1) _ _ acc, of "replicate SOCKADDR_STORAGE_SZ 0" SOCKADDR_STORAGE_SZ] h d
  show ?thesis by (auto simp: ioqueue_socket_on_connect_def)
qed

end
