(* ===== verification/Server.thy ===== *)
theory Server
  imports Sockets Stailq
begin

text \<open>
  The event loop and the workers of \<open>src/main.c\<close>: \<open>ayubd_run\<close> polls for events, runs the \<open>ready\<close>
  function of the hook an event is for and hands the hook to the worker that its descriptor
  selects; \<open>ayubd_worker\<close> takes hooks from its queue, processes them and drops the reference.
  Hooks, descriptors and epoll are the store of theory Hooks, the queues are the divider
  queues of theory Stailq. A step of the system is one event of the main thread, or a
  worker's taking, processing or releasing of a hook; theory Spsc looks inside the queue
  operations.
\<close>

section \<open>State and operations\<close>

datatype wstate = W_Idle | W_Got addr | W_Done addr

record server =
  wd :: world
  nworkers :: nat
  wq :: "addr spscq list"
  wsem :: "nat list"
  wstate :: "wstate list"
  wself :: "addr list"
  pending :: "(ptr \<times> u32) list"
  nevents :: int
  symtbl :: "nat list"
  sysptr :: nat

text \<open>
  \<open>ayubd_config_read\<close>: the arguments are the answers of \<open>sysconf\<close>. \<open>ayubd_init\<close> reads the two values
  back as \<open>int\<close>s, allocates the arrays of the system and starts the workers: each gets a hook of
  its own, a queue with its divider node and a semaphore at 0. \<open>gots\<close> says whether the \<open>calloc\<close>
  of each worker's hook succeeds; the code asserts it.
\<close>

definition ayubd_config_read :: "int \<Rightarrow> int \<Rightarrow> array_t" where
  "ayubd_config_read nproc openmax =
     (let cval = (if nproc < 0 then 2 else nproc);
          cfg = aset array_new ''cpu_core'' (word_of_int cval);
          cval = (if openmax \<le> 0 then 1024 else openmax)
      in aset cfg ''open_max'' (word_of_int cval))"

definition int_of_value :: "value_t \<Rightarrow> int" where
  "int_of_value v = sint (ucast v :: u32)"

definition SYMTBLSZ :: nat where "SYMTBLSZ = push_bit 4 1"
definition NR_SYS_NWORKERS :: nat where "NR_SYS_NWORKERS = 1"
definition NR_SYS_NEVENTS :: nat where "NR_SYS_NEVENTS = 2"
definition NR_SYS_SYSPTR :: nat where "NR_SYS_SYSPTR = 3"

definition init_worker :: "bool \<Rightarrow> nat \<Rightarrow> server \<Rightarrow> server res" where
  "init_worker got i s =
     (let (hp, w1) = hook_new got (wd s) in
      case hp of None \<Rightarrow> Fault AssertFail
      | Some p \<Rightarrow>
          (let d = fresh_addr (arrays w1) in
           res_bind (hook_write p (\<lambda>h. h\<lparr>data := Some d,
               udata := (udata h)[UD_CORE_SYSPTR := sysptr s, UD_CORE_NUM := i]\<rparr>)
             (w1\<lparr>arrays := fmupd d array_new (arrays w1)\<rparr>)) (\<lambda>w2.
           res_bind (stailq_new_lf_spsc (Some 1) None) (\<lambda>q.
             Ok (s\<lparr>wd := w2, wq := wq s @ [q], wsem := wsem s @ [0], wstate := wstate s @ [W_Idle],
                   wself := wself s @ [p]\<rparr>)))))"

primrec init_workers :: "nat \<Rightarrow> bool list \<Rightarrow> nat \<Rightarrow> server \<Rightarrow> server res" where
  "init_workers 0 gots i s = Ok s"
| "init_workers (Suc n) gots i s =
     res_bind (init_worker (i < length gots \<and> gots ! i) i s) (init_workers n gots (Suc i))"

definition ayubd_init :: "nat \<Rightarrow> bool list \<Rightarrow> array_t \<Rightarrow> world \<Rightarrow> server res" where
  "ayubd_init sp gots cfg w =
     (let n = int_of_value (fst (array_get cfg (cstr ''cpu_core'')));
          ne = int_of_value (fst (array_get cfg (cstr ''open_max'')));
          tbl = (replicate SYMTBLSZ 0)[NR_SYS_NWORKERS := nat n, NR_SYS_NEVENTS := nat ne,
                  NR_SYS_SYSPTR := sp]
      in init_workers (nat n) gots 0 \<lparr>wd = w, nworkers = nat n, wq = [], wsem = [], wstate = [],
           wself = [], pending = [], nevents = ne, symtbl = tbl, sysptr = sp\<rparr>)"

text \<open>
  \<open>ayubd_module_load\<close>: the path is built from the module's name in a buffer of 257 bytes;
  \<open>dlopen\<close> and \<open>dlsym\<close> are arguments. A module without \<open>module_start\<close> is closed, and its missing
  function is called all the same.
\<close>

definition module_path :: "byte list \<Rightarrow> byte list" where
  "module_path name =
     take 255 (bytes_of ''modules/'' @ take 32 name @ bytes_of ''/mod_'' @ name @ bytes_of ''.so'')"

definition ayubd_module_load :: "(byte list \<Rightarrow> 'h option) \<Rightarrow> ('h \<Rightarrow> ('s \<Rightarrow> (int \<times> 's) res) option) \<Rightarrow>
    byte list \<Rightarrow> 's \<Rightarrow> (int \<times> 's) res" where
  "ayubd_module_load dlopen dlsym_start name s =
     (case dlopen (module_path name) of
        None \<Rightarrow> Ok (-1, s)
      | Some handle \<Rightarrow>
          (case dlsym_start handle of
             None \<Rightarrow> Fault NullDeref
           | Some mod_start \<Rightarrow> res_bind (mod_start s) (\<lambda>(_, s1). Ok (0, s1))))"

definition call_ready :: "accept_ans list \<Rightarrow> ready_fn \<Rightarrow> addr \<Rightarrow> world \<Rightarrow> (int \<times> world) res" where
  "call_ready ans f p w = (case f of Ioqueue_socket_on_connect \<Rightarrow> ioqueue_socket_on_connect ans p w
     | Ioqueue_socket_on_data \<Rightarrow> ioqueue_socket_on_data p w)"

text \<open>\<open>x = hp->fd % sys->nworkers; hook_ref(hp); stailq_in_lf_spsc(...); sem_post(...);\<close>\<close>

definition hand_over :: "addr \<Rightarrow> server \<Rightarrow> server res" where
  "hand_over p s =
     res_bind (deref (hooks (wd s)) (Some p)) (\<lambda>h.
       if nworkers s = 0 then Fault DivByZero
       else if fd h < 0 then Fault OutOfBounds
       else (let x = nat (fd h) mod nworkers s in
         res_bind (hook_ref p (wd s)) (\<lambda>w1.
         res_bind (stailq_in_lf_spsc (Some (fresh_addr (snodes (sq (wq s ! x))))) (Some p) (wq s ! x)) (\<lambda>q1.
           Ok (s\<lparr>wd := w1, wq := (wq s)[x := q1], wsem := (wsem s)[x := Suc (wsem s ! x)]\<rparr>)))))"

text \<open>The body of the loop over the events of one poll.\<close>

definition ayubd_dispatch :: "accept_ans list \<Rightarrow> ptr \<times> u32 \<Rightarrow> server \<Rightarrow> server res" where
  "ayubd_dispatch ans ev s =
     (case fst ev of None \<Rightarrow> Fault NullDeref
      | Some p \<Rightarrow>
          res_bind (hook_write p (\<lambda>h. h\<lparr>ev_events := snd ev\<rparr>) (wd s)) (\<lambda>w1.
          res_bind (deref (hooks w1) (Some p)) (\<lambda>h.
            case ready h of None \<Rightarrow> Ok (s\<lparr>wd := w1\<rparr>)
            | Some f \<Rightarrow>
                res_bind (call_ready ans f p w1) (\<lambda>(ret, w2).
                  if ret > 0
                  then res_bind (deref (hooks w2) (Some p)) (\<lambda>h2.
                         if process h2 \<noteq> None then hand_over p (s\<lparr>wd := w2\<rparr>) else Ok (s\<lparr>wd := w2\<rparr>))
                  else Ok (s\<lparr>wd := w2\<rparr>)))))"

text \<open>
  One step of worker \<open>x\<close>. \<open>code\<close> resolves the function pointers of data handlers. A worker whose
  hook has no process function goes back to waiting without dropping the reference.
\<close>

definition ayubd_worker_step :: "(value_t \<Rightarrow> addr \<Rightarrow> int act) \<Rightarrow> nat \<Rightarrow> server \<Rightarrow> server res" where
  "ayubd_worker_step code x s =
     (case wstate s ! x of
        W_Idle \<Rightarrow>
          if wsem s ! x = 0 then Ok s
          else res_bind (stailq_out_lf_spsc (wq s ! x)) (\<lambda>(v, q1).
                 Ok (s\<lparr>wsem := (wsem s)[x := wsem s ! x - 1], wq := (wq s)[x := q1],
                       wstate := (wstate s)[x := (case v of None \<Rightarrow> W_Idle | Some p \<Rightarrow> W_Got p)]\<rparr>))
      | W_Got p \<Rightarrow>
          res_bind (deref (hooks (wd s)) (Some p)) (\<lambda>h.
            if process h \<noteq> None
            then res_bind (andthen (udata_set p UD_CORE_NUM x) (\<lambda>_.
                           andthen (udata_set p UD_CORE_SYSPTR (sysptr s)) (\<lambda>_.
                             ioqueue_socket_process_data code p)) (wd s)) (\<lambda>(_, w1).
                   Ok (s\<lparr>wd := w1, wstate := (wstate s)[x := W_Done p]\<rparr>))
            else Ok (s\<lparr>wstate := (wstate s)[x := W_Idle]\<rparr>))
      | W_Done p \<Rightarrow>
          res_bind (hook_unref p (wd s)) (\<lambda>w1.
            Ok (s\<lparr>wd := w1, wstate := (wstate s)[x := W_Idle]\<rparr>)))"

text \<open>What epoll promises of one poll: the hooks of registered descriptors, each at most once.\<close>

definition events_ok :: "world \<Rightarrow> (ptr \<times> u32) list \<Rightarrow> bool" where
  "events_ok w evs \<longleftrightarrow> distinct (map fst evs) \<and>
     (\<forall>ev\<in>set evs. \<exists>f p. fst ev = Some p \<and> fmlookup (epoll w) f = Some p)"

inductive srv_step :: "('io \<Rightarrow> value_t \<Rightarrow> addr \<Rightarrow> int act) \<Rightarrow> server \<Rightarrow> server \<Rightarrow> bool"
  for code :: "'io \<Rightarrow> value_t \<Rightarrow> addr \<Rightarrow> int act" where
  poll: "pending s = [] \<Longrightarrow> events_ok (wd s) evs \<Longrightarrow> srv_step code s (s\<lparr>pending := evs\<rparr>)"
| main: "pending s = ev # evs \<Longrightarrow> accepts_ok (fds (wd s)) ans \<Longrightarrow>
    ayubd_dispatch ans ev (s\<lparr>pending := evs\<rparr>) = Ok t \<Longrightarrow> srv_step code s t"
| work: "x < nworkers s \<Longrightarrow> ayubd_worker_step (code io) x s = Ok t \<Longrightarrow> srv_step code s t"

inductive_cases srv_stepE: "srv_step code s t"

section \<open>The invariant\<close>

definition in_hand_of :: "wstate \<Rightarrow> addr \<Rightarrow> nat" where
  "in_hand_of st p = (case st of W_Idle \<Rightarrow> 0 | W_Got q \<Rightarrow> if q = p then 1 else 0
     | W_Done q \<Rightarrow> if q = p then 1 else 0)"

definition load :: "server \<Rightarrow> addr list list \<Rightarrow> addr \<Rightarrow> nat \<Rightarrow> nat" where
  "load s vss p x = count_list (vss ! x) p + in_hand_of (wstate s ! x) p"

definition held :: "server \<Rightarrow> addr list list \<Rightarrow> addr \<Rightarrow> nat" where
  "held s vss p = (\<Sum>x<nworkers s. load s vss p x) + count_list (wself s) p"

text \<open>A hook that worker \<open>x\<close> may process.\<close>

definition of_worker :: "world \<Rightarrow> nat \<Rightarrow> addr \<Rightarrow> nat \<Rightarrow> bool" where
  "of_worker w n p x \<longleftrightarrow> (\<exists>h. fmlookup (hooks w) p = Some h \<and> nat (fd h) mod n = x \<and> process h \<noteq> None)"

definition srv_inv_at :: "server \<Rightarrow> addr list list \<Rightarrow> bool" where
  "srv_inv_at s vss \<longleftrightarrow>
     0 < nworkers s \<and> length (wq s) = nworkers s \<and> length (wstate s) = nworkers s \<and>
     length vss = nworkers s \<and> wsem s = map length vss \<and>
     (\<forall>x<nworkers s. spsc_rep (wq s ! x) (vss ! x)) \<and>
     sys_ok (wd s) (held s vss) \<and>
     (\<forall>x p. x < nworkers s \<longrightarrow> 0 < load s vss p x \<longrightarrow> of_worker (wd s) (nworkers s) p x) \<and>
     events_ok (wd s) (pending s)"

text \<open>The states a run reaches from \<open>s0\<close>.\<close>

inductive srv_reach :: "('io \<Rightarrow> value_t \<Rightarrow> addr \<Rightarrow> int act) \<Rightarrow> server \<Rightarrow> server \<Rightarrow> bool"
  for code :: "'io \<Rightarrow> value_t \<Rightarrow> addr \<Rightarrow> int act" and s0 :: server where
  boot: "srv_reach code s0 s0"
| step: "srv_reach code s0 s \<Longrightarrow> srv_step code s t \<Longrightarrow> srv_reach code s0 t"

definition srv_inv :: "server \<Rightarrow> bool" where
  "srv_inv s \<longleftrightarrow> (\<exists>vss. srv_inv_at s vss)"

lemma load_le_held: "x < nworkers s \<Longrightarrow> load s vss p x \<le> held s vss p"
  unfolding held_def using sum_one_pos [of x "nworkers s" "load s vss p"] by simp

lemma held_cong:
  "nworkers s' = nworkers s \<Longrightarrow> wself s' = wself s \<Longrightarrow>
     (\<And>y. y < nworkers s \<Longrightarrow> load s' vss' p y = load s vss p y) \<Longrightarrow> held s' vss' p = held s vss p"
  unfolding held_def by simp

lemma held_change:
  assumes "nworkers s' = nworkers s" and "wself s' = wself s" and "x < nworkers s"
    and "\<And>y. y \<noteq> x \<Longrightarrow> load s' vss' p y = load s vss p y" and "load s' vss' p x = load s vss p x + k"
  shows "held s' vss' p = held s vss p + k"
  unfolding held_def using sum_one_more [of x "nworkers s" "load s' vss' p" "load s vss p" k] assms by simp

text \<open>Facts the steps use.\<close>

lemma srv_inv_atD:
  assumes "srv_inv_at s vss"
  shows "0 < nworkers s" "length (wq s) = nworkers s" "length (wstate s) = nworkers s"
    "length vss = nworkers s" "wsem s = map length vss"
    "x < nworkers s \<Longrightarrow> spsc_rep (wq s ! x) (vss ! x)" "sys_ok (wd s) (held s vss)"
    "x < nworkers s \<Longrightarrow> 0 < load s vss p x \<Longrightarrow> of_worker (wd s) (nworkers s) p x"
    "events_ok (wd s) (pending s)"
  using assms by (simp_all add: srv_inv_at_def)

lemma worker_take_inv:
  assumes inv: "srv_inv_at s vss" and x: "x < nworkers s" "wstate s ! x = W_Idle"
  shows "\<exists>t vss'. ayubd_worker_step code x s = Ok t \<and> srv_inv_at t vss'"
proof (cases "vss ! x")
  case Nil
  with inv x show ?thesis
    using srv_inv_atD(4,5) [OF inv] by (auto simp: ayubd_worker_step_def)
next
  case (Cons p vs)
  from spsc.deq_rep [OF srv_inv_atD(6) [OF inv x(1), unfolded Cons]] obtain q1 where
    q1: "stailq_out_lf_spsc (wq s ! x) = Ok (Some p, q1)" "spsc_rep q1 vs" by blast
  let ?t = "s\<lparr>wsem := (wsem s)[x := wsem s ! x - 1], wq := (wq s)[x := q1], wstate := (wstate s)[x := W_Got p]\<rparr>"
  let ?vss = "vss[x := vs]"
  have len: "length vss = nworkers s" "length (wstate s) = nworkers s" "length (wq s) = nworkers s"
    "wsem s = map length vss"
    using srv_inv_atD [OF inv] by simp_all
  have "ayubd_worker_step code x s = Ok ?t"
    using q1(1) Cons x len by (simp add: ayubd_worker_step_def)
  moreover have ld: "load ?t ?vss a y = load s vss a y" if "y < nworkers s" for a y
    using that Cons x len by (cases "y = x") (auto simp: load_def in_hand_of_def)
  then have "held ?t ?vss = held s vss" by (intro ext held_cong) auto
  then have "srv_inv_at ?t ?vss"
    using srv_inv_atD [OF inv] q1(2) Cons x ld
    by (auto simp: srv_inv_at_def nth_list_update map_update)
  ultimately show ?thesis by blast
qed

lemma of_worker_keeps: "keeps p w w' \<Longrightarrow> of_worker w n a x \<Longrightarrow> of_worker w' n a x"
  by (cases "a = p") (auto simp: of_worker_def keeps_def option_rel_Some1 same_hook_def)

lemma events_ok_keeps: "keeps p w w' \<Longrightarrow> events_ok w' evs = events_ok w evs"
  by (simp add: events_ok_def keeps_def)

lemma worker_process_inv:
  assumes inv: "srv_inv_at s vss" and x: "x < nworkers s" "wstate s ! x = W_Got p"
    and code: "\<And>v. frames p (code v p)" and t: "ayubd_worker_step code x s = Ok t"
  shows "srv_inv_at t vss"
proof -
  have one: "0 < load s vss p x" using x(2) by (simp add: load_def in_hand_of_def)
  from srv_inv_atD(8) [OF inv x(1) one] obtain h where h: "fmlookup (hooks (wd s)) p = Some h"
    "process h \<noteq> None" by (auto simp: of_worker_def)
  let ?run = "andthen (udata_set p UD_CORE_NUM x) (\<lambda>_.
      andthen (udata_set p UD_CORE_SYSPTR (sysptr s)) (\<lambda>_. ioqueue_socket_process_data code p))"
  have fr: "frames p ?run"
    unfolding ioqueue_socket_process_data_def by (intro frame_intros code)
  from t h x(2) obtain r w1 where run: "?run (wd s) = Ok (r, w1)"
    and t': "t = s\<lparr>wd := w1, wstate := (wstate s)[x := W_Done p]\<rparr>"
    by (auto simp: ayubd_worker_step_def res_simps)
  with fr h(1) have w1: "keeps p (wd s) w1" "t = s\<lparr>wd := w1, wstate := (wstate s)[x := W_Done p]\<rparr>"
    by (auto simp: frames_def intro: fmdomI)
  have ld: "load t vss a y = load s vss a y" for a y
    using w1(2) x srv_inv_atD(3) [OF inv] by (cases "y = x") (auto simp: load_def in_hand_of_def)
  then have hld: "held t vss = held s vss" using w1(2) by (intro ext held_cong) auto
  have "0 < held s vss p" using load_le_held [OF x(1), of vss p] one by linarith
  with keeps_sys [OF w1(1) srv_inv_atD(7) [OF inv]] have "sys_ok w1 (held s vss)" by blast
  with hld ld w1 srv_inv_atD [OF inv] of_worker_keeps [OF w1(1)] events_ok_keeps [OF w1(1)]
  show ?thesis by (auto simp: srv_inv_at_def)
qed

text \<open>When processing fails it is the handler that failed.\<close>

lemma worker_process_faults:
  assumes inv: "srv_inv_at s vss" and x: "x < nworkers s" "wstate s ! x = W_Got p"
  shows "(\<exists>t. ayubd_worker_step code x s = Ok t) \<or> (\<exists>v w. keeps p (wd s) w \<and> \<not> is_ok (code v p w))"
proof -
  have one: "0 < load s vss p x" using x(2) by (simp add: load_def in_hand_of_def)
  from srv_inv_atD(8) [OF inv x(1) one] obtain h where h: "fmlookup (hooks (wd s)) p = Some h"
    "process h \<noteq> None" by (auto simp: of_worker_def)
  from srv_inv_atD(7) [OF inv] obtain pool where pool: "world_ok (wd s) pool"
    and refs: "refs_ok (wd s) (held s vss)" by (auto simp: sys_ok_def)
  have "0 < held s vss p" using load_le_held [OF x(1), of vss p] one by linarith
  with refs_ok_held [OF refs, of p] h obtain a where a: "data h = Some a" by auto
  with world_ok_own [OF pool h(1)] have dom: "a |\<in>| fmdom (arrays (wd s))" by (simp add: own_ok_def)
  define h1 where "h1 = h\<lparr>udata := (udata h)[UD_CORE_NUM := x, UD_CORE_SYSPTR := sysptr s]\<rparr>"
  define w1 where "w1 = (wd s)\<lparr>hooks := fmupd p h1 (hooks (wd s))\<rparr>"
  have "\<exists>v ar. array_aget (Some a) (cstr ''hoda'') w1 = Ok (v, w1\<lparr>arrays := fmupd a ar (arrays w1)\<rparr>)"
    using dom by (intro array_aget_Ok) (simp add: w1_def)
  then obtain v w2 where w2: "array_aget (Some a) (cstr ''hoda'') w1 = Ok (v, w2)" by blast
  let ?set = "andthen (udata_set p UD_CORE_NUM x) (\<lambda>_. udata_set p UD_CORE_SYSPTR (sysptr s))"
  have pre: "andthen ?set (\<lambda>_. array_aget (Some a) (cstr ''hoda'')) (wd s) = Ok (v, w2)"
    using h(1) w2 by (simp add: andthen_def udata_set_def w1_def h1_def)
  have "frames p (andthen ?set (\<lambda>_. array_aget (Some a) (cstr ''hoda'')))" by (intro frame_intros)
  with pre h(1) have k: "keeps p (wd s) w2" by (auto simp: frames_def intro: fmdomI)
  have run: "ayubd_worker_step code x s = res_bind (if v \<noteq> 0 then code v p w2 else Ok (0, w2)) (\<lambda>(_, w).
      Ok (s\<lparr>wd := w, wstate := (wstate s)[x := W_Done p]\<rparr>))"
    using h a w2 x(2)
    by (simp add: ayubd_worker_step_def andthen_def udata_set_def ioqueue_socket_process_data_def
        hook_get_def reading_def assert_that_def w1_def h1_def return_def)
  show ?thesis
  proof (cases "v \<noteq> 0 \<and> \<not> is_ok (code v p w2)")
    case True
    with k show ?thesis by blast
  next
    case False
    with run show ?thesis by (cases "code v p w2") auto
  qed
qed

lemma worker_release_inv:
  assumes inv: "srv_inv_at s vss" and x: "x < nworkers s" "wstate s ! x = W_Done p"
  shows "\<exists>t. ayubd_worker_step code x s = Ok t \<and> srv_inv_at t vss"
proof -
  have one: "0 < load s vss p x" using x(2) by (simp add: load_def in_hand_of_def)
  have hp: "0 < held s vss p" using load_le_held [OF x(1), of vss p] one by linarith
  from hook_unref_sys [OF srv_inv_atD(7) [OF inv] hp] obtain w1 where
    w1: "hook_unref p (wd s) = Ok w1" "sys_ok w1 ((held s vss)(p := held s vss p - 1))"
      "epoll w1 = epoll (wd s)" "\<forall>q. q \<noteq> p \<longrightarrow> fmlookup (hooks w1) q = fmlookup (hooks (wd s)) q"
      "\<forall>h. fmlookup (hooks (wd s)) p = Some h \<longrightarrow> registered (wd s) p h + held s vss p \<noteq> 1 \<longrightarrow>
        fmlookup (hooks w1) p = Some (h\<lparr>refcnt := refcnt h - 1\<rparr>)" by blast
  let ?t = "s\<lparr>wd := w1, wstate := (wstate s)[x := W_Idle]\<rparr>"
  have len: "length (wstate s) = nworkers s" using srv_inv_atD [OF inv] by simp
  have ldy: "load ?t vss a y = load s vss a y" if "y \<noteq> x" for a y using that by (simp add: load_def)
  have ldx: "load s vss a x = load ?t vss a x + (if a = p then 1 else 0)" for a
    using x len by (auto simp: load_def in_hand_of_def)
  have hld: "held s vss a = held ?t vss a + (if a = p then 1 else 0)" for a
    using ldy ldx x by (intro held_change) auto
  then have heq: "(held s vss)(p := held s vss p - 1) = held ?t vss" by (intro ext) auto
  have ow: "of_worker w1 (nworkers s) a y" if y: "y < nworkers s" and l: "0 < load ?t vss a y" for a y
  proof -
    have "0 < load s vss a y" using l ldy ldx by (cases "y = x") auto
    from srv_inv_atD(8) [OF inv y this] obtain h where
      h: "fmlookup (hooks (wd s)) a = Some h" "nat (fd h) mod nworkers s = y" "process h \<noteq> None"
      by (auto simp: of_worker_def)
    have "1 < held s vss a" if "a = p" using hld [of p] load_le_held [of y ?t vss p] y l that by simp
    with h w1(4,5) show ?thesis by (cases "a = p") (auto simp: of_worker_def)
  qed
  have "ayubd_worker_step code x s = Ok ?t" using w1(1) x by (simp add: ayubd_worker_step_def)
  moreover have "srv_inv_at ?t vss"
    using srv_inv_atD [OF inv] w1(2,3) heq ow by (auto simp: srv_inv_at_def events_ok_def)
  ultimately show ?thesis by blast
qed

section \<open>The main thread's steps keep it\<close>

lemma srv_inv_world:
  assumes inv: "srv_inv_at s vss" and "sys_ok w' (held s vss)" and "events_ok w' evs"
    and "\<And>a x. x < nworkers s \<Longrightarrow> 0 < load s vss a x \<Longrightarrow> of_worker (wd s) (nworkers s) a x \<Longrightarrow>
      of_worker w' (nworkers s) a x"
  shows "srv_inv_at (s\<lparr>wd := w', pending := evs\<rparr>) vss"
proof -
  have "load (s\<lparr>wd := w', pending := evs\<rparr>) vss = load s vss" by (intro ext) (simp add: load_def)
  moreover from this have "held (s\<lparr>wd := w', pending := evs\<rparr>) vss = held s vss"
    by (intro ext held_cong) auto
  ultimately show ?thesis using assms srv_inv_atD [OF inv] by (simp add: srv_inv_at_def)
qed

lemma hand_over_inv:
  assumes inv: "srv_inv_at s vss" and h: "fmlookup (hooks (wd s)) p = Some h"
    and r: "ready h \<noteq> Some Ioqueue_socket_on_connect" "data h \<noteq> NULL" "process h \<noteq> None" "0 \<le> fd h"
  shows "\<exists>t vss'. hand_over p s = Ok t \<and> srv_inv_at t vss'"
proof -
  define x where "x = nat (fd h) mod nworkers s"
  have x: "x < nworkers s" using srv_inv_atD(1) [OF inv] by (simp add: x_def)
  from hook_ref_sys [OF srv_inv_atD(7) [OF inv] h r(1,2)] obtain w1 where
    w1: "hook_ref p (wd s) = Ok w1" "sys_ok w1 ((held s vss)(p := held s vss p + 1))"
      "epoll w1 = epoll (wd s)" "\<forall>q. q \<noteq> p \<longrightarrow> fmlookup (hooks w1) q = fmlookup (hooks (wd s)) q"
      "fmlookup (hooks w1) p = Some (h\<lparr>refcnt := refcnt h + 1\<rparr>)" by blast
  let ?a = "Some (fresh_addr (snodes (sq (wq s ! x))))"
  from spsc.enq_rep [OF srv_inv_atD(6) [OF inv x], of ?a p] obtain q1 where
    q1: "stailq_in_lf_spsc ?a (Some p) (wq s ! x) = Ok q1" "spsc_rep q1 (vss ! x @ [p])"
    by (auto simp: spsc_fresh_def spsc_enqueue_def)
  let ?t = "s\<lparr>wd := w1, wq := (wq s)[x := q1], wsem := (wsem s)[x := Suc (wsem s ! x)]\<rparr>"
  let ?vss = "vss[x := vss ! x @ [p]]"
  have len: "length vss = nworkers s" using srv_inv_atD [OF inv] by simp
  have ldy: "load ?t ?vss a y = load s vss a y" if "y \<noteq> x" for a y using that by (simp add: load_def)
  have ldx: "load ?t ?vss a x = load s vss a x + (if a = p then 1 else 0)" for a
    using x len by (simp add: load_def)
  have "held ?t ?vss a = held s vss a + (if a = p then 1 else 0)" for a
    using ldy ldx x by (intro held_change) auto
  then have hld: "held ?t ?vss = (held s vss)(p := held s vss p + 1)" by (intro ext) auto
  have ow: "of_worker w1 (nworkers s) a y" if y: "y < nworkers s" and l: "0 < load ?t ?vss a y" for a y
  proof (cases "a = p \<and> y = x")
    case True
    with w1(5) r(3) show ?thesis by (auto simp: of_worker_def x_def)
  next
    case False
    with l ldy ldx have "0 < load s vss a y" by (cases "y = x") auto
    from srv_inv_atD(8) [OF inv y this] w1(4,5) h show ?thesis
      by (cases "a = p") (auto simp: of_worker_def)
  qed
  have "hand_over p s = Ok ?t"
    using h w1(1) q1(1) r(4) srv_inv_atD(1) [OF inv] by (simp add: hand_over_def x_def [symmetric])
  moreover have "srv_inv_at ?t ?vss"
    using srv_inv_atD [OF inv] w1(2,3) hld ow q1(2) x
    by (auto simp: srv_inv_at_def events_ok_def nth_list_update map_update)
  ultimately show ?thesis by blast
qed

lemma events_ok_grows: "grows w w' \<Longrightarrow> events_ok w evs \<Longrightarrow> events_ok w' evs"
  unfolding events_ok_def grows_def by blast

lemma of_worker_grows: "grows w w' \<Longrightarrow> of_worker w n a x \<Longrightarrow> of_worker w' n a x"
  unfolding of_worker_def grows_def by blast

text \<open>Storing the event flags of the hook an event is for.\<close>

lemma event_flags_inv:
  assumes inv: "srv_inv_at s vss" and h: "fmlookup (hooks (wd s)) p = Some h"
  shows "srv_inv_at (s\<lparr>wd := (wd s)\<lparr>hooks := fmupd p (h\<lparr>ev_events := e\<rparr>) (hooks (wd s))\<rparr>\<rparr>) vss"
proof -
  let ?w = "(wd s)\<lparr>hooks := fmupd p (h\<lparr>ev_events := e\<rparr>) (hooks (wd s))\<rparr>"
  have "srv_inv_at (s\<lparr>wd := ?w, pending := pending s\<rparr>) vss"
    using srv_inv_atD(7,9) [OF inv] h
    by (intro srv_inv_world [OF inv] sys_ok_upd) (auto simp: events_ok_def of_worker_def)
  then show ?thesis by simp
qed

lemma dispatch_connect_inv:
  assumes inv: "srv_inv_at s vss" and h: "fmlookup (hooks (wd s)) p = Some h"
    and reg: "fmlookup (epoll (wd s)) (fd h) = Some p" and r: "ready h = Some Ioqueue_socket_on_connect"
    and acc: "accepts_ok (fds (wd s)) ans"
  shows "\<exists>w'. ioqueue_socket_on_connect ans p (wd s) = Ok (0, w') \<and> srv_inv_at (s\<lparr>wd := w'\<rparr>) vss"
proof -
  from on_connect_sys [OF srv_inv_atD(7) [OF inv] h reg r acc] obtain w' where
    w': "ioqueue_socket_on_connect ans p (wd s) = Ok (0, w')" "sys_ok w' (held s vss)" "grows (wd s) w'"
    by blast
  have "srv_inv_at (s\<lparr>wd := w', pending := pending s\<rparr>) vss"
    using srv_inv_atD(9) [OF inv] w'(2,3)
    by (intro srv_inv_world [OF inv]) (auto intro: events_ok_grows of_worker_grows)
  with w'(1) show ?thesis by auto
qed

lemma dispatch_data_inv:
  assumes inv: "srv_inv_at s vss" and h: "fmlookup (hooks (wd s)) p = Some h"
    and reg: "fmlookup (epoll (wd s)) (fd h) = Some p" and r: "ready h = Some Ioqueue_socket_on_data"
    and evs: "\<forall>ev\<in>set (pending s). fst ev \<noteq> Some p"
  shows "\<exists>ret w'. ioqueue_socket_on_data p (wd s) = Ok (ret, w') \<and> srv_inv_at (s\<lparr>wd := w'\<rparr>) vss \<and>
     (0 < ret \<longrightarrow> fmlookup (hooks w') p = Some (h\<lparr>process := Some Ioqueue_socket_process_data\<rparr>))"
proof -
  from on_data_sys [OF srv_inv_atD(7) [OF inv] h reg r] obtain ret w' where
    w': "ioqueue_socket_on_data p (wd s) = Ok (ret, w')" "sys_ok w' (held s vss)"
      "\<forall>q. q \<noteq> p \<longrightarrow> fmlookup (hooks w') q = fmlookup (hooks (wd s)) q"
      "\<forall>f. f \<noteq> fd h \<longrightarrow> fmlookup (epoll w') f = fmlookup (epoll (wd s)) f"
      "0 < held s vss p \<longrightarrow> (\<exists>h'. fmlookup (hooks w') p = Some h' \<and> fd h' = fd h \<and>
        (process h \<noteq> None \<longrightarrow> process h' = process h))"
      "0 < ret \<longrightarrow> epoll w' = epoll (wd s) \<and>
        fmlookup (hooks w') p = Some (h\<lparr>process := Some Ioqueue_socket_process_data\<rparr>)"
    by (elim exE conjE) (rule that)
  have ev: "events_ok w' (pending s)"
    unfolding events_ok_def
  proof (intro conjI ballI)
    show "distinct (map fst (pending s))" using srv_inv_atD(9) [OF inv] by (simp add: events_ok_def)
    fix ev assume e: "ev \<in> set (pending s)"
    with srv_inv_atD(9) [OF inv] obtain f q where "fst ev = Some q" "fmlookup (epoll (wd s)) f = Some q"
      by (auto simp: events_ok_def)
    with e evs reg w'(4) show "\<exists>f q. fst ev = Some q \<and> fmlookup (epoll w') f = Some q"
      by (metis option.inject)
  qed
  have ow: "of_worker w' (nworkers s) a x"
    if l: "x < nworkers s" "0 < load s vss a x" and o: "of_worker (wd s) (nworkers s) a x" for a x
  proof (cases "a = p")
    case True
    have "0 < held s vss p" using load_le_held [OF l(1), of vss p] l(2) True by simp
    with True o h w'(5) show ?thesis by (auto simp: of_worker_def)
  qed (use o w'(3) in \<open>auto simp: of_worker_def\<close>)
  have "srv_inv_at (s\<lparr>wd := w', pending := pending s\<rparr>) vss"
    by (rule srv_inv_world [OF inv w'(2) ev ow])
  with w'(1,6) show ?thesis by auto
qed

lemma dispatch_inv:
  assumes inv: "srv_inv_at s vss" and evs: "pending s = ev # evs"
    and acc: "accepts_ok (fds (wd s)) ans"
  shows "\<exists>t vss'. ayubd_dispatch ans ev (s\<lparr>pending := evs\<rparr>) = Ok t \<and> srv_inv_at t vss'"
proof -
  have dis: "fst ev \<notin> fst ` set evs" and ok: "events_ok (wd s) evs"
    and reg: "\<exists>f p. fst ev = Some p \<and> fmlookup (epoll (wd s)) f = Some p"
    using srv_inv_atD(9) [OF inv] evs by (simp_all add: events_ok_def)
  from reg obtain f p where p: "fst ev = Some p" "fmlookup (epoll (wd s)) f = Some p" by blast
  from dis p(1) have rest: "\<forall>e\<in>set evs. fst e \<noteq> Some p" by (metis image_eqI)
  from srv_inv_atD(7) [OF inv] have "epoll_ok (wd s)" by (simp add: sys_ok_def)
  from epoll_okD [OF this p(2)] obtain h where h: "fmlookup (hooks (wd s)) p = Some h" "fd h = f"
    "ready h \<noteq> None" "data h \<noteq> NULL" "0 \<le> f" by blast
  let ?h = "h\<lparr>ev_events := snd ev\<rparr>"
  let ?w = "(wd s)\<lparr>hooks := fmupd p ?h (hooks (wd s))\<rparr>"
  define s1 where "s1 = s\<lparr>pending := evs, wd := ?w\<rparr>"
  have "srv_inv_at (s\<lparr>wd := wd s, pending := evs\<rparr>) vss"
    by (rule srv_inv_world [OF inv srv_inv_atD(7) [OF inv] ok]) auto
  then have inv1: "srv_inv_at s1 vss"
    using event_flags_inv [of "s\<lparr>pending := evs\<rparr>" vss p h "snd ev"] h(1) by (simp add: s1_def)
  have s1: "fmlookup (hooks (wd s1)) p = Some ?h" "fmlookup (epoll (wd s1)) (fd ?h) = Some p"
    "fds (wd s1) = fds (wd s)" "\<forall>e\<in>set (pending s1). fst e \<noteq> Some p"
    using p h rest by (simp_all add: s1_def)
  obtain rf where rf: "ready h = Some rf" using h(3) by auto
  show ?thesis
  proof (cases rf)
    case Ioqueue_socket_on_connect
    with dispatch_connect_inv [OF inv1 s1(1,2)] rf s1(3) acc obtain w' where
      "ioqueue_socket_on_connect ans p ?w = Ok (0, w')" "srv_inv_at (s1\<lparr>wd := w'\<rparr>) vss"
      by (auto simp: s1_def)
    with p(1) h(1) rf Ioqueue_socket_on_connect show ?thesis
      by (auto simp: ayubd_dispatch_def call_ready_def s1_def)
  next
    case Ioqueue_socket_on_data
    with dispatch_data_inv [OF inv1 s1(1,2) _ s1(4)] rf obtain ret w' where
      w': "ioqueue_socket_on_data p ?w = Ok (ret, w')" "srv_inv_at (s1\<lparr>wd := w'\<rparr>) vss"
        "0 < ret \<longrightarrow> fmlookup (hooks w') p = Some (?h\<lparr>process := Some Ioqueue_socket_process_data\<rparr>)"
      by (auto simp: s1_def)
    show ?thesis
    proof (cases "0 < ret")
      case True
      with hand_over_inv [OF w'(2), of p] w'(1,3) p(1) h rf Ioqueue_socket_on_data show ?thesis
        by (auto simp: ayubd_dispatch_def call_ready_def s1_def)
    next
      case False
      with w'(1,2) p(1) h(1) rf Ioqueue_socket_on_data show ?thesis
        by (auto simp: ayubd_dispatch_def call_ready_def s1_def)
    qed
  qed
qed

section \<open>Runs with handlers that keep to their hook\<close>

text \<open>
  What the server needs of the modules' data handlers: they touch only the hook they are called
  for, its memory pool and its user data. They may fail.
\<close>

locale request_handler =
  fixes code :: "'io \<Rightarrow> value_t \<Rightarrow> addr \<Rightarrow> int act"
  assumes code_frames: "frames p (code io v p)"
begin

lemma worker_inv:
  assumes inv: "srv_inv_at s vss" and x: "x < nworkers s" and t: "ayubd_worker_step (code io) x s = Ok t"
  shows "\<exists>vss'. srv_inv_at t vss'"
proof (cases "wstate s ! x")
  case W_Idle
  with worker_take_inv [OF inv x, of "code io"] t show ?thesis by auto
next
  case (W_Got p)
  with worker_process_inv [OF inv x W_Got code_frames t] show ?thesis by blast
next
  case (W_Done p)
  with worker_release_inv [OF inv x, of p "code io"] t show ?thesis by auto
qed

lemma step_inv: "srv_step code s t \<Longrightarrow> srv_inv s \<Longrightarrow> srv_inv t"
proof (induction rule: srv_step.induct)
  case (poll s evs)
  then obtain vss where inv: "srv_inv_at s vss" by (auto simp: srv_inv_def)
  have "srv_inv_at (s\<lparr>wd := wd s, pending := evs\<rparr>) vss"
    using srv_inv_atD(7) [OF inv] poll by (intro srv_inv_world [OF inv]) auto
  then show ?case by (auto simp: srv_inv_def)
next
  case (main s ev evs ans t)
  then show ?case using dispatch_inv [of s _ ev evs ans] by (auto simp: srv_inv_def)
next
  case (work x s io t)
  then show ?case using worker_inv by (auto simp: srv_inv_def)
qed

lemma reach_inv: "srv_reach code s0 s \<Longrightarrow> srv_inv s0 \<Longrightarrow> srv_inv s"
  by (induction rule: srv_reach.induct) (auto intro: step_inv)

text \<open>The main thread never faults, and a worker only inside a handler.\<close>

lemma main_safe:
  assumes "srv_reach code s0 s" and "srv_inv s0" and "pending s = ev # evs"
    and "accepts_ok (fds (wd s)) ans"
  shows "is_ok (ayubd_dispatch ans ev (s\<lparr>pending := evs\<rparr>))"
  using reach_inv [OF assms(1,2)] dispatch_inv [OF _ assms(3,4)] by (fastforce simp: srv_inv_def is_ok_iff)

lemma worker_safe:
  assumes "srv_reach code s0 s" and "srv_inv s0" and "x < nworkers s"
  shows "is_ok (ayubd_worker_step (code io) x s) \<or>
    (\<exists>p v w. wstate s ! x = W_Got p \<and> keeps p (wd s) w \<and> \<not> is_ok (code io v p w))"
proof -
  from reach_inv [OF assms(1,2)] obtain vss where inv: "srv_inv_at s vss" by (auto simp: srv_inv_def)
  show ?thesis
  proof (cases "wstate s ! x")
    case W_Idle
    with worker_take_inv [OF inv assms(3), of "code io"] show ?thesis by (auto simp: is_ok_iff)
  next
    case (W_Got p)
    with worker_process_faults [OF inv assms(3) W_Got] show ?thesis by (auto simp: is_ok_iff)
  next
    case (W_Done p)
    with worker_release_inv [OF inv assms(3), of p "code io"] show ?thesis by (auto simp: is_ok_iff)
  qed
qed

end

section \<open>The state after ayubd_init\<close>

definition init_ok :: "nat \<Rightarrow> server \<Rightarrow> bool" where
  "init_ok i s \<longleftrightarrow>
     length (wq s) = i \<and> wsem s = replicate i 0 \<and> wstate s = replicate i W_Idle \<and>
     distinct (wself s) \<and> set (wself s) = fset (fmdom (hooks (wd s))) \<and>
     (\<forall>x<i. spsc_rep (wq s ! x) []) \<and> Ex (world_ok (wd s)) \<and> epoll (wd s) = fmempty \<and> pending s = [] \<and>
     (\<forall>p h. fmlookup (hooks (wd s)) p = Some h \<longrightarrow> refcnt h = 1 \<and>
        ready h \<noteq> Some Ioqueue_socket_on_connect \<and> data h \<noteq> NULL)"

lemma spsc_new_rep: "\<exists>q. stailq_new_lf_spsc (Some a) junk = Ok q \<and> spsc_rep q []"
proof -
  define q where "q = \<lparr>sq = \<lparr>stqh_first = Some a, stqh_last = NodeNext a,
    snodes = fmupd a \<lparr>val = junk, stqe_next = NULL\<rparr> fmempty\<rparr>, qdiv = Some a\<rparr>"
  have "stailq_new_lf_spsc (Some a) junk = Ok q"
    by (simp add: stailq_new_lf_spsc_def stailq_alloc_node_def stailq_new_def STAILQ_INIT_def
        STAILQ_INSERT_TAIL_def q_def)
  moreover have "spsc_chain q [] a []" by (simp add: q_def spsc_chain_def stailq_chain_def)
  then have "spsc_rep q []" unfolding spsc_rep_def by force
  ultimately show ?thesis by blast
qed

lemma init_worker_ok:
  assumes "init_ok i s"
  shows "\<exists>t. init_worker True i s = Ok t \<and> init_ok (Suc i) t \<and> nworkers t = nworkers s \<and>
     fds (wd t) = fds (wd s)"
proof -
  from assms obtain pool where pool: "world_ok (wd s) pool" by (auto simp: init_ok_def)
  define p where "p = fresh_addr (hooks (wd s))"
  have p: "p |\<notin>| fmdom (hooks (wd s))" by (simp add: p_def)
  from hook_new_ok [OF pool p_def] obtain h where
    h: "hook_new True (wd s) = (Some p, (wd s)\<lparr>hooks := fmupd p h (hooks (wd s))\<rparr>)" "refcnt h = 1"
      "ready h = None" "world_ok ((wd s)\<lparr>hooks := fmupd p h (hooks (wd s))\<rparr>) (pool(p := []))" by blast
  obtain q :: "addr spscq" where q: "stailq_new_lf_spsc (Some 1) None = Ok q" "spsc_rep q []"
    using spsc_new_rep by blast
  define d where "d = fresh_addr (arrays (wd s))"
  define h1 where "h1 = h\<lparr>data := Some d, udata := (udata h)[UD_CORE_SYSPTR := sysptr s, UD_CORE_NUM := i]\<rparr>"
  define w1 where "w1 = (wd s)\<lparr>hooks := fmupd p h (hooks (wd s))\<rparr>"
  define w2 where "w2 = w1\<lparr>arrays := fmupd d array_new (arrays w1), hooks := fmupd p h1 (hooks w1)\<rparr>"
  have "world_ok w2 (pool(p := []))"
    unfolding w2_def by (rule world_ok_new_array [OF h(4) [folded w1_def], where h = h])
      (auto simp: h1_def w1_def d_def)
  moreover have "hooks w2 = fmupd p h1 (hooks (wd s))" "epoll w2 = epoll (wd s)" "fds w2 = fds (wd s)"
    by (simp_all add: w2_def w1_def)
  moreover have "init_worker True i s = Ok (s\<lparr>wd := w2, wq := wq s @ [q], wsem := wsem s @ [0],
      wstate := wstate s @ [W_Idle], wself := wself s @ [p]\<rparr>)"
    using h(1) q(1) by (simp add: init_worker_def d_def [symmetric] w2_def w1_def h1_def Let_def)
  ultimately show ?thesis
    using assms p h(2,3) q(2)
    by (auto simp: init_ok_def h1_def nth_append replicate_append_same less_Suc_eq)
qed

lemma init_workers_ok:
  "init_ok i s \<Longrightarrow> i + n \<le> length gots \<Longrightarrow> (\<And>j. j < length gots \<Longrightarrow> gots ! j) \<Longrightarrow>
     \<exists>t. init_workers n gots i s = Ok t \<and> init_ok (i + n) t \<and> nworkers t = nworkers s \<and>
       fds (wd t) = fds (wd s)"
proof (induction n arbitrary: i s)
  case 0
  then show ?case by simp
next
  case (Suc n)
  from init_worker_ok [OF Suc.prems(1)] obtain t where
    t: "init_worker True i s = Ok t" "init_ok (Suc i) t" "nworkers t = nworkers s" "fds (wd t) = fds (wd s)"
    by blast
  from Suc.IH [OF t(2)] Suc.prems(2,3) obtain u where
    "init_workers n gots (Suc i) t = Ok u" "init_ok (Suc i + n) u" "nworkers u = nworkers t"
      "fds (wd u) = fds (wd t)" by auto
  with t Suc.prems(2,3) show ?case by auto
qed

lemma init_ok_inv:
  assumes "init_ok n s" and "nworkers s = n" and "0 < n"
  shows "srv_inv_at s (replicate n []) \<and> (\<forall>p x. x < n \<longrightarrow> load s (replicate n []) p x = 0)"
proof -
  have ld: "load s (replicate n []) p x = 0" if "x < n" for p x
    using that assms(1) by (simp add: load_def in_hand_of_def init_ok_def)
  have hld: "held s (replicate n []) p = count_list (wself s) p" for p
    using ld assms(2) by (simp add: held_def)
  have "distinct xs \<Longrightarrow> count_list xs p = (if p \<in> set xs then 1 else 0)" for xs and p :: addr
    by (induction xs) (auto simp: count_list_0_iff)
  then have cnt: "count_list (wself s) p = (if p |\<in>| fmdom (hooks (wd s)) then 1 else 0)" for p
    using assms(1) by (simp add: init_ok_def)
  have "refs_ok (wd s) (held s (replicate n []))"
    using assms(1) by (auto simp: refs_ok_def hld cnt registered_def init_ok_def fmdomI fmlookup_dom_iff split: if_splits)
  then have "sys_ok (wd s) (held s (replicate n []))"
    using assms(1) by (auto simp: sys_ok_def init_ok_def epoll_ok_def)
  with assms ld show ?thesis
    by (auto simp: srv_inv_at_def init_ok_def events_ok_def)
qed

lemma ayubd_init_inv:
  assumes n: "int_of_value (fst (array_get cfg (cstr ''cpu_core''))) = int n" "0 < n"
    and "n \<le> length gots" and "\<And>j. j < length gots \<Longrightarrow> gots ! j"
    and w: "hooks w = fmempty" "epoll w = fmempty"
  shows "\<exists>s. ayubd_init sp gots cfg w = Ok s \<and> srv_inv_at s (replicate n []) \<and> nworkers s = n \<and>
     fds (wd s) = fds w \<and> pending s = [] \<and> (\<forall>p x. x < n \<longrightarrow> load s (replicate n []) p x = 0)"
proof -
  let ?ne = "int_of_value (fst (array_get cfg (cstr ''open_max'')))"
  define s0 where "s0 = \<lparr>wd = w, nworkers = n, wq = [], wsem = [], wstate = [], wself = [], pending = [],
     nevents = ?ne, symtbl = (replicate SYMTBLSZ 0)[NR_SYS_NWORKERS := n, NR_SYS_NEVENTS := nat ?ne,
     NR_SYS_SYSPTR := sp], sysptr = sp\<rparr>"
  have "init_ok 0 s0" using w by (auto simp: init_ok_def s0_def world_ok_def)
  from init_workers_ok [OF this, of n gots] assms(3,4) obtain s where
    "init_workers n gots 0 s0 = Ok s" "init_ok n s" "nworkers s = n" "fds (wd s) = fds w"
    by (auto simp: s0_def)
  moreover from this(2) have "pending s = []" by (simp add: init_ok_def)
  ultimately show ?thesis
    using init_ok_inv [of n s] n by (simp add: ayubd_init_def s0_def Let_def)
qed

end
