(* ===== verification/Listener.thy ===== *)
theory Listener
  imports Sockets
begin

text \<open>
  Opening listening sockets: \<open>ioqueue_socket_prepare\<close> and \<open>ioqueue_socket_deploy\<close> of
  \<open>src/ioqueue_socket.c\<close>. The resolver, the kernel's answers and the strings that pointers in the
  argument array lead to are parameters; so is the number of usable bytes \<open>realloc\<close> gives for a
  request, which decides what becomes of the descriptor array.
\<close>

section \<open>Choosing the address\<close>

record hints =
  ai_flags :: u32
  ai_family :: int
  ai_socktype :: int

record addrinfo =
  rp_family :: int
  rp_socktype :: int
  rp_protocol :: int

definition AF_UNSPEC :: int where "AF_UNSPEC = 0"
definition AF_UNIX :: int where "AF_UNIX = 1"
definition AF_INET :: int where "AF_INET = 2"
definition AF_INET6 :: int where "AF_INET6 = 10"
definition SOCK_STREAM :: int where "SOCK_STREAM = 1"
definition SOCK_DGRAM :: int where "SOCK_DGRAM = 2"
definition AI_PASSIVE :: u32 where "AI_PASSIVE = 0x0001"
definition AI_NUMERICHOST :: u32 where "AI_NUMERICHOST = 0x0004"
definition AI_NUMERICSERV :: u32 where "AI_NUMERICSERV = 0x0400"

text \<open>
  The first part, from the flags: the socket type, the family (with the removal of an old
  socket file, whose failure ends the call) and the passive flag. \<open>unlinks\<close> is false when the
  file exists and cannot be removed.
\<close>

definition prepare_hints :: "bool \<Rightarrow> ioqueue \<Rightarrow> hints option \<times> ioqueue" where
  "prepare_hints unlinks iq0 =
     (let udp = CHECKFLAG (flags iq0) IOQUEUE_SOCKET_UDP;
          iq1 = (if udp then iq0 else ioqueue_set_flags IOQUEUE_SOCKET_TCP iq0);
          ip4 = CHECKFLAG (flags iq1) IOQUEUE_SOCKET_IP4;
          ip6 = CHECKFLAG (flags iq1) IOQUEUE_SOCKET_IP6;
          ux = CHECKFLAG (flags iq1) IOQUEUE_SOCKET_UNIX;
          fam = (if ip4 then AF_INET else if ip6 then AF_INET6 else if ux then AF_UNIX else AF_UNSPEC);
          iq2 = (if ip4 \<or> ip6 \<or> ux then iq1 else ioqueue_set_flags IOQUEUE_SOCKET_IP46 iq1);
          active = CHECKFLAG (flags iq2) IOQUEUE_SOCKET_ACTIVE
      in if \<not> ip4 \<and> \<not> ip6 \<and> ux \<and> \<not> unlinks then (None, iq2)
         else (Some \<lparr>ai_flags = (if active then 0 else AI_PASSIVE), ai_family = fam,
                 ai_socktype = (if udp then SOCK_DGRAM else SOCK_STREAM)\<rparr>,
               if active then iq2 else ioqueue_set_flags IOQUEUE_SOCKET_PASSIVE iq2))"

text \<open>The candidates: the Unix address itself, or what the resolver gives.\<close>

definition prepare_candidates :: "(byte list option \<Rightarrow> byte list option \<Rightarrow> hints \<Rightarrow> addrinfo list option) \<Rightarrow>
    byte list option \<Rightarrow> byte list option \<Rightarrow> hints \<Rightarrow> ioqueue \<Rightarrow> addrinfo list option" where
  "prepare_candidates getaddrinfo node serv hi iq =
     (if CHECKFLAG (flags iq) IOQUEUE_SOCKET_UNIX
      then Some [\<lparr>rp_family = ai_family hi, rp_socktype = ai_socktype hi, rp_protocol = 0\<rparr>]
      else (let hi1 = (if seems_ip4 node = 1 \<or> seems_ip6 node = 1
                       then hi\<lparr>ai_flags := ai_flags hi OR AI_NUMERICHOST\<rparr> else hi);
                hi2 = (if ctype_digit serv = 1
                       then hi1\<lparr>ai_flags := ai_flags hi1 OR AI_NUMERICSERV\<rparr> else hi1)
            in getaddrinfo node serv hi2))"

section \<open>Opening the sockets\<close>

text \<open>
  The kernel's answers for one candidate: the descriptor of \<open>socket\<close> or -1, whether \<open>bind\<close>
  succeeds, whether \<open>realloc\<close> does.
\<close>

record sock_ans =
  s_fd :: int
  s_bind :: bool
  s_mem :: bool

text \<open>
  \<open>ptr = DO_REALLOC(iq->fd, iq->fdlen+1); iq->fd[iq->fdlen] = sockfd;\<close> asks for \<open>fdlen+1\<close> bytes and
  stores 4 bytes at offset \<open>4*fdlen\<close>.
\<close>

definition iq_push_fd :: "(nat \<Rightarrow> nat) \<Rightarrow> int \<Rightarrow> ioqueue \<Rightarrow> ioqueue res" where
  "iq_push_fd usable f iq =
     (let fdlen = length (iqfd iq); room = usable (fdlen + 1) in
      if 4 * fdlen + 4 \<le> room then Ok (iq\<lparr>fdroom := room, iqfd := iqfd iq @ [f]\<rparr>)
      else Fault OutOfBounds)"

fun prepare_loop :: "(nat \<Rightarrow> nat) \<Rightarrow> sock_ans list \<Rightarrow> ioqueue \<Rightarrow> world \<Rightarrow> (ioqueue \<times> world) res" where
  "prepare_loop usable [] iq w = Ok (iq, w)"
| "prepare_loop usable (a # as) iq w =
     (if s_fd a = -1 then prepare_loop usable as iq w
      else (let w1 = w\<lparr>fds := finsert (s_fd a) (fds w)\<rparr> in
            if CHECKFLAG (flags iq) IOQUEUE_SOCKET_PASSIVE \<and> \<not> s_bind a
            then prepare_loop usable as iq (do_close (s_fd a) w1)
            else if s_mem a
            then res_bind (iq_push_fd usable (s_fd a) iq) (\<lambda>iq1. prepare_loop usable as iq1 w1)
            else prepare_loop usable as iq (do_close (s_fd a) w1)))"

text \<open>The whole call; \<open>ans\<close> gives the kernel's answers per candidate.\<close>

definition ioqueue_socket_prepare :: "(nat \<Rightarrow> nat) \<Rightarrow> (value_t \<Rightarrow> byte list option) \<Rightarrow>
    (byte list option \<Rightarrow> byte list option \<Rightarrow> hints \<Rightarrow> addrinfo list option) \<Rightarrow> bool \<Rightarrow>
    (addrinfo list \<Rightarrow> sock_ans list) \<Rightarrow> ioqueue \<Rightarrow> ptr \<Rightarrow> (int \<times> ioqueue) act" where
  "ioqueue_socket_prepare usable str getaddrinfo unlinks ans iq args =
     andthen (assert_that (args \<noteq> NULL)) (\<lambda>_.
     andthen (array_aget args (cstr ''node'')) (\<lambda>node.
     andthen (array_aget args (cstr ''serv'')) (\<lambda>serv.
       (case prepare_hints unlinks iq of
          (None, iq1) \<Rightarrow> return (-1, iq1)
        | (Some hi, iq1) \<Rightarrow>
            (case prepare_candidates getaddrinfo (str node) (str serv) hi iq1 of
               None \<Rightarrow> return (-1, iq1)
             | Some rps \<Rightarrow> (\<lambda>w. res_bind (prepare_loop usable (ans rps) iq1 w) (\<lambda>(iq2, w1).
                 Ok ((0, iq2), w1))))))))"

section \<open>Registering them\<close>

text \<open>The routes of the argument array are put into the user data of the hook.\<close>

definition deploy_route :: "addr \<Rightarrow> addr \<Rightarrow> world \<Rightarrow> world res" where
  "deploy_route p args w =
     res_bind (deref (arrays w) (Some args)) (\<lambda>ar.
       if ahaskey ar ''route''
       then res_bind (array_aget (Some args) (cstr ''route'') w) (\<lambda>(v, w1).
              hook_write p (\<lambda>h. h\<lparr>udata := (udata h)[UD_MOD_HTTP_ROUTE := unat v]\<rparr>) w1)
       else Ok w)"

text \<open>One socket: \<open>listens\<close> and \<open>got\<close> answer \<open>listen\<close> and the \<open>calloc\<close> of the hook.\<close>

definition deploy_one :: "bool \<Rightarrow> bool \<Rightarrow> ioqueue \<Rightarrow> addr \<Rightarrow> nat \<Rightarrow> int \<Rightarrow> world \<Rightarrow> (int \<times> world) res" where
  "deploy_one listens got iq args sys sockfd w =
     (if CHECKFLAG (flags iq) IOQUEUE_SOCKET_PASSIVE \<and> \<not> listens then Ok (-1, w)
      else (let rf = (if CHECKFLAG (flags iq) IOQUEUE_SOCKET_PASSIVE \<and>
                         \<not> CHECKFLAG (flags iq) IOQUEUE_SOCKET_TCP
                      then Ioqueue_socket_on_data else Ioqueue_socket_on_connect);
                (hp, w1) = hook_new got w in
            case hp of None \<Rightarrow> Ok (-1, w1)
            | Some p \<Rightarrow>
                res_bind (hook_write p (\<lambda>h. h\<lparr>fd := sockfd, ready := Some rf, data := Some args,
                    udata := (udata h)[UD_CORE_SYSPTR := sys]\<rparr>) w1) (\<lambda>w2.
                res_bind (deploy_route p args w2) (\<lambda>w3.
                res_bind (hook_write p (\<lambda>h. h\<lparr>ev_events :=
                    (if CHECKFLAG (flags iq) IOQUEUE_SOCKET_PASSIVE then EPOLLIN
                     else EPOLLIN OR EPOLLOUT)\<rparr>) w3) (\<lambda>w4.
                  Ok (0, EVQ_ADD sockfd p w4))))))"

fun deploy_loop :: "(bool \<times> bool) list \<Rightarrow> ioqueue \<Rightarrow> addr \<Rightarrow> nat \<Rightarrow> int list \<Rightarrow> world \<Rightarrow> (int \<times> world) res" where
  "deploy_loop as iq args sys [] w = Ok (0, w)"
| "deploy_loop as iq args sys (f # fs) w =
     (let (listens, got) = (case as of [] \<Rightarrow> (True, True) | a # _ \<Rightarrow> a) in
      res_bind (deploy_one listens got iq args sys f w) (\<lambda>(ret, w1).
        if ret \<noteq> 0 then Ok (ret, w1) else deploy_loop (tl as) iq args sys fs w1))"

definition ioqueue_socket_deploy :: "(bool \<times> bool) list \<Rightarrow> ioqueue \<Rightarrow> addr \<Rightarrow> world \<Rightarrow> (int \<times> world) res" where
  "ioqueue_socket_deploy as iq args w =
     res_bind (array_aget (Some args) (cstr ''sys'') w) (\<lambda>(sys, w1).
     res_bind (c_assert (sys \<noteq> 0)) (\<lambda>_.
       deploy_loop as iq args (unat sys) (iqfd iq) w1))"

section \<open>Descriptors of prepared sockets\<close>

text \<open>What the kernel promises of \<open>socket\<close>: -1 or a descriptor that is not open.\<close>

fun socks_ok :: "int fset \<Rightarrow> sock_ans list \<Rightarrow> bool" where
  "socks_ok F [] = True"
| "socks_ok F (a # as) =
     (if s_fd a = -1 then socks_ok F as
      else 0 \<le> s_fd a \<and> s_fd a |\<notin>| F \<and> socks_ok F as \<and> socks_ok (finsert (s_fd a) F) as)"

text \<open>
  The same world up to descriptors: closing a descriptor that is not registered leaves
  everything as it was before it was opened.
\<close>

lemma open_close:
  assumes "f |\<notin>| fds w" and "f |\<notin>| fmdom (epoll w)"
  shows "do_close f (w\<lparr>fds := finsert f (fds w)\<rparr>) = w"
proof -
  have "fmdrop f (epoll w) = epoll w"
    using assms(2) by (intro fmap_ext) (metis fmdom_notD fmlookup_drop)
  with assms(1) show ?thesis by (simp add: do_close_def)
qed

lemma prepare_loop_fds:
  "prepare_loop usable as iq w = Ok (iq', w') \<Longrightarrow> socks_ok (fds w) as \<Longrightarrow> fset (fmdom (epoll w)) \<subseteq> fset (fds w) \<Longrightarrow>
     \<exists>new. iqfd iq' = iqfd iq @ new \<and> distinct new \<and> set new \<inter> fset (fds w) = {} \<and> (\<forall>f\<in>set new. 0 \<le> f) \<and>
       w' = w\<lparr>fds := fset_of_list new |\<union>| fds w\<rparr> \<and> flags iq' = flags iq"
proof (induction usable as iq w rule: prepare_loop.induct)
  case (1 usable iq w)
  then show ?case by auto
next
  case (2 usable a as iq w)
  let ?f = "s_fd a" and ?w = "w\<lparr>fds := finsert (s_fd a) (fds w)\<rparr>"
  consider "?f = -1" | "?f \<noteq> -1" "prepare_loop usable as iq (do_close ?f ?w) = Ok (iq', w')"
      "CHECKFLAG (flags iq) IOQUEUE_SOCKET_PASSIVE \<and> \<not> s_bind a \<or> \<not> s_mem a"
    | iq1 where "?f \<noteq> -1" "iq_push_fd usable ?f iq = Ok iq1" "prepare_loop usable as iq1 ?w = Ok (iq', w')"
      "\<not> (CHECKFLAG (flags iq) IOQUEUE_SOCKET_PASSIVE \<and> \<not> s_bind a)" "s_mem a"
    using 2(5) by (auto simp: Let_def res_simps split: if_splits)
  then show ?case
  proof cases
    case 1
    with 2 show ?thesis by simp
  next
    case c: 2
    with 2(6,7) have "?f |\<notin>| fmdom (epoll w)" "?f |\<notin>| fds w" "socks_ok (fds w) as" by auto
    then have w: "do_close ?f ?w = w" by (intro open_close)
    from c(3) show ?thesis
    proof
      assume "CHECKFLAG (flags iq) IOQUEUE_SOCKET_PASSIVE \<and> \<not> s_bind a"
      with 2(2) [OF c(1) refl] c(2) w 2(6,7) c(1) show ?thesis by auto
    next
      assume "\<not> s_mem a"
      show ?thesis
      proof (cases "CHECKFLAG (flags iq) IOQUEUE_SOCKET_PASSIVE \<and> \<not> s_bind a")
        case True
        with 2(2) [OF c(1) refl] c(2) w 2(6,7) c(1) show ?thesis by auto
      next
        case False
        with 2(4) [OF c(1) refl False \<open>\<not> s_mem a\<close>] c(2) w 2(6,7) c(1) show ?thesis by auto
      qed
    qed
  next
    case c: 3
    have ok: "0 \<le> ?f" "?f |\<notin>| fds w" "socks_ok (fds ?w) as" using 2(6) c(1) by (auto split: if_splits)
    have iq1: "iqfd iq1 = iqfd iq @ [?f]" "flags iq1 = flags iq"
      using c(2) by (auto simp: iq_push_fd_def Let_def split: if_splits)
    have "fset (fmdom (epoll ?w)) \<subseteq> fset (fds ?w)" using 2(7) by auto
    from 2(3) [OF c(1) refl c(4,5,2,3) ok(3) this] obtain new where
      "iqfd iq' = iqfd iq1 @ new" "distinct new" "set new \<inter> fset (fds ?w) = {}" "\<forall>f\<in>set new. 0 \<le> f"
      "w' = ?w\<lparr>fds := fset_of_list new |\<union>| fds ?w\<rparr>" "flags iq' = flags iq1" by blast
    with iq1 ok show ?thesis by (intro exI [of _ "?f # new"]) auto
  qed
qed

lemma prepare_loop_room:
  assumes "\<And>n. 24 \<le> usable n"
  shows "length (iqfd iq) + length as \<le> 6 \<Longrightarrow> is_ok (prepare_loop usable as iq w)"
proof (induction as arbitrary: iq w)
  case Nil
  then show ?case by simp
next
  case (Cons a as)
  have "4 * length (iqfd iq) + 4 \<le> usable (length (iqfd iq) + 1)"
    using Cons.prems assms [of "length (iqfd iq) + 1"] by simp
  then have "iq_push_fd usable (s_fd a) iq =
      Ok (iq\<lparr>fdroom := usable (length (iqfd iq) + 1), iqfd := iqfd iq @ [s_fd a]\<rparr>)"
    by (simp add: iq_push_fd_def)
  with Cons show ?case by (simp add: Let_def)
qed

section \<open>Deployed sockets\<close>

text \<open>The argument array of a listener: allocated, and shared by listening hooks only.\<close>

definition listener_array :: "world \<Rightarrow> addr \<Rightarrow> bool" where
  "listener_array w a \<longleftrightarrow> a |\<in>| fmdom (arrays w) \<and>
     (\<forall>q k. fmlookup (hooks w) q = Some k \<longrightarrow> data k = Some a \<longrightarrow>
        ready k = Some Ioqueue_socket_on_connect)"

lemma world_ok_array_write:
  "world_ok w pool \<Longrightarrow> a |\<in>| fmdom (arrays w) \<Longrightarrow> world_ok (w\<lparr>arrays := fmupd a ar (arrays w)\<rparr>) pool"
  by (auto simp: world_ok_def own_ok_def)

lemma sys_ok_array_write:
  assumes "sys_ok w ext" and "a |\<in>| fmdom (arrays w)"
  shows "sys_ok (w\<lparr>arrays := fmupd a ar (arrays w)\<rparr>) ext"
proof -
  have "registered (w\<lparr>arrays := fmupd a ar (arrays w)\<rparr>) = registered w"
    by (intro ext) (simp add: registered_def)
  with assms show ?thesis
    by (auto simp: sys_ok_def refs_ok_def epoll_ok_def dest: world_ok_array_write)
qed

definition tcp_passive :: "ioqueue \<Rightarrow> bool" where
  "tcp_passive iq \<longleftrightarrow> CHECKFLAG (flags iq) IOQUEUE_SOCKET_PASSIVE \<and> CHECKFLAG (flags iq) IOQUEUE_SOCKET_TCP"

lemma deploy_route_ok:
  assumes ok: "world_ok w pool" and h: "fmlookup (hooks w) p = Some h" and a: "args |\<in>| fmdom (arrays w)"
  shows "\<exists>w' u. deploy_route p args w = Ok w' \<and> Ex (world_ok w') \<and> fds w' = fds w \<and> epoll w' = epoll w \<and>
     fmdom (arrays w') = fmdom (arrays w) \<and> hooks w' = fmupd p (h\<lparr>udata := u\<rparr>) (hooks w) \<and>
     u ! UD_CORE_SYSPTR = udata h ! UD_CORE_SYSPTR"
proof -
  obtain ar where ar: "fmlookup (arrays w) args = Some ar" using a by (auto simp: fmlookup_dom_iff)
  from array_aget_Ok [OF a, of "cstr ''route''"] obtain v ar' where
    v: "array_aget (Some args) (cstr ''route'') w = Ok (v, w\<lparr>arrays := fmupd args ar' (arrays w)\<rparr>)" by blast
  define w1 where "w1 = w\<lparr>arrays := fmupd args ar' (arrays w)\<rparr>"
  define u where "u = (udata h)[UD_MOD_HTTP_ROUTE := unat v]"
  have ok1: "world_ok w1 pool" unfolding w1_def by (rule world_ok_array_write [OF ok a])
  have ok2: "world_ok (w1\<lparr>hooks := fmupd p (h\<lparr>udata := u\<rparr>) (hooks w1)\<rparr>) pool"
    using h by (intro world_ok_upd [OF ok1, where h = h]) (simp_all add: w1_def)
  show ?thesis
  proof (cases "ahaskey ar ''route''")
    case True
    have "deploy_route p args w = Ok (w1\<lparr>hooks := fmupd p (h\<lparr>udata := u\<rparr>) (hooks w1)\<rparr>)"
      using True ar v h by (simp add: deploy_route_def w1_def u_def)
    moreover have "u ! UD_CORE_SYSPTR = udata h ! UD_CORE_SYSPTR"
      by (simp add: u_def UD_CORE_SYSPTR_def UD_MOD_HTTP_ROUTE_def)
    moreover have "fmdom (arrays w1) = fmdom (arrays w)" using a by (auto simp: w1_def)
    ultimately show ?thesis using ok2 by (auto simp: w1_def)
  next
    case False
    have "fmupd p (h\<lparr>udata := udata h\<rparr>) (hooks w) = hooks w" using h by (intro fmap_ext) auto
    with False ar ok show ?thesis
      by (intro exI [of _ w] exI [of _ "udata h"]) (auto simp: deploy_route_def)
  qed
qed

lemma deploy_one_sys:
  assumes ok: "sys_ok w ext" and arr: "listener_array w args" and iq: "tcp_passive iq" and sys: "sys \<noteq> 0"
    and f: "f |\<in>| fds w" "f |\<notin>| fmdom (epoll w)" "0 \<le> f"
  shows "\<exists>w'. deploy_one True True iq args sys f w = Ok (0, w') \<and> sys_ok w' ext \<and> listener_array w' args \<and>
     fds w' = fds w \<and> fmdom (epoll w') = finsert f (fmdom (epoll w))"
proof -
  from ok obtain pool where pool: "world_ok w pool" and refs: "refs_ok w ext" and ep: "epoll_ok w"
    by (auto simp: sys_ok_def)
  define p where "p = fresh_addr (hooks w)"
  have p: "fmlookup (hooks w) p = None" by (simp add: p_def)
  from hook_new_ok [OF pool p_def] obtain h where
    h: "hook_new True w = (Some p, w\<lparr>hooks := fmupd p h (hooks w)\<rparr>)" "refcnt h = 1"
      "length (udata h) = UDATASZ" "world_ok (w\<lparr>hooks := fmupd p h (hooks w)\<rparr>) (pool(p := []))" by blast
  define h2 where "h2 = h\<lparr>fd := f, ready := Some Ioqueue_socket_on_connect, data := Some args,
    udata := (udata h)[UD_CORE_SYSPTR := sys]\<rparr>"
  define w2 where "w2 = w\<lparr>hooks := fmupd p h2 (hooks w)\<rparr>"
  have "world_ok ((w\<lparr>hooks := fmupd p h (hooks w)\<rparr>)\<lparr>hooks := fmupd p h2 (hooks (w\<lparr>hooks := fmupd p h (hooks w)\<rparr>))\<rparr>)
      (pool(p := []))"
    using arr by (intro world_ok_shared_array [OF h(4), where h = h and d = args])
      (auto simp: h2_def listener_array_def)
  then have ok2: "world_ok w2 (pool(p := []))" by (simp add: w2_def)
  have a2: "args |\<in>| fmdom (arrays w2)" "fmlookup (hooks w2) p = Some h2"
    using arr by (simp_all add: listener_array_def w2_def)
  from deploy_route_ok [OF ok2 a2(2,1)] obtain w3 u pool3 where
    w3: "deploy_route p args w2 = Ok w3" "world_ok w3 pool3" "fds w3 = fds w" "epoll w3 = epoll w"
      "fmdom (arrays w3) = fmdom (arrays w)" "hooks w3 = fmupd p (h2\<lparr>udata := u\<rparr>) (hooks w)"
      "u ! UD_CORE_SYSPTR = udata h2 ! UD_CORE_SYSPTR"
    by (auto simp: w2_def)
  define h4 where "h4 = h2\<lparr>udata := u, ev_events := EPOLLIN\<rparr>"
  define w4 where "w4 = w3\<lparr>hooks := fmupd p h4 (hooks w3)\<rparr>"
  have ok4: "world_ok w4 pool3"
    unfolding w4_def using w3(2,6) by (intro world_ok_upd [where h = "h2\<lparr>udata := u\<rparr>"]) (auto simp: h4_def)
  have u: "u ! UD_CORE_SYSPTR \<noteq> 0"
    using w3(7) h(3) sys by (simp add: h2_def UDATASZ_def UD_CORE_SYSPTR_def)
  have "deploy_one True True iq args sys f w = Ok (0, EVQ_ADD f p w4)"
    using h(1) w3(1,6) iq
    by (simp add: deploy_one_def tcp_passive_def w2_def h2_def w4_def h4_def Let_def)
  moreover have "EVQ_ADD f p w4 = w4\<lparr>epoll := fmupd f p (epoll w)\<rparr>"
    using f w3(3,4) by (simp add: EVQ_ADD_def w4_def)
  moreover have "sys_ok (w4\<lparr>epoll := fmupd f p (epoll w)\<rparr>) ext"
    using ok4 w3(3,6) f h(2) u
    by (intro sys_ok_new_hook [OF refs ep p f(2,3), where h = h4, THEN conjunct1])
      (auto simp: w4_def h4_def h2_def)
  ultimately show ?thesis
    using arr p w3 by (auto simp: listener_array_def w4_def h4_def h2_def)
qed

lemma deploy_loop_sys:
  assumes "sys_ok w ext" and "listener_array w args" and "tcp_passive iq" and "sys \<noteq> 0"
    and "set fs \<subseteq> fset (fds w)" and "set fs \<inter> fset (fmdom (epoll w)) = {}" and "distinct fs"
    and "\<forall>f\<in>set fs. 0 \<le> f" and "\<forall>a\<in>set as. a = (True, True)"
  shows "\<exists>w'. deploy_loop as iq args sys fs w = Ok (0, w') \<and> sys_ok w' ext \<and> listener_array w' args \<and>
     fds w' = fds w \<and> fset (fmdom (epoll w')) = set fs \<union> fset (fmdom (epoll w))"
  using assms
proof (induction fs arbitrary: w as)
  case Nil
  then show ?case by simp
next
  case (Cons f fs)
  have hd: "(case as of [] \<Rightarrow> (True, True) | a # _ \<Rightarrow> a) = (True, True)" using Cons.prems(9) by (cases as) auto
  from deploy_one_sys [OF Cons.prems(1-4), of f] Cons.prems(5-8) obtain w1 where
    w1: "deploy_one True True iq args sys f w = Ok (0, w1)" "sys_ok w1 ext" "listener_array w1 args"
      "fds w1 = fds w" "fmdom (epoll w1) = finsert f (fmdom (epoll w))" by auto
  have "\<forall>a\<in>set (tl as). a = (True, True)" using Cons.prems(9) by (cases as) auto
  with Cons.IH [OF w1(2,3) Cons.prems(3,4), of "tl as"] Cons.prems w1(4,5) obtain w' where
    "deploy_loop (tl as) iq args sys fs w1 = Ok (0, w')" "sys_ok w' ext" "listener_array w' args"
    "fds w' = fds w1" "fset (fmdom (epoll w')) = set fs \<union> fset (fmdom (epoll w1))" by auto
  with hd w1 show ?case by auto
qed

section \<open>Properties\<close>

definition demo_world :: world where
  "demo_world = \<lparr>hooks = fmempty, mem = fmempty, arrays = fmempty, fds = {|0, 1, 2|}, epoll = fmempty\<rparr>"



text \<open>
  The descriptor array is too small: it is reallocated to \<open>fdlen+1\<close> bytes instead of \<open>fdlen+1\<close>
  integers, so with exactly that many usable bytes the first socket that is bound is stored
  outside of it; with the 24 bytes that common allocators give, six sockets fit.
\<close>

theorem prepare_realloc_too_small:
  "(s_fd a \<noteq> -1 \<and> s_bind a \<and> s_mem a \<longrightarrow> prepare_loop (\<lambda>n. n) (a # as) iq w = Fault OutOfBounds) \<and>
   ((\<forall>n. 24 \<le> usable n) \<and> length (iqfd iq) + length bs \<le> 6 \<longrightarrow> is_ok (prepare_loop usable bs iq w))"
  using prepare_loop_room [of usable iq bs w] by (auto simp: iq_push_fd_def Let_def)

theorem prepare_realloc_too_small_witness:
  "prepare_loop (\<lambda>n. n) [\<lparr>s_fd = 3, s_bind = True, s_mem = True\<rparr>] (ioqueue_new 0) demo_world =
     Fault OutOfBounds \<and>
   is_ok (prepare_loop (\<lambda>n. max n 24) [\<lparr>s_fd = 3, s_bind = True, s_mem = True\<rparr>] (ioqueue_new 0) demo_world)"
  using prepare_realloc_too_small [of "\<lparr>s_fd = 3, s_bind = True, s_mem = True\<rparr>" "[]" "ioqueue_new 0" demo_world
      "\<lambda>n. max n 24" "[\<lparr>s_fd = 3, s_bind = True, s_mem = True\<rparr>]"]
  by (simp add: ioqueue_new_def)

text \<open>
  On a store that satisfies the hook invariant, deploying prepared TCP sockets registers
  each of them with a listening hook, all sharing the argument array, and keeps the
  invariant.
\<close>

theorem deploy_registers_listeners:
  assumes "sys_ok w ext" and "listener_array w args" and "tcp_passive iq" and "sys \<noteq> 0"
    and "set fs \<subseteq> fset (fds w)" and "set fs \<inter> fset (fmdom (epoll w)) = {}" and "distinct fs"
    and "\<forall>f\<in>set fs. 0 \<le> f" and "\<forall>a\<in>set as. a = (True, True)"
  shows "\<exists>w'. deploy_loop as iq args sys fs w = Ok (0, w') \<and> sys_ok w' ext \<and> listener_array w' args \<and>
     fds w' = fds w \<and> fset (fmdom (epoll w')) = set fs \<union> fset (fmdom (epoll w))"
  using assms by (rule deploy_loop_sys)

definition demo_args_world :: world where
  "demo_args_world = demo_world\<lparr>arrays := fmap_of_list [(1, array_new)], fds := {|0, 1, 2, 4|}\<rparr>"

theorem deploy_registers_listeners_witness:
  "\<exists>w'. deploy_loop [] \<lparr>flags = IOQUEUE_SOCKET_PASSIVE OR IOQUEUE_SOCKET_TCP, fdroom = 24, iqfd = [4]\<rparr> 1 7 [4]
       demo_args_world = Ok (0, w') \<and> sys_ok w' (\<lambda>_. 0) \<and> listener_array w' 1 \<and>
     fds w' = fds demo_args_world \<and>
     fset (fmdom (epoll w')) = set [4] \<union> fset (fmdom (epoll demo_args_world))"
  by (rule deploy_registers_listeners)
    (auto simp: sys_ok_def world_ok_def refs_ok_def epoll_ok_def listener_array_def tcp_passive_def
      demo_args_world_def demo_world_def CHECKFLAG_def ioqueue_flags fmap_of_list_simps)

text \<open>
  A datagram socket cannot be listened on: when \<open>listen\<close> fails on the first prepared socket, as
  it does for UDP, deployment ends with -1 and registers nothing, although the code goes on to
  choose a handler for datagram sockets.
\<close>

theorem deploy_needs_listen:
  "CHECKFLAG (flags iq) IOQUEUE_SOCKET_PASSIVE \<Longrightarrow>
     deploy_loop ((False, got) # as) iq args sys (f # fs) w = Ok (-1, w)"
  by (simp add: deploy_one_def)

theorem deploy_needs_listen_witness:
  "deploy_loop [(False, True)] (ioqueue_set_flags IOQUEUE_SOCKET_UDP (ioqueue_new IOQUEUE_SOCKET_PASSIVE)) 1 7 [4]
     demo_args_world = Ok (-1, demo_args_world)"
  by (rule deploy_needs_listen)
    (simp add: ioqueue_set_flags_def ioqueue_new_def CHECKFLAG_def ioqueue_flags)

end
