(* ===== verification/Http.thy ===== *)
theory Http
  imports Server Listener
begin

text \<open>
  The HTTP module, \<open>src/modules/http/mod_http.c\<close>: the callbacks of the parser, the two route
  actions, the data handler that builds the reply, and the start and stop of the module. The
  parser itself is the library \<open>http_parser\<close>, which is not part of the repository: what it
  reports is an argument.
\<close>

section \<open>Environment\<close>

text \<open>
  The library's answers and the kernel's, and the addresses of the functions the module
  stores into arrays. \<open>e_execute\<close> gives the places in the buffer that the parser reports to
  \<open>on_url\<close>; \<open>e_parse_url\<close> the place of the path and of the query in a URL.
\<close>

record http_env =
  e_execute :: "byte list \<Rightarrow> (nat \<times> nat) list"
  e_parse_url :: "byte list \<Rightarrow> ((nat \<times> nat) \<times> (nat \<times> nat)) option"
  e_status :: "int \<Rightarrow> byte list"
  e_rnd :: int
  e_recv :: "byte list io_ans list"
  e_send :: "nat io_ans list"
  e_captcha_get :: value_t
  e_captcha_verify :: value_t
  e_hook_on_data_test :: value_t

definition UD_CORE_NREAD :: nat where "UD_CORE_NREAD = 2"
definition UD_RESERVED :: nat where "UD_RESERVED = 8"
definition UD_MOD_HS :: nat where "UD_MOD_HS = UD_RESERVED + 1"
definition UD_MOD_HP :: nat where "UD_MOD_HP = UD_RESERVED + 2"
definition UD_MOD_REQ :: nat where "UD_MOD_REQ = UD_RESERVED + 3"
definition UD_MOD_RESP :: nat where "UD_MOD_RESP = UD_RESERVED + 4"

definition D_MOD_REQ_URI :: nat where "D_MOD_REQ_URI = 0"
definition D_MOD_REQ_ULEN :: nat where "D_MOD_REQ_ULEN = 1"
definition D_MOD_REQ_PATH :: nat where "D_MOD_REQ_PATH = 2"
definition D_MOD_REQ_PLEN :: nat where "D_MOD_REQ_PLEN = 3"
definition D_MOD_REQ_QUERY :: nat where "D_MOD_REQ_QUERY = 4"
definition D_MOD_REQ_QLEN :: nat where "D_MOD_REQ_QLEN = 5"
definition D_MOD_REQ_SCRATCH :: nat where "D_MOD_REQ_SCRATCH = 8"
definition D_MOD_REQ_HOOKPTR :: nat where "D_MOD_REQ_HOOKPTR = 9"
definition D_MOD_REQ_SZ :: nat where "D_MOD_REQ_SZ = 10"
definition D_MOD_RESP_CODE :: nat where "D_MOD_RESP_CODE = 0"
definition D_MOD_RESP_STR :: nat where "D_MOD_RESP_STR = 1"
definition D_MOD_RESP_LEN :: nat where "D_MOD_RESP_LEN = 2"
definition D_MOD_RESP_SCRATCH :: nat where "D_MOD_RESP_SCRATCH = 3"
definition D_MOD_RESP_SZ :: nat where "D_MOD_RESP_SZ = 4"

lemmas http_indexes = UD_CORE_NREAD_def UD_RESERVED_def UD_MOD_HS_def UD_MOD_HP_def UD_MOD_REQ_def
  UD_MOD_RESP_def D_MOD_REQ_URI_def D_MOD_REQ_ULEN_def D_MOD_REQ_PATH_def D_MOD_REQ_PLEN_def
  D_MOD_REQ_QUERY_def D_MOD_REQ_QLEN_def D_MOD_REQ_SCRATCH_def D_MOD_REQ_HOOKPTR_def D_MOD_REQ_SZ_def
  D_MOD_RESP_CODE_def D_MOD_RESP_STR_def D_MOD_RESP_LEN_def D_MOD_RESP_SCRATCH_def D_MOD_RESP_SZ_def

section \<open>Formatting\<close>

text \<open>Decimal numbers (\<open>%d\<close>, \<open>%ld\<close>) and the C string at the start of a block (\<open>%s\<close>).\<close>

fun digits :: "nat \<Rightarrow> byte list" where
  "digits n = (if n < 10 then [of_nat (0x30 + n)] else digits (n div 10) @ [of_nat (0x30 + n mod 10)])"

declare digits.simps [simp del]

definition show_int :: "int \<Rightarrow> byte list" where
  "show_int i = (if i < 0 then 0x2d # digits (nat (- i)) else digits (nat i))"

definition c_string :: "block \<Rightarrow> byte list" where
  "c_string b = takeWhile (\<lambda>c. c \<noteq> 0) b"

definition CRLF :: "byte list" where
  "CRLF = [0x0d, 0x0a]"

text \<open>\<open>hr_resp_iov0\<close> with its arguments.\<close>

definition hr_resp_iov0 :: "int \<Rightarrow> byte list \<Rightarrow> nat \<Rightarrow> byte list \<Rightarrow> byte list" where
  "hr_resp_iov0 code status len ctype =
     bytes_of ''HTTP/1.1 '' @ show_int code @ bytes_of '' '' @ status @ CRLF @
     bytes_of ''Server: nixtec-ws/0.9/ayub'' @ CRLF @
     bytes_of ''Content-Length: '' @ show_int (int len) @ CRLF @
     bytes_of ''Connection: keep-alive'' @ CRLF @
     bytes_of ''Content-Type: '' @ ctype @ CRLF @ CRLF"

section \<open>Callbacks and actions\<close>

definition vals_get :: "nat \<Rightarrow> nat list act" where
  "vals_get a = andthen (mem_get a) (\<lambda>b. reading (\<lambda>_. case b of Vals v \<Rightarrow> Ok v | _ \<Rightarrow> Fault UseAfterFree))"

definition vals_set :: "nat \<Rightarrow> nat \<Rightarrow> nat \<Rightarrow> unit act" where
  "vals_set a i v = andthen (vals_get a) (\<lambda>vs. mem_set a (Vals (vs[i := v])))"

text \<open>Storing bytes and a NUL at the start of a buffer, as \<open>memcpy\<close> and an assignment do.\<close>

definition put_string :: "nat \<Rightarrow> byte list \<Rightarrow> unit act" where
  "put_string a s =
     andthen (bytes_get (ptr_of a)) (\<lambda>b.
     andthen (reading (\<lambda>_. res_bind (blk_write b 0 s) (\<lambda>b1. blk_write b1 (length s) [0]))) (\<lambda>b2.
       mem_set a (Bytes b2)))"

definition on_url_cb :: "nat \<Rightarrow> byte list \<Rightarrow> int act" where
  "on_url_cb req buf =
     (let len = min (length buf) (IOV_CHUNK - 1) in
      andthen (vals_get req) (\<lambda>vs.
      andthen (put_string (vs ! D_MOD_REQ_URI) (take len buf)) (\<lambda>_.
      andthen (vals_set req D_MOD_REQ_ULEN len) (\<lambda>_. return 0))))"

text \<open>The callbacks that only return 0.\<close>

definition on_header_field_cb :: "byte list \<Rightarrow> int act" where
  "on_header_field_cb buf = return 0"

definition on_header_value_cb :: "byte list \<Rightarrow> int act" where
  "on_header_value_cb buf = return 0"

definition captcha_text :: "byte list \<Rightarrow> int \<Rightarrow> byte list" where
  "captcha_text path rnd =
     bytes_of ''PATH ['' @ path @ bytes_of ''], RND ['' @ show_int rnd @ bytes_of '']!''"

text \<open>
  The actions of the two routes: \<open>sprintf\<close> into the scratch buffer first, the bound afterwards.
\<close>

definition captcha_get :: "int \<Rightarrow> nat \<Rightarrow> nat \<Rightarrow> unit act" where
  "captcha_get rnd req resp =
     (if req \<noteq> 0 \<and> resp \<noteq> 0
      then andthen (vals_get resp) (\<lambda>rv.
           andthen (vals_get req) (\<lambda>qv.
           andthen (bytes_get (ptr_of (qv ! D_MOD_REQ_PATH))) (\<lambda>path.
           andthen (bytes_get (ptr_of (rv ! D_MOD_RESP_SCRATCH))) (\<lambda>str.
           andthen (reading (\<lambda>_. c_sprintf str 0 (captcha_text (c_string path) rnd))) (\<lambda>(n, str1).
           (let len = min n (IOV_CHUNK - 1) in
           andthen (reading (\<lambda>_. blk_write str1 len [0])) (\<lambda>str2.
           andthen (mem_set (rv ! D_MOD_RESP_SCRATCH) (Bytes str2)) (\<lambda>_.
           andthen (vals_set resp D_MOD_RESP_CODE 200) (\<lambda>_.
           andthen (vals_set resp D_MOD_RESP_STR (rv ! D_MOD_RESP_SCRATCH)) (\<lambda>_.
             vals_set resp D_MOD_RESP_LEN len))))))))))
      else return ())"

definition captcha_verify :: "int \<Rightarrow> nat \<Rightarrow> nat \<Rightarrow> unit act" where
  "captcha_verify rnd req resp =
     (if req \<noteq> 0 \<and> resp \<noteq> 0
      then andthen (vals_get resp) (\<lambda>rv.
           andthen (vals_get req) (\<lambda>qv.
           andthen (bytes_get (ptr_of (qv ! D_MOD_REQ_PATH))) (\<lambda>path.
           andthen (bytes_get (ptr_of (rv ! D_MOD_RESP_SCRATCH))) (\<lambda>str.
           andthen (reading (\<lambda>_. c_sprintf str 0 (captcha_text (c_string path) rnd))) (\<lambda>(n, str1).
           (let len = min n (IOV_CHUNK - 1) in
           andthen (reading (\<lambda>_. blk_write str1 len [0])) (\<lambda>str2.
           andthen (mem_set (rv ! D_MOD_RESP_SCRATCH) (Bytes str2)) (\<lambda>_.
           andthen (vals_set resp D_MOD_RESP_CODE 200) (\<lambda>_.
           andthen (vals_set resp D_MOD_RESP_STR (rv ! D_MOD_RESP_SCRATCH)) (\<lambda>_.
             vals_set resp D_MOD_RESP_LEN len))))))))))
      else return ())"

definition http_route_action :: "http_env \<Rightarrow> value_t \<Rightarrow> nat \<Rightarrow> nat \<Rightarrow> unit act" where
  "http_route_action env f req resp =
     (if f = e_captcha_get env then captcha_get (e_rnd env) req resp
      else if f = e_captcha_verify env then captcha_verify (e_rnd env) req resp
      else (\<lambda>w. Fault UseAfterFree))"

section \<open>The data handler\<close>

text \<open>The part of \<open>http_on_data_default\<close> that allocates what the session keeps, on its first request.\<close>

definition session_setup :: "addr \<Rightarrow> nat act" where
  "session_setup p =
     andthen (udata_get p UD_MOD_HS) (\<lambda>hs.
     andthen (if hs \<noteq> 0 then return ()
              else andthen (hook_zalloc p Opaque) (\<lambda>s. udata_set p UD_MOD_HS s)) (\<lambda>_.
     andthen (udata_get p UD_MOD_REQ) (\<lambda>r0.
     andthen (if r0 \<noteq> 0 then return r0
              else andthen (hook_zalloc p (Vals (replicate D_MOD_REQ_SZ 0))) (\<lambda>req.
                   andthen (udata_set p UD_MOD_REQ req) (\<lambda>_.
                   andthen (hook_zalloc p (Bytes (replicate IOV_CHUNK 0))) (\<lambda>u.
                   andthen (vals_set req D_MOD_REQ_URI u) (\<lambda>_.
                   andthen (hook_zalloc p (Bytes (replicate IOV_CHUNK 0))) (\<lambda>pa.
                   andthen (vals_set req D_MOD_REQ_PATH pa) (\<lambda>_.
                   andthen (hook_zalloc p (Bytes (replicate IOV_CHUNK 0))) (\<lambda>qu.
                   andthen (vals_set req D_MOD_REQ_QUERY qu) (\<lambda>_.
                   andthen (hook_zalloc p (Bytes (replicate IOV_CHUNK 0))) (\<lambda>sc.
                   andthen (vals_set req D_MOD_REQ_SCRATCH sc) (\<lambda>_.
                   andthen (vals_set req D_MOD_REQ_HOOKPTR p) (\<lambda>_. return req)))))))))))) (\<lambda>req.
     andthen (udata_get p UD_MOD_HP) (\<lambda>hp.
     andthen (if hp \<noteq> 0 then return ()
              else andthen (hook_zalloc p Opaque) (\<lambda>s. udata_set p UD_MOD_HP s)) (\<lambda>_.
       return req))))))"

text \<open>
  \<open>http_parser_execute(parser, settings, imsg->msg_iov[0].iov_base, nread)\<close>: the parser is given
  \<open>nread\<close> bytes of the first buffer and calls \<open>on_url_cb\<close> for the places it reports.
\<close>

primrec url_callbacks :: "nat \<Rightarrow> byte list \<Rightarrow> (nat \<times> nat) list \<Rightarrow> unit act" where
  "url_callbacks req buf [] = return ()"
| "url_callbacks req buf (x # xs) =
     andthen (on_url_cb req (take (snd x) (drop (fst x) buf))) (\<lambda>_. url_callbacks req buf xs)"

definition http_execute :: "http_env \<Rightarrow> nat \<Rightarrow> iovec list \<Rightarrow> nat \<Rightarrow> unit act" where
  "http_execute env req iov nread =
     andthen (bytes_get (iov_base (iov ! 0))) (\<lambda>b.
     andthen (reading (\<lambda>_. blk_read b 0 nread)) (\<lambda>buf. url_callbacks req buf (e_execute env buf)))"

text \<open>Path and query of a parsed URL are copied into the session's buffers.\<close>

definition store_path :: "nat \<Rightarrow> block \<Rightarrow> (nat \<times> nat) \<times> (nat \<times> nat) \<Rightarrow> nat \<Rightarrow> nat \<Rightarrow> unit act" where
  "store_path req uri hurl path query =
     (let ((poff, plen), (qoff, qlen)) = hurl;
          pathlen = min plen (IOV_CHUNK - 1);
          querylen = min qlen (IOV_CHUNK - 1) in
      andthen (reading (\<lambda>_. blk_read uri poff pathlen)) (\<lambda>ps.
      andthen (put_string path ps) (\<lambda>_.
      andthen (vals_set req D_MOD_REQ_PLEN pathlen) (\<lambda>_.
        if querylen > 0
        then andthen (reading (\<lambda>_. blk_read uri qoff querylen)) (\<lambda>qs.
             andthen (put_string query qs) (\<lambda>_. vals_set req D_MOD_REQ_QLEN querylen))
        else return ()))))"

text \<open>The response code and body; an empty body means that nothing is sent.\<close>

definition no_action_text :: "byte list" where
  "no_action_text = bytes_of ''No action defined against route. Please contact support.''"

definition no_route_text :: "byte list" where
  "no_route_text = bytes_of ''No route defined. Please contact support.''"

definition http_respond :: "http_env \<Rightarrow> addr \<Rightarrow> nat \<Rightarrow> nat \<Rightarrow> (int \<times> byte list) act" where
  "http_respond env p req resp =
     andthen (udata_get p UD_MOD_HTTP_ROUTE) (\<lambda>route.
       if route = 0 then return (503, no_route_text)
       else andthen (vals_get req) (\<lambda>qv.
            andthen (bytes_get (ptr_of (qv ! D_MOD_REQ_URI))) (\<lambda>uri.
            andthen (reading (\<lambda>_. blk_read uri 0 (qv ! D_MOD_REQ_ULEN))) (\<lambda>url.
              case e_parse_url env url of
                None \<Rightarrow> return (200, [])
              | Some hurl \<Rightarrow>
                  if snd (fst hurl) = 0 then return (200, [])
                  else andthen (store_path req uri hurl (qv ! D_MOD_REQ_PATH) (qv ! D_MOD_REQ_QUERY)) (\<lambda>_.
                       andthen (bytes_get (ptr_of (qv ! D_MOD_REQ_PATH))) (\<lambda>path.
                       andthen (array_aget (ptr_of route) (c_string path @ [0])) (\<lambda>action.
                         if action \<noteq> 0
                         then andthen (http_route_action env action req resp) (\<lambda>_.
                              andthen (vals_get resp) (\<lambda>rv.
                                if rv ! D_MOD_RESP_LEN = 0 then return (int (rv ! D_MOD_RESP_CODE), [])
                                else andthen (bytes_get (ptr_of (rv ! D_MOD_RESP_STR))) (\<lambda>b.
                                     return (int (rv ! D_MOD_RESP_CODE), c_string b))))
                         else return (403, no_action_text))))))))"

text \<open>\<open>IOV_PRINTF\<close>: \<open>snprintf\<close> into a buffer of \<open>IOV_CHUNK\<close> bytes, the length set to at most that.\<close>

definition IOV_PRINTF :: "nat \<Rightarrow> nat \<Rightarrow> byte list \<Rightarrow> nat act" where
  "IOV_PRINTF v i s =
     andthen (iovs_get (ptr_of v)) (\<lambda>iov.
     andthen (bytes_get (iov_base (iov ! i))) (\<lambda>b.
     andthen (reading (\<lambda>_. c_snprintf b 0 IOV_CHUNK s)) (\<lambda>(n, b1).
     (let len = min n IOV_CHUNK in
     andthen (mem_set (case iov_base (iov ! i) of None \<Rightarrow> 0 | Some a \<Rightarrow> a) (Bytes b1)) (\<lambda>_.
     andthen (mem_set v (Iovs (iov[i := (iov ! i)\<lparr>iov_len := len\<rparr>]))) (\<lambda>_. return len))))))"

definition http_reply :: "http_env \<Rightarrow> nat \<Rightarrow> int \<Rightarrow> byte list \<Rightarrow> int act" where
  "http_reply env v code body =
     (if body = [] then return 0
      else andthen (IOV_PRINTF v 1 body) (\<lambda>n1.
           andthen (IOV_PRINTF v 0 (hr_resp_iov0 code (e_status env code) n1 (bytes_of ''text/plain''))) (\<lambda>n0.
             return (int (n1 + n0)))))"

definition http_on_data_default :: "http_env \<Rightarrow> addr \<Rightarrow> int act" where
  "http_on_data_default env p =
     andthen (udata_get p UD_CORE_MSGHDR) (\<lambda>m.
     andthen (assert_that (m \<noteq> 0)) (\<lambda>_.
     andthen (msg_get m) (\<lambda>imsg.
     andthen (assert_that (msg_iovlen imsg = 2)) (\<lambda>_.
     andthen (session_setup p) (\<lambda>req.
     andthen (udata_get p UD_CORE_NREAD) (\<lambda>nread.
     andthen (iovs_get (msg_iov imsg)) (\<lambda>iov.
     andthen (http_execute env req iov nread) (\<lambda>_.
     andthen (udata_get p UD_MOD_RESP) (\<lambda>r0.
     andthen (if r0 \<noteq> 0 then return r0
              else andthen (hook_zalloc p (Vals (replicate D_MOD_RESP_SZ 0))) (\<lambda>resp.
                   andthen (udata_set p UD_MOD_RESP resp) (\<lambda>_.
                   andthen (hook_zalloc p (Bytes (replicate IOV_CHUNK 0))) (\<lambda>sc.
                   andthen (vals_set resp D_MOD_RESP_SCRATCH sc) (\<lambda>_. return resp))))) (\<lambda>resp.
     andthen (http_respond env p req resp) (\<lambda>(code, body).
       http_reply env (case msg_iov imsg of None \<Rightarrow> 0 | Some a \<Rightarrow> a) code body)))))))))))"

text \<open>
  \<open>hook_on_data_test\<close>, the handler the module registers: receive, answer, send. The bytes that the
  kernel took are returned beside its result.
\<close>

definition serve_request :: "http_env \<Rightarrow> addr \<Rightarrow> (int \<times> byte list) act" where
  "serve_request env p =
     andthen (ioqueue_socket_recvmsg (e_recv env) p) (\<lambda>n.
     andthen (udata_set p UD_CORE_NREAD (nat (n mod 2 ^ 64))) (\<lambda>_.
       if n \<le> 0 then return (0, [])
       else andthen (http_on_data_default env p) (\<lambda>r.
              if r > 0 then ioqueue_socket_sendmsg (e_send env) p else return (0, []))))"

definition hook_on_data_test :: "http_env \<Rightarrow> addr \<Rightarrow> int act" where
  "hook_on_data_test env p = andthen (serve_request env p) (\<lambda>(ret, _). return ret)"

text \<open>The data handlers the function pointers of the module lead to.\<close>

definition http_code :: "http_env \<Rightarrow> value_t \<Rightarrow> addr \<Rightarrow> int act" where
  "http_code env f p = (if f = e_hook_on_data_test env then hook_on_data_test env p
     else (\<lambda>w. Fault UseAfterFree))"

section \<open>The handler keeps to its hook\<close>

lemma frames_fault [frame_intros]: "frames p (\<lambda>w. Fault f)"
  by (simp add: frames_def)

lemma frames_case_prod [frame_intros]:
  "(\<And>x y. frames p (k x y)) \<Longrightarrow> frames p (case z of (x, y) \<Rightarrow> k x y)"
  by (cases z) simp

lemma frames_case_option [frame_intros]:
  "frames p m \<Longrightarrow> (\<And>x. frames p (k x)) \<Longrightarrow> frames p (case z of None \<Rightarrow> m | Some x \<Rightarrow> k x)"
  by (cases z) simp_all

lemma frames_let [frame_intros]: "frames p (k x) \<Longrightarrow> frames p (let y = x in k y)"
  by simp

lemma frames_vals_get [frame_intros]: "frames p (vals_get a)"
  unfolding vals_get_def by (intro frame_intros)

lemma frames_vals_set [frame_intros]: "frames p (vals_set a i v)"
  unfolding vals_set_def by (intro frame_intros)

lemma frames_put_string [frame_intros]: "frames p (put_string a s)"
  unfolding put_string_def by (intro frame_intros)

lemma frames_on_url_cb [frame_intros]: "frames p (on_url_cb req buf)"
  unfolding on_url_cb_def by (intro frame_intros)

lemma frames_captcha [frame_intros]:
  "frames p (captcha_get rnd req resp)" "frames p (captcha_verify rnd req resp)"
  unfolding captcha_get_def captcha_verify_def by (intro frame_intros)+

lemma frames_action [frame_intros]: "frames p (http_route_action env f req resp)"
  unfolding http_route_action_def by (intro frame_intros)

lemma frames_session_setup [frame_intros]: "frames p (session_setup p)"
  unfolding session_setup_def by (intro frame_intros)

lemma frames_url_callbacks [frame_intros]: "frames p (url_callbacks req buf xs)"
  by (induction xs) (auto intro!: frame_intros)

lemma frames_http_execute [frame_intros]: "frames p (http_execute env req iov n)"
  unfolding http_execute_def by (intro frame_intros)

lemma frames_store_path [frame_intros]: "frames p (store_path req uri hurl path query)"
  unfolding store_path_def
  by (cases hurl; cases "fst hurl"; cases "snd hurl") (auto intro!: frame_intros simp: Let_def)

lemma frames_http_respond [frame_intros]: "frames p (http_respond env p req resp)"
  unfolding http_respond_def by (intro frame_intros)

lemma frames_IOV_PRINTF [frame_intros]: "frames p (IOV_PRINTF v i s)"
  unfolding IOV_PRINTF_def by (intro frame_intros)

lemma frames_http_reply [frame_intros]: "frames p (http_reply env v code body)"
  unfolding http_reply_def by (intro frame_intros)

lemma frames_http_on_data [frame_intros]: "frames p (http_on_data_default env p)"
  unfolding http_on_data_default_def by (intro frame_intros)

lemma frames_hook_on_data_test [frame_intros]: "frames p (hook_on_data_test env p)"
  unfolding hook_on_data_test_def serve_request_def by (intro frame_intros)

interpretation http: request_handler http_code
proof unfold_locales
  show "frames p (http_code env f p)" for p env f
    unfolding http_code_def by (intro frame_intros)
qed

section \<open>Starting the module\<close>

text \<open>
  The answers of the system while the module starts, and the addresses of the two string
  literals.
\<close>

record start_env =
  st_usable :: "nat \<Rightarrow> nat"
  st_str :: "value_t \<Rightarrow> byte list option"
  st_getaddrinfo :: "byte list option \<Rightarrow> byte list option \<Rightarrow> hints \<Rightarrow> addrinfo list option"
  st_socks :: "addrinfo list \<Rightarrow> sock_ans list"
  st_listens :: "(bool \<times> bool) list"
  st_node :: value_t
  st_serv :: value_t

definition http_routes :: "http_env \<Rightarrow> array_t" where
  "http_routes env = aset (aset array_new ''/app/get'' (e_captcha_get env)) ''/app/verify'' (e_captcha_verify env)"

definition module_args :: "start_env \<Rightarrow> http_env \<Rightarrow> nat \<Rightarrow> addr \<Rightarrow> array_t" where
  "module_args st env sys routes =
     aset (aset (aset (aset (aset array_new ''node'' (st_node st)) ''serv'' (st_serv st))
       ''sys'' (of_nat sys)) ''hoda'' (e_hook_on_data_test env)) ''route'' (of_nat routes)"

definition module_start :: "start_env \<Rightarrow> http_env \<Rightarrow> nat \<Rightarrow> world \<Rightarrow> (int \<times> world) res" where
  "module_start st env sys w =
     (let args = fresh_addr (arrays w);
          routes = fresh_addr (fmupd args array_new (arrays w));
          w1 = w\<lparr>arrays := fmupd args (module_args st env sys routes)
                  (fmupd routes (http_routes env) (arrays w))\<rparr> in
      res_bind (ioqueue_socket_prepare (st_usable st) (st_str st) (st_getaddrinfo st) True (st_socks st)
          (ioqueue_new 0) (Some args) w1) (\<lambda>((ret, iq), w2).
      res_bind (if ret \<noteq> 0 then Ok (-1, w2)
                else res_bind (ioqueue_socket_deploy (st_listens st) iq args w2) (\<lambda>(r, w3).
                       Ok (if r \<noteq> 0 then (-1, w3) else (0, w3)))) (\<lambda>(r, w4).
        if r = -1 then res_bind (heap_free (arrays w4) (Some args)) (\<lambda>as. Ok (r, w4\<lparr>arrays := as\<rparr>))
        else Ok (r, w4))))"

definition module_stop :: "int \<Rightarrow> world \<Rightarrow> int \<times> world" where
  "module_stop mod_fd w = (0, if mod_fd > 0 then do_close mod_fd w else w)"

text \<open>\<open>main\<close> up to the event loop.\<close>

definition ayubd_start :: "start_env \<Rightarrow> http_env \<Rightarrow> int \<Rightarrow> int \<Rightarrow> bool list \<Rightarrow> nat \<Rightarrow> world \<Rightarrow> (int \<times> server) res" where
  "ayubd_start st env nproc openmax gots sp w =
     res_bind (ayubd_init sp gots (ayubd_config_read nproc openmax) w) (\<lambda>s.
     res_bind (module_start st env sp (wd s)) (\<lambda>(ret, w1). Ok (ret, s\<lparr>wd := w1\<rparr>)))"

lemma sys_ok_grow_arrays:
  assumes "sys_ok w ext" and "fset (fmdom (arrays w)) \<subseteq> fset (fmdom A)"
  shows "sys_ok (w\<lparr>arrays := A\<rparr>) ext"
proof -
  have "registered (w\<lparr>arrays := A\<rparr>) = registered w" by (intro ext) (simp add: registered_def)
  moreover have "world_ok (w\<lparr>arrays := A\<rparr>) pool" if "world_ok w pool" for pool
    using that assms(2) by (auto simp: world_ok_def own_ok_def)
  ultimately show ?thesis
    using assms(1) by (auto simp: sys_ok_def refs_ok_def epoll_ok_def)
qed

lemma sys_ok_grow_fds:
  assumes "sys_ok w ext" and "fset (fds w) \<subseteq> fset F"
  shows "sys_ok (w\<lparr>fds := F\<rparr>) ext"
proof -
  have "registered (w\<lparr>fds := F\<rparr>) = registered w" by (intro ext) (simp add: registered_def)
  with assms show ?thesis by (auto simp: sys_ok_def refs_ok_def epoll_ok_def)
qed

lemma epoll_in_fds: "sys_ok w ext \<Longrightarrow> fset (fmdom (epoll w)) \<subseteq> fset (fds w)"
  by (auto simp: sys_ok_def epoll_ok_def fmlookup_dom_iff)

lemma prepare_hints_default:
  "\<exists>hi. prepare_hints True (ioqueue_new 0) =
     (Some hi, \<lparr>flags = IOQUEUE_SOCKET_TCP OR IOQUEUE_SOCKET_IP46 OR IOQUEUE_SOCKET_PASSIVE, fdroom = 0, iqfd = []\<rparr>)"
  by (simp add: prepare_hints_def ioqueue_new_def ioqueue_set_flags_def CHECKFLAG_def ioqueue_flags Let_def)

lemma default_tcp_passive:
  "flags iq = IOQUEUE_SOCKET_TCP OR IOQUEUE_SOCKET_IP46 OR IOQUEUE_SOCKET_PASSIVE \<Longrightarrow> tcp_passive iq"
  by (simp add: tcp_passive_def CHECKFLAG_def ioqueue_flags)

lemma array_aget_result:
  "array_aget (Some a) k w = Ok (v, w') \<Longrightarrow>
     a |\<in>| fmdom (arrays w) \<and> (\<exists>A. w' = w\<lparr>arrays := A\<rparr> \<and> fmdom A = fmdom (arrays w))"
proof -
  assume r: "array_aget (Some a) k w = Ok (v, w')"
  then have a: "a |\<in>| fmdom (arrays w)" by (auto simp: array_aget_def res_simps intro: fmdomI)
  from array_aget_Ok [OF a, of k] r obtain ar where "w' = w\<lparr>arrays := fmupd a ar (arrays w)\<rparr>" by auto
  with a show ?thesis by auto
qed

lemma deploy_result:
  assumes r: "ioqueue_socket_deploy as iq args w = Ok (r, w')" and ok: "sys_ok w ext"
    and arr: "listener_array w args" and iq: "tcp_passive iq"
    and fs: "set (iqfd iq) \<subseteq> fset (fds w)" "set (iqfd iq) \<inter> fset (fmdom (epoll w)) = {}"
      "distinct (iqfd iq)" "\<forall>f\<in>set (iqfd iq). 0 \<le> f" and as: "\<forall>a\<in>set as. a = (True, True)"
  shows "r = 0 \<and> sys_ok w' ext \<and> fset (fmdom (epoll w')) = set (iqfd iq) \<union> fset (fmdom (epoll w))"
proof -
  from r obtain v w1 where v: "array_aget (Some args) (cstr ''sys'') w = Ok (v, w1)" "v \<noteq> 0"
    "deploy_loop as iq args (unat v) (iqfd iq) w1 = Ok (r, w')"
    by (auto simp: ioqueue_socket_deploy_def res_simps c_assert_def split: if_splits)
  from array_aget_result [OF v(1)] obtain A where A: "w1 = w\<lparr>arrays := A\<rparr>" "fmdom A = fmdom (arrays w)"
    by blast
  have "sys_ok w1 ext" unfolding A(1) by (rule sys_ok_grow_arrays [OF ok]) (simp add: A(2))
  moreover have "listener_array w1 args" using arr A by (simp add: listener_array_def)
  moreover have "unat v \<noteq> 0" using v(2) by (simp add: unat_eq_zero)
  ultimately show ?thesis
    using deploy_loop_sys [of w1 ext args iq "unat v" "iqfd iq" as] iq fs as v(3) A(1) by auto
qed

lemma prepare_result:
  assumes r: "ioqueue_socket_prepare usable str gai True ans (ioqueue_new 0) (Some args) w = Ok ((ret, iq), w')"
    and socks: "\<And>rps. socks_ok (fds w) (ans rps)" and ep: "fset (fmdom (epoll w)) \<subseteq> fset (fds w)"
  shows "\<exists>A F. w' = w\<lparr>arrays := A, fds := F\<rparr> \<and> fmdom A = fmdom (arrays w) \<and> fset (fds w) \<subseteq> fset F \<and>
     (ret = 0 \<longrightarrow> tcp_passive iq \<and> set (iqfd iq) \<subseteq> fset F \<and> set (iqfd iq) \<inter> fset (fds w) = {} \<and>
        distinct (iqfd iq) \<and> (\<forall>f\<in>set (iqfd iq). 0 \<le> f))"
proof -
  obtain hi where hi: "prepare_hints True (ioqueue_new 0) = (Some hi, \<lparr>flags = IOQUEUE_SOCKET_TCP OR
      IOQUEUE_SOCKET_IP46 OR IOQUEUE_SOCKET_PASSIVE, fdroom = 0, iqfd = []\<rparr>)" (is "_ = (_, ?iq)")
    using prepare_hints_default by blast
  from r obtain node w1 serv w2 where
    g: "array_aget (Some args) (cstr ''node'') w = Ok (node, w1)"
      "array_aget (Some args) (cstr ''serv'') w1 = Ok (serv, w2)"
      "(case prepare_candidates gai (str node) (str serv) hi ?iq of None \<Rightarrow> return (-1, ?iq)
        | Some rps \<Rightarrow> (\<lambda>w. res_bind (prepare_loop usable (ans rps) ?iq w) (\<lambda>(iq2, w1). Ok ((0, iq2), w1)))) w2
       = Ok ((ret, iq), w')"
    by (auto simp: ioqueue_socket_prepare_def andthen_def assert_that_def reading_def res_simps hi)
  from array_aget_result [OF g(1)] array_aget_result [OF g(2)] obtain A where
    A: "w2 = w\<lparr>arrays := A\<rparr>" "fmdom A = fmdom (arrays w)" by force
  show ?thesis
  proof (cases "prepare_candidates gai (str node) (str serv) hi ?iq")
    case None
    with g(3) A show ?thesis
      by (intro exI [of _ A] exI [of _ "fds w"]) (auto simp: return_def)
  next
    case (Some rps)
    with g(3) have l: "prepare_loop usable (ans rps) ?iq w2 = Ok (iq, w')" "ret = 0"
      by (auto simp: res_simps)
    have "socks_ok (fds w2) (ans rps)" "fset (fmdom (epoll w2)) \<subseteq> fset (fds w2)"
      using socks ep A(1) by simp_all
    from prepare_loop_fds [OF l(1) this] A obtain new where
      new: "iqfd iq = new" "distinct new" "set new \<inter> fset (fds w) = {}" "\<forall>f\<in>set new. 0 \<le> f"
        "w' = w\<lparr>arrays := A, fds := fset_of_list new |\<union>| fds w\<rparr>" "flags iq = flags ?iq" by auto
    have "tcp_passive iq" using new(6) by (intro default_tcp_passive) simp
    with new A(2) show ?thesis
      by (intro exI [of _ A] exI [of _ "fset_of_list new |\<union>| fds w"]) (auto simp: fset_of_list.rep_eq)
  qed
qed

lemma module_start_sys:
  assumes r: "module_start st env sys w = Ok (ret, w')" and ok: "sys_ok w ext"
    and socks: "\<And>rps. socks_ok (fds w) (st_socks st rps)" and as: "\<forall>a\<in>set (st_listens st). a = (True, True)"
  shows "sys_ok w' ext"
proof -
  define args where "args = fresh_addr (arrays w)"
  define routes where "routes = fresh_addr (fmupd args array_new (arrays w))"
  define w1 where "w1 = w\<lparr>arrays := fmupd args (module_args st env sys routes)
    (fmupd routes (http_routes env) (arrays w))\<rparr>"
  have argsn: "args |\<notin>| fmdom (arrays w)" by (simp add: args_def)
  from r [unfolded module_start_def Let_def, folded args_def, folded routes_def, folded w1_def]
  obtain x where x: "ioqueue_socket_prepare (st_usable st) (st_str st) (st_getaddrinfo st) True
      (st_socks st) (ioqueue_new 0) (Some args) w1 = Ok x"
    "(\<lambda>((pret, iq), w2). res_bind (if pret \<noteq> 0 then Ok (-1, w2)
                else res_bind (ioqueue_socket_deploy (st_listens st) iq args w2) (\<lambda>(r, w3).
                       Ok (if r \<noteq> 0 then (-1, w3) else (0, w3)))) (\<lambda>(r, w4).
        if r = -1 then res_bind (heap_free (arrays w4) (Some args)) (\<lambda>as. Ok (r, w4\<lparr>arrays := as\<rparr>))
        else Ok (r, w4))) x = Ok (ret, w')"
    by (rule res_bind_OkE)
  obtain pret iq w2 where xe: "x = ((pret, iq), w2)" by (cases x) auto
  note p = x(1) [unfolded xe] and rest = x(2) [unfolded xe, simplified]
  have w1: "fds w1 = fds w" "epoll w1 = epoll w" "hooks w1 = hooks w" by (simp_all add: w1_def)
  from prepare_result [OF p] socks epoll_in_fds [OF ok] w1 obtain A F where
    AF: "w2 = w1\<lparr>arrays := A, fds := F\<rparr>" "fmdom A = fmdom (arrays w1)" "fset (fds w) \<subseteq> fset F"
      "pret = 0 \<longrightarrow> tcp_passive iq \<and> set (iqfd iq) \<subseteq> fset F \<and> set (iqfd iq) \<inter> fset (fds w) = {} \<and>
        distinct (iqfd iq) \<and> (\<forall>f\<in>set (iqfd iq). 0 \<le> f)"
    by auto
  have okF: "sys_ok (w\<lparr>fds := F\<rparr>) ext" by (rule sys_ok_grow_fds [OF ok AF(3)])
  have w2: "w2 = (w\<lparr>fds := F\<rparr>)\<lparr>arrays := A\<rparr>" using AF(1) by (simp add: w1_def)
  have ok2: "sys_ok w2 ext"
    unfolding w2 by (rule sys_ok_grow_arrays [OF okF]) (auto simp: AF(2) w1_def)
  show ?thesis
  proof (cases "pret = 0")
    case True
    have own: "data k \<noteq> Some args" if "fmlookup (hooks w) q = Some k" for q k
      using ok argsn world_ok_own [OF _ that] by (auto simp: sys_ok_def own_ok_def)
    have arr: "listener_array w2 args"
      using own by (auto simp: listener_array_def w2 AF(2) w1_def)
    obtain r w3 where d: "ioqueue_socket_deploy (st_listens st) iq args w2 = Ok (r, w3)"
      using rest True by (auto simp: res_simps)
    have "set (iqfd iq) \<subseteq> fset (fds w2)" "set (iqfd iq) \<inter> fset (fmdom (epoll w2)) = {}"
      using AF(4) True epoll_in_fds [OF ok] by (auto simp: w2)
    from deploy_result [OF d ok2 arr _ this _ _ as] AF(4) True have "r = 0 \<and> sys_ok w3 ext" by blast
    with rest True d show ?thesis by (auto split: prod.splits)
  next
    case False
    with rest obtain A' where "heap_free A (Some args) = Ok A'" "w' = (w\<lparr>fds := F\<rparr>)\<lparr>arrays := A'\<rparr>"
      by (auto simp: res_simps w2)
    then have w': "w' = (w\<lparr>fds := F\<rparr>)\<lparr>arrays := fmdrop args A\<rparr>" by (auto simp: heap_free_Ok_iff)
    show ?thesis
      unfolding w' by (rule sys_ok_grow_arrays [OF okF]) (use argsn in \<open>auto simp: AF(2) w1_def\<close>)
  qed
qed

text \<open>The server after \<open>main\<close> has started the workers and the module.\<close>

definition start_ok :: "start_env \<Rightarrow> int \<Rightarrow> bool list \<Rightarrow> world \<Rightarrow> bool" where
  "start_ok st nproc gots w \<longleftrightarrow>
     0 < nproc \<and> nproc < 2 ^ 31 \<and> nat nproc \<le> length gots \<and> (\<forall>j<length gots. gots ! j) \<and>
     hooks w = fmempty \<and> epoll w = fmempty \<and> (\<forall>rps. socks_ok (fds w) (st_socks st rps)) \<and>
     (\<forall>a\<in>set (st_listens st). a = (True, True))"

lemma config_nworkers:
  assumes "0 < nproc" and "nproc < 2 ^ 31"
  shows "int_of_value (fst (array_get (ayubd_config_read nproc openmax) (cstr ''cpu_core''))) = int (nat nproc)"
proof -
  have "(ucast (word_of_int nproc :: u64) :: u32) = word_of_int nproc"
    by transfer simp
  moreover have "sint (word_of_int nproc :: u32) = nproc"
    using assms by transfer (simp add: signed_take_bit_int_eq_self)
  ultimately have "sint (ucast (word_of_int nproc :: u64) :: u32) = nproc" by simp
  with assms show ?thesis
    by (simp add: ayubd_config_read_def Let_def aset_def array_set_def array_get_def int_of_value_def)
qed

lemma start_inv:
  assumes r: "ayubd_start st env nproc openmax gots sp w = Ok (ret, s)" and ok: "start_ok st nproc gots w"
  shows "srv_inv s"
proof -
  from ok have n: "0 < nproc" "nproc < 2 ^ 31" "nat nproc \<le> length gots" "\<And>j. j < length gots \<Longrightarrow> gots ! j"
    "hooks w = fmempty" "epoll w = fmempty" "\<And>rps. socks_ok (fds w) (st_socks st rps)"
    "\<forall>a\<in>set (st_listens st). a = (True, True)" by (auto simp: start_ok_def)
  from ayubd_init_inv [OF config_nworkers [OF n(1,2), of openmax] _ n(3,4,5,6), of sp] n(1) obtain s1 where
    s1: "ayubd_init sp gots (ayubd_config_read nproc openmax) w = Ok s1"
      "srv_inv_at s1 (replicate (nat nproc) [])" "fds (wd s1) = fds w" "nworkers s1 = nat nproc"
      "pending s1 = []" "\<forall>p x. x < nat nproc \<longrightarrow> load s1 (replicate (nat nproc) []) p x = 0" by auto
  from r s1(1) obtain w1 where w1: "module_start st env sp (wd s1) = Ok (ret, w1)" "s = s1\<lparr>wd := w1\<rparr>"
    by (auto simp: ayubd_start_def res_simps)
  have sys: "sys_ok w1 (held s1 (replicate (nat nproc) []))"
    using module_start_sys [OF w1(1) srv_inv_atD(7) [OF s1(2)]] n(7,8) s1(3) by simp
  have "srv_inv_at (s1\<lparr>wd := w1, pending := []\<rparr>) (replicate (nat nproc) [])"
    using s1(4,6) by (intro srv_inv_world [OF s1(2) sys]) (auto simp: events_ok_def)
  moreover have "s1\<lparr>wd := w1, pending := []\<rparr> = s" using w1(2) s1(5) by simp
  ultimately show ?thesis by (auto simp: srv_inv_def)
qed

section \<open>What the handler stores and sends\<close>

text \<open>Evaluation of actions on a store whose blocks are known.\<close>

lemma mem_get_Ok [simp]: "fmlookup (mem w) a = Some b \<Longrightarrow> a \<noteq> 0 \<Longrightarrow> mem_get a w = Ok (b, w)"
  by (simp add: mem_get_def reading_def ptr_of_def)

lemma mem_set_Ok [simp]:
  "fmlookup (mem w) a = Some b \<Longrightarrow> a \<noteq> 0 \<Longrightarrow> mem_set a b' w = Ok ((), w\<lparr>mem := fmupd a b' (mem w)\<rparr>)"
  by (simp add: mem_set_def ptr_of_def)

lemma vals_get_Ok [simp]:
  "fmlookup (mem w) a = Some (Vals v) \<Longrightarrow> a \<noteq> 0 \<Longrightarrow> vals_get a w = Ok (v, w)"
  by (simp add: vals_get_def andthen_def reading_def)

lemma bytes_get_Ok [simp]:
  "fmlookup (mem w) a = Some (Bytes b) \<Longrightarrow> a \<noteq> 0 \<Longrightarrow> bytes_get (Some a) w = Ok (b, w)"
  "fmlookup (mem w) a = Some (Bytes b) \<Longrightarrow> a \<noteq> 0 \<Longrightarrow> bytes_get (ptr_of a) w = Ok (b, w)"
  by (simp_all add: bytes_get_def andthen_def reading_def ptr_of_def)

lemma iovs_get_Ok [simp]:
  "fmlookup (mem w) a = Some (Iovs x) \<Longrightarrow> a \<noteq> 0 \<Longrightarrow> iovs_get (Some a) w = Ok (x, w)"
  "fmlookup (mem w) a = Some (Iovs x) \<Longrightarrow> a \<noteq> 0 \<Longrightarrow> iovs_get (ptr_of a) w = Ok (x, w)"
  by (simp_all add: iovs_get_def andthen_def reading_def ptr_of_def)

lemma vals_set_Ok [simp]:
  "fmlookup (mem w) a = Some (Vals v) \<Longrightarrow> a \<noteq> 0 \<Longrightarrow>
     vals_set a i x w = Ok ((), w\<lparr>mem := fmupd a (Vals (v[i := x])) (mem w)\<rparr>)"
  by (simp add: vals_set_def andthen_def)

lemma put_string_Ok:
  assumes "fmlookup (mem w) a = Some (Bytes b)" and "a \<noteq> 0" and "length s < length b"
  shows "put_string a s w = Ok ((), w\<lparr>mem := fmupd a (Bytes (s @ 0 # drop (Suc (length s)) b)) (mem w)\<rparr>)"
  using assms by (simp add: put_string_def andthen_def reading_def put_at_def)

text \<open>What \<open>IOV_PRINTF\<close> leaves in a buffer of \<open>IOV_CHUNK\<close> bytes, and the part of it that is sent.\<close>

definition iov_text :: "byte list \<Rightarrow> byte list" where
  "iov_text s = (if length s < IOV_CHUNK then s else take (IOV_CHUNK - 1) s @ [0])"

lemma length_iov_text: "length (iov_text s) = min (length s) IOV_CHUNK"
  by (simp add: iov_text_def IOV_CHUNK_def)

lemma IOV_PRINTF_Ok:
  assumes v: "fmlookup (mem w) v = Some (Iovs iov)" "v \<noteq> 0" "i < length iov"
    and b: "iov_base (iov ! i) = Some a" "fmlookup (mem w) a = Some (Bytes b)" "a \<noteq> 0" "length b = IOV_CHUNK"
  shows "\<exists>b'. IOV_PRINTF v i s w = Ok (length (iov_text s), w\<lparr>mem :=
      fmupd v (Iovs (iov[i := (iov ! i)\<lparr>iov_len := length (iov_text s)\<rparr>])) (fmupd a (Bytes b') (mem w))\<rparr>) \<and>
     length b' = IOV_CHUNK \<and> take (length (iov_text s)) b' = iov_text s"
proof -
  have va: "v \<noteq> a" using v(1) b(2) by auto
  define t where "t = take (IOV_CHUNK - 1) s @ [0]"
  define b' where "b' = put_at b 0 t"
  have len: "length t \<le> length b" using b(4) by (auto simp: t_def IOV_CHUNK_def)
  have pr: "c_snprintf b 0 IOV_CHUNK s = Ok (length s, b')"
    using len b(4) by (simp add: c_snprintf_def t_def b'_def IOV_CHUNK_def)
  have "length b' = IOV_CHUNK" using len b(4) by (simp add: b'_def)
  moreover have "take (length (iov_text s)) b' = iov_text s"
    using len by (auto simp: b'_def put_at_def iov_text_def t_def IOV_CHUNK_def min_def)
  moreover have "IOV_PRINTF v i s w = Ok (length (iov_text s), w\<lparr>mem :=
      fmupd v (Iovs (iov[i := (iov ! i)\<lparr>iov_len := length (iov_text s)\<rparr>])) (fmupd a (Bytes b') (mem w))\<rparr>)"
    using v b pr va
    by (simp add: IOV_PRINTF_def andthen_def reading_def return_def length_iov_text Let_def)
  ultimately show ?thesis by blast
qed

section \<open>Properties\<close>

text \<open>
  However long the URL in a request is, \<open>on_url_cb\<close> stays inside the 4096-byte URL buffer:
  it stores at most 4095 bytes of it and a NUL, and records that length.
\<close>

theorem on_url_cb_bounded:
  assumes "fmlookup (mem w) req = Some (Vals vs)" and "req \<noteq> 0" and "D_MOD_REQ_ULEN < length vs"
    and "vs ! D_MOD_REQ_URI = u" and "fmlookup (mem w) u = Some (Bytes b)" and "u \<noteq> 0"
    and "length b = IOV_CHUNK" and "n = min (length buf) (IOV_CHUNK - 1)"
  shows "\<exists>w'. on_url_cb req buf w = Ok (0, w') \<and>
     fmlookup (mem w') u = Some (Bytes (take n buf @ 0 # drop (Suc n) b)) \<and>
     fmlookup (mem w') req = Some (Vals (vs[D_MOD_REQ_ULEN := n]))"
proof -
  have ne: "u \<noteq> req" using assms(1,5) by auto
  have "length (take n buf) < length b" using assms(7,8) by (simp add: IOV_CHUNK_def)
  from put_string_Ok [OF assms(5,6) this] assms ne show ?thesis
    by (simp add: on_url_cb_def andthen_def return_def Let_def)
qed

definition demo_env :: http_env where
  "demo_env = \<lparr>e_execute = (\<lambda>b. [(4, 8)]), e_parse_url = (\<lambda>u. Some ((0, length u), (0, 0))),
     e_status = (\<lambda>_. bytes_of ''OK''), e_rnd = 0, e_recv = [Ans_Done (bytes_of ''GET /app/get HTTP/1.1'')],
     e_send = [Ans_Done 4096], e_captcha_get = 2000, e_captcha_verify = 2001, e_hook_on_data_test = 2002\<rparr>"

definition demo_http_world :: world where
  "demo_http_world = demo_world\<lparr>mem := fmap_of_list [(1, Vals [2, 0, 3, 0, 0, 0, 0, 0, 0, 0]),
     (2, Bytes (replicate IOV_CHUNK 0)), (3, Bytes (bytes_of ''/app/get'' @ replicate 4088 0)),
     (4, Vals [0, 0, 0, 5]), (5, Bytes (replicate IOV_CHUNK 0)),
     (6, Iovs [\<lparr>iov_base = Some 7, iov_len = IOV_CHUNK\<rparr>, \<lparr>iov_base = Some 8, iov_len = IOV_CHUNK\<rparr>]),
     (7, Bytes (replicate IOV_CHUNK 0)), (8, Bytes (replicate IOV_CHUNK 0))]\<rparr>"

lemma demo_http_mem:
  "fmlookup (mem demo_http_world) 1 = Some (Vals [2, 0, 3, 0, 0, 0, 0, 0, 0, 0])"
  "fmlookup (mem demo_http_world) 2 = Some (Bytes (replicate IOV_CHUNK 0))"
  "fmlookup (mem demo_http_world) 3 = Some (Bytes (bytes_of ''/app/get'' @ replicate 4088 0))"
  "fmlookup (mem demo_http_world) 4 = Some (Vals [0, 0, 0, 5])"
  "fmlookup (mem demo_http_world) 5 = Some (Bytes (replicate IOV_CHUNK 0))"
  "fmlookup (mem demo_http_world) 6 = Some (Iovs [\<lparr>iov_base = Some 7, iov_len = IOV_CHUNK\<rparr>,
     \<lparr>iov_base = Some 8, iov_len = IOV_CHUNK\<rparr>])"
  "fmlookup (mem demo_http_world) 7 = Some (Bytes (replicate IOV_CHUNK 0))"
  "fmlookup (mem demo_http_world) 8 = Some (Bytes (replicate IOV_CHUNK 0))"
  by (simp_all add: demo_http_world_def fmap_of_list_simps)

theorem on_url_cb_bounded_witness:
  "\<exists>w'. on_url_cb 1 (replicate 5000 0x61) demo_http_world = Ok (0, w') \<and>
     fmlookup (mem w') 2 = Some (Bytes (take 4095 (replicate 5000 0x61) @ 0 # drop (Suc 4095) (replicate IOV_CHUNK 0))) \<and>
     fmlookup (mem w') 1 = Some (Vals ([2, 0, 3, 0, 0, 0, 0, 0, 0, 0][D_MOD_REQ_ULEN := 4095]))"
  by (rule on_url_cb_bounded [OF demo_http_mem(1) _ _ _ demo_http_mem(2)])
    (simp_all add: D_MOD_REQ_ULEN_def D_MOD_REQ_URI_def IOV_CHUNK_def)



text \<open>
  A request of more than 4096 bytes makes the handler pass memory outside the first
  buffer to the parser: \<open>recvmsg\<close> fills two buffers of 4096 bytes, and all the bytes it counts
  are taken to be in the first.
\<close>

theorem http_execute_overreads:
  assumes "iov_base (iov ! 0) = Some a" and "fmlookup (mem w) a = Some (Bytes b)" and "a \<noteq> 0"
    and "length b = IOV_CHUNK" and "IOV_CHUNK < nread"
  shows "http_execute env req iov nread w = Fault OutOfBounds"
  using assms by (simp add: http_execute_def andthen_def reading_def blk_read_def)

theorem http_execute_overreads_witness:
  "http_execute demo_env 1 [\<lparr>iov_base = Some 7, iov_len = IOV_CHUNK\<rparr>] 4097 demo_http_world = Fault OutOfBounds"
  by (rule http_execute_overreads [OF _ demo_http_mem(7)]) (simp_all add: IOV_CHUNK_def)

text \<open>
  C29. The reply the handler leaves for \<open>sendmsg\<close> is the header followed by the body, and the
  Content-Length in the header is the number of body bytes sent, also when a body of 4096
  bytes or more was cut (to 4095 bytes and a NUL).
\<close>

theorem http_reply_wellformed:
  assumes "fmlookup (mem w) v = Some (Iovs [io0, io1])" and "v \<noteq> 0"
    and "iov_base io0 = Some a0" and "fmlookup (mem w) a0 = Some (Bytes b0)" and "a0 \<noteq> 0" and "length b0 = IOV_CHUNK"
    and "iov_base io1 = Some a1" and "fmlookup (mem w) a1 = Some (Bytes b1)" and "a1 \<noteq> 0" and "length b1 = IOV_CHUNK"
    and "a0 \<noteq> a1" and "body \<noteq> []"
    and "header = hr_resp_iov0 code (e_status env code) (length (iov_text body)) (bytes_of ''text/plain'')"
  shows "\<exists>w'. http_reply env v code body w = Ok (int (length (iov_text header) + length (iov_text body)), w') \<and>
     andthen (iovs_get (ptr_of v)) gather w' = Ok (iov_text header @ iov_text body, w')"
proof -
  let ?n1 = "length (iov_text body)" and ?n0 = "length (iov_text header)"
  have va: "v \<noteq> a0" "v \<noteq> a1" using assms(1,4,8) by auto
  obtain c1 where c1: "IOV_PRINTF v 1 body w = Ok (?n1, w\<lparr>mem := fmupd v (Iovs [io0, io1\<lparr>iov_len := ?n1\<rparr>])
      (fmupd a1 (Bytes c1) (mem w))\<rparr>)" "length c1 = IOV_CHUNK" "take ?n1 c1 = iov_text body"
    using IOV_PRINTF_Ok [OF assms(1,2), of 1 a1 b1 body] assms(7-10) by auto
  let ?w1 = "w\<lparr>mem := fmupd v (Iovs [io0, io1\<lparr>iov_len := ?n1\<rparr>]) (fmupd a1 (Bytes c1) (mem w))\<rparr>"
  have l1: "fmlookup (mem ?w1) v = Some (Iovs [io0, io1\<lparr>iov_len := ?n1\<rparr>])" "fmlookup (mem ?w1) a0 = Some (Bytes b0)"
    using assms(4,11) va by simp_all
  obtain c0 where c0: "IOV_PRINTF v 0 header ?w1 = Ok (?n0, ?w1\<lparr>mem :=
      fmupd v (Iovs [io0\<lparr>iov_len := ?n0\<rparr>, io1\<lparr>iov_len := ?n1\<rparr>]) (fmupd a0 (Bytes c0) (mem ?w1))\<rparr>)"
      "length c0 = IOV_CHUNK" "take ?n0 c0 = iov_text header"
    using IOV_PRINTF_Ok [OF l1(1) assms(2), of 0 a0 b0 header] l1(2) assms(3,5,6) by auto
  let ?w2 = "?w1\<lparr>mem := fmupd v (Iovs [io0\<lparr>iov_len := ?n0\<rparr>, io1\<lparr>iov_len := ?n1\<rparr>]) (fmupd a0 (Bytes c0) (mem ?w1))\<rparr>"
  have "http_reply env v code body w = Ok (int (?n0 + ?n1), ?w2)"
    using c1(1) c0(1) assms(12,13) by (simp add: http_reply_def andthen_def return_def add.commute)
  moreover have "fmlookup (mem ?w2) a0 = Some (Bytes c0)" "fmlookup (mem ?w2) a1 = Some (Bytes c1)"
    "fmlookup (mem ?w2) v = Some (Iovs [io0\<lparr>iov_len := ?n0\<rparr>, io1\<lparr>iov_len := ?n1\<rparr>])"
    using assms(11) va by auto
  then have "andthen (iovs_get (ptr_of v)) gather ?w2 = Ok (iov_text header @ iov_text body, ?w2)"
    using assms(2,3,5,7,9) c0(2,3) c1(2,3)
    by (simp add: andthen_def reading_def blk_read_def return_def length_iov_text)
  ultimately show ?thesis by blast
qed

theorem http_reply_wellformed_witness:
  "\<exists>w'. http_reply demo_env 6 200 no_action_text demo_http_world =
       Ok (int (length (iov_text (hr_resp_iov0 200 (e_status demo_env 200) (length (iov_text no_action_text))
         (bytes_of ''text/plain''))) + length (iov_text no_action_text)), w') \<and>
     andthen (iovs_get (ptr_of 6)) gather w' = Ok (iov_text (hr_resp_iov0 200 (e_status demo_env 200)
       (length (iov_text no_action_text)) (bytes_of ''text/plain'')) @ iov_text no_action_text, w')"
  by (rule http_reply_wellformed [OF demo_http_mem(6) _ _ demo_http_mem(7) _ _ _ demo_http_mem(8)])
    (simp_all add: no_action_text_def bytes_of_def)

end
