(* ===== verification/Bytes.thy ===== *)
theory Bytes
  imports Prelude
begin

text \<open>
  Words in memory: their little-endian bytes, as the machine lays them out, and big-endian for
  files. Also the fold of a fallible function over a list, the shape of the loops that walk
  a table.
\<close>

unbundle bit_operations_syntax

primrec le_bytes :: "nat \<Rightarrow> 'a::len word \<Rightarrow> byte list" where
  "le_bytes 0 w = []"
| "le_bytes (Suc n) w = ucast w # le_bytes n (drop_bit 8 w)"

primrec le_word :: "byte list \<Rightarrow> 'a::len word" where
  "le_word [] = 0"
| "le_word (b # bs) = ucast b OR push_bit 8 (le_word bs)"

lemma length_le_bytes [simp]: "length (le_bytes n w) = n"
  by (induction n arbitrary: w) auto

lemma le_word_bytes: "le_word (le_bytes n w) = take_bit (8 * n) w"
proof (induction n arbitrary: w)
  case 0
  then show ?case by simp
next
  case (Suc n)
  have "ucast (ucast w :: byte) OR push_bit 8 (take_bit (8 * n) (drop_bit 8 w)) = take_bit (8 * Suc n) w"
    by (rule bit_word_eqI) (auto simp: bit_simps)
  with Suc show ?case by simp
qed

lemma le_word_bytes_full [simp]: "LENGTH('a) \<le> 8 * n \<Longrightarrow> le_word (le_bytes n w) = (w :: 'a::len word)"
  by (simp add: le_word_bytes take_bit_word_eq_self)

lemma le_bytes_word:
  "8 * length bs \<le> LENGTH('a) \<Longrightarrow> le_bytes (length bs) (le_word bs :: 'a::len word) = bs"
proof (induction bs)
  case Nil
  then show ?case by simp
next
  case (Cons b bs)
  have "ucast (ucast b OR push_bit 8 (le_word bs :: 'a word)) = b"
    using Cons.prems by (intro bit_word_eqI) (auto simp: bit_simps)
  moreover have "drop_bit 8 (ucast b OR push_bit 8 (le_word bs :: 'a word)) =
      take_bit (LENGTH('a) - 8) (le_word bs :: 'a word)"
    by (rule bit_word_eqI) (auto simp: bit_simps dest: bit_imp_le_length)
  moreover have "take_bit (8 * length bs) (le_word bs :: 'a word) = le_word bs"
    using Cons le_word_bytes [of "length bs" "le_word bs :: 'a word"] by simp
  then have "take_bit (LENGTH('a) - 8) (le_word bs :: 'a word) = le_word bs"
    using Cons.prems by (metis (no_types, lifting) add_le_imp_le_diff length_Cons mult_Suc_right
        take_bit_tightened add.commute min_absorb2 take_bit_take_bit)
  ultimately show ?case using Cons by simp
qed

lemma le_word_inject:
  assumes "length xs = length ys" and "8 * length ys \<le> LENGTH('a)"
  shows "(le_word xs :: 'a::len word) = le_word ys \<longleftrightarrow> xs = ys"
  using le_bytes_word [of xs, where 'a = 'a] le_bytes_word [of ys, where 'a = 'a] assms by metis

section \<open>Loops that can fault\<close>

lemma is_ok_bind: "is_ok r \<Longrightarrow> (\<And>x. r = Ok x \<Longrightarrow> is_ok (f x)) \<Longrightarrow> is_ok (res_bind r f)"
  by (cases r) (auto simp: is_ok_iff)

lemma is_ok_Ok: "is_ok (Ok x)"
  by (simp add: is_ok_iff)

lemma is_ok_let: "(\<And>x. is_ok (f x)) \<Longrightarrow> is_ok (let x = t in f x)"
  by simp

primrec res_fold :: "('a \<Rightarrow> 'b \<Rightarrow> 'b res) \<Rightarrow> 'a list \<Rightarrow> 'b \<Rightarrow> 'b res" where
  "res_fold f [] b = Ok b"
| "res_fold f (x # xs) b = res_bind (f x b) (res_fold f xs)"

lemma res_fold_inv:
  assumes "I [] b"
    and "\<And>ys x zs b. xs = ys @ x # zs \<Longrightarrow> I ys b \<Longrightarrow> \<exists>b'. f x b = Ok b' \<and> I (ys @ [x]) b'"
  shows "\<exists>b'. res_fold f xs b = Ok b' \<and> I xs b'"
proof -
  have "xs = ys @ zs \<Longrightarrow> I ys b \<Longrightarrow> \<exists>b'. res_fold f zs b = Ok b' \<and> I xs b'" for ys zs b
  proof (induction zs arbitrary: ys b)
    case Nil
    then show ?case by simp
  next
    case (Cons z zs)
    from assms(2) [OF Cons.prems] obtain b' where "f z b = Ok b'" "I (ys @ [z]) b'" by blast
    with Cons.IH [of "ys @ [z]" b'] Cons.prems(1) show ?case by simp
  qed
  from this [of "[]"] assms(1) show ?thesis by simp
qed

end
