(* ===== verification/Murmur.thy ===== *)
theory Murmur
  imports Bytes
begin

text \<open>
  \<open>src/lib/hat-trie/src/murmurhash3.c\<close>: the hash of the tables. The loop over the 4-byte blocks
  is recursion on their number; the switch on the remaining bytes falls through.
\<close>

definition fmix :: "u32 \<Rightarrow> u32" where
  "fmix h =
     (let h = h XOR drop_bit 16 h; h = h * 0x85ebca6b; h = h XOR drop_bit 13 h; h = h * 0xc2b2ae35
      in h XOR drop_bit 16 h)"

definition rotl32 :: "u32 \<Rightarrow> nat \<Rightarrow> u32" where
  "rotl32 x r = push_bit r x OR drop_bit (32 - r) x"

definition hash_k1 :: "u32 \<Rightarrow> u32" where
  "hash_k1 k1 = rotl32 (k1 * 0xcc9e2d51) 15 * 0x1b873593"

primrec hash_body :: "nat \<Rightarrow> byte list \<Rightarrow> u32 \<Rightarrow> u32" where
  "hash_body 0 data h1 = h1"
| "hash_body (Suc n) data h1 =
     hash_body n (drop 4 data) (rotl32 (h1 XOR hash_k1 (le_word (take 4 data))) 13 * 5 + 0xe6546b64)"

fun hash_tail :: "byte list \<Rightarrow> u32 \<Rightarrow> u32" where
  "hash_tail [t0, t1, t2] h1 = h1 XOR hash_k1 (push_bit 16 (ucast t2) XOR push_bit 8 (ucast t1) XOR ucast t0)"
| "hash_tail [t0, t1] h1 = h1 XOR hash_k1 (push_bit 8 (ucast t1) XOR ucast t0)"
| "hash_tail [t0] h1 = h1 XOR hash_k1 (ucast t0)"
| "hash_tail _ h1 = h1"

definition hash :: "byte list \<Rightarrow> u32" where
  "hash data =
     (let nblocks = length data div 4;
          h1 = hash_body nblocks data 0xc062fb4a;
          h1 = hash_tail (drop (4 * nblocks) data) h1
      in fmix (h1 XOR word_of_nat (length data)))"

section \<open>Nothing is lost\<close>

lemma u32_bits [simp]: "\<not> bit (h :: u32) (32 + n)" "\<not> bit (h :: u32) (39 + n)"
  using bit_imp_le_length [of h "32 + n"] bit_imp_le_length [of h "39 + n"] by auto

lemma xorshift16: "(h :: u32) XOR drop_bit 16 h = x \<Longrightarrow> h = x XOR drop_bit 16 x"
  by (rule bit_word_eqI) (auto simp: bit_simps)

lemma xorshift13: "(h :: u32) XOR drop_bit 13 h = x \<Longrightarrow> h = x XOR drop_bit 13 x XOR drop_bit 26 x"
  by (rule bit_word_eqI) (auto simp: bit_simps)

text \<open>Multiplication by an odd constant is undone by multiplication with its inverse.\<close>

lemma mult_inject:
  assumes "(c :: u32) * d = 1"
  shows "a * c = b * c \<longleftrightarrow> a = b"
proof
  assume "a * c = b * c"
  then have "a * c * d = b * c * d" by simp
  with assms show "a = b" by (simp add: mult.assoc)
qed simp

lemma mult_constants_inject [simp]:
  "(a :: u32) * 0x85ebca6b = b * 0x85ebca6b \<longleftrightarrow> a = b"
  "(a :: u32) * 0xc2b2ae35 = b * 0xc2b2ae35 \<longleftrightarrow> a = b"
  "(a :: u32) * 0xcc9e2d51 = b * 0xcc9e2d51 \<longleftrightarrow> a = b"
  "(a :: u32) * 0x1b873593 = b * 0x1b873593 \<longleftrightarrow> a = b"
  "(a :: u32) * 5 = b * 5 \<longleftrightarrow> a = b"
  using mult_inject [of "0x85ebca6b" "0xa5cb9243"] mult_inject [of "0xc2b2ae35" "0x7ed1b41d"]
    mult_inject [of "0xcc9e2d51" "0xdee13bb1"] mult_inject [of "0x1b873593" "0x56ed309b"]
    mult_inject [of 5 "0xcccccccd"]
  by auto

lemma xorshift_inject [simp]:
  "(a :: u32) XOR drop_bit 16 a = b XOR drop_bit 16 b \<longleftrightarrow> a = b"
  "(a :: u32) XOR drop_bit 13 a = b XOR drop_bit 13 b \<longleftrightarrow> a = b"
  using xorshift16 xorshift13 by metis+

lemma fmix_inject [simp]: "fmix a = fmix b \<longleftrightarrow> a = b"
  by (simp add: fmix_def Let_def)

lemma rotl32_inverse:
  assumes "0 < r" "r < 32"
  shows "rotl32 (rotl32 x r) (32 - r) = x"
  using assms by (intro bit_word_eqI) (auto simp: rotl32_def bit_simps)

lemma rotl32_inject [simp]:
  assumes "0 < r" "r < 32"
  shows "rotl32 a r = rotl32 b r \<longleftrightarrow> a = b"
proof
  assume "rotl32 a r = rotl32 b r"
  then have "rotl32 (rotl32 a r) (32 - r) = rotl32 (rotl32 b r) (32 - r)" by (rule arg_cong)
  then show "a = b" by (simp only: rotl32_inverse [OF assms])
qed simp

lemma hash_k1_inject [simp]: "hash_k1 a = hash_k1 b \<longleftrightarrow> a = b"
  by (simp add: hash_k1_def)

lemma xor_inject [simp]: "(h :: u32) XOR a = h XOR b \<longleftrightarrow> a = b" "(a :: u32) XOR h = b XOR h \<longleftrightarrow> a = b"
proof -
  have "a = b" if "h XOR a = h XOR b" for a b
  proof -
    from that have "h XOR (h XOR a) = h XOR (h XOR b)" by simp
    then show ?thesis by (simp add: xor.assoc [symmetric])
  qed
  then show "h XOR a = h XOR b \<longleftrightarrow> a = b" "a XOR h = b XOR h \<longleftrightarrow> a = b"
    by (auto simp: xor.commute [of _ h])
qed

lemma hash_body_inject [simp]: "hash_body n data a = hash_body n data b \<longleftrightarrow> a = b"
  by (induction n arbitrary: data a b) auto

lemma hash_tail_inject [simp]: "hash_tail t a = hash_tail t b \<longleftrightarrow> a = b"
  by (cases "(t, a)" rule: hash_tail.cases) auto

lemma hash_body_append:
  "length p = 4 * n \<Longrightarrow> hash_body (n + m) (p @ data) h = hash_body m data (hash_body n p h)"
  by (induction n arbitrary: p h) (auto simp: take_append)

lemma hash_body_prefix:
  "4 * n \<le> length p \<Longrightarrow> hash_body n (p @ data) h = hash_body n p h"
  by (induction n arbitrary: p h) auto

text \<open>
  Keys that differ in one aligned 4-byte block never collide: every step of the hash can be
  undone for fixed remaining input, so no information about a block is lost on its way
  through the rest of the hash.
\<close>

theorem hash_block_no_collision:
  assumes "4 dvd length p" and "length x = 4" and "length y = 4" and "x \<noteq> y"
  shows "hash (p @ x @ s) \<noteq> hash (p @ y @ s)"
proof -
  from assms(1) obtain n where n: "length p = 4 * n" by blast
  let ?m = "length s div 4" and ?h = "hash_body n p 0xc062fb4a"
  have len: "length (p @ z @ s) div 4 = n + Suc ?m" if "length z = 4" for z :: "byte list"
    using that n by simp
  have body: "hash_body (n + Suc ?m) (p @ z @ s) h =
      hash_body ?m s (rotl32 (hash_body n p h XOR hash_k1 (le_word z)) 13 * 5 + 0xe6546b64)"
    if "length z = 4" for z h
    using that hash_body_append [OF n, of "Suc ?m" "z @ s" h] by simp
  have tail: "drop (4 * (n + Suc ?m)) (p @ z @ s) = drop (4 * ?m) s" if "length z = 4" for z
    using that n by simp
  have "(le_word x :: u32) \<noteq> le_word y" using le_word_inject [of x y, where 'a = 32] assms(2-4) by simp
  then show ?thesis
    unfolding hash_def Let_def len [OF assms(2)] len [OF assms(3)] body [OF assms(2)] body [OF assms(3)]
      tail [OF assms(2)] tail [OF assms(3)]
    using assms(2,3) by simp
qed

theorem hash_block_no_collision_witness:
  "hash (bytes_of ''user'' @ bytes_of ''0001'' @ bytes_of ''x'') \<noteq>
   hash (bytes_of ''user'' @ bytes_of ''0002'' @ bytes_of ''x'')"
  by (rule hash_block_no_collision) (simp_all add: numeral_eq_Suc)

end
