(* ===== verification/Store.thy ===== *)
theory Store
  imports Arrays
begin

text \<open>
  What the array macros (\<open>src/assoc_array_impl_hattrie.h\<close>) need of the store under them: a lookup
  that creates missing entries and returns a pointer to the value, a lookup that does not, a
  deletion and a count. A store that keeps these laws behaves as the finite map of theory
  Arrays under any sequence of array operations.
\<close>

datatype array_op =
    A_Get "byte list" | A_Set "byte list" value_t | A_Has "byte list" | A_Del "byte list" | A_Size

fun op_key :: "array_op \<Rightarrow> byte list option" where
  "op_key (A_Get k) = Some k"
| "op_key (A_Set k v) = Some k"
| "op_key (A_Has k) = Some k"
| "op_key (A_Del k) = Some k"
| "op_key A_Size = None"

text \<open>The operations on a map; the answer of each is a number, the size a \<open>size_t\<close>.\<close>

fun array_step :: "array_op \<Rightarrow> array_t \<Rightarrow> int \<times> array_t" where
  "array_step (A_Get k) a = (let (v, a1) = array_get a k in (uint v, a1))"
| "array_step (A_Set k v) a = (0, array_set a k v)"
| "array_step (A_Has k) a = (if array_key_exists a k then 1 else 0, a)"
| "array_step (A_Del k) a = array_del a k"
| "array_step A_Size a = (int (array_size a mod 2 ^ 64), a)"

fun array_run :: "array_op list \<Rightarrow> array_t \<Rightarrow> int list \<times> array_t" where
  "array_run [] a = ([], a)"
| "array_run (x # xs) a = (let (r, a1) = array_step x a; (rs, a2) = array_run xs a1 in (r # rs, a2))"

text \<open>The same operations as the macros write them in terms of a store.\<close>

record ('t, 'r) store_ops =
  s_get :: "'t \<Rightarrow> byte list \<Rightarrow> ('r \<times> 't) res"
  s_tryget :: "'t \<Rightarrow> byte list \<Rightarrow> 'r option res"
  s_del :: "'t \<Rightarrow> byte list \<Rightarrow> (int \<times> 't) res"
  s_read :: "'t \<Rightarrow> 'r \<Rightarrow> value_t res"
  s_write :: "'t \<Rightarrow> 'r \<Rightarrow> value_t \<Rightarrow> 't res"
  s_size :: "'t \<Rightarrow> nat"

fun store_step :: "('t, 'r) store_ops \<Rightarrow> array_op \<Rightarrow> 't \<Rightarrow> (int \<times> 't) res" where
  "store_step S (A_Get k) t =
     res_bind (s_get S t k) (\<lambda>(r, t1). res_bind (s_read S t1 r) (\<lambda>v. Ok (uint v, t1)))"
| "store_step S (A_Set k v) t =
     res_bind (s_get S t k) (\<lambda>(r, t1). res_bind (s_write S t1 r v) (\<lambda>t2. Ok (0, t2)))"
| "store_step S (A_Has k) t = res_bind (s_tryget S t k) (\<lambda>r. Ok (if r \<noteq> None then 1 else 0, t))"
| "store_step S (A_Del k) t = s_del S t k"
| "store_step S A_Size t = Ok (int (s_size S t), t)"

fun store_run :: "('t, 'r) store_ops \<Rightarrow> array_op list \<Rightarrow> 't \<Rightarrow> (int list \<times> 't) res" where
  "store_run S [] t = Ok ([], t)"
| "store_run S (x # xs) t =
     res_bind (store_step S x t) (\<lambda>(r, t1). res_bind (store_run S xs t1) (\<lambda>(rs, t2). Ok (r # rs, t2)))"

locale array_store =
  fixes S :: "('t, 'r) store_ops" and rep :: "'t \<Rightarrow> array_t \<Rightarrow> bool" and good :: "byte list \<Rightarrow> bool"
  assumes get_law: "rep t a \<Longrightarrow> good k \<Longrightarrow> \<exists>r t'. s_get S t k = Ok (r, t') \<and>
      rep t' (snd (array_get a k)) \<and> s_read S t' r = Ok (fst (array_get a k)) \<and>
      (\<forall>v. \<exists>t''. s_write S t' r v = Ok t'' \<and> rep t'' (array_set a k v))"
    and tryget_law: "rep t a \<Longrightarrow> good k \<Longrightarrow> \<exists>r. s_tryget S t k = Ok r \<and> (r \<noteq> None \<longleftrightarrow> array_key_exists a k) \<and>
      (\<forall>x. r = Some x \<longrightarrow> s_read S t x = Ok (fst (array_get a k)))"
    and del_law: "rep t a \<Longrightarrow> good k \<Longrightarrow> \<exists>t'. s_del S t k = Ok (fst (array_del a k), t') \<and>
      rep t' (snd (array_del a k))"
    and size_law: "rep t a \<Longrightarrow> s_size S t = array_size a mod 2 ^ 64"
begin

lemma step_refines:
  assumes "rep t a" and "\<forall>k. op_key x = Some k \<longrightarrow> good k"
  shows "\<exists>t'. store_step S x t = Ok (fst (array_step x a), t') \<and> rep t' (snd (array_step x a))"
proof (cases x)
  case (A_Get k)
  with get_law [OF assms(1), of k] assms(2) show ?thesis by (auto split: prod.splits)
next
  case (A_Set k v)
  with assms(2) have "good k" by simp
  from get_law [OF assms(1) this] obtain r t' where "s_get S t k = Ok (r, t')"
    "\<forall>v. \<exists>t''. s_write S t' r v = Ok t'' \<and> rep t'' (array_set a k v)" by blast
  with A_Set show ?thesis by (auto dest: spec [of _ v])
next
  case (A_Has k)
  with tryget_law [OF assms(1), of k] assms show ?thesis by auto
next
  case (A_Del k)
  with del_law [OF assms(1), of k] assms(2) show ?thesis by auto
next
  case A_Size
  with size_law [OF assms(1)] assms(1) show ?thesis by auto
qed

lemma run_refines:
  assumes "rep t a" and "\<forall>x\<in>set xs. \<forall>k. op_key x = Some k \<longrightarrow> good k"
  shows "\<exists>t'. store_run S xs t = Ok (fst (array_run xs a), t') \<and> rep t' (snd (array_run xs a))"
  using assms
proof (induction xs arbitrary: t a)
  case Nil
  then show ?case by simp
next
  case (Cons x xs)
  from step_refines [OF Cons.prems(1), of x] Cons.prems(2) obtain t1 where
    t1: "store_step S x t = Ok (fst (array_step x a), t1)" "rep t1 (snd (array_step x a))" by auto
  from Cons.IH [OF t1(2)] Cons.prems(2) obtain t2 where
    "store_run S xs t1 = Ok (fst (array_run xs (snd (array_step x a))), t2)"
    "rep t2 (snd (array_run xs (snd (array_step x a))))" by auto
  with t1 show ?case by (auto simp: Let_def split: prod.splits)
qed

end

end
