(* ===== verification/Ahtable.thy ===== *)
theory Ahtable
  imports Murmur Store "HOL-Library.List_Lexorder" "HOL-Library.Multiset"
begin

text \<open>
  \<open>src/lib/hat-trie/src/ahtable.c\<close>: a hash table whose slots are byte arrays. A slot holds its
  entries one after the other: the length of the key in one byte, or in two bytes with the
  lowest bit set, the key, and the value. A pointer to a value is a slot number and an offset.
  Blocks are as long as they were allocated; a NULL slot is the empty block. \<open>malloc_or_die\<close>
  does not return on failure, and new memory is written before it is read.
\<close>

section \<open>Data\<close>

record ahtable =
  tflag :: byte
  tc0 :: byte
  tc1 :: byte
  tn :: nat
  tm :: nat
  tmax_m :: nat
  slot_sizes :: "nat list"
  slots :: "block list"

type_synonym vref = "nat \<times> nat"

definition ahtable_max_load_factor :: nat where "ahtable_max_load_factor = 100000"
definition ahtable_initial_size :: nat where "ahtable_initial_size = 4096"
definition sizeof_value :: nat where "sizeof_value = 8"

definition keylen :: "block \<Rightarrow> nat \<Rightarrow> nat res" where
  "keylen b s =
     res_bind (blk_read b s 1) (\<lambda>x.
       if bit (hd x) 0 then res_bind (blk_read b s 2) (\<lambda>y. Ok (unat (drop_bit 1 (le_word y :: u16))))
       else Ok (unat (drop_bit 1 (hd x))))"

definition lensize :: "nat \<Rightarrow> nat" where
  "lensize k = (if k < 128 then 1 else 2)"

definition ahtable_create_n :: "nat \<Rightarrow> ahtable" where
  "ahtable_create_n n = \<lparr>tflag = 0, tc0 = 0, tc1 = 0, tn = n, tm = 0, tmax_m = ahtable_max_load_factor * n,
     slot_sizes = replicate n 0, slots = replicate n []\<rparr>"

definition ahtable_create :: ahtable where
  "ahtable_create = ahtable_create_n ahtable_initial_size"

definition ahtable_size :: "ahtable \<Rightarrow> nat" where
  "ahtable_size T = tm T"

text \<open>\<open>sizeof(ahtable_t)\<close> is 48 on a 64-bit machine.\<close>

definition ahtable_sizeof :: "ahtable \<Rightarrow> nat" where
  "ahtable_sizeof T = fold (\<lambda>i nbytes. nbytes + slot_sizes T ! i) [0..<tn T] (48 + tn T * (8 + 8))"

definition ahtable_clear :: "ahtable \<Rightarrow> ahtable" where
  "ahtable_clear T = T\<lparr>tn := ahtable_initial_size, slots := replicate ahtable_initial_size [],
     slot_sizes := replicate ahtable_initial_size 0\<rparr>"

text \<open>\<open>ins_key\<close>: the offset of the value and the offset after it.\<close>

definition len_bytes :: "nat \<Rightarrow> byte list" where
  "len_bytes len = (if len < 128 then [word_of_nat (2 * len)]
     else le_bytes 2 (push_bit 1 (word_of_nat len) OR 1 :: u16))"

definition ins_key :: "block \<Rightarrow> nat \<Rightarrow> byte list \<Rightarrow> (nat \<times> nat \<times> block) res" where
  "ins_key b s key =
     res_bind (blk_write b s (len_bytes (length key))) (\<lambda>b1.
     (let s1 = s + lensize (length key) in
     res_bind (blk_write b1 s1 key) (\<lambda>b2.
     (let s2 = s1 + length key in
     res_bind (blk_write b2 s2 (le_bytes sizeof_value (0 :: value_t))) (\<lambda>b3.
       Ok (s2, s2 + sizeof_value, b3))))))"

definition realloc_block :: "block \<Rightarrow> nat \<Rightarrow> block" where
  "realloc_block b n = take n b @ replicate (n - length b) 0"

text \<open>Reading and writing through a pointer to a value.\<close>

definition val_read :: "ahtable \<Rightarrow> vref \<Rightarrow> value_t res" where
  "val_read T r =
     (if fst r < length (slots T)
      then res_bind (blk_read (slots T ! fst r) (snd r) sizeof_value) (\<lambda>x. Ok (le_word x))
      else Fault OutOfBounds)"

definition val_write :: "ahtable \<Rightarrow> vref \<Rightarrow> value_t \<Rightarrow> ahtable res" where
  "val_write T r v =
     (if fst r < length (slots T)
      then res_bind (blk_write (slots T ! fst r) (snd r) (le_bytes sizeof_value v)) (\<lambda>b.
             Ok (T\<lparr>slots := (slots T)[fst r := b]\<rparr>))
      else Fault OutOfBounds)"

section \<open>The unsorted iterator\<close>

record unsorted_iter =
  ui :: nat
  us :: nat

definition unsorted_iter_finished :: "ahtable \<Rightarrow> unsorted_iter \<Rightarrow> bool" where
  "unsorted_iter_finished T it \<longleftrightarrow> tn T \<le> ui it"

function next_slot :: "ahtable \<Rightarrow> nat \<Rightarrow> nat" where
  "next_slot T i = (if i < tn T \<and> slot_sizes T ! i = 0 then next_slot T (Suc i) else i)"
  by pat_completeness auto
termination by (relation "measure (\<lambda>(T, i). tn T - i)") auto

declare next_slot.simps [simp del]

definition unsorted_iter_begin :: "ahtable \<Rightarrow> unsorted_iter" where
  "unsorted_iter_begin T = \<lparr>ui = next_slot T 0, us = 0\<rparr>"

definition unsorted_iter_next :: "ahtable \<Rightarrow> unsorted_iter \<Rightarrow> unsorted_iter res" where
  "unsorted_iter_next T it =
     (if unsorted_iter_finished T it then Ok it
      else res_bind (keylen (slots T ! ui it) (us it)) (\<lambda>k.
        (let s = us it + lensize k + (k + sizeof_value) in
         Ok (if s \<ge> slot_sizes T ! ui it then \<lparr>ui = next_slot T (Suc (ui it)), us = 0\<rparr> else it\<lparr>us := s\<rparr>))))"

definition unsorted_iter_key :: "ahtable \<Rightarrow> unsorted_iter \<Rightarrow> byte list option res" where
  "unsorted_iter_key T it =
     (if unsorted_iter_finished T it then Ok None
      else res_bind (keylen (slots T ! ui it) (us it)) (\<lambda>k.
        res_bind (blk_read (slots T ! ui it) (us it + lensize k) k) (\<lambda>x. Ok (Some x))))"

definition unsorted_iter_val :: "ahtable \<Rightarrow> unsorted_iter \<Rightarrow> vref option res" where
  "unsorted_iter_val T it =
     (if unsorted_iter_finished T it then Ok None
      else res_bind (keylen (slots T ! ui it) (us it)) (\<lambda>k. Ok (Some (ui it, us it + lensize k + k))))"

lemma next_slot_ge: "i \<le> next_slot T i"
  by (induction T i rule: next_slot.induct) (subst next_slot.simps, auto)

lemma unsorted_iter_next_progress:
  assumes "unsorted_iter_next T it = Ok it'" and "\<not> unsorted_iter_finished T it"
  shows "tn T - ui it' < tn T - ui it \<or>
     ui it' = ui it \<and> slot_sizes T ! ui it - us it' < slot_sizes T ! ui it - us it"
proof -
  from assms obtain k where k: "it' = (let s = us it + lensize k + (k + sizeof_value) in
      if s \<ge> slot_sizes T ! ui it then \<lparr>ui = next_slot T (Suc (ui it)), us = 0\<rparr> else it\<lparr>us := s\<rparr>)"
    by (auto simp: unsorted_iter_next_def res_simps Let_def)
  show ?thesis
    using k next_slot_ge [of "Suc (ui it)" T] assms(2)
    by (cases "slot_sizes T ! ui it \<le> us it + lensize k + (k + sizeof_value)")
      (auto simp: Let_def unsorted_iter_finished_def sizeof_value_def)
qed

text \<open>The loop \<open>while (!ahtable_iter_finished(i)) { ...; ahtable_iter_next(i); }\<close> with its body.\<close>

function iter_loop :: "ahtable \<Rightarrow> (unsorted_iter \<Rightarrow> 'a \<Rightarrow> 'a res) \<Rightarrow> unsorted_iter \<Rightarrow> 'a \<Rightarrow> 'a res" where
  "iter_loop T body it a =
     (if unsorted_iter_finished T it then Ok a
      else res_bind (body it a) (\<lambda>a1. res_bind (unsorted_iter_next T it) (\<lambda>it1. iter_loop T body it1 a1)))"
  by pat_completeness auto
termination
  by (relation "(\<lambda>(T, _, it, _). tn T - ui it) <*mlex*>
      measure (\<lambda>(T, _, it, _). slot_sizes T ! ui it - us it)")
    (auto simp: wf_mlex mlex_prod_def dest: unsorted_iter_next_progress)

declare iter_loop.simps [simp del]

section \<open>Growing\<close>

text \<open>
  \<open>ahtable_expand\<close>: the first loop finds the size of every new slot, the second fills them. The
  state of the second loop is the new slots and the position after the last entry of each.
\<close>

definition some_key :: "byte list option \<Rightarrow> byte list res" where
  "some_key k = (case k of None \<Rightarrow> Fault NullDeref | Some x \<Rightarrow> Ok x)"

definition expand_count :: "ahtable \<Rightarrow> nat \<Rightarrow> unsorted_iter \<Rightarrow> nat list \<times> nat \<Rightarrow> (nat list \<times> nat) res" where
  "expand_count T new_n it a =
     res_bind (unsorted_iter_key T it) (\<lambda>k0.
     res_bind (some_key k0) (\<lambda>key.
       (let h = unat (hash key) mod new_n; len = length key in
        Ok ((fst a)[h := fst a ! h + (len + sizeof_value + (if len \<ge> 128 then 2 else 1))], Suc (snd a)))))"

definition expand_move :: "ahtable \<Rightarrow> nat \<Rightarrow> unsorted_iter \<Rightarrow>
    (block list \<times> nat list) \<times> nat \<Rightarrow> ((block list \<times> nat list) \<times> nat) res" where
  "expand_move T new_n it a =
     (let ((bs, ends), m) = a in
      res_bind (unsorted_iter_key T it) (\<lambda>k0.
      res_bind (some_key k0) (\<lambda>key.
      (let h = unat (hash key) mod new_n in
      res_bind (ins_key (bs ! h) (ends ! h) key) (\<lambda>(u, next, b1).
      res_bind (unsorted_iter_val T it) (\<lambda>r.
      res_bind (case r of None \<Rightarrow> Fault NullDeref | Some v \<Rightarrow> val_read T v) (\<lambda>v.
      res_bind (blk_write b1 u (le_bytes sizeof_value v)) (\<lambda>b2.
        Ok ((bs[h := b2], ends[h := next]), Suc m)))))))))"

definition ahtable_expand :: "ahtable \<Rightarrow> ahtable res" where
  "ahtable_expand T =
     res_bind (c_assert (tn T > 0)) (\<lambda>_.
     (let new_n = 2 * tn T in
     res_bind (iter_loop T (expand_count T new_n) (unsorted_iter_begin T) (replicate new_n 0, 0)) (\<lambda>(sizes, m1).
     res_bind (c_assert (m1 = tm T)) (\<lambda>_.
     res_bind (iter_loop T (expand_move T new_n) (unsorted_iter_begin T)
         ((map (\<lambda>n. replicate n 0) sizes, replicate new_n 0), 0)) (\<lambda>((bs, _), m2).
     res_bind (c_assert (m2 = tm T)) (\<lambda>_.
       Ok (T\<lparr>slots := bs, slot_sizes := sizes, tn := new_n, tmax_m := ahtable_max_load_factor * new_n\<rparr>)))))))"

section \<open>Lookup, insertion and deletion\<close>

text \<open>
  The search loop over a slot; the result is the offset of the key's bytes. \<open>get_key\<close> and
  \<open>ahtable_del\<close> contain the same loop.
\<close>

function slot_find :: "block \<Rightarrow> nat \<Rightarrow> byte list \<Rightarrow> nat \<Rightarrow> nat option res" where
  "slot_find b sz key s =
     (if s < sz
      then res_bind (keylen b s) (\<lambda>k.
        (let s1 = s + lensize k in
         if k \<noteq> length key then slot_find b sz key (s1 + (k + sizeof_value))
         else res_bind (blk_read b s1 k) (\<lambda>x.
           if x = key then Ok (Some s1) else slot_find b sz key (s1 + (k + sizeof_value)))))
      else Ok None)"
  by pat_completeness auto
termination
  by (relation "measure (\<lambda>(b, sz, key, s). sz - s)") (auto simp: sizeof_value_def)

declare slot_find.simps [simp del]

definition slot_of :: "ahtable \<Rightarrow> byte list \<Rightarrow> nat res" where
  "slot_of T key = (if tn T = 0 then Fault DivByZero else Ok (unat (hash key) mod tn T))"

definition get_key :: "ahtable \<Rightarrow> byte list \<Rightarrow> bool \<Rightarrow> (vref option \<times> ahtable) res" where
  "get_key T0 key insert_missing =
     res_bind (if insert_missing \<and> tm T0 \<ge> tmax_m T0 then ahtable_expand T0 else Ok T0) (\<lambda>T.
     res_bind (slot_of T key) (\<lambda>i.
     res_bind (slot_find (slots T ! i) (slot_sizes T ! i) key 0) (\<lambda>r.
       case r of Some s \<Rightarrow> Ok (Some (i, s + length key), T)
       | None \<Rightarrow>
           if insert_missing
           then (let sz = slot_sizes T ! i;
                     new_size = sz + (1 + (if length key \<ge> 128 then 1 else 0)) + length key + sizeof_value in
                 res_bind (ins_key (realloc_block (slots T ! i) new_size) sz key) (\<lambda>(val, _, b).
                   Ok (Some (i, val), T\<lparr>slots := (slots T)[i := b], tm := Suc (tm T),
                       slot_sizes := (slot_sizes T)[i := new_size]\<rparr>)))
           else Ok (None, T))))"

definition ahtable_get :: "ahtable \<Rightarrow> byte list \<Rightarrow> (vref \<times> ahtable) res" where
  "ahtable_get T key =
     (if length key > 32767 then Fault ExitFailure
      else res_bind (get_key T key True) (\<lambda>(r, T1).
        case r of None \<Rightarrow> Fault NullDeref | Some v \<Rightarrow> Ok (v, T1)))"

definition ahtable_tryget :: "ahtable \<Rightarrow> byte list \<Rightarrow> vref option res" where
  "ahtable_tryget T key = res_bind (get_key T key False) (\<lambda>(r, _). Ok r)"

definition ahtable_del :: "ahtable \<Rightarrow> byte list \<Rightarrow> (int \<times> ahtable) res" where
  "ahtable_del T key =
     res_bind (slot_of T key) (\<lambda>i.
     res_bind (slot_find (slots T ! i) (slot_sizes T ! i) key 0) (\<lambda>r.
       case r of None \<Rightarrow> Ok (-1, T)
       | Some s1 \<Rightarrow>
           (let t = s1 + length key + sizeof_value; s = s1 - lensize (length key) in
            res_bind (blk_read (slots T ! i) t (slot_sizes T ! i - t)) (\<lambda>rest.
            res_bind (blk_write (slots T ! i) s rest) (\<lambda>b.
              Ok (0, T\<lparr>slots := (slots T)[i := b], slot_sizes := (slot_sizes T)[i := slot_sizes T ! i - (t - s)],
                  tm := tm T - 1\<rparr>))))))"

section \<open>What a slot holds\<close>

definition enc1 :: "byte list \<times> value_t \<Rightarrow> byte list" where
  "enc1 e = len_bytes (length (fst e)) @ fst e @ le_bytes sizeof_value (snd e)"

definition enc :: "(byte list \<times> value_t) list \<Rightarrow> byte list" where
  "enc es = concat (map enc1 es)"

definition short :: "byte list \<times> value_t \<Rightarrow> bool" where
  "short e \<longleftrightarrow> length (fst e) \<le> 32767"

definition slot_rep :: "block \<Rightarrow> nat \<Rightarrow> (byte list \<times> value_t) list \<Rightarrow> bool" where
  "slot_rep b sz es \<longleftrightarrow> sz = length (enc es) \<and> (\<exists>junk. b = enc es @ junk) \<and> (\<forall>e\<in>set es. short e) \<and>
     distinct (map fst es)"

lemma enc_simps [simp]: "enc [] = []" "enc (e # es) = enc1 e @ enc es" "enc (es @ fs) = enc es @ enc fs"
  by (simp_all add: enc_def)

lemma length_len_bytes [simp]: "length (len_bytes k) = lensize k"
  by (simp add: len_bytes_def lensize_def)

lemma length_enc1 [simp]: "length (enc1 e) = lensize (length (fst e)) + length (fst e) + sizeof_value"
  by (simp add: enc1_def)

lemma lensize_pos [simp]: "0 < lensize k"
  by (simp add: lensize_def)

lemma sizeof_value_pos [simp]: "0 < sizeof_value"
  by (simp add: sizeof_value_def)

lemma blk_read_at [simp]:
  "s = length p \<Longrightarrow> n = length x \<Longrightarrow> blk_read (p @ x @ q) s n = Ok x"
  by (simp add: blk_read_def)

lemma put_at_middle: "s = length p \<Longrightarrow> length y = length x \<Longrightarrow> put_at (p @ y @ q) s x = p @ x @ q"
  by (simp add: put_at_def)

lemma drop_push_mask: "drop_bit n (push_bit n x OR mask n) = take_bit (16 - n) (x :: u16)"
  by (rule bit_word_eqI) (auto simp: bit_simps)

lemma keylen_at:
  assumes "k \<le> 32767" and "s = length p"
  shows "keylen (p @ len_bytes k @ q) s = Ok k"
proof (cases "k < 128")
  case True
  have "bit (word_of_nat (2 * k) :: byte) 0 = False" by (simp add: bit_0)
  moreover have "unat (drop_bit 1 (word_of_nat (2 * k) :: byte)) = k"
  proof -
    have "unat (word_of_nat (2 * k) :: byte) = 2 * k"
      using True by (simp add: unat_of_nat del: of_nat_mult)
    then show ?thesis by (simp add: unat_div_distrib drop_bit_eq_div del: of_nat_mult)
  qed
  moreover have "blk_read (p @ [word_of_nat (2 * k)] @ q) s 1 = Ok [word_of_nat (2 * k) :: byte]"
    using assms(2) by (intro blk_read_at) auto
  ultimately show ?thesis using True by (simp add: keylen_def len_bytes_def)
next
  case False
  define w where "w = (push_bit 1 (word_of_nat k) OR 1 :: u16)"
  have two: "le_bytes 2 w = [ucast w, ucast (drop_bit 8 w)]" by (simp add: numeral_2_eq_2)
  have "bit (ucast w :: byte) 0" by (simp add: w_def bit_simps)
  moreover have "blk_read (p @ [ucast w] @ ucast (drop_bit 8 w) # q) s 1 = Ok [ucast w :: byte]"
    using assms(2) by (intro blk_read_at) auto
  moreover have "blk_read (p @ le_bytes 2 w @ q) s 2 = Ok (le_bytes 2 w)"
    using assms(2) by (intro blk_read_at) auto
  moreover have "le_word (le_bytes 2 w) = w" by (rule le_word_bytes_full) simp
  moreover have "drop_bit 1 w = word_of_nat k"
  proof -
    have "drop_bit 1 w = take_bit 15 (word_of_nat k)"
      using drop_push_mask [of 1 "word_of_nat k"] by (simp add: w_def)
    moreover have "take_bit 15 k = k" using assms(1) by (intro take_bit_nat_eq_self) simp
    ultimately show ?thesis by (simp add: take_bit_of_nat)
  qed
  moreover have "unat (word_of_nat k :: u16) = k" using assms(1) by (simp add: unat_of_nat)
  moreover have "len_bytes k = le_bytes 2 w" using False by (simp add: len_bytes_def w_def)
  ultimately show ?thesis by (simp add: keylen_def two)
qed

text \<open>The search loop finds the first entry with the key.\<close>

primrec find_off :: "byte list \<Rightarrow> (byte list \<times> value_t) list \<Rightarrow> nat \<Rightarrow> nat option" where
  "find_off key [] off = None"
| "find_off key (e # es) off =
     (if fst e = key then Some (off + lensize (length key)) else find_off key es (off + length (enc1 e)))"

lemma slot_find_step:
  assumes "short e" and "s = length p" and "s < sz"
  shows "slot_find (p @ enc1 e @ q) sz key s =
     (if fst e = key then Ok (Some (s + lensize (length key)))
      else slot_find (p @ enc1 e @ q) sz key (s + length (enc1 e)))"
proof -
  let ?b = "p @ enc1 e @ q" and ?k = "length (fst e)"
  have kl: "keylen ?b s = Ok ?k"
    using assms(1,2) keylen_at [of ?k s p "fst e @ le_bytes sizeof_value (snd e) @ q"]
    by (simp add: enc1_def short_def)
  have rd: "blk_read ?b (s + lensize ?k) ?k = Ok (fst e)"
    using assms(2) blk_read_at [of "s + lensize ?k" "p @ len_bytes ?k" ?k "fst e" "le_bytes sizeof_value (snd e) @ q"]
    by (simp add: enc1_def)
  show ?thesis
    by (subst slot_find.simps) (use assms(3) kl rd in \<open>auto simp: Let_def add.assoc\<close>)
qed

lemma slot_find_eq:
  assumes "\<forall>e\<in>set post. short e"
  shows "slot_find (p @ enc post @ q) (length p + length (enc post)) key (length p) =
     Ok (find_off key post (length p))"
  using assms
proof (induction post arbitrary: p)
  case Nil
  then show ?case by (simp add: slot_find.simps)
next
  case (Cons e es)
  from Cons.IH [of "p @ enc1 e"] Cons.prems show ?case
    using slot_find_step [of e "length p" p "length p + length (enc (e # es))" "enc es @ q" key]
    by (simp add: add.assoc)
qed

lemma find_off_None: "find_off key es off = None \<longleftrightarrow> key \<notin> fst ` set es"
  by (induction es arbitrary: off) auto

lemma find_off_Some:
  "find_off key es off = Some s \<Longrightarrow> \<exists>pre v post. es = pre @ (key, v) # post \<and> key \<notin> fst ` set pre \<and>
     s = off + length (enc pre) + lensize (length key)"
proof (induction es arbitrary: off)
  case Nil
  then show ?case by simp
next
  case (Cons e es)
  show ?case
  proof (cases "fst e = key")
    case True
    with Cons.prems show ?thesis by (intro exI [of _ "[]"] exI [of _ "snd e"] exI [of _ es]) auto
  next
    case False
    with Cons.IH [of "off + length (enc1 e)"] Cons.prems obtain pre v post where
      "es = pre @ (key, v) # post" "key \<notin> fst ` set pre"
      "s = off + length (enc1 e) + length (enc pre) + lensize (length key)" by auto
    with False show ?thesis by (intro exI [of _ "e # pre"] exI [of _ v] exI [of _ post]) auto
  qed
qed

lemma slot_rep_find:
  assumes "slot_rep b sz es"
  shows "slot_find b sz key 0 = Ok (find_off key es 0)"
  using assms slot_find_eq [of es "[]" _ key] by (auto simp: slot_rep_def)

text \<open>Writing and reading the value of an entry.\<close>

lemma slot_rep_value:
  assumes "slot_rep b sz (pre @ (key, v) # post)" and "off = length (enc pre) + lensize (length key) + length key"
  shows "blk_read b off sizeof_value = Ok (le_bytes sizeof_value v)"
    and "\<exists>b'. blk_write b off (le_bytes sizeof_value u) = Ok b' \<and> slot_rep b' sz (pre @ (key, u) # post)"
proof -
  from assms(1) obtain junk where b: "b = (enc pre @ len_bytes (length key) @ key) @
      le_bytes sizeof_value v @ (enc post @ junk)" by (auto simp: slot_rep_def enc1_def)
  show "blk_read b off sizeof_value = Ok (le_bytes sizeof_value v)"
    unfolding b using assms(2) by (intro blk_read_at) auto
  let ?b' = "(enc pre @ len_bytes (length key) @ key) @ le_bytes sizeof_value u @ (enc post @ junk)"
  have "put_at b off (le_bytes sizeof_value u) = ?b'"
    unfolding b using assms(2) by (intro put_at_middle) auto
  moreover have "slot_rep ?b' sz (pre @ (key, u) # post)"
    using assms(1) by (auto simp: slot_rep_def enc1_def short_def)
  ultimately show "\<exists>b'. blk_write b off (le_bytes sizeof_value u) = Ok b' \<and> slot_rep b' sz (pre @ (key, u) # post)"
    using assms(2) b by (intro exI [of _ ?b']) (simp add: blk_write_def)
qed

text \<open>A new entry at the end, in a block that has room for it.\<close>

lemma ins_key_end:
  assumes "sz + (lensize (length key) + length key + sizeof_value) \<le> length b" and "take sz b = enc es"
    and "sz = length (enc es)"
  shows "\<exists>b'. ins_key b sz key = Ok (sz + lensize (length key) + length key,
      sz + lensize (length key) + length key + sizeof_value, b') \<and> length b' = length b \<and>
     take (sz + (lensize (length key) + length key + sizeof_value)) b' = enc (es @ [(key, 0)])"
proof -
  define n where "n = lensize (length key) + length key + sizeof_value"
  obtain x0 x1 x2 q where b: "b = enc es @ x0 @ x1 @ x2 @ q" "length x0 = lensize (length key)"
    "length x1 = length key" "length x2 = sizeof_value"
  proof
    let ?r = "drop sz b"
    let ?r1 = "drop (lensize (length key)) ?r"
    let ?r2 = "drop (length key) ?r1"
    show "b = enc es @ take (lensize (length key)) ?r @ take (length key) ?r1 @ take sizeof_value ?r2 @
        drop sizeof_value ?r2"
      unfolding append_take_drop_id assms(2) [symmetric] by (rule refl)
  qed (use assms in auto)
  let ?l = "len_bytes (length key)" and ?v = "le_bytes sizeof_value (0 :: value_t)"
  have 1: "blk_write b sz ?l = Ok (enc es @ ?l @ x1 @ x2 @ q)"
    using b assms(3) put_at_middle [of sz "enc es" x0 ?l "x1 @ x2 @ q"] by (simp add: blk_write_def)
  have 2: "blk_write (enc es @ ?l @ x1 @ x2 @ q) (sz + lensize (length key)) key = Ok (enc es @ ?l @ key @ x2 @ q)"
    using b assms(3) put_at_middle [of "sz + lensize (length key)" "enc es @ ?l" x1 key "x2 @ q"]
    by (simp add: blk_write_def)
  have 3: "blk_write (enc es @ ?l @ key @ x2 @ q) (sz + lensize (length key) + length key) ?v =
      Ok (enc es @ ?l @ key @ ?v @ q)"
    using b assms(3) put_at_middle [of "sz + lensize (length key) + length key" "enc es @ ?l @ key" x2 ?v q]
    by (simp add: blk_write_def)
  have "ins_key b sz key = Ok (sz + lensize (length key) + length key,
      sz + lensize (length key) + length key + sizeof_value, enc es @ ?l @ key @ ?v @ q)"
    by (simp only: ins_key_def 1 2 3 Let_def res_bind.simps)
  then show ?thesis
    using b assms(3) by (intro exI [of _ "enc es @ ?l @ key @ ?v @ q"]) (simp add: enc1_def)
qed

section \<open>What a table holds\<close>

definition home :: "nat \<Rightarrow> byte list \<Rightarrow> nat" where
  "home n k = unat (hash k) mod n"

definition table_rep :: "ahtable \<Rightarrow> (byte list \<times> value_t) list list \<Rightarrow> bool" where
  "table_rep T ess \<longleftrightarrow> 0 < tn T \<and> length ess = tn T \<and> length (slots T) = tn T \<and> length (slot_sizes T) = tn T \<and>
     (\<forall>i<tn T. slot_rep (slots T ! i) (slot_sizes T ! i) (ess ! i) \<and> (\<forall>e\<in>set (ess ! i). home (tn T) (fst e) = i)) \<and>
     tm T = length (concat ess) \<and> tmax_m T = ahtable_max_load_factor * tn T"

lemma table_repD:
  assumes "table_rep T ess"
  shows "0 < tn T" "length ess = tn T" "length (slots T) = tn T" "length (slot_sizes T) = tn T"
    "i < tn T \<Longrightarrow> slot_rep (slots T ! i) (slot_sizes T ! i) (ess ! i)"
    "i < tn T \<Longrightarrow> e \<in> set (ess ! i) \<Longrightarrow> home (tn T) (fst e) = i"
    "tm T = length (concat ess)" "tmax_m T = ahtable_max_load_factor * tn T"
  using assms by (auto simp: table_rep_def)

lemma home_less [simp]: "0 < n \<Longrightarrow> home n k < n"
  by (simp add: home_def)

lemma slot_of_rep: "0 < tn T \<Longrightarrow> slot_of T key = Ok (home (tn T) key)"
  by (simp add: slot_of_def home_def)

text \<open>The entries of all slots together.\<close>

lemma keys_concatE:
  assumes "k \<in> fst ` set (concat ess)"
  obtains j e where "j < length ess" "e \<in> set (ess ! j)" "k = fst e"
proof -
  from assms obtain es e where "es \<in> set ess" "e \<in> set es" "k = fst e" by auto
  with that show ?thesis by (metis in_set_conv_nth)
qed

lemma map_of_concat:
  assumes "\<And>i e. i < length ess \<Longrightarrow> e \<in> set (ess ! i) \<Longrightarrow> f (fst e) = i + d" and "f k < length ess + d" and "d \<le> f k"
  shows "map_of (concat ess) k = map_of (ess ! (f k - d)) k"
  using assms
proof (induction ess arbitrary: d)
  case Nil
  then show ?case by simp
next
  case (Cons es ess)
  have hd: "f (fst e) = d" if "e \<in> set es" for e using Cons.prems(1) [of 0 e] that by simp
  show ?case
  proof (cases "f k = d")
    case True
    have "k \<notin> fst ` set (concat ess)"
    proof
      assume "k \<in> fst ` set (concat ess)"
      then obtain j e where "j < length ess" "e \<in> set (ess ! j)" "k = fst e"
        by (rule keys_concatE)
      with Cons.prems(1) [of "Suc j" e] True show False by simp
    qed
    then have "map_of (concat ess) k = None" by (simp add: map_of_eq_None_iff)
    with True show ?thesis by (simp add: map_add_def split: option.splits)
  next
    case False
    then have "k \<notin> fst ` set es" using hd by auto
    then have "map_of es k = None" by (simp add: map_of_eq_None_iff)
    moreover have "map_of (concat ess) k = map_of (ess ! (f k - Suc d)) k"
    proof (rule Cons.IH)
      fix i e assume "i < length ess" "e \<in> set (ess ! i)"
      with Cons.prems(1) [of "Suc i" e] show "f (fst e) = i + Suc d" by simp
    qed (use Cons.prems(2,3) False in auto)
    ultimately show ?thesis using Cons.prems(2,3) False by (simp add: map_add_def nth_Cons' split: option.splits)
  qed
qed

lemma table_rep_map_of:
  assumes "table_rep T ess"
  shows "map_of (concat ess) k = map_of (ess ! home (tn T) k) k"
  using map_of_concat [of ess "home (tn T)" 0 k] table_repD [OF assms] by simp

lemma distinct_concat_homes:
  assumes "\<And>i. i < length ess \<Longrightarrow> distinct (map fst (ess ! i))"
    and "\<And>i e. i < length ess \<Longrightarrow> e \<in> set (ess ! i) \<Longrightarrow> f (fst e) = i + (d :: nat)"
  shows "distinct (map fst (concat ess))"
  using assms
proof (induction ess arbitrary: d)
  case Nil
  then show ?case by simp
next
  case (Cons es ess)
  have "distinct (map fst (concat ess))"
  proof (rule Cons.IH)
    show "distinct (map fst (ess ! i))" if "i < length ess" for i using Cons.prems(1) [of "Suc i"] that by simp
    show "f (fst e) = i + Suc d" if "i < length ess" "e \<in> set (ess ! i)" for i e
      using Cons.prems(2) [of "Suc i" e] that by simp
  qed
  moreover have "fst ` set es \<inter> fst ` set (concat ess) = {}"
  proof (rule ccontr)
    assume "fst ` set es \<inter> fst ` set (concat ess) \<noteq> {}"
    then obtain e where "e \<in> set es" "fst e \<in> fst ` set (concat ess)" by blast
    moreover from this(2) obtain j e' where "j < length ess" "e' \<in> set (ess ! j)" "fst e = fst e'"
      by (rule keys_concatE)
    moreover note Cons.prems(2) [of 0 e] Cons.prems(2) [of "Suc j" e']
    ultimately show False by simp
  qed
  ultimately show ?case using Cons.prems(1) [of 0] by simp
qed

lemma table_rep_distinct:
  assumes "table_rep T ess"
  shows "distinct (map fst (concat ess))"
  using distinct_concat_homes [of ess "home (tn T)" 0] table_repD [OF assms] by (simp add: slot_rep_def)

section \<open>The unsorted iterator visits every entry once\<close>

definition iter_at :: "ahtable \<Rightarrow> (byte list \<times> value_t) list list \<Rightarrow> unsorted_iter \<Rightarrow> (byte list \<times> value_t) list \<Rightarrow> bool" where
  "iter_at T ess it rest \<longleftrightarrow>
     (ui it < tn T \<and> (\<exists>pre post. ess ! ui it = pre @ post \<and> post \<noteq> [] \<and> us it = length (enc pre) \<and>
        rest = post @ concat (drop (Suc (ui it)) ess))) \<or> (tn T \<le> ui it \<and> rest = [])"

lemma enc1_not_Nil [simp]: "enc1 e \<noteq> []"
proof
  assume "enc1 e = []"
  then have "length (enc1 e) = 0" by simp
  then show False by (simp add: sizeof_value_def)
qed

lemma enc_empty [simp]: "enc es = [] \<longleftrightarrow> es = []"
  by (cases es) auto


lemma next_slot_at:
  assumes "table_rep T ess"
  shows "i \<le> tn T \<Longrightarrow> iter_at T ess \<lparr>ui = next_slot T i, us = 0\<rparr> (concat (drop i ess))"
  using assms
proof (induction T i rule: next_slot.induct)
  case (1 T i)
  show ?case
  proof (cases "i < tn T")
    case True
    with table_repD(5) [OF 1(3) True] have sz: "slot_sizes T ! i = length (enc (ess ! i))" by (simp add: slot_rep_def)
    have split: "drop i ess = ess ! i # drop (Suc i) ess"
      using True table_repD(2) [OF 1(3)] by (simp add: Cons_nth_drop_Suc)
    show ?thesis
    proof (cases "ess ! i = []")
      case empty: True
      with True sz have "next_slot T i = next_slot T (Suc i)" by (subst next_slot.simps) simp
      with 1 True sz empty split show ?thesis by simp
    next
      case False
      then have "next_slot T i = i" using sz by (subst next_slot.simps) simp
      with True False split show ?thesis by (auto simp: iter_at_def)
    qed
  next
    case False
    then have "next_slot T i = i" by (subst next_slot.simps) simp
    with False table_repD(2) [OF 1(3)] show ?thesis by (auto simp: iter_at_def)
  qed
qed

lemma iter_at_begin: "table_rep T ess \<Longrightarrow> iter_at T ess (unsorted_iter_begin T) (concat ess)"
  using next_slot_at [of T ess 0] by (simp add: unsorted_iter_begin_def)

lemma iter_at_finished: "iter_at T ess it rest \<Longrightarrow> unsorted_iter_finished T it \<longleftrightarrow> rest = []"
  by (auto simp: iter_at_def unsorted_iter_finished_def)

text \<open>The entry an iterator stands at.\<close>

lemma iter_atE:
  assumes "table_rep T ess" and "iter_at T ess it (e # rest)"
  obtains pre post junk where "ui it < tn T" "ess ! ui it = pre @ e # post" "us it = length (enc pre)"
    "rest = post @ concat (drop (Suc (ui it)) ess)" "slots T ! ui it = enc pre @ enc1 e @ enc post @ junk"
    "short e" "slot_sizes T ! ui it = length (enc pre) + length (enc1 e) + length (enc post)"
proof -
  from assms(2) obtain pre post where p: "ui it < tn T" "ess ! ui it = pre @ e # post" "us it = length (enc pre)"
    "rest = post @ concat (drop (Suc (ui it)) ess)" by (auto simp: iter_at_def Cons_eq_append_conv)
  from table_repD(5) [OF assms(1) p(1)] p(2) obtain junk where
    "slots T ! ui it = enc pre @ enc1 e @ enc post @ junk" "short e"
    "slot_sizes T ! ui it = length (enc pre) + length (enc1 e) + length (enc post)" by (auto simp: slot_rep_def)
  with p show ?thesis by (rule that)
qed

lemma enc1_keylen:
  assumes "short e" and "s = length p"
  shows "keylen (p @ enc1 e @ q) s = Ok (length (fst e))"
  using assms keylen_at [of "length (fst e)" s p "fst e @ le_bytes sizeof_value (snd e) @ q"]
  by (simp add: enc1_def short_def)

lemma iter_at_key:
  assumes "table_rep T ess" and "iter_at T ess it (e # rest)"
  shows "unsorted_iter_key T it = Ok (Some (fst e))"
proof -
  from iter_atE [OF assms] obtain pre post junk where
    s: "slots T ! ui it = enc pre @ enc1 e @ enc post @ junk" "short e" "us it = length (enc pre)" by metis
  let ?k = "length (fst e)"
  have "blk_read (slots T ! ui it) (us it + lensize ?k) ?k = Ok (fst e)"
    using s blk_read_at [of "us it + lensize ?k" "enc pre @ len_bytes ?k" ?k "fst e"
        "le_bytes sizeof_value (snd e) @ enc post @ junk"] by (simp add: enc1_def)
  then show ?thesis
    using iter_at_finished [OF assms(2)] s enc1_keylen [OF s(2,3)] by (simp add: unsorted_iter_key_def)
qed

lemma iter_at_val:
  assumes "table_rep T ess" and "iter_at T ess it (e # rest)"
  shows "\<exists>r. unsorted_iter_val T it = Ok (Some r) \<and> val_read T r = Ok (snd e)"
proof -
  from iter_atE [OF assms] obtain pre post where
    s: "ui it < tn T" "ess ! ui it = pre @ (fst e, snd e) # post" "us it = length (enc pre)"
    by (metis prod.collapse)
  let ?k = "length (fst e)"
  have "slot_rep (slots T ! ui it) (slot_sizes T ! ui it) (pre @ (fst e, snd e) # post)"
    using table_repD(5) [OF assms(1) s(1)] s(2) by simp
  from slot_rep_value(1) [OF this refl] have
    "val_read T (ui it, us it + lensize ?k + ?k) = Ok (snd e)"
    using s table_repD(3) [OF assms(1)] by (simp add: val_read_def sizeof_value_def)
  moreover have "unsorted_iter_val T it = Ok (Some (ui it, us it + lensize ?k + ?k))"
  proof -
    from iter_atE [OF assms] obtain pre post junk where
      "slots T ! ui it = enc pre @ enc1 e @ enc post @ junk" "short e" "us it = length (enc pre)" by metis
    then show ?thesis
      using iter_at_finished [OF assms(2)] enc1_keylen by (simp add: unsorted_iter_val_def)
  qed
  ultimately show ?thesis by blast
qed

lemma iter_at_next:
  assumes "table_rep T ess" and "iter_at T ess it (e # rest)"
  shows "\<exists>it'. unsorted_iter_next T it = Ok it' \<and> iter_at T ess it' rest"
proof -
  from iter_atE [OF assms] obtain pre post junk where s: "ui it < tn T" "ess ! ui it = pre @ e # post"
    "us it = length (enc pre)" "rest = post @ concat (drop (Suc (ui it)) ess)"
    "slots T ! ui it = enc pre @ enc1 e @ enc post @ junk" "short e"
    "slot_sizes T ! ui it = length (enc pre) + length (enc1 e) + length (enc post)" .
  let ?s = "length (enc pre) + length (enc1 e)"
  have run: "unsorted_iter_next T it = Ok (if post = [] then \<lparr>ui = next_slot T (Suc (ui it)), us = 0\<rparr> else it\<lparr>us := ?s\<rparr>)"
    using iter_at_finished [OF assms(2)] s enc1_keylen [OF s(6,3)]
    by (simp add: unsorted_iter_next_def Let_def add.assoc)
  show ?thesis
  proof (cases "post = []")
    case True
    with run s(1,4) next_slot_at [OF assms(1), of "Suc (ui it)"] show ?thesis by simp
  next
    case False
    have "iter_at T ess (it\<lparr>us := ?s\<rparr>) rest"
      unfolding iter_at_def using s(1,2,4) False
      by (intro disjI1 conjI exI [of _ "pre @ [e]"] exI [of _ post]) auto
    with run False show ?thesis by simp
  qed
qed

lemma iter_loop_fold:
  assumes rep: "table_rep T ess" and body: "\<And>it e rest a. iter_at T ess it (e # rest) \<Longrightarrow> body it a = g e a"
  shows "iter_at T ess it rest \<Longrightarrow> iter_loop T body it a = res_fold g rest a"
proof (induction rest arbitrary: it a)
  case Nil
  then show ?case using iter_at_finished [OF Nil] by (subst iter_loop.simps) simp
next
  case (Cons e rest)
  from iter_at_next [OF rep Cons.prems] obtain it' where
    it': "unsorted_iter_next T it = Ok it'" "iter_at T ess it' rest" by blast
  show ?case
    using iter_at_finished [OF Cons.prems] body [OF Cons.prems] it' Cons.IH [OF it'(2)]
    by (subst iter_loop.simps) (cases "g e a", auto)
qed

section \<open>Growing keeps the entries\<close>

definition bucket :: "nat \<Rightarrow> (byte list \<times> value_t) list \<Rightarrow> nat \<Rightarrow> (byte list \<times> value_t) list" where
  "bucket n es h = filter (\<lambda>e. home n (fst e) = h) es"

lemma bucket_simps [simp]:
  "bucket n [] h = []" "bucket n (es @ fs) h = bucket n es h @ bucket n fs h"
  "bucket n [e] h = (if home n (fst e) = h then [e] else [])"
  by (simp_all add: bucket_def)

lemma map_of_bucket: "map_of (bucket n es (home n k)) k = map_of es k"
  by (induction es) (auto simp: bucket_def)

lemma length_buckets: "0 < n \<Longrightarrow> length (concat (map (bucket n es) [0..<n])) = length es"
proof (induction es)
  case Nil
  then show ?case by (simp add: length_concat comp_def)
next
  case (Cons e es)
  have sum: "length (concat (map (bucket n fs) [0..<n])) = (\<Sum>h<n. length (bucket n fs h))" for fs
    by (simp add: length_concat comp_def interv_sum_list_conv_sum_set_nat atLeast0LessThan)
  have "(\<Sum>h<n. length (bucket n (e # es) h)) = (\<Sum>h<n. length (bucket n es h)) + 1"
    using Cons.prems by (intro sum_one_more [of "home n (fst e)"]) (auto simp: bucket_def)
  with Cons sum show ?case by simp
qed

lemma expand_count_fold:
  assumes "0 < n"
  shows "res_fold (\<lambda>e a. Ok ((fst a)[home n (fst e) := fst a ! home n (fst e) +
      (length (fst e) + sizeof_value + (if length (fst e) \<ge> 128 then 2 else 1))], Suc (snd a))) es (replicate n 0, 0) =
     Ok (map (\<lambda>h. length (enc (bucket n es h))) [0..<n], length es)"
    (is "res_fold ?g es _ = _")
proof -
  define I where "I ys a \<longleftrightarrow> a = (map (\<lambda>h. length (enc (bucket n ys h))) [0..<n], length ys)"
    for ys :: "(byte list \<times> value_t) list" and a
  have "\<exists>a'. res_fold ?g es (replicate n 0, 0) = Ok a' \<and> I es a'"
  proof (rule res_fold_inv)
    show "I [] (replicate n 0, 0)" by (simp add: I_def map_replicate_trivial flip: map_replicate_const)
    fix ys x zs a assume "es = ys @ x # zs" "I ys a"
    then show "\<exists>a'. ?g x a = Ok a' \<and> I (ys @ [x]) a'"
      using home_less [OF assms, of "fst x"]
      by (auto simp: I_def list_eq_iff_nth_eq nth_list_update lensize_def)
  qed
  then show ?thesis by (simp add: I_def)
qed

definition moved :: "nat \<Rightarrow> (byte list \<times> value_t) list \<Rightarrow> (byte list \<times> value_t) list \<Rightarrow>
    (block list \<times> nat list) \<times> nat \<Rightarrow> bool" where
  "moved n es ys a \<longleftrightarrow> (case a of ((bs, ends), m) \<Rightarrow>
     m = length ys \<and> length bs = n \<and> length ends = n \<and>
     (\<forall>h<n. ends ! h = length (enc (bucket n ys h)) \<and> length (bs ! h) = length (enc (bucket n es h)) \<and>
        take (ends ! h) (bs ! h) = enc (bucket n ys h)))"

lemma expand_move_step:
  assumes n: "0 < n" and es: "es = ys @ e # zs" and I: "moved n es ys ((bs, ends), m)" and h: "h = home n (fst e)"
  shows "\<exists>u b1 b2. ins_key (bs ! h) (ends ! h) (fst e) = Ok (u, ends ! h + length (enc1 e), b1) \<and>
     blk_write b1 u (le_bytes sizeof_value (snd e)) = Ok b2 \<and>
     moved n es (ys @ [e]) ((bs[h := b2], ends[h := ends ! h + length (enc1 e)]), Suc m)"
proof -
  have hn: "h < n" using n h by simp
  from I hn have at: "ends ! h = length (enc (bucket n ys h))" "length (bs ! h) = length (enc (bucket n es h))"
    "take (ends ! h) (bs ! h) = enc (bucket n ys h)" "length bs = n" "length ends = n" by (auto simp: moved_def)
  let ?k = "length (fst e)" and ?s = "ends ! h"
  have room: "?s + (lensize ?k + ?k + sizeof_value) \<le> length (bs ! h)"
    using at(1,2) es h bucket_simps(2) [of n "[e]" zs h] by simp
  from ins_key_end [OF room at(3,1)] obtain b1 where b1:
    "ins_key (bs ! h) ?s (fst e) = Ok (?s + lensize ?k + ?k, ?s + lensize ?k + ?k + sizeof_value, b1)"
    "length b1 = length (bs ! h)" "take (?s + (lensize ?k + ?k + sizeof_value)) b1 = enc (bucket n ys h @ [(fst e, 0)])"
    by blast
  let ?u = "?s + lensize ?k + ?k"
  define b2 where "b2 = put_at b1 ?u (le_bytes sizeof_value (snd e))"
  have w: "blk_write b1 ?u (le_bytes sizeof_value (snd e)) = Ok b2"
    using room b1(2) by (simp add: b2_def blk_write_def)
  have len2: "length b2 = length (bs ! h)" using room b1(2) by (simp add: b2_def)
  define q where "q = drop (?s + (lensize ?k + ?k + sizeof_value)) b1"
  have "b1 = enc (bucket n ys h @ [(fst e, 0)]) @ q"
    unfolding q_def by (simp only: b1(3) [symmetric] append_take_drop_id)
  then have q: "b1 = (enc (bucket n ys h) @ len_bytes ?k @ fst e) @ le_bytes sizeof_value (0 :: value_t) @ q"
    by (simp add: enc1_def)
  have "b2 = (enc (bucket n ys h) @ len_bytes ?k @ fst e) @ le_bytes sizeof_value (snd e) @ q"
    unfolding b2_def q using at(1) by (intro put_at_middle) auto
  then have "take (?s + length (enc1 e)) b2 = enc (bucket n ys h @ [e])" using at(1) by (simp add: enc1_def)
  then have "moved n es (ys @ [e]) ((bs[h := b2], ends[h := ?s + length (enc1 e)]), Suc m)"
    using I at hn len2 h by (auto simp: moved_def nth_list_update)
  with b1(1) w show ?thesis by (auto simp: add.assoc)
qed

text \<open>The first loop counts the bytes of every new slot, the second moves the entries.\<close>

definition new_sizes :: "nat \<Rightarrow> (byte list \<times> value_t) list \<Rightarrow> nat list" where
  "new_sizes n es = map (\<lambda>h. length (enc (bucket n es h))) [0..<n]"

lemma expand_count_loop:
  assumes rep: "table_rep T ess" and n: "0 < n"
  shows "iter_loop T (expand_count T n) (unsorted_iter_begin T) (replicate n 0, 0) = Ok (new_sizes n (concat ess), length (concat ess))"
proof -
  have "iter_loop T (expand_count T n) (unsorted_iter_begin T) (replicate n 0, 0) = res_fold (\<lambda>e a.
      Ok ((fst a)[home n (fst e) := fst a ! home n (fst e) +
        (length (fst e) + sizeof_value + (if length (fst e) \<ge> 128 then 2 else 1))], Suc (snd a))) (concat ess) (replicate n 0, 0)"
    by (rule iter_loop_fold [OF rep _ iter_at_begin [OF rep]])
      (simp add: expand_count_def iter_at_key [OF rep] some_key_def home_def Let_def)
  then show ?thesis using expand_count_fold [OF n, of "concat ess"] by (simp only: new_sizes_def)
qed

lemma expand_move_loop:
  assumes rep: "table_rep T ess" and n: "0 < n"
  shows "\<exists>bs ends. iter_loop T (expand_move T n) (unsorted_iter_begin T)
      ((map (\<lambda>n. replicate n 0) (new_sizes n (concat ess)), replicate n 0), 0) = Ok ((bs, ends), length (concat ess)) \<and>
    moved n (concat ess) (concat ess) ((bs, ends), length (concat ess))"
proof -
  let ?es = "concat ess"
  define g where "g e a = (let ((bs, ends), m) = a; h = home n (fst e) in
      res_bind (ins_key (bs ! h) (ends ! h) (fst e)) (\<lambda>(u, next, b1).
      res_bind (blk_write b1 u (le_bytes sizeof_value (snd e))) (\<lambda>b2.
        Ok ((bs[h := b2], ends[h := next]), Suc m))))" for e :: "byte list \<times> value_t" and a
  have "iter_loop T (expand_move T n) (unsorted_iter_begin T) a = res_fold g ?es a" for a
  proof (rule iter_loop_fold [OF rep _ iter_at_begin [OF rep]])
    fix it e rest a assume at: "iter_at T ess it (e # rest)"
    from iter_at_val [OF rep at] obtain r where "unsorted_iter_val T it = Ok (Some r)" "val_read T r = Ok (snd e)"
      by blast
    then show "expand_move T n it a = g e a"
      by (simp add: expand_move_def g_def iter_at_key [OF rep at] some_key_def home_def Let_def split: prod.splits)
  qed
  moreover have "\<exists>a'. res_fold g ?es ((map (\<lambda>n. replicate n 0) (new_sizes n ?es), replicate n 0), 0) = Ok a' \<and> moved n ?es ?es a'"
  proof (rule res_fold_inv [where I = "moved n ?es"])
    show "moved n ?es [] ((map (\<lambda>n. replicate n 0) (new_sizes n ?es), replicate n 0), 0)" by (simp add: moved_def new_sizes_def)
    fix ys x zs a assume a: "?es = ys @ x # zs" "moved n ?es ys a"
    obtain bs ends m where "a = ((bs, ends), m)" by (metis prod.exhaust)
    with expand_move_step [OF n a(1), of bs ends m "home n (fst x)"] a(2) show "\<exists>b'. g x a = Ok b' \<and> moved n ?es (ys @ [x]) b'"
      by (fastforce simp: g_def Let_def)
  qed
  ultimately show ?thesis by (auto simp: moved_def split: prod.splits)
qed

lemma table_rep_moved:
  assumes rep: "table_rep T ess" and n: "0 < n" and move: "moved n (concat ess) (concat ess) ((bs, ends), length (concat ess))"
  shows "table_rep (T\<lparr>slots := bs, slot_sizes := new_sizes n (concat ess), tn := n, tmax_m := ahtable_max_load_factor * n\<rparr>) (map (bucket n (concat ess)) [0..<n])"
proof -
  let ?es = "concat ess"
  have "bs ! h = enc (bucket n ?es h)" if "h < n" for h
    using move that by (auto simp: moved_def)
  moreover have "short e" if e: "e \<in> set ?es" for e
  proof -
    from e obtain j where "j < length ess" "e \<in> set (ess ! j)"
      by (auto simp: in_set_conv_nth [of _ ess])
    with table_repD(2,5) [OF rep] show ?thesis by (auto simp: slot_rep_def)
  qed
  moreover have "distinct (map fst (bucket n ?es h))" for h
    using table_rep_distinct [OF rep] by (simp add: bucket_def distinct_map_filter)
  ultimately have "slot_rep (bs ! h) (new_sizes n ?es ! h) (bucket n ?es h)" if "h < n" for h
    using that by (auto simp: slot_rep_def new_sizes_def bucket_def)
  moreover have "length bs = n" using move by (simp add: moved_def)
  ultimately show ?thesis
    using n table_repD(7) [OF rep] length_buckets [OF n, of ?es] by (auto simp: table_rep_def new_sizes_def bucket_def)
qed

lemma ahtable_expand_rep:
  assumes rep: "table_rep T ess"
  shows "\<exists>T' ess'. ahtable_expand T = Ok T' \<and> table_rep T' ess' \<and> tn T' = 2 * tn T \<and> tm T' = tm T \<and>
     (\<forall>k. map_of (ess' ! home (tn T') k) k = map_of (ess ! home (tn T) k) k) \<and>
     tflag T' = tflag T \<and> tc0 T' = tc0 T \<and> tc1 T' = tc1 T"
proof -
  define n where "n = 2 * tn T"
  have n: "0 < n" using table_repD(1) [OF rep] by (simp add: n_def)
  from expand_move_loop [OF rep n] obtain bs ends where move: "iter_loop T (expand_move T n) (unsorted_iter_begin T)
      ((map (\<lambda>n. replicate n 0) (new_sizes n (concat ess)), replicate n 0), 0) = Ok ((bs, ends), length (concat ess))"
    "moved n (concat ess) (concat ess) ((bs, ends), length (concat ess))" by blast
  let ?T = "T\<lparr>slots := bs, slot_sizes := new_sizes n (concat ess), tn := n, tmax_m := ahtable_max_load_factor * n\<rparr>"
  let ?ess = "map (bucket n (concat ess)) [0..<n]"
  have "ahtable_expand T = Ok ?T"
    using expand_count_loop [OF rep n] move(1) table_repD(1,7) [OF rep] by (simp add: ahtable_expand_def Let_def n_def [symmetric])
  moreover have "map_of (?ess ! home n k) k = map_of (ess ! home (tn T) k) k" for k
    using n map_of_bucket [of n "concat ess" k] table_rep_map_of [OF rep] by simp
  ultimately show ?thesis using table_rep_moved [OF rep n move(2)] by (intro exI [of _ ?T] exI [of _ ?ess]) (simp add: n_def)
qed

section \<open>The operations on the map a table stands for\<close>

definition ahtable_rep :: "ahtable \<Rightarrow> array_t \<Rightarrow> bool" where
  "ahtable_rep T M \<longleftrightarrow> (\<exists>ess. table_rep T ess \<and> (\<forall>k. fmlookup M k = map_of (ess ! home (tn T) k) k))"

lemma length_concat_update:
  "i < length ess \<Longrightarrow> length (concat (ess[i := es])) + length (ess ! i) = length (concat ess) + length es"
proof (induction ess arbitrary: i)
  case (Cons a ess)
  show ?case
  proof (cases i)
    case (Suc j)
    with Cons.IH [of j] Cons.prems show ?thesis by simp
  qed simp
qed simp

lemma table_rep_update:
  assumes rep: "table_rep T ess" and i: "i < tn T"
    and slot: "slot_rep b sz es" "\<forall>e\<in>set es. home (tn T) (fst e) = i" and m: "m + length (ess ! i) = tm T + length es"
  shows "table_rep (T\<lparr>slots := (slots T)[i := b], slot_sizes := (slot_sizes T)[i := sz], tm := m\<rparr>) (ess[i := es])"
  using rep i slot m length_concat_update [of i ess es] table_repD [OF rep]
  by (auto simp: table_rep_def nth_list_update)

lemma map_of_update_slot:
  assumes "table_rep T ess" and "i < tn T" and "i = home (tn T) key"
    and "\<And>k. home (tn T) k = i \<Longrightarrow> map_of es k = fmlookup M' k"
    and "\<And>k. k \<noteq> key \<Longrightarrow> fmlookup M' k = fmlookup M k"
    and "\<And>k. fmlookup M k = map_of (ess ! home (tn T) k) k"
  shows "fmlookup M' k = map_of (ess[i := es] ! home (tn T) k) k"
  using assms(4) [of k] assms(5) [of k] assms(6) [of k] assms(1-3) table_repD(2) [OF assms(1)]
  by (cases "home (tn T) k = i") auto

text \<open>A pointer to the value of an entry.\<close>

lemma entry_pointer:
  assumes rep: "table_rep T ess" and M: "\<And>k. fmlookup M k = map_of (ess ! home (tn T) k) k"
    and i: "i = home (tn T) key" and at: "ess ! i = pre @ (key, v) # post" "key \<notin> fst ` set pre"
    and off: "off = length (enc pre) + lensize (length key) + length key"
  shows "val_read T (i, off) = Ok v \<and> fmlookup M key = Some v \<and>
    (\<forall>u. \<exists>T'. val_write T (i, off) u = Ok T' \<and> ahtable_rep T' (array_set M key u) \<and>
       tflag T' = tflag T \<and> tc0 T' = tc0 T \<and> tc1 T' = tc1 T)"
proof (intro conjI allI)
  have il: "i < tn T" using table_repD(1) [OF rep] i by simp
  have slot: "slot_rep (slots T ! i) (slot_sizes T ! i) (pre @ (key, v) # post)"
    using table_repD(5) [OF rep il] at(1) by simp
  show "val_read T (i, off) = Ok v"
    using slot_rep_value(1) [OF slot off] il table_repD(3) [OF rep] by (simp add: val_read_def sizeof_value_def)
  have pre: "map_of pre key = None" using at(2) by (simp add: map_of_eq_None_iff)
  then show "fmlookup M key = Some v" using M [of key] i at(1) by (simp add: map_add_def)
  fix u
  from slot_rep_value(2) [OF slot off, of u] obtain b where
    b: "blk_write (slots T ! i) off (le_bytes sizeof_value u) = Ok b"
      "slot_rep b (slot_sizes T ! i) (pre @ (key, u) # post)" by blast
  let ?T = "T\<lparr>slots := (slots T)[i := b], slot_sizes := (slot_sizes T)[i := slot_sizes T ! i], tm := tm T\<rparr>"
  let ?ess = "ess[i := pre @ (key, u) # post]"
  have "table_rep ?T ?ess"
    using at(1) i table_repD(6) [OF rep il] by (intro table_rep_update [OF rep il b(2)]) auto
  moreover have "fmlookup (array_set M key u) k = map_of (?ess ! home (tn T) k) k" for k
  proof (rule map_of_update_slot [OF rep il i _ _ M])
    fix k assume "home (tn T) k = i"
    then show "map_of (pre @ (key, u) # post) k = fmlookup (array_set M key u) k"
      using M [of k] at(1) pre by (auto simp: array_set_def map_add_def split: option.splits)
  qed (simp add: array_set_def)
  moreover have "val_write T (i, off) u = Ok ?T"
    using b(1) il table_repD(3) [OF rep] by (simp add: val_write_def)
  ultimately show "\<exists>T'. val_write T (i, off) u = Ok T' \<and> ahtable_rep T' (array_set M key u) \<and>
       tflag T' = tflag T \<and> tc0 T' = tc0 T \<and> tc1 T' = tc1 T"
    unfolding ahtable_rep_def by (intro exI [of _ ?T] conjI exI [of _ ?ess]) auto
qed

lemma slot_append_rep:
  assumes "slot_rep b sz es" and "key \<notin> fst ` set es" and "length key \<le> 32767"
  shows "\<exists>b'. ins_key (realloc_block b (sz + (lensize (length key) + length key + sizeof_value))) sz key =
      Ok (sz + lensize (length key) + length key, sz + lensize (length key) + length key + sizeof_value, b') \<and>
     slot_rep b' (sz + (lensize (length key) + length key + sizeof_value)) (es @ [(key, 0)])"
proof -
  let ?n = "sz + (lensize (length key) + length key + sizeof_value)"
  from assms(1) obtain junk where b: "b = enc es @ junk" "sz = length (enc es)" by (auto simp: slot_rep_def)
  have "take sz (realloc_block b ?n) = enc es" using b by (simp add: realloc_block_def)
  moreover have len: "length (realloc_block b ?n) = ?n" by (simp add: realloc_block_def min_def)
  ultimately obtain b' where b': "ins_key (realloc_block b ?n) sz key =
      Ok (sz + lensize (length key) + length key, sz + lensize (length key) + length key + sizeof_value, b')"
    "length b' = ?n" "take ?n b' = enc (es @ [(key, 0)])"
    using ins_key_end [of sz key "realloc_block b ?n" es] b(2) by auto
  have "slot_rep b' ?n (es @ [(key, 0)])"
    using b' assms b(2) by (auto simp: slot_rep_def short_def)
  with b'(1) show ?thesis by blast
qed

lemma ahtable_repI: "table_rep T ess \<Longrightarrow> (\<And>k. fmlookup M k = map_of (ess ! home (tn T) k) k) \<Longrightarrow> ahtable_rep T M"
  unfolding ahtable_rep_def by blast

text \<open>Where \<open>get_key\<close> finds a key, and what it does when it is missing.\<close>

lemma find_in_table:
  assumes rep: "table_rep T ess" and M: "\<And>k. fmlookup M k = map_of (ess ! home (tn T) k) k"
    and i: "i = home (tn T) key"
  shows "(fmlookup M key = None \<and> slot_find (slots T ! i) (slot_sizes T ! i) key 0 = Ok None \<and> key \<notin> fst ` set (ess ! i)) \<or>
    (\<exists>pre v post. ess ! i = pre @ (key, v) # post \<and> key \<notin> fst ` set pre \<and> fmlookup M key = Some v \<and>
       slot_find (slots T ! i) (slot_sizes T ! i) key 0 = Ok (Some (length (enc pre) + lensize (length key))))"
proof -
  have "i < tn T" using i table_repD(1) [OF rep] by simp
  then have find: "slot_find (slots T ! i) (slot_sizes T ! i) key 0 = Ok (find_off key (ess ! i) 0)"
    using table_repD(5) [OF rep] by (intro slot_rep_find)
  show ?thesis
  proof (cases "find_off key (ess ! i) 0")
    case None
    then have "key \<notin> fst ` set (ess ! i)" by (simp only: find_off_None not_False_eq_True)
    moreover from this have "fmlookup M key = None" using M [of key] i by (simp add: map_of_eq_None_iff)
    ultimately show ?thesis using None find by simp
  next
    case (Some s)
    from find_off_Some [OF Some] obtain pre v post where
      p: "ess ! i = pre @ (key, v) # post" "key \<notin> fst ` set pre" "s = length (enc pre) + lensize (length key)" by auto
    moreover from p(2) have "map_of pre key = None" by (simp add: map_of_eq_None_iff)
    with p(1) M [of key] i have "fmlookup M key = Some v" by (simp add: map_add_def)
    ultimately show ?thesis
      using Some find by (intro disjI2 exI [of _ pre] exI [of _ v] exI [of _ post]) simp
  qed
qed

definition same_node :: "ahtable \<Rightarrow> ahtable \<Rightarrow> bool" where
  "same_node T T' \<longleftrightarrow> tflag T' = tflag T \<and> tc0 T' = tc0 T \<and> tc1 T' = tc1 T"

text \<open>The pointer \<open>r\<close> is to the value of \<open>key\<close>.\<close>

definition good_pointer :: "ahtable \<Rightarrow> array_t \<Rightarrow> byte list \<Rightarrow> vref \<Rightarrow> bool" where
  "good_pointer T M key r \<longleftrightarrow> (\<exists>v. fmlookup M key = Some v \<and> val_read T r = Ok v) \<and>
     (\<forall>u. \<exists>T'. val_write T r u = Ok T' \<and> ahtable_rep T' (array_set M key u) \<and> same_node T T')"

lemma insert_missing_rep:
  assumes rep: "table_rep T ess" and M: "\<And>k. fmlookup M k = map_of (ess ! home (tn T) k) k"
    and i: "i = home (tn T) key" and new: "key \<notin> fst ` set (ess ! i)" "fmlookup M key = None" "length key \<le> 32767"
  defines "sz \<equiv> slot_sizes T ! i"
  shows "\<exists>val nxt b T'. ins_key (realloc_block (slots T ! i) (sz + (lensize (length key) + length key + sizeof_value))) sz key =
      Ok (val, nxt, b) \<and>
     T' = T\<lparr>slots := (slots T)[i := b], slot_sizes := (slot_sizes T)[i := sz + (lensize (length key) + length key + sizeof_value)],
       tm := Suc (tm T)\<rparr> \<and> ahtable_rep T' (fmupd key 0 M) \<and> good_pointer T' (fmupd key 0 M) key (i, val)"
proof -
  have il: "i < tn T" using i table_repD(1) [OF rep] by simp
  let ?sz = "sz + (lensize (length key) + length key + sizeof_value)"
  let ?ess = "ess[i := ess ! i @ [(key, 0)]]"
  from slot_append_rep [OF table_repD(5) [OF rep il] new(1,3)] obtain b where
    b: "ins_key (realloc_block (slots T ! i) ?sz) sz key =
      Ok (sz + lensize (length key) + length key, sz + lensize (length key) + length key + sizeof_value, b)"
      "slot_rep b ?sz (ess ! i @ [(key, 0)])" unfolding sz_def by blast
  define T' where "T' = T\<lparr>slots := (slots T)[i := b], slot_sizes := (slot_sizes T)[i := ?sz], tm := Suc (tm T)\<rparr>"
  have rep': "table_rep T' ?ess"
    unfolding T'_def using i table_repD(6) [OF rep il] by (intro table_rep_update [OF rep il b(2)]) auto
  have M': "fmlookup (fmupd key 0 M) k = map_of (?ess ! home (tn T') k) k" for k
  proof -
    have "fmlookup (fmupd key 0 M) k = map_of (?ess ! home (tn T) k) k"
    proof (rule map_of_update_slot [OF rep il i _ _ M])
      fix k assume "home (tn T) k = i"
      then show "map_of (ess ! i @ [(key, 0)]) k = fmlookup (fmupd key 0 M) k"
        using M [of k] new(2) by (auto simp: map_add_def split: option.splits)
    qed simp
    then show ?thesis by (simp add: T'_def)
  qed
  have sz: "sz = length (enc (ess ! i))" using table_repD(5) [OF rep il] by (simp add: sz_def slot_rep_def)
  have "good_pointer T' (fmupd key 0 M) key (i, sz + lensize (length key) + length key)"
    unfolding good_pointer_def same_node_def
    using entry_pointer [OF rep' M', of i key "ess ! i" 0 "[]"] i new(1) il sz table_repD(2) [OF rep]
    by (simp add: T'_def)
  with b(1) ahtable_repI [OF rep' M'] show ?thesis by (auto simp: T'_def)
qed

lemma grow_if_full:
  assumes "ahtable_rep T M"
  shows "\<exists>T' ess. (if b \<and> tm T \<ge> tmax_m T then ahtable_expand T else Ok T) = Ok T' \<and> table_rep T' ess \<and>
     (\<forall>k. fmlookup M k = map_of (ess ! home (tn T') k) k) \<and> same_node T T' \<and> tm T' = tm T \<and> (\<not> b \<longrightarrow> T' = T)"
proof -
  from assms obtain ess where ess: "table_rep T ess" "\<forall>k. fmlookup M k = map_of (ess ! home (tn T) k) k"
    by (auto simp: ahtable_rep_def)
  show ?thesis
  proof (cases "b \<and> tm T \<ge> tmax_m T")
    case True
    from ahtable_expand_rep [OF ess(1)] obtain T' ess' where
      "ahtable_expand T = Ok T'" "table_rep T' ess'" "tm T' = tm T" "same_node T T'"
      "\<forall>k. map_of (ess' ! home (tn T') k) k = map_of (ess ! home (tn T) k) k" by (auto simp: same_node_def)
    with True ess(2) show ?thesis by (intro exI [of _ T'] exI [of _ ess']) auto
  next
    case False
    with ess show ?thesis by (intro exI [of _ T] exI [of _ ess]) (auto simp: same_node_def)
  qed
qed

lemma ahtable_get_rep:
  assumes "ahtable_rep T M" and "length key \<le> 32767"
  shows "\<exists>r T'. ahtable_get T key = Ok (r, T') \<and> ahtable_rep T' (snd (array_get M key)) \<and>
     good_pointer T' (snd (array_get M key)) key r \<and> same_node T T' \<and>
     tm T' = (if fmlookup M key = None then Suc (tm T) else tm T)"
proof -
  from grow_if_full [OF assms(1), of True] obtain T1 ess where
    T1: "(if True \<and> tm T \<ge> tmax_m T then ahtable_expand T else Ok T) = Ok T1" "table_rep T1 ess" "same_node T T1"
      "tm T1 = tm T" and M: "\<And>k. fmlookup M k = map_of (ess ! home (tn T1) k) k" by blast
  define i where "i = home (tn T1) key"
  have slot: "slot_of T1 key = Ok i" using table_repD(1) [OF T1(2)] by (simp add: slot_of_rep i_def)
  from find_in_table [OF T1(2) M i_def] show ?thesis
  proof (elim disjE exE conjE)
    assume none: "fmlookup M key = None" "slot_find (slots T1 ! i) (slot_sizes T1 ! i) key 0 = Ok None"
      "key \<notin> fst ` set (ess ! i)"
    have sz: "slot_sizes T1 ! i + (1 + (if length key \<ge> 128 then 1 else 0)) + length key + sizeof_value =
        slot_sizes T1 ! i + (lensize (length key) + length key + sizeof_value)" by (simp add: lensize_def)
    from insert_missing_rep [OF T1(2) M i_def none(3,1) assms(2)] obtain val nxt b T' where
      new: "ins_key (realloc_block (slots T1 ! i) (slot_sizes T1 ! i + (lensize (length key) + length key + sizeof_value)))
         (slot_sizes T1 ! i) key = Ok (val, nxt, b)"
      "T' = T1\<lparr>slots := (slots T1)[i := b], slot_sizes := (slot_sizes T1)[i := slot_sizes T1 ! i +
         (lensize (length key) + length key + sizeof_value)], tm := Suc (tm T1)\<rparr>"
      "ahtable_rep T' (fmupd key 0 M)" "good_pointer T' (fmupd key 0 M) key (i, val)" by blast
    have "get_key T key True = Ok (Some (i, val), T1\<lparr>slots := (slots T1)[i := b], tm := Suc (tm T1),
        slot_sizes := (slot_sizes T1)[i := slot_sizes T1 ! i + (lensize (length key) + length key + sizeof_value)]\<rparr>)"
      by (simp only: get_key_def T1(1) slot none(2) Let_def sz new(1) res_bind.simps option.case if_True prod.case)
    then have "get_key T key True = Ok (Some (i, val), T')" by (simp add: new(2))
    with none(1) T1 new assms(2) show ?thesis
      by (intro exI [of _ "(i, val)"] exI [of _ T']) (simp add: ahtable_get_def array_get_def same_node_def)
  next
    fix pre v post
    assume some: "ess ! i = pre @ (key, v) # post" "key \<notin> fst ` set pre" "fmlookup M key = Some v"
      "slot_find (slots T1 ! i) (slot_sizes T1 ! i) key 0 = Ok (Some (length (enc pre) + lensize (length key)))"
    have "good_pointer T1 M key (i, length (enc pre) + lensize (length key) + length key)"
      using entry_pointer [OF T1(2) M i_def some(1,2) refl] by (simp add: good_pointer_def same_node_def)
    with some(3,4) T1 slot assms(2) ahtable_repI [OF T1(2) M] show ?thesis
      by (intro exI [of _ "(i, length (enc pre) + lensize (length key) + length key)"] exI [of _ T1])
        (simp add: ahtable_get_def get_key_def array_get_def)
  qed
qed

lemma ahtable_tryget_rep:
  assumes "ahtable_rep T M"
  shows "(fmlookup M key = None \<and> ahtable_tryget T key = Ok None) \<or>
     (\<exists>r. ahtable_tryget T key = Ok (Some r) \<and> good_pointer T M key r)"
proof -
  from assms obtain ess where ess: "table_rep T ess" and M: "\<And>k. fmlookup M k = map_of (ess ! home (tn T) k) k"
    by (auto simp: ahtable_rep_def)
  define i where "i = home (tn T) key"
  have slot: "slot_of T key = Ok i" using table_repD(1) [OF ess] by (simp add: slot_of_rep i_def)
  from find_in_table [OF ess M i_def] show ?thesis
  proof (elim disjE exE conjE)
    fix pre v post
    assume some: "ess ! i = pre @ (key, v) # post" "key \<notin> fst ` set pre" "fmlookup M key = Some v"
      "slot_find (slots T ! i) (slot_sizes T ! i) key 0 = Ok (Some (length (enc pre) + lensize (length key)))"
    have "good_pointer T M key (i, length (enc pre) + lensize (length key) + length key)"
      using entry_pointer [OF ess M i_def some(1,2) refl] by (simp add: good_pointer_def same_node_def)
    with some(4) slot show ?thesis by (auto simp: ahtable_tryget_def get_key_def)
  qed (use slot in \<open>simp add: ahtable_tryget_def get_key_def\<close>)
qed

lemma slot_remove_rep:
  assumes "slot_rep b sz (pre @ (key, v) # post)" and "s1 = length (enc pre) + lensize (length key)"
    and "t = s1 + length key + sizeof_value" and "s = s1 - lensize (length key)"
  shows "\<exists>rest b'. blk_read b t (sz - t) = Ok rest \<and> blk_write b s rest = Ok b' \<and>
     slot_rep b' (sz - (t - s)) (pre @ post)"
proof -
  from assms(1) obtain junk where b: "b = enc pre @ enc1 (key, v) @ enc post @ junk"
    "sz = length (enc pre) + length (enc1 (key, v)) + length (enc post)" by (auto simp: slot_rep_def)
  have t: "t = length (enc pre) + length (enc1 (key, v))" and s: "s = length (enc pre)" using assms(2-4) by auto
  have rd: "blk_read b t (sz - t) = Ok (enc post)"
    using b t blk_read_at [of t "enc pre @ enc1 (key, v)" "sz - t" "enc post" junk] by simp
  have "\<exists>junk'. put_at b s (enc post) = enc pre @ enc post @ junk'"
    unfolding b(1) s by (simp add: put_at_def)
  then obtain junk' where w: "blk_write b s (enc post) = Ok (enc pre @ enc post @ junk')"
    using b s by (auto simp: blk_write_def)
  moreover have "sz - (t - s) = length (enc pre) + length (enc post)" using b(2) t s by simp
  moreover have "slot_rep (enc pre @ enc post @ junk') (length (enc pre) + length (enc post)) (pre @ post)"
    using assms(1) by (auto simp: slot_rep_def)
  ultimately show ?thesis using rd by auto
qed

lemma ahtable_del_rep:
  assumes "ahtable_rep T M"
  shows "\<exists>T'. ahtable_del T key = Ok (fst (array_del M key), T') \<and> ahtable_rep T' (snd (array_del M key)) \<and>
     same_node T T' \<and> tm T = (if fmlookup M key = None then tm T' else Suc (tm T'))"
proof -
  from assms obtain ess where ess: "table_rep T ess" and M: "\<And>k. fmlookup M k = map_of (ess ! home (tn T) k) k"
    by (auto simp: ahtable_rep_def)
  define i where "i = home (tn T) key"
  have il: "i < tn T" using table_repD(1) [OF ess] by (simp add: i_def)
  have slot: "slot_of T key = Ok i" using table_repD(1) [OF ess] by (simp add: slot_of_rep i_def)
  from find_in_table [OF ess M i_def] show ?thesis
  proof (elim disjE exE conjE)
    assume "fmlookup M key = None" "slot_find (slots T ! i) (slot_sizes T ! i) key 0 = Ok None"
    with slot assms show ?thesis by (auto simp: ahtable_del_def array_del_def same_node_def)
  next
    fix pre v post
    assume some: "ess ! i = pre @ (key, v) # post" "key \<notin> fst ` set pre" "fmlookup M key = Some v"
      "slot_find (slots T ! i) (slot_sizes T ! i) key 0 = Ok (Some (length (enc pre) + lensize (length key)))"
    have old: "slot_rep (slots T ! i) (slot_sizes T ! i) (pre @ (key, v) # post)"
      using table_repD(5) [OF ess il] some(1) by simp
    define s1 t s where d: "s1 = length (enc pre) + lensize (length key)" "t = s1 + length key + sizeof_value"
      "s = s1 - lensize (length key)"
    from slot_remove_rep [OF old d] obtain rest b where
      b: "blk_read (slots T ! i) t (slot_sizes T ! i - t) = Ok rest" "blk_write (slots T ! i) s rest = Ok b"
        "slot_rep b (slot_sizes T ! i - (t - s)) (pre @ post)" by blast
    define T' where "T' = T\<lparr>slots := (slots T)[i := b],
      slot_sizes := (slot_sizes T)[i := slot_sizes T ! i - (t - s)], tm := tm T - 1\<rparr>"
    have "0 < length (ess ! i)" using some(1) by simp
    moreover have "length (ess ! i) \<le> tm T"
      using table_repD(2,7) [OF ess] il length_concat_update [of i ess "[]"] by simp
    ultimately have m: "tm T - 1 + length (ess ! i) = tm T + length (pre @ post)" "0 < tm T" using some(1) by auto
    have rep': "table_rep T' (ess[i := pre @ post])"
      unfolding T'_def using some(1) table_repD(6) [OF ess il] m by (intro table_rep_update [OF ess il b(3)]) auto
    have "key \<notin> fst ` set post" using old by (auto simp: slot_rep_def)
    then have key: "map_of post key = None" "map_of pre key = None" using some(2) by (simp_all add: map_of_eq_None_iff)
    have "fmlookup (fmdrop key M) k = map_of (ess[i := pre @ post] ! home (tn T) k) k" for k
    proof (rule map_of_update_slot [OF ess il i_def _ _ M])
      fix k assume "home (tn T) k = i"
      then show "map_of (pre @ post) k = fmlookup (fmdrop key M) k"
        using M [of k] some(1) key by (cases "k = key") (auto simp: map_add_def split: option.splits)
    qed simp
    then have "ahtable_rep T' (fmdrop key M)" by (intro ahtable_repI [OF rep']) (simp add: T'_def)
    moreover have "ahtable_del T key = Ok (0, T')"
      using slot some(4) b(1,2) by (simp add: ahtable_del_def Let_def d T'_def)
    ultimately show ?thesis using some(3) m(2) by (simp add: array_del_def same_node_def T'_def)
  qed
qed

lemma ahtable_size_rep:
  assumes "ahtable_rep T M"
  shows "ahtable_size T = array_size M"
proof -
  from assms obtain ess where ess: "table_rep T ess" and M: "\<And>k. fmlookup M k = map_of (ess ! home (tn T) k) k"
    by (auto simp: ahtable_rep_def)
  have "fmlookup M k = map_of (concat ess) k" for k using M table_rep_map_of [OF ess] by simp
  then have "fset (fmdom M) = dom (map_of (concat ess))" by (auto simp: fmlookup_dom_iff)
  then have "fset (fmdom M) = fst ` set (concat ess)" by (simp only: dom_map_of_conv_image_fst)
  then have "fcard (fmdom M) = card (fst ` set (concat ess))" by (simp add: fcard.rep_eq)
  also have "\<dots> = length (concat ess)"
    using distinct_card [OF table_rep_distinct [OF ess]] by simp
  finally show ?thesis using table_repD(7) [OF ess] by (simp add: ahtable_size_def array_size_def)
qed

lemma ahtable_create_rep: "0 < n \<Longrightarrow> ahtable_rep (ahtable_create_n n) array_new"
  by (rule ahtable_repI [of _ "replicate n []"])
    (auto simp: table_rep_def ahtable_create_n_def slot_rep_def array_new_def)

section \<open>The sorted iterator\<close>

fun memcmp :: "byte list \<Rightarrow> byte list \<Rightarrow> int" where
  "memcmp (x # xs) (y # ys) = (if x = y then memcmp xs ys else uint x - uint y)"
| "memcmp _ _ = 0"

text \<open>\<open>cmpkey\<close> on the keys its arguments point to.\<close>

definition cmp_keys :: "byte list \<Rightarrow> byte list \<Rightarrow> int" where
  "cmp_keys a b =
     (let n = min (length a) (length b); c = memcmp (take n a) (take n b)
      in if c = 0 then int (length a) - int (length b) else c)"

definition key_at :: "block \<Rightarrow> nat \<Rightarrow> byte list res" where
  "key_at b s = res_bind (keylen b s) (\<lambda>k. blk_read b (s + lensize k) k)"

function slot_positions :: "block \<Rightarrow> nat \<Rightarrow> nat \<Rightarrow> nat list res" where
  "slot_positions b sz s =
     (if s < sz
      then res_bind (keylen b s) (\<lambda>k. res_bind (slot_positions b sz (s + lensize k + (k + sizeof_value))) (\<lambda>ps. Ok (s # ps)))
      else Ok [])"
  by pat_completeness auto
termination by (relation "measure (\<lambda>(b, sz, s). sz - s)") (auto simp: sizeof_value_def)

declare slot_positions.simps [simp del]

text \<open>\<open>qsort\<close> with a comparison function, on positions paired with the keys they point to.\<close>

fun insert_by :: "('a \<Rightarrow> 'a \<Rightarrow> int) \<Rightarrow> 'a \<Rightarrow> 'a list \<Rightarrow> 'a list" where
  "insert_by cmp x [] = [x]"
| "insert_by cmp x (y # ys) = (if cmp x y \<le> 0 then x # y # ys else y # insert_by cmp x ys)"

definition qsort_by :: "('a \<Rightarrow> 'a \<Rightarrow> int) \<Rightarrow> 'a list \<Rightarrow> 'a list" where
  "qsort_by cmp xs = foldr (insert_by cmp) xs []"

record sorted_iter =
  sxs :: "vref list"
  si :: nat

definition sorted_collect :: "ahtable \<Rightarrow> nat \<Rightarrow> (byte list \<times> vref) list \<Rightarrow> (byte list \<times> vref) list res" where
  "sorted_collect T j xs =
     res_bind (slot_positions (slots T ! j) (slot_sizes T ! j) 0) (\<lambda>ps.
       res_fold (\<lambda>s xs. res_bind (key_at (slots T ! j) s) (\<lambda>key. Ok (xs @ [(key, (j, s))]))) ps xs)"

definition sorted_iter_begin :: "ahtable \<Rightarrow> sorted_iter res" where
  "sorted_iter_begin T =
     res_bind (res_fold (sorted_collect T) [0..<tn T] []) (\<lambda>xs.
       if length xs = tm T then Ok \<lparr>sxs = map snd (qsort_by (\<lambda>a b. cmp_keys (fst a) (fst b)) xs), si = 0\<rparr>
       else Fault OutOfBounds)"

definition sorted_iter_finished :: "ahtable \<Rightarrow> sorted_iter \<Rightarrow> bool" where
  "sorted_iter_finished T it \<longleftrightarrow> tm T \<le> si it"

definition sorted_iter_next :: "ahtable \<Rightarrow> sorted_iter \<Rightarrow> sorted_iter" where
  "sorted_iter_next T it = (if sorted_iter_finished T it then it else it\<lparr>si := Suc (si it)\<rparr>)"

definition sorted_iter_key :: "ahtable \<Rightarrow> sorted_iter \<Rightarrow> byte list option res" where
  "sorted_iter_key T it =
     (if sorted_iter_finished T it then Ok None
      else (let (j, s) = sxs it ! si it in res_bind (key_at (slots T ! j) s) (\<lambda>key. Ok (Some key))))"

definition sorted_iter_val :: "ahtable \<Rightarrow> sorted_iter \<Rightarrow> vref option res" where
  "sorted_iter_val T it =
     (if sorted_iter_finished T it then Ok None
      else (let (j, s) = sxs it ! si it in
        res_bind (keylen (slots T ! j) s) (\<lambda>k. Ok (Some (j, s + lensize k + k)))))"

text \<open>The keys and values an iterator gives, in its order.\<close>

definition sorted_entry :: "ahtable \<Rightarrow> sorted_iter \<Rightarrow> (byte list \<times> value_t) res" where
  "sorted_entry T it =
     res_bind (sorted_iter_key T it) (\<lambda>k. res_bind (some_key k) (\<lambda>key.
     res_bind (sorted_iter_val T it) (\<lambda>r.
     res_bind (case r of None \<Rightarrow> Fault NullDeref | Some v \<Rightarrow> val_read T v) (\<lambda>v. Ok (key, v)))))"

function sorted_walk :: "ahtable \<Rightarrow> sorted_iter \<Rightarrow> (byte list \<times> value_t) list res" where
  "sorted_walk T it =
     (if sorted_iter_finished T it then Ok []
      else res_bind (sorted_entry T it) (\<lambda>e. res_bind (sorted_walk T (sorted_iter_next T it)) (\<lambda>es. Ok (e # es))))"
  by pat_completeness auto
termination
  by (relation "measure (\<lambda>(T, it). tm T - si it)") (auto simp: sorted_iter_next_def sorted_iter_finished_def)

declare sorted_walk.simps [simp del]

section \<open>Saving and loading\<close>

text \<open>A file is the list of its bytes; numbers are written big-endian.\<close>

definition be_bytes :: "nat \<Rightarrow> 'a::len word \<Rightarrow> byte list" where
  "be_bytes n w = rev (le_bytes n w)"

definition ahtable_save :: "ahtable \<Rightarrow> byte list" where
  "ahtable_save T =
     be_bytes 8 (word_of_nat (tn T) :: u64) @ be_bytes 8 (word_of_nat (tm T) :: u64) @
     be_bytes 8 (word_of_nat (tmax_m T) :: u64) @ [tflag T, tc0 T, tc1 T] @
     concat (map (\<lambda>i. be_bytes 4 (word_of_nat (slot_sizes T ! i) :: u32) @
       take (slot_sizes T ! i) (slots T ! i)) [0..<tn T])"

definition fread :: "nat \<Rightarrow> byte list \<Rightarrow> (byte list \<times> byte list) option" where
  "fread n file = (if n \<le> length file then Some (take n file, drop n file) else None)"

definition read_u64bit_to_size_t :: "byte list \<Rightarrow> (nat \<times> byte list) option" where
  "read_u64bit_to_size_t file =
     Option.bind (fread 8 file) (\<lambda>(x, file). Some (unat (le_word (rev x) :: u64), file))"

primrec load_slots :: "nat \<Rightarrow> byte list \<Rightarrow> ((nat \<times> block) list \<times> byte list) option" where
  "load_slots 0 file = Some ([], file)"
| "load_slots (Suc n) file =
     Option.bind (fread 4 file) (\<lambda>(x, file).
     (let slot_size = unat (le_word (rev x) :: u32) in
     Option.bind (fread slot_size file) (\<lambda>(b, file).
     Option.bind (load_slots n file) (\<lambda>(xs, file). Some ((slot_size, b) # xs, file)))))"

definition ahtable_load :: "byte list \<Rightarrow> (ahtable \<times> byte list) option" where
  "ahtable_load file =
     Option.bind (read_u64bit_to_size_t file) (\<lambda>(n, file).
     Option.bind (read_u64bit_to_size_t file) (\<lambda>(m, file).
     Option.bind (read_u64bit_to_size_t file) (\<lambda>(max_m, file).
     Option.bind (fread 1 file) (\<lambda>(f, file).
     Option.bind (fread 1 file) (\<lambda>(x0, file).
     Option.bind (fread 1 file) (\<lambda>(x1, file).
     Option.bind (load_slots n file) (\<lambda>(xs, file).
       Some (\<lparr>tflag = hd f, tc0 = hd x0, tc1 = hd x1, tn = n, tm = m, tmax_m = max_m,
         slot_sizes = map fst xs, slots = map snd xs\<rparr>, file))))))))"

section \<open>Sorted iteration is in key order\<close>

lemma cmp_keys_simps [simp]:
  "cmp_keys [] b = - int (length b)" "cmp_keys a [] = int (length a)"
  "cmp_keys (x # xs) (y # ys) = (if x = y then cmp_keys xs ys else uint x - uint y)"
  using word_uint_eq_iff [of x y] by (auto simp: cmp_keys_def Let_def)

lemma cmp_keys_le: "cmp_keys a b \<le> 0 \<longleftrightarrow> a \<le> b"
proof (induction a b rule: list_induct2')
  case (4 x xs y ys)
  have "uint x - uint y \<le> 0 \<longleftrightarrow> x < y" if "x \<noteq> y"
    using that word_uint_eq_iff [of x y] by (auto simp: word_less_def)
  with 4 show ?case by (cases "x = y") auto
qed auto

lemma insert_by_keys: "insert_by (\<lambda>a b. cmp_keys (fst a) (fst b)) = insort_key fst"
proof (intro ext)
  show "insert_by (\<lambda>a b. cmp_keys (fst a) (fst b)) x ys = insort_key fst x ys" for x ys
    by (induction ys) (auto simp: cmp_keys_le)
qed

lemma qsort_by_keys: "qsort_by (\<lambda>a b. cmp_keys (fst a) (fst b)) xs = sort_key fst xs"
  by (simp add: qsort_by_def sort_key_def insert_by_keys)

text \<open>The keys of a slot with their positions.\<close>

primrec tag :: "nat \<Rightarrow> nat \<Rightarrow> (byte list \<times> value_t) list \<Rightarrow> (byte list \<times> vref) list" where
  "tag j s [] = []"
| "tag j s (e # es) = (fst e, (j, s)) # tag j (s + length (enc1 e)) es"

lemma tag_fst [simp]: "map fst (tag j s es) = map fst es"
  by (induction es arbitrary: s) auto

lemma tag_length [simp]: "length (tag j s es) = length es"
  by (induction es arbitrary: s) auto

lemma tag_member:
  "(key, r) \<in> set (tag j s es) \<Longrightarrow>
     \<exists>pre v post. es = pre @ (key, v) # post \<and> r = (j, s + length (enc pre))"
proof (induction es arbitrary: s)
  case Nil
  then show ?case by simp
next
  case (Cons e es)
  show ?case
  proof (cases "(key, r) = (fst e, (j, s))")
    case True
    then show ?thesis by (intro exI [of _ "[]"] exI [of _ "snd e"] exI [of _ es]) auto
  next
    case False
    with Cons obtain pre v post where "es = pre @ (key, v) # post" "r = (j, s + length (enc1 e) + length (enc pre))"
      by fastforce
    then show ?thesis by (intro exI [of _ "e # pre"] exI [of _ v] exI [of _ post]) (simp add: add.assoc)
  qed
qed

lemma collect_slot:
  assumes "\<forall>e\<in>set post. short e"
  shows "res_bind (slot_positions (p @ enc post @ q) (length p + length (enc post)) (length p))
       (\<lambda>ps. res_fold (\<lambda>s xs. res_bind (key_at (p @ enc post @ q) s) (\<lambda>key. Ok (xs @ [(key, (j, s))]))) ps xs) =
     Ok (xs @ tag j (length p) post)"
  using assms
proof (induction post arbitrary: p xs)
  case Nil
  then show ?case by (simp add: slot_positions.simps)
next
  case (Cons e es)
  let ?b = "p @ enc1 e @ enc es @ q" and ?s = "length p + length (enc1 e)"
  have key: "key_at ?b (length p) = Ok (fst e)"
  proof -
    have "blk_read ?b (length p + lensize (length (fst e))) (length (fst e)) = Ok (fst e)"
      using blk_read_at [of "length p + lensize (length (fst e))" "p @ len_bytes (length (fst e))"
          "length (fst e)" "fst e" "le_bytes sizeof_value (snd e) @ enc es @ q"] by (simp add: enc1_def)
    then show ?thesis using Cons.prems enc1_keylen [of e "length p" p] by (simp add: key_at_def)
  qed
  have "slot_positions ?b (length p + length (enc (e # es))) (length p) =
      res_bind (slot_positions ?b (?s + length (enc es)) ?s) (\<lambda>ps. Ok (length p # ps))"
    using Cons.prems enc1_keylen [of e "length p" p]
    by (subst slot_positions.simps) (simp add: add.assoc)
  moreover have "res_bind (slot_positions ?b (?s + length (enc es)) ?s)
       (\<lambda>ps. res_fold (\<lambda>s xs. res_bind (key_at ?b s) (\<lambda>key. Ok (xs @ [(key, (j, s))]))) ps (xs @ [(fst e, (j, length p))])) =
     Ok ((xs @ [(fst e, (j, length p))]) @ tag j ?s es)"
    using Cons.IH [of "p @ enc1 e" "xs @ [(fst e, (j, length p))]"] Cons.prems by (simp del: length_enc1)
  ultimately show ?case
    using key by (cases "slot_positions ?b (?s + length (enc es)) ?s") (simp_all del: length_enc1)
qed

lemma sorted_collect_rep:
  assumes "table_rep T ess" and "j < tn T"
  shows "sorted_collect T j xs = Ok (xs @ tag j 0 (ess ! j))"
proof -
  from table_repD(5) [OF assms] obtain junk where "slots T ! j = enc (ess ! j) @ junk"
    "slot_sizes T ! j = length (enc (ess ! j))" "\<forall>e\<in>set (ess ! j). short e" by (auto simp: slot_rep_def)
  with collect_slot [of "ess ! j" "[]" junk j xs] show ?thesis by (simp add: sorted_collect_def)
qed

lemma sorted_collect_all:
  assumes "table_rep T ess"
  shows "res_fold (sorted_collect T) [0..<tn T] [] = Ok (concat (map (\<lambda>j. tag j 0 (ess ! j)) [0..<tn T]))"
proof -
  have "\<exists>b'. res_fold (sorted_collect T) [0..<tn T] [] = Ok b' \<and> b' = concat (map (\<lambda>j. tag j 0 (ess ! j)) [0..<tn T])"
  proof (rule res_fold_inv [where I = "\<lambda>js xs. xs = concat (map (\<lambda>j. tag j 0 (ess ! j)) js)"])
    fix ys x zs b
    assume "[0..<tn T] = ys @ x # zs" and b: "b = concat (map (\<lambda>j. tag j 0 (ess ! j)) ys)"
    then have "x \<in> set [0..<tn T]" by (metis in_set_conv_decomp)
    with b sorted_collect_rep [OF assms] show "\<exists>b'. sorted_collect T x b = Ok b' \<and>
        b' = concat (map (\<lambda>j. tag j 0 (ess ! j)) (ys @ [x]))" by simp
  qed simp
  then show ?thesis by simp
qed

definition all_tags :: "(byte list \<times> value_t) list list \<Rightarrow> (byte list \<times> vref) list" where
  "all_tags ess = concat (map (\<lambda>j. tag j 0 (ess ! j)) [0..<length ess])"

lemma all_tags_keys: "map fst (all_tags ess) = map fst (concat ess)"
proof -
  have "map fst (all_tags ess) = concat (map (\<lambda>j. map fst (ess ! j)) [0..<length ess])"
    by (simp add: all_tags_def map_concat comp_def)
  also have "\<dots> = concat (map (map fst) (map ((!) ess) [0..<length ess]))" by (simp add: comp_def)
  finally show ?thesis by (simp add: map_nth map_concat)
qed

lemma sorted_entry_at:
  assumes rep: "table_rep T ess" and x: "(key, r) \<in> set (all_tags ess)" and it: "si it < tm T" "sxs it ! si it = r"
  shows "sorted_entry T it = Ok (key, the (map_of (concat ess) key))"
proof -
  from x table_repD(2) [OF rep] obtain j where j: "j < tn T" "(key, r) \<in> set (tag j 0 (ess ! j))"
    by (auto simp: all_tags_def)
  from tag_member [OF j(2)] obtain pre v post where p: "ess ! j = pre @ (key, v) # post" "r = (j, length (enc pre))"
    by auto
  define u where "u = \<lparr>ui = j, us = length (enc pre)\<rparr>"
  have at: "iter_at T ess u ((key, v) # post @ concat (drop (Suc j) ess))"
    unfolding iter_at_def u_def using j(1) p(1) by (intro disjI1 conjI exI [of _ pre] exI [of _ "(key, v) # post"]) auto
  from iter_at_key [OF rep at] have k: "key_at (slots T ! j) (length (enc pre)) = Ok key"
    using j(1) by (auto simp: unsorted_iter_key_def u_def unsorted_iter_finished_def key_at_def res_simps)
  from iter_at_val [OF rep at] obtain k' where k': "keylen (slots T ! j) (length (enc pre)) = Ok k'"
    "val_read T (j, length (enc pre) + lensize k' + k') = Ok v"
    using j(1) by (auto simp: unsorted_iter_val_def u_def unsorted_iter_finished_def res_simps)
  have "(key, v) \<in> set (ess ! j)" using p(1) by simp
  then have "(key, v) \<in> set (concat ess)" using j(1) table_repD(2) [OF rep] by (auto intro!: bexI [of _ "ess ! j"])
  then have "map_of (concat ess) key = Some v" using table_rep_distinct [OF rep] by (simp del: set_concat)
  with k k' it p(2) show ?thesis
    by (simp add: sorted_entry_def sorted_iter_key_def sorted_iter_val_def sorted_iter_finished_def some_key_def)
qed


lemma sorted_walk_map:
  assumes "\<And>i. i < length es \<Longrightarrow> sorted_entry T \<lparr>sxs = rs, si = i\<rparr> = Ok (es ! i)" and "length es = tm T"
  shows "i \<le> length es \<Longrightarrow> sorted_walk T \<lparr>sxs = rs, si = i\<rparr> = Ok (drop i es)"
proof (induction "length es - i" arbitrary: i)
  case 0
  then show ?case using assms(2) by (subst sorted_walk.simps) (simp add: sorted_iter_finished_def)
next
  case (Suc n)
  then have i: "i < length es" by simp
  have "sorted_walk T \<lparr>sxs = rs, si = Suc i\<rparr> = Ok (drop (Suc i) es)" using Suc i by (intro Suc.hyps(1)) auto
  with i assms show ?case
    by (subst sorted_walk.simps) (simp add: sorted_iter_finished_def sorted_iter_next_def Cons_nth_drop_Suc)
qed

lemma sorted_walk_rep:
  assumes rep: "table_rep T ess"
  shows "\<exists>it es. sorted_iter_begin T = Ok it \<and> sorted_walk T it = Ok es \<and> sorted (map fst es) \<and>
     mset es = mset (concat ess)"
proof -
  define L where "L = sort_key fst (all_tags ess)"
  define g where "g x = (fst x, the (map_of (concat ess) (fst x)))" for x :: "byte list \<times> vref"
  have len: "length (all_tags ess) = tm T"
    using arg_cong [OF all_tags_keys [of ess], of length] table_repD(7) [OF rep] by (simp only: length_map)
  have start: "sorted_iter_begin T = Ok \<lparr>sxs = map snd L, si = 0\<rparr>"
    using sorted_collect_all [OF rep] len table_repD(2) [OF rep]
    by (simp add: sorted_iter_begin_def qsort_by_keys L_def all_tags_def)
  have "sorted_walk T \<lparr>sxs = map snd L, si = 0\<rparr> = Ok (drop 0 (map g L))"
  proof (rule sorted_walk_map)
    show "length (map g L) = tm T" using len by (simp add: L_def)
    fix i assume i: "i < length (map g L)"
    then have "L ! i \<in> set (all_tags ess)" by (metis L_def length_map nth_mem set_sort)
    then have "(fst (L ! i), snd (L ! i)) \<in> set (all_tags ess)" by simp
    from sorted_entry_at [OF rep this, of "\<lparr>sxs = map snd L, si = i\<rparr>"] i len
    show "sorted_entry T \<lparr>sxs = map snd L, si = i\<rparr> = Ok (map g L ! i)" by (simp add: g_def L_def)
  qed simp
  then have walk: "sorted_walk T \<lparr>sxs = map snd L, si = 0\<rparr> = Ok (map g L)" by simp
  have fstg: "map fst (map g L) = map fst L" by (simp add: g_def)
  have srt: "sorted (map fst (map g L))" unfolding fstg by (simp add: L_def)
  have gs: "map g (all_tags ess) = concat ess"
  proof -
    have "map g (all_tags ess) = map (\<lambda>k. (k, the (map_of (concat ess) k))) (map fst (all_tags ess))"
      by (simp add: g_def)
    also have "\<dots> = map (\<lambda>e. (fst e, the (map_of (concat ess) (fst e)))) (concat ess)"
      by (simp add: all_tags_keys)
    also have "\<dots> = map (\<lambda>e. e) (concat ess)"
      using table_rep_distinct [OF rep] by (intro map_cong refl) (metis map_of_is_SomeI option.sel prod.collapse)
    finally show ?thesis by simp
  qed
  have "mset (map g L) = mset (concat ess)" unfolding gs [symmetric] by (simp add: L_def)
  with start walk srt show ?thesis by blast
qed

section \<open>A saved table loads as it was\<close>

lemma be_word_bytes [simp]:
  "LENGTH('a) \<le> 8 * n \<Longrightarrow> le_word (rev (be_bytes n w)) = (w :: 'a::len word)" "length (be_bytes n w) = n"
  by (simp_all add: be_bytes_def)

lemma fread_append [simp]: "length x = n \<Longrightarrow> fread n (x @ file) = Some (x, file)"
  by (auto simp: fread_def)

lemma load_slots_saved:
  assumes "\<forall>(sz, b)\<in>set xs. length b = sz \<and> sz < 2 ^ 32"
  shows "load_slots (length xs) (concat (map (\<lambda>(sz, b). be_bytes 4 (word_of_nat sz :: u32) @ b) xs) @ file) = Some (xs, file)"
  using assms
proof (induction xs)
  case Nil
  then show ?case by simp
next
  case (Cons x xs)
  obtain sz b where x: "x = (sz, b)" by fastforce
  with Cons.prems have "unat (word_of_nat sz :: u32) = sz" "length b = sz" by (simp_all add: unat_of_nat)
  with Cons x show ?case by (simp add: Let_def)
qed

lemma read_u64_saved:
  "n < 2 ^ 64 \<Longrightarrow> read_u64bit_to_size_t (be_bytes 8 (word_of_nat n :: u64) @ file) = Some (n, file)"
  by (simp add: read_u64bit_to_size_t_def unat_of_nat)

lemma load_saved:
  assumes rep: "table_rep T ess" and small: "tmax_m T < 2 ^ 64" "tm T < 2 ^ 64" "\<forall>i<tn T. slot_sizes T ! i < 2 ^ 32"
  shows "\<exists>T'. ahtable_load (ahtable_save T @ file) = Some (T', file) \<and> table_rep T' ess \<and> same_node T T' \<and> tn T' = tn T"
proof -
  let ?xs = "map (\<lambda>i. (slot_sizes T ! i, take (slot_sizes T ! i) (slots T ! i))) [0..<tn T]"
  let ?T = "\<lparr>tflag = tflag T, tc0 = tc0 T, tc1 = tc1 T, tn = tn T, tm = tm T, tmax_m = tmax_m T,
    slot_sizes = map fst ?xs, slots = map snd ?xs\<rparr>"
  have slot: "slots T ! i = enc (ess ! i) @ drop (slot_sizes T ! i) (slots T ! i) \<and>
      slot_sizes T ! i = length (enc (ess ! i))" if "i < tn T" for i
    using table_repD(5) [OF rep that] by (auto simp: slot_rep_def)
  have "tn T < 2 ^ 64" using small(1) table_repD(8) [OF rep] by (simp add: ahtable_max_load_factor_def)
  moreover have "concat (map (\<lambda>(sz, b). be_bytes 4 (word_of_nat sz :: u32) @ b) ?xs) =
      concat (map (\<lambda>i. be_bytes 4 (word_of_nat (slot_sizes T ! i) :: u32) @ take (slot_sizes T ! i) (slots T ! i)) [0..<tn T])"
    by (simp add: comp_def)
  moreover have "length (take (slot_sizes T ! i) (slots T ! i)) = slot_sizes T ! i" if "i < tn T" for i
    using slot [OF that] by (metis append_eq_conv_conj length_append length_take min_def le_add1)
  then have "load_slots (tn T) (concat (map (\<lambda>(sz, b). be_bytes 4 (word_of_nat sz :: u32) @ b) ?xs) @ file) = Some (?xs, file)"
    using load_slots_saved [of ?xs] small(3) by simp
  moreover have "fread 1 (x # ys) = Some ([x], ys)" for x ys by (simp add: fread_def)
  ultimately have "ahtable_load (ahtable_save T @ file) = Some (?T, file)"
    using small by (simp add: ahtable_load_def ahtable_save_def read_u64_saved)
  moreover have "table_rep ?T ess"
  proof -
    have "slot_rep (take (slot_sizes T ! i) (slots T ! i)) (slot_sizes T ! i) (ess ! i)" if "i < tn T" for i
      using table_repD(5) [OF rep that] by (auto simp: slot_rep_def)
    then show ?thesis using table_repD [OF rep] by (simp add: table_rep_def)
  qed
  ultimately show ?thesis by (intro exI [of _ ?T]) (simp add: same_node_def)
qed

section \<open>The table as an array store\<close>

definition ah_ops :: "(ahtable, vref) store_ops" where
  "ah_ops = \<lparr>s_get = ahtable_get, s_tryget = ahtable_tryget, s_del = ahtable_del, s_read = val_read,
     s_write = val_write, s_size = (\<lambda>T. ahtable_size T mod 2 ^ 64)\<rparr>"

interpretation ah: array_store ah_ops ahtable_rep "\<lambda>k. length k \<le> 32767"
proof
  fix t a and k :: "byte list" assume t: "ahtable_rep t a" and k: "length k \<le> 32767"
  from ahtable_get_rep [OF t k] obtain r t' where
    g: "ahtable_get t k = Ok (r, t')" "ahtable_rep t' (snd (array_get a k))" "good_pointer t' (snd (array_get a k)) k r"
    by blast
  have "fmlookup (snd (array_get a k)) k = Some (fst (array_get a k))"
    "array_set (snd (array_get a k)) k v = array_set a k v" for v
    by (auto simp: array_get_def array_set_def split: option.splits)
  with g show "\<exists>r t'. s_get ah_ops t k = Ok (r, t') \<and> ahtable_rep t' (snd (array_get a k)) \<and>
      s_read ah_ops t' r = Ok (fst (array_get a k)) \<and>
      (\<forall>v. \<exists>t''. s_write ah_ops t' r v = Ok t'' \<and> ahtable_rep t'' (array_set a k v))"
    by (intro exI [of _ r] exI [of _ t']) (fastforce simp: ah_ops_def good_pointer_def)
  from ahtable_tryget_rep [OF t, of k] show "\<exists>r. s_tryget ah_ops t k = Ok r \<and> (r \<noteq> None \<longleftrightarrow> array_key_exists a k) \<and>
      (\<forall>x. r = Some x \<longrightarrow> s_read ah_ops t x = Ok (fst (array_get a k)))"
    by (auto simp: ah_ops_def array_key_exists_def good_pointer_def array_get_def)
  from ahtable_del_rep [OF t, of k] show "\<exists>t'. s_del ah_ops t k = Ok (fst (array_del a k), t') \<and>
      ahtable_rep t' (snd (array_del a k))" by (auto simp: ah_ops_def)
next
  fix t a assume "ahtable_rep t a"
  then show "s_size ah_ops t = array_size a mod 2 ^ 64" by (simp add: ah_ops_def ahtable_size_rep)
qed

section \<open>Properties\<close>

text \<open>
  C11. The array hash table is a map: any sequence of reads, stores, membership tests, deletions
  and size queries, with keys the table accepts (up to 32767 bytes), gives on the byte arrays
  exactly the answers of a finite map that starts empty, and never touches a byte outside a
  slot's allocation. This includes growing, which happens inside a read or store.
\<close>

theorem ahtable_refines_array:
  assumes "\<forall>x\<in>set ops. \<forall>k. op_key x = Some k \<longrightarrow> length k \<le> 32767"
  shows "\<exists>T. store_run ah_ops ops ahtable_create = Ok (fst (array_run ops array_new), T) \<and>
     ahtable_rep T (snd (array_run ops array_new))"
proof -
  have "ahtable_rep ahtable_create array_new"
    using ahtable_create_rep by (simp add: ahtable_create_def ahtable_initial_size_def)
  from ah.run_refines [OF this assms] show ?thesis .
qed

theorem ahtable_refines_array_witness:
  "\<exists>T. store_run ah_ops [A_Set (bytes_of ''a'') 7, A_Get (bytes_of ''a''), A_Del (bytes_of ''b''), A_Size] ahtable_create =
     Ok (fst (array_run [A_Set (bytes_of ''a'') 7, A_Get (bytes_of ''a''), A_Del (bytes_of ''b''), A_Size] array_new), T)"
proof -
  have "\<forall>x\<in>set [A_Set (bytes_of ''a'') 7, A_Get (bytes_of ''a''), A_Del (bytes_of ''b''), A_Size].
      \<forall>k. op_key x = Some k \<longrightarrow> length k \<le> 32767" by simp
  from ahtable_refines_array [OF this] show ?thesis by blast
qed

text \<open>
  C26. The sorted iterator of a table gives every entry of the map exactly once, in ascending
  order of the keys: bytes compare as unsigned numbers and a proper prefix comes first.
\<close>

theorem ahtable_sorted_iteration:
  assumes "ahtable_rep T M"
  shows "\<exists>it es. sorted_iter_begin T = Ok it \<and> sorted_walk T it = Ok es \<and> sorted (map fst es) \<and>
     distinct (map fst es) \<and> map_of es = fmlookup M"
proof -
  from assms obtain ess where ess: "table_rep T ess" and M: "\<And>k. fmlookup M k = map_of (ess ! home (tn T) k) k"
    by (auto simp: ahtable_rep_def)
  from sorted_walk_rep [OF ess] obtain it es where
    it: "sorted_iter_begin T = Ok it" "sorted_walk T it = Ok es" "sorted (map fst es)" "mset es = mset (concat ess)"
    by blast
  from it(4) have "mset (map fst es) = mset (map fst (concat ess))" by (metis mset_map)
  then have dis: "distinct (map fst es)" using table_rep_distinct [OF ess] mset_eq_imp_distinct_iff by blast
  moreover have "map_of es = map_of (concat ess)"
    using map_of_inject_set [OF dis table_rep_distinct [OF ess]] it(4) by (metis set_mset_mset)
  moreover have "map_of (concat ess) = fmlookup M" using M table_rep_map_of [OF ess] by auto
  ultimately show ?thesis using it(1-3) by auto
qed

definition demo_table :: ahtable where
  "demo_table = ahtable_create_n 2"

lemma demo_table_rep: "ahtable_rep demo_table array_new"
  by (simp add: demo_table_def ahtable_create_rep)

lemma demo_filled:
  "\<exists>T. ahtable_rep T (fmupd (bytes_of ''a'') 0 (fmupd (bytes_of ''b'') 0 array_new))"
proof -
  from ahtable_get_rep [OF demo_table_rep, of "bytes_of ''b''"] obtain T1 where
    "ahtable_rep T1 (fmupd (bytes_of ''b'') 0 array_new)" by (auto simp: array_get_def array_new_def)
  from ahtable_get_rep [OF this, of "bytes_of ''a''"] show ?thesis by (auto simp: array_get_def array_new_def)
qed

theorem ahtable_sorted_iteration_witness:
  "\<exists>T it es. sorted_iter_begin T = Ok it \<and> sorted_walk T it = Ok es \<and> sorted (map fst es) \<and>
     map_of es (bytes_of ''a'') = Some 0 \<and> map_of es (bytes_of ''b'') = Some 0"
proof -
  from demo_filled obtain T where T: "ahtable_rep T (fmupd (bytes_of ''a'') 0 (fmupd (bytes_of ''b'') 0 array_new))" by blast
  from ahtable_sorted_iteration [OF T] show ?thesis by (elim exE conjE) (intro exI conjI, auto)
qed

text \<open>
  C27. A table written with \<open>ahtable_save\<close> and read back with \<open>ahtable_load\<close> stands for the same map,
  keeps the fields that belong to the trie, and the reader stops exactly at the end of the
  table; the counters must fit 64 bits and every slot 32 bits, as the format has them.
\<close>

theorem ahtable_save_load:
  assumes "ahtable_rep T M" and "tmax_m T < 2 ^ 64" and "tm T < 2 ^ 64" and "\<forall>i<tn T. slot_sizes T ! i < 2 ^ 32"
  shows "\<exists>T'. ahtable_load (ahtable_save T @ file) = Some (T', file) \<and> ahtable_rep T' M \<and>
     tflag T' = tflag T \<and> tc0 T' = tc0 T \<and> tc1 T' = tc1 T"
proof -
  from assms(1) obtain ess where ess: "table_rep T ess" and M: "\<And>k. fmlookup M k = map_of (ess ! home (tn T) k) k"
    by (auto simp: ahtable_rep_def)
  from load_saved [OF ess assms(2-4)] obtain T' where
    "ahtable_load (ahtable_save T @ file) = Some (T', file)" "table_rep T' ess" "same_node T T'" "tn T' = tn T" by blast
  moreover from this M have "ahtable_rep T' M" by (intro ahtable_repI) auto
  ultimately show ?thesis by (auto simp: same_node_def)
qed

theorem ahtable_save_load_witness:
  "\<exists>T'. ahtable_load (ahtable_save demo_table @ [1, 2]) = Some (T', [1, 2]) \<and> ahtable_rep T' array_new \<and>
     tflag T' = tflag demo_table \<and> tc0 T' = tc0 demo_table \<and> tc1 T' = tc1 demo_table"
  by (rule ahtable_save_load [OF demo_table_rep])
    (simp_all add: demo_table_def ahtable_create_n_def ahtable_max_load_factor_def)

text \<open>
  \<open>ahtable_clear\<close> removes every entry but keeps the count: after it no key is found, while
  \<open>ahtable_size\<close> still reports the old number of entries.
\<close>

theorem ahtable_clear_keeps_count:
  "ahtable_tryget (ahtable_clear T) key = Ok None \<and> ahtable_size (ahtable_clear T) = ahtable_size T"
  by (simp add: ahtable_tryget_def get_key_def ahtable_clear_def slot_of_def ahtable_initial_size_def
      slot_find.simps ahtable_size_def)

end
