(* ===== verification/Hattrie.thy ===== *)
theory Hattrie
  imports Ahtable
begin

text \<open>
  \<open>src/lib/hat-trie/src/hat-trie.c\<close>: a trie whose leaves are array hash tables. A trie node has a
  child for every byte; a hybrid bucket is the child for a range of bytes \<open>c0..c1\<close> and stores keys
  from that byte on, a pure bucket is the child for one byte and stores what follows it. Nodes
  live in a heap, since a hybrid bucket is shared by many places of its parent. A key is a
  position and a length in a buffer, because the code reads one byte past the key.
\<close>

section \<open>Data\<close>

definition MAX_BUCKET_SIZE :: nat where "MAX_BUCKET_SIZE = 16384"
definition NODE_CHILDS :: nat where "NODE_CHILDS = 256"
definition NODE_MAXCHAR :: byte where "NODE_MAXCHAR = 0xff"
definition NODE_TYPE_TRIE :: byte where "NODE_TYPE_TRIE = 0x1"
definition NODE_TYPE_PURE_BUCKET :: byte where "NODE_TYPE_PURE_BUCKET = 0x2"
definition NODE_TYPE_HYBRID_BUCKET :: byte where "NODE_TYPE_HYBRID_BUCKET = 0x4"
definition NODE_HAS_VAL :: byte where "NODE_HAS_VAL = 0x8"

lemmas node_types = NODE_TYPE_TRIE_def NODE_TYPE_PURE_BUCKET_def NODE_TYPE_HYBRID_BUCKET_def NODE_HAS_VAL_def

record trie_node =
  nflag :: byte
  nval :: value_t
  nxs :: "addr list"

datatype hnode = Trie trie_node | Bucket ahtable

record hattrie =
  hroot :: addr
  hm :: u64
  hnodes :: "hnode heap"

text \<open>Pointers to values: in a trie node or in a bucket.\<close>

datatype href = NodeVal addr | BucketVal addr vref

definition has_flag :: "hnode \<Rightarrow> byte \<Rightarrow> bool" where
  "has_flag n f \<longleftrightarrow> (case n of Trie t \<Rightarrow> nflag t | Bucket b \<Rightarrow> tflag b) AND f \<noteq> 0"

definition as_trie :: "hnode heap \<Rightarrow> addr \<Rightarrow> trie_node res" where
  "as_trie H a = res_bind (deref H (Some a)) (\<lambda>n. case n of Trie t \<Rightarrow> Ok t | Bucket _ \<Rightarrow> Fault AssertFail)"

definition as_bucket :: "hnode heap \<Rightarrow> addr \<Rightarrow> ahtable res" where
  "as_bucket H a = res_bind (deref H (Some a)) (\<lambda>n. case n of Bucket b \<Rightarrow> Ok b | Trie _ \<Rightarrow> Fault AssertFail)"

definition href_read :: "hattrie \<Rightarrow> href \<Rightarrow> value_t res" where
  "href_read T r = (case r of NodeVal a \<Rightarrow> res_bind (as_trie (hnodes T) a) (\<lambda>t. Ok (nval t))
     | BucketVal a v \<Rightarrow> res_bind (as_bucket (hnodes T) a) (\<lambda>b. val_read b v))"

definition href_write :: "hattrie \<Rightarrow> href \<Rightarrow> value_t \<Rightarrow> hattrie res" where
  "href_write T r x = (case r of
       NodeVal a \<Rightarrow> res_bind (as_trie (hnodes T) a) (\<lambda>t.
         Ok (T\<lparr>hnodes := fmupd a (Trie (t\<lparr>nval := x\<rparr>)) (hnodes T)\<rparr>))
     | BucketVal a v \<Rightarrow> res_bind (as_bucket (hnodes T) a) (\<lambda>b. res_bind (val_write b v x) (\<lambda>b1.
         Ok (T\<lparr>hnodes := fmupd a (Bucket b1) (hnodes T)\<rparr>))))"

section \<open>Walking down\<close>

definition alloc_trie_node :: "addr \<Rightarrow> trie_node" where
  "alloc_trie_node child = \<lparr>nflag = NODE_TYPE_TRIE, nval = 0, nxs = replicate NODE_CHILDS child\<rparr>"

definition new_hybrid :: ahtable where
  "new_hybrid = ahtable_create\<lparr>tflag := NODE_TYPE_HYBRID_BUCKET, tc0 := 0, tc1 := NODE_MAXCHAR\<rparr>"

definition hattrie_create :: hattrie where
  "hattrie_create = \<lparr>hroot = 2, hm = 0, hnodes = fmupd 2 (Trie (alloc_trie_node 1)) (fmupd 1 (Bucket new_hybrid) fmempty)\<rparr>"

definition hattrie_size :: "hattrie \<Rightarrow> u64" where
  "hattrie_size T = hm T"

definition child_at :: "hnode heap \<Rightarrow> addr \<Rightarrow> block \<Rightarrow> nat \<Rightarrow> addr res" where
  "child_at H p buf k =
     res_bind (blk_read buf k 1) (\<lambda>x. res_bind (as_trie H p) (\<lambda>t. Ok (nxs t ! unat (hd x))))"

function hattrie_consume :: "hnode heap \<Rightarrow> nat \<Rightarrow> block \<Rightarrow> addr \<Rightarrow> nat \<Rightarrow> nat \<Rightarrow> (addr \<times> addr \<times> nat \<times> nat) res" where
  "hattrie_consume H brk buf p k l =
     res_bind (child_at H p buf k) (\<lambda>node.
     res_bind (deref H (Some node)) (\<lambda>n.
       if has_flag n NODE_TYPE_TRIE \<and> l > brk then hattrie_consume H brk buf node (Suc k) (l - 1)
       else Ok (p, node, k, l)))"
  by pat_completeness auto
termination by (relation "measure (\<lambda>(H, brk, buf, p, k, l). l)") auto

declare hattrie_consume.simps [simp del]

definition hattrie_useval :: "hattrie \<Rightarrow> addr \<Rightarrow> (href \<times> hattrie) res" where
  "hattrie_useval T a =
     res_bind (as_trie (hnodes T) a) (\<lambda>t.
       if has_flag (Trie t) NODE_HAS_VAL then Ok (NodeVal a, T)
       else Ok (NodeVal a, T\<lparr>hnodes := fmupd a (Trie (t\<lparr>nflag := nflag t OR NODE_HAS_VAL\<rparr>)) (hnodes T), hm := hm T + 1\<rparr>))"

definition hattrie_clrval :: "hattrie \<Rightarrow> addr \<Rightarrow> (int \<times> hattrie) res" where
  "hattrie_clrval T a =
     res_bind (as_trie (hnodes T) a) (\<lambda>t.
       if has_flag (Trie t) NODE_HAS_VAL
       then Ok (0, T\<lparr>hnodes := fmupd a (Trie (t\<lparr>nflag := nflag t AND NOT NODE_HAS_VAL, nval := 0\<rparr>)) (hnodes T),
              hm := hm T - 1\<rparr>)
       else Ok (-1, T))"

definition hattrie_find :: "hattrie \<Rightarrow> block \<Rightarrow> nat \<Rightarrow> (ptr \<times> nat \<times> nat) res" where
  "hattrie_find T buf len =
     res_bind (deref (hnodes T) (Some (hroot T))) (\<lambda>r.
     res_bind (c_assert (has_flag r NODE_TYPE_TRIE)) (\<lambda>_.
       if len = 0 then Ok (Some (hroot T), 0, len)
       else res_bind (hattrie_consume (hnodes T) 1 buf (hroot T) 0 len) (\<lambda>(p, node, k, l).
            res_bind (deref (hnodes T) (Some node)) (\<lambda>n.
              if has_flag n NODE_TYPE_TRIE then Ok (if has_flag n NODE_HAS_VAL then Some node else NULL, k, l)
              else if has_flag n NODE_TYPE_PURE_BUCKET then Ok (Some node, k + 1, l - 1)
              else Ok (Some node, k, l)))))"

section \<open>Splitting a bucket\<close>

text \<open>A full pure bucket becomes a hybrid bucket below a new trie node.\<close>

definition split_pure :: "hattrie \<Rightarrow> addr \<Rightarrow> addr \<Rightarrow> hattrie res" where
  "split_pure T parent node =
     res_bind (as_trie (hnodes T) parent) (\<lambda>pt.
     res_bind (as_bucket (hnodes T) node) (\<lambda>b.
     (let new = fresh_addr (hnodes T); t0 = alloc_trie_node node;
          pt1 = pt\<lparr>nxs := (nxs pt)[unat (tc0 b) := new]\<rparr> in
     res_bind (ahtable_tryget b []) (\<lambda>val.
     res_bind (case val of None \<Rightarrow> Ok (t0, b)
               | Some r \<Rightarrow> res_bind (val_read b r) (\<lambda>x.
                   res_bind (val_write b r 0) (\<lambda>b1.
                   res_bind (ahtable_del b1 []) (\<lambda>(_, b2).
                     Ok (t0\<lparr>nval := x, nflag := nflag t0 OR NODE_HAS_VAL\<rparr>, b2))))) (\<lambda>(t1, b3).
       Ok (T\<lparr>hnodes := fmupd parent (Trie pt1) (fmupd new (Trie t1)
            (fmupd node (Bucket (b3\<lparr>tc0 := 0, tc1 := NODE_MAXCHAR, tflag := NODE_TYPE_HYBRID_BUCKET\<rparr>)) (hnodes T)))\<rparr>))))))"

text \<open>How often each leading byte occurs.\<close>

definition split_count :: "ahtable \<Rightarrow> unsorted_iter \<Rightarrow> u32 list \<Rightarrow> u32 list res" where
  "split_count b it cs =
     res_bind (unsorted_iter_key b it) (\<lambda>k0. res_bind (some_key k0) (\<lambda>key.
     res_bind (c_assert (length key > 0)) (\<lambda>_.
       Ok (cs[unat (hd key) := cs ! unat (hd key) + 1]))))"

text \<open>The split point: the bytes up to \<open>j\<close> go left; all arithmetic is on \<open>unsigned int\<close>.\<close>

function split_point :: "u32 list \<Rightarrow> u32 \<Rightarrow> byte \<Rightarrow> nat \<Rightarrow> u32 \<Rightarrow> u32 \<Rightarrow> nat \<times> u32 \<times> u32" where
  "split_point cs all_m c1 j left_m right_m =
     (if j + 1 < unat c1 \<and>
         \<bar>sint (left_m + cs ! (j + 1)) - sint (right_m - cs ! (j + 1))\<bar> \<le> sint (left_m - right_m) \<and>
         left_m + cs ! (j + 1) < all_m
      then split_point cs all_m c1 (j + 1) (left_m + cs ! (j + 1)) (right_m - cs ! (j + 1))
      else (j, left_m, right_m))"
  by pat_completeness auto
termination by (relation "measure (\<lambda>(cs, all_m, c1, j, l, r). unat c1 - j)") auto

declare split_point.simps [simp del]

text \<open>The number of slots starts at 4096, so doubling it ends.\<close>

function num_slots :: "nat \<Rightarrow> nat \<Rightarrow> nat" where
  "num_slots m n = (if 0 < n \<and> m > ahtable_max_load_factor * n then num_slots m (2 * n) else n)"
  by pat_completeness auto
termination
  by (relation "measure (\<lambda>(m, n). m - n)") (auto simp: ahtable_max_load_factor_def)

declare num_slots.simps [simp del]

definition split_table :: "nat \<Rightarrow> byte \<Rightarrow> byte \<Rightarrow> ahtable" where
  "split_table m c0 c1 =
     (ahtable_create_n (num_slots m ahtable_initial_size))\<lparr>tc0 := c0, tc1 := c1,
       tflag := (if c0 = c1 then NODE_TYPE_PURE_BUCKET else NODE_TYPE_HYBRID_BUCKET)\<rparr>"

definition put_suffix :: "ahtable \<Rightarrow> byte list \<Rightarrow> value_t \<Rightarrow> ahtable res" where
  "put_suffix b key x =
     res_bind (ahtable_get b (if has_flag (Bucket b) NODE_TYPE_PURE_BUCKET then tl key else key)) (\<lambda>(v, b1).
       val_write b1 v x)"

definition split_move :: "ahtable \<Rightarrow> nat \<Rightarrow> unsorted_iter \<Rightarrow> ahtable \<times> ahtable \<Rightarrow> (ahtable \<times> ahtable) res" where
  "split_move b j it lr =
     res_bind (unsorted_iter_key b it) (\<lambda>k0. res_bind (some_key k0) (\<lambda>key.
     res_bind (unsorted_iter_val b it) (\<lambda>r0.
     res_bind (case r0 of None \<Rightarrow> Fault NullDeref | Some r \<Rightarrow> val_read b r) (\<lambda>x.
     res_bind (c_assert (length key > 0)) (\<lambda>_.
       if unat (hd key) \<le> j then res_bind (put_suffix (fst lr) key x) (\<lambda>l. Ok (l, snd lr))
       else res_bind (put_suffix (snd lr) key x) (\<lambda>r. Ok (fst lr, r)))))))"

definition split_hybrid :: "hattrie \<Rightarrow> addr \<Rightarrow> addr \<Rightarrow> hattrie res" where
  "split_hybrid T parent node =
     res_bind (as_trie (hnodes T) parent) (\<lambda>pt.
     res_bind (as_bucket (hnodes T) node) (\<lambda>b.
     res_bind (iter_loop b (split_count b) (unsorted_iter_begin b) (replicate NODE_CHILDS 0)) (\<lambda>cs.
     (let c0 = unat (tc0 b); all_m = word_of_nat (ahtable_size b);
          (j, left_m, right_m) = split_point cs all_m (tc1 b) c0 (cs ! c0) (all_m - cs ! c0);
          left0 = split_table (unat left_m) (tc0 b) (word_of_nat j);
          right0 = split_table (unat right_m) (word_of_nat (j + 1)) (tc1 b);
          left = fresh_addr (hnodes T); right = fresh_addr (fmupd left (Bucket left0) (hnodes T));
          pt1 = pt\<lparr>nxs := map (\<lambda>c. if c0 \<le> c \<and> c \<le> j then left
                     else if j < c \<and> c \<le> unat (tc1 b) then right else nxs pt ! c) [0..<NODE_CHILDS]\<rparr> in
     res_bind (iter_loop b (split_move b j) (unsorted_iter_begin b) (left0, right0)) (\<lambda>(l, r).
       Ok (T\<lparr>hnodes := fmdrop node (fmupd parent (Trie pt1) (fmupd right (Bucket r) (fmupd left (Bucket l) (hnodes T))))\<rparr>))))))"

definition hattrie_split :: "hattrie \<Rightarrow> addr \<Rightarrow> addr \<Rightarrow> hattrie res" where
  "hattrie_split T parent node =
     res_bind (deref (hnodes T) (Some node)) (\<lambda>n.
     res_bind (c_assert (has_flag n NODE_TYPE_PURE_BUCKET \<or> has_flag n NODE_TYPE_HYBRID_BUCKET)) (\<lambda>_.
     res_bind (deref (hnodes T) (Some parent)) (\<lambda>p.
     res_bind (c_assert (has_flag p NODE_TYPE_TRIE)) (\<lambda>_.
       if has_flag n NODE_TYPE_PURE_BUCKET then split_pure T parent node else split_hybrid T parent node))))"

section \<open>The operations\<close>

text \<open>
  The part of \<open>hattrie_get\<close> after \<open>hattrie_consume\<close>: a key that ends at a trie node, the loop that
  splits full buckets, and the bucket. The loop is bounded by fuel; theorem
  \<open>hattrie_get_rep\<close> shows that what \<open>hattrie_get\<close> gives it is enough.
\<close>

fun get_loop :: "nat \<Rightarrow> hattrie \<Rightarrow> block \<Rightarrow> addr \<Rightarrow> addr \<Rightarrow> nat \<Rightarrow> nat \<Rightarrow> (href \<times> hattrie) res" where
  "get_loop 0 T buf parent node k l = Fault Diverges"
| "get_loop (Suc fuel) T buf parent node k l =
     res_bind (deref (hnodes T) (Some node)) (\<lambda>n.
       if l = 0 \<and> has_flag n NODE_TYPE_TRIE then hattrie_useval T node
       else if l = 0 \<and> has_flag n NODE_TYPE_HYBRID_BUCKET then hattrie_useval T parent
       else res_bind (as_bucket (hnodes T) node) (\<lambda>b.
         if ahtable_size b \<ge> MAX_BUCKET_SIZE
         then res_bind (hattrie_split T parent node) (\<lambda>T1.
              res_bind (hattrie_consume (hnodes T1) 0 buf parent k l) (\<lambda>(parent1, node1, k1, l1).
                get_loop fuel T1 buf parent1 node1 k1 l1))
         else res_bind (c_assert (has_flag n NODE_TYPE_PURE_BUCKET \<or> has_flag n NODE_TYPE_HYBRID_BUCKET)) (\<lambda>_.
              res_bind (c_assert (l > 0)) (\<lambda>_.
              res_bind (if has_flag n NODE_TYPE_PURE_BUCKET then blk_read buf (k + 1) (l - 1) else blk_read buf k l) (\<lambda>key.
              res_bind (ahtable_get b key) (\<lambda>(v, b1).
                Ok (BucketVal node v, T\<lparr>hnodes := fmupd node (Bucket b1) (hnodes T),
                    hm := hm T + (word_of_nat (tm b1) - word_of_nat (tm b))\<rparr>)))))))"

definition hattrie_get :: "hattrie \<Rightarrow> block \<Rightarrow> nat \<Rightarrow> (href \<times> hattrie) res" where
  "hattrie_get T buf len =
     res_bind (deref (hnodes T) (Some (hroot T))) (\<lambda>r.
     res_bind (c_assert (has_flag r NODE_TYPE_TRIE)) (\<lambda>_.
       if len = 0
       then res_bind (as_trie (hnodes T) (hroot T)) (\<lambda>t.
              Ok (NodeVal (hroot T), T\<lparr>hnodes := fmupd (hroot T) (Trie (t\<lparr>nflag := nflag t OR NODE_HAS_VAL\<rparr>)) (hnodes T)\<rparr>))
       else res_bind (hattrie_consume (hnodes T) 0 buf (hroot T) 0 len) (\<lambda>(parent, node, k, l).
              get_loop (NODE_CHILDS * (len + 1)) T buf parent node k l)))"

definition hattrie_tryget :: "hattrie \<Rightarrow> block \<Rightarrow> nat \<Rightarrow> href option res" where
  "hattrie_tryget T buf len =
     res_bind (hattrie_find T buf len) (\<lambda>(p, k, l).
       case p of None \<Rightarrow> Ok None
       | Some node \<Rightarrow>
           res_bind (deref (hnodes T) (Some node)) (\<lambda>n.
             case n of Trie t \<Rightarrow> Ok (Some (NodeVal node))
             | Bucket b \<Rightarrow> res_bind (blk_read buf k l) (\<lambda>key. res_bind (ahtable_tryget b key) (\<lambda>r.
                 Ok (map_option (BucketVal node) r)))))"

definition hattrie_del :: "hattrie \<Rightarrow> block \<Rightarrow> nat \<Rightarrow> (int \<times> hattrie) res" where
  "hattrie_del T buf len =
     res_bind (hattrie_find T buf len) (\<lambda>(p, k, l).
       case p of None \<Rightarrow> Ok (-1, T)
       | Some node \<Rightarrow>
           res_bind (deref (hnodes T) (Some node)) (\<lambda>n.
             case n of Trie t \<Rightarrow> hattrie_clrval T node
             | Bucket b \<Rightarrow> res_bind (blk_read buf k l) (\<lambda>key. res_bind (ahtable_del b key) (\<lambda>(ret, b1).
                 Ok (ret, T\<lparr>hnodes := fmupd node (Bucket b1) (hnodes T),
                     hm := hm T - (word_of_nat (tm b) - word_of_nat (tm b1))\<rparr>)))))"

section \<open>The invariant for C strings as keys\<close>

text \<open>
  The array macros use keys that end with their only NUL byte. No such key is a prefix of
  another, so no key ends at a trie node and the byte after a key is never read.
\<close>

definition good_key :: "byte list \<Rightarrow> bool" where
  "good_key k \<longleftrightarrow> k \<noteq> [] \<and> last k = 0 \<and> 0 \<notin> set (butlast k) \<and> length k \<le> 32767"

primrec walk :: "hnode heap \<Rightarrow> addr \<Rightarrow> byte list \<Rightarrow> addr option" where
  "walk H a [] = (case fmlookup H a of Some (Trie t) \<Rightarrow> Some a | _ \<Rightarrow> None)"
| "walk H a (c # cs) = (case fmlookup H a of Some (Trie t) \<Rightarrow> walk H (nxs t ! unat c) cs | _ \<Rightarrow> None)"

definition in_range :: "ahtable \<Rightarrow> byte \<Rightarrow> bool" where
  "in_range b c \<longleftrightarrow> tc0 b \<le> c \<and> c \<le> tc1 b"

definition sub_key :: "ahtable \<Rightarrow> byte list \<Rightarrow> byte list" where
  "sub_key b k = (if tflag b = NODE_TYPE_PURE_BUCKET then tl k else k)"

text \<open>A bucket below path \<open>w\<close> holds the part of the map that its range covers.\<close>

definition bucket_ok :: "array_t \<Rightarrow> byte list \<Rightarrow> ahtable \<Rightarrow> bool" where
  "bucket_ok M w b \<longleftrightarrow> (\<exists>N. ahtable_rep b N \<and>
     (tflag b = NODE_TYPE_PURE_BUCKET \<and> tc0 b = tc1 b \<or>
      tflag b = NODE_TYPE_HYBRID_BUCKET \<and> tc0 b < tc1 b \<and> (\<forall>k. k |\<in>| fmdom N \<longrightarrow> k \<noteq> [] \<and> in_range b (hd k))) \<and>
     (\<forall>c cs. in_range b c \<longrightarrow> fmlookup N (sub_key b (c # cs)) = fmlookup M (w @ c # cs)))"

definition child_ok :: "hnode heap \<Rightarrow> (addr \<Rightarrow> byte list) \<Rightarrow> byte list \<Rightarrow> addr list \<Rightarrow> byte \<Rightarrow> bool" where
  "child_ok H pth w xs c \<longleftrightarrow> (case fmlookup H (xs ! unat c) of
       None \<Rightarrow> False
     | Some (Trie t) \<Rightarrow> pth (xs ! unat c) = w @ [c]
     | Some (Bucket b) \<Rightarrow> pth (xs ! unat c) = w \<and> in_range b c \<and> (\<forall>c'. in_range b c' \<longrightarrow> xs ! unat c' = xs ! unat c))"

definition trie_ok :: "hnode heap \<Rightarrow> (addr \<Rightarrow> byte list) \<Rightarrow> addr \<Rightarrow> trie_node \<Rightarrow> bool" where
  "trie_ok H pth a t \<longleftrightarrow> nflag t = NODE_TYPE_TRIE \<and> length (nxs t) = NODE_CHILDS \<and> 0 \<notin> set (pth a) \<and>
     length (pth a) < 32767 \<and> (\<forall>c. child_ok H pth (pth a) (nxs t) c)"

definition parent_ok :: "hnode heap \<Rightarrow> addr \<Rightarrow> byte list \<Rightarrow> addr \<Rightarrow> ahtable \<Rightarrow> bool" where
  "parent_ok H r w a b \<longleftrightarrow> (\<exists>p t. walk H r w = Some p \<and> fmlookup H p = Some (Trie t) \<and> nxs t ! unat (tc0 b) = a)"

definition hat_inv :: "hattrie \<Rightarrow> (addr \<Rightarrow> byte list) \<Rightarrow> array_t \<Rightarrow> bool" where
  "hat_inv T pth M \<longleftrightarrow>
     pth (hroot T) = [] \<and> (\<exists>t. fmlookup (hnodes T) (hroot T) = Some (Trie t)) \<and>
     (\<forall>a t. fmlookup (hnodes T) a = Some (Trie t) \<longrightarrow>
        trie_ok (hnodes T) pth a t \<and> walk (hnodes T) (hroot T) (pth a) = Some a) \<and>
     (\<forall>a b. fmlookup (hnodes T) a = Some (Bucket b) \<longrightarrow>
        bucket_ok M (pth a) b \<and> parent_ok (hnodes T) (hroot T) (pth a) a b) \<and>
     (\<forall>k. k |\<in>| fmdom M \<longrightarrow> good_key k) \<and> hm T = word_of_nat (array_size M)"

lemma hat_invD:
  assumes "hat_inv T pth M"
  shows "pth (hroot T) = []" "\<exists>t. fmlookup (hnodes T) (hroot T) = Some (Trie t)"
    "fmlookup (hnodes T) a = Some (Trie t) \<Longrightarrow> trie_ok (hnodes T) pth a t"
    "fmlookup (hnodes T) a = Some (Trie t) \<Longrightarrow> walk (hnodes T) (hroot T) (pth a) = Some a"
    "fmlookup (hnodes T) a = Some (Bucket b) \<Longrightarrow> bucket_ok M (pth a) b"
    "fmlookup (hnodes T) a = Some (Bucket b) \<Longrightarrow> parent_ok (hnodes T) (hroot T) (pth a) a b"
    "k |\<in>| fmdom M \<Longrightarrow> good_key k" "hm T = word_of_nat (array_size M)"
  using assms by (auto simp: hat_inv_def)

lemma child_ok_Bucket:
  assumes "child_ok H pth w xs c" and "fmlookup H (xs ! unat c) = Some (Bucket b)"
  shows "pth (xs ! unat c) = w" "in_range b c" "in_range b c' \<Longrightarrow> xs ! unat c' = xs ! unat c"
proof -
  have "pth (xs ! unat c) = w \<and> in_range b c \<and> (\<forall>c'. in_range b c' \<longrightarrow> xs ! unat c' = xs ! unat c)"
    using assms(1) unfolding child_ok_def assms(2) option.case hnode.case .
  then show "pth (xs ! unat c) = w" "in_range b c" "in_range b c' \<Longrightarrow> xs ! unat c' = xs ! unat c" by blast+
qed

lemma child_ok_Trie:
  assumes "child_ok H pth w xs c" and "fmlookup H (xs ! unat c) = Some (Trie t)"
  shows "pth (xs ! unat c) = w @ [c]"
  using assms(1) unfolding child_ok_def assms(2) option.case hnode.case .

lemma child_okI_Bucket:
  assumes "fmlookup H (xs ! unat c) = Some (Bucket b)" and "pth (xs ! unat c) = w" and "in_range b c"
    and "\<And>c'. in_range b c' \<Longrightarrow> xs ! unat c' = xs ! unat c"
  shows "child_ok H pth w xs c"
  unfolding child_ok_def assms(1) option.case hnode.case using assms(2-4) by blast

lemma child_okI_Trie:
  assumes "fmlookup H (xs ! unat c) = Some (Trie t)" and "pth (xs ! unat c) = w @ [c]"
  shows "child_ok H pth w xs c"
  unfolding child_ok_def assms(1) option.case hnode.case by (rule assms(2))

lemma bucket_ok_range: "bucket_ok M w b \<Longrightarrow> in_range b (tc0 b)"
  by (auto simp: bucket_ok_def in_range_def)

lemma bucket_ok_flag:
  "bucket_ok M w b \<Longrightarrow> tflag b = NODE_TYPE_PURE_BUCKET \<and> tc0 b = tc1 b \<or> tflag b = NODE_TYPE_HYBRID_BUCKET \<and> tc0 b < tc1 b"
  by (auto simp: bucket_ok_def)

lemma has_flag_trie [simp]:
  "nflag t = NODE_TYPE_TRIE \<Longrightarrow> has_flag (Trie t) NODE_TYPE_TRIE"
  "nflag t = NODE_TYPE_TRIE \<Longrightarrow> \<not> has_flag (Trie t) NODE_HAS_VAL"
  by (simp_all add: has_flag_def node_types)

lemma has_flag_bucket [simp]:
  assumes "tflag b = NODE_TYPE_PURE_BUCKET \<or> tflag b = NODE_TYPE_HYBRID_BUCKET"
  shows "\<not> has_flag (Bucket b) NODE_TYPE_TRIE"
    "has_flag (Bucket b) NODE_TYPE_PURE_BUCKET \<longleftrightarrow> tflag b = NODE_TYPE_PURE_BUCKET"
    "has_flag (Bucket b) NODE_TYPE_HYBRID_BUCKET \<longleftrightarrow> tflag b = NODE_TYPE_HYBRID_BUCKET"
  using assms by (auto simp: has_flag_def node_types)

lemma walk_append:
  "walk H a (u @ v) = (case walk H a u of None \<Rightarrow> None | Some x \<Rightarrow> walk H x v)"
proof (induction u arbitrary: a)
  case Nil
  show ?case
  proof (cases "fmlookup H a")
    case None
    then show ?thesis by (cases v) simp_all
  next
    case (Some n)
    then show ?thesis by (cases n; cases v) simp_all
  qed
next
  case (Cons c u)
  then show ?case by (simp split: option.split hnode.split)
qed

lemma walk_trie: "walk H a w = Some p \<Longrightarrow> \<exists>t. fmlookup H p = Some (Trie t)"
  by (induction w arbitrary: a) (auto split: option.splits hnode.splits)

lemma walk_bucket: "fmlookup H a = Some (Bucket b) \<Longrightarrow> walk H a w = None"
  by (cases w) auto

text \<open>The bucket of the parent of a bucket is found at every byte of its range.\<close>

lemma parent_child:
  assumes inv: "hat_inv T pth M" and a: "fmlookup (hnodes T) a = Some (Bucket b)" and c: "in_range b c"
  shows "\<exists>p t. walk (hnodes T) (hroot T) (pth a) = Some p \<and> fmlookup (hnodes T) p = Some (Trie t) \<and> pth p = pth a \<and>
     nxs t ! unat c = a"
proof -
  from hat_invD(6) [OF inv a] obtain p t where p: "walk (hnodes T) (hroot T) (pth a) = Some p"
    "fmlookup (hnodes T) p = Some (Trie t)" "nxs t ! unat (tc0 b) = a" by (auto simp: parent_ok_def)
  from hat_invD(3) [OF inv p(2)] have "child_ok (hnodes T) pth (pth p) (nxs t) (tc0 b)" by (simp add: trie_ok_def)
  with p(3) a c have "pth p = pth a" "nxs t ! unat c = a" by (auto simp: child_ok_def)
  with p show ?thesis by blast
qed

lemma unique_cover:
  assumes inv: "hat_inv T pth M"
    and a1: "fmlookup (hnodes T) a1 = Some (Bucket b1)" "in_range b1 c1"
    and a2: "fmlookup (hnodes T) a2 = Some (Bucket b2)" "in_range b2 c2"
    and eq: "pth a1 @ c1 # cs1 = pth a2 @ c2 # cs2"
  shows "a1 = a2"
proof -
  have one: "x1 = x2" if x1: "fmlookup (hnodes T) x1 = Some (Bucket d1)" "in_range d1 e1"
    and x2: "fmlookup (hnodes T) x2 = Some (Bucket d2)" "in_range d2 e2"
    and z: "pth x2 = pth x1 @ z" "e1 # r1 = z @ e2 # r2" for x1 x2 d1 d2 e1 e2 r1 r2 z
  proof -
    from parent_child [OF inv x1] obtain p1 t1 where p1: "walk (hnodes T) (hroot T) (pth x1) = Some p1"
      "fmlookup (hnodes T) p1 = Some (Trie t1)" "nxs t1 ! unat e1 = x1" by blast
    from parent_child [OF inv x2] obtain p2 t2 where p2: "walk (hnodes T) (hroot T) (pth x2) = Some p2"
      "fmlookup (hnodes T) p2 = Some (Trie t2)" "nxs t2 ! unat e2 = x2" by blast
    show ?thesis
    proof (cases z)
      case Nil
      with z p1 p2 show ?thesis by simp
    next
      case (Cons e z')
      with z(2) have "e = e1" by simp
      with p2(1) z(1) Cons p1 have "walk (hnodes T) x1 z' = Some p2" by (simp add: walk_append)
      with walk_bucket [OF x1(1)] show ?thesis by simp
    qed
  qed
  from eq obtain z where "pth a1 = pth a2 @ z \<and> z @ c1 # cs1 = c2 # cs2 \<or> pth a1 @ z = pth a2 \<and> c1 # cs1 = z @ c2 # cs2"
    unfolding append_eq_append_conv2 by blast
  then show ?thesis
    using one [OF a1 a2, of z cs1 cs2] one [OF a2 a1, of z cs2 cs1] by auto
qed

lemma walk_path:
  assumes inv: "hat_inv T pth M"
  shows "fmlookup (hnodes T) a = Some (Trie t) \<Longrightarrow> walk (hnodes T) a w = Some p \<Longrightarrow> pth p = pth a @ w"
proof (induction w arbitrary: a t)
  case Nil
  then show ?case by simp
next
  case (Cons c w)
  let ?x = "nxs t ! unat c"
  from Cons.prems have w: "walk (hnodes T) ?x w = Some p" by simp
  from hat_invD(3) [OF inv Cons.prems(1)] have ok: "child_ok (hnodes T) pth (pth a) (nxs t) c" by (simp add: trie_ok_def)
  show ?case
  proof (cases "fmlookup (hnodes T) ?x")
    case (Some n)
    show ?thesis
    proof (cases n)
      case (Trie t')
      with Some ok have "pth ?x = pth a @ [c]" by (simp add: child_ok_def)
      with Cons.IH [OF _ w, of t'] Some Trie show ?thesis by simp
    next
      case (Bucket b)
      with Some w walk_bucket show ?thesis by simp
    qed
  qed (use ok in \<open>simp add: child_ok_def\<close>)
qed

lemma path_inj:
  assumes "hat_inv T pth M" and "fmlookup (hnodes T) a = Some (Trie t)" "fmlookup (hnodes T) a' = Some (Trie t')"
    and "pth a = pth a'"
  shows "a = a'"
proof -
  have "Some a = Some a'"
    unfolding hat_invD(4) [OF assms(1,2), symmetric] hat_invD(4) [OF assms(1,3), symmetric] assms(4) by (rule refl)
  then show ?thesis by simp
qed

section \<open>Walking down finds the bucket of a key\<close>

definition leads :: "hattrie \<Rightarrow> (addr \<Rightarrow> byte list) \<Rightarrow> byte list \<Rightarrow> addr \<Rightarrow> addr \<Rightarrow> nat \<Rightarrow> nat \<Rightarrow> bool" where
  "leads T pth key p node k l \<longleftrightarrow> (\<exists>t b c cs. fmlookup (hnodes T) p = Some (Trie t) \<and>
     fmlookup (hnodes T) node = Some (Bucket b) \<and> pth p = pth node \<and> key = pth node @ c # cs \<and> in_range b c \<and>
     nxs t ! unat c = node \<and> k = length (pth node) \<and> l = Suc (length cs))"

lemma good_key_prefix:
  assumes "good_key key" and "key = w @ c # cs" and "0 \<in> set (w @ [c])"
  shows "cs = [] \<and> c = 0 \<and> 0 \<notin> set w"
proof -
  have "cs = []"
  proof (rule ccontr)
    assume "cs \<noteq> []"
    then have "butlast key = w @ c # butlast cs" using assms(2) by (simp add: butlast_append)
    with assms(1,3) show False by (auto simp: good_key_def)
  qed
  with assms show ?thesis by (auto simp: good_key_def butlast_append)
qed

lemma consume_leads:
  assumes inv: "hat_inv T pth M" and key: "good_key key" and buf: "buf = key @ rest" and brk: "brk \<le> 1"
  shows "fmlookup (hnodes T) p = Some (Trie t) \<Longrightarrow> key = pth p @ ds \<Longrightarrow> ds \<noteq> [] \<Longrightarrow> k = length (pth p) \<Longrightarrow>
     \<exists>p' node k' l'. hattrie_consume (hnodes T) brk buf p k (length ds) = Ok (p', node, k', l') \<and>
       leads T pth key p' node k' l'"
proof (induction ds arbitrary: p t k)
  case Nil
  then show ?case by simp
next
  case (Cons c ds)
  let ?x = "nxs t ! unat c"
  have ok: "child_ok (hnodes T) pth (pth p) (nxs t) c" using hat_invD(3) [OF inv Cons.prems(1)] by (simp add: trie_ok_def)
  then obtain n where n: "fmlookup (hnodes T) ?x = Some n" by (auto simp: child_ok_def split: option.splits)
  have "blk_read buf k 1 = Ok [c]"
    using Cons.prems(2,4) buf blk_read_at [of k "pth p" 1 "[c]" "ds @ rest"] by simp
  then have child: "child_at (hnodes T) p buf k = Ok ?x"
    using Cons.prems(1) by (simp add: child_at_def as_trie_def)
  show ?case
  proof (cases n)
    case (Trie t')
    with n ok have pth: "pth ?x = pth p @ [c]" by (simp add: child_ok_def)
    have t': "trie_ok (hnodes T) pth ?x t'" using hat_invD(3) [OF inv] n Trie by simp
    then have "0 \<notin> set (pth p @ [c])" using pth by (simp add: trie_ok_def)
    with key Cons.prems(2) have ds: "ds \<noteq> []" by (auto simp: good_key_def)
    have brk': "brk < length (c # ds)" using brk ds by (cases ds) auto
    have "has_flag n NODE_TYPE_TRIE" using t' Trie by (simp add: trie_ok_def)
    then have "hattrie_consume (hnodes T) brk buf p k (length (c # ds)) =
        hattrie_consume (hnodes T) brk buf ?x (Suc k) (length ds)"
      using child n brk' by (subst hattrie_consume.simps) simp
    moreover have "\<exists>p' node k' l'. hattrie_consume (hnodes T) brk buf ?x (Suc k) (length ds) = Ok (p', node, k', l') \<and>
        leads T pth key p' node k' l'"
      using n Trie pth Cons.prems(2,4) ds by (intro Cons.IH [of ?x t']) simp_all
    ultimately show ?thesis by (simp only:)
  next
    case (Bucket b)
    have b: "pth ?x = pth p" "in_range b c" using child_ok_Bucket(1,2) [OF ok] n Bucket by auto
    have "bucket_ok M (pth ?x) b" using hat_invD(5) [OF inv] n Bucket by simp
    from bucket_ok_flag [OF this] have "\<not> has_flag n NODE_TYPE_TRIE" using Bucket by auto
    then have "hattrie_consume (hnodes T) brk buf p k (length (c # ds)) = Ok (p, ?x, k, length (c # ds))"
      using child n by (subst hattrie_consume.simps) simp
    moreover have "leads T pth key p ?x k (length (c # ds))"
      unfolding leads_def using Cons.prems n Bucket b
      by (intro exI [of _ t] exI [of _ b] exI [of _ c] exI [of _ ds]) auto
    ultimately show ?thesis by blast
  qed
qed

lemma leadsE:
  assumes "leads T pth key p node k l"
  obtains t b c cs where "fmlookup (hnodes T) p = Some (Trie t)" "fmlookup (hnodes T) node = Some (Bucket b)"
    "pth p = pth node" "key = pth node @ c # cs" "in_range b c" "nxs t ! unat c = node" "k = length (pth node)"
    "l = Suc (length cs)"
  using assms unfolding leads_def by blast

text \<open>The part of the key that a bucket stores.\<close>

lemma leads_read:
  assumes "key = w @ c # cs" and "k = length w" and "l = Suc (length cs)"
  shows "blk_read (key @ rest) k l = Ok (c # cs)" "blk_read (key @ rest) (k + 1) (l - 1) = Ok cs"
  using assms blk_read_at [of k w l "c # cs" rest] blk_read_at [of "k + 1" "w @ [c]" "l - 1" cs rest] by simp_all

section \<open>Changing one bucket\<close>

lemma walk_bucket_upd:
  "fmlookup H a = Some (Bucket b) \<Longrightarrow> walk (fmupd a (Bucket b') H) x w = walk H x w"
proof (induction w arbitrary: x)
  case Nil
  then show ?case by (cases "x = a") simp_all
next
  case (Cons c w)
  then show ?case by (cases "x = a") (auto split: option.split hnode.split)
qed

lemma in_range_same: "same_node b b' \<Longrightarrow> in_range b' c = in_range b c"
  by (simp add: same_node_def in_range_def)

lemma child_ok_bucket_upd:
  assumes "fmlookup H a = Some (Bucket b)" and "same_node b b'"
  shows "child_ok (fmupd a (Bucket b') H) pth w xs c = child_ok H pth w xs c"
  using assms in_range_same [OF assms(2)] by (cases "xs ! unat c = a") (auto simp: child_ok_def)

lemma hat_inv_upd:
  assumes inv: "hat_inv T pth M" and a: "fmlookup (hnodes T) a = Some (Bucket b)"
    and b': "same_node b b'" "bucket_ok M' (pth a) b'"
    and key: "key = pth a @ c # cs" "in_range b c" "\<And>k. k \<noteq> key \<Longrightarrow> fmlookup M' k = fmlookup M k"
    and good: "\<And>k. k |\<in>| fmdom M' \<Longrightarrow> good_key k" and m: "m = word_of_nat (array_size M')"
  shows "hat_inv (T\<lparr>hnodes := fmupd a (Bucket b') (hnodes T), hm := m\<rparr>) pth M'"
proof -
  let ?T = "T\<lparr>hnodes := fmupd a (Bucket b') (hnodes T), hm := m\<rparr>"
  have root: "hroot T \<noteq> a" using hat_invD(2) [OF inv] a by auto
  have wk: "walk (hnodes ?T) x w = walk (hnodes T) x w" for x w using walk_bucket_upd [OF a] by simp
  have tries: "fmlookup (hnodes ?T) x = Some (Trie t) \<longleftrightarrow> fmlookup (hnodes T) x = Some (Trie t)" for x t using a by auto
  have par: "parent_ok (hnodes ?T) r w x d = parent_ok (hnodes T) r w x d" for r w x d
    unfolding parent_ok_def wk tries ..
  have bk: "bucket_ok M' (pth x) d" if x: "fmlookup (hnodes T) x = Some (Bucket d)" "x \<noteq> a" for x d
  proof -
    have "fmlookup M' (pth x @ e # es) = fmlookup M (pth x @ e # es)" if "in_range d e" for e es
      using unique_cover [OF inv x(1) that a key(2), of es cs] x(2) key(1,3) by auto
    with hat_invD(5) [OF inv x(1)] show ?thesis by (fastforce simp: bucket_ok_def)
  qed
  have "trie_ok (hnodes ?T) pth x t \<and> walk (hnodes ?T) (hroot T) (pth x) = Some x"
    if "fmlookup (hnodes T) x = Some (Trie t)" for x t
    using hat_invD(3,4) [OF inv that] child_ok_bucket_upd [OF a b'(1)] by (simp add: trie_ok_def wk [simplified])
  moreover have "bucket_ok M' (pth x) d \<and> parent_ok (hnodes ?T) (hroot T) (pth x) x d"
    if "fmlookup (hnodes ?T) x = Some (Bucket d)" for x d
  proof (cases "x = a")
    case True
    with that have "d = b'" by simp
    with hat_invD(6) [OF inv a] b' True par show ?thesis by (simp add: parent_ok_def same_node_def del: hattrie.simps)
  next
    case False
    with that bk [of x d] hat_invD(6) [OF inv, of x d] par show ?thesis by simp
  qed
  ultimately show ?thesis
    using hat_invD(1,2) [OF inv] good m root unfolding hat_inv_def tries by auto
qed

end
