(* ===== verification/Hattrie_Split.thy ===== *)
theory Hattrie_Split
  imports Hattrie
begin

text \<open>
  \<open>hattrie_split\<close> of \<open>src/lib/hat-trie/src/hat-trie.c\<close> keeps the invariant and the map of a HAT-trie whose
  keys are C strings, and brings the bucket of the key strictly closer: the loop of \<open>hattrie_get\<close>
  that splits full buckets ends.
\<close>

section \<open>Splitting keeps the map\<close>

lemma walk_mono:
  assumes "\<And>x t. fmlookup H x = Some (Trie t) \<Longrightarrow> \<exists>t'. fmlookup H' x = Some (Trie t') \<and>
      (\<forall>(c :: byte) t2. fmlookup H (nxs t ! unat c) = Some (Trie t2) \<longrightarrow> nxs t' ! unat c = nxs t ! unat c)"
  shows "walk H x w = Some y \<Longrightarrow> walk H' x w = Some y"
proof (induction w arbitrary: x)
  case Nil
  then obtain t where "fmlookup H x = Some (Trie t)" "x = y" by (auto split: option.splits hnode.splits)
  with assms show ?case by force
next
  case (Cons c w)
  then obtain t where t: "fmlookup H x = Some (Trie t)" "walk H (nxs t ! unat c) w = Some y"
    by (auto split: option.splits hnode.splits)
  then have "\<exists>t2. fmlookup H (nxs t ! unat c) = Some (Trie t2)"
    by (cases w) (auto split: option.splits hnode.splits)
  with assms [OF t(1)] obtain t' where "fmlookup H' x = Some (Trie t')" "nxs t' ! unat c = nxs t ! unat c" by blast
  with Cons.IH [OF t(2)] show ?case by simp
qed

lemma child_ok_mono:
  assumes "child_ok H pth w xs c" and "xs' ! unat c = xs ! unat c" and "pth' (xs ! unat c) = pth (xs ! unat c)"
    and "\<And>t. fmlookup H (xs ! unat c) = Some (Trie t) \<Longrightarrow> \<exists>t'. fmlookup H' (xs ! unat c) = Some (Trie t')"
    and "\<And>d. fmlookup H (xs ! unat c) = Some (Bucket d) \<Longrightarrow> fmlookup H' (xs ! unat c) = Some (Bucket d) \<and>
      (\<forall>c'. in_range d c' \<longrightarrow> xs' ! unat c' = xs ! unat c')"
  shows "child_ok H' pth' w xs' c"
proof (cases "fmlookup H (xs ! unat c)")
  case None
  with assms(1) show ?thesis by (simp add: child_ok_def)
next
  case (Some n)
  show ?thesis
  proof (cases n)
    case (Trie t)
    with assms(4) Some obtain t' where "fmlookup H' (xs ! unat c) = Some (Trie t')" by blast
    with child_ok_Trie [OF assms(1)] Some Trie assms(2,3) show ?thesis by (simp add: child_ok_def)
  next
    case (Bucket d)
    with Some have d: "fmlookup H (xs ! unat c) = Some (Bucket d)" by simp
    have "xs' ! unat c' = xs' ! unat c" if "in_range d c'" for c'
    proof -
      have "xs' ! unat c' = xs ! unat c'" using assms(5) [OF d] that by blast
      also have "\<dots> = xs ! unat c" by (rule child_ok_Bucket(3) [OF assms(1) d that])
      finally show ?thesis using assms(2) by simp
    qed
    moreover have "fmlookup H' (xs ! unat c) = Some (Bucket d)" using assms(5) [OF d] by (rule conjunct1)
    then have "fmlookup H' (xs' ! unat c) = Some (Bucket d)" unfolding assms(2) .
    moreover have "pth' (xs' ! unat c) = w"
      unfolding assms(2,3) by (rule child_ok_Bucket(1) [OF assms(1) d])
    ultimately show ?thesis using child_ok_Bucket(2) [OF assms(1) d] by (intro child_okI_Bucket)
  qed
qed

lemma byte_le_max [simp]: "(c :: byte) \<le> NODE_MAXCHAR"
proof -
  have "unat c < 2 ^ LENGTH(8)" by (rule unsigned_less)
  then show ?thesis by (simp add: NODE_MAXCHAR_def word_le_nat_alt)
qed

lemma unat_byte_less [simp]: "unat (c :: byte) < NODE_CHILDS"
proof -
  have "unat c < 2 ^ LENGTH(8)" by (rule unsigned_less)
  then show ?thesis by (simp add: NODE_CHILDS_def)
qed

lemma ahtable_rep_fields [simp]:
  "ahtable_rep (b\<lparr>tflag := f\<rparr>) N = ahtable_rep b N" "ahtable_rep (b\<lparr>tc0 := c\<rparr>) N = ahtable_rep b N"
  "ahtable_rep (b\<lparr>tc1 := c\<rparr>) N = ahtable_rep b N"
  by (simp_all add: ahtable_rep_def table_rep_def)

text \<open>A full pure bucket is not the one for the NUL byte, and does not hold the empty suffix.\<close>

lemma pure_full:
  assumes inv: "hat_inv T pth M" and a: "fmlookup (hnodes T) a = Some (Bucket b)"
    and pure: "tflag b = NODE_TYPE_PURE_BUCKET" and full: "ahtable_size b \<ge> MAX_BUCKET_SIZE"
  obtains N where "ahtable_rep b N" "tc0 b \<noteq> 0" "tc1 b = tc0 b" "fmlookup N [] = None"
    "length (pth a @ [tc0 b]) < 32767" "\<And>cs. fmlookup N cs = fmlookup M (pth a @ tc0 b # cs)"
proof -
  from hat_invD(5) [OF inv a] pure obtain N where N: "ahtable_rep b N" "tc1 b = tc0 b"
    "\<And>cs. fmlookup N cs = fmlookup M (pth a @ tc0 b # cs)"
    by (auto simp: bucket_ok_def in_range_def sub_key_def node_types)
  have zero: "tc0 b \<noteq> 0"
  proof
    assume z: "tc0 b = 0"
    have "k = []" if "k |\<in>| fmdom N" for k
    proof -
      from that N(3) [of k] have "pth a @ tc0 b # k |\<in>| fmdom M" by (auto simp: fmlookup_dom_iff)
      from good_key_prefix [OF hat_invD(7) [OF inv this] refl] z show ?thesis by simp
    qed
    then have "fmdom N |\<subseteq>| {|[]|}" by (intro fsubsetI) simp
    from fcard_mono [OF this] have "fcard (fmdom N) \<le> 1" by (simp add: fcard.rep_eq)
    with ahtable_size_rep [OF N(1)] full show False by (simp add: array_size_def MAX_BUCKET_SIZE_def)
  qed
  moreover have "fmlookup N [] = None"
  proof (rule ccontr)
    assume "fmlookup N [] \<noteq> None"
    with N(3) [of "[]"] have "pth a @ [tc0 b] |\<in>| fmdom M" by (auto simp: fmlookup_dom_iff)
    with hat_invD(7) [OF inv] zero show False by (fastforce simp: good_key_def)
  qed
  moreover have "length (pth a @ [tc0 b]) < 32767"
  proof -
    have "fmdom N \<noteq> {||}" using ahtable_size_rep [OF N(1)] full by (auto simp: array_size_def MAX_BUCKET_SIZE_def fcard.rep_eq)
    then obtain k where "k |\<in>| fmdom N" by blast
    then have k: "pth a @ tc0 b # k |\<in>| fmdom M" using N(3) [of k] by (simp add: fmlookup_dom_iff)
    have "k \<noteq> []" using \<open>fmlookup N [] = None\<close> \<open>k |\<in>| fmdom N\<close> by (auto simp: fmlookup_dom_iff)
    with hat_invD(7) [OF inv k] show ?thesis by (cases k) (auto simp: good_key_def)
  qed
  ultimately show ?thesis using N that by blast
qed

text \<open>
  How far a key still has to go from its bucket; the loop of \<open>hattrie_get\<close> makes it smaller.
\<close>

definition weight :: "byte list \<Rightarrow> (addr \<Rightarrow> byte list) \<Rightarrow> addr \<Rightarrow> ahtable \<Rightarrow> nat" where
  "weight key pth a b = (length key - length (pth a)) * NODE_CHILDS + (unat (tc1 b) - unat (tc0 b))"

definition split_done :: "hattrie \<Rightarrow> (addr \<Rightarrow> byte list) \<Rightarrow> array_t \<Rightarrow> addr \<Rightarrow> byte list \<Rightarrow> addr \<Rightarrow> ahtable \<Rightarrow> hattrie \<Rightarrow> bool" where
  "split_done T pth M p key node b T' \<longleftrightarrow> hroot T' = hroot T \<and> (\<exists>pth'. hat_inv T' pth' M \<and> pth' p = pth p \<and>
     (\<exists>t. fmlookup (hnodes T') p = Some (Trie t)) \<and>
     (\<forall>a d c cs. fmlookup (hnodes T') a = Some (Bucket d) \<longrightarrow> key = pth' a @ c # cs \<longrightarrow> in_range d c \<longrightarrow>
        weight key pth' a d < weight key pth node b))"

lemma in_range_pure: "tc1 b = tc0 b \<Longrightarrow> in_range b c \<longleftrightarrow> c = tc0 b"
  by (auto simp: in_range_def)

lemma in_range_all: "tc0 b = 0 \<Longrightarrow> tc1 b = NODE_MAXCHAR \<Longrightarrow> in_range b c"
  by (simp add: in_range_def)

text \<open>Only the parent points to a bucket.\<close>

lemma bucket_child_of:
  assumes inv: "hat_inv T pth M" and p: "fmlookup (hnodes T) p = Some (Trie pt)" "pth p = pth node"
    and n: "fmlookup (hnodes T) node = Some (Bucket b)"
    and x: "fmlookup (hnodes T) x = Some (Trie t)" "nxs t ! unat c = node"
  shows "x = p \<and> in_range b c"
proof -
  have ok: "child_ok (hnodes T) pth (pth x) (nxs t) c" using hat_invD(3) [OF inv x(1)] by (simp add: trie_ok_def)
  have "fmlookup (hnodes T) (nxs t ! unat c) = Some (Bucket b)" using n x(2) by simp
  from child_ok_Bucket(1,2) [OF ok this] x(2) p(2) have "pth x = pth p" "in_range b c" by simp_all
  with path_inj [OF inv x(1) p(1)] show ?thesis by simp
qed

lemma child_alloc:
  assumes inv: "hat_inv T pth M" and x: "fmlookup (hnodes T) x = Some (Trie t)"
  shows "nxs t ! unat (c :: byte) |\<in>| fmdom (hnodes T)"
proof -
  have "child_ok (hnodes T) pth (pth x) (nxs t) c" using hat_invD(3) [OF inv x] by (simp add: trie_ok_def)
  then show ?thesis by (auto simp: child_ok_def fmlookup_dom_iff split: option.splits)
qed

lemma split_pure_run:
  assumes "fmlookup (hnodes T) p = Some (Trie pt)" and "fmlookup (hnodes T) node = Some (Bucket b)"
    and "ahtable_rep b N" and "fmlookup N [] = None"
  shows "split_pure T p node = Ok (T\<lparr>hnodes := fmupd p (Trie (pt\<lparr>nxs := (nxs pt)[unat (tc0 b) := fresh_addr (hnodes T)]\<rparr>))
     (fmupd (fresh_addr (hnodes T)) (Trie (alloc_trie_node node))
       (fmupd node (Bucket (b\<lparr>tc0 := 0, tc1 := NODE_MAXCHAR, tflag := NODE_TYPE_HYBRID_BUCKET\<rparr>)) (hnodes T)))\<rparr>)"
proof -
  from ahtable_tryget_rep [OF assms(3), of "[]"] assms(4) have "ahtable_tryget b [] = Ok None"
    by (auto simp: good_pointer_def)
  with assms(1,2) show ?thesis by (simp add: split_pure_def as_trie_def as_bucket_def Let_def)
qed

text \<open>
  What both kinds of split have in common: the bucket \<open>node\<close> below \<open>p\<close> is replaced by the nodes of \<open>R\<close>,
  and of the old nodes only the parent changes, at the bytes of the bucket's range.
\<close>

definition replaced :: "hattrie \<Rightarrow> (addr \<Rightarrow> byte list) \<Rightarrow> addr \<Rightarrow> addr \<Rightarrow> ahtable \<Rightarrow> addr set \<Rightarrow> trie_node \<Rightarrow>
    hnode heap \<Rightarrow> (addr \<Rightarrow> byte list) \<Rightarrow> bool" where
  "replaced T pth p node b R pt1 H' pth' \<longleftrightarrow>
     (\<exists>pt. fmlookup (hnodes T) p = Some (Trie pt) \<and> nflag pt1 = nflag pt \<and> length (nxs pt1) = length (nxs pt) \<and>
        (\<forall>e. \<not> in_range b e \<longrightarrow> nxs pt1 ! unat e = nxs pt ! unat e)) \<and> pth p = pth node \<and>
     fmlookup (hnodes T) node = Some (Bucket b) \<and> node \<in> R \<and> (\<forall>x\<in>R. x \<noteq> node \<longrightarrow> fmlookup (hnodes T) x = None) \<and>
     (\<forall>x. x \<notin> R \<longrightarrow> fmlookup H' x = (if x = p then Some (Trie pt1) else fmlookup (hnodes T) x)) \<and>
     (\<forall>x. x \<notin> R \<longrightarrow> pth' x = pth x)"

lemma replacedD:
  assumes inv: "hat_inv T pth M" and r: "replaced T pth p node b R pt1 H' pth'"
  shows "fmlookup (hnodes T) x = Some (Trie t) \<Longrightarrow> x \<notin> R"
    and "x \<notin> R \<Longrightarrow> fmlookup H' x = (if x = p then Some (Trie pt1) else fmlookup (hnodes T) x)"
    and "x \<notin> R \<Longrightarrow> pth' x = pth x" and "x \<in> R \<Longrightarrow> x \<noteq> node \<Longrightarrow> fmlookup (hnodes T) x = None"
    and "fmlookup (hnodes T) node = Some (Bucket b)" and "pth p = pth node"
    and "\<exists>pt. fmlookup (hnodes T) p = Some (Trie pt) \<and> nflag pt1 = nflag pt \<and> length (nxs pt1) = length (nxs pt) \<and>
        (\<forall>e. \<not> in_range b e \<longrightarrow> nxs pt1 ! unat e = nxs pt ! unat e)"
proof -
  from r have new: "\<forall>x\<in>R. x \<noteq> node \<longrightarrow> fmlookup (hnodes T) x = None" and n: "fmlookup (hnodes T) node = Some (Bucket b)"
    and h: "\<forall>x. x \<notin> R \<longrightarrow> fmlookup H' x = (if x = p then Some (Trie pt1) else fmlookup (hnodes T) x)"
    and pt: "\<forall>x. x \<notin> R \<longrightarrow> pth' x = pth x" and rest: "pth p = pth node"
      "\<exists>pt. fmlookup (hnodes T) p = Some (Trie pt) \<and> nflag pt1 = nflag pt \<and> length (nxs pt1) = length (nxs pt) \<and>
        (\<forall>e. \<not> in_range b e \<longrightarrow> nxs pt1 ! unat e = nxs pt ! unat e)"
    unfolding replaced_def by blast+
  show "x \<notin> R" if "fmlookup (hnodes T) x = Some (Trie t)"
  proof
    assume "x \<in> R"
    with new n that show False by (cases "x = node") auto
  qed
  show "x \<notin> R \<Longrightarrow> fmlookup H' x = (if x = p then Some (Trie pt1) else fmlookup (hnodes T) x)" using h by blast
  show "x \<notin> R \<Longrightarrow> pth' x = pth x" using pt by blast
  show "x \<in> R \<Longrightarrow> x \<noteq> node \<Longrightarrow> fmlookup (hnodes T) x = None" using new by blast
  show "fmlookup (hnodes T) node = Some (Bucket b)" by (rule n)
  show "pth p = pth node" by (rule rest)
  show "\<exists>pt. fmlookup (hnodes T) p = Some (Trie pt) \<and> nflag pt1 = nflag pt \<and> length (nxs pt1) = length (nxs pt) \<and>
        (\<forall>e. \<not> in_range b e \<longrightarrow> nxs pt1 ! unat e = nxs pt ! unat e)" by (rule rest(2))
qed

text \<open>The old trie nodes, with the parent changed.\<close>

lemma replaced_trie:
  assumes inv: "hat_inv T pth M" and r: "replaced T pth p node b R pt1 H' pth'"
    and x: "fmlookup (hnodes T) x = Some (Trie t)"
  obtains t' where "fmlookup H' x = Some (Trie t')" "nflag t' = nflag t" "length (nxs t') = length (nxs t)"
    "\<And>e. \<not> (x = p \<and> in_range b e) \<Longrightarrow> nxs t' ! unat e = nxs t ! unat e"
    "\<And>e. \<not> (x = p \<and> in_range b e) \<Longrightarrow> nxs t ! unat e \<notin> R"
proof -
  note D = replacedD [OF inv r]
  obtain pt where pt: "fmlookup (hnodes T) p = Some (Trie pt)" "nflag pt1 = nflag pt" "length (nxs pt1) = length (nxs pt)"
    "\<And>e. \<not> in_range b e \<Longrightarrow> nxs pt1 ! unat e = nxs pt ! unat e" using D(7) by blast
  have xR: "x \<notin> R" by (rule D(1) [OF x])
  have R: "nxs t ! unat e \<notin> R" if "\<not> (x = p \<and> in_range b e)" for e
  proof
    assume "nxs t ! unat e \<in> R"
    with D(4) child_alloc [OF inv x, of e] have "nxs t ! unat e = node" by (metis fmlookup_dom_iff option.distinct(1))
    from bucket_child_of [OF inv pt(1) D(6,5) x this] that show False by simp
  qed
  show ?thesis
  proof (cases "x = p")
    case True
    with x pt have "t = pt" by simp
    with True pt D(2) [OF xR] R show ?thesis by (intro that [of pt1]) auto
  next
    case False
    with D(2) [OF xR] x R show ?thesis by (intro that [of t]) auto
  qed
qed

lemma replaced_node:
  assumes inv: "hat_inv T pth M" and r: "replaced T pth p node b R pt1 H' pth'"
    and p: "fmlookup (hnodes T) p = Some (Trie t)" and e: "in_range b e"
  shows "nxs t ! unat e = node"
proof -
  from parent_child [OF inv replacedD(5) [OF inv r] e] obtain q tq where
    q: "fmlookup (hnodes T) q = Some (Trie tq)" "pth q = pth node" "nxs tq ! unat e = node" by blast
  have "q = p" using path_inj [OF inv q(1) p] q(2) replacedD(6) [OF inv r] by simp
  with q p show ?thesis by simp
qed

lemma replaced_walk:
  assumes inv: "hat_inv T pth M" and r: "replaced T pth p node b R pt1 H' pth'"
  shows "walk (hnodes T) x u = Some y \<Longrightarrow> walk H' x u = Some y"
proof (rule walk_mono)
  fix x t assume x: "fmlookup (hnodes T) x = Some (Trie t)"
  from replaced_trie [OF inv r x] obtain t' where t': "fmlookup H' x = Some (Trie t')"
    "\<forall>e. \<not> (x = p \<and> in_range b e) \<longrightarrow> nxs t' ! unat e = nxs t ! unat e" by metis
  have "nxs t' ! unat e = nxs t ! unat e" if e: "fmlookup (hnodes T) (nxs t ! unat e) = Some (Trie t2)" for e :: byte and t2
  proof (cases "x = p \<and> in_range b e")
    case True
    with replaced_node [OF inv r] x have "nxs t ! unat e = node" by blast
    with e replacedD(5) [OF inv r] show ?thesis by simp
  qed (use t'(2) in blast)
  with t'(1) show "\<exists>t'. fmlookup H' x = Some (Trie t') \<and>
      (\<forall>(c :: byte) t2. fmlookup (hnodes T) (nxs t ! unat c) = Some (Trie t2) \<longrightarrow> nxs t' ! unat c = nxs t ! unat c)" by blast
qed

lemma replaced_old_trie:
  assumes inv: "hat_inv T pth M" and r: "replaced T pth p node b R pt1 H' pth'"
    and child: "\<And>e. in_range b e \<Longrightarrow> child_ok H' pth' (pth p) (nxs pt1) e"
    and x: "fmlookup (hnodes T) x = Some (Trie t0)" and x': "fmlookup H' x = Some (Trie t)"
  shows "trie_ok H' pth' x t"
proof -
  note D = replacedD [OF inv r]
  from replaced_trie [OF inv r x] x' have t: "nflag t = nflag t0" "length (nxs t) = length (nxs t0)"
    "\<forall>e. \<not> (x = p \<and> in_range b e) \<longrightarrow> nxs t ! unat e = nxs t0 ! unat e"
    "\<forall>e. \<not> (x = p \<and> in_range b e) \<longrightarrow> nxs t0 ! unat e \<notin> R" by (metis hnode.inject(1) option.inject)+
  have pth: "pth' x = pth x" by (rule D(3) [OF D(1) [OF x]])
  have t0: "trie_ok (hnodes T) pth x t0" by (rule hat_invD(3) [OF inv x])
  have "child_ok H' pth' (pth x) (nxs t) c" for c
  proof (cases "x = p \<and> in_range b c")
    case True
    with x' D(2) [OF D(1) [OF x]] have "t = pt1" by simp
    with True child show ?thesis by simp
  next
    case False
    let ?y = "nxs t0 ! unat c"
    have yR: "?y \<notin> R" using t(4) False by blast
    have ok: "child_ok (hnodes T) pth (pth x) (nxs t0) c" using t0 by (simp add: trie_ok_def)
    show ?thesis
    proof (rule child_ok_mono [OF ok])
      show "nxs t ! unat c = ?y" using t(3) False by blast
      show "pth' ?y = pth ?y" by (rule D(3) [OF yR])
      show "\<exists>t'. fmlookup H' ?y = Some (Trie t')" if "fmlookup (hnodes T) ?y = Some (Trie t2)" for t2
        using D(2) [OF yR] that by simp
      show "fmlookup H' ?y = Some (Bucket d) \<and> (\<forall>c'. in_range d c' \<longrightarrow> nxs t ! unat c' = nxs t0 ! unat c')"
        if d: "fmlookup (hnodes T) ?y = Some (Bucket d)" for d
      proof
        show "fmlookup H' ?y = Some (Bucket d)" using D(2) [OF yR] D(7) d by auto
        have "nxs t ! unat c' = nxs t0 ! unat c'" if "in_range d c'" for c'
        proof (cases "x = p \<and> in_range b c'")
          case True
          then have "nxs t0 ! unat c' = node" using replaced_node [OF inv r, of t0 c'] x by blast
          with child_ok_Bucket(3) [OF ok d that] yR r show ?thesis by (simp add: replaced_def)
        qed (use t(3) in blast)
        then show "\<forall>c'. in_range d c' \<longrightarrow> nxs t ! unat c' = nxs t0 ! unat c'" by blast
      qed
    qed
  qed
  with t0 t(1,2) pth show ?thesis by (simp add: trie_ok_def)
qed

lemma replaced_old_bucket:
  assumes inv: "hat_inv T pth M" and r: "replaced T pth p node b R pt1 H' pth'"
    and x: "fmlookup (hnodes T) x = Some (Bucket d)" "x \<notin> R"
  shows "parent_ok H' (hroot T) (pth x) x d"
proof -
  from hat_invD(6) [OF inv x(1)] obtain q t where q: "walk (hnodes T) (hroot T) (pth x) = Some q"
    "fmlookup (hnodes T) q = Some (Trie t)" "nxs t ! unat (tc0 d) = x" by (auto simp: parent_ok_def)
  from replaced_trie [OF inv r q(2)] obtain t' where t': "fmlookup H' q = Some (Trie t')"
    "\<forall>e. \<not> (q = p \<and> in_range b e) \<longrightarrow> nxs t' ! unat e = nxs t ! unat e" by metis
  have "\<not> (q = p \<and> in_range b (tc0 d))"
    using replaced_node [OF inv r, of t "tc0 d"] q(2,3) x(2) r by (auto simp: replaced_def)
  with t' q(3) replaced_walk [OF inv r q(1)] show ?thesis unfolding parent_ok_def by metis
qed

lemma replaced_inv:
  assumes inv: "hat_inv T pth M" and r: "replaced T pth p node b R pt1 H' pth'"
    and child: "\<And>e. in_range b e \<Longrightarrow> child_ok H' pth' (pth p) (nxs pt1) e"
    and trie: "\<And>x t. x \<in> R \<Longrightarrow> fmlookup H' x = Some (Trie t) \<Longrightarrow>
      trie_ok H' pth' x t \<and> walk H' (hroot T) (pth' x) = Some x"
    and bucket: "\<And>x d. x \<in> R \<Longrightarrow> fmlookup H' x = Some (Bucket d) \<Longrightarrow>
      bucket_ok M (pth' x) d \<and> parent_ok H' (hroot T) (pth' x) x d"
  shows "hat_inv (T\<lparr>hnodes := H'\<rparr>) pth' M"
proof -
  note D = replacedD [OF inv r]
  obtain rt where rt: "fmlookup (hnodes T) (hroot T) = Some (Trie rt)" using hat_invD(2) [OF inv] by blast
  have root: "pth' (hroot T) = []" using D(3) [OF D(1) [OF rt]] hat_invD(1) [OF inv] by simp
  have root': "\<exists>t. fmlookup H' (hroot T) = Some (Trie t)"
    using D(2) [OF D(1) [OF rt]] rt by simp
  have tries: "trie_ok H' pth' x t \<and> walk H' (hroot T) (pth' x) = Some x"
    if x': "fmlookup H' x = Some (Trie t)" for x t
  proof (cases "x \<in> R")
    case False
    have "\<exists>t0. fmlookup (hnodes T) x = Some (Trie t0)" using D(2) [OF False] D(7) x' by (cases "x = p") (blast, metis)
    then obtain t0 where t0: "fmlookup (hnodes T) x = Some (Trie t0)" by blast
    then show ?thesis
      using replaced_old_trie [OF inv r child t0 x'] replaced_walk [OF inv r hat_invD(4) [OF inv t0]] D(3) [OF False] by simp
  qed (rule trie [OF _ x'])
  have buckets: "bucket_ok M (pth' x) d \<and> parent_ok H' (hroot T) (pth' x) x d"
    if "fmlookup H' x = Some (Bucket d)" for x d
  proof (cases "x \<in> R")
    case False
    then have x: "fmlookup (hnodes T) x = Some (Bucket d)" using D(2) [OF False] that by (cases "x = p") auto
    then show ?thesis
      using hat_invD(5) [OF inv x] replaced_old_bucket [OF inv r x False] D(3) [OF False] by simp
  qed (rule bucket [OF _ that])
  show ?thesis
    unfolding hat_inv_def using root root' tries buckets hat_invD(7,8) [OF inv] by simp
qed

lemma replaced_done:
  assumes inv: "hat_inv T pth M" and r: "replaced T pth p node b R pt1 H' pth'"
    and key: "key = pth node @ c # cs" "in_range b c" and inv': "hat_inv (T\<lparr>hnodes := H'\<rparr>) pth' M"
    and less: "\<And>x d. x \<in> R \<Longrightarrow> fmlookup H' x = Some (Bucket d) \<Longrightarrow> length (pth' x) < length key \<Longrightarrow>
      weight key pth' x d < weight key pth node b"
  shows "split_done T pth M p key node b (T\<lparr>hnodes := H'\<rparr>)"
proof -
  note D = replacedD [OF inv r]
  obtain pt where pt: "fmlookup (hnodes T) p = Some (Trie pt)" using D(7) by blast
  have "weight key pth' x d < weight key pth node b"
    if x: "fmlookup H' x = Some (Bucket d)" "key = pth' x @ e # es" "in_range d e" for x d e es
  proof (cases "x \<in> R")
    case True
    with less x show ?thesis by simp
  next
    case False
    then have x0: "fmlookup (hnodes T) x = Some (Bucket d)" using D(2) [OF False] x(1) by (cases "x = p") auto
    have "x = node" using unique_cover [OF inv x0 x(3) D(5) key(2), of es cs] x(2) key(1) D(3) [OF False] by simp
    with False r show ?thesis by (simp add: replaced_def)
  qed
  with inv' D(2,3) [OF D(1) [OF pt]] show ?thesis by (auto simp: split_done_def)
qed

lemma split_pure_replaced:
  assumes inv: "hat_inv T pth M" and p: "fmlookup (hnodes T) p = Some (Trie pt)" "pth p = pth node"
    and n: "fmlookup (hnodes T) node = Some (Bucket b)" and pure: "tc1 b = tc0 b"
  defines "new \<equiv> fresh_addr (hnodes T)"
  shows "replaced T pth p node b {new, node} (pt\<lparr>nxs := (nxs pt)[unat (tc0 b) := new]\<rparr>)
     (fmupd p (Trie (pt\<lparr>nxs := (nxs pt)[unat (tc0 b) := new]\<rparr>)) (fmupd new t (fmupd node b' (hnodes T))))
     (pth(new := w, node := w))"
proof -
  have "fmlookup (hnodes T) new = None" unfolding new_def by (rule fresh_addr_lookup)
  then show ?thesis using p n by (auto simp: replaced_def in_range_pure [OF pure] nth_list_update_neq word_unat_eq_iff)
qed

text \<open>A pure bucket below its byte is a hybrid bucket one level further down.\<close>

lemma pure_as_hybrid:
  assumes "ahtable_rep b N" and "fmlookup N [] = None" and "\<And>cs. fmlookup N cs = fmlookup M (w @ cs)"
  shows "bucket_ok M w (b\<lparr>tc0 := 0, tc1 := NODE_MAXCHAR, tflag := NODE_TYPE_HYBRID_BUCKET\<rparr>)" (is "bucket_ok M w ?b")
  unfolding bucket_ok_def
proof (intro exI [of _ N] conjI)
  have "k \<noteq> []" if "k |\<in>| fmdom N" for k using that assms(2) by (auto simp: fmlookup_dom_iff)
  then show "tflag ?b = NODE_TYPE_PURE_BUCKET \<and> tc0 ?b = tc1 ?b \<or> tflag ?b = NODE_TYPE_HYBRID_BUCKET \<and> tc0 ?b < tc1 ?b \<and>
    (\<forall>k. k |\<in>| fmdom N \<longrightarrow> k \<noteq> [] \<and> in_range ?b (hd k))" by (simp add: in_range_all NODE_MAXCHAR_def)
  show "ahtable_rep ?b N" using assms(1) by simp
  show "\<forall>c cs. in_range ?b c \<longrightarrow> fmlookup N (sub_key ?b (c # cs)) = fmlookup M (w @ c # cs)"
    using assms(3) by (simp add: sub_key_def node_types)
qed

lemma split_pure_done:
  assumes inv: "hat_inv T pth M" and p: "fmlookup (hnodes T) p = Some (Trie pt)" "pth p = pth node"
    and n: "fmlookup (hnodes T) node = Some (Bucket b)"
    and pure: "tflag b = NODE_TYPE_PURE_BUCKET" and full: "ahtable_size b \<ge> MAX_BUCKET_SIZE"
    and key: "key = pth node @ c # cs" "in_range b c"
  shows "\<exists>T'. split_pure T p node = Ok T' \<and> split_done T pth M p key node b T'"
proof -
  obtain N where N: "ahtable_rep b N" "tc0 b \<noteq> 0" "tc1 b = tc0 b" "fmlookup N [] = None"
    "\<And>cs. fmlookup N cs = fmlookup M (pth node @ tc0 b # cs)" and short: "length (pth node @ [tc0 b]) < 32767" by (rule pure_full [OF inv n pure full]) blast
  define new w where "new = fresh_addr (hnodes T)" and "w = pth node @ [tc0 b]"
  define b' where "b' = b\<lparr>tc0 := 0, tc1 := NODE_MAXCHAR, tflag := NODE_TYPE_HYBRID_BUCKET\<rparr>"
  define pt1 where "pt1 = pt\<lparr>nxs := (nxs pt)[unat (tc0 b) := new]\<rparr>"
  define H' where "H' = fmupd p (Trie pt1) (fmupd new (Trie (alloc_trie_node node)) (fmupd node (Bucket b') (hnodes T)))"
  let ?pth = "pth(new := w, node := w)"
  have fresh: "fmlookup (hnodes T) new = None" unfolding new_def by (rule fresh_addr_lookup)
  have ne: "p \<noteq> node" "p \<noteq> new" "node \<noteq> new" using p n fresh by auto
  have H: "fmlookup H' p = Some (Trie pt1)" "fmlookup H' new = Some (Trie (alloc_trie_node node))"
    "fmlookup H' node = Some (Bucket b')" using ne by (simp_all add: H'_def)
  have tr: "trie_ok (hnodes T) pth p pt" by (rule hat_invD(3) [OF inv p(1)])
  have r: "replaced T pth p node b {new, node} pt1 H' ?pth"
    unfolding H'_def pt1_def new_def by (rule split_pure_replaced [OF inv p n N(3)])
  have at: "nxs pt1 ! unat (tc0 b) = new" using tr by (simp add: pt1_def trie_ok_def)
  have "walk H' (hroot T) (pth node) = Some p" using replaced_walk [OF inv r hat_invD(4) [OF inv p(1)]] p(2) by simp
  then have wk: "walk H' (hroot T) w = Some new" using H(1,2) at by (simp add: w_def walk_append)
  have kids: "nxs (alloc_trie_node node) ! unat e = node" for e :: byte by (simp add: alloc_trie_node_def)
  have all: "in_range b' e" for e by (simp add: b'_def in_range_all)
  have bk: "bucket_ok M w b'" unfolding b'_def by (rule pure_as_hybrid [OF N(1,4)]) (simp add: N(5) w_def)
  have inv': "hat_inv (T\<lparr>hnodes := H'\<rparr>) ?pth M"
  proof (rule replaced_inv [OF inv r])
    show "child_ok H' ?pth (pth p) (nxs pt1) e" if "in_range b e" for e
      using that at H(2) ne p(2) by (intro child_okI_Trie) (simp_all add: in_range_pure [OF N(3)] w_def)
    fix x t assume x: "x \<in> {new, node}" "fmlookup H' x = Some (Trie t)"
    then have xt: "x = new" "t = alloc_trie_node node" using H by auto
    have "child_ok H' ?pth w (nxs t) e" for e
      unfolding xt using H(3) kids all by (intro child_okI_Bucket) simp_all
    moreover have "0 \<notin> set w" using tr N(2) p(2) by (simp add: trie_ok_def w_def)
    ultimately show "trie_ok H' ?pth x t \<and> walk H' (hroot T) (?pth x) = Some x"
      unfolding trie_ok_def using xt wk ne short by (auto simp: alloc_trie_node_def w_def)
  next
    fix x d assume "x \<in> {new, node}" "fmlookup H' x = Some (Bucket d)"
    then have "x = node" "d = b'" using H by auto
    with bk wk H(2) kids show "bucket_ok M (?pth x) d \<and> parent_ok H' (hroot T) (?pth x) x d" by (simp add: parent_ok_def)
  qed
  have "split_done T pth M p key node b (T\<lparr>hnodes := H'\<rparr>)"
  proof (rule replaced_done [OF inv r key inv'])
    fix x d assume "x \<in> {new, node}" "fmlookup H' x = Some (Bucket d)" "length (?pth x) < length key"
    then have "x = node" "d = b'" "length (pth node) + 1 < length key" using H by (auto simp: w_def)
    then show "weight key ?pth x d < weight key pth node b"
      by (simp add: weight_def w_def b'_def N(3) NODE_MAXCHAR_def NODE_CHILDS_def)
  qed
  then show ?thesis
    using split_pure_run [OF p(1) n N(1,4)] unfolding H'_def pt1_def b'_def new_def by blast
qed

section \<open>Splitting a hybrid bucket\<close>

lemma split_point_range:
  "j < unat c1 \<Longrightarrow> split_point cs all_m c1 j l r = (j', l', r') \<Longrightarrow> j \<le> j' \<and> j' < unat c1"
proof (induction cs all_m c1 j l r rule: split_point.induct)
  case (1 cs all_m c1 j l r)
  then show ?case by (subst (asm) (2) split_point.simps) (fastforce split: if_splits)
qed

lemma num_slots_pos: "0 < n \<Longrightarrow> 0 < num_slots m n"
proof (induction m n rule: num_slots.induct)
  case (1 m n)
  then show ?case by (subst num_slots.simps) auto
qed

lemma table_rep_short: "table_rep T ess \<Longrightarrow> e \<in> set (concat ess) \<Longrightarrow> length (fst e) \<le> 32767"
proof -
  assume rep: "table_rep T ess" and "e \<in> set (concat ess)"
  then obtain es where "es \<in> set ess" "e \<in> set es" by auto
  then obtain i where "i < tn T" "e \<in> set (ess ! i)" using table_repD(2) [OF rep] by (metis in_set_conv_nth)
  with table_repD(5) [OF rep] show ?thesis by (auto simp: slot_rep_def short_def)
qed

text \<open>The table \<open>t\<close> holds what \<open>f\<close> says for the keys whose first byte is in its range.\<close>

definition holds :: "(byte list \<Rightarrow> value_t option) \<Rightarrow> ahtable \<Rightarrow> array_t \<Rightarrow> bool" where
  "holds f t N \<longleftrightarrow> ahtable_rep t N \<and>
     (tflag t = NODE_TYPE_PURE_BUCKET \<and> tc0 t = tc1 t \<or>
      tflag t = NODE_TYPE_HYBRID_BUCKET \<and> tc0 t < tc1 t \<and> (\<forall>k. k |\<in>| fmdom N \<longrightarrow> k \<noteq> [] \<and> in_range t (hd k))) \<and>
     (\<forall>c cs. in_range t c \<longrightarrow> fmlookup N (sub_key t (c # cs)) = f (c # cs))"

definition filled :: "(byte list \<Rightarrow> value_t option) \<Rightarrow> ahtable \<Rightarrow> bool" where
  "filled f t \<longleftrightarrow> (\<exists>N. holds f t N)"

lemma bucket_ok_filled: "bucket_ok M w t \<longleftrightarrow> filled (\<lambda>k. fmlookup M (w @ k)) t"
  by (simp add: bucket_ok_def filled_def holds_def)

lemma filled_cong:
  assumes "filled f t" and "\<And>c cs. in_range t c \<Longrightarrow> g (c # cs) = f (c # cs)"
  shows "filled g t"
  using assms unfolding filled_def holds_def by metis

lemma filled_bucket_ok:
  assumes "filled f t" and "\<And>c cs. in_range t c \<Longrightarrow> f (c # cs) = fmlookup M (w @ c # cs)"
  shows "bucket_ok M w t"
  unfolding bucket_ok_filled using assms by (auto intro: filled_cong)

lemma sub_key_inject:
  assumes "tflag t = NODE_TYPE_PURE_BUCKET \<Longrightarrow> tc0 t = tc1 t" and "in_range t c" "in_range t d"
  shows "sub_key t (c # cs) = sub_key t (d # ds) \<longleftrightarrow> c # cs = d # ds"
  using assms in_range_pure [of t c] in_range_pure [of t d] by (auto simp: sub_key_def)

lemma holds_update:
  assumes t: "holds f t N" and c: "in_range t c" and same: "same_node t t'" and rep: "ahtable_rep t' N'"
    and N': "\<And>k. fmlookup N' k = (if k = sub_key t (c # cs) then v else fmlookup N k)"
  shows "holds (f(c # cs := v)) t' N'"
proof -
  note N = t [unfolded holds_def, THEN conjunct2, THEN conjunct1]
  have r': "in_range t' = in_range t" "sub_key t' = sub_key t"
    using same by (auto simp: fun_eq_iff in_range_def sub_key_def same_node_def)
  have "k \<noteq> [] \<and> in_range t (hd k)" if "k |\<in>| fmdom N'" "tflag t = NODE_TYPE_HYBRID_BUCKET" for k
  proof (cases "k = sub_key t (c # cs)")
    case True
    with that(2) c show ?thesis by (simp add: sub_key_def node_types)
  next
    case False
    with that(1) N' have "k |\<in>| fmdom N" by (simp add: fmlookup_dom_iff)
    with N that(2) show ?thesis by (auto simp: node_types)
  qed
  moreover have "fmlookup N' (sub_key t (d # ds)) = (f(c # cs := v)) (d # ds)" if "in_range t d" for d ds
    using t that sub_key_inject [of t d c ds cs] N c unfolding N' holds_def by (auto simp: node_types)
  ultimately show ?thesis using N same rep unfolding holds_def r' by (auto simp: same_node_def)
qed

lemma put_suffix_filled:
  assumes t: "filled f t" and c: "in_range t c" and len: "length (c # cs) \<le> 32767"
  shows "\<exists>t'. put_suffix t (c # cs) x = Ok t' \<and> filled (f(c # cs \<mapsto> x)) t' \<and> same_node t t'"
proof -
  from t obtain N where N: "holds f t N" unfolding filled_def by blast
  then have rep: "ahtable_rep t N" and fl: "tflag t = NODE_TYPE_PURE_BUCKET \<or> tflag t = NODE_TYPE_HYBRID_BUCKET"
    by (auto simp: holds_def)
  let ?k = "sub_key t (c # cs)"
  have "length ?k \<le> 32767" using len by (simp add: sub_key_def)
  from ahtable_get_rep [OF rep this] obtain r t1 where t1: "ahtable_get t ?k = Ok (r, t1)"
    "good_pointer t1 (snd (array_get N ?k)) ?k r" "same_node t t1" by blast
  then obtain t' where t': "val_write t1 r x = Ok t'" "ahtable_rep t' (array_set (snd (array_get N ?k)) ?k x)" "same_node t1 t'"
    by (auto simp: good_pointer_def)
  have same: "same_node t t'" using t1(3) t'(3) by (simp add: same_node_def)
  have "put_suffix t (c # cs) x = Ok t'" using t1(1) t'(1) fl by (auto simp: put_suffix_def sub_key_def)
  moreover have "holds (f(c # cs \<mapsto> x)) t' (array_set (snd (array_get N ?k)) ?k x)"
    by (rule holds_update [OF N c same t'(2)]) (simp add: array_set_def array_get_def split: option.split)
  ultimately show ?thesis using same unfolding filled_def by blast
qed

lemma split_table_filled:
  assumes "c0 \<le> c1"
  shows "filled (\<lambda>_. None) (split_table m c0 c1)"
proof -
  have "ahtable_rep (split_table m c0 c1) array_new"
    unfolding split_table_def by (simp add: ahtable_create_rep num_slots_pos ahtable_initial_size_def)
  then show ?thesis
    unfolding filled_def holds_def using assms by (intro exI [of _ array_new]) (auto simp: split_table_def array_new_def)
qed

lemma filled_other: "filled f t \<Longrightarrow> \<not> in_range t c \<Longrightarrow> filled (f(c # cs \<mapsto> x)) t"
  by (erule filled_cong) auto

definition range_of :: "ahtable \<Rightarrow> byte \<times> byte" where
  "range_of t = (tc0 t, tc1 t)"

lemma same_node_range: "same_node t t' \<Longrightarrow> range_of t' = range_of t"
  by (simp add: same_node_def range_of_def)

text \<open>What the two new buckets hold when the entries \<open>ys\<close> have been moved.\<close>

definition dealt :: "ahtable \<Rightarrow> nat \<Rightarrow> (byte list \<times> value_t) list \<Rightarrow> ahtable \<times> ahtable \<Rightarrow> bool" where
  "dealt b j ys lr \<longleftrightarrow> filled (map_of ys) (fst lr) \<and> filled (map_of ys) (snd lr) \<and>
     range_of (fst lr) = (tc0 b, word_of_nat j) \<and> range_of (snd lr) = (word_of_nat (j + 1), tc1 b)"

lemma unat_of_nat_byte [simp]: "n < unat (c :: byte) \<Longrightarrow> unat (word_of_nat n :: byte) = n"
  using unat_byte_less [of c] by (simp add: unat_of_nat NODE_CHILDS_def)

lemma unat_of_nat_byte_Suc [simp]: "n < unat (c :: byte) \<Longrightarrow> unat (1 + word_of_nat n :: byte) = Suc n"
  using unat_byte_less [of c] unat_of_nat [of "Suc n", where 'a = 8] by (simp add: NODE_CHILDS_def)

definition move_to :: "nat \<Rightarrow> byte list \<times> value_t \<Rightarrow> ahtable \<times> ahtable \<Rightarrow> (ahtable \<times> ahtable) res" where
  "move_to j e lr = res_bind (c_assert (length (fst e) > 0)) (\<lambda>_.
     if unat (hd (fst e)) \<le> j then res_bind (put_suffix (fst lr) (fst e) (snd e)) (\<lambda>l. Ok (l, snd lr))
     else res_bind (put_suffix (snd lr) (fst e) (snd e)) (\<lambda>r. Ok (fst lr, r)))"

lemma map_of_snoc: "k \<notin> fst ` set ys \<Longrightarrow> map_of (ys @ [(k, x)]) = (map_of ys)(k \<mapsto> x)"
proof -
  assume "k \<notin> fst ` set ys"
  then have "map_of ys k = None" by (simp only: map_of_eq_None_iff) simp
  then show ?thesis by (auto simp: fun_eq_iff map_add_def split: option.split)
qed

lemma move_to_dealt:
  assumes lr: "dealt b j ys lr" and j: "unat (tc0 b) \<le> j" "j < unat (tc1 b)"
    and key: "in_range b c" "c # cs \<notin> fst ` set ys" "length (c # cs) \<le> 32767"
  shows "\<exists>lr'. move_to j (c # cs, x) lr = Ok lr' \<and> dealt b j (ys @ [(c # cs, x)]) lr'"
proof -
  have l: "in_range (fst lr) c \<longleftrightarrow> unat c \<le> j" and r: "in_range (snd lr) c \<longleftrightarrow> \<not> unat c \<le> j"
    using lr j key(1) by (auto simp: dealt_def range_of_def in_range_def word_le_nat_alt)
  have f: "filled (map_of ys) (fst lr)" "filled (map_of ys) (snd lr)" using lr by (simp_all add: dealt_def)
  show ?thesis
  proof (cases "unat c \<le> j")
    case True
    with l obtain l' where l': "put_suffix (fst lr) (c # cs) x = Ok l'" "filled ((map_of ys)(c # cs \<mapsto> x)) l'"
      "same_node (fst lr) l'" using put_suffix_filled [OF f(1) _ key(3)] by blast
    with True lr filled_other [OF f(2), of c cs x] r same_node_range [OF l'(3)] show ?thesis
      unfolding dealt_def map_of_snoc [OF key(2)] by (simp add: move_to_def c_assert_def)
  next
    case False
    with r obtain r' where r': "put_suffix (snd lr) (c # cs) x = Ok r'" "filled ((map_of ys)(c # cs \<mapsto> x)) r'"
      "same_node (snd lr) r'" using put_suffix_filled [OF f(2) _ key(3)] by blast
    with False lr filled_other [OF f(1), of c cs x] l same_node_range [OF r'(3)] show ?thesis
      unfolding dealt_def map_of_snoc [OF key(2)] by (simp add: move_to_def c_assert_def)
  qed
qed

lemma split_move_run:
  assumes rep: "table_rep b ess" and keys: "\<And>e. e \<in> set (concat ess) \<Longrightarrow> fst e \<noteq> [] \<and> in_range b (hd (fst e))"
    and j: "unat (tc0 b) \<le> j" "j < unat (tc1 b)" and start: "dealt b j [] lr"
  shows "\<exists>lr'. iter_loop b (split_move b j) (unsorted_iter_begin b) lr = Ok lr' \<and> dealt b j (concat ess) lr'"
proof -
  have run: "iter_loop b (split_move b j) (unsorted_iter_begin b) lr = res_fold (move_to j) (concat ess) lr"
  proof (rule iter_loop_fold [OF rep _ iter_at_begin [OF rep]])
    fix it e rest a assume at: "iter_at b ess it (e # rest)"
    from iter_at_val [OF rep at] obtain r where "unsorted_iter_val b it = Ok (Some r)" "val_read b r = Ok (snd e)" by blast
    then show "split_move b j it a = move_to j e a"
      by (simp add: split_move_def move_to_def iter_at_key [OF rep at] some_key_def)
  qed
  show ?thesis
    unfolding run
  proof (rule res_fold_inv [where I = "dealt b j"])
    fix ys e zs lr assume e: "concat ess = ys @ e # zs" "dealt b j ys lr"
    then have m: "e \<in> set (concat ess)" by simp
    obtain c cs x where ex: "e = (c # cs, x)" using keys [OF m] by (cases e; cases "fst e") auto
    have "c # cs \<notin> fst ` set ys" using table_rep_distinct [OF rep] unfolding e(1) ex by auto
    with move_to_dealt [OF e(2) j, of c cs x] keys [OF m] table_rep_short [OF rep m]
    show "\<exists>lr'. move_to j e lr = Ok lr' \<and> dealt b j (ys @ [e]) lr'" by (simp add: ex)
  qed (rule start)
qed

lemma split_count_run:
  assumes rep: "table_rep b ess" and keys: "\<And>e. e \<in> set (concat ess) \<Longrightarrow> fst e \<noteq> []"
  shows "\<exists>cs'. iter_loop b (split_count b) (unsorted_iter_begin b) cs = Ok cs'"
proof -
  let ?g = "\<lambda>e cs. res_bind (c_assert (length (fst e) > 0)) (\<lambda>_. Ok (cs[unat (hd (fst e)) := cs ! unat (hd (fst e)) + 1]))"
  have "iter_loop b (split_count b) (unsorted_iter_begin b) cs = res_fold ?g (concat ess) cs"
    by (rule iter_loop_fold [OF rep _ iter_at_begin [OF rep]])
      (simp add: split_count_def iter_at_key [OF rep] some_key_def)
  moreover have "\<exists>cs'. res_fold ?g (concat ess) cs = Ok cs' \<and> True"
    by (rule res_fold_inv [where I = "\<lambda>_ _. True"]) (simp_all add: keys c_assert_def)
  ultimately show ?thesis by simp
qed

definition split_children :: "ahtable \<Rightarrow> nat \<Rightarrow> addr \<Rightarrow> addr \<Rightarrow> addr list \<Rightarrow> addr list" where
  "split_children b j left right xs = map (\<lambda>c. if unat (tc0 b) \<le> c \<and> c \<le> j then left
     else if j < c \<and> c \<le> unat (tc1 b) then right else xs ! c) [0..<NODE_CHILDS]"

lemma split_children_nth:
  fixes e :: byte
  assumes "unat (tc0 b) \<le> j" and "j < unat (tc1 b)"
  shows "split_children b j left right xs ! unat e =
     (if \<not> in_range b e then xs ! unat e else if unat e \<le> j then left else right)"
  using assms by (auto simp: split_children_def in_range_def word_le_nat_alt)

lemma hybrid_entries:
  assumes ok: "bucket_ok M w b" and hyb: "tflag b = NODE_TYPE_HYBRID_BUCKET"
  obtains ess where "table_rep b ess" "\<And>e. e \<in> set (concat ess) \<Longrightarrow> fst e \<noteq> [] \<and> in_range b (hd (fst e))"
    "\<And>c cs. in_range b c \<Longrightarrow> map_of (concat ess) (c # cs) = fmlookup M (w @ c # cs)"
proof -
  from ok hyb obtain N where N: "ahtable_rep b N" "\<And>k. k |\<in>| fmdom N \<Longrightarrow> k \<noteq> [] \<and> in_range b (hd k)"
    "\<And>c cs. in_range b c \<Longrightarrow> fmlookup N (c # cs) = fmlookup M (w @ c # cs)"
    by (auto simp: bucket_ok_def sub_key_def node_types)
  from N(1) obtain ess where ess: "table_rep b ess" "\<And>k. fmlookup N k = map_of (concat ess) k"
    unfolding ahtable_rep_def using table_rep_map_of by metis
  have "fst e |\<in>| fmdom N" if "e \<in> set (concat ess)" for e
  proof -
    have "fst e \<in> dom (map_of (concat ess))" using that by (simp only: dom_map_of_conv_image_fst) (rule imageI)
    then show ?thesis by (auto simp: fmlookup_dom_iff ess(2))
  qed
  with that [OF ess(1)] N(2,3) ess(2) show ?thesis by metis
qed

lemma split_hybrid_run:
  assumes p: "fmlookup (hnodes T) p = Some (Trie pt)" and n: "fmlookup (hnodes T) node = Some (Bucket b)"
    and ok: "bucket_ok M w b" and hyb: "tflag b = NODE_TYPE_HYBRID_BUCKET"
  defines "left \<equiv> fresh_addr (hnodes T)"
  obtains j l r right where "unat (tc0 b) \<le> j" "j < unat (tc1 b)"
    "right \<noteq> left" "fmlookup (hnodes T) right = None" "bucket_ok M w l" "bucket_ok M w r"
    "range_of l = (tc0 b, word_of_nat j)" "range_of r = (word_of_nat (j + 1), tc1 b)"
    "split_hybrid T p node = Ok (T\<lparr>hnodes := fmdrop node (fmupd p (Trie (pt\<lparr>nxs := split_children b j left right (nxs pt)\<rparr>))
       (fmupd right (Bucket r) (fmupd left (Bucket l) (hnodes T))))\<rparr>)"
proof -
  obtain ess where ess: "table_rep b ess" "\<And>e. e \<in> set (concat ess) \<Longrightarrow> fst e \<noteq> [] \<and> in_range b (hd (fst e))"
    "\<And>c cs. in_range b c \<Longrightarrow> map_of (concat ess) (c # cs) = fmlookup M (w @ c # cs)"
    by (rule hybrid_entries [OF ok hyb]) blast
  from split_count_run [OF ess(1)] ess(2) obtain cs where
    cs: "iter_loop b (split_count b) (unsorted_iter_begin b) (replicate NODE_CHILDS 0) = Ok cs" by blast
  define all_m :: u32 where "all_m = word_of_nat (ahtable_size b)"
  obtain j lm rm where sp: "split_point cs all_m (tc1 b) (unat (tc0 b)) (cs ! unat (tc0 b)) (all_m - cs ! unat (tc0 b)) = (j, lm, rm)"
    by (metis prod.exhaust)
  have "tc0 b < tc1 b" using bucket_ok_flag [OF ok] hyb by (auto simp: node_types)
  with split_point_range [OF _ sp] have j: "unat (tc0 b) \<le> j" "j < unat (tc1 b)" by (simp_all add: word_less_nat_alt)
  define l0 r0 where "l0 = split_table (unat lm) (tc0 b) (word_of_nat j)"
    and "r0 = split_table (unat rm) (word_of_nat (j + 1)) (tc1 b)"
  have "dealt b j [] (l0, r0)"
    using j split_table_filled [of "tc0 b" "word_of_nat j" "unat lm"] split_table_filled [of "word_of_nat (j + 1)" "tc1 b" "unat rm"]
    by (simp add: dealt_def l0_def r0_def word_le_nat_alt range_of_def) (simp add: split_table_def)
  from split_move_run [OF ess(1,2) j this] obtain l r where
    move: "iter_loop b (split_move b j) (unsorted_iter_begin b) (l0, r0) = Ok (l, r)" "dealt b j (concat ess) (l, r)"
    by (metis prod.exhaust)
  define right where "right = fresh_addr (fmupd left (Bucket l0) (hnodes T))"
  have "fmlookup (fmupd left (Bucket l0) (hnodes T)) right = None" unfolding right_def by (rule fresh_addr_lookup)
  then have right: "right \<noteq> left" "fmlookup (hnodes T) right = None" by (simp_all split: if_splits)
  have rng: "range_of l = (tc0 b, word_of_nat j)" "range_of r = (word_of_nat (j + 1), tc1 b)"
    using move(2) by (simp_all add: dealt_def)
  have sub: "in_range l c \<Longrightarrow> in_range b c" "in_range r c \<Longrightarrow> in_range b c" for c
    using rng j by (auto simp: range_of_def in_range_def word_le_nat_alt)
  have "filled (map_of (concat ess)) l" "filled (map_of (concat ess)) r" using move(2) by (simp_all add: dealt_def)
  then have "bucket_ok M w l" "bucket_ok M w r" using ess(3) sub by (blast intro: filled_bucket_ok)+
  moreover have "split_hybrid T p node = Ok (T\<lparr>hnodes := fmdrop node (fmupd p (Trie (pt\<lparr>nxs := split_children b j left right (nxs pt)\<rparr>))
       (fmupd right (Bucket r) (fmupd left (Bucket l) (hnodes T))))\<rparr>)"
    using p n cs sp move(1)
    by (simp add: split_hybrid_def as_trie_def as_bucket_def Let_def all_m_def [symmetric] split_children_def
        l0_def r0_def right_def left_def)
  ultimately show ?thesis using that j right rng by blast
qed

lemma split_hybrid_done:
  assumes inv: "hat_inv T pth M" and p: "fmlookup (hnodes T) p = Some (Trie pt)" "pth p = pth node"
    and n: "fmlookup (hnodes T) node = Some (Bucket b)" and hyb: "tflag b = NODE_TYPE_HYBRID_BUCKET"
    and key: "key = pth node @ c # cs" "in_range b c"
  shows "\<exists>T'. split_hybrid T p node = Ok T' \<and> split_done T pth M p key node b T'"
proof -
  define left w where "left = fresh_addr (hnodes T)" and "w = pth node"
  have ok: "bucket_ok M w b" using hat_invD(5) [OF inv n] by (simp add: w_def)
  obtain j l r right where j: "unat (tc0 b) \<le> j" "j < unat (tc1 b)"
    and right: "right \<noteq> left" "fmlookup (hnodes T) right = None" and lr: "bucket_ok M w l" "bucket_ok M w r"
    and rng: "range_of l = (tc0 b, word_of_nat j)" "range_of r = (word_of_nat (j + 1), tc1 b)"
    and run: "split_hybrid T p node = Ok (T\<lparr>hnodes := fmdrop node (fmupd p
       (Trie (pt\<lparr>nxs := split_children b j left right (nxs pt)\<rparr>)) (fmupd right (Bucket r) (fmupd left (Bucket l) (hnodes T))))\<rparr>)"
    unfolding left_def by (rule split_hybrid_run [OF p(1) n ok hyb])
  define pt1 where "pt1 = pt\<lparr>nxs := split_children b j left right (nxs pt)\<rparr>"
  define H' where "H' = fmdrop node (fmupd p (Trie pt1) (fmupd right (Bucket r) (fmupd left (Bucket l) (hnodes T))))"
  let ?pth = "pth(left := w, right := w)"
  have fresh: "fmlookup (hnodes T) left = None" unfolding left_def by (rule fresh_addr_lookup)
  have ne: "p \<noteq> node" "p \<noteq> left" "p \<noteq> right" "node \<noteq> left" "node \<noteq> right" "right \<noteq> left" using p n fresh right by auto
  have H: "fmlookup H' p = Some (Trie pt1)" "fmlookup H' left = Some (Bucket l)" "fmlookup H' right = Some (Bucket r)"
    "fmlookup H' node = None" using ne by (simp_all add: H'_def)
  have kid: "nxs pt1 ! unat e = (if \<not> in_range b e then nxs pt ! unat e else if unat e \<le> j then left else right)" for e :: byte
    by (simp add: pt1_def split_children_nth [OF j])
  have len: "length (nxs pt1) = length (nxs pt)"
    using hat_invD(3) [OF inv p(1)] by (simp add: pt1_def split_children_def trie_ok_def)
  have rep: "replaced T pth p node b {left, right, node} pt1 H' ?pth"
    using p n fresh right(2) ne len kid by (auto simp: replaced_def pt1_def H'_def)
  have rl: "in_range l e \<longleftrightarrow> in_range b e \<and> unat e \<le> j" and rr: "in_range r e \<longleftrightarrow> in_range b e \<and> \<not> unat e \<le> j" for e
    using rng j by (auto simp: range_of_def in_range_def word_le_nat_alt)
  have own: "fmlookup H' x = Some (Bucket d)" "?pth x = w" "bucket_ok M w d" "weight key ?pth x d < weight key pth node b"
    "in_range d e \<longleftrightarrow> in_range b e \<and> nxs pt1 ! unat e = x" if "(x, d) \<in> {(left, l), (right, r)}" for x d and e :: byte
    using that H ne lr rng j by (auto simp: kid rl rr range_of_def weight_def w_def)
  have wk: "walk H' (hroot T) w = Some p"
    using replaced_walk [OF inv rep hat_invD(4) [OF inv p(1)]] p(2) by (simp add: w_def)
  have two: "(x, d) \<in> {(left, l), (right, r)}" if "x \<in> {left, right, node}" "fmlookup H' x = Some (Bucket d)" for x d
    using that H by auto
  have inv': "hat_inv (T\<lparr>hnodes := H'\<rparr>) ?pth M"
  proof (rule replaced_inv [OF inv rep])
    fix e assume e: "in_range b e"
    then have "(nxs pt1 ! unat e, if unat e \<le> j then l else r) \<in> {(left, l), (right, r)}" by (simp add: kid)
    then obtain d where d: "(nxs pt1 ! unat e, d) \<in> {(left, l), (right, r)}" by blast
    show "child_ok H' ?pth (pth p) (nxs pt1) e"
      by (rule child_okI_Bucket [OF own(1) [OF d]]) (use own(2,5) [OF d] e p(2) in \<open>simp_all add: w_def\<close>)
  next
    show "trie_ok H' ?pth x t \<and> walk H' (hroot T) (?pth x) = Some x"
      if "x \<in> {left, right, node}" "fmlookup H' x = Some (Trie t)" for x t using that H by auto
    fix x d assume "x \<in> {left, right, node}" "fmlookup H' x = Some (Bucket d)"
    note o = own [OF two [OF this]]
    have "nxs pt1 ! unat (tc0 d) = x" using bucket_ok_range [OF o(3)] o(5) by blast
    with o(2,3) wk H(1) show "bucket_ok M (?pth x) d \<and> parent_ok H' (hroot T) (?pth x) x d" by (simp add: parent_ok_def)
  qed
  have "split_done T pth M p key node b (T\<lparr>hnodes := H'\<rparr>)"
    by (rule replaced_done [OF inv rep key inv']) (rule own(4) [OF two])
  with run show ?thesis unfolding H'_def pt1_def by blast
qed

lemma hattrie_split_done:
  assumes inv: "hat_inv T pth M" and p: "fmlookup (hnodes T) p = Some (Trie pt)" "pth p = pth node"
    and n: "fmlookup (hnodes T) node = Some (Bucket b)" and full: "ahtable_size b \<ge> MAX_BUCKET_SIZE"
    and key: "key = pth node @ c # cs" "in_range b c"
  shows "\<exists>T'. hattrie_split T p node = Ok T' \<and> split_done T pth M p key node b T'"
proof -
  have "has_flag (Trie pt) NODE_TYPE_TRIE" using hat_invD(3) [OF inv p(1)] by (simp add: trie_ok_def)
  moreover have b: "tflag b = NODE_TYPE_PURE_BUCKET \<or> tflag b = NODE_TYPE_HYBRID_BUCKET"
    using bucket_ok_flag [OF hat_invD(5) [OF inv n]] by auto
  ultimately have "hattrie_split T p node =
      (if tflag b = NODE_TYPE_PURE_BUCKET then split_pure T p node else split_hybrid T p node)"
    using p(1) n by (auto simp: hattrie_split_def c_assert_def)
  with b split_pure_done [OF inv p n _ full key] split_hybrid_done [OF inv p n _ key] show ?thesis by metis
qed

end
