(* ===== verification/Hattrie_Map.thy ===== *)
theory Hattrie_Map
  imports Hattrie_Split
begin

text \<open>
  The operations of \<open>src/lib/hat-trie/src/hat-trie.c\<close> on the map a HAT-trie stands for: with C strings as
  keys it behaves as the finite map of theory Arrays, so the array macros of
  \<open>src/assoc_array_impl_hattrie.h\<close> get the store they need.
\<close>

definition hat_rep :: "hattrie \<Rightarrow> array_t \<Rightarrow> bool" where
  "hat_rep T M \<longleftrightarrow> (\<exists>pth. hat_inv T pth M)"

text \<open>The pointer \<open>r\<close> is to the value of \<open>key\<close>.\<close>

definition hat_pointer :: "hattrie \<Rightarrow> array_t \<Rightarrow> byte list \<Rightarrow> href \<Rightarrow> bool" where
  "hat_pointer T M key r \<longleftrightarrow> (\<exists>v. fmlookup M key = Some v \<and> href_read T r = Ok v) \<and>
     (\<forall>u. \<exists>T'. href_write T r u = Ok T' \<and> hat_rep T' (array_set M key u))"

lemma array_size_upd: "array_size (fmupd k v M) = (if fmlookup M k = None then Suc (array_size M) else array_size M)"
proof (cases "fmlookup M k")
  case None
  then have "k |\<notin>| fmdom M" by (simp add: fmlookup_dom_iff)
  with None show ?thesis by (simp add: array_size_def fcard_finsert_disjoint)
next
  case (Some x)
  then have "k |\<in>| fmdom M" by (simp add: fmlookup_dom_iff)
  with Some show ?thesis by (simp add: array_size_def finsert_absorb)
qed

lemma array_size_drop: "array_size M = (if fmlookup M k = None then array_size (fmdrop k M) else Suc (array_size (fmdrop k M)))"
proof (cases "fmlookup M k")
  case None
  then have "fmdrop k M = M" by (intro fmap_ext) simp
  with None show ?thesis by simp
next
  case (Some x)
  then have "fmupd k x (fmdrop k M) = M" by (intro fmap_ext) auto
  with Some array_size_upd [of k x "fmdrop k M"] show ?thesis by simp
qed

text \<open>A change of one entry of a bucket changes that key of the map.\<close>

lemma hat_inv_entry:
  assumes inv: "hat_inv T pth M" and a: "fmlookup (hnodes T) a = Some (Bucket b)"
    and key: "key = pth a @ c # cs" "in_range b c" "good_key key"
    and N: "holds (\<lambda>k. fmlookup M (pth a @ k)) b N"
    and b': "same_node b b'" "ahtable_rep b' N'"
    and N': "\<And>k. fmlookup N' k = (if k = sub_key b (c # cs) then v else fmlookup N k)"
    and M': "\<And>k. fmlookup M' k = (if k = key then v else fmlookup M k)" and m: "m = word_of_nat (array_size M')"
  shows "hat_inv (T\<lparr>hnodes := fmupd a (Bucket b') (hnodes T), hm := m\<rparr>) pth M'"
proof (rule hat_inv_upd [OF inv a b'(1) _ key(1,2) _ _ m])
  have "filled ((\<lambda>k. fmlookup M (pth a @ k))(c # cs := v)) b'"
    unfolding filled_def using holds_update [OF N key(2) b' N'] by blast
  then show "bucket_ok M' (pth a) b'" by (rule filled_bucket_ok) (simp add: M' key(1))
  show "fmlookup M' k = fmlookup M k" if "k \<noteq> key" for k using that M' by simp
  show "good_key k" if "k |\<in>| fmdom M'" for k
    using that hat_invD(7) [OF inv, of k] key(3) by (cases "k = key") (simp_all add: fmlookup_dom_iff M')
qed

lemma bucket_holds:
  assumes inv: "hat_inv T pth M" and a: "fmlookup (hnodes T) a = Some (Bucket b)"
  obtains N where "holds (\<lambda>k. fmlookup M (pth a @ k)) b N" "ahtable_rep b N"
    "tflag b = NODE_TYPE_PURE_BUCKET \<or> tflag b = NODE_TYPE_HYBRID_BUCKET"
    "\<And>c cs. in_range b c \<Longrightarrow> fmlookup N (sub_key b (c # cs)) = fmlookup M (pth a @ c # cs)"
  using hat_invD(5) [OF inv a] unfolding bucket_ok_filled filled_def holds_def by auto

section \<open>\<open>hattrie_get\<close>\<close>

definition got :: "hattrie \<Rightarrow> array_t \<Rightarrow> byte list \<Rightarrow> (href \<times> hattrie) res \<Rightarrow> bool" where
  "got T M key x \<longleftrightarrow> (\<exists>r T'. x = Ok (r, T') \<and> hroot T' = hroot T \<and> hat_rep T' (snd (array_get M key)) \<and>
     hat_pointer T' (snd (array_get M key)) key r)"

lemma bucket_get:
  assumes inv: "hat_inv T pth M" and good: "good_key key" and a: "fmlookup (hnodes T) node = Some (Bucket b)"
    and key: "key = pth node @ c # cs" "in_range b c"
  shows "got T M key (res_bind (ahtable_get b (sub_key b (c # cs))) (\<lambda>(v, b1).
     Ok (BucketVal node v, T\<lparr>hnodes := fmupd node (Bucket b1) (hnodes T),
       hm := hm T + (word_of_nat (tm b1) - word_of_nat (tm b))\<rparr>)))"
proof -
  obtain N where N: "holds (\<lambda>k. fmlookup M (pth node @ k)) b N" "ahtable_rep b N"
    and eq: "\<And>c cs. in_range b c \<Longrightarrow> fmlookup N (sub_key b (c # cs)) = fmlookup M (pth node @ c # cs)"
    by (rule bucket_holds [OF inv a]) blast
  let ?k = "sub_key b (c # cs)" and ?M = "snd (array_get M key)" and ?N = "snd (array_get N (sub_key b (c # cs)))"
  have same: "fmlookup N ?k = fmlookup M key" using eq [OF key(2)] key(1) by simp
  have "length ?k \<le> 32767" using good key(1) by (simp add: sub_key_def good_key_def)
  from ahtable_get_rep [OF N(2) this] obtain v b1 where g: "ahtable_get b ?k = Ok (v, b1)" "ahtable_rep b1 ?N"
    "good_pointer b1 ?N ?k v" "same_node b b1" "tm b1 = (if fmlookup N ?k = None then Suc (tm b) else tm b)" by blast
  define T1 where "T1 = T\<lparr>hnodes := fmupd node (Bucket b1) (hnodes T), hm := hm T + (word_of_nat (tm b1) - word_of_nat (tm b))\<rparr>"
  have m: "hm T + (word_of_nat (tm b1) - word_of_nat (tm b)) = word_of_nat (array_size ?M)"
    using g(5) hat_invD(8) [OF inv] same by (auto simp: array_get_def array_size_upd split: option.split)
  have N1: "fmlookup ?N k = (if k = ?k then Some (fst (array_get M key)) else fmlookup N k)" for k
    using same by (auto simp: array_get_def split: option.split)
  have M1: "fmlookup ?M k = (if k = key then Some (fst (array_get M key)) else fmlookup M k)" for k
    by (auto simp: array_get_def split: option.split)
  have inv1: "hat_inv T1 pth ?M"
    unfolding T1_def by (rule hat_inv_entry [OF inv a key good N(1) g(4) g(2) N1 M1 m])
  have read: "href_read T1 (BucketVal node v) = Ok (fst (array_get M key))"
    using g(3) N1 by (auto simp: href_read_def T1_def as_bucket_def good_pointer_def)
  have a1: "fmlookup (hnodes T1) node = Some (Bucket b1)" by (simp add: T1_def)
  have key1: "in_range b1 c" "sub_key b1 (c # cs) = ?k" using key(2) g(4) by (simp_all add: same_node_def in_range_def sub_key_def)
  have N2: "holds (\<lambda>k. fmlookup ?M (pth node @ k)) b1 ?N"
  proof -
    have "(\<lambda>k. fmlookup ?M (pth node @ k)) = (\<lambda>k. fmlookup M (pth node @ k))(c # cs := Some (fst (array_get M key)))"
      by (rule ext, unfold M1 fun_upd_apply) (simp add: key(1))
    with holds_update [OF N(1) key(2) g(4) g(2) N1] show ?thesis by simp
  qed
  have "\<exists>T2. href_write T1 (BucketVal node v) u = Ok T2 \<and> hat_rep T2 (array_set ?M key u)" for u
  proof -
    from g(3) obtain b2 where b2: "val_write b1 v u = Ok b2" "ahtable_rep b2 (array_set ?N ?k u)" "same_node b1 b2"
      by (auto simp: good_pointer_def)
    have "hat_inv (T1\<lparr>hnodes := fmupd node (Bucket b2) (hnodes T1), hm := hm T1\<rparr>) pth (array_set ?M key u)"
    proof (rule hat_inv_entry [OF inv1 a1 key(1) key1(1) good N2 b2(3,2)])
      show "fmlookup (array_set ?N ?k u) k = (if k = sub_key b1 (c # cs) then Some u else fmlookup ?N k)" for k
        by (simp add: array_set_def key1)
      show "hm T1 = word_of_nat (array_size (array_set ?M key u))"
        using hat_invD(8) [OF inv1] by (simp add: array_set_def array_size_upd M1)
    qed (simp add: array_set_def)
    with b2(1) a1 show ?thesis by (auto simp: href_write_def as_bucket_def hat_rep_def)
  qed
  with read M1 have "hat_pointer T1 ?M key (BucketVal node v)" by (simp add: hat_pointer_def)
  with inv1 g(1) show ?thesis unfolding got_def hat_rep_def T1_def [symmetric] by (auto simp: T1_def)
qed

lemma get_loop_got:
  assumes "hat_inv T pth M" and good: "good_key key" and "leads T pth key p node k l"
    and "fmlookup (hnodes T) node = Some (Bucket b)" and "weight key pth node b < fuel"
  shows "got T M key (get_loop fuel T key p node k l)"
  using assms(1,3-)
proof (induction fuel arbitrary: T pth p node k l b)
  case 0
  then show ?case by simp
next
  case (Suc fuel)
  note inv = Suc.prems(1)
  from Suc.prems(2,3) obtain t c cs where lead: "fmlookup (hnodes T) p = Some (Trie t)" "pth p = pth node"
    "key = pth node @ c # cs" "in_range b c" "k = length (pth node)" "l = Suc (length cs)"
    by (auto elim!: leadsE)
  have fl: "tflag b = NODE_TYPE_PURE_BUCKET \<or> tflag b = NODE_TYPE_HYBRID_BUCKET"
    using bucket_ok_flag [OF hat_invD(5) [OF inv Suc.prems(3)]] by auto
  show ?case
  proof (cases "ahtable_size b \<ge> MAX_BUCKET_SIZE")
    case False
    have "(if has_flag (Bucket b) NODE_TYPE_PURE_BUCKET then blk_read key (k + 1) (l - 1) else blk_read key k l) =
        Ok (sub_key b (c # cs))"
      using leads_read [OF lead(3,5,6), of "[]"] fl by (auto simp: sub_key_def)
    with bucket_get [OF inv good Suc.prems(3) lead(3,4)] False Suc.prems(3) lead(6) fl show ?thesis
      by (auto simp: as_bucket_def c_assert_def)
  next
    case True
    from hattrie_split_done [OF inv lead(1,2) Suc.prems(3) True lead(3,4)] obtain T1 pth1 t1 where
      T1: "hattrie_split T p node = Ok T1" "hroot T1 = hroot T" "hat_inv T1 pth1 M" "pth1 p = pth p"
        "fmlookup (hnodes T1) p = Some (Trie t1)" and
      w: "\<And>a d c cs. fmlookup (hnodes T1) a = Some (Bucket d) \<Longrightarrow> key = pth1 a @ c # cs \<Longrightarrow> in_range d c \<Longrightarrow>
        weight key pth1 a d < weight key pth node b" unfolding split_done_def by blast
    have "\<exists>p' node' k' l'. hattrie_consume (hnodes T1) 0 key p k (length (c # cs)) = Ok (p', node', k', l') \<and>
        leads T1 pth1 key p' node' k' l'"
      by (rule consume_leads [OF T1(3) good, where rest = "[]"]) (use T1 lead in simp_all)
    then obtain p' node' k' l' where cons: "hattrie_consume (hnodes T1) 0 key p k l = Ok (p', node', k', l')"
      and lead': "leads T1 pth1 key p' node' k' l'" using lead(6) by auto
    from lead' obtain b' c' cs' where b': "fmlookup (hnodes T1) node' = Some (Bucket b')" "key = pth1 node' @ c' # cs'"
      "in_range b' c'" by (rule leadsE)
    from w [OF b'] Suc.prems(4) have "weight key pth1 node' b' < fuel" by simp
    from Suc.IH [OF T1(3) lead' b'(1) this] T1(2) have "got T M key (get_loop fuel T1 key p' node' k' l')"
      by (simp add: got_def)
    with True T1(1) cons Suc.prems(3) lead(6) show ?thesis by (simp add: as_bucket_def)
  qed
qed

lemma weight_fuel:
  assumes "key \<noteq> []"
  shows "weight key pth a b < NODE_CHILDS * (length key + 1)"
proof -
  have "(length key - length (pth a)) * NODE_CHILDS \<le> length key * NODE_CHILDS" by simp
  with unat_byte_less [of "tc1 b"] show ?thesis by (simp add: weight_def NODE_CHILDS_def)
qed

lemma find_leads:
  assumes inv: "hat_inv T pth M" and good: "good_key key" and "brk \<le> 1"
  obtains t p node k l where "fmlookup (hnodes T) (hroot T) = Some (Trie t)" "has_flag (Trie t) NODE_TYPE_TRIE"
    "hattrie_consume (hnodes T) brk key (hroot T) 0 (length key) = Ok (p, node, k, l)" "leads T pth key p node k l"
proof -
  obtain t where t: "fmlookup (hnodes T) (hroot T) = Some (Trie t)" using hat_invD(2) [OF inv] by blast
  have "key \<noteq> []" using good by (simp add: good_key_def)
  have "\<exists>p' node' k' l'. hattrie_consume (hnodes T) brk key (hroot T) 0 (length key) = Ok (p', node', k', l') \<and>
        leads T pth key p' node' k' l'"
    by (rule consume_leads [OF inv good, where rest = "[]"]) (use t \<open>key \<noteq> []\<close> hat_invD(1) [OF inv] assms(3) in simp_all)
  moreover have "has_flag (Trie t) NODE_TYPE_TRIE" using hat_invD(3) [OF inv t] by (simp add: trie_ok_def)
  ultimately show ?thesis using that t by blast
qed

lemma hattrie_get_rep:
  assumes "hat_rep T M" and good: "good_key key"
  shows "got T M key (hattrie_get T key (length key))"
proof -
  from assms obtain pth where inv: "hat_inv T pth M" by (auto simp: hat_rep_def)
  have "key \<noteq> []" using good by (simp add: good_key_def)
  obtain t p node k l where f: "fmlookup (hnodes T) (hroot T) = Some (Trie t)" "has_flag (Trie t) NODE_TYPE_TRIE"
    "hattrie_consume (hnodes T) 0 key (hroot T) 0 (length key) = Ok (p, node, k, l)" "leads T pth key p node k l"
    by (rule find_leads [OF inv good, where brk = 0]) (simp, blast)
  then obtain b where "fmlookup (hnodes T) node = Some (Bucket b)" by (auto elim!: leadsE)
  from get_loop_got [OF inv good f(4) this weight_fuel [OF \<open>key \<noteq> []\<close>]] f \<open>key \<noteq> []\<close> show ?thesis
    by (simp add: hattrie_get_def c_assert_def)
qed

section \<open>\<open>hattrie_tryget\<close> and \<open>hattrie_del\<close>\<close>

lemma hattrie_find_bucket:
  assumes inv: "hat_inv T pth M" and good: "good_key key"
  obtains node b c cs k l where "hattrie_find T key (length key) = Ok (Some node, k, l)"
    "fmlookup (hnodes T) node = Some (Bucket b)" "key = pth node @ c # cs" "in_range b c"
    "blk_read key k l = Ok (sub_key b (c # cs))"
proof -
  have "key \<noteq> []" using good by (simp add: good_key_def)
  obtain t p node k l where f: "fmlookup (hnodes T) (hroot T) = Some (Trie t)" "has_flag (Trie t) NODE_TYPE_TRIE"
    "hattrie_consume (hnodes T) 1 key (hroot T) 0 (length key) = Ok (p, node, k, l)" "leads T pth key p node k l"
    by (rule find_leads [OF inv good, where brk = 1]) (simp, blast)
  from f(4) obtain b c cs where b: "fmlookup (hnodes T) node = Some (Bucket b)" "key = pth node @ c # cs" "in_range b c"
    "k = length (pth node)" "l = Suc (length cs)" by (rule leadsE)
  have fl: "tflag b = NODE_TYPE_PURE_BUCKET \<or> tflag b = NODE_TYPE_HYBRID_BUCKET"
    using bucket_ok_flag [OF hat_invD(5) [OF inv b(1)]] by auto
  then have "hattrie_find T key (length key) =
      Ok (Some node, if tflag b = NODE_TYPE_PURE_BUCKET then (k + 1, l - 1) else (k, l))"
    using f b(1) \<open>key \<noteq> []\<close> by (auto simp: hattrie_find_def c_assert_def)
  with that [OF _ b(1-3)] leads_read [OF b(2,4,5), of "[]"] fl show ?thesis by (auto simp: sub_key_def split: if_splits)
qed

lemma hattrie_tryget_rep:
  assumes "hat_rep T M" and good: "good_key key"
  shows "\<exists>r. hattrie_tryget T key (length key) = Ok r \<and> (r \<noteq> None \<longleftrightarrow> fmlookup M key \<noteq> None) \<and>
     (\<forall>x. r = Some x \<longrightarrow> (\<exists>v. fmlookup M key = Some v \<and> href_read T x = Ok v))"
proof -
  from assms obtain pth where inv: "hat_inv T pth M" by (auto simp: hat_rep_def)
  obtain node b c cs k l where f: "hattrie_find T key (length key) = Ok (Some node, k, l)"
    "fmlookup (hnodes T) node = Some (Bucket b)" "key = pth node @ c # cs" "in_range b c"
    "blk_read key k l = Ok (sub_key b (c # cs))" by (rule hattrie_find_bucket [OF inv good])
  obtain N where N: "ahtable_rep b N"
    and eq: "\<And>c cs. in_range b c \<Longrightarrow> fmlookup N (sub_key b (c # cs)) = fmlookup M (pth node @ c # cs)"
    by (rule bucket_holds [OF inv f(2)]) blast
  have "fmlookup N (sub_key b (c # cs)) = fmlookup M key" using eq [OF f(4)] f(3) by simp
  with ahtable_tryget_rep [OF N, of "sub_key b (c # cs)"] f(1,2,5) show ?thesis
    by (auto simp: hattrie_tryget_def href_read_def as_bucket_def good_pointer_def)
qed

lemma hattrie_del_rep:
  assumes "hat_rep T M" and good: "good_key key"
  shows "\<exists>T'. hattrie_del T key (length key) = Ok (fst (array_del M key), T') \<and> hat_rep T' (snd (array_del M key))"
proof -
  from assms obtain pth where inv: "hat_inv T pth M" by (auto simp: hat_rep_def)
  obtain node b c cs k l where f: "hattrie_find T key (length key) = Ok (Some node, k, l)"
    "fmlookup (hnodes T) node = Some (Bucket b)" "key = pth node @ c # cs" "in_range b c"
    "blk_read key k l = Ok (sub_key b (c # cs))" by (rule hattrie_find_bucket [OF inv good])
  obtain N where N: "holds (\<lambda>k. fmlookup M (pth node @ k)) b N" "ahtable_rep b N"
    and eq: "\<And>c cs. in_range b c \<Longrightarrow> fmlookup N (sub_key b (c # cs)) = fmlookup M (pth node @ c # cs)"
    by (rule bucket_holds [OF inv f(2)]) blast
  let ?k = "sub_key b (c # cs)"
  have same: "fmlookup N ?k = fmlookup M key" using eq [OF f(4)] f(3) by simp
  from ahtable_del_rep [OF N(2), of ?k] obtain b1 where b1: "ahtable_del b ?k = Ok (fst (array_del N ?k), b1)"
    "ahtable_rep b1 (snd (array_del N ?k))" "same_node b b1" "tm b = (if fmlookup N ?k = None then tm b1 else Suc (tm b1))"
    by blast
  have "hat_inv (T\<lparr>hnodes := fmupd node (Bucket b1) (hnodes T), hm := hm T - (word_of_nat (tm b) - word_of_nat (tm b1))\<rparr>) pth
      (snd (array_del M key))"
  proof (rule hat_inv_entry [OF inv f(2-4) good N(1) b1(3,2)])
    show "fmlookup (snd (array_del N ?k)) x = (if x = ?k then None else fmlookup N x)" for x
      by (auto simp: array_del_def)
    show "fmlookup (snd (array_del M key)) x = (if x = key then None else fmlookup M x)" for x
      by (auto simp: array_del_def)
    show "hm T - (word_of_nat (tm b) - word_of_nat (tm b1)) = word_of_nat (array_size (snd (array_del M key)))"
      using hat_invD(8) [OF inv] b1(4) same array_size_drop [of M key] by (auto simp: array_del_def)
  qed
  moreover have "fst (array_del N ?k) = fst (array_del M key)" using same by (simp add: array_del_def)
  ultimately show ?thesis using f(1,2,5) b1(1) by (auto simp: hattrie_del_def hat_rep_def)
qed

section \<open>A new trie\<close>

lemma hattrie_create_inv: "hat_inv hattrie_create (\<lambda>_. []) array_new"
proof -
  let ?H = "hnodes hattrie_create"
  have H: "fmlookup ?H 1 = Some (Bucket new_hybrid)" "fmlookup ?H 2 = Some (Trie (alloc_trie_node 1))" "hroot hattrie_create = 2"
    "\<And>a n. fmlookup ?H a = Some n \<Longrightarrow> a = 1 \<or> a = 2" by (auto simp: hattrie_create_def split: if_splits)
  have kids: "nxs (alloc_trie_node a) ! unat c = a" for c :: byte and a by (simp add: alloc_trie_node_def)
  have all: "in_range new_hybrid c" for c by (simp add: new_hybrid_def in_range_all)
  have rep: "ahtable_rep new_hybrid array_new"
    using ahtable_create_rep [of ahtable_initial_size]
    by (simp add: new_hybrid_def ahtable_create_def ahtable_initial_size_def)
  have "trie_ok ?H (\<lambda>_. []) 2 (alloc_trie_node 1)"
  proof -
    have "child_ok ?H (\<lambda>_. []) [] (nxs (alloc_trie_node 1)) c" for c
      using H(1) all by (intro child_okI_Bucket [of _ _ _ new_hybrid]) (simp_all add: kids)
    then show ?thesis by (auto simp: trie_ok_def alloc_trie_node_def)
  qed
  moreover have "bucket_ok array_new [] new_hybrid"
    unfolding bucket_ok_def using rep all
    by (intro exI [of _ array_new]) (auto simp: array_new_def new_hybrid_def NODE_MAXCHAR_def)
  moreover have "parent_ok ?H 2 [] 1 new_hybrid" by (simp add: parent_ok_def H(2) kids)
  moreover have "hm hattrie_create = word_of_nat (array_size array_new)"
    by (simp add: hattrie_create_def array_size_def array_new_def fcard.rep_eq)
  ultimately show ?thesis
    unfolding hat_inv_def using H by (fastforce simp: array_new_def)
qed

section \<open>The trie as an array store\<close>

definition hat_ops :: "(hattrie, href) store_ops" where
  "hat_ops = \<lparr>s_get = (\<lambda>T k. hattrie_get T k (length k)), s_tryget = (\<lambda>T k. hattrie_tryget T k (length k)),
     s_del = (\<lambda>T k. hattrie_del T k (length k)), s_read = href_read, s_write = href_write,
     s_size = (\<lambda>T. unat (hattrie_size T))\<rparr>"

interpretation hat: array_store hat_ops hat_rep good_key
proof
  fix t a and k :: "byte list" assume t: "hat_rep t a" and k: "good_key k"
  from hattrie_get_rep [OF t k] obtain r t' where
    g: "hattrie_get t k (length k) = Ok (r, t')" "hat_rep t' (snd (array_get a k))" "hat_pointer t' (snd (array_get a k)) k r"
    by (auto simp: got_def)
  have "fmlookup (snd (array_get a k)) k = Some (fst (array_get a k))"
    "array_set (snd (array_get a k)) k v = array_set a k v" for v
    by (auto simp: array_get_def array_set_def split: option.splits)
  with g show "\<exists>r t'. s_get hat_ops t k = Ok (r, t') \<and> hat_rep t' (snd (array_get a k)) \<and>
      s_read hat_ops t' r = Ok (fst (array_get a k)) \<and>
      (\<forall>v. \<exists>t''. s_write hat_ops t' r v = Ok t'' \<and> hat_rep t'' (array_set a k v))"
    by (intro exI [of _ r] exI [of _ t']) (fastforce simp: hat_ops_def hat_pointer_def)
  from hattrie_tryget_rep [OF t k] show "\<exists>r. s_tryget hat_ops t k = Ok r \<and> (r \<noteq> None \<longleftrightarrow> array_key_exists a k) \<and>
      (\<forall>x. r = Some x \<longrightarrow> s_read hat_ops t x = Ok (fst (array_get a k)))"
    by (auto simp: hat_ops_def array_key_exists_def array_get_def)
  from hattrie_del_rep [OF t k] show "\<exists>t'. s_del hat_ops t k = Ok (fst (array_del a k), t') \<and>
      hat_rep t' (snd (array_del a k))" by (simp add: hat_ops_def)
next
  fix t a assume "hat_rep t a"
  then show "s_size hat_ops t = array_size a mod 2 ^ 64"
    by (auto simp: hat_ops_def hattrie_size_def hat_rep_def hat_invD(8) unat_of_nat)
qed

section \<open>Properties\<close>



text \<open>
  The empty key is not counted when it is created but is when it is deleted: storing under
  and then deleting the empty key leaves every trie whose root has no value with a count one
  too small, and an empty one with \<open>2\<^sup>6\<^sup>4 - 1\<close> entries.
\<close>

theorem hattrie_empty_key_count:
  assumes "fmlookup (hnodes T) (hroot T) = Some (Trie t)" and "nflag t = NODE_TYPE_TRIE"
  shows "\<exists>r T1 T2. hattrie_get T buf 0 = Ok (r, T1) \<and> hattrie_size T1 = hattrie_size T \<and>
     hattrie_del T1 buf 0 = Ok (0, T2) \<and> hattrie_size T2 = hattrie_size T - 1"
proof -
  let ?t = "t\<lparr>nflag := nflag t OR NODE_HAS_VAL\<rparr>"
  have "has_flag (Trie ?t) NODE_TYPE_TRIE" "has_flag (Trie ?t) NODE_HAS_VAL"
    using assms(2) by (simp_all add: has_flag_def node_types)
  with assms show ?thesis
    by (simp add: hattrie_get_def hattrie_del_def hattrie_find_def c_assert_def as_trie_def hattrie_clrval_def hattrie_size_def)
qed

theorem hattrie_empty_key_count_witness:
  "\<exists>r T1 T2. hattrie_get hattrie_create [] 0 = Ok (r, T1) \<and> hattrie_del T1 [] 0 = Ok (0, T2) \<and> hattrie_size T2 = 0xFFFFFFFFFFFFFFFF"
proof -
  have "fmlookup (hnodes hattrie_create) (hroot hattrie_create) = Some (Trie (alloc_trie_node 1))"
    "nflag (alloc_trie_node 1) = NODE_TYPE_TRIE" by (simp_all add: hattrie_create_def alloc_trie_node_def)
  moreover have "hattrie_size hattrie_create - 1 = 0xFFFFFFFFFFFFFFFF" by (simp add: hattrie_size_def hattrie_create_def)
  ultimately show ?thesis using hattrie_empty_key_count [of hattrie_create _ "[]"] by metis
qed

text \<open>
  A key that ends at a trie node makes \<open>hattrie_get\<close> read the byte after it: with nothing
  there the read is out of bounds, and when that byte leads to a further trie node the pointer
  returned is to the value of the longer key.
\<close>

theorem hattrie_get_reads_past_key:
  assumes "fmlookup (hnodes T) (hroot T) = Some (Trie t)" and "has_flag (Trie t) NODE_TYPE_TRIE"
    and "fmlookup (hnodes T) (nxs t ! unat c) = Some (Trie t1)" and "has_flag (Trie t1) NODE_TYPE_TRIE"
    and "fmlookup (hnodes T) (nxs t1 ! unat d) = Some (Trie t2)" and "has_flag (Trie t2) NODE_TYPE_TRIE"
  shows "hattrie_get T [c] 1 = Fault OutOfBounds \<and>
    (\<exists>T'. hattrie_get T [c, d] 1 = Ok (NodeVal (nxs t1 ! unat d), T'))"
proof
  have r: "blk_read [c, d] 0 1 = Ok [c]" "blk_read [c, d] 1 1 = Ok [d]" "blk_read [c] 0 1 = Ok [c]"
    "blk_read [c] 1 1 = Fault OutOfBounds" by (simp_all add: blk_read_def)
  show "hattrie_get T [c] 1 = Fault OutOfBounds"
    using assms(1-4) r
    by (simp add: hattrie_get_def c_assert_def hattrie_consume.simps child_at_def as_trie_def)
  have "hattrie_consume (hnodes T) 0 [c, d] (hroot T) 0 1 = Ok (nxs t ! unat c, nxs t1 ! unat d, 1, 0)"
    using assms r by (simp add: hattrie_consume.simps child_at_def as_trie_def)
  with assms show "\<exists>T'. hattrie_get T [c, d] 1 = Ok (NodeVal (nxs t1 ! unat d), T')"
    by (simp add: hattrie_get_def c_assert_def NODE_CHILDS_def numeral_eq_Suc hattrie_useval_def as_trie_def)
qed

definition deep_trie :: hattrie where
  "deep_trie = \<lparr>hroot = 4, hm = 0, hnodes = fmupd 4 (Trie (alloc_trie_node 3)) (fmupd 3 (Trie (alloc_trie_node 2))
     (fmupd 2 (Trie (alloc_trie_node 1)) (fmupd 1 (Bucket new_hybrid) fmempty)))\<rparr>"

theorem hattrie_get_reads_past_key_witness:
  "hattrie_get deep_trie [97] 1 = Fault OutOfBounds \<and> (\<exists>T'. hattrie_get deep_trie [97, 98] 1 = Ok (NodeVal 2, T'))"
proof -
  have n: "fmlookup (hnodes deep_trie) (hroot deep_trie) = Some (Trie (alloc_trie_node 3))"
    "fmlookup (hnodes deep_trie) 3 = Some (Trie (alloc_trie_node 2))" "fmlookup (hnodes deep_trie) 2 = Some (Trie (alloc_trie_node 1))"
    "has_flag (Trie (alloc_trie_node a)) NODE_TYPE_TRIE" for a by (simp_all add: deep_trie_def alloc_trie_node_def)
  have kids: "nxs (alloc_trie_node a) ! unat c = a" for c :: byte and a by (simp add: alloc_trie_node_def)
  show ?thesis
    using hattrie_get_reads_past_key [OF n(1,4) _ n(4) _ n(4), of 97 2 98 1] n(2,3) by (simp only: kids)
qed

end
