(* ===== verification/Ahtable_Iter.thy ===== *)
theory Ahtable_Iter
  imports Ahtable
begin

text \<open>
  The iterators of an array hash table behind one interface, as the end of
  \<open>src/lib/hat-trie/src/ahtable.c\<close> has it: \<open>ahtable_iter_t\<close> is a sorted or an unsorted iterator. Locale
  \<open>table_iter\<close> is what a client may rely on; all three iterators provide it.
\<close>

section \<open>The wrapper\<close>

datatype ahtable_iter = SortedIter sorted_iter | UnsortedIter unsorted_iter

definition ahtable_iter_begin :: "ahtable \<Rightarrow> bool \<Rightarrow> ahtable_iter res" where
  "ahtable_iter_begin T srt =
     (if srt then res_bind (sorted_iter_begin T) (\<lambda>i. Ok (SortedIter i)) else Ok (UnsortedIter (unsorted_iter_begin T)))"

definition ahtable_iter_next :: "ahtable \<Rightarrow> ahtable_iter \<Rightarrow> ahtable_iter res" where
  "ahtable_iter_next T it = (case it of SortedIter i \<Rightarrow> Ok (SortedIter (sorted_iter_next T i))
     | UnsortedIter i \<Rightarrow> res_bind (unsorted_iter_next T i) (\<lambda>i1. Ok (UnsortedIter i1)))"

definition ahtable_iter_finished :: "ahtable \<Rightarrow> ahtable_iter \<Rightarrow> bool" where
  "ahtable_iter_finished T it \<longleftrightarrow> (case it of SortedIter i \<Rightarrow> sorted_iter_finished T i
     | UnsortedIter i \<Rightarrow> unsorted_iter_finished T i)"

definition ahtable_iter_key :: "ahtable \<Rightarrow> ahtable_iter \<Rightarrow> byte list option res" where
  "ahtable_iter_key T it = (case it of SortedIter i \<Rightarrow> sorted_iter_key T i | UnsortedIter i \<Rightarrow> unsorted_iter_key T i)"

definition ahtable_iter_val :: "ahtable \<Rightarrow> ahtable_iter \<Rightarrow> vref option res" where
  "ahtable_iter_val T it = (case it of SortedIter i \<Rightarrow> sorted_iter_val T i | UnsortedIter i \<Rightarrow> unsorted_iter_val T i)"

section \<open>The contract\<close>

text \<open>\<open>ahead T it es\<close>: the iterator has the entries \<open>es\<close> before it.\<close>

locale table_iter =
  fixes ahead :: "ahtable \<Rightarrow> 'i \<Rightarrow> (byte list \<times> value_t) list \<Rightarrow> bool"
    and fin :: "ahtable \<Rightarrow> 'i \<Rightarrow> bool" and nxt :: "ahtable \<Rightarrow> 'i \<Rightarrow> 'i res"
    and key :: "ahtable \<Rightarrow> 'i \<Rightarrow> byte list option res" and val :: "ahtable \<Rightarrow> 'i \<Rightarrow> vref option res"
  assumes fin_law: "ahead T it es \<Longrightarrow> fin T it \<longleftrightarrow> es = []"
    and key_law: "ahead T it (e # es) \<Longrightarrow> key T it = Ok (Some (fst e))"
    and val_law: "ahead T it (e # es) \<Longrightarrow> \<exists>r. val T it = Ok (Some r) \<and> val_read T r = Ok (snd e)"
    and next_law: "ahead T it (e # es) \<Longrightarrow> \<exists>it'. nxt T it = Ok it' \<and> ahead T it' es"
begin

lemma visit:
  assumes "ahead T it (e # es)"
  obtains r it' where "\<not> fin T it" "key T it = Ok (Some (fst e))" "val T it = Ok (Some r)" "val_read T r = Ok (snd e)"
    "nxt T it = Ok it'" "ahead T it' es"
  using assms fin_law key_law val_law next_law by (metis list.distinct(1))

end

definition unsorted_ahead :: "ahtable \<Rightarrow> unsorted_iter \<Rightarrow> (byte list \<times> value_t) list \<Rightarrow> bool" where
  "unsorted_ahead T it es \<longleftrightarrow> (\<exists>ess. table_rep T ess \<and> iter_at T ess it es)"

interpretation ut: table_iter unsorted_ahead unsorted_iter_finished unsorted_iter_next unsorted_iter_key unsorted_iter_val
proof
  show "unsorted_ahead T it es \<Longrightarrow> unsorted_iter_finished T it \<longleftrightarrow> es = []" for T it es
    by (auto simp: unsorted_ahead_def iter_at_finished)
  show "unsorted_ahead T it (e # es) \<Longrightarrow> unsorted_iter_key T it = Ok (Some (fst e))" for T it e es
    by (auto simp: unsorted_ahead_def iter_at_key)
  show "unsorted_ahead T it (e # es) \<Longrightarrow> \<exists>r. unsorted_iter_val T it = Ok (Some r) \<and> val_read T r = Ok (snd e)" for T it e es
    unfolding unsorted_ahead_def using iter_at_val by blast
  show "unsorted_ahead T it (e # es) \<Longrightarrow> \<exists>it'. unsorted_iter_next T it = Ok it' \<and> unsorted_ahead T it' es" for T it e es
    unfolding unsorted_ahead_def using iter_at_next by blast
qed

definition sorted_ahead :: "ahtable \<Rightarrow> sorted_iter \<Rightarrow> (byte list \<times> value_t) list \<Rightarrow> bool" where
  "sorted_ahead T it es \<longleftrightarrow> sorted_walk T it = Ok es"

lemma sorted_ahead_Cons:
  assumes "sorted_ahead T it (e # es)"
  shows "\<not> sorted_iter_finished T it" "sorted_entry T it = Ok e" "sorted_ahead T (sorted_iter_next T it) es"
  using assms unfolding sorted_ahead_def by (subst (asm) sorted_walk.simps, auto simp: res_simps split: if_splits)+

interpretation st: table_iter sorted_ahead sorted_iter_finished "\<lambda>T it. Ok (sorted_iter_next T it)" sorted_iter_key sorted_iter_val
proof
  show "sorted_ahead T it es \<Longrightarrow> sorted_iter_finished T it \<longleftrightarrow> es = []" for T it es
    unfolding sorted_ahead_def by (subst (asm) sorted_walk.simps) (auto simp: res_simps split: if_splits)
  show "sorted_ahead T it (e # es) \<Longrightarrow> sorted_iter_key T it = Ok (Some (fst e))" for T it e es
    using sorted_ahead_Cons(2) [of T it e es]
    by (auto simp: sorted_entry_def some_key_def res_simps split: option.splits)
  show "sorted_ahead T it (e # es) \<Longrightarrow> \<exists>r. sorted_iter_val T it = Ok (Some r) \<and> val_read T r = Ok (snd e)" for T it e es
    using sorted_ahead_Cons(2) [of T it e es]
    by (auto simp: sorted_entry_def res_simps split: option.splits)
  show "sorted_ahead T it (e # es) \<Longrightarrow> \<exists>it'. Ok (sorted_iter_next T it) = Ok it' \<and> sorted_ahead T it' es" for T it e es
    using sorted_ahead_Cons(3) by blast
qed

definition ahead :: "ahtable \<Rightarrow> ahtable_iter \<Rightarrow> (byte list \<times> value_t) list \<Rightarrow> bool" where
  "ahead T it es \<longleftrightarrow> (case it of SortedIter i \<Rightarrow> sorted_ahead T i es | UnsortedIter i \<Rightarrow> unsorted_ahead T i es)"

lemmas iter_wrappers = ahead_def ahtable_iter_next_def ahtable_iter_finished_def ahtable_iter_key_def ahtable_iter_val_def

interpretation at: table_iter ahead ahtable_iter_finished ahtable_iter_next ahtable_iter_key ahtable_iter_val
proof
  show "ahead T it es \<Longrightarrow> ahtable_iter_finished T it \<longleftrightarrow> es = []" for T it es
    by (cases it) (simp_all add: iter_wrappers ut.fin_law st.fin_law)
  show "ahead T it (e # es) \<Longrightarrow> ahtable_iter_key T it = Ok (Some (fst e))" for T it e es
    by (cases it) (simp_all add: iter_wrappers ut.key_law st.key_law)
  show "ahead T it (e # es) \<Longrightarrow> \<exists>r. ahtable_iter_val T it = Ok (Some r) \<and> val_read T r = Ok (snd e)" for T it e es
    using ut.val_law [of T _ e es] st.val_law [of T _ e es] by (cases it) (simp_all only: iter_wrappers ahtable_iter.case)
  show "\<exists>it'. ahtable_iter_next T it = Ok it' \<and> ahead T it' es" if "ahead T it (e # es)" for T it e es
  proof (cases it)
    case (SortedIter i)
    with that st.next_law [of T i e es] show ?thesis by (simp add: iter_wrappers)
  next
    case (UnsortedIter i)
    with that obtain i' where "unsorted_iter_next T i = Ok i'" "unsorted_ahead T i' es"
      using ut.next_law [of T i e es] by (auto simp: iter_wrappers)
    with UnsortedIter show ?thesis by (simp add: iter_wrappers)
  qed
qed

text \<open>A new iterator has all entries before it, in ascending order if it is a sorted one.\<close>

lemma iter_begin_ahead:
  assumes "ahtable_rep T M"
  shows "\<exists>it es. ahtable_iter_begin T srt = Ok it \<and> ahead T it es \<and> distinct (map fst es) \<and> map_of es = fmlookup M \<and>
     (srt \<longrightarrow> sorted (map fst es))"
proof -
  from assms obtain ess where ess: "table_rep T ess" and "\<And>k. fmlookup M k = map_of (ess ! home (tn T) k) k"
    by (auto simp: ahtable_rep_def)
  then have M: "map_of (concat ess) = fmlookup M" using table_rep_map_of [OF ess] by auto
  show ?thesis
  proof (cases srt)
    case True
    from sorted_walk_rep [OF ess] obtain it es where
      it: "sorted_iter_begin T = Ok it" "sorted_walk T it = Ok es" "sorted (map fst es)" "mset es = mset (concat ess)"
      by blast
    from it(4) have "mset (map fst es) = mset (map fst (concat ess))" by (metis mset_map)
    then have dis: "distinct (map fst es)" using table_rep_distinct [OF ess] mset_eq_imp_distinct_iff by blast
    have "map_of es = map_of (concat ess)"
      using map_of_inject_set [OF dis table_rep_distinct [OF ess]] it(4) by (metis set_mset_mset)
    with True it dis M show ?thesis by (auto simp: ahtable_iter_begin_def ahead_def sorted_ahead_def)
  next
    case False
    have "unsorted_ahead T (unsorted_iter_begin T) (concat ess)"
      unfolding unsorted_ahead_def using ess iter_at_begin by blast
    with False M table_rep_distinct [OF ess] show ?thesis
      by (intro exI [of _ "UnsortedIter (unsorted_iter_begin T)"] exI [of _ "concat ess"])
        (simp add: ahtable_iter_begin_def ahead_def)
  qed
qed

end
