(* ===== verification/Hattrie_Iter.thy ===== *)
theory Hattrie_Iter
  imports Hattrie_Map Ahtable_Iter
begin

text \<open>
  The iterators of \<open>src/lib/hat-trie/src/hat-trie.c\<close>. An iterator holds the path to the current node
  in a growing buffer, a stack of the nodes still to be visited and an iterator of the current
  bucket. The loops over the stack are bounded by fuel; theorem \<open>hattrie_iteration\<close> says that
  enough fuel gives the whole map.
\<close>

section \<open>The iterator\<close>

type_synonym node_entry = "byte \<times> u64 \<times> ptr"

record hattrie_iter =
  ikey :: block
  ilevel :: u64
  iprefix :: "byte list"
  has_nil_key :: bool
  nil_val :: value_t
  isorted :: bool
  ibucket :: "(addr \<times> ahtable_iter) option"
  istack :: "node_entry list"

definition hattrie_iter_pushchar :: "hattrie_iter \<Rightarrow> u64 \<Rightarrow> byte \<Rightarrow> hattrie_iter res" where
  "hattrie_iter_pushchar i level c =
     (let key = (if length (ikey i) < unat level then realloc_block (ikey i) (2 * length (ikey i)) else ikey i) in
     res_bind (if level > 0 then blk_write key (unat (level - 1)) [c] else Ok key) (\<lambda>key1.
       Ok (i\<lparr>ikey := key1, ilevel := level\<rparr>)))"

text \<open>The children of a trie node from left to right; a bucket is pushed once, for its last byte.\<close>

definition child_entries :: "trie_node \<Rightarrow> u64 \<Rightarrow> node_entry list" where
  "child_entries t level = map (\<lambda>j. (word_of_nat j, level + 1, Some (nxs t ! j)))
     (filter (\<lambda>j. \<not> (j < unat NODE_MAXCHAR \<and> nxs t ! j = nxs t ! (j + 1))) [0..<NODE_CHILDS])"

definition hattrie_iter_nextnode :: "hnode heap \<Rightarrow> hattrie_iter \<Rightarrow> hattrie_iter res" where
  "hattrie_iter_nextnode H i = (case istack i of [] \<Rightarrow> Ok i
     | (c, level, node) # rest \<Rightarrow>
         res_bind (deref H node) (\<lambda>n.
           case n of
             Trie t \<Rightarrow> res_bind (hattrie_iter_pushchar (i\<lparr>istack := rest\<rparr>) level c) (\<lambda>i1.
               (let i2 = (if has_flag n NODE_HAS_VAL then i1\<lparr>has_nil_key := True, nil_val := nval t\<rparr> else i1) in
                Ok (i2\<lparr>istack := child_entries t level @ rest\<rparr>)))
           | Bucket b \<Rightarrow>
               res_bind (if has_flag n NODE_TYPE_PURE_BUCKET then hattrie_iter_pushchar (i\<lparr>istack := rest\<rparr>) level c
                         else Ok (i\<lparr>istack := rest, ilevel := level - 1\<rparr>)) (\<lambda>i1.
               res_bind (ahtable_iter_begin b (isorted i)) (\<lambda>it. Ok (i1\<lparr>ibucket := Some (the node, it)\<rparr>)))))"

definition hattrie_iter_finished :: "hattrie_iter \<Rightarrow> bool" where
  "hattrie_iter_finished i \<longleftrightarrow> istack i = [] \<and> ibucket i = None \<and> \<not> has_nil_key i"

definition bucket_finished :: "hnode heap \<Rightarrow> hattrie_iter \<Rightarrow> bool res" where
  "bucket_finished H i = (case ibucket i of None \<Rightarrow> Ok True
     | Some (a, it) \<Rightarrow> res_bind (as_bucket H a) (\<lambda>b. Ok (ahtable_iter_finished b it)))"

definition bucket_key :: "hnode heap \<Rightarrow> hattrie_iter \<Rightarrow> byte list res" where
  "bucket_key H i = (case ibucket i of None \<Rightarrow> Fault NullDeref
     | Some (a, it) \<Rightarrow> res_bind (as_bucket H a) (\<lambda>b. res_bind (ahtable_iter_key b it) some_key))"

definition hattrie_iter_prefix_satisfied :: "hnode heap \<Rightarrow> hattrie_iter \<Rightarrow> bool res" where
  "hattrie_iter_prefix_satisfied H i =
     (let n = length (iprefix i); level = unat (ilevel i) in
     res_bind (c_assert (n > 0)) (\<lambda>_.
       if level \<ge> n then res_bind (blk_read (ikey i) 0 n) (\<lambda>x. Ok (x = iprefix i))
       else if has_nil_key i then Ok False
       else res_bind (blk_read (ikey i) 0 level) (\<lambda>x.
         if x \<noteq> take level (iprefix i) then Ok False
         else res_bind (bucket_key H i) (\<lambda>key.
           if level + length key < n then Ok False
           else Ok (take (n - level) key = drop level (iprefix i))))))"

definition hattrie_iter_satisfied :: "hnode heap \<Rightarrow> hattrie_iter \<Rightarrow> bool res" where
  "hattrie_iter_satisfied H i =
     (if hattrie_iter_finished i \<or> iprefix i = [] then Ok True else hattrie_iter_prefix_satisfied H i)"

fun hattrie_iter_continue :: "nat \<Rightarrow> hnode heap \<Rightarrow> hattrie_iter \<Rightarrow> hattrie_iter res" where
  "hattrie_iter_continue 0 H i = Fault Diverges"
| "hattrie_iter_continue (Suc fuel) H i =
     res_bind (bucket_finished H i) (\<lambda>fin.
       if fin \<and> \<not> has_nil_key i \<and> istack i \<noteq> []
       then res_bind (hattrie_iter_nextnode H (i\<lparr>ibucket := None\<rparr>)) (hattrie_iter_continue fuel H)
       else Ok (if fin then i\<lparr>ibucket := None\<rparr> else i))"

fun hattrie_iter_next :: "nat \<Rightarrow> hnode heap \<Rightarrow> hattrie_iter \<Rightarrow> hattrie_iter res" where
  "hattrie_iter_next 0 H i = Fault Diverges"
| "hattrie_iter_next (Suc fuel) H i =
     (if hattrie_iter_finished i then Ok i
      else res_bind (bucket_finished H i) (\<lambda>fin.
           res_bind (if \<not> fin then
                       (case ibucket i of None \<Rightarrow> Ok i
                        | Some (a, it) \<Rightarrow> res_bind (as_bucket H a) (\<lambda>b.
                            res_bind (ahtable_iter_next b it) (\<lambda>it1. Ok (i\<lparr>ibucket := Some (a, it1)\<rparr>))))
                     else if has_nil_key i then hattrie_iter_nextnode H (i\<lparr>has_nil_key := False, nil_val := 0\<rparr>)
                     else Ok i) (\<lambda>i1.
           res_bind (hattrie_iter_continue (Suc fuel) H i1) (\<lambda>i2.
           res_bind (hattrie_iter_satisfied H i2) (\<lambda>ok.
             if ok then Ok i2 else hattrie_iter_next fuel H i2)))))"

text \<open>The memory of a new key buffer is \<open>key0\<close>.\<close>

definition hattrie_iter_begin_with_prefix :: "nat \<Rightarrow> block \<Rightarrow> hattrie \<Rightarrow> bool \<Rightarrow> byte list \<Rightarrow> hattrie_iter res" where
  "hattrie_iter_begin_with_prefix fuel key0 T srt prefix =
     (let size = (if length prefix > 8 then length prefix * 2 else 16) in
     res_bind (if length prefix > 0 then
                 res_bind (hattrie_find T prefix (length prefix)) (\<lambda>(start, k, l).
                   if l > 0 then res_bind (blk_read prefix k l) (\<lambda>rest.
                     Ok (if length prefix = l then Some (hroot T) else start, rest))
                   else Ok (start, []))
               else Ok (Some (hroot T), [])) (\<lambda>(start, rest).
     res_bind (hattrie_iter_continue fuel (hnodes T)
         \<lparr>ikey = take size (key0 @ replicate size 0), ilevel = 0, iprefix = rest, has_nil_key = False, nil_val = 0,
          isorted = srt, ibucket = None, istack = [(0, 0, start)]\<rparr>) (\<lambda>i.
       if rest \<noteq> [] then res_bind (hattrie_iter_prefix_satisfied (hnodes T) i) (\<lambda>ok.
         if ok then Ok i else hattrie_iter_next fuel (hnodes T) i)
       else Ok i)))"

definition hattrie_iter_begin :: "nat \<Rightarrow> block \<Rightarrow> hattrie \<Rightarrow> bool \<Rightarrow> hattrie_iter res" where
  "hattrie_iter_begin fuel key0 T srt = hattrie_iter_begin_with_prefix fuel key0 T srt []"

text \<open>The doubling of the key buffer, which is never empty.\<close>

function grow_size :: "nat \<Rightarrow> nat \<Rightarrow> nat" where
  "grow_size n desired = (if 0 < n \<and> n < desired then grow_size (2 * n) desired else n)"
  by pat_completeness auto
termination by (relation "measure (\<lambda>(n, d). d - n)") auto

declare grow_size.simps [simp del]

definition hattrie_iter_key :: "hnode heap \<Rightarrow> hattrie_iter \<Rightarrow> (byte list option \<times> hattrie_iter) res" where
  "hattrie_iter_key H i =
     (if hattrie_iter_finished i then Ok (None, i)
      else res_bind (if has_nil_key i then Ok [] else bucket_key H i) (\<lambda>sub.
        (let desired = ilevel i + word_of_nat (length sub) + 1;
             key = realloc_block (ikey i) (grow_size (length (ikey i)) (unat desired)) in
        res_bind (blk_write key (unat (ilevel i)) sub) (\<lambda>key1.
        res_bind (blk_write key1 (unat (ilevel i + word_of_nat (length sub))) [0]) (\<lambda>key2.
        res_bind (blk_read key2 (length (iprefix i)) (unat (ilevel i + word_of_nat (length sub) - word_of_nat (length (iprefix i))))) (\<lambda>k.
          Ok (Some k, i\<lparr>ikey := key2\<rparr>)))))))"

datatype iter_ref = NilVal | BucketRef addr vref

definition hattrie_iter_val :: "hnode heap \<Rightarrow> hattrie_iter \<Rightarrow> iter_ref option res" where
  "hattrie_iter_val H i =
     (if has_nil_key i then Ok (Some NilVal)
      else if hattrie_iter_finished i then Ok None
      else (case ibucket i of None \<Rightarrow> Fault NullDeref
        | Some (a, it) \<Rightarrow> res_bind (as_bucket H a) (\<lambda>b. res_bind (ahtable_iter_val b it) (\<lambda>r.
            Ok (map_option (BucketRef a) r)))))"

definition iter_read :: "hnode heap \<Rightarrow> hattrie_iter \<Rightarrow> iter_ref option \<Rightarrow> value_t res" where
  "iter_read H i r = (case r of None \<Rightarrow> Fault NullDeref | Some NilVal \<Rightarrow> Ok (nil_val i)
     | Some (BucketRef a v) \<Rightarrow> res_bind (as_bucket H a) (\<lambda>b. val_read b v))"

text \<open>A client's loop: the key, the value, the next entry.\<close>

fun hat_collect :: "nat \<Rightarrow> hnode heap \<Rightarrow> hattrie_iter \<Rightarrow> (byte list \<times> value_t) list res" where
  "hat_collect 0 H i = Fault Diverges"
| "hat_collect (Suc fuel) H i =
     (if hattrie_iter_finished i then Ok []
      else res_bind (hattrie_iter_key H i) (\<lambda>(k, i1).
           res_bind (some_key k) (\<lambda>key.
           res_bind (hattrie_iter_val H i1) (\<lambda>r.
           res_bind (iter_read H i1 r) (\<lambda>v.
           res_bind (hattrie_iter_next (Suc fuel) H i1) (\<lambda>i2.
           res_bind (hat_collect fuel H i2) (\<lambda>es. Ok ((key, v) # es))))))))"

section \<open>What the nodes on the stack still have to give\<close>

definition covers :: "hnode heap \<Rightarrow> (addr \<Rightarrow> byte list) \<Rightarrow> addr \<Rightarrow> byte list \<Rightarrow> bool" where
  "covers H pth x k \<longleftrightarrow> (case fmlookup H x of None \<Rightarrow> False
     | Some (Trie t) \<Rightarrow> (\<exists>cs. k = pth x @ cs)
     | Some (Bucket b) \<Rightarrow> (\<exists>e cs. k = pth x @ e # cs \<and> in_range b e))"

definition before :: "hnode heap \<Rightarrow> (addr \<Rightarrow> byte list) \<Rightarrow> addr \<Rightarrow> addr \<Rightarrow> bool" where
  "before H pth x y \<longleftrightarrow> (\<forall>k1 k2. covers H pth x k1 \<longrightarrow> covers H pth y k2 \<longrightarrow> k1 < k2)"

abbreviation entry_level :: "node_entry \<Rightarrow> nat" where "entry_level e \<equiv> unat (fst (snd e))"
abbreviation entry_node :: "node_entry \<Rightarrow> addr" where "entry_node e \<equiv> the (snd (snd e))"

text \<open>The key buffer holds the path to the parent of every node on the stack.\<close>

definition entry_ok :: "hnode heap \<Rightarrow> (addr \<Rightarrow> byte list) \<Rightarrow> block \<Rightarrow> node_entry \<Rightarrow> bool" where
  "entry_ok H pth key e \<longleftrightarrow> (case e of (c, level, node) \<Rightarrow> \<exists>x. node = Some x \<and>
     ((\<exists>t. fmlookup H x = Some (Trie t) \<and> pth x = [] \<and> level = 0) \<or>
      (\<exists>t w. fmlookup H x = Some (Trie t) \<and> pth x = w @ [c] \<and> unat level = Suc (length w) \<and> take (length w) key = w) \<or>
      (\<exists>b. fmlookup H x = Some (Bucket b) \<and> unat level = Suc (length (pth x)) \<and> take (length (pth x)) key = pth x \<and>
        (tflag b = NODE_TYPE_PURE_BUCKET \<longrightarrow> c = tc0 b))))"

definition stack_ok :: "hnode heap \<Rightarrow> (addr \<Rightarrow> byte list) \<Rightarrow> block \<Rightarrow> node_entry list \<Rightarrow> bool" where
  "stack_ok H pth key S \<longleftrightarrow> (\<forall>e\<in>set S. entry_ok H pth key e) \<and> sorted_wrt (\<lambda>e f. entry_level f \<le> entry_level e) S \<and>
     sorted_wrt (\<lambda>e f. before H pth (entry_node e) (entry_node f)) S"

lemma entry_ok_key:
  assumes "entry_ok H pth key e" and "entry_level e \<le> Suc n" and "take n key' = take n key"
  shows "entry_ok H pth key' e"
proof -
  obtain c level node where e: "e = (c, level, node)" by (metis prod.exhaust)
  have "take m key' = take m key" if "m \<le> n" for m
    using assms(3) that by (metis min.absorb1 take_take)
  then have tk: "take (length w) key = w \<Longrightarrow> unat level = Suc (length w) \<Longrightarrow> take (length w) key' = w" for w
    using assms(2) e by simp
  show ?thesis using assms(1) tk unfolding entry_ok_def e prod.case by blast
qed

lemma stack_ok_key:
  assumes "stack_ok H pth key S" and "\<And>e. e \<in> set S \<Longrightarrow> entry_level e \<le> Suc n" and "take n key' = take n key"
  shows "stack_ok H pth key' S"
  using assms entry_ok_key [OF _ assms(2) assms(3)] by (auto simp: stack_ok_def)

lemma append_less: "u @ x < u @ y \<longleftrightarrow> x < (y :: byte list)"
  by (induction u) auto

lemma append_le: "u @ x \<le> u @ y \<longleftrightarrow> x \<le> (y :: byte list)"
  by (induction u) auto

lemma pushchar_ok:
  assumes "unat level = Suc n" and "n \<le> length (ikey i)" and "0 < length (ikey i)"
  shows "\<exists>key. hattrie_iter_pushchar i level c = Ok (i\<lparr>ikey := key, ilevel := level\<rparr>) \<and>
     take (Suc n) key = take n (ikey i) @ [c] \<and> 0 < length key"
proof -
  define k0 where "k0 = (if length (ikey i) < unat level then realloc_block (ikey i) (2 * length (ikey i)) else ikey i)"
  have pos: "level > 0" "unat (level - 1) = n"
    using assms(1) by (auto simp: word_less_nat_alt) (metis One_nat_def diff_Suc_1 unat_minus_one assms(1) nat.distinct(1) unat_0)
  have len: "n < length k0"
  proof (cases "length (ikey i) < unat level")
    case True
    then have "length k0 = 2 * length (ikey i)" by (simp add: k0_def realloc_block_def)
    with assms(2,3) show ?thesis by linarith
  qed (use assms(1) in \<open>simp add: k0_def\<close>)
  have tk: "take n k0 = take n (ikey i)" using assms(2) by (auto simp: k0_def realloc_block_def)
  have "hattrie_iter_pushchar i level c = Ok (i\<lparr>ikey := put_at k0 n [c], ilevel := level\<rparr>)"
    using pos len by (simp add: hattrie_iter_pushchar_def k0_def [symmetric] Let_def)
  moreover have "take (Suc n) (put_at k0 n [c]) = take n (ikey i) @ [c]"
    using take_put_at [of n "[c]" k0] len tk by simp
  moreover have "length (put_at k0 n [c]) = length k0" using len by simp
  then have "0 < length (put_at k0 n [c])" using len by linarith
  ultimately show ?thesis by blast
qed

section \<open>The children of a trie node\<close>

lemma child_run:
  fixes a b :: byte
  assumes ok: "\<And>c. child_ok H pth w xs c" and eq: "xs ! unat a = xs ! unat b" and c: "a \<le> c" "c \<le> b"
  shows "xs ! unat c = xs ! unat b"
proof (cases "fmlookup H (xs ! unat b)")
  case None
  with ok [of b] show ?thesis by (simp add: child_ok_def)
next
  case (Some n)
  show ?thesis
  proof (cases n)
    case (Trie t)
    have "pth (xs ! unat b) = w @ [b]" by (rule child_ok_Trie [OF ok]) (use Some Trie in simp)
    moreover have "pth (xs ! unat a) = w @ [a]" by (rule child_ok_Trie [OF ok]) (use Some Trie eq in simp)
    ultimately have "a = b" using eq by simp
    with c show ?thesis by simp
  next
    case (Bucket d)
    with Some have d: "fmlookup H (xs ! unat b) = Some (Bucket d)" "fmlookup H (xs ! unat a) = Some (Bucket d)" using eq by simp_all
    have "in_range d a" "in_range d b" using child_ok_Bucket(2) [OF ok] d by blast+
    with c have "in_range d c" by (auto simp: in_range_def)
    then show ?thesis by (rule child_ok_Bucket(3) [OF ok d(1)])
  qed
qed

text \<open>A key below a child has the child at its next byte.\<close>

lemma child_covers:
  fixes c :: byte
  assumes ok: "\<And>c. child_ok H pth w xs c" and k: "covers H pth (xs ! unat c) k"
  shows "\<exists>e cs. k = w @ e # cs \<and> xs ! unat e = xs ! unat c"
proof (cases "fmlookup H (xs ! unat c)")
  case None
  with k show ?thesis by (simp add: covers_def)
next
  case (Some n)
  show ?thesis
  proof (cases n)
    case (Trie t)
    with child_ok_Trie [OF ok, of c t] Some k show ?thesis by (auto simp: covers_def)
  next
    case (Bucket d)
    with Some have d: "fmlookup H (xs ! unat c) = Some (Bucket d)" by simp
    with k obtain e cs where "k = pth (xs ! unat c) @ e # cs" "in_range d e" by (auto simp: covers_def)
    with child_ok_Bucket(1) [OF ok d] child_ok_Bucket(3) [OF ok d] show ?thesis by metis
  qed
qed

lemma covers_child:
  assumes ok: "\<And>c. child_ok H pth w xs c"
  shows "covers H pth (xs ! unat e) (w @ e # cs)"
proof (cases "fmlookup H (xs ! unat e)")
  case None
  with ok [of e] show ?thesis by (simp add: child_ok_def)
next
  case (Some n)
  show ?thesis
  proof (cases n)
    case (Trie t)
    with child_ok_Trie [OF ok, of e t] Some show ?thesis by (simp add: covers_def)
  next
    case (Bucket d)
    with Some child_ok_Bucket(1,2) [OF ok, of e d] show ?thesis by (simp add: covers_def)
  qed
qed

definition run_end :: "addr list \<Rightarrow> nat \<Rightarrow> bool" where
  "run_end xs j \<longleftrightarrow> \<not> (j < unat NODE_MAXCHAR \<and> xs ! j = xs ! (j + 1))"

lemma max_byte: "unat NODE_MAXCHAR = 255" "NODE_CHILDS = 256"
  by (simp_all add: NODE_MAXCHAR_def NODE_CHILDS_def)

lemma unat_small: "j < 256 \<Longrightarrow> unat (word_of_nat j :: byte) = j"
  by (simp add: unat_of_nat)

lemma run_end_exists:
  assumes "e < 256"
  shows "\<exists>j. e \<le> j \<and> j < 256 \<and> run_end xs j \<and> xs ! j = xs ! e"
  using assms
proof (induction "256 - e" arbitrary: e)
  case 0
  then show ?case by simp
next
  case (Suc n)
  show ?case
  proof (cases "run_end xs e")
    case True
    with Suc.prems show ?thesis by blast
  next
    case False
    then have e: "e < 255" "xs ! (e + 1) = xs ! e" by (auto simp: run_end_def max_byte)
    have "\<exists>j. e + 1 \<le> j \<and> j < 256 \<and> run_end xs j \<and> xs ! j = xs ! (e + 1)" using Suc e by (intro Suc.hyps(1)) auto
    then obtain j where "e + 1 \<le> j" "j < 256" "run_end xs j" "xs ! j = xs ! (e + 1)" by blast
    with e(2) show ?thesis by (intro exI [of _ j]) simp
  qed
qed

lemma children_before:
  assumes ok: "\<And>c. child_ok H pth w xs c" and j: "i < j" "j < 256" "run_end xs i"
  shows "before H pth (xs ! i) (xs ! j)"
  unfolding before_def
proof (intro allI impI)
  fix k1 k2 assume k: "covers H pth (xs ! i) k1" "covers H pth (xs ! j) k2"
  let ?i = "word_of_nat i :: byte" and ?j = "word_of_nat j :: byte"
  have u: "unat ?i = i" "unat ?j = j" "unat (word_of_nat (i + 1) :: byte) = i + 1" using j by (simp_all only: unat_small)
  from child_covers [OF ok, of ?i k1] k(1) u obtain e1 cs1 where e1: "k1 = w @ e1 # cs1" "xs ! unat e1 = xs ! i" by auto
  from child_covers [OF ok, of ?j k2] k(2) u obtain e2 cs2 where e2: "k2 = w @ e2 # cs2" "xs ! unat e2 = xs ! j" by auto
  have ne: "xs ! i \<noteq> xs ! (i + 1)" using j by (auto simp: run_end_def max_byte)
  have "unat e1 \<le> i"
  proof (rule ccontr)
    assume "\<not> unat e1 \<le> i"
    then have "?i \<le> word_of_nat (i + 1)" "word_of_nat (i + 1) \<le> e1" unfolding word_le_nat_alt u by simp_all
    from child_run [OF ok _ this] e1(2) u ne show False by simp
  qed
  moreover have "i < unat e2"
  proof (rule ccontr)
    assume "\<not> i < unat e2"
    then have le: "e2 \<le> ?i" "?i \<le> ?j" "e2 \<le> word_of_nat (i + 1)" "word_of_nat (i + 1) \<le> ?j" unfolding word_le_nat_alt u using j by simp_all
    from child_run [OF ok _ le(1,2)] child_run [OF ok _ le(3,4)] e2(2) u ne show False by simp
  qed
  ultimately have "e1 < e2" by (simp add: word_less_nat_alt)
  with e1(1) e2(1) show "k1 < k2" by (simp add: append_less)
qed

lemma child_entries_alt:
  "child_entries t level = map (\<lambda>j. (word_of_nat j, level + 1, Some (nxs t ! j))) (filter (run_end (nxs t)) [0..<256])"
  unfolding child_entries_def run_end_def max_byte ..

text \<open>The stack after a trie node was replaced by its children.\<close>

lemma stack_ok_children:
  assumes x: "fmlookup H x = Some (Trie t)" "trie_ok H pth x t" and level: "unat level = length (pth x)"
    and key: "take (length (pth x)) key = pth x"
    and rest: "stack_ok H pth key rest" "\<And>f. f \<in> set rest \<Longrightarrow> entry_level f \<le> unat level"
      "\<And>f. f \<in> set rest \<Longrightarrow> before H pth x (entry_node f)"
    and pure: "\<And>y b. fmlookup H y = Some (Bucket b) \<Longrightarrow> tflag b = NODE_TYPE_PURE_BUCKET \<Longrightarrow> tc1 b = tc0 b"
  shows "stack_ok H pth key (child_entries t level @ rest)"
proof -
  let ?xs = "nxs t"
  have ok: "child_ok H pth (pth x) ?xs c" for c using x(2) by (simp add: trie_ok_def)
  have up: "unat (level + 1) = Suc (length (pth x))"
    using x(2) level by (simp add: trie_ok_def unat_word_ariths)
  have cov: "covers H pth x k" if "covers H pth (?xs ! j) k" "j < 256" for j k
    using child_covers [OF ok, of "word_of_nat j" k] that x(1) unat_small [OF that(2)] by (auto simp: covers_def)
  have "entry_ok H pth key (word_of_nat j, level + 1, Some (?xs ! j))" if j: "j < 256" for j
  proof -
    let ?c = "word_of_nat j :: byte"
    have u: "unat ?c = j" by (rule unat_small [OF j])
    from ok [of ?c] u obtain n where n: "fmlookup H (?xs ! j) = Some n" by (auto simp: child_ok_def split: option.splits)
    show ?thesis
    proof (cases n)
      case (Trie t')
      with child_ok_Trie [OF ok, of ?c t'] n u up key show ?thesis by (auto simp: entry_ok_def)
    next
      case (Bucket b)
      with n u have b: "fmlookup H (?xs ! unat ?c) = Some (Bucket b)" by simp
      have "pth (?xs ! j) = pth x" "in_range b ?c" using child_ok_Bucket(1,2) [OF ok b] u by simp_all
      moreover have "tflag b = NODE_TYPE_PURE_BUCKET \<longrightarrow> ?c = tc0 b" using pure [OF b] calculation(2) by (auto simp: in_range_pure)
      ultimately show ?thesis using b u up key by (auto simp: entry_ok_def)
    qed
  qed
  then have "\<forall>e\<in>set (child_entries t level). entry_ok H pth key e" by (auto simp: child_entries_alt)
  moreover have "sorted_wrt (\<lambda>e f. before H pth (entry_node e) (entry_node f)) (child_entries t level)"
  proof -
    have "sorted_wrt (\<lambda>i j. before H pth (?xs ! i) (?xs ! j)) (filter (run_end ?xs) [0..<256])"
      by (rule sorted_wrt_mono_rel [of _ "(<)"]) (auto intro: children_before [OF ok] sorted_wrt_filter)
    then show ?thesis by (simp add: child_entries_alt sorted_wrt_map)
  qed
  moreover have "sorted_wrt (\<lambda>e f. entry_level f \<le> entry_level e) (child_entries t level)"
    by (simp add: child_entries_alt sorted_wrt_map)
  moreover have "before H pth (entry_node e) (entry_node f)" if "e \<in> set (child_entries t level)" "f \<in> set rest" for e f
  proof -
    from that(1) obtain j where "entry_node e = ?xs ! j" "j < 256" by (auto simp: child_entries_alt)
    with rest(3) [OF that(2)] cov show ?thesis by (auto simp: before_def)
  qed
  moreover have "entry_level f \<le> entry_level e" if "e \<in> set (child_entries t level)" "f \<in> set rest" for e f
  proof -
    have "entry_level e = Suc (length (pth x))" using that(1) up by (auto simp: child_entries_alt)
    with rest(2) [OF that(2)] level show ?thesis by simp
  qed
  ultimately show ?thesis using rest(1) by (auto simp: stack_ok_def sorted_wrt_append)
qed

lemma covers_children:
  assumes x: "fmlookup H x = Some (Trie t)" "trie_ok H pth x t" and k: "k \<noteq> pth x"
  shows "covers H pth x k \<longleftrightarrow> (\<exists>e\<in>set (child_entries t level). covers H pth (entry_node e) k)"
proof -
  let ?xs = "nxs t"
  have ok: "child_ok H pth (pth x) ?xs c" for c using x(2) by (simp add: trie_ok_def)
  have "\<exists>j<256. run_end ?xs j \<and> covers H pth (?xs ! j) k" if "covers H pth x k"
  proof -
    from that x(1) obtain cs0 where "k = pth x @ cs0" by (auto simp: covers_def)
    with k obtain e cs where e: "k = pth x @ e # cs" by (cases cs0) auto
    have "unat e < 256" using unat_byte_less [of e] by (simp add: max_byte)
    from run_end_exists [OF this] obtain j where "j < 256" "run_end ?xs j" "?xs ! j = ?xs ! unat e" by blast
    with covers_child [OF ok, of e cs] e show ?thesis by auto
  qed
  moreover have "covers H pth x k" if "covers H pth (?xs ! j) k" "j < 256" for j
    using child_covers [OF ok, of "word_of_nat j" k] that x(1) unat_small [OF that(2)] by (auto simp: covers_def)
  ultimately show ?thesis by (auto simp: child_entries_alt)
qed

section \<open>The state of an iteration\<close>

definition iter_ok :: "hnode heap \<Rightarrow> (addr \<Rightarrow> byte list) \<Rightarrow> hattrie_iter \<Rightarrow> byte list \<Rightarrow> (byte list \<times> value_t) list \<Rightarrow>
    node_entry list \<Rightarrow> bool" where
  "iter_ok H pth i p eb S \<longleftrightarrow> 0 < length (ikey i) \<and> iprefix i = [] \<and> \<not> has_nil_key i \<and> istack i = S \<and> stack_ok H pth (ikey i) S \<and>
     (ibucket i = None \<and> eb = [] \<or>
      (\<exists>a b it. ibucket i = Some (a, it) \<and> fmlookup H a = Some (Bucket b) \<and> ahead b it eb \<and> unat (ilevel i) = length p \<and>
        take (length p) (ikey i) = p \<and> (\<forall>e\<in>set S. entry_level e \<le> Suc (length p)) \<and> length p \<le> 32767 \<and>
        (\<forall>x\<in>set eb. length (fst x) \<le> 32767)))"

definition entries :: "byte list \<Rightarrow> (byte list \<times> value_t) list \<Rightarrow> (byte list \<times> value_t) list" where
  "entries p eb = map (\<lambda>e. (p @ fst e, snd e)) eb"

definition due_entries :: "hnode heap \<Rightarrow> (addr \<Rightarrow> byte list) \<Rightarrow> array_t \<Rightarrow> node_entry list \<Rightarrow> (byte list \<times> value_t) set" where
  "due_entries H pth M S = {(k, v). fmlookup M k = Some v \<and> (\<exists>e\<in>set S. covers H pth (entry_node e) k)}"

text \<open>The entries of the current bucket come before all others.\<close>

definition in_order :: "hnode heap \<Rightarrow> (addr \<Rightarrow> byte list) \<Rightarrow> bool \<Rightarrow> byte list \<Rightarrow> (byte list \<times> value_t) list \<Rightarrow> node_entry list \<Rightarrow> bool" where
  "in_order H pth srt p eb S \<longleftrightarrow> distinct (map fst eb) \<and> (srt \<longrightarrow> sorted (map fst eb)) \<and>
     (\<forall>x\<in>set eb. \<forall>e\<in>set S. \<forall>k. covers H pth (entry_node e) k \<longrightarrow> p @ fst x < k)"

definition stack_weight :: "node_entry list \<Rightarrow> nat" where
  "stack_weight S = sum_list (map (\<lambda>e. 257 ^ (32769 - entry_level e)) S)"

lemma stack_weight_simps [simp]:
  "stack_weight [] = 0" "stack_weight (e # S) = 257 ^ (32769 - entry_level e) + stack_weight S"
  "stack_weight (S @ S') = stack_weight S + stack_weight S'"
  by (simp_all add: stack_weight_def)

lemma child_entries_weight:
  assumes "unat level < 32767"
  shows "stack_weight (child_entries t level) < 257 ^ (32769 - unat level)"
proof -
  have up: "unat (level + 1) = Suc (unat level)" using assms by (simp add: unat_word_ariths)
  have "stack_weight (child_entries t level) = length (filter (run_end (nxs t)) [0..<256]) * 257 ^ (32769 - Suc (unat level))"
    by (simp add: stack_weight_def child_entries_alt comp_def up sum_list_triv)
  also have "\<dots> \<le> 256 * 257 ^ (32769 - Suc (unat level))"
    using length_filter_le [of "run_end (nxs t)" "[0..<256]"] by simp
  also have "\<dots> < 257 * 257 ^ (32769 - Suc (unat level))" by simp
  also have "\<dots> = 257 ^ Suc (32769 - Suc (unat level))" by (simp only: power_Suc)
  also have "Suc (32769 - Suc (unat level)) = 32769 - unat level" using assms by arith
  finally show ?thesis .
qed

text \<open>What one node of the stack turns into.\<close>

definition turns_into :: "hattrie \<Rightarrow> (addr \<Rightarrow> byte list) \<Rightarrow> array_t \<Rightarrow> bool \<Rightarrow> node_entry list \<Rightarrow> byte list \<Rightarrow>
    (byte list \<times> value_t) list \<Rightarrow> node_entry list \<Rightarrow> bool" where
  "turns_into T pth M srt S p eb S' \<longleftrightarrow> stack_weight S' < stack_weight S \<and> in_order (hnodes T) pth srt p eb S' \<and>
     set (entries p eb) \<union> due_entries (hnodes T) pth M S' = due_entries (hnodes T) pth M S"

text \<open>Writing the byte of an entry keeps the rest of the stack well-formed.\<close>

lemma pushchar_stack:
  assumes rest: "stack_ok H pth (ikey i) rest" "\<And>f. f \<in> set rest \<Longrightarrow> entry_level f \<le> unat level"
    and level: "unat level = Suc (length w)" and key: "take (length w) (ikey i) = w" "0 < length (ikey i)"
  obtains key' where "hattrie_iter_pushchar (i\<lparr>istack := rest\<rparr>) level c = Ok (i\<lparr>istack := rest, ikey := key', ilevel := level\<rparr>)"
    "0 < length key'" "take (Suc (length w)) key' = w @ [c]" "stack_ok H pth key' rest"
proof -
  have "length w \<le> length (ikey i)" using key(1) by (metis length_take min.cobounded1)
  with pushchar_ok [OF level, of "i\<lparr>istack := rest\<rparr>" c] key obtain key' where
    k: "hattrie_iter_pushchar (i\<lparr>istack := rest\<rparr>) level c = Ok (i\<lparr>istack := rest, ikey := key', ilevel := level\<rparr>)"
    "take (Suc (length w)) key' = w @ [c]" "0 < length key'" by auto
  have "take (length w) key' = take (length w) (ikey i)"
    using k(2) key(1) by (metis append_eq_conv_conj le_Suc_eq min.absorb1 order.refl take_take)
  with stack_ok_key [OF rest(1), of "length w" key'] rest(2) level have "stack_ok H pth key' rest" by simp
  with that k show ?thesis by blast
qed

lemma turns_into_children:
  assumes inv: "hat_inv T pth M" and x: "fmlookup (hnodes T) x = Some (Trie t)" and level: "unat level = length (pth x)"
  shows "turns_into T pth M srt ((c, level, Some x) # rest) [] [] (child_entries t level @ rest)"
proof -
  have t: "trie_ok (hnodes T) pth x t" by (rule hat_invD(3) [OF inv x])
  then have "unat level < 32767" using level by (simp add: trie_ok_def)
  from child_entries_weight [OF this, of t] have "stack_weight (child_entries t level @ rest) < stack_weight ((c, level, Some x) # rest)" by simp
  moreover have "k \<noteq> pth x" if "fmlookup M k = Some v" for k v
  proof -
    have "good_key k" using hat_invD(7) [OF inv] that by (metis fmdomI)
    then have "0 \<in> set k" by (auto simp: good_key_def dest: last_in_set)
    with t show ?thesis by (auto simp: trie_ok_def)
  qed
  with covers_children [OF x t, of _ level] have
    "due_entries (hnodes T) pth M (child_entries t level @ rest) = due_entries (hnodes T) pth M ((c, level, Some x) # rest)"
    by (auto simp: due_entries_def)
  ultimately show ?thesis by (simp add: turns_into_def in_order_def entries_def)
qed

lemma nextnode_trie:
  assumes inv: "hat_inv T pth M" and i: "iter_ok (hnodes T) pth i p0 [] ((c, level, Some x) # rest)" "ibucket i = None"
    and x: "fmlookup (hnodes T) x = Some (Trie t)"
  shows "\<exists>i'. hattrie_iter_nextnode (hnodes T) i = Ok i' \<and> iter_ok (hnodes T) pth i' [] [] (istack i') \<and> isorted i' = isorted i \<and>
     ibucket i' = None \<and> turns_into T pth M srt ((c, level, Some x) # rest) [] [] (istack i')"
proof -
  let ?H = "hnodes T"
  have st: "stack_ok ?H pth (ikey i) ((c, level, Some x) # rest)" and k0: "0 < length (ikey i)" and other: "iprefix i = []" "\<not> has_nil_key i"
    "istack i = (c, level, Some x) # rest" using i(1) by (simp_all add: iter_ok_def)
  have t: "trie_ok ?H pth x t" by (rule hat_invD(3) [OF inv x])
  have nv: "\<not> has_flag (Trie t) NODE_HAS_VAL" using t by (simp add: trie_ok_def)
  have rl: "entry_level f \<le> unat level" "before ?H pth x (entry_node f)" if "f \<in> set rest" for f
    using st that by (auto simp: stack_ok_def)
  have rs: "stack_ok ?H pth (ikey i) rest" using st by (simp add: stack_ok_def)
  obtain key where key: "hattrie_iter_pushchar (i\<lparr>istack := rest\<rparr>) level c = Ok (i\<lparr>istack := rest, ikey := key, ilevel := level\<rparr>)"
    "0 < length key" "take (length (pth x)) key = pth x" "unat level = length (pth x)" "stack_ok ?H pth key rest"
  proof -
    have "entry_ok ?H pth (ikey i) (c, level, Some x)" using st by (simp add: stack_ok_def)
    with x consider "pth x = []" "level = 0" | w where "pth x = w @ [c]" "unat level = Suc (length w)" "take (length w) (ikey i) = w"
      by (auto simp: entry_ok_def)
    then show ?thesis
    proof cases
      case 1
      have "hattrie_iter_pushchar (i\<lparr>istack := rest\<rparr>) level c = Ok (i\<lparr>istack := rest, ikey := ikey i, ilevel := level\<rparr>)"
        using 1 by (simp add: hattrie_iter_pushchar_def)
      with that [of "ikey i"] 1 k0 rs show ?thesis by simp
    next
      case 2
      show ?thesis by (rule pushchar_stack [OF rs rl(1) 2(2,3) k0, of c]) (use that 2 in simp_all)
    qed
  qed
  let ?i = "i\<lparr>istack := child_entries t level @ rest, ikey := key, ilevel := level\<rparr>"
  have run: "hattrie_iter_nextnode ?H i = Ok ?i"
    using other(3) x nv key(1) by (simp add: hattrie_iter_nextnode_def)
  have pure: "tc1 b = tc0 b" if "fmlookup ?H y = Some (Bucket b)" "tflag b = NODE_TYPE_PURE_BUCKET" for y b
    using bucket_ok_flag [OF hat_invD(5) [OF inv that(1)]] that(2) by (auto simp: node_types)
  have "stack_ok ?H pth key (child_entries t level @ rest)"
    by (rule stack_ok_children [OF x t key(4,3,5) rl pure])
  then have "iter_ok ?H pth ?i [] [] (istack ?i)" using key(2) other i(2) by (simp add: iter_ok_def)
  moreover have "turns_into T pth M srt ((c, level, Some x) # rest) [] [] (child_entries t level @ rest)"
    by (rule turns_into_children [OF inv x key(4)])
  ultimately show ?thesis using run i(2) by auto
qed

text \<open>The keys of a bucket: what the iterator puts before the stored part.\<close>

definition stored_after :: "ahtable \<Rightarrow> byte list \<Rightarrow> byte list" where
  "stored_after b w = (if tflag b = NODE_TYPE_PURE_BUCKET then w @ [tc0 b] else w)"

lemma stored_after_sub:
  "tflag b = NODE_TYPE_PURE_BUCKET \<longrightarrow> tc1 b = tc0 b \<Longrightarrow> in_range b e \<Longrightarrow> stored_after b w @ sub_key b (e # cs) = w @ e # cs"
  by (auto simp: stored_after_def sub_key_def in_range_pure)

lemma holds_sub_key:
  assumes "holds f b N" and "tflag b = NODE_TYPE_PURE_BUCKET \<longrightarrow> tc1 b = tc0 b" and "fmlookup N k = Some v"
  shows "\<exists>e cs. in_range b e \<and> k = sub_key b (e # cs)"
proof (cases "tflag b = NODE_TYPE_PURE_BUCKET")
  case True
  then show ?thesis using in_range_pure [of b "tc0 b"] assms(2) by (intro exI [of _ "tc0 b"] exI [of _ k]) (simp add: sub_key_def)
next
  case False
  with assms(1,3) have "k \<noteq> []" "in_range b (hd k)" by (auto simp: holds_def fmlookup_dom_iff)
  with False show ?thesis by (intro exI [of _ "hd k"] exI [of _ "tl k"]) (simp add: sub_key_def)
qed

lemma stored_after_length:
  assumes inv: "hat_inv T pth M" and x: "fmlookup (hnodes T) x = Some (Bucket b)"
  shows "length (stored_after b (pth x)) \<le> 32767"
proof -
  have "in_range b (tc0 b)" using bucket_ok_range [OF hat_invD(5) [OF inv x]] .
  from parent_child [OF inv x this] obtain q t where "fmlookup (hnodes T) q = Some (Trie t)" "pth q = pth x" by blast
  with hat_invD(3) [OF inv, of q t] show ?thesis by (simp add: trie_ok_def stored_after_def)
qed

lemma bucket_entries:
  assumes inv: "hat_inv T pth M" and x: "fmlookup (hnodes T) x = Some (Bucket b)"
  obtains it eb where "ahtable_iter_begin b srt = Ok it" "ahead b it eb" "distinct (map fst eb)" "srt \<longrightarrow> sorted (map fst eb)"
    "set (entries (stored_after b (pth x)) eb) = {(k, v). fmlookup M k = Some v \<and> covers (hnodes T) pth x k}"
    "\<forall>y\<in>set eb. length (fst y) \<le> 32767" "length (stored_after b (pth x)) \<le> 32767"
proof -
  obtain N where N: "holds (\<lambda>k. fmlookup M (pth x @ k)) b N" "ahtable_rep b N"
    and eq: "\<And>c cs. in_range b c \<Longrightarrow> fmlookup N (sub_key b (c # cs)) = fmlookup M (pth x @ c # cs)"
    by (rule bucket_holds [OF inv x]) blast
  from iter_begin_ahead [OF N(2), of srt] obtain it eb where
    it: "ahtable_iter_begin b srt = Ok it" "ahead b it eb" "distinct (map fst eb)" "map_of eb = fmlookup N" "srt \<longrightarrow> sorted (map fst eb)"
    by blast
  have pure: "tflag b = NODE_TYPE_PURE_BUCKET \<longrightarrow> tc1 b = tc0 b" using N(1) by (auto simp: holds_def node_types)
  let ?p = "stored_after b (pth x)"
  have mem: "(k, v) \<in> set eb \<longleftrightarrow> fmlookup N k = Some v" for k v
    using map_of_eq_Some_iff [OF it(3)] it(4) by (metis (no_types))
  have key: "fmlookup M (?p @ k) = Some v \<and> covers (hnodes T) pth x (?p @ k)" if "fmlookup N k = Some v" for k v
  proof -
    from holds_sub_key [OF N(1) pure that] obtain e cs where e: "in_range b e" "k = sub_key b (e # cs)" by blast
    with stored_after_sub [OF pure e(1)] eq [OF e(1)] that x show ?thesis by (auto simp: covers_def)
  qed
  have "set (entries ?p eb) = {(k, v). fmlookup M k = Some v \<and> covers (hnodes T) pth x k}" (is "?A = ?B")
  proof (intro equalityI subsetI)
    fix z assume "z \<in> ?A"
    then obtain k v where "z = (?p @ k, v)" "(k, v) \<in> set eb" by (auto simp: entries_def)
    with key mem show "z \<in> ?B" by auto
  next
    fix z assume "z \<in> ?B"
    with x obtain e cs v where e: "z = (pth x @ e # cs, v)" "in_range b e" "fmlookup M (pth x @ e # cs) = Some v" by (auto simp: covers_def)
    then have "(sub_key b (e # cs), v) \<in> set eb" using mem eq by auto
    then have "(?p @ sub_key b (e # cs), v) \<in> ?A" unfolding entries_def by (force simp: image_iff)
    with e(1) stored_after_sub [OF pure e(2)] show "z \<in> ?A" by simp
  qed
  moreover have "\<forall>y\<in>set eb. length (fst y) \<le> 32767"
  proof
    fix y assume "y \<in> set eb"
    then have "fmlookup M (?p @ fst y) = Some (snd y)" using mem [of "fst y" "snd y"] key by simp
    then have "good_key (?p @ fst y)" using hat_invD(7) [OF inv] by (metis fmdomI)
    then show "length (fst y) \<le> 32767" by (simp add: good_key_def)
  qed
  moreover have "length ?p \<le> 32767" by (rule stored_after_length [OF inv x])
  ultimately show ?thesis using that it by blast
qed

lemma nextnode_bucket:
  assumes inv: "hat_inv T pth M" and i: "iter_ok (hnodes T) pth i p0 [] ((c, level, Some x) # rest)" "ibucket i = None"
    and x: "fmlookup (hnodes T) x = Some (Bucket b)"
  shows "\<exists>i' p eb. hattrie_iter_nextnode (hnodes T) i = Ok i' \<and> iter_ok (hnodes T) pth i' p eb (istack i') \<and> isorted i' = isorted i \<and>
     turns_into T pth M (isorted i) ((c, level, Some x) # rest) p eb (istack i')"
proof -
  let ?H = "hnodes T" and ?p = "stored_after b (pth x)"
  have st: "stack_ok ?H pth (ikey i) ((c, level, Some x) # rest)" and k0: "0 < length (ikey i)" and other: "iprefix i = []" "\<not> has_nil_key i"
    "istack i = (c, level, Some x) # rest" using i(1) by (simp_all add: iter_ok_def)
  have rl: "entry_level f \<le> unat level" "before ?H pth x (entry_node f)" if "f \<in> set rest" for f
    using st that by (auto simp: stack_ok_def)
  have rs: "stack_ok ?H pth (ikey i) rest" using st by (simp add: stack_ok_def)
  have "entry_ok ?H pth (ikey i) (c, level, Some x)" using st by (simp add: stack_ok_def)
  with x have e: "unat level = Suc (length (pth x))" "take (length (pth x)) (ikey i) = pth x" "tflag b = NODE_TYPE_PURE_BUCKET \<longrightarrow> c = tc0 b"
    by (auto simp: entry_ok_def)
  have fl: "tflag b = NODE_TYPE_PURE_BUCKET \<or> tflag b = NODE_TYPE_HYBRID_BUCKET"
    using bucket_ok_flag [OF hat_invD(5) [OF inv x]] by auto
  obtain key lv where key: "(if has_flag (Bucket b) NODE_TYPE_PURE_BUCKET then hattrie_iter_pushchar (i\<lparr>istack := rest\<rparr>) level c
      else Ok (i\<lparr>istack := rest, ilevel := level - 1\<rparr>)) = Ok (i\<lparr>istack := rest, ikey := key, ilevel := lv\<rparr>)"
    "0 < length key" "take (length ?p) key = ?p" "unat lv = length ?p" "stack_ok ?H pth key rest"
  proof (cases "tflag b = NODE_TYPE_PURE_BUCKET")
    case True
    show ?thesis
      by (rule pushchar_stack [OF rs rl(1) e(1,2) k0, of c]) (use that [of level] True fl e in \<open>simp_all add: stored_after_def\<close>)
  next
    case False
    have "unat (level - 1) = length (pth x)" using e(1) by (metis diff_Suc_1 nat.distinct(1) unat_0 unat_minus_one)
    with that [of "level - 1" "ikey i"] False fl e k0 rs show ?thesis by (simp add: stored_after_def)
  qed
  obtain it eb where it: "ahtable_iter_begin b (isorted i) = Ok it" "ahead b it eb" "distinct (map fst eb)" "isorted i \<longrightarrow> sorted (map fst eb)"
    "set (entries ?p eb) = {(k, v). fmlookup M k = Some v \<and> covers ?H pth x k}"
    "\<forall>y\<in>set eb. length (fst y) \<le> 32767" "length ?p \<le> 32767" by (rule bucket_entries [OF inv x])
  let ?i = "i\<lparr>istack := rest, ikey := key, ilevel := lv, ibucket := Some (x, it)\<rparr>"
  have run: "hattrie_iter_nextnode ?H i = Ok ?i"
    unfolding hattrie_iter_nextnode_def other(3) using x key(1) it(1) by simp
  have "length (pth x) \<le> length ?p" by (simp add: stored_after_def)
  with rl(1) e(1) have "entry_level f \<le> Suc (length ?p)" if "f \<in> set rest" for f using that by fastforce
  with it key x other have "iter_ok ?H pth ?i ?p eb rest" by (simp add: iter_ok_def)
  moreover have "turns_into T pth M (isorted i) ((c, level, Some x) # rest) ?p eb rest"
  proof -
    have "covers ?H pth x (?p @ fst y)" if "y \<in> set eb" for y
    proof -
      have "(?p @ fst y, snd y) \<in> set (entries ?p eb)" using that by (auto simp: entries_def)
      with it(5) show ?thesis by simp
    qed
    with rl(2) have "in_order ?H pth (isorted i) ?p eb rest" using it(3,4) by (auto simp: in_order_def before_def)
    moreover have "set (entries ?p eb) \<union> due_entries ?H pth M rest = due_entries ?H pth M ((c, level, Some x) # rest)"
      unfolding it(5) by (auto simp: due_entries_def)
    ultimately show ?thesis by (simp add: turns_into_def)
  qed
  ultimately show ?thesis using run by (intro exI [of _ ?i] exI [of _ ?p] exI [of _ eb]) simp
qed

section \<open>Going on to the next entry\<close>

lemma nextnode_ok:
  assumes inv: "hat_inv T pth M" and i: "iter_ok (hnodes T) pth i p0 [] (e # rest)" "ibucket i = None"
  shows "\<exists>i' p eb. hattrie_iter_nextnode (hnodes T) i = Ok i' \<and> iter_ok (hnodes T) pth i' p eb (istack i') \<and> isorted i' = isorted i \<and>
     turns_into T pth M (isorted i) (e # rest) p eb (istack i')"
proof -
  obtain c level node where e: "e = (c, level, node)" by (metis prod.exhaust)
  have "entry_ok (hnodes T) pth (ikey i) e" using i(1) by (simp add: iter_ok_def stack_ok_def)
  then obtain x n where x: "node = Some x" "fmlookup (hnodes T) x = Some n" by (auto simp: entry_ok_def e)
  show ?thesis
  proof (cases n)
    case (Trie t)
    from nextnode_trie [OF inv i(1) [unfolded e x(1)] i(2), of t "isorted i"] x(2) Trie show ?thesis
      unfolding e x(1) by blast
  next
    case (Bucket b)
    from nextnode_bucket [OF inv i(1) [unfolded e x(1)] i(2), of b] x(2) Bucket show ?thesis unfolding e x(1) by blast
  qed
qed

text \<open>\<open>hattrie_iter_continue\<close> stops at an entry, or with nothing left.\<close>

definition arrived :: "hattrie \<Rightarrow> (addr \<Rightarrow> byte list) \<Rightarrow> array_t \<Rightarrow> bool \<Rightarrow> node_entry list \<Rightarrow> hattrie_iter \<Rightarrow> bool" where
  "arrived T pth M srt S i \<longleftrightarrow> (\<exists>p eb. iter_ok (hnodes T) pth i p eb (istack i) \<and> isorted i = srt \<and>
     in_order (hnodes T) pth srt p eb (istack i) \<and> (eb = [] \<longrightarrow> hattrie_iter_finished i) \<and>
     (S \<noteq> [] \<longrightarrow> stack_weight (istack i) < stack_weight S) \<and> (S = [] \<longrightarrow> istack i = []) \<and>
     set (entries p eb) \<union> due_entries (hnodes T) pth M (istack i) = due_entries (hnodes T) pth M S)"

lemma bucket_finished_ok:
  assumes "iter_ok H pth i p eb S"
  shows "bucket_finished H i = Ok (eb = [])"
  using assms by (auto simp: iter_ok_def bucket_finished_def as_bucket_def at.fin_law split: option.splits)

lemma iter_ok_drop: "iter_ok H pth i p [] S \<Longrightarrow> iter_ok H pth (i\<lparr>ibucket := None\<rparr>) p [] S"
  by (auto simp: iter_ok_def)

lemma continue_stop:
  assumes "iter_ok H pth i p eb S" and "eb \<noteq> []"
  shows "hattrie_iter_continue (Suc n) H i = Ok i"
  using bucket_finished_ok [OF assms(1)] assms(2) by simp

lemma continue_ok:
  assumes inv: "hat_inv T pth M" and "iter_ok (hnodes T) pth i p [] S"
  shows "\<exists>n i'. (\<forall>m\<ge>n. hattrie_iter_continue m (hnodes T) i = Ok i') \<and> arrived T pth M (isorted i) S i'"
  using assms(2)
proof (induction "stack_weight S" arbitrary: i p S rule: less_induct)
  case less
  let ?H = "hnodes T" and ?i = "i\<lparr>ibucket := None\<rparr>"
  note drop = iter_ok_drop [OF less.prems]
  have fin: "bucket_finished ?H i = Ok True" using bucket_finished_ok [OF less.prems] by simp
  have nil: "\<not> has_nil_key i" "istack i = S" using less.prems by (simp_all add: iter_ok_def)
  show ?case
  proof (cases S)
    case Nil
    have "hattrie_iter_continue m ?H i = Ok ?i" if "m \<ge> 1" for m using that fin nil Nil by (cases m) simp_all
    moreover have "arrived T pth M (isorted i) S ?i"
      unfolding arrived_def using drop nil Nil
      by (intro exI [of _ p] exI [of _ "[]"]) (simp add: in_order_def hattrie_iter_finished_def entries_def)
    ultimately show ?thesis by blast
  next
    case (Cons e rest)
    from nextnode_ok [OF inv drop [unfolded Cons]] obtain i1 p1 eb1 where
      n1: "hattrie_iter_nextnode ?H ?i = Ok i1" "iter_ok ?H pth i1 p1 eb1 (istack i1)" "isorted i1 = isorted i"
        "turns_into T pth M (isorted i) S p1 eb1 (istack i1)" unfolding Cons by auto
    have step: "hattrie_iter_continue (Suc m) ?H i = hattrie_iter_continue m ?H i1" for m
      using fin nil Cons n1(1) by simp
    show ?thesis
    proof (cases "eb1 = []")
      case True
      have "stack_weight (istack i1) < stack_weight S" using n1(4) by (simp add: turns_into_def)
      from less.hyps [OF this n1(2) [unfolded True]] n1(3) obtain n i' where
        n: "\<forall>m\<ge>n. hattrie_iter_continue m ?H i1 = Ok i'" "arrived T pth M (isorted i) (istack i1) i'" by auto
      have "hattrie_iter_continue m ?H i = Ok i'" if "m \<ge> Suc n" for m
        using that step [of "m - 1"] n(1) by (cases m) auto
      moreover have "arrived T pth M (isorted i) S i'"
      proof -
        have "due_entries ?H pth M (istack i1) = due_entries ?H pth M S" using n1(4) True by (simp add: turns_into_def entries_def)
        moreover have "stack_weight (istack i') < stack_weight S"
          using n(2) n1(4) by (cases "istack i1 = []") (auto simp: arrived_def turns_into_def)
        ultimately show ?thesis using n(2) Cons by (auto simp: arrived_def)
      qed
      ultimately show ?thesis by blast
    next
      case False
      have "hattrie_iter_continue m ?H i = Ok i1" if "m \<ge> 2" for m
        using that step [of "m - 1"] continue_stop [OF n1(2) False, of "m - 2"] by (cases m; cases "m - 1") auto
      moreover have "arrived T pth M (isorted i) S i1"
        unfolding arrived_def using n1 False Cons by (intro exI [of _ p1] exI [of _ eb1]) (auto simp: turns_into_def)
      ultimately show ?thesis by blast
    qed
  qed
qed

section \<open>Collecting the entries\<close>

lemma grow_size_ge: "0 < n \<Longrightarrow> d \<le> grow_size n d \<and> n \<le> grow_size n d"
proof (induction n d rule: grow_size.induct)
  case (1 n d)
  then show ?case by (subst (1 2) grow_size.simps) auto
qed

lemma iter_key_ok:
  assumes i: "iter_ok H pth i p (e # eb) S"
  shows "\<exists>key. hattrie_iter_key H i = Ok (Some (p @ fst e), i\<lparr>ikey := key\<rparr>) \<and> iter_ok H pth (i\<lparr>ikey := key\<rparr>) p (e # eb) S"
proof -
  from i obtain a b it where b: "ibucket i = Some (a, it)" "fmlookup H a = Some (Bucket b)" "ahead b it (e # eb)"
    and p: "unat (ilevel i) = length p" "take (length p) (ikey i) = p" "\<forall>f\<in>set S. entry_level f \<le> Suc (length p)" "length p \<le> 32767"
      "length (fst e) \<le> 32767"
    and o: "0 < length (ikey i)" "iprefix i = []" "\<not> has_nil_key i" "stack_ok H pth (ikey i) S" by (auto simp: iter_ok_def)
  let ?k = "fst e" and ?n = "length p + length (fst e)"
  have sub: "bucket_key H i = Ok ?k" using b at.key_law [OF b(3)] by (simp add: bucket_key_def as_bucket_def some_key_def)
  have u: "unat (ilevel i + word_of_nat (length ?k)) = ?n" "unat (ilevel i + word_of_nat (length ?k) + 1) = Suc ?n"
    using p(1,4,5) by (simp_all add: unat_word_ariths unat_of_nat)
  define sz where "sz = grow_size (length (ikey i)) (Suc ?n)"
  have sz: "Suc ?n \<le> sz" "length (ikey i) \<le> sz" using grow_size_ge [OF o(1), of "Suc ?n"] by (simp_all add: sz_def)
  define k0 where "k0 = realloc_block (ikey i) sz"
  have k0: "length k0 = sz" "take (length p) k0 = p" using sz p(2) by (simp_all add: k0_def realloc_block_def)
      (metis length_take min.cobounded1 take_append diff_is_0_eq take0 append_Nil2)
  define key where "key = put_at (put_at k0 (length p) ?k) ?n [0]"
  have w1: "blk_write k0 (length p) ?k = Ok (put_at k0 (length p) ?k)" using k0(1) sz by simp
  have w2: "blk_write (put_at k0 (length p) ?k) ?n [0] = Ok key" using k0(1) sz by (simp add: key_def)
  have tk: "take ?n key = p @ ?k"
    using k0 sz take_put_at [of "length p" ?k k0] take_put_at_before [of ?n ?n "put_at k0 (length p) ?k" "[0]"] by (simp add: key_def)
  have len: "length key = sz" using k0(1) sz by (simp add: key_def)
  have run: "hattrie_iter_key H i = Ok (Some (p @ ?k), i\<lparr>ikey := key\<rparr>)"
    unfolding hattrie_iter_key_def using o b(1) sub u p(1) w1 w2 tk len sz
    by (simp add: hattrie_iter_finished_def Let_def sz_def [symmetric] k0_def [symmetric] blk_read_def)
  have tp: "take (length p) key = p" using tk by (metis append_eq_conv_conj le_add1 min.absorb1 take_take)
  with stack_ok_key [OF o(4), of "length p" key] p(2,3) have "stack_ok H pth key S" by simp
  with i tp len sz have "iter_ok H pth (i\<lparr>ikey := key\<rparr>) p (e # eb) S" by (auto simp: iter_ok_def)
  with run show ?thesis by blast
qed

lemma iter_val_ok:
  assumes "iter_ok H pth i p (e # eb) S"
  shows "\<exists>r. hattrie_iter_val H i = Ok r \<and> iter_read H i r = Ok (snd e)"
proof -
  from assms obtain a b it where b: "ibucket i = Some (a, it)" "fmlookup H a = Some (Bucket b)" "ahead b it (e # eb)"
    and o: "\<not> has_nil_key i" by (auto simp: iter_ok_def)
  from at.val_law [OF b(3)] obtain r where "ahtable_iter_val b it = Ok (Some r)" "val_read b r = Ok (snd e)" by blast
  with b o show ?thesis by (simp add: hattrie_iter_val_def hattrie_iter_finished_def as_bucket_def iter_read_def)
qed

lemma iter_next_ok:
  assumes i: "iter_ok H pth i p (e # eb) S"
  shows "\<exists>i1. iter_ok H pth i1 p eb S \<and> isorted i1 = isorted i \<and>
     (\<forall>m i2. hattrie_iter_continue (Suc m) H i1 = Ok i2 \<longrightarrow> iprefix i2 = [] \<longrightarrow> hattrie_iter_next (Suc m) H i = Ok i2)"
proof -
  from i obtain a b it where b: "ibucket i = Some (a, it)" "fmlookup H a = Some (Bucket b)" "ahead b it (e # eb)"
    by (auto simp: iter_ok_def)
  from at.next_law [OF b(3)] obtain it1 where it1: "ahtable_iter_next b it = Ok it1" "ahead b it1 eb" by blast
  let ?i = "i\<lparr>ibucket := Some (a, it1)\<rparr>"
  have "iter_ok H pth ?i p eb S" using i b it1(2) by (auto simp: iter_ok_def)
  moreover have "hattrie_iter_next (Suc m) H i = Ok i2" if "hattrie_iter_continue (Suc m) H ?i = Ok i2" "iprefix i2 = []" for m i2
    using that b it1(1) bucket_finished_ok [OF i]
    by (simp add: hattrie_iter_finished_def as_bucket_def hattrie_iter_satisfied_def del: hattrie_iter_continue.simps)
  ultimately show ?thesis by (intro exI [of _ ?i]) auto
qed

definition collected :: "hattrie \<Rightarrow> (addr \<Rightarrow> byte list) \<Rightarrow> array_t \<Rightarrow> hattrie_iter \<Rightarrow> byte list \<Rightarrow> (byte list \<times> value_t) list \<Rightarrow>
    node_entry list \<Rightarrow> bool" where
  "collected T pth M i p eb S \<longleftrightarrow> (\<exists>n es. (\<forall>m\<ge>n. hat_collect m (hnodes T) i = Ok es) \<and>
     set es = set (entries p eb) \<union> due_entries (hnodes T) pth M S \<and> distinct (map fst es) \<and> (isorted i \<longrightarrow> sorted (map fst es)))"

lemma collected_finished:
  assumes "hattrie_iter_finished i"
  shows "collected T pth M i p [] []"
proof -
  have "hat_collect m (hnodes T) i = Ok []" if "m \<ge> 1" for m using that assms by (cases m) simp_all
  then show ?thesis unfolding collected_def by (intro exI [of _ 1] exI [of _ "[]"]) (simp add: entries_def due_entries_def)
qed

text \<open>One entry and what comes after it.\<close>

lemma collected_Cons:
  assumes i: "iter_ok (hnodes T) pth i p (e # eb) S" and ord: "in_order (hnodes T) pth (isorted i) p (e # eb) S"
    and onward: "\<And>i1. iter_ok (hnodes T) pth i1 p eb S \<Longrightarrow> isorted i1 = isorted i \<Longrightarrow>
      \<exists>n i2 p2 eb2 S2. (\<forall>m\<ge>n. hattrie_iter_continue m (hnodes T) i1 = Ok i2) \<and> iprefix i2 = [] \<and> isorted i2 = isorted i \<and>
        collected T pth M i2 p2 eb2 S2 \<and>
        set (entries p2 eb2) \<union> due_entries (hnodes T) pth M S2 = set (entries p eb) \<union> due_entries (hnodes T) pth M S"
  shows "collected T pth M i p (e # eb) S"
proof -
  let ?H = "hnodes T"
  from iter_key_ok [OF i] obtain key where
    k: "hattrie_iter_key ?H i = Ok (Some (p @ fst e), i\<lparr>ikey := key\<rparr>)" "iter_ok ?H pth (i\<lparr>ikey := key\<rparr>) p (e # eb) S" by blast
  let ?i = "i\<lparr>ikey := key\<rparr>"
  from iter_val_ok [OF k(2)] obtain r where r: "hattrie_iter_val ?H ?i = Ok r" "iter_read ?H ?i r = Ok (snd e)" by blast
  from iter_next_ok [OF k(2)] obtain i1 where i1: "iter_ok ?H pth i1 p eb S" "isorted i1 = isorted i"
    "\<forall>m i2. hattrie_iter_continue (Suc m) ?H i1 = Ok i2 \<longrightarrow> iprefix i2 = [] \<longrightarrow> hattrie_iter_next (Suc m) ?H ?i = Ok i2" by auto
  from onward [OF i1(1,2)] obtain n i2 p2 eb2 S2 where n: "\<forall>m\<ge>n. hattrie_iter_continue m ?H i1 = Ok i2" "iprefix i2 = []"
    "isorted i2 = isorted i" "collected T pth M i2 p2 eb2 S2"
    "set (entries p2 eb2) \<union> due_entries ?H pth M S2 = set (entries p eb) \<union> due_entries ?H pth M S" by blast
  from n(4) obtain n' es where es: "\<forall>m\<ge>n'. hat_collect m ?H i2 = Ok es"
    "set es = set (entries p2 eb2) \<union> due_entries ?H pth M S2" "distinct (map fst es)" "isorted i2 \<longrightarrow> sorted (map fst es)"
    unfolding collected_def by blast
  have nf: "\<not> hattrie_iter_finished i" using i by (auto simp: iter_ok_def hattrie_iter_finished_def)
  have run: "hat_collect m ?H i = Ok ((p @ fst e, snd e) # es)" if m: "m \<ge> Suc (max n n')" for m
  proof -
    obtain m' where m': "m = Suc m'" "n \<le> Suc m'" "n' \<le> m'" using m by (cases m) auto
    have "hattrie_iter_next (Suc m') ?H ?i = Ok i2" using i1(3) n(1,2) m'(2) by blast
    with nf k(1) r es(1) m' show ?thesis by (simp add: some_key_def del: hattrie_iter_next.simps)
  qed
  have later: "p @ fst e \<noteq> k \<and> (isorted i \<longrightarrow> p @ fst e \<le> k)" if "(k, v) \<in> set es" for k v
  proof -
    from that es(2) n(5) have "(k, v) \<in> set (entries p eb) \<or> (k, v) \<in> due_entries ?H pth M S" by auto
    then show ?thesis
    proof
      assume "(k, v) \<in> set (entries p eb)"
      then obtain f where "f \<in> set eb" "k = p @ fst f" by (auto simp: entries_def)
      with ord show ?thesis by (auto simp: in_order_def append_le)
    next
      assume "(k, v) \<in> due_entries ?H pth M S"
      with ord have "p @ fst e < k" by (auto simp: in_order_def due_entries_def)
      then show ?thesis by auto
    qed
  qed
  have "set ((p @ fst e, snd e) # es) = set (entries p (e # eb)) \<union> due_entries ?H pth M S"
    using es(2) n(5) by (simp add: entries_def)
  moreover have "distinct (map fst ((p @ fst e, snd e) # es))" using es(3) later unfolding list.map distinct.simps by (metis (no_types, lifting) fst_conv imageE list.set_map prod.collapse)
  moreover have "isorted i \<longrightarrow> sorted (map fst ((p @ fst e, snd e) # es))" using es(4) n(3) later by auto
  ultimately show ?thesis unfolding collected_def using run by blast
qed

lemma collected_ok:
  assumes inv: "hat_inv T pth M"
  shows "iter_ok (hnodes T) pth i p eb S \<Longrightarrow> in_order (hnodes T) pth (isorted i) p eb S \<Longrightarrow>
     (eb = [] \<Longrightarrow> hattrie_iter_finished i) \<Longrightarrow> collected T pth M i p eb S"
proof (induction "stack_weight S" arbitrary: i p eb S rule: less_induct)
  case less
  note outer = less.hyps
  from less.prems show ?case
  proof (induction eb arbitrary: i)
    case Nil
    then have "S = []" by (simp add: iter_ok_def hattrie_iter_finished_def)
    with Nil collected_finished show ?case by simp
  next
    case (Cons e eb)
    let ?H = "hnodes T"
    have ord: "in_order ?H pth (isorted i) p eb S" using Cons.prems(2) by (auto simp: in_order_def)
    show ?case
    proof (rule collected_Cons [OF Cons.prems(1,2)])
      fix i1 assume i1: "iter_ok ?H pth i1 p eb S" "isorted i1 = isorted i"
      show "\<exists>n i2 p2 eb2 S2. (\<forall>m\<ge>n. hattrie_iter_continue m ?H i1 = Ok i2) \<and> iprefix i2 = [] \<and> isorted i2 = isorted i \<and>
        collected T pth M i2 p2 eb2 S2 \<and>
        set (entries p2 eb2) \<union> due_entries ?H pth M S2 = set (entries p eb) \<union> due_entries ?H pth M S"
      proof (cases "eb = []")
        case False
        have "\<forall>m\<ge>1. hattrie_iter_continue m ?H i1 = Ok i1"
          using continue_stop [OF i1(1) False] by (metis One_nat_def Suc_le_D)
        moreover have "collected T pth M i1 p eb S" using Cons.IH [OF i1(1)] ord i1(2) False by simp
        ultimately show ?thesis using i1 by (intro exI [of _ 1] exI [of _ i1] exI [of _ p] exI [of _ eb] exI [of _ S]) (simp add: iter_ok_def)
      next
        case True
        from continue_ok [OF inv i1(1) [unfolded True]] obtain n i2 where
          n: "\<forall>m\<ge>n. hattrie_iter_continue m ?H i1 = Ok i2" "arrived T pth M (isorted i) S i2" using i1(2) by auto
        from n(2) obtain p2 eb2 where a: "iter_ok ?H pth i2 p2 eb2 (istack i2)" "isorted i2 = isorted i"
          "in_order ?H pth (isorted i) p2 eb2 (istack i2)" "eb2 = [] \<longrightarrow> hattrie_iter_finished i2"
          "S \<noteq> [] \<longrightarrow> stack_weight (istack i2) < stack_weight S" "S = [] \<longrightarrow> istack i2 = []"
          "set (entries p2 eb2) \<union> due_entries ?H pth M (istack i2) = due_entries ?H pth M S" unfolding arrived_def by blast
        have "collected T pth M i2 p2 eb2 (istack i2)"
        proof (cases "S = []")
          case True
          with a(7) have "eb2 = []" by (simp add: due_entries_def entries_def)
          with True a(4,6) collected_finished show ?thesis by simp
        next
          case False
          with a show ?thesis by (intro outer) simp_all
        qed
        with n(1) a True show ?thesis
          by (intro exI [of _ n] exI [of _ i2] exI [of _ p2] exI [of _ eb2] exI [of _ "istack i2"])
            (simp add: iter_ok_def entries_def)
      qed
    qed
  qed
qed

lemma iter_begin_ok:
  assumes inv: "hat_inv T pth M"
  shows "\<exists>n i. (\<forall>m\<ge>n. hattrie_iter_begin m key0 T srt = Ok i) \<and> arrived T pth M srt [(0, 0, Some (hroot T))] i"
proof -
  let ?i = "\<lparr>ikey = take 16 (key0 @ replicate 16 0), ilevel = 0, iprefix = [], has_nil_key = False, nil_val = 0,
          isorted = srt, ibucket = None, istack = [(0, 0, Some (hroot T))]\<rparr>"
  obtain t where t: "fmlookup (hnodes T) (hroot T) = Some (Trie t)" using hat_invD(2) [OF inv] by blast
  have "iter_ok (hnodes T) pth ?i [] [] [(0, 0, Some (hroot T))]"
    using t hat_invD(1) [OF inv] by (simp add: iter_ok_def stack_ok_def entry_ok_def)
  from continue_ok [OF inv this] obtain n i where
    "\<forall>m\<ge>n. hattrie_iter_continue m (hnodes T) ?i = Ok i" "arrived T pth M srt [(0, 0, Some (hroot T))] i" by auto
  then show ?thesis by (intro exI [of _ n] exI [of _ i]) (simp add: hattrie_iter_begin_def hattrie_iter_begin_with_prefix_def)
qed

lemma hattrie_entries:
  assumes "hat_rep T M"
  obtains n i es where "\<And>m. m \<ge> n \<Longrightarrow> hattrie_iter_begin m key0 T srt = Ok i"
    "\<And>m. m \<ge> n \<Longrightarrow> hat_collect m (hnodes T) i = Ok es"
    "distinct (map fst es)" "map_of es = fmlookup M" "srt \<longrightarrow> sorted (map fst es)"
proof -
  from assms obtain pth where inv: "hat_inv T pth M" by (auto simp: hat_rep_def)
  let ?S = "[(0, 0, Some (hroot T))]"
  from iter_begin_ok [OF inv] obtain n i where n: "\<forall>m\<ge>n. hattrie_iter_begin m key0 T srt = Ok i" "arrived T pth M srt ?S i" by blast
  from n(2) obtain p eb where a: "iter_ok (hnodes T) pth i p eb (istack i)" "isorted i = srt" "in_order (hnodes T) pth srt p eb (istack i)"
    "eb = [] \<longrightarrow> hattrie_iter_finished i" "set (entries p eb) \<union> due_entries (hnodes T) pth M (istack i) = due_entries (hnodes T) pth M ?S"
    unfolding arrived_def by blast
  have "collected T pth M i p eb (istack i)" using collected_ok [OF inv a(1)] a by simp
  then obtain n' es where es: "\<forall>m\<ge>n'. hat_collect m (hnodes T) i = Ok es" "distinct (map fst es)" "srt \<longrightarrow> sorted (map fst es)"
    "set es = due_entries (hnodes T) pth M ?S" using a(2,5) unfolding collected_def by blast
  obtain t where "fmlookup (hnodes T) (hroot T) = Some (Trie t)" using hat_invD(2) [OF inv] by blast
  with hat_invD(1) [OF inv] have all: "covers (hnodes T) pth (hroot T) k" for k by (simp add: covers_def)
  have "map_of es k = fmlookup M k" for k
  proof (cases "fmlookup M k")
    case None
    with es(4) have "k \<notin> fst ` set es" by (auto simp: due_entries_def)
    with None show ?thesis by (simp add: map_of_eq_None_iff)
  next
    case (Some v)
    with es(4) all have "(k, v) \<in> set es" by (simp add: due_entries_def)
    with Some es(2) show ?thesis by simp
  qed
  then have "map_of es = fmlookup M" by auto
  with that [of "max n n'" i es] n(1) es(1-3) show ?thesis by simp
qed

section \<open>Properties\<close>

text \<open>
  C18. Iterating over a HAT-trie gives every entry of its map exactly once, with its key and value,
  and in ascending order of the keys when the iterator is a sorted one; no access leaves the
  key buffer, whatever its memory held before.
\<close>

theorem hattrie_iteration:
  assumes "hat_rep T M"
  shows "\<exists>n i es. (\<forall>m\<ge>n. hattrie_iter_begin m key0 T srt = Ok i \<and> hat_collect m (hnodes T) i = Ok es) \<and>
     distinct (map fst es) \<and> map_of es = fmlookup M \<and> (srt \<longrightarrow> sorted (map fst es))"
proof -
  obtain n i es where "\<And>m. m \<ge> n \<Longrightarrow> hattrie_iter_begin m key0 T srt = Ok i"
    "\<And>m. m \<ge> n \<Longrightarrow> hat_collect m (hnodes T) i = Ok es"
    "distinct (map fst es)" "map_of es = fmlookup M" "srt \<longrightarrow> sorted (map fst es)"
    by (rule hattrie_entries [OF assms]) blast
  then show ?thesis by (intro exI [of _ n] exI [of _ i] exI [of _ es]) simp
qed

theorem hattrie_iteration_witness:
  "\<exists>T n i es. (\<forall>m\<ge>n. hattrie_iter_begin m [] T True = Ok i \<and> hat_collect m (hnodes T) i = Ok es) \<and>
     map_of es [97, 0] = Some 7 \<and> sorted (map fst es)"
proof -
  have "hat_rep hattrie_create array_new" using hattrie_create_inv by (auto simp: hat_rep_def)
  from hat.run_refines [OF this, of "[A_Set [97, 0] 7]"] obtain T where T: "hat_rep T (fmupd [97, 0] 7 array_new)"
    by (auto simp: good_key_def array_set_def)
  from hattrie_iteration [OF T, of "[]" True] show ?thesis by (metis fmupd_lookup)
qed

section \<open>Copying an array\<close>

text \<open>
  The macro \<open>array_dup\<close> of \<open>src/assoc_array_impl_hattrie.h\<close>: iterate over one trie and store every
  entry in a new one.
\<close>

definition array_set_trie :: "hattrie \<Rightarrow> byte list \<Rightarrow> value_t \<Rightarrow> hattrie res" where
  "array_set_trie B k v = res_bind (hattrie_get B k (length k)) (\<lambda>(r, B1). href_write B1 r v)"

fun dup_loop :: "nat \<Rightarrow> hnode heap \<Rightarrow> hattrie_iter \<Rightarrow> hattrie \<Rightarrow> hattrie res" where
  "dup_loop 0 H i B = Fault Diverges"
| "dup_loop (Suc fuel) H i B =
     (if hattrie_iter_finished i then Ok B
      else res_bind (hattrie_iter_key H i) (\<lambda>(k, i1).
           res_bind (some_key k) (\<lambda>key.
           res_bind (hattrie_iter_val H i1) (\<lambda>r.
           res_bind (iter_read H i1 r) (\<lambda>v.
           res_bind (array_set_trie B key v) (\<lambda>B1.
           res_bind (hattrie_iter_next (Suc fuel) H i1) (\<lambda>i2. dup_loop fuel H i2 B1)))))))"

definition array_dup_trie :: "nat \<Rightarrow> block \<Rightarrow> hattrie \<Rightarrow> hattrie res" where
  "array_dup_trie fuel key0 A =
     res_bind (hattrie_iter_begin fuel key0 A False) (\<lambda>i. dup_loop fuel (hnodes A) i hattrie_create)"

primrec set_all :: "(byte list \<times> value_t) list \<Rightarrow> hattrie \<Rightarrow> hattrie res" where
  "set_all [] B = Ok B"
| "set_all (e # es) B = res_bind (array_set_trie B (fst e) (snd e)) (set_all es)"

lemma array_set_trie_rep:
  assumes "hat_rep B N" and "good_key k"
  shows "\<exists>B'. array_set_trie B k v = Ok B' \<and> hat_rep B' (array_set N k v)"
proof -
  from hattrie_get_rep [OF assms] obtain r B1 where g: "hattrie_get B k (length k) = Ok (r, B1)"
    "hat_pointer B1 (snd (array_get N k)) k r" by (auto simp: got_def)
  have "array_set (snd (array_get N k)) k v = array_set N k v" by (auto simp: array_get_def array_set_def split: option.splits)
  moreover from g(2) obtain B' where "href_write B1 r v = Ok B'" "hat_rep B' (array_set (snd (array_get N k)) k v)"
    unfolding hat_pointer_def by metis
  ultimately show ?thesis using g(1) by (simp add: array_set_trie_def)
qed

lemma set_all_rep:
  assumes "\<forall>e\<in>set es. good_key (fst e)" and "hat_rep B N"
  shows "\<exists>B'. set_all es B = Ok B' \<and> hat_rep B' (fold (\<lambda>e N. array_set N (fst e) (snd e)) es N)"
  using assms
proof (induction es arbitrary: B N)
  case (Cons e es)
  from array_set_trie_rep [OF Cons.prems(2), of "fst e" "snd e"] Cons.prems(1) obtain B1 where
    "array_set_trie B (fst e) (snd e) = Ok B1" "hat_rep B1 (array_set N (fst e) (snd e))" by auto
  with Cons.IH [of B1] Cons.prems(1) show ?case by auto
qed simp

text \<open>The loop stores what the client's loop over the same iterator collects.\<close>

lemma dup_loop_set_all: "hat_collect m H i = Ok es \<Longrightarrow> dup_loop m H i B = set_all es B"
proof (induction m arbitrary: i es B)
  case (Suc m)
  show ?case
  proof (cases "hattrie_iter_finished i")
    case False
    with Suc.prems obtain k i1 key r v i2 es' where s: "hattrie_iter_key H i = Ok (k, i1)" "some_key k = Ok key"
      "hattrie_iter_val H i1 = Ok r" "iter_read H i1 r = Ok v" "hattrie_iter_next (Suc m) H i1 = Ok i2"
      "hat_collect m H i2 = Ok es'" "es = (key, v) # es'"
      by (auto simp: res_simps simp del: hattrie_iter_next.simps)
    with False Suc.IH [OF s(6)] show ?thesis by (simp del: hattrie_iter_next.simps)
  qed (use Suc.prems in auto)
qed simp

text \<open>
  C20. Copying an array with the \<open>array_dup\<close> macro yields, given enough iterations, a trie of its own
  that stands for the same map: the iterator over the old trie and the insertions into the new
  one, with all the splitting they do, fit together.
\<close>

theorem hattrie_dup_is_copy:
  assumes "hat_rep A M"
  shows "\<exists>n B. (\<forall>m\<ge>n. array_dup_trie m key0 A = Ok B) \<and> hat_rep B M"
proof -
  obtain n i es where n: "\<And>m. m \<ge> n \<Longrightarrow> hattrie_iter_begin m key0 A False = Ok i"
    "\<And>m. m \<ge> n \<Longrightarrow> hat_collect m (hnodes A) i = Ok es" "distinct (map fst es)" "map_of es = fmlookup M"
    by (rule hattrie_entries [OF assms]) blast
  have "good_key (fst e)" if "e \<in> set es" for e
  proof -
    have "fmlookup M (fst e) = Some (snd e)" using map_of_is_SomeI [OF n(3), of "fst e" "snd e"] that n(4) by simp
    with assms show ?thesis unfolding hat_rep_def by (metis fmdomI hat_invD(7))
  qed
  then have good: "\<forall>e\<in>set es. good_key (fst e)" by blast
  have new: "hat_rep hattrie_create array_new" using hattrie_create_inv by (auto simp: hat_rep_def)
  have same: "fold (\<lambda>e N. array_set N (fst e) (snd e)) es array_new = M"
  proof -
    have "fold (\<lambda>e N. array_set N (fst e) (snd e)) es array_new = array_dup es"
      by (simp add: array_dup_def case_prod_unfold)
    with array_dup_same [OF n(3,4)] show ?thesis by simp
  qed
  from set_all_rep [OF good new] obtain B where B: "set_all es hattrie_create = Ok B" "hat_rep B M" using same by auto
  have "array_dup_trie m key0 A = Ok B" if "m \<ge> n" for m
    using n(1,2) [OF that] dup_loop_set_all B(1) by (simp add: array_dup_trie_def)
  with B(2) show ?thesis by blast
qed

theorem hattrie_dup_is_copy_witness:
  "\<exists>A B n. (\<forall>m\<ge>n. array_dup_trie m [] A = Ok B) \<and> hat_rep A (fmupd [97, 0] 7 array_new) \<and> hat_rep B (fmupd [97, 0] 7 array_new)"
proof -
  have "hat_rep hattrie_create array_new" using hattrie_create_inv by (auto simp: hat_rep_def)
  from hat.run_refines [OF this, of "[A_Set [97, 0] 7]"] obtain A where A: "hat_rep A (fmupd [97, 0] 7 array_new)"
    by (auto simp: good_key_def array_set_def)
  from hattrie_dup_is_copy [OF A, of "[]"] A show ?thesis by blast
qed

section \<open>A prefix that ends at a trie node\<close>

lemma consume_walk:
  assumes flags: "\<forall>a t. fmlookup H a = Some (Trie t) \<longrightarrow> nflag t = NODE_TYPE_TRIE"
  shows "walk H p ds = Some q \<Longrightarrow> ds \<noteq> [] \<Longrightarrow> buf = u @ ds \<Longrightarrow>
     \<exists>p'. hattrie_consume H 1 buf p (length u) (length ds) = Ok (p', q, length buf - 1, 1)"
proof (induction ds arbitrary: u p)
  case (Cons c ds)
  from Cons.prems(1) obtain t where t: "fmlookup H p = Some (Trie t)" "walk H (nxs t ! unat c) ds = Some q"
    by (auto split: option.splits hnode.splits)
  from t(2) obtain t1 where t1: "fmlookup H (nxs t ! unat c) = Some (Trie t1)"
    by (cases ds) (auto split: option.splits hnode.splits)
  have "blk_read buf (length u) 1 = Ok [c]" using Cons.prems(3) by (simp add: blk_read_def)
  then have child: "child_at H p buf (length u) = Ok (nxs t ! unat c)" using t(1) by (simp add: child_at_def as_trie_def)
  have trie: "has_flag (Trie t1) NODE_TYPE_TRIE" using flags t1 by simp
  show ?case
  proof (cases "ds = []")
    case True
    with t(2) t1 have "q = nxs t ! unat c" by simp
    with child t1 trie True Cons.prems(3) show ?thesis by (subst hattrie_consume.simps) simp
  next
    case False
    with Cons.IH [OF t(2) False, of "u @ [c]"] Cons.prems(3) child t1 trie show ?thesis
      by (subst hattrie_consume.simps) simp
  qed
qed simp

text \<open>
  An iterator with a prefix of at least two bytes that leads to a trie node dereferences NULL, when
  the node has no value: \<open>hattrie_find\<close> gives NULL for such a node and
  \<open>hattrie_iter_begin_with_prefix\<close> starts from it.
\<close>

theorem hattrie_iter_prefix_null:
  assumes "\<forall>a t. fmlookup (hnodes T) a = Some (Trie t) \<longrightarrow> nflag t = NODE_TYPE_TRIE"
    and "walk (hnodes T) (hroot T) prefix = Some p" and "2 \<le> length prefix"
  shows "hattrie_iter_begin_with_prefix (Suc fuel) key0 T srt prefix = Fault NullDeref"
proof -
  have ne: "prefix \<noteq> []" using assms(3) by auto
  from consume_walk [OF assms(1,2) ne, of prefix "[]"] obtain p' where
    c: "hattrie_consume (hnodes T) 1 prefix (hroot T) 0 (length prefix) = Ok (p', p, length prefix - 1, 1)" by auto
  obtain tr where root: "fmlookup (hnodes T) (hroot T) = Some (Trie tr)"
    using assms(2) ne by (cases prefix) (auto split: option.splits hnode.splits)
  obtain t where t: "fmlookup (hnodes T) p = Some (Trie t)" using walk_trie [OF assms(2)] by blast
  have f: "nflag tr = NODE_TYPE_TRIE" "nflag t = NODE_TYPE_TRIE" using assms(1) root t by auto
  have "hattrie_find T prefix (length prefix) = Ok (NULL, length prefix - 1, 1)"
    using c root t f ne by (simp add: hattrie_find_def)
  moreover have "blk_read prefix (length prefix - 1) 1 = Ok [last prefix]"
    using ne blk_read_at [of "length prefix - 1" "butlast prefix" 1 "[last prefix]" "[]"] by simp
  ultimately show ?thesis using assms(3) ne
    by (simp add: hattrie_iter_begin_with_prefix_def Let_def bucket_finished_def hattrie_iter_nextnode_def deref_def)
qed

theorem hattrie_iter_prefix_null_witness:
  "hattrie_iter_begin_with_prefix 1 [] deep_trie False [97, 98] = Fault NullDeref"
proof -
  have "\<forall>a t. fmlookup (hnodes deep_trie) a = Some (Trie t) \<longrightarrow> nflag t = NODE_TYPE_TRIE"
    by (auto simp: deep_trie_def alloc_trie_node_def)
  moreover have "walk (hnodes deep_trie) (hroot deep_trie) [97, 98] = Some 2"
    by (simp add: deep_trie_def alloc_trie_node_def NODE_CHILDS_def)
  ultimately show ?thesis using hattrie_iter_prefix_null [of deep_trie "[97, 98]" 2 0 "[]" False] by simp
qed

end
