(* ===== verification/Hattrie_Free.thy ===== *)
theory Hattrie_Free
  imports Hattrie_Iter
begin

text \<open>
  The walks over all nodes of a HAT-trie (\<open>src/lib/hat-trie/src/hat-trie.c\<close>): \<open>node_sizeof\<close>,
  \<open>hattrie_free_node\<close> and the operations built on them. Both recurse into every child of a trie
  node and skip a child that is the same pointer as the one before. The recursion is bounded by
  fuel; since a path has fewer than 32767 bytes, a fuel of 32768 is enough.
\<close>

section \<open>The operations\<close>

text \<open>\<open>sizeof(trie_node_t)\<close> is 2064 on a 64-bit machine, \<open>sizeof(hattrie_t)\<close> is 16.\<close>

definition sizeof_trie_node :: u64 where "sizeof_trie_node = 2064"
definition sizeof_hattrie :: u64 where "sizeof_hattrie = 16"

primrec node_sizeof :: "nat \<Rightarrow> hnode heap \<Rightarrow> addr \<Rightarrow> u64 res" where
  "node_sizeof 0 H a = Fault Diverges"
| "node_sizeof (Suc fuel) H a = res_bind (deref H (Some a)) (\<lambda>n.
     case n of
       Trie t \<Rightarrow> res_bind (node_sizeof fuel H (nxs t ! 0)) (\<lambda>s0.
         res_fold (\<lambda>i nbytes. if nxs t ! i \<noteq> nxs t ! (i - 1)
             then res_bind (node_sizeof fuel H (nxs t ! i)) (\<lambda>s. Ok (nbytes + s)) else Ok nbytes)
           [1..<NODE_CHILDS] (sizeof_trie_node + s0))
     | Bucket b \<Rightarrow> Ok (word_of_nat (ahtable_sizeof b)))"

definition hattrie_sizeof :: "nat \<Rightarrow> hattrie \<Rightarrow> u64 res" where
  "hattrie_sizeof fuel T = res_bind (node_sizeof fuel (hnodes T) (hroot T)) (\<lambda>s. Ok (sizeof_hattrie + s))"

primrec hattrie_free_node :: "nat \<Rightarrow> hnode heap \<Rightarrow> addr \<Rightarrow> hnode heap res" where
  "hattrie_free_node 0 H a = Fault Diverges"
| "hattrie_free_node (Suc fuel) H a = res_bind (deref H (Some a)) (\<lambda>n.
     case n of
       Trie _ \<Rightarrow> res_bind (res_fold (\<lambda>i H1. res_bind (as_trie H1 a) (\<lambda>t.
             if i > 0 \<and> nxs t ! i = nxs t ! (i - 1) then Ok H1 else hattrie_free_node fuel H1 (nxs t ! i)))
           [0..<NODE_CHILDS] H) (\<lambda>H1. heap_free H1 (Some a))
     | Bucket b \<Rightarrow> heap_free H (Some a))"

text \<open>\<open>hattrie_free\<close> gives the nodes that are still allocated.\<close>

definition hattrie_free :: "nat \<Rightarrow> hattrie \<Rightarrow> hnode heap res" where
  "hattrie_free fuel T = hattrie_free_node fuel (hnodes T) (hroot T)"

definition hattrie_clear :: "nat \<Rightarrow> hattrie \<Rightarrow> hattrie res" where
  "hattrie_clear fuel T =
     res_bind (hattrie_free_node fuel (hnodes T) (hroot T)) (\<lambda>H.
       (let b = fresh_addr H; H1 = fmupd b (Bucket new_hybrid) H; r = fresh_addr H1 in
        Ok (T\<lparr>hroot := r, hnodes := fmupd r (Trie (alloc_trie_node b)) H1\<rparr>)))"

section \<open>The nodes below a node\<close>

definition below :: "hnode heap \<Rightarrow> (addr \<Rightarrow> byte list) \<Rightarrow> addr \<Rightarrow> addr set" where
  "below H pth x = (case fmlookup H x of
       Some (Trie t) \<Rightarrow> {y. y |\<in>| fmdom H \<and> (\<exists>cs. pth y = pth x @ cs)}
     | _ \<Rightarrow> {x})"

definition below_some :: "hnode heap \<Rightarrow> (addr \<Rightarrow> byte list) \<Rightarrow> addr list \<Rightarrow> nat list \<Rightarrow> addr set" where
  "below_some H pth xs js = (\<Union>j\<in>set js. below H pth (xs ! j))"

lemma below_trie: "fmlookup H x = Some (Trie t) \<Longrightarrow> y \<in> below H pth x \<longleftrightarrow> y |\<in>| fmdom H \<and> (\<exists>cs. pth y = pth x @ cs)"
  by (simp add: below_def)

lemma below_bucket: "fmlookup H x = Some (Bucket b) \<Longrightarrow> below H pth x = {x}"
  by (simp add: below_def)

lemma below_finite: "finite (below H pth x)"
proof (cases "\<exists>t. fmlookup H x = Some (Trie t)")
  case True
  then have "below H pth x \<subseteq> fset (fmdom H)" by (auto simp: below_trie)
  then show ?thesis by (rule finite_subset) simp
next
  case False
  then show ?thesis by (auto simp: below_def split: option.split hnode.split)
qed


lemma byte_index: "\<exists>c :: byte. unat c = i" if "i < 256" for i
  using unat_small [OF that] by blast

lemma below_path:
  assumes inv: "hat_inv T pth M" and x: "fmlookup (hnodes T) x = Some (Trie t)" and y: "y |\<in>| fmdom (hnodes T)"
    and p: "pth y = pth x @ cs" and ne: "y \<noteq> x"
  shows "\<exists>c :: byte. y \<in> below (hnodes T) pth (nxs t ! unat c)"
proof -
  let ?H = "hnodes T"
  have wx: "walk ?H (hroot T) (pth x) = Some x" by (rule hat_invD(4) [OF inv x])
  have kid: "child_ok ?H pth (pth x) (nxs t) c" for c using hat_invD(3) [OF inv x] by (simp add: trie_ok_def)
  have down: "y \<in> below ?H pth (nxs t ! unat c)" if w: "walk ?H (nxs t ! unat c) cs' = Some q" and cs: "cs = c # cs'" for c cs' q
  proof -
    obtain t' where t': "fmlookup ?H (nxs t ! unat c) = Some (Trie t')"
      using w by (cases cs') (auto split: option.splits hnode.splits)
    with child_ok_Trie [OF kid t'] y p cs show ?thesis by (simp add: below_trie)
  qed
  from y obtain n where "fmlookup ?H y = Some n" by (meson fmdomE)
  then consider (trie) t' where "fmlookup ?H y = Some (Trie t')" | (bucket) b where "fmlookup ?H y = Some (Bucket b)"
    by (cases n) auto
  then show ?thesis
  proof cases
    case trie
    from hat_invD(4) [OF inv trie] p wx x have "walk ?H x cs = Some y" by (simp add: walk_append)
    with x ne down show ?thesis by (cases cs) auto
  next
    case bucket
    from hat_invD(6) [OF inv bucket] obtain q tq where q: "walk ?H (hroot T) (pth y) = Some q"
      "fmlookup ?H q = Some (Trie tq)" "nxs tq ! unat (tc0 b) = y" by (auto simp: parent_ok_def)
    from q(1) p wx have w: "walk ?H x cs = Some q" by (simp add: walk_append)
    show ?thesis
    proof (cases cs)
      case Nil
      with w x q have "nxs t ! unat (tc0 b) = y" by simp
      with below_bucket [OF bucket] show ?thesis by blast
    next
      case (Cons c cs')
      with w x down show ?thesis by auto
    qed
  qed
qed

lemma below_child:
  fixes c :: byte
  assumes inv: "hat_inv T pth M" and x: "fmlookup (hnodes T) x = Some (Trie t)"
    and y: "y \<in> below (hnodes T) pth (nxs t ! unat c)"
  shows "y \<in> below (hnodes T) pth x \<and> y \<noteq> x \<and>
     (y = nxs t ! unat c \<and> pth y = pth x \<and> (\<exists>b. fmlookup (hnodes T) y = Some (Bucket b)) \<or> (\<exists>cs. pth y = pth x @ c # cs))"
proof -
  let ?H = "hnodes T" and ?z = "nxs t ! unat c"
  have kid: "child_ok ?H pth (pth x) (nxs t) c" using hat_invD(3) [OF inv x] by (simp add: trie_ok_def)
  show ?thesis
  proof (cases "fmlookup ?H ?z")
    case None
    with kid show ?thesis by (simp add: child_ok_def)
  next
    case (Some n)
    show ?thesis
    proof (cases n)
      case (Trie t')
      with Some kid y show ?thesis using x by (auto simp: below_trie child_ok_Trie)
    next
      case (Bucket b)
      with Some have b: "fmlookup ?H ?z = Some (Bucket b)" by simp
      with y have "y = ?z" by (simp add: below_bucket)
      with b child_ok_Bucket(1) [OF kid b] x show ?thesis by (auto simp: below_trie intro: fmdomI)
    qed
  qed
qed

lemma below_disjoint:
  fixes c d :: byte
  assumes inv: "hat_inv T pth M" and x: "fmlookup (hnodes T) x = Some (Trie t)" and ne: "nxs t ! unat c \<noteq> nxs t ! unat d"
  shows "below (hnodes T) pth (nxs t ! unat c) \<inter> below (hnodes T) pth (nxs t ! unat d) = {}"
proof -
  have "c = d \<or> nxs t ! unat c = nxs t ! unat d" if "y \<in> below (hnodes T) pth (nxs t ! unat c)" "y \<in> below (hnodes T) pth (nxs t ! unat d)" for y
    using below_child [OF inv x that(1)] below_child [OF inv x that(2)] by auto
  with ne show ?thesis by blast
qed

lemma below_all:
  assumes inv: "hat_inv T pth M" and x: "fmlookup (hnodes T) x = Some (Trie t)"
  shows "below (hnodes T) pth x = insert x (below_some (hnodes T) pth (nxs t) [0..<NODE_CHILDS])"
    and "x \<notin> below_some (hnodes T) pth (nxs t) [0..<NODE_CHILDS]"
proof -
  let ?H = "hnodes T"
  have U: "below_some ?H pth (nxs t) [0..<NODE_CHILDS] = (\<Union>c. below ?H pth (nxs t ! unat (c :: byte)))"
  proof -
    have "x \<in> range (unat :: byte \<Rightarrow> nat)" if "x < 256" for x using byte_index [OF that] by (metis rangeI)
    then have "{0..<256} = range (unat :: byte \<Rightarrow> nat)" using unsigned_less [where 'a = nat and 'b = 8] by auto
    then show ?thesis by (auto simp: below_some_def max_byte)
  qed
  show "x \<notin> below_some ?H pth (nxs t) [0..<NODE_CHILDS]" using below_child [OF inv x] by (auto simp: U)
  have "x \<in> below ?H pth x" using x by (auto simp: below_trie intro: fmdomI)
  moreover have "below ?H pth x \<subseteq> insert x (\<Union>c. below ?H pth (nxs t ! unat (c :: byte)))"
  proof
    fix y assume "y \<in> below ?H pth x"
    then obtain cs where "y |\<in>| fmdom ?H" "pth y = pth x @ cs" using x by (auto simp: below_trie)
    from below_path [OF inv x this] show "y \<in> insert x (\<Union>c. below ?H pth (nxs t ! unat (c :: byte)))" by blast
  qed
  moreover have "(\<Union>c. below ?H pth (nxs t ! unat (c :: byte))) \<subseteq> below ?H pth x" using below_child [OF inv x] by blast
  ultimately show "below ?H pth x = insert x (below_some ?H pth (nxs t) [0..<NODE_CHILDS])" unfolding U by blast
qed

text \<open>The child at an index is either the one before or has nothing in common with the earlier ones.\<close>

lemma below_step:
  assumes inv: "hat_inv T pth M" and x: "fmlookup (hnodes T) x = Some (Trie t)" and i: "i < NODE_CHILDS"
  shows "i > 0 \<and> nxs t ! i = nxs t ! (i - 1) \<Longrightarrow> below (hnodes T) pth (nxs t ! i) \<subseteq> below_some (hnodes T) pth (nxs t) [0..<i]"
    and "\<not> (i > 0 \<and> nxs t ! i = nxs t ! (i - 1)) \<Longrightarrow> below (hnodes T) pth (nxs t ! i) \<inter> below_some (hnodes T) pth (nxs t) [0..<i] = {}"
proof -
  show "below (hnodes T) pth (nxs t ! i) \<subseteq> below_some (hnodes T) pth (nxs t) [0..<i]" if "i > 0 \<and> nxs t ! i = nxs t ! (i - 1)"
    using that by (auto simp: below_some_def intro!: bexI [of _ "i - 1"])
  assume new: "\<not> (i > 0 \<and> nxs t ! i = nxs t ! (i - 1))"
  have "below (hnodes T) pth (nxs t ! i) \<inter> below (hnodes T) pth (nxs t ! j) = {}" if j: "j < i" for j
  proof -
    have "i < 256" "j < 256" "i - 1 < 256" using i j by (auto simp: max_byte)
    then obtain c d e :: byte where c: "unat c = i" "unat d = j" "unat e = i - 1" using byte_index by metis
    have kid: "\<And>c. child_ok (hnodes T) pth (pth x) (nxs t) c" using hat_invD(3) [OF inv x] by (simp add: trie_ok_def)
    have "nxs t ! unat d \<noteq> nxs t ! unat c"
    proof
      assume "nxs t ! unat d = nxs t ! unat c"
      from child_run [OF kid this, of e] c j have "nxs t ! (i - 1) = nxs t ! i" by (simp add: word_le_nat_alt)
      with new j show False by auto
    qed
    with below_disjoint [OF inv x, of c d] c show ?thesis by auto
  qed
  then show "below (hnodes T) pth (nxs t ! i) \<inter> below_some (hnodes T) pth (nxs t) [0..<i] = {}"
    unfolding below_some_def by fastforce
qed

lemma upt_split:
  assumes "[a..<n] = ys @ i # zs"
  shows "ys = [a..<i]" and "a \<le> i" and "i < n"
proof -
  have "i \<in> set [a..<n]" unfolding assms by simp
  then show i: "a \<le> i" "i < n" by auto
  have "length ys = i - a"
  proof -
    have "length ys < n - a" using arg_cong [OF assms, of length] by simp
    then have "[a..<n] ! length ys = a + length ys" by simp
    moreover have "[a..<n] ! length ys = i" unfolding assms by simp
    ultimately show ?thesis using i by simp
  qed
  then have "ys = take (i - a) [a..<n]" unfolding assms by simp
  also have "\<dots> = [a..<i]" using i by (simp add: take_upt)
  finally show "ys = [a..<i]" .
qed

lemma below_some_Suc: "a \<le> i \<Longrightarrow> below_some H pth xs [a..<Suc i] = below_some H pth xs [a..<i] \<union> below H pth (xs ! i)"
  by (auto simp: below_some_def less_Suc_eq)

text \<open>The fuel that a node needs.\<close>

definition enough :: "hnode heap \<Rightarrow> (addr \<Rightarrow> byte list) \<Rightarrow> nat \<Rightarrow> addr \<Rightarrow> bool" where
  "enough H pth m x \<longleftrightarrow> (case fmlookup H x of None \<Rightarrow> False
     | Some (Trie t) \<Rightarrow> 32768 \<le> m + length (pth x) | Some (Bucket b) \<Rightarrow> 1 \<le> m)"

lemma enough_child:
  assumes inv: "hat_inv T pth M" and x: "fmlookup (hnodes T) x = Some (Trie t)" and m: "enough (hnodes T) pth (Suc m) x"
    and i: "i < NODE_CHILDS"
  shows "enough (hnodes T) pth m (nxs t ! i)"
proof -
  obtain c :: byte where c: "unat c = i" using byte_index i by (auto simp: max_byte)
  have kid: "child_ok (hnodes T) pth (pth x) (nxs t) c" and len: "length (pth x) < 32767"
    using hat_invD(3) [OF inv x] by (simp_all add: trie_ok_def)
  have Sm: "32768 \<le> Suc m + length (pth x)" using m x by (simp add: enough_def)
  show ?thesis
  proof (cases "fmlookup (hnodes T) (nxs t ! unat c)")
    case None
    with kid show ?thesis by (simp add: child_ok_def)
  next
    case (Some n)
    show ?thesis
    proof (cases n)
      case (Trie t')
      with child_ok_Trie [OF kid] Some Sm c show ?thesis by (simp add: enough_def)
    next
      case (Bucket b)
      with Some Sm len c show ?thesis by (simp add: enough_def)
    qed
  qed
qed

lemma enough_0: "hat_inv T pth M \<Longrightarrow> \<not> enough (hnodes T) pth 0 x"
  using hat_invD(3) [of T pth M x] by (fastforce simp: enough_def trie_ok_def split: option.splits hnode.splits)

section \<open>Freeing\<close>

abbreviation without :: "addr set \<Rightarrow> hnode heap \<Rightarrow> hnode heap" where
  "without R H \<equiv> fmfilter (\<lambda>y. y \<notin> R) H"

lemma free_children:
  assumes inv: "hat_inv T pth M" and trie: "fmlookup (hnodes T) x = Some (Trie t)"
    and R: "R \<inter> below (hnodes T) pth x = {}"
    and free: "\<And>i R. i < NODE_CHILDS \<Longrightarrow> R \<inter> below (hnodes T) pth (nxs t ! i) = {} \<Longrightarrow>
      free (without R (hnodes T)) (nxs t ! i) = Ok (without (R \<union> below (hnodes T) pth (nxs t ! i)) (hnodes T))"
  shows "res_fold (\<lambda>i H1. res_bind (as_trie H1 x) (\<lambda>t. if i > 0 \<and> nxs t ! i = nxs t ! (i - 1) then Ok H1 else free H1 (nxs t ! i)))
      [0..<NODE_CHILDS] (without R (hnodes T)) = Ok (without (R \<union> below_some (hnodes T) pth (nxs t) [0..<NODE_CHILDS]) (hnodes T))"
    (is "res_fold ?g ?js _ = _")
proof -
  let ?H = "hnodes T"
  let ?B = "below_some ?H pth (nxs t)"
  note all = below_all [OF inv trie]
  have x: "x \<notin> R" "R \<inter> ?B ?js = {}" using all R by auto
  have "\<exists>H'. res_fold ?g ?js (without R ?H) = Ok H' \<and> H' = without (R \<union> ?B ?js) ?H"
  proof (rule res_fold_inv [where I = "\<lambda>js H'. H' = without (R \<union> ?B js) ?H"])
    show "without R ?H = without (R \<union> ?B []) ?H" by (simp add: below_some_def)
    fix ys i zs H1 assume s: "?js = ys @ i # zs" and H1: "H1 = without (R \<union> ?B ys) ?H"
    note i = upt_split [OF s]
    have sub: "?B ys \<subseteq> ?B ?js" "below ?H pth (nxs t ! i) \<subseteq> ?B ?js" using i by (force simp: below_some_def)+
    have step: "?B (ys @ [i]) = ?B ys \<union> below ?H pth (nxs t ! i)" by (auto simp: below_some_def)
    have "as_trie H1 x = Ok t" using x all(2) sub trie by (auto simp: H1 as_trie_def deref_def)
    moreover have "free H1 (nxs t ! i) = Ok (without (R \<union> ?B (ys @ [i])) ?H)" if "\<not> (i > 0 \<and> nxs t ! i = nxs t ! (i - 1))"
    proof -
      have "(R \<union> ?B ys) \<inter> below ?H pth (nxs t ! i) = {}" using below_step(2) [OF inv trie i(3) that] x(2) sub i(1) by auto
      with free [OF i(3), of "R \<union> ?B ys"] show ?thesis by (simp only: H1 step Un_assoc)
    qed
    moreover have "H1 = without (R \<union> ?B (ys @ [i])) ?H" if "i > 0 \<and> nxs t ! i = nxs t ! (i - 1)"
      using below_step(1) [OF inv trie i(3) that] unfolding H1 step i(1) [symmetric] by (simp add: Un_absorb2)
    ultimately show "\<exists>b'. ?g i H1 = Ok b' \<and> b' = without (R \<union> ?B (ys @ [i])) ?H" by auto
  qed
  then show ?thesis by blast
qed

lemma free_last:
  assumes "fmlookup H x = Some n" and "x \<notin> S"
  shows "heap_free (without S H) (Some x) = Ok (without (insert x S) H)"
proof -
  have "x |\<in>| fmdom (without S H)" using assms by (intro fmdomI) auto
  moreover have "fmdrop x (without S H) = without (insert x S) H" by (rule fmap_ext) auto
  ultimately show ?thesis by (simp add: heap_free_def)
qed

lemma free_node_ok:
  assumes inv: "hat_inv T pth M"
  shows "enough (hnodes T) pth m x \<Longrightarrow> R \<inter> below (hnodes T) pth x = {} \<Longrightarrow>
     hattrie_free_node m (without R (hnodes T)) x = Ok (without (R \<union> below (hnodes T) pth x) (hnodes T))"
proof (induction m arbitrary: R x)
  case 0
  then show ?case using enough_0 [OF inv] by blast
next
  case (Suc m)
  from Suc.prems(1) consider (trie) t where "fmlookup (hnodes T) x = Some (Trie t)" | (bucket) b where "fmlookup (hnodes T) x = Some (Bucket b)"
    by (auto simp: enough_def split: option.splits hnode.splits)
  then show ?case
  proof cases
    case bucket
    with Suc.prems(2) free_last [OF bucket, of R] show ?thesis by (simp add: deref_def below_bucket)
  next
    case trie
    note all = below_all [OF inv trie]
    with Suc.prems(2) have x: "x \<notin> R" by auto
    from free_children [OF inv trie Suc.prems(2) Suc.IH [OF enough_child [OF inv trie Suc.prems(1)]]]
      free_last [OF trie, of "R \<union> below_some (hnodes T) pth (nxs t) [0..<NODE_CHILDS]"] trie x all
    show ?thesis by (simp add: deref_def)
  qed
qed

lemma below_root:
  assumes "hat_inv T pth M"
  shows "below (hnodes T) pth (hroot T) = fset (fmdom (hnodes T))" and "m \<ge> 32768 \<Longrightarrow> enough (hnodes T) pth m (hroot T)"
  using hat_invD(1,2) [OF assms] by (auto simp: below_def enough_def)

lemma free_root:
  assumes "hat_rep T M" and "m \<ge> 32768"
  shows "hattrie_free_node m (hnodes T) (hroot T) = Ok fmempty"
proof -
  from assms(1) obtain pth where inv: "hat_inv T pth M" by (auto simp: hat_rep_def)
  have "without {} (hnodes T) = hnodes T" by (rule fmap_ext) simp
  moreover have "without ({} \<union> fset (fmdom (hnodes T))) (hnodes T) = fmempty"
    by (rule fmap_ext) (auto dest: fmdom_notD)
  ultimately show ?thesis using free_node_ok [OF inv below_root(2) [OF inv assms(2)], of "{}"] below_root(1) [OF inv] by simp
qed

section \<open>Counting bytes\<close>

definition node_bytes :: "hnode heap \<Rightarrow> addr \<Rightarrow> u64" where
  "node_bytes H y = (case fmlookup H y of Some (Bucket b) \<Rightarrow> word_of_nat (ahtable_sizeof b) | _ \<Rightarrow> sizeof_trie_node)"

lemma node_sizeof_ok:
  assumes inv: "hat_inv T pth M"
  shows "enough (hnodes T) pth m x \<Longrightarrow> node_sizeof m (hnodes T) x = Ok (\<Sum>y\<in>below (hnodes T) pth x. node_bytes (hnodes T) y)"
proof (induction m arbitrary: x)
  case 0
  then show ?case using enough_0 [OF inv] by blast
next
  case (Suc m)
  let ?H = "hnodes T"
  from Suc.prems consider (trie) t where "fmlookup ?H x = Some (Trie t)" | (bucket) b where "fmlookup ?H x = Some (Bucket b)"
    by (auto simp: enough_def split: option.splits hnode.splits)
  then show ?case
  proof cases
    case bucket
    then show ?thesis by (simp add: deref_def below_bucket node_bytes_def)
  next
    case trie
    let ?B = "below_some ?H pth (nxs t)"
    let ?S = "\<lambda>A. \<Sum>y\<in>A. node_bytes ?H y"
    note kid = Suc.IH [OF enough_child [OF inv trie Suc.prems]]
    have fin: "finite (?B js)" for js by (simp add: below_some_def below_finite)
    let ?g = "\<lambda>i nbytes. if nxs t ! i \<noteq> nxs t ! (i - 1)
             then res_bind (node_sizeof m ?H (nxs t ! i)) (\<lambda>s. Ok (nbytes + s)) else Ok nbytes"
    have "\<exists>s'. res_fold ?g [1..<NODE_CHILDS] (sizeof_trie_node + ?S (below ?H pth (nxs t ! 0))) = Ok s' \<and>
      s' = sizeof_trie_node + ?S (?B (0 # [1..<NODE_CHILDS]))"
    proof (rule res_fold_inv [where I = "\<lambda>js s. s = sizeof_trie_node + ?S (?B (0 # js))"])
      show "sizeof_trie_node + ?S (below ?H pth (nxs t ! 0)) = sizeof_trie_node + ?S (?B [0])" by (simp add: below_some_def)
      fix ys i zs s assume sp: "[1..<NODE_CHILDS] = ys @ i # zs" and s: "s = sizeof_trie_node + ?S (?B (0 # ys))"
      note i = upt_split [OF sp]
      have js: "0 # ys = [0..<i]" "0 # ys @ [i] = [0..<Suc i]" using i by (simp_all add: upt_conv_Cons)
      have B: "?B [0..<Suc i] = ?B [0..<i] \<union> below ?H pth (nxs t ! i)" by (rule below_some_Suc) simp
      show "\<exists>b'. ?g i s = Ok b' \<and> b' = sizeof_trie_node + ?S (?B (0 # ys @ [i]))"
      proof (cases "nxs t ! i = nxs t ! (i - 1)")
        case True
        with below_step(1) [OF inv trie i(3)] i(2) have "?B [0..<Suc i] = ?B [0..<i]" unfolding B by auto
        with True s show ?thesis unfolding js by (simp del: upt_Suc)
      next
        case False
        with below_step(2) [OF inv trie i(3)] have "?S (?B [0..<Suc i]) = ?S (?B [0..<i]) + ?S (below ?H pth (nxs t ! i))"
          unfolding B by (intro sum.union_disjoint fin below_finite) auto
        with False s kid [OF i(3)] show ?thesis unfolding js by (simp del: upt_Suc)
      qed
    qed
    moreover have "0 # [1..<NODE_CHILDS] = [0..<NODE_CHILDS]" by (simp add: NODE_CHILDS_def upt_conv_Cons del: upt_Suc)
    moreover have "?S (below ?H pth x) = sizeof_trie_node + ?S (?B [0..<NODE_CHILDS])"
      using trie unfolding below_all(1) [OF inv trie] by (subst sum.insert [OF fin below_all(2) [OF inv trie]]) (simp add: node_bytes_def)
    ultimately show ?thesis using trie kid [of 0] by (simp add: deref_def NODE_CHILDS_def del: upt_Suc)
  qed
qed

section \<open>Properties\<close>

text \<open>
  C19. Freeing a trie ends within a recursion depth of 32768, never frees a node twice or reads one
  that is freed, and leaves no node allocated.
\<close>

theorem hattrie_free_releases_all:
  assumes "hat_rep T M" and "m \<ge> 32768"
  shows "hattrie_free m T = Ok fmempty"
  unfolding hattrie_free_def by (rule free_root [OF assms])

lemma hat_rep_one: "\<exists>T. hat_rep T (fmupd [97, 0] 7 array_new)"
proof -
  have "hat_rep hattrie_create array_new" using hattrie_create_inv by (auto simp: hat_rep_def)
  from hat.run_refines [OF this, of "[A_Set [97, 0] 7]"] show ?thesis by (auto simp: good_key_def array_set_def)
qed

theorem hattrie_free_releases_all_witness:
  "\<exists>T. hat_rep T (fmupd [97, 0] 7 array_new) \<and> hattrie_free 32768 T = Ok fmempty"
  using hat_rep_one hattrie_free_releases_all [of _ "fmupd [97, 0] 7 array_new" 32768] by auto

text \<open>
  The byte count of \<open>hattrie_sizeof\<close> has every node of the trie exactly once, a bucket that many
  bytes share included.
\<close>

theorem hattrie_sizeof_exact:
  assumes "hat_rep T M" and "m \<ge> 32768"
  shows "hattrie_sizeof m T = Ok (sizeof_hattrie + (\<Sum>y\<in>fset (fmdom (hnodes T)). node_bytes (hnodes T) y))"
proof -
  from assms(1) obtain pth where inv: "hat_inv T pth M" by (auto simp: hat_rep_def)
  from node_sizeof_ok [OF inv below_root(2) [OF inv assms(2)]] below_root(1) [OF inv] show ?thesis
    by (simp add: hattrie_sizeof_def)
qed

theorem hattrie_sizeof_exact_witness:
  "hattrie_sizeof 32768 hattrie_create = Ok (sizeof_hattrie + (sizeof_trie_node + word_of_nat (ahtable_sizeof new_hybrid)))"
proof -
  have "hat_rep hattrie_create array_new" using hattrie_create_inv by (auto simp: hat_rep_def)
  from hattrie_sizeof_exact [OF this, of 32768] show ?thesis by (simp add: hattrie_create_def node_bytes_def)
qed

text \<open>
  Clearing a trie frees all its nodes and gives it those of an empty one, but the number of keys is
  not reset: \<open>hattrie_size\<close> goes on with the count from before.
\<close>

theorem hattrie_clear_keeps_count:
  assumes "hat_rep T M" and "m \<ge> 32768"
  shows "\<exists>T'. hattrie_clear m T = Ok T' \<and> hat_rep (T'\<lparr>hm := 0\<rparr>) array_new \<and> hattrie_size T' = word_of_nat (array_size M)"
proof -
  have "hm T = word_of_nat (array_size M)" using assms(1) hat_invD(8) by (auto simp: hat_rep_def)
  moreover have "T\<lparr>hroot := 2, hnodes := hnodes hattrie_create, hm := 0\<rparr> = hattrie_create"
    by (simp add: hattrie_create_def)
  then have "hat_rep (T\<lparr>hroot := 2, hnodes := hnodes hattrie_create, hm := 0\<rparr>) array_new"
    using hattrie_create_inv by (auto simp: hat_rep_def)
  moreover have "hattrie_clear m T = Ok (T\<lparr>hroot := 2, hnodes := hnodes hattrie_create\<rparr>)"
    using free_root [OF assms] by (simp add: hattrie_clear_def Let_def fresh_addr_simps hattrie_create_def numeral_2_eq_2)
  ultimately show ?thesis by (simp add: hattrie_size_def)
qed

theorem hattrie_clear_keeps_count_witness:
  "\<exists>T T'. hat_rep T (fmupd [97, 0] 7 array_new) \<and> hattrie_clear 32768 T = Ok T' \<and> hat_rep (T'\<lparr>hm := 0\<rparr>) array_new \<and>
     hattrie_size T' = 1"
proof -
  obtain T where T: "hat_rep T (fmupd [97, 0] 7 array_new)" using hat_rep_one by blast
  have "array_size (fmupd [97, 0] 7 array_new) = 1" by (simp add: array_size_def array_new_def fcard.rep_eq)
  with hattrie_clear_keeps_count [OF T, of 32768] T show ?thesis by auto
qed

end
