(* ===== verification/Csv.thy ===== *)
theory Csv
  imports Prelude
begin

text \<open>
  \<open>src/lib/libcsv/libcsv.c\<close>: the incremental CSV parser and the writer. The parser is a state machine
  over bytes; it collects a field in a buffer that it grows with a caller's \<open>realloc\<close>, and reports
  fields and rows to two callbacks. Sizes are \<open>size_t\<close> words and every access to the buffer is
  checked. The local variables of \<open>csv_parse\<close> are written back to the parser on every return, so
  the model works on the parser itself.
\<close>

unbundle bit_operations_syntax

section \<open>The parser\<close>

type_synonym size_t = u64

definition SIZE_MAX :: size_t where "SIZE_MAX = - 1"

definition CSV_SUCCESS :: int where "CSV_SUCCESS = 0"
definition CSV_EPARSE :: int where "CSV_EPARSE = 1"
definition CSV_ENOMEM :: int where "CSV_ENOMEM = 2"
definition CSV_ETOOBIG :: int where "CSV_ETOOBIG = 3"
definition CSV_EINVALID :: int where "CSV_EINVALID = 4"

definition CSV_STRICT :: byte where "CSV_STRICT = 1"
definition CSV_REPALL_NL :: byte where "CSV_REPALL_NL = 2"
definition CSV_STRICT_FINI :: byte where "CSV_STRICT_FINI = 4"
definition CSV_APPEND_NULL :: byte where "CSV_APPEND_NULL = 8"
definition CSV_EMPTY_IS_NULL :: byte where "CSV_EMPTY_IS_NULL = 16"

definition CSV_TAB :: byte where "CSV_TAB = 0x09"
definition CSV_SPACE :: byte where "CSV_SPACE = 0x20"
definition CSV_CR :: byte where "CSV_CR = 0x0d"
definition CSV_LF :: byte where "CSV_LF = 0x0a"
definition CSV_COMMA :: byte where "CSV_COMMA = 0x2c"
definition CSV_QUOTE :: byte where "CSV_QUOTE = 0x22"

lemmas csv_chars = CSV_TAB_def CSV_SPACE_def CSV_CR_def CSV_LF_def CSV_COMMA_def CSV_QUOTE_def
lemmas csv_options = CSV_STRICT_def CSV_REPALL_NL_def CSV_STRICT_FINI_def CSV_APPEND_NULL_def CSV_EMPTY_IS_NULL_def

definition MEM_BLK_SIZE :: size_t where "MEM_BLK_SIZE = 128"

datatype csv_state = ROW_NOT_BEGUN | FIELD_NOT_BEGUN | FIELD_BEGUN | FIELD_MIGHT_HAVE_ENDED

text \<open>
  The caller's \<open>realloc\<close> gets the old block and the new size; its answer may also depend on how
  often it was called, which \<open>realloc_calls\<close> counts.
\<close>

type_synonym realloc_fn = "nat \<Rightarrow> block option \<Rightarrow> size_t \<Rightarrow> block option"

record csv_parser =
  pstate :: csv_state
  quoted :: bool
  spaces :: size_t
  entry_buf :: "block option"
  entry_pos :: size_t
  entry_size :: size_t
  status :: int
  options :: byte
  quote_char :: byte
  delim_char :: byte
  is_space :: "(byte \<Rightarrow> bool) option"
  is_term :: "(byte \<Rightarrow> bool) option"
  blk_size :: size_t
  realloc_func :: "realloc_fn option"
  realloc_calls :: nat
  free_func :: "string option"

record 'd csv_callbacks =
  cb1 :: "(block option \<Rightarrow> size_t \<Rightarrow> 'd \<Rightarrow> 'd) option"
  cb2 :: "(int \<Rightarrow> 'd \<Rightarrow> 'd) option"

definition has_opt :: "csv_parser \<Rightarrow> byte \<Rightarrow> bool" where
  "has_opt p f \<longleftrightarrow> options p AND f \<noteq> 0"

definition csv_error :: "csv_parser option \<Rightarrow> int res" where
  "csv_error p = (case p of None \<Rightarrow> Fault AssertFail | Some p \<Rightarrow> Ok (status p))"

definition csv_errors :: "string list" where
  "csv_errors = [''success'', ''error parsing data while strict checking enabled'',
     ''memory exhausted while increasing buffer size'', ''data size too large'', ''invalid status code'']"

definition csv_strerror :: "int \<Rightarrow> string" where
  "csv_strerror st = (if st \<ge> CSV_EINVALID \<or> st < 0 then csv_errors ! nat CSV_EINVALID else csv_errors ! nat st)"

definition csv_get_opts :: "csv_parser option \<Rightarrow> int" where
  "csv_get_opts p = (case p of None \<Rightarrow> -1 | Some p \<Rightarrow> uint (options p))"

definition csv_set_opts :: "csv_parser option \<Rightarrow> byte \<Rightarrow> int \<times> csv_parser option" where
  "csv_set_opts p opts = (case p of None \<Rightarrow> (-1, None) | Some p \<Rightarrow> (0, Some (p\<lparr>options := opts\<rparr>)))"

definition csv_fresh :: "realloc_fn \<Rightarrow> byte \<Rightarrow> csv_parser" where
  "csv_fresh realloc opts = \<lparr>pstate = ROW_NOT_BEGUN, quoted = False, spaces = 0, entry_buf = None, entry_pos = 0,
     entry_size = 0, status = 0, options = opts, quote_char = CSV_QUOTE, delim_char = CSV_COMMA, is_space = None,
     is_term = None, blk_size = MEM_BLK_SIZE, realloc_func = Some realloc, realloc_calls = 0,
     free_func = Some ''free''\<rparr>"

definition csv_init :: "realloc_fn \<Rightarrow> csv_parser option \<Rightarrow> byte \<Rightarrow> int \<times> csv_parser option" where
  "csv_init realloc p opts = (case p of None \<Rightarrow> (-1, None) | Some _ \<Rightarrow> (0, Some (csv_fresh realloc opts)))"

text \<open>A function that frees memory is known by its name; \<open>csv_free\<close> gives the calls it makes.\<close>

definition csv_free :: "csv_parser option \<Rightarrow> (string \<times> block) list \<times> csv_parser option" where
  "csv_free p = (case p of None \<Rightarrow> ([], None) | Some q \<Rightarrow>
     (case (entry_buf q, free_func q) of (Some b, Some f) \<Rightarrow> [(f, b)] | _ \<Rightarrow> [],
      Some (q\<lparr>entry_buf := None, entry_size := 0\<rparr>)))"

section \<open>Fields and rows\<close>

definition buf_write :: "csv_parser \<Rightarrow> size_t \<Rightarrow> byte \<Rightarrow> csv_parser res" where
  "buf_write p i c = (case entry_buf p of None \<Rightarrow> Fault NullDeref
     | Some b \<Rightarrow> res_bind (blk_write b (unat i) [c]) (\<lambda>b1. Ok (p\<lparr>entry_buf := Some b1\<rparr>)))"

definition SUBMIT_CHAR :: "csv_parser \<Rightarrow> byte \<Rightarrow> csv_parser res" where
  "SUBMIT_CHAR p c = res_bind (buf_write p (entry_pos p) c) (\<lambda>p1. Ok (p1\<lparr>entry_pos := entry_pos p + 1\<rparr>))"

definition SUBMIT_FIELD :: "'d csv_callbacks \<Rightarrow> csv_parser \<times> 'd \<Rightarrow> (csv_parser \<times> 'd) res" where
  "SUBMIT_FIELD cbs pd = (case pd of (p, d) \<Rightarrow>
     (let pos = (if quoted p then entry_pos p else entry_pos p - spaces p) in
     res_bind (if has_opt p CSV_APPEND_NULL then buf_write p pos 0 else Ok p) (\<lambda>p1.
       Ok (p1\<lparr>pstate := FIELD_NOT_BEGUN, entry_pos := 0, quoted := False, spaces := 0\<rparr>,
         case cb1 cbs of None \<Rightarrow> d
         | Some f \<Rightarrow> if has_opt p CSV_EMPTY_IS_NULL \<and> \<not> quoted p \<and> pos = 0 then f None pos d
                    else f (entry_buf p1) pos d))))"

definition SUBMIT_ROW :: "'d csv_callbacks \<Rightarrow> int \<Rightarrow> csv_parser \<times> 'd \<Rightarrow> csv_parser \<times> 'd" where
  "SUBMIT_ROW cbs c pd = (case pd of (p, d) \<Rightarrow>
     (p\<lparr>pstate := ROW_NOT_BEGUN, entry_pos := 0, quoted := False, spaces := 0\<rparr>,
      case cb2 cbs of None \<Rightarrow> d | Some f \<Rightarrow> f c d))"

definition csv_fini :: "'d csv_callbacks \<Rightarrow> csv_parser \<times> 'd \<Rightarrow> (int \<times> csv_parser \<times> 'd) res" where
  "csv_fini cbs pd = (case pd of (p, d) \<Rightarrow>
     if pstate p = FIELD_BEGUN \<and> quoted p \<and> has_opt p CSV_STRICT \<and> has_opt p CSV_STRICT_FINI
     then Ok (-1, p\<lparr>status := CSV_EPARSE\<rparr>, d)
     else
       (let p1 = (if pstate p = FIELD_MIGHT_HAVE_ENDED then p\<lparr>entry_pos := entry_pos p - (spaces p + 1)\<rparr> else p) in
       res_bind (if pstate p = ROW_NOT_BEGUN then Ok (p1, d)
                 else res_bind (SUBMIT_FIELD cbs (p1, d)) (\<lambda>pd1. Ok (SUBMIT_ROW cbs (-1) pd1))) (\<lambda>(p2, d2).
         Ok (0, p2\<lparr>spaces := 0, quoted := False, entry_pos := 0, status := 0, pstate := ROW_NOT_BEGUN\<rparr>, d2))))"

definition csv_set_delim :: "csv_parser \<Rightarrow> byte \<Rightarrow> csv_parser" where
  "csv_set_delim p c = p\<lparr>delim_char := c\<rparr>"

definition csv_set_quote :: "csv_parser \<Rightarrow> byte \<Rightarrow> csv_parser" where
  "csv_set_quote p c = p\<lparr>quote_char := c\<rparr>"

definition csv_get_delim :: "csv_parser \<Rightarrow> byte" where
  "csv_get_delim p = delim_char p"

definition csv_get_quote :: "csv_parser \<Rightarrow> byte" where
  "csv_get_quote p = quote_char p"

definition csv_set_space_func :: "csv_parser \<Rightarrow> (byte \<Rightarrow> bool) option \<Rightarrow> csv_parser" where
  "csv_set_space_func p f = p\<lparr>is_space := f\<rparr>"

definition csv_set_term_func :: "csv_parser \<Rightarrow> (byte \<Rightarrow> bool) option \<Rightarrow> csv_parser" where
  "csv_set_term_func p f = p\<lparr>is_term := f\<rparr>"

definition csv_set_realloc_func :: "csv_parser \<Rightarrow> realloc_fn option \<Rightarrow> csv_parser" where
  "csv_set_realloc_func p f = (case f of None \<Rightarrow> p | Some g \<Rightarrow> p\<lparr>realloc_func := Some g\<rparr>)"

definition csv_set_free_func :: "csv_parser \<Rightarrow> string option \<Rightarrow> csv_parser" where
  "csv_set_free_func p f = (case f of None \<Rightarrow> p | Some g \<Rightarrow> p\<lparr>free_func := Some g\<rparr>)"

definition csv_set_blk_size :: "csv_parser \<Rightarrow> size_t \<Rightarrow> csv_parser" where
  "csv_set_blk_size p n = p\<lparr>blk_size := n\<rparr>"

definition csv_get_buffer_size :: "csv_parser option \<Rightarrow> size_t" where
  "csv_get_buffer_size p = (case p of None \<Rightarrow> 0 | Some p \<Rightarrow> entry_size p)"

section \<open>Parsing\<close>

text \<open>The loop that asks for less and less memory.\<close>

function csv_realloc_loop :: "realloc_fn \<Rightarrow> csv_parser \<Rightarrow> size_t \<Rightarrow> int \<times> csv_parser" where
  "csv_realloc_loop f p to_add =
     (case f (realloc_calls p) (entry_buf p) (entry_size p + to_add) of
        Some vp \<Rightarrow> (0, p\<lparr>entry_buf := Some vp, entry_size := entry_size p + to_add, realloc_calls := Suc (realloc_calls p)\<rparr>)
      | None \<Rightarrow>
          if to_add div 2 = 0 then (-1, p\<lparr>status := CSV_ENOMEM, realloc_calls := Suc (realloc_calls p)\<rparr>)
          else csv_realloc_loop f (p\<lparr>realloc_calls := Suc (realloc_calls p)\<rparr>) (to_add div 2))"
  by pat_completeness auto
termination
proof (relation "measure (\<lambda>(f, p, n). unat n)")
  fix to_add :: size_t assume "to_add div 2 \<noteq> 0"
  then have "0 < unat to_add" by (auto simp: unat_gt_0)
  then have "unat (to_add div 2) < unat to_add" by (simp add: unat_div)
  then show "((f, p\<lparr>realloc_calls := Suc (realloc_calls p)\<rparr>, to_add div 2), f, p, to_add) \<in> measure (\<lambda>(f, p, n). unat n)"
    for f :: realloc_fn and p :: csv_parser by simp
qed simp

declare csv_realloc_loop.simps [simp del]

definition csv_increase_buffer :: "csv_parser \<Rightarrow> int \<times> csv_parser" where
  "csv_increase_buffer p = (case realloc_func p of None \<Rightarrow> (0, p)
     | Some f \<Rightarrow>
         (let to_add = (if entry_size p \<ge> SIZE_MAX - blk_size p then SIZE_MAX - entry_size p else blk_size p) in
          if to_add = 0 then (-1, p\<lparr>status := CSV_ETOOBIG\<rparr>) else csv_realloc_loop f p to_add))"

definition space_char :: "csv_parser \<Rightarrow> byte \<Rightarrow> bool" where
  "space_char p c \<longleftrightarrow> (case is_space p of Some f \<Rightarrow> f c | None \<Rightarrow> c = CSV_SPACE \<or> c = CSV_TAB)"

definition term_char :: "csv_parser \<Rightarrow> byte \<Rightarrow> bool" where
  "term_char p c \<longleftrightarrow> (case is_term p of Some f \<Rightarrow> f c | None \<Rightarrow> c = CSV_CR \<or> c = CSV_LF)"

text \<open>
  One byte in each state. The first component is \<open>False\<close> when strict checking stops the parse.
\<close>

type_synonym 'd csv_result = "(bool \<times> csv_parser \<times> 'd) res"

definition go_on :: "(csv_parser \<times> 'd) res \<Rightarrow> 'd csv_result" where
  "go_on r = res_bind r (\<lambda>pd. Ok (True, pd))"

definition keep_char :: "csv_parser \<times> 'd \<Rightarrow> byte \<Rightarrow> (csv_parser \<Rightarrow> csv_parser) \<Rightarrow> 'd csv_result" where
  "keep_char pd c f = go_on (res_bind (SUBMIT_CHAR (fst pd) c) (\<lambda>p1. Ok (f p1, snd pd)))"

definition strict_error :: "csv_parser \<times> 'd \<Rightarrow> 'd csv_result" where
  "strict_error pd = Ok (False, (fst pd)\<lparr>status := CSV_EPARSE\<rparr>, snd pd)"

definition end_row :: "'d csv_callbacks \<Rightarrow> byte \<Rightarrow> csv_parser \<times> 'd \<Rightarrow> 'd csv_result" where
  "end_row cbs c pd = go_on (res_bind (SUBMIT_FIELD cbs pd) (\<lambda>pd1. Ok (SUBMIT_ROW cbs (uint c) pd1)))"

definition not_begun :: "'d csv_callbacks \<Rightarrow> byte \<Rightarrow> csv_parser \<times> 'd \<Rightarrow> 'd csv_result" where
  "not_begun cbs c pd = (case pd of (p, d) \<Rightarrow>
     if space_char p c \<and> c \<noteq> delim_char p then Ok (True, p, d)
     else if term_char p c then
       (if pstate p = FIELD_NOT_BEGUN then end_row cbs c (p, d)
        else if has_opt p CSV_REPALL_NL then Ok (True, SUBMIT_ROW cbs (uint c) (p, d)) else Ok (True, p, d))
     else if c = delim_char p then go_on (SUBMIT_FIELD cbs (p, d))
     else if c = quote_char p then Ok (True, p\<lparr>pstate := FIELD_BEGUN, quoted := True\<rparr>, d)
     else keep_char (p\<lparr>pstate := FIELD_BEGUN, quoted := False\<rparr>, d) c id)"

definition field_begun :: "'d csv_callbacks \<Rightarrow> byte \<Rightarrow> csv_parser \<times> 'd \<Rightarrow> 'd csv_result" where
  "field_begun cbs c pd = (case pd of (p, d) \<Rightarrow>
     if c = quote_char p then
       (if quoted p then keep_char (p, d) c (pstate_update (\<lambda>_. FIELD_MIGHT_HAVE_ENDED))
        else if has_opt p CSV_STRICT then strict_error (p, d)
        else keep_char (p, d) c (spaces_update (\<lambda>_. 0)))
     else if c = delim_char p then
       (if quoted p then keep_char (p, d) c id else go_on (SUBMIT_FIELD cbs (p, d)))
     else if term_char p c then
       (if \<not> quoted p then end_row cbs c (p, d) else keep_char (p, d) c id)
     else if \<not> quoted p \<and> space_char p c then keep_char (p, d) c (spaces_update (\<lambda>n. n + 1))
     else keep_char (p, d) c (spaces_update (\<lambda>_. 0)))"

definition might_have_ended :: "'d csv_callbacks \<Rightarrow> byte \<Rightarrow> csv_parser \<times> 'd \<Rightarrow> 'd csv_result" where
  "might_have_ended cbs c pd = (case pd of (p, d) \<Rightarrow>
     (let p1 = p\<lparr>entry_pos := entry_pos p - (spaces p + 1)\<rparr> in
     if c = delim_char p then go_on (SUBMIT_FIELD cbs (p1, d))
     else if term_char p c then end_row cbs c (p1, d)
     else if space_char p c then keep_char (p, d) c (spaces_update (\<lambda>n. n + 1))
     else if c = quote_char p then
       (if spaces p \<noteq> 0 then
          (if has_opt p CSV_STRICT then strict_error (p, d) else keep_char (p\<lparr>spaces := 0\<rparr>, d) c id)
        else Ok (True, p\<lparr>pstate := FIELD_BEGUN\<rparr>, d))
     else if has_opt p CSV_STRICT then strict_error (p, d)
     else keep_char (p\<lparr>pstate := FIELD_BEGUN, spaces := 0\<rparr>, d) c id))"

definition csv_step :: "'d csv_callbacks \<Rightarrow> byte \<Rightarrow> csv_parser \<times> 'd \<Rightarrow> 'd csv_result" where
  "csv_step cbs c pd = (case pstate (fst pd) of
       ROW_NOT_BEGUN \<Rightarrow> not_begun cbs c pd
     | FIELD_NOT_BEGUN \<Rightarrow> not_begun cbs c pd
     | FIELD_BEGUN \<Rightarrow> field_begun cbs c pd
     | FIELD_MIGHT_HAVE_ENDED \<Rightarrow> might_have_ended cbs c pd)"

definition make_room :: "csv_parser \<Rightarrow> int \<times> csv_parser" where
  "make_room p =
     (if entry_pos p = (if has_opt p CSV_APPEND_NULL then entry_size p - 1 else entry_size p)
      then csv_increase_buffer p else (0, p))"

fun csv_loop :: "'d csv_callbacks \<Rightarrow> byte list \<Rightarrow> nat \<Rightarrow> csv_parser \<times> 'd \<Rightarrow> (nat \<times> csv_parser \<times> 'd) res" where
  "csv_loop cbs [] pos pd = Ok (pos, pd)"
| "csv_loop cbs (c # cs) pos pd =
     (case make_room (fst pd) of (r, p1) \<Rightarrow>
       if r \<noteq> 0 then Ok (pos, p1, snd pd)
       else res_bind (csv_step cbs c (p1, snd pd)) (\<lambda>(go, pd2).
         if go then csv_loop cbs cs (Suc pos) pd2 else Ok (pos, pd2)))"

definition csv_parse :: "'d csv_callbacks \<Rightarrow> csv_parser \<times> 'd \<Rightarrow> byte list option \<Rightarrow> (nat \<times> csv_parser \<times> 'd) res" where
  "csv_parse cbs pd s = (case s of None \<Rightarrow> Ok (0, pd)
     | Some us \<Rightarrow>
         (case (if entry_buf (fst pd) = None \<and> us \<noteq> [] then csv_increase_buffer (fst pd) else (0, fst pd)) of (r, p1) \<Rightarrow>
           if r \<noteq> 0 then Ok (0, p1, snd pd) else csv_loop cbs us 0 (p1, snd pd)))"

section \<open>Writing\<close>

text \<open>
  \<open>csv_write2\<close>: \<open>at\<close> is how far \<open>cdest\<close> has moved; \<open>chars\<close> counts what would have been written.
\<close>

definition put_char :: "block \<Rightarrow> nat \<Rightarrow> size_t \<Rightarrow> size_t \<Rightarrow> byte \<Rightarrow> (block \<times> nat \<times> size_t) res" where
  "put_char dest at dest_size chars c =
     res_bind (if dest_size > chars then res_bind (blk_write dest at [c]) (\<lambda>b. Ok (b, Suc at)) else Ok (dest, at)) (\<lambda>(b, at1).
       Ok (b, at1, if chars < SIZE_MAX then chars + 1 else chars))"

fun csv_write_loop :: "byte list \<Rightarrow> byte \<Rightarrow> size_t \<Rightarrow> block \<times> nat \<times> size_t \<Rightarrow> (block \<times> nat \<times> size_t) res" where
  "csv_write_loop [] quote dest_size st = Ok st"
| "csv_write_loop (c # cs) quote dest_size (b, at, chars) =
     res_bind (if c = quote then put_char b at dest_size chars quote else Ok (b, at, chars)) (\<lambda>(b1, at1, chars1).
     res_bind (put_char b1 at1 dest_size chars1 c) (csv_write_loop cs quote dest_size))"

definition csv_write2 :: "block option \<Rightarrow> size_t \<Rightarrow> byte list option \<Rightarrow> byte \<Rightarrow> (size_t \<times> block option) res" where
  "csv_write2 dest dest_size0 src quote = (case src of None \<Rightarrow> Ok (0, dest)
     | Some s \<Rightarrow>
         (let dest_size = (if dest = None then 0 else dest_size0); b0 = (case dest of None \<Rightarrow> [] | Some b \<Rightarrow> b) in
         res_bind (put_char b0 0 dest_size 0 quote) (\<lambda>st.
         res_bind (csv_write_loop s quote dest_size st) (\<lambda>(b, at, chars).
         res_bind (put_char b at dest_size chars quote) (\<lambda>(b1, _, chars1).
           Ok (chars1, map_option (\<lambda>_. b1) dest))))))"

definition csv_write :: "block option \<Rightarrow> size_t \<Rightarrow> byte list option \<Rightarrow> (size_t \<times> block option) res" where
  "csv_write dest dest_size src = csv_write2 dest dest_size src CSV_QUOTE"

text \<open>
  \<open>csv_fwrite2\<close> with a stream whose \<open>fputc\<close> takes the number of bytes already written and says
  whether one more fits; \<open>EOF\<close> is -1.
\<close>

fun fput_all :: "(nat \<Rightarrow> bool) \<Rightarrow> byte list \<Rightarrow> byte list \<Rightarrow> bool \<times> byte list" where
  "fput_all ok [] file = (True, file)"
| "fput_all ok (c # cs) file = (if ok (length file) then fput_all ok cs (file @ [c]) else (False, file))"

fun csv_fwrite_loop :: "(nat \<Rightarrow> bool) \<Rightarrow> byte \<Rightarrow> byte list \<Rightarrow> byte list \<Rightarrow> bool \<times> byte list" where
  "csv_fwrite_loop ok quote [] file = (True, file)"
| "csv_fwrite_loop ok quote (c # cs) file =
     (case fput_all ok (if c = quote then [quote, c] else [c]) file of
        (True, file1) \<Rightarrow> csv_fwrite_loop ok quote cs file1
      | (False, file1) \<Rightarrow> (False, file1))"

definition csv_fwrite2 :: "(nat \<Rightarrow> bool) \<Rightarrow> byte list option \<Rightarrow> byte list option \<Rightarrow> byte \<Rightarrow> int \<times> byte list option" where
  "csv_fwrite2 ok fp src quote = (case (fp, src) of
       (Some file, Some s) \<Rightarrow>
         (case fput_all ok [quote] file of
            (False, f1) \<Rightarrow> (-1, Some f1)
          | (True, f1) \<Rightarrow> (case csv_fwrite_loop ok quote s f1 of
               (False, f2) \<Rightarrow> (-1, Some f2)
             | (True, f2) \<Rightarrow> (case fput_all ok [quote] f2 of (b, f3) \<Rightarrow> (if b then 0 else -1, Some f3))))
     | _ \<Rightarrow> (0, fp))"

definition csv_fwrite :: "(nat \<Rightarrow> bool) \<Rightarrow> byte list option \<Rightarrow> byte list option \<Rightarrow> int \<times> byte list option" where
  "csv_fwrite ok fp src = csv_fwrite2 ok fp src CSV_QUOTE"

end
