(* ===== verification/Csv_Safety.thy ===== *)
theory Csv_Safety
  imports Csv
begin

text \<open>
  The CSV parser keeps its buffer: a well-formedness invariant that every call preserves, so no
  sequence of calls writes outside the buffer or through NULL, whatever the input, the callbacks
  and the allocator's failures.
\<close>

section \<open>The invariant\<close>

text \<open>What C promises of \<open>realloc\<close>: a block of the new size that starts with the old contents.\<close>

definition realloc_spec :: "realloc_fn \<Rightarrow> bool" where
  "realloc_spec f \<longleftrightarrow> (\<forall>i b n b'. f i b n = Some b' \<longrightarrow> length b' = unat n \<and>
     (\<forall>b0. b = Some b0 \<longrightarrow> length b0 \<le> unat n \<longrightarrow> take (length b0) b' = b0))"

definition fits :: "csv_parser \<Rightarrow> nat \<Rightarrow> bool" where
  "fits p n \<longleftrightarrow> (if has_opt p CSV_APPEND_NULL then n < unat (entry_size p) else n \<le> unat (entry_size p))"

definition pos_ok :: "csv_parser \<Rightarrow> bool" where
  "pos_ok p \<longleftrightarrow> (case pstate p of
       ROW_NOT_BEGUN \<Rightarrow> entry_pos p = 0 \<and> spaces p = 0
     | FIELD_NOT_BEGUN \<Rightarrow> entry_pos p = 0 \<and> spaces p = 0
     | FIELD_BEGUN \<Rightarrow> spaces p \<le> entry_pos p
     | FIELD_MIGHT_HAVE_ENDED \<Rightarrow> quoted p \<and> spaces p < entry_pos p)"

definition buf_ok :: "csv_parser \<Rightarrow> bool" where
  "buf_ok p \<longleftrightarrow> (\<exists>b. entry_buf p = Some b \<and> length b = unat (entry_size p) \<and> fits p (unat (entry_pos p)))"

definition alloc_ok :: "csv_parser \<Rightarrow> bool" where
  "alloc_ok p \<longleftrightarrow> (\<exists>f. realloc_func p = Some f \<and> realloc_spec f)"

lemma alloc_ok_upd [simp]:
  "alloc_ok (p\<lparr>pstate := a\<rparr>) = alloc_ok p" "alloc_ok (p\<lparr>quoted := c\<rparr>) = alloc_ok p" "alloc_ok (p\<lparr>spaces := e\<rparr>) = alloc_ok p"
  "alloc_ok (p\<lparr>entry_buf := b\<rparr>) = alloc_ok p" "alloc_ok (p\<lparr>entry_pos := f\<rparr>) = alloc_ok p"
  "alloc_ok (p\<lparr>entry_size := g\<rparr>) = alloc_ok p" "alloc_ok (p\<lparr>status := h\<rparr>) = alloc_ok p"
  "alloc_ok (p\<lparr>realloc_calls := k\<rparr>) = alloc_ok p"
  by (simp_all add: alloc_ok_def)

definition csv_inv :: "csv_parser \<Rightarrow> bool" where
  "csv_inv p \<longleftrightarrow> alloc_ok p \<and> pos_ok p \<and>
     (buf_ok p \<or> entry_buf p = None \<and> entry_size p = 0 \<and> pstate p = ROW_NOT_BEGUN)"

lemma inv_alloc: "csv_inv p \<Longrightarrow> alloc_ok p"
  by (simp add: csv_inv_def)

text \<open>There is room for one more byte.\<close>

definition room :: "csv_parser \<Rightarrow> bool" where
  "room p \<longleftrightarrow> csv_inv p \<and> buf_ok p \<and> fits p (Suc (unat (entry_pos p)))"

section \<open>Growing the buffer\<close>

definition grown :: "csv_parser \<Rightarrow> csv_parser \<Rightarrow> bool" where
  "grown p p1 \<longleftrightarrow> (\<exists>b n k. p1 = p\<lparr>entry_buf := Some b, entry_size := n, realloc_calls := k\<rparr> \<and> length b = unat n \<and>
     unat (entry_size p) < unat n \<and> (\<forall>b0. entry_buf p = Some b0 \<longrightarrow> length b0 \<le> unat n \<longrightarrow> take (length b0) b = b0))"

definition failed :: "csv_parser \<Rightarrow> csv_parser \<Rightarrow> bool" where
  "failed p p1 \<longleftrightarrow> (\<exists>st k. p1 = p\<lparr>status := st, realloc_calls := k\<rparr> \<and> (st = CSV_ENOMEM \<or> st = CSV_ETOOBIG))"

lemma realloc_loop_cases:
  assumes "realloc_spec f" and "to_add \<noteq> 0" and "unat (entry_size p) + unat to_add < 2 ^ 64"
    and "csv_realloc_loop f p to_add = (r, p1)"
  shows "r = 0 \<and> grown p p1 \<or> r = -1 \<and> failed p p1"
  using assms
proof (induction f p to_add rule: csv_realloc_loop.induct)
  case (1 f p to_add)
  have sum: "unat (entry_size p + to_add) = unat (entry_size p) + unat to_add" using 1(4) by (simp add: unat_word_ariths)
  show ?case
  proof (cases "f (realloc_calls p) (entry_buf p) (entry_size p + to_add)")
    case (Some vp)
    have "0 < unat to_add" using 1(3) by (simp add: unat_gt_0)
    moreover have "length vp = unat (entry_size p + to_add)"
      "\<forall>b0. entry_buf p = Some b0 \<longrightarrow> length b0 \<le> unat (entry_size p + to_add) \<longrightarrow> take (length b0) vp = b0"
      using 1(2) Some unfolding realloc_spec_def by blast+
    moreover have "r = 0" "p1 = p\<lparr>entry_buf := Some vp, entry_size := entry_size p + to_add, realloc_calls := Suc (realloc_calls p)\<rparr>"
      using 1(5) Some by (simp_all add: csv_realloc_loop.simps)
    ultimately show ?thesis using sum unfolding grown_def
      by (intro disjI1 conjI exI [of _ vp] exI [of _ "entry_size p + to_add"] exI [of _ "Suc (realloc_calls p)"]) simp_all
  next
    case None
    show ?thesis
    proof (cases "to_add div 2 = 0")
      case True
      with 1(5) None have "r = -1" "p1 = p\<lparr>status := CSV_ENOMEM, realloc_calls := Suc (realloc_calls p)\<rparr>"
        by (simp_all add: csv_realloc_loop.simps)
      then show ?thesis unfolding failed_def by blast
    next
      case False
      let ?p = "p\<lparr>realloc_calls := Suc (realloc_calls p)\<rparr>"
      have "unat (to_add div 2) \<le> unat to_add" by (simp add: unat_div)
      with 1(4) have "unat (entry_size ?p) + unat (to_add div 2) < 2 ^ 64" by simp
      moreover have "csv_realloc_loop f ?p (to_add div 2) = (r, p1)"
        using 1(5) None False by (simp add: csv_realloc_loop.simps [of f p])
      ultimately have "r = 0 \<and> grown ?p p1 \<or> r = -1 \<and> failed ?p p1" by (rule 1(1) [OF None False 1(2) False])
      then show ?thesis unfolding grown_def failed_def by auto
    qed
  qed
qed

lemma increase_cases:
  assumes "csv_inv p" and "csv_increase_buffer p = (r, p1)"
  shows "r = 0 \<and> grown p p1 \<or> r = -1 \<and> failed p p1"
proof -
  from assms(1) obtain f where f: "realloc_func p = Some f" "realloc_spec f" by (auto simp: csv_inv_def alloc_ok_def)
  let ?m = "SIZE_MAX - entry_size p"
  define to_add where "to_add = (if entry_size p \<ge> SIZE_MAX - blk_size p then ?m else blk_size p)"
  have max: "x \<le> SIZE_MAX" "unat SIZE_MAX = 2 ^ 64 - 1" for x by (simp_all add: SIZE_MAX_def unsigned_minus_1_eq_mask mask_eq_exp_minus_1)
  have u: "unat ?m = 2 ^ 64 - 1 - unat (entry_size p)" "unat (SIZE_MAX - blk_size p) = 2 ^ 64 - 1 - unat (blk_size p)"
    using unat_sub [OF max(1)] max(2) by simp_all
  have "unat (entry_size p) < 2 ^ 64" using unsigned_less [of "entry_size p"] by simp
  then have less: "unat (entry_size p) + unat to_add < 2 ^ 64"
    using u by (auto simp: to_add_def word_le_nat_alt not_le)
  have eq: "csv_increase_buffer p = (if to_add = 0 then (-1, p\<lparr>status := CSV_ETOOBIG\<rparr>) else csv_realloc_loop f p to_add)"
    using f by (simp add: csv_increase_buffer_def to_add_def)
  show ?thesis
  proof (cases "to_add = 0")
    case True
    then have "r = -1" "p1 = p\<lparr>status := CSV_ETOOBIG\<rparr>" using assms(2) eq by simp_all
    moreover have "p\<lparr>status := CSV_ETOOBIG\<rparr> = p\<lparr>status := CSV_ETOOBIG, realloc_calls := realloc_calls p\<rparr>" by (cases p) simp
    ultimately show ?thesis unfolding failed_def by metis
  next
    case False
    with assms(2) eq realloc_loop_cases [OF f(2) False less] show ?thesis by simp
  qed
qed

lemma grown_inv:
  assumes "csv_inv p" and "grown p p1"
  shows "csv_inv p1" "buf_ok p1"
proof -
  have "fits p1 (unat (entry_pos p1))"
  proof (cases "buf_ok p")
    case True
    with assms(2) show ?thesis by (auto simp: grown_def buf_ok_def fits_def has_opt_def split: if_splits)
  next
    case False
    with assms have "entry_pos p = 0" by (auto simp: csv_inv_def pos_ok_def)
    with assms(2) show ?thesis by (auto simp: grown_def fits_def)
  qed
  with assms(2) show "buf_ok p1" by (auto simp: grown_def buf_ok_def)
  with assms show "csv_inv p1" by (auto simp: csv_inv_def grown_def pos_ok_def split: csv_state.splits)
qed

lemma failed_inv:
  assumes "csv_inv p" and "failed p p1"
  shows "csv_inv p1" "status p1 = CSV_ENOMEM \<or> status p1 = CSV_ETOOBIG"
proof -
  from assms(2) have "buf_ok p1 = buf_ok p" "pos_ok p1 = pos_ok p"
    by (auto simp: failed_def buf_ok_def pos_ok_def fits_def has_opt_def split: csv_state.split)
  with assms show "csv_inv p1" by (auto simp: failed_def csv_inv_def)
qed (use assms in \<open>auto simp: failed_def\<close>)

text \<open>Before a byte is taken there is room for it, or the parser stops with an error.\<close>

lemma make_room_cases:
  assumes inv: "csv_inv p" and buf: "buf_ok p" and r: "make_room p = (r, p1)"
  shows "r = 0 \<and> room p1 \<and> (p1 = p \<or> grown p p1) \<or> r = -1 \<and> failed p p1"
proof (cases "entry_pos p = (if has_opt p CSV_APPEND_NULL then entry_size p - 1 else entry_size p)")
  case True
  then have "csv_increase_buffer p = (r, p1)" using r by (simp add: make_room_def)
  from increase_cases [OF inv this] show ?thesis
  proof (elim disjE conjE)
    assume g: "r = 0" "grown p p1"
    from g(2) have o: "has_opt p1 CSV_APPEND_NULL = has_opt p CSV_APPEND_NULL" "entry_pos p1 = entry_pos p"
      "unat (entry_size p) < unat (entry_size p1)" by (auto simp: grown_def has_opt_def)
    have "has_opt p CSV_APPEND_NULL \<Longrightarrow> 0 < unat (entry_size p)" using buf by (auto simp: buf_ok_def fits_def)
    then have "fits p1 (Suc (unat (entry_pos p1)))"
      using True o by (auto simp: fits_def unat_minus_one unat_gt_0)
    with g grown_inv [OF inv g(2)] show ?thesis by (simp add: room_def)
  qed simp
next
  case False
  have "fits p (Suc (unat (entry_pos p)))"
  proof (cases "has_opt p CSV_APPEND_NULL")
    case True
    then have l: "unat (entry_pos p) < unat (entry_size p)" using buf by (auto simp: buf_ok_def fits_def)
    then have "unat (entry_size p - 1) = unat (entry_size p) - 1" by (intro unat_minus_one) auto
    with False True l have "unat (entry_pos p) \<noteq> unat (entry_size p) - 1" by (auto simp: word_unat_eq_iff)
    with l True show ?thesis by (simp add: fits_def)
  next
    case no: False
    with False buf have "unat (entry_pos p) \<noteq> unat (entry_size p)" by (simp add: word_unat_eq_iff)
    with no buf show ?thesis by (auto simp: buf_ok_def fits_def)
  qed
  with False r inv buf show ?thesis by (simp add: make_room_def room_def)
qed



section \<open>One byte\<close>

lemma room_buf: "room p \<Longrightarrow> \<exists>b. entry_buf p = Some b \<and> length b = unat (entry_size p) \<and> unat (entry_pos p) < length b"
  by (auto simp: room_def buf_ok_def fits_def split: if_splits)

lemma room_unat: "room p \<Longrightarrow> unat (entry_pos p + 1) = Suc (unat (entry_pos p))"
proof -
  assume "room p"
  then have "unat (entry_pos p) < unat (entry_size p)" using room_buf by fastforce
  moreover have "unat (entry_size p) < 2 ^ 64" using unsigned_less [of "entry_size p"] by simp
  ultimately have "Suc (unat (entry_pos p)) < 2 ^ 64" by simp
  then show ?thesis by (simp add: unat_word_ariths)
qed

lemma SUBMIT_CHAR_room:
  assumes "room p"
  obtains b b1 where "SUBMIT_CHAR p c = Ok (p\<lparr>entry_buf := Some b1, entry_pos := entry_pos p + 1\<rparr>)" "entry_buf p = Some b"
    "length b1 = length b" "take (Suc (unat (entry_pos p))) b1 = take (unat (entry_pos p)) b @ [c]"
proof -
  from room_buf [OF assms] obtain b where b: "entry_buf p = Some b" "unat (entry_pos p) < length b" by blast
  let ?b = "put_at b (unat (entry_pos p)) [c]"
  have "SUBMIT_CHAR p c = Ok (p\<lparr>entry_buf := Some ?b, entry_pos := entry_pos p + 1\<rparr>)"
    using b by (simp add: SUBMIT_CHAR_def buf_write_def)
  moreover have "length ?b = length b" "take (Suc (unat (entry_pos p))) ?b = take (unat (entry_pos p)) b @ [c]"
    using b(2) take_put_at [of "unat (entry_pos p)" "[c]" b] by simp_all
  ultimately show ?thesis using that b(1) by blast
qed

text \<open>A kept byte leaves the invariant when the state it goes to allows the new position.\<close>

definition step_ok :: "'d csv_result \<Rightarrow> bool" where
  "step_ok r \<longleftrightarrow> (\<exists>go p d. r = Ok (go, p, d) \<and> csv_inv p \<and> buf_ok p \<and> (\<not> go \<longrightarrow> status p = CSV_EPARSE))"

lemma step_okI: "csv_inv p \<Longrightarrow> buf_ok p \<Longrightarrow> step_ok (Ok (True, p, d))"
  by (simp add: step_ok_def) blast

lemma strict_error_ok:
  assumes "csv_inv p" and "buf_ok p"
  shows "step_ok (strict_error (p, d))"
proof -
  let ?p = "p\<lparr>status := CSV_EPARSE\<rparr>"
  have "buf_ok ?p" "pos_ok ?p"
    using assms by (auto simp: buf_ok_def fits_def has_opt_def csv_inv_def pos_ok_def split: csv_state.splits)
  with assms(1) have "csv_inv ?p" by (simp add: csv_inv_def)
  with \<open>buf_ok ?p\<close> show ?thesis unfolding step_ok_def strict_error_def by auto
qed

lemma spaces_keeps: "spaces_update g (q :: csv_parser) = q\<lparr>pstate := pstate q, spaces := g (spaces q)\<rparr>"
  by (cases q) simp

lemma pstate_keeps: "pstate_update g (q :: csv_parser) = q\<lparr>pstate := g (pstate q), spaces := spaces q\<rparr>"
  by (cases q) simp

lemma id_keeps: "id (q :: csv_parser) = q\<lparr>pstate := pstate q, spaces := spaces q\<rparr>"
  by (cases q) simp

lemma keep_char_ok:
  assumes "room p" and "\<And>b. pos_ok (f (p\<lparr>entry_buf := b, entry_pos := entry_pos p + 1\<rparr>))"
    and "\<And>q. \<exists>st s. f q = q\<lparr>pstate := st, spaces := s\<rparr>"
  shows "step_ok (keep_char (p, d) c f)"
proof -
  obtain b b1 where b: "SUBMIT_CHAR p c = Ok (p\<lparr>entry_buf := Some b1, entry_pos := entry_pos p + 1\<rparr>)" "entry_buf p = Some b"
    "length b1 = length b" by (rule SUBMIT_CHAR_room [OF assms(1)])
  let ?q = "p\<lparr>entry_buf := Some b1, entry_pos := entry_pos p + 1\<rparr>"
  from assms(3) [of ?q] obtain st s where f: "f ?q = ?q\<lparr>pstate := st, spaces := s\<rparr>" by blast
  have "buf_ok (f ?q)"
    using assms(1) b(2,3) room_unat [OF assms(1)] unfolding f by (auto simp: room_def buf_ok_def fits_def has_opt_def split: if_splits)
  moreover have "alloc_ok (f ?q)" using assms(1) unfolding f by (simp add: room_def csv_inv_def alloc_ok_def)
  ultimately have "csv_inv (f ?q) \<and> buf_ok (f ?q)" using assms(2) by (simp add: csv_inv_def)
  with b(1) show ?thesis by (simp add: step_okI keep_char_def go_on_def)
qed

lemma SUBMIT_FIELD_ok:
  assumes "alloc_ok p" and "buf_ok p" and "quoted p \<or> spaces p \<le> entry_pos p"
  obtains q d' where "SUBMIT_FIELD cbs (p, d) = Ok (q, d')" "csv_inv q" "buf_ok q" "pstate q = FIELD_NOT_BEGUN"
proof -
  define n where "n = (if quoted p then entry_pos p else entry_pos p - spaces p)"
  obtain b where b: "entry_buf p = Some b" "length b = unat (entry_size p)" "fits p (unat (entry_pos p))"
    using assms(2) by (auto simp: buf_ok_def)
  have n: "unat n \<le> unat (entry_pos p)" using assms(3) by (auto simp: n_def unat_sub)
  obtain b1 where b1: "(if has_opt p CSV_APPEND_NULL then buf_write p n 0 else Ok p) = Ok (p\<lparr>entry_buf := Some b1\<rparr>)" "length b1 = length b"
  proof (cases "has_opt p CSV_APPEND_NULL")
    case True
    with b n have "buf_write p n 0 = Ok (p\<lparr>entry_buf := Some (put_at b (unat n) [0])\<rparr>)" "length (put_at b (unat n) [0]) = length b"
      by (simp_all add: buf_write_def fits_def)
    with True that show ?thesis by simp
  next
    case False
    have "p = p\<lparr>entry_buf := Some b\<rparr>" using b(1) by (cases p) simp
    with False that show ?thesis by simp
  qed
  let ?q = "p\<lparr>entry_buf := Some b1, pstate := FIELD_NOT_BEGUN, entry_pos := 0, quoted := False, spaces := 0\<rparr>"
  have "\<exists>d'. SUBMIT_FIELD cbs (p, d) = Ok (?q, d')"
    unfolding SUBMIT_FIELD_def prod.case Let_def n_def [symmetric] b1(1) res_bind.simps by auto
  moreover have "buf_ok ?q" using b b1(2) by (auto simp: buf_ok_def fits_def has_opt_def split: if_splits)
  moreover have "csv_inv ?q" using assms(1) \<open>buf_ok ?q\<close> by (simp add: csv_inv_def pos_ok_def)
  ultimately show ?thesis using that by auto
qed

lemma field_step_ok:
  assumes "alloc_ok p" and "buf_ok p" and "quoted p \<or> spaces p \<le> entry_pos p"
  shows "step_ok (go_on (SUBMIT_FIELD cbs (p, d)))" "step_ok (end_row cbs c (p, d))"
proof -
  obtain q d' where q: "SUBMIT_FIELD cbs (p, d) = Ok (q, d')" "csv_inv q" "buf_ok q" by (rule SUBMIT_FIELD_ok [OF assms])
  from q show "step_ok (go_on (SUBMIT_FIELD cbs (p, d)))" by (simp add: step_okI go_on_def)
  let ?q = "q\<lparr>pstate := ROW_NOT_BEGUN, entry_pos := 0, quoted := False, spaces := 0\<rparr>"
  have "buf_ok ?q" using q(3) by (auto simp: buf_ok_def fits_def has_opt_def split: if_splits)
  with q(2) have "csv_inv ?q" by (simp add: csv_inv_def pos_ok_def)
  with q(1) \<open>buf_ok ?q\<close> show "step_ok (end_row cbs c (p, d))" by (simp add: step_okI end_row_def go_on_def SUBMIT_ROW_def)
qed

lemma room_like:
  assumes "room p" and "pos_ok q"
    and "entry_buf q = entry_buf p" "entry_pos q = entry_pos p" "entry_size q = entry_size p" "options q = options p"
    and "realloc_func q = realloc_func p"
  shows "room q \<and> csv_inv q \<and> buf_ok q"
proof -
  have "fits q n = fits p n" for n using assms by (simp add: fits_def has_opt_def)
  with assms have "buf_ok q" "fits q (Suc (unat (entry_pos q)))" by (simp_all add: room_def buf_ok_def)
  moreover have "alloc_ok q" using assms by (simp add: room_def csv_inv_def alloc_ok_def)
  ultimately show ?thesis using assms(2) by (simp add: room_def csv_inv_def)
qed

lemma not_begun_ok:
  assumes r: "room p" and st: "pstate p = ROW_NOT_BEGUN \<or> pstate p = FIELD_NOT_BEGUN"
  shows "step_ok (not_begun cbs c (p, d))"
proof -
  have inv: "csv_inv p" "buf_ok p" and z: "entry_pos p = 0" "spaces p = 0"
    using r st by (auto simp: room_def csv_inv_def pos_ok_def)
  note field = field_step_ok [OF inv_alloc [OF inv(1)] inv(2), where cbs = cbs and d = d]
  have row: "step_ok (Ok (True, SUBMIT_ROW cbs i (p, d)))" for i
  proof -
    have b: "buf_ok (p\<lparr>pstate := ROW_NOT_BEGUN, entry_pos := 0, quoted := False, spaces := 0\<rparr>)"
      using inv(2) by (auto simp: buf_ok_def fits_def has_opt_def split: if_splits)
    with inv(1) have "csv_inv (p\<lparr>pstate := ROW_NOT_BEGUN, entry_pos := 0, quoted := False, spaces := 0\<rparr>)"
      by (simp add: csv_inv_def pos_ok_def)
    with b show ?thesis by (simp add: SUBMIT_ROW_def step_okI)
  qed
  have up: "room (p\<lparr>pstate := FIELD_BEGUN, quoted := q\<rparr>) \<and> csv_inv (p\<lparr>pstate := FIELD_BEGUN, quoted := q\<rparr>) \<and>
      buf_ok (p\<lparr>pstate := FIELD_BEGUN, quoted := q\<rparr>)" for q
    by (rule room_like [OF r]) (simp_all add: pos_ok_def z)
  have "step_ok (keep_char (p\<lparr>pstate := FIELD_BEGUN, quoted := False\<rparr>, d) e id)" for e
    by (rule keep_char_ok [OF conjunct1 [OF up]]) (simp add: pos_ok_def z, metis id_keeps)
  with inv field z row up show ?thesis by (simp add: not_begun_def step_okI)
qed

lemma le_step: "(n :: size_t) \<le> m \<Longrightarrow> unat (m + 1) = Suc (unat m) \<Longrightarrow> n < m + 1 \<and> n + 1 \<le> m + 1 \<and> n \<le> m + 1"
proof -
  assume a: "n \<le> m" "unat (m + 1) = Suc (unat m)"
  then have "unat n \<le> unat m" by (simp add: word_le_nat_alt)
  moreover have "unat (n + 1) \<le> Suc (unat n)" by (simp add: unat_word_ariths)
  ultimately show ?thesis using a(2) by (simp add: word_le_nat_alt word_less_nat_alt)
qed

lemma suc_less: "(n :: size_t) < m \<Longrightarrow> unat (m + 1) = Suc (unat m) \<Longrightarrow> n + 1 < m + 1"
proof -
  assume a: "n < m" "unat (m + 1) = Suc (unat m)"
  have "unat (n + 1) \<le> Suc (unat n)" by (simp add: unat_word_ariths)
  with a show ?thesis by (simp add: word_less_nat_alt)
qed

lemma field_begun_ok:
  assumes r: "room p" and st: "pstate p = FIELD_BEGUN"
  shows "step_ok (field_begun cbs c (p, d))"
proof -
  have inv: "csv_inv p" "buf_ok p" and s: "spaces p \<le> entry_pos p"
    using r st by (auto simp: room_def csv_inv_def pos_ok_def)
  note le = le_step [OF s room_unat [OF r]]
  note field = field_step_ok [OF inv_alloc [OF inv(1)] inv(2), where cbs = cbs and d = d]
  have k1: "step_ok (keep_char (p, d) e id)" for e
    by (rule keep_char_ok [OF r]) (use le st in \<open>simp add: pos_ok_def\<close>, metis id_keeps)
  have k2: "step_ok (keep_char (p, d) e (spaces_update (\<lambda>_. 0)))" for e
    by (rule keep_char_ok [OF r]) (use st in \<open>simp add: pos_ok_def\<close>, metis spaces_keeps)
  have k3: "step_ok (keep_char (p, d) e (spaces_update (\<lambda>n. n + 1)))" for e
    by (rule keep_char_ok [OF r]) (use le st in \<open>simp add: pos_ok_def\<close>, metis spaces_keeps)
  have k4: "step_ok (keep_char (p, d) e (pstate_update (\<lambda>_. FIELD_MIGHT_HAVE_ENDED)))" if "quoted p" for e
    by (rule keep_char_ok [OF r]) (use le that in \<open>simp add: pos_ok_def\<close>, metis pstate_keeps)
  have strict: "step_ok (strict_error (p, d))" by (rule strict_error_ok [OF inv])
  show ?thesis
    using field s k1 k2 k3 k4 strict by (simp add: field_begun_def)
qed

lemma might_have_ended_ok:
  assumes r: "room p" and st: "pstate p = FIELD_MIGHT_HAVE_ENDED"
  shows "step_ok (might_have_ended cbs c (p, d))"
proof -
  have inv: "csv_inv p" "buf_ok p" and s: "quoted p" "spaces p < entry_pos p"
    using r st by (auto simp: room_def csv_inv_def pos_ok_def)
  have l0: "unat (entry_pos p - (spaces p + 1)) \<le> unat (entry_pos p)"
  proof -
    have "spaces p + 1 \<le> entry_pos p" using s(2) by (simp add: inc_le)
    then show ?thesis by (simp add: unat_sub)
  qed
  let ?p = "p\<lparr>entry_pos := entry_pos p - (spaces p + 1)\<rparr>"
  have "buf_ok ?p" using inv(2) l0 by (auto simp: buf_ok_def fits_def has_opt_def split: if_splits)
  moreover have "alloc_ok ?p" using inv_alloc [OF inv(1)] by (simp add: alloc_ok_def)
  ultimately have field: "step_ok (go_on (SUBMIT_FIELD cbs (?p, d)))" "step_ok (end_row cbs c (?p, d))"
    using field_step_ok [of ?p] s(1) by simp_all
  have le: "spaces p + 1 < entry_pos p + 1" "0 < entry_pos p + 1"
    using room_unat [OF r] suc_less [OF s(2)] by (simp_all add: word_less_nat_alt)
  have k1: "step_ok (keep_char (p, d) e (spaces_update (\<lambda>n. n + 1)))" for e
    by (rule keep_char_ok [OF r]) (use le s st in \<open>simp add: pos_ok_def\<close>, metis spaces_keeps)
  have pos: "0 < entry_pos p" using s(2) by (simp add: word_less_nat_alt)
  have r1: "room (p\<lparr>spaces := 0\<rparr>)" by (rule room_like [OF r, THEN conjunct1]) (use pos s st in \<open>simp_all add: pos_ok_def\<close>)
  have k2: "step_ok (keep_char (p\<lparr>spaces := 0\<rparr>, d) e id)" for e
    by (rule keep_char_ok [OF r1]) (use le s st in \<open>simp add: pos_ok_def\<close>, metis id_keeps)
  have r2: "room (p\<lparr>pstate := FIELD_BEGUN, spaces := 0\<rparr>)" by (rule room_like [OF r, THEN conjunct1]) (simp_all add: pos_ok_def)
  have k3: "step_ok (keep_char (p\<lparr>pstate := FIELD_BEGUN, spaces := 0\<rparr>, d) e id)" for e
    by (rule keep_char_ok [OF r2]) (simp add: pos_ok_def, metis id_keeps)
  have "csv_inv (p\<lparr>pstate := FIELD_BEGUN\<rparr>) \<and> buf_ok (p\<lparr>pstate := FIELD_BEGUN\<rparr>)"
    by (rule room_like [OF r, THEN conjunct2]) (use s(2) in \<open>simp_all add: pos_ok_def\<close>)
  then have k4: "step_ok (Ok (True, p\<lparr>pstate := FIELD_BEGUN\<rparr>, d))" by (simp add: step_okI)
  have strict: "step_ok (strict_error (p, d))" by (rule strict_error_ok [OF inv])
  show ?thesis using field k1 k2 k3 k4 strict by (simp add: might_have_ended_def Let_def)
qed

lemma csv_step_ok: "room p \<Longrightarrow> step_ok (csv_step cbs c (p, d))"
  using not_begun_ok [of p cbs c d] field_begun_ok [of p cbs c d] might_have_ended_ok [of p cbs c d]
  by (cases "pstate p") (simp_all add: csv_step_def)

section \<open>Whole calls\<close>

definition parse_ok :: "nat \<Rightarrow> (nat \<times> csv_parser \<times> 'd) res \<Rightarrow> bool" where
  "parse_ok len r \<longleftrightarrow> (\<exists>n p d. r = Ok (n, p, d) \<and> csv_inv p \<and> n \<le> len \<and>
     (n < len \<longrightarrow> status p = CSV_EPARSE \<or> status p = CSV_ENOMEM \<or> status p = CSV_ETOOBIG))"

lemma csv_loop_ok:
  assumes "csv_inv p" and "buf_ok p"
  shows "parse_ok (pos + length cs) (csv_loop cbs cs pos (p, d))"
  using assms
proof (induction cs arbitrary: pos p d)
  case Nil
  then show ?case by (simp add: parse_ok_def)
next
  case (Cons c cs)
  obtain r p1 where m: "make_room p = (r, p1)" by fastforce
  from make_room_cases [OF Cons.prems m] have "r = 0 \<and> room p1 \<or> r = -1 \<and> failed p p1" by blast
  then show ?case
  proof (elim disjE conjE)
    assume f: "r = -1" "failed p p1"
    with m failed_inv [OF Cons.prems(1) f(2)] show ?thesis by (auto simp: parse_ok_def)
  next
    assume r: "r = 0" "room p1"
    from csv_step_ok [OF r(2), of cbs c d] obtain go p2 d2 where
      s: "csv_step cbs c (p1, d) = Ok (go, p2, d2)" "csv_inv p2" "buf_ok p2" "\<not> go \<longrightarrow> status p2 = CSV_EPARSE"
      by (auto simp: step_ok_def)
    show ?thesis
    proof (cases go)
      case True
      with m r s Cons.IH [OF s(2,3), of "Suc pos" d2] show ?thesis by simp
    next
      case False
      with m r s show ?thesis by (simp add: parse_ok_def)
    qed
  qed
qed

lemma csv_parse_ok:
  assumes inv: "csv_inv p"
  shows "parse_ok (length s) (csv_parse cbs (p, d) (Some s))"
proof (cases "entry_buf p = None \<and> s \<noteq> []")
  case True
  obtain r p1 where m: "csv_increase_buffer p = (r, p1)" by fastforce
  from increase_cases [OF inv m] show ?thesis
  proof (elim disjE conjE)
    assume f: "r = -1" "failed p p1"
    with True m failed_inv [OF inv f(2)] show ?thesis by (auto simp: parse_ok_def csv_parse_def)
  next
    assume g: "r = 0" "grown p p1"
    with True m csv_loop_ok [OF grown_inv [OF inv g(2)], of 0 s cbs d] show ?thesis by (simp add: csv_parse_def)
  qed
next
  case False
  show ?thesis
  proof (cases "s = []")
    case True
    with inv show ?thesis by (simp add: parse_ok_def csv_parse_def)
  next
    case no: False
    with False inv have "buf_ok p" by (auto simp: csv_inv_def)
    with no False csv_loop_ok [OF inv, of 0 s cbs d] show ?thesis by (auto simp: csv_parse_def)
  qed
qed

lemma csv_fini_ok:
  assumes inv: "csv_inv p"
  shows "\<exists>r p' d'. csv_fini cbs (p, d) = Ok (r, p', d') \<and> csv_inv p'"
proof -
  let ?fin = "\<lambda>q. q\<lparr>spaces := 0, quoted := False, entry_pos := 0, status := 0, pstate := ROW_NOT_BEGUN\<rparr>"
  have reset: "csv_inv (?fin q)" if "csv_inv q" "buf_ok q \<or> entry_buf q = None \<and> entry_size q = 0" for q
    using that by (auto simp: csv_inv_def pos_ok_def buf_ok_def fits_def has_opt_def split: if_splits)
  show ?thesis
  proof (cases "pstate p = ROW_NOT_BEGUN")
    case True
    have "csv_inv (?fin p)" using reset inv by (auto simp: csv_inv_def)
    with True show ?thesis by (simp add: csv_fini_def)
  next
    case False
    define p1 where "p1 = (if pstate p = FIELD_MIGHT_HAVE_ENDED then p\<lparr>entry_pos := entry_pos p - (spaces p + 1)\<rparr> else p)"
    have b: "buf_ok p" using inv False by (auto simp: csv_inv_def)
    have "alloc_ok p1" using inv_alloc [OF inv] by (simp add: p1_def)
    moreover have "buf_ok p1 \<and> (quoted p1 \<or> spaces p1 \<le> entry_pos p1)"
    proof (cases "pstate p = FIELD_MIGHT_HAVE_ENDED")
      case True
      then have s: "quoted p" "spaces p < entry_pos p" using inv by (auto simp: csv_inv_def pos_ok_def)
      then have "unat (entry_pos p - (spaces p + 1)) \<le> unat (entry_pos p)" by (simp add: unat_sub inc_le)
      with True b s show ?thesis by (auto simp: p1_def buf_ok_def fits_def has_opt_def split: if_splits)
    next
      case no: False
      with inv b False show ?thesis by (auto simp: p1_def csv_inv_def pos_ok_def split: csv_state.splits)
    qed
    ultimately obtain q d' where q: "SUBMIT_FIELD cbs (p1, d) = Ok (q, d')" "csv_inv q" "buf_ok q"
      using SUBMIT_FIELD_ok [of p1 cbs d] by blast
    have "csv_inv (?fin (q\<lparr>pstate := ROW_NOT_BEGUN, entry_pos := 0, quoted := False, spaces := 0\<rparr>))"
      using reset [OF q(2)] q(3) by simp
    moreover have "csv_inv (p\<lparr>status := CSV_EPARSE\<rparr>)"
    proof -
      have "buf_ok (p\<lparr>status := CSV_EPARSE\<rparr>)" using b by (auto simp: buf_ok_def fits_def has_opt_def)
      with inv show ?thesis by (auto simp: csv_inv_def pos_ok_def split: csv_state.splits)
    qed
    ultimately show ?thesis using False q(1) by (simp add: csv_fini_def p1_def [symmetric] Let_def SUBMIT_ROW_def)
  qed
qed

section \<open>Sequences of calls\<close>

datatype csv_call = Parse "byte list" | Fini | Set_delim byte | Set_quote byte | Set_space "(byte \<Rightarrow> bool) option"
  | Set_term "(byte \<Rightarrow> bool) option" | Set_blk size_t

definition do_call :: "'d csv_callbacks \<Rightarrow> csv_call \<Rightarrow> csv_parser \<times> 'd \<Rightarrow> (csv_parser \<times> 'd) res" where
  "do_call cbs x pd = (case x of
       Parse s \<Rightarrow> res_bind (csv_parse cbs pd (Some s)) (\<lambda>(n, pd1). Ok pd1)
     | Fini \<Rightarrow> res_bind (csv_fini cbs pd) (\<lambda>(r, pd1). Ok pd1)
     | Set_delim c \<Rightarrow> Ok (csv_set_delim (fst pd) c, snd pd)
     | Set_quote c \<Rightarrow> Ok (csv_set_quote (fst pd) c, snd pd)
     | Set_space f \<Rightarrow> Ok (csv_set_space_func (fst pd) f, snd pd)
     | Set_term f \<Rightarrow> Ok (csv_set_term_func (fst pd) f, snd pd)
     | Set_blk n \<Rightarrow> Ok (csv_set_blk_size (fst pd) n, snd pd))"

fun csv_calls :: "'d csv_callbacks \<Rightarrow> csv_call list \<Rightarrow> csv_parser \<times> 'd \<Rightarrow> (csv_parser \<times> 'd) res" where
  "csv_calls cbs [] pd = Ok pd"
| "csv_calls cbs (x # xs) pd = res_bind (do_call cbs x pd) (csv_calls cbs xs)"

lemma csv_inv_like:
  assumes "csv_inv p"
    and "entry_buf q = entry_buf p" "entry_pos q = entry_pos p" "entry_size q = entry_size p" "options q = options p"
    and "realloc_func q = realloc_func p" "pstate q = pstate p" "spaces q = spaces p" "quoted q = quoted p"
  shows "csv_inv q"
proof -
  have "pos_ok q = pos_ok p" "alloc_ok q = alloc_ok p" "buf_ok q = buf_ok p"
    using assms(2-) by (auto simp: pos_ok_def alloc_ok_def buf_ok_def fits_def has_opt_def split: csv_state.split)
  with assms show ?thesis by (simp add: csv_inv_def)
qed

lemma do_call_ok:
  assumes "csv_inv p"
  shows "\<exists>p' d'. do_call cbs x (p, d) = Ok (p', d') \<and> csv_inv p'"
proof (cases x)
  case (Parse s)
  with csv_parse_ok [OF assms, of s cbs d] show ?thesis by (auto simp: do_call_def parse_ok_def)
next
  case Fini
  with csv_fini_ok [OF assms, of cbs d] show ?thesis by (auto simp: do_call_def)
qed (auto simp: do_call_def csv_set_delim_def csv_set_quote_def csv_set_space_func_def csv_set_term_func_def
    csv_set_blk_size_def intro: csv_inv_like [OF assms])

lemma csv_fresh_inv: "realloc_spec f \<Longrightarrow> csv_inv (csv_fresh f opts)"
  by (simp add: csv_inv_def csv_fresh_def alloc_ok_def pos_ok_def)

lemma csv_calls_ok: "csv_inv p \<Longrightarrow> \<exists>p' d'. csv_calls cbs xs (p, d) = Ok (p', d') \<and> csv_inv p'"
proof (induction xs arbitrary: p d)
  case (Cons x xs)
  from do_call_ok [OF Cons.prems, of cbs x d] obtain p1 d1 where "do_call cbs x (p, d) = Ok (p1, d1)" "csv_inv p1" by blast
  with Cons.IH [of p1 d1] show ?case by simp
qed simp

text \<open>The buffer stays allocated while input is read.\<close>

lemma csv_loop_buf:
  assumes "csv_inv p" and "buf_ok p" and "csv_loop cbs cs pos (p, d) = Ok (pos + length cs, p', d')"
  shows "csv_inv p' \<and> buf_ok p'"
  using assms
proof (induction cs arbitrary: pos p d)
  case Nil
  then show ?case by simp
next
  case (Cons c cs)
  obtain r p1 where m: "make_room p = (r, p1)" by fastforce
  from make_room_cases [OF Cons.prems(1,2) m] Cons.prems(3) m have r: "r = 0" "room p1" by auto
  from csv_step_ok [OF r(2), of cbs c d] obtain go p2 d2 where
    s: "csv_step cbs c (p1, d) = Ok (go, p2, d2)" "csv_inv p2" "buf_ok p2" by (auto simp: step_ok_def)
  with Cons.prems(3) m r have "go" by (auto split: if_splits)
  with Cons.prems(3) m r s Cons.IH [OF s(2,3), of "Suc pos" d2] show ?case by simp
qed

lemma csv_loop_append:
  assumes "csv_inv p" and "buf_ok p" and "csv_loop cbs xs pos (p, d) = Ok (pos + length xs, p', d')"
  shows "csv_loop cbs (xs @ ys) pos (p, d) = csv_loop cbs ys (pos + length xs) (p', d')"
  using assms
proof (induction xs arbitrary: pos p d)
  case Nil
  then show ?case by simp
next
  case (Cons c xs)
  obtain r p1 where m: "make_room p = (r, p1)" by fastforce
  from make_room_cases [OF Cons.prems(1,2) m] Cons.prems(3) m have r: "r = 0" "room p1" by auto
  from csv_step_ok [OF r(2), of cbs c d] obtain go p2 d2 where
    s: "csv_step cbs c (p1, d) = Ok (go, p2, d2)" "csv_inv p2" "buf_ok p2" by (auto simp: step_ok_def)
  with Cons.prems(3) m r have "go" by (auto split: if_splits)
  with Cons.prems(3) m r s Cons.IH [OF s(2,3), of "Suc pos" d2] show ?case by simp
qed

lemma csv_loop_shift:
  "csv_loop cbs xs (k + pos) pd = res_bind (csv_loop cbs xs pos pd) (\<lambda>(n, pd1). Ok (k + n, pd1))"
proof (induction xs arbitrary: pos pd)
  case (Cons c xs)
  obtain r p1 where m: "make_room (fst pd) = (r, p1)" by fastforce
  show ?case
  proof (cases "csv_step cbs c (p1, snd pd)")
    case (Ok x)
    with m Cons.IH [of "Suc pos"] show ?thesis by (cases x) simp
  qed (simp add: m)
qed simp

section \<open>Properties\<close>

text \<open>
  C24. No sequence of CSV calls writes outside the entry buffer or through NULL: after \<open>csv_init\<close>,
  any calls of \<open>csv_parse\<close>, \<open>csv_fini\<close> and the setters of characters, character classes and block
  size, on any input, with any options, callbacks and failures of the caller's \<open>realloc\<close>,
  complete and leave the parser well-formed.
\<close>

theorem csv_calls_safe:
  assumes "realloc_spec f" and "csv_init f (Some p0) opts = (r, Some p)"
  shows "\<exists>p' d'. csv_calls cbs xs (p, d) = Ok (p', d') \<and> csv_inv p'"
proof -
  have "p = csv_fresh f opts" using assms(2) by (simp add: csv_init_def)
  with csv_calls_ok [OF csv_fresh_inv [OF assms(1)]] show ?thesis by simp
qed

definition plain_realloc :: realloc_fn where
  "plain_realloc i b n = Some (case b of None \<Rightarrow> replicate (unat n) 0 | Some b0 \<Rightarrow> take (unat n) b0 @ replicate (unat n - length b0) 0)"

lemma plain_realloc_spec: "realloc_spec plain_realloc"
  by (auto simp: realloc_spec_def plain_realloc_def split: option.split)

theorem csv_calls_safe_witness:
  "\<exists>p' d'. csv_calls \<lparr>cb1 = Some (\<lambda>b n d. Suc d), cb2 = None\<rparr> [Parse [0x22, 0x2c, 0x22], Set_blk 1, Parse [0x22, 0x0a, 0x61], Fini]
     (csv_fresh plain_realloc 0, 0) = Ok (p', d') \<and> csv_inv p'"
proof -
  have "csv_init plain_realloc (Some (csv_fresh plain_realloc 0)) 0 = (0, Some (csv_fresh plain_realloc 0))"
    by (simp add: csv_init_def)
  from csv_calls_safe [OF plain_realloc_spec this] show ?thesis .
qed

text \<open>
  C25. The parser is incremental: when it takes all of a first piece of input, parsing a second
  piece afterwards gives the same callbacks, the same final parser and the same count as
  parsing both pieces in one call.
\<close>

theorem csv_parse_chunks:
  assumes "csv_inv p" and "csv_parse cbs (p, d) (Some xs) = Ok (length xs, p1, d1)"
  shows "csv_parse cbs (p, d) (Some (xs @ ys)) =
     res_bind (csv_parse cbs (p1, d1) (Some ys)) (\<lambda>(n, pd). Ok (length xs + n, pd))"
proof (cases "xs = []")
  case True
  with assms(2) have "p1 = p" "d1 = d" by (simp_all add: csv_parse_def)
  then show ?thesis using True by (cases "csv_parse cbs (p, d) (Some ys)") auto
next
  case False
  obtain q where q: "csv_inv q" "buf_ok q" "csv_loop cbs xs 0 (q, d) = Ok (0 + length xs, p1, d1)"
    "csv_parse cbs (p, d) (Some (xs @ ys)) = csv_loop cbs (xs @ ys) 0 (q, d)"
  proof (cases "entry_buf p = None")
    case True
    obtain r p2 where m: "csv_increase_buffer p = (r, p2)" by fastforce
    with assms(2) True False have "r = 0" by (auto simp: csv_parse_def split: if_splits)
    with increase_cases [OF assms(1) m] have "grown p p2" by simp
    with grown_inv [OF assms(1) this] m True False assms(2) \<open>r = 0\<close> that [of p2] show ?thesis by (simp add: csv_parse_def)
  next
    case no: False
    with assms(1) have "buf_ok p" by (auto simp: csv_inv_def)
    with no assms that [of p] show ?thesis by (auto simp: csv_parse_def)
  qed
  have "buf_ok p1" using csv_loop_buf [OF q(1-3)] by simp
  then have "csv_parse cbs (p1, d1) (Some ys) = csv_loop cbs ys 0 (p1, d1)" by (auto simp: csv_parse_def buf_ok_def)
  with csv_loop_append [OF q(1-3), of ys] csv_loop_shift [of cbs ys "length xs" 0 "(p1, d1)"] q(4) show ?thesis by simp
qed

lemmas csv_eval = csv_parse_def csv_increase_buffer_def csv_realloc_loop.simps csv_fresh_def make_room_def csv_step_def
  not_begun_def field_begun_def keep_char_def go_on_def SUBMIT_CHAR_def SUBMIT_FIELD_def buf_write_def has_opt_def
  csv_chars csv_options SIZE_MAX_def MEM_BLK_SIZE_def space_char_def term_char_def

theorem csv_parse_chunks_witness:
  "\<exists>p1 d1. csv_parse \<lparr>cb1 = None, cb2 = None\<rparr> (csv_fresh plain_realloc 0, ()) (Some ([0x61] @ [0x2c])) =
     res_bind (csv_parse \<lparr>cb1 = None, cb2 = None\<rparr> (p1, d1) (Some [0x2c])) (\<lambda>(n, pd). Ok (1 + n, pd))"
proof -
  have "csv_inv (csv_fresh plain_realloc 0)" by (rule csv_fresh_inv [OF plain_realloc_spec])
  moreover have "\<exists>p1 d1. csv_parse \<lparr>cb1 = None, cb2 = None\<rparr> (csv_fresh plain_realloc 0, ()) (Some [0x61]) =
      Ok (length [0x61 :: byte], p1, d1)" by (simp add: csv_eval plain_realloc_def)
  then obtain p1 d1 where "csv_parse \<lparr>cb1 = None, cb2 = None\<rparr> (csv_fresh plain_realloc 0, ()) (Some [0x61]) =
      Ok (length [0x61 :: byte], p1, d1)" by blast
  ultimately have "csv_parse \<lparr>cb1 = None, cb2 = None\<rparr> (csv_fresh plain_realloc 0, ()) (Some ([0x61] @ [0x2c])) =
     res_bind (csv_parse \<lparr>cb1 = None, cb2 = None\<rparr> (p1, d1) (Some [0x2c])) (\<lambda>(n, pd). Ok (length [0x61 :: byte] + n, pd))"
    by (rule csv_parse_chunks)
  then show ?thesis by (intro exI [of _ p1] exI [of _ d1]) simp
qed

text \<open>
  Turning on \<open>CSV_APPEND_NULL\<close> with \<open>csv_set_opts\<close> between two calls writes past the buffer: the
  room check compares for equality with one less than the size, so a field that has exactly
  filled the buffer passes it, and the NUL that ends the field goes one byte behind the end.
\<close>

theorem csv_late_append_null:
  assumes "entry_buf p = Some b" and "length b = unat (entry_size p)" and "entry_pos p = entry_size p"
    and "pstate p = FIELD_BEGUN" and "\<not> quoted p" and "spaces p = 0" and "quote_char p \<noteq> delim_char p"
    and "csv_set_opts (Some p) CSV_APPEND_NULL = (r, Some p1)"
  shows "csv_parse cbs (p1, d) (Some [delim_char p]) = Fault OutOfBounds"
proof -
  have p1: "p1 = p\<lparr>options := CSV_APPEND_NULL\<rparr>" using assms(8) by (simp add: csv_set_opts_def)
  have "has_opt p1 CSV_APPEND_NULL" by (simp add: p1 has_opt_def CSV_APPEND_NULL_def)
  moreover have "entry_pos p \<noteq> entry_size p - 1" using assms(3) by simp
  ultimately show ?thesis
    using assms(1-7) p1 by (simp add: csv_parse_def make_room_def csv_step_def field_begun_def go_on_def SUBMIT_FIELD_def buf_write_def)
qed

theorem csv_late_append_null_witness:
  "\<exists>p d r p1. csv_parse \<lparr>cb1 = None, cb2 = None\<rparr> (csv_set_blk_size (csv_fresh plain_realloc 0) 1, ()) (Some [0x61]) = Ok (1, p, d) \<and>
     csv_set_opts (Some p) CSV_APPEND_NULL = (r, Some p1) \<and>
     csv_parse \<lparr>cb1 = None, cb2 = None\<rparr> (p1, d) (Some [0x2c]) = Fault OutOfBounds"
proof -
  define p where "p = (csv_fresh plain_realloc 0)\<lparr>blk_size := 1, entry_buf := Some [0x61], entry_pos := 1, entry_size := 1,
    realloc_calls := 1, pstate := FIELD_BEGUN\<rparr>"
  have parse: "csv_parse \<lparr>cb1 = None, cb2 = None\<rparr> (csv_set_blk_size (csv_fresh plain_realloc 0) 1, ()) (Some [0x61]) = Ok (1, p, ())"
    by (simp add: csv_eval plain_realloc_def p_def csv_set_blk_size_def put_at_def)
  have "csv_parse \<lparr>cb1 = None, cb2 = None\<rparr> (p\<lparr>options := CSV_APPEND_NULL\<rparr>, ()) (Some [delim_char p]) = Fault OutOfBounds"
    by (rule csv_late_append_null [where b = "[0x61]"]) (simp_all add: p_def csv_fresh_def csv_set_opts_def csv_chars)
  moreover have "delim_char p = 0x2c" by (simp add: p_def csv_fresh_def csv_chars)
  ultimately show ?thesis using parse
    by (intro exI [of _ p] exI [of _ "()"] exI [of _ 0] exI [of _ "p\<lparr>options := CSV_APPEND_NULL\<rparr>"]) (simp add: csv_set_opts_def)
qed

end
