(* ===== verification/Csv_Roundtrip.thy ===== *)
theory Csv_Roundtrip
  imports Csv_Safety
begin

text \<open>
  What \<open>csv_write\<close> produces, and that \<open>csv_parse\<close> reads it back: rows of arbitrary byte strings
  survive writing and parsing.
\<close>

section \<open>The writer\<close>

definition escape :: "byte \<Rightarrow> byte list \<Rightarrow> byte list" where
  "escape q s = concat (map (\<lambda>c. if c = q then [q, c] else [c]) s)"

definition quoted_text :: "byte \<Rightarrow> byte list \<Rightarrow> byte list" where
  "quoted_text q s = q # escape q s @ [q]"

lemma escape_simps [simp]: "escape q [] = []" "escape q (c # s) = (if c = q then [q, c] else [c]) @ escape q s"
  by (simp_all add: escape_def)

lemma length_escape: "length (escape q s) \<le> 2 * length s"
  by (induction s) auto

text \<open>The state of the writer after the text \<open>t\<close>: its first \<open>n\<close> bytes are in the buffer.\<close>

definition written :: "block \<Rightarrow> size_t \<Rightarrow> byte list \<Rightarrow> block \<times> nat \<times> size_t" where
  "written b n t = (put_at b 0 (take (unat n) t), min (length t) (unat n), word_of_nat (length t))"

lemma put_char_written:
  assumes n: "unat n \<le> length b" and len: "Suc (length t) < 2 ^ 64"
  shows "put_char (fst (written b n t)) (fst (snd (written b n t))) n (snd (snd (written b n t))) c = Ok (written b n (t @ [c]))"
proof -
  have u: "unat (word_of_nat (length t) :: size_t) = length t" using len by (simp add: unat_of_nat)
  have max: "(word_of_nat (length t) :: size_t) < SIZE_MAX"
    using len u by (simp add: word_less_nat_alt SIZE_MAX_def unsigned_minus_1_eq_mask mask_eq_exp_minus_1)
  show ?thesis
  proof (cases "length t < unat n")
    case True
    then have "blk_write (put_at b 0 t) (length t) [c] = Ok (put_at b 0 (t @ [c]))"
      using n by (simp add: put_at_def)
    with True max show ?thesis
      by (simp add: written_def put_char_def word_less_nat_alt u)
  next
    case False
    with max show ?thesis by (simp add: written_def put_char_def word_less_nat_alt u)
  qed
qed

lemma write_loop_written:
  assumes n: "unat n \<le> length b"
  shows "length t + length (escape q s) < 2 ^ 64 - 1 \<Longrightarrow> csv_write_loop s q n (written b n t) = Ok (written b n (t @ escape q s))"
proof (induction s arbitrary: t)
  case Nil
  then show ?case by simp
next
  case (Cons c s)
  obtain x at ch where w: "written b n t = (x, at, ch)" by (metis prod.exhaust)
  have "(if c = q then put_char x at n ch q else Ok (x, at, ch)) = Ok (written b n (t @ (if c = q then [q] else [])))"
    using put_char_written [OF n, of t q] Cons.prems w by auto
  moreover obtain x' at' ch' where w': "written b n (t @ (if c = q then [q] else [])) = (x', at', ch')" by (metis prod.exhaust)
  moreover have "put_char x' at' n ch' c = Ok (written b n (t @ (if c = q then [q, c] else [c])))"
    using put_char_written [OF n, of "t @ (if c = q then [q] else [])" c] Cons.prems w' by (simp split: if_splits)
  ultimately show ?case
    using w Cons.IH [of "t @ (if c = q then [q, c] else [c])"] Cons.prems by (simp split: if_splits)
qed

lemma csv_write2_text:
  assumes n: "unat n \<le> length b" and len: "length (quoted_text q s) < 2 ^ 64"
  shows "csv_write2 (Some b) n (Some s) q =
     Ok (word_of_nat (length (quoted_text q s)), Some (put_at b 0 (take (unat n) (quoted_text q s))))"
proof -
  have "written b n [] = (b, 0, 0)" by (simp add: written_def put_at_def)
  then have one: "put_char b 0 n 0 q = Ok (written b n [q])" using put_char_written [OF n, of "[]" q] by simp
  have two: "csv_write_loop s q n (written b n [q]) = Ok (written b n ([q] @ escape q s))"
    using write_loop_written [OF n, of "[q]" q s] len by (simp add: quoted_text_def)
  obtain x at ch where w: "written b n (q # escape q s) = (x, at, ch)" by (metis prod.exhaust)
  have "put_char x at n ch q = Ok (written b n (quoted_text q s))"
    using put_char_written [OF n, of "q # escape q s" q] len w by (simp add: quoted_text_def)
  then have three: "put_char x at n ch q = Ok (put_at b 0 (take (unat n) (quoted_text q s)),
      min (length (quoted_text q s)) (unat n), word_of_nat (length (quoted_text q s)))" by (simp add: written_def)
  show ?thesis unfolding csv_write2_def using one two w three by simp
qed

text \<open>Writing as a caller does it: ask for the size, then write into a buffer of that size.\<close>

definition write_field :: "byte list \<Rightarrow> byte list" where
  "write_field s = (case csv_write None 0 (Some s) of Fault _ \<Rightarrow> []
     | Ok (n, _) \<Rightarrow> (case csv_write (Some (replicate (unat n) 0)) n (Some s) of Ok (_, Some b) \<Rightarrow> b | _ \<Rightarrow> []))"

lemma csv_write2_null: "csv_write2 None n src q = res_bind (csv_write2 (Some []) 0 src q) (\<lambda>(m, _). Ok (m, None))"
proof (cases src)
  case (Some s)
  then show ?thesis unfolding csv_write2_def
    by (cases "put_char [] 0 0 0 q"; cases "csv_write_loop s q 0 (case put_char [] 0 0 0 q of Ok x \<Rightarrow> x)")
      (auto split: prod.splits simp: Let_def put_char_def)
qed (simp add: csv_write2_def)

lemma write_field_text:
  assumes "length s < 2 ^ 62"
  shows "write_field s = quoted_text CSV_QUOTE s"
proof -
  let ?t = "quoted_text CSV_QUOTE s"
  have len: "length ?t < 2 ^ 64" using assms length_escape [of CSV_QUOTE s] by (simp add: quoted_text_def)
  have u: "unat (word_of_nat (length ?t) :: size_t) = length ?t" using len by (simp add: unat_of_nat)
  have "csv_write None 0 (Some s) = Ok (word_of_nat (length ?t), None)"
    using csv_write2_text [of 0 "[]" CSV_QUOTE s] len by (simp add: csv_write_def csv_write2_null)
  moreover have "csv_write (Some (replicate (length ?t) 0)) (word_of_nat (length ?t)) (Some s) = Ok (word_of_nat (length ?t), Some ?t)"
    using csv_write2_text [of "word_of_nat (length ?t)" "replicate (length ?t) 0" CSV_QUOTE s] len u
    by (simp add: csv_write_def put_at_def)
  ultimately show ?thesis by (simp add: write_field_def u)
qed

section \<open>The parser on written text\<close>

datatype csv_event = Field "byte list option" | Row int

definition recorder :: "csv_event list csv_callbacks" where
  "recorder = \<lparr>cb1 = Some (\<lambda>b n d. d @ [Field (map_option (take (unat n)) b)]), cb2 = Some (\<lambda>c d. d @ [Row c])\<rparr>"

definition grants :: "realloc_fn \<Rightarrow> bool" where
  "grants f \<longleftrightarrow> (\<forall>i b n. f i b n \<noteq> None)"

definition default_parser :: "csv_parser \<Rightarrow> bool" where
  "default_parser p \<longleftrightarrow> csv_inv p \<and> buf_ok p \<and> (\<exists>f. realloc_func p = Some f \<and> grants f) \<and> blk_size p = MEM_BLK_SIZE \<and>
     quote_char p = CSV_QUOTE \<and> delim_char p = CSV_COMMA \<and> is_space p = None \<and> is_term p = None"

text \<open>The parser is in state \<open>st\<close> and has collected \<open>t\<close>.\<close>

definition at :: "csv_parser \<Rightarrow> csv_state \<Rightarrow> bool \<Rightarrow> byte list \<Rightarrow> bool" where
  "at p st q t \<longleftrightarrow> default_parser p \<and> pstate p = st \<and> quoted p = q \<and> spaces p = 0 \<and> unat (entry_pos p) = length t \<and>
     (\<exists>b. entry_buf p = Some b \<and> take (length t) b = t)"

lemma increase_grants:
  assumes "csv_inv p" and "realloc_func p = Some f" and "grants f" and "blk_size p = MEM_BLK_SIZE" and "unat (entry_size p) \<le> 2 ^ 63"
  shows "\<exists>p1. csv_increase_buffer p = (0, p1) \<and> grown p p1"
proof -
  have "\<not> entry_size p \<ge> SIZE_MAX - MEM_BLK_SIZE"
    using assms(5) by (simp add: word_le_nat_alt SIZE_MAX_def MEM_BLK_SIZE_def)
  then have "csv_increase_buffer p = csv_realloc_loop f p MEM_BLK_SIZE"
    using assms(2,4) by (simp add: csv_increase_buffer_def) (simp add: MEM_BLK_SIZE_def)
  moreover obtain vp where "f (realloc_calls p) (entry_buf p) (entry_size p + MEM_BLK_SIZE) = Some vp"
    using assms(3) unfolding grants_def by blast
  ultimately obtain p1 where "csv_increase_buffer p = (0, p1)" by (simp add: csv_realloc_loop.simps)
  with increase_cases [OF assms(1) this] show ?thesis by simp
qed

lemma grown_default: "grown p p1 \<Longrightarrow> default_parser p \<Longrightarrow> default_parser p1"
proof -
  assume g: "grown p p1" and d: "default_parser p"
  then have "csv_inv p1" "buf_ok p1" using grown_inv [OF _ g] by (simp_all add: default_parser_def)
  with g d show ?thesis by (auto simp: default_parser_def grown_def)
qed

lemma at_room:
  assumes a: "at p st q t" and len: "length t < 2 ^ 63"
  shows "\<exists>p1. make_room p = (0, p1) \<and> room p1 \<and> at p1 st q t"
proof -
  have d: "default_parser p" "csv_inv p" "buf_ok p" using a by (auto simp: at_def default_parser_def)
  obtain r p1 where m: "make_room p = (r, p1)" by fastforce
  have "r = 0"
  proof (cases "entry_pos p = (if has_opt p CSV_APPEND_NULL then entry_size p - 1 else entry_size p)")
    case True
    have "unat (entry_size p) \<le> 2 ^ 63"
    proof (cases "entry_size p = 0")
      case False
      then have "unat (entry_size p - 1) = unat (entry_size p) - 1" by (rule unat_minus_one)
      with True a len show ?thesis by (auto simp: at_def split: if_splits)
    qed simp
    with d a obtain p2 where "csv_increase_buffer p = (0, p2)" using increase_grants [of p] by (auto simp: default_parser_def)
    with True m show ?thesis by (simp add: make_room_def)
  qed (use m in \<open>simp add: make_room_def\<close>)
  with make_room_cases [OF d(2,3) m] have r: "room p1" "p1 = p \<or> grown p p1" by auto
  have "at p1 st q t"
  proof (cases "p1 = p")
    case False
    with r have g: "grown p p1" by simp
    from a obtain b where b: "entry_buf p = Some b" "take (length t) b = t" by (auto simp: at_def)
    from g obtain b1 where b1: "entry_buf p1 = Some b1" "length b \<le> length b1" "take (length b) b1 = b"
      using b(1) d(3) by (auto simp: grown_def buf_ok_def)
    have "length t \<le> length b" using b(2) by (metis length_take min.cobounded1)
    then have "take (length t) b1 = take (length t) b" using b1(3) by (metis min.absorb1 take_take)
    with a g b b1 grown_default [OF g d(1)] show ?thesis by (auto simp: at_def grown_def)
  qed (use a in simp)
  with m r(1) \<open>r = 0\<close> show ?thesis by blast
qed

definition runs :: "byte list \<Rightarrow> csv_parser \<times> csv_event list \<Rightarrow> csv_parser \<times> csv_event list \<Rightarrow> bool" where
  "runs xs pd pd' \<longleftrightarrow> (\<forall>cs pos. csv_loop recorder (xs @ cs) pos pd = csv_loop recorder cs (pos + length xs) pd')"

lemma runs_Nil [simp]: "runs [] pd pd"
  by (simp add: runs_def)

lemma runs_append: "runs xs pd pd1 \<Longrightarrow> runs ys pd1 pd2 \<Longrightarrow> runs (xs @ ys) pd pd2"
  by (simp add: runs_def add.assoc)

lemma runs_Cons: "runs [x] pd pd1 \<Longrightarrow> runs ys pd1 pd2 \<Longrightarrow> runs (x # ys) pd pd2"
  using runs_append [of "[x]"] by simp

lemma runs_step:
  assumes "make_room p = (0, p1)" and "csv_step recorder c (p1, d) = Ok (True, pd)"
  shows "runs [c] (p, d) pd"
  using assms by (simp add: runs_def)

text \<open>The steps on written text.\<close>

lemma default_like:
  assumes "default_parser p" and "csv_inv q" "buf_ok q"
    and "realloc_func q = realloc_func p" "blk_size q = blk_size p" "quote_char q = quote_char p" "delim_char q = delim_char p"
    and "is_space q = is_space p" "is_term q = is_term p"
  shows "default_parser q"
  using assms by (simp add: default_parser_def)

lemma csv_step_inv: "room p \<Longrightarrow> csv_step cbs c (p, d) = Ok (go, q, d') \<Longrightarrow> csv_inv q \<and> buf_ok q"
  using csv_step_ok [of p cbs c d] by (auto simp: step_ok_def)

lemma at_default: "at p st q t \<Longrightarrow> default_parser p"
  by (simp add: at_def)

lemma run_open:
  assumes a: "at p st False []" and st: "st = ROW_NOT_BEGUN \<or> st = FIELD_NOT_BEGUN"
  shows "\<exists>p'. runs [CSV_QUOTE] (p, d) (p', d) \<and> at p' FIELD_BEGUN True []"
proof -
  from at_room [OF a] obtain p1 where p1: "make_room p = (0, p1)" "room p1" "at p1 st False []" by auto
  let ?p = "p1\<lparr>pstate := FIELD_BEGUN, quoted := True\<rparr>"
  have c: "\<not> space_char p1 CSV_QUOTE" "\<not> term_char p1 CSV_QUOTE" "quote_char p1 = CSV_QUOTE" "delim_char p1 \<noteq> CSV_QUOTE"
    using p1(3) by (simp_all add: at_def default_parser_def space_char_def term_char_def csv_chars)
  have step: "csv_step recorder CSV_QUOTE (p1, d) = Ok (True, ?p, d)"
    using c p1(3) st by (auto simp: csv_step_def not_begun_def at_def)
  have "csv_inv ?p \<and> buf_ok ?p" by (rule csv_step_inv [OF p1(2) step])
  then have "default_parser ?p" by (intro default_like [OF at_default [OF p1(3)]]) simp_all
  with p1(3) have "at ?p FIELD_BEGUN True []" by (simp add: at_def)
  with runs_step [OF p1(1) step] show ?thesis by blast
qed

lemma run_keep:
  assumes a: "at p FIELD_BEGUN True t" and len: "length t < 2 ^ 63"
  shows "\<exists>p'. runs [c] (p, d) (p', d) \<and> at p' (if c = CSV_QUOTE then FIELD_MIGHT_HAVE_ENDED else FIELD_BEGUN) True (t @ [c])"
proof -
  from at_room [OF a len] obtain p1 where p1: "make_room p = (0, p1)" "room p1" "at p1 FIELD_BEGUN True t" by auto
  obtain b b1 where b: "SUBMIT_CHAR p1 c = Ok (p1\<lparr>entry_buf := Some b1, entry_pos := entry_pos p1 + 1\<rparr>)" "entry_buf p1 = Some b"
    "length b1 = length b" "take (Suc (unat (entry_pos p1))) b1 = take (unat (entry_pos p1)) b @ [c]"
    by (rule SUBMIT_CHAR_room [OF p1(2)])
  let ?q = "p1\<lparr>entry_buf := Some b1, entry_pos := entry_pos p1 + 1\<rparr>"
  let ?st = "if c = CSV_QUOTE then FIELD_MIGHT_HAVE_ENDED else FIELD_BEGUN"
  have z: "spaces p1 = 0" "quoted p1" "pstate p1 = FIELD_BEGUN" "quote_char p1 = CSV_QUOTE"
    using p1(3) by (simp_all add: at_def default_parser_def)
  have step: "csv_step recorder c (p1, d) = Ok (True, ?q\<lparr>pstate := ?st\<rparr>, d)"
    using z b(1) by (cases "c = CSV_QUOTE"; cases "c = delim_char p1"; simp add: csv_step_def field_begun_def keep_char_def go_on_def)
  have "csv_inv (?q\<lparr>pstate := ?st\<rparr>) \<and> buf_ok (?q\<lparr>pstate := ?st\<rparr>)"
    by (rule csv_step_inv [OF p1(2) step])
  then have "default_parser (?q\<lparr>pstate := ?st\<rparr>)" by (intro default_like [OF at_default [OF p1(3)]]) simp_all
  moreover have "unat (entry_pos p1 + 1) = Suc (length t)" "take (Suc (length t)) b1 = t @ [c]"
    using room_unat [OF p1(2)] p1(3) b(2,4) by (simp_all add: at_def)
  ultimately have "at (?q\<lparr>pstate := ?st\<rparr>) ?st True (t @ [c])" using z by (simp add: at_def)
  with runs_step [OF p1(1) step] show ?thesis by blast
qed

lemma run_again:
  assumes a: "at p FIELD_MIGHT_HAVE_ENDED True t" and len: "length t < 2 ^ 63"
  shows "\<exists>p'. runs [CSV_QUOTE] (p, d) (p', d) \<and> at p' FIELD_BEGUN True t"
proof -
  from at_room [OF a len] obtain p1 where p1: "make_room p = (0, p1)" "room p1" "at p1 FIELD_MIGHT_HAVE_ENDED True t" by auto
  let ?q = "p1\<lparr>pstate := FIELD_BEGUN\<rparr>"
  have c: "\<not> space_char p1 CSV_QUOTE" "\<not> term_char p1 CSV_QUOTE" "quote_char p1 = CSV_QUOTE" "delim_char p1 \<noteq> CSV_QUOTE"
    using p1(3) by (simp_all add: at_def default_parser_def space_char_def term_char_def csv_chars)
  have step: "csv_step recorder CSV_QUOTE (p1, d) = Ok (True, ?q, d)"
    using c p1(3) by (auto simp: csv_step_def might_have_ended_def at_def Let_def)
  have "csv_inv ?q \<and> buf_ok ?q" by (rule csv_step_inv [OF p1(2) step])
  then have "default_parser ?q" by (intro default_like [OF at_default [OF p1(3)]]) simp_all
  with p1(3) have "at ?q FIELD_BEGUN True t" by (simp add: at_def)
  with runs_step [OF p1(1) step] show ?thesis by blast
qed

definition no_field :: "csv_state \<Rightarrow> bool" where
  "no_field st \<longleftrightarrow> st = ROW_NOT_BEGUN \<or> st = FIELD_NOT_BEGUN"

lemma close_field:
  assumes a: "at p FIELD_MIGHT_HAVE_ENDED True (t @ [c])"
  shows "\<exists>q. SUBMIT_FIELD recorder (p\<lparr>entry_pos := entry_pos p - (spaces p + 1)\<rparr>, d) = Ok (q, d @ [Field (Some t)]) \<and>
     pstate q = FIELD_NOT_BEGUN \<and> \<not> quoted q \<and> spaces q = 0 \<and> entry_pos q = 0 \<and> entry_buf q \<noteq> None \<and> realloc_func q = realloc_func p \<and>
     blk_size q = blk_size p \<and> quote_char q = quote_char p \<and> delim_char q = delim_char p \<and> is_space q = is_space p \<and> is_term q = is_term p"
proof -
  let ?n = "entry_pos p - 1"
  from a obtain b where b: "entry_buf p = Some b" "take (Suc (length t)) b = t @ [c]" "unat (entry_pos p) = Suc (length t)"
    "quoted p" "spaces p = 0" by (auto simp: at_def)
  have "entry_pos p \<noteq> 0" using b(3) by auto
  then have n: "unat ?n = length t" using b(3) by (simp add: unat_minus_one)
  have lt: "length t < length b" using b(2) by (metis length_append_singleton length_take less_Suc_eq_le min.cobounded1 not_less)
  have tb: "take (length t) b = t" using b(2) by (metis append_eq_conv_conj le_Suc_eq min.absorb1 order.refl take_take)
  have tp: "take (length t) (put_at b (length t) [0]) = t" using lt tb by (simp add: take_put_at_before)
  show ?thesis
    using b n lt tb tp by (auto simp: SUBMIT_FIELD_def buf_write_def recorder_def has_opt_def Let_def)
qed

lemma run_close:
  assumes a: "at p FIELD_MIGHT_HAVE_ENDED True (t @ [CSV_QUOTE])" and len: "length t < 2 ^ 63 - 1"
  shows "\<exists>p'. runs [CSV_COMMA] (p, d) (p', d @ [Field (Some t)]) \<and> at p' FIELD_NOT_BEGUN False []"
    and "\<exists>p'. runs [CSV_LF] (p, d) (p', d @ [Field (Some t), Row 10]) \<and> at p' ROW_NOT_BEGUN False []"
proof -
  have "length (t @ [CSV_QUOTE]) < 2 ^ 63" using len by simp
  from at_room [OF a this] obtain p1 where p1: "make_room p = (0, p1)" "room p1" "at p1 FIELD_MIGHT_HAVE_ENDED True (t @ [CSV_QUOTE])" by auto
  from close_field [OF p1(3), of d] obtain q where q: "SUBMIT_FIELD recorder (p1\<lparr>entry_pos := entry_pos p1 - (spaces p1 + 1)\<rparr>, d) = Ok (q, d @ [Field (Some t)])"
     "pstate q = FIELD_NOT_BEGUN" "\<not> quoted q" "spaces q = 0" "entry_pos q = 0" "entry_buf q \<noteq> None" "realloc_func q = realloc_func p1"
     "blk_size q = blk_size p1" "quote_char q = quote_char p1" "delim_char q = delim_char p1" "is_space q = is_space p1" "is_term q = is_term p1"
    by blast
  have c: "delim_char p1 = CSV_COMMA" "term_char p1 CSV_LF" "delim_char p1 \<noteq> CSV_LF" "pstate p1 = FIELD_MIGHT_HAVE_ENDED"
    using p1(3) by (simp_all add: at_def default_parser_def term_char_def csv_chars)
  have d: "default_parser p1" using p1(3) by (simp add: at_def)
  have s1: "csv_step recorder CSV_COMMA (p1, d) = Ok (True, q, d @ [Field (Some t)])"
    using c q(1) by (simp add: csv_step_def might_have_ended_def go_on_def)
  have "default_parser q" using csv_step_inv [OF p1(2) s1] by (intro default_like [OF d]) (simp_all add: q)
  then have "at q FIELD_NOT_BEGUN False []" using q by (auto simp: at_def)
  with runs_step [OF p1(1) s1] show "\<exists>p'. runs [CSV_COMMA] (p, d) (p', d @ [Field (Some t)]) \<and> at p' FIELD_NOT_BEGUN False []" by blast
  let ?q = "q\<lparr>pstate := ROW_NOT_BEGUN, entry_pos := 0, quoted := False, spaces := 0\<rparr>"
  have s2: "csv_step recorder CSV_LF (p1, d) = Ok (True, ?q, d @ [Field (Some t), Row 10])"
    using c q(1) by (simp add: csv_step_def might_have_ended_def end_row_def go_on_def SUBMIT_ROW_def) (simp add: recorder_def CSV_LF_def)
  have "default_parser ?q" using csv_step_inv [OF p1(2) s2] by (intro default_like [OF d]) (simp_all add: q)
  then have "at ?q ROW_NOT_BEGUN False []" using q by (auto simp: at_def)
  with runs_step [OF p1(1) s2] show "\<exists>p'. runs [CSV_LF] (p, d) (p', d @ [Field (Some t), Row 10]) \<and> at p' ROW_NOT_BEGUN False []" by blast
qed

lemma run_body:
  assumes "at p FIELD_BEGUN True t" and "length t + length s < 2 ^ 63"
  shows "\<exists>p'. runs (escape CSV_QUOTE s) (p, d) (p', d) \<and> at p' FIELD_BEGUN True (t @ s)"
  using assms
proof (induction s arbitrary: p t)
  case Nil
  then show ?case by (intro exI [of _ p]) simp
next
  case (Cons c s)
  from run_keep [OF Cons.prems(1), of c d] Cons.prems(2) obtain p1 where
    p1: "runs [c] (p, d) (p1, d)" "at p1 (if c = CSV_QUOTE then FIELD_MIGHT_HAVE_ENDED else FIELD_BEGUN) True (t @ [c])" by auto
  have "\<exists>p2. runs (if c = CSV_QUOTE then [CSV_QUOTE, c] else [c]) (p, d) (p2, d) \<and> at p2 FIELD_BEGUN True (t @ [c])"
  proof (cases "c = CSV_QUOTE")
    case True
    with p1(2) run_again [of p1 "t @ [c]" d] Cons.prems(2) obtain p2 where
      "runs [CSV_QUOTE] (p1, d) (p2, d)" "at p2 FIELD_BEGUN True (t @ [c])" by auto
    with p1(1) True runs_Cons [of c "(p, d)" "(p1, d)" "[CSV_QUOTE]" "(p2, d)"] show ?thesis by auto
  qed (use p1 in auto)
  then obtain p2 where p2: "runs (if c = CSV_QUOTE then [CSV_QUOTE, c] else [c]) (p, d) (p2, d)" "at p2 FIELD_BEGUN True (t @ [c])" by blast
  from Cons.IH [OF p2(2)] Cons.prems(2) obtain p3 where p3: "runs (escape CSV_QUOTE s) (p2, d) (p3, d)" "at p3 FIELD_BEGUN True (t @ c # s)"
    by auto
  from runs_append [OF p2(1) p3(1)] p3(2) show ?case unfolding escape_simps by blast
qed

lemma run_field:
  assumes a: "at p st False []" and st: "no_field st" and len: "length s < 2 ^ 62"
  shows "\<exists>p'. runs (quoted_text CSV_QUOTE s) (p, d) (p', d) \<and> at p' FIELD_MIGHT_HAVE_ENDED True (s @ [CSV_QUOTE])"
proof -
  from run_open [OF a, of d] st obtain p1 where p1: "runs [CSV_QUOTE] (p, d) (p1, d)" "at p1 FIELD_BEGUN True []" by (auto simp: no_field_def)
  from run_body [OF p1(2), of s d] len obtain p2 where p2: "runs (escape CSV_QUOTE s) (p1, d) (p2, d)" "at p2 FIELD_BEGUN True s" by auto
  from run_keep [OF p2(2), of CSV_QUOTE d] len obtain p3 where
    p3: "runs [CSV_QUOTE] (p2, d) (p3, d)" "at p3 FIELD_MIGHT_HAVE_ENDED True (s @ [CSV_QUOTE])" by auto
  from runs_Cons [OF p1(1) runs_append [OF p2(1) p3(1)]] p3(2) show ?thesis by (auto simp: quoted_text_def)
qed

section \<open>Rows\<close>

fun csv_row :: "byte list list \<Rightarrow> byte list" where
  "csv_row [] = []"
| "csv_row [s] = write_field s @ [CSV_LF]"
| "csv_row (s # ss) = write_field s @ CSV_COMMA # csv_row ss"

definition csv_text :: "byte list list list \<Rightarrow> byte list" where
  "csv_text rows = concat (map csv_row rows)"

definition row_events :: "byte list list \<Rightarrow> csv_event list" where
  "row_events fs = map (\<lambda>s. Field (Some s)) fs @ [Row 10]"

lemma run_row:
  assumes "at p st False []" and "no_field st" and "fs \<noteq> []" and "\<forall>s\<in>set fs. length s < 2 ^ 62"
  shows "\<exists>p'. runs (csv_row fs) (p, d) (p', d @ row_events fs) \<and> at p' ROW_NOT_BEGUN False []"
  using assms
proof (induction fs arbitrary: p d st rule: csv_row.induct)
  case 1
  then show ?case by simp
next
  case (2 s)
  from run_field [OF 2(1,2), of s d] 2(4) obtain p1 where
    p1: "runs (write_field s) (p, d) (p1, d)" "at p1 FIELD_MIGHT_HAVE_ENDED True (s @ [CSV_QUOTE])" by (auto simp: write_field_text)
  from run_close(2) [OF p1(2), of d] 2(4) obtain p2 where
    "runs [CSV_LF] (p1, d) (p2, d @ [Field (Some s), Row 10])" "at p2 ROW_NOT_BEGUN False []" by auto
  with runs_append [OF p1(1)] show ?case by (auto simp: row_events_def)
next
  case (3 s s' ss)
  from run_field [OF 3(2,3), of s d] 3(5) obtain p1 where
    p1: "runs (write_field s) (p, d) (p1, d)" "at p1 FIELD_MIGHT_HAVE_ENDED True (s @ [CSV_QUOTE])" by (auto simp: write_field_text)
  from run_close(1) [OF p1(2), of d] 3(5) obtain p2 where
    p2: "runs [CSV_COMMA] (p1, d) (p2, d @ [Field (Some s)])" "at p2 FIELD_NOT_BEGUN False []" by auto
  from 3(1) [OF p2(2), of "d @ [Field (Some s)]"] 3(5) obtain p3 where
    "runs (csv_row (s' # ss)) (p2, d @ [Field (Some s)]) (p3, (d @ [Field (Some s)]) @ row_events (s' # ss))" "at p3 ROW_NOT_BEGUN False []"
    by (auto simp: no_field_def)
  with runs_append [OF p1(1) runs_Cons [OF p2(1)]] show ?case by (auto simp: row_events_def)
qed

lemma run_rows:
  assumes "at p ROW_NOT_BEGUN False []" and "\<forall>fs\<in>set rows. fs \<noteq> [] \<and> (\<forall>s\<in>set fs. length s < 2 ^ 62)"
  shows "\<exists>p'. runs (csv_text rows) (p, d) (p', d @ concat (map row_events rows)) \<and> at p' ROW_NOT_BEGUN False []"
  using assms
proof (induction rows arbitrary: p d)
  case Nil
  then show ?case unfolding csv_text_def by (intro exI [of _ p]) simp
next
  case (Cons fs rows)
  from run_row [OF Cons.prems(1), of fs d] Cons.prems(2) obtain p1 where
    p1: "runs (csv_row fs) (p, d) (p1, d @ row_events fs)" "at p1 ROW_NOT_BEGUN False []" by (auto simp: no_field_def)
  from Cons.IH [OF p1(2), of "d @ row_events fs"] Cons.prems(2) obtain p2 where
    "runs (csv_text rows) (p1, d @ row_events fs) (p2, (d @ row_events fs) @ concat (map row_events rows))" "at p2 ROW_NOT_BEGUN False []" by auto
  with runs_append [OF p1(1)] show ?case by (auto simp: csv_text_def)
qed

text \<open>
  C23. Writing and parsing CSV is a round trip: rows of one or more fields, each an arbitrary byte
  string written with \<open>csv_write\<close>, separated by commas and ended by line feeds, are reported by
  \<open>csv_parse\<close> as exactly these fields and rows, whatever the options, as long as memory is granted.
\<close>

theorem csv_roundtrip:
  assumes "realloc_spec f" and "grants f" and "\<forall>fs\<in>set rows. fs \<noteq> [] \<and> (\<forall>s\<in>set fs. length s < 2 ^ 62)" and "rows \<noteq> []"
  shows "\<exists>p'. csv_parse recorder (csv_fresh f opts, []) (Some (csv_text rows)) =
     Ok (length (csv_text rows), p', concat (map row_events rows)) \<and> pstate p' = ROW_NOT_BEGUN"
proof -
  let ?p = "csv_fresh f opts"
  have inv: "csv_inv ?p" by (rule csv_fresh_inv [OF assms(1)])
  from increase_grants [OF inv _ assms(2)] obtain p1 where p1: "csv_increase_buffer ?p = (0, p1)" "grown ?p p1"
    by (auto simp: csv_fresh_def)
  have "default_parser p1"
    using grown_inv [OF inv p1(2)] p1(2) assms(2) by (auto simp: default_parser_def grown_def csv_fresh_def)
  then have "at p1 ROW_NOT_BEGUN False []" using p1(2) by (auto simp: at_def grown_def csv_fresh_def)
  from run_rows [OF this assms(3), of "[]"] obtain p2 where
    p2: "runs (csv_text rows) (p1, []) (p2, concat (map row_events rows))" "at p2 ROW_NOT_BEGUN False []" by auto
  have "csv_loop recorder (csv_text rows @ []) 0 (p1, []) =
      csv_loop recorder [] (0 + length (csv_text rows)) (p2, concat (map row_events rows))" using p2(1) unfolding runs_def by blast
  moreover have "csv_text rows \<noteq> []"
  proof (cases rows)
    case (Cons fs rs)
    then have "csv_row fs \<noteq> []" using assms(3) by (cases fs rule: csv_row.cases) auto
    with Cons show ?thesis by (simp add: csv_text_def)
  qed (use assms(4) in simp)
  ultimately show ?thesis using p1(1) p2(2) by (simp add: csv_parse_def csv_fresh_def at_def)
qed

lemma plain_realloc_grants: "grants plain_realloc"
  by (simp add: grants_def plain_realloc_def)

theorem csv_roundtrip_witness:
  "\<exists>p'. csv_parse recorder (csv_fresh plain_realloc CSV_STRICT, []) (Some (csv_text [[[0x22], [0x2c, 0x0a]], [[]]])) =
     Ok (length (csv_text [[[0x22], [0x2c, 0x0a]], [[]]]), p',
       [Field (Some [0x22]), Field (Some [0x2c, 0x0a]), Row 10, Field (Some []), Row 10])"
proof -
  have "\<forall>fs\<in>set [[[0x22], [0x2c, 0x0a]], [[]]]. fs \<noteq> [] \<and> (\<forall>s\<in>set fs. length (s :: byte list) < 2 ^ 62)" by simp
  from csv_roundtrip [OF plain_realloc_spec plain_realloc_grants this, of CSV_STRICT] show ?thesis
    by (auto simp: row_events_def)
qed



end
