(* ===== verification/Ahash.thy ===== *)
theory Ahash
  imports Bytes Arrays
begin

text \<open>
  The hash table of \<open>src/lib/atomic_hash/src/atomic_hash.c\<close> as one thread runs it: every
  compare-and-swap is a test and a store. Keys are 128-bit hash values; a node of the pool holds
  the hash value, the time the entry expires and the user's data, and a free node holds the index
  of the next free node in the bytes of its hash value. Two bucket arrays and a small collision
  array hold node indices. The clock and the answers of the allocator are arguments. What several
  threads do to the free list is in theory Ahash_Freelist.
\<close>

unbundle bit_operations_syntax

section \<open>Types\<close>

type_synonym nid = u32

definition NNULL :: nid where "NNULL = 0xFFFFFFFF"
definition MAXTAB :: nat where "MAXTAB = 0xFFFFFFFF"
definition MINTAB :: nat where "MINTAB = 64"
definition NKEY :: nat where "NKEY = 4"
definition NMHT :: nat where "NMHT = 2"
definition NCLUSTER :: nat where "NCLUSTER = 4"
definition NSEAT :: nat where "NSEAT = NMHT * NKEY * NCLUSTER"

definition PLEASE_REMOVE_HASH_NODE :: int where "PLEASE_REMOVE_HASH_NODE = -1"
definition PLEASE_SET_TTL_TO_DEFAULT :: int where "PLEASE_SET_TTL_TO_DEFAULT = -2"
definition PLEASE_DO_NOT_CHANGE_TTL :: int where "PLEASE_DO_NOT_CHANGE_TTL = -3"

text \<open>
  A hook gets the data of a node and a pointer of the caller, and may change the caller's memory.
\<close>

type_synonym mem = "(addr, value_t) fmap"
type_synonym ah_hook = "value_t \<Rightarrow> ptr \<Rightarrow> mem \<Rightarrow> int \<times> mem"

record hv =
  hvx :: u64
  hvy :: u64

record ah_node =
  nv :: hv
  nexpire :: u64
  ndata :: value_t

record cas_t =
  fmi :: nid
  frfn :: u32

record mem_pool =
  ba :: "ah_node list option list"
  pmask :: nid
  pshift :: nid
  max_blocks :: nid
  blk_node_num :: nid
  node_size :: nid
  blk_size :: nid
  curr_blocks :: nid

record htab =
  buckets :: "nid list"
  ncur :: u64
  hn :: u64
  nb :: u64
  nadd :: u64
  ndup :: u64
  nget :: u64
  ndel :: u64

record hstats =
  expires :: u64
  escapes :: u64
  add_nomem :: u64
  add_nosit :: u64
  del_nohit :: u64
  get_nohit :: u64
  mem_htabs :: u64
  mem_nodes :: u64
  max_nodes :: u64
  key_collided :: u64

record ahash =
  hash_func :: "byte list \<Rightarrow> hv"
  on_ttl :: "ah_hook option"
  on_add :: "ah_hook option"
  on_dup :: "ah_hook option"
  on_get :: "ah_hook option"
  on_del :: "ah_hook option"
  freelist :: cas_t
  ht :: "htab list"
  stats :: hstats
  amp :: mem_pool
  reset_expire :: u64

text \<open>The clock at the start of a call and later in it, and whether \<open>calloc\<close> succeeds.\<close>

record ah_env =
  now_ms :: u64
  later_ms :: u64
  calloc_ok :: bool

definition zero_node :: ah_node where
  "zero_node = \<lparr>nv = \<lparr>hvx = 0, hvy = 0\<rparr>, nexpire = 0, ndata = 0\<rparr>"

section \<open>The pool of nodes\<close>

definition node_at :: "mem_pool \<Rightarrow> nid \<Rightarrow> ah_node res" where
  "node_at mp i =
     (let k = unat (drop_bit (unat (pshift mp)) i); off = unat (i AND pmask mp) in
      if k < length (ba mp) then
        (case ba mp ! k of None \<Rightarrow> Fault NullDeref
         | Some blk \<Rightarrow> if off < length blk then Ok (blk ! off) else Fault OutOfBounds)
      else Fault OutOfBounds)"

definition node_put :: "mem_pool \<Rightarrow> nid \<Rightarrow> ah_node \<Rightarrow> mem_pool res" where
  "node_put mp i p =
     (let k = unat (drop_bit (unat (pshift mp)) i); off = unat (i AND pmask mp) in
      if k < length (ba mp) then
        (case ba mp ! k of None \<Rightarrow> Fault NullDeref
         | Some blk \<Rightarrow> if off < length blk then Ok (mp\<lparr>ba := (ba mp)[k := Some (blk[off := p])]\<rparr>) else Fault OutOfBounds)
      else Fault OutOfBounds)"

text \<open>
  The exponent of the least power of two that is not smaller. A shift by 32 is undefined; the
  machine shifts by 0 then, and the loop does not end.
\<close>

function pwr2 :: "nat \<Rightarrow> u32 \<Rightarrow> nat res" where
  "pwr2 p n = (if 32 \<le> p then Fault Diverges else if push_bit p 1 < n then pwr2 (Suc p) n else Ok p)"
  by pat_completeness auto
termination by (relation "measure (\<lambda>(p, n). 32 - p)") auto

declare pwr2.simps [simp del]

definition PW2_MAX_BLK_PTR :: nat where "PW2_MAX_BLK_PTR = 9"
definition PW2_MIN_BLK_SIZ :: nat where "PW2_MIN_BLK_SIZ = 12"

definition pool_of :: "nat \<Rightarrow> nat \<Rightarrow> mem_pool" where
  "pool_of pmax psize =
     (let total = pmax + psize;
          bs = (if total \<le> PW2_MAX_BLK_PTR + PW2_MIN_BLK_SIZ then PW2_MIN_BLK_SIZ else total - PW2_MAX_BLK_PTR);
          blocks = push_bit PW2_MAX_BLK_PTR 1 in
      \<lparr>ba = replicate (unat blocks) None, pmask = push_bit (bs - psize) 1 - 1, pshift = word_of_nat (bs - psize),
       max_blocks = blocks, blk_node_num = push_bit (bs - psize) 1, node_size = push_bit psize 1,
       blk_size = push_bit bs 1, curr_blocks = 0\<rparr>)"

definition create_mem_pool :: "u32 \<Rightarrow> u32 \<Rightarrow> bool \<Rightarrow> bool \<Rightarrow> mem_pool option res" where
  "create_mem_pool nodes nsize pool_ok array_ok =
     res_bind (pwr2 0 nodes) (\<lambda>p0.
     res_bind (pwr2 0 nsize) (\<lambda>psize.
       (let pmax = (if p0 = 0 \<or> p0 > 32 then 32 else p0) in
        if push_bit psize 1 \<noteq> nsize \<or> psize < 5 \<or> psize > 12 then Ok None
        else if \<not> pool_ok \<or> \<not> array_ok then Ok None
        else Ok (Some (pool_of pmax psize)))))"

text \<open>What the structures of a table are freed as.\<close>

datatype ah_object = Node_block nat | Block_array | Pool_struct | Bucket_array nat | Hash_struct

definition destroy_mem_pool :: "mem_pool option \<Rightarrow> int \<times> ah_object list" where
  "destroy_mem_pool pmp = (case pmp of None \<Rightarrow> (-1, [])
     | Some mp \<Rightarrow> (0, map Node_block (filter (\<lambda>i. ba mp ! i \<noteq> None) [0..<unat (max_blocks mp)]) @ [Block_array, Pool_struct]))"

text \<open>The first eight bytes of a free node: the next free node, and a counter.\<close>

definition link :: "nid \<Rightarrow> u32 \<Rightarrow> u64" where
  "link mi rfn = ucast mi OR push_bit 32 (ucast rfn)"

definition node_mi :: "ah_node \<Rightarrow> nid" where
  "node_mi p = ucast (hvx (nv p))"

definition set_link :: "ah_node \<Rightarrow> nid \<Rightarrow> ah_node" where
  "set_link p mi = p\<lparr>nv := (nv p)\<lparr>hvx := link mi 0\<rparr>\<rparr>"

definition new_block :: "nid \<Rightarrow> nid \<Rightarrow> nid \<Rightarrow> nid \<Rightarrow> ah_node list" where
  "new_block num m head after = map (\<lambda>k.
     if k < unat m then set_link zero_node (head + word_of_nat k + 1)
     else if k = unat m then set_link zero_node after else zero_node) [0..<unat num]"

definition new_mem_block :: "bool \<Rightarrow> mem_pool \<Rightarrow> cas_t \<Rightarrow> (mem_pool \<times> cas_t) option" where
  "new_mem_block got mp fl =
     (if \<not> got then None
      else case find (\<lambda>i. ba mp ! i = None) [unat (curr_blocks mp)..<unat (max_blocks mp)] of
             None \<Rightarrow> None
           | Some i \<Rightarrow>
               (let head = word_of_nat i * (pmask mp + 1) in
                Some (mp\<lparr>ba := (ba mp)[i := Some (new_block (blk_node_num mp) (pmask mp) head (fmi fl))], curr_blocks := curr_blocks mp + 1\<rparr>,
                      \<lparr>fmi = head, frfn = frfn fl + 1\<rparr>)))"

definition take_node :: "ahash \<Rightarrow> (nid \<times> ahash) res" where
  "take_node h =
     res_bind (node_at (amp h) (fmi (freelist h))) (\<lambda>p.
       Ok (fmi (freelist h), h\<lparr>freelist := \<lparr>fmi = node_mi p, frfn = frfn (freelist h) + 1\<rparr>\<rparr>))"

text \<open>Each round of the loop allocates a block, so \<open>max_blocks\<close> rounds are enough.\<close>

fun new_node_loop :: "nat \<Rightarrow> bool \<Rightarrow> ahash \<Rightarrow> (nid \<times> ahash) res" where
  "new_node_loop 0 got h = Fault Diverges"
| "new_node_loop (Suc fuel) got h =
     (if fmi (freelist h) \<noteq> NNULL then take_node h
      else case new_mem_block got (amp h) (freelist h) of
             None \<Rightarrow> Ok (NNULL, h\<lparr>stats := (stats h)\<lparr>add_nomem := add_nomem (stats h) + 1\<rparr>\<rparr>)
           | Some (mp, fl) \<Rightarrow>
               (let h1 = h\<lparr>amp := mp, freelist := fl\<rparr> in
                if fmi fl = NNULL then new_node_loop fuel got h1 else take_node h1))"

definition new_node :: "bool \<Rightarrow> ahash \<Rightarrow> (nid \<times> ahash) res" where
  "new_node got h = new_node_loop (Suc (unat (max_blocks (amp h)))) got h"

definition set_node :: "ahash \<Rightarrow> nid \<Rightarrow> ah_node \<Rightarrow> ahash res" where
  "set_node h mi p = res_bind (node_put (amp h) mi p) (\<lambda>mp. Ok (h\<lparr>amp := mp\<rparr>))"

definition free_node :: "ahash \<Rightarrow> nid \<Rightarrow> ahash res" where
  "free_node h mi =
     res_bind (node_at (amp h) mi) (\<lambda>p.
     res_bind (set_node h mi (set_link p (fmi (freelist h)))) (\<lambda>h1.
       Ok (h1\<lparr>freelist := \<lparr>fmi = mi, frfn = frfn (freelist h) + 1\<rparr>\<rparr>)))"

section \<open>Creating and destroying a table\<close>

definition default_func :: "int \<Rightarrow> ah_hook" where
  "default_func r d rtn m = (r, case rtn of None \<Rightarrow> m | Some a \<Rightarrow> fmupd a d m)"

definition default_func_reset_ttl :: ah_hook where
  "default_func_reset_ttl = default_func PLEASE_SET_TTL_TO_DEFAULT"

definition default_func_not_change_ttl :: ah_hook where
  "default_func_not_change_ttl = default_func PLEASE_DO_NOT_CHANGE_TTL"

definition default_func_remove_node :: ah_hook where
  "default_func_remove_node = default_func PLEASE_REMOVE_HASH_NODE"

function fold_limit :: "nat \<Rightarrow> nat \<Rightarrow> nat" where
  "fold_limit i n = (if 0 < i \<and> i < n then fold_limit (2 * i) n else i)"
  by pat_completeness auto
termination by (relation "measure (\<lambda>(i, n). n - i)") auto

declare fold_limit.simps [simp del]

text \<open>\<open>prodn\<close> is the product of the number of items and the load ratio, a double, as an integer.\<close>

definition init_htab :: "nat \<Rightarrow> nat \<Rightarrow> bool \<Rightarrow> htab option" where
  "init_htab num prodn got =
     (let i = fold_limit 134217728 prodn; n = (if i > MAXTAB then MAXTAB else if prodn < MINTAB then MINTAB else prodn) in
      if \<not> got then None
      else Some \<lparr>buckets = replicate n NNULL, ncur = 0, hn = word_of_nat num, nb = word_of_nat n,
                 nadd = 0, ndup = 0, nget = 0, ndel = 0\<rparr>)"

definition sizeof_node :: u32 where "sizeof_node = 32"

text \<open>
  \<open>n2\<close>, \<open>prod1\<close> and \<open>prod2\<close> are what \<open>pow\<close> and the arithmetic on doubles give; \<open>al\<close> holds the answers
  of the allocator, in the order of the calls.
\<close>

record create_alloc =
  got_hash :: bool
  got_tab1 :: bool
  got_tab2 :: bool
  got_tab3 :: bool
  got_pool :: bool
  got_array :: bool

definition new_ahash :: "(byte list \<Rightarrow> hv) \<Rightarrow> u64 \<Rightarrow> htab list \<Rightarrow> mem_pool \<Rightarrow> ahash" where
  "new_ahash hf ttl tabs mp =
     (let mx = ucast (max_blocks mp * blk_node_num mp) :: u64 in
      \<lparr>hash_func = hf, on_ttl = Some default_func_remove_node, on_add = Some default_func_not_change_ttl,
       on_dup = Some default_func_reset_ttl, on_get = Some default_func_not_change_ttl, on_del = Some default_func_remove_node,
       freelist = \<lparr>fmi = NNULL, frfn = 0\<rparr>, ht = tabs,
       stats = \<lparr>expires = 0, escapes = 0, add_nomem = 0, add_nosit = 0, del_nohit = 0, get_nohit = 0,
         mem_htabs = drop_bit 10 ((nb (tabs ! 0) + nb (tabs ! 1)) * 4), mem_nodes = drop_bit 10 (mx * ucast (node_size mp)),
         max_nodes = mx, key_collided = 0\<rparr>,
       amp = mp, reset_expire = ttl\<rparr>)"

definition atomic_hash_create ::
    "(byte list \<Rightarrow> hv) \<Rightarrow> create_alloc \<Rightarrow> nat \<Rightarrow> nat \<Rightarrow> nat \<Rightarrow> u32 \<Rightarrow> int \<Rightarrow> ahash option res" where
  "atomic_hash_create hf al n2 prod1 prod2 nodes reset_ttl =
     (if nodes < 2 then Ok None
      else if \<not> got_hash al then Ok None
      else case (init_htab (unat nodes) prod1 (got_tab1 al), init_htab n2 prod2 (got_tab2 al), init_htab 0 0 (got_tab3 al)) of
             (Some t1, Some t2, Some t3) \<Rightarrow>
               res_bind (create_mem_pool nodes sizeof_node (got_pool al) (got_array al)) (\<lambda>mp.
                 case mp of None \<Rightarrow> Fault NullDeref
                 | Some p \<Rightarrow> Ok (Some (new_ahash hf (word_of_int reset_ttl) [t1, t2, t3] p)))
           | _ \<Rightarrow> Ok None)"

definition atomic_hash_destroy :: "ahash option \<Rightarrow> int \<times> ah_object list" where
  "atomic_hash_destroy h = (case h of None \<Rightarrow> (-1, [])
     | Some g \<Rightarrow> (0, map Bucket_array [0..<NMHT] @ snd (destroy_mem_pool (Some (amp g))) @ [Hash_struct]))"

section \<open>Seats\<close>

type_synonym seat = "nat \<times> nat"

definition seat_read :: "ahash \<Rightarrow> seat \<Rightarrow> nid res" where
  "seat_read h s = (case s of (t, j) \<Rightarrow>
     if t < length (ht h) \<and> j < length (buckets (ht h ! t)) then Ok (buckets (ht h ! t) ! j) else Fault OutOfBounds)"

definition ht_upd :: "ahash \<Rightarrow> nat \<Rightarrow> (htab \<Rightarrow> htab) \<Rightarrow> ahash" where
  "ht_upd h t f = h\<lparr>ht := (ht h)[t := f (ht h ! t)]\<rparr>"

definition seat_write :: "ahash \<Rightarrow> seat \<Rightarrow> nid \<Rightarrow> ahash" where
  "seat_write h s mi = (case s of (t, j) \<Rightarrow> ht_upd h t (\<lambda>tb. tb\<lparr>buckets := (buckets tb)[j := mi]\<rparr>))"

text \<open>\<open>cas (seat, old, new)\<close>\<close>

definition seat_cas :: "ahash \<Rightarrow> seat \<Rightarrow> nid \<Rightarrow> nid \<Rightarrow> (bool \<times> ahash) res" where
  "seat_cas h s old new =
     res_bind (seat_read h s) (\<lambda>cur. Ok (if cur = old then (True, seat_write h s new) else (False, h)))"

definition add_cur :: "ahash \<Rightarrow> seat \<Rightarrow> ahash" where
  "add_cur h s = ht_upd h (fst s) (\<lambda>tb. tb\<lparr>ncur := ncur tb + 1\<rparr>)"

definition sub_cur :: "ahash \<Rightarrow> seat \<Rightarrow> ahash" where
  "sub_cur h s = ht_upd h (fst s) (\<lambda>tb. tb\<lparr>ncur := ncur tb - 1\<rparr>)"

definition add1_stat :: "ahash \<Rightarrow> (hstats \<Rightarrow> hstats) \<Rightarrow> ahash" where
  "add1_stat h f = h\<lparr>stats := f (stats h)\<rparr>"

definition unhold :: "ah_node \<Rightarrow> hv \<Rightarrow> ah_node res" where
  "unhold p v =
     (if hvy (nv p) = 0 then Ok p
      else if hvx (nv p) = 0 then Ok (p\<lparr>nv := (nv p)\<lparr>hvx := hvx v\<rparr>\<rparr>) else Fault Diverges)"

definition hold :: "ah_node \<Rightarrow> hv \<Rightarrow> (bool \<times> ah_node) res" where
  "hold p v =
     (if hvx (nv p) \<noteq> hvx v then Ok (False, p)
      else let p1 = p\<lparr>nv := (nv p)\<lparr>hvx := 0\<rparr>\<rparr> in
        if hvy (nv p1) \<noteq> hvy v \<or> hvy (nv p1) = 0 then res_bind (unhold p1 v) (\<lambda>p2. Ok (False, p2))
        else Ok (True, p1))"

definition unhold_bucket :: "ahash \<Rightarrow> nid \<Rightarrow> hv \<Rightarrow> ahash res" where
  "unhold_bucket h mi v = res_bind (node_at (amp h) mi) (\<lambda>p. res_bind (unhold p v) (set_node h mi))"

definition hold_bucket :: "ahash \<Rightarrow> nid \<Rightarrow> hv \<Rightarrow> (bool \<times> ahash) res" where
  "hold_bucket h mi v = res_bind (node_at (amp h) mi) (\<lambda>p. res_bind (hold p v) (\<lambda>(ok, p1).
     res_bind (set_node h mi p1) (\<lambda>h1. Ok (ok, h1))))"

definition likely_equal :: "hv \<Rightarrow> hv \<Rightarrow> bool" where
  "likely_equal w v \<longleftrightarrow> hvy w = hvy v"

definition call_hook :: "ah_hook option \<Rightarrow> value_t \<Rightarrow> ptr \<Rightarrow> mem \<Rightarrow> (int \<times> mem) res" where
  "call_hook f d rtn m = (case f of None \<Rightarrow> Fault NullDeref | Some g \<Rightarrow> Ok (g d rtn m))"

text \<open>A result of a hook that asks for the default is the default as an \<open>int\<close>.\<close>

definition ttl_of :: "ahash \<Rightarrow> int \<Rightarrow> int" where
  "ttl_of h r = (if r = PLEASE_SET_TTL_TO_DEFAULT then sint (ucast (reset_expire h) :: u32) else r)"

definition refresh :: "ah_env \<Rightarrow> int \<Rightarrow> ah_node \<Rightarrow> ah_node" where
  "refresh e r p = (if nexpire p > 0 \<and> r > 0 then p\<lparr>nexpire := word_of_int r + later_ms e\<rparr> else p)"

section \<open>Actions on a node that a seat points to\<close>

definition unseat :: "ahash \<Rightarrow> seat \<Rightarrow> nid \<Rightarrow> ahash res" where
  "unseat h s mi = res_bind (seat_cas h s mi NNULL) (\<lambda>(ok, h1). Ok (if ok then sub_cur h1 s else h1))"

definition try_hit :: "(htab \<Rightarrow> htab) \<Rightarrow> ah_hook option \<Rightarrow> ah_env \<Rightarrow> hv \<Rightarrow> seat \<Rightarrow> nid \<Rightarrow> ptr \<Rightarrow> ahash \<times> mem \<Rightarrow> (bool \<times> ahash \<times> mem) res" where
  "try_hit count hk e v s mi rtn hm = (case hm of (h, m) \<Rightarrow>
     res_bind (hold_bucket h mi v) (\<lambda>(ok, h1).
       if \<not> ok then Ok (False, h1, m)
       else res_bind (seat_read h1 s) (\<lambda>cur.
         if cur \<noteq> mi then res_bind (unhold_bucket h1 mi v) (\<lambda>h2. Ok (False, h2, m))
         else res_bind (node_at (amp h1) mi) (\<lambda>p.
           res_bind (call_hook hk (ndata p) rtn m) (\<lambda>(r, m1).
             if r = PLEASE_REMOVE_HASH_NODE then
               res_bind (unseat h1 s mi) (\<lambda>h2.
               res_bind (set_node h2 mi zero_node) (\<lambda>h3.
               res_bind (free_node (ht_upd h3 (fst s) count) mi) (\<lambda>h4. Ok (True, h4, m1))))
             else
               res_bind (set_node h1 mi (refresh e (ttl_of h1 r) p)) (\<lambda>h2.
               res_bind (unhold_bucket h2 mi v) (\<lambda>h3. Ok (True, ht_upd h3 (fst s) count, m1))))))))"

definition or_default :: "ah_hook option \<Rightarrow> ah_hook option \<Rightarrow> ah_hook option" where
  "or_default cbf f = (case cbf of None \<Rightarrow> f | Some g \<Rightarrow> Some g)"

definition try_get :: "ah_env \<Rightarrow> hv \<Rightarrow> ah_hook option \<Rightarrow> ptr \<Rightarrow> seat \<Rightarrow> nid \<Rightarrow> ahash \<times> mem \<Rightarrow> (bool \<times> ahash \<times> mem) res" where
  "try_get e v cbf rtn s mi hm =
     try_hit (\<lambda>tb. tb\<lparr>nget := nget tb + 1\<rparr>) (or_default cbf (on_get (fst hm))) e v s mi rtn hm"

definition try_dup :: "ah_env \<Rightarrow> hv \<Rightarrow> ah_hook option \<Rightarrow> ptr \<Rightarrow> seat \<Rightarrow> nid \<Rightarrow> ahash \<times> mem \<Rightarrow> (bool \<times> ahash \<times> mem) res" where
  "try_dup e v cbf rtn s mi hm =
     try_hit (\<lambda>tb. tb\<lparr>ndup := ndup tb + 1\<rparr>) (or_default cbf (on_dup (fst hm))) e v s mi rtn hm"

definition try_add :: "ah_env \<Rightarrow> seat \<Rightarrow> nid \<Rightarrow> ptr \<Rightarrow> ahash \<times> mem \<Rightarrow> (bool \<times> ahash \<times> mem) res" where
  "try_add e s mi rtn hm = (case hm of (h, m) \<Rightarrow>
     res_bind (node_at (amp h) mi) (\<lambda>p.
     (let x = hvx (nv p) in
     res_bind (set_node h mi (p\<lparr>nv := (nv p)\<lparr>hvx := 0\<rparr>\<rparr>)) (\<lambda>h1.
     res_bind (seat_cas h1 s NNULL mi) (\<lambda>(ok, h2).
       if \<not> ok then res_bind (set_node h2 mi p) (\<lambda>h3. Ok (False, h3, m))
       else
         res_bind (call_hook (on_add h2) (ndata p) rtn m) (\<lambda>(r, m1).
           if r = PLEASE_REMOVE_HASH_NODE then
             res_bind (unseat (add_cur h2 s) s mi) (\<lambda>h3.
             res_bind (set_node h3 mi zero_node) (\<lambda>h4.
             res_bind (free_node h4 mi) (\<lambda>h5. Ok (True, h5, m1))))
           else
             res_bind (set_node (add_cur h2 s) mi ((refresh e (ttl_of h2 r) p)\<lparr>nv := (nv p)\<lparr>hvx := x\<rparr>\<rparr>)) (\<lambda>h3.
               Ok (True, ht_upd h3 (fst s) (\<lambda>tb. tb\<lparr>nadd := nadd tb + 1\<rparr>), m1))))))))"

definition try_del :: "hv \<Rightarrow> ah_hook option \<Rightarrow> ptr \<Rightarrow> seat \<Rightarrow> nid \<Rightarrow> ahash \<times> mem \<Rightarrow> (bool \<times> ahash \<times> mem) res" where
  "try_del v cbf rtn s mi hm = (case hm of (h, m) \<Rightarrow>
     res_bind (hold_bucket h mi v) (\<lambda>(ok, h1).
       if \<not> ok then Ok (False, h1, m)
       else res_bind (seat_cas h1 s mi NNULL) (\<lambda>(ok2, h2).
         if \<not> ok2 then res_bind (unhold_bucket h2 mi v) (\<lambda>h3. Ok (False, h3, m))
         else res_bind (node_at (amp h2) mi) (\<lambda>p.
           res_bind (set_node (sub_cur h2 s) mi zero_node) (\<lambda>h3.
           res_bind (free_node (ht_upd h3 (fst s) (\<lambda>tb. tb\<lparr>ndel := ndel tb + 1\<rparr>)) mi) (\<lambda>h4.
           res_bind (call_hook (or_default cbf (on_del h4)) (ndata p) rtn m) (\<lambda>(_, m1). Ok (True, h4, m1))))))))"

text \<open>
  \<open>rt\<close> is the variable that \<open>node_rtn\<close> points to, \<open>None\<close> when the pointer is NULL. The result is
  whether the node is still to be looked at.
\<close>

definition valid_ttl :: "ah_env \<Rightarrow> seat \<Rightarrow> nid \<Rightarrow> nid option \<Rightarrow> ahash \<times> mem \<Rightarrow> (bool \<times> nid option \<times> ahash \<times> mem) res" where
  "valid_ttl e s mi rt hm = (case hm of (h, m) \<Rightarrow>
     res_bind (node_at (amp h) mi) (\<lambda>p.
       if nexpire p = 0 \<or> nexpire p > now_ms e then Ok (True, rt, h, m)
       else if hvx (nv p) = 0 \<or> hvy (nv p) = 0 then Ok (True, rt, h, m)
       else res_bind (hold_bucket h mi (nv p)) (\<lambda>(ok, h1).
         if \<not> ok then Ok (False, rt, h1, m)
         else res_bind (node_at (amp h1) mi) (\<lambda>p1.
           if nexpire p1 = 0 \<or> nexpire p1 > now_ms e then res_bind (unhold_bucket h1 mi (nv p)) (\<lambda>h2. Ok (True, rt, h2, m))
           else res_bind (seat_cas h1 s mi NNULL) (\<lambda>(ok2, h2).
           if \<not> ok2 then res_bind (unhold_bucket h2 mi (nv p)) (\<lambda>h3. Ok (False, rt, h3, m))
           else res_bind (set_node (sub_cur h2 s) mi zero_node) (\<lambda>h3.
             (let h4 = add1_stat h3 (\<lambda>t. t\<lparr>expires := expires t + 1\<rparr>) in
             res_bind (if rt = Some NNULL then Ok (Some mi, h4) else res_bind (free_node h4 mi) (\<lambda>h5. Ok (rt, h5))) (\<lambda>(rt1, h5).
               (let m1 = (case on_ttl h5 of None \<Rightarrow> m | Some f \<Rightarrow> snd (f (ndata p1) NULL m)) in
                Ok (False, rt1, h5, m1))))))))))"

section \<open>The positions of a key\<close>

definition key_words :: "hv \<Rightarrow> nid list" where
  "key_words v = [ucast (hvx v), ucast (drop_bit 32 (hvx v)), ucast (hvy v), ucast (drop_bit 32 (hvy v))]"

definition seat_of :: "htab \<Rightarrow> nid \<Rightarrow> nat" where
  "seat_of tb d = unat ((ucast d :: u64) mod nb tb)"

definition tab_pos :: "htab \<Rightarrow> nid list \<Rightarrow> nat list" where
  "tab_pos tb d = map (seat_of tb) ([d ! 0, d ! 1, d ! 2, d ! 3] @
     concat (map (\<lambda>j. [d ! 3 + word_of_nat j * d ! 0, d ! 0 + word_of_nat j * d ! 1,
                       d ! 1 + word_of_nat j * d ! 2, d ! 2 + word_of_nat j * d ! 3]) [1..<NCLUSTER]))"

definition collect_hash_pos :: "ahash \<Rightarrow> hv \<Rightarrow> seat list" where
  "collect_hash_pos h v = concat (map (\<lambda>t. map (Pair t) (tab_pos (ht h ! t) (key_words v))) [0..<NMHT])"

definition collision_seats :: "seat list" where
  "collision_seats = map (Pair NMHT) [0..<MINTAB]"

text \<open>A key of length 0 is the hash value itself.\<close>

definition hv_of_bytes :: "byte list \<Rightarrow> hv" where
  "hv_of_bytes bs = \<lparr>hvx = le_word (take 8 bs), hvy = le_word (drop 8 bs)\<rparr>"

definition key_of :: "ahash \<Rightarrow> block \<Rightarrow> int \<Rightarrow> hv option res" where
  "key_of h kwd len =
     (if len > 0 then res_bind (blk_read kwd 0 (nat len)) (\<lambda>bs. Ok (Some (hash_func h bs)))
      else if len = 0 then res_bind (blk_read kwd 0 16) (\<lambda>bs. Ok (Some (hv_of_bytes bs)))
      else Ok None)"

section \<open>The operations\<close>

type_synonym action = "seat \<Rightarrow> nid \<Rightarrow> ahash \<times> mem \<Rightarrow> (bool \<times> ahash \<times> mem) res"

definition visit :: "action \<Rightarrow> ah_env \<Rightarrow> hv \<Rightarrow> seat \<Rightarrow> nid \<Rightarrow> nid option \<Rightarrow> ahash \<times> mem \<Rightarrow> (bool \<times> nid option \<times> ahash \<times> mem) res" where
  "visit act e v s mi rt hm =
     res_bind (valid_ttl e s mi rt hm) (\<lambda>(ok, rt1, hm1).
       if \<not> ok then Ok (False, rt1, hm1)
       else res_bind (node_at (amp (fst hm1)) mi) (\<lambda>p.
         if likely_equal (nv p) v then res_bind (act s mi hm1) (\<lambda>(hit, hm2). Ok (hit, rt1, hm2))
         else Ok (False, rt1, hm1)))"

fun find_loop :: "action \<Rightarrow> ah_env \<Rightarrow> hv \<Rightarrow> seat list \<Rightarrow> nid option \<Rightarrow> ahash \<times> mem \<Rightarrow> (bool \<times> nid option \<times> ahash \<times> mem) res" where
  "find_loop act e v [] rt hm = Ok (False, rt, hm)"
| "find_loop act e v (s # ss) rt hm =
     res_bind (seat_read (fst hm) s) (\<lambda>mi.
       if mi = NNULL then find_loop act e v ss rt hm
       else res_bind (visit act e v s mi rt hm) (\<lambda>(hit, rt1, hm1).
         if hit then Ok (True, rt1, hm1) else find_loop act e v ss rt1 hm1))"

text \<open>\<open>atomic_hash_add\<close> looks at as many nodes of the collision array as there were at the start.\<close>

fun add_collision :: "action \<Rightarrow> ah_env \<Rightarrow> hv \<Rightarrow> u32 \<Rightarrow> seat list \<Rightarrow> nid option \<Rightarrow> ahash \<times> mem \<Rightarrow> (bool \<times> nid option \<times> ahash \<times> mem) res" where
  "add_collision act e v i [] rt hm = Ok (False, rt, hm)"
| "add_collision act e v i (s # ss) rt hm =
     (if i = 0 then Ok (False, rt, hm)
      else res_bind (seat_read (fst hm) s) (\<lambda>mi.
        if mi = NNULL then add_collision act e v i ss rt hm
        else res_bind (visit act e v s mi rt hm) (\<lambda>(hit, rt1, hm1).
          if hit then Ok (True, rt1, hm1) else add_collision act e v (i - 1) ss rt1 hm1)))"

text \<open>\<open>atomic_hash_get\<close> compares the number of nodes it has looked at with the current count.\<close>

fun get_collision :: "action \<Rightarrow> ah_env \<Rightarrow> hv \<Rightarrow> u32 \<Rightarrow> seat list \<Rightarrow> nid option \<Rightarrow> ahash \<times> mem \<Rightarrow> (bool \<times> nid option \<times> ahash \<times> mem) res" where
  "get_collision act e v i [] rt hm = Ok (False, rt, hm)"
| "get_collision act e v i (s # ss) rt hm =
     (if \<not> (ucast i :: u64) < ncur (ht (fst hm) ! NMHT) then Ok (False, rt, hm)
      else res_bind (seat_read (fst hm) s) (\<lambda>mi.
        if mi = NNULL then get_collision act e v i ss rt hm
        else res_bind (visit act e v s mi rt hm) (\<lambda>(hit, rt1, hm1).
          if hit then Ok (True, rt1, hm1) else get_collision act e v (i + 1) ss rt1 hm1)))"

fun del_loop :: "action \<Rightarrow> ah_env \<Rightarrow> hv \<Rightarrow> nat \<Rightarrow> seat list \<Rightarrow> nid option \<Rightarrow> ahash \<times> mem \<Rightarrow> (nat \<times> nid option \<times> ahash \<times> mem) res" where
  "del_loop act e v i [] rt hm = Ok (i, rt, hm)"
| "del_loop act e v i (s # ss) rt hm =
     res_bind (seat_read (fst hm) s) (\<lambda>mi.
       if mi = NNULL then del_loop act e v i ss rt hm
       else res_bind (visit act e v s mi rt hm) (\<lambda>(hit, rt1, hm1).
         del_loop act e v (if hit then Suc i else i) ss rt1 hm1))"

fun add_loop :: "ah_env \<Rightarrow> nid \<Rightarrow> ptr \<Rightarrow> seat list \<Rightarrow> ahash \<times> mem \<Rightarrow> (bool \<times> ahash \<times> mem) res" where
  "add_loop e ni rtn [] hm = Ok (False, hm)"
| "add_loop e ni rtn (s # ss) hm =
     res_bind (seat_read (fst hm) s) (\<lambda>mi.
       if mi \<noteq> NNULL then add_loop e ni rtn ss hm
       else res_bind (try_add e s ni rtn hm) (\<lambda>(ok, hm1). if ok then Ok (True, hm1) else add_loop e ni rtn ss hm1))"

text \<open>The node \<open>ni\<close> is filled and seated; it goes back to the free list when there is no seat.\<close>

definition add_held :: "ah_env \<Rightarrow> hv \<Rightarrow> ah_node \<Rightarrow> ptr \<Rightarrow> nid \<Rightarrow> ahash \<times> mem \<Rightarrow> (int \<times> ahash \<times> mem) res" where
  "add_held e v p arg ni hm =
     res_bind (set_node (fst hm) ni p) (\<lambda>h2.
     res_bind (add_loop e ni arg (collect_hash_pos h2 v) (h2, snd hm)) (\<lambda>(ok, hm3).
       if ok then Ok (0, hm3)
       else res_bind (if ncur (ht (fst hm3) ! NMHT) < word_of_nat MINTAB then add_loop e ni arg collision_seats hm3 else Ok (False, hm3)) (\<lambda>(ok2, hm4).
         if ok2 then Ok (0, hm4)
         else
           res_bind (set_node (fst hm4) ni zero_node) (\<lambda>h5.
           res_bind (free_node h5 ni) (\<lambda>h6.
             Ok (-1, add1_stat h6 (\<lambda>t. t\<lparr>add_nosit := add_nosit t + 1\<rparr>), snd hm4))))))"

definition new_entry :: "ah_env \<Rightarrow> hv \<Rightarrow> value_t \<Rightarrow> int \<Rightarrow> ah_node" where
  "new_entry e v d init_ttl = \<lparr>nv = v, nexpire = (if init_ttl > 0 then word_of_int init_ttl + now_ms e else 0), ndata = d\<rparr>"

definition add_new :: "ah_env \<Rightarrow> hv \<Rightarrow> value_t \<Rightarrow> int \<Rightarrow> ptr \<Rightarrow> nid \<Rightarrow> ahash \<times> mem \<Rightarrow> (int \<times> ahash \<times> mem) res" where
  "add_new e v d init_ttl arg ni0 hm =
     res_bind (if ni0 = NNULL then new_node (calloc_ok e) (fst hm) else Ok (ni0, fst hm)) (\<lambda>(ni, h1).
       if ni = NNULL then Ok (-2, h1, snd hm) else add_held e v (new_entry e v d init_ttl) arg ni (h1, snd hm))"

text \<open>The search of \<open>atomic_hash_add\<close>; an expired node it removes is kept for the new entry.\<close>

definition dup_search :: "ah_env \<Rightarrow> hv \<Rightarrow> ah_hook option \<Rightarrow> ptr \<Rightarrow> ahash \<times> mem \<Rightarrow> (bool \<times> nid option \<times> ahash \<times> mem) res" where
  "dup_search e v cbf_dup arg hm =
     res_bind (find_loop (try_dup e v cbf_dup arg) e v (collect_hash_pos (fst hm) v) (Some NNULL) hm) (\<lambda>(hit, rt, hm1).
       if hit then Ok (True, rt, hm1)
       else add_collision (try_dup e v cbf_dup arg) e v (ucast (ncur (ht (fst hm1) ! NMHT))) collision_seats rt hm1)"

definition hash_add :: "ah_env \<Rightarrow> hv \<Rightarrow> value_t \<Rightarrow> int \<Rightarrow> ah_hook option \<Rightarrow> ptr \<Rightarrow> ahash \<times> mem \<Rightarrow> (int \<times> ahash \<times> mem) res" where
  "hash_add e v d init_ttl cbf_dup arg hm =
     res_bind (dup_search e v cbf_dup arg hm) (\<lambda>(hit, rt, hm2).
       if hit then res_bind (if the rt \<noteq> NNULL then free_node (fst hm2) (the rt) else Ok (fst hm2)) (\<lambda>h3. Ok (1, h3, snd hm2))
       else add_new e v d init_ttl arg (the rt) hm2)"

definition atomic_hash_add :: "ah_env \<Rightarrow> block \<Rightarrow> int \<Rightarrow> value_t \<Rightarrow> int \<Rightarrow> ah_hook option \<Rightarrow> ptr \<Rightarrow> ahash \<times> mem \<Rightarrow> (int \<times> ahash \<times> mem) res" where
  "atomic_hash_add e kwd len d init_ttl cbf_dup arg hm =
     res_bind (key_of (fst hm) kwd len) (\<lambda>k. case k of None \<Rightarrow> Ok (-3, hm) | Some v \<Rightarrow> hash_add e v d init_ttl cbf_dup arg hm)"

definition hash_get :: "ah_env \<Rightarrow> hv \<Rightarrow> ah_hook option \<Rightarrow> ptr \<Rightarrow> ahash \<times> mem \<Rightarrow> (int \<times> ahash \<times> mem) res" where
  "hash_get e v cbf arg hm =
     res_bind (find_loop (try_get e v cbf arg) e v (collect_hash_pos (fst hm) v) None hm) (\<lambda>(hit, rt, hm1).
     res_bind (if hit then Ok (True, rt, hm1) else get_collision (try_get e v cbf arg) e v 0 collision_seats rt hm1) (\<lambda>(hit2, rt2, hm2).
       if hit2 then Ok (0, hm2)
       else Ok (-1, add1_stat (fst hm2) (\<lambda>t. t\<lparr>get_nohit := get_nohit t + 1\<rparr>), snd hm2)))"

definition atomic_hash_get :: "ah_env \<Rightarrow> block \<Rightarrow> int \<Rightarrow> ah_hook option \<Rightarrow> ptr \<Rightarrow> ahash \<times> mem \<Rightarrow> (int \<times> ahash \<times> mem) res" where
  "atomic_hash_get e kwd len cbf arg hm =
     res_bind (key_of (fst hm) kwd len) (\<lambda>k. case k of None \<Rightarrow> Ok (-3, hm) | Some v \<Rightarrow> hash_get e v cbf arg hm)"

definition hash_del :: "ah_env \<Rightarrow> hv \<Rightarrow> ah_hook option \<Rightarrow> ptr \<Rightarrow> ahash \<times> mem \<Rightarrow> (int \<times> ahash \<times> mem) res" where
  "hash_del e v cbf arg hm =
     res_bind (del_loop (try_del v cbf arg) e v 0 (collect_hash_pos (fst hm) v) None hm) (\<lambda>(i, rt, hm1).
     res_bind (if ncur (ht (fst hm1) ! NMHT) > 0 then del_loop (try_del v cbf arg) e v i collision_seats rt hm1 else Ok (i, rt, hm1)) (\<lambda>(i2, rt2, hm2).
       if i2 > 0 then Ok (0, hm2)
       else Ok (-1, add1_stat (fst hm2) (\<lambda>t. t\<lparr>del_nohit := del_nohit t + 1\<rparr>), snd hm2)))"

definition atomic_hash_del :: "ah_env \<Rightarrow> block \<Rightarrow> int \<Rightarrow> ah_hook option \<Rightarrow> ptr \<Rightarrow> ahash \<times> mem \<Rightarrow> (int \<times> ahash \<times> mem) res" where
  "atomic_hash_del e kwd len cbf arg hm =
     res_bind (key_of (fst hm) kwd len) (\<lambda>k. case k of None \<Rightarrow> Ok (-3, hm) | Some v \<Rightarrow> hash_del e v cbf arg hm)"

end
