(* ===== verification/Ahash_Pool.thy ===== *)
theory Ahash_Pool
  imports Ahash "HOL-Library.Multiset"
begin

text \<open>
  The node pool of the atomic hash: the blocks hold exactly the indices below the number of nodes
  allocated, a store to one node leaves the others alone, and the free list is a chain through the
  first bytes of the free nodes.
\<close>

unbundle bit_operations_syntax

section \<open>Stores of cells\<close>

text \<open>The free list: from \<open>f\<close> through the nodes \<open>xs\<close> to \<open>NNULL\<close>.\<close>

fun chain :: "(nid \<Rightarrow> ah_node res) \<Rightarrow> nid \<Rightarrow> nid list \<Rightarrow> bool" where
  "chain r f [] \<longleftrightarrow> f = NNULL"
| "chain r f (x # xs) \<longleftrightarrow> f = x \<and> x \<noteq> NNULL \<and> (\<exists>p. r x = Ok p \<and> chain r (node_mi p) xs)"

lemma chain_upd_other [simp]: "i \<notin> set xs \<Longrightarrow> chain (r(i := q)) f xs \<longleftrightarrow> chain r f xs"
  by (induction xs arbitrary: f) auto

lemma chain_NNULL [simp]: "chain r NNULL xs \<longleftrightarrow> xs = []"
  by (cases xs) auto

lemma chain_mono: "chain r f xs \<Longrightarrow> (\<And>x. x \<in> set xs \<Longrightarrow> r' x = r x) \<Longrightarrow> chain r' f xs"
  by (induction xs arbitrary: f) fastforce+

lemma node_mi_set_link [simp]: "node_mi (set_link p f) = f"
proof -
  have "ucast (link f 0) = f" by (rule bit_word_eqI) (auto simp: link_def bit_simps)
  then show ?thesis by (simp add: node_mi_def set_link_def)
qed

text \<open>
  A store of cells: a cell that can be read can be written, and a write changes only that cell.
\<close>

locale cells =
  fixes inv :: "'s \<Rightarrow> bool" and rd :: "'s \<Rightarrow> nid \<Rightarrow> ah_node res" and wr :: "'s \<Rightarrow> nid \<Rightarrow> ah_node \<Rightarrow> 's res"
  assumes wr_rd: "inv s \<Longrightarrow> rd s i = Ok p \<Longrightarrow> \<exists>s'. wr s i q = Ok s' \<and> inv s' \<and> rd s' = (rd s)(i := Ok q)"
begin

lemma wr_Ok:
  assumes "inv s" and "rd s i = Ok p"
  obtains s' where "wr s i q = Ok s'" and "inv s'" and "rd s' = (rd s)(i := Ok q)"
  using wr_rd [OF assms] by blast

lemma wr_twice:
  assumes "inv s" and "rd s i = Ok p"
  shows "\<exists>s1 s2. wr s i q = Ok s1 \<and> wr s1 i q' = Ok s2 \<and> inv s2 \<and> rd s2 = (rd s)(i := Ok q')"
proof -
  obtain s1 where 1: "wr s i q = Ok s1" "inv s1" "rd s1 = (rd s)(i := Ok q)" by (rule wr_Ok [OF assms])
  moreover obtain s2 where "wr s1 i q' = Ok s2" "inv s2" "rd s2 = (rd s1)(i := Ok q')"
    by (rule wr_Ok [OF 1(2), of i q]) (use 1 in auto)
  ultimately show ?thesis by auto
qed

lemma push_chain:
  assumes "inv s" and "rd s i = Ok p" and "chain (rd s) f xs" and "i \<notin> set xs" and "i \<noteq> NNULL"
  shows "\<exists>s'. wr s i (set_link p f) = Ok s' \<and> inv s' \<and> chain (rd s') i (i # xs) \<and> rd s' = (rd s)(i := Ok (set_link p f))"
  using wr_rd [OF assms(1,2), of "set_link p f"] assms(3-) by auto

end

section \<open>The blocks\<close>

abbreviation shift_of :: "mem_pool \<Rightarrow> nat" where "shift_of mp \<equiv> unat (pshift mp)"
abbreviation blocks_of :: "mem_pool \<Rightarrow> nat" where "blocks_of mp \<equiv> unat (curr_blocks mp)"

definition pool_nodes :: "mem_pool \<Rightarrow> nat" where
  "pool_nodes mp = blocks_of mp * 2 ^ shift_of mp"

definition pool_ok :: "mem_pool \<Rightarrow> bool" where
  "pool_ok mp \<longleftrightarrow> shift_of mp \<le> 22 \<and> pmask mp = 2 ^ shift_of mp - 1 \<and> blk_node_num mp = 2 ^ shift_of mp
     \<and> max_blocks mp = 512 \<and> length (ba mp) = 512 \<and> blocks_of mp \<le> 512
     \<and> (\<forall>k<512. case ba mp ! k of None \<Rightarrow> blocks_of mp \<le> k
                 | Some blk \<Rightarrow> k < blocks_of mp \<and> length blk = 2 ^ shift_of mp)"

lemma pool_okD:
  assumes "pool_ok mp"
  shows "shift_of mp \<le> 22" and "pmask mp = 2 ^ shift_of mp - 1" and "blk_node_num mp = 2 ^ shift_of mp"
    and "max_blocks mp = 512" and "length (ba mp) = 512" and "blocks_of mp \<le> 512"
  using assms by (simp_all add: pool_ok_def)

lemma pool_block:
  assumes "pool_ok mp" and "k < blocks_of mp"
  obtains blk where "ba mp ! k = Some blk" and "length blk = 2 ^ shift_of mp"
proof -
  from assms have "k < 512" using pool_okD(6) by fastforce
  with assms(1) have "case ba mp ! k of None \<Rightarrow> blocks_of mp \<le> k
                 | Some blk \<Rightarrow> k < blocks_of mp \<and> length blk = 2 ^ shift_of mp"
    by (simp add: pool_ok_def)
  with assms(2) that show ?thesis by (cases "ba mp ! k") auto
qed

lemma pool_no_block: "pool_ok mp \<Longrightarrow> blocks_of mp \<le> k \<Longrightarrow> k < 512 \<Longrightarrow> ba mp ! k = None"
  by (auto simp: pool_ok_def split: option.splits dest!: spec [of _ k])

lemma pool_nodes_less: "pool_ok mp \<Longrightarrow> pool_nodes mp \<le> 2 ^ 31"
proof -
  assume a: "pool_ok mp"
  have "pool_nodes mp \<le> 512 * 2 ^ 22" unfolding pool_nodes_def
    using pool_okD(6) [OF a] power_increasing [OF pool_okD(1) [OF a], of "2 :: nat"] by (intro mult_mono) auto
  then show ?thesis by simp
qed

lemma index_split:
  assumes "pool_ok mp"
  shows "unat (drop_bit (shift_of mp) i) = unat i div 2 ^ shift_of mp"
    and "unat (i AND pmask mp) = unat i mod 2 ^ shift_of mp"
proof -
  show "unat (drop_bit (shift_of mp) i) = unat i div 2 ^ shift_of mp"
    by (metis unat_drop_bit_eq drop_bit_eq_div)
  have "i AND pmask mp = take_bit (shift_of mp) i"
    using pool_okD(2) [OF assms] by (simp add: take_bit_eq_mask mask_eq_exp_minus_1)
  then show "unat (i AND pmask mp) = unat i mod 2 ^ shift_of mp"
    by (metis unsigned_take_bit_eq take_bit_eq_mod)
qed

lemma node_at_split:
  assumes "pool_ok mp"
  shows "node_at mp i = (if unat i div 2 ^ shift_of mp < 512 then
      (case ba mp ! (unat i div 2 ^ shift_of mp) of None \<Rightarrow> Fault NullDeref
       | Some blk \<Rightarrow> if unat i mod 2 ^ shift_of mp < length blk then Ok (blk ! (unat i mod 2 ^ shift_of mp)) else Fault OutOfBounds)
     else Fault OutOfBounds)"
  using pool_okD(5) [OF assms] by (simp add: node_at_def index_split [OF assms] Let_def)

lemma index_block: "unat i < pool_nodes mp \<longleftrightarrow> unat i div 2 ^ shift_of mp < blocks_of mp"
  by (simp add: pool_nodes_def div_less_iff_less_mult)

lemma node_at_valid:
  assumes "pool_ok mp" and "unat i < pool_nodes mp"
  shows "\<exists>p. node_at mp i = Ok p"
  using pool_block [OF assms(1) iffD1 [OF index_block assms(2)]] pool_okD(5,6) [OF assms(1)]
    iffD1 [OF index_block assms(2)]
  by (fastforce simp: node_at_def index_split [OF assms(1)] Let_def)

lemma node_at_invalid:
  assumes "pool_ok mp" and "\<not> unat i < pool_nodes mp"
  shows "\<exists>f. node_at mp i = Fault f"
  using pool_no_block [OF assms(1), of "unat i div 2 ^ shift_of mp"] assms(2) pool_okD(5) [OF assms(1)]
  by (auto simp: node_at_def index_split [OF assms(1)] Let_def index_block)

lemma node_at_iff: "pool_ok mp \<Longrightarrow> (\<exists>p. node_at mp i = Ok p) \<longleftrightarrow> unat i < pool_nodes mp"
  using node_at_valid node_at_invalid by fastforce

lemma pool_index_not_NNULL: "pool_ok mp \<Longrightarrow> unat i < pool_nodes mp \<Longrightarrow> i \<noteq> NNULL"
  using pool_nodes_less [of mp] by (auto simp: NNULL_def)

lemma node_put_Ok:
  assumes "pool_ok mp" and "node_at mp i = Ok p"
  shows "\<exists>mp'. node_put mp i q = Ok mp' \<and> pool_ok mp' \<and> node_at mp' = (node_at mp)(i := Ok q)
    \<and> mp' = mp\<lparr>ba := ba mp'\<rparr>"
proof -
  let ?s = "shift_of mp" and ?k = "unat i div 2 ^ shift_of mp" and ?o = "unat i mod 2 ^ shift_of mp"
  from assms have i: "unat i < pool_nodes mp" using node_at_iff by blast
  then have k: "?k < blocks_of mp" by (simp add: index_block)
  then have k': "?k < 512" "length (ba mp) = 512" using pool_okD(5,6) [OF assms(1)] by auto
  obtain blk where b: "ba mp ! ?k = Some blk" "length blk = 2 ^ ?s" using pool_block [OF assms(1) k] .
  let ?mp = "mp\<lparr>ba := (ba mp)[?k := Some (blk[?o := q])]\<rparr>"
  have put: "node_put mp i q = Ok ?mp" using k k' b by (simp add: node_put_def index_split [OF assms(1)] Let_def)
  have ok: "pool_ok ?mp" using assms(1) k b k' by (auto simp: pool_ok_def nth_list_update split: option.splits)
  have "node_at ?mp j = ((node_at mp)(i := Ok q)) j" for j
  proof (cases "j = i")
    case True
    then show ?thesis using k' b by (simp add: node_at_def index_split [OF assms(1)] Let_def)
  next
    case False
    then have ne: "unat j div 2 ^ ?s \<noteq> ?k \<or> unat j mod 2 ^ ?s \<noteq> ?o"
      by (metis div_mult_mod_eq word_unat_eq_iff)
    with False k' b show ?thesis
      by (auto simp: node_at_def index_split [OF assms(1)] Let_def nth_list_update split: option.splits)
  qed
  with put ok show ?thesis by (intro exI [of _ ?mp]) auto
qed

interpretation pool: cells pool_ok node_at node_put
  by unfold_locales (use node_put_Ok in blast)

interpretation tab: cells "\<lambda>h. pool_ok (amp h)" "\<lambda>h. node_at (amp h)" set_node
proof (unfold_locales, goal_cases)
  case (1 h i p q)
  then show ?case using pool.wr_rd [of "amp h" i p q] by (auto simp: set_node_def)
qed

section \<open>New blocks\<close>

lemma nid_small: "n < 2 ^ 31 \<Longrightarrow> unat (word_of_nat n :: nid) = n"
  by (simp add: unat_of_nat)

definition pool_ids :: "mem_pool \<Rightarrow> nid multiset" where
  "pool_ids mp = mset (map word_of_nat [0..<pool_nodes mp])"

lemma pool_ids_iff: "pool_ok mp \<Longrightarrow> i \<in># pool_ids mp \<longleftrightarrow> unat i < pool_nodes mp"
proof -
  assume a: "pool_ok mp"
  have "i = word_of_nat n \<longleftrightarrow> unat i = n" if "n < pool_nodes mp" for n
    using that pool_nodes_less [OF a] by (auto simp: nid_small)
  then show ?thesis by (auto simp: pool_ids_def image_iff)
qed

lemma pool_ids_distinct:
  assumes "pool_ok mp"
  shows "distinct (map (word_of_nat :: nat \<Rightarrow> nid) [0..<pool_nodes mp])"
proof -
  have "inj_on (word_of_nat :: nat \<Rightarrow> nid) {0..<pool_nodes mp}"
    using pool_nodes_less [OF assms] by (intro inj_onI) (metis atLeastLessThan_iff less_le_trans nid_small)
  then show ?thesis by (simp add: distinct_map)
qed

lemma pool_ids_once: "pool_ok mp \<Longrightarrow> count (pool_ids mp) i \<le> 1"
  using pool_ids_distinct [of mp] by (simp add: pool_ids_def distinct_count_atmost_1)

lemma card_pool_ids: "pool_ok mp \<Longrightarrow> card (set_mset (pool_ids mp)) = size (pool_ids mp)"
  using distinct_card [OF pool_ids_distinct [of mp]] by (simp add: pool_ids_def)

text \<open>A chain that ends at \<open>z\<close> instead of \<open>NNULL\<close>.\<close>

lemma chain_block:
  assumes "\<And>k. k < n \<Longrightarrow> r (a + word_of_nat k) = Ok (blk k) \<and> a + word_of_nat k \<noteq> NNULL"
    and "\<And>k. Suc k < n \<Longrightarrow> node_mi (blk k) = a + word_of_nat (Suc k)"
    and "0 < n" and "node_mi (blk (n - 1)) = z" and "chain r z xs"
  shows "chain r a (map (\<lambda>k. a + word_of_nat k) [0..<n] @ xs)"
proof -
  have "j < n \<Longrightarrow> chain r (a + word_of_nat j) (map (\<lambda>k. a + word_of_nat k) [j..<n] @ xs)" for j
  proof (induction "n - j" arbitrary: j)
    case 0
    then show ?case by simp
  next
    case (Suc d)
    show ?case
    proof (cases "Suc j < n")
      case True
      have "d = n - Suc j" using Suc(2) True by simp
      from Suc(1) [OF this True] True assms(1) [of j] assms(2) [of j] show ?thesis by (simp add: upt_conv_Cons [of j] del: of_nat_Suc)
    next
      case False
      with Suc(3) have "n = Suc j" by simp
      with assms(1) [of j] assms(4,5) show ?thesis by simp
    qed
  qed
  from this [of 0] assms(3) show ?thesis by simp
qed



definition block_ids :: "mem_pool \<Rightarrow> nid list" where
  "block_ids mp = map (\<lambda>k. word_of_nat (pool_nodes mp) + word_of_nat k) [0..<2 ^ shift_of mp]"

text \<open>The pool after a block was allocated.\<close>

definition grown :: "mem_pool \<Rightarrow> nid \<Rightarrow> mem_pool" where
  "grown mp after = mp\<lparr>ba := (ba mp)[blocks_of mp := Some (new_block (2 ^ shift_of mp) (2 ^ shift_of mp - 1) (word_of_nat (pool_nodes mp)) after)],
     curr_blocks := curr_blocks mp + 1\<rparr>"

lemma pshift_grown [simp]: "pshift (grown mp a) = pshift mp"
  by (simp add: grown_def)

lemma new_mem_block_spec:
  assumes "pool_ok mp"
  shows "new_mem_block got mp fl =
    (if got \<and> blocks_of mp < 512 then Some (grown mp (fmi fl), \<lparr>fmi = word_of_nat (pool_nodes mp), frfn = frfn fl + 1\<rparr>) else None)"
proof -
  have "word_of_nat (blocks_of mp) * (pmask mp + 1) = word_of_nat (pool_nodes mp)"
    using pool_okD(2) [OF assms] by (simp add: pool_nodes_def)
  moreover have "find (\<lambda>i. ba mp ! i = None) [blocks_of mp..<512] = (if blocks_of mp < 512 then Some (blocks_of mp) else None)"
    using pool_no_block [OF assms, of "blocks_of mp"] by (simp add: upt_conv_Cons)
  ultimately show ?thesis
    using pool_okD(2-4) [OF assms] by (auto simp: new_mem_block_def grown_def Let_def)
qed

lemma unat_pow2: "s \<le> 22 \<Longrightarrow> unat (2 ^ s :: nid) = 2 ^ s"
  using nid_small [of "2 ^ s"] power_increasing [of s 22 "2 :: nat"] by simp

lemma grown_more:
  assumes "pool_ok mp" and "blocks_of mp < 512"
  shows "blocks_of (grown mp a) = Suc (blocks_of mp)" and "pool_ok (grown mp a)"
    and "pool_nodes (grown mp a) = pool_nodes mp + 2 ^ shift_of mp"
proof -
  show b: "blocks_of (grown mp a) = Suc (blocks_of mp)"
    using assms(2) by (simp add: grown_def unat_word_ariths)
  then show "pool_nodes (grown mp a) = pool_nodes mp + 2 ^ shift_of mp"
    by (simp add: pool_nodes_def grown_def)
  have "length (new_block (2 ^ shift_of mp) m hd' a) = 2 ^ shift_of mp" for m hd'
    using pool_okD(1) [OF assms(1)] by (simp add: new_block_def unat_pow2)
  with assms b show "pool_ok (grown mp a)"
    by (auto simp: pool_ok_def grown_def nth_list_update split: option.splits)
qed

lemma new_index_small:
  assumes "pool_ok mp" and "blocks_of mp < 512" and "k < 2 ^ shift_of mp"
  shows "unat (word_of_nat (pool_nodes mp) + word_of_nat k :: nid) = pool_nodes mp + k"
proof -
  have "pool_nodes mp + k < 2 ^ 31"
    using pool_nodes_less [OF grown_more(2) [OF assms(1,2)]] grown_more(3) [OF assms(1,2)] assms(3) by simp
  then have "unat (word_of_nat (pool_nodes mp + k) :: nid) = pool_nodes mp + k" by (rule nid_small)
  then show ?thesis by simp
qed

lemma grown_new:
  assumes "pool_ok mp" and "blocks_of mp < 512" and "k < 2 ^ shift_of mp"
  shows "node_at (grown mp a) (word_of_nat (pool_nodes mp) + word_of_nat k) =
    Ok (set_link zero_node (if Suc k < 2 ^ shift_of mp then word_of_nat (pool_nodes mp) + word_of_nat (Suc k) else a))"
proof -
  have s: "shift_of mp \<le> 22" "length (ba mp) = 512" using pool_okD [OF assms(1)] by auto
  have d: "(pool_nodes mp + k) div 2 ^ shift_of mp = blocks_of mp" "(pool_nodes mp + k) mod 2 ^ shift_of mp = k"
    using assms(3) by (simp_all add: pool_nodes_def)
  have "unat (2 ^ shift_of mp - 1 :: nid) = 2 ^ shift_of mp - 1"
    using unat_pow2 [OF s(1)] by (subst unat_sub) (auto simp: word_le_nat_alt)
  with node_at_split [OF grown_more(2) [OF assms(1,2)]] new_index_small [OF assms] s assms(2,3) d unat_pow2 [OF s(1)]
  show ?thesis by (auto simp: grown_def new_block_def less_diff_conv ac_simps)
qed

lemma grown_old:
  assumes "pool_ok mp" and "blocks_of mp < 512" and "unat i < pool_nodes mp"
  shows "node_at (grown mp a) i = node_at mp i"
  using assms(3) by (simp add: node_at_split [OF assms(1)] node_at_split [OF grown_more(2) [OF assms(1,2)]])
    (simp add: grown_def index_block split: option.splits)



lemma chain_grown:
  assumes "pool_ok mp" and "blocks_of mp < 512" and "chain (node_at mp) a fs" and "\<forall>i\<in>set fs. unat i < pool_nodes mp"
  shows "chain (node_at (grown mp a)) (word_of_nat (pool_nodes mp)) (block_ids mp @ fs)"
  unfolding block_ids_def
proof (rule chain_block [where z = a])
  show "chain (node_at (grown mp a)) a fs"
    using assms(3) by (rule chain_mono) (use grown_old [OF assms(1,2)] assms(4) in auto)
  show "node_at (grown mp a) (word_of_nat (pool_nodes mp) + word_of_nat k) =
      Ok (set_link zero_node (if Suc k < 2 ^ shift_of mp then word_of_nat (pool_nodes mp) + word_of_nat (Suc k) else a))
      \<and> word_of_nat (pool_nodes mp) + word_of_nat k \<noteq> NNULL" if "k < 2 ^ shift_of mp" for k
    using grown_new [OF assms(1,2) that] new_index_small [OF assms(1,2) that] that grown_more(2,3) [OF assms(1,2)]
      pool_index_not_NNULL [OF grown_more(2) [OF assms(1,2)]] by auto
qed auto

lemma pool_ids_grown:
  assumes "pool_ok mp" and "blocks_of mp < 512"
  shows "pool_ids (grown mp a) = pool_ids mp + mset (block_ids mp)"
proof -
  have "[0..<pool_nodes mp + 2 ^ shift_of mp] = [0..<pool_nodes mp] @ map (\<lambda>k. pool_nodes mp + k) [0..<2 ^ shift_of mp]"
    using map_add_upt [of "pool_nodes mp" "2 ^ shift_of mp"] upt_add_eq_append [of 0 "pool_nodes mp" "2 ^ shift_of mp"]
    by (simp add: add.commute)
  then show ?thesis
    by (simp add: pool_ids_def block_ids_def grown_more(3) [OF assms] o_def)
qed

section \<open>Creating the pool\<close>

lemma pow2_less: "k < 32 \<Longrightarrow> 2 ^ k < (n :: u32) \<longleftrightarrow> 2 ^ k < unat n"
proof -
  assume "k < 32"
  then have "unat (word_of_nat (2 ^ k) :: u32) = 2 ^ k"
    using power_strict_increasing [of k 32 "2 :: nat"] by (subst unat_of_nat) simp
  then show ?thesis by (simp add: word_less_nat_alt)
qed

lemma pwr2_Ok: "pwr2 k n = Ok p \<Longrightarrow> p < 32 \<and> unat n \<le> 2 ^ p \<and> (p = k \<or> k < p \<and> 2 ^ (p - 1) < unat n)"
proof (induction k n rule: pwr2.induct)
  case (1 k n)
  from "1.prems" have k: "k < 32" by (subst (asm) pwr2.simps) (auto split: if_splits)
  show ?case
  proof (cases "2 ^ k < unat n")
    case True
    with k have "push_bit k 1 < n" by (simp add: pow2_less)
    moreover from this "1.prems" k have "pwr2 (Suc k) n = Ok p" by (subst (asm) pwr2.simps) simp
    ultimately show ?thesis using "1.IH" k True by fastforce
  next
    case False
    with "1.prems" k show ?thesis by (subst (asm) pwr2.simps) (auto simp: pow2_less)
  qed
qed

lemma pwr2_total: "k < 32 \<Longrightarrow> unat n \<le> 2 ^ 31 \<Longrightarrow> \<exists>p. pwr2 k n = Ok p"
proof (induction k n rule: pwr2.induct)
  case (1 k n)
  show ?case
  proof (cases "2 ^ k < unat n")
    case True
    with "1.prems" have "(2 :: nat) ^ k < 2 ^ 31" by (simp only: less_le_trans)
    then have "k < 31" by (rule power_less_imp_less_exp [rotated]) simp
    with "1.IH" "1.prems" True show ?thesis by (subst pwr2.simps) (simp add: pow2_less)
  next
    case False
    with "1.prems" show ?thesis by (subst pwr2.simps) (simp add: pow2_less)
  qed
qed

lemma pwr2_diverges: "2 ^ 31 < unat n \<Longrightarrow> pwr2 k n = Fault Diverges"
proof (induction k n rule: pwr2.induct)
  case (1 k n)
  show ?case
  proof (cases "k < 32")
    case True
    then have "(2 :: nat) ^ k \<le> 2 ^ 31" by (intro power_increasing) auto
    from this "1.prems" have "2 ^ k < unat n" by (rule le_less_trans)
    with 1 True show ?thesis by (subst pwr2.simps) (simp add: pow2_less)
  qed (subst pwr2.simps, simp)
qed

lemma pwr2_node: "pwr2 0 sizeof_node = Ok 5" "pwr2 0 32 = Ok 5"
  by (simp_all add: sizeof_node_def pwr2.simps)

definition capacity :: "mem_pool \<Rightarrow> nat" where
  "capacity mp = unat (max_blocks mp) * unat (blk_node_num mp)"

lemma pool_of_ok:
  assumes "0 < p" and "p < 32"
  shows "pool_ok (pool_of p 5)" and "blocks_of (pool_of p 5) = 0" and "capacity (pool_of p 5) = max 65536 (2 ^ p)"
proof -
  have s: "shift_of (pool_of p 5) = (if p \<le> 16 then 7 else p - 9)"
    using assms nid_small [of "p - 9"] by (auto simp: pool_of_def Let_def PW2_MAX_BLK_PTR_def PW2_MIN_BLK_SIZ_def)
  have "(if p \<le> 16 then 7 else p - 9) \<le> 22" using assms by auto
  then show "pool_ok (pool_of p 5)"
    using s by (auto simp: pool_ok_def) (auto simp: pool_of_def Let_def PW2_MAX_BLK_PTR_def PW2_MIN_BLK_SIZ_def)
  then have "unat (blk_node_num (pool_of p 5)) = 2 ^ (if p \<le> 16 then 7 else p - 9)"
    using s pool_okD(1,3) unat_pow2 by metis
  moreover have "p > 16 \<Longrightarrow> (2 :: nat) ^ 16 \<le> 2 ^ p" by (intro power_increasing) auto
  moreover have "p \<le> 16 \<Longrightarrow> (2 :: nat) ^ p \<le> 2 ^ 16" by (intro power_increasing) auto
  moreover have "p > 16 \<Longrightarrow> (512 :: nat) * 2 ^ (p - 9) = 2 ^ p" using power_add [of "2 :: nat" 9 "p - 9"] by simp
  moreover have "unat (max_blocks (pool_of p 5)) = 512" by (simp add: pool_of_def Let_def PW2_MAX_BLK_PTR_def)
  ultimately show "capacity (pool_of p 5) = max 65536 (2 ^ p)" by (auto simp: capacity_def)
qed (simp add: pool_of_def Let_def)

lemma create_mem_pool_Some:
  assumes "2 \<le> unat nodes" and "create_mem_pool nodes sizeof_node a b = Ok (Some mp)"
  shows "pool_ok mp" and "blocks_of mp = 0" and "unat nodes \<le> capacity mp" and "capacity mp < max 65537 (2 * unat nodes)"
    and "65536 \<le> capacity mp"
proof -
  from assms(2) obtain p where p: "pwr2 0 nodes = Ok p" and mp: "mp = pool_of (if p = 0 \<or> p > 32 then 32 else p) 5"
    by (auto simp: create_mem_pool_def pwr2_node Let_def res_bind_Ok_iff split: if_splits)
  from pwr2_Ok [OF p] assms(1) have b: "0 < p" "p < 32" "unat nodes \<le> 2 ^ p" "2 ^ (p - 1) < unat nodes"
    by (auto intro: ccontr)
  then have mp': "mp = pool_of p 5" using mp by simp
  have "2 ^ p = 2 * (2 :: nat) ^ (p - 1)" using b(1) by (metis power_minus_mult mult.commute)
  with b pool_of_ok [OF b(1,2)] show "pool_ok mp" "blocks_of mp = 0" "unat nodes \<le> capacity mp"
      "capacity mp < max 65537 (2 * unat nodes)" "65536 \<le> capacity mp" by (auto simp: mp')
qed

text \<open>
  The pool of a table for \<open>nodes\<close> nodes is created whenever \<open>nodes\<close> is at most 2^31 and the allocator
  answers, and then it has room for that many nodes, for fewer than twice as many unless they fit into
  the 512 pages it has at least, and no index of a node is the \<open>NNULL\<close> that marks an empty seat.
  For more nodes the search for the power of two does not end.
\<close>

theorem create_mem_pool_exact:
  assumes "2 \<le> unat nodes"
  shows "if 2 ^ 31 < unat nodes then create_mem_pool nodes sizeof_node True True = Fault Diverges
    else \<exists>mp. create_mem_pool nodes sizeof_node True True = Ok (Some mp) \<and> unat nodes \<le> capacity mp
      \<and> capacity mp < max 65537 (2 * unat nodes) \<and> capacity mp \<le> unat NNULL"
proof (cases "2 ^ 31 < unat nodes")
  case True
  then show ?thesis by (simp add: create_mem_pool_def pwr2_diverges)
next
  case False
  then obtain p where "pwr2 0 nodes = Ok p" using pwr2_total [of 0 nodes] by auto
  then obtain mp where mp: "create_mem_pool nodes sizeof_node True True = Ok (Some mp)"
    by (simp add: create_mem_pool_def pwr2_node sizeof_node_def Let_def)
  have "capacity mp \<le> 512 * 2 ^ 22" using pool_okD [OF create_mem_pool_Some(1) [OF assms mp]]
      power_increasing [of "shift_of mp" 22 "2 :: nat"] by (simp add: capacity_def unat_pow2)
  then show ?thesis using mp create_mem_pool_Some [OF assms mp] False by (simp add: NNULL_def)
qed

theorem create_mem_pool_exact_witness:
  "\<exists>mp. create_mem_pool 100000 sizeof_node True True = Ok (Some mp) \<and> 100000 \<le> capacity mp \<and> capacity mp < 200000"
  using create_mem_pool_exact [of 100000] by auto



end
