(* ===== verification/Ahash_Inv.thy ===== *)
theory Ahash_Inv
  imports Ahash_Pool
begin

text \<open>
  The invariant of the atomic hash: every node of the pool is in the free list, in exactly one seat,
  or held by the operation that is running, and the counters of the arrays are exact. Every
  operation keeps it, whatever the keys, the hooks, the clock and the allocator do.
\<close>

section \<open>Seats and nodes\<close>

definition seated :: "ahash \<Rightarrow> nid multiset" where
  "seated h = filter_mset (\<lambda>m. m \<noteq> NNULL) (mset (concat (map buckets (ht h))))"

definition used_seats :: "htab \<Rightarrow> nat" where
  "used_seats tb = length (filter (\<lambda>m. m \<noteq> NNULL) (buckets tb))"

definition tab_ok :: "htab \<Rightarrow> bool" where
  "tab_ok tb \<longleftrightarrow> unat (nb tb) = length (buckets tb) \<and> 0 < length (buckets tb) \<and> ncur tb = word_of_nat (used_seats tb)"

definition tabs_ok :: "ahash \<Rightarrow> bool" where
  "tabs_ok h \<longleftrightarrow> length (ht h) = 3 \<and> (\<forall>t<3. tab_ok (ht h ! t)) \<and> length (buckets (ht h ! NMHT)) = MINTAB
     \<and> on_add h \<noteq> None \<and> on_dup h \<noteq> None \<and> on_get h \<noteq> None \<and> on_del h \<noteq> None"

text \<open>\<open>pv\<close> are the nodes that the operation in progress holds.\<close>

definition ah_inv :: "nid list \<Rightarrow> ahash \<Rightarrow> bool" where
  "ah_inv pv h \<longleftrightarrow> tabs_ok h \<and> pool_ok (amp h) \<and>
     (\<exists>fs. chain (node_at (amp h)) (fmi (freelist h)) fs \<and> mset fs + mset pv + seated h = pool_ids (amp h))"

lemma mset_concat_update:
  "t < length xs \<Longrightarrow> mset (concat (map f (xs[t := y]))) + mset (f (xs ! t)) = mset (concat (map f xs)) + mset (f y)"
proof (induction xs arbitrary: t)
  case (Cons x xs)
  then show ?case by (cases t) (auto simp: ac_simps)
qed simp

lemma mset_list_update: "j < length xs \<Longrightarrow> mset (xs[j := y]) + {#xs ! j#} = mset xs + {#y#}"
  by (simp add: mset_update)

lemma mset_exchange:
  fixes A :: "'a multiset"
  assumes "A + B = C + D" and "D + E = B + F"
  shows "A + E = C + F"
proof -
  have "(A + E) + B = (A + B) + E" by (simp add: ac_simps)
  also have "\<dots> = C + (D + E)" by (simp only: assms(1) add.assoc)
  also have "\<dots> = (C + F) + B" by (simp only: assms(2)) (simp add: ac_simps)
  finally show ?thesis by simp
qed

lemma filter_update:
  "j < length xs \<Longrightarrow> length (filter P (xs[j := y])) + (if P (xs ! j) then 1 else 0) = length (filter P xs) + (if P y then 1 else 0)"
  using arg_cong [OF mset_list_update [of j xs y], of "\<lambda>M. size (filter_mset P M)"]
  by (simp add: size_mset [symmetric] del: size_mset split: if_splits)

lemma seat_read_iff:
  "seat_read h s = Ok mi \<longleftrightarrow> fst s < length (ht h) \<and> snd s < length (buckets (ht h ! fst s)) \<and> buckets (ht h ! fst s) ! snd s = mi"
  by (auto simp: seat_read_def split: prod.splits)

lemma seat_read_cong: "ht h' = ht h \<Longrightarrow> seat_read h' = seat_read h"
  by (rule ext) (simp add: seat_read_def split: prod.splits)

lemma seated_write:
  assumes "seat_read h s = Ok old"
  shows "seated (seat_write h s new) + filter_mset (\<lambda>m. m \<noteq> NNULL) {#old#} = seated h + filter_mset (\<lambda>m. m \<noteq> NNULL) {#new#}"
proof -
  obtain t j where s: "s = (t, j)" by (cases s)
  let ?tb = "(ht h ! t)\<lparr>buckets := (buckets (ht h ! t))[j := new]\<rparr>"
  from assms have r: "t < length (ht h)" "j < length (buckets (ht h ! t))" "buckets (ht h ! t) ! j = old"
    by (auto simp: seat_read_iff s)
  have "mset (concat (map buckets ((ht h)[t := ?tb]))) + mset (buckets (ht h ! t)) =
      mset (concat (map buckets (ht h))) + mset (buckets ?tb)" using mset_concat_update [OF r(1)] .
  moreover have "mset (buckets ?tb) + {#old#} = mset (buckets (ht h ! t)) + {#new#}" using mset_list_update [OF r(2)] r(3) by simp
  ultimately have "mset (concat (map buckets ((ht h)[t := ?tb]))) + {#old#} = mset (concat (map buckets (ht h))) + {#new#}"
    by (rule mset_exchange)
  then have "filter_mset (\<lambda>m. m \<noteq> NNULL) (mset (concat (map buckets ((ht h)[t := ?tb]))) + {#old#}) =
      filter_mset (\<lambda>m. m \<noteq> NNULL) (mset (concat (map buckets (ht h))) + {#new#})" by (rule arg_cong)
  then show ?thesis by (simp only: filter_union_mset seated_def seat_write_def s ht_upd_def) (simp add: ht_upd_def)
qed

lemma seat_read_seated: "seat_read h s = Ok mi \<Longrightarrow> mi \<noteq> NNULL \<Longrightarrow> mi \<in># seated h"
  by (auto simp: seat_read_iff seated_def) (metis nth_mem)

lemma seat_read_write:
  "seat_read h s = Ok old \<Longrightarrow> seat_read (seat_write h s new) s' = (if s' = s then Ok new else seat_read h s')"
  by (cases s; cases s') (auto simp: seat_read_def seat_write_def ht_upd_def nth_list_update)

lemma seat_unique:
  assumes "\<And>i. count (seated h) i \<le> 1" and "seat_read h s = Ok mi" and "seat_read h s' = Ok mi" and "mi \<noteq> NNULL"
  shows "s' = s"
proof (rule ccontr)
  assume "s' \<noteq> s"
  with assms(2,3) have "seat_read (seat_write h s NNULL) s' = Ok mi" by (simp add: seat_read_write)
  then have "mi \<in># seated (seat_write h s NNULL)" using assms(4) by (rule seat_read_seated)
  moreover from seated_write [OF assms(2), of NNULL] assms(4)
  have "seated h = add_mset mi (seated (seat_write h s NNULL))" by simp
  ultimately have "2 \<le> count (seated h) mi" by (simp add: Suc_le_eq)
  with assms(1) [of mi] show False by simp
qed

section \<open>The invariant\<close>

lemma ah_invE:
  assumes "ah_inv pv h"
  obtains fs where "tabs_ok h" and "pool_ok (amp h)" and "chain (node_at (amp h)) (fmi (freelist h)) fs"
    and "mset fs + mset pv + seated h = pool_ids (amp h)"
  using assms by (auto simp: ah_inv_def)

lemma ah_inv_parts: "ah_inv pv h \<Longrightarrow> tabs_ok h" "ah_inv pv h \<Longrightarrow> pool_ok (amp h)"
  by (auto simp: ah_inv_def)

lemma owned_not_free:
  assumes "pool_ok mp" and "mset fs + mset pv + S = pool_ids mp" and "i \<in> set pv \<or> i \<in># S"
  shows "i \<notin> set fs"
proof -
  have "count (mset fs) i + count (mset pv) i + count S i \<le> 1"
    using assms(1,2) by (metis count_union pool_ids_once)
  moreover have "0 < count (mset pv) i + count S i" using assms(3) by (metis add_gr_0 count_greater_zero_iff set_mset_mset)
  ultimately have "count (mset fs) i = 0" by linarith
  then show ?thesis by (metis count_eq_zero_iff set_mset_mset)
qed

lemma ah_inv_once:
  assumes "ah_inv pv h"
  shows "count (mset pv) i + count (seated h) i \<le> 1"
proof -
  obtain fs where "pool_ok (amp h)" "mset fs + mset pv + seated h = pool_ids (amp h)" using assms by (rule ah_invE)
  then have "count (mset fs + mset pv + seated h) i \<le> 1" by (metis pool_ids_once)
  then show ?thesis by simp
qed

text \<open>Nodes that a seat or the running operation refers to can be read.\<close>

lemma ah_inv_owned:
  assumes "ah_inv pv h" and "i \<in> set pv \<or> i \<in># seated h"
  shows "\<exists>p. node_at (amp h) i = Ok p" and "i \<noteq> NNULL"
proof -
  obtain fs where f: "pool_ok (amp h)" "mset fs + mset pv + seated h = pool_ids (amp h)" using assms(1) by (rule ah_invE)
  have "i \<in># mset fs + mset pv + seated h" using assms(2) by auto
  then have "unat i < pool_nodes (amp h)" using f by (simp add: pool_ids_iff)
  with f(1) show "\<exists>p. node_at (amp h) i = Ok p" "i \<noteq> NNULL"
    by (simp_all add: node_at_valid pool_index_not_NNULL)
qed

text \<open>What the operations keep: the sizes of the arrays and of the pool, the hooks and the hash function.\<close>

definition same_shape :: "ahash \<Rightarrow> ahash \<Rightarrow> bool" where
  "same_shape h h' \<longleftrightarrow> map nb (ht h') = map nb (ht h) \<and> hash_func h' = hash_func h \<and> on_ttl h' = on_ttl h \<and> on_add h' = on_add h
     \<and> on_dup h' = on_dup h \<and> on_get h' = on_get h \<and> on_del h' = on_del h \<and> reset_expire h' = reset_expire h
     \<and> capacity (amp h') = capacity (amp h)"

lemma same_shape_refl [simp, intro]: "same_shape h h"
  by (simp add: same_shape_def)

lemma same_shape_trans [trans]: "same_shape a b \<Longrightarrow> same_shape b c \<Longrightarrow> same_shape a c"
  by (simp add: same_shape_def)

lemma same_shape_nb: "same_shape h h' \<Longrightarrow> t < length (ht h) \<Longrightarrow> nb (ht h' ! t) = nb (ht h ! t)"
  by (auto simp: same_shape_def) (metis length_map nth_map)

text \<open>The node that a seat refers to.\<close>

definition entry :: "ahash \<Rightarrow> seat \<Rightarrow> ah_node option" where
  "entry h s = (case seat_read h s of Fault f \<Rightarrow> None
     | Ok mi \<Rightarrow> if mi = NNULL then None else (case node_at (amp h) mi of Fault f \<Rightarrow> None | Ok p \<Rightarrow> Some p))"

lemma entry_cong: "ht h' = ht h \<Longrightarrow> amp h' = amp h \<Longrightarrow> entry h' = entry h"
  by (rule ext) (simp add: entry_def seat_read_cong [of h' h] split: res.split)

lemma entry_Some_iff: "entry h s = Some p \<longleftrightarrow> (\<exists>mi. seat_read h s = Ok mi \<and> mi \<noteq> NNULL \<and> node_at (amp h) mi = Ok p)"
  by (auto simp: entry_def split: res.splits)

text \<open>A store to a node that is not free.\<close>

lemma set_node_inv:
  assumes "ah_inv pv h" and "i \<in> set pv \<or> i \<in># seated h"
  obtains h' where "set_node h i q = Ok h'" and "ah_inv pv h'" and "same_shape h h'" and "ht h' = ht h"
    and "freelist h' = freelist h" and "node_at (amp h') = (node_at (amp h))(i := Ok q)"
proof -
  obtain fs where f: "tabs_ok h" "pool_ok (amp h)" "chain (node_at (amp h)) (fmi (freelist h)) fs"
      "mset fs + mset pv + seated h = pool_ids (amp h)" using assms(1) by (rule ah_invE)
  have i: "i \<notin> set fs" using owned_not_free [OF f(2,4) assms(2)] .
  obtain p where "node_at (amp h) i = Ok p" using ah_inv_owned [OF assms] by blast
  then obtain mp where mp: "node_put (amp h) i q = Ok mp" "pool_ok mp" "node_at mp = (node_at (amp h))(i := Ok q)"
      "mp = (amp h)\<lparr>ba := ba mp\<rparr>" using node_put_Ok [OF f(2)] by blast
  let ?h = "h\<lparr>amp := mp\<rparr>"
  have "pool_nodes mp = pool_nodes (amp h)" unfolding pool_nodes_def by (subst (1 2) mp(4)) simp
  moreover have "capacity mp = capacity (amp h)" unfolding capacity_def by (subst (1 2) mp(4)) simp
  ultimately have "ah_inv pv ?h" "same_shape h ?h"
    using f i mp(1-3) by (auto simp: ah_inv_def tabs_ok_def seated_def pool_ids_def same_shape_def intro!: exI [of _ fs])
  then show ?thesis using that [of ?h] mp(1,3) by (simp add: set_node_def)
qed

lemma entry_private:
  assumes "ah_inv pv h" and "i \<in> set pv" and "ht h' = ht h" and "node_at (amp h') = (node_at (amp h))(i := Ok q)"
  shows "entry h' = entry h"
proof
  fix s
  have "0 < count (mset pv) i" using assms(2) by (metis count_greater_zero_iff set_mset_mset)
  with ah_inv_once [OF assms(1), of i] have "count (seated h) i = 0" by linarith
  then have "i \<notin># seated h" by (simp add: count_eq_zero_iff)
  then have "seat_read h s = Ok i \<Longrightarrow> i = NNULL" using seat_read_seated by blast
  moreover have "seat_read h' s = seat_read h s" using seat_read_cong [OF assms(3)] by simp
  ultimately show "entry h' s = entry h s" using assms(4) by (auto simp: entry_def split: res.split)
qed

lemma entry_seated:
  assumes "ah_inv pv h" and "seat_read h s = Ok mi" and "mi \<noteq> NNULL" and "ht h' = ht h" and "node_at (amp h') = (node_at (amp h))(mi := Ok q)"
  shows "entry h' = (entry h)(s \<mapsto> q)"
proof
  fix s'
  have r: "seat_read h' = seat_read h" using assms(4) by (rule seat_read_cong)
  show "entry h' s' = ((entry h)(s \<mapsto> q)) s'"
  proof (cases "s' = s")
    case True
    with assms(2,3,5) r show ?thesis by (simp add: entry_def)
  next
    case False
    have "count (seated h) i \<le> 1" for i using ah_inv_once [OF assms(1), of i] by simp
    with False have "seat_read h s' \<noteq> Ok mi" using seat_unique assms(2,3) by blast
    with False assms(5) r show ?thesis by (simp add: entry_def split: res.split)
  qed
qed

lemma free_node_inv:
  assumes "ah_inv (mi # pv) h"
  obtains h' where "free_node h mi = Ok h'" and "ah_inv pv h'" and "same_shape h h'" and "ht h' = ht h" and "entry h' = entry h"
proof -
  from ah_inv_owned [OF assms, of mi] obtain p where p: "node_at (amp h) mi = Ok p" and nn: "mi \<noteq> NNULL" by auto
  obtain h1 where h1: "set_node h mi (set_link p (fmi (freelist h))) = Ok h1" "ah_inv (mi # pv) h1" "same_shape h h1" "ht h1 = ht h"
      "freelist h1 = freelist h" "node_at (amp h1) = (node_at (amp h))(mi := Ok (set_link p (fmi (freelist h))))"
    by (rule set_node_inv [OF assms, of mi "set_link p (fmi (freelist h))"]) auto
  obtain fs where f: "tabs_ok h1" "pool_ok (amp h1)" "chain (node_at (amp h1)) (fmi (freelist h1)) fs"
      "mset fs + mset (mi # pv) + seated h1 = pool_ids (amp h1)" using h1(2) by (rule ah_invE)
  let ?h = "h1\<lparr>freelist := \<lparr>fmi = mi, frfn = frfn (freelist h) + 1\<rparr>\<rparr>"
  have "chain (node_at (amp h1)) mi (mi # fs)" using f(3) nn h1(5,6) by simp
  moreover have "mset (mi # fs) + mset pv + seated ?h = pool_ids (amp h1)" using f(4) by (simp add: seated_def)
  ultimately have "ah_inv pv ?h" using f(1,2) by (auto simp: ah_inv_def tabs_ok_def intro!: exI [of _ "mi # fs"])
  moreover have "free_node h mi = Ok ?h" using p h1(1) by (simp add: free_node_def)
  moreover have "same_shape h ?h" using h1(3) by (simp add: same_shape_def)
  moreover have "entry ?h = entry h" using entry_private [OF assms _ h1(4,6)] entry_cong [of ?h h1] by simp
  ultimately show ?thesis using that h1(4) by simp
qed

lemma take_node_inv:
  assumes "ah_inv pv h" and "fmi (freelist h) \<noteq> NNULL"
  obtains i h' where "take_node h = Ok (i, h')" and "ah_inv (i # pv) h'" and "same_shape h h'" and "ht h' = ht h"
    and "entry h' = entry h" and "i \<noteq> NNULL"
proof -
  obtain fs where f: "tabs_ok h" "pool_ok (amp h)" "chain (node_at (amp h)) (fmi (freelist h)) fs"
      "mset fs + mset pv + seated h = pool_ids (amp h)" using assms(1) by (rule ah_invE)
  with assms(2) obtain i xs p where x: "fs = i # xs" "fmi (freelist h) = i" "node_at (amp h) i = Ok p" "chain (node_at (amp h)) (node_mi p) xs"
    by (cases fs) auto
  let ?h = "h\<lparr>freelist := \<lparr>fmi = node_mi p, frfn = frfn (freelist h) + 1\<rparr>\<rparr>"
  have "mset xs + mset (i # pv) + seated ?h = pool_ids (amp h)" using f(4) x(1) by (simp add: seated_def)
  then have "ah_inv (i # pv) ?h" using f x by (auto simp: ah_inv_def tabs_ok_def intro!: exI [of _ xs])
  moreover have "entry ?h = entry h" by (rule entry_cong) simp_all
  ultimately show ?thesis using that [of i ?h] x assms(2) by (simp add: take_node_def same_shape_def)
qed

lemma new_mem_block_inv:
  assumes "ah_inv pv h" and "fmi (freelist h) = NNULL" and "new_mem_block got (amp h) (freelist h) = Some (mp, fl)"
  shows "ah_inv pv (h\<lparr>amp := mp, freelist := fl\<rparr>)" and "fmi fl \<noteq> NNULL"
    and "entry (h\<lparr>amp := mp, freelist := fl\<rparr>) = entry h"
proof -
  obtain fs where f: "tabs_ok h" "pool_ok (amp h)" "chain (node_at (amp h)) (fmi (freelist h)) fs"
      "mset fs + mset pv + seated h = pool_ids (amp h)" using assms(1) by (rule ah_invE)
  then have fs: "fs = []" using assms(2) by simp
  from assms(3) have b: "blocks_of (amp h) < 512" and mp: "mp = grown (amp h) NNULL" and fl: "fmi fl = word_of_nat (pool_nodes (amp h))"
    using assms(2) by (auto simp: new_mem_block_spec [OF f(2)] split: if_splits)
  have "chain (node_at mp) (fmi fl) (block_ids (amp h))"
    using chain_grown [OF f(2) b, of NNULL "[]"] by (simp add: mp fl)
  moreover have "mset (block_ids (amp h)) + mset pv + seated h = pool_ids mp"
    using f(4) pool_ids_grown [OF f(2) b, of NNULL] by (simp add: mp fs ac_simps)
  ultimately show "ah_inv pv (h\<lparr>amp := mp, freelist := fl\<rparr>)"
    using f(1) grown_more(2) [OF f(2) b] by (auto simp: ah_inv_def tabs_ok_def seated_def mp intro!: exI [of _ "block_ids (amp h)"])
  show "fmi fl \<noteq> NNULL"
    using new_index_small [OF f(2) b, of 0] grown_more(3) [OF f(2) b] pool_index_not_NNULL [OF grown_more(2) [OF f(2) b]]
    by (simp add: fl)
  have "node_at mp i = node_at (amp h) i" if "i \<in># seated h" for i
  proof -
    from that have "i \<in># mset fs + mset pv + seated h" by simp
    then show ?thesis using grown_old [OF f(2) b] by (simp add: f(4) pool_ids_iff [OF f(2)] mp)
  qed
  then show "entry (h\<lparr>amp := mp, freelist := fl\<rparr>) = entry h"
    by (intro ext) (auto simp: entry_def seat_read_cong [of "h\<lparr>amp := mp, freelist := fl\<rparr>" h] dest: seat_read_seated split: res.split)
qed

text \<open>
  \<open>new_node\<close> gives a node, or none when the free list is empty and the allocator refuses or every
  block is in use.
\<close>

lemma new_node_inv:
  assumes "ah_inv pv h"
  obtains i h' where "new_node got h = Ok (i, h')" and "same_shape h h'" and "ht h' = ht h" and "entry h' = entry h"
    and "i = NNULL \<and> ah_inv pv h' \<and> fmi (freelist h') = NNULL \<and> (\<not> got \<or> blocks_of (amp h') = 512) \<or> i \<noteq> NNULL \<and> ah_inv (i # pv) h'"
proof (cases "fmi (freelist h) = NNULL")
  case False
  then have "new_node got h = take_node h" by (simp add: new_node_def)
  then show ?thesis using take_node_inv [OF assms False] that by metis
next
  case True
  have ok: "pool_ok (amp h)" using assms by (rule ah_inv_parts)
  show ?thesis
  proof (cases "new_mem_block got (amp h) (freelist h)")
    case None
    let ?h = "h\<lparr>stats := (stats h)\<lparr>add_nomem := add_nomem (stats h) + 1\<rparr>\<rparr>"
    have "\<not> got \<or> blocks_of (amp h) = 512" using None pool_okD(6) [OF ok] by (auto simp: new_mem_block_spec [OF ok] split: if_splits)
    moreover have "ah_inv pv ?h" using assms by (auto simp: ah_inv_def tabs_ok_def seated_def)
    moreover have "entry ?h = entry h" by (rule entry_cong) simp_all
    ultimately show ?thesis using that [of NNULL ?h] True None by (simp add: new_node_def same_shape_def)
  next
    case (Some z)
    then obtain mp fl where z: "new_mem_block got (amp h) (freelist h) = Some (mp, fl)" by (cases z) auto
    let ?h = "h\<lparr>amp := mp, freelist := fl\<rparr>"
    note i = new_mem_block_inv [OF assms True z]
    obtain k h' where t: "take_node ?h = Ok (k, h')" "ah_inv (k # pv) h'" "same_shape ?h h'" "ht h' = ht ?h" "entry h' = entry ?h" "k \<noteq> NNULL"
      by (rule take_node_inv [OF i(1)]) (use i(2) in simp)
    have "capacity mp = capacity (amp h)" using z by (auto simp: new_mem_block_spec [OF ok] grown_def capacity_def split: if_splits)
    then have "same_shape h h'" using t(3) by (simp add: same_shape_def)
    with t i z True show ?thesis using that [of k h'] by (simp add: new_node_def)
  qed
qed





section \<open>Taking and leaving a seat\<close>

lemma ht_upd_simps [simp]:
  "amp (ht_upd h t f) = amp h" "freelist (ht_upd h t f) = freelist h" "stats (ht_upd h t f) = stats h"
  "hash_func (ht_upd h t f) = hash_func h" "reset_expire (ht_upd h t f) = reset_expire h"
  "on_ttl (ht_upd h t f) = on_ttl h" "on_add (ht_upd h t f) = on_add h" "on_dup (ht_upd h t f) = on_dup h"
  "on_get (ht_upd h t f) = on_get h" "on_del (ht_upd h t f) = on_del h"
  "ht (ht_upd h t f) = (ht h)[t := f (ht h ! t)]"
  by (simp_all add: ht_upd_def)

text \<open>A counter that is not the number of nodes.\<close>

definition only_counts :: "(htab \<Rightarrow> htab) \<Rightarrow> bool" where
  "only_counts f \<longleftrightarrow> (\<forall>tb. buckets (f tb) = buckets tb \<and> nb (f tb) = nb tb \<and> ncur (f tb) = ncur tb)"

lemma map_upd_same: "g (f (xs ! t)) = g (xs ! t) \<Longrightarrow> map g (xs[t := f (xs ! t)]) = map g xs"
  by (metis list_update_id map_update)

lemma ht_upd_counts:
  assumes "only_counts f"
  shows "seat_read (ht_upd h t f) = seat_read h" and "entry (ht_upd h t f) = entry h" and "same_shape h (ht_upd h t f)"
    and "ah_inv pv (ht_upd h t f) \<longleftrightarrow> ah_inv pv h"
proof -
  have b: "map buckets (ht (ht_upd h t f)) = map buckets (ht h)" "map nb (ht (ht_upd h t f)) = map nb (ht h)"
    using assms by (simp_all add: only_counts_def map_upd_same)
  have "ht (ht_upd h t f) ! k = (if k = t \<and> t < length (ht h) then f (ht h ! k) else ht h ! k)" for k
    by (cases "t < length (ht h)") (auto simp: nth_list_update list_update_beyond)
  then have n: "buckets (ht (ht_upd h t f) ! k) = buckets (ht h ! k)" "nb (ht (ht_upd h t f) ! k) = nb (ht h ! k)"
      "ncur (ht (ht_upd h t f) ! k) = ncur (ht h ! k)" for k
    using assms by (simp_all add: only_counts_def del: ht_upd_simps(11))
  show r: "seat_read (ht_upd h t f) = seat_read h" by (rule ext) (simp add: seat_read_def n(1) del: ht_upd_simps(11) split: prod.splits, simp)
  show "same_shape h (ht_upd h t f)" using b(2) by (simp add: same_shape_def)
  show "entry (ht_upd h t f) = entry h" by (rule ext) (simp add: entry_def r split: res.split)
  have "tabs_ok (ht_upd h t f) \<longleftrightarrow> tabs_ok h"
    by (simp add: tabs_ok_def tab_ok_def used_seats_def n del: ht_upd_simps(11)) simp
  moreover have "seated (ht_upd h t f) = seated h" by (simp only: seated_def b(1))
  ultimately show "ah_inv pv (ht_upd h t f) \<longleftrightarrow> ah_inv pv h" by (simp add: ah_inv_def)
qed

lemma add1_stat_simps [simp]:
  "ah_inv pv (add1_stat h f) \<longleftrightarrow> ah_inv pv h" "ht (add1_stat h f) = ht h" "amp (add1_stat h f) = amp h" "freelist (add1_stat h f) = freelist h"
  "same_shape h (add1_stat h f)" "entry (add1_stat h f) = entry h" "on_ttl (add1_stat h f) = on_ttl h"
  using entry_cong [of "add1_stat h f" h] by (simp_all add: add1_stat_def ah_inv_def tabs_ok_def seated_def same_shape_def)

text \<open>A store to a seat together with the counter of its array.\<close>

definition seat_set :: "ahash \<Rightarrow> seat \<Rightarrow> nid \<Rightarrow> u64 \<Rightarrow> ahash" where
  "seat_set h s mi d = ht_upd (seat_write h s mi) (fst s) (\<lambda>tb. tb\<lparr>ncur := ncur tb + d\<rparr>)"

lemma seat_set_cur:
  "add_cur (seat_write h s mi) s = seat_set h s mi 1" "sub_cur (seat_write h s mi) s = seat_set h s mi (-1)"
  by (simp_all add: add_cur_def sub_cur_def seat_set_def)

lemma seat_set_simps [simp]:
  "amp (seat_set h s mi d) = amp h" "freelist (seat_set h s mi d) = freelist h"
  "on_ttl (seat_set h s mi d) = on_ttl h" "on_add (seat_set h s mi d) = on_add h" "on_dup (seat_set h s mi d) = on_dup h"
  "on_get (seat_set h s mi d) = on_get h" "on_del (seat_set h s mi d) = on_del h" "reset_expire (seat_set h s mi d) = reset_expire h"
  by (simp_all add: seat_set_def seat_write_def split: prod.splits)

lemma of_nat_add_if: "(word_of_nat (n + (if P then 1 else 0)) :: u64) = word_of_nat n + (if P then 1 else 0)"
  by simp

lemma seat_set_tab:
  assumes "tabs_ok h" and "seat_read h s = Ok old"
    and "d + (if old \<noteq> NNULL then 1 else 0) = (if mi \<noteq> NNULL then 1 else 0 :: u64)"
  shows "tabs_ok (seat_set h s mi d)" and "seated (seat_set h s mi d) = seated (seat_write h s mi)"
    and "seat_read (seat_set h s mi d) = seat_read (seat_write h s mi)" and "same_shape h (seat_set h s mi d)"
proof -
  obtain t j where s: "s = (t, j)" by (cases s)
  from assms(2) have r: "t < length (ht h)" "j < length (buckets (ht h ! t))" "buckets (ht h ! t) ! j = old"
    by (auto simp: seat_read_iff s)
  let ?tb = "(ht h ! t)\<lparr>buckets := (buckets (ht h ! t))[j := mi], ncur := ncur (ht h ! t) + d\<rparr>"
  have ht: "ht (seat_set h (t, j) mi d) = (ht h)[t := ?tb]" using r by (simp add: seat_set_def seat_write_def s)
  have "used_seats ?tb + (if old \<noteq> NNULL then 1 else 0) = used_seats (ht h ! t) + (if mi \<noteq> NNULL then 1 else 0)"
    using filter_update [OF r(2), of "\<lambda>m. m \<noteq> NNULL" mi] r(3) by (simp add: used_seats_def)
  then have "word_of_nat (used_seats ?tb + (if old \<noteq> NNULL then 1 else 0)) =
      (word_of_nat (used_seats (ht h ! t) + (if mi \<noteq> NNULL then 1 else 0)) :: u64)" by (rule arg_cong)
  then have "(word_of_nat (used_seats ?tb) :: u64) + (if old \<noteq> NNULL then 1 else 0) =
      word_of_nat (used_seats (ht h ! t)) + (d + (if old \<noteq> NNULL then 1 else 0))"
    unfolding assms(3) of_nat_add_if .
  then have "word_of_nat (used_seats ?tb) = word_of_nat (used_seats (ht h ! t)) + d"
    by (simp only: add.assoc [symmetric] add_right_cancel)
  moreover have "tab_ok (ht h ! t)" using assms(1) r(1) by (simp add: tabs_ok_def)
  ultimately have "tab_ok ?tb" by (simp add: tab_ok_def)
  with assms(1) show "tabs_ok (seat_set h s mi d)"
    using r(1) by (auto simp: tabs_ok_def s ht nth_list_update)
  show "seated (seat_set h s mi d) = seated (seat_write h s mi)"
    using r(1) by (simp add: seated_def ht seat_write_def s map_update)
  show "seat_read (seat_set h s mi d) = seat_read (seat_write h s mi)"
    using r(1) by (intro ext) (auto simp: seat_read_def ht seat_write_def s nth_list_update)
  show "same_shape h (seat_set h s mi d)"
    by (simp add: same_shape_def s ht map_update) (simp add: seat_set_def seat_write_def s list_update_same_conv r)
qed

lemma seat_leave:
  assumes "ah_inv pv h" and "seat_read h s = Ok mi" and "mi \<noteq> NNULL"
  shows "ah_inv (mi # pv) (seat_set h s NNULL (-1))" and "same_shape h (seat_set h s NNULL (-1))"
    and "entry (seat_set h s NNULL (-1)) = (entry h)(s := None)"
proof -
  obtain fs where f: "tabs_ok h" "pool_ok (amp h)" "chain (node_at (amp h)) (fmi (freelist h)) fs"
      "mset fs + mset pv + seated h = pool_ids (amp h)" using assms(1) by (rule ah_invE)
  have d: "-1 + (if mi \<noteq> NNULL then 1 else 0) = (if NNULL \<noteq> NNULL then 1 else 0 :: u64)" using assms(3) by simp
  note t = seat_set_tab [OF f(1) assms(2) d]
  have "seated h = add_mset mi (seated (seat_set h s NNULL (-1)))"
    using seated_write [OF assms(2), of NNULL] assms(3) t(2) by simp
  with f t(1) show "ah_inv (mi # pv) (seat_set h s NNULL (-1))" by (auto simp: ah_inv_def intro!: exI [of _ fs])
  show "same_shape h (seat_set h s NNULL (-1))" by (rule t)
  show "entry (seat_set h s NNULL (-1)) = (entry h)(s := None)"
    using seat_read_write [OF assms(2), of NNULL] by (intro ext) (simp add: entry_def t(3) split: res.split)
qed

lemma seat_sit:
  assumes "ah_inv (mi # pv) h" and "seat_read h s = Ok NNULL" and "node_at (amp h) mi = Ok p"
  shows "ah_inv pv (seat_set h s mi 1)" and "same_shape h (seat_set h s mi 1)"
    and "entry (seat_set h s mi 1) = (entry h)(s \<mapsto> p)"
proof -
  obtain fs where f: "tabs_ok h" "pool_ok (amp h)" "chain (node_at (amp h)) (fmi (freelist h)) fs"
      "mset fs + mset (mi # pv) + seated h = pool_ids (amp h)" using assms(1) by (rule ah_invE)
  have mi: "mi \<noteq> NNULL" using ah_inv_owned [OF assms(1), of mi] by simp
  then have d: "1 + (if NNULL \<noteq> NNULL then 1 else 0) = (if mi \<noteq> NNULL then 1 else 0 :: u64)" by simp
  note t = seat_set_tab [OF f(1) assms(2) d]
  have "seated (seat_set h s mi 1) = add_mset mi (seated h)"
    using seated_write [OF assms(2), of mi] mi t(2) by simp
  with f t(1) show "ah_inv pv (seat_set h s mi 1)" by (auto simp: ah_inv_def intro!: exI [of _ fs])
  show "same_shape h (seat_set h s mi 1)" by (rule t)
  show "entry (seat_set h s mi 1) = (entry h)(s \<mapsto> p)"
    using seat_read_write [OF assms(2), of mi] mi assms(3) by (intro ext) (simp add: entry_def t(3) split: res.split)
qed





end
