(* ===== verification/Ahash_Seats.thy ===== *)
theory Ahash_Seats
  imports Ahash_Inv
begin

text \<open>
  The operations of the atomic hash on the level of seats: a table is a map from seats to nodes, and
  what an operation does to one seat is a function of the node there. The concrete operations never
  fault and refine these functions.
\<close>

type_synonym seats = "seat \<Rightarrow> ah_node option"

section \<open>One node\<close>

text \<open>
  \<open>at\<close>: the table is in order, the operation holds \<open>pv\<close>, and \<open>s\<close> refers to the node \<open>mi\<close>.
\<close>

definition at_seat :: "nid list \<Rightarrow> ahash \<Rightarrow> seat \<Rightarrow> nid \<Rightarrow> ah_node \<Rightarrow> bool" where
  "at_seat pv h s mi p \<longleftrightarrow> ah_inv pv h \<and> seat_read h s = Ok mi \<and> mi \<noteq> NNULL \<and> node_at (amp h) mi = Ok p"

text \<open>\<open>h\<close> goes to \<open>h'\<close>: the invariant holds again and the seats are \<open>E\<close>.\<close>

definition goes :: "ahash \<Rightarrow> nid list \<Rightarrow> seats \<Rightarrow> ahash \<Rightarrow> bool" where
  "goes h pv E h' \<longleftrightarrow> ah_inv pv h' \<and> same_shape h h' \<and> entry h' = E"

lemma goes_trans: "goes h pv E h1 \<Longrightarrow> goes h1 pv' E' h2 \<Longrightarrow> goes h pv' E' h2"
  by (auto simp: goes_def intro: same_shape_trans)

lemma goes_refl: "ah_inv pv h \<Longrightarrow> goes h pv (entry h) h"
  by (simp add: goes_def)

lemma at_seatI:
  assumes "ah_inv pv h" and "seat_read h s = Ok mi" and "mi \<noteq> NNULL"
  obtains p where "at_seat pv h s mi p" and "entry h s = Some p"
  using ah_inv_owned(1) [OF assms(1), of mi] seat_read_seated [OF assms(2,3)] assms by (auto simp: at_seat_def entry_def)

lemma at_seat_entry: "at_seat pv h s mi p \<Longrightarrow> entry h s = Some p"
  by (simp add: at_seat_def entry_def)

lemma at_seat_set:
  assumes "at_seat pv h s mi p"
  obtains h' where "set_node h mi q = Ok h'" and "at_seat pv h' s mi q" and "goes h pv ((entry h)(s \<mapsto> q)) h'" and "ht h' = ht h"
proof -
  have a: "ah_inv pv h" "seat_read h s = Ok mi" "mi \<noteq> NNULL" using assms by (simp_all add: at_seat_def)
  have "mi \<in># seated h" using seat_read_seated [OF a(2,3)] .
  then obtain h' where h': "set_node h mi q = Ok h'" "ah_inv pv h'" "same_shape h h'" "ht h' = ht h"
      "node_at (amp h') = (node_at (amp h))(mi := Ok q)" using set_node_inv [OF a(1), of mi q] by metis
  have "entry h' = (entry h)(s \<mapsto> q)" by (rule entry_seated [OF a h'(4,5)])
  with h' a seat_read_cong [OF h'(4)] show ?thesis using that [of h'] by (simp add: at_seat_def goes_def)
qed

text \<open>A node whose hash value is partly 0 loses its first half when it is compared.\<close>

definition spoil :: "hv \<Rightarrow> ah_node \<Rightarrow> ah_node" where
  "spoil v p = (if hvx (nv p) = hvx v \<and> hvy (nv p) = 0 then p\<lparr>nv := (nv p)\<lparr>hvx := 0\<rparr>\<rparr> else p)"

abbreviation unheld :: "ah_node \<Rightarrow> ah_node" where
  "unheld p \<equiv> p\<lparr>nv := (nv p)\<lparr>hvx := 0\<rparr>\<rparr>"

lemma hold_spec: "hold p v = Ok (if nv p = v \<and> hvy v \<noteq> 0 then (True, unheld p) else (False, spoil v p))"
proof (cases "hvx (nv p) = hvx v")
  case True
  then show ?thesis by (cases "hvy (nv p) = hvy v") (auto simp: hold_def unhold_def Let_def spoil_def)
qed (auto simp: hold_def spoil_def)

lemma unhold_held: "hvy (nv p) \<noteq> 0 \<Longrightarrow> hvx (nv p) = 0 \<Longrightarrow> unhold p v = Ok (p\<lparr>nv := (nv p)\<lparr>hvx := hvx v\<rparr>\<rparr>)"
  by (simp add: unhold_def)

lemma hold_bucket_spec:
  assumes "at_seat pv h s mi p"
  obtains h' where "hold_bucket h mi v = Ok (nv p = v \<and> hvy v \<noteq> 0, h')" and "ht h' = ht h"
    and "at_seat pv h' s mi (if nv p = v \<and> hvy v \<noteq> 0 then unheld p else spoil v p)"
    and "goes h pv ((entry h)(s \<mapsto> (if nv p = v \<and> hvy v \<noteq> 0 then unheld p else spoil v p))) h'"
proof -
  let ?q = "if nv p = v \<and> hvy v \<noteq> 0 then unheld p else spoil v p"
  obtain h' where "set_node h mi ?q = Ok h'" "at_seat pv h' s mi ?q" "goes h pv ((entry h)(s \<mapsto> ?q)) h'" "ht h' = ht h"
    by (rule at_seat_set [OF assms, of ?q])
  moreover from this(1) have "hold_bucket h mi v = Ok (nv p = v \<and> hvy v \<noteq> 0, h')"
    using assms by (auto simp: hold_bucket_def hold_spec at_seat_def)
  ultimately show ?thesis using that by blast
qed

lemma unhold_bucket_spec:
  assumes "at_seat pv h s mi p" and "hvy (nv p) \<noteq> 0" and "hvx (nv p) = 0"
  obtains h' where "unhold_bucket h mi v = Ok h'" and "at_seat pv h' s mi (p\<lparr>nv := (nv p)\<lparr>hvx := hvx v\<rparr>\<rparr>)"
    and "goes h pv ((entry h)(s \<mapsto> p\<lparr>nv := (nv p)\<lparr>hvx := hvx v\<rparr>\<rparr>)) h'" and "ht h' = ht h"
proof -
  let ?q = "p\<lparr>nv := (nv p)\<lparr>hvx := hvx v\<rparr>\<rparr>"
  obtain h' where "set_node h mi ?q = Ok h'" "at_seat pv h' s mi ?q" "goes h pv ((entry h)(s \<mapsto> ?q)) h'" "ht h' = ht h"
    by (rule at_seat_set [OF assms(1), of ?q])
  moreover from this(1) have "unhold_bucket h mi v = Ok h'"
    using assms by (auto simp: unhold_bucket_def unhold_held at_seat_def)
  ultimately show ?thesis using that by blast
qed

text \<open>A node leaves its seat, is cleared and goes to the free list or to the caller.\<close>

lemma leave_seat:
  assumes "at_seat pv h s mi p"
  obtains h' where "seat_cas h s mi NNULL = Ok (True, seat_write h s NNULL)"
    and "set_node (sub_cur (seat_write h s NNULL) s) mi zero_node = Ok h'" and "goes h (mi # pv) ((entry h)(s := None)) h'"
proof -
  have a: "ah_inv pv h" "seat_read h s = Ok mi" "mi \<noteq> NNULL" using assms by (simp_all add: at_seat_def)
  note l = seat_leave [OF a]
  let ?h = "sub_cur (seat_write h s NNULL) s"
  have l': "ah_inv (mi # pv) ?h" "same_shape h ?h" "entry ?h = (entry h)(s := None)" using l by (simp_all add: seat_set_cur)
  obtain h' where h': "set_node ?h mi zero_node = Ok h'" "ah_inv (mi # pv) h'" "same_shape ?h h'" "ht h' = ht ?h"
      "node_at (amp h') = (node_at (amp ?h))(mi := Ok zero_node)" using set_node_inv [OF l'(1), of mi zero_node] by auto
  have "entry h' = entry ?h" by (rule entry_private [OF l'(1) _ h'(4,5)]) simp
  then have "goes h (mi # pv) ((entry h)(s := None)) h'" using h'(2,3) l'(2,3) same_shape_trans by (auto simp: goes_def)
  then show ?thesis using that h'(1) a(2) by (simp add: seat_cas_def)
qed

lemma free_node_goes:
  assumes "goes h (mi # pv) E h1"
  obtains h' where "free_node h1 mi = Ok h'" and "goes h pv E h'"
proof -
  obtain h' where "free_node h1 mi = Ok h'" "ah_inv pv h'" "same_shape h1 h'" "ht h' = ht h1" "entry h' = entry h1"
    using assms by (auto simp: goes_def intro: free_node_inv)
  with assms show ?thesis using that [of h'] by (auto simp: goes_def intro: same_shape_trans)
qed

lemma goes_counts: "only_counts f \<Longrightarrow> goes h pv E (ht_upd h1 t f) \<longleftrightarrow> goes h pv E h1"
  using ht_upd_counts(2,3) [of f, where h = h1 and t = t] ht_upd_counts(4) [of f pv h1 t]
  by (auto simp: goes_def same_shape_def)

lemma goes_stat [simp]: "goes h pv E (add1_stat h1 f) \<longleftrightarrow> goes h pv E h1"
  by (simp add: goes_def) (simp add: same_shape_def add1_stat_def)

section \<open>The actions\<close>

text \<open>
  What an action does to the node it finds: whether it was the one, the node that stays in the seat,
  and the caller's memory.
\<close>

type_synonym effect = "ah_node \<Rightarrow> mem \<Rightarrow> bool \<times> ah_node option \<times> mem"

definition hit_eff :: "ah_hook \<Rightarrow> ah_env \<Rightarrow> ahash \<Rightarrow> hv \<Rightarrow> ptr \<Rightarrow> effect" where
  "hit_eff g e h v rtn p m =
     (if nv p = v \<and> hvy v \<noteq> 0 then
        (True, if fst (g (ndata p) rtn m) = PLEASE_REMOVE_HASH_NODE then None
               else Some (refresh e (ttl_of h (fst (g (ndata p) rtn m))) p), snd (g (ndata p) rtn m))
      else (False, Some (spoil v p), m))"

definition del_eff :: "ah_hook \<Rightarrow> hv \<Rightarrow> ptr \<Rightarrow> effect" where
  "del_eff g v rtn p m =
     (if nv p = v \<and> hvy v \<noteq> 0 then (True, None, snd (g (ndata p) rtn m)) else (False, Some (spoil v p), m))"

lemma call_hook_Some [simp]: "call_hook (Some g) d rtn m = Ok (g d rtn m)"
  by (simp add: call_hook_def)

lemma refresh_unheld:
  "nv (refresh e r p) = nv p" "refresh e r (p\<lparr>nv := w\<rparr>) = (refresh e r p)\<lparr>nv := w\<rparr>" "(refresh e r p)\<lparr>nv := nv p\<rparr> = refresh e r p"
  by (simp_all add: refresh_def)

lemma try_hit_spec:
  assumes "at_seat pv h s mi p" and "only_counts cf"
  shows "\<exists>h'. try_hit cf (Some g) e v s mi rtn (h, m) = Ok (fst (hit_eff g e h v rtn p m), h', snd (snd (hit_eff g e h v rtn p m)))
    \<and> goes h pv ((entry h)(s := fst (snd (hit_eff g e h v rtn p m)))) h'"
proof -
  obtain h1 where h1: "hold_bucket h mi v = Ok (nv p = v \<and> hvy v \<noteq> 0, h1)" "ht h1 = ht h"
      "at_seat pv h1 s mi (if nv p = v \<and> hvy v \<noteq> 0 then unheld p else spoil v p)"
      "goes h pv ((entry h)(s \<mapsto> (if nv p = v \<and> hvy v \<noteq> 0 then unheld p else spoil v p))) h1"
    by (rule hold_bucket_spec [OF assms(1), of v])
  show ?thesis
  proof (cases "nv p = v \<and> hvy v \<noteq> 0")
    case False
    with h1 show ?thesis by (auto simp: try_hit_def hit_eff_def)
  next
    case True
    then have at1: "at_seat pv h1 s mi (unheld p)" and g1: "goes h pv ((entry h)(s \<mapsto> unheld p)) h1" using h1(3,4) by simp_all
    have r1: "seat_read h1 s = Ok mi" "node_at (amp h1) mi = Ok (unheld p)" using at1 by (simp_all add: at_seat_def)
    have ttl: "ttl_of h1 r = ttl_of h r" for r using g1 by (simp add: ttl_of_def goes_def same_shape_def)
    obtain r m1 where g: "g (ndata p) rtn m = (r, m1)" by (cases "g (ndata p) rtn m")
    show ?thesis
    proof (cases "r = PLEASE_REMOVE_HASH_NODE")
      case rem: True
      obtain h2 where l: "seat_cas h1 s mi NNULL = Ok (True, seat_write h1 s NNULL)"
          "set_node (sub_cur (seat_write h1 s NNULL) s) mi zero_node = Ok h2" "goes h1 (mi # pv) ((entry h1)(s := None)) h2"
        by (rule leave_seat [OF at1])
      have "goes h (mi # pv) ((entry h)(s := None)) (ht_upd h2 (fst s) cf)"
        using goes_trans [OF g1 l(3)] g1 assms(2) by (simp add: goes_counts) (simp add: goes_def)
      then obtain h3 where "free_node (ht_upd h2 (fst s) cf) mi = Ok h3" "goes h pv ((entry h)(s := None)) h3"
        by (rule free_node_goes)
      then show ?thesis using True rem h1(1) r1 g l by (simp add: try_hit_def unseat_def hit_eff_def)
    next
      case keep: False
      let ?q = "refresh e (ttl_of h r) p"
      obtain h2 where h2: "set_node h1 mi (unheld ?q) = Ok h2" "at_seat pv h2 s mi (unheld ?q)" "goes h1 pv ((entry h1)(s \<mapsto> unheld ?q)) h2"
        by (rule at_seat_set [OF at1, of "unheld ?q"])
      obtain h3 where h3: "unhold_bucket h2 mi v = Ok h3" "goes h2 pv ((entry h2)(s \<mapsto> ?q)) h3"
        by (rule unhold_bucket_spec [OF h2(2), of v]) (use True in \<open>auto simp: refresh_unheld\<close>)
      have "goes h pv ((entry h)(s \<mapsto> ?q)) (ht_upd h3 (fst s) cf)"
        using goes_trans [OF goes_trans [OF g1 h2(3)] h3(2)] g1 h2(3) assms(2) by (simp add: goes_counts) (simp add: goes_def)
      then show ?thesis using True keep h1(1) r1 g h2(1) h3(1) by (simp add: try_hit_def hit_eff_def refresh_unheld ttl)
    qed
  qed
qed

lemma try_del_spec:
  assumes "at_seat pv h s mi p" and "or_default cbf (on_del h) = Some g"
  shows "\<exists>h'. try_del v cbf rtn s mi (h, m) = Ok (fst (del_eff g v rtn p m), h', snd (snd (del_eff g v rtn p m)))
    \<and> goes h pv ((entry h)(s := fst (snd (del_eff g v rtn p m)))) h'"
proof -
  obtain h1 where h1: "hold_bucket h mi v = Ok (nv p = v \<and> hvy v \<noteq> 0, h1)" "ht h1 = ht h"
      "at_seat pv h1 s mi (if nv p = v \<and> hvy v \<noteq> 0 then unheld p else spoil v p)"
      "goes h pv ((entry h)(s \<mapsto> (if nv p = v \<and> hvy v \<noteq> 0 then unheld p else spoil v p))) h1"
    by (rule hold_bucket_spec [OF assms(1), of v])
  show ?thesis
  proof (cases "nv p = v \<and> hvy v \<noteq> 0")
    case False
    with h1 show ?thesis by (auto simp: try_del_def del_eff_def)
  next
    case True
    then have at1: "at_seat pv h1 s mi (unheld p)" and g1: "goes h pv ((entry h)(s \<mapsto> unheld p)) h1" using h1(3,4) by simp_all
    obtain h2 where l: "seat_cas h1 s mi NNULL = Ok (True, seat_write h1 s NNULL)"
        "set_node (sub_cur (seat_write h1 s NNULL) s) mi zero_node = Ok h2" "goes h1 (mi # pv) ((entry h1)(s := None)) h2"
      by (rule leave_seat [OF at1])
    let ?c = "\<lambda>tb. tb\<lparr>ndel := ndel tb + 1\<rparr>"
    have "only_counts ?c" by (simp add: only_counts_def)
    then have "goes h (mi # pv) ((entry h)(s := None)) (ht_upd h2 (fst s) ?c)"
      using goes_trans [OF g1 l(3)] g1 by (simp add: goes_counts) (simp add: goes_def)
    then obtain h3 where h3: "free_node (ht_upd h2 (fst s) ?c) mi = Ok h3" "goes h pv ((entry h)(s := None)) h3"
      by (rule free_node_goes)
    have "on_del h3 = on_del h" using h3(2) by (simp add: goes_def same_shape_def)
    moreover have "node_at (amp (seat_write h1 s NNULL)) mi = Ok (unheld p)"
      using at1 by (simp add: at_seat_def seat_write_def split: prod.splits)
    ultimately show ?thesis using True h1(1) l h3 assms(2) by (simp add: try_del_def del_eff_def split: prod.splits)
  qed
qed

text \<open>The entry has outlived its time and can be removed.\<close>

definition expired :: "ah_env \<Rightarrow> ah_node \<Rightarrow> bool" where
  "expired e p \<longleftrightarrow> nexpire p \<noteq> 0 \<and> nexpire p \<le> now_ms e \<and> hvx (nv p) \<noteq> 0 \<and> hvy (nv p) \<noteq> 0"

definition ttl_eff :: "ahash \<Rightarrow> ah_node \<Rightarrow> mem \<Rightarrow> mem" where
  "ttl_eff h p m = (case on_ttl h of None \<Rightarrow> m | Some f \<Rightarrow> snd (f (ndata p) NULL m))"

text \<open>The node an operation keeps for reuse.\<close>

definition kept :: "nid option \<Rightarrow> nid list" where
  "kept rt = (case rt of None \<Rightarrow> [] | Some i \<Rightarrow> if i = NNULL then [] else [i])"

lemma valid_ttl_spec:
  assumes "at_seat (kept rt) h s mi p"
  shows "\<exists>rt' h'. valid_ttl e s mi rt (h, m) = Ok (\<not> expired e p, rt', h', if expired e p then ttl_eff h p m else m)
    \<and> goes h (kept rt') (if expired e p then (entry h)(s := None) else entry h) h' \<and> (rt' = None \<longleftrightarrow> rt = None) \<and> (\<not> expired e p \<longrightarrow> h' = h)"
proof (cases "expired e p")
  case False
  with assms show ?thesis by (auto simp: valid_ttl_def expired_def at_seat_def goes_def not_less)
next
  case True
  then have y: "hvy (nv p) \<noteq> 0" and x: "nexpire p \<noteq> 0" "\<not> nexpire p > now_ms e" "hvx (nv p) \<noteq> 0" by (auto simp: expired_def not_less)
  obtain h1 where h1: "hold_bucket h mi (nv p) = Ok (True, h1)" "at_seat (kept rt) h1 s mi (unheld p)" "goes h (kept rt) ((entry h)(s \<mapsto> unheld p)) h1"
    using y by (auto intro: hold_bucket_spec [OF assms, of "nv p"])
  obtain h2 where l: "seat_cas h1 s mi NNULL = Ok (True, seat_write h1 s NNULL)"
      "set_node (sub_cur (seat_write h1 s NNULL) s) mi zero_node = Ok h2" "goes h1 (mi # kept rt) ((entry h1)(s := None)) h2"
    by (rule leave_seat [OF h1(2)])
  let ?h = "add1_stat h2 (\<lambda>t. t\<lparr>expires := expires t + 1\<rparr>)"
  have g: "goes h (mi # kept rt) ((entry h)(s := None)) ?h"
    using goes_trans [OF h1(3) l(3)] h1(3) by (simp add: goes_stat) (simp add: goes_def)
  have mi: "mi \<noteq> NNULL" using assms by (simp add: at_seat_def)
  have t: "(case on_ttl h5 of None \<Rightarrow> m | Some f \<Rightarrow> snd (f (ndata (unheld p)) NULL m)) = ttl_eff h5 p m" for h5
    by (simp add: ttl_eff_def split: option.split)
  have eq: "valid_ttl e s mi rt (h, m) =
    res_bind (if rt = Some NNULL then Ok (Some mi, ?h) else res_bind (free_node ?h mi) (\<lambda>h5. Ok (rt, h5))) (\<lambda>(rt1, h5). Ok (False, rt1, h5, ttl_eff h5 p m))"
    using assms x y h1 l t by (simp add: valid_ttl_def at_seat_def Let_def)
  have ttl: "ttl_eff h' p m = ttl_eff h p m" if "goes h pv E h'" for pv E h' using that by (simp add: ttl_eff_def goes_def same_shape_def)
  show ?thesis
  proof (cases "rt = Some NNULL")
    case True
    then show ?thesis using eq g ttl [OF g] \<open>expired e p\<close> mi by (auto simp: kept_def)
  next
    case False
    obtain h3 where "free_node ?h mi = Ok h3" "goes h (kept rt) ((entry h)(s := None)) h3" using g by (rule free_node_goes)
    then show ?thesis using eq ttl \<open>expired e p\<close> False by auto
  qed
qed





end
