(* ===== verification/Ahash_Loops.thy ===== *)
theory Ahash_Loops
  imports Ahash_Seats
begin

text \<open>
  The loops of the atomic hash over the seats of a key and over the collision array, as functions on
  maps of seats, and the proof that the concrete loops refine them without faulting.
\<close>

section \<open>Seats in range\<close>

definition seat_in :: "ahash \<Rightarrow> seat \<Rightarrow> bool" where
  "seat_in h s \<longleftrightarrow> fst s < 3 \<and> snd s < unat (nb (ht h ! fst s))"

lemma seat_in_read: "tabs_ok h \<Longrightarrow> seat_in h s \<longleftrightarrow> (\<exists>mi. seat_read h s = Ok mi)"
  by (auto simp: seat_in_def seat_read_def tabs_ok_def tab_ok_def split: prod.splits)

lemma seat_in_shape: "tabs_ok h \<Longrightarrow> same_shape h h' \<Longrightarrow> seat_in h' s \<longleftrightarrow> seat_in h s"
  by (auto simp: seat_in_def tabs_ok_def same_shape_nb)

lemma seat_in_goes: "tabs_ok h \<Longrightarrow> goes h pv E h' \<Longrightarrow> seat_in h' s \<longleftrightarrow> seat_in h s"
  by (rule seat_in_shape) (simp_all add: goes_def)

lemma entry_None: "ah_inv pv h \<Longrightarrow> seat_read h s = Ok NNULL \<Longrightarrow> entry h s = None"
  by (simp add: entry_def)

lemma collision_seats_in: "tabs_ok h \<Longrightarrow> s \<in> set collision_seats \<Longrightarrow> seat_in h s"
  by (auto simp: collision_seats_def seat_in_def tabs_ok_def tab_ok_def NMHT_def)

lemma seat_of_less: "tab_ok tb \<Longrightarrow> seat_of tb d < unat (nb tb)"
  by (simp add: seat_of_def tab_ok_def unat_mod_distrib)

lemma collect_hash_pos_in:
  assumes "tabs_ok h" and "s \<in> set (collect_hash_pos h v)"
  shows "seat_in h s"
proof -
  from assms(2) obtain t j where s: "s = (t, j)" "t < NMHT" "j \<in> set (tab_pos (ht h ! t) (key_words v))"
    by (auto simp: collect_hash_pos_def)
  then obtain d where "j = seat_of (ht h ! t) d" by (auto simp: tab_pos_def)
  with s assms(1) seat_of_less show ?thesis by (auto simp: seat_in_def tabs_ok_def NMHT_def)
qed

lemma collect_hash_pos_shape:
  assumes "tabs_ok h" and "same_shape h h'"
  shows "collect_hash_pos h' v = collect_hash_pos h v"
proof -
  have "nb (ht h' ! t) = nb (ht h ! t)" if "t < 2" for t
    using assms that by (simp add: same_shape_nb tabs_ok_def)
  then have "seat_of (ht h' ! t) = seat_of (ht h ! t)" if "t < 2" for t
    using that by (intro ext) (simp add: seat_of_def)
  then have "tab_pos (ht h' ! t) d = tab_pos (ht h ! t) d" if "t < 2" for t d
    using that by (simp only: tab_pos_def)
  then show ?thesis by (simp add: collect_hash_pos_def NMHT_def upt_rec)
qed

text \<open>The number of nodes in the collision array.\<close>

definition acur :: "seats \<Rightarrow> nat" where
  "acur E = length (filter (\<lambda>s. E s \<noteq> None) collision_seats)"

lemma acur_le: "acur E \<le> MINTAB"
  unfolding acur_def by (rule order_trans [OF length_filter_le]) (simp add: collision_seats_def)

lemma ncur_collision:
  assumes "ah_inv pv h"
  shows "ncur (ht h ! NMHT) = word_of_nat (acur (entry h))"
proof -
  have t: "tabs_ok h" using assms by (rule ah_inv_parts)
  then have l: "length (buckets (ht h ! NMHT)) = MINTAB" "length (ht h) = 3" by (simp_all add: tabs_ok_def)
  have "entry h (NMHT, j) \<noteq> None \<longleftrightarrow> buckets (ht h ! NMHT) ! j \<noteq> NNULL" if "j < MINTAB" for j
  proof -
    have r: "seat_read h (NMHT, j) = Ok (buckets (ht h ! NMHT) ! j)" using that l by (simp add: seat_read_def NMHT_def)
    show ?thesis using at_seatI [OF assms r] entry_None [OF assms, of "(NMHT, j)"] r by (metis option.distinct(1))
  qed
  then have "filter (\<lambda>j. entry h (NMHT, j) \<noteq> None) [0..<MINTAB] = filter (\<lambda>j. buckets (ht h ! NMHT) ! j \<noteq> NNULL) [0..<MINTAB]"
    by (intro filter_cong) auto
  moreover have "filter (\<lambda>m. m \<noteq> NNULL) (buckets (ht h ! NMHT)) =
      map (\<lambda>j. buckets (ht h ! NMHT) ! j) (filter (\<lambda>j. buckets (ht h ! NMHT) ! j \<noteq> NNULL) [0..<MINTAB])"
    by (metis (no_types, lifting) filter_cong filter_map l(1) map_nth o_apply)
  ultimately have "used_seats (ht h ! NMHT) = acur (entry h)"
    by (simp add: used_seats_def acur_def collision_seats_def filter_map o_def)
  with t show ?thesis by (simp add: tabs_ok_def tab_ok_def NMHT_def)
qed

section \<open>Loops on maps of seats\<close>

type_synonym seat_state = "seats \<times> mem"

definition avisit :: "effect \<Rightarrow> ah_env \<Rightarrow> ahash \<Rightarrow> hv \<Rightarrow> seat \<Rightarrow> ah_node \<Rightarrow> seat_state \<Rightarrow> bool \<times> seat_state" where
  "avisit eff e h v s p st =
     (if expired e p then (False, (fst st)(s := None), ttl_eff h p (snd st))
      else if likely_equal (nv p) v then (fst (eff p (snd st)), (fst st)(s := fst (snd (eff p (snd st)))), snd (snd (eff p (snd st))))
      else (False, st))"

fun afind :: "effect \<Rightarrow> ah_env \<Rightarrow> ahash \<Rightarrow> hv \<Rightarrow> seat list \<Rightarrow> seat_state \<Rightarrow> bool \<times> seat_state" where
  "afind eff e h v [] st = (False, st)"
| "afind eff e h v (s # ss) st = (case fst st s of None \<Rightarrow> afind eff e h v ss st
     | Some p \<Rightarrow> (case avisit eff e h v s p st of (hit, st1) \<Rightarrow> if hit then (True, st1) else afind eff e h v ss st1))"

fun acoll_add :: "effect \<Rightarrow> ah_env \<Rightarrow> ahash \<Rightarrow> hv \<Rightarrow> nat \<Rightarrow> seat list \<Rightarrow> seat_state \<Rightarrow> bool \<times> seat_state" where
  "acoll_add eff e h v n [] st = (False, st)"
| "acoll_add eff e h v n (s # ss) st = (if n = 0 then (False, st) else case fst st s of None \<Rightarrow> acoll_add eff e h v n ss st
     | Some p \<Rightarrow> (case avisit eff e h v s p st of (hit, st1) \<Rightarrow> if hit then (True, st1) else acoll_add eff e h v (n - 1) ss st1))"

fun acoll_get :: "effect \<Rightarrow> ah_env \<Rightarrow> ahash \<Rightarrow> hv \<Rightarrow> nat \<Rightarrow> seat list \<Rightarrow> seat_state \<Rightarrow> bool \<times> seat_state" where
  "acoll_get eff e h v n [] st = (False, st)"
| "acoll_get eff e h v n (s # ss) st = (if \<not> n < acur (fst st) then (False, st) else case fst st s of None \<Rightarrow> acoll_get eff e h v n ss st
     | Some p \<Rightarrow> (case avisit eff e h v s p st of (hit, st1) \<Rightarrow> if hit then (True, st1) else acoll_get eff e h v (Suc n) ss st1))"

fun adel :: "effect \<Rightarrow> ah_env \<Rightarrow> ahash \<Rightarrow> hv \<Rightarrow> nat \<Rightarrow> seat list \<Rightarrow> seat_state \<Rightarrow> nat \<times> seat_state" where
  "adel eff e h v n [] st = (n, st)"
| "adel eff e h v n (s # ss) st = (case fst st s of None \<Rightarrow> adel eff e h v n ss st
     | Some p \<Rightarrow> (case avisit eff e h v s p st of (hit, st1) \<Rightarrow> adel eff e h v (if hit then Suc n else n) ss st1))"

section \<open>The concrete loops\<close>

text \<open>
  An action that can be used in the loops: on every node a seat refers to it has the effect \<open>eff\<close>, as
  long as the table keeps the hooks and sizes of \<open>h0\<close>.
\<close>

locale seat_action =
  fixes act :: action and eff :: effect and h0 :: ahash
  assumes act_spec: "at_seat pv h s mi p \<Longrightarrow> same_shape h0 h \<Longrightarrow>
    \<exists>h'. act s mi (h, m) = Ok (fst (eff p m), h', snd (snd (eff p m))) \<and> goes h pv ((entry h)(s := fst (snd (eff p m)))) h'"
begin

lemma visit_spec:
  assumes "at_seat (kept rt) h s mi p" and "same_shape h0 h" and "avisit eff e h0 v s p (entry h, m) = (hit, E, m')"
  shows "\<exists>rt' h'. visit act e v s mi rt (h, m) = Ok (hit, rt', h', m') \<and> goes h (kept rt') E h' \<and> (rt' = None \<longleftrightarrow> rt = None)"
proof -
  obtain rt1 h1 where v: "valid_ttl e s mi rt (h, m) = Ok (\<not> expired e p, rt1, h1, if expired e p then ttl_eff h p m else m)"
      "goes h (kept rt1) (if expired e p then (entry h)(s := None) else entry h) h1" "rt1 = None \<longleftrightarrow> rt = None" "\<not> expired e p \<longrightarrow> h1 = h"
    using valid_ttl_spec [OF assms(1)] by blast
  have ttl: "ttl_eff h0 p m = ttl_eff h p m" using assms(2) by (simp add: ttl_eff_def same_shape_def)
  show ?thesis
  proof (cases "expired e p")
    case True
    with v assms(3) ttl show ?thesis by (auto simp: visit_def avisit_def)
  next
    case False
    with v have h1: "h1 = h" "ah_inv (kept rt1) h" by (simp_all add: goes_def)
    then have at1: "at_seat (kept rt1) h s mi p" using assms(1) by (simp add: at_seat_def)
    show ?thesis
    proof (cases "likely_equal (nv p) v")
      case True
      then show ?thesis using act_spec [OF at1 assms(2), of m] False v h1 assms(1,3)
        by (auto simp: visit_def avisit_def at_seat_def)
    next
      case False
      then show ?thesis using \<open>\<not> expired e p\<close> v h1 assms(1,3) by (auto simp: visit_def avisit_def at_seat_def)
    qed
  qed
qed

text \<open>One round of a loop: the seat is empty, or the node in it is visited.\<close>

lemma round_cases:
  assumes "ah_inv (kept rt) h" and "same_shape h0 h" and "seat_in h s"
  obtains (empty) "seat_read h s = Ok NNULL" and "entry h s = None"
  | (visited) mi p hit E m' rt' h' where "seat_read h s = Ok mi" and "mi \<noteq> NNULL" and "entry h s = Some p"
      and "avisit eff e h0 v s p (entry h, m) = (hit, E, m')" and "visit act e v s mi rt (h, m) = Ok (hit, rt', h', m')"
      and "ah_inv (kept rt') h'" and "same_shape h0 h'" and "same_shape h h'" and "entry h' = E" and "rt' = None \<longleftrightarrow> rt = None"
      and "\<And>s'. seat_in h' s' \<longleftrightarrow> seat_in h s'"
proof -
  have t: "tabs_ok h" using assms(1) by (rule ah_inv_parts)
  obtain mi where r: "seat_read h s = Ok mi" using assms(3) seat_in_read [OF t] by blast
  show ?thesis
  proof (cases "mi = NNULL")
    case True
    with r have "seat_read h s = Ok NNULL" by simp
    then show ?thesis using empty entry_None [OF assms(1)] by simp
  next
    case False
    obtain p where p: "at_seat (kept rt) h s mi p" "entry h s = Some p" using at_seatI [OF assms(1) r False] .
    obtain hit E m' where a: "avisit eff e h0 v s p (entry h, m) = (hit, E, m')" by (metis prod_cases3)
    obtain rt' h' where "visit act e v s mi rt (h, m) = Ok (hit, rt', h', m')" "goes h (kept rt') E h'" "rt' = None \<longleftrightarrow> rt = None"
      using visit_spec [OF p(1) assms(2) a] by blast
    then show ?thesis using visited [OF r False p(2) a] assms(2) seat_in_goes [OF t] by (auto simp: goes_def intro: same_shape_trans)
  qed
qed

lemma find_loop_spec:
  assumes "ah_inv (kept rt) h" and "same_shape h0 h" and "\<forall>s\<in>set ss. seat_in h s"
  shows "\<exists>hit E m' rt' h'. afind eff e h0 v ss (entry h, m) = (hit, E, m') \<and> find_loop act e v ss rt (h, m) = Ok (hit, rt', h', m')
    \<and> goes h (kept rt') E h' \<and> (rt' = None \<longleftrightarrow> rt = None)"
  using assms
proof (induction ss arbitrary: rt h m)
  case Nil
  then show ?case by (auto simp: goes_def intro: exI [of _ False])
next
  case (Cons s ss)
  from Cons.prems(3) have "seat_in h s" by simp
  with Cons.prems(1,2) show ?case
  proof (cases rule: round_cases [where e = e and v = v and m = m])
    case empty
    with Cons.IH [OF Cons.prems(1,2)] Cons.prems(3) show ?thesis by simp
  next
    case (visited mi p hit E m' rt' h')
    show ?thesis
    proof (cases hit)
      case True
      with visited show ?thesis by (auto simp: goes_def)
    next
      case False
      with Cons.IH [OF visited(6,7), of m'] Cons.prems(3) visited show ?thesis
        by (auto simp: goes_def intro: same_shape_trans)
    qed
  qed
qed

end





lemma small_index:
  assumes "n \<le> 64"
  shows "unat (word_of_nat n :: u32) = n" and "(word_of_nat n :: u32) = 0 \<longleftrightarrow> n = 0"
    and "0 < n \<Longrightarrow> (word_of_nat n :: u32) - 1 = word_of_nat (n - 1)"
    and "k \<le> 64 \<Longrightarrow> (ucast (word_of_nat n :: u32) :: u64) < word_of_nat k \<longleftrightarrow> n < k"
proof -
  show u: "unat (word_of_nat n :: u32) = n" using assms by (simp add: unat_of_nat)
  then show "(word_of_nat n :: u32) = 0 \<longleftrightarrow> n = 0" by (metis unat_eq_zero)
  show "0 < n \<Longrightarrow> (word_of_nat n :: u32) - 1 = word_of_nat (n - 1)" by (simp add: of_nat_diff)
  show "k \<le> 64 \<Longrightarrow> (ucast (word_of_nat n :: u32) :: u64) < word_of_nat k \<longleftrightarrow> n < k"
    using assms u by (simp add: word_less_nat_alt unat_of_nat unsigned_ucast_eq take_bit_nat_eq_self)
qed

context seat_action
begin

lemma add_collision_spec:
  assumes "ah_inv (kept rt) h" and "same_shape h0 h" and "\<forall>s\<in>set ss. seat_in h s" and "n \<le> 64"
  shows "\<exists>hit E m' rt' h'. acoll_add eff e h0 v n ss (entry h, m) = (hit, E, m')
    \<and> add_collision act e v (word_of_nat n) ss rt (h, m) = Ok (hit, rt', h', m')
    \<and> goes h (kept rt') E h' \<and> (rt' = None \<longleftrightarrow> rt = None)"
  using assms
proof (induction ss arbitrary: n rt h m)
  case Nil
  then show ?case by (auto simp: goes_def intro: exI [of _ False])
next
  case (Cons s ss)
  note small = small_index [OF Cons.prems(4)]
  from Cons.prems(3) have "seat_in h s" by simp
  show ?case
  proof (cases "n = 0")
    case True
    with Cons.prems(1) show ?thesis by (auto simp: goes_def intro: exI [of _ False])
  next
    case n: False
    from Cons.prems(1,2) \<open>seat_in h s\<close> show ?thesis
    proof (cases rule: round_cases [where e = e and v = v and m = m])
      case empty
      with Cons.IH [OF Cons.prems(1,2)] Cons.prems(3,4) n small(2) show ?thesis by simp
    next
      case (visited mi p hit E m' rt' h')
      show ?thesis
      proof (cases hit)
        case True
        with visited n small(2) show ?thesis by (auto simp: goes_def)
      next
        case False
        have "\<exists>hit E m'' rt'' h''. acoll_add eff e h0 v (n - 1) ss (entry h', m') = (hit, E, m'')
            \<and> add_collision act e v (word_of_nat (n - 1)) ss rt' (h', m') = Ok (hit, rt'', h'', m'')
            \<and> goes h' (kept rt'') E h'' \<and> (rt'' = None \<longleftrightarrow> rt' = None)"
          using Cons.prems(3,4) visited(11) by (intro Cons.IH [OF visited(6,7)]) auto
        then show ?thesis using visited(1-5,8-10) False n small(2,3)
          by (auto simp: goes_def intro: same_shape_trans simp del: of_nat_diff)
      qed
    qed
  qed
qed

lemma get_collision_spec:
  assumes "ah_inv (kept rt) h" and "same_shape h0 h" and "\<forall>s\<in>set ss. seat_in h s" and "n + length ss \<le> 64"
  shows "\<exists>hit E m' rt' h'. acoll_get eff e h0 v n ss (entry h, m) = (hit, E, m')
    \<and> get_collision act e v (word_of_nat n) ss rt (h, m) = Ok (hit, rt', h', m')
    \<and> goes h (kept rt') E h' \<and> (rt' = None \<longleftrightarrow> rt = None)"
  using assms
proof (induction ss arbitrary: n rt h m)
  case Nil
  then show ?case by (auto simp: goes_def intro: exI [of _ False])
next
  case (Cons s ss)
  have "n \<le> 64" "acur (entry h) \<le> 64" using Cons.prems(4) acur_le [of "entry h"] by (simp_all add: MINTAB_def)
  then have c: "(ucast (word_of_nat n :: u32) :: u64) < ncur (ht h ! NMHT) \<longleftrightarrow> n < acur (entry h)"
    using small_index(4) ncur_collision [OF Cons.prems(1)] by simp
  from Cons.prems(3) have "seat_in h s" by simp
  show ?case
  proof (cases "n < acur (entry h)")
    case False
    with c Cons.prems(1) show ?thesis by (auto simp: goes_def intro: exI [of _ False])
  next
    case n: True
    from Cons.prems(1,2) \<open>seat_in h s\<close> show ?thesis
    proof (cases rule: round_cases [where e = e and v = v and m = m])
      case empty
      with Cons.IH [OF Cons.prems(1,2)] Cons.prems(3,4) n c show ?thesis by simp
    next
      case (visited mi p hit E m' rt' h')
      show ?thesis
      proof (cases hit)
        case True
        with visited n c show ?thesis by (auto simp: goes_def)
      next
        case False
        with Cons.IH [OF visited(6,7), of "Suc n" m'] Cons.prems(3,4) visited n c show ?thesis
          by (auto simp: goes_def add.commute intro: same_shape_trans)
      qed
    qed
  qed
qed

lemma del_loop_spec:
  assumes "ah_inv (kept rt) h" and "same_shape h0 h" and "\<forall>s\<in>set ss. seat_in h s"
  shows "\<exists>k E m' rt' h'. adel eff e h0 v n ss (entry h, m) = (k, E, m') \<and> del_loop act e v n ss rt (h, m) = Ok (k, rt', h', m')
    \<and> goes h (kept rt') E h' \<and> (rt' = None \<longleftrightarrow> rt = None)"
  using assms
proof (induction ss arbitrary: n rt h m)
  case Nil
  then show ?case by (auto simp: goes_def)
next
  case (Cons s ss)
  from Cons.prems(3) have "seat_in h s" by simp
  with Cons.prems(1,2) show ?case
  proof (cases rule: round_cases [where e = e and v = v and m = m])
    case empty
    with Cons.IH [OF Cons.prems(1,2)] Cons.prems(3) show ?thesis by simp
  next
    case (visited mi p hit E m' rt' h')
    with Cons.IH [OF visited(6,7), of "if hit then Suc n else n" m'] Cons.prems(3) show ?thesis
      by (auto simp: goes_def intro: same_shape_trans)
  qed
qed

end



end
