(* ===== verification/Ahash_Safe.thy ===== *)
theory Ahash_Safe
  imports Ahash_Loops
begin

text \<open>
  The three operations of the atomic hash: each refines a function on maps of seats, and no sequence
  of operations on a table that \<open>atomic_hash_create\<close> returned faults, loses a node or seats one twice.
\<close>

section \<open>The actions as effects\<close>

lemma hooks_there:
  assumes "at_seat pv h s mi p"
  shows "on_get h \<noteq> None" and "on_dup h \<noteq> None" and "on_del h \<noteq> None" and "on_add h \<noteq> None"
  using assms by (auto simp: at_seat_def ah_inv_def tabs_ok_def)

lemma or_default_Some: "f \<noteq> None \<Longrightarrow> or_default cbf f = Some (the (or_default cbf f))"
  by (cases cbf) (auto simp: or_default_def)

definition get_eff :: "ah_env \<Rightarrow> ahash \<Rightarrow> hv \<Rightarrow> ah_hook option \<Rightarrow> ptr \<Rightarrow> effect" where
  "get_eff e h v cbf arg = hit_eff (the (or_default cbf (on_get h))) e h v arg"

definition dup_eff :: "ah_env \<Rightarrow> ahash \<Rightarrow> hv \<Rightarrow> ah_hook option \<Rightarrow> ptr \<Rightarrow> effect" where
  "dup_eff e h v cbf arg = hit_eff (the (or_default cbf (on_dup h))) e h v arg"

definition rem_eff :: "ahash \<Rightarrow> hv \<Rightarrow> ah_hook option \<Rightarrow> ptr \<Rightarrow> effect" where
  "rem_eff h v cbf arg = del_eff (the (or_default cbf (on_del h))) v arg"

lemma hit_eff_shape: "same_shape h0 h \<Longrightarrow> hit_eff g e h v arg = hit_eff g e h0 v arg"
  by (intro ext) (simp add: hit_eff_def ttl_of_def same_shape_def)

interpretation get: seat_action "try_get env key cbf arg" "get_eff env h0 key cbf arg" h0 for env key cbf arg h0
proof (unfold_locales, goal_cases)
  case (1 pv h s mi p m)
  have "or_default cbf (on_get h) = Some (the (or_default cbf (on_get h0)))"
    using hooks_there(1) [OF 1(1)] 1(2) or_default_Some [of "on_get h" cbf] by (simp add: same_shape_def)
  moreover have "only_counts (\<lambda>tb. tb\<lparr>nget := nget tb + 1\<rparr>)" by (simp add: only_counts_def)
  ultimately show ?case using try_hit_spec [OF 1(1)] by (simp add: try_get_def get_eff_def hit_eff_shape [OF 1(2), symmetric])
qed

interpretation dup: seat_action "try_dup env key cbf arg" "dup_eff env h0 key cbf arg" h0 for env key cbf arg h0
proof (unfold_locales, goal_cases)
  case (1 pv h s mi p m)
  have "or_default cbf (on_dup h) = Some (the (or_default cbf (on_dup h0)))"
    using hooks_there(2) [OF 1(1)] 1(2) or_default_Some [of "on_dup h" cbf] by (simp add: same_shape_def)
  moreover have "only_counts (\<lambda>tb. tb\<lparr>ndup := ndup tb + 1\<rparr>)" by (simp add: only_counts_def)
  ultimately show ?case using try_hit_spec [OF 1(1)] by (simp add: try_dup_def dup_eff_def hit_eff_shape [OF 1(2), symmetric])
qed

interpretation del: seat_action "try_del key cbf arg" "rem_eff h0 key cbf arg" h0 for key cbf arg h0
proof (unfold_locales, goal_cases)
  case (1 pv h s mi p m)
  have "or_default cbf (on_del h) = Some (the (or_default cbf (on_del h0)))"
    using hooks_there(3) [OF 1(1)] 1(2) or_default_Some [of "on_del h" cbf] by (simp add: same_shape_def)
  then show ?case using try_del_spec [OF 1(1)] by (simp add: rem_eff_def)
qed

section \<open>Get and delete\<close>

definition kget :: "ah_env \<Rightarrow> ahash \<Rightarrow> hv \<Rightarrow> ah_hook option \<Rightarrow> ptr \<Rightarrow> seat_state \<Rightarrow> int \<times> seat_state" where
  "kget e h v cbf arg st =
     (case afind (get_eff e h v cbf arg) e h v (collect_hash_pos h v) st of (hit, st1) \<Rightarrow>
      (case (if hit then (True, st1) else acoll_get (get_eff e h v cbf arg) e h v 0 collision_seats st1) of (hit2, st2) \<Rightarrow>
       (if hit2 then 0 else -1, st2)))"

definition adelete :: "ah_env \<Rightarrow> ahash \<Rightarrow> hv \<Rightarrow> ah_hook option \<Rightarrow> ptr \<Rightarrow> seat_state \<Rightarrow> int \<times> seat_state" where
  "adelete e h v cbf arg st =
     (case adel (rem_eff h v cbf arg) e h v 0 (collect_hash_pos h v @ collision_seats) st of (n, st1) \<Rightarrow> (if n > 0 then 0 else -1, st1))"

lemma length_collision_seats: "length collision_seats = 64"
  by (simp add: collision_seats_def MINTAB_def)

lemmas seats_in = collect_hash_pos_in collision_seats_in

lemma kept_None: "(rt = None) = (rt' = None) \<Longrightarrow> rt' = None \<Longrightarrow> kept rt = []"
  by (simp add: kept_def)

lemma hash_get_spec:
  assumes "ah_inv [] h" and "kget e h v cbf arg (entry h, m) = (r, E, m')"
  shows "\<exists>h'. hash_get e v cbf arg (h, m) = Ok (r, h', m') \<and> goes h [] E h'"
proof -
  let ?eff = "get_eff e h v cbf arg"
  have t: "tabs_ok h" and k: "ah_inv (kept None) h" using assms(1) by (simp_all add: ah_inv_def kept_def)
  have s: "\<forall>s\<in>set (collect_hash_pos h v). seat_in h s" using seats_in(1) [OF t] by blast
  obtain hit E1 m1 rt1 h1 where f: "afind ?eff e h v (collect_hash_pos h v) (entry h, m) = (hit, E1, m1)"
      "find_loop (try_get e v cbf arg) e v (collect_hash_pos h v) None (h, m) = Ok (hit, rt1, h1, m1)" "goes h (kept rt1) E1 h1" "rt1 = None"
    using get.find_loop_spec [OF k same_shape_refl s, where env = e and key = v and cbf = cbf and arg = arg] by blast
  show ?thesis
  proof (cases hit)
    case True
    with f assms(2) show ?thesis by (auto simp: hash_get_def kget_def kept_def)
  next
    case False
    from f(3,4) have k1: "ah_inv (kept None) h1" "same_shape h h1" "entry h1 = E1" by (simp_all add: goes_def)
    then have s1: "\<forall>s\<in>set collision_seats. seat_in h1 s" using seats_in(2) by (auto simp: ah_inv_def)
    obtain hit2 E2 m2 rt2 h2 where c: "acoll_get ?eff e h v 0 collision_seats (E1, m1) = (hit2, E2, m2)"
        "get_collision (try_get e v cbf arg) e v 0 collision_seats None (h1, m1) = Ok (hit2, rt2, h2, m2)" "goes h1 (kept rt2) E2 h2" "rt2 = None"
      using get.get_collision_spec [OF k1(1,2) s1, where env = e and key = v and cbf = cbf and arg = arg and n = 0 and e = e and v = v and m = m1] k1(3)
      by (auto simp: length_collision_seats)
    have "goes h [] E2 h2" using goes_trans [OF f(3) c(3)] c(4) by (simp add: kept_def)
    then show ?thesis using False f c assms(2) by (auto simp: hash_get_def kget_def)
  qed
qed

lemma adel_append: "adel eff e h v n (xs @ ys) st = (case adel eff e h v n xs st of (k, st1) \<Rightarrow> adel eff e h v k ys st1)"
  by (induction xs arbitrary: n st) (auto split: option.split prod.split)

lemma adel_none: "(\<And>s. s \<in> set ss \<Longrightarrow> fst st s = None) \<Longrightarrow> adel eff e h v n ss st = (n, st)"
  by (induction ss) auto

lemma acur_zero: "acur E = 0 \<longleftrightarrow> (\<forall>s\<in>set collision_seats. E s = None)"
  by (auto simp: acur_def filter_empty_conv)

lemma acur_word:
  "acur E \<le> 64" "(0 :: u64) < word_of_nat (acur E) \<longleftrightarrow> acur E \<noteq> 0" "(ucast (word_of_nat (acur E) :: u64) :: u32) = word_of_nat (acur E)"
  "word_of_nat (acur E) < (word_of_nat MINTAB :: u64) \<longleftrightarrow> acur E < MINTAB"
proof -
  show a: "acur E \<le> 64" using acur_le [of E] by (simp add: MINTAB_def)
  then have u: "unat (word_of_nat (acur E) :: u64) = acur E" by (simp add: unat_of_nat)
  then show "(0 :: u64) < word_of_nat (acur E) \<longleftrightarrow> acur E \<noteq> 0" by (metis unat_eq_zero word_gt_0)
  show "word_of_nat (acur E) < (word_of_nat MINTAB :: u64) \<longleftrightarrow> acur E < MINTAB" using u by (simp add: word_less_nat_alt MINTAB_def)
  show "(ucast (word_of_nat (acur E) :: u64) :: u32) = word_of_nat (acur E)"
    by (rule word_unat_eq_iff [THEN iffD2]) (use a in \<open>simp add: unsigned_ucast_eq take_bit_nat_eq_self unat_of_nat\<close>)
qed

lemma hash_del_spec:
  assumes "ah_inv [] h" and "adelete e h v cbf arg (entry h, m) = (r, E, m')"
  shows "\<exists>h'. hash_del e v cbf arg (h, m) = Ok (r, h', m') \<and> goes h [] E h'"
proof -
  let ?eff = "rem_eff h v cbf arg"
  have t: "tabs_ok h" and k: "ah_inv (kept None) h" using assms(1) by (simp_all add: ah_inv_def kept_def)
  have s: "\<forall>s\<in>set (collect_hash_pos h v). seat_in h s" using seats_in(1) [OF t] by blast
  obtain n E1 m1 rt1 h1 where f: "adel ?eff e h v 0 (collect_hash_pos h v) (entry h, m) = (n, E1, m1)"
      "del_loop (try_del v cbf arg) e v 0 (collect_hash_pos h v) None (h, m) = Ok (n, rt1, h1, m1)" "goes h (kept rt1) E1 h1" "rt1 = None"
    using del.del_loop_spec [OF k same_shape_refl s, where key = v and cbf = cbf and arg = arg] by blast
  from f(3,4) have k1: "ah_inv (kept None) h1" "same_shape h h1" "entry h1 = E1" by (simp_all add: goes_def)
  then have s1: "\<forall>s\<in>set collision_seats. seat_in h1 s" using seats_in(2) by (auto simp: ah_inv_def)
  obtain n2 E2 m2 rt2 h2 where c: "adel ?eff e h v n collision_seats (E1, m1) = (n2, E2, m2)"
      "del_loop (try_del v cbf arg) e v n collision_seats None (h1, m1) = Ok (n2, rt2, h2, m2)" "goes h1 (kept rt2) E2 h2" "rt2 = None"
    using del.del_loop_spec [OF k1(1,2) s1, where key = v and cbf = cbf and arg = arg] k1(3) by blast
  have g: "goes h [] E2 h2" using goes_trans [OF f(3) c(3)] c(4) by (simp add: kept_def)
  have cur: "0 < ncur (ht h1 ! NMHT) \<longleftrightarrow> acur E1 \<noteq> 0" using ncur_collision [OF k1(1)] acur_word(2) [of E1] by (simp add: k1(3))
  have res: "(if n2 > 0 then 0 else -1, E2, m2) = (r, E, m')" using assms(2) f(1) c(1) by (simp add: adelete_def adel_append)
  show ?thesis
  proof (cases "acur E1 = 0")
    case True
    then have "\<And>s. s \<in> set collision_seats \<Longrightarrow> E1 s = None" by (simp add: acur_zero)
    then have "n2 = n" "E2 = E1" "m2 = m1" using adel_none [of collision_seats "(E1, m1)"] c(1) by auto
    then show ?thesis using True cur f res by (auto simp: hash_del_def kept_def)
  next
    case False
    then show ?thesis using cur f c g res by (auto simp: hash_del_def)
  qed
qed

section \<open>Add\<close>

text \<open>Where a new node is put: the first empty seat of the key, or of the collision array.\<close>

definition place :: "ahash \<Rightarrow> hv \<Rightarrow> seats \<Rightarrow> seat option" where
  "place h v E = find (\<lambda>s. E s = None) (collect_hash_pos h v @ collision_seats)"

definition sit :: "ah_env \<Rightarrow> ahash \<Rightarrow> ah_node \<Rightarrow> ptr \<Rightarrow> seat \<Rightarrow> seat_state \<Rightarrow> seat_state" where
  "sit e h p arg s st = (case the (on_add h) (ndata p) arg (snd st) of (r, m1) \<Rightarrow>
     (if r = PLEASE_REMOVE_HASH_NODE then (fst st)(s := None) else (fst st)(s \<mapsto> refresh e (ttl_of h r) p), m1))"

definition aput :: "ah_env \<Rightarrow> ahash \<Rightarrow> hv \<Rightarrow> ah_node \<Rightarrow> ptr \<Rightarrow> seat_state \<Rightarrow> int \<times> seat_state" where
  "aput e h v p arg st = (case place h v (fst st) of None \<Rightarrow> (-1, st) | Some s \<Rightarrow> (0, sit e h p arg s st))"

text \<open>The search of \<open>atomic_hash_add\<close> for the key.\<close>

definition adup :: "ah_env \<Rightarrow> ahash \<Rightarrow> hv \<Rightarrow> ah_hook option \<Rightarrow> ptr \<Rightarrow> seat_state \<Rightarrow> bool \<times> seat_state" where
  "adup e h v cbf arg st =
     (case afind (dup_eff e h v cbf arg) e h v (collect_hash_pos h v) st of (hit, st1) \<Rightarrow>
      if hit then (True, st1) else acoll_add (dup_eff e h v cbf arg) e h v (acur (fst st1)) collision_seats st1)"

lemma take_seat:
  assumes "ah_inv (mi # pv) h" and "node_at (amp h) mi = Ok p" and "seat_read h s = Ok NNULL"
  shows "at_seat pv (add_cur (seat_write h s mi) s) s mi p" and "goes h pv ((entry h)(s \<mapsto> p)) (add_cur (seat_write h s mi) s)"
proof -
  let ?h = "add_cur (seat_write h s mi) s"
  have i: "ah_inv pv ?h" "same_shape h ?h" "entry ?h = (entry h)(s \<mapsto> p)"
    using seat_sit [OF assms(1,3,2)] by (simp_all add: seat_set_cur)
  then show "goes h pv ((entry h)(s \<mapsto> p)) ?h" by (simp add: goes_def)
  have "mi \<noteq> NNULL" using ah_inv_owned [OF assms(1), of mi] by simp
  moreover have "seat_read (seat_write h s mi) s = Ok mi" using seat_read_write [OF assms(3), of mi s] by simp
  then have "seat_read ?h s = Ok mi" by (auto simp: add_cur_def seat_read_iff)
  ultimately show "at_seat pv ?h s mi p" using i assms(2) by (simp add: at_seat_def seat_set_cur)
qed

lemma try_add_spec:
  assumes "ah_inv (mi # pv) h" and "node_at (amp h) mi = Ok p" and "seat_read h s = Ok NNULL"
  shows "\<exists>h'. try_add e s mi arg (h, m) = Ok (True, h', snd (sit e h p arg s (entry h, m))) \<and> goes h pv (fst (sit e h p arg s (entry h, m))) h'"
proof -
  obtain h1 where h1: "set_node h mi (unheld p) = Ok h1" "ah_inv (mi # pv) h1" "same_shape h h1" "ht h1 = ht h"
      "node_at (amp h1) = (node_at (amp h))(mi := Ok (unheld p))" using set_node_inv [OF assms(1), of mi "unheld p"] by auto
  have e1: "entry h1 = entry h" by (rule entry_private [OF assms(1) _ h1(4,5)]) simp
  have r1: "seat_read h1 s = Ok NNULL" using seat_read_cong [OF h1(4)] assms(3) by simp
  let ?h = "add_cur (seat_write h1 s mi) s"
  have "node_at (amp h1) mi = Ok (unheld p)" using h1(5) by simp
  note t = take_seat [OF h1(2) this r1]
  have at: "at_seat pv ?h s mi (unheld p)" and g: "goes h pv ((entry h)(s \<mapsto> unheld p)) ?h"
    using t h1(3) e1 by (auto simp: goes_def intro: same_shape_trans)
  have hk: "on_add ?h = on_add h" "on_add h \<noteq> None" "ttl_of (seat_write h1 s mi) r = ttl_of h r" for r
    using g assms(1) h1(3) by (auto simp: goes_def same_shape_def ah_inv_def tabs_ok_def ttl_of_def seat_write_def split: prod.splits)
  obtain f r m1 where f: "on_add h = Some f" "f (ndata p) arg m = (r, m1)" using hk(2) by fastforce
  have on: "on_add (seat_write h1 s mi) = Some f" using f(1) hk(1) by (simp add: add_cur_def)
  have cas: "seat_cas h1 s NNULL mi = Ok (True, seat_write h1 s mi)" using r1 by (simp add: seat_cas_def)
  show ?thesis
  proof (cases "r = PLEASE_REMOVE_HASH_NODE")
    case True
    obtain h2 where l: "seat_cas ?h s mi NNULL = Ok (True, seat_write ?h s NNULL)"
        "set_node (sub_cur (seat_write ?h s NNULL) s) mi zero_node = Ok h2" "goes ?h (mi # pv) ((entry ?h)(s := None)) h2"
      by (rule leave_seat [OF at])
    have "goes h (mi # pv) ((entry h)(s := None)) h2" using goes_trans [OF g l(3)] g by (simp add: goes_def)
    then obtain h3 where "free_node h2 mi = Ok h3" "goes h pv ((entry h)(s := None)) h3" by (rule free_node_goes)
    then show ?thesis using True f on cas h1(1) assms(2) l by (simp add: try_add_def Let_def sit_def unseat_def)
  next
    case False
    let ?q = "refresh e (ttl_of h r) p" and ?c = "\<lambda>tb. tb\<lparr>nadd := nadd tb + 1\<rparr>"
    obtain h2 where h2: "set_node ?h mi ?q = Ok h2" "goes ?h pv ((entry ?h)(s \<mapsto> ?q)) h2" by (rule at_seat_set [OF at, of ?q])
    have "goes h pv ((entry h)(s \<mapsto> ?q)) (ht_upd h2 (fst s) ?c)"
      using goes_trans [OF g h2(2)] g by (subst goes_counts) (simp_all add: only_counts_def goes_def)
    then show ?thesis using False f on cas h1(1) assms(2) h2 hk(3) by (simp add: try_add_def Let_def sit_def refresh_unheld)
  qed
qed

lemma find_in_append: "find P (xs @ ys) = (case find P xs of None \<Rightarrow> find P ys | Some x \<Rightarrow> Some x)"
  by (induction xs) auto

lemma add_loop_spec:
  assumes "ah_inv (mi # pv) h" and "node_at (amp h) mi = Ok p" and "\<forall>s\<in>set ss. seat_in h s"
  shows "case find (\<lambda>s. entry h s = None) ss of None \<Rightarrow> add_loop e mi arg ss (h, m) = Ok (False, h, m)
    | Some s \<Rightarrow> \<exists>h'. add_loop e mi arg ss (h, m) = Ok (True, h', snd (sit e h p arg s (entry h, m))) \<and> goes h pv (fst (sit e h p arg s (entry h, m))) h'"
  using assms(3)
proof (induction ss)
  case Nil
  then show ?case by simp
next
  case (Cons s ss)
  have "tabs_ok h" using assms(1) by (rule ah_inv_parts)
  then obtain i where i: "seat_read h s = Ok i" using Cons.prems seat_in_read by auto
  show ?case
  proof (cases "i = NNULL")
    case True
    then have "entry h s = None" using entry_None [OF assms(1)] i by simp
    moreover obtain h' where "try_add e s mi arg (h, m) = Ok (True, h', snd (sit e h p arg s (entry h, m)))"
        "goes h pv (fst (sit e h p arg s (entry h, m))) h'" using try_add_spec [OF assms(1,2)] i True by blast
    ultimately show ?thesis using i True by simp
  next
    case False
    then obtain q where "entry h s = Some q" using at_seatI [OF assms(1) i] by blast
    then show ?thesis using Cons i False by (cases "find (\<lambda>s. entry h s = None) ss") auto
  qed
qed

lemma acur_full: "acur E = 64 \<longleftrightarrow> (\<forall>s\<in>set collision_seats. E s \<noteq> None)"
proof -
  have "acur E = length collision_seats \<longleftrightarrow> filter (\<lambda>s. E s \<noteq> None) collision_seats = collision_seats"
    unfolding acur_def by (metis filter_id_conv length_filter_less less_irrefl_nat)
  then show ?thesis by (simp add: length_collision_seats filter_id_conv)
qed

lemma sit_shape: "same_shape h h' \<Longrightarrow> sit e h' p arg s st = sit e h p arg s st"
  by (simp add: sit_def same_shape_def ttl_of_def split: prod.split)

lemma aput_shape:
  assumes "tabs_ok h" and "same_shape h h'"
  shows "aput e h' v p arg st = aput e h v p arg st"
proof -
  have "place h' v E = place h v E" for E unfolding place_def using collect_hash_pos_shape [OF assms] by simp
  then show ?thesis using sit_shape [OF assms(2)] by (simp add: aput_def split: option.split)
qed

text \<open>From a node in hand to the answer.\<close>

lemma add_held_spec:
  assumes "ah_inv [mi] h" and "aput e h v p arg (entry h, m) = (r, E, m')"
  shows "\<exists>h'. add_held e v p arg mi (h, m) = Ok (r, h', m') \<and> goes h [] E h'"
proof -
  obtain h2 where h2: "set_node h mi p = Ok h2" "ah_inv [mi] h2" "same_shape h h2" "ht h2 = ht h"
      "node_at (amp h2) = (node_at (amp h))(mi := Ok p)" using set_node_inv [OF assms(1), of mi p] by auto
  have e2: "entry h2 = entry h" by (rule entry_private [OF assms(1) _ h2(4,5)]) simp
  have n2: "node_at (amp h2) mi = Ok p" using h2(5) by simp
  have t: "tabs_ok h2" "tabs_ok h" using h2(2) assms(1) by (simp_all add: ah_inv_def)
  have pos: "collect_hash_pos h2 v = collect_hash_pos h v" using collect_hash_pos_shape [OF t(2) h2(3)] .
  have "\<forall>s\<in>set (collect_hash_pos h v). seat_in h2 s" "\<forall>s\<in>set collision_seats. seat_in h2 s"
    using seats_in(1) [OF t(1), of _ v] seats_in(2) [OF t(1)] pos by simp_all
  note l = add_loop_spec [OF h2(2) n2 this(1), of e arg m] add_loop_spec [OF h2(2) n2 this(2), of e arg m]
  obtain h5 where h5: "set_node h2 mi zero_node = Ok h5" "ah_inv [mi] h5" "same_shape h2 h5" "ht h5 = ht h2"
      "node_at (amp h5) = (node_at (amp h2))(mi := Ok zero_node)" using set_node_inv [OF h2(2), of mi zero_node] by auto
  have "entry h5 = entry h2" by (rule entry_private [OF h2(2) _ h5(4,5)]) simp
  then have "goes h [mi] (entry h) h5" using h2(3) h5(2,3) e2 by (auto simp: goes_def intro: same_shape_trans)
  then obtain h6 where h6: "free_node h5 mi = Ok h6" "goes h [] (entry h) h6" by (rule free_node_goes)
  have go: "goes h2 [] E h' \<Longrightarrow> goes h [] E h'" for E h' using h2(3) by (auto simp: goes_def intro: same_shape_trans)
  have cur: "ncur (ht h2 ! NMHT) < word_of_nat MINTAB \<longleftrightarrow> acur (entry h) < 64"
    using ncur_collision [OF h2(2)] acur_word(4) [of "entry h"] by (simp add: e2 MINTAB_def)
  have full: "find (\<lambda>s. entry h s = None) collision_seats = None" if "\<not> acur (entry h) < 64"
    using that acur_word(1) [of "entry h"] acur_full [of "entry h"] by (simp add: find_None_iff)
  show ?thesis
  proof (cases "find (\<lambda>s. entry h s = None) (collect_hash_pos h v)")
    case (Some s)
    then show ?thesis using assms(2) l(1) h2(1) go by (auto simp: add_held_def pos e2 aput_def place_def find_in_append sit_shape [OF h2(3)])
  next
    case None
    show ?thesis
    proof (cases "find (\<lambda>s. entry h s = None) collision_seats")
      case (Some s)
      then have "acur (entry h) < 64" using full by fastforce
      then show ?thesis using assms(2) Some None l h2(1) go cur by (auto simp: add_held_def pos e2 aput_def place_def find_in_append sit_shape [OF h2(3)])
    next
      case None2: None
      then show ?thesis using assms(2) None l h2(1) h5(1) h6 cur by (auto simp: add_held_def pos e2 aput_def place_def find_in_append)
    qed
  qed
qed





text \<open>The add that does not find the key: with a node kept from the search, or with a new one.\<close>

definition no_memory :: "ah_env \<Rightarrow> ahash \<Rightarrow> bool" where
  "no_memory e h \<longleftrightarrow> fmi (freelist h) = NNULL \<and> (\<not> calloc_ok e \<or> blocks_of (amp h) = 512)"

lemma add_new_spec:
  assumes "ah_inv (kept (Some ni)) h"
  shows "\<exists>r h' E m'. add_new e v d ttl arg ni (h, m) = Ok (r, h', m') \<and> goes h [] E h'
    \<and> ((r, E, m') = aput e h v (new_entry e v d ttl) arg (entry h, m) \<or> (r, E, m') = (-2, entry h, m) \<and> ni = NNULL \<and> no_memory e h')"
proof -
  obtain r E m' where ap: "aput e h v (new_entry e v d ttl) arg (entry h, m) = (r, E, m')" by (rule prod_cases3)
  show ?thesis
  proof (cases "ni = NNULL")
    case False
    with assms have "ah_inv [ni] h" by (simp add: kept_def)
    from add_held_spec [OF this ap] False ap show ?thesis by (auto simp: add_new_def)
  next
    case True
    with assms have i: "ah_inv [] h" by (simp add: kept_def)
    obtain k h1 where k: "new_node (calloc_ok e) h = Ok (k, h1)" "same_shape h h1" "ht h1 = ht h" "entry h1 = entry h"
        "k = NNULL \<and> ah_inv [] h1 \<and> fmi (freelist h1) = NNULL \<and> (\<not> calloc_ok e \<or> blocks_of (amp h1) = 512) \<or> k \<noteq> NNULL \<and> ah_inv [k] h1"
      by (rule new_node_inv [OF i])
    show ?thesis
    proof (cases "k = NNULL")
      case k0: True
      with k have "goes h [] (entry h) h1" "no_memory e h1" by (auto simp: no_memory_def goes_def)
      then show ?thesis using True k0 k(1) by (auto simp: add_new_def)
    next
      case False
      with k have i1: "ah_inv [k] h1" by simp
      have "aput e h1 v (new_entry e v d ttl) arg (entry h1, m) = (r, E, m')"
        using ap aput_shape [OF ah_inv_parts(1) [OF i] k(2)] k(4) by simp
      from add_held_spec [OF i1 this] obtain h' where "add_held e v (new_entry e v d ttl) arg k (h1, m) = Ok (r, h', m')" "goes h1 [] E h'" by blast
      moreover from this(2) have "goes h [] E h'" using k(2) by (auto simp: goes_def intro: same_shape_trans)
      ultimately show ?thesis using k(1) False True ap by (auto simp: add_new_def)
    qed
  qed
qed

definition aadd :: "ah_env \<Rightarrow> ahash \<Rightarrow> hv \<Rightarrow> value_t \<Rightarrow> int \<Rightarrow> ah_hook option \<Rightarrow> ptr \<Rightarrow> seat_state \<Rightarrow> int \<times> seat_state" where
  "aadd e h v d ttl cbf arg st =
     (case adup e h v cbf arg st of (hit, st1) \<Rightarrow> if hit then (1, st1) else aput e h v (new_entry e v d ttl) arg st1)"

text \<open>The search for a duplicate.\<close>

lemma dup_search_spec:
  assumes "ah_inv [] h" and "adup e h v cbf arg (entry h, m) = (hit, E, m')"
  shows "\<exists>ni h'. dup_search e v cbf arg (h, m) = Ok (hit, Some ni, h', m') \<and> goes h (kept (Some ni)) E h'"
proof -
  let ?eff = "dup_eff e h v cbf arg"
  have t: "tabs_ok h" and k: "ah_inv (kept (Some NNULL)) h" using assms(1) by (simp_all add: ah_inv_def kept_def)
  have s: "\<forall>s\<in>set (collect_hash_pos h v). seat_in h s" using seats_in(1) [OF t] by blast
  obtain hit1 E1 m1 rt1 h1 where f: "afind ?eff e h v (collect_hash_pos h v) (entry h, m) = (hit1, E1, m1)"
      "find_loop (try_dup e v cbf arg) e v (collect_hash_pos h v) (Some NNULL) (h, m) = Ok (hit1, rt1, h1, m1)" "goes h (kept rt1) E1 h1" "rt1 \<noteq> None"
    using dup.find_loop_spec [OF k same_shape_refl s, where env = e and key = v and cbf = cbf and arg = arg] by blast
  then obtain n1 where n1: "rt1 = Some n1" by blast
  show ?thesis
  proof (cases hit1)
    case True
    with f n1 assms(2) show ?thesis by (auto simp: adup_def dup_search_def)
  next
    case False
    from f(3) n1 have k1: "ah_inv (kept (Some n1)) h1" "same_shape h h1" "entry h1 = E1" by (simp_all add: goes_def)
    then have s1: "\<forall>s\<in>set collision_seats. seat_in h1 s" using seats_in(2) by (auto simp: ah_inv_def)
    obtain hit2 E2 m2 rt2 h2 where c: "acoll_add ?eff e h v (acur E1) collision_seats (E1, m1) = (hit2, E2, m2)"
        "add_collision (try_dup e v cbf arg) e v (word_of_nat (acur E1)) collision_seats (Some n1) (h1, m1) = Ok (hit2, rt2, h2, m2)"
        "goes h1 (kept rt2) E2 h2" "rt2 \<noteq> None"
      using dup.add_collision_spec [OF k1(1,2) s1 acur_word(1), where env = e and key = v and cbf = cbf and arg = arg and e = e and v = v and m = m1] k1(3)
      by (metis option.distinct(1))
    have cur: "ucast (ncur (ht h1 ! NMHT)) = (word_of_nat (acur E1) :: u32)" using ncur_collision [OF k1(1)] acur_word(3) [of E1] k1(3) by simp
    have "goes h (kept rt2) E2 h2" using goes_trans [OF f(3) c(3)] .
    then show ?thesis using False f n1 c cur assms(2) by (auto simp: adup_def dup_search_def)
  qed
qed

lemma hash_add_spec:
  assumes "ah_inv [] h"
  shows "\<exists>r h' E m'. hash_add e v d ttl cbf arg (h, m) = Ok (r, h', m') \<and> goes h [] E h'
    \<and> ((r, E, m') = aadd e h v d ttl cbf arg (entry h, m)
       \<or> r = -2 \<and> adup e h v cbf arg (entry h, m) = (False, E, m') \<and> no_memory e h')"
proof -
  obtain hit E1 m1 where a: "adup e h v cbf arg (entry h, m) = (hit, E1, m1)" by (rule prod_cases3)
  obtain ni h1 where s: "dup_search e v cbf arg (h, m) = Ok (hit, Some ni, h1, m1)" and g: "goes h (kept (Some ni)) E1 h1" using dup_search_spec [OF assms a] by blast
  have eq: "hash_add e v d ttl cbf arg (h, m) = (if hit then res_bind (if ni \<noteq> NNULL then free_node h1 ni else Ok h1) (\<lambda>h3. Ok (1, h3, m1))
      else add_new e v d ttl arg ni (h1, m1))"
    using s by (simp add: hash_add_def)
  show ?thesis
  proof (cases hit)
    case True
    show ?thesis
    proof (cases "ni = NNULL")
      case n: True
      then show ?thesis using True eq g a by (auto simp: kept_def aadd_def)
    next
      case False
      then have "goes h [ni] E1 h1" using g by (simp add: kept_def)
      then obtain h3 where "free_node h1 ni = Ok h3" "goes h [] E1 h3" by (rule free_node_goes)
      then show ?thesis using True False eq a by (auto simp: aadd_def)
    qed
  next
    case False
    from g have i: "ah_inv (kept (Some ni)) h1" "same_shape h h1" "entry h1 = E1" by (simp_all add: goes_def)
    obtain r h' E m' where n: "add_new e v d ttl arg ni (h1, m1) = Ok (r, h', m')" "goes h1 [] E h'"
        "(r, E, m') = aput e h1 v (new_entry e v d ttl) arg (entry h1, m1) \<or> (r, E, m') = (-2, entry h1, m1) \<and> ni = NNULL \<and> no_memory e h'"
      using add_new_spec [OF i(1)] by blast
    have go: "goes h [] E h'" using i(2) n(2) by (auto simp: goes_def intro: same_shape_trans)
    from n(3) show ?thesis
    proof
      assume "(r, E, m') = aput e h1 v (new_entry e v d ttl) arg (entry h1, m1)"
      then have "aadd e h v d ttl cbf arg (entry h, m) = (r, E, m')"
        using a False i(3) aput_shape [OF ah_inv_parts(1) [OF assms] i(2)] by (simp add: aadd_def)
      then show ?thesis using n(1) go eq False by auto
    next
      assume x: "(r, E, m') = (-2, entry h1, m1) \<and> ni = NNULL \<and> no_memory e h'"
      then show ?thesis using n(1) go eq False a i(3) by auto
    qed
  qed
qed

section \<open>Sequences of operations\<close>

datatype ah_op =
    Op_add ah_env block int value_t int "ah_hook option" ptr
  | Op_get ah_env block int "ah_hook option" ptr
  | Op_del ah_env block int "ah_hook option" ptr

fun run_op :: "ah_op \<Rightarrow> ahash \<times> mem \<Rightarrow> (int \<times> ahash \<times> mem) res" where
  "run_op (Op_add e kwd len d ttl cbf arg) hm = atomic_hash_add e kwd len d ttl cbf arg hm"
| "run_op (Op_get e kwd len cbf arg) hm = atomic_hash_get e kwd len cbf arg hm"
| "run_op (Op_del e kwd len cbf arg) hm = atomic_hash_del e kwd len cbf arg hm"

text \<open>The key is as long as the caller says: 16 bytes when the length is 0.\<close>

definition key_fits :: "block \<Rightarrow> int \<Rightarrow> bool" where
  "key_fits kwd len \<longleftrightarrow> (if len = 0 then 16 else nat len) \<le> length kwd"

fun op_fits :: "ah_op \<Rightarrow> bool" where
  "op_fits (Op_add e kwd len d ttl cbf arg) \<longleftrightarrow> key_fits kwd len"
| "op_fits (Op_get e kwd len cbf arg) \<longleftrightarrow> key_fits kwd len"
| "op_fits (Op_del e kwd len cbf arg) \<longleftrightarrow> key_fits kwd len"

text \<open>The answers of the operations, in order, and the table they leave.\<close>

primrec run_ops :: "ah_op list \<Rightarrow> ahash \<times> mem \<Rightarrow> (int list \<times> ahash \<times> mem) res" where
  "run_ops [] hm = Ok ([], hm)"
| "run_ops (x # xs) hm = res_bind (run_op x hm) (\<lambda>(r, hm1). res_bind (run_ops xs hm1) (\<lambda>(rs, hm2). Ok (r # rs, hm2)))"

lemma key_of_fits: "key_fits kwd len \<Longrightarrow> \<exists>k. key_of h kwd len = Ok k"
  by (auto simp: key_of_def key_fits_def blk_read_def split: if_splits)

lemma hash_ops_go:
  assumes "ah_inv [] h"
  shows "\<exists>r h' m' E. hash_add e v d ttl cbf arg (h, m) = Ok (r, h', m') \<and> goes h [] E h'"
    and "\<exists>r h' m' E. hash_get e v cbf arg (h, m) = Ok (r, h', m') \<and> goes h [] E h'"
    and "\<exists>r h' m' E. hash_del e v cbf arg (h, m) = Ok (r, h', m') \<and> goes h [] E h'"
proof -
  show "\<exists>r h' m' E. hash_add e v d ttl cbf arg (h, m) = Ok (r, h', m') \<and> goes h [] E h'"
    using hash_add_spec [OF assms, of e v d ttl cbf arg m] by blast
  obtain r E m' where "kget e h v cbf arg (entry h, m) = (r, E, m')" by (rule prod_cases3)
  from hash_get_spec [OF assms this] show "\<exists>r h' m' E. hash_get e v cbf arg (h, m) = Ok (r, h', m') \<and> goes h [] E h'" by blast
  obtain r E m' where "adelete e h v cbf arg (entry h, m) = (r, E, m')" by (rule prod_cases3)
  from hash_del_spec [OF assms this] show "\<exists>r h' m' E. hash_del e v cbf arg (h, m) = Ok (r, h', m') \<and> goes h [] E h'" by blast
qed

lemma run_op_goes:
  assumes "ah_inv [] h" and "op_fits x"
  shows "\<exists>r h' m' E. run_op x (h, m) = Ok (r, h', m') \<and> goes h [] E h'"
proof -
  have key: "\<exists>r h' m' E. res_bind (key_of h kwd len) (\<lambda>k. case k of None \<Rightarrow> Ok (-3 :: int, h, m) | Some v \<Rightarrow> f v) = Ok (r, h', m') \<and> goes h [] E h'"
    if k: "key_fits kwd len" and f: "\<And>v. \<exists>r h' m' E. f v = Ok (r, h', m') \<and> goes h [] E h'" for kwd len f
  proof -
    obtain k where "key_of h kwd len = Ok k" using key_of_fits [OF k] by blast
    then show ?thesis using f goes_refl [OF assms(1)] by (cases k) auto
  qed
  note ks = key [OF _ hash_ops_go(1) [OF assms(1)]] key [OF _ hash_ops_go(2) [OF assms(1)]] key [OF _ hash_ops_go(3) [OF assms(1)]]
  show ?thesis
  proof (cases x)
    case (Op_add e kwd len d ttl cbf arg)
    then show ?thesis using ks(1) [of kwd len] assms(2) by (simp add: atomic_hash_add_def)
  next
    case (Op_get e kwd len cbf arg)
    then show ?thesis using ks(2) [of kwd len] assms(2) by (simp add: atomic_hash_get_def)
  next
    case (Op_del e kwd len cbf arg)
    then show ?thesis using ks(3) [of kwd len] assms(2) by (simp add: atomic_hash_del_def)
  qed
qed

lemma run_ops_goes:
  assumes "ah_inv [] h" and "\<forall>x\<in>set xs. op_fits x"
  shows "\<exists>rs h' m' E. run_ops xs (h, m) = Ok (rs, h', m') \<and> goes h [] E h'"
  using assms
proof (induction xs arbitrary: h m)
  case Nil
  then show ?case using goes_refl by auto
next
  case (Cons x xs)
  from Cons.prems(2) have "op_fits x" by simp
  from run_op_goes [OF Cons.prems(1) this] obtain r h1 m1 E1 where 1: "run_op x (h, m) = Ok (r, h1, m1)" "goes h [] E1 h1" by blast
  then have "ah_inv [] h1" by (simp add: goes_def)
  from Cons.IH [OF this, of m1] Cons.prems(2) obtain rs h2 m2 E2 where "run_ops xs (h1, m1) = Ok (rs, h2, m2)" "goes h1 [] E2 h2" by auto
  with 1(1) goes_trans [OF 1(2)] show ?case by fastforce
qed

section \<open>A new table\<close>

lemma fold_limit_ge: "0 < i \<Longrightarrow> n \<le> fold_limit i n"
  by (induction i n rule: fold_limit.induct) (subst fold_limit.simps, auto)

lemma init_htab_ok: "init_htab num prodn got = Some tb \<Longrightarrow> tab_ok tb \<and> set (buckets tb) = {NNULL}"
proof -
  assume a: "init_htab num prodn got = Some tb"
  let ?n = "if fold_limit 134217728 prodn > MAXTAB then MAXTAB else if prodn < MINTAB then MINTAB else prodn"
  have "?n < 2 ^ 32" "0 < ?n" using fold_limit_ge [of 134217728 prodn] by (auto simp: MAXTAB_def MINTAB_def)
  then have "unat (word_of_nat ?n :: u64) = ?n" by (subst unat_of_nat) simp
  moreover from a have tb: "buckets tb = replicate ?n NNULL" "nb tb = word_of_nat ?n" "ncur tb = 0"
    by (auto simp: init_htab_def Let_def split: if_splits)
  ultimately show ?thesis using \<open>0 < ?n\<close> by (simp add: tab_ok_def used_seats_def)
qed

lemma atomic_hash_create_SomeE:
  assumes "atomic_hash_create hf al n2 p1 p2 nodes ttl = Ok (Some h)"
  obtains t1 t2 t3 mp where "2 \<le> nodes" and "init_htab (unat nodes) p1 (got_tab1 al) = Some t1" and "init_htab n2 p2 (got_tab2 al) = Some t2"
    and "init_htab 0 0 (got_tab3 al) = Some t3" and "create_mem_pool nodes sizeof_node (got_pool al) (got_array al) = Ok (Some mp)"
    and "h = new_ahash hf (word_of_int ttl) [t1, t2, t3] mp"
  using assms by (auto simp: atomic_hash_create_def res_bind_Ok_iff not_less split: if_splits option.splits)

lemma atomic_hash_create_hooks:
  assumes "atomic_hash_create hf al n2 p1 p2 nodes ttl = Ok (Some h)"
  shows "hash_func h = hf" and "on_ttl h = Some default_func_remove_node" and "on_add h = Some default_func_not_change_ttl"
    and "on_dup h = Some default_func_reset_ttl" and "on_get h = Some default_func_not_change_ttl" and "on_del h = Some default_func_remove_node"
  by (rule atomic_hash_create_SomeE [OF assms], simp add: new_ahash_def Let_def)+

lemma atomic_hash_create_inv:
  assumes "atomic_hash_create hf al n2 p1 p2 nodes ttl = Ok (Some h)"
  shows "ah_inv [] h" and "entry h = (\<lambda>s. None)" and "unat nodes \<le> capacity (amp h)" and "fmi (freelist h) = NNULL"
    and "65536 \<le> capacity (amp h)"
proof -
  obtain t1 t2 t3 mp where c: "2 \<le> nodes" "init_htab (unat nodes) p1 (got_tab1 al) = Some t1" "init_htab n2 p2 (got_tab2 al) = Some t2"
      "init_htab 0 0 (got_tab3 al) = Some t3" "create_mem_pool nodes sizeof_node (got_pool al) (got_array al) = Ok (Some mp)"
      "h = new_ahash hf (word_of_int ttl) [t1, t2, t3] mp"
    by (rule atomic_hash_create_SomeE [OF assms])
  have "2 \<le> unat nodes" using c(1) by (simp add: word_le_nat_alt)
  note m = create_mem_pool_Some [OF this c(5)]
  note t = init_htab_ok [OF c(2)] init_htab_ok [OF c(3)] init_htab_ok [OF c(4)]
  have h: "ht h = [t1, t2, t3]" "amp h = mp" "fmi (freelist h) = NNULL" using c(6) by (simp_all add: new_ahash_def Let_def)
  have "length (buckets t3) = MINTAB" using c(4) fold_limit.simps [of 134217728 0]
    by (auto simp: init_htab_def Let_def MAXTAB_def MINTAB_def split: if_splits)
  then have "tabs_ok h" using t c(6) by (auto simp: tabs_ok_def h NMHT_def new_ahash_def Let_def less_Suc_eq numeral_3_eq_3)
  moreover have "m = NNULL" if "m \<in> set (concat (map buckets (ht h)))" for m using that t by (auto simp: h)
  then have "set_mset (seated h) = {}" by (auto simp: seated_def)
  then have "seated h = {#}" by simp
  moreover have "pool_ids mp = {#}" using m(2) by (simp add: pool_ids_def pool_nodes_def)
  ultimately show "ah_inv [] h" using m(1) by (simp add: ah_inv_def h)
  show "unat nodes \<le> capacity (amp h)" using m(3) by (simp add: h)
  show "fmi (freelist h) = NNULL" by (rule h)
  show "65536 \<le> capacity (amp h)" using m(5) by (simp add: h)
  show "entry h = (\<lambda>s. None)"
  proof
    fix s
    show "entry h s = None"
      using seat_read_seated [of h s] \<open>seated h = {#}\<close> by (cases "seat_read h s") (auto simp: entry_def)
  qed
qed

section \<open>No operation faults\<close>


definition small_table :: "(byte list \<Rightarrow> hv) \<Rightarrow> ahash option res" where
  "small_table hf = atomic_hash_create hf \<lparr>got_hash = True, got_tab1 = True, got_tab2 = True, got_tab3 = True, got_pool = True, got_array = True\<rparr> 0 0 0 2 0"

lemma small_table_Some: "\<exists>h. small_table hf = Ok (Some h)"
  by (simp add: small_table_def atomic_hash_create_def init_htab_def fold_limit.simps Let_def MAXTAB_def MINTAB_def
      create_mem_pool_def pwr2.simps sizeof_node_def)


lemma pool_full:
  assumes "ah_inv [] h" and "fmi (freelist h) = NNULL" and "blocks_of (amp h) = 512"
  shows "seated h = pool_ids (amp h)" and "size (seated h) = capacity (amp h)"
proof -
  obtain fs where f: "pool_ok (amp h)" "chain (node_at (amp h)) (fmi (freelist h)) fs"
      "mset fs + mset [] + seated h = pool_ids (amp h)" using assms(1) by (rule ah_invE)
  then show s: "seated h = pool_ids (amp h)" using assms(2) by simp
  show "size (seated h) = capacity (amp h)"
    using pool_okD(1,3,4) [OF f(1)] assms(3) by (simp add: s pool_ids_def pool_nodes_def capacity_def unat_pow2)
qed

text \<open>
  \<open>atomic_hash_add\<close> answers -2, that it has no node left, only when the allocator refused a block or
  the table holds at least the number of nodes it was created for.
\<close>

theorem ahash_add_exhausted:
  assumes "atomic_hash_create hf al n2 p1 p2 nodes ttl = Ok (Some h0)" and "\<forall>x\<in>set xs. op_fits x"
    and "run_ops xs (h0, m) = Ok (rs, h, m1)" and "atomic_hash_add e kwd len d ttl' cbf arg (h, m1) = Ok (-2, h', m2)"
  shows "\<not> calloc_ok e \<or> unat nodes \<le> size (seated h')"
proof -
  obtain E where g: "goes h0 [] E h" using run_ops_goes [OF atomic_hash_create_inv(1) [OF assms(1)] assms(2), of m] assms(3) by auto
  then have i: "ah_inv [] h" "same_shape h0 h" by (simp_all add: goes_def)
  from assms(4) obtain v where v: "hash_add e v d ttl' cbf arg (h, m1) = Ok (-2, h', m2)"
    by (auto simp: atomic_hash_add_def res_bind_Ok_iff split: option.splits)
  have "fst (aput e k v p arg st) \<noteq> -2" for k p st by (simp add: aput_def split: option.split)
  then have "fst (aadd e h v d ttl' cbf arg st) \<noteq> -2" for st by (simp add: aadd_def split: prod.split)
  then obtain E' where "goes h [] E' h'" "no_memory e h'"
    using hash_add_spec [OF i(1), of e v d ttl' cbf arg m1] v by (metis fst_conv prod.inject res.inject(2))
  then have "ah_inv [] h'" "capacity (amp h') = capacity (amp h)" by (auto simp: goes_def same_shape_def)
  then show ?thesis using pool_full(2) [of h'] \<open>no_memory e h'\<close> atomic_hash_create_inv(3) [OF assms(1)] i(2)
    by (auto simp: no_memory_def same_shape_def)
qed

text \<open>The first addition to a new table, when the allocator refuses.\<close>

lemma find_loop_empty: "(\<And>s. s \<in> set ss \<Longrightarrow> seat_read h s = Ok NNULL) \<Longrightarrow> find_loop act e v ss rt (h, m) = Ok (False, rt, h, m)"
  by (induction ss) auto

lemma add_collision_0: "add_collision act e v 0 ss rt hm = Ok (False, rt, hm)"
  by (cases ss) auto

lemma refused_add:
  assumes "atomic_hash_create hf al n2 p1 p2 nodes ttl = Ok (Some h)" and "\<not> calloc_ok e" and "key_of h kwd len = Ok (Some v)"
  shows "\<exists>h'. atomic_hash_add e kwd len d ttl' cbf arg (h, m) = Ok (-2, h', m)"
proof -
  note c = atomic_hash_create_inv [OF assms(1)]
  have t: "tabs_ok h" and ok: "pool_ok (amp h)" using c(1) by (simp_all add: ah_inv_def)
  have "seat_read h s = Ok NNULL" if i: "seat_in h s" for s
  proof -
    obtain mi where mi: "seat_read h s = Ok mi" using i seat_in_read [OF t] by blast
    have "mi = NNULL"
    proof (rule ccontr)
      assume "mi \<noteq> NNULL"
      then obtain p where "entry h s = Some p" using at_seatI [OF c(1) mi] by blast
      then show False by (simp add: c(2))
    qed
    with mi show ?thesis by simp
  qed
  then have f: "find_loop act e v (collect_hash_pos h v) rt (h, m) = Ok (False, rt, h, m)" for act rt
    using collect_hash_pos_in [OF t] by (intro find_loop_empty) auto
  have "ncur (ht h ! NMHT) = 0" using ncur_collision [OF c(1)] by (simp add: c(2) acur_def)
  then have "dup_search e v cbf arg (h, m) = Ok (False, Some NNULL, h, m)"
    by (simp add: dup_search_def f add_collision_0)
  moreover have "fmi (freelist h) = NNULL"
    by (rule c)
  then have "new_node (calloc_ok e) h = Ok (NNULL, h\<lparr>stats := (stats h)\<lparr>add_nomem := add_nomem (stats h) + 1\<rparr>\<rparr>)"
    using assms(2) by (simp add: new_node_def new_mem_block_spec [OF ok])
  ultimately show ?thesis using assms(3) by (simp add: atomic_hash_add_def hash_add_def add_new_def)
qed

theorem ahash_add_exhausted_witness:
  "\<exists>h0 h' m2. small_table (\<lambda>k. \<lparr>hvx = 1, hvy = 2\<rparr>) = Ok (Some h0) \<and>
    atomic_hash_add \<lparr>now_ms = 0, later_ms = 0, calloc_ok = False\<rparr> [7] 1 5 0 None NULL (h0, fmempty) = Ok (-2, h', m2) \<and>
    (\<not> calloc_ok \<lparr>now_ms = 0, later_ms = 0, calloc_ok = False\<rparr> \<or> 2 \<le> size (seated h'))"
proof -
  obtain h0 where h0: "small_table (\<lambda>k. \<lparr>hvx = 1, hvy = 2\<rparr>) = Ok (Some h0)" using small_table_Some by blast
  let ?e = "\<lparr>now_ms = 0, later_ms = 0, calloc_ok = False\<rparr>"
  have "key_of h0 [7] 1 = Ok (Some (hash_func h0 [7]))" by (simp add: key_of_def blk_read_def)
  then obtain h' where a: "atomic_hash_add ?e [7] 1 5 0 None NULL (h0, fmempty) = Ok (-2, h', fmempty)"
    using refused_add [OF h0 [unfolded small_table_def], of ?e] by fastforce
  then have "\<not> calloc_ok ?e \<or> unat (2 :: u32) \<le> size (seated h')"
    using ahash_add_exhausted [OF h0 [unfolded small_table_def], of "[]" fmempty "[]" h0 fmempty ?e "[7]" 1 5 0 None NULL h' fmempty] by simp
  with h0 a show ?thesis by auto
qed





end
