(* ===== verification/Ahash_Map.thy ===== *)
theory Ahash_Map
  imports Ahash_Safe
begin

text \<open>
  The atomic hash as a map from hash values to data: entries that do not expire are found, kept and
  removed as in a finite map, whatever the hooks do. The behaviour with entries that expire and with
  hash values whose second half is 0 follows at the end.
\<close>

section \<open>Searching maps of seats\<close>

definition match :: "seats \<Rightarrow> hv \<Rightarrow> seat \<Rightarrow> bool" where
  "match E v s \<longleftrightarrow> (case E s of None \<Rightarrow> False | Some p \<Rightarrow> nv p = v)"

lemma match_simps [simp]:
  "E s = None \<Longrightarrow> \<not> match E v s" "E s = Some p \<Longrightarrow> match E v s \<longleftrightarrow> nv p = v"
  by (simp_all add: match_def)

definition lasting :: "seats \<Rightarrow> bool" where
  "lasting E \<longleftrightarrow> (\<forall>s p. E s = Some p \<longrightarrow> nexpire p = 0 \<and> hvy (nv p) \<noteq> 0)"

text \<open>An effect that changes nothing unless the key is the one that is looked for.\<close>

definition picks :: "hv \<Rightarrow> effect \<Rightarrow> bool" where
  "picks v eff \<longleftrightarrow> (\<forall>p m. hvy (nv p) \<noteq> 0 \<longrightarrow> (if nv p = v then fst (eff p m) else eff p m = (False, Some p, m)))"

definition applied :: "effect \<Rightarrow> seat \<Rightarrow> seat_state \<Rightarrow> seat_state" where
  "applied eff s st = (case eff (the (fst st s)) (snd st) of (hit, x, m') \<Rightarrow> ((fst st)(s := x), m'))"

lemma spoil_id: "hvy (nv p) \<noteq> 0 \<Longrightarrow> spoil v p = p"
  by (simp add: spoil_def)

lemma picks_hit_eff: "picks v (hit_eff g e h v arg)"
  by (auto simp: picks_def hit_eff_def spoil_id)

lemma picks_effs [simp]: "picks v (get_eff e h v cbf arg)" "picks v (dup_eff e h v cbf arg)" "picks v (rem_eff h v cbf arg)"
  by (simp_all add: get_eff_def dup_eff_def picks_hit_eff) (auto simp: picks_def rem_eff_def del_eff_def spoil_id)

lemma avisit_lasting:
  assumes "lasting E" and "picks v eff" and "E s = Some p"
  shows "avisit eff e h v s p (E, m) = (if nv p = v then (True, applied eff s (E, m)) else (False, E, m))"
proof -
  have n: "nexpire p = 0" "hvy (nv p) \<noteq> 0" using assms(1,3) unfolding lasting_def by blast+
  have "eff p m = (False, Some p, m)" if "nv p \<noteq> v" using assms(2) n(2) that by (auto simp: picks_def)
  moreover have "fst (eff p m)" if "nv p = v" using assms(2) n(2) that by (auto simp: picks_def)
  moreover have "E(s \<mapsto> p) = E" using assms(3) by auto
  ultimately show ?thesis using n assms(3)
    by (cases "eff p m") (auto simp: avisit_def expired_def applied_def likely_equal_def)
qed

lemma afind_lasting:
  assumes "lasting E" and "picks v eff"
  shows "afind eff e h v ss (E, m) =
    (case find (match E v) ss of None \<Rightarrow> (False, E, m) | Some s \<Rightarrow> (True, applied eff s (E, m)))"
proof (induction ss)
  case (Cons s ss)
  then show ?case by (cases "E s") (simp_all add: avisit_lasting [OF assms])
qed simp

lemma find_unused: "length (filter (\<lambda>s. E s \<noteq> None) ss) = 0 \<Longrightarrow> find (match E v) ss = None"
proof (induction ss)
  case (Cons s ss)
  then show ?case by (cases "E s") simp_all
qed simp

lemma acoll_add_lasting:
  assumes "lasting E" and "picks v eff"
  shows "length (filter (\<lambda>s. E s \<noteq> None) ss) \<le> n \<Longrightarrow> acoll_add eff e h v n ss (E, m) =
    (case find (match E v) ss of None \<Rightarrow> (False, E, m) | Some s \<Rightarrow> (True, applied eff s (E, m)))"
proof (induction ss arbitrary: n)
  case (Cons s ss)
  show ?case
  proof (cases "E s")
    case None
    with Cons find_unused [of E ss v] show ?thesis by (cases "n = 0") simp_all
  next
    case (Some p)
    with Cons.prems have "length (filter (\<lambda>s. E s \<noteq> None) ss) \<le> n - 1" "n \<noteq> 0" by auto
    with Some Cons.IH [OF this(1)] show ?thesis by (simp add: avisit_lasting [OF assms Some])
  qed
qed simp

lemma acoll_get_lasting:
  assumes "lasting E" and "picks v eff"
  shows "n + length (filter (\<lambda>s. E s \<noteq> None) ss) = acur E \<Longrightarrow> acoll_get eff e h v n ss (E, m) =
    (case find (match E v) ss of None \<Rightarrow> (False, E, m) | Some s \<Rightarrow> (True, applied eff s (E, m)))"
proof (induction ss arbitrary: n)
  case (Cons s ss)
  show ?case
  proof (cases "E s")
    case None
    with Cons.prems have l: "n + length (filter (\<lambda>s. E s \<noteq> None) ss) = acur E" by simp
    show ?thesis
    proof (cases "n < acur E")
      case True
      with Cons.IH [OF l] None show ?thesis by simp
    next
      case False
      with l have "length (filter (\<lambda>s. E s \<noteq> None) ss) = 0" by linarith
      with False None find_unused [of E ss v] show ?thesis by simp
    qed
  next
    case (Some p)
    with Cons.prems have "Suc n + length (filter (\<lambda>s. E s \<noteq> None) ss) = acur E" by simp
    with Some Cons.IH [OF this] show ?thesis by (simp add: avisit_lasting [OF assms Some])
  qed
qed simp

lemma adel_nomatch:
  assumes "lasting E" and "picks v eff"
  shows "find (match E v) ss = None \<Longrightarrow> adel eff e h v n ss (E, m) = (n, E, m)"
proof (induction ss)
  case (Cons s ss)
  then show ?case by (cases "E s") (simp_all add: avisit_lasting [OF assms] split: if_splits)
qed simp

section \<open>The map a table stands for\<close>

abbreviation key_seats :: "ahash \<Rightarrow> hv \<Rightarrow> seat list" where
  "key_seats h v \<equiv> collect_hash_pos h v @ collision_seats"

definition keys_ok :: "ahash \<Rightarrow> seats \<Rightarrow> bool" where
  "keys_ok h E \<longleftrightarrow> lasting E \<and> (\<forall>s p. E s = Some p \<longrightarrow> s \<in> set (key_seats h (nv p)))
     \<and> (\<forall>s s' p p'. E s = Some p \<longrightarrow> E s' = Some p' \<longrightarrow> nv p = nv p' \<longrightarrow> s' = s)"

lemma lastingD: "lasting E \<Longrightarrow> E s = Some p \<Longrightarrow> nexpire p = 0 \<and> hvy (nv p) \<noteq> 0"
  unfolding lasting_def by blast

lemma keys_okI:
  assumes "\<And>s p. E s = Some p \<Longrightarrow> nexpire p = 0 \<and> hvy (nv p) \<noteq> 0 \<and> s \<in> set (key_seats h (nv p))"
    and "\<And>s s' p p'. E s = Some p \<Longrightarrow> E s' = Some p' \<Longrightarrow> nv p = nv p' \<Longrightarrow> s' = s"
  shows "keys_ok h E"
  using assms unfolding keys_ok_def lasting_def by blast

definition srep :: "ahash \<Rightarrow> seats \<Rightarrow> (hv \<rightharpoonup> value_t) \<Rightarrow> bool" where
  "srep h E M \<longleftrightarrow> keys_ok h E \<and> (\<forall>v d. M v = Some d \<longleftrightarrow> (\<exists>s p. E s = Some p \<and> nv p = v \<and> ndata p = d))"

lemma srepD:
  assumes "srep h E M"
  shows "lasting E" and "E s = Some p \<Longrightarrow> s \<in> set (key_seats h (nv p))" and "E s = Some p \<Longrightarrow> nexpire p = 0" and "E s = Some p \<Longrightarrow> M (nv p) = Some (ndata p)"
    and "E s = Some p \<Longrightarrow> E s' = Some p' \<Longrightarrow> nv p = nv p' \<Longrightarrow> s' = s"
  using assms unfolding srep_def keys_ok_def lasting_def by blast+

lemma srep_remove:
  assumes "srep h E M" and "E s = Some p"
  shows "srep h (E(s := None)) (M(nv p := None))"
proof -
  have "keys_ok h (E(s := None))" 
    by (rule keys_okI) (use srepD [OF assms(1)] in \<open>auto simp: lasting_def split: if_splits\<close>)
  moreover have "(M(nv p := None)) v = Some d \<longleftrightarrow> (\<exists>s' p'. (E(s := None)) s' = Some p' \<and> nv p' = v \<and> ndata p' = d)" for v d
  proof (cases "v = nv p")
    case True
    then show ?thesis using srepD(5) [OF assms] by (auto simp: fun_upd_def)
  next
    case False
    then have "(\<exists>s' p'. (E(s := None)) s' = Some p' \<and> nv p' = v \<and> ndata p' = d) \<longleftrightarrow> (\<exists>s' p'. E s' = Some p' \<and> nv p' = v \<and> ndata p' = d)"
      using assms(2) by (metis fun_upd_apply option.distinct(1) option.inject)
    then show ?thesis using False assms(1) unfolding srep_def by simp
  qed
  ultimately show ?thesis unfolding srep_def by blast
qed

lemma srep_insert:
  assumes "srep h E M" and "E s = None" and "M (nv q) = None" and "s \<in> set (key_seats h (nv q))" and "hvy (nv q) \<noteq> 0" and "nexpire q = 0"
  shows "srep h (E(s \<mapsto> q)) (M(nv q \<mapsto> ndata q))"
proof -
  have new: "nv p \<noteq> nv q" if "E s' = Some p" for s' p using srepD(4) [OF assms(1) that] assms(3) by auto
  have "keys_ok h (E(s \<mapsto> q))"
  proof (rule keys_okI)
    fix t p
    assume "(E(s \<mapsto> q)) t = Some p"
    then show "nexpire p = 0 \<and> hvy (nv p) \<noteq> 0 \<and> t \<in> set (key_seats h (nv p))"
      using assms(4-6) srepD(2,3) [OF assms(1), of t p] lastingD [OF srepD(1) [OF assms(1)], of t p] by (auto split: if_splits)
  next
    fix t t' p p'
    assume "(E(s \<mapsto> q)) t = Some p" "(E(s \<mapsto> q)) t' = Some p'" "nv p = nv p'"
    then show "t' = t" using new [of t p] new [of t' p'] srepD(5) [OF assms(1), of t p t' p'] by (auto split: if_splits)
  qed
  moreover have "(M(nv q \<mapsto> ndata q)) v = Some d \<longleftrightarrow> (\<exists>s' p'. (E(s \<mapsto> q)) s' = Some p' \<and> nv p' = v \<and> ndata p' = d)" for v d
  proof (cases "v = nv q")
    case True
    then show ?thesis using new by (metis (no_types, lifting) fun_upd_apply option.inject)
  next
    case False
    then have "(\<exists>s' p'. (E(s \<mapsto> q)) s' = Some p' \<and> nv p' = v \<and> ndata p' = d) \<longleftrightarrow> (\<exists>s' p'. E s' = Some p' \<and> nv p' = v \<and> ndata p' = d)"
      using assms(2) by (metis fun_upd_apply option.distinct(1) option.inject)
    then show ?thesis using False assms(1) unfolding srep_def by simp
  qed
  ultimately show ?thesis unfolding srep_def by blast
qed

lemma srep_shape: "srep h E M \<Longrightarrow> tabs_ok h \<Longrightarrow> same_shape h h' \<Longrightarrow> srep h' E M"
  unfolding srep_def keys_ok_def by (simp only: collect_hash_pos_shape) blast

lemma srep_find:
  assumes "srep h E M"
  shows "case find (match E v) (key_seats h v) of None \<Rightarrow> M v = None | Some s \<Rightarrow> \<exists>p. E s = Some p \<and> nv p = v \<and> M v = Some (ndata p)"
proof (cases "find (match E v) (key_seats h v)")
  case None
  have "M v \<noteq> Some d" for d
  proof
    assume "M v = Some d"
    then obtain s p where s: "E s = Some p" "nv p = v" using assms unfolding srep_def by blast
    then have "s \<in> set (key_seats h v)" using srepD(2) [OF assms] by blast
    moreover have "match E v s" using s by simp
    ultimately show False using None unfolding find_None_iff by blast
  qed
  with None show ?thesis by (cases "M v") auto
next
  case (Some s)
  then have "match E v s" by (auto simp: find_Some_iff)
  then obtain p where "E s = Some p" "nv p = v" by (auto simp: match_def split: option.splits)
  with Some srepD(4) [OF assms, of s p] show ?thesis by auto
qed

section \<open>The operations on maps of seats\<close>

lemma kget_lasting:
  assumes "srep h E M"
  shows "kget e h v cbf arg (E, m) = (case find (match E v) (key_seats h v) of None \<Rightarrow> (-1, E, m)
    | Some s \<Rightarrow> (0, applied (get_eff e h v cbf arg) s (E, m)))"
proof -
  have "acoll_get (get_eff e h v cbf arg) e h v 0 collision_seats (E, m) =
      (case find (match E v) collision_seats of None \<Rightarrow> (False, E, m) | Some s \<Rightarrow> (True, applied (get_eff e h v cbf arg) s (E, m)))"
    by (rule acoll_get_lasting [OF srepD(1) [OF assms]]) (simp_all add: acur_def)
  then show ?thesis
    by (simp add: kget_def afind_lasting [OF srepD(1) [OF assms]] find_in_append split: option.split)
qed

lemma adup_lasting:
  assumes "srep h E M"
  shows "adup e h v cbf arg (E, m) = (case find (match E v) (key_seats h v) of None \<Rightarrow> (False, E, m)
    | Some s \<Rightarrow> (True, applied (dup_eff e h v cbf arg) s (E, m)))"
proof -
  have "acoll_add (dup_eff e h v cbf arg) e h v (acur E) collision_seats (E, m) =
      (case find (match E v) collision_seats of None \<Rightarrow> (False, E, m) | Some s \<Rightarrow> (True, applied (dup_eff e h v cbf arg) s (E, m)))"
    by (rule acoll_add_lasting [OF srepD(1) [OF assms]]) (simp_all add: acur_def)
  then show ?thesis
    by (simp add: adup_def afind_lasting [OF srepD(1) [OF assms]] find_in_append split: option.split)
qed

lemma find_split:
  assumes "find P xs = Some x"
  obtains ys zs where "xs = ys @ x # zs" and "find P ys = None" and "P x"
proof -
  obtain i where i: "i < length xs" "P (xs ! i)" "x = xs ! i" "\<forall>j<i. \<not> P (xs ! j)" using assms by (auto simp: find_Some_iff)
  have "xs = take i xs @ x # drop (Suc i) xs" using i(1,3) by (simp add: id_take_nth_drop)
  moreover have "find P (take i xs) = None" using i(1,4) by (auto simp: find_None_iff in_set_conv_nth)
  ultimately show ?thesis using that i(2,3) by blast
qed

lemma adelete_lasting:
  assumes "srep h E M"
  shows "adelete e h v cbf arg (E, m) = (case find (match E v) (key_seats h v) of None \<Rightarrow> (-1, E, m)
    | Some s \<Rightarrow> (0, E(s := None), snd (the (or_default cbf (on_del h)) (ndata (the (E s))) arg m)))"
proof (cases "find (match E v) (key_seats h v)")
  case None
  then show ?thesis using adel_nomatch [OF srepD(1) [OF assms] picks_effs(3) None] by (simp add: adelete_def)
next
  case (Some s)
  then obtain xs ys where xs: "key_seats h v = xs @ s # ys" "find (match E v) xs = None" "match E v s" by (rule find_split)
  then obtain p where p: "E s = Some p" "nv p = v" by (auto simp: match_def split: option.splits)
  let ?E = "E(s := None)"
  have y: "hvy v \<noteq> 0" using lastingD [OF srepD(1) [OF assms] p(1)] p(2) by simp
  have "srep h ?E (M(nv p := None))" using srep_remove [OF assms p(1)] .
  then have l: "lasting ?E" by (rule srepD)
  have none: "find (match ?E v) ys = None" unfolding find_None_iff
  proof
    assume "\<exists>t. t \<in> set ys \<and> match ?E v t"
    then obtain t q where "t \<noteq> s" "E t = Some q" "nv q = v" by (auto simp: match_def split: option.splits if_splits)
    then show False using srepD(5) [OF assms p(1)] p(2) by blast
  qed
  let ?m = "snd (the (or_default cbf (on_del h)) (ndata p) arg m)"
  have ap: "applied (rem_eff h v cbf arg) s (E, m) = (?E, ?m)" using p y by (simp add: applied_def rem_eff_def del_eff_def)
  have "adel (rem_eff h v cbf arg) e h v 0 (key_seats h v) (E, m) = (1, ?E, ?m)"
    using adel_nomatch [OF srepD(1) [OF assms] picks_effs(3) xs(2)] adel_nomatch [OF l picks_effs(3) none] p
    by (simp add: xs(1) adel_append avisit_lasting [OF srepD(1) [OF assms]] ap)
  then show ?thesis using Some p by (simp add: adelete_def)
qed

section \<open>The specification\<close>

type_synonym key_state = "(hv \<rightharpoonup> value_t) \<times> mem"

text \<open>A hook sees the data of the key and may ask for its removal.\<close>

definition map_hit :: "int \<Rightarrow> ah_hook \<Rightarrow> hv \<Rightarrow> value_t \<Rightarrow> ptr \<Rightarrow> key_state \<Rightarrow> int \<times> key_state" where
  "map_hit code g v d arg st =
     (code, if fst (g d arg (snd st)) = PLEASE_REMOVE_HASH_NODE then (fst st)(v := None) else fst st, snd (g d arg (snd st)))"

definition at_least :: "nat \<Rightarrow> (hv \<rightharpoonup> value_t) \<Rightarrow> bool" where
  "at_least n M \<longleftrightarrow> (\<exists>K. K \<subseteq> dom M \<and> finite K \<and> n \<le> card K)"

fun op_key :: "(byte list \<Rightarrow> hv) \<Rightarrow> ah_op \<Rightarrow> hv" where
  "op_key hf (Op_add e kwd len d ttl cbf arg) = (if len = 0 then hv_of_bytes (take 16 kwd) else hf (take (nat len) kwd))"
| "op_key hf (Op_get e kwd len cbf arg) = (if len = 0 then hv_of_bytes (take 16 kwd) else hf (take (nat len) kwd))"
| "op_key hf (Op_del e kwd len cbf arg) = (if len = 0 then hv_of_bytes (take 16 kwd) else hf (take (nat len) kwd))"

text \<open>
  \<open>map_step h x st out\<close>: what the operation may answer and do to the map, with the hooks of the table
  \<open>h\<close>. An addition fails only when the collision array is full or the pool is exhausted.
\<close>

fun map_step :: "ahash \<Rightarrow> ah_op \<Rightarrow> key_state \<Rightarrow> int \<times> key_state \<Rightarrow> bool" where
  "map_step h (Op_add e kwd len d ttl cbf arg) (M, m) out \<longleftrightarrow>
     (let v = op_key (hash_func h) (Op_add e kwd len d ttl cbf arg) in
      case M v of
        Some d' \<Rightarrow> out = map_hit 1 (the (or_default cbf (on_dup h))) v d' arg (M, m)
      | None \<Rightarrow> out = map_hit 0 (the (on_add h)) v d arg (M(v \<mapsto> d), m)
          \<or> out = (-1, M, m) \<and> at_least MINTAB M
          \<or> out = (-2, M, m) \<and> (\<not> calloc_ok e \<or> at_least (capacity (amp h)) M))"
| "map_step h (Op_get e kwd len cbf arg) (M, m) out \<longleftrightarrow>
     (let v = op_key (hash_func h) (Op_get e kwd len cbf arg) in
      out = (case M v of None \<Rightarrow> (-1, M, m) | Some d \<Rightarrow> map_hit 0 (the (or_default cbf (on_get h))) v d arg (M, m)))"
| "map_step h (Op_del e kwd len cbf arg) (M, m) out \<longleftrightarrow>
     (let v = op_key (hash_func h) (Op_del e kwd len cbf arg) in
      out = (case M v of None \<Rightarrow> (-1, M, m) | Some d \<Rightarrow> (0, M(v := None), snd (the (or_default cbf (on_del h)) d arg m))))"

fun map_run :: "ahash \<Rightarrow> ah_op list \<Rightarrow> int list \<Rightarrow> key_state \<Rightarrow> key_state \<Rightarrow> bool" where
  "map_run h [] rs st st' \<longleftrightarrow> rs = [] \<and> st' = st"
| "map_run h (x # xs) rs st st' \<longleftrightarrow> (\<exists>r rs' st1. rs = r # rs' \<and> map_step h x st (r, st1) \<and> map_run h xs rs' st1 st')"

text \<open>An operation without an expiry time, whose hash value has a second half that is not 0.\<close>

fun plain_op :: "(byte list \<Rightarrow> hv) \<Rightarrow> ah_op \<Rightarrow> bool" where
  "plain_op hf (Op_add e kwd len d ttl cbf arg) \<longleftrightarrow> 0 \<le> len \<and> key_fits kwd len \<and> ttl \<le> 0 \<and> hvy (op_key hf (Op_add e kwd len d ttl cbf arg)) \<noteq> 0"
| "plain_op hf (Op_get e kwd len cbf arg) \<longleftrightarrow> 0 \<le> len \<and> key_fits kwd len \<and> hvy (op_key hf (Op_get e kwd len cbf arg)) \<noteq> 0"
| "plain_op hf (Op_del e kwd len cbf arg) \<longleftrightarrow> 0 \<le> len \<and> key_fits kwd len \<and> hvy (op_key hf (Op_del e kwd len cbf arg)) \<noteq> 0"

lemma key_of_plain:
  "0 \<le> len \<Longrightarrow> key_fits kwd len \<Longrightarrow> key_of h kwd len = Ok (Some (if len = 0 then hv_of_bytes (take 16 kwd) else hash_func h (take (nat len) kwd)))"
  by (auto simp: key_of_def key_fits_def blk_read_def split: if_splits)

section \<open>The operations refine the map\<close>

lemma refresh_lasting: "nexpire p = 0 \<Longrightarrow> refresh e r p = p"
  by (simp add: refresh_def)

lemma applied_hit:
  assumes "srep h E M" and "E s = Some p" and "nv p = v" and "map_hit code g v (ndata p) arg (M, m) = (r, M', m')"
  shows "\<exists>E'. applied (hit_eff g e h v arg) s (E, m) = (E', m') \<and> srep h E' M' \<and> r = code"
proof -
  have p: "nexpire p = 0" "hvy v \<noteq> 0" using lastingD [OF srepD(1) [OF assms(1)] assms(2)] assms(3) by auto
  show ?thesis
  proof (cases "fst (g (ndata p) arg m) = PLEASE_REMOVE_HASH_NODE")
    case True
    then show ?thesis using p assms srep_remove [OF assms(1,2)] by (auto simp: applied_def hit_eff_def map_hit_def)
  next
    case False
    have "E(s \<mapsto> p) = E" using assms(2) by auto
    then show ?thesis using False p assms by (auto simp: applied_def hit_eff_def map_hit_def refresh_lasting)
  qed
qed

definition rep :: "ahash \<Rightarrow> (hv \<rightharpoonup> value_t) \<Rightarrow> bool" where
  "rep h M \<longleftrightarrow> ah_inv [] h \<and> srep h (entry h) M"

lemma rep_goes: "rep h M \<Longrightarrow> goes h [] E h' \<Longrightarrow> srep h E M' \<Longrightarrow> rep h' M'"
  using srep_shape [of h E M' h'] by (auto simp: rep_def goes_def ah_inv_def)

lemma hash_get_refines:
  assumes "rep h M"
  shows "\<exists>r h' m' M'. hash_get e v cbf arg (h, m) = Ok (r, h', m') \<and> rep h' M' \<and> same_shape h h'
    \<and> (r, M', m') = (case M v of None \<Rightarrow> (-1, M, m) | Some d \<Rightarrow> map_hit 0 (the (or_default cbf (on_get h))) v d arg (M, m))"
proof -
  have i: "ah_inv [] h" and s: "srep h (entry h) M" using assms by (simp_all add: rep_def)
  obtain r M' m' where o: "(case M v of None \<Rightarrow> (-1, M, m) | Some d \<Rightarrow> map_hit 0 (the (or_default cbf (on_get h))) v d arg (M, m)) = (r, M', m')"
    by (rule prod_cases3)
  have "\<exists>E'. kget e h v cbf arg (entry h, m) = (r, E', m') \<and> srep h E' M'"
  proof (cases "find (match (entry h) v) (key_seats h v)")
    case None
    then show ?thesis using srep_find [OF s, of v] o s by (simp add: kget_lasting [OF s])
  next
    case (Some t)
    then obtain p where p: "entry h t = Some p" "nv p = v" "M v = Some (ndata p)" using srep_find [OF s, of v] by auto
    with o have "map_hit 0 (the (or_default cbf (on_get h))) v (ndata p) arg (M, m) = (r, M', m')" by simp
    from applied_hit [OF s p(1,2) this, of e] Some show ?thesis by (auto simp: kget_lasting [OF s] get_eff_def)
  qed
  then obtain E' where E': "kget e h v cbf arg (entry h, m) = (r, E', m')" "srep h E' M'" by blast
  from hash_get_spec [OF i E'(1)] obtain h' where "hash_get e v cbf arg (h, m) = Ok (r, h', m')" "goes h [] E' h'" by blast
  moreover from this(2) have "rep h' M'" "same_shape h h'" using rep_goes [OF assms _ E'(2)] by (auto simp: goes_def)
  ultimately show ?thesis using o by metis
qed

lemma hash_del_refines:
  assumes "rep h M"
  shows "\<exists>r h' m' M'. hash_del e v cbf arg (h, m) = Ok (r, h', m') \<and> rep h' M' \<and> same_shape h h'
    \<and> (r, M', m') = (case M v of None \<Rightarrow> (-1, M, m) | Some d \<Rightarrow> (0, M(v := None), snd (the (or_default cbf (on_del h)) d arg m)))"
proof -
  have i: "ah_inv [] h" and s: "srep h (entry h) M" using assms by (simp_all add: rep_def)
  obtain r M' m' where o: "(case M v of None \<Rightarrow> (-1 :: int, M, m) | Some d \<Rightarrow> (0, M(v := None), snd (the (or_default cbf (on_del h)) d arg m))) = (r, M', m')"
    by (rule prod_cases3)
  have "\<exists>E'. adelete e h v cbf arg (entry h, m) = (r, E', m') \<and> srep h E' M'"
  proof (cases "find (match (entry h) v) (key_seats h v)")
    case None
    then show ?thesis using srep_find [OF s, of v] o s by (simp add: adelete_lasting [OF s])
  next
    case (Some t)
    then obtain p where p: "entry h t = Some p" "nv p = v" "M v = Some (ndata p)" using srep_find [OF s, of v] by auto
    then show ?thesis using Some o srep_remove [OF s p(1)] by (auto simp: adelete_lasting [OF s])
  qed
  then obtain E' where E': "adelete e h v cbf arg (entry h, m) = (r, E', m')" "srep h E' M'" by blast
  from hash_del_spec [OF i E'(1)] obtain h' where "hash_del e v cbf arg (h, m) = Ok (r, h', m')" "goes h [] E' h'" by blast
  moreover from this(2) have "rep h' M'" "same_shape h h'" using rep_goes [OF assms _ E'(2)] by (auto simp: goes_def)
  ultimately show ?thesis using o by metis
qed

lemma collision_full:
  assumes "srep h E M" and "\<forall>s\<in>set collision_seats. E s \<noteq> None"
  shows "at_least MINTAB M"
proof -
  let ?f = "\<lambda>s. nv (the (E s))"
  have "inj_on ?f (set collision_seats)"
  proof (rule inj_onI)
    fix s t
    assume "s \<in> set collision_seats" "t \<in> set collision_seats" "?f s = ?f t"
    moreover from this assms(2) obtain p q where "E s = Some p" "E t = Some q" by blast
    ultimately show "s = t" using srepD(5) [OF assms(1), of t q s p] by simp
  qed
  then have "card (?f ` set collision_seats) = card (set collision_seats)" by (rule card_image)
  also have "\<dots> = MINTAB" by (simp add: collision_seats_def card_image inj_on_def)
  finally have "card (?f ` set collision_seats) = MINTAB" .
  moreover have "?f ` set collision_seats \<subseteq> dom M"
  proof
    fix v
    assume "v \<in> ?f ` set collision_seats"
    then obtain s p where "E s = Some p" "v = nv p" using assms(2) by fastforce
    then show "v \<in> dom M" using srepD(4) [OF assms(1), of s p] by auto
  qed
  ultimately show ?thesis unfolding at_least_def by (metis List.finite_set finite_imageI order_refl)
qed

lemma seated_read: "i \<in># seated h \<Longrightarrow> \<exists>s. seat_read h s = Ok i \<and> i \<noteq> NNULL"
proof -
  assume "i \<in># seated h"
  then obtain tb where "tb \<in> set (ht h)" "i \<in> set (buckets tb)" "i \<noteq> NNULL" by (auto simp: seated_def)
  then obtain t j where "t < length (ht h)" "ht h ! t = tb" "j < length (buckets tb)" "buckets tb ! j = i" by (metis in_set_conv_nth)
  then have "seat_read h (t, j) = Ok i" by (simp add: seat_read_def)
  with \<open>i \<noteq> NNULL\<close> show ?thesis by blast
qed

lemma pool_exhausted:
  assumes "rep h M" and "fmi (freelist h) = NNULL" and "blocks_of (amp h) = 512"
  shows "at_least (capacity (amp h)) M"
proof -
  have i: "ah_inv [] h" and s: "srep h (entry h) M" using assms(1) by (simp_all add: rep_def)
  let ?f = "\<lambda>i. case node_at (amp h) i of Fault f \<Rightarrow> undefined | Ok p \<Rightarrow> nv p"
  have key: "\<exists>s p. seat_read h s = Ok x \<and> entry h s = Some p \<and> ?f x = nv p" if x: "x \<in># seated h" for x
  proof -
    obtain t where t: "seat_read h t = Ok x" "x \<noteq> NNULL" using seated_read [OF x] by blast
    then obtain p where "at_seat [] h t x p" "entry h t = Some p" using at_seatI [OF i t] by blast
    with t show ?thesis by (intro exI [of _ t] exI [of _ p]) (simp add: at_seat_def)
  qed
  have "inj_on ?f (set_mset (seated h))"
  proof (rule inj_onI)
    fix x y
    assume "x \<in># seated h" "y \<in># seated h" "?f x = ?f y"
    then obtain t p u q where "seat_read h t = Ok x" "entry h t = Some p" "seat_read h u = Ok y" "entry h u = Some q" "nv p = nv q"
      using key [of x] key [of y] by auto
    with srepD(5) [OF s, of t p u q] show "x = y" by auto
  qed
  then have "card (?f ` set_mset (seated h)) = card (set_mset (seated h))" by (rule card_image)
  also have "\<dots> = size (seated h)"
    using card_pool_ids [OF ah_inv_parts(2) [OF i]] pool_full(1) [OF i assms(2,3)] by simp
  finally have "card (?f ` set_mset (seated h)) = capacity (amp h)" using pool_full(2) [OF i assms(2,3)] by simp
  moreover have "?f ` set_mset (seated h) \<subseteq> dom M" using key srepD(4) [OF s] by fastforce
  ultimately show ?thesis unfolding at_least_def by (metis finite_imageI finite_set_mset order_refl)
qed

lemma aput_refines:
  assumes "srep h E M" and "M v = None" and "hvy v \<noteq> 0" and "ttl \<le> 0" and "aput e h v (new_entry e v d ttl) arg (E, m) = (r, E', m')"
  shows "\<exists>M'. srep h E' M' \<and> ((r, M', m') = map_hit 0 (the (on_add h)) v d arg (M(v \<mapsto> d), m) \<or> (r, M', m') = (-1, M, m) \<and> at_least MINTAB M)"
proof (cases "place h v E")
  case None
  then have "\<forall>s\<in>set collision_seats. E s \<noteq> None" unfolding place_def find_None_iff by auto
  then show ?thesis using None assms(1,5) collision_full [OF assms(1)] by (auto simp: aput_def)
next
  case (Some s)
  let ?p = "new_entry e v d ttl"
  have p: "nv ?p = v" "nexpire ?p = 0" "ndata ?p = d" using assms(4) by (simp_all add: new_entry_def)
  have s: "E s = None" "s \<in> set (key_seats h v)" 
    using find_split [OF Some [unfolded place_def]] by (metis in_set_conv_decomp)+
  have ins: "srep h (E(s \<mapsto> ?p)) (M(v \<mapsto> d))" using srep_insert [OF assms(1) s(1), of ?p] p assms(2,3) s(2) by simp
  have M: "M(v := None) = M" "E(s := None) = E" using assms(2) s(1) by auto
  obtain q m1 where q: "the (on_add h) d arg m = (q, m1)" by (cases "the (on_add h) d arg m")
  have out: "r = 0" "m' = m1" "E' = (if q = PLEASE_REMOVE_HASH_NODE then E else E(s \<mapsto> ?p))"
    using assms(5) Some q p M by (auto simp: aput_def sit_def refresh_lasting split: if_splits)
  show ?thesis
  proof (cases "q = PLEASE_REMOVE_HASH_NODE")
    case True
    then show ?thesis using out assms(1) q M by (intro exI [of _ M]) (simp add: map_hit_def)
  next
    case False
    then show ?thesis using out ins q by (intro exI [of _ "M(v \<mapsto> d)"]) (simp add: map_hit_def)
  qed
qed

lemma hash_add_refines:
  assumes "rep h M" and "hvy v \<noteq> 0" and "ttl \<le> 0"
  shows "\<exists>r h' m' M'. hash_add e v d ttl cbf arg (h, m) = Ok (r, h', m') \<and> rep h' M' \<and> same_shape h h'
    \<and> (case M v of Some d' \<Rightarrow> (r, M', m') = map_hit 1 (the (or_default cbf (on_dup h))) v d' arg (M, m)
       | None \<Rightarrow> (r, M', m') = map_hit 0 (the (on_add h)) v d arg (M(v \<mapsto> d), m)
          \<or> (r, M', m') = (-1, M, m) \<and> at_least MINTAB M
          \<or> (r, M', m') = (-2, M, m) \<and> (\<not> calloc_ok e \<or> at_least (capacity (amp h)) M))"
proof -
  have i: "ah_inv [] h" and s: "srep h (entry h) M" using assms(1) by (simp_all add: rep_def)
  obtain r h' E' m' where x: "hash_add e v d ttl cbf arg (h, m) = Ok (r, h', m')" "goes h [] E' h'"
      "(r, E', m') = aadd e h v d ttl cbf arg (entry h, m)
       \<or> r = -2 \<and> adup e h v cbf arg (entry h, m) = (False, E', m') \<and> no_memory e h'"
    using hash_add_spec [OF i, of e v d ttl cbf arg m] by blast
  have shape: "same_shape h h'" "capacity (amp h') = capacity (amp h)" using x(2) by (auto simp: goes_def same_shape_def)
  note rg = rep_goes [OF assms(1) x(2)]
  show ?thesis
  proof (cases "find (match (entry h) v) (key_seats h v)")
    case (Some t)
    then obtain p where p: "entry h t = Some p" "nv p = v" "M v = Some (ndata p)" using srep_find [OF s, of v] by auto
    obtain c M' m1 where o: "map_hit 1 (the (or_default cbf (on_dup h))) v (ndata p) arg (M, m) = (c, M', m1)" by (rule prod_cases3)
    obtain E1 where E1: "applied (dup_eff e h v cbf arg) t (entry h, m) = (E1, m1)" "srep h E1 M'" "c = 1"
      using applied_hit [OF s p(1,2) o, of e] unfolding dup_eff_def by blast
    then have "r = c" "E' = E1" "m' = m1" using x(3) Some by (auto simp: aadd_def adup_lasting [OF s])
    then show ?thesis using x(1) rg [of M'] E1(2) shape(1) p(3) o by auto
  next
    case None
    then have M: "M v = None" using srep_find [OF s, of v] by simp
    have a: "adup e h v cbf arg (entry h, m) = (False, entry h, m)" using None by (simp add: adup_lasting [OF s])
    from x(3) show ?thesis
    proof
      assume "(r, E', m') = aadd e h v d ttl cbf arg (entry h, m)"
      then have "aput e h v (new_entry e v d ttl) arg (entry h, m) = (r, E', m')" using a by (simp add: aadd_def)
      from aput_refines [OF s M assms(2,3) this] obtain M' where "srep h E' M'"
          "(r, M', m') = map_hit 0 (the (on_add h)) v d arg (M(v \<mapsto> d), m) \<or> (r, M', m') = (-1, M, m) \<and> at_least MINTAB M" by blast
      with rg x(1) shape(1) M show ?thesis by (intro exI [of _ r] exI [of _ h'] exI [of _ m'] exI [of _ M']) auto
    next
      assume y: "r = -2 \<and> adup e h v cbf arg (entry h, m) = (False, E', m') \<and> no_memory e h'"
      then have e: "E' = entry h" "m' = m" "r = -2" using a by auto
      then have "rep h' M" using rg s by simp
      moreover from this have "\<not> calloc_ok e \<or> at_least (capacity (amp h)) M"
        using y pool_exhausted [of h' M] shape(2) by (auto simp: no_memory_def)
      ultimately show ?thesis using x(1) e shape(1) M by auto
    qed
  qed
qed

lemma run_op_refines:
  assumes "rep h M" and "plain_op (hash_func h) x"
  shows "\<exists>r h' m' M'. run_op x (h, m) = Ok (r, h', m') \<and> rep h' M' \<and> same_shape h h' \<and> map_step h x (M, m) (r, M', m')"
proof (cases x)
  case (Op_add e kwd len d ttl cbf arg)
  let ?v = "op_key (hash_func h) (Op_add e kwd len d ttl cbf arg)"
  have k: "key_of h kwd len = Ok (Some ?v)" "hvy ?v \<noteq> 0" "ttl \<le> 0" using assms(2) Op_add by (simp_all add: key_of_plain)
  from hash_add_refines [OF assms(1) k(2,3), of e d cbf arg m] k(1) show ?thesis
    unfolding Op_add by (simp add: atomic_hash_add_def Let_def del: op_key.simps)
next
  case (Op_get e kwd len cbf arg)
  let ?v = "op_key (hash_func h) (Op_get e kwd len cbf arg)"
  have k: "key_of h kwd len = Ok (Some ?v)" using assms(2) Op_get by (simp add: key_of_plain)
  from hash_get_refines [OF assms(1), of e ?v cbf arg m] k show ?thesis
    unfolding Op_get by (simp add: atomic_hash_get_def Let_def del: op_key.simps)
next
  case (Op_del e kwd len cbf arg)
  let ?v = "op_key (hash_func h) (Op_del e kwd len cbf arg)"
  have k: "key_of h kwd len = Ok (Some ?v)" using assms(2) Op_del by (simp add: key_of_plain)
  from hash_del_refines [OF assms(1), of e ?v cbf arg m] k show ?thesis
    unfolding Op_del by (simp add: atomic_hash_del_def Let_def del: op_key.simps)
qed

lemma map_step_shape: "same_shape h0 h \<Longrightarrow> map_step h x (M, m) out \<longleftrightarrow> map_step h0 x (M, m) out"
  by (cases x) (simp_all add: same_shape_def Let_def split: option.split)

lemma run_ops_refines:
  assumes "rep h M" and "same_shape h0 h" and "\<forall>x\<in>set xs. plain_op (hash_func h0) x"
  shows "\<exists>rs h' m' M'. run_ops xs (h, m) = Ok (rs, h', m') \<and> rep h' M' \<and> map_run h0 xs rs (M, m) (M', m')"
  using assms
proof (induction xs arbitrary: h M m)
  case Nil
  then show ?case by auto
next
  case (Cons x xs)
  have "plain_op (hash_func h) x" using Cons.prems by (simp add: same_shape_def)
  from run_op_refines [OF Cons.prems(1) this] obtain r h1 m1 M1
    where 1: "run_op x (h, m) = Ok (r, h1, m1)" "rep h1 M1" "same_shape h h1" "map_step h x (M, m) (r, M1, m1)" by blast
  have "same_shape h0 h1" using Cons.prems(2) 1(3) by (rule same_shape_trans)
  from Cons.IH [OF 1(2) this, of m1] Cons.prems(3) obtain rs h2 m2 M2
    where 2: "run_ops xs (h1, m1) = Ok (rs, h2, m2)" "rep h2 M2" "map_run h0 xs rs (M1, m1) (M2, m2)" by auto
  then show ?case using 1(1,4) map_step_shape [OF Cons.prems(2)] by auto
qed

lemma create_rep:
  assumes "atomic_hash_create hf al n2 p1 p2 nodes ttl = Ok (Some h)"
  shows "rep h Map.empty"
proof -
  have "srep h (\<lambda>s. None) Map.empty" by (auto simp: srep_def keys_ok_def lasting_def)
  then show ?thesis using atomic_hash_create_inv [OF assms] by (simp add: rep_def)
qed



end
