(* ===== verification/Ahash_Errors.thy ===== *)
theory Ahash_Errors
  imports Ahash_Map
begin

text \<open>
  Where the atomic hash does not do what its interface promises: a table for more than 2^31 nodes, a
  failed allocation of the pool, the collision array that is never freed, and a lookup that misses an
  entry behind one that has just expired.
\<close>

section \<open>Creating and destroying\<close>

lemma create_refused:
  "nodes < 2 \<or> \<not> (got_hash al \<and> got_tab1 al \<and> got_tab2 al \<and> got_tab3 al) \<Longrightarrow> atomic_hash_create hf al n2 p1 p2 nodes ttl = Ok None"
  by (auto simp: atomic_hash_create_def init_htab_def Let_def split: option.split)

text \<open>
  \<open>atomic_hash_create\<close> returns NULL when it is asked for fewer than two nodes or when one of its first
  allocations fails. When the allocation of the pool fails it uses the NULL pointer before it tests
  it, and for more than 2^31 nodes it does not return.
\<close>

theorem atomic_hash_create_outcomes:
  "(atomic_hash_create hf al n2 p1 p2 nodes ttl = Ok None \<longleftrightarrow>
     nodes < 2 \<or> \<not> got_hash al \<or> \<not> got_tab1 al \<or> \<not> got_tab2 al \<or> \<not> got_tab3 al) \<and>
   (atomic_hash_create hf al n2 p1 p2 nodes ttl = Fault NullDeref \<longleftrightarrow>
     2 \<le> nodes \<and> unat nodes \<le> 2 ^ 31 \<and> got_hash al \<and> got_tab1 al \<and> got_tab2 al \<and> got_tab3 al \<and> \<not> (got_pool al \<and> got_array al)) \<and>
   (atomic_hash_create hf al n2 p1 p2 nodes ttl = Fault Diverges \<longleftrightarrow>
     2 ^ 31 < unat nodes \<and> got_hash al \<and> got_tab1 al \<and> got_tab2 al \<and> got_tab3 al)"
proof -
  let ?c = "atomic_hash_create hf al n2 p1 p2 nodes ttl"
  show ?thesis
  proof (cases "nodes < 2 \<or> \<not> (got_hash al \<and> got_tab1 al \<and> got_tab2 al \<and> got_tab3 al)")
    case True
    then have "?c = Ok None" by (rule create_refused)
    moreover have "\<not> nodes < 2" if "2 ^ 31 < unat nodes" using that by (simp add: word_less_nat_alt)
    ultimately show ?thesis using True by (auto simp: not_less [symmetric])
  next
    case False
    then obtain t1 t2 t3 where c: "?c = res_bind (create_mem_pool nodes sizeof_node (got_pool al) (got_array al)) (\<lambda>mp.
        case mp of None \<Rightarrow> Fault NullDeref | Some p \<Rightarrow> Ok (Some (new_ahash hf (word_of_int ttl) [t1, t2, t3] p)))"
      by (auto simp: atomic_hash_create_def init_htab_def Let_def)
    show ?thesis
    proof (cases "2 ^ 31 < unat nodes")
      case True
      then show ?thesis using c False pwr2_diverges [OF True] by (simp add: create_mem_pool_def)
    next
      case small: False
      then obtain p where "pwr2 0 nodes = Ok p" using pwr2_total [of 0 nodes] by auto
      then have "create_mem_pool nodes sizeof_node (got_pool al) (got_array al) =
          Ok (if got_pool al \<and> got_array al then Some (pool_of (if p = 0 \<or> p > 32 then 32 else p) 5) else None)"
        by (simp add: create_mem_pool_def pwr2_node sizeof_node_def Let_def)
      with c False small show ?thesis by (auto simp: not_less)
    qed
  qed
qed

lemma filter_below: "k \<le> n \<Longrightarrow> filter (\<lambda>i. i < k) [0..<n] = [0..<k]"
proof -
  assume "k \<le> n"
  then have "[0..<n] = [0..<k] @ [k..<n]" using upt_add_eq_append [of 0 k "n - k"] by simp
  then show ?thesis by simp
qed

text \<open>
  After any operations \<open>atomic_hash_destroy\<close> frees every block of nodes once, the pool, the two bucket
  arrays and the table, and never the collision array.
\<close>

theorem ahash_destroy_leaks:
  assumes "atomic_hash_create hf al n2 p1 p2 nodes ttl = Ok (Some h0)" and "\<forall>x\<in>set xs. op_fits x"
  shows "\<exists>rs h m'. run_ops xs (h0, m) = Ok (rs, h, m') \<and> length (ht h) = 3 \<and>
    atomic_hash_destroy (Some h) = (0, [Bucket_array 0, Bucket_array 1] @ map Node_block [0..<blocks_of (amp h)] @ [Block_array, Pool_struct, Hash_struct])
    \<and> (\<forall>k. k < blocks_of (amp h) \<longleftrightarrow> k < 512 \<and> ba (amp h) ! k \<noteq> None) \<and> Bucket_array 2 \<notin> set (snd (atomic_hash_destroy (Some h)))"
proof -
  obtain rs h m' E where r: "run_ops xs (h0, m) = Ok (rs, h, m')" "goes h0 [] E h"
    using run_ops_goes [OF atomic_hash_create_inv(1) [OF assms(1)] assms(2)] by blast
  then have i: "ah_inv [] h" by (simp add: goes_def)
  have ok: "pool_ok (amp h)" and t: "length (ht h) = 3" using ah_inv_parts [OF i] by (simp_all add: tabs_ok_def)
  have b: "k < blocks_of (amp h) \<longleftrightarrow> k < 512 \<and> ba (amp h) ! k \<noteq> None" for k
    using pool_block [OF ok, of k] pool_no_block [OF ok, of k] pool_okD(6) [OF ok] by (metis less_le_trans not_less option.distinct(1))
  have "filter (\<lambda>i. ba (amp h) ! i \<noteq> None) [0..<512] = filter (\<lambda>i. i < blocks_of (amp h)) [0..<512]"
    using b by (intro filter_cong) auto
  also have "\<dots> = [0..<blocks_of (amp h)]"
    using pool_okD(6) [OF ok] by (rule filter_below)
  finally have f: "filter (\<lambda>i. ba (amp h) ! i \<noteq> None) [0..<512] = [0..<blocks_of (amp h)]" .
  have d: "atomic_hash_destroy (Some h) = (0, [Bucket_array 0, Bucket_array 1] @ map Node_block [0..<blocks_of (amp h)] @ [Block_array, Pool_struct, Hash_struct])"
    using pool_okD(4) [OF ok] f by (simp add: atomic_hash_destroy_def destroy_mem_pool_def NMHT_def upt_rec [of 0 2] upt_rec [of "Suc 0" 2])
  have "Bucket_array 2 \<notin> set (snd (atomic_hash_destroy (Some h)))" by (auto simp: d)
  with r(1) t d b show ?thesis by blast
qed

theorem ahash_destroy_leaks_witness:
  "\<exists>h0 rs h m'. small_table (\<lambda>k. \<lparr>hvx = 1, hvy = 2\<rparr>) = Ok (Some h0) \<and>
    run_ops [Op_add \<lparr>now_ms = 0, later_ms = 0, calloc_ok = True\<rparr> [7] 1 5 0 None NULL] (h0, fmempty) = Ok (rs, h, m')
    \<and> length (ht h) = 3 \<and> Bucket_array 2 \<notin> set (snd (atomic_hash_destroy (Some h)))"
proof -
  obtain h0 where h0: "small_table (\<lambda>k. \<lparr>hvx = 1, hvy = 2\<rparr>) = Ok (Some h0)" using small_table_Some by blast
  have "\<forall>x\<in>set [Op_add \<lparr>now_ms = 0, later_ms = 0, calloc_ok = True\<rparr> [7] 1 5 0 None NULL]. op_fits x" by (simp add: key_fits_def)
  from ahash_destroy_leaks [OF h0 [unfolded small_table_def] this, of fmempty] h0 show ?thesis by blast
qed

section \<open>A lookup behind an expired entry\<close>

lemma small_table_nb:
  assumes "small_table hf = Ok (Some h)"
  shows "nb (ht h ! 0) = 64" and "nb (ht h ! 1) = 64" and "length (concat (map buckets (ht h))) = 192"
proof -
  have "fold_limit 134217728 0 = 134217728" by (subst fold_limit.simps) simp
  then have t: "init_htab n 0 g = Some tb \<Longrightarrow> nb tb = 64 \<and> length (buckets tb) = 64" for n g tb
    by (auto simp: init_htab_def Let_def MAXTAB_def MINTAB_def split: if_splits)
  obtain t1 t2 t3 mp where "init_htab (unat (2 :: u32)) 0 True = Some t1" "init_htab 0 0 True = Some t2" "init_htab 0 0 True = Some t3"
      "h = new_ahash hf (word_of_int 0) [t1, t2, t3] mp"
    by (rule atomic_hash_create_SomeE [OF assms [unfolded small_table_def]]) simp
  then show "nb (ht h ! 0) = 64" "nb (ht h ! 1) = 64" "length (concat (map buckets (ht h))) = 192"
    using t by (simp_all add: new_ahash_def Let_def)
qed

text \<open>Keys whose words are multiples of 64 share one seat in each array of 64 buckets.\<close>

definition ckey :: "u64 \<Rightarrow> hv" where
  "ckey a = \<lparr>hvx = 64 * a, hvy = 64 * a\<rparr>"

definition crowd :: "seat list" where
  "crowd = replicate 16 (0, 0) @ replicate 16 (1, 0)"

lemma ckey_words: "key_words (ckey 1) = [64, 0, 64, 0]" "key_words (ckey 2) = [128, 0, 128, 0]"
  "key_words (ckey 3) = [192, 0, 192, 0]" "key_words (ckey 4) = [256, 0, 256, 0]"
  by (simp_all add: key_words_def ckey_def)

lemma upt_1_4: "[1..<NCLUSTER] = [1, 2, 3]"
  by (simp add: NCLUSTER_def upt_rec)

lemma replicate_16: "replicate 16 x = [x, x, x, x, x, x, x, x, x, x, x, x, x, x, x, x]"
  by (simp add: numeral_eq_Suc)

lemma ckey_pos:
  assumes "nb (ht h ! 0) = 64" and "nb (ht h ! 1) = 64" and "a \<in> {1, 2, 3, 4}"
  shows "collect_hash_pos h (ckey a) = crowd"
proof -
  have "tab_pos tb (key_words (ckey a)) = replicate 16 0" if "nb tb = 64" for tb
    using assms(3) that unfolding tab_pos_def upt_1_4 replicate_16 by (auto simp: ckey_words seat_of_def)
  with assms(1,2) show ?thesis
    by (simp add: collect_hash_pos_def crowd_def NMHT_def upt_rec [of 0 2] upt_rec [of "Suc 0" 2] map_replicate)
qed

lemma find_replicate: "find P (replicate (Suc n) x @ ys) = (if P x then Some x else find P ys)"
  by (induction n) auto

lemma find_crowd: "find P (crowd @ ys) = (if P (0, 0) then Some (0, 0) else if P (1, 0) then Some (1, 0) else find P ys)"
  using find_replicate [of P 15] by (simp add: crowd_def)

lemma collision_split: "collision_seats = (2, 0) # (2, 1) # map (Pair 2) [2..<64]"
  by (simp add: collision_seats_def NMHT_def MINTAB_def upt_rec [of 0] upt_rec [of "Suc 0"] numeral_2_eq_2)

text \<open>Entries that are neither expired nor the one that is looked for are passed over.\<close>

definition passed :: "ah_env \<Rightarrow> hv \<Rightarrow> seats \<Rightarrow> seat \<Rightarrow> bool" where
  "passed e v E s \<longleftrightarrow> (case E s of None \<Rightarrow> True | Some p \<Rightarrow> \<not> expired e p \<and> hvy (nv p) \<noteq> hvy v)"

lemma passed_upd:
  "passed e v (\<lambda>s. None) s" "passed e v (E(t \<mapsto> p)) s \<longleftrightarrow> (if s = t then \<not> expired e p \<and> hvy (nv p) \<noteq> hvy v else passed e v E s)"
  by (simp_all add: passed_def)

lemma avisit_passed: "passed e v E s \<Longrightarrow> E s = Some p \<Longrightarrow> avisit eff e h v s p (E, m) = (False, E, m)"
  by (simp add: passed_def avisit_def likely_equal_def)

lemma afind_passed: "\<forall>s\<in>set ss. passed e v E s \<Longrightarrow> afind eff e h v ss (E, m) = (False, E, m)"
proof (induction ss)
  case (Cons s ss)
  then show ?case by (cases "E s") (simp_all add: avisit_passed)
qed simp

lemma acoll_add_passed: "\<forall>s\<in>set ss. passed e v E s \<Longrightarrow> acoll_add eff e h v n ss (E, m) = (False, E, m)"
proof (induction ss arbitrary: n)
  case (Cons s ss)
  then show ?case by (cases "E s") (simp_all add: avisit_passed)
qed simp

lemma adup_passed: "\<forall>s. passed e v E s \<Longrightarrow> adup e h v cbf arg (E, m) = (False, E, m)"
proof -
  assume "\<forall>s. passed e v E s"
  then have "\<forall>s\<in>set ss. passed e v E s" for ss by blast
  then show ?thesis by (simp add: adup_def afind_passed acoll_add_passed)
qed

lemma sum_seats:
  assumes "tabs_ok h"
  shows "length (concat (map buckets (ht h))) = sum_list (map unat (map nb (ht h)))"
proof -
  have "map (length \<circ> buckets) (ht h) = map (unat \<circ> nb) (ht h)"
    using assms by (intro nth_equalityI) (auto simp: tabs_ok_def tab_ok_def)
  then show ?thesis by (simp only: length_concat map_map)
qed

lemma memory_left:
  assumes "small_table hf = Ok (Some h0)" and "goes h0 [] E h"
  shows "\<not> no_memory \<lparr>now_ms = a, later_ms = b, calloc_ok = True\<rparr> h"
proof
  assume n: "no_memory \<lparr>now_ms = a, later_ms = b, calloc_ok = True\<rparr> h"
  note c = atomic_hash_create_inv [OF assms(1) [unfolded small_table_def]]
  have i: "ah_inv [] h" "same_shape h0 h" using assms(2) by (simp_all add: goes_def)
  have "size (seated h) = capacity (amp h0)" using pool_full(2) [OF i(1)] n i(2) by (simp add: no_memory_def same_shape_def)
  moreover have "size (seated h) \<le> length (concat (map buckets (ht h)))"
    unfolding seated_def by (metis size_filter_mset_lesseq size_mset)
  moreover have "length (concat (map buckets (ht h))) = 192"
    using small_table_nb(3) [OF assms(1)] i(2) sum_seats [OF ah_inv_parts(1) [OF i(1)]] sum_seats [OF ah_inv_parts(1) [OF c(1)]]
    by (simp add: same_shape_def)
  ultimately show False using c(5) by simp
qed

definition hv_bytes :: "hv \<Rightarrow> byte list" where
  "hv_bytes v = le_bytes 8 (hvx v) @ le_bytes 8 (hvy v)"

lemma key_of_hv_bytes: "key_of h (hv_bytes v) 0 = Ok (Some v)"
  by (simp add: key_of_def blk_read_def hv_bytes_def hv_of_bytes_def)

abbreviation env_at :: "u64 \<Rightarrow> ah_env" where
  "env_at t \<equiv> \<lparr>now_ms = t, later_ms = t, calloc_ok = True\<rparr>"

lemma small_add:
  assumes "small_table hf = Ok (Some h0)" and "goes h0 [] E h" and "\<forall>s. passed (env_at t) (ckey a) E s"
    and "a \<in> {1, 2, 3, 4}" and "find (\<lambda>s. E s = None) (crowd @ collision_seats) = Some s"
  shows "\<exists>h'. run_op (Op_add (env_at t) (hv_bytes (ckey a)) 0 d ttl None NULL) (h, m) = Ok (0, h', m)
    \<and> goes h0 [] (E(s \<mapsto> new_entry (env_at t) (ckey a) d ttl)) h'"
proof -
  have i: "ah_inv [] h" "same_shape h0 h" "entry h = E" using assms(2) by (simp_all add: goes_def)
  note c = atomic_hash_create_hooks [OF assms(1) [unfolded small_table_def]]
  have nb: "nb (ht h ! 0) = 64" "nb (ht h ! 1) = 64"
    using small_table_nb [OF assms(1)] same_shape_nb [OF i(2)] atomic_hash_create_inv(1) [OF assms(1) [unfolded small_table_def]]
    by (simp_all add: ah_inv_def tabs_ok_def)
  have "on_add h = Some default_func_not_change_ttl" using c(3) i(2) by (simp add: same_shape_def)
  then have "aput (env_at t) h (ckey a) (new_entry (env_at t) (ckey a) d ttl) NULL (E, m) = (0, E(s \<mapsto> new_entry (env_at t) (ckey a) d ttl), m)"
    using assms(5) by (simp add: aput_def place_def ckey_pos [OF nb assms(4)] sit_def default_func_not_change_ttl_def default_func_def
        PLEASE_DO_NOT_CHANGE_TTL_def PLEASE_REMOVE_HASH_NODE_def PLEASE_SET_TTL_TO_DEFAULT_def ttl_of_def refresh_def)
  then have add: "aadd (env_at t) h (ckey a) d ttl None NULL (entry h, m) = (0, E(s \<mapsto> new_entry (env_at t) (ckey a) d ttl), m)"
    by (simp add: aadd_def i(3) adup_passed [OF assms(3)])
  obtain r h' E' m' where x: "hash_add (env_at t) (ckey a) d ttl None NULL (h, m) = Ok (r, h', m')" "goes h [] E' h'"
      "(r, E', m') = aadd (env_at t) h (ckey a) d ttl None NULL (entry h, m)
       \<or> r = -2 \<and> adup (env_at t) h (ckey a) None NULL (entry h, m) = (False, E', m') \<and> no_memory (env_at t) h'"
    using hash_add_spec [OF i(1)] by blast
  have g: "goes h0 [] E' h'" using i(2) x(2) by (auto simp: goes_def intro: same_shape_trans)
  then have "\<not> no_memory (env_at t) h'" by (rule memory_left [OF assms(1)])
  then show ?thesis using x add g by (auto simp: atomic_hash_add_def key_of_hv_bytes)
qed

lemma goes_get:
  assumes "small_table hf = Ok (Some h0)" and "goes h0 [] E h" and "a \<in> {1, 2, 3, 4}"
    and "\<And>k. nb (ht k ! 0) = 64 \<Longrightarrow> nb (ht k ! 1) = 64 \<Longrightarrow> on_ttl k = Some default_func_remove_node \<Longrightarrow>
      on_get k = Some default_func_not_change_ttl \<Longrightarrow> kget (env_at t) k (ckey a) None NULL (E, m) = (r, E', m)"
  shows "\<exists>h'. run_op (Op_get (env_at t) (hv_bytes (ckey a)) 0 None NULL) (h, m) = Ok (r, h', m) \<and> goes h0 [] E' h'"
proof -
  have i: "ah_inv [] h" "same_shape h0 h" "entry h = E" using assms(2) by (simp_all add: goes_def)
  have nb: "nb (ht h ! 0) = 64" "nb (ht h ! 1) = 64"
    using small_table_nb [OF assms(1)] same_shape_nb [OF i(2)] atomic_hash_create_inv(1) [OF assms(1) [unfolded small_table_def]]
    by (simp_all add: ah_inv_def tabs_ok_def)
  have "on_ttl h = Some default_func_remove_node" "on_get h = Some default_func_not_change_ttl"
    using atomic_hash_create_hooks(2,5) [OF assms(1) [unfolded small_table_def]] i(2) by (simp_all add: same_shape_def)
  from assms(4) [OF nb this] have "kget (env_at t) h (ckey a) None NULL (entry h, m) = (r, E', m)" by (simp add: i(3))
  from hash_get_spec [OF i(1) this] obtain h' where "hash_get (env_at t) (ckey a) None NULL (h, m) = Ok (r, h', m)" "goes h [] E' h'" by blast
  moreover from this(2) have "goes h0 [] E' h'" using i(2) by (auto simp: goes_def intro: same_shape_trans)
  ultimately show ?thesis by (auto simp: atomic_hash_get_def key_of_hv_bytes)
qed

lemma acur_two:
  assumes "\<And>j. 2 \<le> j \<Longrightarrow> E (2, j) = None"
  shows "acur E = (if E (2, 0) = None then 0 else 1) + (if E (2, 1) = None then 0 else 1)"
proof -
  have "filter (\<lambda>s. E s \<noteq> None) (map (Pair 2) [2..<64]) = []" using assms by (auto simp: filter_empty_conv)
  then show ?thesis by (simp add: acur_def collision_split)
qed

text \<open>Four keys that share their seats: the third expires at 5, the others never.\<close>

definition four :: seats where
  "four = (\<lambda>s. None)((0, 0) \<mapsto> new_entry (env_at 0) (ckey 1) 11 0, (1, 0) \<mapsto> new_entry (env_at 0) (ckey 2) 12 0,
     (2, 0) \<mapsto> new_entry (env_at 0) (ckey 3) 13 5, (2, 1) \<mapsto> new_entry (env_at 0) (ckey 4) 14 0)"

lemma hvy_ckey: "hvy (ckey 1) = 64" "hvy (ckey 2) = 128" "hvy (ckey 3) = 192" "hvy (ckey 4) = 256" "hvx (ckey 3) = 192"
  by (simp_all add: ckey_def)

lemmas effects = avisit_def expired_def new_entry_def likely_equal_def hvy_ckey get_eff_def hit_eff_def or_default_def
  default_func_not_change_ttl_def default_func_remove_node_def default_func_def ttl_eff_def refresh_def ttl_of_def
  PLEASE_DO_NOT_CHANGE_TTL_def PLEASE_REMOVE_HASH_NODE_def PLEASE_SET_TTL_TO_DEFAULT_def

lemma crowd_passed: "\<forall>s\<in>set crowd. passed (env_at 9) (ckey 4) four s" "\<forall>s\<in>set crowd. passed (env_at 9) (ckey 4) (four((2, 0) := None)) s"
  by (auto simp: crowd_def four_def passed_def effects)

lemma get_misses:
  assumes "nb (ht k ! 0) = 64" and "nb (ht k ! 1) = 64" and "on_ttl k = Some default_func_remove_node" and "on_get k = Some default_func_not_change_ttl"
  shows "kget (env_at 9) k (ckey 4) None NULL (four, m) = (-1, four((2, 0) := None), m)"
proof -
  let ?E = "four((2, 0) := None)" and ?eff = "get_eff (env_at 9) k (ckey 4) None NULL"
  have a: "acur four = 2" "acur ?E = 1" by (subst acur_two; simp add: four_def)+
  have v: "avisit ?eff (env_at 9) k (ckey 4) (2, 0) (new_entry (env_at 0) (ckey 3) 13 5) (four, m) = (False, ?E, m)"
    using assms(3) by (simp add: effects)
  have "four (2, 0) = Some (new_entry (env_at 0) (ckey 3) 13 5)" by (simp add: four_def)
  then have "acoll_get ?eff (env_at 9) k (ckey 4) 0 collision_seats (four, m) = (False, ?E, m)"
    by (simp add: collision_split v a)
  then show ?thesis by (simp add: kget_def ckey_pos [OF assms(1,2)] afind_passed [OF crowd_passed(1)])
qed

lemma get_again:
  assumes "nb (ht k ! 0) = 64" and "nb (ht k ! 1) = 64" and "on_ttl k = Some default_func_remove_node" and "on_get k = Some default_func_not_change_ttl"
  shows "kget (env_at 9) k (ckey 4) None NULL (four((2, 0) := None), m) = (0, four((2, 0) := None), m)"
proof -
  let ?E = "four((2, 0) := None)" and ?eff = "get_eff (env_at 9) k (ckey 4) None NULL" and ?p = "new_entry (env_at 0) (ckey 4) 14 0"
  have a: "acur ?E = 1" by (subst acur_two) (simp_all add: four_def)
  have p: "?E (2, 1) = Some ?p" by (simp add: four_def)
  then have "?E((2, 1) \<mapsto> ?p) = ?E" by (rule fun_upd_idem)
  then have v: "avisit ?eff (env_at 9) k (ckey 4) (2, 1) ?p (?E, m) = (True, ?E, m)"
    using assms(4) by (simp add: effects)
  have "acoll_get ?eff (env_at 9) k (ckey 4) 0 collision_seats (?E, m) = (True, ?E, m)"
    using p by (simp add: collision_split v [unfolded One_nat_def] a)
  then show ?thesis by (simp add: kget_def ckey_pos [OF assms(1,2)] afind_passed [OF crowd_passed(2)])
qed

text \<open>
  C32. A lookup can miss a key that is stored and never expires. Four keys that share their seats fill
  both bucket arrays and two seats of the collision array; the third has a lifetime of 5. At time 9
  the lookup of the fourth removes the third on its way, compares the number of nodes it has seen with
  the count it has just lowered, stops and answers -1. The same lookup repeated finds the key.
\<close>

theorem ahash_get_misses_live:
  "\<exists>h0 h. small_table hf = Ok (Some h0) \<and>
    run_ops [Op_add (env_at 0) (hv_bytes (ckey 1)) 0 11 0 None NULL, Op_add (env_at 0) (hv_bytes (ckey 2)) 0 12 0 None NULL,
             Op_add (env_at 0) (hv_bytes (ckey 3)) 0 13 5 None NULL, Op_add (env_at 0) (hv_bytes (ckey 4)) 0 14 0 None NULL,
             Op_get (env_at 9) (hv_bytes (ckey 4)) 0 None NULL, Op_get (env_at 9) (hv_bytes (ckey 4)) 0 None NULL] (h0, fmempty)
      = Ok ([0, 0, 0, 0, -1, 0], h, fmempty)"
proof -
  let ?n = "\<lambda>a d t. new_entry (env_at 0) (ckey a) d t"
  let ?E1 = "(\<lambda>s. None)((0, 0) \<mapsto> ?n 1 11 0)" and ?E2 = "(\<lambda>s. None)((0, 0) \<mapsto> ?n 1 11 0, (1, 0) \<mapsto> ?n 2 12 0)"
    and ?E3 = "(\<lambda>s. None)((0, 0) \<mapsto> ?n 1 11 0, (1, 0) \<mapsto> ?n 2 12 0, (2, 0) \<mapsto> ?n 3 13 5)"
  obtain h0 where h0: "small_table hf = Ok (Some h0)" using small_table_Some by blast
  note c = atomic_hash_create_inv(1,2) [OF h0 [unfolded small_table_def]]
  have g0: "goes h0 [] (\<lambda>s. None) h0" using goes_refl [OF c(1)] c(2) by simp
  have p: "\<forall>s. passed (env_at 0) (ckey 1) (\<lambda>s. None) s" "\<forall>s. passed (env_at 0) (ckey 2) ?E1 s"
      "\<forall>s. passed (env_at 0) (ckey 3) ?E2 s" "\<forall>s. passed (env_at 0) (ckey 4) ?E3 s"
    by (simp_all add: passed_upd effects)
  have f: "find (\<lambda>s. (\<lambda>s. None) s = None) (crowd @ collision_seats) = Some (0, 0)"
      "find (\<lambda>s. ?E1 s = None) (crowd @ collision_seats) = Some (1, 0)" "find (\<lambda>s. ?E2 s = None) (crowd @ collision_seats) = Some (2, 0)"
      "find (\<lambda>s. ?E3 s = None) (crowd @ collision_seats) = Some (2, 1)"
    by (simp_all add: find_crowd collision_split)
  have k: "1 \<in> {1, 2, 3, 4 :: u64}" "2 \<in> {1, 2, 3, 4 :: u64}" "3 \<in> {1, 2, 3, 4 :: u64}" "4 \<in> {1, 2, 3, 4 :: u64}" by simp_all
  obtain h1 where h1: "run_op (Op_add (env_at 0) (hv_bytes (ckey 1)) 0 11 0 None NULL) (h0, fmempty) = Ok (0, h1, fmempty)" "goes h0 [] ?E1 h1"
    using small_add [OF h0 g0 p(1) k(1) f(1), of 11 0 fmempty] by blast
  obtain h2 where h2: "run_op (Op_add (env_at 0) (hv_bytes (ckey 2)) 0 12 0 None NULL) (h1, fmempty) = Ok (0, h2, fmempty)" "goes h0 [] ?E2 h2"
    using small_add [OF h0 h1(2) p(2) k(2) f(2), of 12 0 fmempty] by blast
  obtain h3 where h3: "run_op (Op_add (env_at 0) (hv_bytes (ckey 3)) 0 13 5 None NULL) (h2, fmempty) = Ok (0, h3, fmempty)" "goes h0 [] ?E3 h3"
    using small_add [OF h0 h2(2) p(3) k(3) f(3), of 13 5 fmempty] by blast
  obtain h4 where h4: "run_op (Op_add (env_at 0) (hv_bytes (ckey 4)) 0 14 0 None NULL) (h3, fmempty) = Ok (0, h4, fmempty)" "goes h0 [] four h4"
    using small_add [OF h0 h3(2) p(4) k(4) f(4), of 14 0 fmempty] unfolding four_def by blast
  obtain h5 where h5: "run_op (Op_get (env_at 9) (hv_bytes (ckey 4)) 0 None NULL) (h4, fmempty) = Ok (-1, h5, fmempty)"
      "goes h0 [] (four((2, 0) := None)) h5"
    using goes_get [OF h0 h4(2) k(4) get_misses, of fmempty] by blast
  obtain h6 where h6: "run_op (Op_get (env_at 9) (hv_bytes (ckey 4)) 0 None NULL) (h5, fmempty) = Ok (0, h6, fmempty)"
    using goes_get [OF h0 h5(2) k(4) get_again, of fmempty] by blast
  show ?thesis using h0 h1(1) h2(1) h3(1) h4(1) h5(1) h6 by (intro exI [of _ h0] exI [of _ h6]) (simp del: run_op.simps)
qed

end
