(* ===== verification/Ahash_Freelist.thy ===== *)
theory Ahash_Freelist
  imports Ahash_Pool
begin

text \<open>
  The free list of the atomic hash under concurrent threads, one access to shared memory at a time:
  \<open>new_node\<close>, \<open>free_node\<close> and \<open>new_mem_block\<close> of \<open>src/lib/atomic_hash/src/atomic_hash.c\<close>. The word
  \<open>freelist.all\<close> is read and compared-and-swapped as a whole; its half \<open>rfn\<close> counts the changes modulo
  2^32. Memory is sequentially consistent. \<open>fl_cnt\<close> and the numbers in the program counters are
  ghosts: the exact number of changes, now and when the thread read the word.
\<close>

section \<open>The threads\<close>

type_synonym tid = nat

text \<open>
  \<open>Push\<close> is the loop that \<open>free_node\<close> and \<open>new_mem_block\<close> share: a chain of nodes is put before the list.
  The flag says that \<open>new_node\<close> goes on afterwards.
\<close>

datatype fl_pc =
    Idle
  | New_test
  | New_block
  | New_read
  | New_next cas_t nat
  | New_cas cas_t nid nat
  | Push_read "nid list" bool
  | Push_link "nid list" bool cas_t nat
  | Push_cas "nid list" bool cas_t nat

record fl_state =
  fl_head :: cas_t
  fl_next :: "nid \<Rightarrow> nid"
  fl_used :: "nid set"
  fl_blocks :: nat
  fl_pc :: "tid \<Rightarrow> fl_pc"
  fl_cnt :: nat

text \<open>The indices of the next block of \<open>2 ^ b\<close> nodes, chained in order.\<close>

definition fresh_block :: "nat \<Rightarrow> fl_state \<Rightarrow> nid list" where
  "fresh_block b s = map (\<lambda>k. word_of_nat (fl_blocks s * 2 ^ b + k)) [0..<2 ^ b]"

definition block_next :: "nat \<Rightarrow> fl_state \<Rightarrow> nid \<Rightarrow> nid" where
  "block_next b s i =
     (if i = last (fresh_block b s) then NNULL else if i \<in> set (fresh_block b s) then i + 1 else fl_next s i)"

abbreviation at_pc :: "fl_state \<Rightarrow> tid \<Rightarrow> fl_pc \<Rightarrow> fl_state" where
  "at_pc s t c \<equiv> s\<lparr>fl_pc := (fl_pc s)(t := c)\<rparr>"

definition bumped :: "fl_state \<Rightarrow> nid \<Rightarrow> fl_state" where
  "bumped s mi = s\<lparr>fl_head := \<lparr>fmi = mi, frfn = frfn (fl_head s) + 1\<rparr>, fl_cnt := Suc (fl_cnt s)\<rparr>"

inductive fl_step :: "nat \<Rightarrow> fl_state \<Rightarrow> fl_state \<Rightarrow> bool" for b :: nat where
  new_start: "fl_pc s t = Idle \<Longrightarrow> fl_step b s (at_pc s t New_test)"
| test: "fl_pc s t = New_test \<Longrightarrow> fl_step b s (at_pc s t (if fmi (fl_head s) \<noteq> NNULL then New_read else New_block))"
| block_fails: "fl_pc s t = New_block \<Longrightarrow> fl_step b s (at_pc s t Idle)"
| block: "fl_pc s t = New_block \<Longrightarrow> fl_blocks s < 512 \<Longrightarrow>
    fl_step b s (at_pc (s\<lparr>fl_next := block_next b s, fl_blocks := Suc (fl_blocks s)\<rparr>) t (Push_read (fresh_block b s) True))"
| read: "fl_pc s t = New_read \<Longrightarrow>
    fl_step b s (at_pc s t (if fmi (fl_head s) = NNULL then New_test else New_next (fl_head s) (fl_cnt s)))"
| next_read: "fl_pc s t = New_next n c \<Longrightarrow> fl_step b s (at_pc s t (New_cas n (fl_next s (fmi n)) c))"
| pop: "fl_pc s t = New_cas n m c \<Longrightarrow> fl_head s = n \<Longrightarrow>
    fl_step b s (at_pc (bumped s m\<lparr>fl_used := insert (fmi n) (fl_used s)\<rparr>) t Idle)"
| pop_fails: "fl_pc s t = New_cas n m c \<Longrightarrow> fl_head s \<noteq> n \<Longrightarrow> fl_step b s (at_pc s t New_test)"
| use_node: "mi \<in> fl_used s \<Longrightarrow> fl_step b s (s\<lparr>fl_next := (fl_next s)(mi := x)\<rparr>)"
| free_start: "fl_pc s t = Idle \<Longrightarrow> mi \<in> fl_used s \<Longrightarrow>
    fl_step b s (at_pc (s\<lparr>fl_used := fl_used s - {mi}\<rparr>) t (Push_read [mi] False))"
| push_read: "fl_pc s t = Push_read ch k \<Longrightarrow> fl_step b s (at_pc s t (Push_link ch k (fl_head s) (fl_cnt s)))"
| push_link: "fl_pc s t = Push_link ch k n c \<Longrightarrow>
    fl_step b s (at_pc (s\<lparr>fl_next := (fl_next s)(last ch := fmi n)\<rparr>) t (Push_cas ch k n c))"
| push: "fl_pc s t = Push_cas ch k n c \<Longrightarrow> fl_head s = n \<Longrightarrow>
    fl_step b s (at_pc (bumped s (hd ch)) t (if k then New_read else Idle))"
| push_fails: "fl_pc s t = Push_cas ch k n c \<Longrightarrow> fl_head s \<noteq> n \<Longrightarrow> fl_step b s (at_pc s t (Push_read ch k))"

definition fl_init :: fl_state where
  "fl_init = \<lparr>fl_head = \<lparr>fmi = NNULL, frfn = 0\<rparr>, fl_next = (\<lambda>i. 0), fl_used = {}, fl_blocks = 0, fl_pc = (\<lambda>t. Idle), fl_cnt = 0\<rparr>"

text \<open>No thread sleeps between its read and its swap while the list changes 2^32 times.\<close>

fun stamp :: "fl_pc \<Rightarrow> nat option" where
  "stamp (New_next n c) = Some c"
| "stamp (New_cas n m c) = Some c"
| "stamp (Push_link ch k n c) = Some c"
| "stamp (Push_cas ch k n c) = Some c"
| "stamp p = None"

definition timely :: "fl_state \<Rightarrow> bool" where
  "timely s \<longleftrightarrow> (\<forall>t c. stamp (fl_pc s t) = Some c \<longrightarrow> fl_cnt s < c + 2 ^ 32)"

inductive fl_reach :: "nat \<Rightarrow> fl_state \<Rightarrow> bool" for b :: nat where
  start: "fl_reach b fl_init"
| step: "fl_reach b s \<Longrightarrow> timely s \<Longrightarrow> fl_step b s s' \<Longrightarrow> fl_reach b s'"

section \<open>The invariant\<close>

primrec segm :: "(nid \<Rightarrow> nid) \<Rightarrow> nid \<Rightarrow> nid list \<Rightarrow> nid \<Rightarrow> bool" where
  "segm nx f [] z \<longleftrightarrow> f = z"
| "segm nx f (x # xs) z \<longleftrightarrow> f = x \<and> segm nx (nx x) xs z"

lemma segm_append: "segm nx f (xs @ ys) z \<longleftrightarrow> (\<exists>y. segm nx f xs y \<and> segm nx y ys z)"
  by (induction xs arbitrary: f) auto

lemma segm_other: "(\<And>x. x \<in> set xs \<Longrightarrow> nx' x = nx x) \<Longrightarrow> segm nx' f xs z \<longleftrightarrow> segm nx f xs z"
  by (induction xs arbitrary: f) auto

lemma segm_upd [simp]: "i \<notin> set xs \<Longrightarrow> segm (nx(i := x)) f xs z \<longleftrightarrow> segm nx f xs z"
  by (rule segm_other) auto

lemma segm_last:
  assumes "segm nx (hd xs) xs (nx (last xs))" and "distinct xs" and "xs \<noteq> []"
  shows "segm (nx(last xs := v)) (hd xs) xs v"
proof -
  obtain ys x where xs: "xs = ys @ [x]" using assms(3) by (cases xs rule: rev_cases) auto
  with assms have "segm nx (hd xs) ys x" "x \<notin> set ys" by (auto simp: segm_append)
  then have "segm (nx(x := v)) (hd xs) ys x" by simp
  then show ?thesis by (simp add: xs segm_append)
qed

text \<open>The nodes a thread is about to put into the list.\<close>

fun holding :: "fl_pc \<Rightarrow> nid list" where
  "holding (Push_read ch k) = ch"
| "holding (Push_link ch k n c) = ch"
| "holding (Push_cas ch k n c) = ch"
| "holding p = []"

text \<open>What a thread knows: when nothing has changed since it read the word, it has read it right.\<close>

fun knows :: "fl_state \<Rightarrow> fl_pc \<Rightarrow> bool" where
  "knows s (New_next n c) \<longleftrightarrow> frfn n = word_of_nat c \<and> c \<le> fl_cnt s \<and> fmi n \<noteq> NNULL \<and> (c = fl_cnt s \<longrightarrow> n = fl_head s)"
| "knows s (New_cas n m c) \<longleftrightarrow> frfn n = word_of_nat c \<and> c \<le> fl_cnt s \<and> fmi n \<noteq> NNULL
     \<and> (c = fl_cnt s \<longrightarrow> n = fl_head s \<and> m = fl_next s (fmi n))"
| "knows s (Push_read ch k) \<longleftrightarrow> ch \<noteq> []"
| "knows s (Push_link ch k n c) \<longleftrightarrow> ch \<noteq> []"
| "knows s (Push_cas ch k n c) \<longleftrightarrow> ch \<noteq> [] \<and> fl_next s (last ch) = fmi n"
| "knows s p \<longleftrightarrow> True"

definition chained :: "(nid \<Rightarrow> nid) \<Rightarrow> nid list \<Rightarrow> bool" where
  "chained nx ch \<longleftrightarrow> distinct ch \<and> (ch \<noteq> [] \<longrightarrow> segm nx (hd ch) ch (nx (last ch)))"

definition pushing :: "fl_state \<Rightarrow> tid \<Rightarrow> nid set" where
  "pushing s t = set (holding (fl_pc s t))"

text \<open>
  \<open>fs\<close> is the free list. The free nodes, the nodes in use and those that the threads push are disjoint
  and together all nodes of the pool.
\<close>

definition apart :: "nid list \<Rightarrow> fl_state \<Rightarrow> bool" where
  "apart fs s \<longleftrightarrow> distinct fs \<and> set fs \<inter> fl_used s = {} \<and> (\<forall>t. pushing s t \<inter> (set fs \<union> fl_used s) = {})
     \<and> (\<forall>t u. u \<noteq> t \<longrightarrow> pushing s t \<inter> pushing s u = {})"

definition fl_inv :: "nat \<Rightarrow> nid list \<Rightarrow> fl_state \<Rightarrow> bool" where
  "fl_inv b fs s \<longleftrightarrow> frfn (fl_head s) = word_of_nat (fl_cnt s) \<and> fl_blocks s \<le> 512 \<and> b \<le> 22
     \<and> segm (fl_next s) (fmi (fl_head s)) fs NNULL \<and> apart fs s
     \<and> (\<forall>t. chained (fl_next s) (holding (fl_pc s t)) \<and> knows s (fl_pc s t))
     \<and> set fs \<union> fl_used s \<union> (\<Union>t. pushing s t) = {i. unat i < fl_blocks s * 2 ^ b}"

lemma fl_invD:
  assumes "fl_inv b fs s"
  shows "frfn (fl_head s) = word_of_nat (fl_cnt s)" and "fl_blocks s \<le> 512" and "b \<le> 22"
    and "segm (fl_next s) (fmi (fl_head s)) fs NNULL" and "apart fs s" and "chained (fl_next s) (holding (fl_pc s t))"
    and "knows s (fl_pc s t)" and "set fs \<union> fl_used s \<union> (\<Union>t. pushing s t) = {i. unat i < fl_blocks s * 2 ^ b}"
  using assms unfolding fl_inv_def by blast+

lemma knows_at_pc [simp]: "knows (s\<lparr>fl_pc := f\<rparr>) q \<longleftrightarrow> knows s q"
  by (cases q) auto

lemma pushing_at_pc: "pushing (at_pc s t p) u = (if u = t then set (holding p) else pushing s u)"
  by (simp add: pushing_def)

text \<open>A step that changes only the program counter.\<close>

lemma pc_only:
  assumes "fl_inv b fs s" and "holding p = holding (fl_pc s t)" and "knows s p"
  shows "fl_inv b fs (at_pc s t p)"
proof -
  have p: "pushing (at_pc s t p) = pushing s" using assms(2) by (intro ext) (simp add: pushing_at_pc pushing_def)
  have "apart fs (at_pc s t p)" using fl_invD(5) [OF assms(1)] unfolding apart_def p by simp
  moreover have "chained (fl_next s) (holding (fl_pc (at_pc s t p) u)) \<and> knows s (fl_pc (at_pc s t p) u)" for u
    using fl_invD(6,7) [OF assms(1)] assms(2,3) by simp
  ultimately show ?thesis using assms(1) unfolding fl_inv_def p by simp
qed

text \<open>The head of the list when a thread that saw it swaps it.\<close>

lemma same_stamp:
  assumes "(word_of_nat c :: u32) = word_of_nat d" and "c \<le> d" and "d < c + 2 ^ 32"
  shows "c = d"
proof -
  have "c mod 2 ^ 32 = d mod 2 ^ 32" using arg_cong [OF assms(1), of unat] by (simp add: unat_of_nat)
  then have "2 ^ 32 dvd d - c" using mod_eq_dvd_iff_nat [OF assms(2), of "2 ^ 32"] by simp
  moreover have "d - c < 2 ^ 32" using assms(2,3) by linarith
  ultimately have "d - c = 0" using nat_dvd_not_less [of "d - c" "2 ^ 32"] by blast
  with assms(2) show ?thesis by simp
qed

lemma nodes_not_NNULL: "fl_inv b fs s \<Longrightarrow> i \<in> set fs \<union> fl_used s \<union> (\<Union>t. pushing s t) \<Longrightarrow> i \<noteq> NNULL"
proof -
  assume a: "fl_inv b fs s" "i \<in> set fs \<union> fl_used s \<union> (\<Union>t. pushing s t)"
  have "fl_blocks s * 2 ^ b \<le> 512 * 2 ^ 22"
    using fl_invD(2,3) [OF a(1)] power_increasing [of b 22 "2 :: nat"] by (intro mult_mono) auto
  moreover have "unat i < fl_blocks s * 2 ^ b" using a(2) fl_invD(8) [OF a(1)] by blast
  ultimately show ?thesis by (auto simp: NNULL_def)
qed

lemma knows_bumped:
  assumes "knows s q"
  shows "knows (bumped s mi\<lparr>fl_used := U\<rparr>) q" and "knows (bumped s mi) q"
  using assms by (cases q; auto simp: bumped_def)+

section \<open>The steps keep the invariant\<close>

text \<open>A store to a node that neither the list nor another thread refers to.\<close>

lemma segm_head: "segm nx f fs NNULL \<Longrightarrow> f \<noteq> NNULL \<Longrightarrow> \<exists>fs'. fs = f # fs' \<and> segm nx (nx f) fs' NNULL"
  by (cases fs) auto

lemma chained_other: "i \<notin> set ch \<Longrightarrow> chained (nx(i := x)) ch \<longleftrightarrow> chained nx ch"
  unfolding chained_def by (cases "ch = []") auto

lemma knows_other:
  assumes "fl_inv b fs s" and "i \<notin> set fs" and "i \<notin> set (holding q)" and "knows s q"
  shows "knows (s\<lparr>fl_next := (fl_next s)(i := x)\<rparr>) q"
proof (cases q)
  case (New_cas n m c)
  show ?thesis
  proof (cases "c = fl_cnt s")
    case True
    with assms(4) New_cas have n: "n = fl_head s" "fmi n \<noteq> NNULL" by auto
    from segm_head [OF fl_invD(4) [OF assms(1)]] n have "fmi n \<in> set fs" by auto
    with assms(2,4) New_cas show ?thesis by auto
  next
    case False
    with assms(4) New_cas show ?thesis by simp
  qed
next
  case (Push_cas ch k n c)
  with assms(3,4) have "last ch \<noteq> i" by auto
  with assms(4) Push_cas show ?thesis by simp
qed (use assms(4) in auto)

lemma inv_use:
  assumes "fl_inv b fs s" and "mi \<in> fl_used s"
  shows "fl_inv b fs (s\<lparr>fl_next := (fl_next s)(mi := x)\<rparr>)"
proof -
  let ?s = "s\<lparr>fl_next := (fl_next s)(mi := x)\<rparr>"
  have ap: "mi \<notin> set fs" "\<And>t. mi \<notin> set (holding (fl_pc s t))"
    using fl_invD(5) [OF assms(1)] assms(2) unfolding apart_def pushing_def by blast+
  have p: "pushing ?s = pushing s" by (simp add: pushing_def fun_eq_iff)
  have "segm (fl_next ?s) (fmi (fl_head s)) fs NNULL" using fl_invD(4) [OF assms(1)] ap(1) by simp
  moreover have "chained (fl_next ?s) (holding (fl_pc s t)) \<and> knows ?s (fl_pc s t)" for t
    using fl_invD(6,7) [OF assms(1), of t] ap(2) [of t] knows_other [OF assms(1) ap(1,2)] by (simp add: chained_other)
  moreover have "apart fs ?s" using fl_invD(5) [OF assms(1)] by (simp add: apart_def p)
  ultimately show ?thesis using fl_invD(1-3,8) [OF assms(1)] by (simp add: fl_inv_def p)
qed

lemma inv_push_link:
  assumes "fl_inv b fs s" and "fl_pc s t = Push_link ch k n c"
  shows "fl_inv b fs (at_pc (s\<lparr>fl_next := (fl_next s)(last ch := fmi n)\<rparr>) t (Push_cas ch k n c))"
proof -
  let ?i = "last ch" and ?r = "s\<lparr>fl_next := (fl_next s)(last ch := fmi n)\<rparr>"
  let ?s = "at_pc ?r t (Push_cas ch k n c)"
  have ne: "ch \<noteq> []" using fl_invD(7) [OF assms(1), of t] assms(2) by simp
  then have i: "?i \<in> pushing s t" using assms(2) by (simp add: pushing_def)
  have ap: "?i \<notin> set fs" "\<And>u. u \<noteq> t \<Longrightarrow> ?i \<notin> set (holding (fl_pc s u))"
    using fl_invD(5) [OF assms(1)] i unfolding apart_def pushing_def by blast+
  have p: "pushing ?s = pushing s" using assms(2) by (simp add: pushing_def fun_eq_iff)
  have "segm (fl_next ?s) (fmi (fl_head s)) fs NNULL" using fl_invD(4) [OF assms(1)] ap(1) by simp
  moreover have "chained (fl_next ?s) (holding (fl_pc ?s u)) \<and> knows ?s (fl_pc ?s u)" for u
  proof (cases "u = t")
    case True
    have "chained (fl_next s) ch" using fl_invD(6) [OF assms(1), of t] assms(2) by simp
    then show ?thesis using True ne segm_last [of "fl_next s" ch "fmi n"] by (auto simp: chained_def)
  next
    case False
    have "knows ?r (fl_pc s u)" using knows_other [OF assms(1) ap(1) ap(2) [OF False] fl_invD(7) [OF assms(1)]] .
    then show ?thesis using False fl_invD(6) [OF assms(1), of u] ap(2) [OF False] by (simp add: chained_other)
  qed
  moreover have "apart fs ?s" using fl_invD(5) [OF assms(1)] unfolding apart_def p by simp
  ultimately show ?thesis using fl_invD(1-3,8) [OF assms(1)] unfolding fl_inv_def p by simp
qed

lemma inv_free_start:
  assumes "fl_inv b fs s" and "fl_pc s t = Idle" and "mi \<in> fl_used s"
  shows "fl_inv b fs (at_pc (s\<lparr>fl_used := fl_used s - {mi}\<rparr>) t (Push_read [mi] False))"
proof -
  let ?s = "at_pc (s\<lparr>fl_used := fl_used s - {mi}\<rparr>) t (Push_read [mi] False)"
  have t: "pushing s t = {}" using assms(2) by (simp add: pushing_def)
  have p: "pushing ?s u = (if u = t then {mi} else pushing s u)" for u by (simp add: pushing_def)
  have "apart fs ?s" using fl_invD(5) [OF assms(1)] assms(3) unfolding apart_def p by auto
  moreover have "(\<Union>u. pushing ?s u) = insert mi (\<Union>u. pushing s u)" unfolding p using t by auto
  then have "set fs \<union> fl_used ?s \<union> (\<Union>u. pushing ?s u) = set fs \<union> fl_used s \<union> (\<Union>u. pushing s u)" using assms(3) by auto
  moreover have "knows ?s q \<longleftrightarrow> knows s q" for q by (cases q) auto
  then have "chained (fl_next s) (holding (fl_pc ?s u)) \<and> knows ?s (fl_pc ?s u)" for u
    using fl_invD(6,7) [OF assms(1)] by (auto simp: chained_def)
  ultimately show ?thesis using fl_invD(1-4,8) [OF assms(1)] unfolding fl_inv_def by simp
qed

lemma inv_push:
  assumes "fl_inv b fs s" and "fl_pc s t = Push_cas ch k n c" and "fl_head s = n"
  shows "fl_inv b (ch @ fs) (at_pc (bumped s (hd ch)) t (if k then New_read else Idle))"
proof -
  let ?s = "at_pc (bumped s (hd ch)) t (if k then New_read else Idle)"
  have kn: "ch \<noteq> []" "fl_next s (last ch) = fmi n" using fl_invD(7) [OF assms(1), of t] assms(2) by simp_all
  have t: "pushing s t = set ch" using assms(2) by (simp add: pushing_def)
  have p: "pushing ?s u = (if u = t then {} else pushing s u)" for u by (simp add: pushing_def bumped_def)
  have ch: "segm (fl_next s) (hd ch) ch (fmi n)" "distinct ch"
    using fl_invD(6) [OF assms(1), of t] assms(2) kn by (simp_all add: chained_def)
  then have "segm (fl_next s) (hd ch) (ch @ fs) NNULL" using fl_invD(4) [OF assms(1)] assms(3) by (auto simp: segm_append)
  moreover have "apart (ch @ fs) ?s"
  proof -
    have "set ch \<inter> (set fs \<union> fl_used s) = {}" using fl_invD(5) [OF assms(1)] t unfolding apart_def by blast
    moreover have "u \<noteq> t \<Longrightarrow> pushing s u \<inter> set ch = {}" for u using fl_invD(5) [OF assms(1)] t unfolding apart_def by blast
    ultimately show ?thesis using fl_invD(5) [OF assms(1)] ch(2) unfolding apart_def p by (auto simp: bumped_def)
  qed
  moreover have "(\<Union>u. pushing s u) = set ch \<union> (\<Union>u. pushing ?s u)" unfolding p using t by auto
  then have "set (ch @ fs) \<union> fl_used ?s \<union> (\<Union>u. pushing ?s u) = set fs \<union> fl_used s \<union> (\<Union>u. pushing s u)" by (auto simp: bumped_def)
  moreover have "chained (fl_next s) (holding (fl_pc ?s u)) \<and> knows ?s (fl_pc ?s u)" for u
    using fl_invD(6,7) [OF assms(1), of u] knows_bumped(2) by (auto simp: chained_def bumped_def)
  ultimately show ?thesis using fl_invD(1-3,8) [OF assms(1)] unfolding fl_inv_def by (simp add: bumped_def)
qed

lemma inv_pop:
  assumes "fl_inv b fs s" and "timely s" and "fl_pc s t = New_cas n m c" and "fl_head s = n"
  shows "\<exists>fs'. fs = fmi n # fs' \<and> fl_inv b fs' (at_pc (bumped s m\<lparr>fl_used := insert (fmi n) (fl_used s)\<rparr>) t Idle)"
proof -
  let ?s = "at_pc (bumped s m\<lparr>fl_used := insert (fmi n) (fl_used s)\<rparr>) t Idle"
  have kn: "knows s (New_cas n m c)" using fl_invD(7) [OF assms(1), of t] assms(3) by simp
  have "fl_cnt s < c + 2 ^ 32" using assms(2,3) unfolding timely_def by (metis stamp.simps(2))
  then have "c = fl_cnt s" using same_stamp [of c "fl_cnt s"] kn fl_invD(1) [OF assms(1)] assms(4) by simp
  with kn have m: "m = fl_next s (fmi n)" "fmi n \<noteq> NNULL" by auto
  obtain fs' where fs: "fs = fmi n # fs'" "segm (fl_next s) m fs' NNULL"
    using segm_head [OF fl_invD(4) [OF assms(1)]] m assms(4) by auto
  have p: "pushing ?s = pushing s" using assms(3) by (intro ext) (auto simp: pushing_def bumped_def)
  have "apart fs' ?s" using fl_invD(5) [OF assms(1)] fs(1) unfolding apart_def p by auto
  moreover have "set fs' \<union> fl_used ?s \<union> (\<Union>u. pushing s u) = set fs \<union> fl_used s \<union> (\<Union>u. pushing s u)" using fs(1) by auto
  moreover have "chained (fl_next s) (holding (fl_pc ?s u)) \<and> knows ?s (fl_pc ?s u)" for u
    using fl_invD(6,7) [OF assms(1), of u] knows_bumped(1) by (auto simp: chained_def bumped_def)
  ultimately have "fl_inv b fs' ?s"
    using fl_invD(1-3,8) [OF assms(1)] fs(2) unfolding fl_inv_def p by (simp add: bumped_def)
  with fs(1) show ?thesis by blast
qed

lemma unat_ids: "b \<le> 22 \<Longrightarrow> fl_blocks s < 512 \<Longrightarrow> k < 2 ^ b \<Longrightarrow> unat (word_of_nat (fl_blocks s * 2 ^ b + k) :: nid) = fl_blocks s * 2 ^ b + k"
proof -
  assume a: "b \<le> 22" "fl_blocks s < 512" "k < 2 ^ b"
  have "fl_blocks s * 2 ^ b + k < Suc (fl_blocks s) * 2 ^ b" using a(3) by simp
  also have "\<dots> \<le> 512 * 2 ^ 22" using a(1,2) power_increasing [of b 22 "2 :: nat"] by (intro mult_mono) auto
  finally show ?thesis by (intro nid_small) simp
qed

lemma fresh_block_iff:
  assumes "b \<le> 22" and "fl_blocks s < 512"
  shows "i \<in> set (fresh_block b s) \<longleftrightarrow> fl_blocks s * 2 ^ b \<le> unat i \<and> unat i < Suc (fl_blocks s) * 2 ^ b"
proof
  assume "i \<in> set (fresh_block b s)"
  then show "fl_blocks s * 2 ^ b \<le> unat i \<and> unat i < Suc (fl_blocks s) * 2 ^ b"
    using unat_ids [OF assms] by (auto simp: fresh_block_def)
next
  assume r: "fl_blocks s * 2 ^ b \<le> unat i \<and> unat i < Suc (fl_blocks s) * 2 ^ b"
  let ?k = "unat i - fl_blocks s * 2 ^ b"
  have "unat i < fl_blocks s * 2 ^ b + 2 ^ b" using r by simp
  then have k: "?k < 2 ^ b" "fl_blocks s * 2 ^ b + ?k = unat i" using r by linarith+
  have "word_of_nat (fl_blocks s * 2 ^ b + ?k) = i" by (simp add: k(2) del: of_nat_add of_nat_mult)
  then show "i \<in> set (fresh_block b s)" unfolding fresh_block_def using k(1) by (auto simp del: of_nat_add of_nat_mult intro!: image_eqI [of _ _ ?k])
qed

lemma fresh_block_chained:
  assumes "b \<le> 22" and "fl_blocks s < 512"
  shows "fresh_block b s \<noteq> []" and "chained (block_next b s) (fresh_block b s)"
proof -
  let ?f = "\<lambda>k. word_of_nat (fl_blocks s * 2 ^ b + k) :: nid"
  show ne: "fresh_block b s \<noteq> []" by (simp add: fresh_block_def)
  have inj: "?f j = ?f k \<longleftrightarrow> j = k" if "j < 2 ^ b" "k < 2 ^ b" for j k using unat_ids [OF assms] that by (metis add_left_cancel)
  then have d: "distinct (fresh_block b s)" by (auto simp: fresh_block_def distinct_map inj_on_def)
  have l: "last (fresh_block b s) = ?f (2 ^ b - 1)" by (simp add: fresh_block_def last_map del: of_nat_add of_nat_mult)
  have nx: "block_next b s (?f k) = ?f (Suc k)" if "Suc k < 2 ^ b" for k
  proof -
    have "?f k \<noteq> last (fresh_block b s)" using inj [of k "2 ^ b - 1"] that by (simp add: l)
    then show ?thesis using that by (auto simp: block_next_def fresh_block_def ac_simps)
  qed
  have "segm (block_next b s) (?f j) (map ?f [j..<2 ^ b]) (block_next b s (last (fresh_block b s)))" if "j < 2 ^ b" for j
    using that
  proof (induction "2 ^ b - j" arbitrary: j)
    case (Suc d)
    show ?case
    proof (cases "Suc j < 2 ^ b")
      case True
      with Suc(1) [of "Suc j"] Suc(2,3) nx [OF True] show ?thesis by (simp add: upt_conv_Cons del: of_nat_add of_nat_Suc)
    next
      case False
      with Suc(3) have "2 ^ b = Suc j" by simp
      then show ?thesis using l by (simp add: upt_conv_Cons)
    qed
  qed simp
  from this [of 0] show "chained (block_next b s) (fresh_block b s)"
    using d by (simp add: chained_def fresh_block_def hd_map)
qed

lemma inv_block:
  assumes "fl_inv b fs s" and "fl_pc s t = New_block" and "fl_blocks s < 512"
  shows "fl_inv b fs (at_pc (s\<lparr>fl_next := block_next b s, fl_blocks := Suc (fl_blocks s)\<rparr>) t (Push_read (fresh_block b s) True))"
proof -
  let ?r = "s\<lparr>fl_next := block_next b s, fl_blocks := Suc (fl_blocks s)\<rparr>"
  let ?s = "at_pc ?r t (Push_read (fresh_block b s) True)"
  note f = fresh_block_iff [OF fl_invD(3) [OF assms(1)] assms(3)]
  note fc = fresh_block_chained [OF fl_invD(3) [OF assms(1)] assms(3)]
  have old: "i \<notin> set (fresh_block b s)" if "i \<in> set fs \<union> fl_used s \<union> (\<Union>u. pushing s u)" for i
  proof -
    have "unat i < fl_blocks s * 2 ^ b" using that fl_invD(8) [OF assms(1)] by blast
    then show ?thesis using f by auto
  qed
  have nx: "block_next b s i = fl_next s i" if "i \<in> set fs \<union> fl_used s \<union> (\<Union>u. pushing s u)" for i
    using old [OF that] last_in_set [OF fc(1)] by (auto simp: block_next_def)
  have p: "pushing ?s u = (if u = t then set (fresh_block b s) else pushing s u)" for u by (simp add: pushing_def)
  have t: "pushing s t = {}" using assms(2) by (simp add: pushing_def)
  have fresh: "set (fresh_block b s) \<inter> (set fs \<union> fl_used s \<union> (\<Union>u. pushing s u)) = {}" using old by blast
  have "apart fs ?s" using fl_invD(5) [OF assms(1)] fresh unfolding apart_def p by auto
  moreover have "segm (block_next b s) (fmi (fl_head s)) fs NNULL"
    using fl_invD(4) [OF assms(1)] segm_other [of fs "block_next b s" "fl_next s"] nx by blast
  moreover have "(\<Union>u. pushing ?s u) = set (fresh_block b s) \<union> (\<Union>u. pushing s u)" unfolding p using t by auto
  then have "set fs \<union> fl_used ?s \<union> (\<Union>u. pushing ?s u) = {i. unat i < fl_blocks s * 2 ^ b} \<union> set (fresh_block b s)"
    using fl_invD(8) [OF assms(1)] by auto
  then have "set fs \<union> fl_used ?s \<union> (\<Union>u. pushing ?s u) = {i. unat i < Suc (fl_blocks s) * 2 ^ b}" using f by auto
  moreover have "chained (block_next b s) (holding (fl_pc ?s u)) \<and> knows ?s (fl_pc ?s u)" for u
  proof (cases "u = t")
    case True
    then show ?thesis using fc by simp
  next
    case False
    have own: "i \<in> set (holding (fl_pc s u)) \<Longrightarrow> block_next b s i = fl_next s i" for i using nx by (auto simp: pushing_def)
    then have "chained (block_next b s) (holding (fl_pc s u))"
      using fl_invD(6) [OF assms(1), of u] segm_other [OF own] by (auto simp: chained_def)
    moreover have "knows ?r (fl_pc s u)"
    proof (cases "fl_pc s u")
      case (New_cas n m c)
      have "block_next b s (fmi n) = fl_next s (fmi n)" if "c = fl_cnt s"
        using segm_head [OF fl_invD(4) [OF assms(1)]] fl_invD(7) [OF assms(1), of u] New_cas that nx by auto
      then show ?thesis using fl_invD(7) [OF assms(1), of u] New_cas by auto
    qed (use fl_invD(7) [OF assms(1), of u] own in auto)
    ultimately show ?thesis using False by simp
  qed
  ultimately show ?thesis using fl_invD(1,3) [OF assms(1)] assms(3) unfolding fl_inv_def by simp
qed

lemma fl_step_inv:
  assumes "fl_step b s s'" and "timely s" and "fl_inv b fs s"
  shows "\<exists>fs'. fl_inv b fs' s'"
  using assms(1)
proof cases
  case (block t)
  then show ?thesis using inv_block [OF assms(3)] by blast
next
  case (pop t n m c)
  then show ?thesis using inv_pop [OF assms(3,2) pop(2,3)] by auto
next
  case (use_node mi x)
  then show ?thesis using inv_use [OF assms(3)] by blast
next
  case (free_start t mi)
  then show ?thesis using inv_free_start [OF assms(3)] by blast
next
  case (push_link t ch k n c)
  then show ?thesis using inv_push_link [OF assms(3)] by blast
next
  case (push t ch k n c)
  then show ?thesis using inv_push [OF assms(3)] by blast
next
  case (push_fails t ch k n c)
  then show ?thesis using pc_only [OF assms(3), of "Push_read ch k" t] fl_invD(7) [OF assms(3), of t] by auto
next
  case (push_read t ch k)
  then show ?thesis using pc_only [OF assms(3), of "Push_link ch k (fl_head s) (fl_cnt s)" t] fl_invD(7) [OF assms(3), of t] by auto
next
  case (next_read t n c)
  then show ?thesis using pc_only [OF assms(3), of "New_cas n (fl_next s (fmi n)) c" t] fl_invD(7) [OF assms(3), of t] by auto
next
  case (read t)
  let ?p = "if fmi (fl_head s) = NNULL then New_test else New_next (fl_head s) (fl_cnt s)"
  have "fl_inv b fs (at_pc s t ?p)" using read fl_invD(1) [OF assms(3)] by (intro pc_only [OF assms(3)]) auto
  then show ?thesis using read(1) by auto
next
  case (test t)
  have "fl_inv b fs (at_pc s t (if fmi (fl_head s) \<noteq> NNULL then New_read else New_block))"
    using test by (intro pc_only [OF assms(3)]) auto
  then show ?thesis using test(1) by auto
next
  case (new_start t)
  then show ?thesis using pc_only [OF assms(3), of New_test t] by auto
next
  case (block_fails t)
  then show ?thesis using pc_only [OF assms(3), of Idle t] by auto
next
  case (pop_fails t n m c)
  then show ?thesis using pc_only [OF assms(3), of New_test t] by auto
qed

lemma fl_init_inv: "b \<le> 22 \<Longrightarrow> fl_inv b [] fl_init"
  by (simp add: fl_inv_def fl_init_def apart_def pushing_def chained_def)

lemma fl_reach_inv: "fl_reach b s \<Longrightarrow> b \<le> 22 \<Longrightarrow> \<exists>fs. fl_inv b fs s"
proof (induction rule: fl_reach.induct)
  case start
  then show ?case using fl_init_inv by blast
next
  case (step s s')
  then show ?case using fl_step_inv by blast
qed

text \<open>
  C15. Any number of threads call \<open>new_node\<close> and \<open>free_node\<close> on the free list at once, allocate blocks when it
  is empty, and use the nodes they got in any way. As long as no thread sleeps between its read of the
  list head and its swap while the list changes 2^32 times, the swap of \<open>new_node\<close> never hands out a node
  that is in use or that another thread is putting back, and the next head it installs is a node of the
  pool or the end of the list.
\<close>

theorem freelist_no_double_allocation:
  assumes "fl_reach b s" and "b \<le> 22" and "timely s" and "fl_pc s t = New_cas n m c" and "fl_head s = n"
  shows "fmi n \<notin> fl_used s \<and> (\<forall>u. fmi n \<notin> set (holding (fl_pc s u))) \<and> unat (fmi n) < fl_blocks s * 2 ^ b
    \<and> m \<noteq> fmi n \<and> (m = NNULL \<or> m \<notin> fl_used s \<and> unat m < fl_blocks s * 2 ^ b)"
proof -
  obtain fs where i: "fl_inv b fs s" using fl_reach_inv [OF assms(1,2)] by blast
  obtain fs' where fs: "fs = fmi n # fs'" and i': "fl_inv b fs' (at_pc (bumped s m\<lparr>fl_used := insert (fmi n) (fl_used s)\<rparr>) t Idle)"
    using inv_pop [OF i assms(3-5)] by blast
  have ap: "apart fs s" using fl_invD(5) [OF i] .
  have "fmi n \<notin> fl_used s" "\<forall>u. fmi n \<notin> set (holding (fl_pc s u))" "fmi n \<notin> set fs'"
    using ap fs unfolding apart_def pushing_def by auto
  moreover have "unat (fmi n) < fl_blocks s * 2 ^ b" using fl_invD(8) [OF i] fs by auto
  moreover have m: "m = NNULL \<or> m \<in> set fs'" using fl_invD(4) [OF i'] by (cases fs') (auto simp: bumped_def)
  moreover have "m \<in> set fs' \<Longrightarrow> m \<notin> fl_used s \<and> unat m < fl_blocks s * 2 ^ b"
    using ap fs fl_invD(8) [OF i] unfolding apart_def by auto
  moreover have "fmi n \<noteq> NNULL" using nodes_not_NNULL [OF i, of "fmi n"] fs by simp
  ultimately show ?thesis by auto
qed


section \<open>A run of one thread\<close>

text \<open>Thread 0 finds the list empty, allocates a block of one node, pushes it and takes it.\<close>

definition alone :: "cas_t \<Rightarrow> (nid \<Rightarrow> nid) \<Rightarrow> nid set \<Rightarrow> nat \<Rightarrow> fl_pc \<Rightarrow> nat \<Rightarrow> fl_state" where
  "alone hd' nx u k p c = \<lparr>fl_head = hd', fl_next = nx, fl_used = u, fl_blocks = k, fl_pc = (\<lambda>t. Idle)(0 := p), fl_cnt = c\<rparr>"

lemma reach_step: "fl_reach b s \<Longrightarrow> fl_cnt s < 2 ^ 32 \<Longrightarrow> fl_step b s s' \<Longrightarrow> fl_reach b s'"
  by (rule fl_reach.step) (auto simp: timely_def)

abbreviation chain_end :: "nid \<Rightarrow> nid" where
  "chain_end \<equiv> (\<lambda>i. 0)(0 := NNULL)"

lemma fresh_single: "fresh_block 0 (alone h' nx u 0 p c) = [0]" "block_next 0 (alone h' (\<lambda>i. 0) u 0 p c) = chain_end"
  by (auto simp: fresh_block_def alone_def block_next_def fun_eq_iff)

lemma alone_run:
  "fl_reach 0 (alone \<lparr>fmi = 0, frfn = 1\<rparr> chain_end {} 1 (New_cas \<lparr>fmi = 0, frfn = 1\<rparr> NNULL 1) 1)"
proof -
  let ?e = "\<lparr>fmi = NNULL, frfn = 0\<rparr>" and ?f = "\<lparr>fmi = 0, frfn = 1\<rparr>" and ?z = "\<lambda>i. 0"
  have "fl_reach 0 (alone ?e ?z {} 0 Idle 0)" using fl_reach.start [of 0] by (simp add: fl_init_def alone_def fun_upd_idem)
  from reach_step [OF this _ new_start [of _ 0]] have "fl_reach 0 (alone ?e ?z {} 0 New_test 0)" by (simp add: alone_def)
  from reach_step [OF this _ test [of _ 0]] have "fl_reach 0 (alone ?e ?z {} 0 New_block 0)" by (simp add: alone_def)
  from reach_step [OF this _ block [of _ 0], unfolded fresh_single]
  have "fl_reach 0 (alone ?e chain_end {} 1 (Push_read [0] True) 0)" by (simp add: alone_def)
  from reach_step [OF this _ push_read [of _ 0 "[0]" True]]
  have "fl_reach 0 (alone ?e chain_end {} 1 (Push_link [0] True ?e 0) 0)" by (simp add: alone_def)
  from reach_step [OF this _ push_link [of _ 0 "[0]" True ?e 0]]
  have "fl_reach 0 (alone ?e chain_end {} 1 (Push_cas [0] True ?e 0) 0)" by (simp add: alone_def)
  from reach_step [OF this _ push [of _ 0 "[0]" True ?e 0]]
  have "fl_reach 0 (alone ?f chain_end {} 1 New_read 1)" by (simp add: alone_def bumped_def)
  from reach_step [OF this _ read [of _ 0]] have "fl_reach 0 (alone ?f chain_end {} 1 (New_next ?f 1) 1)"
    by (simp add: alone_def NNULL_def)
  from reach_step [OF this _ next_read [of _ 0 ?f 1]] show ?thesis by (simp add: alone_def)
qed

theorem freelist_no_double_allocation_witness:
  "0 \<notin> fl_used (alone \<lparr>fmi = 0, frfn = 1\<rparr> chain_end {} 1 (New_cas \<lparr>fmi = 0, frfn = 1\<rparr> NNULL 1) 1) \<and>
    fl_reach 0 (alone \<lparr>fmi = 0, frfn = 1\<rparr> chain_end {} 1 (New_cas \<lparr>fmi = 0, frfn = 1\<rparr> NNULL 1) 1)"
proof -
  let ?s = "alone \<lparr>fmi = 0, frfn = 1\<rparr> chain_end {} 1 (New_cas \<lparr>fmi = 0, frfn = 1\<rparr> NNULL 1) 1"
  have "timely ?s" by (auto simp: timely_def alone_def)
  then have "fmi \<lparr>fmi = 0, frfn = 1\<rparr> \<notin> fl_used ?s"
    using freelist_no_double_allocation [OF alone_run, of 0 "\<lparr>fmi = 0, frfn = 1\<rparr>" NNULL 1] by (simp add: alone_def)
  with alone_run show ?thesis by simp
qed


end
