(* ===== verification/City.thy ===== *)
theory City
  imports Bytes
begin

text \<open>
  \<open>src/lib/atomic_hash/src/hash_city.c\<close>: CityHash, the hash function of the atomic hash. A pointer is
  an offset into a block of bytes and may be moved before its start; a read outside the block is a
  fault. The instruction behind \<open>_mm_crc32_u64\<close> is the argument \<open>crc\<close>.
\<close>

unbundle bit_operations_syntax

record uint128 =
  low64 :: u64
  high64 :: u64

definition fetch :: "block \<Rightarrow> int \<Rightarrow> nat \<Rightarrow> byte list res" where
  "fetch b p n = (if p < 0 then Fault OutOfBounds else blk_read b (nat p) n)"

definition Fetch64 :: "block \<Rightarrow> int \<Rightarrow> u64 res" where
  "Fetch64 b p = res_bind (fetch b p 8) (\<lambda>bs. Ok (le_word bs))"

definition Fetch32 :: "block \<Rightarrow> int \<Rightarrow> u32 res" where
  "Fetch32 b p = res_bind (fetch b p 4) (\<lambda>bs. Ok (le_word bs))"

definition fetch_byte :: "block \<Rightarrow> int \<Rightarrow> byte res" where
  "fetch_byte b p = res_bind (fetch b p 1) (\<lambda>bs. Ok (hd bs))"

definition k0 :: u64 where "k0 = 0xc3a5c85c97cb3127"
definition k1 :: u64 where "k1 = 0xb492b66fbe98f273"
definition k2 :: u64 where "k2 = 0x9ae16a3b2f90404f"
definition k3 :: u64 where "k3 = 0xc949d7c7509e6557"

section \<open>Mixing\<close>

definition Hash128to64 :: "uint128 \<Rightarrow> u64" where
  "Hash128to64 x =
     (let kMul = 0x9ddfea08eb382d69;
          a = (low64 x XOR high64 x) * kMul;
          a = a XOR drop_bit 47 a;
          b = (high64 x XOR a) * kMul;
          b = b XOR drop_bit 47 b
      in b * kMul)"

definition Rotate :: "u64 \<Rightarrow> nat \<Rightarrow> u64" where
  "Rotate val shift = (if shift = 0 then val else drop_bit shift val OR push_bit (64 - shift) val)"

definition RotateByAtLeast1 :: "u64 \<Rightarrow> nat \<Rightarrow> u64" where
  "RotateByAtLeast1 val shift = drop_bit shift val OR push_bit (64 - shift) val"

definition ShiftMix :: "u64 \<Rightarrow> u64" where
  "ShiftMix val = val XOR drop_bit 47 val"

definition HashLen16 :: "u64 \<Rightarrow> u64 \<Rightarrow> u64" where
  "HashLen16 u v = Hash128to64 \<lparr>low64 = u, high64 = v\<rparr>"

section \<open>Short keys\<close>

definition HashLen0to16 :: "block \<Rightarrow> int \<Rightarrow> nat \<Rightarrow> u64 res" where
  "HashLen0to16 m s len =
     (if len > 8 then
        res_bind (Fetch64 m s) (\<lambda>a.
        res_bind (Fetch64 m (s + int len - 8)) (\<lambda>b.
          Ok (HashLen16 a (RotateByAtLeast1 (b + word_of_nat len) len) XOR b)))
      else if len \<ge> 4 then
        res_bind (Fetch32 m s) (\<lambda>a.
        res_bind (Fetch32 m (s + int len - 4)) (\<lambda>b.
          Ok (HashLen16 (word_of_nat len + push_bit 3 (ucast a)) (ucast b))))
      else if len > 0 then
        res_bind (fetch_byte m s) (\<lambda>a.
        res_bind (fetch_byte m (s + int (len div 2))) (\<lambda>b.
        res_bind (fetch_byte m (s + int len - 1)) (\<lambda>c.
          (let y = ucast a + push_bit 8 (ucast b) :: u32;
               z = word_of_nat len + push_bit 2 (ucast c) :: u32
           in Ok (ShiftMix (ucast y * k2 XOR ucast z * k3) * k2)))))
      else Ok k2)"

definition HashLen17to32 :: "block \<Rightarrow> int \<Rightarrow> nat \<Rightarrow> u64 res" where
  "HashLen17to32 m s len =
     res_bind (Fetch64 m s) (\<lambda>s0. let a = s0 * k1 in
     res_bind (Fetch64 m (s + 8)) (\<lambda>b.
     res_bind (Fetch64 m (s + int len - 8)) (\<lambda>s1. let c = s1 * k2 in
     res_bind (Fetch64 m (s + int len - 16)) (\<lambda>s2. let d = s2 * k0 in
       Ok (HashLen16 (Rotate (a - b) 43 + Rotate c 30 + d) (a + Rotate (b XOR k3) 20 - c + word_of_nat len))))))"

definition WeakHashLen32WithSeeds6 :: "u64 \<Rightarrow> u64 \<Rightarrow> u64 \<Rightarrow> u64 \<Rightarrow> u64 \<Rightarrow> u64 \<Rightarrow> uint128" where
  "WeakHashLen32WithSeeds6 w x y z a b =
     (let a = a + w;
          b = Rotate (b + a + z) 21;
          c = a;
          a = a + x;
          a = a + y;
          b = b + Rotate a 44
      in \<lparr>low64 = a + z, high64 = b + c\<rparr>)"

definition WeakHashLen32WithSeeds :: "block \<Rightarrow> int \<Rightarrow> u64 \<Rightarrow> u64 \<Rightarrow> uint128 res" where
  "WeakHashLen32WithSeeds m s a b =
     res_bind (Fetch64 m s) (\<lambda>w.
     res_bind (Fetch64 m (s + 8)) (\<lambda>x.
     res_bind (Fetch64 m (s + 16)) (\<lambda>y.
     res_bind (Fetch64 m (s + 24)) (\<lambda>z.
       Ok (WeakHashLen32WithSeeds6 w x y z a b)))))"

definition HashLen33to64 :: "block \<Rightarrow> int \<Rightarrow> nat \<Rightarrow> u64 res" where
  "HashLen33to64 m s len =
     res_bind (Fetch64 m (s + 24)) (\<lambda>z.
     res_bind (Fetch64 m s) (\<lambda>s0.
     res_bind (Fetch64 m (s + int len - 16)) (\<lambda>e16.
     res_bind (Fetch64 m (s + 8)) (\<lambda>s8.
     res_bind (Fetch64 m (s + 16)) (\<lambda>s16.
     res_bind (Fetch64 m (s + int len - 32)) (\<lambda>e32.
     res_bind (Fetch64 m (s + int len - 8)) (\<lambda>e8.
     res_bind (Fetch64 m (s + int len - 24)) (\<lambda>e24.
       (let a = s0 + (word_of_nat len + e16) * k0;
            b = Rotate (a + z) 52;
            c = Rotate a 37;
            a = a + s8;
            c = c + Rotate a 7;
            a = a + s16;
            vf = a + z;
            vs = b + Rotate a 31 + c;
            a = s16 + e32;
            z = e8;
            b = Rotate (a + z) 52;
            c = Rotate a 37;
            a = a + e24;
            c = c + Rotate a 7;
            a = a + e16;
            wf = a + z;
            ws = b + Rotate a 31 + c;
            r = ShiftMix ((vf + ws) * k2 + (wf + vs) * k0)
        in Ok (ShiftMix (r * k0 + vs) * k2))))))))))"

section \<open>Long keys, 64 bits\<close>

text \<open>The 56 bytes of state that the loops keep.\<close>

record city_state =
  cv :: uint128
  cw :: uint128
  cx :: u64
  cy :: u64
  cz :: u64

text \<open>One round over 64 bytes.\<close>

definition city_round :: "block \<Rightarrow> int \<Rightarrow> city_state \<Rightarrow> city_state res" where
  "city_round m s c =
     res_bind (Fetch64 m (s + 8)) (\<lambda>s8.
     res_bind (Fetch64 m (s + 48)) (\<lambda>s48.
     res_bind (Fetch64 m (s + 40)) (\<lambda>s40.
     res_bind (Fetch64 m (s + 16)) (\<lambda>s16.
       (let x = Rotate (cx c + cy c + low64 (cv c) + s8) 37 * k1;
            y = Rotate (cy c + high64 (cv c) + s48) 42 * k1;
            x = x XOR high64 (cw c);
            y = y + (low64 (cv c) + s40);
            z = Rotate (cz c + low64 (cw c)) 33 * k1 in
        res_bind (WeakHashLen32WithSeeds m s (high64 (cv c) * k1) (x + low64 (cw c))) (\<lambda>v.
        res_bind (WeakHashLen32WithSeeds m (s + 32) (z + high64 (cw c)) (y + s16)) (\<lambda>w.
          Ok \<lparr>cv = v, cw = w, cx = z, cy = y, cz = x\<rparr>)))))))"

text \<open>The loop of \<open>CityHash64\<close> runs once for each started block of 64 bytes but the last.\<close>

primrec city64_loop :: "nat \<Rightarrow> block \<Rightarrow> int \<Rightarrow> city_state \<Rightarrow> city_state res" where
  "city64_loop 0 m s c = Ok c"
| "city64_loop (Suc n) m s c = res_bind (city_round m s c) (city64_loop n m (s + 64))"

definition CityHash64 :: "block \<Rightarrow> int \<Rightarrow> nat \<Rightarrow> u64 res" where
  "CityHash64 m s len =
     (if len \<le> 32 then (if len \<le> 16 then HashLen0to16 m s len else HashLen17to32 m s len)
      else if len \<le> 64 then HashLen33to64 m s len
      else
        res_bind (Fetch64 m (s + int len - 40)) (\<lambda>x.
        res_bind (Fetch64 m (s + int len - 16)) (\<lambda>e16.
        res_bind (Fetch64 m (s + int len - 56)) (\<lambda>e56.
        res_bind (Fetch64 m (s + int len - 48)) (\<lambda>e48.
        res_bind (Fetch64 m (s + int len - 24)) (\<lambda>e24.
        res_bind (Fetch64 m s) (\<lambda>s0.
          (let y = e16 + e56;
               z = HashLen16 (e48 + word_of_nat len) e24 in
           res_bind (WeakHashLen32WithSeeds m (s + int len - 64) (word_of_nat len) z) (\<lambda>v.
           res_bind (WeakHashLen32WithSeeds m (s + int len - 32) (y + k1) x) (\<lambda>w.
           res_bind (city64_loop ((len - 1) div 64) m s \<lparr>cv = v, cw = w, cx = x * k1 + s0, cy = y, cz = z\<rparr>) (\<lambda>c.
             Ok (HashLen16 (HashLen16 (low64 (cv c)) (low64 (cw c)) + ShiftMix (cy c) * k1 + cz c)
                           (HashLen16 (high64 (cv c)) (high64 (cw c)) + cx c)))))))))))))"

definition CityHash64WithSeeds :: "block \<Rightarrow> int \<Rightarrow> nat \<Rightarrow> u64 \<Rightarrow> u64 \<Rightarrow> u64 res" where
  "CityHash64WithSeeds m s len seed0 seed1 = res_bind (CityHash64 m s len) (\<lambda>h. Ok (HashLen16 (h - seed0) seed1))"

definition CityHash64WithSeed :: "block \<Rightarrow> int \<Rightarrow> nat \<Rightarrow> u64 \<Rightarrow> u64 res" where
  "CityHash64WithSeed m s len seed = CityHash64WithSeeds m s len k2 seed"

section \<open>128 bits\<close>

text \<open>The loop of \<open>CityMurmur\<close>, 16 bytes a round while \<open>l\<close> is positive; it runs at least once.\<close>

function murmur_loop :: "block \<Rightarrow> int \<Rightarrow> int \<Rightarrow> u64 \<times> u64 \<times> u64 \<times> u64 \<Rightarrow> (u64 \<times> u64 \<times> u64 \<times> u64) res" where
  "murmur_loop m s l (a, b, c, d) =
     res_bind (Fetch64 m s) (\<lambda>s0.
     res_bind (Fetch64 m (s + 8)) (\<lambda>s8.
       (let a = (a XOR ShiftMix (s0 * k1) * k1) * k1;
            b = b XOR a;
            c = (c XOR ShiftMix (s8 * k1) * k1) * k1;
            d = d XOR c in
        if l - 16 > 0 then murmur_loop m (s + 16) (l - 16) (a, b, c, d) else Ok (a, b, c, d))))"
  by pat_completeness auto
termination by (relation "measure (\<lambda>(m, s, l, st). nat l)") auto

declare murmur_loop.simps [simp del]

definition CityMurmur :: "block \<Rightarrow> int \<Rightarrow> nat \<Rightarrow> uint128 \<Rightarrow> uint128 res" where
  "CityMurmur m s len seed =
     (let a = low64 seed; b = high64 seed; l = int len - 16 in
      res_bind
        (if l \<le> 0 then
           (let a = ShiftMix (a * k1) * k1 in
            res_bind (HashLen0to16 m s len) (\<lambda>h.
            (let c = b * k1 + h in
             res_bind (if len \<ge> 8 then Fetch64 m s else Ok c) (\<lambda>w.
               Ok (a, b, c, ShiftMix (a + w))))))
         else
           res_bind (Fetch64 m (s + int len - 8)) (\<lambda>e8.
           res_bind (Fetch64 m (s + int len - 16)) (\<lambda>e16.
             (let c = HashLen16 (e8 + k1) a;
                  d = HashLen16 (b + word_of_nat len) (c + e16) in
              murmur_loop m s l (a + d, b, c, d)))))
        (\<lambda>(a, b, c, d).
           (let a = HashLen16 a c; b = HashLen16 d b in
            Ok \<lparr>low64 = a XOR b, high64 = HashLen16 b a\<rparr>)))"

text \<open>Two rounds at a time while 128 bytes are left; the loop runs at least once.\<close>

function city128_loop :: "block \<Rightarrow> int \<Rightarrow> nat \<Rightarrow> city_state \<Rightarrow> (int \<times> nat \<times> city_state) res" where
  "city128_loop m s len c =
     res_bind (city_round m s c) (\<lambda>c1.
     res_bind (city_round m (s + 64) c1) (\<lambda>c2.
       if len - 128 \<ge> 128 then city128_loop m (s + 128) (len - 128) c2 else Ok (s + 128, len - 128, c2)))"
  by pat_completeness auto
termination by (relation "measure (\<lambda>(m, s, len, c). len)") auto

declare city128_loop.simps [simp del]

text \<open>Up to four chunks of 32 bytes from the end, which may reach back into bytes already hashed.\<close>

function tail_loop :: "block \<Rightarrow> int \<Rightarrow> nat \<Rightarrow> nat \<Rightarrow> city_state \<Rightarrow> city_state res" where
  "tail_loop m s len tdone c =
     (if tdone < len then
        (let at = s + int len - int (tdone + 32) in
         res_bind (Fetch64 m (at + 16)) (\<lambda>s16.
         res_bind (Fetch64 m at) (\<lambda>s0.
           (let y = Rotate (cx c + cy c) 42 * k0 + high64 (cv c);
                w1 = low64 (cw c) + s16;
                x = cx c * k0 + w1;
                z = cz c + (high64 (cw c) + s0);
                w2 = high64 (cw c) + low64 (cv c) in
            res_bind (WeakHashLen32WithSeeds m at (low64 (cv c) + z) (high64 (cv c))) (\<lambda>v.
              tail_loop m s len (tdone + 32) \<lparr>cv = v, cw = \<lparr>low64 = w1, high64 = w2\<rparr>, cx = x, cy = y, cz = z\<rparr>)))))
      else Ok c)"
  by pat_completeness auto
termination by (relation "measure (\<lambda>(m, s, len, k, c). len - k)") auto

declare tail_loop.simps [simp del]

definition CityHash128WithSeed :: "block \<Rightarrow> int \<Rightarrow> nat \<Rightarrow> uint128 \<Rightarrow> uint128 res" where
  "CityHash128WithSeed m s len seed =
     (if len < 128 then CityMurmur m s len seed
      else
        (let x = low64 seed; y = high64 seed; z = word_of_nat len * k1 in
         res_bind (Fetch64 m s) (\<lambda>s0.
         res_bind (Fetch64 m (s + 8)) (\<lambda>s8.
         res_bind (Fetch64 m (s + 88)) (\<lambda>s88.
           (let v1 = Rotate (y XOR k1) 49 * k1 + s0;
                v2 = Rotate v1 42 * k1 + s8;
                w1 = Rotate (y + z) 35 * k1 + x;
                w2 = Rotate (x + s88) 53 * k1 in
            res_bind (city128_loop m s len \<lparr>cv = \<lparr>low64 = v1, high64 = v2\<rparr>, cw = \<lparr>low64 = w1, high64 = w2\<rparr>, cx = x, cy = y, cz = z\<rparr>)
              (\<lambda>(s, len, c).
                 (let c = c\<lparr>cx := cx c + Rotate (low64 (cv c) + cz c) 49 * k0, cz := cz c + Rotate (low64 (cw c)) 37 * k0\<rparr> in
                  res_bind (tail_loop m s len 0 c) (\<lambda>c.
                    (let x = HashLen16 (cx c) (low64 (cv c));
                         y = HashLen16 (cy c + cz c) (low64 (cw c)) in
                     Ok \<lparr>low64 = HashLen16 (x + high64 (cv c)) (high64 (cw c)) + y,
                         high64 = HashLen16 (x + high64 (cw c)) (y + high64 (cv c))\<rparr>))))))))))"

definition CityHash128 :: "block \<Rightarrow> int \<Rightarrow> nat \<Rightarrow> uint128 res" where
  "CityHash128 m s len =
     (if len \<ge> 16 then
        res_bind (Fetch64 m s) (\<lambda>s0.
        res_bind (Fetch64 m (s + 8)) (\<lambda>s8.
          CityHash128WithSeed m (s + 16) (len - 16) \<lparr>low64 = s0 XOR k3, high64 = s8\<rparr>))
      else if len \<ge> 8 then
        res_bind (Fetch64 m s) (\<lambda>s0.
        res_bind (Fetch64 m (s + int len - 8)) (\<lambda>e8.
          CityHash128WithSeed [] 0 0 \<lparr>low64 = s0 XOR (word_of_nat len * k0), high64 = e8 XOR k1\<rparr>))
      else CityHash128WithSeed m s len \<lparr>low64 = k0, high64 = k1\<rparr>)"

section \<open>The variant that uses the CRC instruction\<close>

record crc_state =
  ra :: u64
  rb :: u64
  rc :: u64
  rd :: u64
  re :: u64
  rf :: u64
  rg :: u64
  rh :: u64
  ri :: u64
  rj :: u64
  rt :: u64

type_synonym crc_insn = "u64 \<Rightarrow> u64 \<Rightarrow> u64"

text \<open>\<open>CHUNK(multiplier, z)\<close>; the shifts are \<open>41 ^ z\<close>, \<open>27 ^ z\<close>, \<open>33 ^ z\<close> and \<open>25 ^ z\<close>. The caller moves \<open>s\<close> by 40.\<close>

definition CHUNK :: "crc_insn \<Rightarrow> u64 \<Rightarrow> nat \<Rightarrow> block \<Rightarrow> int \<Rightarrow> crc_state \<Rightarrow> crc_state res" where
  "CHUNK crc mult z m s r =
     res_bind (Fetch64 m s) (\<lambda>s0.
     res_bind (Fetch64 m (s + 8)) (\<lambda>s8.
     res_bind (Fetch64 m (s + 16)) (\<lambda>s16.
     res_bind (Fetch64 m (s + 24)) (\<lambda>s24.
     res_bind (Fetch64 m (s + 32)) (\<lambda>s32.
       (let a = Rotate (rb r) (41 XOR z) * mult + s0;
            b = Rotate (rc r) (27 XOR z) * mult + s8;
            c = Rotate (rd r) (41 XOR z) * mult + s16;
            d = Rotate (re r) (33 XOR z) * mult + s24;
            e = Rotate (rt r) (25 XOR z) * mult + s32 in
        Ok \<lparr>ra = a, rb = b, rc = c, rd = d, re = e, rf = crc (rf r) a, rg = crc (rg r) b, rh = crc (rh r) c,
            ri = crc (ri r) d, rj = crc (rj r) e, rt = ra r\<rparr>))))))"

text \<open>240 bytes, in six chunks.\<close>

definition crc_round :: "crc_insn \<Rightarrow> block \<Rightarrow> int \<Rightarrow> crc_state \<Rightarrow> crc_state res" where
  "crc_round crc m s r =
     res_bind (CHUNK crc 1 1 m s r) (\<lambda>r.
     res_bind (CHUNK crc k0 0 m (s + 40) r) (\<lambda>r.
     res_bind (CHUNK crc 1 1 m (s + 80) r) (\<lambda>r.
     res_bind (CHUNK crc k0 0 m (s + 120) r) (\<lambda>r.
     res_bind (CHUNK crc 1 1 m (s + 160) r) (\<lambda>r.
       CHUNK crc k0 0 m (s + 200) r)))))"

text \<open>\<open>do ... while (--iters > 0)\<close>: an unsigned 0 at the start would wrap; callers have at least 240 bytes.\<close>

primrec crc_rounds :: "nat \<Rightarrow> crc_insn \<Rightarrow> block \<Rightarrow> int \<Rightarrow> crc_state \<Rightarrow> crc_state res" where
  "crc_rounds 0 crc m s r = Fault OutOfBounds"
| "crc_rounds (Suc n) crc m s r =
     res_bind (crc_round crc m s r) (\<lambda>r. if n = 0 then Ok r else crc_rounds n crc m (s + 240) r)"

function crc_tail :: "crc_insn \<Rightarrow> block \<Rightarrow> int \<Rightarrow> nat \<Rightarrow> crc_state \<Rightarrow> crc_state res" where
  "crc_tail crc m s len r =
     (if len \<ge> 40 then res_bind (CHUNK crc k0 0 m s r) (crc_tail crc m (s + 40) (len - 40))
      else if len > 0 then CHUNK crc k0 0 m (s + int len - 40) r
      else Ok r)"
  by pat_completeness auto
termination by (relation "measure (\<lambda>(crc, m, s, len, r). len)") auto

declare crc_tail.simps [simp del]

definition crc_start :: "block \<Rightarrow> int \<Rightarrow> nat \<Rightarrow> u32 \<Rightarrow> crc_state res" where
  "crc_start m s len seed =
     res_bind (Fetch64 m (s + 56)) (\<lambda>s56.
     res_bind (Fetch64 m (s + 96)) (\<lambda>s96.
     res_bind (Fetch64 m (s + 120)) (\<lambda>s120.
     res_bind (Fetch64 m (s + 184)) (\<lambda>s184.
       (let b = s96 + k0; c = HashLen16 b (word_of_nat len); d = s120 * k0 + word_of_nat len in
        Ok \<lparr>ra = s56 + k0, rb = b, rc = c, rd = d, re = s184 + ucast seed, rf = ucast seed, rg = 0, rh = 0,
            ri = 0, rj = 0, rt = c + d\<rparr>)))))"

text \<open>The end of \<open>CityHashCrc256Long\<close>; \<open>r0\<close> and \<open>r1\<close> are \<open>result[0]\<close> and \<open>result[1]\<close> from its start.\<close>

definition crc_finish :: "u64 \<Rightarrow> u64 \<Rightarrow> crc_state \<Rightarrow> u64 \<times> u64 \<times> u64 \<times> u64" where
  "crc_finish r0 r1 r =
     (let j = rj r + push_bit 32 (ri r);
          a = HashLen16 (ra r) j;
          h = rh r + push_bit 32 (rg r);
          b = rb r + h;
          c = HashLen16 (rc r) (rf r) + ri r;
          d = HashLen16 (rd r) (re r + r0);
          j = j + re r;
          i = ri r + HashLen16 h (rt r);
          e = HashLen16 a d + j;
          f = HashLen16 b c + a;
          g = HashLen16 j i + c;
          r0 = e + f + g + h;
          a = ShiftMix ((a + g) * k0) * k0 + b;
          r1 = r1 + (a + r0);
          a = ShiftMix (a * k0) * k0 + c;
          r2 = a + r1;
          a = ShiftMix ((a + e) * k0) * k0
      in (r0, r1, r2, a + r2))"

definition CityHashCrc256Long :: "crc_insn \<Rightarrow> block \<Rightarrow> int \<Rightarrow> nat \<Rightarrow> u32 \<Rightarrow> (u64 \<times> u64 \<times> u64 \<times> u64) res" where
  "CityHashCrc256Long crc m s len seed =
     res_bind (crc_start m s len seed) (\<lambda>r0.
     res_bind (crc_rounds (len div 240) crc m s r0) (\<lambda>r1.
     res_bind (crc_tail crc m (s + int (len div 240 * 240)) (len mod 240) r1) (\<lambda>r2.
       Ok (crc_finish (rc r0) (rd r0) r2))))"

definition CityHashCrc256Short :: "crc_insn \<Rightarrow> block \<Rightarrow> int \<Rightarrow> nat \<Rightarrow> (u64 \<times> u64 \<times> u64 \<times> u64) res" where
  "CityHashCrc256Short crc m s len =
     res_bind (fetch m s len) (\<lambda>bs. CityHashCrc256Long crc (bs @ replicate (240 - len) 0) 0 240 (NOT (word_of_nat len)))"

definition CityHashCrc256 :: "crc_insn \<Rightarrow> block \<Rightarrow> int \<Rightarrow> nat \<Rightarrow> (u64 \<times> u64 \<times> u64 \<times> u64) res" where
  "CityHashCrc256 crc m s len = (if len \<ge> 240 then CityHashCrc256Long crc m s len 0 else CityHashCrc256Short crc m s len)"

definition CityHashCrc128WithSeed :: "crc_insn \<Rightarrow> block \<Rightarrow> int \<Rightarrow> nat \<Rightarrow> uint128 \<Rightarrow> uint128 res" where
  "CityHashCrc128WithSeed crc m s len seed =
     (if len \<le> 900 then CityHash128WithSeed m s len seed
      else res_bind (CityHashCrc256 crc m s len) (\<lambda>(r0, r1, r2, r3).
        (let u = high64 seed + r0; v = low64 seed + r1 in
         Ok \<lparr>low64 = HashLen16 u (v + r2), high64 = HashLen16 (Rotate v 32) (u * k0 + r3)\<rparr>)))"

definition CityHashCrc128 :: "crc_insn \<Rightarrow> block \<Rightarrow> int \<Rightarrow> nat \<Rightarrow> uint128 res" where
  "CityHashCrc128 crc m s len =
     (if len \<le> 900 then CityHash128 m s len
      else res_bind (CityHashCrc256 crc m s len) (\<lambda>(r0, r1, r2, r3). Ok \<lparr>low64 = r2, high64 = r3\<rparr>))"

text \<open>No half of the hash is 0: the atomic hash marks buckets that are held with 0.\<close>

definition cityhash_128 :: "crc_insn \<Rightarrow> block \<Rightarrow> nat \<Rightarrow> uint128 res" where
  "cityhash_128 crc m len =
     res_bind (CityHashCrc128 crc m 0 len) (\<lambda>r.
       Ok \<lparr>low64 = (if low64 r = 0 then 1 else low64 r), high64 = (if high64 r = 0 then 1 else high64 r)\<rparr>)"

section \<open>Reads stay inside the key\<close>

text \<open>\<open>inside m s n\<close>: the \<open>n\<close> bytes from \<open>s\<close> on are in the block.\<close>

definition inside :: "block \<Rightarrow> int \<Rightarrow> nat \<Rightarrow> bool" where
  "inside m s n \<longleftrightarrow> 0 \<le> s \<and> s + int n \<le> int (length m)"

lemma fetch_ok: "inside m p n \<Longrightarrow> \<exists>bs. fetch m p n = Ok bs \<and> length bs = n"
  by (auto simp: inside_def fetch_def blk_read_def)

lemma Fetch64_ok: "inside m p 8 \<Longrightarrow> is_ok (Fetch64 m p)"
  using fetch_ok [of m p 8] by (auto simp: Fetch64_def is_ok_iff)

lemma Fetch32_ok: "inside m p 4 \<Longrightarrow> is_ok (Fetch32 m p)"
  using fetch_ok [of m p 4] by (auto simp: Fetch32_def is_ok_iff)

lemma fetch_byte_ok: "inside m p 1 \<Longrightarrow> is_ok (fetch_byte m p)"
  using fetch_ok [of m p 1] by (auto simp: fetch_byte_def is_ok_iff)

lemmas ok_rules = is_ok_bind is_ok_let is_ok_Ok Fetch64_ok Fetch32_ok fetch_byte_ok

lemma HashLen0to16_ok: "inside m s len \<Longrightarrow> is_ok (HashLen0to16 m s len)"
  unfolding HashLen0to16_def by (auto simp: inside_def intro!: ok_rules)

lemma HashLen17to32_ok: "inside m s len \<Longrightarrow> 16 < len \<Longrightarrow> is_ok (HashLen17to32 m s len)"
  unfolding HashLen17to32_def by (intro ok_rules) (auto simp: inside_def)

lemma WeakHash_ok: "inside m s 32 \<Longrightarrow> is_ok (WeakHashLen32WithSeeds m s a b)"
  unfolding WeakHashLen32WithSeeds_def by (intro ok_rules) (auto simp: inside_def)

lemma HashLen33to64_ok: "inside m s len \<Longrightarrow> 32 < len \<Longrightarrow> is_ok (HashLen33to64 m s len)"
  unfolding HashLen33to64_def by (intro ok_rules) (auto simp: inside_def)

lemma city_round_ok: "inside m s 64 \<Longrightarrow> is_ok (city_round m s c)"
  unfolding city_round_def by (intro ok_rules WeakHash_ok) (auto simp: inside_def)

lemma city64_loop_ok: "inside m s (64 * n) \<Longrightarrow> is_ok (city64_loop n m s c)"
proof (induction n arbitrary: s c)
  case 0
  then show ?case by (simp add: is_ok_iff)
next
  case (Suc n)
  then show ?case by (auto simp: inside_def intro!: is_ok_bind city_round_ok)
qed

lemma CityHash64_ok: "inside m s len \<Longrightarrow> is_ok (CityHash64 m s len)"
  unfolding CityHash64_def
  by (auto simp: inside_def intro!: ok_rules HashLen0to16_ok HashLen17to32_ok HashLen33to64_ok WeakHash_ok city64_loop_ok)

lemma murmur_loop_ok: "inside m s (nat l + 15) \<Longrightarrow> 0 < l \<Longrightarrow> is_ok (murmur_loop m s l st)"
proof (induction m s l st rule: murmur_loop.induct)
  case (1 m s l a b c d)
  then show ?case by (subst murmur_loop.simps) (auto simp: inside_def Let_def intro!: ok_rules)
qed

lemma CityMurmur_ok: "inside m s len \<Longrightarrow> is_ok (CityMurmur m s len seed)"
  unfolding CityMurmur_def
  by (auto simp: inside_def Let_def intro!: ok_rules HashLen0to16_ok murmur_loop_ok split: prod.split)

lemma city128_loop_ok:
  "inside m s len \<Longrightarrow> 128 \<le> len \<Longrightarrow> \<exists>s' len' c'. city128_loop m s len c = Ok (s', len', c') \<and> len' < 128 \<and> s + 128 \<le> s' \<and> s' + int len' = s + int len"
proof (induction m s len c rule: city128_loop.induct)
  case (1 m s len c)
  obtain c1 where c1: "city_round m s c = Ok c1" using city_round_ok [of m s c] 1(2,3) by (auto simp: is_ok_iff inside_def)
  obtain c2 where c2: "city_round m (s + 64) c1 = Ok c2" using city_round_ok [of m "s + 64" c1] 1(2,3) by (auto simp: is_ok_iff inside_def)
  show ?case
  proof (cases "128 \<le> len - 128")
    case True
    then have "inside m (s + 128) (len - 128)" using 1(2) by (simp add: inside_def)
    from 1(1) [OF c1 c2 True this True] show ?thesis using True by (subst city128_loop.simps) (auto simp: c1 c2)
  next
    case False
    then show ?thesis using 1(3) by (subst city128_loop.simps) (auto simp: c1 c2)
  qed
qed

lemma tail_loop_ok: "inside m (s - 128) (128 + len) \<Longrightarrow> len < 128 \<Longrightarrow> 32 dvd k \<Longrightarrow> is_ok (tail_loop m s len k c)"
proof (induction m s len k c rule: tail_loop.induct)
  case (1 m s len k c)
  have "k < len \<Longrightarrow> k + 32 \<le> 128" using 1(3,4) by (auto elim!: dvdE)
  then show ?case using 1 by (subst tail_loop.simps) (auto simp: inside_def Let_def intro!: ok_rules WeakHash_ok)
qed

lemma city128_loop_end:
  "inside m s len \<Longrightarrow> 128 \<le> len \<Longrightarrow> city128_loop m s len c = Ok (s', len', c') \<Longrightarrow> inside m (s' - 128) (128 + len') \<and> len' < 128"
  using city128_loop_ok [of m s len c] by (auto simp: inside_def)

lemma CityHash128WithSeed_ok:
  assumes "inside m s len"
  shows "is_ok (CityHash128WithSeed m s len seed)"
proof (cases "len < 128")
  case True
  then show ?thesis using assms by (simp add: CityHash128WithSeed_def CityMurmur_ok)
next
  case False
  then have "inside m s 128" using assms by (simp add: inside_def)
  moreover have "is_ok (city128_loop m s len c)" for c using city128_loop_ok [OF assms, of c] False by (auto simp: is_ok_iff)
  moreover have "is_ok (tail_loop m s' len' 0 c)" if "city128_loop m s len c0 = Ok (s', len', c')" for c0 s' len' c' c
    using city128_loop_end [OF assms _ that] False by (intro tail_loop_ok) auto
  ultimately show ?thesis using False unfolding CityHash128WithSeed_def
    by (auto simp: Let_def inside_def intro!: is_ok_bind is_ok_Ok Fetch64_ok)
qed

lemma CityHash128_ok: "inside m s len \<Longrightarrow> is_ok (CityHash128 m s len)"
  unfolding CityHash128_def
  by (auto simp: inside_def intro!: ok_rules CityHash128WithSeed_ok)

lemma CHUNK_ok: "inside m s 40 \<Longrightarrow> is_ok (CHUNK crc mult z m s r)"
  unfolding CHUNK_def by (intro ok_rules) (auto simp: inside_def)

lemma crc_round_ok: "inside m s 240 \<Longrightarrow> is_ok (crc_round crc m s r)"
  unfolding crc_round_def by (intro is_ok_bind CHUNK_ok) (auto simp: inside_def)

lemma crc_rounds_ok: "inside m s (240 * n) \<Longrightarrow> 0 < n \<Longrightarrow> is_ok (crc_rounds n crc m s r)"
proof (induction n arbitrary: s r)
  case (Suc n)
  then show ?case by (auto simp: inside_def intro!: is_ok_bind is_ok_Ok crc_round_ok)
qed simp

lemma crc_tail_ok: "inside m (s - 40) (40 + len) \<Longrightarrow> is_ok (crc_tail crc m s len r)"
proof (induction crc m s len r rule: crc_tail.induct)
  case (1 crc m s len r)
  then show ?case by (subst crc_tail.simps) (auto simp: inside_def intro!: is_ok_bind is_ok_Ok CHUNK_ok)
qed

lemma CityHashCrc256Long_ok:
  assumes "inside m s len" and "240 \<le> len"
  shows "is_ok (CityHashCrc256Long crc m s len seed)"
proof -
  have *: "240 * (len div 240) \<le> len" "240 * (len div 240) + len mod 240 = len" "0 < len div 240" using assms(2) by auto
  have m: "int (len div 240 * 240) + int (len mod 240) = int len" by (simp only: of_nat_add [symmetric] div_mult_mod_eq)
  have "is_ok (crc_start m s len seed)"
    unfolding crc_start_def using assms by (intro ok_rules) (auto simp: inside_def)
  moreover have "inside m s (240 * (len div 240))" "inside m (s + int (len div 240 * 240) - 40) (40 + len mod 240)"
    using assms * m by (auto simp: inside_def)
  ultimately show ?thesis unfolding CityHashCrc256Long_def using *(3)
    by (intro is_ok_bind is_ok_Ok crc_rounds_ok crc_tail_ok)
qed

lemma CityHashCrc256_ok: "inside m s len \<Longrightarrow> is_ok (CityHashCrc256 crc m s len)"
  using fetch_ok [of m s len]
  by (auto simp: CityHashCrc256_def CityHashCrc256Short_def inside_def intro!: CityHashCrc256Long_ok)

lemma CityHashCrc128_ok: "inside m s len \<Longrightarrow> is_ok (CityHashCrc128 crc m s len)"
  by (auto simp: CityHashCrc128_def split: prod.split intro!: is_ok_bind is_ok_Ok CityHash128_ok CityHashCrc256_ok)

section \<open>Only the key counts\<close>

text \<open>\<open>agrees r r'\<close>: what succeeds on a block succeeds in the same way on a longer one.\<close>

definition agrees :: "'a res \<Rightarrow> 'a res \<Rightarrow> bool" where
  "agrees r r' \<longleftrightarrow> (\<forall>x. r = Ok x \<longrightarrow> r' = Ok x)"

lemma agrees_refl: "agrees r r"
  by (simp add: agrees_def)

lemma agrees_bind: "agrees r r' \<Longrightarrow> (\<And>x. agrees (f x) (g x)) \<Longrightarrow> agrees (res_bind r f) (res_bind r' g)"
  by (cases r) (auto simp: agrees_def)

lemma agrees_let: "(\<And>x. agrees (f x) (g x)) \<Longrightarrow> agrees (let x = t in f x) (let x = t in g x)"
  by simp

lemma agrees_if: "(P \<Longrightarrow> agrees r r') \<Longrightarrow> agrees q q' \<Longrightarrow> agrees (if P then r else q) (if P then r' else q')"
  by simp

lemma agrees_prod: "(\<And>x y. agrees (f x y) (g x y)) \<Longrightarrow> agrees (case p of (x, y) \<Rightarrow> f x y) (case p of (x, y) \<Rightarrow> g x y)"
  by (simp split: prod.split)

lemma agrees_fetch: "agrees (fetch m p n) (fetch (m @ m') p n)"
  by (auto simp: agrees_def fetch_def blk_read_def)

lemmas agrees_rules = agrees_refl agrees_bind agrees_let agrees_if agrees_prod

lemma agrees_Fetch:
  "agrees (Fetch64 m p) (Fetch64 (m @ m') p)"
  "agrees (Fetch32 m p) (Fetch32 (m @ m') p)"
  "agrees (fetch_byte m p) (fetch_byte (m @ m') p)"
  unfolding Fetch64_def Fetch32_def fetch_byte_def by (intro agrees_bind agrees_fetch agrees_refl)+

lemma agrees_HashLen0to16: "agrees (HashLen0to16 m s len) (HashLen0to16 (m @ m') s len)"
  unfolding HashLen0to16_def by (intro agrees_rules agrees_Fetch)

lemma agrees_WeakHash: "agrees (WeakHashLen32WithSeeds m s a b) (WeakHashLen32WithSeeds (m @ m') s a b)"
  unfolding WeakHashLen32WithSeeds_def by (intro agrees_rules agrees_Fetch)

lemma agrees_round: "agrees (city_round m s c) (city_round (m @ m') s c)"
  unfolding city_round_def by (intro agrees_rules agrees_Fetch agrees_WeakHash)

lemma agrees_murmur_loop: "agrees (murmur_loop m s l st) (murmur_loop (m @ m') s l st)"
proof (induction l arbitrary: s st rule: measure_induct_rule [where f = nat])
  case (less l)
  obtain a b c d where st: "st = (a, b, c, d)" by (rule prod_cases4)
  show ?case unfolding st murmur_loop.simps [of m s l a b c d] murmur_loop.simps [of "m @ m'" s l a b c d]
    by (intro agrees_rules agrees_Fetch less.IH) simp
qed

lemma agrees_CityMurmur: "agrees (CityMurmur m s len seed) (CityMurmur (m @ m') s len seed)"
  unfolding CityMurmur_def by (intro agrees_rules agrees_Fetch agrees_HashLen0to16 agrees_murmur_loop)

lemma agrees_city128_loop: "agrees (city128_loop m s len c) (city128_loop (m @ m') s len c)"
proof (induction len arbitrary: s c rule: less_induct)
  case (less len)
  show ?case unfolding city128_loop.simps [of m s len c] city128_loop.simps [of "m @ m'" s len c]
    by (intro agrees_rules agrees_round less.IH) simp
qed

lemma agrees_tail_loop: "agrees (tail_loop m s len k c) (tail_loop (m @ m') s len k c)"
proof (induction k arbitrary: c rule: measure_induct_rule [where f = "\<lambda>k. len - k"])
  case (less k)
  show ?case unfolding tail_loop.simps [of m s len k c] tail_loop.simps [of "m @ m'" s len k c]
    by (intro agrees_rules agrees_Fetch agrees_WeakHash less.IH) simp
qed

lemma agrees_CityHash128WithSeed: "agrees (CityHash128WithSeed m s len seed) (CityHash128WithSeed (m @ m') s len seed)"
  unfolding CityHash128WithSeed_def
  by (intro agrees_rules agrees_Fetch agrees_CityMurmur agrees_city128_loop agrees_tail_loop)

lemma agrees_CityHash128: "agrees (CityHash128 m s len) (CityHash128 (m @ m') s len)"
  unfolding CityHash128_def by (intro agrees_rules agrees_Fetch agrees_CityHash128WithSeed)

lemma agrees_CHUNK: "agrees (CHUNK crc mult z m s r) (CHUNK crc mult z (m @ m') s r)"
  unfolding CHUNK_def by (intro agrees_rules agrees_Fetch)

lemma agrees_crc_rounds: "agrees (crc_rounds n crc m s r) (crc_rounds n crc (m @ m') s r)"
proof (induction n arbitrary: s r)
  case (Suc n)
  then show ?case unfolding crc_rounds.simps crc_round_def by (intro agrees_rules agrees_CHUNK)
qed (simp add: agrees_refl)

lemma agrees_crc_tail: "agrees (crc_tail crc m s len r) (crc_tail crc (m @ m') s len r)"
proof (induction len arbitrary: s r rule: less_induct)
  case (less len)
  show ?case unfolding crc_tail.simps [of crc m s len r] crc_tail.simps [of crc "m @ m'" s len r]
    by (intro agrees_rules agrees_CHUNK less.IH) simp
qed

lemma agrees_CityHashCrc256: "agrees (CityHashCrc256 crc m s len) (CityHashCrc256 crc (m @ m') s len)"
  unfolding CityHashCrc256_def CityHashCrc256Long_def CityHashCrc256Short_def crc_start_def
  by (intro agrees_rules agrees_Fetch agrees_fetch agrees_crc_rounds agrees_crc_tail)

lemma agrees_cityhash_128: "agrees (cityhash_128 crc m len) (cityhash_128 crc (m @ m') len)"
  unfolding cityhash_128_def CityHashCrc128_def by (intro agrees_rules agrees_CityHash128 agrees_CityHashCrc256)

lemma cityhash_128_Ok:
  assumes "len \<le> length m"
  obtains r where "cityhash_128 crc m len = Ok r" and "cityhash_128 crc (take len m) len = Ok r" and "low64 r \<noteq> 0" and "high64 r \<noteq> 0"
proof -
  have "is_ok (CityHashCrc128 crc (take len m) 0 len)" using assms by (intro CityHashCrc128_ok) (simp add: inside_def)
  then obtain r where r: "CityHashCrc128 crc (take len m) 0 len = Ok r" by (auto simp: is_ok_iff)
  then obtain r' where r': "cityhash_128 crc (take len m) len = Ok r'" "low64 r' \<noteq> 0" "high64 r' \<noteq> 0" by (auto simp: cityhash_128_def)
  then have "cityhash_128 crc m len = Ok r'"
    using agrees_cityhash_128 [of crc "take len m" len "drop len m"] by (simp add: agrees_def)
  with r' show ?thesis using that by blast
qed

text \<open>
  C33. The hash of a key of any length is computed without reading a byte outside the key, it is the
  same whatever lies behind the key in memory, and neither half of it is 0, whatever the CRC
  instruction computes. The same holds of the 64-bit hash as far as the reads are concerned.
\<close>

theorem cityhash_reads_inside:
  assumes "len \<le> length key"
  shows "\<exists>r h. cityhash_128 crc key len = Ok r \<and> low64 r \<noteq> 0 \<and> high64 r \<noteq> 0 \<and>
    cityhash_128 crc (take len key) len = Ok r \<and> CityHash64WithSeed key 0 len seed = Ok h"
proof -
  obtain r where r: "cityhash_128 crc key len = Ok r" "cityhash_128 crc (take len key) len = Ok r" "low64 r \<noteq> 0" "high64 r \<noteq> 0"
    using assms by (rule cityhash_128_Ok)
  have "is_ok (CityHash64 key 0 len)" using assms by (intro CityHash64_ok) (simp add: inside_def)
  then have "\<exists>h. CityHash64WithSeed key 0 len seed = Ok h" by (auto simp: CityHash64WithSeed_def CityHash64WithSeeds_def is_ok_iff)
  with r show ?thesis by blast
qed

theorem cityhash_reads_inside_witness:
  "\<exists>r h. cityhash_128 (+) [97, 98, 99, 0] 3 = Ok r \<and> low64 r \<noteq> 0 \<and> high64 r \<noteq> 0 \<and>
    cityhash_128 (+) [97, 98, 99] 3 = Ok r \<and> CityHash64WithSeed [97, 98, 99, 0] 0 3 7 = Ok h"
  using cityhash_reads_inside [of 3 "[97, 98, 99, 0]" "(+)" 7] by simp

end
