(* ===== verification/City_Table.thy ===== *)
theory City_Table
  imports City Ahash_Map
begin

text \<open>
  The atomic hash with the hash function it is built with. \<open>cityhash_128\<close> never fails on the bytes of
  a key and never gives a hash value with a half that is 0, so the table is a map for all keys.
\<close>

definition city_func :: "crc_insn \<Rightarrow> byte list \<Rightarrow> hv" where
  "city_func crc key = (case cityhash_128 crc key (length key) of
     Ok r \<Rightarrow> \<lparr>hvx = low64 r, hvy = high64 r\<rparr> | Fault _ \<Rightarrow> \<lparr>hvx = 0, hvy = 0\<rparr>)"

lemma city_func_nonzero: "hvx (city_func crc key) \<noteq> 0" "hvy (city_func crc key) \<noteq> 0"
  by (rule cityhash_128_Ok [of "length key" key crc], simp, simp add: city_func_def)+

text \<open>An operation on a key of at least one byte, without an expiry time.\<close>

fun key_op :: "ah_op \<Rightarrow> bool" where
  "key_op (Op_add e kwd len d ttl cbf arg) \<longleftrightarrow> 0 < len \<and> key_fits kwd len \<and> ttl \<le> 0"
| "key_op (Op_get e kwd len cbf arg) \<longleftrightarrow> 0 < len \<and> key_fits kwd len"
| "key_op (Op_del e kwd len cbf arg) \<longleftrightarrow> 0 < len \<and> key_fits kwd len"

lemma plain_key_op: "key_op x \<Longrightarrow> plain_op (city_func crc) x"
  by (cases x) (auto simp: city_func_nonzero)

text \<open>
  C17. The atomic hash together with CityHash, for any sequence of operations on keys of at least one byte
  whose entries do not expire: the hash function computes its value for every key, no operation
  faults, and the answers are those of a map from hash values to data.
\<close>

theorem city_table_is_map:
  assumes "atomic_hash_create (city_func crc) al n2 p1 p2 nodes ttl = Ok (Some h0)" and "\<forall>x\<in>set xs. key_op x"
  shows "\<exists>rs h m' M'. run_ops xs (h0, m) = Ok (rs, h, m') \<and> map_run h0 xs rs (Map.empty, m) (M', m')"
proof -
  have "rep h0 Map.empty" by (rule create_rep [OF assms(1)])
  moreover have "\<forall>x\<in>set xs. plain_op (hash_func h0) x"
    using assms(2) plain_key_op atomic_hash_create_hooks(1) [OF assms(1)] by auto
  ultimately show ?thesis using run_ops_refines [OF _ same_shape_refl] by blast
qed

theorem city_table_is_map_witness:
  "\<exists>h0 rs h m' M'. small_table (city_func (+)) = Ok (Some h0) \<and>
    run_ops [Op_add \<lparr>now_ms = 0, later_ms = 0, calloc_ok = True\<rparr> [7] 1 5 0 None NULL] (h0, fmempty) = Ok (rs, h, m') \<and>
    map_run h0 [Op_add \<lparr>now_ms = 0, later_ms = 0, calloc_ok = True\<rparr> [7] 1 5 0 None NULL] rs (Map.empty, fmempty) (M', m')"
proof -
  obtain h0 where h0: "small_table (city_func (+)) = Ok (Some h0)" using small_table_Some by blast
  have "\<forall>x\<in>set [Op_add \<lparr>now_ms = 0, later_ms = 0, calloc_ok = True\<rparr> [7] 1 5 0 None NULL]. key_op x"
    by (simp add: key_fits_def)
  from city_table_is_map [OF h0 [unfolded small_table_def] this, of fmempty] h0 show ?thesis by blast
qed

end
