(* ===== verification/Tokens.thy ===== *)
theory Tokens
  imports Bytes
begin

text \<open>
  The string tokenizer \<open>src/str_tokens.c\<close>. A string is a block of bytes with a NUL; a token is a
  place in it and a length. The regular expressions of PCRE and the answers of the allocator are
  arguments: compiling gives the function that \<open>pcre_exec\<close> computes on a subject. The main loop has
  fuel, since an expression that matches the empty string keeps it in its place.
\<close>

section \<open>Strings of C\<close>

definition c_string :: "block \<Rightarrow> nat \<Rightarrow> byte list" where
  "c_string m p = takeWhile (\<lambda>c. c \<noteq> 0) (drop p m)"

text \<open>What a function of \<open>string.h\<close> reads: the bytes up to the NUL, which must be in the block.\<close>

definition read_string :: "block \<Rightarrow> nat \<Rightarrow> byte list res" where
  "read_string m p = (if 0 \<in> set (drop p m) then Ok (c_string m p) else Fault OutOfBounds)"

definition read_byte :: "block \<Rightarrow> nat \<Rightarrow> byte res" where
  "read_byte m p = (if p < length m then Ok (m ! p) else Fault OutOfBounds)"

definition c_strcspn :: "byte list \<Rightarrow> byte list \<Rightarrow> nat" where
  "c_strcspn s d = length (takeWhile (\<lambda>c. c \<notin> set d) s)"

definition c_strstr :: "byte list \<Rightarrow> byte list \<Rightarrow> nat option" where
  "c_strstr s d = find (\<lambda>i. take (length d) (drop i s) = d) [0..<Suc (length s)]"

section \<open>Data\<close>

record token =
  tok_ptr :: nat
  tok_len :: nat

record string_t =
  str_ptr :: "block option"
  str_len :: nat

text \<open>A flat list: the array it points to, with as many tokens as its length says.\<close>

record flist =
  flist_ptr :: "token list option"
  flist_func :: string

text \<open>What is freed, in order; an array of tokens is freed by the function of its list.\<close>

datatype tok_object = Str_bytes | Str_struct | Toks_array string | List_struct

definition string_new :: "bool \<Rightarrow> block option \<Rightarrow> nat \<Rightarrow> string_t option res" where
  "string_new got p len =
     (if \<not> got then Ok None
      else case p of
        None \<Rightarrow> Ok (Some \<lparr>str_ptr = None, str_len = 0\<rparr>)
      | Some m \<Rightarrow> if len = 0 then Ok (Some \<lparr>str_ptr = None, str_len = 0\<rparr>)
                 else res_bind (read_string m 0) (\<lambda>s. Ok (Some \<lparr>str_ptr = Some m, str_len = length s\<rparr>)))"

definition string_free :: "string_t option \<Rightarrow> bool \<Rightarrow> tok_object list" where
  "string_free str free_ptr = (case str of None \<Rightarrow> []
     | Some s \<Rightarrow> (if free_ptr \<and> str_ptr s \<noteq> None then [Str_bytes] else []) @ [Str_struct])"

definition flist_new :: "bool \<Rightarrow> token list option \<Rightarrow> nat \<Rightarrow> flist option" where
  "flist_new got p len =
     (if \<not> got then None
      else Some \<lparr>flist_ptr = (if p \<noteq> None \<and> len \<noteq> 0 then p else None), flist_func = ''free''\<rparr>)"

definition flist_set_free_func :: "flist option \<Rightarrow> string \<Rightarrow> flist option" where
  "flist_set_free_func l f = map_option (\<lambda>x. x\<lparr>flist_func := f\<rparr>) l"

definition flist_clean :: "flist \<Rightarrow> flist \<times> tok_object list" where
  "flist_clean l = (l\<lparr>flist_ptr := None\<rparr>, case flist_ptr l of None \<Rightarrow> [] | Some _ \<Rightarrow> [Toks_array (flist_func l)])"

definition flist_free :: "flist option \<Rightarrow> bool \<Rightarrow> tok_object list" where
  "flist_free l free_ptr = (case l of None \<Rightarrow> []
     | Some x \<Rightarrow> (if free_ptr then snd (flist_clean x) else []) @ [List_struct])"

section \<open>The delimiter\<close>

type_synonym matcher = "byte list \<Rightarrow> int \<times> nat \<times> nat"

datatype split_type = Char_every | Char_class "byte list" | Char_regex matcher | Char_array "byte list"

text \<open>
  The answers from outside: whether the list, the tokens and the copy of the delimiter are
  allocated, whether the tokens can be extended to a number, and the regular expressions. A match
  is what \<open>pcre_exec\<close> returns with the first two of its offsets.
\<close>

record tok_env =
  got_list :: bool
  got_toks :: bool
  got_dup :: bool
  got_more :: "nat \<Rightarrow> bool"
  pcre_compile :: "byte list \<Rightarrow> matcher option"

text \<open>\<open>if (*(d+tlen-1) == c) { *(d+tlen-1) = 0; --tlen; }\<close> where \<open>d\<close> is the second byte of the copy.\<close>

definition cut_last :: "byte \<Rightarrow> block \<times> nat \<Rightarrow> bool \<times> block \<times> nat" where
  "cut_last c bt = (case bt of (buf, tlen) \<Rightarrow>
     if buf ! tlen = c then (True, buf[tlen := 0], tlen - 1) else (False, buf, tlen))"

definition parse_delim :: "tok_env \<Rightarrow> byte list \<Rightarrow> (split_type \<times> bool) option" where
  "parse_delim e delim =
     (let buf = delim @ [0]; tlen = length delim in
      if buf ! 0 = 0 then Some (Char_every, False)
      else if buf ! 0 = 0x5b then
        (let (pl, bt) = cut_last 0x2b (buf, tlen - 1); (_, bt2) = cut_last 0x5d bt in
         Some (Char_class (c_string (fst bt2) 1), pl))
      else if buf ! 0 = 0x2f then
        (let (_, bt) = cut_last 0x2f (buf, tlen - 1) in
         map_option (\<lambda>re. (Char_regex re, False)) (pcre_compile e (c_string (fst bt) 1)))
      else Some (Char_array delim, False))"

section \<open>The loop\<close>

text \<open>
  The length of the next token and the step to what follows it; \<open>None\<close> when the loop is left.
\<close>

definition tok_step :: "split_type \<Rightarrow> block \<Rightarrow> nat \<Rightarrow> nat \<Rightarrow> (nat \<times> nat) option res" where
  "tok_step sp m p slen = (case sp of
     Char_every \<Rightarrow> Ok (Some (1, 1))
   | Char_class d \<Rightarrow>
       res_bind (read_string m p) (\<lambda>s. let l = c_strcspn s d in
       res_bind (read_byte m (p + l)) (\<lambda>c. Ok (Some (l, if c \<noteq> 0 then l + 1 else l))))
   | Char_regex re \<Rightarrow>
       res_bind (blk_read m p slen) (\<lambda>s. case re s of (rc, o0, o1) \<Rightarrow> Ok (if rc \<le> 0 then None else Some (o0, o1)))
   | Char_array d \<Rightarrow>
       res_bind (read_string m p) (\<lambda>s. case c_strstr s d of
         Some l \<Rightarrow> res_bind (read_byte m (p + l)) (\<lambda>c. Ok (Some (l, if c \<noteq> 0 then l + 1 else l)))
       | None \<Rightarrow> Ok (Some (slen, slen))))"

fun tok_loop :: "nat \<Rightarrow> tok_env \<Rightarrow> split_type \<Rightarrow> bool \<Rightarrow> nat \<Rightarrow> block \<Rightarrow> nat \<Rightarrow> nat \<Rightarrow> nat \<Rightarrow> token list \<Rightarrow> token list res" where
  "tok_loop 0 e sp eat n m ntok p slen ts = Fault Diverges"
| "tok_loop (Suc fuel) e sp eat n m ntok p slen ts =
     (if length ts \<ge> ntok \<and> \<not> got_more e (ntok + 8) then Ok ts
      else
        (let ntok' = (if length ts \<ge> ntok then ntok + 8 else ntok) in
         res_bind (tok_step sp m p slen) (\<lambda>r. case r of None \<Rightarrow> Ok ts
           | Some (l, st) \<Rightarrow>
               (let ts' = (if l = 0 \<and> eat then ts else ts @ [\<lparr>tok_ptr = p, tok_len = l\<rparr>]) in
                if n \<noteq> 0 \<and> length ts' \<ge> n then Ok ts'
                else res_bind (read_byte m (p + st)) (\<lambda>c.
                  if c = 0 then Ok ts' else tok_loop fuel e sp eat n m ntok' (p + st) (slen - st) ts')))))"

definition str_tokens :: "nat \<Rightarrow> tok_env \<Rightarrow> byte list option \<Rightarrow> string_t option \<Rightarrow> nat \<Rightarrow> flist option res" where
  "str_tokens fuel e delim str n =
     (case flist_new (got_list e) None 0 of None \<Rightarrow> Ok None
      | Some tlist \<Rightarrow>
          (case (str, delim) of (Some s, Some d) \<Rightarrow>
             if str_len s = 0 then Ok (Some tlist)
             else if \<not> got_toks e then Ok (Some tlist)
             else if \<not> got_dup e then Ok (Some (tlist\<lparr>flist_ptr := Some []\<rparr>))
             else
               (case parse_delim e d of None \<Rightarrow> Ok (Some (tlist\<lparr>flist_ptr := Some []\<rparr>))
                | Some (sp, eat) \<Rightarrow>
                    (case str_ptr s of None \<Rightarrow> Fault NullDeref
                     | Some m \<Rightarrow>
                         res_bind (tok_loop fuel e sp eat n m (if n = 0 then 32 else n) 0 (str_len s) [])
                           (\<lambda>ts. Ok (Some (tlist\<lparr>flist_ptr := Some ts\<rparr>)))))
           | _ \<Rightarrow> Ok (Some tlist)))"

section \<open>Files and replacement\<close>

text \<open>
  \<open>st_size\<close> is what \<open>stat\<close> reports, \<open>opened\<close> whether \<open>open\<close> succeeds, and \<open>rd\<close> what \<open>read\<close> returns: -1, or the bytes.
\<close>

definition file_get_contents :: "bool \<Rightarrow> bool \<Rightarrow> nat \<Rightarrow> bool \<Rightarrow> byte list option \<Rightarrow> string_t option res" where
  "file_get_contents got_buf got_str st_size opened rd =
     (let n = (if opened then (case rd of None \<Rightarrow> -1 | Some bs \<Rightarrow> int (length bs)) else 0);
          bs = (if opened then (case rd of None \<Rightarrow> [] | Some bs \<Rightarrow> bs) else []);
          buf = bs @ replicate (st_size + 1 - length bs) 0 in
      if \<not> got_buf then Fault NullDeref
      else if n < 0 then Fault OutOfBounds
      else res_bind (blk_write buf (nat n) [0]) (\<lambda>buf. string_new got_str (Some buf) (nat n)))"

text \<open>The file is not truncated: what was behind the bytes written stays.\<close>

definition file_put_contents :: "bool \<Rightarrow> nat \<Rightarrow> byte list \<Rightarrow> string_t option \<Rightarrow> byte list res" where
  "file_put_contents opened wrote old str =
     (if \<not> opened then Ok old
      else case str of None \<Rightarrow> Fault NullDeref
      | Some s \<Rightarrow> (case str_ptr s of None \<Rightarrow> Ok old
          | Some m \<Rightarrow> res_bind (blk_read m 0 (str_len s)) (\<lambda>bs. Ok (take wrote bs @ drop (length (take wrote bs)) old))))"

definition tok_text :: "block \<Rightarrow> token \<Rightarrow> byte list res" where
  "tok_text m t = blk_read m (tok_ptr t) (tok_len t)"

text \<open>The loop that copies the tokens, each followed by the replacement, to \<open>pstr\<close>.\<close>

fun replace_loop :: "block \<Rightarrow> byte list \<Rightarrow> token list \<Rightarrow> block \<Rightarrow> nat \<Rightarrow> (block \<times> nat) res" where
  "replace_loop m r [] out pstr = Ok (out, pstr)"
| "replace_loop m r (t # ts) out pstr =
     res_bind (tok_text m t) (\<lambda>bs.
     res_bind (blk_write out pstr bs) (\<lambda>out1.
     res_bind (blk_write out1 (pstr + tok_len t) r) (\<lambda>out2.
       replace_loop m r ts out2 (pstr + tok_len t + length r))))"

text \<open>
  The number of replacements, the new string, and what was freed. \<open>got_final\<close> and \<open>got_str\<close>: the
  buffer and the result are allocated. A fresh buffer is taken to hold zeros.
\<close>

definition str_replace :: "nat \<Rightarrow> tok_env \<Rightarrow> bool \<Rightarrow> bool \<Rightarrow> byte list \<Rightarrow> byte list \<Rightarrow> string_t \<Rightarrow> (nat \<times> string_t option \<times> tok_object list) res" where
  "str_replace fuel e got_final got_str search replace haystack =
     res_bind (str_tokens fuel e (Some search) (Some haystack) 0) (\<lambda>tlist. case tlist of
       Some l \<Rightarrow>
         (let toks = (case flist_ptr l of None \<Rightarrow> [] | Some ts \<Rightarrow> ts);
              flen = sum_list (map (\<lambda>t. tok_len t + length replace) toks) + 1 in
          if \<not> got_final then res_bind (string_new got_str None flen) (\<lambda>s. Ok (0, s, []))
          else
            res_bind (case str_ptr haystack of None \<Rightarrow> (if toks = [] then Ok (replicate flen 0, 0) else Fault NullDeref)
                      | Some m \<Rightarrow> replace_loop m replace toks (replicate flen 0) 0) (\<lambda>(out, _).
            res_bind (blk_write out (flen - 1) [0]) (\<lambda>out.
            res_bind (string_new got_str (Some out) flen) (\<lambda>s. Ok (length toks, s, flist_free (Some l) True)))))
     | None \<Rightarrow> res_bind (string_new got_str (str_ptr haystack) (str_len haystack)) (\<lambda>s. Ok (0, s, [])))"

section \<open>One step\<close>

text \<open>\<open>str_in m w\<close>: the block holds the string \<open>w\<close>, and perhaps more behind its NUL.\<close>

definition str_in :: "block \<Rightarrow> byte list \<Rightarrow> bool" where
  "str_in m w \<longleftrightarrow> 0 \<notin> set w \<and> (\<exists>r. m = w @ 0 # r)"

lemma str_in_reads:
  assumes "str_in m w" and "p \<le> length w"
  shows "read_string m p = Ok (drop p w)"
    and "l \<le> length w - p \<Longrightarrow> read_byte m (p + l) = Ok (if p + l < length w then w ! (p + l) else 0)"
    and "l \<le> length w - p \<Longrightarrow> blk_read m p l = Ok (take l (drop p w))"
proof -
  obtain r where m: "m = w @ 0 # r" and w: "0 \<notin> set w" using assms(1) by (auto simp: str_in_def)
  have "c \<noteq> 0" if "c \<in> set (drop p w)" for c using w that by (metis in_set_dropD)
  then have "takeWhile (\<lambda>c. c \<noteq> 0) (drop p w @ 0 # r) = drop p w" by (subst takeWhile_append2) auto
  then show "read_string m p = Ok (drop p w)" using assms(2) by (simp add: read_string_def c_string_def m)
  show "l \<le> length w - p \<Longrightarrow> read_byte m (p + l) = Ok (if p + l < length w then w ! (p + l) else 0)"
    using assms(2) by (auto simp: read_byte_def m nth_append)
  show "l \<le> length w - p \<Longrightarrow> blk_read m p l = Ok (take l (drop p w))"
    using assms(2) by (auto simp: blk_read_def m)
qed

text \<open>The step on the rest \<open>u\<close> of the string.\<close>

definition over :: "nat \<Rightarrow> byte list \<Rightarrow> nat \<times> nat" where
  "over l u = (l, if l < length u then l + 1 else l)"

fun pure_step :: "split_type \<Rightarrow> byte list \<Rightarrow> (nat \<times> nat) option" where
  "pure_step Char_every u = Some (1, 1)"
| "pure_step (Char_class d) u = Some (over (c_strcspn u d) u)"
| "pure_step (Char_regex re) u = (case re u of (rc, o0, o1) \<Rightarrow> if rc \<le> 0 then None else Some (o0, o1))"
| "pure_step (Char_array d) u = (case c_strstr u d of Some l \<Rightarrow> Some (over l u) | None \<Rightarrow> Some (length u, length u))"

text \<open>The documented contract of \<open>pcre_exec\<close>: a match lies in the subject.\<close>

definition matches_inside :: "matcher \<Rightarrow> bool" where
  "matches_inside re \<longleftrightarrow> (\<forall>s rc o0 o1. re s = (rc, o0, o1) \<longrightarrow> 0 < rc \<longrightarrow> o0 \<le> o1 \<and> o1 \<le> length s)"

fun split_ok :: "split_type \<Rightarrow> bool" where
  "split_ok (Char_regex re) \<longleftrightarrow> matches_inside re"
| "split_ok _ \<longleftrightarrow> True"

fun no_regex :: "split_type \<Rightarrow> bool" where
  "no_regex (Char_regex re) \<longleftrightarrow> False"
| "no_regex _ \<longleftrightarrow> True"

lemma str_in_nth: "str_in m w \<Longrightarrow> i < length w \<Longrightarrow> w ! i \<noteq> 0"
  unfolding str_in_def by (metis nth_mem)

lemma c_strcspn_le: "c_strcspn u d \<le> length u"
  by (simp add: c_strcspn_def length_takeWhile_le)

lemma c_strstr_le: "c_strstr u d = Some l \<Longrightarrow> l \<le> length u"
  by (auto simp: c_strstr_def find_Some_iff simp del: upt_Suc)

lemma tok_step_pure:
  assumes "str_in m w" and "p \<le> length w"
  shows "tok_step sp m p (length w - p) = Ok (pure_step sp (drop p w))"
proof -
  have over: "res_bind (read_byte m (p + l)) (\<lambda>c. Ok (Some (l, if c \<noteq> 0 then l + 1 else l))) = Ok (Some (over l (drop p w)))"
    if "l \<le> length w - p" for l
    using that assms(2) str_in_nth [OF assms(1), of "p + l"] by (auto simp: str_in_reads(2) [OF assms that] over_def)
  show ?thesis
    using over c_strcspn_le [of "drop p w"] c_strstr_le [of "drop p w"]
    by (cases sp) (auto simp: tok_step_def str_in_reads(1,3) [OF assms] Let_def split: option.split prod.split)
qed

lemma pure_step_bounds:
  assumes "split_ok sp" and "u \<noteq> []" and "pure_step sp u = Some (l, st)"
  shows "l \<le> st" and "st \<le> length u" and "no_regex sp \<Longrightarrow> 0 < st"
proof -
  have "l \<le> st \<and> st \<le> length u \<and> (no_regex sp \<longrightarrow> 0 < st)"
  proof (cases sp)
    case Char_every
    then show ?thesis using assms by (cases u) auto
  next
    case (Char_class d)
    then show ?thesis using assms c_strcspn_le [of u d] by (auto simp: over_def split: if_splits)
  next
    case (Char_regex re)
    then show ?thesis using assms by (cases "re u") (auto simp: matches_inside_def split: if_splits)
  next
    case (Char_array d)
    then show ?thesis using assms c_strstr_le [of u d] by (auto simp: over_def split: option.splits if_splits)
  qed
  then show "l \<le> st" "st \<le> length u" "no_regex sp \<Longrightarrow> 0 < st" by auto
qed

section \<open>Tokens lie in the string\<close>

text \<open>The tokens follow each other and end before \<open>p\<close>.\<close>

definition laid :: "token list \<Rightarrow> nat \<Rightarrow> bool" where
  "laid ts p \<longleftrightarrow> sorted_wrt (\<lambda>a b. tok_ptr a + tok_len a \<le> tok_ptr b) ts \<and> (\<forall>t\<in>set ts. tok_ptr t + tok_len t \<le> p)"

lemma laid_step: "laid ts p \<Longrightarrow> l \<le> st \<Longrightarrow> laid (if P then ts else ts @ [\<lparr>tok_ptr = p, tok_len = l\<rparr>]) (p + st)"
  by (auto simp: laid_def sorted_wrt_append)

lemma laid_mono: "laid ts p \<Longrightarrow> p \<le> q \<Longrightarrow> laid ts q"
  by (fastforce simp: laid_def)

lemma tok_loop_safe:
  assumes "str_in m w" and "split_ok sp" and "p < length w" and "laid ts p"
  shows "tok_loop fuel e sp eat n m ntok p (length w - p) ts = Fault Diverges \<and> \<not> (no_regex sp \<and> length w - p < fuel) \<or>
    (\<exists>ts'. tok_loop fuel e sp eat n m ntok p (length w - p) ts = Ok ts' \<and> laid ts' (length w))"
  using assms(3,4)
proof (induction fuel arbitrary: p ntok ts)
  case 0
  then show ?case by simp
next
  case (Suc fuel)
  note stp = tok_step_pure [OF assms(1), of p sp]
  have mono: "laid ts (length w)" using Suc.prems(1) by (intro laid_mono [OF Suc.prems(2)]) simp
  show ?case
  proof (cases "(ntok \<le> length ts \<and> \<not> got_more e (ntok + 8)) \<or> pure_step sp (drop p w) = None")
    case True
    then show ?thesis using Suc.prems(1) stp mono by (auto simp: Let_def)
  next
    case False
    then obtain l st where ps: "pure_step sp (drop p w) = Some (l, st)" by auto
    have b: "l \<le> st" "p + st \<le> length w" "no_regex sp \<Longrightarrow> 0 < st" using pure_step_bounds [OF assms(2) _ ps] Suc.prems(1) by auto
    have fl: "no_regex sp \<and> length w - p < Suc fuel \<Longrightarrow> p + st < length w \<Longrightarrow> no_regex sp \<and> length w - (p + st) < fuel" using b(3) by auto
    let ?ts = "if l = 0 \<and> eat then ts else ts @ [\<lparr>tok_ptr = p, tok_len = l\<rparr>]"
    have l: "laid ?ts (p + st)" by (rule laid_step [OF Suc.prems(2) b(1)])
    then have l': "laid ?ts (length w)" using b(2) by (rule laid_mono)
    have rb: "read_byte m (p + st) = Ok (if p + st < length w then w ! (p + st) else 0)"
      using b(2) Suc.prems(1) by (intro str_in_reads(2) [OF assms(1)]) auto
    have nz: "p + st < length w \<Longrightarrow> w ! (p + st) \<noteq> 0" by (rule str_in_nth [OF assms(1)])
    have sl: "length w - p - st = length w - (p + st)" by simp
    show ?thesis
      using False Suc.prems(1) stp ps rb nz l' fl Suc.IH [OF _ l, of "if ntok \<le> length ts then ntok + 8 else ntok"]
      by (auto simp: Let_def sl)
  qed
qed

section \<open>What the tokens are\<close>

text \<open>The pieces of a string under steps that make progress.\<close>

function pieces :: "split_type \<Rightarrow> byte list \<Rightarrow> byte list list" where
  "pieces sp u = (case (u, pure_step sp u) of (_ # _, Some (l, Suc st)) \<Rightarrow> take l u # pieces sp (drop (Suc st) u) | _ \<Rightarrow> [])"
  by pat_completeness auto
termination by (relation "measure (\<lambda>(sp, u). length u)") auto

declare pieces.simps [simp del]

lemma pieces_Nil [simp]: "pieces sp [] = []"
  by (simp add: pieces.simps)

lemma pieces_step: "u \<noteq> [] \<Longrightarrow> pure_step sp u = Some (l, st) \<Longrightarrow> 0 < st \<Longrightarrow> pieces sp u = take l u # pieces sp (drop st u)"
  by (subst pieces.simps) (auto split: list.split nat.split)

definition texts :: "block \<Rightarrow> token list \<Rightarrow> byte list list" where
  "texts m ts = map (\<lambda>t. take (tok_len t) (drop (tok_ptr t) m)) ts"

text \<open>Empty pieces are left out for a delimiter with a plus, and at most \<open>n\<close> are taken unless \<open>n\<close> is 0.\<close>

definition chosen :: "bool \<Rightarrow> byte list list \<Rightarrow> byte list list" where
  "chosen eat fs = (if eat then filter (\<lambda>f. f \<noteq> []) fs else fs)"

definition at_most :: "nat \<Rightarrow> 'a list \<Rightarrow> 'a list" where
  "at_most n xs = (if n = 0 then xs else take n xs)"

lemma chosen_Cons: "chosen eat (f # fs) = (if f = [] \<and> eat then [] else [f]) @ chosen eat fs"
  by (auto simp: chosen_def)

lemma tok_loop_pieces:
  assumes "str_in m w" and "no_regex sp" and "\<And>k. got_more e k" and "p < length w" and "length w - p < fuel" and "n = 0 \<or> length ts < n"
  shows "\<exists>ts'. tok_loop fuel e sp eat n m ntok p (length w - p) ts = Ok ts' \<and>
    texts m ts' = at_most n (texts m ts @ chosen eat (pieces sp (drop p w)))"
  using assms(4-6)
proof (induction fuel arbitrary: p ntok ts)
  case 0
  then show ?case by simp
next
  case (Suc fuel)
  have ok: "split_ok sp" using assms(2) by (cases sp) auto
  have "pure_step sp (drop p w) \<noteq> None" using assms(2) by (cases sp) (auto split: option.splits)
  then obtain l st where ps: "pure_step sp (drop p w) = Some (l, st)" by auto
  have b: "l \<le> st" "p + st \<le> length w" "0 < st" using pure_step_bounds [OF ok _ ps] Suc.prems(1) assms(2) by auto
  let ?ts = "if l = 0 \<and> eat then ts else ts @ [\<lparr>tok_ptr = p, tok_len = l\<rparr>]"
  obtain r where m: "m = w @ 0 # r" using assms(1) by (auto simp: str_in_def)
  have tx: "texts m ?ts = texts m ts @ (if l = 0 \<and> eat then [] else [take l (drop p w)])"
    using b Suc.prems(1) by (auto simp: texts_def m)
  have pc: "pieces sp (drop p w) = take l (drop p w) # pieces sp (drop (p + st) w)"
    using pieces_step [OF _ ps b(3)] Suc.prems(1) by (simp add: add.commute)
  have all: "texts m ts @ chosen eat (pieces sp (drop p w)) = texts m ?ts @ chosen eat (pieces sp (drop (p + st) w))"
    using Suc.prems(1) by (auto simp: pc chosen_Cons tx)
  have rb: "read_byte m (p + st) = Ok (if p + st < length w then w ! (p + st) else 0)"
    using b(2) Suc.prems(1) by (intro str_in_reads(2) [OF assms(1)]) auto
  have sl: "length w - p - st = length w - (p + st)" by simp
  have run: "tok_loop (Suc fuel) e sp eat n m ntok p (length w - p) ts =
      (if n \<noteq> 0 \<and> n \<le> length ?ts then Ok ?ts
       else if p + st < length w then tok_loop fuel e sp eat n m (if ntok \<le> length ts then ntok + 8 else ntok) (p + st) (length w - (p + st)) ?ts
       else Ok ?ts)"
    using assms(3) tok_step_pure [OF assms(1), of p sp] ps rb Suc.prems(1) str_in_nth [OF assms(1), of "p + st"]
    by (simp add: Let_def sl)
  have len: "length (texts m ts') = length ts'" for ts' by (simp add: texts_def)
  consider (full) "n \<noteq> 0" "n \<le> length ?ts" | (go) "n = 0 \<or> length ?ts < n" "p + st < length w" | (last) "n = 0 \<or> length ?ts < n" "\<not> p + st < length w"
    by linarith
  then show ?case
  proof cases
    case full
    then have "length ?ts = n" using Suc.prems(3) by (auto split: if_splits)
    then have "texts m ?ts = at_most n (texts m ?ts @ chosen eat (pieces sp (drop (p + st) w)))" using full(1) len [of ?ts] by (simp add: at_most_def)
    then show ?thesis using full by (simp only: run all) auto
  next
    case go
    have "length w - (p + st) < fuel" using Suc.prems(1,2) b(3) by linarith
    from Suc.IH [OF go(2) this go(1)] go show ?thesis by (simp only: run all) auto
  next
    case last
    then have "pieces sp (drop (p + st) w) = []" by simp
    then have "texts m ?ts = at_most n (texts m ?ts @ chosen eat (pieces sp (drop (p + st) w)))"
      using last(1) len [of ?ts] by (auto simp: at_most_def chosen_def)
    then show ?thesis using last by (simp only: run all) auto
  qed
qed

section \<open>Character classes\<close>

text \<open>The fields of a string between characters of a set; nothing follows the last character.\<close>

primrec fields_of :: "byte set \<Rightarrow> byte list \<Rightarrow> byte list list" where
  "fields_of D [] = []"
| "fields_of D (c # w) = (if c \<in> D then [] # fields_of D w else case fields_of D w of [] \<Rightarrow> [[c]] | f # fs \<Rightarrow> (c # f) # fs)"

lemma fields_unfold: "w \<noteq> [] \<Longrightarrow> fields_of D w = takeWhile (\<lambda>c. c \<notin> D) w # fields_of D (drop 1 (dropWhile (\<lambda>c. c \<notin> D) w))"
proof (induction w)
  case (Cons c w)
  then show ?case by (cases w) auto
qed simp

lemma pieces_class: "pieces (Char_class d) u = fields_of (set d) u"
proof (induction u rule: length_induct)
  case (1 u)
  show ?case
  proof (cases "u = []")
    case False
    let ?l = "c_strcspn u d" and ?P = "\<lambda>c. c \<notin> set d"
    have l: "take ?l u = takeWhile ?P u" "drop ?l u = dropWhile ?P u"
      by (simp_all add: c_strcspn_def takeWhile_eq_take [symmetric] dropWhile_eq_drop [symmetric])
    have d: "drop (snd (over ?l u)) u = drop 1 (dropWhile ?P u)"
      using c_strcspn_le [of u d] l(2) drop_drop [of 1 ?l u] by (auto simp: over_def)
    have pos: "0 < snd (over ?l u)" using False by (cases u) (auto simp: over_def)
    have "pure_step (Char_class d) u = Some (?l, snd (over ?l u))" by (simp add: over_def)
    from pieces_step [OF False this pos] have "pieces (Char_class d) u = takeWhile ?P u # pieces (Char_class d) (drop 1 (dropWhile ?P u))"
      using l d by simp
    moreover have "length (drop 1 (dropWhile ?P u)) < length u" using False length_dropWhile_le [of ?P u] by (cases u) auto
    ultimately show ?thesis using 1 fields_unfold [OF False] by simp
  qed simp
qed

text \<open>\<open>[cs]\<close> and \<open>[cs]+\<close>\<close>

definition class_delim :: "byte list \<Rightarrow> bool \<Rightarrow> byte list" where
  "class_delim cs pl = 0x5b # cs @ 0x5d # (if pl then [0x2b] else [])"

lemma c_string_upto: "0 \<notin> set cs \<Longrightarrow> c_string (c # cs @ 0 # r) (Suc 0) = cs"
  by (simp add: c_string_def) (metis (mono_tags, lifting) append_Nil2 takeWhile.simps(2) takeWhile_append2)

lemma parse_class: "0 \<notin> set cs \<Longrightarrow> parse_delim e (class_delim cs pl) = Some (Char_class cs, pl)"
  by (cases pl) (simp_all add: parse_delim_def class_delim_def cut_last_def nth_append list_update_append c_string_upto Let_def)

definition plenty :: "tok_env \<Rightarrow> bool" where
  "plenty e \<longleftrightarrow> got_list e \<and> got_toks e \<and> got_dup e \<and> (\<forall>k. got_more e k)"

lemma str_tokens_pieces:
  assumes "str_in m w" and "w \<noteq> []" and "plenty e" and "parse_delim e d = Some (sp, eat)" and "no_regex sp" and "length w < fuel"
  obtains ts where "str_tokens fuel e (Some d) (Some \<lparr>str_ptr = Some m, str_len = length w\<rparr>) n = Ok (Some \<lparr>flist_ptr = Some ts, flist_func = ''free''\<rparr>)"
    and "texts m ts = at_most n (chosen eat (pieces sp w))" and "\<forall>t\<in>set ts. tok_ptr t + tok_len t \<le> length m"
proof -
  let ?k = "if n = 0 then 32 else n"
  obtain ts where ts: "tok_loop fuel e sp eat n m ?k 0 (length w) [] = Ok ts" "texts m ts = at_most n (chosen eat (pieces sp w))"
    using tok_loop_pieces [OF assms(1,5), of e 0 fuel n "[]" eat ?k] assms(2,3,6) by (auto simp: plenty_def texts_def)
  have "split_ok sp" "0 < length w" "laid [] 0" using assms(2,5) by (cases sp, auto simp: laid_def)
  from tok_loop_safe [OF assms(1) this, of fuel e eat n ?k] ts(1) have "laid ts (length w)" by auto
  then have "\<forall>t\<in>set ts. tok_ptr t + tok_len t \<le> length m" using assms(1) by (fastforce simp: laid_def str_in_def)
  moreover have "str_tokens fuel e (Some d) (Some \<lparr>str_ptr = Some m, str_len = length w\<rparr>) n = Ok (Some \<lparr>flist_ptr = Some ts, flist_func = ''free''\<rparr>)"
    using assms(2-4) ts(1) by (simp add: str_tokens_def plenty_def flist_new_def)
  ultimately show ?thesis using ts(2) that by blast
qed


definition rich :: tok_env where
  "rich = \<lparr>got_list = True, got_toks = True, got_dup = True, got_more = (\<lambda>_. True), pcre_compile = (\<lambda>_. None)\<rparr>"

lemma plenty_rich [simp]: "plenty rich"
  by (simp add: plenty_def rich_def)


section \<open>All delimiters\<close>

text \<open>
  Whatever the delimiter and the allocator, tokenizing a string reads only the string: the
  tokens lie in it, in order and without overlap. It always returns, except that it may
  run forever with a regular expression.
\<close>

theorem str_tokens_safe:
  assumes "str_in m w" and "\<forall>x re. pcre_compile e x = Some re \<longrightarrow> matches_inside re"
  shows "case str_tokens fuel e delim (Some \<lparr>str_ptr = Some m, str_len = length w\<rparr>) n of
      Fault f \<Rightarrow> f = Diverges \<and> (length w < fuel \<longrightarrow> (\<exists>d. delim = Some (0x2f # d)))
    | Ok None \<Rightarrow> \<not> got_list e
    | Ok (Some l) \<Rightarrow> (case flist_ptr l of None \<Rightarrow> True
        | Some ts \<Rightarrow> sorted_wrt (\<lambda>a b. tok_ptr a + tok_len a \<le> tok_ptr b) ts \<and> (\<forall>t\<in>set ts. tok_ptr t + tok_len t \<le> length w))"
proof -
  have *: "split_ok sp \<and> (no_regex sp \<or> (\<exists>d'. d = 0x2f # d'))" if "parse_delim e d = Some (sp, eat)" for d sp eat
    using that assms(2) by (cases d) (auto simp: parse_delim_def cut_last_def Let_def split: if_splits option.splits)
  show ?thesis
  proof (cases "got_list e \<and> w \<noteq> [] \<and> got_toks e \<and> got_dup e \<and> (\<exists>d x. delim = Some d \<and> parse_delim e d = Some x)")
    case False
    then show ?thesis by (cases delim) (auto simp: str_tokens_def flist_new_def split: option.split)
  next
    case True
    then obtain d sp eat where d: "delim = Some d" "parse_delim e d = Some (sp, eat)" by auto
    define r where "r = tok_loop fuel e sp eat n m (if n = 0 then 32 else n) 0 (length w) []"
    have run: "str_tokens fuel e delim (Some \<lparr>str_ptr = Some m, str_len = length w\<rparr>) n =
        res_bind r (\<lambda>ts. Ok (Some \<lparr>flist_ptr = Some ts, flist_func = ''free''\<rparr>))"
      using True d by (simp add: str_tokens_def flist_new_def r_def)
    have "split_ok sp" "0 < length w" "laid [] 0" using * [OF d(2)] True by (auto simp: laid_def)
    from tok_loop_safe [OF assms(1) this, of fuel e eat n "if n = 0 then 32 else n"]
    have "r = Fault Diverges \<and> \<not> (no_regex sp \<and> length w < fuel) \<or> (\<exists>ts'. r = Ok ts' \<and> laid ts' (length w))"
      by (simp only: r_def diff_zero)
    then show ?thesis unfolding run using * [OF d(2)] d(1) by (auto simp: laid_def)
  qed
qed

theorem str_tokens_safe_witness:
  "case str_tokens 3 rich (Some [0x2c]) (Some \<lparr>str_ptr = Some [0x61, 0], str_len = 1\<rparr>) 0 of
      Fault f \<Rightarrow> f = Diverges \<and> (1 < (3 :: nat) \<longrightarrow> (\<exists>d. Some [0x2c] = Some ((0x2f :: byte) # d)))
    | Ok None \<Rightarrow> \<not> got_list rich
    | Ok (Some l) \<Rightarrow> (case flist_ptr l of None \<Rightarrow> True
        | Some ts \<Rightarrow> sorted_wrt (\<lambda>a b. tok_ptr a + tok_len a \<le> tok_ptr b) ts \<and> (\<forall>t\<in>set ts. tok_ptr t + tok_len t \<le> 1))"
proof -
  have "str_in [0x61, 0] [0x61]" "\<forall>x re. pcre_compile rich x = Some re \<longrightarrow> matches_inside re" by (simp_all add: str_in_def rich_def)
  from str_tokens_safe [OF this, of 3 "Some [0x2c]" 0] show ?thesis unfolding list.size add_0 One_nat_def by simp
qed

section \<open>A string as delimiter\<close>

lemma pieces_array:
  assumes "c_strstr (a @ d @ b) d = Some (length a)" and "d \<noteq> []"
  shows "pieces (Char_array d) (a @ d @ b) = a # pieces (Char_array d) (tl d @ b)"
proof -
  have "pure_step (Char_array d) (a @ d @ b) = Some (length a, length a + 1)" using assms by (simp add: over_def)
  from pieces_step [OF _ this] show ?thesis using assms(2) by (cases d) auto
qed

lemma parse_array: "d \<noteq> [] \<Longrightarrow> hd d \<notin> {0, 0x5b, 0x2f} \<Longrightarrow> parse_delim e d = Some (Char_array d, False)"
  by (cases d) (auto simp: parse_delim_def Let_def)

text \<open>
  A delimiter of two characters or more that is neither a class nor an expression is not skipped as
  a whole: after a token only the first character of the delimiter is dropped, and the tokens
  after it are those of a string that begins with the rest of the delimiter.
\<close>

theorem str_tokens_array_rest:
  assumes "2 \<le> length d" and "hd d \<notin> {0, 0x5b, 0x2f}" and "c_strstr (a @ d @ b) d = Some (length a)" and "plenty e"
    and "str_in m (a @ d @ b)" and "str_in m' (tl d @ b)" and "length (a @ d @ b) < fuel"
  shows "\<exists>ts ts'. str_tokens fuel e (Some d) (Some \<lparr>str_ptr = Some m, str_len = length (a @ d @ b)\<rparr>) 0 =
        Ok (Some \<lparr>flist_ptr = Some ts, flist_func = ''free''\<rparr>) \<and>
      str_tokens fuel e (Some d) (Some \<lparr>str_ptr = Some m', str_len = length (tl d @ b)\<rparr>) 0 =
        Ok (Some \<lparr>flist_ptr = Some ts', flist_func = ''free''\<rparr>) \<and>
      texts m ts = a # texts m' ts'"
proof -
  have d: "d \<noteq> []" "tl d \<noteq> []" using assms(1) by (auto simp: Suc_le_length_iff numeral_2_eq_2)
  note pd = parse_array [OF d(1) assms(2)]
  obtain ts where 1: "str_tokens fuel e (Some d) (Some \<lparr>str_ptr = Some m, str_len = length (a @ d @ b)\<rparr>) 0 =
        Ok (Some \<lparr>flist_ptr = Some ts, flist_func = ''free''\<rparr>)" "texts m ts = pieces (Char_array d) (a @ d @ b)"
    by (rule str_tokens_pieces [OF assms(5) _ assms(4) pd _ assms(7), of 0]) (use d in \<open>auto simp: at_most_def chosen_def\<close>)
  obtain ts' where 2: "str_tokens fuel e (Some d) (Some \<lparr>str_ptr = Some m', str_len = length (tl d @ b)\<rparr>) 0 =
        Ok (Some \<lparr>flist_ptr = Some ts', flist_func = ''free''\<rparr>)" "texts m' ts' = pieces (Char_array d) (tl d @ b)"
    by (rule str_tokens_pieces [OF assms(6) _ assms(4) pd, of fuel 0]) (use d assms(7) in \<open>auto simp: at_most_def chosen_def\<close>)
  show ?thesis using 1 2 pieces_array [OF assms(3) d(1)] by auto
qed

text \<open>Lines that end in CR LF: the second line starts with the LF.\<close>

theorem str_tokens_array_rest_witness:
  "\<exists>ts. str_tokens 9 rich (Some [0x0d, 0x0a]) (Some \<lparr>str_ptr = Some [0x61, 0x0d, 0x0a, 0x62, 0], str_len = length [0x61, 0x0d, 0x0a, 0x62 :: byte]\<rparr>) 0 =
      Ok (Some \<lparr>flist_ptr = Some ts, flist_func = ''free''\<rparr>) \<and> texts [0x61, 0x0d, 0x0a, 0x62, 0] ts = [[0x61], [0x0a, 0x62]]"
proof -
  let ?d = "[0x0d, 0x0a] :: byte list"
  have first: "c_strstr ([0x61] @ ?d @ [0x62]) ?d = Some (length [0x61 :: byte])"
    by (simp add: c_strstr_def upt_rec)
  have "c_strstr [0x0a, 0x62] ?d = None" by (simp add: c_strstr_def upt_rec)
  then have p: "pieces (Char_array ?d) [0x0a, 0x62] = [[0x0a, 0x62]]" by (simp add: pieces.simps)
  have m: "str_in [0x61, 0x0d, 0x0a, 0x62, 0] ([0x61] @ ?d @ [0x62])" "str_in [0x0a, 0x62, 0] (tl ?d @ [0x62])" by (simp_all add: str_in_def)
  have "\<exists>ts. str_tokens 9 rich (Some ?d) (Some \<lparr>str_ptr = Some [0x0a, 0x62, 0], str_len = length (tl ?d @ [0x62])\<rparr>) 0 =
      Ok (Some \<lparr>flist_ptr = Some ts, flist_func = ''free''\<rparr>) \<and> texts [0x0a, 0x62, 0] ts = [[0x0a, 0x62]]"
    by (rule str_tokens_pieces [OF m(2) _ plenty_rich parse_array, of ?d 9 0]) (use p in \<open>auto simp: at_most_def chosen_def\<close>)
  with str_tokens_array_rest [OF _ _ first plenty_rich m, of 9] show ?thesis by auto
qed

section \<open>Replacing\<close>

lemma texts_length: "\<forall>t\<in>set ts. tok_ptr t + tok_len t \<le> length m \<Longrightarrow>
    length (concat (map (\<lambda>f. f @ r) (texts m ts))) = sum_list (map (\<lambda>t. tok_len t + length r) ts)"
  by (induction ts) (auto simp: texts_def)

lemma replace_loop_ok:
  assumes "\<forall>t\<in>set ts. tok_ptr t + tok_len t \<le> length m" and "p + sum_list (map (\<lambda>t. tok_len t + length r) ts) \<le> length out"
  shows "replace_loop m r ts out p = Ok (put_at out p (concat (map (\<lambda>f. f @ r) (texts m ts))), p + sum_list (map (\<lambda>t. tok_len t + length r) ts))"
  using assms
proof (induction ts arbitrary: out p)
  case Nil
  then show ?case by (simp add: texts_def put_at_def)
next
  case (Cons t ts)
  let ?f = "take (tok_len t) (drop (tok_ptr t) m)"
  have f: "tok_text m t = Ok ?f" "length ?f = tok_len t" using Cons.prems(1) by (auto simp: tok_text_def blk_read_def)
  let ?o1 = "put_at out p ?f" let ?o2 = "put_at ?o1 (p + tok_len t) r"
  have l: "length ?o1 = length out" "length ?o2 = length out" using Cons.prems(2) f(2) by (auto simp: put_at_def)
  have w: "blk_write out p ?f = Ok ?o1" "blk_write ?o1 (p + tok_len t) r = Ok ?o2" using Cons.prems(2) f(2) l(1) by auto
  have "put_at ?o2 (p + tok_len t + length r) xs = put_at out p (?f @ r @ xs)"
    if "p + tok_len t + length r + length xs \<le> length out" for xs
    using that f(2) by (simp add: put_at_def ac_simps)
  moreover have "length (concat (map (\<lambda>f. f @ r) (texts m ts))) = sum_list (map (\<lambda>t. tok_len t + length r) ts)"
    using Cons.prems(1) by (intro texts_length) simp
  ultimately show ?case using Cons.IH [of "p + tok_len t + length r" ?o2] Cons.prems f w l by (simp add: texts_def)
qed

text \<open>What replacing every character of the class by \<open>r\<close> should give.\<close>

definition replaced :: "byte set \<Rightarrow> byte list \<Rightarrow> byte list \<Rightarrow> byte list" where
  "replaced D r w = concat (map (\<lambda>c. if c \<in> D then r else [c]) w)"

lemma fields_replaced: "w \<noteq> [] \<Longrightarrow> concat (map (\<lambda>f. f @ r) (fields_of D w)) = replaced D r w @ (if last w \<in> D then [] else r)"
proof (induction w)
  case (Cons c w)
  show ?case
  proof (cases "w = []")
    case True
    then show ?thesis by (simp add: replaced_def)
  next
    case False
    then obtain f fs where f: "fields_of D w = f # fs" by (cases "fields_of D w") (auto simp: fields_unfold)
    have "concat (map (\<lambda>f. f @ r) (fields_of D (c # w))) = (if c \<in> D then r else [c]) @ concat (map (\<lambda>f. f @ r) (fields_of D w))"
      by (simp add: f)
    also have "\<dots> = replaced D r (c # w) @ (if last (c # w) \<in> D then [] else r)"
      using Cons.IH [OF False] False by (simp add: replaced_def)
    finally show ?thesis .
  qed
qed simp



end
