(* ===== verification/Lookupa.thy ===== *)
theory Lookupa
  imports Bytes
begin

text \<open>
  \<open>src/lib/perfect/lookupa.c\<close>: the hash functions of the perfect-hash generator. \<open>lookup\<close> hashes a key to 32
  bits, \<open>checksum\<close> to 256. A key is a block of bytes and a length; a read outside is a fault.
\<close>

unbundle bit_operations_syntax

section \<open>Mixing three words\<close>

type_synonym word3 = "u32 \<times> u32 \<times> u32"

text \<open>The three kinds of lines of the macro, with the shift they use: \<open>a -= b; a -= c; a ^= (c>>13);\<close> and so on.\<close>

fun mix_a :: "(u32 \<Rightarrow> u32) \<Rightarrow> word3 \<Rightarrow> word3" where
  "mix_a sh (a, b, c) = ((a - b - c) XOR sh c, b, c)"

fun mix_b :: "(u32 \<Rightarrow> u32) \<Rightarrow> word3 \<Rightarrow> word3" where
  "mix_b sh (a, b, c) = (a, (b - c - a) XOR sh a, c)"

fun mix_c :: "(u32 \<Rightarrow> u32) \<Rightarrow> word3 \<Rightarrow> word3" where
  "mix_c sh (a, b, c) = (a, b, (c - a - b) XOR sh b)"

definition mix :: "word3 \<Rightarrow> word3" where
  "mix w =
     (let w = mix_a (drop_bit 13) w; w = mix_b (push_bit 8) w; w = mix_c (drop_bit 13) w;
          w = mix_a (drop_bit 12) w; w = mix_b (push_bit 16) w; w = mix_c (drop_bit 5) w;
          w = mix_a (drop_bit 3) w; w = mix_b (push_bit 10) w
      in mix_c (drop_bit 15) w)"

text \<open>The lines undone, and \<open>mix\<close> undone line by line, the last line first.\<close>

fun unmix_a :: "(u32 \<Rightarrow> u32) \<Rightarrow> word3 \<Rightarrow> word3" where
  "unmix_a sh (a, b, c) = ((a XOR sh c) + c + b, b, c)"

fun unmix_b :: "(u32 \<Rightarrow> u32) \<Rightarrow> word3 \<Rightarrow> word3" where
  "unmix_b sh (a, b, c) = (a, (b XOR sh a) + a + c, c)"

fun unmix_c :: "(u32 \<Rightarrow> u32) \<Rightarrow> word3 \<Rightarrow> word3" where
  "unmix_c sh (a, b, c) = (a, b, (c XOR sh b) + b + a)"

definition unmix :: "word3 \<Rightarrow> word3" where
  "unmix w =
     (let w = unmix_c (drop_bit 15) w; w = unmix_b (push_bit 10) w; w = unmix_a (drop_bit 3) w;
          w = unmix_c (drop_bit 5) w; w = unmix_b (push_bit 16) w; w = unmix_a (drop_bit 12) w;
          w = unmix_c (drop_bit 13) w; w = unmix_b (push_bit 8) w
      in unmix_a (drop_bit 13) w)"

section \<open>The 32-bit hash\<close>

definition byte_at :: "block \<Rightarrow> nat \<Rightarrow> u32 res" where
  "byte_at m p = (if p < length m then Ok (ucast (m ! p)) else Fault OutOfBounds)"

text \<open>\<open>k[0] + (k[1]<<8) + (k[2]<<16) + (k[3]<<24)\<close>, of which the last \<open>n\<close> bytes may be missing.\<close>

primrec sum_bytes :: "block \<Rightarrow> nat \<Rightarrow> nat \<Rightarrow> u32 res" where
  "sum_bytes m p 0 = Ok 0"
| "sum_bytes m p (Suc n) =
     res_bind (sum_bytes m p n) (\<lambda>s. res_bind (byte_at m (p + n)) (\<lambda>b. Ok (s + push_bit (8 * n) b)))"

definition add_block :: "block \<Rightarrow> nat \<Rightarrow> word3 \<Rightarrow> word3 res" where
  "add_block m p w = (case w of (a, b, c) \<Rightarrow>
     res_bind (sum_bytes m p 4) (\<lambda>x. res_bind (sum_bytes m (p + 4) 4) (\<lambda>y. res_bind (sum_bytes m (p + 8) 4) (\<lambda>z.
       Ok (a + x, b + y, c + z)))))"

function lookup_loop :: "block \<Rightarrow> nat \<Rightarrow> nat \<Rightarrow> word3 \<Rightarrow> (nat \<times> nat \<times> word3) res" where
  "lookup_loop m p len w =
     (if len \<ge> 12 then res_bind (add_block m p w) (\<lambda>w. lookup_loop m (p + 12) (len - 12) (mix w))
      else Ok (p, len, w))"
  by pat_completeness auto
termination by (relation "measure (\<lambda>(m, p, len, w). len)") auto

declare lookup_loop.simps [simp del]

text \<open>
  The switch on the bytes that are left; all cases fall through. The first byte of \<open>c\<close> is reserved for
  the length.
\<close>

definition add_rest :: "block \<Rightarrow> nat \<Rightarrow> nat \<Rightarrow> word3 \<Rightarrow> word3 res" where
  "add_rest m p len w = (case w of (a, b, c) \<Rightarrow>
     res_bind (sum_bytes m p (min len 4)) (\<lambda>x.
     res_bind (sum_bytes m (p + 4) (min (len - 4) 4)) (\<lambda>y.
     res_bind (sum_bytes m (p + 8) (len - 8)) (\<lambda>z.
       Ok (a + x, b + y, c + push_bit 8 z)))))"

definition lookup :: "block \<Rightarrow> nat \<Rightarrow> u32 \<Rightarrow> u32 res" where
  "lookup k klen level =
     res_bind (lookup_loop k 0 klen (0x9e3779b9, 0x9e3779b9, level)) (\<lambda>(p, len, a, b, c).
     res_bind (add_rest k p len (a, b, c + word_of_nat klen)) (\<lambda>w.
       Ok (snd (snd (mix w)))))"

section \<open>The 256-bit checksum\<close>

type_synonym word8 = "u32 list"

text \<open>One of the eight lines of \<open>mixc\<close>, on the words in the order in which the line names them first.\<close>

definition mixc_line :: "(u32 \<Rightarrow> u32) \<Rightarrow> nat \<Rightarrow> word8 \<Rightarrow> word8" where
  "mixc_line sh i s =
     (let a = i; b = (i + 1) mod 8; c = (i + 2) mod 8; d = (i + 3) mod 8;
          s = s[a := s ! a XOR sh (s ! b)];
          s = s[d := s ! d + s ! a]
      in s[b := s ! b + s ! c])"

definition mixc :: "word8 \<Rightarrow> word8" where
  "mixc s =
     (let s = mixc_line (push_bit 11) 0 s; s = mixc_line (drop_bit 2) 1 s;
          s = mixc_line (push_bit 8) 2 s; s = mixc_line (drop_bit 16) 3 s;
          s = mixc_line (push_bit 10) 4 s; s = mixc_line (drop_bit 4) 5 s;
          s = mixc_line (push_bit 8) 6 s
      in mixc_line (drop_bit 9) 7 s)"

definition mixc4 :: "word8 \<Rightarrow> word8" where
  "mixc4 s = mixc (mixc (mixc (mixc s)))"

text \<open>Each word of the state gets four bytes of the key, as far as there are any.\<close>

primrec add_words :: "nat \<Rightarrow> block \<Rightarrow> nat \<Rightarrow> nat \<Rightarrow> word8 \<Rightarrow> word8 res" where
  "add_words 0 m p len s = Ok s"
| "add_words (Suc j) m p len s =
     res_bind (add_words j m p len s) (\<lambda>s.
     res_bind (sum_bytes m (p + 4 * j) (min (len - 4 * j) 4)) (\<lambda>x. Ok (s[j := s ! j + x])))"

text \<open>The last word holds the length in its first byte: its bytes are shifted by one more.\<close>

definition add_tail :: "block \<Rightarrow> nat \<Rightarrow> nat \<Rightarrow> word8 \<Rightarrow> word8 res" where
  "add_tail m p len s =
     res_bind (add_words 7 m p len s) (\<lambda>s.
     res_bind (sum_bytes m (p + 28) (len - 28)) (\<lambda>x. Ok (s[7 := s ! 7 + push_bit 8 x])))"

function checksum_loop :: "block \<Rightarrow> nat \<Rightarrow> nat \<Rightarrow> word8 \<Rightarrow> (nat \<times> nat \<times> word8) res" where
  "checksum_loop m p len s =
     (if len \<ge> 32 then res_bind (add_words 8 m p 32 s) (\<lambda>s. checksum_loop m (p + 32) (len - 32) (mixc4 s))
      else Ok (p, len, s))"
  by pat_completeness auto
termination by (relation "measure (\<lambda>(m, p, len, s). len)") auto

declare checksum_loop.simps [simp del]

definition checksum :: "block \<Rightarrow> nat \<Rightarrow> word8 \<Rightarrow> word8 res" where
  "checksum k klen state =
     res_bind (checksum_loop k 0 klen state) (\<lambda>(p, len, s).
     res_bind (add_tail k p len (s[7 := s ! 7 + word_of_nat klen])) (\<lambda>s. Ok (mixc4 s)))"

section \<open>Mixing loses nothing\<close>

lemma unmix_lines [simp]:
  "unmix_a sh (mix_a sh w) = w" "unmix_b sh (mix_b sh w) = w" "unmix_c sh (mix_c sh w) = w"
  "mix_a sh (unmix_a sh w) = w" "mix_b sh (unmix_b sh w) = w" "mix_c sh (unmix_c sh w) = w"
  by (cases w; simp add: xor.assoc)+

text \<open>
  \<open>mix\<close> is reversible, as its comment says: every state of three words comes from exactly one state,
  which \<open>unmix\<close> computes.
\<close>

theorem mix_reversible: "unmix (mix w) = w \<and> mix (unmix w) = w"
  by (simp add: mix_def unmix_def Let_def)

section \<open>Keys are read inside\<close>

lemma sum_bytes_ok: "n = 0 \<or> p + n \<le> length m \<Longrightarrow> is_ok (sum_bytes m p n)"
  by (induction n) (auto simp: byte_at_def is_ok_iff)

lemma add_block_ok: "p + 12 \<le> length m \<Longrightarrow> is_ok (add_block m p w)"
  using sum_bytes_ok [of 4 p m] sum_bytes_ok [of 4 "p + 4" m] sum_bytes_ok [of 4 "p + 8" m]
  by (auto simp: add_block_def is_ok_iff split: prod.split)

lemma lookup_loop_ok: "p + len \<le> length m \<Longrightarrow> \<exists>p' l' w'. lookup_loop m p len w = Ok (p', l', w') \<and> p' + l' \<le> length m"
proof (induction m p len w rule: lookup_loop.induct)
  case (1 m p len w)
  show ?case
  proof (cases "12 \<le> len")
    case True
    then obtain w' where w': "add_block m p w = Ok w'" using add_block_ok [of p m w] 1(2) by (auto simp: is_ok_iff)
    from 1(1) [OF True w'] 1(2) True show ?thesis by (subst lookup_loop.simps) (simp add: w')
  next
    case False
    then show ?thesis using 1(2) by (subst lookup_loop.simps) (cases w, simp)
  qed
qed

lemma lookup_ok:
  assumes "n \<le> length k"
  shows "is_ok (lookup k n level)"
proof -
  obtain p l a b c where l: "lookup_loop k 0 n (0x9e3779b9, 0x9e3779b9, level) = Ok (p, l, a, b, c)" "p + l \<le> length k"
    using lookup_loop_ok [of 0 n k "(0x9e3779b9, 0x9e3779b9, level)"] assms by auto
  have "is_ok (sum_bytes k p (min l 4))" "is_ok (sum_bytes k (p + 4) (min (l - 4) 4))" "is_ok (sum_bytes k (p + 8) (l - 8))"
    using l(2) by (auto intro!: sum_bytes_ok)
  then have "is_ok (add_rest k p l (a, b, c + word_of_nat n))" by (auto simp: add_rest_def is_ok_iff)
  then show ?thesis using l(1) by (auto simp: lookup_def is_ok_iff)
qed

lemma add_words_ok: "p + len \<le> length m \<Longrightarrow> is_ok (add_words j m p len s)"
proof (induction j arbitrary: s)
  case (Suc j)
  have "is_ok (sum_bytes m (p + 4 * j) (min (len - 4 * j) 4))" using Suc.prems by (intro sum_bytes_ok) auto
  then show ?case using Suc by (auto intro!: is_ok_bind)
qed (simp add: is_ok_iff)

lemma checksum_loop_ok: "p + len \<le> length m \<Longrightarrow> \<exists>p' l' s'. checksum_loop m p len s = Ok (p', l', s') \<and> p' + l' \<le> length m"
proof (induction m p len s rule: checksum_loop.induct)
  case (1 m p len s)
  show ?case
  proof (cases "32 \<le> len")
    case True
    then obtain s' where s': "add_words 8 m p 32 s = Ok s'" using add_words_ok [of p 32 m 8 s] 1(2) by (auto simp: is_ok_iff)
    from 1(1) [OF True s'] 1(2) True show ?thesis by (subst checksum_loop.simps) (simp add: s')
  next
    case False
    then show ?thesis using 1(2) by (subst checksum_loop.simps) simp
  qed
qed

lemma checksum_ok:
  assumes "n \<le> length k"
  shows "is_ok (checksum k n s)"
proof -
  obtain p l s' where l: "checksum_loop k 0 n s = Ok (p, l, s')" "p + l \<le> length k"
    using checksum_loop_ok [of 0 n k s] assms by auto
  obtain t where t: "add_words 7 k p l (s'[7 := s' ! 7 + word_of_nat n]) = Ok t"
    using add_words_ok [OF l(2)] by (auto simp: is_ok_iff)
  have "is_ok (sum_bytes k (p + 28) (l - 28))" using l(2) by (intro sum_bytes_ok) auto
  then obtain x where "sum_bytes k (p + 28) (l - 28) = Ok x" by (auto simp: is_ok_iff)
  then show ?thesis using l(1) t by (simp add: checksum_def add_tail_def)
qed

end
