(* ===== verification/Perfect.thy ===== *)
theory Perfect
  imports Lookupa
begin

text \<open>
  \<open>src/lib/perfect/perfect.c\<close>: the generator of perfect hash functions. Keys are hashed to pairs \<open>(a, b)\<close>; then
  a table \<open>tab\<close> is searched for which \<open>a ^ scramble[tab[b]]\<close> is different for all keys. A key is an index into the
  list of keys, a \<open>bstuff\<close> an index into \<open>tabb\<close>, and a chain of keys through \<open>nextb_k\<close> the list of its keys. The
  text of the generated code is not modelled, and the hashing of integer keys in \<open>perfhex.c\<close> is an
  argument. \<open>exit\<close> is a fault.
\<close>

unbundle bit_operations_syntax

section \<open>Data\<close>

datatype hash_mode = NORMAL_HM | INLINE_HM | HEX_HM | DECIMAL_HM | AB_HM | ABDEC_HM
datatype hash_type = STRING_HT | INT_HT | AB_HT
datatype hash_perfect = NORMAL_HP | MINIMAL_HP
datatype hash_speed = FAST_HS | SLOW_HS

record hashform =
  mode :: hash_mode
  hashtype :: hash_type
  hperfect :: hash_perfect
  speed :: hash_speed

record pkey =
  name_k :: block
  len_k :: u32
  hash_k :: u32
  a_k :: u32
  b_k :: u32

record bstuff =
  val_b :: u16
  list_b :: "nat list"
  listlen_b :: nat
  water_b :: nat

record qstuff =
  b_q :: "nat option"
  parent_q :: nat
  newval_q :: u16
  oldval_q :: u16

record psearch =
  tabb :: "bstuff list"
  tabh :: "nat option list"
  tabq :: "qstuff list"

definition USE_SCRAMBLE :: nat where "USE_SCRAMBLE = 4096"
definition SCRAMBLE_LEN :: nat where "SCRAMBLE_LEN = 65536"
definition RETRY_INITKEY :: nat where "RETRY_INITKEY = 2048"
definition RETRY_PERFECT :: nat where "RETRY_PERFECT = 1"
definition RETRY_HEX :: nat where "RETRY_HEX = 200"

section \<open>Logarithm and permutation\<close>

text \<open>A shift by 32 is undefined; on the machines at hand it is a shift by 0 and the loop goes on.\<close>

function mylog2_loop :: "nat \<Rightarrow> u32 \<Rightarrow> nat res" where
  "mylog2_loop i v = (if 32 \<le> i then Fault Diverges else if push_bit i 1 < v then mylog2_loop (Suc i) v else Ok i)"
  by pat_completeness auto
termination by (relation "measure (\<lambda>(i, v). 32 - i)") auto

declare mylog2_loop.simps [simp del]

definition mylog2 :: "u32 \<Rightarrow> nat res" where
  "mylog2 v = mylog2_loop 0 v"

definition permute_round :: "nat \<Rightarrow> u32 \<Rightarrow> u32" where
  "permute_round nbits x =
     (let m = push_bit nbits 1 - 1;
          x = (x + push_bit (1 + nbits div 2) x) AND m;
          x = x XOR drop_bit (1 + nbits div 3) x;
          x = (x + push_bit (1 + nbits div 4) x) AND m
      in x XOR drop_bit (1 + nbits div 5) x)"

definition permute :: "u32 \<Rightarrow> nat \<Rightarrow> u32" where
  "permute x nbits = (permute_round nbits ^^ 20) x"

definition scrambleinit :: "u32 \<Rightarrow> u32 list res" where
  "scrambleinit smax = res_bind (mylog2 smax) (\<lambda>n. Ok (map (\<lambda>i. permute (word_of_nat i) n) [0..<SCRAMBLE_LEN]))"

section \<open>The initial hash\<close>

definition checkdup :: "pkey \<Rightarrow> pkey \<Rightarrow> hashform \<Rightarrow> unit res" where
  "checkdup key1 key2 form = (case hashtype form of
     STRING_HT \<Rightarrow>
       if len_k key1 = len_k key2 then
         res_bind (blk_read (name_k key1) 0 (unat (len_k key1))) (\<lambda>x.
         res_bind (blk_read (name_k key2) 0 (unat (len_k key1))) (\<lambda>y.
           if x = y then Fault ExitFailure else Ok ()))
       else Ok ()
   | INT_HT \<Rightarrow> if hash_k key1 = hash_k key2 then Fault ExitFailure else Ok ()
   | AB_HT \<Rightarrow> Fault ExitFailure)"

text \<open>The scan of the keys with the same \<open>b\<close>: whether there was no collision, and whether to go on.\<close>

fun scan_b :: "pkey list \<Rightarrow> hashform \<Rightarrow> bool \<Rightarrow> pkey \<Rightarrow> nat list \<Rightarrow> bool \<Rightarrow> (bool \<times> bool) res" where
  "scan_b keys form complete k [] nocoll = Ok (nocoll, True)"
| "scan_b keys form complete k (j # js) nocoll =
     (if a_k k = a_k (keys ! j) then
        res_bind (checkdup k (keys ! j) form) (\<lambda>_.
          if complete then scan_b keys form complete k js False else Ok (False, False))
      else scan_b keys form complete k js nocoll)"

definition no_bstuff :: bstuff where
  "no_bstuff = \<lparr>val_b = 0, list_b = [], listlen_b = 0, water_b = 0\<rparr>"

fun inittab_loop :: "pkey list \<Rightarrow> hashform \<Rightarrow> bool \<Rightarrow> nat list \<Rightarrow> bool \<Rightarrow> bstuff list \<Rightarrow> (bool \<times> bstuff list) res" where
  "inittab_loop keys form complete [] nocoll tb = Ok (nocoll, tb)"
| "inittab_loop keys form complete (i # is) nocoll tb =
     (let b = unat (b_k (keys ! i)) in
      if b < length tb then
        res_bind (scan_b keys form complete (keys ! i) (list_b (tb ! b)) nocoll) (\<lambda>(nc, go).
          if \<not> go then Ok (False, tb)
          else inittab_loop keys form complete is nc
                 (tb[b := (tb ! b)\<lparr>listlen_b := Suc (listlen_b (tb ! b)), list_b := i # list_b (tb ! b)\<rparr>]))
      else Fault OutOfBounds)"

definition inittab :: "nat \<Rightarrow> pkey list \<Rightarrow> hashform \<Rightarrow> bool \<Rightarrow> (bool \<times> bstuff list) res" where
  "inittab blen keys form complete = inittab_loop keys form complete [0..<length keys] True (replicate blen no_bstuff)"

text \<open>A function on every key, in order.\<close>

primrec map_keys :: "(pkey \<Rightarrow> pkey res) \<Rightarrow> pkey list \<Rightarrow> pkey list res" where
  "map_keys f [] = Ok []"
| "map_keys f (k # ks) = res_bind (f k) (\<lambda>x. res_bind (map_keys f ks) (\<lambda>xs. Ok (x # xs)))"

definition golden :: u32 where "golden = 0x9e3779b9"

definition initnorm :: "pkey list \<Rightarrow> u32 \<Rightarrow> u32 \<Rightarrow> u32 \<Rightarrow> pkey list res" where
  "initnorm keys alen blen salt =
     res_bind (mylog2 alen) (\<lambda>loga.
     res_bind (mylog2 blen) (\<lambda>logb.
       (let initlev = salt * golden in
        if loga + logb > 32 then
          map_keys (\<lambda>k. res_bind (checksum (name_k k) (unat (len_k k)) (replicate 8 initlev)) (\<lambda>st.
            Ok (k\<lparr>a_k := st ! 0 AND (alen - 1), b_k := st ! 1 AND (blen - 1)\<rparr>))) keys
        else
          map_keys (\<lambda>k. res_bind (lookup (name_k k) (unat (len_k k)) initlev) (\<lambda>h.
            Ok (k\<lparr>a_k := (if loga > 0 then drop_bit (32 - loga) h else 0), b_k := (if blen > 1 then h AND (blen - 1) else 0)\<rparr>))) keys)))"

definition inline_hash :: "byte list \<Rightarrow> u32 \<Rightarrow> u32" where
  "inline_hash name initval = fold (\<lambda>c h. (ucast c XOR h) + (push_bit 26 h + drop_bit 6 h)) name initval"

definition initinl :: "pkey list \<Rightarrow> u32 \<Rightarrow> u32 \<Rightarrow> u32 \<Rightarrow> pkey list res" where
  "initinl keys alen blen salt =
     res_bind (mylog2 blen) (\<lambda>blog.
       map_keys (\<lambda>k. res_bind (blk_read (name_k k) 0 (unat (len_k k))) (\<lambda>name.
         (let h = inline_hash name (salt * golden) in
          Ok (k\<lparr>hash_k := h, a_k := (if alen > 1 then h AND (alen - 1) else 0), b_k := (if blen > 1 then drop_bit (32 - blog) h else 0)\<rparr>)))) keys)"

text \<open>
  \<open>hex\<close> stands for \<open>inithex\<close>, which the modes for strings never call: whether it found a perfect hash by itself, and the keys with their pairs. The result is 0
  when two keys have the same pair, 1 when all pairs are distinct, 2 when nothing is left to do.
\<close>

type_synonym hex_hash = "pkey list \<Rightarrow> u32 \<Rightarrow> u32 \<Rightarrow> u32 \<Rightarrow> u32 \<Rightarrow> (bool \<times> pkey list) res"

definition initkey :: "hex_hash \<Rightarrow> pkey list \<Rightarrow> u32 \<Rightarrow> u32 \<Rightarrow> u32 \<Rightarrow> u32 \<Rightarrow> hashform \<Rightarrow> (nat \<times> pkey list \<times> bstuff list) res" where
  "initkey hex keys alen blen smax salt form =
     res_bind (case mode form of
         NORMAL_HM \<Rightarrow> res_bind (initnorm keys alen blen salt) (\<lambda>ks. Ok (False, ks))
       | INLINE_HM \<Rightarrow> res_bind (initinl keys alen blen salt) (\<lambda>ks. Ok (False, ks))
       | HEX_HM \<Rightarrow> hex keys alen blen smax salt
       | DECIMAL_HM \<Rightarrow> hex keys alen blen smax salt
       | _ \<Rightarrow> Fault ExitFailure) (\<lambda>(finished, ks).
       if finished \<or> length ks \<le> 1 then Ok (2, ks, [])
       else res_bind (inittab (unat blen) ks form False) (\<lambda>(ok, tb). Ok (if ok then 1 else 0, ks, tb)))"

section \<open>Augmenting paths\<close>

definition scramble_at :: "u32 list \<Rightarrow> nat \<Rightarrow> u32 res" where
  "scramble_at scr i = (if i < length scr then Ok (scr ! i) else Fault OutOfBounds)"

definition hash_at :: "pkey list \<Rightarrow> u32 \<Rightarrow> nat \<Rightarrow> nat" where
  "hash_at keys st k = unat (a_k (keys ! k) XOR st)"

fun erase_keys :: "pkey list \<Rightarrow> u32 \<Rightarrow> nat list \<Rightarrow> nat option list \<Rightarrow> nat option list res" where
  "erase_keys keys st [] th = Ok th"
| "erase_keys keys st (k # ks) th =
     (let h = hash_at keys st k in
      if h < length th then erase_keys keys st ks (if th ! h = Some k then th[h := None] else th)
      else Fault OutOfBounds)"

text \<open>The new hashes of a path; the result says that none of them was taken.\<close>

fun set_keys :: "pkey list \<Rightarrow> u32 \<Rightarrow> nat list \<Rightarrow> nat option list \<Rightarrow> (bool \<times> nat option list) res" where
  "set_keys keys st [] th = Ok (True, th)"
| "set_keys keys st (k # ks) th =
     (let h = hash_at keys st k in
      if h < length th then (if th ! h \<noteq> None then Ok (False, th) else set_keys keys st ks (th[h := Some k]))
      else Fault OutOfBounds)"

text \<open>The old hashes when a path is rolled back.\<close>

fun put_keys :: "pkey list \<Rightarrow> u32 \<Rightarrow> nat list \<Rightarrow> nat option list \<Rightarrow> nat option list res" where
  "put_keys keys st [] th = Ok th"
| "put_keys keys st (k # ks) th =
     (let h = hash_at keys st k in
      if h < length th then put_keys keys st ks (th[h := Some k]) else Fault OutOfBounds)"

text \<open>
  The walk from a child to the root. A parent that does not come before its child would be walked
  around for ever.
\<close>

function apply_walk :: "pkey list \<Rightarrow> u32 list \<Rightarrow> bool \<Rightarrow> nat \<Rightarrow> psearch \<Rightarrow> (bool \<times> psearch) res" where
  "apply_walk keys scr rollback child s =
     (if child = 0 then Ok (True, s)
      else if \<not> child < length (tabq s) then Fault OutOfBounds
      else (let qc = tabq s ! child; parent = parent_q qc in
        if \<not> parent < length (tabq s) then Fault OutOfBounds
        else case b_q (tabq s ! parent) of None \<Rightarrow> Fault NullDeref
        | Some b \<Rightarrow>
            if \<not> b < length (tabb s) then Fault OutOfBounds
            else (let pb = tabb s ! b; v = (if rollback then oldval_q qc else newval_q qc) in
              res_bind (scramble_at scr (unat (val_b pb))) (\<lambda>st.
              res_bind (erase_keys keys st (list_b pb) (tabh s)) (\<lambda>th1.
              res_bind (scramble_at scr (unat v)) (\<lambda>st2.
              res_bind (if \<not> rollback then set_keys keys st2 (list_b pb) th1
                        else if parent = 0 then Ok (True, th1)
                        else res_bind (put_keys keys st2 (list_b pb) th1) (\<lambda>t. Ok (True, t))) (\<lambda>(ok, th2).
                (let s1 = s\<lparr>tabb := (tabb s)[b := pb\<lparr>val_b := v\<rparr>], tabh := th2\<rparr> in
                 if \<not> ok then Ok (False, s1)
                 else if parent < child then apply_walk keys scr rollback parent s1
                 else Fault Diverges))))))))"
  by pat_completeness auto
termination by (relation "measure (\<lambda>(keys, scr, rb, child, s). child)") auto

declare apply_walk.simps [simp del]

definition apply_path :: "pkey list \<Rightarrow> u32 list \<Rightarrow> nat \<Rightarrow> psearch \<Rightarrow> (bool \<times> psearch) res" where
  "apply_path keys scr tail s =
     res_bind (apply_walk keys scr False (tail - 1) s) (\<lambda>(ok, s1).
       if ok then Ok (True, s1) else res_bind (apply_walk keys scr True (tail - 1) s1) (\<lambda>(_, s2). Ok (False, s2)))"

section \<open>The spanning tree\<close>

text \<open>
  The keys of a \<open>b\<close> under a new value: \<open>None\<close> when the value is of no use, otherwise the one \<open>b\<close> it collides
  with, if any.
\<close>

fun probe :: "pkey list \<Rightarrow> nat \<Rightarrow> nat \<Rightarrow> psearch \<Rightarrow> u32 \<Rightarrow> nat list \<Rightarrow> nat option \<Rightarrow> nat option option res" where
  "probe keys highhash highwater s st [] childb = Ok (Some childb)"
| "probe keys highhash highwater s st (k # ks) childb =
     (let h = hash_at keys st k in
      if h \<ge> highhash then Ok None
      else if \<not> h < length (tabh s) then Fault OutOfBounds
      else case tabh s ! h of None \<Rightarrow> probe keys highhash highwater s st ks childb
      | Some ck \<Rightarrow>
          (let hitb = unat (b_k (keys ! ck)) in
           if \<not> hitb < length (tabb s) then Fault OutOfBounds
           else case childb of
             Some c \<Rightarrow> if c \<noteq> hitb then Ok None else probe keys highhash highwater s st ks childb
           | None \<Rightarrow> if water_b (tabb s ! hitb) = highwater then Ok None
                    else probe keys highhash highwater s st ks (Some hitb)))"

definition mark :: "nat \<Rightarrow> nat option \<Rightarrow> psearch \<Rightarrow> psearch" where
  "mark highwater childb s = (case childb of None \<Rightarrow> s
     | Some c \<Rightarrow> s\<lparr>tabb := (tabb s)[c := (tabb s ! c)\<lparr>water_b := highwater\<rparr>]\<rparr>)"

fun try_values :: "pkey list \<Rightarrow> u32 list \<Rightarrow> nat \<Rightarrow> nat \<Rightarrow> nat \<Rightarrow> nat \<Rightarrow> nat list \<Rightarrow> nat \<Rightarrow> psearch \<Rightarrow> (bool \<times> nat \<times> psearch) res" where
  "try_values keys scr highhash highwater q myb [] tail s = Ok (False, tail, s)"
| "try_values keys scr highhash highwater q myb (i # is) tail s =
     res_bind (scramble_at scr i) (\<lambda>st.
     res_bind (probe keys highhash highwater s st (list_b (tabb s ! myb)) None) (\<lambda>r. case r of
       None \<Rightarrow> try_values keys scr highhash highwater q myb is tail s
     | Some childb \<Rightarrow>
         if \<not> tail < length (tabq s) then Fault OutOfBounds
         else (let s1 = mark highwater childb s;
                   s2 = s1\<lparr>tabq := (tabq s1)[tail := \<lparr>b_q = childb, parent_q = q, newval_q = word_of_nat i, oldval_q = val_b (tabb s1 ! myb)\<rparr>]\<rparr> in
           if childb \<noteq> None then try_values keys scr highhash highwater q myb is (tail + 1) s2
           else res_bind (apply_path keys scr (tail + 1) s2) (\<lambda>(ok, s3).
             if ok then Ok (True, tail, s3) else try_values keys scr highhash highwater q myb is tail s3))))"

function queue_loop :: "pkey list \<Rightarrow> u32 list \<Rightarrow> nat \<Rightarrow> nat \<Rightarrow> nat \<Rightarrow> bool \<Rightarrow> nat \<Rightarrow> nat \<Rightarrow> nat \<Rightarrow> psearch \<Rightarrow> (bool \<times> psearch) res" where
  "queue_loop keys scr limit highhash highwater closure nq q tail s =
     (if \<not> q < tail then Ok (False, s)
      else if \<not> closure \<and> q = 1 then Ok (False, s)
      else if \<not> q < nq then Fault OutOfBounds
      else case b_q (tabq s ! q) of None \<Rightarrow> Fault NullDeref
      | Some myb \<Rightarrow>
          res_bind (try_values keys scr highhash highwater q myb [0..<limit] tail s) (\<lambda>(found, tail1, s1).
            if found then Ok (True, s1) else queue_loop keys scr limit highhash highwater closure nq (q + 1) tail1 s1))"
  by pat_completeness auto
termination by (relation "measure (\<lambda>(keys, scr, limit, hh, hw, closure, nq, q, tail, s). nq - q)") auto

declare queue_loop.simps [simp del]

definition high_hash :: "hashform \<Rightarrow> nat \<Rightarrow> nat \<Rightarrow> nat" where
  "high_hash form nkeys smax = (if hperfect form = MINIMAL_HP then nkeys else smax)"

definition augment :: "pkey list \<Rightarrow> u32 list \<Rightarrow> nat \<Rightarrow> nat \<Rightarrow> nat \<Rightarrow> nat \<Rightarrow> hashform \<Rightarrow> psearch \<Rightarrow> (bool \<times> psearch) res" where
  "augment keys scr blen smax item highwater form s =
     (let limit = (if blen < USE_SCRAMBLE then smax else 256);
          closure = (speed form = SLOW_HS \<or> hperfect form = MINIMAL_HP);
          s1 = s\<lparr>tabq := (tabq s)[0 := (tabq s ! 0)\<lparr>b_q := Some item\<rparr>]\<rparr> in
      queue_loop keys scr limit (high_hash form (length keys) smax) highwater closure (length (tabq s)) 0 1 s1)"

definition no_qstuff :: qstuff where
  "no_qstuff = \<lparr>b_q = None, parent_q = 0, newval_q = 0, oldval_q = 0\<rparr>"

definition by_size :: "bstuff list \<Rightarrow> nat list" where
  "by_size tb = concat (map (\<lambda>j. filter (\<lambda>i. listlen_b (tb ! i) = j) [0..<length tb]) (rev [1..<Suc (fold max (map listlen_b tb) 0)]))"

fun perfect_loop :: "pkey list \<Rightarrow> u32 list \<Rightarrow> nat \<Rightarrow> nat \<Rightarrow> hashform \<Rightarrow> nat list \<Rightarrow> psearch \<Rightarrow> (bool \<times> psearch) res" where
  "perfect_loop keys scr blen smax form [] s = Ok (True, s)"
| "perfect_loop keys scr blen smax form (i # is) s =
     res_bind (augment keys scr blen smax i (i + 1) form s) (\<lambda>(ok, s1).
       if ok then perfect_loop keys scr blen smax form is s1 else Ok (False, s1))"

definition perfect :: "pkey list \<Rightarrow> u32 list \<Rightarrow> nat \<Rightarrow> nat \<Rightarrow> hashform \<Rightarrow> bstuff list \<Rightarrow> (bool \<times> bstuff list) res" where
  "perfect keys scr blen smax form tb =
     res_bind (perfect_loop keys scr blen smax form (by_size tb)
       \<lparr>tabb = tb, tabh = replicate (high_hash form (length keys) smax) None, tabq = replicate (blen + 1) no_qstuff\<rparr>)
       (\<lambda>(ok, s). Ok (ok, tabb s))"

section \<open>Putting it together\<close>

text \<open>
  \<open>while (len <= v) len *= 2\<close>; a value of 2^31 or more makes the length wrap to 0, and the loop does not end.
\<close>

function pow2_above :: "nat \<Rightarrow> nat \<Rightarrow> nat res" where
  "pow2_above len v = (if len = 0 \<or> 2 ^ 32 \<le> len then Fault Diverges else if len \<le> v then pow2_above (2 * len) v else Ok len)"
  by pat_completeness auto
termination by (relation "measure (\<lambda>(len, v). 2 ^ 32 - len)") auto

declare pow2_above.simps [simp del]

fun ab_lengths :: "pkey list \<Rightarrow> nat \<Rightarrow> nat \<Rightarrow> (nat \<times> nat) res" where
  "ab_lengths [] alen blen = Ok (alen, blen)"
| "ab_lengths (k # ks) alen blen =
     res_bind (pow2_above alen (unat (a_k k))) (\<lambda>a. res_bind (pow2_above blen (unat (b_k k))) (\<lambda>b. ab_lengths ks a b))"

record found_hash =
  f_alen :: nat
  f_blen :: nat
  f_smax :: nat
  f_salt :: nat
  f_tab :: "bstuff list"
  f_keys :: "pkey list"

definition hash_ab :: "pkey list \<Rightarrow> hashform \<Rightarrow> found_hash res" where
  "hash_ab keys form =
     res_bind (mylog2 (word_of_nat (length keys))) (\<lambda>lg. let smax = 2 ^ lg in
     res_bind (scrambleinit (word_of_nat smax)) (\<lambda>scr.
     res_bind (ab_lengths keys 1 1) (\<lambda>(alen, blen).
       if alen > 2 * smax then Fault ExitFailure
       else
         res_bind (inittab blen keys form False) (\<lambda>(_, tb).
         res_bind (perfect keys scr blen smax form tb) (\<lambda>(ok, tb1).
           if ok then Ok \<lparr>f_alen = alen, f_blen = blen, f_smax = smax, f_salt = 1, f_tab = tb1, f_keys = keys\<rparr>
           else if hperfect form = MINIMAL_HP then Fault ExitFailure
           else
             res_bind (scrambleinit (word_of_nat (2 * smax))) (\<lambda>scr2.
             res_bind (perfect keys scr2 blen (2 * smax) form tb1) (\<lambda>(ok2, tb2).
               if ok2 then Ok \<lparr>f_alen = alen, f_blen = blen, f_smax = 2 * smax, f_salt = 1, f_tab = tb2, f_keys = keys\<rparr>
               else Fault ExitFailure)))))))"

text \<open>
  The comparisons with fractions of \<open>smax\<close>, a power of two, are exact: 0.52, 0.56, 0.6, 0.74 and 0.8 of it are
  never integers, and the error of a double is far below the distance to the next one.
\<close>

definition initalen :: "nat \<Rightarrow> nat \<Rightarrow> nat \<Rightarrow> hashform \<Rightarrow> nat \<Rightarrow> (nat \<times> nat \<times> nat) res" where
  "initalen old_blen smax nkeys form lg =
     (if hperfect form = NORMAL_HP then
        (let smax = (if speed form = FAST_HS \<and> 5 * nkeys > 4 * smax then 2 * smax else smax) in
         res_bind (if hashtype form = INT_HT \<and> smax > 131072
                   then res_bind (mylog2 (word_of_nat old_blen)) (\<lambda>lb. Ok (2 ^ (32 - lb))) else Ok smax) (\<lambda>alen.
           (let blen = (if hashtype form = INT_HT \<and> smax < 32 then smax
                        else if smax div 4 \<le> 2 ^ 14 then
                          (if 25 * nkeys \<le> 14 * smax then smax div 32 else if 50 * nkeys \<le> 37 * smax then smax div 16 else smax div 8)
                        else
                          (if 5 * nkeys \<le> 3 * smax then smax div 16 else if 5 * nkeys \<le> 4 * smax then smax div 8 else smax div 4));
                blen = (if speed form = FAST_HS \<and> blen < smax div 8 then smax div 8 else blen) in
            Ok (max alen 1, max blen 1, smax))))
      else
        Ok (if lg \<le> 8 then (smax div 2, smax div 2, smax)
            else if lg \<le> 17 then
              (if speed form = FAST_HS then (smax div 2, smax div 4, smax)
               else if smax div 4 < USE_SCRAMBLE then
                 (if 25 * nkeys \<le> 13 * smax then (smax div 8, smax div 8, smax) else (smax div 4, smax div 4, smax))
               else (if 8 * nkeys \<le> 5 * smax then smax div 8 else if 4 * nkeys \<le> 3 * smax then smax div 4 else smax div 2,
                     smax div 4, smax))
            else if lg = 18 then
              (if speed form = FAST_HS then (smax div 2, smax div 2, smax)
               else (smax div 8, if 8 * nkeys \<le> 5 * smax then smax div 4 else smax div 2, smax))
            else if lg \<le> 20 then
              (if 8 * nkeys \<le> 5 * smax then (smax div 8, smax div 4, smax) else (smax div 2, smax div 2, smax))
            else (smax div 2, smax div 2, smax)))"

text \<open>
  The search over salts. Every round either ends it, or counts a failure, or enlarges a length; it has
  fuel because with \<open>--trysalt\<close> and new salts there is no bound in the code itself.
\<close>

record find_state =
  s_alen :: nat
  s_blen :: nat
  bad_initkey :: nat
  bad_perfect :: nat
  trysalt :: nat

definition next_initkey :: "nat \<Rightarrow> nat \<Rightarrow> find_state \<Rightarrow> find_state res" where
  "next_initkey maxalen smax t =
     (let t1 = t\<lparr>bad_initkey := bad_initkey t + 1, trysalt := trysalt t + 1\<rparr> in
      if bad_initkey t1 \<ge> RETRY_INITKEY then
        (if s_alen t < maxalen then Ok (t1\<lparr>s_alen := 2 * s_alen t, bad_initkey := 0, bad_perfect := 0\<rparr>)
         else if s_blen t < smax then Ok (t1\<lparr>s_blen := 2 * s_blen t, bad_initkey := 0, bad_perfect := 0\<rparr>)
         else Fault ExitFailure)
      else Ok t1)"

definition next_perfect :: "nat \<Rightarrow> hashform \<Rightarrow> find_state \<Rightarrow> find_state res" where
  "next_perfect smax form t =
     (let t1 = t\<lparr>bad_perfect := bad_perfect t + 1\<rparr> in
      if bad_perfect t1 \<ge> (if hashtype form = INT_HT then RETRY_HEX else RETRY_PERFECT) then
        (if s_blen t < smax then Ok (t1\<lparr>s_blen := 2 * s_blen t, bad_perfect := 0\<rparr>) else Fault ExitFailure)
      else Ok (t1\<lparr>trysalt := trysalt t + 1\<rparr>))"

fun salt_loop :: "nat \<Rightarrow> hex_hash \<Rightarrow> u32 list \<Rightarrow> nat \<Rightarrow> nat \<Rightarrow> hashform \<Rightarrow> pkey list \<Rightarrow> find_state \<Rightarrow> found_hash res" where
  "salt_loop 0 hex scr smax maxalen form keys t = Fault Diverges"
| "salt_loop (Suc fuel) hex scr smax maxalen form keys t =
     res_bind (initkey hex keys (word_of_nat (s_alen t)) (word_of_nat (s_blen t)) (word_of_nat smax) (word_of_nat (trysalt t)) form)
       (\<lambda>(rslinit, ks, tb).
         if rslinit = 2 then Ok \<lparr>f_alen = s_alen t, f_blen = 0, f_smax = smax, f_salt = 1, f_tab = [], f_keys = ks\<rparr>
         else if rslinit = 0 then res_bind (next_initkey maxalen smax t) (salt_loop fuel hex scr smax maxalen form ks)
         else res_bind (perfect ks scr (s_blen t) smax form tb) (\<lambda>(ok, tb1).
           if ok then Ok \<lparr>f_alen = s_alen t, f_blen = s_blen t, f_smax = smax, f_salt = trysalt t, f_tab = tb1, f_keys = ks\<rparr>
           else res_bind (next_perfect smax form t) (salt_loop fuel hex scr smax maxalen form ks)))"

definition findhash :: "nat \<Rightarrow> hex_hash \<Rightarrow> nat \<Rightarrow> pkey list \<Rightarrow> hashform \<Rightarrow> found_hash res" where
  "findhash fuel hex old_blen keys form =
     (if hashtype form = AB_HT then hash_ab keys form
      else
        res_bind (mylog2 (word_of_nat (length keys))) (\<lambda>lg.
        res_bind (initalen old_blen (2 ^ lg) (length keys) form lg) (\<lambda>(alen, blen, smax).
        res_bind (scrambleinit (word_of_nat smax)) (\<lambda>scr.
          salt_loop fuel hex scr smax (if hperfect form = MINIMAL_HP then smax div 2 else smax) form keys
            \<lparr>s_alen = alen, s_blen = blen, bad_initkey = 0, bad_perfect = 0, trysalt = 1\<rparr>))))"

text \<open>
  Reading the keys, one line of at most 29 characters at a time, for the modes with strings. The newline is
  cut before the length is taken.
\<close>

definition line_key :: "byte list \<Rightarrow> pkey" where
  "line_key line =
     (let text = (if line \<noteq> [] \<and> last line = 0x0a then butlast line else line) in
      \<lparr>name_k = text @ [0], len_k = word_of_nat (length text) - 1, hash_k = 0, a_k = 0, b_k = 0\<rparr>)"

definition getkeys :: "byte list list \<Rightarrow> pkey list" where
  "getkeys lines = rev (map line_key lines)"

end
