(* ===== verification/Perfect_Path.thy ===== *)
theory Perfect_Path
  imports Perfect
begin

text \<open>
  Applying an augmenting path in the search for a perfect hash: when it succeeds, the root of the path has
  got hash values for all its keys and everybody else has kept theirs; when it fails, rolling back
  restores the state exactly.
\<close>

section \<open>Hashes and their owners\<close>

definition bof :: "pkey list \<Rightarrow> nat \<Rightarrow> nat" where
  "bof keys k = unat (b_k (keys ! k))"

text \<open>The hash of a key under the present table.\<close>

definition cur :: "pkey list \<Rightarrow> u32 list \<Rightarrow> bstuff list \<Rightarrow> nat \<Rightarrow> nat" where
  "cur keys scr tb k = hash_at keys (scr ! unat (val_b (tb ! bof keys k))) k"

definition grouped :: "pkey list \<Rightarrow> bstuff list \<Rightarrow> bool" where
  "grouped keys tb \<longleftrightarrow> (\<forall>k<length keys. bof keys k < length tb) \<and>
     (\<forall>b<length tb. set (list_b (tb ! b)) = {k. k < length keys \<and> bof keys k = b} \<and> listlen_b (tb ! b) = length (list_b (tb ! b)))"

definition in_range :: "pkey list \<Rightarrow> u32 list \<Rightarrow> psearch \<Rightarrow> bool" where
  "in_range keys scr s \<longleftrightarrow> (\<forall>b<length (tabb s). unat (val_b (tabb s ! b)) < length scr) \<and>
     (\<forall>k<length keys. cur keys scr (tabb s) k < length (tabh s))"

definition entries_ok :: "pkey list \<Rightarrow> u32 list \<Rightarrow> psearch \<Rightarrow> nat set \<Rightarrow> bool" where
  "entries_ok keys scr s B \<longleftrightarrow> (\<forall>h k. h < length (tabh s) \<longrightarrow> tabh s ! h = Some k \<longrightarrow>
     k < length keys \<and> bof keys k \<in> B \<and> cur keys scr (tabb s) k = h)"

definition complete :: "pkey list \<Rightarrow> u32 list \<Rightarrow> psearch \<Rightarrow> nat set \<Rightarrow> bool" where
  "complete keys scr s B \<longleftrightarrow> (\<forall>k<length keys. bof keys k \<in> B \<longrightarrow> tabh s ! cur keys scr (tabb s) k = Some k)"

definition sound :: "pkey list \<Rightarrow> u32 list \<Rightarrow> psearch \<Rightarrow> nat set \<Rightarrow> bool" where
  "sound keys scr s B \<longleftrightarrow> grouped keys (tabb s) \<and> in_range keys scr s \<and> entries_ok keys scr s B"

text \<open>The keys of exactly the groups \<open>M\<close> are in the table of hashes.\<close>

definition placed :: "pkey list \<Rightarrow> u32 list \<Rightarrow> psearch \<Rightarrow> nat set \<Rightarrow> bool" where
  "placed keys scr s M \<longleftrightarrow> sound keys scr s M \<and> complete keys scr s M"

lemma soundD:
  assumes "sound keys scr s B"
  shows "grouped keys (tabb s)"
    and "b < length (tabb s) \<Longrightarrow> unat (val_b (tabb s ! b)) < length scr"
    and "k < length keys \<Longrightarrow> cur keys scr (tabb s) k < length (tabh s)"
    and "h < length (tabh s) \<Longrightarrow> tabh s ! h = Some k \<Longrightarrow> k < length keys \<and> bof keys k \<in> B \<and> cur keys scr (tabb s) k = h"
  using assms by (auto simp: sound_def in_range_def entries_ok_def)

lemma groupedD:
  assumes "grouped keys tb"
  shows "k < length keys \<Longrightarrow> bof keys k < length tb"
    and "b < length tb \<Longrightarrow> k \<in> set (list_b (tb ! b)) \<longleftrightarrow> k < length keys \<and> bof keys k = b"
    and "b < length tb \<Longrightarrow> listlen_b (tb ! b) = length (list_b (tb ! b))"
  using assms by (auto simp: grouped_def)

lemma placed_inj:
  assumes "placed keys scr s M"
  shows "inj_on (cur keys scr (tabb s)) {k. k < length keys \<and> bof keys k \<in> M}"
  using assms by (auto simp: placed_def complete_def inj_on_def) (metis option.inject)

section \<open>The loops over the keys of a group\<close>

lemma erase_keys_spec:
  "\<forall>k\<in>set ks. hash_at keys st k < length th \<Longrightarrow>
   \<exists>th'. erase_keys keys st ks th = Ok th' \<and> length th' = length th \<and>
     (\<forall>h<length th. th' ! h = (if \<exists>k\<in>set ks. th ! h = Some k \<and> hash_at keys st k = h then None else th ! h))"
proof (induction ks arbitrary: th)
  case (Cons k ks)
  let ?h = "hash_at keys st k"
  let ?t = "if th ! ?h = Some k then th[?h := None] else th"
  have "length ?t = length th" "?h < length th" using Cons.prems by auto
  then obtain th' where t: "erase_keys keys st ks ?t = Ok th'" "length th' = length th"
    "\<forall>h<length th. th' ! h = (if \<exists>k\<in>set ks. ?t ! h = Some k \<and> hash_at keys st k = h then None else ?t ! h)"
    using Cons.IH [of ?t] Cons.prems by auto
  moreover have "erase_keys keys st (k # ks) th = Ok th'" using t(1) \<open>?h < length th\<close> by (simp add: Let_def)
  moreover have "th' ! h = (if \<exists>k\<in>set (k # ks). th ! h = Some k \<and> hash_at keys st k = h then None else th ! h)"
    if h: "h < length th" for h
    using t(3) h by (cases "h = ?h") auto
  ultimately show ?case by blast
qed simp

lemma set_keys_spec:
  "\<forall>k\<in>set ks. hash_at keys st k < length th \<Longrightarrow>
   \<exists>ok th'. set_keys keys st ks th = Ok (ok, th') \<and> length th' = length th \<and>
     (\<forall>h<length th. \<forall>x. th ! h = Some x \<longrightarrow> th' ! h = Some x) \<and>
     (\<forall>h<length th. \<forall>x. th' ! h = Some x \<longrightarrow> th ! h = Some x \<or> x \<in> set ks \<and> hash_at keys st x = h) \<and>
     (ok \<longrightarrow> (\<forall>k\<in>set ks. th' ! hash_at keys st k = Some k))"
proof (induction ks arbitrary: th)
  case (Cons k ks)
  let ?h = "hash_at keys st k"
  have h: "?h < length th" using Cons.prems by simp
  show ?case
  proof (cases "th ! ?h")
    case None
    from Cons.IH [of "th[?h := Some k]"] Cons.prems obtain ok th' where
      t: "set_keys keys st ks (th[?h := Some k]) = Ok (ok, th')" "length th' = length th"
        "\<forall>h<length th. \<forall>x. th[?h := Some k] ! h = Some x \<longrightarrow> th' ! h = Some x"
        "\<forall>h<length th. \<forall>x. th' ! h = Some x \<longrightarrow> th[?h := Some k] ! h = Some x \<or> x \<in> set ks \<and> hash_at keys st x = h"
        "ok \<longrightarrow> (\<forall>k\<in>set ks. th' ! hash_at keys st k = Some k)" by auto
    have "set_keys keys st (k # ks) th = Ok (ok, th')" using None h t(1) by (simp add: Let_def)
    moreover have "th' ! ?h = Some k" using t(3) h by simp
    moreover have "\<forall>h<length th. \<forall>x. th ! h = Some x \<longrightarrow> th' ! h = Some x" using t(3) None by (metis nth_list_update_neq option.distinct(1))
    moreover have "\<forall>h<length th. \<forall>x. th' ! h = Some x \<longrightarrow> th ! h = Some x \<or> x \<in> set (k # ks) \<and> hash_at keys st x = h"
      using t(4) h by (metis list.set_intros(1,2) nth_list_update_eq nth_list_update_neq option.inject)
    ultimately show ?thesis using t(2,5) by auto
  next
    case (Some x)
    then have "set_keys keys st (k # ks) th = Ok (False, th)" using h by (simp add: Let_def)
    then show ?thesis by blast
  qed
qed auto

lemma put_keys_spec:
  "\<forall>k\<in>set ks. hash_at keys st k < length th \<Longrightarrow>
   \<exists>th'. put_keys keys st ks th = Ok th' \<and> length th' = length th \<and>
     (\<forall>h<length th. h \<notin> hash_at keys st ` set ks \<longrightarrow> th' ! h = th ! h) \<and>
     (\<forall>h<length th. h \<in> hash_at keys st ` set ks \<longrightarrow> (\<exists>x\<in>set ks. th' ! h = Some x \<and> hash_at keys st x = h))"
proof (induction ks arbitrary: th)
  case (Cons k ks)
  let ?h = "hash_at keys st k"
  have h: "?h < length th" using Cons.prems by simp
  from Cons.IH [of "th[?h := Some k]"] Cons.prems obtain th' where
    t: "put_keys keys st ks (th[?h := Some k]) = Ok th'" "length th' = length th"
      "\<forall>h<length th. h \<notin> hash_at keys st ` set ks \<longrightarrow> th' ! h = th[?h := Some k] ! h"
      "\<forall>h<length th. h \<in> hash_at keys st ` set ks \<longrightarrow> (\<exists>x\<in>set ks. th' ! h = Some x \<and> hash_at keys st x = h)" by auto
  have "put_keys keys st (k # ks) th = Ok th'" using h t(1) by (simp add: Let_def)
  moreover have "\<exists>x\<in>set (k # ks). th' ! h' = Some x \<and> hash_at keys st x = h'"
    if "h' < length th" "h' \<in> hash_at keys st ` set (k # ks)" for h'
  proof (cases "h' \<in> hash_at keys st ` set ks")
    case True
    then show ?thesis using t(4) that(1) by auto
  next
    case False
    then show ?thesis using t(3) that h by auto
  qed
  ultimately show ?case using t(2,3) by auto
qed simp

section \<open>A step of the walk\<close>

definition revalue :: "nat \<Rightarrow> u16 \<Rightarrow> nat option list \<Rightarrow> psearch \<Rightarrow> psearch" where
  "revalue b v th s = s\<lparr>tabb := (tabb s)[b := (tabb s ! b)\<lparr>val_b := v\<rparr>], tabh := th\<rparr>"

text \<open>The keys of a group fit into the table of hashes under a value.\<close>

definition fits :: "pkey list \<Rightarrow> u32 list \<Rightarrow> nat \<Rightarrow> nat \<Rightarrow> u16 \<Rightarrow> bool" where
  "fits keys scr nh b v \<longleftrightarrow> unat v < length scr \<and> (\<forall>k<length keys. bof keys k = b \<longrightarrow> hash_at keys (scr ! unat v) k < nh)"

text \<open>Tables that differ in the values only.\<close>

definition static :: "bstuff list \<Rightarrow> bstuff list \<Rightarrow> bool" where
  "static tb tb' \<longleftrightarrow> length tb' = length tb \<and>
     (\<forall>b<length tb. list_b (tb' ! b) = list_b (tb ! b) \<and> listlen_b (tb' ! b) = listlen_b (tb ! b) \<and> water_b (tb' ! b) = water_b (tb ! b))"

lemma static_refl [simp]: "static tb tb"
  by (simp add: static_def)

lemma static_trans: "static tb tb' \<Longrightarrow> static tb' tb'' \<Longrightarrow> static tb tb''"
  by (simp add: static_def)

lemma static_eq:
  "static tb tb' \<Longrightarrow> (\<And>b. b < length tb \<Longrightarrow> val_b (tb' ! b) = val_b (tb ! b)) \<Longrightarrow> tb' = tb"
  by (rule nth_equalityI) (auto simp: static_def)

lemma revalue_simps [simp]:
  "tabq (revalue b v th s) = tabq s" "tabh (revalue b v th s) = th" "length (tabb (revalue b v th s)) = length (tabb s)"
  "b < length (tabb s) \<Longrightarrow> val_b (tabb (revalue b v th s) ! c) = (if c = b then v else val_b (tabb s ! c))"
  by (auto simp: revalue_def nth_list_update)

lemma static_revalue [simp]: "static (tabb s) (tabb (revalue b v th s))"
  by (cases "b < length (tabb s)") (auto simp: static_def revalue_def nth_list_update)

lemma grouped_static: "static tb tb' \<Longrightarrow> grouped keys tb \<Longrightarrow> grouped keys tb'"
  by (auto simp: grouped_def static_def)

lemma cur_revalue:
  "b < length (tabb s) \<Longrightarrow>
   cur keys scr (tabb (revalue b v th s)) k = (if bof keys k = b then hash_at keys (scr ! unat v) k else cur keys scr (tabb s) k)"
  by (simp add: cur_def)

lemma fits_own:
  assumes "grouped keys (tabb s)" "in_range keys scr s" "b < length (tabb s)"
  shows "fits keys scr (length (tabh s)) b (val_b (tabb s ! b))"
  using assms by (auto simp: fits_def in_range_def cur_def)

lemma fits_list:
  "grouped keys tb \<Longrightarrow> b < length tb \<Longrightarrow> fits keys scr nh b v \<Longrightarrow> k \<in> set (list_b (tb ! b)) \<Longrightarrow> hash_at keys (scr ! unat v) k < nh"
  by (auto simp: fits_def groupedD(2))

lemma in_range_revalue:
  assumes "in_range keys scr s" "b < length (tabb s)" "fits keys scr (length (tabh s)) b v" "length th = length (tabh s)"
  shows "in_range keys scr (revalue b v th s)"
  using assms by (auto simp: in_range_def cur_revalue fits_def)

text \<open>Erasing removes exactly the keys of the group.\<close>

lemma erase_group:
  assumes s: "sound keys scr s B" and b: "b < length (tabb s)"
  shows "\<exists>th. erase_keys keys (scr ! unat (val_b (tabb s ! b))) (list_b (tabb s ! b)) (tabh s) = Ok th \<and> length th = length (tabh s) \<and>
     (\<forall>h<length (tabh s). \<forall>x. th ! h = Some x \<longleftrightarrow> tabh s ! h = Some x \<and> bof keys x \<noteq> b)"
proof -
  let ?st = "scr ! unat (val_b (tabb s ! b))"
  have l: "k \<in> set (list_b (tabb s ! b)) \<longleftrightarrow> k < length keys \<and> bof keys k = b" for k
    using groupedD(2) [OF soundD(1) [OF s] b] .
  have c: "hash_at keys ?st k = cur keys scr (tabb s) k" if "bof keys k = b" for k using that by (simp add: cur_def)
  have "\<forall>k\<in>set (list_b (tabb s ! b)). hash_at keys ?st k < length (tabh s)" using l c soundD(3) [OF s] by auto
  from erase_keys_spec [OF this] obtain th where
    th: "erase_keys keys ?st (list_b (tabb s ! b)) (tabh s) = Ok th" "length th = length (tabh s)"
      "\<forall>h<length (tabh s). th ! h = (if \<exists>k\<in>set (list_b (tabb s ! b)). tabh s ! h = Some k \<and> hash_at keys ?st k = h then None else tabh s ! h)"
    by blast
  have "th ! h = Some x \<longleftrightarrow> tabh s ! h = Some x \<and> bof keys x \<noteq> b" if h: "h < length (tabh s)" for h x
  proof -
    have "(\<exists>k\<in>set (list_b (tabb s ! b)). tabh s ! h = Some k \<and> hash_at keys ?st k = h) \<longleftrightarrow> (\<exists>k. tabh s ! h = Some k \<and> bof keys k = b)"
      using l c soundD(4) [OF s h] by metis
    with th(3) h show ?thesis by auto
  qed
  with th show ?thesis by blast
qed

lemma walk_set:
  assumes s: "sound keys scr s B" and b: "b < length (tabb s)" and f: "fits keys scr (length (tabh s)) b v" and C: "complete keys scr s C"
  shows "\<exists>th1 ok th2. erase_keys keys (scr ! unat (val_b (tabb s ! b))) (list_b (tabb s ! b)) (tabh s) = Ok th1 \<and>
     set_keys keys (scr ! unat v) (list_b (tabb s ! b)) th1 = Ok (ok, th2) \<and> length th2 = length (tabh s) \<and>
     sound keys scr (revalue b v th2 s) (insert b B) \<and> complete keys scr (revalue b v th2 s) (if ok then insert b C else C - {b})"
proof -
  note g = soundD(1) [OF s]
  from erase_group [OF s b] obtain th1 where
    e: "erase_keys keys (scr ! unat (val_b (tabb s ! b))) (list_b (tabb s ! b)) (tabh s) = Ok th1" "length th1 = length (tabh s)"
      "\<forall>h<length (tabh s). \<forall>x. th1 ! h = Some x \<longleftrightarrow> tabh s ! h = Some x \<and> bof keys x \<noteq> b" by blast
  have "\<forall>k\<in>set (list_b (tabb s ! b)). hash_at keys (scr ! unat v) k < length th1" using fits_list [OF g b f] e(2) by simp
  from set_keys_spec [OF this] obtain ok th2 where
    t: "set_keys keys (scr ! unat v) (list_b (tabb s ! b)) th1 = Ok (ok, th2)" "length th2 = length th1"
      "\<forall>h<length th1. \<forall>x. th1 ! h = Some x \<longrightarrow> th2 ! h = Some x"
      "\<forall>h<length th1. \<forall>x. th2 ! h = Some x \<longrightarrow> th1 ! h = Some x \<or> x \<in> set (list_b (tabb s ! b)) \<and> hash_at keys (scr ! unat v) x = h"
      "ok \<longrightarrow> (\<forall>k\<in>set (list_b (tabb s ! b)). th2 ! hash_at keys (scr ! unat v) k = Some k)" by blast
  have "entries_ok keys scr (revalue b v th2 s) (insert b B)"
    unfolding entries_ok_def using t(2,4) e(2,3) soundD(4) [OF s] by (fastforce simp: cur_revalue [OF b] groupedD(2) [OF g b])
  then have "sound keys scr (revalue b v th2 s) (insert b B)"
    using s in_range_revalue [OF _ b f, of th2] t(2) e(2) grouped_static [OF static_revalue g] by (simp add: sound_def)
  moreover have "complete keys scr (revalue b v th2 s) (C - {b})"
    using C t(3) e(2,3) soundD(3) [OF s] by (auto simp: complete_def cur_revalue [OF b])
  moreover have "ok \<longrightarrow> complete keys scr (revalue b v th2 s) {b}"
    using t(5) groupedD(2) [OF g b] by (auto simp: complete_def cur_revalue [OF b])
  ultimately show ?thesis using e t by (auto simp: complete_def)
qed

lemma walk_put:
  assumes s: "sound keys scr s B" and b: "b < length (tabb s)" "b \<in> B" and f: "fits keys scr (length (tabh s)) b v" and R: "complete keys scr s R"
    and inj: "\<And>th. inj_on (cur keys scr (tabb (revalue b v th s))) {k. k < length keys \<and> bof keys k \<in> insert b R}"
  shows "\<exists>th1 th2. erase_keys keys (scr ! unat (val_b (tabb s ! b))) (list_b (tabb s ! b)) (tabh s) = Ok th1 \<and>
     put_keys keys (scr ! unat v) (list_b (tabb s ! b)) th1 = Ok th2 \<and> length th2 = length (tabh s) \<and>
     sound keys scr (revalue b v th2 s) B \<and> complete keys scr (revalue b v th2 s) (insert b R)"
proof -
  note g = soundD(1) [OF s]
  let ?H = "hash_at keys (scr ! unat v)" and ?L = "set (list_b (tabb s ! b))"
  note l = groupedD(2) [OF g b(1)]
  from erase_group [OF s b(1)] obtain th1 where
    e: "erase_keys keys (scr ! unat (val_b (tabb s ! b))) (list_b (tabb s ! b)) (tabh s) = Ok th1" "length th1 = length (tabh s)"
      "\<forall>h<length (tabh s). \<forall>x. th1 ! h = Some x \<longleftrightarrow> tabh s ! h = Some x \<and> bof keys x \<noteq> b" by blast
  have r: "\<forall>k\<in>?L. ?H k < length th1" using fits_list [OF g b(1) f] e(2) by simp
  from put_keys_spec [OF r] obtain th2 where
    t: "put_keys keys (scr ! unat v) (list_b (tabb s ! b)) th1 = Ok th2" "length th2 = length th1"
      "\<forall>h<length th1. h \<notin> ?H ` ?L \<longrightarrow> th2 ! h = th1 ! h"
      "\<forall>h<length th1. h \<in> ?H ` ?L \<longrightarrow> (\<exists>x\<in>?L. th2 ! h = Some x \<and> ?H x = h)" by blast
  have same: "k' = k" if "k \<in> ?L" "k' < length keys" "bof keys k' \<in> insert b R" "?H k = cur keys scr (tabb (revalue b v th2 s)) k'" for k k'
    using inj_onD [OF inj [of th2], of k k'] that by (auto simp: cur_revalue [OF b(1)] l)
  have ent: "x < length keys \<and> bof keys x \<in> B \<and> cur keys scr (tabb (revalue b v th2 s)) x = h" if h: "h < length th2" "th2 ! h = Some x" for h x
  proof (cases "h \<in> ?H ` ?L")
    case True
    with t(2,4) h have "x \<in> ?L \<and> ?H x = h" by auto
    then show ?thesis using l b by (simp add: cur_revalue)
  next
    case False
    then have "tabh s ! h = Some x" "bof keys x \<noteq> b" using t(2,3) e(2,3) h by auto
    then show ?thesis using soundD(4) [OF s, of h x] h t(2) e(2) by (simp add: cur_revalue b)
  qed
  have "th2 ! cur keys scr (tabb (revalue b v th2 s)) k = Some k" if k: "k < length keys" "bof keys k \<in> insert b R" for k
  proof (cases "bof keys k = b")
    case True
    then have "k \<in> ?L" using k l by simp
    then obtain x where "x \<in> ?L" "th2 ! ?H k = Some x" "?H x = ?H k" using t(4) bspec [OF r, of k] by (metis imageI)
    moreover have c: "cur keys scr (tabb (revalue b v th2 s)) k = ?H k" using True by (subst cur_revalue [OF b(1)]) (rule if_P)
    ultimately have "k = x" using same [of x k] k by metis
    with \<open>th2 ! ?H k = Some x\<close> c show ?thesis by metis
  next
    case False
    then have k': "bof keys k \<in> R" "cur keys scr (tabb (revalue b v th2 s)) k = cur keys scr (tabb s) k" using k by (auto simp: cur_revalue b)
    have "cur keys scr (tabb s) k \<notin> ?H ` ?L"
    proof
      assume "cur keys scr (tabb s) k \<in> ?H ` ?L"
      then obtain j where "j \<in> ?L" "?H j = cur keys scr (tabb s) k" by auto
      with same [of j k] k k'(2) have "k \<in> ?L" by simp
      with False l show False by simp
    qed
    moreover have "tabh s ! cur keys scr (tabb s) k = Some k" using R k(1) k'(1) by (simp add: complete_def)
    ultimately show ?thesis using k'(2) t(3) e(2,3) soundD(3) [OF s k(1)] False by simp
  qed
  then have "complete keys scr (revalue b v th2 s) (insert b R)" by (simp add: complete_def)
  moreover have "sound keys scr (revalue b v th2 s) B"
    using s ent in_range_revalue [OF _ b(1) f, of th2] t(2) e(2) grouped_static [OF static_revalue g] by (simp add: sound_def entries_ok_def)
  ultimately show ?thesis using e t by auto
qed

lemma walk_drop:
  assumes s: "sound keys scr s B" and b: "b < length (tabb s)" "b \<notin> R" and f: "fits keys scr (length (tabh s)) b v" and R: "complete keys scr s R"
  shows "\<exists>th1. erase_keys keys (scr ! unat (val_b (tabb s ! b))) (list_b (tabb s ! b)) (tabh s) = Ok th1 \<and> length th1 = length (tabh s) \<and>
     sound keys scr (revalue b v th1 s) (B - {b}) \<and> complete keys scr (revalue b v th1 s) R"
proof -
  note g = soundD(1) [OF s]
  from erase_group [OF s b(1)] obtain th1 where
    e: "erase_keys keys (scr ! unat (val_b (tabb s ! b))) (list_b (tabb s ! b)) (tabh s) = Ok th1" "length th1 = length (tabh s)"
      "\<forall>h<length (tabh s). \<forall>x. th1 ! h = Some x \<longleftrightarrow> tabh s ! h = Some x \<and> bof keys x \<noteq> b" by blast
  have "entries_ok keys scr (revalue b v th1 s) (B - {b})"
    unfolding entries_ok_def using e(2,3) soundD(4) [OF s] by (fastforce simp: cur_revalue [OF b(1)])
  moreover have "complete keys scr (revalue b v th1 s) R"
    using R b(2) e(2,3) soundD(3) [OF s] by (auto simp: complete_def cur_revalue [OF b(1)])
  ultimately show ?thesis
    using s e in_range_revalue [OF _ b(1) f, of th1] grouped_static [OF static_revalue g] by (auto simp: sound_def)
qed

section \<open>The walk\<close>

text \<open>The groups that the walk from a child to the root changes.\<close>

function pathb :: "qstuff list \<Rightarrow> nat \<Rightarrow> nat set" where
  "pathb tq child = (if parent_q (tq ! child) < child then insert (the (b_q (tq ! parent_q (tq ! child)))) (pathb tq (parent_q (tq ! child))) else {})"
  by pat_completeness auto
termination by (relation "measure (\<lambda>(tq, child). child)") auto

declare pathb.simps [simp del]

text \<open>
  The spanning tree of the queue: the parent of a node is the root, or one of the groups \<open>M\<close> that are mapped; the old
  value is the one in the table, and the new one fits.
\<close>

definition node_ok :: "pkey list \<Rightarrow> u32 list \<Rightarrow> nat \<Rightarrow> bstuff list \<Rightarrow> nat set \<Rightarrow> nat \<Rightarrow> qstuff list \<Rightarrow> nat \<Rightarrow> bool" where
  "node_ok keys scr nh tb M root tq c \<longleftrightarrow> parent_q (tq ! c) < c \<and>
     (case b_q (tq ! parent_q (tq ! c)) of None \<Rightarrow> False
      | Some b \<Rightarrow> b < length tb \<and> (if parent_q (tq ! c) = 0 then b = root else b \<in> M) \<and>
          oldval_q (tq ! c) = val_b (tb ! b) \<and> fits keys scr nh b (newval_q (tq ! c)))"

definition tree_ok :: "pkey list \<Rightarrow> u32 list \<Rightarrow> nat \<Rightarrow> bstuff list \<Rightarrow> nat set \<Rightarrow> nat \<Rightarrow> qstuff list \<Rightarrow> nat \<Rightarrow> bool" where
  "tree_ok keys scr nh tb M root tq tail \<longleftrightarrow> tail \<le> length tq \<and> (\<forall>c. 0 < c \<longrightarrow> c < tail \<longrightarrow> node_ok keys scr nh tb M root tq c)"

lemma tree_okD:
  assumes "tree_ok keys scr nh tb M root tq tail" "0 < c" "c < tail"
  obtains b where "parent_q (tq ! c) < c" "c < length tq" "b_q (tq ! parent_q (tq ! c)) = Some b" "b < length tb"
    "if parent_q (tq ! c) = 0 then b = root else b \<in> M" "oldval_q (tq ! c) = val_b (tb ! b)" "fits keys scr nh b (newval_q (tq ! c))"
    "pathb tq c = insert b (pathb tq (parent_q (tq ! c)))"
proof -
  from assms have "node_ok keys scr nh tb M root tq c" "c < length tq" by (auto simp: tree_ok_def)
  moreover from this(1) obtain b where "b_q (tq ! parent_q (tq ! c)) = Some b" by (auto simp: node_ok_def split: option.splits)
  moreover have "pathb tq c = insert b (pathb tq (parent_q (tq ! c)))"
    using calculation pathb.simps [of tq c] by (simp add: node_ok_def)
  ultimately show thesis using that by (simp add: node_ok_def)
qed

lemma pathb_0 [simp]: "pathb tq 0 = {}"
  by (simp add: pathb.simps)

lemma pathb_in:
  "tree_ok keys scr nh tb M root tq tail \<Longrightarrow> c < tail \<Longrightarrow> pathb tq c \<subseteq> insert root M \<and> (0 < c \<longrightarrow> root \<in> pathb tq c) \<and> pathb tq c \<subseteq> {..<length tb}"
proof (induction c rule: less_induct)
  case (less c)
  show ?case
  proof (cases "c = 0")
    case False
    with less.prems obtain b where b: "parent_q (tq ! c) < c" "if parent_q (tq ! c) = 0 then b = root else b \<in> M" "b < length tb"
      "pathb tq c = insert b (pathb tq (parent_q (tq ! c)))" by (metis tree_okD neq0_conv)
    with less.IH [of "parent_q (tq ! c)"] less.prems show ?thesis by (auto split: if_splits)
  qed simp
qed

lemma complete_mono: "complete keys scr s B \<Longrightarrow> A \<subseteq> B \<Longrightarrow> complete keys scr s A"
  by (auto simp: complete_def)

lemma walk_step:
  assumes "0 < c" "c < length (tabq s)" "parent_q (tabq s ! c) < c" "b_q (tabq s ! parent_q (tabq s ! c)) = Some b" "b < length (tabb s)"
    and "unat (val_b (tabb s ! b)) < length scr" "unat v < length scr"
    and "erase_keys keys (scr ! unat (val_b (tabb s ! b))) (list_b (tabb s ! b)) (tabh s) = Ok th1"
    and v: "v = (if rb then oldval_q (tabq s ! c) else newval_q (tabq s ! c))"
  shows "apply_walk keys scr rb c s =
    res_bind (if \<not> rb then set_keys keys (scr ! unat v) (list_b (tabb s ! b)) th1
              else if parent_q (tabq s ! c) = 0 then Ok (True, th1)
              else res_bind (put_keys keys (scr ! unat v) (list_b (tabb s ! b)) th1) (\<lambda>t. Ok (True, t))) (\<lambda>(ok, th2).
      if \<not> ok then Ok (False, revalue b v th2 s) else apply_walk keys scr rb (parent_q (tabq s ! c)) (revalue b v th2 s))"
  using assms(1-8) unfolding v
  by (subst apply_walk.simps) (cases rb; simp add: Let_def scramble_at_def revalue_def cong: if_cong)

lemma walk_forward:
  "tree_ok keys scr (length (tabh s)) tb M root (tabq s) tail \<Longrightarrow> c < tail \<Longrightarrow> sound keys scr s (insert root M) \<Longrightarrow>
   complete keys scr s C \<Longrightarrow> length (tabb s) = length tb \<Longrightarrow>
   \<exists>ok s'. apply_walk keys scr False c s = Ok (ok, s') \<and> tabq s' = tabq s \<and> length (tabh s') = length (tabh s) \<and> static (tabb s) (tabb s') \<and>
     sound keys scr s' (insert root M) \<and> complete keys scr s' (if ok then C \<union> pathb (tabq s) c else C - pathb (tabq s) c) \<and>
     (\<forall>b. b \<notin> pathb (tabq s) c \<longrightarrow> val_b (tabb s' ! b) = val_b (tabb s ! b))"
proof (induction c arbitrary: s C rule: less_induct)
  case (less c)
  show ?case
  proof (cases "c = 0")
    case True
    then show ?thesis using less.prems by (auto simp: apply_walk.simps)
  next
    case False
    let ?p = "parent_q (tabq s ! c)" and ?v = "newval_q (tabq s ! c)"
    obtain b where b: "?p < c" "c < length (tabq s)" "b_q (tabq s ! ?p) = Some b" "b < length tb" "if ?p = 0 then b = root else b \<in> M"
        "fits keys scr (length (tabh s)) b ?v" "pathb (tabq s) c = insert b (pathb (tabq s) ?p)"
      using tree_okD [OF less.prems(1), of c] less.prems(2) False by auto
    have bl: "b < length (tabb s)" using b(4) less.prems(5) by simp
    have ins: "insert b (insert root M) = insert root M" using b(5) by (auto split: if_splits)
    from walk_set [OF less.prems(3) bl b(6) less.prems(4)] obtain th1 ok th2 where
      w: "erase_keys keys (scr ! unat (val_b (tabb s ! b))) (list_b (tabb s ! b)) (tabh s) = Ok th1"
        "set_keys keys (scr ! unat ?v) (list_b (tabb s ! b)) th1 = Ok (ok, th2)" "length th2 = length (tabh s)"
        "sound keys scr (revalue b ?v th2 s) (insert root M)" "complete keys scr (revalue b ?v th2 s) (if ok then insert b C else C - {b})"
      by (auto simp: ins)
    have vs: "unat ?v < length scr" using b(6) by (simp add: fits_def)
    have a: "apply_walk keys scr False c s = (if ok then apply_walk keys scr False ?p (revalue b ?v th2 s) else Ok (False, revalue b ?v th2 s))"
      using walk_step [OF _ b(2,1,3) bl soundD(2) [OF less.prems(3) bl] vs w(1), of False] False w(2) by simp
    show ?thesis
    proof (cases ok)
      case True
      with less.IH [OF b(1), of "revalue b ?v th2 s" "insert b C"] less.prems w b(1) obtain ok' s' where
        i: "apply_walk keys scr False ?p (revalue b ?v th2 s) = Ok (ok', s')" "tabq s' = tabq s" "length (tabh s') = length (tabh s)"
          "static (tabb (revalue b ?v th2 s)) (tabb s')" "sound keys scr s' (insert root M)"
          "complete keys scr s' (if ok' then insert b C \<union> pathb (tabq s) ?p else insert b C - pathb (tabq s) ?p)"
          "\<forall>c. c \<notin> pathb (tabq s) ?p \<longrightarrow> val_b (tabb s' ! c) = val_b (tabb (revalue b ?v th2 s) ! c)" by (auto cong: if_cong)
      have "complete keys scr s' (if ok' then C \<union> pathb (tabq s) c else C - pathb (tabq s) c)"
        by (rule complete_mono [OF i(6)]) (auto simp: b(7))
      moreover have "static (tabb s) (tabb s')" using static_trans [OF static_revalue i(4)] .
      moreover have "\<forall>x. x \<notin> pathb (tabq s) c \<longrightarrow> val_b (tabb s' ! x) = val_b (tabb s ! x)" using i(7) bl by (simp add: b(7))
      ultimately show ?thesis using a i True by simp
    next
      case False
      have "complete keys scr (revalue b ?v th2 s) (C - pathb (tabq s) c)"
        by (rule complete_mono [OF w(5)]) (use False in \<open>auto simp: b(7)\<close>)
      then show ?thesis using a w False bl by (auto simp: b(7))
    qed
  qed
qed

lemma cur_back:
  assumes "b < length (tabb s)" "\<forall>x\<in>R. val_b (tabb s ! x) = val_b (tb ! x)" "inj_on (cur keys scr tb) {k. k < length keys \<and> bof keys k \<in> M}" "insert b R \<subseteq> M"
  shows "inj_on (cur keys scr (tabb (revalue b (val_b (tb ! b)) th s))) {k. k < length keys \<and> bof keys k \<in> insert b R}"
proof -
  have "inj_on (cur keys scr tb) {k. k < length keys \<and> bof keys k \<in> insert b R}" using assms(3,4) by (auto intro: inj_on_subset)
  moreover have "cur keys scr (tabb (revalue b (val_b (tb ! b)) th s)) k = cur keys scr tb k" if "bof keys k \<in> insert b R" for k
    using that assms(1,2) by (auto simp: cur_def)
  ultimately show ?thesis by (simp add: inj_on_def)
qed

lemma walk_back:
  "tree_ok keys scr (length (tabh s)) tb M root (tabq s) tail \<Longrightarrow> c < tail \<Longrightarrow> sound keys scr s (insert root M) \<Longrightarrow>
   complete keys scr s R \<Longrightarrow> R \<subseteq> M \<Longrightarrow> \<forall>b\<in>R. val_b (tabb s ! b) = val_b (tb ! b) \<Longrightarrow> root \<notin> M \<Longrightarrow> length (tabb s) = length tb \<Longrightarrow>
   \<forall>b<length tb. fits keys scr (length (tabh s)) b (val_b (tb ! b)) \<Longrightarrow> inj_on (cur keys scr tb) {k. k < length keys \<and> bof keys k \<in> M} \<Longrightarrow>
   \<exists>s'. apply_walk keys scr True c s = Ok (True, s') \<and> tabq s' = tabq s \<and> length (tabh s') = length (tabh s) \<and> static (tabb s) (tabb s') \<and>
     sound keys scr s' (if c = 0 then insert root M else M) \<and> complete keys scr s' (R \<union> (pathb (tabq s) c - {root})) \<and>
     (\<forall>b. val_b (tabb s' ! b) = (if b \<in> pathb (tabq s) c then val_b (tb ! b) else val_b (tabb s ! b)))"
proof (induction c arbitrary: s R rule: less_induct)
  case (less c)
  show ?case
  proof (cases "c = 0")
    case True
    then show ?thesis using less.prems by (auto simp: apply_walk.simps)
  next
    case False
    let ?p = "parent_q (tabq s ! c)"
    obtain b where b: "?p < c" "c < length (tabq s)" "b_q (tabq s ! ?p) = Some b" "b < length tb" "if ?p = 0 then b = root else b \<in> M"
        "oldval_q (tabq s ! c) = val_b (tb ! b)" "pathb (tabq s) c = insert b (pathb (tabq s) ?p)"
      using tree_okD [OF less.prems(1), of c] less.prems(2) False by auto
    let ?v = "val_b (tb ! b)"
    have bl: "b < length (tabb s)" and f: "fits keys scr (length (tabh s)) b ?v" using b(4) less.prems(8,9) by simp_all
    then have vs: "unat ?v < length scr" by (simp add: fits_def)
    note step = walk_step [OF _ b(2,1,3) bl soundD(2) [OF less.prems(3) bl] vs, of keys _ True]
    show ?thesis
    proof (cases "?p = 0")
      case True
      then have r: "b = root" using b(5) by simp
      from r less.prems(5,7) have "b \<notin> R" by auto
      from walk_drop [OF less.prems(3) bl this f less.prems(4)] obtain th1 where
        w: "erase_keys keys (scr ! unat (val_b (tabb s ! b))) (list_b (tabb s ! b)) (tabh s) = Ok th1" "length th1 = length (tabh s)"
          "sound keys scr (revalue b ?v th1 s) (insert root M - {b})" "complete keys scr (revalue b ?v th1 s) R" by auto
      have "apply_walk keys scr True c s = Ok (True, revalue b ?v th1 s)"
        using step [OF _ w(1)] False True b(6) by (simp add: apply_walk.simps [of _ _ _ 0])
      moreover have "insert root M - {b} = M" using r less.prems(7) by simp
      ultimately show ?thesis using w True b(7) False r bl by auto
    next
      case p: False
      then have bM: "b \<in> M" using b(5) by simp
      from walk_put [OF less.prems(3) bl _ f less.prems(4) cur_back [OF bl less.prems(6,10)]] bM less.prems(5) obtain th1 th2 where
        w: "erase_keys keys (scr ! unat (val_b (tabb s ! b))) (list_b (tabb s ! b)) (tabh s) = Ok th1"
          "put_keys keys (scr ! unat ?v) (list_b (tabb s ! b)) th1 = Ok th2" "length th2 = length (tabh s)"
          "sound keys scr (revalue b ?v th2 s) (insert root M)" "complete keys scr (revalue b ?v th2 s) (insert b R)" by auto
      have a: "apply_walk keys scr True c s = apply_walk keys scr True ?p (revalue b ?v th2 s)"
        using step [OF _ w(1)] False p b(6) w(2) by simp
      have "\<forall>x\<in>insert b R. val_b (tabb (revalue b ?v th2 s) ! x) = val_b (tb ! x)" using less.prems(6) bl by auto
      with less.IH [OF b(1), of "revalue b ?v th2 s" "insert b R"] less.prems w b(1) bM obtain s' where
        i: "apply_walk keys scr True ?p (revalue b ?v th2 s) = Ok (True, s')" "tabq s' = tabq s" "length (tabh s') = length (tabh s)"
          "static (tabb (revalue b ?v th2 s)) (tabb s')" "sound keys scr s' (if ?p = 0 then insert root M else M)"
          "complete keys scr s' (insert b R \<union> (pathb (tabq s) ?p - {root}))"
          "\<forall>x. val_b (tabb s' ! x) = (if x \<in> pathb (tabq s) ?p then val_b (tb ! x) else val_b (tabb (revalue b ?v th2 s) ! x))" by (auto cong: if_cong)
      have "complete keys scr s' (R \<union> (pathb (tabq s) c - {root}))" by (rule complete_mono [OF i(6)]) (auto simp: b(7))
      moreover have "\<forall>x. val_b (tabb s' ! x) = (if x \<in> pathb (tabq s) c then val_b (tb ! x) else val_b (tabb s ! x))" using i(7) bl by (simp add: b(7))
      moreover have "static (tabb s) (tabb s')" using static_trans [OF static_revalue i(4)] .
      ultimately show ?thesis using a i(1-3,5) p False by simp
    qed
  qed
qed

section \<open>Applying a path\<close>

lemma placed_fits: "placed keys scr s M \<Longrightarrow> b < length (tabb s) \<Longrightarrow> fits keys scr (length (tabh s)) b (val_b (tabb s ! b))"
  using fits_own by (auto simp: placed_def sound_def)

lemma sound_mono: "sound keys scr s A \<Longrightarrow> A \<subseteq> B \<Longrightarrow> sound keys scr s B"
  by (auto simp: sound_def entries_ok_def)

text \<open>A path is applied as a whole, or not at all.\<close>

lemma apply_path_ok:
  assumes pl: "placed keys scr s M" and t: "tree_ok keys scr (length (tabh s)) (tabb s) M root (tabq s) tail" and root: "root \<notin> M" and tail: "1 < tail"
  shows "\<exists>ok s'. apply_path keys scr tail s = Ok (ok, s') \<and> tabq s' = tabq s \<and> length (tabh s') = length (tabh s) \<and>
     (if ok then static (tabb s) (tabb s') \<and> placed keys scr s' (insert root M) else tabb s' = tabb s \<and> placed keys scr s' M)"
proof -
  let ?P = "pathb (tabq s) (tail - 1)"
  have s: "sound keys scr s (insert root M)" and c: "complete keys scr s M" using pl sound_mono [of keys scr s M "insert root M"] by (auto simp: placed_def)
  have P: "?P \<subseteq> insert root M" "root \<in> ?P" "?P \<subseteq> {..<length (tabb s)}" using pathb_in [OF t, of "tail - 1"] tail by auto
  have tl: "tail - 1 < tail" using tail by simp
  from walk_forward [OF t tl s c refl] obtain ok s1 where
    f: "apply_walk keys scr False (tail - 1) s = Ok (ok, s1)" "tabq s1 = tabq s" "length (tabh s1) = length (tabh s)" "static (tabb s) (tabb s1)"
      "sound keys scr s1 (insert root M)" "complete keys scr s1 (if ok then M \<union> ?P else M - ?P)" "\<forall>b. b \<notin> ?P \<longrightarrow> val_b (tabb s1 ! b) = val_b (tabb s ! b)"
    by blast
  show ?thesis
  proof (cases ok)
    case True
    have "complete keys scr s1 (insert root M)" by (rule complete_mono [OF f(6)]) (use True P in auto)
    then show ?thesis using f True by (auto simp: apply_path_def placed_def)
  next
    case False
    have l: "length (tabb s1) = length (tabb s)" using f(4) by (simp add: static_def)
    have "\<exists>s'. apply_walk keys scr True (tail - 1) s1 = Ok (True, s') \<and> tabq s' = tabq s1 \<and> length (tabh s') = length (tabh s1) \<and> static (tabb s1) (tabb s') \<and>
      sound keys scr s' (if tail - 1 = 0 then insert root M else M) \<and> complete keys scr s' ((M - ?P) \<union> (pathb (tabq s1) (tail - 1) - {root})) \<and>
      (\<forall>b. val_b (tabb s' ! b) = (if b \<in> pathb (tabq s1) (tail - 1) then val_b (tabb s ! b) else val_b (tabb s1 ! b)))"
      by (rule walk_back [where tail = tail]) (use t f False l root tail placed_fits [OF pl] placed_inj [OF pl] in auto)
    then obtain s2 where
      r: "apply_walk keys scr True (tail - 1) s1 = Ok (True, s2)" "tabq s2 = tabq s" "length (tabh s2) = length (tabh s)" "static (tabb s1) (tabb s2)"
        "sound keys scr s2 M" "complete keys scr s2 ((M - ?P) \<union> (?P - {root}))" "\<forall>b. val_b (tabb s2 ! b) = val_b (tabb s ! b)"
      using f tail by auto
    have "tabb s2 = tabb s" using static_eq [OF static_trans [OF f(4) r(4)]] r(7) by simp
    moreover have "complete keys scr s2 M" by (rule complete_mono [OF r(6)]) (use root in auto)
    ultimately show ?thesis using f(1) r False by (auto simp: apply_path_def placed_def)
  qed
qed

end
