(* ===== verification/Perfect_Search.thy ===== *)
theory Perfect_Search
  imports Perfect_Path
begin

text \<open>
  The search for augmenting paths: the queue holds a spanning tree over distinct groups, so it never
  overflows, and the search adds the root to the groups that are mapped or leaves everything as it was. Mapping all groups
  gives a perfect hash.
\<close>

section \<open>The queue\<close>

text \<open>What stays of the table during the search.\<close>

definition shape :: "bstuff list \<Rightarrow> bstuff list \<Rightarrow> bool" where
  "shape tb tb' \<longleftrightarrow> length tb' = length tb \<and> (\<forall>b<length tb. list_b (tb' ! b) = list_b (tb ! b) \<and> listlen_b (tb' ! b) = listlen_b (tb ! b))"

definition frame :: "psearch \<Rightarrow> psearch \<Rightarrow> bool" where
  "frame s s' \<longleftrightarrow> shape (tabb s) (tabb s') \<and> length (tabh s') = length (tabh s) \<and> length (tabq s') = length (tabq s)"

lemma frame_refl [simp]: "frame s s"
  by (simp add: frame_def shape_def)

lemma frame_trans [trans]: "frame s s' \<Longrightarrow> frame s' s'' \<Longrightarrow> frame s s''"
  by (simp add: frame_def shape_def)

definition queued :: "nat set \<Rightarrow> nat \<Rightarrow> nat \<Rightarrow> nat \<Rightarrow> psearch \<Rightarrow> bool" where
  "queued M root hw tail s \<longleftrightarrow> root \<notin> M \<and> root < length (tabb s) \<and> M \<subseteq> {..<length (tabb s)} \<and> length (tabq s) = length (tabb s) + 1 \<and>
     1 \<le> tail \<and> b_q (tabq s ! 0) = Some root \<and> inj_on (\<lambda>c. b_q (tabq s ! c)) {1..<tail} \<and>
     (\<forall>c\<in>{1..<tail}. \<exists>b\<in>M. b_q (tabq s ! c) = Some b \<and> water_b (tabb s ! b) = hw)"

definition qinv :: "pkey list \<Rightarrow> u32 list \<Rightarrow> nat set \<Rightarrow> nat \<Rightarrow> nat \<Rightarrow> nat \<Rightarrow> psearch \<Rightarrow> bool" where
  "qinv keys scr M root hw tail s \<longleftrightarrow> placed keys scr s M \<and> queued M root hw tail s \<and>
     tree_ok keys scr (length (tabh s)) (tabb s) M root (tabq s) tail"

text \<open>The nodes of the queue are distinct groups, so there is always room for one more.\<close>

lemma queued_room:
  assumes "queued M root hw tail s"
  shows "tail < length (tabq s)"
proof -
  have fin: "finite M" using assms by (auto simp: queued_def intro: finite_subset [of _ "{..<length (tabb s)}"])
  have "(\<lambda>c. b_q (tabq s ! c)) ` {1..<tail} \<subseteq> Some ` M" using assms by (force simp: queued_def)
  then have "card {1..<tail} \<le> card (Some ` M)"
    using assms fin by (metis card_image card_mono finite_imageI queued_def)
  also have "\<dots> = card M" by (simp add: card_image)
  also have "card (insert root M) \<le> card {..<length (tabb s)}"
    using assms by (intro card_mono) (auto simp: queued_def)
  ultimately show ?thesis using assms fin by (simp add: queued_def)
qed

lemma queued_node:
  "queued M root hw tail s \<Longrightarrow> q < tail \<Longrightarrow>
   \<exists>b. b_q (tabq s ! q) = Some b \<and> b < length (tabb s) \<and> (if q = 0 then b = root else b \<in> M)"
  by (cases "q = 0") (auto simp: queued_def Ball_def Bex_def; metis Suc_leI lessThan_iff not_gr_zero subset_iff)+

section \<open>One value\<close>

lemma probe_ok:
  "placed keys scr s M \<Longrightarrow> M \<subseteq> {..<length (tabb s)} \<Longrightarrow> hh = length (tabh s) \<Longrightarrow>
   \<exists>r. probe keys hh hw s st ks cb = Ok r \<and>
     (\<forall>r'. r = Some r' \<longrightarrow> (\<forall>k\<in>set ks. hash_at keys st k < hh) \<and>
        (\<forall>c. r' = Some c \<longrightarrow> cb = Some c \<or> c \<in> M \<and> water_b (tabb s ! c) \<noteq> hw))"
proof (induction ks arbitrary: cb)
  case (Cons k ks)
  let ?h = "hash_at keys st k"
  show ?case
  proof (cases "?h < hh \<and> (\<exists>ck. tabh s ! ?h = Some ck)")
    case True
    then obtain ck where ck: "tabh s ! ?h = Some ck" "?h < hh" by blast
    have b: "bof keys ck \<in> M" using ck Cons.prems soundD(4) [of keys scr s M ?h ck] by (simp add: placed_def)
    then have "unat (b_k (keys ! ck)) < length (tabb s)" using Cons.prems(2) by (auto simp: bof_def)
    then show ?thesis using ck b Cons.IH [OF Cons.prems, of cb] Cons.IH [OF Cons.prems, of "Some (bof keys ck)"] Cons.prems(3)
      by (auto simp: Let_def bof_def split: option.splits)
  next
    case False
    then show ?thesis using Cons.IH [OF Cons.prems, of cb] Cons.prems(3) by (cases "?h < hh") (auto simp: Let_def)
  qed
qed simp

section \<open>Adding to the queue\<close>

lemma placed_upd:
  assumes p: "placed keys scr s M" and sh: "shape (tabb s) (tabb s')" and v: "\<forall>b<length (tabb s). val_b (tabb s' ! b) = val_b (tabb s ! b)" and h: "tabh s' = tabh s"
  shows "placed keys scr s' M"
proof -
  have g: "grouped keys (tabb s)" using p by (simp add: placed_def sound_def)
  then have "cur keys scr (tabb s') k = cur keys scr (tabb s) k" if "k < length keys" for k
    using v that groupedD(1) by (simp add: cur_def)
  moreover have "grouped keys (tabb s')" using g sh by (auto simp: grouped_def shape_def)
  ultimately show ?thesis using p v h sh
    by (auto simp: placed_def sound_def in_range_def entries_ok_def complete_def shape_def)
qed

lemma tree_ok_upd:
  assumes "tree_ok keys scr nh tb M root tq tail" "length tb' = length tb" "\<forall>b<length tb. val_b (tb' ! b) = val_b (tb ! b)"
    "length tq' = length tq" "\<forall>c<tail. tq' ! c = tq ! c"
  shows "tree_ok keys scr nh tb' M root tq' tail"
  using assms by (auto simp: tree_ok_def node_ok_def split: option.splits)

text \<open>The entry that \<open>augment\<close> writes at the tail.\<close>

definition push :: "nat \<Rightarrow> nat option \<Rightarrow> nat \<Rightarrow> nat \<Rightarrow> u16 \<Rightarrow> nat \<Rightarrow> psearch \<Rightarrow> psearch" where
  "push hw cb q myb v tail s =
     (let s1 = mark hw cb s in s1\<lparr>tabq := (tabq s1)[tail := \<lparr>b_q = cb, parent_q = q, newval_q = v, oldval_q = val_b (tabb s1 ! myb)\<rparr>]\<rparr>)"

lemma mark_same [simp]:
  "tabq (mark hw cb s) = tabq s" "tabh (mark hw cb s) = tabh s" "length (tabb (mark hw cb s)) = length (tabb s)"
  "val_b (tabb (mark hw cb s) ! b) = val_b (tabb s ! b)" "list_b (tabb (mark hw cb s) ! b) = list_b (tabb s ! b)"
  "listlen_b (tabb (mark hw cb s) ! b) = listlen_b (tabb s ! b)"
  "b < length (tabb s) \<Longrightarrow> water_b (tabb (mark hw cb s) ! b) = (if cb = Some b then hw else water_b (tabb s ! b))"
proof -
  have "val_b (xs[c := (xs ! c)\<lparr>water_b := hw\<rparr>] ! b) = val_b (xs ! b) \<and> list_b (xs[c := (xs ! c)\<lparr>water_b := hw\<rparr>] ! b) = list_b (xs ! b) \<and>
    listlen_b (xs[c := (xs ! c)\<lparr>water_b := hw\<rparr>] ! b) = listlen_b (xs ! b)" for c b and xs :: "bstuff list"
    by (cases "c < length xs") (auto simp: nth_list_update list_update_beyond)
  then show "val_b (tabb (mark hw cb s) ! b) = val_b (tabb s ! b)" "list_b (tabb (mark hw cb s) ! b) = list_b (tabb s ! b)"
    "listlen_b (tabb (mark hw cb s) ! b) = listlen_b (tabb s ! b)" by (simp_all add: mark_def split: option.splits)
qed (auto simp: mark_def nth_list_update split: option.splits)

lemma push_same [simp]:
  "tabh (push hw cb q myb v tail s) = tabh s" "tabb (push hw cb q myb v tail s) = tabb (mark hw cb s)"
  "length (tabq (push hw cb q myb v tail s)) = length (tabq s)" "c \<noteq> tail \<Longrightarrow> tabq (push hw cb q myb v tail s) ! c = tabq s ! c"
  "tail < length (tabq s) \<Longrightarrow> tabq (push hw cb q myb v tail s) ! tail = \<lparr>b_q = cb, parent_q = q, newval_q = v, oldval_q = val_b (tabb s ! myb)\<rparr>"
  by (auto simp: push_def Let_def)

lemma frame_push [simp]: "frame s (push hw cb q myb v tail s)"
  by (simp add: frame_def shape_def)

lemma placed_push: "placed keys scr s M \<Longrightarrow> placed keys scr (push hw cb q myb v tail s) M"
  by (rule placed_upd [of keys scr s]) (auto simp: shape_def)

lemma tree_push:
  assumes q: "qinv keys scr M root hw tail s" "q < tail" "b_q (tabq s ! q) = Some myb" and f: "fits keys scr (length (tabh s)) myb v"
  shows "tree_ok keys scr (length (tabh s)) (tabb (push hw cb q myb v tail s)) M root (tabq (push hw cb q myb v tail s)) (Suc tail)"
proof -
  let ?s = "push hw cb q myb v tail s"
  have room: "tail < length (tabq s)" and Q: "queued M root hw tail s" using q(1) queued_room by (auto simp: qinv_def)
  have t: "tree_ok keys scr (length (tabh s)) (tabb s) M root (tabq s) tail" using q(1) by (simp add: qinv_def)
  have "tree_ok keys scr (length (tabh s)) (tabb ?s) M root (tabq ?s) tail" by (rule tree_ok_upd [OF t]) simp_all
  moreover have "node_ok keys scr (length (tabh s)) (tabb ?s) M root (tabq ?s) tail"
    using queued_node [OF Q q(2)] q(2,3) f room by (simp add: node_ok_def split: if_splits)
  ultimately show ?thesis using room by (auto simp: tree_ok_def less_Suc_eq)
qed

lemma queued_push:
  assumes Q: "queued M root hw tail s" and c: "c \<in> M" "water_b (tabb s ! c) \<noteq> hw"
  shows "queued M root hw (Suc tail) (push hw (Some c) q myb v tail s)"
proof -
  let ?s = "push hw (Some c) q myb v tail s"
  have room: "tail < length (tabq s)" and t: "1 \<le> tail" using Q queued_room by (auto simp: queued_def)
  have old: "\<exists>b\<in>M. b_q (tabq s ! x) = Some b \<and> water_b (tabb s ! b) = hw" if "x \<in> {1..<tail}" for x using Q that by (auto simp: queued_def)
  have lt: "b < length (tabb s)" if "b \<in> M" for b using Q that by (auto simp: queued_def)
  have "\<exists>b\<in>M. b_q (tabq ?s ! x) = Some b \<and> water_b (tabb ?s ! b) = hw" if x: "x \<in> {1..<Suc tail}" for x
  proof (cases "x = tail")
    case True
    then show ?thesis using room c lt by simp
  next
    case False
    then obtain b where "b \<in> M" "b_q (tabq s ! x) = Some b" "water_b (tabb s ! b) = hw" using old [of x] x by auto
    then show ?thesis using False lt by (intro bexI [of _ b]) auto
  qed
  moreover have "inj_on (\<lambda>x. b_q (tabq ?s ! x)) {1..<Suc tail}"
  proof -
    have "Some c \<noteq> b_q (tabq s ! x)" if "x \<in> {1..<tail}" for x using old [OF that] c(2) by auto
    then have "Some c \<notin> (\<lambda>x. b_q (tabq s ! x)) ` {1..<tail}" by blast
    moreover have "inj_on (\<lambda>x. b_q (tabq s ! x)) {1..<tail}" using Q by (simp add: queued_def)
    moreover have "{1..<Suc tail} = insert tail {1..<tail}" using t by auto
    moreover have "(\<lambda>x. b_q (tabq ?s ! x)) ` {1..<tail} = (\<lambda>x. b_q (tabq s ! x)) ` {1..<tail}" by (rule image_cong) auto
    moreover have "inj_on (\<lambda>x. b_q (tabq ?s ! x)) {1..<tail} = inj_on (\<lambda>x. b_q (tabq s ! x)) {1..<tail}" by (rule inj_on_cong) auto
    ultimately show ?thesis using room by (simp add: inj_on_insert)
  qed
  ultimately show ?thesis using Q t by (simp add: queued_def)
qed

lemma queued_upd:
  assumes "queued M root hw tail s" "\<forall>c<tail. tabq s' ! c = tabq s ! c" "length (tabq s') = length (tabq s)"
    "length (tabb s') = length (tabb s)" "\<forall>b<length (tabb s). water_b (tabb s' ! b) = water_b (tabb s ! b)"
  shows "queued M root hw tail s'"
proof -
  have "inj_on (\<lambda>c. b_q (tabq s' ! c)) {1..<tail} = inj_on (\<lambda>c. b_q (tabq s ! c)) {1..<tail}" using assms(2) by (intro inj_on_cong) auto
  then show ?thesis using assms by (fastforce simp: queued_def)
qed

section \<open>The loops\<close>

lemma try_values_Cons:
  assumes "i < length scr" "probe keys hh hw s (scr ! i) (list_b (tabb s ! myb)) None = Ok r" "tail < length (tabq s)"
  shows "try_values keys scr hh hw q myb (i # is) tail s = (case r of
     None \<Rightarrow> try_values keys scr hh hw q myb is tail s
   | Some (Some c) \<Rightarrow> try_values keys scr hh hw q myb is (tail + 1) (push hw (Some c) q myb (word_of_nat i) tail s)
   | Some None \<Rightarrow> res_bind (apply_path keys scr (tail + 1) (push hw None q myb (word_of_nat i) tail s)) (\<lambda>(ok, s3).
       if ok then Ok (True, tail, s3) else try_values keys scr hh hw q myb is tail s3))"
  using assms by (simp add: scramble_at_def push_def Let_def split: option.splits)

text \<open>What a round of the search gives.\<close>

definition search_res :: "pkey list \<Rightarrow> u32 list \<Rightarrow> nat set \<Rightarrow> nat \<Rightarrow> bool \<Rightarrow> psearch \<Rightarrow> psearch \<Rightarrow> bool" where
  "search_res keys scr M root found s s' \<longleftrightarrow> frame s s' \<and> placed keys scr s' (if found then insert root M else M)"

lemma try_values_ok:
  "qinv keys scr M root hw tail s \<Longrightarrow> q < tail \<Longrightarrow> b_q (tabq s ! q) = Some myb \<Longrightarrow> \<forall>i\<in>set is. i < length scr \<and> i < 65536 \<Longrightarrow> hh = length (tabh s) \<Longrightarrow>
   \<exists>found tail' s'. try_values keys scr hh hw q myb is tail s = Ok (found, tail', s') \<and> search_res keys scr M root found s s' \<and>
     (found \<or> qinv keys scr M root hw tail' s' \<and> tail \<le> tail' \<and> (\<forall>c<tail. tabq s' ! c = tabq s ! c))"
proof (induction "is" arbitrary: tail s)
  case Nil
  then show ?case by (auto simp: qinv_def search_res_def)
next
  case (Cons i "is")
  let ?v = "word_of_nat i :: u16" and ?st = "scr ! i"
  have Q: "queued M root hw tail s" and pl: "placed keys scr s M" and t: "tree_ok keys scr (length (tabh s)) (tabb s) M root (tabq s) tail"
    using Cons.prems(1) by (auto simp: qinv_def)
  note room = queued_room [OF Q]
  have i: "i < length scr" "unat ?v = i" using Cons.prems(4) by (auto simp: unat_of_nat take_bit_nat_eq_self)
  have M: "M \<subseteq> {..<length (tabb s)}" "1 \<le> tail" "root \<notin> M" using Q by (auto simp: queued_def)
  from probe_ok [OF pl M(1) Cons.prems(5), of hw ?st "list_b (tabb s ! myb)" None] obtain r where
    r: "probe keys hh hw s ?st (list_b (tabb s ! myb)) None = Ok r"
      "\<And>r'. r = Some r' \<Longrightarrow> (\<forall>k\<in>set (list_b (tabb s ! myb)). hash_at keys ?st k < hh) \<and> (\<forall>c. r' = Some c \<longrightarrow> c \<in> M \<and> water_b (tabb s ! c) \<noteq> hw)" by auto
  note step = try_values_Cons [OF i(1) r(1) room, of q "is"]
  have fit: "fits keys scr (length (tabh s)) myb ?v" if "r = Some r'" for r'
    using r(2) [OF that] i Cons.prems(5) groupedD(2) [OF soundD(1)] pl queued_node [OF Q Cons.prems(2)] Cons.prems(3) by (auto simp: fits_def placed_def)
  have IH: "\<exists>found tail' s''. try_values keys scr hh hw q myb is t' s' = Ok (found, tail', s'') \<and> search_res keys scr M root found s s'' \<and>
     (found \<or> qinv keys scr M root hw tail' s'' \<and> tail \<le> tail' \<and> (\<forall>c<tail. tabq s'' ! c = tabq s ! c))"
    if s': "qinv keys scr M root hw t' s'" "frame s s'" "tail \<le> t'" "\<forall>c<tail. tabq s' ! c = tabq s ! c" for s' t'
  proof -
    have "hh = length (tabh s')" "b_q (tabq s' ! q) = Some myb" "q < t'" using s' Cons.prems(2,3,5) by (auto simp: frame_def)
    with Cons.IH [of t' s'] s'(1) Cons.prems(4) obtain found tail' s'' where
      "try_values keys scr hh hw q myb is t' s' = Ok (found, tail', s'')" "search_res keys scr M root found s' s''"
      "found \<or> qinv keys scr M root hw tail' s'' \<and> t' \<le> tail' \<and> (\<forall>c<t'. tabq s'' ! c = tabq s' ! c)" by auto
    then show ?thesis using s'(2-4) frame_trans [OF s'(2)] by (auto simp: search_res_def)
  qed
  consider "r = None" | c where "r = Some (Some c)" | "r = Some None" by (metis option.exhaust)
  then show ?case
  proof cases
    case 1
    then show ?thesis using step IH [OF Cons.prems(1)] by simp
  next
    case (2 c)
    let ?s = "push hw (Some c) q myb ?v tail s"
    have "qinv keys scr M root hw (Suc tail) ?s"
      using placed_push [OF pl] queued_push [OF Q] r(2) [OF 2] tree_push [OF Cons.prems(1-3) fit [OF 2], of "Some c"] by (simp add: qinv_def)
    from IH [OF this] 2 step show ?thesis by simp
  next
    case 3
    let ?s = "push hw None q myb ?v tail s"
    have pt: "tree_ok keys scr (length (tabh ?s)) (tabb ?s) M root (tabq ?s) (Suc tail)" using tree_push [OF Cons.prems(1-3) fit [OF 3], of None] by simp
    from apply_path_ok [OF placed_push [OF pl] pt M(3)] M(2) obtain ok s3 where
      a: "apply_path keys scr (Suc tail) ?s = Ok (ok, s3)" "tabq s3 = tabq ?s" "length (tabh s3) = length (tabh s)"
        "if ok then static (tabb ?s) (tabb s3) \<and> placed keys scr s3 (insert root M) else tabb s3 = tabb ?s \<and> placed keys scr s3 M" by auto
    have fr: "frame s s3" using a(2-4) frame_push [of s hw None q myb ?v tail] by (auto simp: frame_def shape_def static_def split: if_splits)
    show ?thesis
    proof (cases ok)
      case True
      then show ?thesis using 3 step a fr by (auto simp: search_res_def)
    next
      case False
      have same: "tabb s3 = tabb s" "\<forall>c<tail. tabq s3 ! c = tabq s ! c" "length (tabq s3) = length (tabq s)" using a(2,4) False by (auto simp: mark_def)
      then have "qinv keys scr M root hw tail s3"
        using a(3,4) False queued_upd [OF Q same(2,3)] tree_ok_upd [OF t] by (simp add: qinv_def)
      from IH [OF this fr _ same(2)] 3 step a(1) False show ?thesis by simp
    qed
  qed
qed

lemma queue_loop_ok:
  "qinv keys scr M root hw tail s \<Longrightarrow> limit \<le> length scr \<Longrightarrow> limit \<le> 65536 \<Longrightarrow> hh = length (tabh s) \<Longrightarrow> nq = length (tabq s) \<Longrightarrow>
   \<exists>found s'. queue_loop keys scr limit hh hw closure nq q tail s = Ok (found, s') \<and> search_res keys scr M root found s s'"
proof (induction "nq - q" arbitrary: q tail s rule: less_induct)
  case less
  note eq = queue_loop.simps [of keys scr limit hh hw closure nq q tail s]
  show ?case
  proof (cases "q < tail \<and> (closure \<or> q \<noteq> 1)")
    case False
    then show ?thesis using eq less.prems(1) by (auto simp: qinv_def search_res_def)
  next
    case True
    have Q: "queued M root hw tail s" using less.prems(1) by (simp add: qinv_def)
    have qn: "q < nq" using True queued_room [OF Q] less.prems(5) by simp
    from queued_node [OF Q] True obtain myb where b: "b_q (tabq s ! q) = Some myb" by blast
    have "\<forall>i\<in>set [0..<limit]. i < length scr \<and> i < 65536" using less.prems(2,3) by auto
    from try_values_ok [OF less.prems(1) _ b this less.prems(4)] True obtain found tail' s' where
      t: "try_values keys scr hh hw q myb [0..<limit] tail s = Ok (found, tail', s')" "search_res keys scr M root found s s'"
        "found \<or> qinv keys scr M root hw tail' s'" by blast
    show ?thesis
    proof (cases found)
      case True
      then show ?thesis using eq t qn b \<open>q < tail \<and> _\<close> by auto
    next
      case False
      have fr: "frame s s'" using t(2) by (simp add: search_res_def)
      have "\<exists>found s''. queue_loop keys scr limit hh hw closure nq (q + 1) tail' s' = Ok (found, s'') \<and> search_res keys scr M root found s' s''"
        by (rule less.hyps) (use False t(3) less.prems fr qn in \<open>auto simp: frame_def\<close>)
      then obtain found2 s'' where "queue_loop keys scr limit hh hw closure nq (q + 1) tail' s' = Ok (found2, s'')" "search_res keys scr M root found2 s' s''"
        by blast
      then show ?thesis using eq t(1) qn b False \<open>q < tail \<and> _\<close> frame_trans [OF fr] by (auto simp: search_res_def)
    qed
  qed
qed

text \<open>The values that are tried fit into the table of values and into the scramble table.\<close>

definition value_limit :: "nat \<Rightarrow> nat \<Rightarrow> nat" where
  "value_limit blen smax = (if blen < USE_SCRAMBLE then smax else 256)"

lemma augment_ok:
  assumes pl: "placed keys scr s M" and item: "item \<notin> M" "item < length (tabb s)" "M \<subseteq> {..<length (tabb s)}"
    and l: "length (tabq s) = length (tabb s) + 1" "length (tabh s) = high_hash form (length keys) smax" "value_limit blen smax \<le> length scr" "value_limit blen smax \<le> 65536"
  shows "\<exists>found s'. augment keys scr blen smax item hw form s = Ok (found, s') \<and> search_res keys scr M item found s s'"
proof -
  let ?s = "s\<lparr>tabq := (tabq s)[0 := (tabq s ! 0)\<lparr>b_q := Some item\<rparr>]\<rparr>"
  have "placed keys scr ?s M" by (rule placed_upd [OF pl]) (auto simp: shape_def)
  then have "qinv keys scr M item hw 1 ?s" using item l(1) by (auto simp: qinv_def queued_def tree_ok_def)
  from queue_loop_ok [OF this l(3,4) _ refl, of "high_hash form (length keys) smax" "speed form = SLOW_HS \<or> hperfect form = MINIMAL_HP" 0] l(2)
  show ?thesis by (auto simp: augment_def value_limit_def Let_def search_res_def frame_def)
qed

lemma perfect_loop_ok:
  "placed keys scr s M \<Longrightarrow> M \<subseteq> {..<length (tabb s)} \<Longrightarrow> distinct is \<Longrightarrow> set is \<inter> M = {} \<Longrightarrow> set is \<subseteq> {..<length (tabb s)} \<Longrightarrow>
   length (tabq s) = length (tabb s) + 1 \<Longrightarrow> length (tabh s) = high_hash form (length keys) smax \<Longrightarrow> value_limit blen smax \<le> length scr \<Longrightarrow> value_limit blen smax \<le> 65536 \<Longrightarrow>
   \<exists>ok s'. perfect_loop keys scr blen smax form is s = Ok (ok, s') \<and> frame s s' \<and> (ok \<longrightarrow> placed keys scr s' (M \<union> set is)) \<and> (\<exists>B. placed keys scr s' B)"
proof (induction "is" arbitrary: s M)
  case Nil
  then show ?case by auto
next
  case (Cons i "is")
  from augment_ok [OF Cons.prems(1) _ _ Cons.prems(2,6-9), of i "i + 1"] Cons.prems(4,5) obtain found s1 where
    a: "augment keys scr blen smax i (i + 1) form s = Ok (found, s1)" "search_res keys scr M i found s s1" by auto
  have fr: "frame s s1" using a(2) by (simp add: search_res_def)
  show ?case
  proof (cases found)
    case True
    have "\<exists>ok s'. perfect_loop keys scr blen smax form is s1 = Ok (ok, s') \<and> frame s1 s' \<and> (ok \<longrightarrow> placed keys scr s' (insert i M \<union> set is)) \<and> (\<exists>B. placed keys scr s' B)"
      by (rule Cons.IH) (use True a(2) fr Cons.prems in \<open>auto simp: search_res_def frame_def shape_def\<close>)
    then show ?thesis using a(1) True frame_trans [OF fr] by auto
  next
    case False
    then show ?thesis using a fr by (auto simp: search_res_def)
  qed
qed

section \<open>All groups\<close>

lemma fold_max_ge: "x \<in> set xs \<Longrightarrow> x \<le> fold max xs (0 :: nat)"
  using Max_ge [of "set (0 # xs)" x] by (simp add: Max.set_eq_fold [symmetric])

lemma set_by_size: "set (by_size tb) = {b. b < length tb \<and> 1 \<le> listlen_b (tb ! b)}"
proof -
  have "listlen_b (tb ! b) \<le> fold max (map listlen_b tb) 0" if "b < length tb" for b using that by (intro fold_max_ge) simp
  then show ?thesis by (auto simp: by_size_def less_Suc_eq_le) (meson order_trans le_neq_implies_less)+
qed

lemma distinct_by_size: "distinct (by_size tb)"
proof -
  have "distinct js \<Longrightarrow> distinct (concat (map (\<lambda>j. filter (\<lambda>i. listlen_b (tb ! i) = j) [0..<length tb]) js))" for js
    by (induction js) auto
  then show ?thesis by (simp add: by_size_def)
qed

text \<open>The table of values as it goes into the search, and the hash that comes out of it.\<close>

definition table_ok :: "pkey list \<Rightarrow> u32 list \<Rightarrow> nat \<Rightarrow> bstuff list \<Rightarrow> bool" where
  "table_ok keys scr hh tb \<longleftrightarrow> grouped keys tb \<and> (\<forall>b<length tb. unat (val_b (tb ! b)) < length scr) \<and> (\<forall>k<length keys. cur keys scr tb k < hh)"

definition is_perfect :: "pkey list \<Rightarrow> u32 list \<Rightarrow> nat \<Rightarrow> bstuff list \<Rightarrow> bool" where
  "is_perfect keys scr hh tb \<longleftrightarrow> inj_on (cur keys scr tb) {..<length keys} \<and> (\<forall>k<length keys. cur keys scr tb k < hh)"

lemma perfect_ok:
  assumes t: "table_ok keys scr (high_hash form (length keys) smax) tb" and l: "length tb = blen" "value_limit blen smax \<le> length scr" "value_limit blen smax \<le> 65536"
  shows "\<exists>ok tb'. perfect keys scr blen smax form tb = Ok (ok, tb') \<and> length tb' = blen \<and>
     table_ok keys scr (high_hash form (length keys) smax) tb' \<and> (ok \<longrightarrow> is_perfect keys scr (high_hash form (length keys) smax) tb')"
proof -
  let ?hh = "high_hash form (length keys) smax"
  let ?s = "\<lparr>tabb = tb, tabh = replicate ?hh None, tabq = replicate (blen + 1) no_qstuff\<rparr>"
  have "placed keys scr ?s {}" using t by (auto simp: placed_def sound_def table_ok_def in_range_def entries_ok_def complete_def)
  from perfect_loop_ok [OF this _ distinct_by_size _ _ _ _ l(2,3), of tb form] l(1) obtain ok s' where
    p: "perfect_loop keys scr blen smax form (by_size tb) ?s = Ok (ok, s')" "frame ?s s'" "ok \<longrightarrow> placed keys scr s' (set (by_size tb))" "\<exists>B. placed keys scr s' B"
    by (auto simp: set_by_size)
  have r: "table_ok keys scr ?hh (tabb s')" "length (tabb s') = blen" using p(2,4) l(1) by (auto simp: placed_def sound_def table_ok_def in_range_def frame_def shape_def)
  have "is_perfect keys scr ?hh (tabb s')" if ok
  proof -
    have g: "grouped keys tb" using t by (simp add: table_ok_def)
    have "bof keys k \<in> set (by_size tb)" if k: "k < length keys" for k
    proof -
      have b: "bof keys k < length tb" using groupedD(1) [OF g k] .
      then have "k \<in> set (list_b (tb ! bof keys k))" using groupedD(2) [OF g b] k by simp
      then show ?thesis using b groupedD(3) [OF g b] by (cases "list_b (tb ! bof keys k)") (auto simp: set_by_size)
    qed
    then have "{k. k < length keys \<and> bof keys k \<in> set (by_size tb)} = {..<length keys}" by auto
    then show ?thesis using placed_inj [of keys scr s' "set (by_size tb)"] p(3) that r(1) by (auto simp: is_perfect_def table_ok_def)
  qed
  then show ?thesis using p(1) r by (auto simp: perfect_def)
qed

section \<open>Values stay below the limit\<close>

definition vals_lt :: "nat \<Rightarrow> nat \<Rightarrow> psearch \<Rightarrow> bool" where
  "vals_lt L n s \<longleftrightarrow> length (tabb s) = n \<and> length (tabq s) = n + 1 \<and> (\<forall>x\<in>set (tabb s). unat (val_b x) < L) \<and>
     (\<forall>q\<in>set (tabq s). unat (newval_q q) < L \<and> unat (oldval_q q) < L \<and> (\<forall>b. b_q q = Some b \<longrightarrow> b < n))"

lemma vals_lt_upd:
  assumes "vals_lt L n s" "unat v < L"
  shows "vals_lt L n (s\<lparr>tabb := (tabb s)[b := x\<lparr>val_b := v\<rparr>], tabh := th\<rparr>)"
  using assms set_update_subset_insert [of "tabb s" b "x\<lparr>val_b := v\<rparr>"] by (auto simp: vals_lt_def)

lemma vals_lt_q:
  assumes "vals_lt L n s" "unat (newval_q q) < L" "unat (oldval_q q) < L" "\<forall>b. b_q q = Some b \<longrightarrow> b < n"
  shows "vals_lt L n (s\<lparr>tabq := (tabq s)[c := q]\<rparr>)"
  using assms set_update_subset_insert [of "tabq s" c q] by (auto simp: vals_lt_def)

lemma apply_walk_Ok:
  assumes "apply_walk keys scr rb c s = Ok (ok, s')" "c \<noteq> 0"
  shows "c < length (tabq s) \<and> (\<exists>b v x th. (v = oldval_q (tabq s ! c) \<or> v = newval_q (tabq s ! c)) \<and>
    (s' = s\<lparr>tabb := (tabb s)[b := x\<lparr>val_b := v\<rparr>], tabh := th\<rparr> \<or>
     parent_q (tabq s ! c) < c \<and> apply_walk keys scr rb (parent_q (tabq s ! c)) (s\<lparr>tabb := (tabb s)[b := x\<lparr>val_b := v\<rparr>], tabh := th\<rparr>) = Ok (ok, s')))"
  using assms by (subst (asm) apply_walk.simps) (auto simp: Let_def res_bind_Ok_iff split: if_splits option.splits; blast)

lemma apply_walk_vals: "apply_walk keys scr rb c s = Ok (ok, s') \<Longrightarrow> vals_lt L n s \<Longrightarrow> vals_lt L n s'"
proof (induction c arbitrary: s rule: less_induct)
  case (less c)
  show ?case
  proof (cases "c = 0")
    case True
    then show ?thesis using less.prems by (simp add: apply_walk.simps)
  next
    case False
    from apply_walk_Ok [OF less.prems(1) False] obtain b v x th where
      c: "c < length (tabq s)" "v = oldval_q (tabq s ! c) \<or> v = newval_q (tabq s ! c)"
        "s' = s\<lparr>tabb := (tabb s)[b := x\<lparr>val_b := v\<rparr>], tabh := th\<rparr> \<or>
         parent_q (tabq s ! c) < c \<and> apply_walk keys scr rb (parent_q (tabq s ! c)) (s\<lparr>tabb := (tabb s)[b := x\<lparr>val_b := v\<rparr>], tabh := th\<rparr>) = Ok (ok, s')" by blast
    have "unat v < L" using c(1,2) less.prems(2) by (auto simp: vals_lt_def)
    from vals_lt_upd [OF less.prems(2) this] c(3) less.IH show ?thesis by blast
  qed
qed

lemma apply_path_vals: "apply_path keys scr tail s = Ok (ok, s') \<Longrightarrow> vals_lt L n s \<Longrightarrow> vals_lt L n s'"
  by (auto simp: apply_path_def res_bind_Ok_iff split: if_splits dest!: apply_walk_vals [where L = L and n = n])

lemma vals_lt_push:
  assumes s: "vals_lt L n s" and v: "unat v < L" and b: "myb < n" "\<forall>b. cb = Some b \<longrightarrow> b < n"
  shows "vals_lt L n (push hw cb q myb v tail s)"
proof -
  have "unat (val_b (tabb s ! i)) < L" if "i < n" for i using that s by (auto simp: vals_lt_def)
  then have m: "vals_lt L n (mark hw cb s)" and "unat (val_b (tabb s ! myb)) < L" using s b(1) by (auto simp: vals_lt_def in_set_conv_nth)
  then show ?thesis using vals_lt_q [OF m] v b(2) by (simp add: push_def Let_def)
qed

lemma probe_lt: "probe keys hh hw s st ks cb = Ok (Some (Some c)) \<Longrightarrow> cb = Some c \<or> c < length (tabb s)"
  by (induction ks arbitrary: cb) (auto simp: Let_def split: if_splits option.splits)

lemma try_values_vals:
  "try_values keys scr hh hw q myb is tail s = Ok (found, tail', s') \<Longrightarrow> vals_lt L n s \<Longrightarrow> \<forall>i\<in>set is. i < L \<and> i < 65536 \<Longrightarrow> myb < n \<Longrightarrow> vals_lt L n s'"
proof (induction "is" arbitrary: tail s)
  case (Cons i "is")
  obtain r where i: "i < length scr" and r: "probe keys hh hw s (scr ! i) (list_b (tabb s ! myb)) None = Ok r"
    using Cons.prems(1) by (auto simp: res_bind_Ok_iff scramble_at_def split: if_splits)
  have v: "unat (word_of_nat i :: u16) < L" using Cons.prems(3) by (simp add: unat_of_nat take_bit_nat_eq_self)
  show ?case
  proof (cases r)
    case None
    then show ?thesis using Cons.prems i r Cons.IH [of tail s] by (simp add: scramble_at_def)
  next
    case (Some cb)
    then have room: "tail < length (tabq s)" using Cons.prems(1) i r by (simp add: scramble_at_def split: if_splits)
    note step = try_values_Cons [OF i r room, of q "is"]
    have "\<forall>b. cb = Some b \<longrightarrow> b < n" using probe_lt [of keys hh hw s _ _ None] r Some Cons.prems(2) by (auto simp: vals_lt_def)
    note p = vals_lt_push [OF Cons.prems(2) v Cons.prems(4) this, of hw q tail]
    show ?thesis
    proof (cases cb)
      case None
      have "res_bind (apply_path keys scr (tail + 1) (push hw cb q myb (word_of_nat i) tail s)) (\<lambda>(ok, s3).
          if ok then Ok (True, tail, s3) else try_values keys scr hh hw q myb is tail s3) = Ok (found, tail', s')"
        using trans [OF step [symmetric] Cons.prems(1)] Some None by (simp del: try_values.simps)
      then obtain ok s3 where a: "apply_path keys scr (tail + 1) (push hw cb q myb (word_of_nat i) tail s) = Ok (ok, s3)"
        "if ok then s3 = s' else try_values keys scr hh hw q myb is tail s3 = Ok (found, tail', s')"
        by (auto simp: res_bind_Ok_iff split: if_splits simp del: try_values.simps)
      have "vals_lt L n s3" by (rule apply_path_vals [OF a(1) p])
      then show ?thesis using a(2) Cons.IH [of tail s3] Cons.prems(3,4) by (auto split: if_splits)
    next
      case (Some c)
      then show ?thesis using step \<open>r = Some cb\<close> Cons.prems p Cons.IH [of "tail + 1" "push hw cb q myb (word_of_nat i) tail s"] by (simp del: try_values.simps)
    qed
  qed
qed simp

lemma queue_loop_vals:
  "queue_loop keys scr L hh hw closure (n + 1) q tail s = Ok (found, s') \<Longrightarrow> vals_lt L n s \<Longrightarrow> L \<le> 65536 \<Longrightarrow> vals_lt L n s'"
proof (induction "n + 1 - q" arbitrary: q tail s rule: less_induct)
  case less
  note eq = queue_loop.simps [of keys scr L hh hw closure "n + 1" q tail s]
  show ?case
  proof (cases "q < tail \<and> (closure \<or> q \<noteq> 1)")
    case False
    then show ?thesis using eq less.prems by (auto split: if_splits)
  next
    case True
    then obtain myb where b: "q < n + 1" "b_q (tabq s ! q) = Some myb" using eq less.prems(1) by (auto split: if_splits option.splits)
    have "tabq s ! q \<in> set (tabq s)" using b(1) less.prems(2) by (simp add: vals_lt_def)
    then have mn: "myb < n" using less.prems(2) b(2) by (auto simp: vals_lt_def)
    from eq True b less.prems(1) obtain f t s1 where
      t: "try_values keys scr hh hw q myb [0..<L] tail s = Ok (f, t, s1)" "if f then s1 = s' else queue_loop keys scr L hh hw closure (n + 1) (q + 1) t s1 = Ok (found, s')"
      by (auto simp: res_bind_Ok_iff split: if_splits)
    have "vals_lt L n s1" using try_values_vals [OF t(1) less.prems(2) _ mn] less.prems(3) by auto
    then show ?thesis using t(2) less.hyps [of "q + 1" t s1] b(1) less.prems(3) by (auto split: if_splits)
  qed
qed

lemma augment_vals:
  assumes "augment keys scr blen smax item hw form s = Ok (found, s')" "vals_lt L n s" "L = value_limit blen smax" "L \<le> 65536" "item < n"
  shows "vals_lt L n s'"
proof -
  have "0 < length (tabq s)" using assms(2) by (simp add: vals_lt_def)
  then have "vals_lt L n (s\<lparr>tabq := (tabq s)[0 := (tabq s ! 0)\<lparr>b_q := Some item\<rparr>]\<rparr>)"
    using assms(2,5) nth_mem [of 0 "tabq s"] by (intro vals_lt_q) (auto simp: vals_lt_def)
  from queue_loop_vals [OF _ this assms(4)] show ?thesis
    using assms(1-3) unfolding augment_def Let_def value_limit_def [symmetric] by (simp add: vals_lt_def)
qed

lemma perfect_loop_vals:
  "perfect_loop keys scr blen smax form is s = Ok (ok, s') \<Longrightarrow> vals_lt L n s \<Longrightarrow> L = value_limit blen smax \<Longrightarrow> L \<le> 65536 \<Longrightarrow> \<forall>i\<in>set is. i < n \<Longrightarrow> vals_lt L n s'"
proof (induction "is" arbitrary: s)
  case (Cons i "is")
  then obtain f s1 where a: "augment keys scr blen smax i (i + 1) form s = Ok (f, s1)" "if f then perfect_loop keys scr blen smax form is s1 = Ok (ok, s') else s1 = s'"
    by (auto simp: res_bind_Ok_iff split: if_splits)
  have "vals_lt L n s1" using augment_vals [OF a(1) Cons.prems(2-4)] Cons.prems(5) by simp
  then show ?case using a(2) Cons.IH [of s1] Cons.prems by (auto split: if_splits)
qed simp

lemma perfect_vals:
  assumes "perfect keys scr (length tb) smax form tb = Ok (ok, tb')" "\<forall>x\<in>set tb. unat (val_b x) < L" "L = value_limit (length tb) smax" "L \<le> 65536" "0 < L"
  shows "\<forall>x\<in>set tb'. unat (val_b x) < L"
proof -
  let ?s = "\<lparr>tabb = tb, tabh = replicate (high_hash form (length keys) smax) None, tabq = replicate (length tb + 1) no_qstuff\<rparr>"
  have i: "vals_lt L (length tb) ?s" using assms(2,5) by (simp add: vals_lt_def no_qstuff_def)
  from assms(1) obtain s' where p: "perfect_loop keys scr (length tb) smax form (by_size tb) ?s = Ok (ok, s')" "tb' = tabb s'"
    by (auto simp: perfect_def res_bind_Ok_iff)
  show ?thesis using perfect_loop_vals [OF p(1) i assms(3,4)] p(2) by (auto simp: set_by_size vals_lt_def)
qed

end
