(* ===== verification/Perfect_Find.thy ===== *)
theory Perfect_Find
  imports Perfect_Search
begin

text \<open>
  From the keys to a perfect hash: the logarithm and the permutation behind the scramble table, the initial
  hash and the grouping of the keys, and the search over salts, which ends with a perfect hash or gives up.
\<close>

unbundle bit_operations_syntax

section \<open>Logarithm\<close>

lemma unat_push_1: "i < 32 \<Longrightarrow> unat (push_bit i 1 :: u32) = 2 ^ i"
  using unat_of_nat [of "2 ^ i", where 'a = 32] power_strict_increasing [of i 32 "2 :: nat"] by (simp add: push_bit_of_1)

lemma mylog2_loop_ok:
  "i \<le> 31 \<Longrightarrow> unat v \<le> 2 ^ 31 \<Longrightarrow> \<forall>j<i. 2 ^ j < unat v \<Longrightarrow>
   \<exists>r. mylog2_loop i v = Ok r \<and> r \<le> 31 \<and> unat v \<le> 2 ^ r \<and> (\<forall>j<r. 2 ^ j < unat v)"
proof (induction i v rule: mylog2_loop.induct)
  case (1 i v)
  show ?case
  proof (cases "push_bit i 1 < v")
    case True
    then have lt: "2 ^ i < unat v" using 1(2) unat_push_1 [of i] by (simp add: word_less_nat_alt)
    then have "i \<noteq> 31" using 1(3) by auto
    then have "\<exists>r. mylog2_loop (Suc i) v = Ok r \<and> r \<le> 31 \<and> unat v \<le> 2 ^ r \<and> (\<forall>j<r. 2 ^ j < unat v)"
      using 1(2-4) lt True by (intro 1(1)) (auto simp: less_Suc_eq)
    then show ?thesis using True 1(2) by (subst mylog2_loop.simps) simp
  next
    case False
    then have "unat v \<le> 2 ^ i" using 1(2) unat_push_1 [of i] by (simp add: word_less_nat_alt)
    then show ?thesis using False 1(2,4) by (subst mylog2_loop.simps) simp
  qed
qed

lemma mylog2_ok:
  assumes "n \<le> 2 ^ 31"
  shows "\<exists>r. mylog2 (word_of_nat n) = Ok r \<and> r \<le> 31 \<and> n \<le> 2 ^ r \<and> (\<forall>j<r. 2 ^ j < n)"
proof -
  have "unat (word_of_nat n :: u32) = n" using assms by (simp add: unat_of_nat take_bit_nat_eq_self)
  then show ?thesis using mylog2_loop_ok [of 0 "word_of_nat n"] assms by (simp add: mylog2_def)
qed

lemma mylog2_pow: "r \<le> 31 \<Longrightarrow> mylog2 (word_of_nat (2 ^ r)) = Ok r"
proof -
  assume r: "r \<le> 31"
  then have "(2 :: nat) ^ r \<le> 2 ^ 31" by (intro power_increasing) auto
  from mylog2_ok [OF this] obtain q where "mylog2 (word_of_nat (2 ^ r)) = Ok q" "(2 :: nat) ^ r \<le> 2 ^ q" "\<forall>j<q. (2 :: nat) ^ j < 2 ^ r" by blast
  then show ?thesis using power_le_imp_le_exp [of 2 r q] by (metis le_neq_implies_less less_irrefl one_less_numeral_iff semiring_norm(76))
qed

section \<open>The permutation\<close>

definition low_bits :: "nat \<Rightarrow> u32 \<Rightarrow> bool" where
  "low_bits n x \<longleftrightarrow> take_bit n x = x"

lemma mask_take_bit: "n < 32 \<Longrightarrow> x AND (push_bit n 1 - 1 :: u32) = take_bit n x"
  by (simp add: take_bit_eq_mask mask_eq_exp_minus_1 push_bit_of_1)

lemma take_bit_add_cong:
  fixes a b :: u32
  assumes "take_bit n a = take_bit n a'" "take_bit n b = take_bit n b'"
  shows "take_bit n (a + b) = take_bit n (a' + b')"
proof -
  have u: "uint (take_bit n (x + y)) = take_bit (min n 32) (uint (take_bit n x) + uint (take_bit n y))" for x y :: u32
  proof -
    let ?k = "min n 32"
    have "uint (x + y) = take_bit 32 (uint x + uint y)" by (simp add: uint_word_ariths take_bit_eq_mod)
    then have "uint (take_bit n (x + y)) = take_bit ?k (uint x + uint y)" by (simp add: unsigned_take_bit_eq take_bit_take_bit)
    also have "\<dots> = take_bit ?k (take_bit ?k (take_bit n (uint x)) + take_bit ?k (take_bit n (uint y)))"
      by (simp only: take_bit_take_bit min.left_idem min.commute [of _ n] min.assoc [symmetric] take_bit_add)
    also have "\<dots> = take_bit ?k (take_bit n (uint x) + take_bit n (uint y))" by (rule take_bit_add)
    finally show ?thesis by (simp add: unsigned_take_bit_eq)
  qed
  show ?thesis using u [of a b] u [of a' b'] assms by (simp add: word_uint_eq_iff)
qed

lemma take_bit_cancel:
  assumes "take_bit n (x + p) = take_bit n (y + q)" "take_bit n p = take_bit n (q :: u32)"
  shows "take_bit n x = take_bit n y"
proof -
  have "take_bit n (NOT p) = take_bit n (NOT q)" using assms(2) by (metis take_bit_not_take_bit)
  then have "take_bit n (NOT p + 1) = take_bit n (NOT q + 1)" by (rule take_bit_add_cong) (rule refl)
  then have "take_bit n (- p) = take_bit n (- q)" by (simp only: minus_eq_not_plus_1)
  with assms(1) have "take_bit n (x + p + - p) = take_bit n (y + q + - q)" by (rule take_bit_add_cong)
  then show ?thesis by simp
qed

lemma add_shift_inj:
  assumes "0 < c" "low_bits n x" "low_bits n y" "take_bit n (x + push_bit c x) = take_bit n (y + push_bit c (y :: u32))"
  shows "x = y"
proof -
  have "take_bit m x = take_bit m y" if "m \<le> n" for m
    using that
  proof (induction m)
    case (Suc m)
    have p: "take_bit (Suc m) (push_bit c z) = take_bit (Suc m) (push_bit c (take_bit m z))" for z :: u32
      by (rule bit_word_eqI) (use assms(1) in \<open>auto simp: bit_simps\<close>)
    have "take_bit m x = take_bit m y" using Suc by simp
    then have P: "take_bit (Suc m) (push_bit c x) = take_bit (Suc m) (push_bit c y)" using p [of x] p [of y] by simp
    have S: "take_bit (Suc m) (x + push_bit c x) = take_bit (Suc m) (y + push_bit c y)"
      using arg_cong [OF assms(4), of "take_bit (Suc m)"] Suc.prems by (simp add: min_absorb1)
    show ?case using take_bit_cancel [OF S P] .
  qed simp
  then show ?thesis using assms(2,3) by (metis low_bits_def order_refl)
qed

lemma xor_shift_inj:
  assumes "0 < c" "x XOR drop_bit c x = y XOR drop_bit c (y :: u32)"
  shows "x = y"
proof -
  have "\<forall>i\<ge>32 - m. bit x i = bit y i" if "m \<le> 32" for m
    using that
  proof (induction m)
    case 0
    then show ?case using bit_imp_le_length [of x] bit_imp_le_length [of y] by (simp add: linorder_not_less [symmetric]) blast
  next
    case (Suc m)
    let ?i = "31 - m"
    have "bit (x XOR drop_bit c x) ?i = bit (y XOR drop_bit c y) ?i" using assms(2) by simp
    moreover have "bit x (c + ?i) = bit y (c + ?i)" using Suc assms(1) by auto
    ultimately have "bit x ?i = bit y ?i" by (auto simp: bit_simps)
    moreover have "32 - Suc m = ?i" "32 - m = Suc ?i" using Suc.prems by auto
    ultimately show ?case using Suc.IH Suc.prems by (metis Suc_leD Suc_leI le_eq_less_or_eq)
  qed
  from this [of 32] show ?thesis by (intro bit_word_eqI) simp
qed

lemma low_bits_take [simp]: "low_bits n (take_bit n x)"
  by (simp add: low_bits_def)

lemma low_bits_bit: "low_bits n x \<longleftrightarrow> (\<forall>i\<ge>n. \<not> bit x i)"
  unfolding low_bits_def by (metis bit_eqI bit_take_bit_iff not_less)

lemma low_bits_xor: "low_bits n x \<Longrightarrow> low_bits n (x XOR drop_bit c x)"
  by (simp add: low_bits_bit bit_simps)

lemma low_bits_iff: "low_bits n x \<longleftrightarrow> unat x < 2 ^ n"
  by (simp add: low_bits_def word_unat_eq_iff unsigned_take_bit_eq take_bit_nat_eq_self_iff)

lemma permute_round_eq:
  assumes "n < 32"
  shows "permute_round n x =
    (let x = take_bit n (x + push_bit (1 + n div 2) x); x = x XOR drop_bit (1 + n div 3) x; x = take_bit n (x + push_bit (1 + n div 4) x)
     in x XOR drop_bit (1 + n div 5) x)"
  by (simp only: permute_round_def mask_take_bit [OF assms] Let_def)

lemma permute_round_low: "n < 32 \<Longrightarrow> low_bits n (permute_round n x)"
  by (simp only: permute_round_eq Let_def) (rule low_bits_xor, rule low_bits_take)

lemma permute_round_inj:
  assumes n: "n < 32" and l: "low_bits n x" "low_bits n y" and e: "permute_round n x = permute_round n y"
  shows "x = y"
proof -
  let ?f = "\<lambda>c x. take_bit n (x + push_bit c x) :: u32" and ?g = "\<lambda>c x. x XOR drop_bit c x :: u32"
  have r: "permute_round n z = ?g (1 + n div 5) (?f (1 + n div 4) (?g (1 + n div 3) (?f (1 + n div 2) z)))" for z
    by (simp only: permute_round_eq [OF n] Let_def)
  have g: "a = b" if "?g (1 + c) a = ?g (1 + c) b" for a b c by (rule xor_shift_inj [OF _ that]) simp
  have f: "a = b" if "?f (1 + c) a = ?f (1 + c) b" "low_bits n a" "low_bits n b" for a b c by (rule add_shift_inj [OF _ that(2,3,1)]) simp
  from e have "?f (1 + n div 4) (?g (1 + n div 3) (?f (1 + n div 2) x)) = ?f (1 + n div 4) (?g (1 + n div 3) (?f (1 + n div 2) y))"
    unfolding r by (rule g)
  then have "?g (1 + n div 3) (?f (1 + n div 2) x) = ?g (1 + n div 3) (?f (1 + n div 2) y)"
    by (rule f) (rule low_bits_xor, rule low_bits_take)+
  then have "?f (1 + n div 2) x = ?f (1 + n div 2) y" by (rule g)
  then show ?thesis using l by (rule f)
qed

lemma permute_0 [simp]: "permute 0 n = 0"
proof -
  have "(permute_round n ^^ m) 0 = 0" for m by (induction m) (simp_all add: permute_round_def)
  then show ?thesis by (simp add: permute_def)
qed

lemma permute_low_inj:
  assumes "n < 32"
  shows "low_bits n x \<Longrightarrow> low_bits n (permute x n)" "inj_on (\<lambda>x. permute x n) {x. low_bits n x}"
proof -
  have low: "low_bits n x \<Longrightarrow> low_bits n ((permute_round n ^^ m) x)" for m x by (induction m) (simp_all add: permute_round_low assms)
  have "low_bits n x \<Longrightarrow> low_bits n y \<Longrightarrow> (permute_round n ^^ m) x = (permute_round n ^^ m) y \<Longrightarrow> x = y" for m x y
    by (induction m) (auto dest: permute_round_inj [OF assms low low])
  then show "low_bits n x \<Longrightarrow> low_bits n (permute x n)" "inj_on (\<lambda>x. permute x n) {x. low_bits n x}"
    using low by (auto simp: permute_def inj_on_def)
qed

text \<open>
  C38. As its comment says, \<open>permute\<close> is a permutation of the numbers below \<open>2^nbits\<close>, so that the entries of
  \<open>scramble\<close> below \<open>smax\<close> are distinct.\<close>

theorem permute_bij:
  assumes "nbits < 32"
  shows "bij_betw (\<lambda>x. permute x nbits) {x. unat x < 2 ^ nbits} {x. unat x < 2 ^ nbits}"
proof -
  have S: "{x. unat x < 2 ^ nbits} = {x. low_bits nbits x}" using low_bits_iff by auto
  have "(\<lambda>x. permute x nbits) ` {x. low_bits nbits x} \<subseteq> {x. low_bits nbits x}" using permute_low_inj(1) [OF assms] by auto
  with permute_low_inj(2) [OF assms] show ?thesis unfolding S by (metis bij_betw_def endo_inj_surj finite)
qed

theorem permute_bij_witness: "bij_betw (\<lambda>x. permute x 3) {x. unat x < 8} {x. unat x < 8}"
  using permute_bij [of 3] by simp

lemma scrambleinit_ok:
  assumes "m \<le> 2 ^ 31"
  shows "\<exists>scr. scrambleinit (word_of_nat m) = Ok scr \<and> length scr = 65536 \<and> scr ! 0 = 0"
  using mylog2_ok [OF assms] by (auto simp: scrambleinit_def SCRAMBLE_LEN_def nth_map simp del: upt_Suc)

section \<open>Grouping the keys\<close>

definition names_ok :: "pkey list \<Rightarrow> bool" where
  "names_ok keys \<longleftrightarrow> (\<forall>k\<in>set keys. unat (len_k k) \<le> length (name_k k))"

definition part_grouped :: "pkey list \<Rightarrow> nat set \<Rightarrow> bstuff list \<Rightarrow> bool" where
  "part_grouped keys D tb \<longleftrightarrow> D \<subseteq> {..<length keys} \<and>
     (\<forall>b<length tb. set (list_b (tb ! b)) = {k \<in> D. bof keys k = b} \<and> listlen_b (tb ! b) = length (list_b (tb ! b)))"

lemma checkdup_ok:
  "unat (len_k k) \<le> length (name_k k) \<Longrightarrow> unat (len_k k') \<le> length (name_k k') \<Longrightarrow> checkdup k k' form = Ok () \<or> checkdup k k' form = Fault ExitFailure"
  by (auto simp: checkdup_def blk_read_def split: hash_type.splits)

lemma scan_b_ok:
  "unat (len_k k) \<le> length (name_k k) \<Longrightarrow> \<forall>j\<in>set js. unat (len_k (keys ! j)) \<le> length (name_k (keys ! j)) \<Longrightarrow>
   scan_b keys form False k js True = Fault ExitFailure \<or> scan_b keys form False k js True = Ok (False, False) \<or>
   scan_b keys form False k js True = Ok (True, True)"
proof (induction js)
  case (Cons j js)
  then show ?case using checkdup_ok [of k "keys ! j" form] by auto
qed simp

lemma part_grouped_add:
  assumes "part_grouped keys D tb" "i < length keys" "b = bof keys i" "b < length tb"
  shows "part_grouped keys (insert i D) (tb[b := (tb ! b)\<lparr>listlen_b := Suc (listlen_b (tb ! b)), list_b := i # list_b (tb ! b)\<rparr>])"
  using assms by (auto simp: part_grouped_def nth_list_update)

lemma inittab_loop_ok:
  "names_ok keys \<Longrightarrow> \<forall>i\<in>set is. i < length keys \<and> bof keys i < length tb \<Longrightarrow> part_grouped keys D tb \<Longrightarrow>
   inittab_loop keys form False is True tb = Fault ExitFailure \<or>
   (\<exists>ok tb'. inittab_loop keys form False is True tb = Ok (ok, tb') \<and> length tb' = length tb \<and> (\<forall>b<length tb. val_b (tb' ! b) = val_b (tb ! b)) \<and>
     (ok \<longrightarrow> part_grouped keys (D \<union> set is) tb'))"
proof (induction "is" arbitrary: tb D)
  case Nil
  then show ?case by auto
next
  case (Cons i "is")
  let ?b = "bof keys i"
  let ?t = "tb[?b := (tb ! ?b)\<lparr>listlen_b := Suc (listlen_b (tb ! ?b)), list_b := i # list_b (tb ! ?b)\<rparr>]"
  have i: "i < length keys" "?b < length tb" using Cons.prems(2) by auto
  have nm: "unat (len_k (keys ! j)) \<le> length (name_k (keys ! j))" if "j < length keys" for j using Cons.prems(1) that by (simp add: names_ok_def)
  have "\<forall>j\<in>set (list_b (tb ! ?b)). unat (len_k (keys ! j)) \<le> length (name_k (keys ! j))" using Cons.prems(3) i nm by (auto simp: part_grouped_def)
  note sc = scan_b_ok [OF nm [OF i(1)] this, of form]
  have "part_grouped keys (insert i D) ?t" using part_grouped_add [OF Cons.prems(3) i(1) refl i(2)] .
  from Cons.IH [OF Cons.prems(1) _ this] Cons.prems(2)
  have IH: "inittab_loop keys form False is True ?t = Fault ExitFailure \<or>
   (\<exists>ok tb'. inittab_loop keys form False is True ?t = Ok (ok, tb') \<and> length tb' = length tb \<and> (\<forall>b<length tb. val_b (tb' ! b) = val_b (?t ! b)) \<and>
     (ok \<longrightarrow> part_grouped keys (insert i D \<union> set is) tb'))" by auto
  have v: "val_b (?t ! b) = val_b (tb ! b)" for b by (cases "b = ?b") (simp_all add: i)
  have step: "inittab_loop keys form False (i # is) True tb =
    res_bind (scan_b keys form False (keys ! i) (list_b (tb ! ?b)) True) (\<lambda>(nc, go). if \<not> go then Ok (False, tb) else inittab_loop keys form False is nc ?t)"
    using i(2) unfolding bof_def by (simp add: Let_def)
  from sc show ?case
  proof (elim disjE)
    assume "scan_b keys form False (keys ! i) (list_b (tb ! ?b)) True = Ok (True, True)"
    then show ?thesis using IH step v by (auto simp del: inittab_loop.simps)
  qed (auto simp: step simp del: inittab_loop.simps)
qed

lemma inittab_ok:
  assumes "names_ok keys" "\<forall>k<length keys. bof keys k < blen"
  shows "inittab blen keys form False = Fault ExitFailure \<or>
    (\<exists>ok tb. inittab blen keys form False = Ok (ok, tb) \<and> length tb = blen \<and> (\<forall>b<blen. val_b (tb ! b) = 0) \<and> (ok \<longrightarrow> grouped keys tb))"
proof -
  have "part_grouped keys {} (replicate blen no_bstuff)" by (simp add: part_grouped_def no_bstuff_def)
  from inittab_loop_ok [OF assms(1) _ this, of "[0..<length keys]" form] assms(2)
  show ?thesis by (auto simp: inittab_def no_bstuff_def part_grouped_def grouped_def)
qed

text \<open>With the values at 0 every key hashes to its \<open>a\<close>, since \<open>scramble[0]\<close> is 0.\<close>

lemma table_ok_init:
  assumes "grouped keys tb" "\<forall>b<length tb. val_b (tb ! b) = 0" "scr ! 0 = 0" "0 < length scr" "\<forall>k<length keys. unat (a_k (keys ! k)) < hh"
  shows "table_ok keys scr hh tb"
  using assms groupedD(1) [OF assms(1)] by (auto simp: table_ok_def cur_def hash_at_def)

section \<open>The initial hash\<close>

text \<open>The two modes for strings.\<close>

definition string_mode :: "hashform \<Rightarrow> bool" where
  "string_mode form \<longleftrightarrow> hashtype form = STRING_HT \<and> (mode form = NORMAL_HM \<or> mode form = INLINE_HM)"

definition hash_keys :: "hashform \<Rightarrow> pkey list \<Rightarrow> u32 \<Rightarrow> u32 \<Rightarrow> u32 \<Rightarrow> pkey list res" where
  "hash_keys form keys alen blen salt = (if mode form = NORMAL_HM then initnorm keys alen blen salt else initinl keys alen blen salt)"

text \<open>What the initial hash leaves of a key.\<close>

definition same_key :: "hashform \<Rightarrow> pkey \<Rightarrow> pkey \<Rightarrow> bool" where
  "same_key form k k' \<longleftrightarrow> name_k k' = name_k k \<and> len_k k' = len_k k \<and> (mode form = NORMAL_HM \<longrightarrow> hash_k k' = hash_k k)"

lemma map_keys_ok:
  "\<forall>k\<in>set keys. \<exists>k'. f k = Ok k' \<and> P k k' \<Longrightarrow> \<exists>ks. map_keys f keys = Ok ks \<and> list_all2 P keys ks"
  by (induction keys) fastforce+

lemma map_keys_cong: "list_all2 (\<lambda>k k'. f k' = f k) keys ks \<Longrightarrow> map_keys f ks = map_keys f keys"
  by (induction rule: list_all2_induct) simp_all

lemma hash_keys_same:
  assumes "list_all2 (same_key form) keys ks"
  shows "hash_keys form ks alen blen salt = hash_keys form keys alen blen salt"
proof -
  have m: "map_keys f ks = map_keys f keys" if "\<And>k k'. same_key form k k' \<Longrightarrow> f k' = f k" for f
    by (rule map_keys_cong) (use assms that in \<open>auto elim: list_all2_mono\<close>)
  show ?thesis
  proof (cases "mode form = NORMAL_HM")
    case True
    then have "initnorm ks alen blen salt = initnorm keys alen blen salt"
      unfolding initnorm_def Let_def by (subst (1 2) m) (auto simp: same_key_def intro!: arg_cong2 [of _ _ _ _ res_bind])
    then show ?thesis using True by (simp add: hash_keys_def)
  next
    case False
    then have "initinl ks alen blen salt = initinl keys alen blen salt"
      unfolding initinl_def Let_def by (subst m) (auto simp: same_key_def intro!: arg_cong2 [of _ _ _ _ res_bind])
    then show ?thesis using False by (simp add: hash_keys_def)
  qed
qed

lemmas mylog2_exp = mylog2_pow [simplified]

lemma unat_and_pow: "i < 32 \<Longrightarrow> unat (x AND (2 ^ i - 1 :: u32)) < 2 ^ i"
  using mask_take_bit [of i x] low_bits_iff [of i "take_bit i x"] by (simp add: push_bit_of_1)

lemma unat_drop_pow: "i \<le> 32 \<Longrightarrow> unat (drop_bit (32 - i) (x :: u32)) < 2 ^ i"
  by (auto simp: low_bits_iff [symmetric] low_bits_bit bit_simps dest: bit_imp_le_length)

lemma initnorm_ok:
  assumes "names_ok keys" "i \<le> 31" "j \<le> 31"
  shows "\<exists>ks. initnorm keys (2 ^ i) (2 ^ j) salt = Ok ks \<and>
    list_all2 (\<lambda>k k'. name_k k' = name_k k \<and> len_k k' = len_k k \<and> hash_k k' = hash_k k \<and> unat (a_k k') < 2 ^ i \<and> unat (b_k k') < 2 ^ j) keys ks"
proof -
  have nm: "unat (len_k k) \<le> length (name_k k)" if "k \<in> set keys" for k using assms(1) that by (simp add: names_ok_def)
  have bounds: "unat (x AND (2 ^ i - 1 :: u32)) < 2 ^ i" "unat (x AND (2 ^ j - 1 :: u32)) < 2 ^ j" "unat (drop_bit (32 - i) (x :: u32)) < 2 ^ i" for x
    using assms(2,3) unat_and_pow unat_drop_pow by auto
  have c: "\<exists>st. checksum (name_k k) (unat (len_k k)) l = Ok st" "\<exists>h. lookup (name_k k) (unat (len_k k)) g = Ok h" if "k \<in> set keys" for k l g
    using checksum_ok lookup_ok nm [OF that] by (auto simp: is_ok_iff)
  have eq: "initnorm keys (2 ^ i) (2 ^ j) salt =
    (if i + j > 32 then
       map_keys (\<lambda>k. res_bind (checksum (name_k k) (unat (len_k k)) (replicate 8 (salt * golden))) (\<lambda>st.
         Ok (k\<lparr>a_k := st ! 0 AND (2 ^ i - 1), b_k := st ! 1 AND (2 ^ j - 1)\<rparr>))) keys
     else
       map_keys (\<lambda>k. res_bind (lookup (name_k k) (unat (len_k k)) (salt * golden)) (\<lambda>h.
         Ok (k\<lparr>a_k := (if i > 0 then drop_bit (32 - i) h else 0), b_k := (if (2 :: u32) ^ j > 1 then h AND (2 ^ j - 1) else 0)\<rparr>))) keys)"
    by (simp only: initnorm_def mylog2_exp [OF assms(2)] mylog2_exp [OF assms(3)] res_bind.simps Let_def)
  show ?thesis
  proof (cases "i + j > 32")
    case True
    show ?thesis unfolding eq if_P [OF True]
    proof (rule map_keys_ok, rule ballI)
      fix k assume "k \<in> set keys"
      then obtain st where "checksum (name_k k) (unat (len_k k)) (replicate 8 (salt * golden)) = Ok st" using c(1) by blast
      then show "\<exists>k'. res_bind (checksum (name_k k) (unat (len_k k)) (replicate 8 (salt * golden))) (\<lambda>st. Ok (k\<lparr>a_k := st ! 0 AND (2 ^ i - 1), b_k := st ! 1 AND (2 ^ j - 1)\<rparr>)) = Ok k' \<and>
        name_k k' = name_k k \<and> len_k k' = len_k k \<and> hash_k k' = hash_k k \<and> unat (a_k k') < 2 ^ i \<and> unat (b_k k') < 2 ^ j" by (simp add: bounds)
    qed
  next
    case False
    show ?thesis unfolding eq if_not_P [OF False]
    proof (rule map_keys_ok, rule ballI)
      fix k assume "k \<in> set keys"
      then obtain h where "lookup (name_k k) (unat (len_k k)) (salt * golden) = Ok h" using c(2) by blast
      then show "\<exists>k'. res_bind (lookup (name_k k) (unat (len_k k)) (salt * golden)) (\<lambda>h. Ok (k\<lparr>a_k := (if i > 0 then drop_bit (32 - i) h else 0), b_k := (if (2 :: u32) ^ j > 1 then h AND (2 ^ j - 1) else 0)\<rparr>)) = Ok k' \<and>
        name_k k' = name_k k \<and> len_k k' = len_k k \<and> hash_k k' = hash_k k \<and> unat (a_k k') < 2 ^ i \<and> unat (b_k k') < 2 ^ j" by (simp add: bounds)
    qed
  qed
qed

lemma initinl_ok:
  assumes "names_ok keys" "i \<le> 31" "j \<le> 31"
  shows "\<exists>ks. initinl keys (2 ^ i) (2 ^ j) salt = Ok ks \<and>
    list_all2 (\<lambda>k k'. name_k k' = name_k k \<and> len_k k' = len_k k \<and> unat (a_k k') < 2 ^ i \<and> unat (b_k k') < 2 ^ j) keys ks"
proof -
  have bounds: "unat (x AND (2 ^ i - 1 :: u32)) < 2 ^ i" "unat (drop_bit (32 - j) (x :: u32)) < 2 ^ j" for x
    using assms(2,3) unat_and_pow unat_drop_pow by auto
  have rd: "blk_read (name_k k) 0 (unat (len_k k)) = Ok (take (unat (len_k k)) (name_k k))" if "k \<in> set keys" for k
    using assms(1) that by (simp add: names_ok_def blk_read_def)
  have eq: "initinl keys (2 ^ i) (2 ^ j) salt =
    map_keys (\<lambda>k. res_bind (blk_read (name_k k) 0 (unat (len_k k))) (\<lambda>name.
       (let h = inline_hash name (salt * golden) in
        Ok (k\<lparr>hash_k := h, a_k := (if (2 :: u32) ^ i > 1 then h AND (2 ^ i - 1) else 0), b_k := (if (2 :: u32) ^ j > 1 then drop_bit (32 - j) h else 0)\<rparr>)))) keys"
    by (simp only: initinl_def mylog2_exp [OF assms(3)] res_bind.simps)
  show ?thesis unfolding eq by (rule map_keys_ok) (simp add: rd bounds Let_def)
qed

lemma hash_keys_ok:
  assumes "names_ok keys" "i \<le> 31" "j \<le> 31"
  shows "\<exists>ks. hash_keys form keys (2 ^ i) (2 ^ j) salt = Ok ks \<and> list_all2 (same_key form) keys ks \<and> (\<forall>k\<in>set ks. unat (a_k k) < 2 ^ i \<and> unat (b_k k) < 2 ^ j)"
proof -
  have *: "list_all2 (same_key form) keys ks \<and> (\<forall>k\<in>set ks. unat (a_k k) < 2 ^ i \<and> unat (b_k k) < 2 ^ j)"
    if "list_all2 (\<lambda>k k'. same_key form k k' \<and> unat (a_k k') < 2 ^ i \<and> unat (b_k k') < 2 ^ j) keys ks" for ks
    using that by (auto simp: list_all2_conv_all_nth in_set_conv_nth)
  show ?thesis
  proof (cases "mode form = NORMAL_HM")
    case True
    obtain ks where ks: "initnorm keys (2 ^ i) (2 ^ j) salt = Ok ks"
      "list_all2 (\<lambda>k k'. name_k k' = name_k k \<and> len_k k' = len_k k \<and> hash_k k' = hash_k k \<and> unat (a_k k') < 2 ^ i \<and> unat (b_k k') < 2 ^ j) keys ks"
      using initnorm_ok [OF assms, of salt] by blast
    have "list_all2 (\<lambda>k k'. same_key form k k' \<and> unat (a_k k') < 2 ^ i \<and> unat (b_k k') < 2 ^ j) keys ks"
      using ks(2) by (rule list_all2_mono) (simp add: same_key_def True)
    from * [OF this] ks(1) show ?thesis by (simp add: hash_keys_def True)
  next
    case False
    obtain ks where ks: "initinl keys (2 ^ i) (2 ^ j) salt = Ok ks"
      "list_all2 (\<lambda>k k'. name_k k' = name_k k \<and> len_k k' = len_k k \<and> unat (a_k k') < 2 ^ i \<and> unat (b_k k') < 2 ^ j) keys ks"
      using initinl_ok [OF assms, of salt] by blast
    have "list_all2 (\<lambda>k k'. same_key form k k' \<and> unat (a_k k') < 2 ^ i \<and> unat (b_k k') < 2 ^ j) keys ks"
      using ks(2) by (rule list_all2_mono) (simp add: same_key_def False)
    from * [OF this] ks(1) show ?thesis by (simp add: hash_keys_def False)
  qed
qed

section \<open>The lengths to start with\<close>

lemma pow_div: "d \<le> l \<Longrightarrow> (2 :: nat) ^ l div 2 ^ d = 2 ^ (l - d)"
  by (simp add: power_diff)

lemma max_pow_div: "max ((2 :: nat) ^ l div 2 ^ d) 1 = 2 ^ (l - d)"
proof (cases "d \<le> l")
  case False
  then have "(2 :: nat) ^ l < 2 ^ d" by simp
  then show ?thesis using False by simp
qed (simp add: pow_div)

definition max_alen :: "hashform \<Rightarrow> nat \<Rightarrow> nat" where
  "max_alen form l = (if hperfect form = MINIMAL_HP then l - 1 else l)"

text \<open>All lengths are powers of two; with a large \<open>smax\<close> the table is large enough for the scrambled values.\<close>

definition lengths_ok :: "hashform \<Rightarrow> nat \<Rightarrow> nat \<Rightarrow> nat \<Rightarrow> bool" where
  "lengths_ok form l i j \<longleftrightarrow> i \<le> max_alen form l \<and> l \<le> i + 3 \<and> j \<le> l \<and> (l \<le> 16 \<or> 12 \<le> j)"

lemma initalen_normal:
  assumes "hashtype form = STRING_HT" "hperfect form = NORMAL_HP"
  shows "\<exists>l i j. initalen old_blen (2 ^ lg) nkeys form lg = Ok (2 ^ i, 2 ^ j, 2 ^ l) \<and> lg \<le> l \<and> l \<le> Suc lg \<and> lengths_ok form l i j"
proof -
  define l where "l = (if speed form = FAST_HS \<and> 5 * nkeys > 4 * 2 ^ lg then Suc lg else lg)"
  let ?s = "2 ^ l :: nat"
  define bl where "bl = (if ?s div 4 \<le> 2 ^ 14 then (if 25 * nkeys \<le> 14 * ?s then ?s div 32 else if 50 * nkeys \<le> 37 * ?s then ?s div 16 else ?s div 8)
    else (if 5 * nkeys \<le> 3 * ?s then ?s div 16 else if 5 * nkeys \<le> 4 * ?s then ?s div 8 else ?s div 4))"
  define bl' where "bl' = (if speed form = FAST_HS \<and> bl < ?s div 8 then ?s div 8 else bl)"
  have sm: "(if speed form = FAST_HS \<and> 5 * nkeys > 4 * 2 ^ lg then 2 * 2 ^ lg else 2 ^ lg) = ?s" by (simp add: l_def)
  have r: "initalen old_blen (2 ^ lg) nkeys form lg = Ok (max ?s 1, max bl' 1, ?s)"
    by (simp only: initalen_def assms hash_type.simps simp_thms if_True if_False Let_def res_bind.simps sm bl_def bl'_def)
  have "\<exists>d\<in>{2, 3, 4, 5}. bl' = ?s div 2 ^ d \<and> (l \<le> 16 \<or> d \<le> 4)"
  proof (cases "l \<le> 16")
    case True
    have "\<exists>d\<in>{2, 3, 4, 5}. bl = ?s div 2 ^ d" by (simp add: bl_def)
    then show ?thesis using True by (auto simp: bl'_def)
  next
    case False
    then have "(2 :: nat) ^ 17 \<le> ?s" by (intro power_increasing) auto
    then have "\<not> ?s div 4 \<le> 2 ^ 14" by simp
    then have "\<exists>d\<in>{2, 3, 4}. bl = ?s div 2 ^ d" by (simp add: bl_def)
    then show ?thesis by (auto simp: bl'_def)
  qed
  then obtain d where d: "bl' = ?s div 2 ^ d" "l \<le> 16 \<or> d \<le> 4" by blast
  have "initalen old_blen (2 ^ lg) nkeys form lg = Ok (2 ^ l, 2 ^ (l - d), 2 ^ l)" unfolding r d(1) max_pow_div by (simp add: max_absorb1)
  moreover have "lengths_ok form l l (l - d)" using d(2) assms(2) by (auto simp: lengths_ok_def max_alen_def)
  moreover have "lg \<le> l" "l \<le> Suc lg" by (auto simp: l_def)
  ultimately show ?thesis by blast
qed

lemma initalen_minimal:
  assumes "hperfect form = MINIMAL_HP" "1 \<le> lg"
  shows "\<exists>i j. initalen old_blen (2 ^ lg) nkeys form lg = Ok (2 ^ i, 2 ^ j, 2 ^ lg) \<and> lengths_ok form lg i j"
proof -
  have "\<exists>c\<in>{1, 2, 3}. \<exists>d\<in>{1, 2, 3}. initalen old_blen (2 ^ lg) nkeys form lg = Ok (2 ^ lg div 2 ^ c, 2 ^ lg div 2 ^ d, 2 ^ lg) \<and>
      (lg < 9 \<longrightarrow> c = 1 \<and> d = 1) \<and> (17 \<le> lg \<longrightarrow> d \<le> 2)"
  proof (cases "lg < 17")
    case True
    then show ?thesis using assms(1) by (simp add: initalen_def)
  next
    case False
    then have "(2 :: nat) ^ 17 \<le> 2 ^ lg" by (intro power_increasing) auto
    then have "\<not> (2 :: nat) ^ lg div 4 < USE_SCRAMBLE" by (simp add: USE_SCRAMBLE_def)
    then show ?thesis using False assms(1) by (simp add: initalen_def USE_SCRAMBLE_def)
  qed
  then obtain c d where cd: "c \<in> {1, 2, 3}" "d \<in> {1, 2, 3}" "initalen old_blen (2 ^ lg) nkeys form lg = Ok (2 ^ lg div 2 ^ c, 2 ^ lg div 2 ^ d, 2 ^ lg)"
    "lg < 9 \<longrightarrow> c = 1 \<and> d = 1" "17 \<le> lg \<longrightarrow> d \<le> 2" by blast
  have "c \<le> 3" "d \<le> 3" "1 \<le> c" using cd(1,2) by auto
  moreover have "c \<le> lg" "d \<le> lg" using calculation(1,2) cd(4) assms(2) by auto
  moreover note cd(3,5)
  ultimately have "initalen old_blen (2 ^ lg) nkeys form lg = Ok (2 ^ (lg - c), 2 ^ (lg - d), 2 ^ lg)" by (simp only: pow_div)
  moreover have "lengths_ok form lg (lg - c) (lg - d)" using cd(5) \<open>c \<le> 3\<close> \<open>d \<le> 3\<close> \<open>1 \<le> c\<close> assms by (auto simp: lengths_ok_def max_alen_def)
  ultimately show ?thesis by blast
qed

section \<open>The search over salts\<close>

text \<open>A perfect hash of the keys: the pairs come from the initial hash with the salt, and the hash tells the keys apart.\<close>

definition found_ok :: "hashform \<Rightarrow> pkey list \<Rightarrow> u32 list \<Rightarrow> found_hash \<Rightarrow> bool" where
  "found_ok form keys scr f \<longleftrightarrow>
     hash_keys form keys (word_of_nat (f_alen f)) (word_of_nat (f_blen f)) (word_of_nat (f_salt f)) = Ok (f_keys f) \<and>
     is_perfect (f_keys f) scr (high_hash form (length keys) (f_smax f)) (f_tab f) \<and> length (f_tab f) = f_blen f \<and>
     (\<exists>l i j. f_smax f = 2 ^ l \<and> f_alen f = 2 ^ i \<and> f_blen f = 2 ^ j \<and> 1 \<le> l \<and> l \<le> 31 \<and> lengths_ok form l i j) \<and>
     (\<forall>x\<in>set (f_tab f). unat (val_b x) < value_limit (f_blen f) (f_smax f))"

lemma initkey_string:
  assumes "string_mode form" "1 < length keys" "hash_keys form keys alen blen salt = Ok ks" "length ks = length keys"
  shows "initkey hex keys alen blen smax salt form = res_bind (inittab (unat blen) ks form False) (\<lambda>(ok, tb). Ok (if ok then 1 else 0, ks, tb))"
  using assms by (auto simp: initkey_def string_mode_def hash_keys_def)

lemma names_ok_same: "names_ok keys \<Longrightarrow> list_all2 (same_key form) keys ks \<Longrightarrow> names_ok ks"
  by (auto simp: names_ok_def list_all2_conv_all_nth in_set_conv_nth same_key_def) (metis nth_mem)

text \<open>What one round of the search does, given what it started from.\<close>

lemma round_ok:
  assumes m: "string_mode form" and nm: "names_ok keys" and same: "list_all2 (same_key form) keys ks0" and len: "1 < length keys"
    and scr: "length scr = 65536" "scr ! 0 = 0" and lo: "lengths_ok form l i j" and l: "l \<le> 31" and hh: "2 ^ max_alen form l \<le> high_hash form (length keys) (2 ^ l)"
  shows "initkey hex ks0 (2 ^ i) (2 ^ j) smax salt form = Fault ExitFailure \<or>
    (\<exists>ks tb. initkey hex ks0 (2 ^ i) (2 ^ j) smax salt form = Ok (0, ks, tb) \<and> list_all2 (same_key form) keys ks) \<or>
    (\<exists>ks tb ok tb'. initkey hex ks0 (2 ^ i) (2 ^ j) smax salt form = Ok (1, ks, tb) \<and> list_all2 (same_key form) keys ks \<and>
      hash_keys form keys (2 ^ i) (2 ^ j) salt = Ok ks \<and> perfect ks scr (2 ^ j) (2 ^ l) form tb = Ok (ok, tb') \<and>
      length tb' = 2 ^ j \<and> (\<forall>x\<in>set tb'. unat (val_b x) < value_limit (2 ^ j) (2 ^ l)) \<and>
      (ok \<longrightarrow> is_perfect ks scr (high_hash form (length keys) (2 ^ l)) tb'))"
proof -
  have ij: "i \<le> 31" "j \<le> 31" "i \<le> max_alen form l" "j \<le> l" "l \<le> 16 \<or> 12 \<le> j" using lo l by (auto simp: lengths_ok_def max_alen_def split: if_splits)
  obtain ks where ks: "hash_keys form keys (2 ^ i) (2 ^ j) salt = Ok ks" "list_all2 (same_key form) keys ks" "\<forall>k\<in>set ks. unat (a_k k) < 2 ^ i \<and> unat (b_k k) < 2 ^ j"
    using hash_keys_ok [OF nm ij(1,2)] by blast
  have n: "length ks0 = length keys" "length ks = length keys" using same ks(2) by (auto dest: list_all2_lengthD)
  have uj: "unat ((2 :: u32) ^ j) = 2 ^ j" using ij(2) unat_push_1 [of j] by (simp add: push_bit_of_1)
  note ik = initkey_string [OF m, of ks0 "2 ^ i" "2 ^ j" salt ks hex smax, unfolded hash_keys_same [OF same] n uj, OF len ks(1) refl]
  have "\<forall>k<length ks. bof ks k < 2 ^ j" using ks(3) by (simp add: bof_def)
  from inittab_ok [OF names_ok_same [OF nm ks(2)] this, of form] show ?thesis
  proof (elim disjE exE conjE)
    assume "inittab (2 ^ j) ks form False = Fault ExitFailure"
    then show ?thesis using ik by simp
  next
    fix ok tb
    assume t: "inittab (2 ^ j) ks form False = Ok (ok, tb)" "length tb = 2 ^ j" "\<forall>b<2 ^ j. val_b (tb ! b) = 0" "ok \<longrightarrow> grouped ks tb"
    show ?thesis
    proof (cases ok)
      case False
      then show ?thesis using ik t(1) ks(2) by auto
    next
      case True
      have "(2 :: nat) ^ i \<le> 2 ^ max_alen form l" using ij(3) by (rule power_increasing) simp
      then have le: "2 ^ i \<le> high_hash form (length ks) (2 ^ l)" unfolding n(2) using hh by (rule order_trans)
      have "\<forall>k<length ks. unat (a_k (ks ! k)) < high_hash form (length ks) (2 ^ l)"
        using ks(3) less_le_trans [OF _ le] by (simp add: all_set_conv_all_nth)
      with table_ok_init [of ks tb scr "high_hash form (length ks) (2 ^ l)"] t True scr have to: "table_ok ks scr (high_hash form (length ks) (2 ^ l)) tb" by simp
      have "l \<le> 16" if "(2 :: nat) ^ j < 4096" using that ij(5) power_increasing [of 12 j "2 :: nat"] by auto
      then have lim: "value_limit (2 ^ j) (2 ^ l) \<le> 65536" using power_increasing [of l 16 "2 :: nat"] by (auto simp: value_limit_def USE_SCRAMBLE_def)
      with perfect_ok [OF to t(2)] scr n obtain p tb' where
        p: "perfect ks scr (2 ^ j) (2 ^ l) form tb = Ok (p, tb')" "p \<longrightarrow> is_perfect ks scr (high_hash form (length keys) (2 ^ l)) tb'" "length tb' = 2 ^ j" by auto
      have pos: "0 < value_limit (2 ^ j) (2 ^ l)" by (simp add: value_limit_def)
      then have "\<forall>x\<in>set tb. unat (val_b x) < value_limit (2 ^ j) (2 ^ l)" using t(2,3) by (auto simp: in_set_conv_nth)
      with perfect_vals [of ks scr tb "2 ^ l" form p tb'] p(1) lim pos t(2) have "\<forall>x\<in>set tb'. unat (val_b x) < value_limit (2 ^ j) (2 ^ l)" by simp
      with p show ?thesis using ik t(1) True ks(1,2) by auto
    qed
  qed
qed

text \<open>
  Every round that fails counts towards the 2048 tries of an initial hash, or doubles one of the lengths. With 62
  doublings at most that bounds the search.
\<close>

definition rank :: "hashform \<Rightarrow> nat \<Rightarrow> nat \<Rightarrow> nat \<Rightarrow> find_state \<Rightarrow> nat" where
  "rank form l i j t = ((max_alen form l - i) + (l - j)) * 2048 + (2048 - bad_initkey t)"

definition find_inv :: "hashform \<Rightarrow> nat \<Rightarrow> nat \<Rightarrow> find_state \<Rightarrow> bool" where
  "find_inv form l fuel t \<longleftrightarrow> (\<exists>i j. s_alen t = 2 ^ i \<and> s_blen t = 2 ^ j \<and> lengths_ok form l i j \<and> rank form l i j t \<le> fuel) \<and> bad_initkey t < 2048"

lemma next_initkey_ok:
  assumes t: "find_inv form l (Suc fuel) t"
  shows "next_initkey (2 ^ max_alen form l) (2 ^ l) t = Fault ExitFailure \<or>
    (\<exists>t'. next_initkey (2 ^ max_alen form l) (2 ^ l) t = Ok t' \<and> find_inv form l fuel t')"
proof -
  obtain i j where ij: "s_alen t = 2 ^ i" "s_blen t = 2 ^ j" "lengths_ok form l i j" "rank form l i j t \<le> Suc fuel" "bad_initkey t < 2048"
    using t by (auto simp: find_inv_def)
  let ?n = "next_initkey (2 ^ max_alen form l) (2 ^ l) t"
  consider "bad_initkey t + 1 < 2048" | "bad_initkey t = 2047" "i < max_alen form l" | "bad_initkey t = 2047" "\<not> i < max_alen form l" "j < l"
    | "bad_initkey t = 2047" "\<not> i < max_alen form l" "\<not> j < l" using ij(5) by linarith
  then show ?thesis
  proof cases
    case 1
    then have "?n = Ok (t\<lparr>bad_initkey := bad_initkey t + 1, trysalt := trysalt t + 1\<rparr>)" by (simp add: next_initkey_def RETRY_INITKEY_def)
    moreover have "find_inv form l fuel (t\<lparr>bad_initkey := bad_initkey t + 1, trysalt := trysalt t + 1\<rparr>)"
      unfolding find_inv_def using 1 ij by (intro conjI exI [of _ i] exI [of _ j]) (auto simp: rank_def)
    ultimately show ?thesis by blast
  next
    case 2
    then have "?n = Ok (t\<lparr>s_alen := 2 ^ Suc i, bad_initkey := 0, bad_perfect := 0, trysalt := trysalt t + 1\<rparr>)"
      using ij by (simp add: next_initkey_def RETRY_INITKEY_def)
    moreover have "find_inv form l fuel (t\<lparr>s_alen := 2 ^ Suc i, bad_initkey := 0, bad_perfect := 0, trysalt := trysalt t + 1\<rparr>)"
      unfolding find_inv_def using 2 ij by (intro conjI exI [of _ "Suc i"] exI [of _ j]) (auto simp: rank_def lengths_ok_def)
    ultimately show ?thesis by blast
  next
    case 3
    then have "?n = Ok (t\<lparr>s_blen := 2 ^ Suc j, bad_initkey := 0, bad_perfect := 0, trysalt := trysalt t + 1\<rparr>)"
      using ij by (simp add: next_initkey_def RETRY_INITKEY_def)
    moreover have "find_inv form l fuel (t\<lparr>s_blen := 2 ^ Suc j, bad_initkey := 0, bad_perfect := 0, trysalt := trysalt t + 1\<rparr>)"
      unfolding find_inv_def using 3 ij by (intro conjI exI [of _ i] exI [of _ "Suc j"]) (auto simp: rank_def lengths_ok_def)
    ultimately show ?thesis by blast
  next
    case 4
    then show ?thesis using ij by (simp add: next_initkey_def RETRY_INITKEY_def)
  qed
qed

lemma next_perfect_ok:
  assumes t: "find_inv form l (Suc fuel) t" and "hashtype form = STRING_HT"
  shows "next_perfect (2 ^ l) form t = Fault ExitFailure \<or> (\<exists>t'. next_perfect (2 ^ l) form t = Ok t' \<and> find_inv form l fuel t')"
proof -
  obtain i j where ij: "s_alen t = 2 ^ i" "s_blen t = 2 ^ j" "lengths_ok form l i j" "rank form l i j t \<le> Suc fuel" "bad_initkey t < 2048"
    using t by (auto simp: find_inv_def)
  show ?thesis
  proof (cases "j < l")
    case True
    then have "next_perfect (2 ^ l) form t = Ok (t\<lparr>s_blen := 2 ^ Suc j, bad_perfect := 0\<rparr>)" using ij assms(2) by (simp add: next_perfect_def RETRY_PERFECT_def)
    moreover have "find_inv form l fuel (t\<lparr>s_blen := 2 ^ Suc j, bad_perfect := 0\<rparr>)"
      unfolding find_inv_def using True ij by (intro conjI exI [of _ i] exI [of _ "Suc j"]) (auto simp: rank_def lengths_ok_def)
    ultimately show ?thesis by blast
  next
    case False
    then show ?thesis using ij assms(2) by (simp add: next_perfect_def RETRY_PERFECT_def)
  qed
qed

lemma salt_loop_ok:
  assumes m: "string_mode form" and nm: "names_ok keys" and len: "1 < length keys"
    and scr: "length scr = 65536" "scr ! 0 = 0" and l: "l \<le> 31" "1 \<le> l" and hh: "2 ^ max_alen form l \<le> high_hash form (length keys) (2 ^ l)"
  shows "list_all2 (same_key form) keys ks0 \<Longrightarrow> find_inv form l fuel t \<Longrightarrow>
    salt_loop fuel hex scr (2 ^ l) (2 ^ max_alen form l) form ks0 t = Fault ExitFailure \<or>
    (\<exists>f. salt_loop fuel hex scr (2 ^ l) (2 ^ max_alen form l) form ks0 t = Ok f \<and> f_smax f = 2 ^ l \<and> found_ok form keys scr f)"
proof (induction fuel arbitrary: ks0 t)
  case 0
  then show ?case by (auto simp: find_inv_def rank_def)
next
  case (Suc fuel)
  obtain i j where ij: "s_alen t = 2 ^ i" "s_blen t = 2 ^ j" "lengths_ok form l i j" using Suc.prems(2) by (auto simp: find_inv_def)
  let ?ik = "initkey hex ks0 (2 ^ i) (2 ^ j) (2 ^ l) (word_of_nat (trysalt t)) form"
  have step: "salt_loop (Suc fuel) hex scr (2 ^ l) (2 ^ max_alen form l) form ks0 t = res_bind ?ik (\<lambda>(rslinit, ks, tb).
         if rslinit = 2 then Ok \<lparr>f_alen = 2 ^ i, f_blen = 0, f_smax = 2 ^ l, f_salt = 1, f_tab = [], f_keys = ks\<rparr>
         else if rslinit = 0 then res_bind (next_initkey (2 ^ max_alen form l) (2 ^ l) t) (salt_loop fuel hex scr (2 ^ l) (2 ^ max_alen form l) form ks)
         else res_bind (perfect ks scr (2 ^ j) (2 ^ l) form tb) (\<lambda>(ok, tb1).
           if ok then Ok \<lparr>f_alen = 2 ^ i, f_blen = 2 ^ j, f_smax = 2 ^ l, f_salt = trysalt t, f_tab = tb1, f_keys = ks\<rparr>
           else res_bind (next_perfect (2 ^ l) form t) (salt_loop fuel hex scr (2 ^ l) (2 ^ max_alen form l) form ks)))"
    unfolding salt_loop.simps ij(1,2) of_nat_power of_nat_numeral ..
  have cont: "res_bind r (salt_loop fuel hex scr (2 ^ l) (2 ^ max_alen form l) form ks) = Fault ExitFailure \<or>
      (\<exists>f. res_bind r (salt_loop fuel hex scr (2 ^ l) (2 ^ max_alen form l) form ks) = Ok f \<and> f_smax f = 2 ^ l \<and> found_ok form keys scr f)"
    if r: "r = Fault ExitFailure \<or> (\<exists>t'. r = Ok t' \<and> find_inv form l fuel t')" and k: "list_all2 (same_key form) keys ks" for r ks
    using r Suc.IH [OF k] by fastforce
  have ht: "hashtype form = STRING_HT" using m by (simp add: string_mode_def)
  from round_ok [OF m nm Suc.prems(1) len scr ij(3) l(1) hh, of hex "2 ^ l" "word_of_nat (trysalt t)"] show ?case
  proof (elim disjE exE conjE)
    assume "?ik = Fault ExitFailure"
    then show ?thesis using step by (simp del: salt_loop.simps)
  next
    fix ks tb
    assume "?ik = Ok (0, ks, tb)" "list_all2 (same_key form) keys ks"
    then show ?thesis using step cont [OF next_initkey_ok [OF Suc.prems(2)], of ks] by (simp del: salt_loop.simps)
  next
    fix ks tb ok tb'
    assume r: "?ik = Ok (1, ks, tb)" "list_all2 (same_key form) keys ks" "hash_keys form keys (2 ^ i) (2 ^ j) (word_of_nat (trysalt t)) = Ok ks"
      "perfect ks scr (2 ^ j) (2 ^ l) form tb = Ok (ok, tb')" "length tb' = 2 ^ j" "\<forall>x\<in>set tb'. unat (val_b x) < value_limit (2 ^ j) (2 ^ l)"
      "ok \<longrightarrow> is_perfect ks scr (high_hash form (length keys) (2 ^ l)) tb'"
    show ?thesis
    proof (cases ok)
      case True
      then show ?thesis using step r l ij(3) by (auto simp: found_ok_def simp del: salt_loop.simps)
    next
      case False
      then show ?thesis using step r(1,2,4) cont [OF next_perfect_ok [OF Suc.prems(2) ht], of ks] by (simp del: salt_loop.simps)
    qed
  qed
qed

text \<open>\<open>findhash\<close> ends within 129024 rounds: it exits, or returns what makes a perfect hash.\<close>

lemma findhash_ok:
  assumes "string_mode form" "names_ok keys" "2 \<le> length keys" "length keys \<le> 2 ^ 30" "129024 \<le> fuel"
  shows "findhash fuel hex old_blen keys form = Fault ExitFailure \<or>
    (\<exists>f scr. findhash fuel hex old_blen keys form = Ok f \<and> scrambleinit (word_of_nat (f_smax f)) = Ok scr \<and> found_ok form keys scr f)"
proof -
  have ht: "hashtype form = STRING_HT" using assms(1) by (simp add: string_mode_def)
  obtain lg where lg: "mylog2 (word_of_nat (length keys)) = Ok lg" "length keys \<le> 2 ^ lg" "\<forall>j<lg. 2 ^ j < length keys"
    using mylog2_ok [of "length keys"] assms(4) by auto
  have lg1: "1 \<le> lg" using lg(2) assms(3) by (cases lg) auto
  have lg30: "lg \<le> 30" using lg(3) assms(4) by (metis not_le_imp_less not_less)
  have "\<exists>l i j. initalen old_blen (2 ^ lg) (length keys) form lg = Ok (2 ^ i, 2 ^ j, 2 ^ l) \<and> lg \<le> l \<and> l \<le> Suc lg \<and> lengths_ok form l i j \<and>
      2 ^ max_alen form l \<le> high_hash form (length keys) (2 ^ l)"
  proof (cases "hperfect form")
    case NORMAL_HP
    then show ?thesis using initalen_normal [OF ht, of old_blen lg "length keys"] by (auto simp: max_alen_def high_hash_def)
  next
    case MINIMAL_HP
    moreover have "2 ^ (lg - 1) < length keys" using lg(3) lg1 by simp
    ultimately show ?thesis using initalen_minimal [of form lg old_blen "length keys"] lg1 by (auto simp: max_alen_def high_hash_def)
  qed
  then obtain l i j where al0: "initalen old_blen (2 ^ lg) (length keys) form lg = Ok (2 ^ i, 2 ^ j, 2 ^ l)" "lg \<le> l" "l \<le> Suc lg" "lengths_ok form l i j"
    "2 ^ max_alen form l \<le> high_hash form (length keys) (2 ^ l)" by blast
  have "l \<le> 31" "1 \<le> l" using al0(2,3) lg1 lg30 by auto
  note al = al0(1) this al0(4,5)
  have "(2 :: nat) ^ l \<le> 2 ^ 31" using al(2) by (intro power_increasing) auto
  then obtain scr where scr: "scrambleinit (word_of_nat (2 ^ l)) = Ok scr" "length scr = 65536" "scr ! 0 = 0" using scrambleinit_ok by blast
  have mx: "(if hperfect form = MINIMAL_HP then 2 ^ l div 2 else 2 ^ l) = (2 :: nat) ^ max_alen form l"
    using al(3) pow_div [of 1 l] by (simp add: max_alen_def)
  let ?t = "\<lparr>s_alen = 2 ^ i, s_blen = 2 ^ j, bad_initkey = 0, bad_perfect = 0, trysalt = 1\<rparr>"
  have eq: "findhash fuel hex old_blen keys form = salt_loop fuel hex scr (2 ^ l) (2 ^ max_alen form l) form keys ?t"
    unfolding findhash_def using ht lg(1) al(1) scr(1) mx by simp
  have "rank form l i j ?t \<le> (31 + 31) * 2048 + 2048" unfolding rank_def using al(2) by (intro add_mono mult_right_mono) (auto simp: max_alen_def)
  then have inv: "find_inv form l fuel ?t" using al(4) assms(5) by (auto simp: find_inv_def)
  have self: "list_all2 (same_key form) keys keys" by (simp add: list_all2_same same_key_def)
  show ?thesis using salt_loop_ok [OF assms(1,2) _ scr(2,3) al(2,3,5) self inv, of hex] assms(3) scr(1) unfolding eq by auto
qed

definition demo_form :: hashform where
  "demo_form = \<lparr>mode = NORMAL_HM, hashtype = STRING_HT, hperfect = MINIMAL_HP, speed = SLOW_HS\<rparr>"

definition demo_keys :: "pkey list" where
  "demo_keys = getkeys [[0x61, 0x62, 0x0a], [0x63, 0x64, 0x0a], [0x65, 0x66, 0x0a]]"

section \<open>Where the code is wrong\<close>

text \<open>
  \<open>getkeys\<close> takes one character off the length after the newline is gone: two keys that differ in their last character only are
  the same key, and the generator exits with the message that there are duplicates.\<close>

theorem last_character_lost:
  assumes "length t \<le> 27" "hashtype form = STRING_HT"
  shows "checkdup (line_key (t @ [c, 0x0a])) (line_key (t @ [d, 0x0a])) form = Fault ExitFailure"
proof -
  have "unat (word_of_nat (length t) :: u32) = length t" using assms(1) by (simp add: unat_of_nat)
  then show ?thesis using assms(2) by (simp add: checkdup_def line_key_def Let_def blk_read_def butlast_append)
qed

theorem last_character_lost_witness:
  "checkdup (line_key [0x6f, 0x6e, 0x65, 0x31, 0x0a]) (line_key [0x6f, 0x6e, 0x65, 0x32, 0x0a]) demo_form = Fault ExitFailure"
  using last_character_lost [where t = "[0x6f, 0x6e, 0x65]" and c = "0x31" and d = "0x32" and form = demo_form] by (simp add: demo_form_def)

definition ab_key :: "u32 \<Rightarrow> u32 \<Rightarrow> pkey" where
  "ab_key a b = \<lparr>name_k = [], len_k = 0, hash_k = 0, a_k = a, b_k = b\<rparr>"

definition ab_form :: hashform where
  "ab_form = \<lparr>mode = AB_HM, hashtype = AB_HT, hperfect = MINIMAL_HP, speed = SLOW_HS\<rparr>"

lemma permute_1_2: "unat (permute 1 2) \<in> {1, 2, 3}"
proof -
  have l: "low_bits 2 (1 :: u32)" "low_bits 2 (0 :: u32)" by (simp_all add: low_bits_iff)
  have "unat (permute 1 2) < 4" using permute_low_inj(1) [OF _ l(1)] by (simp add: low_bits_iff)
  moreover have "permute 1 2 \<noteq> 0" using inj_onD [OF permute_low_inj(2) [of 2], of 1 0] l by auto
  then have "unat (permute 1 2) \<noteq> 0" by (simp add: unat_eq_0)
  ultimately show ?thesis by auto
qed

definition ab_tab :: "bstuff list" where
  "ab_tab = [no_bstuff\<lparr>listlen_b := 1, list_b := [0]\<rparr>, no_bstuff\<lparr>listlen_b := 1, list_b := [1]\<rparr>, no_bstuff\<lparr>listlen_b := 1, list_b := [2]\<rparr>, no_bstuff]"

lemma ab_inittab: "inittab 4 [ab_key 3 0, ab_key 0 1, ab_key 1 2] ab_form False = Ok (True, ab_tab)"
proof -
  have "replicate 4 no_bstuff = [no_bstuff, no_bstuff, no_bstuff, no_bstuff]" by (simp add: numeral_eq_Suc)
  moreover have "unat (2 :: u32) = Suc (Suc 0)" by simp
  ultimately show ?thesis by (simp add: inittab_def ab_key_def ab_tab_def no_bstuff_def Let_def upt_rec del: unsigned_numeral)
qed

lemma ab_by_size: "by_size ab_tab = [0, 1, 2]"
  by (simp add: by_size_def ab_tab_def no_bstuff_def upt_rec numeral_eq_Suc)

lemma ab_perfect:
  assumes "4 \<le> length scr" "scr ! 0 = 0" "unat (scr ! 1) \<in> {1, 2, 3}"
  shows "perfect [ab_key 3 0, ab_key 0 1, ab_key 1 2] scr 4 4 ab_form ab_tab = Fault OutOfBounds"
proof -
  let ?ks = "[ab_key 3 0, ab_key 0 1, ab_key 1 2]"
  let ?q = "[no_qstuff\<lparr>b_q := Some 0\<rparr>, no_qstuff, no_qstuff, no_qstuff, no_qstuff]"
  let ?s = "\<lparr>tabb = ab_tab, tabh = [None, None, None], tabq = ?q\<rparr>"
  have "scr \<noteq> []" using assms(1) by auto
  have "scr ! 1 = 1 \<or> scr ! 1 = 2 \<or> scr ! 1 = 3" using assms(3) by (auto simp: word_unat_eq_iff)
  then have h: "hash_at ?ks (scr ! 1) 0 < 3" "hash_at ?ks (scr ! 0) 0 = 3" using assms(2) by (auto simp: hash_at_def ab_key_def)
  have p: "probe ?ks 3 1 ?s (scr ! 0) [0] None = Ok None" "probe ?ks 3 1 ?s (scr ! 1) [0] None = Ok (Some None)"
    using h by (auto simp: Let_def less_Suc_eq numeral_3_eq_3)
  have "apply_path ?ks scr 2 (push 1 None 0 0 1 1 ?s) = Fault OutOfBounds"
    using assms(1) h(2) by (simp add: apply_path_def apply_walk.simps push_def mark_def Let_def ab_tab_def no_bstuff_def no_qstuff_def scramble_at_def)
  then have "try_values ?ks scr 3 1 0 0 [0, 1, 2, 3] 1 ?s = Fault OutOfBounds"
    using try_values_Cons [of 0 scr ?ks 3 1 ?s 0 None 1 0 "[1, 2, 3]"] try_values_Cons [of 1 scr ?ks 3 1 ?s 0 "Some None" 1 0 "[2, 3]"] assms(1) p \<open>scr \<noteq> []\<close>
    by (simp add: ab_tab_def numeral_2_eq_2 del: try_values.simps probe.simps)
  then have "queue_loop ?ks scr 4 3 1 True 5 0 1 ?s = Fault OutOfBounds"
    by (subst queue_loop.simps) (simp add: upt_rec numeral_2_eq_2 numeral_3_eq_3 del: try_values.simps)
  then have "augment ?ks scr 4 4 0 1 ab_form \<lparr>tabb = ab_tab, tabh = [None, None, None], tabq = replicate 5 no_qstuff\<rparr> = Fault OutOfBounds"
    by (simp add: augment_def ab_form_def high_hash_def USE_SCRAMBLE_def Let_def numeral_eq_Suc)
  then show ?thesis by (simp add: perfect_def ab_by_size high_hash_def ab_form_def)
qed


end
