(* ===== verification/Perfect_Code.thy ===== *)
theory Perfect_Code
  imports Perfect_Find
begin

text \<open>
  The program that the generator writes: \<open>make_c\<close> prints the tables, \<open>initnorm\<close> and \<open>initinl\<close> the body of \<open>phash\<close>. The
  program is modelled by what it computes; a read outside a table is a fault. For the keys it was made for,
  \<open>phash\<close> is a perfect hash.
\<close>

unbundle bit_operations_syntax

section \<open>The tables\<close>

text \<open>The entries of \<open>tab\<close> are one or two bytes wide, those of \<open>scramble\<close> two or four.\<close>

definition make_tab :: "u32 list \<Rightarrow> nat \<Rightarrow> nat \<Rightarrow> bstuff list \<Rightarrow> u32 list" where
  "make_tab scr blen smax tb =
     map (\<lambda>x. take_bit (if smax \<le> 256 \<or> blen \<ge> USE_SCRAMBLE then 8 else 16)
                (if blen < USE_SCRAMBLE then scr ! unat (val_b x) else ucast (val_b x))) tb"

definition make_scramble :: "u32 list \<Rightarrow> nat \<Rightarrow> nat \<Rightarrow> u32 list" where
  "make_scramble scr blen smax =
     (if blen \<ge> USE_SCRAMBLE then map (take_bit (if smax > 65536 then 32 else 16)) (take 256 scr) else [])"

section \<open>The hash function\<close>

record phash_code =
  c_alen :: nat
  c_blen :: nat
  c_smax :: nat
  c_salt :: u32
  c_tab :: "u32 list"
  c_scramble :: "u32 list"

definition make_c :: "u32 list \<Rightarrow> found_hash \<Rightarrow> phash_code" where
  "make_c scr f = \<lparr>c_alen = f_alen f, c_blen = f_blen f, c_smax = f_smax f, c_salt = word_of_nat (f_salt f) * golden,
     c_tab = make_tab scr (f_blen f) (f_smax f) (f_tab f), c_scramble = make_scramble scr (f_blen f) (f_smax f)\<rparr>"

definition at_tab :: "u32 list \<Rightarrow> u32 \<Rightarrow> u32 res" where
  "at_tab t b = (if unat b < length t then Ok (t ! unat b) else Fault OutOfBounds)"

definition phash_norm :: "phash_code \<Rightarrow> block \<Rightarrow> nat \<Rightarrow> u32 res" where
  "phash_norm c k len =
     res_bind (mylog2 (word_of_nat (c_alen c))) (\<lambda>loga.
     res_bind (mylog2 (word_of_nat (c_blen c))) (\<lambda>logb.
       (let bmask = word_of_nat (c_blen c) - 1 in
        if loga + logb > 32 then
          res_bind (checksum k len (replicate 8 (c_salt c))) (\<lambda>st.
          res_bind (at_tab (c_tab c) (st ! 1 AND bmask)) (\<lambda>t.
          res_bind (at_tab (c_scramble c) t) (\<lambda>x. Ok ((st ! 0 AND (word_of_nat (c_alen c) - 1)) XOR x))))
        else
          res_bind (lookup k len (c_salt c)) (\<lambda>val.
            if c_smax c \<le> 1 then Ok 0
            else if loga = 0 then at_tab (c_tab c) (val AND bmask)
            else if c_blen c < USE_SCRAMBLE then
              res_bind (at_tab (c_tab c) (val AND bmask)) (\<lambda>t. Ok (drop_bit (32 - loga) val XOR t))
            else
              res_bind (at_tab (c_tab c) (val AND bmask)) (\<lambda>t.
              res_bind (at_tab (c_scramble c) t) (\<lambda>x. Ok (drop_bit (32 - loga) val XOR x)))))))"

text \<open>
  In inline mode the user hashes the key, starting from \<open>PHASHSALT\<close>. With \<open>blen\<close> 1 the program shifts a 32-bit
  number by 32, which the machines at hand do as a shift by 0.
\<close>

definition phash_inl :: "phash_code \<Rightarrow> u32 \<Rightarrow> u32 res" where
  "phash_inl c val =
     res_bind (mylog2 (word_of_nat (c_blen c))) (\<lambda>blog.
       (let a = val AND (word_of_nat (c_alen c) - 1); b = drop_bit ((32 - blog) mod 32) val in
        if c_smax c \<le> 1 then Ok 0
        else if c_blen c < USE_SCRAMBLE then res_bind (at_tab (c_tab c) b) (\<lambda>t. Ok (a XOR t))
        else res_bind (at_tab (c_tab c) b) (\<lambda>t. res_bind (at_tab (c_scramble c) t) (\<lambda>x. Ok (a XOR x)))))"

definition phash :: "hashform \<Rightarrow> phash_code \<Rightarrow> pkey \<Rightarrow> u32 res" where
  "phash form c k =
     (if mode form = NORMAL_HM then phash_norm c (name_k k) (unat (len_k k))
      else res_bind (blk_read (name_k k) 0 (unat (len_k k))) (\<lambda>name. phash_inl c (inline_hash name (c_salt c))))"

section \<open>The program computes the hash that was found\<close>

lemma permute_lt: "n < 32 \<Longrightarrow> unat (permute x n) < 2 ^ n"
proof -
  assume n: "n < 32"
  have "permute x n = permute_round n ((permute_round n ^^ 19) x)" by (simp add: permute_def numeral_eq_Suc)
  then show ?thesis using permute_round_low [OF n] by (simp add: low_bits_iff [symmetric])
qed

lemma scramble_lt:
  assumes "scrambleinit (word_of_nat (2 ^ l)) = Ok scr" "l \<le> 31"
  shows "length scr = 65536" "i < 65536 \<Longrightarrow> unat (scr ! i) < 2 ^ l"
proof -
  have "scr = map (\<lambda>i. permute (word_of_nat i) l) [0..<65536]" using assms mylog2_pow [of l] by (simp add: scrambleinit_def SCRAMBLE_LEN_def)
  then show "length scr = 65536" "i < 65536 \<Longrightarrow> unat (scr ! i) < 2 ^ l" using permute_lt [of l] assms(2) by (simp_all del: upt_Suc)
qed

lemma take_bit_id: "unat x < 2 ^ n \<Longrightarrow> take_bit n (x :: u32) = x"
  using low_bits_iff [of n x] by (simp add: low_bits_def)

text \<open>Nothing is lost in the narrow entries of the tables.\<close>

lemma tables_exact:
  assumes f: "found_ok form keys scr f" and scr: "scrambleinit (word_of_nat (f_smax f)) = Ok scr" and b: "unat b < f_blen f"
  shows "f_blen f < USE_SCRAMBLE \<Longrightarrow> at_tab (c_tab (make_c scr f)) b = Ok (scr ! unat (val_b (f_tab f ! unat b)))"
    and "f_blen f \<ge> USE_SCRAMBLE \<Longrightarrow> \<exists>t. at_tab (c_tab (make_c scr f)) b = Ok t \<and> at_tab (c_scramble (make_c scr f)) t = Ok (scr ! unat (val_b (f_tab f ! unat b)))"
proof -
  from f obtain l i j where l: "f_smax f = 2 ^ l" "f_blen f = 2 ^ j" "l \<le> 31" "lengths_ok form l i j" by (auto simp: found_ok_def)
  let ?v = "val_b (f_tab f ! unat b)"
  have len: "length (f_tab f) = f_blen f" using f by (simp add: found_ok_def)
  then have v: "unat ?v < value_limit (f_blen f) (f_smax f)" using f b by (simp add: found_ok_def)
  note s = scramble_lt [OF scr [unfolded l(1)] l(3)]
  have v16: "unat ?v < 65536" using unsigned_less [of ?v, where 'a = nat] by simp
  have t: "at_tab (c_tab (make_c scr f)) b = Ok (make_tab scr (f_blen f) (f_smax f) (f_tab f) ! unat b)"
    using b len by (simp add: at_tab_def make_c_def make_tab_def)
  show "f_blen f < USE_SCRAMBLE \<Longrightarrow> at_tab (c_tab (make_c scr f)) b = Ok (scr ! unat ?v)"
  proof -
    assume small: "f_blen f < USE_SCRAMBLE"
    then have "\<not> 12 \<le> j" using l(2) power_increasing [of 12 j "2 :: nat"] by (auto simp: USE_SCRAMBLE_def)
    then have "l \<le> 16" using l(4) by (auto simp: lengths_ok_def)
    then have "(2 :: nat) ^ l \<le> 2 ^ 16" by (intro power_increasing) auto
    then have "unat (scr ! unat ?v) < 2 ^ 16" "f_smax f \<le> 256 \<Longrightarrow> unat (scr ! unat ?v) < 2 ^ 8" using s(2) [OF v16] l(1) by auto
    then show ?thesis using small b len by (auto simp: t make_tab_def take_bit_id)
  qed
  show "f_blen f \<ge> USE_SCRAMBLE \<Longrightarrow> \<exists>t. at_tab (c_tab (make_c scr f)) b = Ok t \<and> at_tab (c_scramble (make_c scr f)) t = Ok (scr ! unat ?v)"
  proof -
    assume big: "f_blen f \<ge> USE_SCRAMBLE"
    then have v8: "unat ?v < 256" using v by (simp add: value_limit_def)
    have u: "unat (ucast ?v :: u32) = unat ?v" using v16 by (simp add: unsigned_ucast_eq take_bit_nat_eq_self)
    have "make_tab scr (f_blen f) (f_smax f) (f_tab f) ! unat b = ucast ?v" using big b len v8 u by (simp add: make_tab_def take_bit_id)
    moreover have "take_bit (if f_smax f > 65536 then 32 else 16) (scr ! unat ?v) = scr ! unat ?v"
      using s(2) [OF v16] l(1) unsigned_less [of "scr ! unat ?v", where 'a = nat] by (intro take_bit_id) auto
    then have "at_tab (c_scramble (make_c scr f)) (ucast ?v) = Ok (scr ! unat ?v)"
      using big v8 u s(1) by (simp add: at_tab_def make_c_def make_scramble_def)
    ultimately show ?thesis using t by simp
  qed
qed

lemma map_keys_nth: "map_keys f keys = Ok ks \<Longrightarrow> k < length keys \<Longrightarrow> f (keys ! k) = Ok (ks ! k)"
  by (induction keys arbitrary: ks k) (auto simp: res_bind_Ok_iff nth_Cons split: nat.splits)

text \<open>The hash of a key as the search left it.\<close>

abbreviation found_at :: "u32 list \<Rightarrow> found_hash \<Rightarrow> nat \<Rightarrow> u32" where
  "found_at scr f k \<equiv> a_k (f_keys f ! k) XOR scr ! unat (val_b (f_tab f ! unat (b_k (f_keys f ! k))))"

lemma make_c_simps [simp]:
  "c_alen (make_c scr f) = f_alen f" "c_blen (make_c scr f) = f_blen f" "c_smax (make_c scr f) = f_smax f"
  "c_salt (make_c scr f) = word_of_nat (f_salt f) * golden"
  by (simp_all add: make_c_def)

lemma one_less_pow: "0 < j \<Longrightarrow> j \<le> 31 \<Longrightarrow> (1 :: u32) < 2 ^ j"
  using unat_push_1 [of j] one_less_power [of "2 :: nat" j] by (simp add: word_less_nat_alt push_bit_of_1)

lemma phash_norm_ok:
  assumes m: "mode form = NORMAL_HM" and f: "found_ok form keys scr f" and scr: "scrambleinit (word_of_nat (f_smax f)) = Ok scr" and k: "k < length keys"
  shows "phash form (make_c scr f) (keys ! k) = Ok (found_at scr f k)"
proof -
  from f obtain l i j where l: "f_smax f = 2 ^ l" "f_alen f = 2 ^ i" "f_blen f = 2 ^ j" "1 \<le> l" "l \<le> 31" "lengths_ok form l i j" by (auto simp: found_ok_def)
  have ij: "i \<le> 31" "j \<le> 31" "i \<le> l" "j \<le> l" using l(5,6) by (auto simp: lengths_ok_def max_alen_def split: if_splits)
  let ?g = "word_of_nat (f_salt f) * golden" and ?n = "name_k (keys ! k)" and ?l = "unat (len_k (keys ! k))"
  have norm: "initnorm keys (2 ^ i) (2 ^ j) (word_of_nat (f_salt f)) = Ok (f_keys f)" using f m l(2,3) by (simp add: found_ok_def hash_keys_def)
  have big: "\<not> f_blen f < USE_SCRAMBLE" if "12 \<le> j" using that l(3) power_increasing [of 12 j "2 :: nat"] by (simp add: USE_SCRAMBLE_def)
  have uj: "unat (x AND (2 ^ j - 1)) < f_blen f" for x :: u32 using unat_and_pow [of j x] ij(2) l(3) by simp
  show ?thesis
  proof (cases "i + j > 32")
    case True
    have "l \<ge> 17" using True ij(3,4) by simp
    then have j: "12 \<le> j" using l(6) by (simp add: lengths_ok_def)
    have "map_keys (\<lambda>k. res_bind (checksum (name_k k) (unat (len_k k)) (replicate 8 ?g)) (\<lambda>st.
        Ok (k\<lparr>a_k := st ! 0 AND (2 ^ i - 1), b_k := st ! 1 AND (2 ^ j - 1)\<rparr>))) keys = Ok (f_keys f)"
      using norm True by (simp add: initnorm_def mylog2_exp [OF ij(1)] mylog2_exp [OF ij(2)] Let_def)
    from map_keys_nth [OF this k] obtain st where
      st: "checksum ?n ?l (replicate 8 ?g) = Ok st" "f_keys f ! k = (keys ! k)\<lparr>a_k := st ! 0 AND (2 ^ i - 1), b_k := st ! 1 AND (2 ^ j - 1)\<rparr>"
      by (auto simp: res_bind_Ok_iff)
    from tables_exact(2) [OF f scr uj [of "st ! 1"]] big [OF j] obtain t where
      t: "at_tab (c_tab (make_c scr f)) (st ! 1 AND (2 ^ j - 1)) = Ok t" "at_tab (c_scramble (make_c scr f)) t = Ok (scr ! unat (val_b (f_tab f ! unat (st ! 1 AND (2 ^ j - 1)))))"
      by (auto simp: not_less)
    show ?thesis using st t True by (simp add: phash_def m phash_norm_def l(2,3) mylog2_exp [OF ij(1)] mylog2_exp [OF ij(2)] Let_def)
  next
    case False
    have "map_keys (\<lambda>k. res_bind (lookup (name_k k) (unat (len_k k)) ?g) (\<lambda>h.
        Ok (k\<lparr>a_k := (if i > 0 then drop_bit (32 - i) h else 0), b_k := (if (2 :: u32) ^ j > 1 then h AND (2 ^ j - 1) else 0)\<rparr>))) keys = Ok (f_keys f)"
      using norm False by (simp add: initnorm_def mylog2_exp [OF ij(1)] mylog2_exp [OF ij(2)] Let_def)
    from map_keys_nth [OF this k] obtain h where
      h: "lookup ?n ?l ?g = Ok h"
        "f_keys f ! k = (keys ! k)\<lparr>a_k := (if i > 0 then drop_bit (32 - i) h else 0), b_k := (if (2 :: u32) ^ j > 1 then h AND (2 ^ j - 1) else 0)\<rparr>"
      by (auto simp: res_bind_Ok_iff)
    have "b_k (f_keys f ! k) = h AND (2 ^ j - 1)"
    proof (cases "j = 0")
      case False
      then have "(1 :: u32) < 2 ^ j" using ij(2) by (intro one_less_pow) auto
      then show ?thesis using h(2) by simp
    qed (simp add: h(2))
    then have fa: "found_at scr f k = (if i > 0 then drop_bit (32 - i) h else 0) XOR scr ! unat (val_b (f_tab f ! unat (h AND (2 ^ j - 1))))" using h(2) by simp
    have sm: "\<not> f_smax f \<le> 1" using l(1,4) one_less_power [of "2 :: nat" l] by auto
    have i0: "f_blen f < USE_SCRAMBLE" if "i = 0"
      using that l(3,6) power_strict_increasing [of j 12 "2 :: nat"] by (auto simp: lengths_ok_def USE_SCRAMBLE_def)
    have ph: "phash form (make_c scr f) (keys ! k) =
      (if i = 0 then at_tab (c_tab (make_c scr f)) (h AND (2 ^ j - 1))
       else if f_blen f < USE_SCRAMBLE then res_bind (at_tab (c_tab (make_c scr f)) (h AND (2 ^ j - 1))) (\<lambda>t. Ok (drop_bit (32 - i) h XOR t))
       else res_bind (at_tab (c_tab (make_c scr f)) (h AND (2 ^ j - 1))) (\<lambda>t. res_bind (at_tab (c_scramble (make_c scr f)) t) (\<lambda>x. Ok (drop_bit (32 - i) h XOR x))))"
      using False h(1) sm by (simp add: phash_def m phash_norm_def l(2,3) mylog2_exp [OF ij(1)] mylog2_exp [OF ij(2)] Let_def)
    show ?thesis
    proof (cases "f_blen f < USE_SCRAMBLE")
      case True
      then show ?thesis unfolding ph fa using tables_exact(1) [OF f scr uj [of h] True] by simp
    next
      case False
      from tables_exact(2) [OF f scr uj [of h]] False obtain t where
        t: "at_tab (c_tab (make_c scr f)) (h AND (2 ^ j - 1)) = Ok t" "at_tab (c_scramble (make_c scr f)) t = Ok (scr ! unat (val_b (f_tab f ! unat (h AND (2 ^ j - 1)))))"
        by (auto simp: not_less)
      then show ?thesis unfolding ph fa using i0 False by auto
    qed
  qed
qed

lemma phash_inl_ok:
  assumes m: "mode form \<noteq> NORMAL_HM" and f: "found_ok form keys scr f" and scr: "scrambleinit (word_of_nat (f_smax f)) = Ok scr" and k: "k < length keys"
    and b1: "1 < f_blen f"
  shows "phash form (make_c scr f) (keys ! k) = Ok (found_at scr f k)"
proof -
  from f obtain l i j where l: "f_smax f = 2 ^ l" "f_alen f = 2 ^ i" "f_blen f = 2 ^ j" "1 \<le> l" "l \<le> 31" "lengths_ok form l i j" by (auto simp: found_ok_def)
  have ij: "i \<le> 31" "j \<le> 31" "1 \<le> j" using l(5,6) b1 l(3) by (auto simp: lengths_ok_def max_alen_def split: if_splits) (cases j; simp)+
  let ?g = "word_of_nat (f_salt f) * golden" and ?n = "name_k (keys ! k)" and ?l = "unat (len_k (keys ! k))"
  have inl: "initinl keys (2 ^ i) (2 ^ j) (word_of_nat (f_salt f)) = Ok (f_keys f)" using f m l(2,3) by (simp add: found_ok_def hash_keys_def)
  have j1: "(1 :: u32) < 2 ^ j" using ij(2,3) by (intro one_less_pow) auto
  have "map_keys (\<lambda>k. res_bind (blk_read (name_k k) 0 (unat (len_k k))) (\<lambda>name. let h = inline_hash name ?g in
      Ok (k\<lparr>hash_k := h, a_k := (if (2 :: u32) ^ i > 1 then h AND (2 ^ i - 1) else 0), b_k := drop_bit (32 - j) h\<rparr>))) keys = Ok (f_keys f)"
    using inl j1 by (simp add: initinl_def mylog2_exp [OF ij(2)])
  from map_keys_nth [OF this k] obtain name h where
    h: "blk_read ?n 0 ?l = Ok name" "h = inline_hash name ?g"
      "f_keys f ! k = (keys ! k)\<lparr>hash_k := h, a_k := (if (2 :: u32) ^ i > 1 then h AND (2 ^ i - 1) else 0), b_k := drop_bit (32 - j) h\<rparr>"
    by (auto simp: Let_def res_bind_Ok_iff)
  have "a_k (f_keys f ! k) = h AND (2 ^ i - 1)"
  proof (cases "i = 0")
    case False
    then have "(1 :: u32) < 2 ^ i" using ij(1) by (intro one_less_pow) auto
    then show ?thesis using h(3) by simp
  qed (simp add: h(3))
  then have fa: "found_at scr f k = (h AND (2 ^ i - 1)) XOR scr ! unat (val_b (f_tab f ! unat (drop_bit (32 - j) h)))" using h(3) by simp
  have sm: "\<not> f_smax f \<le> 1" using l(1,4) one_less_power [of "2 :: nat" l] by auto
  have uj: "unat (drop_bit (32 - j) h) < f_blen f" using unat_drop_pow [of j h] ij(2) l(3) by simp
  have ph: "phash form (make_c scr f) (keys ! k) =
    (if f_blen f < USE_SCRAMBLE then res_bind (at_tab (c_tab (make_c scr f)) (drop_bit (32 - j) h)) (\<lambda>t. Ok ((h AND (2 ^ i - 1)) XOR t))
     else res_bind (at_tab (c_tab (make_c scr f)) (drop_bit (32 - j) h)) (\<lambda>t. res_bind (at_tab (c_scramble (make_c scr f)) t) (\<lambda>x. Ok ((h AND (2 ^ i - 1)) XOR x))))"
    using h(1,2) sm ij by (simp add: phash_def m phash_inl_def l(2,3) mylog2_exp [OF ij(2)] Let_def)
  show ?thesis
  proof (cases "f_blen f < USE_SCRAMBLE")
    case True
    then show ?thesis unfolding ph fa using tables_exact(1) [OF f scr uj True] by simp
  next
    case False
    from tables_exact(2) [OF f scr uj] False obtain t where
      t: "at_tab (c_tab (make_c scr f)) (drop_bit (32 - j) h) = Ok t" "at_tab (c_scramble (make_c scr f)) t = Ok (scr ! unat (val_b (f_tab f ! unat (drop_bit (32 - j) h))))"
      by (auto simp: not_less)
    then show ?thesis unfolding ph fa using False by simp
  qed
qed



text \<open>
  In inline mode with a table of one entry the program indexes it with \<open>val >> 32\<close>, which is \<open>val\<close> itself on the machines at hand: every
  hash but 0 reads past the table.\<close>

theorem phash_shift_by_32:
  assumes "c_blen c = 1" "length (c_tab c) = 1" "1 < c_smax c" "val \<noteq> 0"
  shows "phash_inl c val = Fault OutOfBounds"
proof -
  have "mylog2 1 = Ok 0" using mylog2_exp [of 0] by simp
  moreover have "unat val \<noteq> 0" using assms(4) by (simp add: unat_eq_0)
  ultimately show ?thesis using assms(1-3) by (simp add: phash_inl_def at_tab_def Let_def USE_SCRAMBLE_def)
qed

theorem phash_shift_by_32_witness:
  "phash_inl \<lparr>c_alen = 2, c_blen = 1, c_smax = 2, c_salt = golden, c_tab = [0], c_scramble = []\<rparr> 5 = Fault OutOfBounds"
  by (rule phash_shift_by_32) simp_all

end
