(* ===== verification/Perfhex.thy ===== *)
theory Perfhex
  imports Perfect
begin

text \<open>
  \<open>src/lib/perfect/perfhex.c\<close>: the initial hash of integer keys. For few keys it finds a perfect hash by itself, from a list of
  shapes of expressions; otherwise it mixes the keys to pairs \<open>(a, b)\<close>, a different way each time it is called. An expression of
  the generated program is modelled by the function it computes. A machine shifts a 32-bit number by the
  number of places modulo 32.
\<close>

unbundle bit_operations_syntax

section \<open>The generated code\<close>

text \<open>
  \<open>g_rsl\<close> is the hash when no table is needed. Otherwise \<open>g_ab\<close> is lines 1 to 6 of the code, which compute \<open>a\<close> and \<open>b\<close>, and
  \<open>g_scr\<close> says whether line 7 looks \<open>tab[b]\<close> up in \<open>scramble\<close>. The rest is the state of the state machine in \<open>hexn\<close>.
\<close>

record gencode =
  lowbit :: nat
  highbit :: nat
  diffbits :: u32
  g_i :: nat
  g_j :: nat
  g_k :: nat
  g_rsl :: "u32 \<Rightarrow> u32"
  g_ab :: "u32 \<Rightarrow> u32 \<times> u32"
  g_scr :: bool

definition shr :: "u32 \<Rightarrow> nat \<Rightarrow> u32" where
  "shr x n = drop_bit (n mod 32) x"

definition shl :: "u32 \<Rightarrow> nat \<Rightarrow> u32" where
  "shl x n = push_bit (n mod 32) x"

text \<open>The first of several attempts that succeeds.\<close>

definition orelse :: "'a option \<Rightarrow> 'a option \<Rightarrow> 'a option" where
  "orelse x y = (case x of None \<Rightarrow> y | Some r \<Rightarrow> Some r)"

fun first_of :: "('a \<Rightarrow> 'b option) \<Rightarrow> 'a list \<Rightarrow> 'b option" where
  "first_of f [] = None"
| "first_of f (x # xs) = orelse (f x) (first_of f xs)"

definition guard_opt :: "bool \<Rightarrow> 'a option \<Rightarrow> 'a option" where
  "guard_opt c x = (if c then x else None)"

section \<open>The bits that differ\<close>

definition setlow :: "pkey list \<Rightarrow> gencode \<Rightarrow> gencode" where
  "setlow keys g =
     (let d = fold (\<lambda>k d. d OR (hash_k (hd keys) XOR hash_k k)) keys 0 in
      g\<lparr>diffbits := d,
        lowbit := (case find (bit d) [0..<32] of Some i \<Rightarrow> i | None \<Rightarrow> 32),
        highbit := (case find (bit d) (rev [1..<32]) of Some i \<Rightarrow> i | None \<Rightarrow> 0)\<rparr>)"

section \<open>One, two and three keys\<close>

definition hexone :: "pkey list \<Rightarrow> gencode \<Rightarrow> pkey list \<times> gencode" where
  "hexone keys g = (case keys of k # ks \<Rightarrow> k\<lparr>a_k := 0, b_k := 0\<rparr> # ks | [] \<Rightarrow> [], g\<lparr>g_rsl := \<lambda>val. 0\<rparr>)"

definition hextwo :: "u32 \<Rightarrow> u32 \<Rightarrow> (u32 \<Rightarrow> u32) res" where
  "hextwo a b =
     (if a = b then Fault ExitFailure
      else if a AND 1 \<noteq> b AND 1 then Ok (\<lambda>val. val AND 1)
      else (let i = (case find (\<lambda>i. a AND push_bit i 1 \<noteq> b AND push_bit i 1) [0..<32] of Some i \<Rightarrow> i | None \<Rightarrow> 32) in
        Ok (\<lambda>val. shl val i AND 1)))"

definition find_adder :: "u32 \<Rightarrow> u32 \<Rightarrow> u32 \<Rightarrow> u32" where
  "find_adder a b c = (a XOR b XOR c XOR 3)"

text \<open>An expression that tells three keys apart, corrected for a minimal hash.\<close>

definition try3 :: "hashform \<Rightarrow> u32 \<Rightarrow> u32 \<Rightarrow> u32 \<Rightarrow> (u32 \<Rightarrow> u32) \<Rightarrow> (u32 \<Rightarrow> u32) option" where
  "try3 form a b c f =
     (let x = f a; y = f b; z = f c in
      if x \<noteq> y \<and> x \<noteq> z \<and> y \<noteq> z then
        Some (if hperfect form = NORMAL_HP \<or> x \<noteq> 3 \<and> y \<noteq> 3 \<and> z \<noteq> 3 then f else (\<lambda>val. f val XOR find_adder x y z))
      else None)"

definition hexthree :: "hashform \<Rightarrow> gencode \<Rightarrow> u32 \<Rightarrow> u32 \<Rightarrow> u32 \<Rightarrow> (u32 \<Rightarrow> u32) res" where
  "hexthree form g a b c =
     (let lo = lowbit g; hi = highbit g; t = try3 form a b c in
      if a = b \<or> a = c \<or> b = c then Fault ExitFailure
      else case
        orelse (t (\<lambda>v. v AND 3))
        (orelse (t (\<lambda>v. shr v 30))
        (orelse (first_of (\<lambda>i. t (\<lambda>v. shr v i AND 3)) [0..<hi])
        (orelse (first_of (\<lambda>i. t (\<lambda>v. (v + shr v i) AND 3)) [0..<Suc hi])
        (first_of (\<lambda>i. first_of (\<lambda>j. t (\<lambda>v. (shr v i XOR shr v j) AND 3)) [i..<Suc hi]) [lo..<Suc hi]))))
      of Some f \<Rightarrow> Ok f | None \<Rightarrow> Fault ExitFailure)"

section \<open>Four keys\<close>

definition testfour :: "u32 \<Rightarrow> u32 \<Rightarrow> u32 \<Rightarrow> u32 \<Rightarrow> bool" where
  "testfour a b c d \<longleftrightarrow> shl 1 (unat a) XOR shl 1 (unat b) XOR shl 1 (unat c) XOR shl 1 (unat d) = 0xf"

definition try4 :: "u32 \<Rightarrow> u32 \<Rightarrow> u32 \<Rightarrow> u32 \<Rightarrow> (u32 \<Rightarrow> u32) \<Rightarrow> (u32 \<Rightarrow> u32) \<Rightarrow> (u32 \<Rightarrow> u32) option" where
  "try4 a b c d test code = (if testfour (test a) (test b) (test c) (test d) then Some code else None)"

text \<open>The attempts with one to five instructions.\<close>

definition four_short :: "gencode \<Rightarrow> u32 \<Rightarrow> u32 \<Rightarrow> u32 \<Rightarrow> u32 \<Rightarrow> (u32 \<Rightarrow> u32) option" where
  "four_short g a b c d =
     (let lo = lowbit g; hi = highbit g; db = diffbits g; t = (\<lambda>f. try4 a b c d f f) in
      orelse (guard_opt (db AND 3 = 3) (t (\<lambda>v. v AND 3)))
      (orelse (guard_opt (shr db 30 AND 3 = 3) (t (\<lambda>v. shr v 30)))
      (orelse (first_of (\<lambda>i. guard_opt (shr db i AND 3 = 3) (t (\<lambda>v. shr v i AND 3))) [lo..<hi])
      (guard_opt (db AND 3 \<noteq> 0)
        (first_of (\<lambda>i. guard_opt (shr db i AND 3 \<noteq> 0)
           (orelse (t (\<lambda>v. (v + shr v i) AND 3)) (orelse (t (\<lambda>v. (v - shr v i) AND 3)) (t (\<lambda>v. (v XOR shr v i) AND 3)))))
           [lo..<Suc hi])))))"

definition four_linear :: "gencode \<Rightarrow> u32 \<Rightarrow> u32 \<Rightarrow> u32 \<Rightarrow> u32 \<Rightarrow> (u32 \<Rightarrow> u32) option" where
  "four_linear g a b c d =
     (let lo = lowbit g; hi = highbit g; db = diffbits g; t = (\<lambda>f. try4 a b c d f f) in
      guard_opt (db AND 3 \<noteq> 0)
        (first_of (\<lambda>i.
           orelse (guard_opt (shr db i AND 1 \<noteq> 0 \<and> db AND 2 \<noteq> 0)
                    (orelse (t (\<lambda>v. (v AND 3) XOR (shr v i AND 1))) (t (\<lambda>v. (v AND 2) XOR (shr v i AND 1)))))
                  (guard_opt (shr db i AND 2 \<noteq> 0 \<and> db AND 1 \<noteq> 0)
                    (orelse (t (\<lambda>v. (v AND 3) XOR (shr v i AND 2))) (t (\<lambda>v. (v AND 1) XOR (shr v i AND 2))))))
         [lo..<Suc hi]))"

text \<open>The quadratic attempts with four instructions test the second summand of the first key for all four keys.\<close>

definition four_quadratic :: "gencode \<Rightarrow> u32 \<Rightarrow> u32 \<Rightarrow> u32 \<Rightarrow> u32 \<Rightarrow> (u32 \<Rightarrow> u32) option" where
  "four_quadratic g a b c d =
     (let lo = lowbit g; hi = highbit g; db = diffbits g; t = try4 a b c d in
      first_of (\<lambda>i. guard_opt (shr db i AND 1 = 1)
        (first_of (\<lambda>j. guard_opt (shr db j AND 3 \<noteq> 0)
          (orelse (t (\<lambda>v. (shr v i + shr a j) AND 3) (\<lambda>v. (shr v i + shr v j) AND 3))
          (orelse (t (\<lambda>v. (shr v i - shr a j) AND 3) (\<lambda>v. (shr v i - shr v j) AND 3))
                  (t (\<lambda>v. (shr v i XOR shr a j) AND 3) (\<lambda>v. (shr v i XOR shr v j) AND 3)))))
         [lo..<Suc hi])) [lo..<Suc hi])"

definition four_five :: "gencode \<Rightarrow> u32 \<Rightarrow> u32 \<Rightarrow> u32 \<Rightarrow> u32 \<Rightarrow> (u32 \<Rightarrow> u32) option" where
  "four_five g a b c d =
     (let lo = lowbit g; hi = highbit g; db = diffbits g; t = try4 a b c d in
      first_of (\<lambda>i. guard_opt (shr db i AND 1 \<noteq> 0)
        (first_of (\<lambda>j.
          orelse (guard_opt (shr db j AND 3 \<noteq> 0)
            (orelse (t (\<lambda>v. (shr v j AND 3) XOR (shr v i AND 1)) (\<lambda>v. (shr v j AND 3) XOR (shr v i AND 1)))
                    (t (\<lambda>v. (shr v j AND 2) XOR (shr v i AND 1)) (\<lambda>v. (shr v j AND 2) XOR (shr v i AND 1)))))
          (orelse (t (if i = 0 then (\<lambda>v. (shr v j XOR shl v 1) AND 3) else (\<lambda>v. (shr v j AND 3) XOR (shr v (i - 1) AND 2)))
                     (if i = 0 then (\<lambda>v. (shr v j XOR shl v 1) AND 3)
                      else if i = 1 then (\<lambda>v. (shr v j AND 3) XOR (v AND 2))
                      else (\<lambda>v. (shr v j AND 3) XOR (shr v (i - 1) AND 2))))
                  (t (\<lambda>v. (shr v j AND 1) XOR (shr v i AND 2)) (\<lambda>v. (shr v j AND 1) XOR (shr v i AND 2)))))
         [lo..<Suc hi])) [lo..<Suc hi])"

text \<open>Three bits that tell four keys apart: \<open>i\<close> for two of them, \<open>j\<close> for three, \<open>k\<close> for all. 32 when there is none.\<close>

definition one :: "u32 \<Rightarrow> nat \<Rightarrow> u32" where
  "one v i = shr v i AND 1"

definition two :: "u32 \<Rightarrow> nat \<Rightarrow> nat \<Rightarrow> u32" where
  "two v i j = one v i XOR shl (one v j) 1"

definition three :: "u32 \<Rightarrow> nat \<Rightarrow> nat \<Rightarrow> nat \<Rightarrow> u32" where
  "three v i j k = one v i XOR shl (one v j) 1 XOR shl (one v k) 2"

definition find_bit :: "nat \<Rightarrow> (nat \<Rightarrow> bool) \<Rightarrow> nat" where
  "find_bit lo p = (case find p [lo..<32] of Some i \<Rightarrow> i | None \<Rightarrow> 32)"

definition guns_bits :: "nat \<Rightarrow> u32 \<Rightarrow> u32 \<Rightarrow> u32 \<Rightarrow> u32 \<Rightarrow> nat \<times> nat \<times> nat" where
  "guns_bits lo a b c d =
     (let i = find_bit lo (\<lambda>i. one c i \<noteq> one d i);
          j = find_bit lo (\<lambda>j. distinct [two b i j, two c i j, two d i j]);
          k = find_bit lo (\<lambda>k. distinct [three a i j k, three b i j k, three c i j k, three d i j k])
      in (i, j, k))"

text \<open>\<open>o\<close> is a bit that is not set in exactly two keys, if there is one; \<open>m\<close> comes before \<open>n\<close>.\<close>

definition guns_order :: "u32 \<Rightarrow> u32 \<Rightarrow> u32 \<Rightarrow> u32 \<Rightarrow> nat \<times> nat \<times> nat \<Rightarrow> nat \<times> nat \<times> nat" where
  "guns_order a b c d ijk = (case ijk of (i, j, k) \<Rightarrow>
     (let ones = (\<lambda>x. one a x + one b x + one c x + one d x);
          (m, n, p) = (if ones i \<noteq> 2 then (j, k, i) else if ones j \<noteq> 2 then (i, k, j) else (i, j, k))
      in if m > n then (n, m, p) else (m, n, p)))"

text \<open>The code that multiplies bit \<open>p\<close> (\<open>o\<close> in the source) by 1, 2 and 3.\<close>

definition code_by1 :: "nat \<Rightarrow> nat \<Rightarrow> nat \<Rightarrow> u32 \<Rightarrow> u32" where
  "code_by1 m n p val =
     (let (m, p) = (if m > p then (p, m) else (m, p)) in
      if m = 0 then ((val XOR shr val p) AND 1) XOR (shr val (n - 1) AND 2)
      else ((shr val m XOR shr val p) AND 1) XOR (shr val (n - 1) AND 2))"

definition code_by2 :: "nat \<Rightarrow> nat \<Rightarrow> nat \<Rightarrow> u32 \<Rightarrow> u32" where
  "code_by2 m n p val =
     (let (n, p) = (if Suc m = p then (p, n) else (n, p)) in
      if m = 0 then (val AND 1) XOR ((shr val (n - 1) XOR shr val (p - 1)) AND 2)
      else if p = 0 then (shr val (m - 1) AND 2) XOR ((shr val n XOR val) AND 1)
      else (shr val m AND 1) XOR ((shr val (n - 1) XOR shr val (p - 1)) AND 2))"

definition code_by3 :: "nat \<Rightarrow> nat \<Rightarrow> nat \<Rightarrow> u32 \<Rightarrow> u32" where
  "code_by3 m n p val =
     (let b = shr val p AND 1 in
      if Suc m = p \<and> m = 0 then (val AND 3) XOR (shr val (n - 1) AND 2) XOR b
      else if Suc m = p then (shr val m AND 3) XOR (shr val (n - 1) AND 2) XOR b
      else if Suc m = n \<and> m = 0 then (val AND 3) XOR b XOR shl b 1
      else if Suc m = n then (shr val m AND 3) XOR b XOR shl b 1
      else if Suc p = n \<and> m = 0 then (val AND 1) XOR (shr val p AND 3) XOR shl b 1
      else if Suc p = n then (shr val m AND 1) XOR (shr val p AND 3) XOR shl b 1
      else if Suc p \<noteq> m then
        (let newval = val AND (shl 1 m XOR shl 1 n XOR shl 1 p);
             b = (if p = 0 then - newval else - shr newval p) in
         if m = 0 then (newval XOR shr newval (n - 1) XOR b) AND 3
         else (shr newval m XOR shr newval (n - 1) XOR b) AND 3)
      else
        (let b = (if p = 0 then shl val 1 AND 2 else if p = 1 then val AND 2 else shr val (p - 1) AND 2) in
         if p = 0 then (val AND 3) XOR (shr val n AND 1) XOR b
         else (shr val p AND 3) XOR (shr val n AND 1) XOR b))"

definition big_guns :: "u32 \<Rightarrow> u32 \<Rightarrow> u32 \<Rightarrow> u32 \<Rightarrow> nat \<times> nat \<times> nat \<Rightarrow> (u32 \<Rightarrow> u32) option" where
  "big_guns a b c d mnp = (case mnp of (m, n, p) \<Rightarrow>
     orelse (try4 a b c d (\<lambda>v. ((shr v m XOR shr v p) AND 1) XOR (shr v (n - 1) AND 2)) (code_by1 m n p))
     (orelse (try4 a b c d (\<lambda>v. one v m XOR shl ((shr v n XOR shr v p) AND 1) 1) (code_by2 m n p))
     (orelse (try4 a b c d (\<lambda>v. (one v m XOR (shr v (n - 1) AND 2)) XOR one v p XOR shl (one v p) 1) (code_by3 m n p))
             (try4 a b c d (\<lambda>v. one v m XOR (shr v (n - 1) AND 2)) (\<lambda>v. one v m XOR (shr v (n - 1) AND 2))))))"

definition hexfour :: "gencode \<Rightarrow> u32 \<Rightarrow> u32 \<Rightarrow> u32 \<Rightarrow> u32 \<Rightarrow> (u32 \<Rightarrow> u32) res" where
  "hexfour g a b c d =
     (if \<not> distinct [a, b, c, d] then Fault ExitFailure
      else case orelse (four_short g a b c d) (orelse (four_linear g a b c d) (orelse (four_quadratic g a b c d) (four_five g a b c d))) of
        Some f \<Rightarrow> Ok f
      | None \<Rightarrow> (case guns_bits (lowbit g) a b c d of (i, j, k) \<Rightarrow>
          if i = 32 \<or> j = 32 \<or> k = 32 then Fault ExitFailure
          else case big_guns a b c d (guns_order a b c d (i, j, k)) of Some f \<Rightarrow> Ok f | None \<Rightarrow> Fault ExitFailure))"

section \<open>Five to eight keys\<close>

fun testeight :: "u32 list \<Rightarrow> byte \<Rightarrow> bool" where
  "testeight [] mk = True"
| "testeight (a # as) mk = (if bit mk (unat a) then False else testeight as (mk OR push_bit (unat a) 1))"

definition try8 :: "pkey list \<Rightarrow> byte \<Rightarrow> (u32 \<Rightarrow> u32) \<Rightarrow> (pkey list \<times> (u32 \<Rightarrow> u32)) option" where
  "try8 keys badmask f =
     (let ks = map (\<lambda>k. k\<lparr>a_k := f (hash_k k)\<rparr>) keys in
      if testeight (map a_k ks) badmask then Some (ks, f) else None)"

text \<open>
  The loop of the two-instruction codes runs to \<open>highbit - 2\<close>, which wraps around when \<open>highbit\<close> is below 2. It then tries every
  shift there is, again and again as shifts by 32 more are the same; when \<open>highbit\<close> is 1 its condition is \<open>i <= 0xffffffff\<close> and
  it never ends. The \<open>a_k\<close> of attempts that failed are overwritten by the next attempt or by \<open>hexn\<close>.
\<close>

definition badmask_of :: "hashform \<Rightarrow> nat \<Rightarrow> byte" where
  "badmask_of form nkeys = (if hperfect form = MINIMAL_HP then fold (\<lambda>i m. m OR push_bit i 1) [nkeys..<8] 0 else 0)"

definition eight_shifts :: "gencode \<Rightarrow> nat list" where
  "eight_shifts g = (if highbit g < 2 then [lowbit g..<lowbit g + 32] else [lowbit g..<highbit g - 1])"

definition eight_long :: "gencode \<Rightarrow> ((u32 \<Rightarrow> u32) \<Rightarrow> 'a option) \<Rightarrow> 'a option" where
  "eight_long g t =
     (let lo = lowbit g; hi = highbit g in
      orelse (first_of (\<lambda>i. first_of (\<lambda>j.
          orelse (t (\<lambda>v. (shr v i + shr v j) AND 7))
          (orelse (t (\<lambda>v. (shr v i XOR shr v j) AND 7)) (t (\<lambda>v. (shr v i - shr v j) AND 7)))) [Suc i..<Suc hi]) [lo..<Suc hi])
      (first_of (\<lambda>i. first_of (\<lambda>j. first_of (\<lambda>k.
          t (\<lambda>v. (shr v i + shr v j + shr v k) AND 7)) [Suc j..<Suc hi]) [Suc i..<Suc hi]) [lo..<Suc hi]))"

definition hexeight :: "hashform \<Rightarrow> gencode \<Rightarrow> pkey list \<Rightarrow> (pkey list \<times> (u32 \<Rightarrow> u32)) option res" where
  "hexeight form g keys =
     (let t = try8 keys (badmask_of form (length keys)) in
      case orelse (t (\<lambda>v. v AND 7)) (first_of (\<lambda>i. t (\<lambda>v. shr v i AND 7)) (eight_shifts g)) of
        Some r \<Rightarrow> Ok (Some r)
      | None \<Rightarrow> if highbit g = 1 then Fault Diverges else Ok (eight_long g t))"

section \<open>More keys\<close>

text \<open>\<open>while (++j < highbit) if (...) break;\<close>\<close>

function skip_to :: "(nat \<Rightarrow> bool) \<Rightarrow> nat \<Rightarrow> nat \<Rightarrow> nat" where
  "skip_to p j h = (if Suc j < h then (if p (Suc j) then Suc j else skip_to p (Suc j) h) else Suc j)"
  by pat_completeness auto
termination by (relation "measure (\<lambda>(p, j, h). h - j)") auto

declare skip_to.simps [simp del]

definition set_pairs :: "(u32 \<Rightarrow> u32 \<times> u32) \<Rightarrow> pkey list \<Rightarrow> pkey list" where
  "set_pairs f keys = map (\<lambda>k. k\<lparr>a_k := fst (f (hash_k k)), b_k := snd (f (hash_k k))\<rparr>) keys"

text \<open>The mix of state 7: for keys that differ in few bits parts of it are left out.\<close>

definition span :: "gencode \<Rightarrow> nat" where
  "span g = unat (word_of_nat (highbit g) + 1 - word_of_nat (lowbit g) :: u32)"

definition hex_mix :: "gencode \<Rightarrow> u32 \<Rightarrow> u32 \<Rightarrow> u32" where
  "hex_mix g addk v =
     (let v = v + addk;
          v = (if span g > 16 then v XOR shr v 16 else v);
          v = (if span g > 8 then v + shl v 8 else v)
      in v XOR shr v 4)"

text \<open>
  The pairs of each state. The code that is printed leaves out shifts by 0, and the mask when the shift leaves no other bits;
  \<open>hex_b\<close> is the printed one in state 4.
\<close>

definition ab_high_low :: "gencode \<Rightarrow> nat \<Rightarrow> u32 \<Rightarrow> u32 \<Rightarrow> u32 \<times> u32" where
  "ab_high_low g alog blen v = (shr (shl v (31 - highbit g)) (32 - alog), shr v (lowbit g) AND (blen - 1))"

definition ab_low_high :: "gencode \<Rightarrow> u32 \<Rightarrow> nat \<Rightarrow> u32 \<Rightarrow> u32 \<times> u32" where
  "ab_low_high g alen blog v = (shr v (lowbit g) AND (alen - 1), shr (shl v (31 - highbit g)) (32 - blog))"

definition ab_shifts :: "gencode \<Rightarrow> nat \<Rightarrow> u32 \<Rightarrow> u32 \<Rightarrow> u32 \<times> u32" where
  "ab_shifts g alog blen v = (shr (shl v (31 - g_k g)) (32 - alog), shr v (g_j g) AND (blen - 1))"

definition code_shifts :: "gencode \<Rightarrow> nat \<Rightarrow> u32 \<Rightarrow> nat \<Rightarrow> u32 \<Rightarrow> u32 \<times> u32" where
  "code_shifts g alog blen blog v =
     (shr (shl v (31 - g_k g)) (32 - alog), if g_j g \<noteq> 0 \<and> blog + g_j g = 32 then shr v (g_j g) else shr v (g_j g) AND (blen - 1))"

definition ab_mixed :: "gencode \<Rightarrow> nat \<Rightarrow> u32 \<Rightarrow> u32 \<Rightarrow> u32 \<Rightarrow> u32 \<times> u32" where
  "ab_mixed g alog blen addk v =
     (let v = hex_mix g addk v in
      (if g_k g = 0 then shr v (32 - alog) else shr (v + shl v (g_k g)) (32 - alog), shr v (g_j g) AND (blen - 1)))"

lemma skip_to_gt: "j < skip_to p j h"
proof (induction p j h rule: skip_to.induct)
  case (1 p j h)
  then show ?case by (subst skip_to.simps) (auto intro: Suc_lessD)
qed

text \<open>What bounds the steps between two returns of the state machine.\<close>

definition hexn_weight :: "nat \<Rightarrow> gencode \<Rightarrow> nat" where
  "hexn_weight blog g =
     (if g_i g = 3 then 7 + 2 * highbit g
      else if g_i g = 4 then 6 + 2 * (highbit g - g_k g)
      else if g_i g = 5 then 5 + 2 * (highbit g - g_k g)
      else if g_i g = 6 then 1
      else if g_i g = 7 then (if g_j g \<le> 32 - blog then 0 else 4)
      else if g_i g = 8 then 3
      else if g_i g = 9 then 2 else 0)"

function hexn :: "pkey list \<Rightarrow> u32 \<Rightarrow> u32 \<Rightarrow> u32 \<Rightarrow> nat \<Rightarrow> nat \<Rightarrow> gencode \<Rightarrow> (pkey list \<times> gencode) res" where
  "hexn keys salt alen blen alog blog g =
     (if g_i g = 1 then Ok (set_pairs (ab_high_low g alog blen) keys, g\<lparr>g_ab := ab_high_low g alog blen, g_i := 2\<rparr>)
      else if g_i g = 2 then Ok (set_pairs (ab_low_high g alen blog) keys, g\<lparr>g_ab := ab_low_high g alen blog, g_i := 3\<rparr>)
      else if g_i g = 3 then hexn keys salt alen blen alog blog (g\<lparr>g_k := lowbit g, g_j := lowbit g, g_i := 4\<rparr>)
      else if g_i g = 4 then
        (if \<not> g_j g < highbit g then hexn keys salt alen blen alog blog (g\<lparr>g_i := 5\<rparr>)
         else Ok (set_pairs (ab_shifts g alog blen) keys,
           g\<lparr>g_ab := code_shifts g alog blen blog, g_j := skip_to (\<lambda>j. shr (diffbits g) j AND (blen - 1) > 2) (g_j g) (highbit g)\<rparr>))
      else if g_i g = 5 then
        (let k = skip_to (\<lambda>k. shr (shl (diffbits g) (31 - k)) alog AND (alen - 1) > 0) (g_k g) (highbit g) in
         if \<not> k < highbit g then hexn keys salt alen blen alog blog (g\<lparr>g_k := k, g_i := 6\<rparr>)
         else hexn keys salt alen blen alog blog (g\<lparr>g_k := k, g_j := lowbit g, g_i := 4\<rparr>))
      else if g_i g = 6 then hexn keys salt alen blen alog blog (g\<lparr>g_k := 0, g_j := 0, g_i := 7\<rparr>)
      else if g_i g = 7 then
        (if \<not> g_j g \<le> 32 - blog then hexn keys salt alen blen alog blog (g\<lparr>g_i := 8\<rparr>)
         else Ok (set_pairs (ab_mixed g alog blen (golden * salt)) keys, g\<lparr>g_ab := ab_mixed g alog blen (golden * salt), g_j := g_j g + 1\<rparr>))
      else if g_i g = 8 then
        (if \<not> g_k g + 1 \<le> 32 - alog then hexn keys salt alen blen alog blog (g\<lparr>g_k := g_k g + 1, g_i := 9\<rparr>)
         else hexn keys salt alen blen alog blog (g\<lparr>g_k := g_k g + 1, g_j := 0, g_i := 7\<rparr>))
      else if g_i g = 9 then hexn keys salt alen blen alog blog (g\<lparr>g_i := 6\<rparr>)
      else Fault Diverges)"
  by pat_completeness auto
termination
proof (relation "measure (\<lambda>(keys, salt, alen, blen, alog, blog, g). hexn_weight blog g)", goal_cases)
  case (5 keys salt alen blen alog blog g k)
  moreover have "g_k g < k" unfolding 5(6) by (rule skip_to_gt)
  ultimately show ?case by (simp add: hexn_weight_def)
next
  case (4 keys salt alen blen alog blog g k)
  then show ?case by (auto simp: hexn_weight_def)
qed (auto simp: hexn_weight_def)

declare hexn.simps [simp del]

section \<open>The entry\<close>

definition set_rsl :: "gencode \<Rightarrow> pkey list \<Rightarrow> (u32 \<Rightarrow> u32) res \<Rightarrow> (bool \<times> pkey list \<times> gencode) res" where
  "set_rsl g keys r = res_bind r (\<lambda>f. Ok (True, keys, g\<lparr>g_rsl := f\<rparr>))"

definition inithex :: "hashform \<Rightarrow> gencode \<Rightarrow> pkey list \<Rightarrow> u32 \<Rightarrow> u32 \<Rightarrow> u32 \<Rightarrow> u32 \<Rightarrow> (bool \<times> pkey list \<times> gencode) res" where
  "inithex form g0 keys alen blen smax salt =
     (let g = setlow keys g0; h = (\<lambda>i. hash_k (keys ! i)); n = length keys in
      if n = 1 then (case hexone keys g of (ks, g1) \<Rightarrow> Ok (True, ks, g1))
      else if n = 2 then set_rsl g keys (hextwo (h 0) (h 1))
      else if n = 3 then set_rsl g keys (hexthree form g (h 0) (h 1) (h 2))
      else if n = 4 then set_rsl g keys (hexfour g (h 0) (h 1) (h 2) (h 3))
      else res_bind (if 5 \<le> n \<and> n \<le> 8 \<and> salt = 1 then hexeight form g keys else Ok None) (\<lambda>r.
        case r of
          Some (ks, f) \<Rightarrow> Ok (True, ks, g\<lparr>g_rsl := f\<rparr>)
        | None \<Rightarrow>
            (let g1 = (if salt = 1 then g\<lparr>g_i := 1, g_j := 0, g_k := 0, g_scr := (unat blen \<ge> USE_SCRAMBLE)\<rparr> else g) in
             res_bind (mylog2 alen) (\<lambda>alog. res_bind (mylog2 blen) (\<lambda>blog.
             res_bind (hexn keys salt alen blen alog blog g1) (\<lambda>(ks, g2). Ok (False, ks, g2)))))))"

section \<open>Two keys\<close>

text \<open>
  C39. For two keys that agree in their lowest bit the generated code shifts the wrong way: \<open>(val << i) & 1\<close> is 0 for
  both, so the hash that is meant to tell them apart does not.\<close>

theorem hextwo_collides:
  assumes "a \<noteq> b" "a AND 1 = b AND 1"
  shows "\<exists>f. hextwo a b = Ok f \<and> f a = f b"
proof -
  have lo: "bit a 0 = bit b 0" using arg_cong [OF assms(2), of "\<lambda>x. bit x 0"] by (simp add: bit_simps)
  from assms(1) obtain r where r: "r < 32" "bit a r \<noteq> bit b r" by (auto simp: bit_eq_iff [of a b] dest: bit_imp_le_length)
  have sel: "x AND push_bit i 1 = (if bit x i then push_bit i 1 else 0)" for x :: u32 and i by (rule bit_word_eqI) (auto simp: bit_simps)
  have pick: "a AND push_bit i 1 \<noteq> b AND push_bit i 1 \<longleftrightarrow> bit a i \<noteq> bit b i" if "i < 32" for i
  proof -
    have "bit (push_bit i 1 :: u32) i" using that by (simp add: bit_simps)
    then have "push_bit i 1 \<noteq> (0 :: u32)" by (metis bit_0_eq bot_apply bot_bool_def)
    then show ?thesis unfolding sel by auto
  qed
  from r have "find (\<lambda>i. a AND push_bit i 1 \<noteq> b AND push_bit i 1) [0..<32] \<noteq> None" using pick by (auto simp: find_None_iff)
  then obtain i where f: "find (\<lambda>i. a AND push_bit i 1 \<noteq> b AND push_bit i 1) [0..<32] = Some i" by auto
  then have i: "i < 32" "bit a i \<noteq> bit b i" using pick by (auto simp: find_Some_iff)
  then have "i \<noteq> 0" using lo by (metis)
  then have "shl v i AND 1 = 0" for v using i(1) by (intro bit_word_eqI) (auto simp: shl_def bit_simps)
  then show ?thesis using assms f by (simp add: hextwo_def)
qed

theorem hextwo_collides_witness: "\<exists>f. hextwo 4 6 = Ok f \<and> f 4 = f 6"
  by (rule hextwo_collides) simp_all

section \<open>Three keys\<close>

lemma orelse_None [simp]: "orelse x y = None \<longleftrightarrow> x = None \<and> y = None"
  by (simp add: orelse_def split: option.splits)

lemma orelse_SomeD: "orelse x y = Some r \<Longrightarrow> x = Some r \<or> y = Some r"
  by (simp add: orelse_def split: option.splits)

lemma first_of_None: "first_of f xs = None \<longleftrightarrow> (\<forall>x\<in>set xs. f x = None)"
  by (induction xs) auto

lemma first_of_hit: "x \<in> set xs \<Longrightarrow> f x \<noteq> None \<Longrightarrow> first_of f xs \<noteq> None"
  by (induction xs) auto

lemma first_of_SomeD: "first_of f xs = Some r \<Longrightarrow> \<exists>x\<in>set xs. f x = Some r"
  by (induction xs) (auto dest: orelse_SomeD)

lemma setlow_bounds:
  assumes "bit (diffbits (setlow keys g)) r"
  shows "lowbit (setlow keys g) \<le> r" "r \<le> highbit (setlow keys g)"
proof -
  let ?d = "diffbits (setlow keys g)"
  have r: "r < 32" using bit_imp_le_length [OF assms] by simp
  have lo: "lowbit (setlow keys g) = (case find (bit ?d) [0..<32] of Some i \<Rightarrow> i | None \<Rightarrow> 32)"
    and hi: "highbit (setlow keys g) = (case find (bit ?d) (rev [1..<32]) of Some i \<Rightarrow> i | None \<Rightarrow> 0)" by (simp_all add: setlow_def Let_def)
  show "lowbit (setlow keys g) \<le> r"
  proof (cases "find (bit ?d) [0..<32]")
    case None
    then show ?thesis using assms r by (auto simp: find_None_iff)
  next
    case (Some i)
    then have "\<forall>j<i. \<not> bit ?d j" by (auto simp: find_Some_iff)
    then show ?thesis using Some assms by (auto simp: lo not_less [symmetric])
  qed
  show "r \<le> highbit (setlow keys g)"
  proof (cases "find (bit ?d) (rev [1..<32])")
    case None
    then show ?thesis using assms r by (cases r) (auto simp: find_None_iff)
  next
    case (Some i)
    then obtain q where q: "q < 31" "i = Suc (30 - q)" "\<forall>j<q. \<not> bit ?d (Suc (30 - j))" by (auto simp: find_Some_iff rev_nth)
    have "\<not> i < r"
    proof
      assume "i < r"
      then have "31 - r < q" "Suc (30 - (31 - r)) = r" using q(1,2) r by auto
      with q(3) assms show False by metis
    qed
    then show ?thesis using Some by (simp add: hi)
  qed
qed

definition apart :: "u32 \<Rightarrow> u32 \<Rightarrow> u32 \<Rightarrow> nat \<Rightarrow> nat \<Rightarrow> bool" where
  "apart a b c p q \<longleftrightarrow> (bit a p \<noteq> bit b p \<or> bit a q \<noteq> bit b q) \<and> (bit a p \<noteq> bit c p \<or> bit a q \<noteq> bit c q) \<and> (bit b p \<noteq> bit c p \<or> bit b q \<noteq> bit c q)"

lemma apart_exists:
  assumes "a \<noteq> b" "a \<noteq> c" "b \<noteq> c"
  shows "\<exists>p q. p < q \<and> apart a b c p q"
proof -
  obtain r where r: "bit a r \<noteq> bit b r" using assms(1) by (auto simp: bit_eq_iff)
  obtain s where s: "bit a s \<noteq> bit c s" using assms(2) by (auto simp: bit_eq_iff)
  obtain t where t: "bit b t \<noteq> bit c t" using assms(3) by (auto simp: bit_eq_iff)
  have "\<exists>p q. p \<noteq> q \<and> apart a b c p q"
  proof (cases "bit c r = bit a r")
    case True
    then have "apart a b c r s" "r \<noteq> s" using r s by (auto simp: apart_def)
    then show ?thesis by blast
  next
    case False
    then have "apart a b c r t" "r \<noteq> t" using r t by (auto simp: apart_def)
    then show ?thesis by blast
  qed
  moreover have "apart a b c p q \<longleftrightarrow> apart a b c q p" for p q by (auto simp: apart_def)
  ultimately show ?thesis by (metis linorder_neqE_nat)
qed

text \<open>Between two bits that are closest together among those that tell the keys apart, all keys agree.\<close>

lemma apart_closest:
  assumes "a \<noteq> b" "a \<noteq> c" "b \<noteq> c"
  obtains p q where "p < q" "apart a b c p q" "\<forall>r. p < r \<longrightarrow> r < q \<longrightarrow> bit a r = bit b r \<and> bit a r = bit c r"
proof -
  define P where "P n \<longleftrightarrow> (\<exists>p. 0 < n \<and> apart a b c p (p + n))" for n
  have "\<exists>n. P n" using apart_exists [OF assms] unfolding P_def by (metis less_imp_add_positive)
  then obtain n where n: "P n" "\<forall>m<n. \<not> P m" using exists_least_iff [of P] by auto
  then obtain p where p: "0 < n" "apart a b c p (p + n)" by (auto simp: P_def)
  have "bit a r = bit b r \<and> bit a r = bit c r" if "p < r" "r < p + n" for r
  proof -
    have "\<not> P (r - p)" "\<not> P (p + n - r)" using n(2) that by auto
    moreover have "p + (r - p) = r" "0 < r - p" "r + (p + n - r) = p + n" "0 < p + n - r" using that by auto
    ultimately have "\<not> apart a b c p r" "\<not> apart a b c r (p + n)" unfolding P_def by (metis, metis)
    then show ?thesis using p(2) unfolding apart_def by argo
  qed
  then have c: "\<forall>r. p < r \<longrightarrow> r < p + n \<longrightarrow> bit a r = bit b r \<and> bit a r = bit c r" by blast
  show thesis by (rule that [OF _ p(2) c]) (simp add: p(1))
qed

lemma setlow_diff:
  "bit (diffbits (setlow keys g)) r \<longleftrightarrow> (\<exists>k\<in>set keys. bit (hash_k k) r \<noteq> bit (hash_k (hd keys)) r)"
proof -
  let ?x = "hash_k (hd keys)"
  have *: "bit (fold (\<lambda>k d. d OR (?x XOR hash_k k)) ks d) r \<longleftrightarrow> bit d r \<or> (\<exists>k\<in>set ks. bit (hash_k k) r \<noteq> bit ?x r)" for ks d
    by (induction ks arbitrary: d) (auto simp: bit_simps)
  show ?thesis using * [of keys 0] by (simp add: setlow_def Let_def)
qed

text \<open>An expression is good when it tells the keys apart with values below 4, or below 3 for a minimal hash.\<close>

definition good3 :: "hashform \<Rightarrow> u32 \<Rightarrow> u32 \<Rightarrow> u32 \<Rightarrow> (u32 \<Rightarrow> u32) \<Rightarrow> bool" where
  "good3 form a b c f \<longleftrightarrow> distinct [f a, f b, f c] \<and> (\<forall>v\<in>{a, b, c}. unat (f v) < (if hperfect form = MINIMAL_HP then 3 else 4))"

lemma unat_lt_4: "unat (x :: u32) < 4 \<longleftrightarrow> x = 0 \<or> x = 1 \<or> x = 2 \<or> x = 3"
proof
  assume "unat x < 4"
  then have "unat x = 0 \<or> unat x = 1 \<or> unat x = 2 \<or> unat x = 3" by auto
  then show "x = 0 \<or> x = 1 \<or> x = 2 \<or> x = 3" by (auto simp: word_unat_eq_iff)
qed auto

lemma try3_good:
  assumes "try3 form a b c f = Some f'" "\<And>v. unat (f v) < 4"
  shows "good3 form a b c f'"
proof -
  have v: "f a = 0 \<or> f a = 1 \<or> f a = 2 \<or> f a = 3" "f b = 0 \<or> f b = 1 \<or> f b = 2 \<or> f b = 3" "f c = 0 \<or> f c = 1 \<or> f c = 2 \<or> f c = 3"
    using assms(2) unat_lt_4 by blast+
  have d: "f a \<noteq> f b" "f a \<noteq> f c" "f b \<noteq> f c"
    and f': "f' = (if hperfect form = NORMAL_HP \<or> f a \<noteq> 3 \<and> f b \<noteq> 3 \<and> f c \<noteq> 3 then f else (\<lambda>val. f val XOR find_adder (f a) (f b) (f c)))"
    using assms(1) by (auto simp: try3_def Let_def split: if_splits)
  show ?thesis using v d unfolding f' good3_def find_adder_def
    by (cases "hperfect form") (elim disjE; simp)+
qed

lemma try3_None: "try3 form a b c f = None \<longleftrightarrow> \<not> distinct [f a, f b, f c]"
  by (auto simp: try3_def Let_def)

lemma and_3_lt: "unat (x AND 3 :: u32) < 4"
proof -
  have "x AND 3 = take_bit 2 x" by (simp add: take_bit_eq_mask mask_eq_exp_minus_1)
  moreover have "unat (take_bit 2 x) < 4" by (simp add: unsigned_take_bit_eq take_bit_nat_eq_self_iff less_le_trans [OF take_bit_nat_less_exp])
  ultimately show ?thesis by simp
qed

lemma shr_30_lt: "unat (shr x 30) < 4"
proof -
  have "unat x < 2 ^ 32" using unsigned_less [of x, where 'a = nat] by simp
  then have "unat x div 2 ^ 30 < 4" by (simp add: less_mult_imp_div_less)
  then show ?thesis by (simp add: shr_def drop_bit_eq_div unat_div)
qed

lemma hexthree_good: "hexthree form g a b c = Ok f \<Longrightarrow> good3 form a b c f"
  by (auto simp: hexthree_def Let_def split: if_splits option.splits
      dest!: orelse_SomeD first_of_SomeD try3_good [OF _ and_3_lt] try3_good [OF _ shr_30_lt])

lemma and_3_eq: "x AND 3 = y AND (3 :: u32) \<Longrightarrow> bit x 0 = bit y 0 \<and> bit x 1 = bit y 1"
proof -
  assume "x AND 3 = y AND 3"
  then have "take_bit 2 x = take_bit 2 y" by (simp add: take_bit_eq_mask mask_eq_exp_minus_1)
  then have "bit (take_bit 2 x) 0 = bit (take_bit 2 y) 0" "bit (take_bit 2 x) 1 = bit (take_bit 2 y) 1" by simp_all
  then show ?thesis by (simp_all add: bit_simps)
qed

lemma bit_shr: "i < 32 \<Longrightarrow> bit (shr v i) n = bit v (i + n)"
  by (simp add: shr_def bit_simps)

text \<open>The argument in the comment: bits that are closest together among those that tell the keys apart will do.\<close>

lemma hexthree_total:
  assumes d: "a \<noteq> b" "a \<noteq> c" "b \<noteq> c" and g: "\<And>r. bit a r \<noteq> bit b r \<or> bit a r \<noteq> bit c r \<Longrightarrow> lowbit g \<le> r \<and> r \<le> highbit g"
  shows "\<exists>f. hexthree form g a b c = Ok f"
proof -
  obtain p q where pq: "p < q" "apart a b c p q" "\<forall>r. p < r \<longrightarrow> r < q \<longrightarrow> bit a r = bit b r \<and> bit a r = bit c r"
    using apart_closest [OF d] by blast
  have np: "bit a p \<noteq> bit b p \<or> bit a p \<noteq> bit c p" "bit a q \<noteq> bit b q \<or> bit a q \<noteq> bit c q" using pq(2) unfolding apart_def by argo+
  then have bounds: "lowbit g \<le> p" "q \<le> highbit g" using g by blast+
  have q32: "q < 32" using np(2) bit_imp_le_length [of a q] bit_imp_le_length [of b q] bit_imp_le_length [of c q] by auto
  have sep: "distinct [f a, f b, f c]" if "\<And>u v. u \<in> {a, b, c} \<Longrightarrow> v \<in> {a, b, c} \<Longrightarrow> f u = f v \<Longrightarrow> bit u p = bit v p \<and> bit u q = bit v q" for f :: "u32 \<Rightarrow> u32"
    using pq(2) that [of a b] that [of a c] that [of b c] unfolding apart_def by auto
  let ?t = "try3 form a b c"
  have "orelse (first_of (\<lambda>i. ?t (\<lambda>v. shr v i AND 3)) [0..<highbit g])
      (first_of (\<lambda>i. first_of (\<lambda>j. ?t (\<lambda>v. (shr v i XOR shr v j) AND 3)) [i..<Suc (highbit g)]) [lowbit g..<Suc (highbit g)]) \<noteq> None"
  proof (cases "q = Suc p")
    case True
    have "?t (\<lambda>v. shr v p AND 3) \<noteq> None" unfolding try3_None not_not
      by (rule sep) (use True pq(1) q32 in \<open>auto dest!: and_3_eq simp: bit_shr\<close>)
    then show ?thesis using bounds True by (auto simp: first_of_None)
  next
    case False
    have "p < q - 1" "q - 1 < q" "Suc p < q" using pq(1) False by auto
    then have mid: "bit a (q - 1) = bit b (q - 1) \<and> bit a (q - 1) = bit c (q - 1)" "bit a (Suc p) = bit b (Suc p) \<and> bit a (Suc p) = bit c (Suc p)"
      using pq(3) [THEN spec [where x = "q - 1"]] pq(3) [THEN spec [where x = "Suc p"]] by blast+
    have "?t (\<lambda>v. (shr v p XOR shr v (q - 1)) AND 3) \<noteq> None" unfolding try3_None not_not
    proof (rule sep)
      fix u v
      assume uv: "u \<in> {a, b, c}" "v \<in> {a, b, c}" "(shr u p XOR shr u (q - 1)) AND 3 = (shr v p XOR shr v (q - 1)) AND 3"
      have "bit u (q - 1) = bit v (q - 1)" "bit u (Suc p) = bit v (Suc p)" using uv(1,2) mid by auto
      then show "bit u p = bit v p \<and> bit u q = bit v q" using and_3_eq [OF uv(3)] pq(1) q32 by (auto simp: bit_simps bit_shr)
    qed
    then have "first_of (\<lambda>j. ?t (\<lambda>v. (shr v p XOR shr v j) AND 3)) [p..<Suc (highbit g)] \<noteq> None"
      by (rule first_of_hit [rotated]) (use bounds pq(1) in auto)
    then have "first_of (\<lambda>i. first_of (\<lambda>j. ?t (\<lambda>v. (shr v i XOR shr v j) AND 3)) [i..<Suc (highbit g)]) [lowbit g..<Suc (highbit g)] \<noteq> None"
      by (rule first_of_hit [rotated]) (use bounds pq(1) in auto)
    then show ?thesis unfolding orelse_None by blast
  qed
  then show ?thesis using d by (auto simp: hexthree_def Let_def simp del: upt_Suc split: option.splits)
qed

text \<open>So three different keys never get to the fatal error.\<close>

lemma inithex_three:
  assumes "length keys = 3" "distinct (map hash_k keys)"
  shows "\<exists>g. inithex form g0 keys alen blen smax salt = Ok (True, keys, g) \<and> distinct (map (\<lambda>k. g_rsl g (hash_k k)) keys) \<and>
    (\<forall>k\<in>set keys. unat (g_rsl g (hash_k k)) < (if hperfect form = MINIMAL_HP then 3 else 4))"
proof -
  obtain k1 k2 k3 where k: "keys = [k1, k2, k3]" using assms(1) by (auto simp: length_Suc_conv numeral_3_eq_3)
  let ?a = "hash_k k1" and ?b = "hash_k k2" and ?c = "hash_k k3" and ?g = "setlow keys g0"
  have d: "?a \<noteq> ?b" "?a \<noteq> ?c" "?b \<noteq> ?c" using assms(2) k by auto
  have "lowbit ?g \<le> r \<and> r \<le> highbit ?g" if "bit ?a r \<noteq> bit ?b r \<or> bit ?a r \<noteq> bit ?c r" for r
    using that setlow_diff [of keys g0 r] setlow_bounds [of keys g0 r] k by auto
  from hexthree_total [OF d this] obtain f where f: "hexthree form ?g ?a ?b ?c = Ok f" by blast
  then have "inithex form g0 keys alen blen smax salt = Ok (True, keys, ?g\<lparr>g_rsl := f\<rparr>)" by (simp add: inithex_def set_rsl_def Let_def k)
  then show ?thesis using hexthree_good [OF f] k by (auto simp: good3_def)
qed

definition int_key :: "u32 \<Rightarrow> pkey" where
  "int_key v = \<lparr>name_k = [], len_k = 0, hash_k = v, a_k = 0, b_k = 0\<rparr>"

definition no_gencode :: gencode where
  "no_gencode = \<lparr>lowbit = 0, highbit = 0, diffbits = 0, g_i = 0, g_j = 0, g_k = 0, g_rsl = (\<lambda>_. 0), g_ab = (\<lambda>_. (0, 0)), g_scr = False\<rparr>"

end
