(* ===== verification/Perfhex_Four.thy ===== *)
theory Perfhex_Four
  imports Perfhex
begin

text \<open>
  The hashes that \<open>src/lib/perfect/perfhex.c\<close> finds without a table for four and for five to eight keys. For four keys the search always
  succeeds: what the code calls the big guns, three bits one of which is multiplied by a constant, works whenever nothing simpler does.
\<close>

unbundle bit_operations_syntax

section \<open>Numbers of two bits\<close>

definition val2 :: "bool \<Rightarrow> bool \<Rightarrow> u32" where
  "val2 x y = (if x then 1 else 0) XOR (if y then 2 else 0)"

lemma val2_lt: "unat (val2 x y) < 4"
  by (cases x; cases y) (simp_all add: val2_def)

lemma val2_eq_iff [simp]: "val2 x y = val2 x' y' \<longleftrightarrow> x = x' \<and> y = y'"
  by (cases x; cases y; cases x'; cases y') (simp_all add: val2_def)

lemma bit_val2: "bit (val2 x y) n \<longleftrightarrow> n = 0 \<and> x \<or> n = 1 \<and> y"
proof -
  have "(2 :: u32) = push_bit 1 1" by simp
  then have "bit (2 :: u32) n \<longleftrightarrow> n = 1" by (simp only: bit_push_bit_iff bit_1_iff) (auto simp: bit_simps)
  then show ?thesis by (auto simp: val2_def bit_simps)
qed

lemma and_3_val2: "x AND 3 = val2 (bit x 0) (bit x 1)"
proof -
  have "x AND 3 = take_bit 2 x" by (simp add: take_bit_eq_mask mask_eq_exp_minus_1)
  then show ?thesis by (auto intro!: bit_word_eqI simp: bit_val2 bit_simps less_2_cases_iff)
qed

lemma and_1_val2: "x AND 1 = val2 (bit x 0) False"
  by (rule bit_word_eqI) (auto simp: bit_val2 bit_simps)

lemma and_2_val2: "x AND 2 = val2 False (bit x 1)"
proof -
  have two: "bit (2 :: u32) n \<longleftrightarrow> n = 1" for n using bit_val2 [of False True n] by (simp add: val2_def)
  have "bit (x AND 2) n = bit (val2 False (bit x 1)) n" for n unfolding bit_and_iff two bit_val2 by blast
  then show ?thesis by (rule bit_word_eqI)
qed

lemma xor_val2: "val2 x y XOR val2 x' y' = val2 (x \<noteq> x') (y \<noteq> y')"
  by (rule bit_word_eqI) (auto simp: bit_val2 bit_simps)

lemma shl_val2: "shl (val2 x False) 1 = val2 False x" "shl (val2 x False) (Suc 0) = val2 False x"
  by (cases x; simp add: val2_def shl_def)+

lemma take_bit_2_val2: "take_bit 2 x = val2 (bit x 0) (bit x 1)"
  unfolding and_3_val2 [symmetric] by (simp add: take_bit_eq_mask mask_eq_exp_minus_1)

text \<open>The low two bits of a sum or difference depend on the low two bits only.\<close>

lemma take_bit_uint: "uint (take_bit 2 x) = take_bit 2 (uint (x :: u32))"
  by (simp add: unsigned_take_bit_eq)

lemma take_bit_mod: "take_bit 2 (k mod 4294967296) = take_bit 2 (k :: int)"
proof -
  have "k mod 4294967296 = take_bit 32 k" by (simp add: take_bit_eq_mod)
  then show ?thesis by simp
qed

lemma low_add: "uint (take_bit 2 (x + y)) = take_bit 2 (take_bit 2 (uint x) + take_bit 2 (uint y))" for x y :: u32
  unfolding take_bit_uint by (simp add: uint_word_ariths take_bit_add take_bit_mod)

lemma low_diff: "uint (take_bit 2 (x - y)) = take_bit 2 (take_bit 2 (uint x) - take_bit 2 (uint y))" for x y :: u32
  unfolding take_bit_uint by (simp add: uint_word_ariths take_bit_diff take_bit_mod)

lemma and_3_take_bit: "x AND 3 = y AND 3 \<longleftrightarrow> take_bit 2 x = take_bit 2 (y :: u32)"
  by (simp add: take_bit_eq_mask mask_eq_exp_minus_1)

lemma and_3_add: "x AND 3 = y AND 3 \<Longrightarrow> (x + z) AND 3 = (y + z) AND (3 :: u32)"
  unfolding and_3_take_bit by (metis low_add take_bit_uint unsigned_word_eqI)

lemma and_3_diff: "x AND 3 = y AND 3 \<Longrightarrow> (x - z) AND 3 = (y - z) AND (3 :: u32)"
  unfolding and_3_take_bit by (metis low_diff take_bit_uint unsigned_word_eqI)

lemma and_3_xor: "x AND 3 = y AND 3 \<Longrightarrow> (x XOR z) AND 3 = (y XOR z) AND (3 :: u32)"
  by (simp add: and_3_val2 bit_simps)

lemma uminus_val2: "val2 (bit (- x) 0) (bit (- x :: u32) 1) = val2 (bit x 0) (bit x 1 \<noteq> bit x 0)"
proof -
  have *: "take_bit 2 (- val2 p q) = val2 p (q \<noteq> p)" for p q by (cases p; cases q) (simp_all add: val2_def mask_eq_exp_minus_1)
  have "uint (take_bit 2 (0 - x)) = uint (take_bit 2 (0 - take_bit 2 x))" unfolding low_diff unfolding take_bit_uint by simp
  then have "take_bit 2 (- x) = take_bit 2 (- take_bit 2 x)" by (simp add: unsigned_word_eqI)
  then show ?thesis unfolding take_bit_2_val2 [of x] * by (simp add: take_bit_2_val2)
qed

lemma bit_uminus: "bit (- x) 0 = bit (x :: u32) 0" "bit (- x) 1 = (bit x 1 \<noteq> bit (x :: u32) 0)"
  using uminus_val2 [of x] by auto

lemmas val2_simps = and_3_val2 and_1_val2 and_2_val2 xor_val2 shl_val2 bit_val2

section \<open>The test\<close>

lemma testfour_iff:
  assumes "unat w < 4" "unat x < 4" "unat y < 4" "unat z < 4"
  shows "testfour w x y z \<longleftrightarrow> distinct [w, x, y, z]"
proof -
  have v: "w = 0 \<or> w = 1 \<or> w = 2 \<or> w = 3" "x = 0 \<or> x = 1 \<or> x = 2 \<or> x = 3" "y = 0 \<or> y = 1 \<or> y = 2 \<or> y = 3" "z = 0 \<or> z = 1 \<or> z = 2 \<or> z = 3"
    using assms unfolding unat_lt_4 by blast+
  have s: "shl 1 0 = 1" "shl 1 (Suc 0) = 2" "shl 1 2 = 4" "shl 1 3 = 8" by (simp_all add: shl_def push_bit_eq_mult)
  show ?thesis using v unfolding testfour_def by (elim disjE) (simp_all add: s)
qed

definition good4 :: "u32 \<Rightarrow> u32 \<Rightarrow> u32 \<Rightarrow> u32 \<Rightarrow> (u32 \<Rightarrow> u32) \<Rightarrow> bool" where
  "good4 a b c d f \<longleftrightarrow> distinct [f a, f b, f c, f d] \<and> (\<forall>v\<in>{a, b, c, d}. unat (f v) < 4)"

lemma try4_SomeD:
  assumes "try4 a b c d test code = Some f" "\<And>v. unat (test v) < 4"
  shows "f = code \<and> distinct [test a, test b, test c, test d]"
  using assms testfour_iff [OF assms(2) assms(2) assms(2) assms(2), of a b c d] by (auto simp: try4_def split: if_splits)

lemma try4_good:
  assumes "try4 a b c d f f = Some f'" "\<And>v. unat (f v) < 4"
  shows "good4 a b c d f'"
  using try4_SomeD [OF assms] assms(2) by (simp add: good4_def)

lemma try4_hit:
  assumes "distinct [test a, test b, test c, test d]" "\<And>v. unat (test v) < 4"
  shows "try4 a b c d test code \<noteq> None"
  using assms testfour_iff [OF assms(2) assms(2) assms(2) assms(2), of a b c d] by (simp add: try4_def)

lemma guard_opt_SomeD: "guard_opt c x = Some r \<Longrightarrow> c \<and> x = Some r"
  by (simp add: guard_opt_def split: if_splits)

lemma xor_lt_4: "unat x < 4 \<Longrightarrow> unat y < 4 \<Longrightarrow> unat (x XOR y :: u32) < 4"
  unfolding unat_lt_4 by (elim disjE) simp_all

lemma and_2_lt: "unat (x AND 2 :: u32) < 4"
  by (simp add: and_2_val2 val2_lt)

lemma and_1_lt: "unat (x AND 1 :: u32) < 4"
  by (simp add: and_1_val2 val2_lt)

lemmas two_bits = and_3_lt and_2_lt and_1_lt xor_lt_4 shr_30_lt

section \<open>The attempts of one to five instructions\<close>

lemma four_short_good: "four_short g a b c d = Some f \<Longrightarrow> good4 a b c d f"
  unfolding four_short_def Let_def
  by (elim orelse_SomeD [THEN disjE]) (auto dest!: guard_opt_SomeD first_of_SomeD orelse_SomeD intro: try4_good two_bits simp del: upt_Suc)

lemma four_linear_good: "four_linear g a b c d = Some f \<Longrightarrow> good4 a b c d f"
  unfolding four_linear_def Let_def
  by (auto dest!: guard_opt_SomeD first_of_SomeD orelse_SomeD intro: try4_good two_bits simp del: upt_Suc)

lemma shr_0 [simp]: "shr v 0 = v"
  by (simp add: shr_def)

lemma four_five_good: "four_five g a b c d = Some f \<Longrightarrow> good4 a b c d f"
  unfolding four_five_def Let_def
  by (auto dest!: guard_opt_SomeD first_of_SomeD orelse_SomeD intro: try4_good two_bits simp del: upt_Suc split: if_splits)
    (erule try4_good; intro two_bits)+

section \<open>What the differing bits say\<close>

text \<open>\<open>diffbits\<close>, \<open>lowbit\<close> and \<open>highbit\<close> are those of the four keys.\<close>

definition bits_of :: "gencode \<Rightarrow> u32 list \<Rightarrow> bool" where
  "bits_of g ks \<longleftrightarrow> (\<forall>r. bit (diffbits g) r \<longleftrightarrow> (\<exists>u\<in>set ks. \<exists>v\<in>set ks. bit u r \<noteq> bit v r)) \<and>
     (\<forall>r. bit (diffbits g) r \<longrightarrow> lowbit g \<le> r \<and> r \<le> highbit g) \<and> highbit g < 32"

lemma setlow_bits_of: "bits_of (setlow keys g) (map hash_k keys)"
proof -
  have "bit (diffbits (setlow keys g)) r \<longleftrightarrow> (\<exists>u\<in>set (map hash_k keys). \<exists>v\<in>set (map hash_k keys). bit u r \<noteq> bit v r)" for r
  proof (cases keys)
    case (Cons k ks)
    then show ?thesis using setlow_diff [of keys g r] by auto
  qed (use setlow_diff [of keys g r] in auto)
  moreover have "highbit (setlow keys g) < 32" by (auto simp: setlow_def Let_def find_Some_iff rev_nth split: option.splits)
  ultimately show ?thesis using setlow_bounds [of keys g] by (simp add: bits_of_def)
qed

definition tells :: "nat \<Rightarrow> nat \<Rightarrow> u32 list \<Rightarrow> bool" where
  "tells p q ks \<longleftrightarrow> distinct (map (\<lambda>v. (bit v p, bit v q)) ks)"

lemma tells_differ:
  assumes "tells p q [a, b, c, d]"
  shows "p \<noteq> q" "\<exists>u\<in>{a, b, c, d}. \<exists>v\<in>{a, b, c, d}. bit u p \<noteq> bit v p" "\<exists>u\<in>{a, b, c, d}. \<exists>v\<in>{a, b, c, d}. bit u q \<noteq> bit v q"
  using assms unfolding tells_def by auto

lemma tells_bits:
  assumes "bits_of g [a, b, c, d]" "tells p q [a, b, c, d]"
  shows "p \<noteq> q" "bit (diffbits g) p" "bit (diffbits g) q" "lowbit g \<le> p" "lowbit g \<le> q" "p \<le> highbit g" "q \<le> highbit g" "p < 32" "q < 32"
proof -
  have r: "lowbit g \<le> r \<and> r \<le> highbit g \<and> r < 32" if "bit (diffbits g) r" for r
    using assms(1) that unfolding bits_of_def by (meson le_less_trans)
  show "p \<noteq> q" by (rule tells_differ(1) [OF assms(2)])
  show "bit (diffbits g) p" "bit (diffbits g) q" using assms(1) tells_differ(2,3) [OF assms(2)] by (simp_all add: bits_of_def)
  then show "lowbit g \<le> p" "lowbit g \<le> q" "p \<le> highbit g" "q \<le> highbit g" "p < 32" "q < 32" using r by blast+
qed

lemma distinct4_iff: "distinct [f a, f b, f c, f d] \<longleftrightarrow> distinct (map f [a, b, c, d])"
  by simp

lemma distinct_map_coarser: "distinct (map h xs) \<Longrightarrow> (\<And>u v. f u = f v \<Longrightarrow> h u = h v) \<Longrightarrow> distinct (map f xs)"
  unfolding distinct_map inj_on_def by blast

text \<open>Two neighbouring bits that tell the keys apart are found with at most two instructions.\<close>

lemma four_short_hit:
  assumes g: "bits_of g [a, b, c, d]" and t: "tells i (Suc i) [a, b, c, d]"
  shows "four_short g a b c d \<noteq> None"
proof -
  note b = tells_bits [OF g t]
  have *: "shr v i AND 3 = val2 (bit v i) (bit v (Suc i))" for v using b by (simp add: val2_simps bit_shr)
  have "try4 a b c d (\<lambda>v. shr v i AND 3) (\<lambda>v. shr v i AND 3) \<noteq> None"
    by (rule try4_hit [OF _ and_3_lt]) (use t in \<open>auto simp: * tells_def\<close>)
  moreover have "shr (diffbits g) i AND 3 = 3" unfolding * using b by (simp add: val2_def)
  ultimately have "first_of (\<lambda>i. guard_opt (shr (diffbits g) i AND 3 = 3) (try4 a b c d (\<lambda>v. shr v i AND 3) (\<lambda>v. shr v i AND 3))) [lowbit g..<highbit g] \<noteq> None"
    by (intro first_of_hit [of i]) (use b in \<open>auto simp: guard_opt_def\<close>)
  then show ?thesis by (simp only: four_short_def Let_def orelse_None) blast
qed

text \<open>The quadratic attempts test the second summand of the first key for all keys, so they never find what was not found before.\<close>

lemma four_quadratic_dead:
  assumes g: "bits_of g [a, b, c, d]" and n: "four_short g a b c d = None"
  shows "four_quadratic g a b c d = None"
proof -
  have dead: "try4 a b c d test code = None"
    if i: "i < Suc (highbit g)" and t: "\<And>v. unat (test v) < 4" "\<And>u v. shr u i AND 3 = shr v i AND 3 \<Longrightarrow> test u = test v" for i test code
  proof (rule ccontr)
    assume "try4 a b c d test code \<noteq> None"
    then have "distinct [test a, test b, test c, test d]" using try4_SomeD [of a b c d test code, OF _ t(1)] by blast
    then have "distinct (map (\<lambda>v. shr v i AND 3) [a, b, c, d])" unfolding distinct4_iff by (rule distinct_map_coarser) (rule t(2))
    moreover have "i < 32" using i g by (simp add: bits_of_def)
    ultimately have "tells i (Suc i) [a, b, c, d]" by (simp add: tells_def val2_simps bit_shr)
    then show False using four_short_hit [OF g] n by blast
  qed
  have "try4 a b c d (\<lambda>v. (shr v i + w) AND 3) f = None" "try4 a b c d (\<lambda>v. (shr v i - w) AND 3) f = None" "try4 a b c d (\<lambda>v. (shr v i XOR w) AND 3) f = None"
    if "i < Suc (highbit g)" for i w f by (rule dead [OF that and_3_lt], erule and_3_add and_3_diff and_3_xor)+
  then show ?thesis unfolding four_quadratic_def Let_def guard_opt_def by (simp add: first_of_None del: upt_Suc)
qed

text \<open>Any two bits that tell the keys apart are found with at most five instructions.\<close>

lemma four_five_hit:
  assumes g: "bits_of g [a, b, c, d]" and t: "tells p q [a, b, c, d]" and pq: "p < q"
  shows "four_five g a b c d \<noteq> None"
proof -
  note b = tells_bits [OF g t]
  let ?f = "\<lambda>v. (shr v (q - 1) AND 2) XOR (shr v p AND 1)"
  have "?f v = val2 (bit v p) (bit v q)" for v using b pq by (simp add: val2_simps bit_shr)
  then have "try4 a b c d ?f ?f \<noteq> None" by (intro try4_hit two_bits) (use t in \<open>auto simp: tells_def\<close>)
  moreover have guards: "shr (diffbits g) (q - 1) AND 3 \<noteq> 0" "shr (diffbits g) p AND 1 \<noteq> 0"
    using b pq val2_eq_iff [of _ _ False False] by (simp_all add: val2_simps bit_shr) (simp_all add: val2_def)
  ultimately have "orelse (guard_opt (shr (diffbits g) (q - 1) AND 3 \<noteq> 0) (orelse x (try4 a b c d ?f ?f))) y \<noteq> None" for x y
    unfolding guard_opt_def orelse_None by simp
  then have hit: "orelse (guard_opt (shr (diffbits g) (q - 1) AND 3 \<noteq> 0) (orelse x (try4 a b c d ?f ?f))) y \<noteq> None" for x y by blast
  have q: "q - 1 \<in> set [lowbit g..<Suc (highbit g)]" and p: "p \<in> set [lowbit g..<Suc (highbit g)]" using b pq by auto
  show ?thesis unfolding four_five_def Let_def guard_opt_def [of "shr (diffbits g) _ AND 1 \<noteq> 0"]
    by (rule first_of_hit [OF p], subst if_P [OF guards(2)], rule first_of_hit [OF q], rule hit)
qed

lemma four_five_None:
  assumes "bits_of g [a, b, c, d]" "four_five g a b c d = None"
  shows "\<not> tells p q [a, b, c, d]"
proof
  assume t: "tells p q [a, b, c, d]"
  then have "tells q p [a, b, c, d]" by (auto simp: tells_def)
  with four_five_hit [OF assms(1) t] four_five_hit [OF assms(1), of q p] tells_differ(1) [OF t] assms(2) show False by (metis linorder_neqE_nat)
qed

section \<open>The big guns\<close>

lemma one_val2: "i < 32 \<Longrightarrow> one v i = val2 (bit v i) False"
  by (simp add: one_def val2_simps bit_shr)

lemma two_val2: "i < 32 \<Longrightarrow> j < 32 \<Longrightarrow> two v i j = val2 (bit v i) (bit v j)"
  by (simp add: two_def one_val2 val2_simps)

lemma three_eq_iff:
  assumes "i < 32" "j < 32" "k < 32"
  shows "three u i j k = three v i j k \<longleftrightarrow> (bit u i, bit u j, bit u k) = (bit v i, bit v j, bit v k)"
proof -
  have *: "val2 x y XOR shl (val2 z False) 2 = val2 x' y' XOR shl (val2 z' False) 2 \<longleftrightarrow> (x, y, z) = (x', y', z')" for x y z x' y' z'
    by (cases x; cases y; cases z; cases x'; cases y'; cases z') (simp_all add: val2_def shl_def push_bit_eq_mult)
  have "three v i j k = two v i j XOR shl (one v k) 2" for v by (simp add: three_def two_def ac_simps)
  then have "three v i j k = val2 (bit v i) (bit v j) XOR shl (val2 (bit v k) False) 2" for v
    by (simp only: two_val2 [OF assms(1,2)] one_val2 [OF assms(3)])
  then show ?thesis by (simp only: *)
qed

lemma find_bit_hit:
  assumes "P r" "lo \<le> r" "r < 32"
  shows "find_bit lo P < 32 \<and> P (find_bit lo P)"
proof -
  have "find P [lo..<32] \<noteq> None" using assms by (auto simp: find_None_iff)
  then obtain i where "find P [lo..<32] = Some i" by auto
  moreover from this have "i < 32" "P i" by (auto simp: find_Some_iff)
  ultimately show ?thesis by (simp add: find_bit_def)
qed

lemma differ_bit:
  assumes "bits_of g ks" "u \<in> set ks" "v \<in> set ks" "u \<noteq> v"
  obtains r where "bit u r \<noteq> bit v r" "lowbit g \<le> r" "r < 32"
proof -
  obtain r where r: "bit u r \<noteq> bit v r" using assms(4) by (auto simp: bit_eq_iff)
  moreover have "lowbit g \<le> r" "r \<le> highbit g" "highbit g < 32" using assms(1-3) r unfolding bits_of_def by blast+
  ultimately show thesis using that by simp
qed

definition triple :: "nat \<Rightarrow> nat \<Rightarrow> nat \<Rightarrow> u32 \<Rightarrow> bool \<times> bool \<times> bool" where
  "triple i j k v = (bit v i, bit v j, bit v k)"

lemma guns_bits_found:
  assumes g: "bits_of g [a, b, c, d]" and d: "distinct [a, b, c, d]" and e: "guns_bits (lowbit g) a b c d = (i, j, k)"
  shows "i < 32 \<and> j < 32 \<and> k < 32 \<and> distinct (map (triple i j k) [a, b, c, d])"
proof -
  obtain r where r: "bit c r \<noteq> bit d r" "lowbit g \<le> r" "r < 32" using differ_bit [OF g, of c d] d by auto
  have i: "i = find_bit (lowbit g) (\<lambda>i. one c i \<noteq> one d i)" using e by (simp add: guns_bits_def Let_def)
  have dr: "one c r \<noteq> one d r" using r by (simp add: one_val2)
  have i': "i < 32" "one c i \<noteq> one d i" unfolding i using find_bit_hit [of "\<lambda>i. one c i \<noteq> one d i" r "lowbit g", OF dr r(2,3)] by blast+
  then have cd: "bit c i \<noteq> bit d i" by (simp add: one_val2)
  obtain s where s: "if bit b i = bit c i then bit b s \<noteq> bit c s else bit b s \<noteq> bit d s" "lowbit g \<le> s" "s < 32"
  proof (cases "bit b i = bit c i")
    case True
    then show thesis using differ_bit [OF g, of b c] d that by auto
  next
    case False
    then show thesis using differ_bit [OF g, of b d] d that by auto
  qed
  have j: "j = find_bit (lowbit g) (\<lambda>j. distinct [two b i j, two c i j, two d i j])" using e i by (simp add: guns_bits_def Let_def)
  have ds: "distinct [two b i s, two c i s, two d i s]" using s cd i'(1) by (auto simp: two_val2 split: if_splits)
  have j': "j < 32" "distinct [two b i j, two c i j, two d i j]"
    unfolding j using find_bit_hit [of "\<lambda>j. distinct [two b i j, two c i j, two d i j]" s "lowbit g", OF ds s(2,3)] by blast+
  then have bcd: "distinct (map (\<lambda>v. (bit v i, bit v j)) [b, c, d])" using i'(1) by (auto simp: two_val2)
  have "\<exists>t. lowbit g \<le> t \<and> t < 32 \<and> (\<forall>v\<in>{b, c, d}. (bit a i, bit a j) = (bit v i, bit v j) \<longrightarrow> bit a t \<noteq> bit v t)"
  proof (cases "\<exists>v\<in>{b, c, d}. (bit a i, bit a j) = (bit v i, bit v j)")
    case True
    then obtain v where v: "v \<in> {b, c, d}" "(bit a i, bit a j) = (bit v i, bit v j)" by blast
    then obtain t where "bit a t \<noteq> bit v t" "lowbit g \<le> t" "t < 32" using differ_bit [OF g, of a v] d by auto
    moreover have "u = v" if "u \<in> {b, c, d}" "(bit a i, bit a j) = (bit u i, bit u j)" for u
      using bcd that v by auto
    ultimately show ?thesis by blast
  qed (use r in blast)
  then obtain t where t: "lowbit g \<le> t" "t < 32" "\<forall>v\<in>{b, c, d}. (bit a i, bit a j) = (bit v i, bit v j) \<longrightarrow> bit a t \<noteq> bit v t" by blast
  let ?P = "\<lambda>k. distinct [three a i j k, three b i j k, three c i j k, three d i j k]"
  have k: "k = find_bit (lowbit g) ?P" using e i j by (simp add: guns_bits_def Let_def)
  have iff: "?P k \<longleftrightarrow> distinct (map (triple i j k) [a, b, c, d])" if "k < 32" for k
    using three_eq_iff [OF i'(1) j'(1) that] by (simp add: triple_def)
  have "?P t" unfolding iff [OF t(2)] using t(3) bcd by (auto simp: triple_def)
  then have "k < 32" "?P k" unfolding k using find_bit_hit [of ?P t] t by blast+
  then show ?thesis using i'(1) j'(1) iff by blast
qed

text \<open>Exactly two of four bits are set.\<close>

definition bal :: "bool \<Rightarrow> bool \<Rightarrow> bool \<Rightarrow> bool \<Rightarrow> bool" where
  "bal w x y z \<longleftrightarrow> (w = x \<and> y = z \<and> w \<noteq> y) \<or> (w = y \<and> x = z \<and> w \<noteq> x) \<or> (w = z \<and> x = y \<and> w \<noteq> x)"

lemma ones_bal: "i < 32 \<Longrightarrow> one a i + one b i + one c i + one d i = 2 \<longleftrightarrow> bal (bit a i) (bit b i) (bit c i) (bit d i)"
  by (cases "bit a i"; cases "bit b i"; cases "bit c i"; cases "bit d i") (simp_all add: one_val2 val2_def bal_def)

text \<open>The exhaustive search of the comment: some multiple of the third bit works.\<close>

lemma guns_bool:
  assumes "distinct [(a1, a2, a3), (b1, b2, b3), (c1, c2, c3), (d1, d2, d3)]"
    and "\<not> bal a3 b3 c3 d3 \<or> bal a1 b1 c1 d1 \<and> bal a2 b2 c2 d2"
  shows "distinct [(a1 \<noteq> a3, a2), (b1 \<noteq> b3, b2), (c1 \<noteq> c3, c2), (d1 \<noteq> d3, d2)] \<or>
    distinct [(a1, a2 \<noteq> a3), (b1, b2 \<noteq> b3), (c1, c2 \<noteq> c3), (d1, d2 \<noteq> d3)] \<or>
    distinct [(a1 \<noteq> a3, a2 \<noteq> a3), (b1 \<noteq> b3, b2 \<noteq> b3), (c1 \<noteq> c3, c2 \<noteq> c3), (d1 \<noteq> d3, d2 \<noteq> d3)] \<or>
    distinct [(a1, a2), (b1, b2), (c1, c2), (d1, d2)]"
  using assms unfolding bal_def
  by (cases a3; cases b3; cases c3; cases d3; cases a1; cases b1; cases c1; cases d1; simp; argo)

lemma guns_order_ok:
  assumes ijk: "i < 32" "j < 32" "k < 32" and t: "distinct (map (triple i j k) [a, b, c, d])" and n: "\<And>p q. \<not> tells p q [a, b, c, d]"
    and e: "guns_order a b c d (i, j, k) = (m, n, p)"
  shows "m < n \<and> n < 32 \<and> p < 32 \<and> p \<noteq> m \<and> p \<noteq> n \<and> distinct (map (triple m n p) [a, b, c, d]) \<and>
    (\<not> bal (bit a p) (bit b p) (bit c p) (bit d p) \<or> bal (bit a m) (bit b m) (bit c m) (bit d m) \<and> bal (bit a n) (bit b n) (bit c n) (bit d n))"
proof -
  have coarse: "distinct (map f [a, b, c, d])" if "\<And>u v. f u = f v \<Longrightarrow> triple i j k u = triple i j k v" for f :: "u32 \<Rightarrow> 'c"
    using distinct_map_coarser [OF t that] .
  have "i \<noteq> j" using n [of i k] coarse [of "\<lambda>v. (bit v i, bit v k)"] by (auto simp: triple_def tells_def)
  moreover have "i \<noteq> k" "j \<noteq> k" using n [of i j] coarse [of "\<lambda>v. (bit v i, bit v j)"] by (auto simp: triple_def tells_def)
  moreover have "distinct (map (triple j k i) [a, b, c, d])" "distinct (map (triple i k j) [a, b, c, d])" "distinct (map (triple k j i) [a, b, c, d])"
      "distinct (map (triple k i j) [a, b, c, d])" "distinct (map (triple j i k) [a, b, c, d])"
    by (rule distinct_map_coarser [OF t]; auto simp: triple_def)+
  ultimately show ?thesis using e t ijk unfolding guns_order_def Let_def ones_bal [OF ijk(1)] ones_bal [OF ijk(2)] ones_bal [OF ijk(3)] prod.case
    by (auto simp: not_less split: if_splits)
qed

text \<open>What is printed computes what was tested, up to the order of the two bits.\<close>

lemma code_by1_val2:
  assumes "m < n" "n < 32" "p < 32"
  shows "code_by1 m n p v = val2 (bit v m \<noteq> bit v p) (bit v n)"
  using assms by (auto simp: code_by1_def Let_def val2_simps bit_shr bit_xor_iff)

lemma code_by2_val2:
  assumes "m < n" "n < 32" "p < 32" "p \<noteq> m" "p \<noteq> n"
  shows "code_by2 m n p v = (if p = 0 then val2 (bit v n \<noteq> bit v p) (bit v m) else val2 (bit v m) (bit v n \<noteq> bit v p))"
  using assms by (auto simp: code_by2_def Let_def val2_simps bit_shr bit_xor_iff)

lemma bit_shl: "bit (shl v (Suc 0)) (Suc 0) = bit v 0" "bit (shl v (Suc 0)) 0 = False"
  unfolding shl_def bit_push_bit_iff by simp_all

lemma bit_mask3:
  assumes "m < 32" "n < 32" "p < 32" "m \<noteq> n" "p \<noteq> m" "p \<noteq> n"
  shows "bit (v AND (shl 1 m XOR shl 1 n XOR shl 1 p)) r \<longleftrightarrow> bit v r \<and> (r = m \<or> r = n \<or> r = p)"
proof -
  have "bit (shl 1 q :: u32) r \<longleftrightarrow> r = q" if "q < 32" for q using that by (auto simp: shl_def bit_simps)
  then show ?thesis using assms by (auto simp: bit_and_iff bit_xor_iff)
qed

lemma code_by3_val2:
  assumes "m < n" "n < 32" "p < 32" "p \<noteq> m" "p \<noteq> n"
  shows "code_by3 m n p v = (if Suc p = m \<and> Suc m \<noteq> n then val2 (bit v n \<noteq> bit v p) (bit v m \<noteq> bit v p) else val2 (bit v m \<noteq> bit v p) (bit v n \<noteq> bit v p))"
proof -
  consider "Suc m = p" | "Suc m \<noteq> p" "Suc m = n" | "Suc m \<noteq> p" "Suc m \<noteq> n" "Suc p = n" | "Suc p = m" "Suc m \<noteq> n"
    | "Suc m \<noteq> p" "Suc m \<noteq> n" "Suc p \<noteq> n" "Suc p \<noteq> m" using assms by linarith
  then show ?thesis
  proof cases
    case 1
    then show ?thesis using assms by (auto simp: code_by3_def Let_def val2_simps bit_shr)
  next
    case 2
    then show ?thesis using assms by (auto simp: code_by3_def Let_def val2_simps bit_shr)
  next
    case 3
    then show ?thesis using assms by (auto simp: code_by3_def Let_def val2_simps bit_shr)
  next
    case 4
    then show ?thesis using assms by (auto simp: code_by3_def Let_def val2_simps bit_shr bit_shl)
  next
    case 5
    have "m < 32" "m \<noteq> n" using assms by auto
    note mask = bit_mask3 [OF this(1) assms(2,3) this(2) assms(4,5)]
    let ?w = "v AND (shl 1 m XOR shl 1 n XOR shl 1 p)"
    have "code_by3 m n p v = (shr ?w m XOR shr ?w (n - 1) XOR - shr ?w p) AND 3"
      using 5 assms by (cases "m = 0"; cases "p = 0") (simp_all add: code_by3_def Let_def)
    moreover have "bit (shr ?w m) 0 = bit v m" "bit (shr ?w m) 1 = False" "bit (shr ?w (n - 1)) 0 = False" "bit (shr ?w (n - 1)) 1 = bit v n"
        "bit (shr ?w p) 0 = bit v p" "bit (shr ?w p) 1 = False"
      using 5 assms by (auto simp: bit_shr mask)
    ultimately show ?thesis using 5 by (simp only: and_3_val2 bit_xor_iff bit_uminus) auto
  qed
qed

lemma guns_tests:
  assumes "m < n" "n < 32" "p < 32"
  shows "((shr v m XOR shr v p) AND 1) XOR (shr v (n - 1) AND 2) = val2 (bit v m \<noteq> bit v p) (bit v n)"
    and "one v m XOR shl ((shr v n XOR shr v p) AND 1) 1 = val2 (bit v m) (bit v n \<noteq> bit v p)"
    and "(one v m XOR (shr v (n - 1) AND 2)) XOR one v p XOR shl (one v p) 1 = val2 (bit v m \<noteq> bit v p) (bit v n \<noteq> bit v p)"
    and "one v m XOR (shr v (n - 1) AND 2) = val2 (bit v m) (bit v n)"
  using assms by (simp_all add: one_val2 val2_simps bit_shr bit_xor_iff)

lemma good4_val2:
  assumes "\<And>v. f v = (if s then val2 (y v) (x v) else val2 (x v) (y v))" "distinct (map (\<lambda>v. (x v, y v)) [a, b, c, d])"
  shows "good4 a b c d f"
proof -
  have "distinct (map f [a, b, c, d])" by (rule distinct_map_coarser [OF assms(2)]) (simp add: assms(1) split: if_splits)
  moreover have "unat (f v) < 4" for v by (simp add: assms(1) val2_lt)
  ultimately show ?thesis unfolding good4_def distinct4_iff by blast
qed

lemma try4_val2:
  assumes "\<And>v. test v = val2 (x v) (y v)"
  shows "try4 a b c d test code = (if distinct (map (\<lambda>v. (x v, y v)) [a, b, c, d]) then Some code else None)"
proof -
  have "testfour (test a) (test b) (test c) (test d) \<longleftrightarrow> distinct [test a, test b, test c, test d]"
    by (rule testfour_iff) (simp_all add: assms val2_lt)
  then show ?thesis by (simp add: try4_def assms)
qed

lemma orelse_choice:
  assumes "A \<Longrightarrow> P x" "B \<Longrightarrow> P y" "C \<Longrightarrow> P z" "D \<Longrightarrow> P w" "A \<or> B \<or> C \<or> D"
  shows "\<exists>f. orelse (if A then Some x else None) (orelse (if B then Some y else None) (orelse (if C then Some z else None) (if D then Some w else None))) = Some f \<and> P f"
  using assms by (auto simp: orelse_def)

lemma big_guns_good:
  assumes mnp: "m < n" "n < 32" "p < 32" "p \<noteq> m" "p \<noteq> n" and t: "distinct (map (triple m n p) [a, b, c, d])"
    and o: "\<not> bal (bit a p) (bit b p) (bit c p) (bit d p) \<or> bal (bit a m) (bit b m) (bit c m) (bit d m) \<and> bal (bit a n) (bit b n) (bit c n) (bit d n)"
  shows "\<exists>f. big_guns a b c d (m, n, p) = Some f \<and> good4 a b c d f"
proof -
  let ?D = "\<lambda>f :: u32 \<Rightarrow> bool \<times> bool. distinct (map f [a, b, c, d])"
  let ?f1 = "\<lambda>v. (bit v m \<noteq> bit v p, bit v n)" and ?f2 = "\<lambda>v. (bit v m, bit v n \<noteq> bit v p)"
    and ?f3 = "\<lambda>v. (bit v m \<noteq> bit v p, bit v n \<noteq> bit v p)" and ?f0 = "\<lambda>v. (bit v m, bit v n)"
  have some: "?D ?f1 \<or> ?D ?f2 \<or> ?D ?f3 \<or> ?D ?f0" using t guns_bool [OF _ o] by (simp only: triple_def list.map)
  have eq: "big_guns a b c d (m, n, p) = orelse (if ?D ?f1 then Some (code_by1 m n p) else None)
      (orelse (if ?D ?f2 then Some (code_by2 m n p) else None) (orelse (if ?D ?f3 then Some (code_by3 m n p) else None)
      (if ?D ?f0 then Some (\<lambda>v. one v m XOR (shr v (n - 1) AND 2)) else None)))"
    unfolding big_guns_def prod.case by (simp only: try4_val2 [OF guns_tests(1) [OF mnp(1-3)]] try4_val2 [OF guns_tests(2) [OF mnp(1-3)]]
      try4_val2 [OF guns_tests(3) [OF mnp(1-3)]] try4_val2 [OF guns_tests(4) [OF mnp(1-3)]])
  have g1: "?D ?f1 \<Longrightarrow> good4 a b c d (code_by1 m n p)"
    by (rule good4_val2 [where s = False]) (simp_all only: code_by1_val2 [OF mnp(1-3)] if_False)
  have g2: "?D ?f2 \<Longrightarrow> good4 a b c d (code_by2 m n p)"
    by (rule good4_val2 [where s = "p = 0"]) (simp_all only: code_by2_val2 [OF mnp])
  have g3: "?D ?f3 \<Longrightarrow> good4 a b c d (code_by3 m n p)"
    by (rule good4_val2 [where s = "Suc p = m \<and> Suc m \<noteq> n"]) (simp_all only: code_by3_val2 [OF mnp])
  have g0: "?D ?f0 \<Longrightarrow> good4 a b c d (\<lambda>v. one v m XOR (shr v (n - 1) AND 2))"
    by (rule good4_val2 [where s = False]) (simp_all only: guns_tests(4) [OF mnp(1-3)] if_False)
  show ?thesis unfolding eq by (rule orelse_choice [where P = "good4 a b c d", OF g1 g2 g3 g0 some])
qed

lemma hexfour_ok:
  assumes g: "bits_of g [a, b, c, d]" and d: "distinct [a, b, c, d]"
  shows "\<exists>f. hexfour g a b c d = Ok f \<and> good4 a b c d f"
proof (cases "orelse (four_short g a b c d) (orelse (four_linear g a b c d) (orelse (four_quadratic g a b c d) (four_five g a b c d)))")
  case (Some f)
  then have "hexfour g a b c d = Ok f" using d by (simp add: hexfour_def)
  moreover have "good4 a b c d f" using Some four_quadratic_dead [OF g]
    by (cases "four_short g a b c d"; cases "four_linear g a b c d")
      (auto simp: orelse_def dest: four_short_good four_linear_good four_five_good)
  ultimately show ?thesis by blast
next
  case None
  then have n: "\<not> tells p q [a, b, c, d]" for p q using four_five_None [OF g] by simp
  obtain i j k where e: "guns_bits (lowbit g) a b c d = (i, j, k)" by (metis prod_cases3)
  have f: "i < 32" "j < 32" "k < 32" "distinct (map (triple i j k) [a, b, c, d])" using guns_bits_found [OF g d e] by blast+
  obtain m n p where o: "guns_order a b c d (i, j, k) = (m, n, p)" by (metis prod_cases3)
  from guns_order_ok [OF f n o] obtain f where "big_guns a b c d (m, n, p) = Some f" "good4 a b c d f" using big_guns_good by blast
  then show ?thesis using None d e o f(1-3) by (simp add: hexfour_def orelse_def)
qed

section \<open>Five to eight keys\<close>

lemma testeightD:
  "testeight as mk \<Longrightarrow> \<forall>a\<in>set as. unat a < 8 \<Longrightarrow> distinct as \<and> (\<forall>a\<in>set as. \<not> bit mk (unat a))"
proof (induction as arbitrary: mk)
  case (Cons a as)
  then have "\<not> bit mk (unat a)" "testeight as (mk OR push_bit (unat a) 1)" by (auto split: if_splits)
  with Cons.IH [OF this(2)] Cons.prems(2) show ?case by (auto simp: bit_simps)
qed simp

lemma bit_badmask: "bit (badmask_of form n) r \<longleftrightarrow> hperfect form = MINIMAL_HP \<and> n \<le> r \<and> r < 8"
proof -
  have "bit (fold (\<lambda>i m. m OR push_bit i 1) ns m :: byte) r \<longleftrightarrow> bit m r \<or> r < 8 \<and> r \<in> set ns" for ns m
    by (induction ns arbitrary: m) (auto simp: bit_simps)
  then show ?thesis by (auto simp: badmask_of_def)
qed

lemma and_7_lt: "unat (x AND 7 :: u32) < 8"
proof -
  have "x AND 7 = take_bit 3 x" by (simp add: take_bit_eq_mask mask_eq_exp_minus_1)
  moreover have "unat (take_bit 3 x) < 2 ^ 3" by (simp only: unsigned_take_bit_eq take_bit_nat_less_exp)
  ultimately show ?thesis by simp
qed

definition good8 :: "hashform \<Rightarrow> pkey list \<Rightarrow> (u32 \<Rightarrow> u32) \<Rightarrow> bool" where
  "good8 form keys f \<longleftrightarrow> distinct (map (\<lambda>k. f (hash_k k)) keys) \<and> (\<forall>k\<in>set keys. unat (f (hash_k k)) < (if hperfect form = MINIMAL_HP then length keys else 8))"

lemma try8_good:
  assumes "try8 keys (badmask_of form (length keys)) f = Some (ks, f')" "\<And>v. unat (f v) < 8"
  shows "good8 form keys f'"
proof -
  have e: "f' = f" "testeight (map (\<lambda>k. f (hash_k k)) keys) (badmask_of form (length keys))"
    using assms(1) by (auto simp: try8_def Let_def comp_def split: if_splits)
  from testeightD [OF e(2)] assms(2) show ?thesis by (auto simp: good8_def e(1) bit_badmask not_le [symmetric])
qed

lemma hexeight_good: "hexeight form g keys = Ok (Some (ks, f)) \<Longrightarrow> good8 form keys f"
  unfolding hexeight_def eight_long_def Let_def
  by (auto split: option.splits if_splits dest!: orelse_SomeD first_of_SomeD try8_good [OF _ and_7_lt] simp del: upt_Suc)

text \<open>When some keys are the same no attempt succeeds, and the loop whose bound wraps around never ends.\<close>

lemma try8_duplicates:
  assumes "\<not> distinct (map hash_k keys)" "\<And>v. unat (f v) < 8"
  shows "try8 keys mk f = None"
proof -
  have "\<not> distinct (map (\<lambda>k. f (hash_k k)) keys)" using assms(1) distinct_map [of f "map hash_k keys"] by (auto simp: comp_def)
  then show ?thesis using testeightD [of "map (\<lambda>k. f (hash_k k)) keys" mk] assms(2) by (auto simp: try8_def Let_def comp_def)
qed

lemma first_of_const: "first_of (\<lambda>i. None) xs = None"
  by (simp add: first_of_None)

lemma hexeight_duplicates:
  assumes "\<not> distinct (map hash_k keys)" "highbit g = 1"
  shows "hexeight form g keys = Fault Diverges"
  using assms try8_duplicates [OF assms(1) and_7_lt] by (simp add: hexeight_def Let_def first_of_const orelse_def)

lemma setlow_highbit: "highbit (setlow keys g) \<noteq> 0 \<Longrightarrow> bit (diffbits (setlow keys g)) (highbit (setlow keys g))"
proof -
  let ?d = "diffbits (setlow keys g)"
  assume h: "highbit (setlow keys g) \<noteq> 0"
  have hi: "highbit (setlow keys g) = (case find (bit ?d) (rev [1..<32]) of Some i \<Rightarrow> i | None \<Rightarrow> 0)" by (simp add: setlow_def Let_def)
  then obtain i where "find (bit ?d) (rev [1..<32]) = Some i" using h by (cases "find (bit ?d) (rev [1..<32])") auto
  moreover from this have "bit ?d i" unfolding find_Some_iff by blast
  ultimately show "bit ?d (highbit (setlow keys g))" using hi by simp
qed

text \<open>
  Five to eight integer keys that differ in their lowest two bits only cannot all be different. The generator
  does not report this as it does for more keys, but never ends.\<close>

theorem inithex_hangs:
  assumes n: "5 \<le> length keys" "length keys \<le> 8"
    and low: "\<forall>k\<in>set keys. \<forall>k'\<in>set keys. drop_bit 2 (hash_k k) = drop_bit 2 (hash_k k')"
    and one: "k \<in> set keys" "k' \<in> set keys" "bit (hash_k k) 1 \<noteq> bit (hash_k k') 1"
  shows "inithex form g0 keys alen blen smax 1 = Fault Diverges"
proof -
  let ?g = "setlow keys g0" and ?low = "(\<lambda>v. (bit v 0, bit v 1)) :: u32 \<Rightarrow> bool \<times> bool"
  have high: "bit (hash_k k) r = bit (hash_k k') r" if kk: "k \<in> set keys" "k' \<in> set keys" "2 \<le> r" for k k' r
  proof -
    obtain q where q: "r = 2 + q" using le_Suc_ex [OF kk(3)] by blast
    have "bit (drop_bit 2 (hash_k k)) q = bit (drop_bit 2 (hash_k k')) q" using low [rule_format, OF kk(1,2)] by (rule arg_cong)
    then show ?thesis unfolding q bit_drop_bit_eq comp_apply .
  qed
  have d: "bit (diffbits ?g) r \<longleftrightarrow> (\<exists>u\<in>set keys. \<exists>v\<in>set keys. bit (hash_k u) r \<noteq> bit (hash_k v) r)" for r
    using setlow_bits_of [of keys g0] by (simp add: bits_of_def)
  have "1 \<le> highbit ?g" using setlow_bounds(2) [of keys g0 1] d [of 1] one by blast
  moreover have "highbit ?g < 2"
  proof (rule ccontr)
    assume h: "\<not> highbit ?g < 2"
    then have "bit (diffbits ?g) (highbit ?g)" using setlow_highbit [of keys g0] by linarith
    then obtain u v where "u \<in> set keys" "v \<in> set keys" "bit (hash_k u) (highbit ?g) \<noteq> bit (hash_k v) (highbit ?g)" unfolding d by blast
    then show False using high [of u v "highbit ?g"] h by simp
  qed
  ultimately have hi: "highbit ?g = 1" by simp
  have "\<not> distinct (map hash_k keys)"
  proof
    assume "distinct (map hash_k keys)"
    moreover have "inj_on ?low (set (map hash_k keys))"
    proof (rule inj_onI)
      fix u v
      assume uv: "u \<in> set (map hash_k keys)" "v \<in> set (map hash_k keys)" "?low u = ?low v"
      obtain x y where xy: "x \<in> set keys" "y \<in> set keys" "u = hash_k x" "v = hash_k y" using uv(1,2) by auto
      have "bit u r = bit v r" for r
      proof (cases "2 \<le> r")
        case True
        then show ?thesis using high [OF xy(1,2)] xy(3,4) by simp
      next
        case False
        then have "r = 0 \<or> r = 1" by linarith
        then show ?thesis using uv(3) by (elim disjE) simp_all
      qed
      then show "u = v" by (rule bit_word_eqI)
    qed
    ultimately have "length keys = card (?low ` set (map hash_k keys))"
      using card_image [of ?low "set (map hash_k keys)"] distinct_card [of "map hash_k keys"] by simp
    also have "\<dots> \<le> card (UNIV :: (bool \<times> bool) set)" by (rule card_mono) simp_all
    finally show False using n(1) by (simp add: card_UNIV_bool)
  qed
  then show ?thesis using hexeight_duplicates [OF _ hi] n by (simp add: inithex_def Let_def)
qed

section \<open>Hashes without a table\<close>

lemma inithex_four:
  assumes "length keys = 4" "distinct (map hash_k keys)"
  shows "\<exists>g. inithex form g0 keys alen blen smax salt = Ok (True, keys, g) \<and> distinct (map (\<lambda>k. g_rsl g (hash_k k)) keys) \<and>
    (\<forall>k\<in>set keys. unat (g_rsl g (hash_k k)) < 4)"
proof -
  obtain k1 k2 k3 k4 where k: "keys = [k1, k2, k3, k4]" using assms(1) by (auto simp: length_Suc_conv eval_nat_numeral)
  have "bits_of (setlow keys g0) [hash_k k1, hash_k k2, hash_k k3, hash_k k4]" using setlow_bits_of [of keys g0] k by simp
  moreover have "distinct [hash_k k1, hash_k k2, hash_k k3, hash_k k4]" using assms(2) k by simp
  ultimately obtain f where f: "hexfour (setlow keys g0) (hash_k k1) (hash_k k2) (hash_k k3) (hash_k k4) = Ok f"
    "good4 (hash_k k1) (hash_k k2) (hash_k k3) (hash_k k4) f" using hexfour_ok by blast
  then have "inithex form g0 keys alen blen smax salt = Ok (True, keys, (setlow keys g0)\<lparr>g_rsl := f\<rparr>)" by (simp add: inithex_def set_rsl_def Let_def k)
  then show ?thesis using f(2) k by (auto simp: good4_def)
qed

lemma inithex_eight:
  assumes "5 \<le> length keys" "inithex form g0 keys alen blen smax salt = Ok (True, ks, g)"
  shows "length keys \<le> 8 \<and> good8 form keys (g_rsl g)"
  using assms by (auto simp: inithex_def Let_def res_bind_Ok_iff dest!: hexeight_good split: option.splits if_splits)

text \<open>
  C22. Integer keys whose hash needs no table: for one, three or four different keys \<open>inithex\<close> always finds a perfect hash,
  as the proofs in the comments of \<open>hexthree\<close> and \<open>hexfour\<close> claim, and never gets to a fatal error. Whenever it says that it found one, there are at most eight keys
  and the code that is generated maps them to different numbers below 8, and below the number of keys when
  a minimal hash is asked for. Two keys are left out: see \<open>hextwo_collides\<close>.\<close>

theorem inithex_perfect:
  assumes "distinct (map hash_k keys)" "keys \<noteq> []" "length keys \<noteq> 2"
  shows "(length keys \<le> 4 \<longrightarrow> (\<exists>ks g. inithex form g0 keys alen blen smax salt = Ok (True, ks, g))) \<and>
    (\<forall>ks g. inithex form g0 keys alen blen smax salt = Ok (True, ks, g) \<longrightarrow>
      length keys \<le> 8 \<and> distinct (map (\<lambda>k. g_rsl g (hash_k k)) keys) \<and>
      (\<forall>k\<in>set keys. unat (g_rsl g (hash_k k)) < (if hperfect form = MINIMAL_HP then length keys else 8)))"
proof -
  consider "length keys = 1" | "length keys = 3" | "length keys = 4" | "5 \<le> length keys" using assms(2,3) length_0_conv [of keys] by linarith
  then show ?thesis
  proof cases
    case 1
    then obtain k where "keys = [k]" by (auto simp: length_Suc_conv)
    then show ?thesis by (simp add: inithex_def hexone_def Let_def)
  next
    case 2
    from inithex_three [OF 2 assms(1), of form g0 alen blen smax salt] 2 show ?thesis by (auto split: if_splits)
  next
    case 3
    from inithex_four [OF 3 assms(1), of form g0 alen blen smax salt] 3 show ?thesis by auto
  next
    case 4
    then show ?thesis using inithex_eight [OF 4] by (auto simp: good8_def)
  qed
qed

definition hex_form :: hashform where
  "hex_form = \<lparr>mode = HEX_HM, hashtype = INT_HT, hperfect = MINIMAL_HP, speed = SLOW_HS\<rparr>"

theorem inithex_perfect_witness:
  "\<exists>ks g. inithex hex_form no_gencode (map int_key [0x00, 0x04, 0x09, 0x10]) 1 1 1 1 = Ok (True, ks, g) \<and>
    distinct (map (\<lambda>k. g_rsl g (hash_k k)) (map int_key [0x00, 0x04, 0x09, 0x10])) \<and>
    (\<forall>k\<in>set (map int_key [0x00, 0x04, 0x09, 0x10]). unat (g_rsl g (hash_k k)) < 4)"
proof -
  let ?keys = "map int_key [0x00, 0x04, 0x09, 0x10]"
  have "distinct (map hash_k ?keys)" "?keys \<noteq> []" "length ?keys \<noteq> 2" "length ?keys = 4" "hperfect hex_form = MINIMAL_HP"
    by (simp_all add: int_key_def hex_form_def)
  with inithex_perfect [of ?keys hex_form no_gencode 1 1 1 1] show ?thesis by auto
qed

end
