(* ===== verification/Perfhex_Pairs.thy ===== *)
theory Perfhex_Pairs
  imports Perfhex_Four Perfect_Find
begin

text \<open>
  The state machine \<open>hexn\<close> of \<open>src/lib/perfect/perfhex.c\<close>, which gives integer keys a different pair \<open>(a, b)\<close> each time it is called:
  it always gets to a pair, the pairs it stores are those the generated code computes, and they are inside the
  tables. With a table of one entry they are not.
\<close>

unbundle bit_operations_syntax

lemma shr_top_lt:
  assumes "1 \<le> l" "l \<le> 31"
  shows "unat (shr x (32 - l)) < 2 ^ l"
proof -
  have "unat x < 2 ^ (32 - l) * 2 ^ l" using unsigned_less [of x, where 'a = nat] assms by (simp flip: power_add)
  then have "unat x div 2 ^ (32 - l) < 2 ^ l" by (simp add: less_mult_imp_div_less mult.commute)
  moreover have "(32 - l) mod 32 = 32 - l" using assms by simp
  ultimately show ?thesis unfolding shr_def unsigned_drop_bit_eq using unsigned_less [of x, where 'a = nat] by (simp add: drop_bit_eq_div take_bit_nat_eq_self)
qed

lemma and_mask_lt: "unat (x AND (2 ^ l - 1) :: u32) < 2 ^ l"
proof -
  have "x AND (2 ^ l - 1) = take_bit l x" by (simp add: take_bit_eq_mask mask_eq_exp_minus_1)
  then show ?thesis by (simp only: unsigned_take_bit_eq take_bit_nat_less_exp)
qed

text \<open>The code that is generated in state 4 leaves a mask out when the shift leaves no other bits.\<close>

lemma code_shifts_eq:
  assumes "1 \<le> q" "q \<le> 31"
  shows "code_shifts g p (2 ^ q) q = ab_shifts g p (2 ^ q)"
proof
  fix v
  have "shr v (g_j g) AND (2 ^ q - 1) = shr v (g_j g)" if "g_j g \<noteq> 0" "q + g_j g = 32"
  proof -
    have "unat (shr v (32 - q)) < 2 ^ q" by (rule shr_top_lt [OF assms])
    moreover have "32 - q = g_j g" using that by simp
    ultimately have "take_bit q (shr v (g_j g)) = shr v (g_j g)" by (simp add: word_unat_eq_iff unsigned_take_bit_eq take_bit_nat_eq_self)
    then show ?thesis by (simp add: take_bit_eq_mask mask_eq_exp_minus_1)
  qed
  then show "code_shifts g p (2 ^ q) q v = ab_shifts g p (2 ^ q) v" by (simp add: code_shifts_def ab_shifts_def)
qed

definition pair_ok :: "nat \<Rightarrow> nat \<Rightarrow> (u32 \<Rightarrow> u32 \<times> u32) \<Rightarrow> bool" where
  "pair_ok p q f \<longleftrightarrow> (\<forall>v. unat (fst (f v)) < 2 ^ p \<and> unat (snd (f v)) < 2 ^ q)"

lemma pairs_ok:
  assumes "1 \<le> p" "p \<le> 31" "1 \<le> q" "q \<le> 31"
  shows "pair_ok p q (ab_high_low g p (2 ^ q))" "pair_ok p q (ab_low_high g (2 ^ p) q)" "pair_ok p q (ab_shifts g p (2 ^ q))"
    "pair_ok p q (ab_mixed g p (2 ^ q) addk)"
  using assms by (simp_all add: pair_ok_def ab_high_low_def ab_low_high_def ab_shifts_def ab_mixed_def Let_def shr_top_lt and_mask_lt)

definition hexn_gives :: "pkey list \<Rightarrow> u32 \<Rightarrow> nat \<Rightarrow> nat \<Rightarrow> gencode \<Rightarrow> bool" where
  "hexn_gives keys salt p q g \<longleftrightarrow>
     (\<exists>g'. hexn keys salt (2 ^ p) (2 ^ q) p q g = Ok (set_pairs (g_ab g') keys, g') \<and> pair_ok p q (g_ab g') \<and> g_i g' \<in> {1..9})"

lemma hexn_goes_on:
  "hexn keys salt (2 ^ p) (2 ^ q) p q g = hexn keys salt (2 ^ p) (2 ^ q) p q g' \<Longrightarrow> hexn_gives keys salt p q g' \<Longrightarrow> hexn_gives keys salt p q g"
  by (simp add: hexn_gives_def)

lemma hexn_stops:
  "hexn keys salt (2 ^ p) (2 ^ q) p q g = Ok (set_pairs (g_ab g') keys, g') \<Longrightarrow> pair_ok p q (g_ab g') \<Longrightarrow> g_i g' \<in> {1..9} \<Longrightarrow> hexn_gives keys salt p q g"
  unfolding hexn_gives_def by blast

lemma hexn_ok:
  assumes pq: "1 \<le> p" "p \<le> 31" "1 \<le> q" "q \<le> 31" and i: "g_i g \<in> {1..9}"
  shows "hexn_gives keys salt p q g"
  using i
proof (induction "hexn_weight q g" arbitrary: g rule: less_induct)
  case (less g)
  note ok = pairs_ok [OF pq] code_shifts_eq [OF pq(3,4)] and def = hexn.simps [of keys salt "2 ^ p" "2 ^ q" p q g]
  have go: "hexn_gives keys salt p q g"
    if "hexn keys salt (2 ^ p) (2 ^ q) p q g = hexn keys salt (2 ^ p) (2 ^ q) p q g'" "hexn_weight q g' < hexn_weight q g" "g_i g' \<in> {1..9}" for g'
    by (rule hexn_goes_on [OF that(1) less.hyps [OF that(2,3)]])
  consider "g_i g = 1" | "g_i g = 2" | "g_i g = 3" | "g_i g = 4" | "g_i g = 5" | "g_i g = 6" | "g_i g = 7" | "g_i g = 8" | "g_i g = 9"
    using less.prems by fastforce
  then show ?case
  proof cases
    case 1
    show ?thesis by (rule hexn_stops [of _ _ _ _ _ "g\<lparr>g_ab := ab_high_low g p (2 ^ q), g_i := 2\<rparr>"]) (simp_all add: def 1 ok)
  next
    case 2
    show ?thesis by (rule hexn_stops [of _ _ _ _ _ "g\<lparr>g_ab := ab_low_high g (2 ^ p) q, g_i := 3\<rparr>"]) (simp_all add: def 2 ok)
  next
    case 3
    show ?thesis by (rule go [of "g\<lparr>g_k := lowbit g, g_j := lowbit g, g_i := 4\<rparr>"]) (simp_all add: def 3 hexn_weight_def)
  next
    case 4
    show ?thesis
    proof (cases "g_j g < highbit g")
      case True
      show ?thesis by (rule hexn_stops [of _ _ _ _ _ "g\<lparr>g_ab := code_shifts g p (2 ^ q) q, g_j := skip_to (\<lambda>j. shr (diffbits g) j AND (2 ^ q - 1) > 2) (g_j g) (highbit g)\<rparr>"])
          (simp_all add: def 4 True ok)
    next
      case False
      show ?thesis by (rule go [of "g\<lparr>g_i := 5\<rparr>"]) (simp_all add: def 4 False hexn_weight_def)
    qed
  next
    case 5
    define k where "k = skip_to (\<lambda>k. shr (shl (diffbits g) (31 - k)) p AND (2 ^ p - 1) > 0) (g_k g) (highbit g)"
    have "g_k g < k" unfolding k_def by (rule skip_to_gt)
    show ?thesis
    proof (cases "k < highbit g")
      case True
      then show ?thesis using \<open>g_k g < k\<close> by (intro go [of "g\<lparr>g_k := k, g_j := lowbit g, g_i := 4\<rparr>"]) (simp_all add: def 5 hexn_weight_def k_def Let_def)
    next
      case False
      then show ?thesis by (intro go [of "g\<lparr>g_k := k, g_i := 6\<rparr>"]) (simp_all add: def 5 hexn_weight_def k_def Let_def)
    qed
  next
    case 6
    show ?thesis by (rule go [of "g\<lparr>g_k := 0, g_j := 0, g_i := 7\<rparr>"]) (simp_all add: def 6 hexn_weight_def)
  next
    case 7
    show ?thesis
    proof (cases "g_j g \<le> 32 - q")
      case True
      then show ?thesis
        by (intro hexn_stops [of _ _ _ _ _ "g\<lparr>g_ab := ab_mixed g p (2 ^ q) (golden * salt), g_j := g_j g + 1\<rparr>"]) (simp_all add: def 7 ok)
    next
      case False
      then show ?thesis by (intro go [of "g\<lparr>g_i := 8\<rparr>"]) (simp_all add: def 7 hexn_weight_def)
    qed
  next
    case 8
    show ?thesis
    proof (cases "g_k g + 1 \<le> 32 - p")
      case True
      then show ?thesis by (intro go [of "g\<lparr>g_k := g_k g + 1, g_j := 0, g_i := 7\<rparr>"]) (simp_all add: def 8 hexn_weight_def)
    next
      case False
      then show ?thesis by (intro go [of "g\<lparr>g_k := g_k g + 1, g_i := 9\<rparr>"]) (simp_all add: def 8 hexn_weight_def)
    qed
  next
    case 9
    show ?thesis by (rule go [of "g\<lparr>g_i := 6\<rparr>"]) (simp_all add: def 9 hexn_weight_def)
  qed
qed

lemma mylog2_power: "p \<le> 31 \<Longrightarrow> mylog2 (2 ^ p) = Ok p"
  using mylog2_pow [of p] by simp

text \<open>
  C34. The initial hash of more than eight integer keys, and of five to eight after the first try, with tables of at least two entries: \<open>inithex\<close> always
  returns, every key gets the pair \<open>(a, b)\<close> that the generated code computes for it, both are inside the tables of \<open>alen\<close>
  and \<open>blen\<close> entries, and the state machine is left in a state from which this holds again.\<close>

theorem inithex_pairs:
  assumes "1 \<le> p" "p \<le> 31" "1 \<le> q" "q \<le> 31" "8 < length keys \<or> 4 < length keys \<and> salt \<noteq> 1" "salt = 1 \<or> g_i g0 \<in> {1..9}"
  shows "\<exists>g. inithex form g0 keys (2 ^ p) (2 ^ q) smax salt = Ok (False, set_pairs (g_ab g) keys, g) \<and> g_i g \<in> {1..9} \<and>
    (\<forall>v. unat (fst (g_ab g v)) < 2 ^ p \<and> unat (snd (g_ab g v)) < 2 ^ q)"
proof -
  define g1 where "g1 = (let g = setlow keys g0 in if salt = 1 then g\<lparr>g_i := 1, g_j := 0, g_k := 0, g_scr := (unat (2 ^ q :: u32) \<ge> USE_SCRAMBLE)\<rparr> else g)"
  have "g_i g1 \<in> {1..9}" using assms(6) by (auto simp: g1_def Let_def setlow_def)
  then obtain g where g: "hexn keys salt (2 ^ p) (2 ^ q) p q g1 = Ok (set_pairs (g_ab g) keys, g)" "pair_ok p q (g_ab g)" "g_i g \<in> {1..9}"
    using hexn_ok [OF assms(1-4)] unfolding hexn_gives_def by blast
  have "inithex form g0 keys (2 ^ p) (2 ^ q) smax salt = res_bind (hexn keys salt (2 ^ p) (2 ^ q) p q g1) (\<lambda>(ks, g2). Ok (False, ks, g2))"
    using assms(5) mylog2_power [OF assms(2)] mylog2_power [OF assms(4)] by (auto simp: inithex_def Let_def g1_def)
  then show ?thesis using g by (auto simp: pair_ok_def)
qed

theorem inithex_pairs_witness:
  "\<exists>g. inithex hex_form no_gencode (map int_key [1, 2, 4, 8, 16, 32, 64, 128, 256]) (2 ^ 3) (2 ^ 3) 16 1 =
      Ok (False, set_pairs (g_ab g) (map int_key [1, 2, 4, 8, 16, 32, 64, 128, 256]), g) \<and> g_i g \<in> {1..9} \<and>
    (\<forall>v. unat (fst (g_ab g v)) < 2 ^ 3 \<and> unat (snd (g_ab g v)) < 2 ^ 3)"
  by (rule inithex_pairs) simp_all

section \<open>A table of one entry\<close>

text \<open>
  For 17 keys and a normal hash \<open>initalen\<close> chooses \<open>blen = 1\<close>. The second state of \<open>hexn\<close> then shifts by 32 places, which is undefined;
  a machine that takes the number of places modulo 32 does not shift at all, and \<open>b\<close> is the key itself, far outside \<open>tabb\<close>.\<close>

theorem hex_pair_outside:
  assumes "length keys = 17" "hashtype form = INT_HT" "hperfect form = NORMAL_HP" "speed form = SLOW_HS" "g_i g0 = 2"
    and top: "k \<in> set keys" "k' \<in> set keys" "bit (hash_k k) 31 \<noteq> bit (hash_k k') 31"
  shows "initalen old 32 (length keys) form 5 = Ok (32, 1, 32) \<and>
    (\<exists>ks g. inithex form g0 keys 32 1 32 2 = Ok (False, ks, g) \<and> (\<exists>k\<in>set ks. bit (b_k k) 31))"
proof -
  let ?g = "setlow keys g0"
  have "bit (diffbits ?g) 31" using setlow_bits_of [of keys g0] top unfolding bits_of_def by auto
  then have "31 \<le> highbit ?g" by (rule setlow_bounds(2))
  moreover have "highbit ?g < 32" using setlow_bits_of [of keys g0] unfolding bits_of_def by blast
  ultimately have hi: "highbit ?g = 31" by simp
  have "ab_low_high ?g 32 0 v = (shr v (lowbit ?g) AND 31, v)" for v by (simp add: ab_low_high_def hi shr_def shl_def)
  moreover have "hexn keys 2 32 1 5 0 ?g = Ok (set_pairs (ab_low_high ?g 32 0) keys, ?g\<lparr>g_ab := ab_low_high ?g 32 0, g_i := 3\<rparr>)"
    using assms(5) by (simp add: hexn.simps setlow_def Let_def)
  ultimately have "inithex form g0 keys 32 1 32 2 = Ok (False, map (\<lambda>k. k\<lparr>a_k := shr (hash_k k) (lowbit ?g) AND 31, b_k := hash_k k\<rparr>) keys,
      ?g\<lparr>g_ab := ab_low_high ?g 32 0, g_i := 3\<rparr>)"
    using assms(1) mylog2_power [of 5] mylog2_power [of 0] by (simp add: inithex_def Let_def set_pairs_def)
  moreover have "initalen old 32 17 form 5 = Ok (32, 1, 32)" using assms(2-4) by (simp add: initalen_def Let_def)
  ultimately show ?thesis using assms(1) top by fastforce
qed

end
