(* ===== verification/Spec2Isabelle.thy ===== *)
theory Spec2Isabelle
  imports Spsc Lfq Stacks Arrays Utils Http Hattrie_Free Csv_Roundtrip Ahash_Errors Ahash_Freelist City_Table Tokens Perfect_Code Perfhex_Pairs
begin

text \<open>
  \<^bold>\<open>ayubd-ng\<close> is an event-driven network server in C. A main thread polls descriptors with epoll,
  runs the \<open>ready\<close> function of the hook (\<open>hook_t\<close>) an event belongs to, and hands the hook to one
  of a fixed number of workers through a lock-free single-producer single-consumer queue and
  a semaphore. The worker runs the hook's \<open>process\<close> function, which receives the data, calls the
  module's handler and sends the reply, and drops the reference the hand-over took. Hooks own
  their memory through a pool and are freed when their count drops to zero. Modules (the HTTP
  module here) register handlers and configuration in associative arrays, which are HAT-tries.

  \<^bold>\<open>Theories\<close>, bottom up, each with the file under \<open>src/\<close> it models:

  \<^item> Prelude: machine types, results that can fault, heaps, byte blocks. No program code. A
    fault stands for what C leaves undefined (NULL, freed or foreign memory), a failed \<open>assert\<close>,
    \<open>exit\<close>, a division by zero, or a loop that used up its fuel.
  \<^item> Fifo, Lfq (\<open>lfq.c\<close>), Stailq (\<open>stailq_*\<close> in \<open>main.h\<close>): queues. Locales \<open>fifo\<close> and \<open>fifo_total\<close> are
    the contract, interpreted on both queues; the queue macros' test for emptiness is shown wrong.
  \<^item> Spsc: the divider queue with its semaphore, memory access by memory access, as a step
    relation of two threads under sequential consistency: no fault, first-in first-out, delivery.
  \<^item> Stacks (\<open>stack.c\<close>, \<open>slist_*\<close> in \<open>main.h\<close>): locale \<open>lifo\<close>, interpreted on both.
  \<^item> Arrays (\<open>assoc_array*.h\<close>, \<open>assoc_array_impl.c\<close>): arrays as finite maps, and the key builder.
  \<^item> Store: locale \<open>array_store\<close>, what the array macros need of the store under them. It is
    interpreted on the array hash table and on the HAT-trie.
  \<^item> Bytes, Murmur (\<open>lib/hat-trie/src/murmurhash3.c\<close>), Ahtable (\<open>ahtable.c\<close>): the hash table on its byte
    arrays, with growing, both iterators, saving and loading. Ahtable_Iter: the common iterator;
    locale \<open>table_iter\<close> is the contract of an iterator, interpreted on all three.
  \<^item> Hattrie (\<open>hat-trie.c\<close>: model, invariant, walking), Hattrie_Split (\<open>hattrie_split\<close> keeps the map and
    makes progress), Hattrie_Map (the operations refine a finite map), Hattrie_Iter (the iterators
    and the copying macro \<open>array_dup\<close>), Hattrie_Free (\<open>hattrie_free\<close>, \<open>hattrie_clear\<close>, \<open>hattrie_sizeof\<close>).
  \<^item> Csv (\<open>lib/libcsv/libcsv.c\<close>: model), Csv_Safety (well-formedness under every sequence of calls,
    incremental parsing), Csv_Roundtrip (what is written is read back).
  \<^item> Ahash (\<open>lib/atomic_hash/src/atomic_hash.c\<close>: model of one thread), Ahash_Pool (the pool of nodes and its
    free list), Ahash_Inv (every node is free or in one seat), Ahash_Seats, Ahash_Loops (locale
    \<open>seat_action\<close>: what an action on a seat must keep for the searches to be right, interpreted on the
    three actions), Ahash_Safe (all operations), Ahash_Map (they refine a map), Ahash_Errors (where
    they do not), Ahash_Freelist (the free list under any number of threads, access by access).
  \<^item> City (\<open>lib/atomic_hash/src/hash_city.c\<close>): CityHash over blocks of bytes. City_Table: the atomic hash
    with that hash function.
  \<^item> Tokens (\<open>str_tokens.c\<close>): splitting and replacing in strings.
  \<^item> Lookupa (\<open>lib/perfect/lookupa.c\<close>) and Perfect (\<open>lib/perfect/perfect.c\<close>): the perfect-hash generator, from the
    initial hash of the keys to the search over salts. Perfect_Path (applying an augmenting path, or rolling it
    back), Perfect_Search (the queue of the search, \<open>augment\<close> and \<open>perfect\<close>), Perfect_Find (\<open>permute\<close>, the
    initial hash, \<open>findhash\<close>, and where the code is wrong), Perfect_Code (the program it writes, as what
    it computes).
  \<^item> Perfhex (\<open>lib/perfect/perfhex.c\<close>): the initial hash of integer keys, with the expressions it prints as the functions they
    compute. Perfhex_Four (hashes of three to eight keys without a table), Perfhex_Pairs (the state machine \<open>hexn\<close>).
    \<open>findhash\<close> is proved for string keys, so it takes \<open>inithex\<close> as an argument.
  \<^item> Utils (\<open>utils.c\<close>, \<open>defines.h\<close>): string classifiers and character macros.
  \<^item> Hooks (\<open>hook_*\<close> in \<open>main.h\<close>), Sockets and Listener (\<open>ioqueue.c\<close>, \<open>ioqueue_socket.c\<close>), Server (\<open>main.c\<close>),
    Http (\<open>modules/http/mod_http.c\<close>): the server itself. The state is a store of hooks, blocks,
    arrays, descriptors and epoll registrations; \<open>srv_step\<close> interleaves events of the main thread
    with the workers. Locale \<open>request_handler\<close> is what a module's handler must keep, interpreted on
    the HTTP handler.
  \<^item> This theory: the properties of the whole server, from start-up over every reachable state.

  \<^bold>\<open>What is shown.\<close> The main thread never touches freed memory and reference counts are exact; hooks
  that were closed are freed when the last worker is done; a hook is with one worker at a time.
  Queues, stacks, the hash table and the HAT-trie refine their abstract data types. Iterating
  over a trie gives its map, in order when asked for; copying gives the same map; freeing
  releases every node once. The listener code leaks no descriptor and registers what it opens. The HTTP reply is
  well-formed, and the exact conditions are given under which \<open>captcha_get\<close> and \<open>array_key_make\<close> stay
  inside their buffers. The CSV parser stays inside its buffer under any calls and its writer
  and parser are inverse. The atomic hash keeps every node in one place under any
  operations and is a map for entries that do not expire; its free list neither loses nor
  gives out a node twice as long as no thread sleeps through 2^32 changes. CityHash reads only
  the key and never gives a half that is 0. The tokenizer returns the fields of a string. The
  perfect-hash generator ends, stays inside its tables, and the program it writes for string keys is a perfect hash; for
  integer keys the hashes without a table are perfect and always found for three and four keys, and otherwise the pairs that
  are stored are those the program computes. Where the code fails its purpose the failure is a theorem.

  \<^bold>\<open>Fuel and bounds.\<close> The loop of \<open>hattrie_get\<close> that splits full buckets has fuel \<open>256 * (length + 1)\<close>;
  each split strictly decreases a weight below that, so it never runs out. The loops of the trie
  iterators have fuel as an argument, and the theorems say that there is a number from which on
  every fuel gives the same result. The recursions that free and measure a trie have fuel too;
  32768 is enough, since no path is longer than the longest key. The loop of \<open>new_node\<close> allocates a
  block per round and has one round more than there are blocks. The loop of \<open>str_tokens\<close> has fuel as an
  argument; more than the length of the string is enough unless the delimiter is a regular
  expression. The search over salts has fuel as an argument; 129024 rounds are enough for string keys. All other loops are total functions with a termination proof. Table keys are at most 32767 bytes, the limit of the
  2-byte length encoding; HAT-trie keys in the refinement are C strings with their NUL, as
  \<open>cstr\<close> and the array macros build them. CSV sizes and the counts of tables are 64-bit words
  where the code lets them wrap.

  \<^bold>\<open>Parameters.\<close> The kernel (\<open>accept\<close>, \<open>recvmsg\<close>, \<open>socket\<close>, \<open>bind\<close>, \<open>listen\<close>, \<open>epoll\<close>), \<open>getaddrinfo\<close>, \<open>inet_pton\<close>,
  \<open>realloc\<close>, the clock, the allocator of
  the atomic hash and of the tokenizer, PCRE, the CRC instruction, the rounding of \<open>pow\<close> and the http-parser library (a submodule that is not in the tree) answer through
  arguments of the definitions.

  \<^bold>\<open>Not modelled.\<close> The coroutine build (\<open>lib/libaco\<close>, assembly and stack switching), the optional Redis,
  Hyperscan, Lua, PH7, UnQLite and AIO parts (calls into foreign libraries), the captcha
  generator (drawing), generated parsers (\<open>old_parser\<close>, \<open>clang.c\<close>), in the perfect-hash
  generator the text it writes and the search over salts for integer keys, \<open>uthash.h\<close> and \<open>pstdint.h\<close> (vendored macros), the printing of
  statistics, tests, demos and backups of older versions.
\<close>

section \<open>A concrete start\<close>

text \<open>
  One worker, one TCP listener on descriptor 4. The hook of the worker is at address 1, that of
  the listener at address 2.
\<close>

definition demo_st :: start_env where
  "demo_st = \<lparr>st_usable = (\<lambda>n. max n 24), st_str = (\<lambda>v. Some []),
     st_getaddrinfo = (\<lambda>_ _ _. Some [\<lparr>rp_family = 2, rp_socktype = 1, rp_protocol = 6\<rparr>]),
     st_socks = (\<lambda>_. [\<lparr>s_fd = 4, s_bind = True, s_mem = True\<rparr>]), st_listens = [], st_node = 1000, st_serv = 1001\<rparr>"

lemma demo_start:
  "\<exists>s. ayubd_start demo_st demo_env 1 1024 [True] 7 demo_world = Ok (0, s) \<and> pending s = [] \<and> nworkers s = 1 \<and>
     fmlookup (epoll (wd s)) 4 = Some 2 \<and> fds (wd s) = {|4, 0, 1, 2|} \<and> wstate s = [W_Idle] \<and> wsem s = [0]"
  by (simp add: ayubd_start_def ayubd_init_def ayubd_config_read_def init_worker_def aset_def array_set_def
      array_get_def Let_def int_of_value_def demo_world_def hook_new_def fresh_addr_simps stailq_new_lf_spsc_def
      stailq_alloc_node_def stailq_new_def STAILQ_INIT_def STAILQ_INSERT_TAIL_def SYMTBLSZ_def NR_SYS_NWORKERS_def
      NR_SYS_NEVENTS_def NR_SYS_SYSPTR_def UDATASZ_def UD_CORE_SYSPTR_def UD_CORE_NUM_def array_new_def
      module_start_def module_args_def http_routes_def ioqueue_socket_prepare_def andthen_def assert_that_def
      reading_def array_aget_def demo_st_def demo_env_def prepare_hints_def ioqueue_new_def ioqueue_set_flags_def
      CHECKFLAG_def ioqueue_flags prepare_candidates_def return_def iq_push_fd_def ioqueue_socket_deploy_def
      deploy_one_def deploy_route_def ahaskey_def array_key_exists_def EVQ_ADD_def UD_MOD_HTTP_ROUTE_def max_def)

lemma demo_start_ok: "start_ok demo_st 1 [True] demo_world"
  by (simp add: start_ok_def demo_st_def demo_world_def)

lemma demo_polled:
  "\<exists>s0 s. ayubd_start demo_st demo_env 1 1024 [True] 7 demo_world = Ok (0, s0) \<and>
     srv_reach http_code s0 s \<and> pending s = [(Some 2, EPOLLIN)] \<and> nworkers s = 1 \<and>
     fds (wd s) = {|4, 0, 1, 2|} \<and> wstate s = [W_Idle]"
proof -
  from demo_start obtain s0 where s0: "ayubd_start demo_st demo_env 1 1024 [True] 7 demo_world = Ok (0, s0)"
    "pending s0 = []" "nworkers s0 = 1" "fmlookup (epoll (wd s0)) 4 = Some 2" "fds (wd s0) = {|4, 0, 1, 2|}"
    "wstate s0 = [W_Idle]" "wsem s0 = [0]" by blast
  have "events_ok (wd s0) [(Some 2, EPOLLIN)]" using s0(4) by (auto simp: events_ok_def)
  from srv_reach.step [OF srv_reach.boot srv_step.poll [OF s0(2) this]] s0 show ?thesis
    by (intro exI [of _ s0] exI [of _ "s0\<lparr>pending := [(Some 2, EPOLLIN)]\<rparr>"]) simp
qed

section \<open>The running server\<close>

lemma run_inv:
  assumes "ayubd_start st env nproc openmax gots sp w = Ok (ret, s0)" and "start_ok st nproc gots w"
    and "srv_reach http_code s0 s"
  obtains vss where "srv_inv_at s vss"
  using http.reach_inv [OF assms(3) start_inv [OF assms(1,2)]] by (auto simp: srv_inv_def)











end
